(* ===== verification/Prelude.thy ===== *)
theory Prelude
  imports Main "HOL-Library.Word"
begin

text \<open>
  Shared vocabulary of the development: the names of the machine types of the Go code, the
  little-endian and big-endian byte codings every on-disk structure uses, the slice operation
  \<open>copy\<close>, and the generic lemmas on words and lists that the component theories share.
  The collection \<open>le_simps\<close> gathers the rewrite rules for byte codings.
\<close>

unbundle bit_operations_syntax

named_theorems le_simps \<open>rewrite rules for the byte codings\<close>

type_synonym byte = "8 word"
type_synonym u16 = "16 word"
type_synonym u32 = "32 word"
type_synonym u64 = "64 word"

section \<open>Errors of the input and output primitives\<close>

text \<open>
  \<open>EOF\<close>, \<open>UnexpectedEOF\<close> and \<open>ShortWrite\<close> are the sentinel errors of package \<open>io\<close>;
  \<open>DeadlineExceeded\<close> is reported by the deadline reader; \<open>Failed\<close> stands for any other error of
  the file system or of an underlying reader or writer.
\<close>

datatype io_error = EOF | UnexpectedEOF | ShortWrite | DeadlineExceeded | Failed string

text \<open>The \<open>if err != nil\<close> chain on plain results, and its inversion.\<close>

definition sbind :: "'e + 'a \<Rightarrow> ('a \<Rightarrow> 'e + 'b) \<Rightarrow> 'e + 'b" where
  "sbind m f = (case m of Inl e \<Rightarrow> Inl e | Inr x \<Rightarrow> f x)"

lemma sbind_simps [simp]: "sbind (Inl e) f = Inl e" "sbind (Inr x) f = f x"
  by (simp_all add: sbind_def)

lemma sbind_Inr_iff: "sbind m f = Inr y \<longleftrightarrow> (\<exists>x. m = Inr x \<and> f x = Inr y)"
  by (cases m) auto

lemma sbind_Inl_iff: "sbind m f = Inl e \<longleftrightarrow> m = Inl e \<or> (\<exists>x. m = Inr x \<and> f x = Inl e)"
  by (cases m) auto

section \<open>Byte codings\<close>

text \<open>
  \<open>le_bytes n w\<close> is what \<open>binary.LittleEndian.PutUintN\<close> stores for the low \<open>n\<close> bytes of \<open>w\<close>;
  \<open>le_word\<close> is the corresponding \<open>binary.LittleEndian.UintN\<close>.
\<close>

fun le_bytes :: "nat \<Rightarrow> 'a::len word \<Rightarrow> byte list" where
  "le_bytes 0 w = []"
| "le_bytes (Suc n) w = ucast w # le_bytes n (drop_bit 8 w)"

fun le_word :: "byte list \<Rightarrow> 'a::len word" where
  "le_word [] = 0"
| "le_word (b # bs) = ucast b OR push_bit 8 (le_word bs)"

definition be_bytes :: "nat \<Rightarrow> 'a::len word \<Rightarrow> byte list" where
  "be_bytes n w = rev (le_bytes n w)"

definition be_word :: "byte list \<Rightarrow> 'a::len word" where
  "be_word bs = le_word (rev bs)"

lemma length_le_bytes [simp, le_simps]: "length (le_bytes n w) = n"
  by (induction n arbitrary: w) auto

lemma length_be_bytes [simp, le_simps]: "length (be_bytes n w) = n"
  by (simp add: be_bytes_def)

lemma le_word_le_bytes:
  "(le_word (le_bytes n w) :: 'a::len word) = take_bit (8 * n) (w :: 'a word)"
proof (induction n arbitrary: w)
  case 0
  then show ?case by simp
next
  case (Suc n)
  have "bit (le_word (le_bytes (Suc n) w) :: 'a word) i
        = bit (take_bit (8 * Suc n) w) i" for i
    using Suc.IH [of "drop_bit 8 w"]
    by (auto simp: bit_simps dest: bit_imp_le_length)
  then show ?case by (simp add: bit_eq_iff)
qed

lemma le_word_le_bytes_full [simp, le_simps]:
  "LENGTH('a) \<le> 8 * n \<Longrightarrow> (le_word (le_bytes n w) :: 'a::len word) = w"
  by (simp add: le_word_le_bytes take_bit_word_eq_self)

lemma le_bytes_le_word [simp, le_simps]:
  "8 * length bs \<le> LENGTH('a) \<Longrightarrow>
     le_bytes (length bs) (le_word bs :: 'a::len word) = bs"
proof (induction bs)
  case Nil
  then show ?case by simp
next
  case (Cons b bs)
  let ?w = "le_word bs :: 'a word"
  have "(ucast (ucast b OR push_bit 8 ?w) :: byte) = b"
    by (rule bit_word_eqI) (use Cons.prems in \<open>auto simp: bit_simps\<close>)
  moreover have "bit (drop_bit 8 (ucast b OR push_bit 8 ?w)) i = bit (take_bit (LENGTH('a) - 8) ?w) i" for i
    by (auto simp: bit_simps dest: bit_imp_le_length)
  then have shifted: "drop_bit 8 (ucast b OR push_bit 8 ?w) = take_bit (LENGTH('a) - 8) ?w"
    by (simp add: bit_eq_iff)
  moreover have "le_bytes m (take_bit k v) = le_bytes m v" if "8 * m \<le> k" for m k and v :: "'a word"
    using that
  proof (induction m arbitrary: k v)
    case (Suc m)
    have "(ucast (take_bit k v) :: byte) = ucast v"
      by (rule bit_word_eqI) (use Suc.prems in \<open>auto simp: bit_simps\<close>)
    moreover have "drop_bit 8 (take_bit k v) = take_bit (k - 8) (drop_bit 8 v)"
      by (simp add: drop_bit_take_bit)
    ultimately show ?case using Suc.IH [of "k - 8" "drop_bit 8 v"] Suc.prems by simp
  qed simp
  ultimately show ?case using Cons by simp
qed

lemma be_word_be_bytes_full [simp, le_simps]:
  "LENGTH('a) \<le> 8 * n \<Longrightarrow> (be_word (be_bytes n w) :: 'a::len word) = w"
  by (simp add: be_word_def be_bytes_def)

lemma be_bytes_be_word [simp, le_simps]:
  "8 * length bs \<le> LENGTH('a) \<Longrightarrow>
     be_bytes (length bs) (be_word bs :: 'a::len word) = bs"
  using le_bytes_le_word [of "rev bs", where 'a = 'a] by (simp add: be_word_def be_bytes_def)

section \<open>Slices\<close>

text \<open>
  \<open>copy(dst[i:], src)\<close> of Go: overwrites as many bytes of \<open>dst\<close> from index \<open>i\<close> as both sides allow.
\<close>

definition copy_at :: "'a list \<Rightarrow> nat \<Rightarrow> 'a list \<Rightarrow> 'a list" where
  "copy_at dst i src = take i dst @ take (length dst - i) src @ drop (i + length src) dst"

lemma length_copy_at [simp]: "i \<le> length dst \<Longrightarrow> length (copy_at dst i src) = length dst"
  by (simp add: copy_at_def)

lemma copy_at_nth:
  assumes "i \<le> length dst" "j < length dst"
  shows "copy_at dst i src ! j =
         (if i \<le> j \<and> j < i + length src then src ! (j - i) else dst ! j)"
  using assms by (auto simp: copy_at_def nth_append min_def)

section \<open>Words\<close>

lemma unat_of_nat_small [simp]: "n < 2 ^ LENGTH('a) \<Longrightarrow> unat (of_nat n :: 'a::len word) = n"
  by (simp add: unat_of_nat take_bit_nat_eq_self)

lemma word_of_nat_less: "(of_nat n :: 'a::len word) < w" if "n < unat w"
proof -
  have "unat w < 2 ^ LENGTH('a)" by (rule unsigned_less)
  then have "n < 2 ^ LENGTH('a)" using that by linarith
  then show ?thesis using that by (simp add: word_less_nat_alt)
qed

lemma unat_drop: "unat (drop_bit n w) = unat w div 2 ^ n" for w :: "'a::len word"
  unfolding unat_drop_bit_eq unfolding drop_bit_eq_div ..

lemma unat_ucast_up:
  "LENGTH('a) \<le> LENGTH('b) \<Longrightarrow> unat (ucast (w :: 'a::len word) :: 'b::len word) = unat w"
  by (simp add: unsigned_ucast_eq take_bit_nat_eq_self_iff less_le_trans [OF unsigned_less])

lemma unat_add_small:
  "unat a + unat b < 2 ^ LENGTH('a) \<Longrightarrow> unat (a + b :: 'a::len word) = unat a + unat b"
  by (simp add: unat_word_ariths)

lemma unat_sum_list:
  "sum_list (map unat xs) < 2 ^ LENGTH('a) \<Longrightarrow>
     unat (sum_list xs :: 'a::len word) = sum_list (map unat xs)"
  by (induction xs) (auto simp: unat_add_small)

lemma unat_add_le:
  fixes a b c :: "'a::len word"
  assumes "unat a + unat b \<le> unat c"
  shows "unat (a + b) = unat a + unat b"
  using unsigned_less [of c] assms by (intro unat_add_small) (rule le_less_trans)

lemma unat_sum_list_le:
  fixes xs :: "'a::len word list" and c :: "'a word"
  assumes "sum_list (map unat xs) \<le> unat c"
  shows "unat (sum_list xs) = sum_list (map unat xs)"
  using unsigned_less [of c] assms by (intro unat_sum_list) (rule le_less_trans)

lemma sum_list_bound:
  "(\<And>x. x \<in> set xs \<Longrightarrow> f x \<le> (B::nat)) \<Longrightarrow> sum_list (map f xs) \<le> B * length xs"
  by (induction xs) (auto intro!: add_mono)

lemma sum_list_ge_length:
  "(\<And>x. x \<in> set xs \<Longrightarrow> 1 \<le> f x) \<Longrightarrow> length xs \<le> sum_list (map f xs :: nat list)"
  by (induction xs) fastforce+

end
