(* ===== verification/Limits.thy ===== *)
theory Limits
  imports Prelude
begin

text \<open>
  Package \<open>internal/security\<close>, file \<open>limits.go\<close>: the budget that bounds the untrusted data one
  command may expand, and the compression-ratio check. The \<open>int\<close> and \<open>int64\<close> fields are \<open>int\<close>
  here: the invariant \<open>budget_ok\<close> keeps every value of a run far inside their range. Time is an
  \<open>int\<close>; the zero \<open>time.Time\<close> is \<open>None\<close>.
\<close>

section \<open>The limits\<close>

definition MaxOperationDuration :: int where
  "MaxOperationDuration = 30 * 60 * 1000000000"

definition copyBufferSize :: nat where
  "copyBufferSize = 262144"

definition MaxArchiveEntries :: nat where "MaxArchiveEntries = 100000"
definition MaxMetadataItems :: nat where "MaxMetadataItems = 1000000"
definition MaxMetadataBytes :: nat where "MaxMetadataBytes = 67108864"
definition MaxCompressionRatio :: nat where "MaxCompressionRatio = 1000"
definition CompressionRatioSlack :: nat where "CompressionRatioSlack = 1048576"
definition MaxFileBytes :: nat where "MaxFileBytes = 17179869184"
definition MaxArchiveBytes :: nat where "MaxArchiveBytes = 68719476736"
definition MaxTotalBytes :: nat where "MaxTotalBytes = 68719476736"

lemmas limit_defs = MaxArchiveEntries_def MaxMetadataItems_def MaxMetadataBytes_def
  MaxCompressionRatio_def CompressionRatioSlack_def MaxFileBytes_def MaxArchiveBytes_def
  MaxTotalBytes_def

section \<open>The budget\<close>

record budget =
  entries :: int
  expanded :: int \<comment> \<open>the field \<open>bytes\<close>\<close>
  maxBytes :: int
  deadline :: "int option"

datatype limit_error =
    TooManyEntries
  | EntryTooLarge
  | RatioExceeded
  | ExpandedLimit
  | ExtractionBudget

definition new_budget :: budget where
  "new_budget = \<lparr>entries = 0, expanded = 0, maxBytes = 0, deadline = None\<rparr>"

definition SetCompressedBytes :: "budget \<Rightarrow> int \<Rightarrow> budget" where
  "SetCompressedBytes b compressed =
     (let b = b\<lparr>maxBytes := int MaxTotalBytes\<rparr> in
      if compressed < 0 then b
      else if compressed > (int MaxTotalBytes - int CompressionRatioSlack) div int MaxCompressionRatio then b
      else b\<lparr>maxBytes := min (int MaxTotalBytes)
                            (compressed * int MaxCompressionRatio + int CompressionRatioSlack)\<rparr>)"

definition CheckCompressionRatio :: "u64 \<Rightarrow> u64 \<Rightarrow> limit_error option" where
  "CheckCompressionRatio exp compressed =
     (if exp \<le> of_nat CompressionRatioSlack
         \<or> compressed > (NOT 0 - of_nat CompressionRatioSlack) div of_nat MaxCompressionRatio
      then None
      else if exp > compressed * of_nat MaxCompressionRatio + of_nat CompressionRatioSlack
      then Some RatioExceeded
      else None)"

definition AddEntry :: "budget \<Rightarrow> u64 \<Rightarrow> budget \<times> limit_error option" where
  "AddEntry b declared =
     (if entries b \<ge> int MaxArchiveEntries then (b, Some TooManyEntries)
      else
        let b = b\<lparr>entries := entries b + 1\<rparr> in
        if declared > of_nat MaxFileBytes then (b, Some EntryTooLarge) else (b, None))"

text \<open>
  \<open>io.CopyBuffer\<close> from a \<open>LimitedReader\<close> over the \<open>deadlineReader\<close>, with a buffer of
  \<open>copyBufferSize\<close> bytes. The source and the destination are arbitrary: one event per loop
  iteration gives the time of the read, how many bytes the source offers, the error it reports with
  them, how many of the bytes the destination takes and the error it reports. A reader whose events
  have run out is at end of file.
\<close>

record io_event =
  now :: int
  offered :: nat
  read_err :: "io_error option"
  accepted :: nat
  write_err :: "io_error option"

fun copy_loop ::
  "int \<Rightarrow> nat \<Rightarrow> nat \<Rightarrow> io_event list \<Rightarrow> nat \<times> io_error option" where
  "copy_loop dl N written evs =
     (if N = 0 then (written, None)
      else case evs of
        [] \<Rightarrow> (written, None)
      | ev # evs \<Rightarrow>
          let (nr, er) = (if now ev > dl then (0, Some DeadlineExceeded)
                          else (min (offered ev) (min N copyBufferSize), read_err ev));
              nw = min (accepted ev) nr
          in if nr > 0 \<and> write_err ev \<noteq> None then (written + nw, write_err ev)
             else if nr > 0 \<and> nw \<noteq> nr then (written + nw, Some ShortWrite)
             else case er of
                    Some EOF \<Rightarrow> (written + nw, None)
                  | Some e \<Rightarrow> (written + nw, Some e)
                  | None \<Rightarrow> copy_loop dl (N - nr) (written + nw) evs)"

declare copy_loop.simps [simp del]

definition effective_max :: "budget \<Rightarrow> int" where
  "effective_max b = (if maxBytes b = 0 then int MaxTotalBytes else maxBytes b)"

definition Copy ::
  "budget \<Rightarrow> int \<Rightarrow> io_event list \<Rightarrow> budget \<times> nat \<times> (limit_error + io_error) option" where
  "Copy b t0 evs =
     (let b = (if deadline b = None then b\<lparr>deadline := Some (t0 + MaxOperationDuration)\<rparr> else b);
          maximum = (if maxBytes b = 0 then int MaxTotalBytes else maxBytes b);
          remaining = maximum - expanded b
      in if remaining \<le> 0 then (b, 0, Some (Inl ExpandedLimit))
         else
           let limit = min (int MaxFileBytes) remaining;
               (n, err) = copy_loop (the (deadline b)) (nat (limit + 1)) 0 evs
           in if int n > limit then (b, n, Some (Inl ExtractionBudget))
              else (b\<lparr>expanded := expanded b + int n\<rparr>, n, map_option Inr err))"

section \<open>What the copy loop and the budget guarantee\<close>

lemma copy_loop_bounds:
  "copy_loop dl N written evs = (n, err) \<Longrightarrow> written \<le> n \<and> n \<le> written + N"
proof (induction evs arbitrary: N written)
  case Nil
  then show ?case by (simp add: copy_loop.simps [of _ _ _ "[]"] split: if_splits)
next
  case (Cons ev evs)
  obtain nr er where step: "(if now ev > dl then (0, Some DeadlineExceeded)
      else (min (offered ev) (min N copyBufferSize), read_err ev)) = (nr, er)"
    by (metis surj_pair)
  obtain nw where nw: "min (accepted ev) nr = nw" by simp
  from step nw have le: "nr \<le> N" "nw \<le> nr" by (auto split: if_splits)
  have unfold: "copy_loop dl N written (ev # evs) =
    (if N = 0 then (written, None)
     else if nr > 0 \<and> write_err ev \<noteq> None then (written + nw, write_err ev)
     else if nr > 0 \<and> nw \<noteq> nr then (written + nw, Some ShortWrite)
     else case er of Some EOF \<Rightarrow> (written + nw, None) | Some e \<Rightarrow> (written + nw, Some e)
          | None \<Rightarrow> copy_loop dl (N - nr) (written + nw) evs)"
    by (subst copy_loop.simps) (use le in \<open>auto simp: step nw Let_def split: option.splits io_error.splits\<close>)
  show ?case
    using Cons.prems Cons.IH [of "N - nr" "written + nw"] le
    unfolding unfold by (fastforce split: if_splits option.splits io_error.splits)
qed

lemma limit_nat_values [simp]:
  "int MaxTotalBytes = 68719476736" "int MaxFileBytes = 17179869184"
  "int MaxCompressionRatio = 1000" "int CompressionRatioSlack = 1048576"
  "int MaxArchiveEntries = 100000"
  by (simp_all add: limit_defs)

definition budget_ok :: "budget \<Rightarrow> bool" where
  "budget_ok b \<longleftrightarrow>
     0 \<le> entries b \<and> entries b \<le> int MaxArchiveEntries \<and>
     0 \<le> expanded b \<and> expanded b \<le> effective_max b \<and>
     0 \<le> maxBytes b \<and> maxBytes b \<le> int MaxTotalBytes"

text \<open>A command configures its budget once and then admits entries and copies data.\<close>

inductive budget_run :: "budget \<Rightarrow> budget \<Rightarrow> bool" where
  start: "budget_run b b"
| admit: "budget_run b b' \<Longrightarrow> AddEntry b' declared = (b'', err) \<Longrightarrow> budget_run b b''"
| transfer: "budget_run b b' \<Longrightarrow> Copy b' t0 evs = (b'', n, cerr) \<Longrightarrow> budget_run b b''"

lemma SetCompressedBytes_eq:
  "0 \<le> compressed \<Longrightarrow>
     SetCompressedBytes b compressed =
       b\<lparr>maxBytes := min (int MaxTotalBytes) (compressed * 1000 + 1048576)\<rparr>"
  by (auto simp: SetCompressedBytes_def Let_def min_def)

lemma SetCompressedBytes_ok: "budget_ok (SetCompressedBytes new_budget compressed)"
  by (auto simp: SetCompressedBytes_def new_budget_def budget_ok_def effective_max_def Let_def min_def)

lemma AddEntry_ok: "AddEntry b declared = (b', err) \<Longrightarrow> budget_ok b \<Longrightarrow> budget_ok b'"
  by (auto simp: AddEntry_def budget_ok_def effective_max_def Let_def split: if_splits)

lemma AddEntry_maxBytes: "AddEntry b declared = (b', err) \<Longrightarrow> maxBytes b' = maxBytes b"
  by (auto simp: AddEntry_def Let_def split: if_splits)

lemma Copy_cases:
  assumes "Copy b t0 evs = (b', n, err)"
  obtains (exhausted) "effective_max b \<le> expanded b" "n = 0" "err = Some (Inl ExpandedLimit)"
      "expanded b' = expanded b" "maxBytes b' = maxBytes b" "entries b' = entries b"
    | (over) "expanded b < effective_max b"
      "int n = min (int MaxFileBytes) (effective_max b - expanded b) + 1"
      "err = Some (Inl ExtractionBudget)"
      "expanded b' = expanded b" "maxBytes b' = maxBytes b" "entries b' = entries b"
    | (within) ioerr where "expanded b < effective_max b"
      "int n \<le> min (int MaxFileBytes) (effective_max b - expanded b)"
      "err = map_option Inr ioerr"
      "expanded b' = expanded b + int n" "maxBytes b' = maxBytes b" "entries b' = entries b"
proof -
  define b1 where "b1 = (if deadline b = None then b\<lparr>deadline := Some (t0 + MaxOperationDuration)\<rparr> else b)"
  have same: "expanded b1 = expanded b" "maxBytes b1 = maxBytes b" "entries b1 = entries b"
    "effective_max b1 = effective_max b"
    by (auto simp: b1_def effective_max_def)
  define limit where "limit = min (int MaxFileBytes) (effective_max b - expanded b)"
  obtain m e where loop: "copy_loop (the (deadline b1)) (nat (limit + 1)) 0 evs = (m, e)"
    by fastforce
  note bounds = copy_loop_bounds [OF loop]
  have copy: "Copy b t0 evs =
     (if effective_max b - expanded b \<le> 0 then (b1, 0, Some (Inl ExpandedLimit))
      else if int m > limit then (b1, m, Some (Inl ExtractionBudget))
      else (b1\<lparr>expanded := expanded b1 + int m\<rparr>, m, map_option Inr e))"
    unfolding Copy_def Let_def b1_def [symmetric] same effective_max_def [symmetric]
      limit_def [symmetric] loop
    using same by (simp add: effective_max_def [symmetric])
  show ?thesis
  proof (cases "effective_max b - expanded b \<le> 0")
    case True
    with copy assms same show ?thesis by (intro exhausted) auto
  next
    case False
    then have "0 < limit" by (simp add: limit_def)
    with bounds have "int m \<le> limit + 1" by linarith
    show ?thesis
    proof (cases "int m > limit")
      case True
      with \<open>int m \<le> limit + 1\<close> False copy assms same show ?thesis
        by (intro over) (auto simp: limit_def)
    next
      case le: False
      with False copy assms same show ?thesis
        by (intro within [where ioerr = e]) (auto simp: limit_def)
    qed
  qed
qed

lemma Copy_ok: "Copy b t0 evs = (b', n, err) \<Longrightarrow> budget_ok b \<Longrightarrow> budget_ok b'"
  by (erule Copy_cases) (auto simp: budget_ok_def effective_max_def split: if_splits)

lemma Copy_maxBytes: "Copy b t0 evs = (b', n, err) \<Longrightarrow> maxBytes b' = maxBytes b"
  by (erule Copy_cases) auto

lemma budget_run_ok: "budget_run b b' \<Longrightarrow> budget_ok b \<Longrightarrow> budget_ok b' \<and> maxBytes b' = maxBytes b"
  by (induction rule: budget_run.induct)
     (auto dest: AddEntry_ok AddEntry_maxBytes Copy_ok Copy_maxBytes)

section \<open>Properties\<close>

lemma ratio_bound_exact:
  fixes c :: nat
  assumes "c > (2 ^ 64 - 1 - 1048576) div 1000"
  shows "2 ^ 64 \<le> c * 1000 + 1048576"
proof -
  have "(2 ^ 64 - 1 - 1048576) div 1000 + 1 \<le> c" using assms by simp
  then have "((2 ^ 64 - 1 - 1048576) div 1000 + 1) * 1000 \<le> c * (1000::nat)" by (rule mult_le_mono1)
  then show ?thesis by simp
qed

text \<open>
  C32. However a command interleaves admitting entries and copying data, the budget never records
  more than \<open>MaxArchiveEntries\<close> entries, nor more expanded bytes than the ceiling derived from the
  compressed size, which is \<open>min MaxTotalBytes (1000 * compressed + 1 MiB)\<close> for a known size.
\<close>

theorem budget_never_exceeded:
  assumes "budget_run (SetCompressedBytes new_budget compressed) b" and "0 \<le> compressed"
  shows "entries b \<le> 100000 \<and>
         expanded b \<le> min 68719476736 (compressed * 1000 + 1048576)"
proof -
  let ?b0 = "SetCompressedBytes new_budget compressed"
  have "budget_ok b" "maxBytes b = maxBytes ?b0"
    using budget_run_ok [OF assms(1) SetCompressedBytes_ok] by auto
  then show ?thesis
    using assms(2) by (auto simp: budget_ok_def effective_max_def SetCompressedBytes_eq split: if_splits)
qed

theorem budget_never_exceeded_witness:
  "expanded (fst (Copy (SetCompressedBytes new_budget 5) 0
      [\<lparr>now = 1, offered = 7, read_err = Some EOF, accepted = 9, write_err = None\<rparr>])) = 7 \<and>
   entries (fst (Copy (SetCompressedBytes new_budget 5) 0
      [\<lparr>now = 1, offered = 7, read_err = Some EOF, accepted = 9, write_err = None\<rparr>])) \<le> 100000"
proof -
  let ?evs = "[\<lparr>now = 1, offered = 7, read_err = Some EOF, accepted = 9, write_err = None\<rparr>]"
  let ?b = "SetCompressedBytes new_budget 5"
  have run: "budget_run ?b (fst (Copy ?b 0 ?evs))"
    using budget_run.transfer [OF budget_run.start, of ?b 0 ?evs] by (metis prod.collapse)
  have "expanded (fst (Copy ?b 0 ?evs)) = 7"
    by (simp add: SetCompressedBytes_eq new_budget_def Copy_def Let_def copy_loop.simps
        copyBufferSize_def MaxOperationDuration_def)
  with budget_never_exceeded [OF run] show ?thesis by simp
qed

text \<open>
  C35. The compression-ratio check is exact: it refuses a member precisely when its expanded size,
  computed without wrap-around, exceeds a thousand times the compressed size by more than 1 MiB. The
  guards against \<open>uint64\<close> overflow neither admit nor refuse anything else.
\<close>

theorem compression_ratio_exact:
  "CheckCompressionRatio exp compressed = Some RatioExceeded \<longleftrightarrow>
     unat exp > unat compressed * 1000 + 1048576"
proof (cases "unat compressed > (2 ^ 64 - 1 - 1048576) div 1000")
  case True
  then have "(NOT 0 - of_nat CompressionRatioSlack) div of_nat MaxCompressionRatio < compressed"
    by (simp add: limit_defs word_less_nat_alt unat_div)
  moreover have "unat exp < 2 ^ 64" using unsigned_less [of exp] by simp
  ultimately show ?thesis
    using ratio_bound_exact [OF True] by (simp add: CheckCompressionRatio_def)
next
  case False
  then have small: "unat compressed * 1000 + 1048576 < 2 ^ 64" by simp
  have "\<not> (NOT 0 - of_nat CompressionRatioSlack) div of_nat MaxCompressionRatio < compressed"
    using False by (simp add: limit_defs word_less_nat_alt unat_div)
  moreover have "unat (compressed * 1000 + 1048576) = unat compressed * 1000 + 1048576"
    using small by (simp add: unat_word_ariths)
  ultimately show ?thesis
    by (auto simp: CheckCompressionRatio_def limit_defs word_less_nat_alt word_le_nat_alt)
qed

end
