(* ===== verification/Reader.thy ===== *)
theory Reader
  imports Limits
begin

text \<open>
  The byte source of the 7z header parser. \<open>internal/sevenzip/reader.go\<close> parses the header from a
  \<open>bufio.Reader\<close> (4096 bytes of buffer over a section of the file, or 64 KiB over a decoder), whose
  behaviour is observable: \<open>Read\<close> returns at most what is buffered. The model keeps the buffer and
  the pieces in which the source delivers the rest. Parsers are functions from a reader to an error
  or a value and the reader left behind; \<open>pbind\<close> is the \<open>if err != nil\<close> chain of the Go code.
  The second half holds the readers of numbers and bit vectors of \<open>internal/sevenzip/types.go\<close>.
\<close>

section \<open>Buffered readers\<close>

text \<open>
  \<open>buf\<close> is the buffered data, \<open>cap\<close> the size of the buffer, \<open>chunks\<close> what the source delivers in
  its next reads (a read asks for at most so many bytes and leaves the rest of a longer piece for the
  next one; reads that deliver nothing are skipped), \<open>fin\<close> the error it reports at the end, in a
  read of its own.
\<close>

record reader =
  buf :: "byte list"
  chunks :: "byte list list"
  cap :: nat
  fin :: io_error

datatype parse_error =
    Io io_error
  | Uint64NonZero
  | Uint64TooLarge
  | IncompleteRead
  | UnexpectedID
  | MissingUnpackInfo
  | WrongNumberOfFilenames
  | InvalidBindPair
  | Message string
  | Panic \<comment> \<open>an index out of range: the Go program would panic\<close>

type_synonym 'a parser = "reader \<Rightarrow> parse_error + 'a \<times> reader"

definition preturn :: "'a \<Rightarrow> 'a parser" where
  "preturn x r = Inr (x, r)"

definition pfail :: "parse_error \<Rightarrow> 'a parser" where
  "pfail e r = Inl e"

definition pbind :: "'a parser \<Rightarrow> ('a \<Rightarrow> 'b parser) \<Rightarrow> 'b parser" where
  "pbind p f r = (case p r of Inl e \<Rightarrow> Inl e | Inr (x, r') \<Rightarrow> f x r')"

definition passert :: "bool \<Rightarrow> parse_error \<Rightarrow> 'a parser \<Rightarrow> 'a parser" where
  "passert c e p = (if c then p else pfail e)"

text \<open>A loop that runs a reader \<open>n\<close> times and collects the results.\<close>

fun prepeat :: "nat \<Rightarrow> 'a parser \<Rightarrow> 'a list parser" where
  "prepeat 0 p = preturn []"
| "prepeat (Suc n) p = pbind p (\<lambda>x. pbind (prepeat n p) (\<lambda>xs. preturn (x # xs)))"

named_theorems parser_simps \<open>unfolding of the parser combinators\<close>

lemmas [parser_simps] = preturn_def pfail_def pbind_def passert_def

lemma pbind_Inr_iff:
  "pbind p f r = Inr (y, r') \<longleftrightarrow> (\<exists>x r0. p r = Inr (x, r0) \<and> f x r0 = Inr (y, r'))"
  by (auto simp: pbind_def split: sum.splits)

lemma pbind_InrE:
  assumes "pbind p f r = Inr (y, r')"
  obtains x r0 where "p r = Inr (x, r0)" "f x r0 = Inr (y, r')"
  using assms by (auto simp: pbind_Inr_iff)

lemma passert_Inr_iff [simp]: "passert c e p r = Inr z \<longleftrightarrow> c \<and> p r = Inr z"
  by (simp add: passert_def pfail_def)

lemma preturn_Inr_iff [simp]: "preturn x r = Inr (y, r') \<longleftrightarrow> y = x \<and> r' = r"
  by (auto simp: preturn_def)

lemma pfail_Inr_iff [simp]: "pfail e r = Inr z \<longleftrightarrow> False"
  by (simp add: pfail_def)

lemma pbind_Inr [simp]: "p r = Inr (x, r0) \<Longrightarrow> pbind p f r = f x r0"
  by (simp add: pbind_def)

lemma prepeat_length: "prepeat n p r = Inr (xs, r') \<Longrightarrow> length xs = n"
  by (induction n arbitrary: r xs) (auto simp: pbind_Inr_iff)

lemma prepeat_allI:
  assumes "prepeat n p r = Inr (xs, r')" "\<And>r x r'. p r = Inr (x, r') \<Longrightarrow> P x"
  shows "\<forall>x \<in> set xs. P x"
  using assms(1) by (induction n arbitrary: r xs) (auto simp: pbind_Inr_iff dest: assms(2))

subsection \<open>ReadByte and Read\<close>

fun pull :: "nat \<Rightarrow> byte list list \<Rightarrow> byte list \<times> byte list list" where
  "pull m [] = ([], [])"
| "pull m ([] # cs) = pull m cs"
| "pull m (c # cs) = (if length c \<le> m then (c, cs) else (take m c, drop m c # cs))"

definition ReadByte :: "byte parser" where
  "ReadByte r =
     (case buf r of
        b # bs \<Rightarrow> Inr (b, r\<lparr>buf := bs\<rparr>)
      | [] \<Rightarrow>
          (case pull (cap r) (chunks r) of
             ([], _) \<Rightarrow> Inl (Io (fin r))
           | (b # bs, cs) \<Rightarrow> Inr (b, r\<lparr>buf := bs, chunks := cs\<rparr>)))"

text \<open>\<open>bufio.Reader.Read\<close>: one read of the source at most, and none while data is buffered.\<close>

definition Read :: "nat \<Rightarrow> byte list parser" where
  "Read n r =
     (if n = 0 then Inr ([], r)
      else if buf r \<noteq> [] then Inr (take n (buf r), r\<lparr>buf := drop n (buf r)\<rparr>)
      else if n \<ge> cap r then
        (case pull n (chunks r) of
           ([], _) \<Rightarrow> Inl (Io (fin r))
         | (bs, cs) \<Rightarrow> Inr (bs, r\<lparr>chunks := cs\<rparr>))
      else
        (case pull (cap r) (chunks r) of
           ([], _) \<Rightarrow> Inl (Io (fin r))
         | (bs, cs) \<Rightarrow> Inr (take n bs, r\<lparr>buf := drop n bs, chunks := cs\<rparr>)))"

lemma pull_bound: "pull m cs = (bs, cs') \<Longrightarrow> length bs \<le> m"
  by (induction m cs rule: pull.induct) (auto split: if_splits)

lemma Read_bound: "Read n r = Inr (bs, r') \<Longrightarrow> length bs \<le> n"
  by (auto simp: Read_def dest: pull_bound split: if_splits list.splits prod.splits)

lemma Read_progress: "Read n r = Inr (bs, r') \<Longrightarrow> 0 < n \<Longrightarrow> 0 < length bs"
  by (auto simp: Read_def split: if_splits list.splits prod.splits)

text \<open>\<open>io.ReadFull\<close>, which \<open>binary.Read\<close> uses.\<close>

function read_full :: "nat \<Rightarrow> bool \<Rightarrow> byte list parser" where
  "read_full n started r =
     (if n = 0 then Inr ([], r)
      else case Read n r of
        Inl e \<Rightarrow> Inl (if e = Io EOF \<and> started then Io UnexpectedEOF else e)
      | Inr (bs, r') \<Rightarrow>
          (case read_full (n - length bs) True r' of
             Inl e \<Rightarrow> Inl e
           | Inr (cs, r'') \<Rightarrow> Inr (bs @ cs, r'')))"
  by pat_completeness auto
termination
  by (relation "measure (\<lambda>(n, _, _). n)") (auto dest: Read_progress)

declare read_full.simps [simp del]

definition ReadFull :: "nat \<Rightarrow> byte list parser" where
  "ReadFull n = read_full n False"

text \<open>\<open>binary.Read\<close> of a little-endian unsigned integer of \<open>n\<close> bytes.\<close>

definition readLE :: "nat \<Rightarrow> ('a::len) word parser" where
  "readLE n = pbind (ReadFull n) (\<lambda>bs. preturn (le_word bs))"

text \<open>\<open>io.CopyN(io.Discard, r, n)\<close>, which reads into a scratch buffer of 8192 bytes.\<close>

function Discard :: "nat \<Rightarrow> unit parser" where
  "Discard n r =
     (if n = 0 then Inr ((), r)
      else case Read (min 8192 n) r of
        Inl e \<Rightarrow> Inl e
      | Inr (bs, r') \<Rightarrow> Discard (n - length bs) r')"
  by pat_completeness auto
termination
  by (relation "measure (\<lambda>(n, _). n)") (auto dest: Read_progress)

declare Discard.simps [simp del]

subsection \<open>Readers whose data is buffered\<close>

lemma ReadByte_buffered [simp]: "ReadByte (r\<lparr>buf := b # bs\<rparr>) = Inr (b, r\<lparr>buf := bs\<rparr>)"
  by (simp add: ReadByte_def)

lemma Read_buffered [simp]:
  "bs \<noteq> [] \<Longrightarrow> Read (length bs) (r\<lparr>buf := bs @ cs\<rparr>) = Inr (bs, r\<lparr>buf := cs\<rparr>)"
  by (auto simp: Read_def)

lemma Read_zero [simp]: "Read 0 r = Inr ([], r)"
  by (simp add: Read_def)

lemma read_full_buffered:
  "read_full (length bs) started (r\<lparr>buf := bs @ cs\<rparr>) = Inr (bs, r\<lparr>buf := cs\<rparr>)"
  by (cases "bs = []") (simp_all add: read_full.simps [of "length bs"] read_full.simps [of 0])

lemma ReadFull_buffered [simp]:
  "length bs = n \<Longrightarrow> ReadFull n (r\<lparr>buf := bs @ cs\<rparr>) = Inr (bs, r\<lparr>buf := cs\<rparr>)"
  using read_full_buffered by (auto simp: ReadFull_def)

lemma readLE_buffered [simp]:
  "LENGTH('a) \<le> 8 * n \<Longrightarrow>
     readLE n (r\<lparr>buf := le_bytes n (w::'a::len word) @ cs\<rparr>) = Inr (w, r\<lparr>buf := cs\<rparr>)"
  by (simp add: readLE_def preturn_def)

lemma read_full_length: "read_full n started r = Inr (bs, r') \<Longrightarrow> length bs = n"
proof (induction n started r arbitrary: bs r' rule: read_full.induct)
  case (1 n started r)
  show ?case
  proof (cases "n = 0")
    case True
    with 1 show ?thesis by (simp add: read_full.simps [of 0])
  next
    case False
    with "1.prems" obtain cs r1 ds where *: "Read n r = Inr (cs, r1)"
      "read_full (n - length cs) True r1 = Inr (ds, r')" "bs = cs @ ds"
      by (auto simp: read_full.simps [of n] split: sum.splits prod.splits)
    with "1.IH" [OF False *(1) refl *(2)] Read_bound [OF *(1)] show ?thesis by simp
  qed
qed

subsection \<open>Parsers only consume\<close>

definition rsize :: "reader \<Rightarrow> nat" where
  "rsize r = length (buf r) + length (concat (chunks r))"

definition shrinks :: "'a parser \<Rightarrow> bool" where
  "shrinks p \<longleftrightarrow> (\<forall>r x r'. p r = Inr (x, r') \<longrightarrow> rsize r' \<le> rsize r)"

named_theorems shrink_intros \<open>parsers never lengthen the input\<close>

lemma shrinksD: "shrinks p \<Longrightarrow> p r = Inr (x, r') \<Longrightarrow> rsize r' \<le> rsize r"
  by (auto simp: shrinks_def)

lemma shrinks_preturn [shrink_intros]: "shrinks (preturn x)"
  by (simp add: shrinks_def)

lemma shrinks_pfail [shrink_intros]: "shrinks (pfail e)"
  by (simp add: shrinks_def)

lemma shrinks_pbind [shrink_intros]: "shrinks p \<Longrightarrow> (\<And>x. shrinks (f x)) \<Longrightarrow> shrinks (pbind p f)"
  unfolding shrinks_def pbind_Inr_iff by (meson order_trans)

lemma shrinks_passert [shrink_intros]: "shrinks p \<Longrightarrow> shrinks (passert c e p)"
  by (simp add: shrinks_def)

lemma shrinks_if [shrink_intros]: "shrinks p \<Longrightarrow> shrinks q \<Longrightarrow> shrinks (if c then p else q)"
  by simp

lemma shrinks_case_prod [shrink_intros]:
  "(\<And>a b. shrinks (f a b)) \<Longrightarrow> shrinks (case z of (a, b) \<Rightarrow> f a b)"
  by (cases z) simp

lemma shrinks_case_option [shrink_intros]:
  "shrinks p \<Longrightarrow> (\<And>x. shrinks (f x)) \<Longrightarrow> shrinks (case z of None \<Rightarrow> p | Some x \<Rightarrow> f x)"
  by (cases z) simp_all

lemma shrinks_prepeat [shrink_intros]: "shrinks p \<Longrightarrow> shrinks (prepeat n p)"
  by (induction n) (auto intro!: shrink_intros)

lemma pull_concat: "pull m cs = (bs, cs') \<Longrightarrow> concat cs = bs @ concat cs'"
  by (induction m cs rule: pull.induct) (auto split: if_splits)

lemma pull_length:
  "pull m cs = (bs, cs') \<Longrightarrow> length (concat cs) = length bs + length (concat cs')"
  by (drule pull_concat) simp

lemma ReadByte_rsize: "ReadByte r = Inr (b, r') \<Longrightarrow> rsize r = Suc (rsize r')"
  by (auto simp: ReadByte_def rsize_def dest!: pull_length split: list.splits prod.splits)

lemma Read_rsize: "Read n r = Inr (bs, r') \<Longrightarrow> rsize r = length bs + rsize r'"
  by (auto simp: Read_def rsize_def min_def dest!: pull_length split: list.splits prod.splits if_splits)

lemma shrinks_ReadByte [shrink_intros]: "shrinks ReadByte"
  by (auto simp: shrinks_def dest: ReadByte_rsize)

lemma shrinks_Read [shrink_intros]: "shrinks (Read n)"
  by (auto simp: shrinks_def dest: Read_rsize)

lemma read_full_rsize: "read_full n started r = Inr (bs, r') \<Longrightarrow> rsize r = length bs + rsize r'"
proof (induction n started r arbitrary: bs r' rule: read_full.induct)
  case (1 n started r)
  show ?case
  proof (cases "n = 0")
    case True
    with 1 show ?thesis by (simp add: read_full.simps [of 0])
  next
    case False
    with "1.prems" obtain cs r1 ds where *: "Read n r = Inr (cs, r1)"
      "read_full (n - length cs) True r1 = Inr (ds, r')" "bs = cs @ ds"
      by (auto simp: read_full.simps [of n] split: sum.splits prod.splits)
    with "1.IH" [OF False *(1) refl *(2)] Read_rsize [OF *(1)] show ?thesis by simp
  qed
qed

lemma shrinks_ReadFull [shrink_intros]: "shrinks (ReadFull n)"
  by (auto simp: shrinks_def ReadFull_def dest: read_full_rsize)

lemma shrinks_readLE [shrink_intros]: "shrinks (readLE n)"
  unfolding readLE_def by (intro shrink_intros)

lemma Discard_rsize: "Discard n r = Inr ((), r') \<Longrightarrow> rsize r = n + rsize r'"
proof (induction n r arbitrary: r' rule: Discard.induct)
  case (1 n r)
  show ?case
  proof (cases "n = 0")
    case True
    with 1 show ?thesis by (simp add: Discard.simps [of 0])
  next
    case False
    with "1.prems" obtain bs r1 where *: "Read (min 8192 n) r = Inr (bs, r1)"
      "Discard (n - length bs) r1 = Inr ((), r')"
      by (auto simp: Discard.simps [of n] split: sum.splits prod.splits)
    with "1.IH" [OF False *(1) refl *(2)] Read_rsize [OF *(1)] Read_bound [OF *(1)]
    show ?thesis by simp
  qed
qed

lemma shrinks_Discard [shrink_intros]: "shrinks (Discard n)"
  by (auto simp: shrinks_def dest: Discard_rsize)

subsection \<open>Parsers that never index out of range\<close>

definition safe :: "'a parser \<Rightarrow> bool" where
  "safe p \<longleftrightarrow> (\<forall>r. p r \<noteq> Inl Panic)"

named_theorems safe_intros \<open>parsers that never panic\<close>

lemma safe_preturn [safe_intros]: "safe (preturn x)"
  by (simp add: safe_def preturn_def)

lemma safe_pfail [safe_intros]: "e \<noteq> Panic \<Longrightarrow> safe (pfail e)"
  by (simp add: safe_def pfail_def)

lemma safe_pbind_if_result:
  "safe p \<Longrightarrow> (\<And>r x r'. p r = Inr (x, r') \<Longrightarrow> safe (f x)) \<Longrightarrow> safe (pbind p f)"
  by (auto simp: safe_def pbind_def split: sum.splits)

lemma safe_pbind [safe_intros]: "safe p \<Longrightarrow> (\<And>x. safe (f x)) \<Longrightarrow> safe (pbind p f)"
  by (rule safe_pbind_if_result)

lemma safe_passert [safe_intros]: "e \<noteq> Panic \<Longrightarrow> safe p \<Longrightarrow> safe (passert c e p)"
  by (simp add: passert_def safe_intros)

lemma safe_if [safe_intros]: "safe p \<Longrightarrow> safe q \<Longrightarrow> safe (if c then p else q)"
  by simp

lemma safe_case_prod [safe_intros]:
  "(\<And>a b. safe (f a b)) \<Longrightarrow> safe (case z of (a, b) \<Rightarrow> f a b)"
  by (cases z) simp

lemma safe_case_option [safe_intros]:
  "safe p \<Longrightarrow> (\<And>x. safe (f x)) \<Longrightarrow> safe (case z of None \<Rightarrow> p | Some x \<Rightarrow> f x)"
  by (cases z) simp_all

lemma safe_prepeat [safe_intros]: "safe p \<Longrightarrow> safe (prepeat n p)"
  by (induction n) (auto intro!: safe_intros)

lemma safe_ReadByte [safe_intros]: "safe ReadByte"
  by (auto simp: safe_def ReadByte_def split: list.splits prod.splits)

lemma safe_Read [safe_intros]: "safe (Read n)"
  by (auto simp: safe_def Read_def split: list.splits prod.splits if_splits)

lemma read_full_no_panic: "read_full n started r \<noteq> Inl Panic"
proof (induction n started r rule: read_full.induct)
  case (1 n started r)
  then show ?case
    using safe_Read [of n]
    by (subst read_full.simps) (auto simp: safe_def split: sum.splits prod.splits)
qed

lemma safe_ReadFull [safe_intros]: "safe (ReadFull n)"
  by (simp add: safe_def ReadFull_def read_full_no_panic)

lemma safe_readLE [safe_intros]: "safe (readLE n)"
  unfolding readLE_def by (intro safe_intros)

lemma safe_Discard [safe_intros]: "safe (Discard n)"
proof -
  have "Discard n r \<noteq> Inl Panic" for r
  proof (induction n r rule: Discard.induct)
    case (1 n r)
    then show ?case
      using safe_Read [of "min 8192 n"]
      by (subst Discard.simps) (auto simp: safe_def split: sum.splits prod.splits)
  qed
  then show ?thesis by (simp add: safe_def)
qed

subsection \<open>What the results of a parser satisfy\<close>

definition yields :: "'a parser \<Rightarrow> ('a \<Rightarrow> bool) \<Rightarrow> bool" where
  "yields p P \<longleftrightarrow> (\<forall>r x r'. p r = Inr (x, r') \<longrightarrow> P x)"

lemma yieldsI: "(\<And>r x r'. p r = Inr (x, r') \<Longrightarrow> P x) \<Longrightarrow> yields p P"
  by (auto simp: yields_def)

lemma yieldsD: "yields p P \<Longrightarrow> p r = Inr (x, r') \<Longrightarrow> P x"
  by (auto simp: yields_def)

lemma yields_any: "yields p (\<lambda>_. True)"
  by (simp add: yields_def)

lemma yields_preturn: "P x \<Longrightarrow> yields (preturn x) P"
  by (simp add: yields_def)

lemma yields_pfail: "yields (pfail e) P"
  by (simp add: yields_def)

lemma yields_pbind:
  "yields p Q \<Longrightarrow> (\<And>x. Q x \<Longrightarrow> yields (f x) P) \<Longrightarrow> yields (pbind p f) P"
  unfolding yields_def pbind_Inr_iff by blast

lemma yields_then: "(\<And>x. yields (f x) P) \<Longrightarrow> yields (pbind p f) P"
  unfolding yields_def pbind_Inr_iff by blast

lemma yields_passert: "(c \<Longrightarrow> yields p P) \<Longrightarrow> yields (passert c e p) P"
  by (auto simp: yields_def)

lemma yields_if: "(c \<Longrightarrow> yields p P) \<Longrightarrow> (\<not> c \<Longrightarrow> yields q P) \<Longrightarrow> yields (if c then p else q) P"
  by simp

lemma yields_case_prod: "(\<And>a b. z = (a, b) \<Longrightarrow> yields (f a b) P) \<Longrightarrow> yields (case z of (a, b) \<Rightarrow> f a b) P"
  by (cases z) simp

lemma yields_case_option:
  "(z = None \<Longrightarrow> yields p P) \<Longrightarrow> (\<And>x. z = Some x \<Longrightarrow> yields (f x) P) \<Longrightarrow>
     yields (case z of None \<Rightarrow> p | Some x \<Rightarrow> f x) P"
  by (cases z) simp_all

lemmas yields_intros = yields_pfail yields_passert yields_if yields_case_prod yields_case_option

end
