(* ===== verification/Streams.thy ===== *)
theory Streams
  imports Reader
begin

text \<open>
  \<open>internal/sevenzip/struct.go\<close>: the stream metadata of a 7z archive (coders, folders with their bind
  pairs, pack, unpack and substream tables), its validation, and the construction of the decoder
  graph of a folder. A \<open>nil\<close> pointer is \<open>None\<close>; a \<open>nil\<close> slice is \<open>[]\<close> (the parser never builds an
  empty non-nil table). Slices are indexed with \<open>idx\<close>, which is \<open>Panic\<close> out of range.
\<close>

section \<open>Metadata\<close>

record packInfo =
  position :: u64
  p_streams :: u64
  p_size :: "u64 list"
  p_digest :: "u32 list"

record coder =
  c_id :: "byte list"
  c_in :: u64
  c_out :: u64
  c_properties :: "byte list"

record bindPair =
  b_in :: u64
  b_out :: u64

record folder =
  f_in :: u64
  f_out :: u64
  packedStreams :: u64
  f_coder :: "coder list"
  f_bindPair :: "bindPair list"
  f_size :: "u64 list"
  f_packed :: "u64 list"

record unpackInfo =
  u_folder :: "folder list"
  u_digest :: "u32 list"
  u_digestDefined :: "bool list"

record subStreamsInfo =
  s_streams :: "u64 list"
  s_size :: "u64 list"
  s_digest :: "u32 list"
  s_digestDefined :: "bool list"

record streamsInfo =
  si_packInfo :: "packInfo option"
  si_unpackInfo :: "unpackInfo option"
  si_subStreamsInfo :: "subStreamsInfo option"

definition idx :: "'a list \<Rightarrow> nat \<Rightarrow> parse_error + 'a" where
  "idx xs i = (if i < length xs then Inr (xs ! i) else Inl Panic)"

lemma idx_simps [simp]:
  "i < length xs \<Longrightarrow> idx xs i = Inr (xs ! i)"
  by (simp add: idx_def)

definition findInBindPair :: "folder \<Rightarrow> u64 \<Rightarrow> bindPair option" where
  "findInBindPair f i = find (\<lambda>v. b_in v = i) (f_bindPair f)"

definition findOutBindPair :: "folder \<Rightarrow> u64 \<Rightarrow> bindPair option" where
  "findOutBindPair f i = find (\<lambda>v. b_out v = i) (f_bindPair f)"

definition unpackSize :: "folder \<Rightarrow> u64" where
  "unpackSize f =
     (if f_size f = [] then 0
      else case find (\<lambda>i. findOutBindPair f (of_nat i) = None) (rev [0..<length (f_size f)]) of
             Some i \<Rightarrow> f_size f ! i
           | None \<Rightarrow> last (f_size f))"

definition Folders :: "streamsInfo option \<Rightarrow> nat" where
  "Folders si =
     (case si of
        None \<Rightarrow> 0
      | Some s \<Rightarrow> (case si_unpackInfo s of None \<Rightarrow> 0 | Some u \<Rightarrow> length (u_folder u)))"

text \<open>The loop over the substream counts: the first folder whose cumulative count exceeds the file.\<close>

fun find_stream :: "u64 \<Rightarrow> u64 \<Rightarrow> nat \<Rightarrow> u64 list \<Rightarrow> (nat \<times> u64) option" where
  "find_stream file acc folder [] = None"
| "find_stream file acc folder (streams # rest) =
     (if file < acc + streams then Some (folder, streams)
      else find_stream file (acc + streams) (Suc folder) rest)"

definition FileFolderAndSize ::
  "streamsInfo option \<Rightarrow> int \<Rightarrow> parse_error + nat \<times> u64 \<times> u32" where
  "FileFolderAndSize si file =
     (case si of
        None \<Rightarrow> Inl (Message ''invalid file stream index'')
      | Some s \<Rightarrow>
     (case si_unpackInfo s of
        None \<Rightarrow> Inl (Message ''invalid file stream index'')
      | Some u \<Rightarrow>
        if file < 0 then Inl (Message ''invalid file stream index'')
        else
          sbind
            (case si_subStreamsInfo s of
               None \<Rightarrow> Inr (nat file, 1, 0)
             | Some ss \<Rightarrow>
                 (case find_stream (of_int file) 0 0 (s_streams ss) of
                    None \<Rightarrow> Inl (Message ''file stream index exceeds substreams'')
                  | Some (folder, streams) \<Rightarrow>
                      if length (s_digest ss) > 0 then
                        (if nat file \<ge> length (s_digest ss)
                         then Inl (Message ''missing substream checksum'')
                         else sbind (if length (s_digestDefined ss) = 0 then Inr True
                                     else idx (s_digestDefined ss) (nat file))
                                (\<lambda>d. if d then sbind (idx (s_digest ss) (nat file)) (\<lambda>crc. Inr (folder, streams, crc))
                                      else Inr (folder, streams, 0)))
                      else Inr (folder, streams, 0)))
            (\<lambda>(folder, streams, crc).
               if folder \<ge> length (u_folder u)
               then Inl (Message ''file stream references an invalid folder'')
               else if streams = 1 then
                 sbind
                   (if length (u_digest u) > 0 then
                      (if folder \<ge> length (u_digest u) then Inl (Message ''missing folder checksum'')
                       else sbind (if length (u_digestDefined u) = 0 then Inr True
                                   else idx (u_digestDefined u) folder)
                              (\<lambda>d. if d then idx (u_digest u) folder else Inr crc))
                    else Inr crc)
                   (\<lambda>crc. sbind (idx (u_folder u) folder) (\<lambda>f. Inr (folder, unpackSize f, crc)))
               else
                 (case si_subStreamsInfo s of
                    None \<Rightarrow> Inl Panic
                  | Some ss \<Rightarrow>
                      if nat file \<ge> length (s_size ss) then Inl (Message ''missing substream size'')
                      else sbind (idx (s_size ss) (nat file)) (\<lambda>size. Inr (folder, size, crc))))))"

section \<open>Validation\<close>

fun validate_folders :: "u64 \<Rightarrow> folder list \<Rightarrow> parse_error + u64" where
  "validate_folders packed [] = Inr packed"
| "validate_folders packed (f # fs) =
     (if f_coder f = [] \<or> f_size f = [] \<or> unpackSize f > of_nat MaxTotalBytes
      then Inl (Message ''invalid folder metadata'')
      else if packed > of_nat MaxMetadataItems - packedStreams f
      then Inl (Message ''too many packed streams'')
      else validate_folders (packed + packedStreams f) fs)"

definition validate_substreams :: "unpackInfo \<Rightarrow> subStreamsInfo \<Rightarrow> parse_error option" where
  "validate_substreams u ss =
     (if length (s_streams ss) \<noteq> length (u_folder u)
      then Some (Message ''substream folder count does not match'')
      else
        let files = sum_list (s_streams ss); multi = list_ex (\<lambda>count. count > 1) (s_streams ss) in
        if multi \<and> of_nat (length (s_size ss)) \<noteq> files
        then Some (Message ''substream size count does not match'')
        else if length (s_digest ss) \<noteq> 0 \<and> of_nat (length (s_digest ss)) \<noteq> files
        then Some (Message ''substream checksum count does not match'')
        else if length (s_digestDefined ss) \<noteq> 0 \<and> of_nat (length (s_digestDefined ss)) \<noteq> files
        then Some (Message ''substream checksum definition count does not match'')
        else None)"

definition validate :: "streamsInfo option \<Rightarrow> parse_error option" where
  "validate si =
     (case si of
        None \<Rightarrow> None
      | Some s \<Rightarrow>
     (case (si_packInfo s, si_unpackInfo s) of
        (Some p, Some u) \<Rightarrow>
          (case validate_folders 0 (u_folder u) of
             Inl e \<Rightarrow> Some e
           | Inr packed \<Rightarrow>
               if packed \<noteq> of_nat (length (p_size p)) \<or> p_streams p \<noteq> packed
               then Some (Message ''packed stream counts do not match'')
               else if length (p_digest p) \<noteq> 0 \<and> length (p_digest p) \<noteq> length (p_size p)
               then Some (Message ''packed stream checksum count does not match'')
               else if length (u_digest u) \<noteq> 0 \<and> length (u_digest u) \<noteq> length (u_folder u)
               then Some (Message ''folder checksum count does not match'')
               else if length (u_digestDefined u) \<noteq> 0
                       \<and> length (u_digestDefined u) \<noteq> length (u_folder u)
               then Some (Message ''folder checksum definition count does not match'')
               else (case si_subStreamsInfo s of
                       None \<Rightarrow> None
                     | Some ss \<Rightarrow> validate_substreams u ss))
      | (None, None) \<Rightarrow>
          (if si_subStreamsInfo s = None then None
           else Some (Message ''incomplete streams metadata''))
      | _ \<Rightarrow> Some (Message ''incomplete streams metadata'')))"

section \<open>Offsets of packed streams\<close>

fun sum_sizes :: "u64 list \<Rightarrow> nat \<Rightarrow> nat \<Rightarrow> u64 \<Rightarrow> parse_error + u64" where
  "sum_sizes sizes j 0 offset = Inr offset"
| "sum_sizes sizes j (Suc n) offset =
     sbind (idx sizes j) (\<lambda>size. sum_sizes sizes (Suc j) n (offset + size))"

fun folder_offset_loop :: "u64 list \<Rightarrow> folder list \<Rightarrow> u64 \<Rightarrow> u64 \<Rightarrow> parse_error + u64" where
  "folder_offset_loop sizes [] k offset = Inr offset"
| "folder_offset_loop sizes (f # fs) k offset =
     sbind (sum_sizes sizes (unat k) (unat (k + packedStreams f) - unat k) offset)
       (\<lambda>offset. folder_offset_loop sizes fs (k + packedStreams f) offset)"

definition folderOffset :: "packInfo \<Rightarrow> unpackInfo \<Rightarrow> nat \<Rightarrow> parse_error + u64" where
  "folderOffset p u folder =
     (if folder > length (u_folder u) then Inl Panic
      else sbind (folder_offset_loop (p_size p) (take folder (u_folder u)) 0 0)
             (\<lambda>offset. Inr (position p + offset)))"

section \<open>The decoder graph of a folder\<close>

text \<open>
  A reader is described by its construction: \<open>Section off n\<close> is the section reader over \<open>n\<close> packed
  bytes at \<open>off\<close>, \<open>Decoder i ins\<close> what the decompressor of coder \<open>i\<close> returns for its inputs. The
  registry of decompressors is a parameter: for a method id it gives \<open>None\<close> when the method is not
  registered, and otherwise a constructor that, from the properties, the unpacked size and the
  inputs, fails or tells whether the decoder takes a password, and if so whether setting it fails.
\<close>

datatype stream = Section u64 u64 | Decoder nat "stream list"

datatype decoder_kind = Plain | Crypto "parse_error option"

type_synonym registry =
  "byte list \<Rightarrow> (byte list \<Rightarrow> u64 \<Rightarrow> stream list \<Rightarrow> parse_error + decoder_kind) option"

definition coderReader ::
  "registry \<Rightarrow> folder \<Rightarrow> nat \<Rightarrow> stream list \<Rightarrow> parse_error + stream \<times> bool" where
  "coderReader reg f i readers =
     sbind (idx (f_coder f) i) (\<lambda>c.
       (case reg (c_id c) of
          None \<Rightarrow> Inl (Message ''unsupported compression algorithm'')
        | Some dcomp \<Rightarrow>
            sbind (idx (f_size f) i) (\<lambda>size.
              sbind (dcomp (c_properties c) size readers) (\<lambda>kind.
                (case kind of
                   Plain \<Rightarrow> Inr (Decoder i readers, False)
                 | Crypto None \<Rightarrow> Inr (Decoder i readers, True)
                 | Crypto (Some e) \<Rightarrow> Inl e)))))"

record graph =
  g_in :: "stream option list"
  g_out :: "stream option list"
  g_input :: u64
  g_output :: u64
  g_encrypted :: bool

text \<open>Attach the packed streams to the inputs the folder lists as packed.\<close>

fun attach_packed ::
  "packInfo \<Rightarrow> unpackInfo \<Rightarrow> nat \<Rightarrow> nat \<Rightarrow> u64 list \<Rightarrow> u64 \<Rightarrow> stream option list
     \<Rightarrow> parse_error + stream option list" where
  "attach_packed p u folder pos [] offset ins = Inr ins"
| "attach_packed p u folder pos (input # rest) offset ins =
     (if input \<ge> of_nat (length ins) then Inl (Message ''packed input index exceeds folder inputs'')
      else
        sbind (idx (p_size p) pos) (\<lambda>size.
        sbind (folderOffset p u folder) (\<lambda>base.
        sbind (idx ins (unat input)) (\<lambda>_.
          attach_packed p u folder (Suc pos) rest (offset + size)
            (ins[unat input := Some (Section (base + offset) size)])))))"

text \<open>Bind the inputs of one coder to the outputs of earlier coders.\<close>

fun bind_inputs ::
  "folder \<Rightarrow> stream option list \<Rightarrow> nat list \<Rightarrow> stream option list \<Rightarrow> parse_error + stream option list"
where
  "bind_inputs f outs [] ins = Inr ins"
| "bind_inputs f outs (j # js) ins =
     sbind (idx ins j) (\<lambda>cur.
       if cur \<noteq> None then bind_inputs f outs js ins
       else
         (case findInBindPair f (of_nat j) of
            None \<Rightarrow> Inl (Message ''cannot find bound stream'')
          | Some bp \<Rightarrow>
              if b_out bp \<ge> of_nat (length outs) then Inl (Message ''cannot find bound stream'')
              else
                sbind (idx outs (unat (b_out bp))) (\<lambda>bound.
                  if bound = None then Inl (Message ''cannot find bound stream'')
                  else bind_inputs f outs js (ins[j := bound]))))"

definition slice :: "nat \<Rightarrow> nat \<Rightarrow> 'a list \<Rightarrow> parse_error + 'a list" where
  "slice lo hi xs = (if lo \<le> hi \<and> hi \<le> length xs then Inr (drop lo (take hi xs)) else Inl Panic)"

definition coder_step ::
  "registry \<Rightarrow> folder \<Rightarrow> nat \<Rightarrow> coder \<Rightarrow> graph \<Rightarrow> parse_error + graph" where
  "coder_step reg f i c g =
     (if c_out c \<noteq> 1 then Inl (Message ''more than one output stream'')
      else if g_input g + c_in c > of_nat (length (g_in g))
              \<or> g_output g + c_out c > of_nat (length (g_out g))
      then Inl (Message ''coder stream indexes exceed folder metadata'')
      else
        sbind (bind_inputs f (g_out g) [unat (g_input g)..<unat (g_input g + c_in c)] (g_in g)) (\<lambda>ins.
        sbind (slice (unat (g_input g)) (unat (g_input g + c_in c)) ins) (\<lambda>args.
        sbind (coderReader reg f i (map the args)) (\<lambda>(rd, isEncrypted).
        sbind (idx (g_out g) (unat (g_output g))) (\<lambda>_.
          Inr \<lparr>g_in = ins, g_out = (g_out g)[unat (g_output g) := Some rd],
               g_input = g_input g + c_in c, g_output = g_output g + c_out c,
               g_encrypted = g_encrypted g \<or> isEncrypted\<rparr>)))))"

text \<open>An error carries the hint whether a decoder set up before it takes a password.\<close>

fun run_coders ::
  "registry \<Rightarrow> folder \<Rightarrow> nat \<Rightarrow> coder list \<Rightarrow> graph \<Rightarrow> (parse_error \<times> bool) + graph" where
  "run_coders reg f i [] g = Inr g"
| "run_coders reg f i (c # cs) g =
     (case coder_step reg f i c g of
        Inl e \<Rightarrow> Inl (e, g_encrypted g)
      | Inr g' \<Rightarrow> run_coders reg f (Suc i) cs g')"

definition no_hint :: "parse_error + 'a \<Rightarrow> (parse_error \<times> bool) + 'a" where
  "no_hint m = (case m of Inl e \<Rightarrow> Inl (e, False) | Inr x \<Rightarrow> Inr x)"

definition folderReader ::
  "registry \<Rightarrow> streamsInfo option \<Rightarrow> int \<Rightarrow> (parse_error \<times> bool) + stream \<times> u64 \<times> u32 \<times> bool" where
  "folderReader reg si folder =
     (case validate si of Some e \<Rightarrow> Inl (e, False) | None \<Rightarrow>
     (case (Option.bind si si_packInfo, Option.bind si si_unpackInfo) of
        (Some p, Some u) \<Rightarrow>
          if folder < 0 \<or> folder \<ge> int (length (u_folder u)) then Inl (Message ''invalid folder index'', False)
          else
            let k = nat folder; packedOffset = (\<Sum>g \<leftarrow> take k (u_folder u). length (f_packed g)) in
            sbind (no_hint (idx (u_folder u) k)) (\<lambda>f.
            if int packedOffset > int (length (p_size p)) - int (length (f_packed f))
            then Inl (Message ''packed stream index exceeds metadata'', False)
            else
              sbind (no_hint (attach_packed p u k packedOffset (f_packed f) 0
                                (replicate (unat (f_in f)) None))) (\<lambda>ins.
              sbind (run_coders reg f 0 (f_coder f)
                       \<lparr>g_in = ins, g_out = replicate (unat (f_out f)) None,
                        g_input = 0, g_output = 0, g_encrypted = False\<rparr>) (\<lambda>g.
                (case filter (\<lambda>i. findOutBindPair f (of_nat i) = None) [0..<unat (f_out f)] of
                   [i] \<Rightarrow>
                     sbind (no_hint (idx (g_out g) i)) (\<lambda>bound. case bound of
                        None \<Rightarrow> Inl (Message ''expecting one unbound output stream'', g_encrypted g)
                      | Some rd \<Rightarrow>
                          if u_digest u \<noteq> [] then
                            sbind (no_hint (if length (u_digestDefined u) = 0 then Inr True
                                            else idx (u_digestDefined u) k)) (\<lambda>defined.
                            if defined
                            then sbind (no_hint (idx (u_digest u) k))
                                   (\<lambda>crc. Inr (rd, unpackSize f, crc, g_encrypted g))
                            else Inr (rd, unpackSize f, 0, g_encrypted g))
                          else Inr (rd, unpackSize f, 0, g_encrypted g))
                 | _ \<Rightarrow> Inl (Message ''expecting one unbound output stream'', g_encrypted g)))))
      | _ \<Rightarrow> Inl (Panic, False)))"

end
