(* ===== verification/HeaderRead.thy ===== *)
theory HeaderRead
  imports Streams
begin

text \<open>
  \<open>internal/sevenzip/types.go\<close>: the parser of the 7z header, one definition per \<open>read...\<close> function.
  What the code takes from other modules is the parameter \<open>env\<close>: the conversion of a Windows file
  time to nanoseconds (\<open>github.com/bodgit/windows\<close>) and the decoder from UTF-16LE to UTF-8
  (\<open>golang.org/x/text\<close>).
\<close>

section \<open>Numbers and bit vectors\<close>

definition checkUint64 :: "u64 \<Rightarrow> bool \<Rightarrow> parse_error option" where
  "checkUint64 v nonZero =
     (if nonZero \<and> v = 0 then Some Uint64NonZero
      else if v > of_nat MaxMetadataItems then Some Uint64TooLarge
      else None)"

definition pcheck :: "parse_error option \<Rightarrow> 'a parser \<Rightarrow> 'a parser" where
  "pcheck e p = (case e of None \<Rightarrow> p | Some err \<Rightarrow> pfail err)"

definition LeadingZeros8 :: "byte \<Rightarrow> nat" where
  "LeadingZeros8 b = length (takeWhile (\<lambda>i. \<not> bit b i) [7, 6, 5, 4, 3, 2, 1, 0])"

text \<open>The loop \<open>for i := range l\<close> of \<open>readUint64\<close>.\<close>

fun read_tail :: "nat \<Rightarrow> nat \<Rightarrow> u64 \<Rightarrow> u64 parser" where
  "read_tail i 0 v = preturn v"
| "read_tail i (Suc n) v =
     pbind ReadByte (\<lambda>b. read_tail (Suc i) n (v OR push_bit (8 * i) (ucast b)))"

definition readUint64 :: "u64 parser" where
  "readUint64 =
     pbind ReadByte (\<lambda>b.
       let l = LeadingZeros8 (NOT b);
           v = (if l < 7 then push_bit (8 * l) (ucast (b AND (push_bit (8 - l) 1 - 1))) else 0)
       in read_tail 0 l v)"

definition readUint64Bounded :: "bool \<Rightarrow> u64 parser" where
  "readUint64Bounded nonZero =
     pbind readUint64 (\<lambda>v. pcheck (checkUint64 v nonZero) (preturn v))"

fun read_bool_loop :: "nat \<Rightarrow> byte \<Rightarrow> byte \<Rightarrow> bool list parser" where
  "read_bool_loop 0 b m = preturn []"
| "read_bool_loop (Suc n) b m =
     pbind (if m = 0 then pbind ReadByte (\<lambda>b. preturn (b, 0x80)) else preturn (b, m))
       (\<lambda>(b, m).
          pbind (read_bool_loop n b (drop_bit 1 m)) (\<lambda>rest. preturn ((b AND m \<noteq> 0) # rest)))"

definition readBool :: "u64 \<Rightarrow> bool list parser" where
  "readBool count = pcheck (checkUint64 count True) (read_bool_loop (unat count) 0 0)"

definition readOptionalBool :: "u64 \<Rightarrow> bool list parser" where
  "readOptionalBool count =
     pcheck (checkUint64 count True)
       (pbind ReadByte (\<lambda>all.
          if all = 0 then readBool count else preturn (replicate (unat count) True)))"

definition readSizes :: "u64 \<Rightarrow> u64 list parser" where
  "readSizes count = pcheck (checkUint64 count True) (prepeat (unat count) readUint64)"

text \<open>
  The loops \<open>for i := range defined\<close> over an array of \<open>n\<close> elements: an element is read where it is
  defined and keeps its zero value elsewhere. Behind the end of the array the index is out of range.
\<close>

fun read_defined :: "'a parser \<Rightarrow> 'a \<Rightarrow> nat \<Rightarrow> bool list \<Rightarrow> 'a list parser" where
  "read_defined p zero n [] = preturn (replicate n zero)"
| "read_defined p zero 0 (d # ds) = (if d then pfail Panic else read_defined p zero 0 ds)"
| "read_defined p zero (Suc n) (d # ds) =
     pbind (if d then p else preturn zero) (\<lambda>x.
       pbind (read_defined p zero n ds) (\<lambda>xs. preturn (x # xs)))"

definition readCRCDefined :: "u64 \<Rightarrow> (u32 list \<times> bool list) parser" where
  "readCRCDefined count =
     pcheck (checkUint64 count True)
       (pbind (readOptionalBool count) (\<lambda>defined.
        pbind (read_defined (readLE 4) 0 (unat count) defined) (\<lambda>crcs. preturn (crcs, defined))))"

definition readCRC :: "u64 \<Rightarrow> u32 list parser" where
  "readCRC count = pbind (readCRCDefined count) (\<lambda>(crcs, _). preturn crcs)"

section \<open>Streams\<close>

definition idEnd :: byte where "idEnd = 0"
definition idHeader :: byte where "idHeader = 1"
definition idArchiveProperties :: byte where "idArchiveProperties = 2"
definition idAdditionalStreamsInfo :: byte where "idAdditionalStreamsInfo = 3"
definition idMainStreamsInfo :: byte where "idMainStreamsInfo = 4"
definition idFilesInfo :: byte where "idFilesInfo = 5"
definition idPackInfo :: byte where "idPackInfo = 6"
definition idUnpackInfo :: byte where "idUnpackInfo = 7"
definition idSubStreamsInfo :: byte where "idSubStreamsInfo = 8"
definition idSize :: byte where "idSize = 9"
definition idCRC :: byte where "idCRC = 10"
definition idFolder :: byte where "idFolder = 11"
definition idCodersUnpackSize :: byte where "idCodersUnpackSize = 12"
definition idNumUnpackStream :: byte where "idNumUnpackStream = 13"
definition idEmptyStream :: byte where "idEmptyStream = 14"
definition idEmptyFile :: byte where "idEmptyFile = 15"
definition idName :: byte where "idName = 17"
definition idCTime :: byte where "idCTime = 18"
definition idATime :: byte where "idATime = 19"
definition idMTime :: byte where "idMTime = 20"
definition idWinAttributes :: byte where "idWinAttributes = 21"
definition idEncodedHeader :: byte where "idEncodedHeader = 23"
definition idStartPos :: byte where "idStartPos = 24"
definition idDummy :: byte where "idDummy = 25"

named_theorems id_defs \<open>the property identifiers\<close>

lemmas [id_defs] = idEnd_def idHeader_def idArchiveProperties_def idAdditionalStreamsInfo_def
  idMainStreamsInfo_def idFilesInfo_def idPackInfo_def idUnpackInfo_def idSubStreamsInfo_def
  idSize_def idCRC_def idFolder_def idCodersUnpackSize_def idNumUnpackStream_def idEmptyStream_def
  idEmptyFile_def idName_def idCTime_def idATime_def idMTime_def idWinAttributes_def
  idEncodedHeader_def idStartPos_def idDummy_def

definition readPackInfo :: "packInfo parser" where
  "readPackInfo =
     pbind readUint64 (\<lambda>pos.
     pbind (readUint64Bounded True) (\<lambda>streams.
     pbind ReadByte (\<lambda>id.
     pbind (if id = idSize
            then pbind (readSizes streams) (\<lambda>size. pbind ReadByte (\<lambda>id. preturn (size, id)))
            else preturn ([], id)) (\<lambda>(size, id).
     pbind (if id = idCRC
            then pbind (readCRC streams) (\<lambda>digest. pbind ReadByte (\<lambda>id. preturn (digest, id)))
            else preturn ([], id)) (\<lambda>(digest, id).
     passert (id = idEnd) UnexpectedID
       (preturn \<lparr>position = pos, p_streams = streams, p_size = size, p_digest = digest\<rparr>))))))"

text \<open>\<open>r.Read(buf)\<close> of exactly \<open>n\<close> bytes, a shorter read being an error.\<close>

definition read_exact :: "nat \<Rightarrow> byte list parser" where
  "read_exact n = pbind (Read n) (\<lambda>bs. passert (length bs = n) IncompleteRead (preturn bs))"

definition readCoder :: "coder parser" where
  "readCoder =
     pbind ReadByte (\<lambda>v.
     pbind (read_exact (unat (v AND 0xf))) (\<lambda>id.
     pbind (if v AND 0x10 \<noteq> 0
            then pbind (readUint64Bounded True) (\<lambda>i. pbind (readUint64Bounded True) (\<lambda>out. preturn (i, out)))
            else preturn (1, 1)) (\<lambda>(i, out).
     pbind (if v AND 0x20 \<noteq> 0
            then pbind (readUint64Bounded True) (\<lambda>size.
                   passert (size \<le> of_nat MaxMetadataBytes)
                     (Message ''coder properties exceed metadata limit'')
                     (read_exact (unat size)))
            else preturn []) (\<lambda>props.
     preturn \<lparr>c_id = id, c_in = i, c_out = out, c_properties = props\<rparr>))))"

definition readBindPair :: "u64 \<Rightarrow> u64 \<Rightarrow> bindPair parser" where
  "readBindPair ins outs =
     pbind (readUint64Bounded False) (\<lambda>i.
     pbind (readUint64Bounded False) (\<lambda>out.
     passert (\<not> (i \<ge> ins \<or> out \<ge> outs)) InvalidBindPair (preturn \<lparr>b_in = i, b_out = out\<rparr>)))"

definition readFolder :: "folder parser" where
  "readFolder =
     pbind (readUint64Bounded True) (\<lambda>n.
     passert (\<not> n > 64) (Message ''folder contains too many coders'')
     (pbind (prepeat (unat n) readCoder) (\<lambda>coders.
        let ins = sum_list (map c_in coders); outs = sum_list (map c_out coders) in
        pcheck (checkUint64 ins True)
       (pcheck (checkUint64 outs True)
       (passert (\<not> ins < outs) InvalidBindPair
         (let bindPairs = outs - 1 in
          pbind (prepeat (unat bindPairs) (readBindPair ins outs)) (\<lambda>bps.
            let f = \<lparr>f_in = ins, f_out = outs, packedStreams = ins - bindPairs, f_coder = coders,
                     f_bindPair = bps, f_size = [], f_packed = []\<rparr> in
            if packedStreams f = 1 then
              preturn (f\<lparr>f_packed := filter (\<lambda>i. findInBindPair f i = None)
                                      (map of_nat [0..<unat ins])\<rparr>)
            else
              pbind (prepeat (unat (packedStreams f))
                       (pbind readUint64 (\<lambda>p.
                          passert (\<not> (p \<ge> ins \<or> findInBindPair f p \<noteq> None)) InvalidBindPair
                            (preturn p)))) (\<lambda>packed.
              preturn (f\<lparr>f_packed := packed\<rparr>)))))))))"

text \<open>The loop over the folders that reads the unpacked sizes of their output streams.\<close>

fun read_folder_sizes :: "folder list \<Rightarrow> folder list parser" where
  "read_folder_sizes [] = preturn []"
| "read_folder_sizes (f # fs) =
     (let tot = sum_list (map c_out (f_coder f)) in
      pcheck (checkUint64 tot True)
        (pbind (prepeat (unat tot) readUint64) (\<lambda>size.
         pbind (read_folder_sizes fs) (\<lambda>rest. preturn (f\<lparr>f_size := size\<rparr> # rest)))))"

definition expectID :: "byte \<Rightarrow> 'a parser \<Rightarrow> 'a parser" where
  "expectID want p = pbind ReadByte (\<lambda>id. passert (id = want) UnexpectedID p)"

definition readUnpackInfo :: "unpackInfo parser" where
  "readUnpackInfo =
     expectID idFolder
     (pbind (readUint64Bounded True) (\<lambda>folders.
      passert (\<not> folders > of_nat MaxArchiveEntries) (Message ''too many folders'')
     (pbind ReadByte (\<lambda>external.
      passert (\<not> external > 0) (Message ''TODO readUnpackInfo external'')
     (pbind (prepeat (unat folders) readFolder) (\<lambda>fs.
      expectID idCodersUnpackSize
     (pbind (read_folder_sizes fs) (\<lambda>fs.
      pbind ReadByte (\<lambda>id.
      pbind (if id = idCRC
             then pbind (readCRCDefined folders) (\<lambda>(digest, defined).
                    pbind ReadByte (\<lambda>id. preturn (digest, defined, id)))
             else preturn ([], [], id)) (\<lambda>(digest, defined, id).
      passert (id = idEnd) UnexpectedID
        (preturn \<lparr>u_folder = fs, u_digest = digest, u_digestDefined = defined\<rparr>)))))))))))"

text \<open>
  Substreams. The three loops: the counts, the sizes (the last size of a folder is what remains of
  its unpacked size) and the digests (taken from the folder for a single stream whose folder
  digest is known, read otherwise). The sizes and the digests go to arrays of \<open>files\<close> elements;
  \<open>room\<close> is the number of elements from the current index to the end.
\<close>

fun check_substream_counts :: "u64 \<Rightarrow> u64 list \<Rightarrow> parse_error + u64" where
  "check_substream_counts files [] = Inr files"
| "check_substream_counts files (v # vs) =
     (if files > of_nat MaxArchiveEntries - v then Inl (Message ''too many substreams'')
      else check_substream_counts (files + v) vs)"

fun read_stream_sizes :: "u64 \<Rightarrow> nat \<Rightarrow> nat \<Rightarrow> u64 \<Rightarrow> (u64 list \<times> u64) parser" where
  "read_stream_sizes unpacked room 0 acc = preturn ([], acc)"
| "read_stream_sizes unpacked 0 (Suc n) acc = pfail Panic"
| "read_stream_sizes unpacked (Suc room) (Suc n) acc =
     pbind readUint64 (\<lambda>size.
     passert (\<not> acc > unpacked - min unpacked size) (Message ''substream sizes exceed folder size'')
     (pbind (read_stream_sizes unpacked room n (acc + size)) (\<lambda>(sizes, acc).
      preturn (size # sizes, acc))))"

fun read_substream_sizes :: "nat \<Rightarrow> (folder \<times> u64) list \<Rightarrow> u64 list parser" where
  "read_substream_sizes room [] = preturn (replicate room 0)"
| "read_substream_sizes room ((f, streams) # rest) =
     (if streams = 0 then read_substream_sizes room rest
      else
        pbind (read_stream_sizes (unpackSize f) room (unat streams - 1) 0) (\<lambda>(sizes, acc).
        passert (\<not> acc > unpackSize f) (Message ''substream sizes exceed folder size'')
        (passert (length sizes < room) Panic
        (pbind (read_substream_sizes (room - length sizes - 1) rest) (\<lambda>tail.
         preturn (sizes @ [unpackSize f - acc] @ tail))))))"

definition digest_known :: "unpackInfo \<Rightarrow> nat \<Rightarrow> u64 \<Rightarrow> bool" where
  "digest_known u i streams \<longleftrightarrow>
     streams = 1 \<and> i < length (u_digestDefined u) \<and> u_digestDefined u ! i"

fun count_unknown :: "unpackInfo \<Rightarrow> nat \<Rightarrow> u64 \<Rightarrow> u64 list \<Rightarrow> parse_error + u64" where
  "count_unknown u i unknown [] = Inr unknown"
| "count_unknown u i unknown (streams # rest) =
     (if digest_known u i streams then count_unknown u (Suc i) unknown rest
      else if unknown > of_nat MaxArchiveEntries - streams
      then Inl (Message ''too many substream checksums'')
      else count_unknown u (Suc i) (unknown + streams) rest)"

fun distribute_digests ::
  "unpackInfo \<Rightarrow> nat \<Rightarrow> nat \<Rightarrow> u64 list \<Rightarrow> u32 list \<Rightarrow> bool list
     \<Rightarrow> parse_error + (u32 list \<times> bool list \<times> u32 list)" where
  "distribute_digests u i room [] ds defs = Inr ([], [], ds)"
| "distribute_digests u i room (streams # rest) ds defs =
     (if digest_known u i streams then
        (if room = 0 then Inl Panic
         else
           sbind (idx (u_digest u) i) (\<lambda>d.
           sbind (distribute_digests u (Suc i) (room - 1) rest ds defs) (\<lambda>(xs, bs, left).
             Inr (d # xs, True # bs, left))))
      else
        let n = unat streams in
        if room < n \<or> length ds < n \<or> length defs < n then Inl Panic
        else
          sbind (distribute_digests u (Suc i) (room - n) rest (drop n ds) (drop n defs))
            (\<lambda>(xs, bs, left). Inr (take n ds @ xs, take n defs @ bs, left)))"

definition plift :: "parse_error + 'a \<Rightarrow> 'a parser" where
  "plift m = (case m of Inl e \<Rightarrow> pfail e | Inr x \<Rightarrow> preturn x)"

lemma plift_Inr_iff [simp]: "plift m r = Inr (x, r') \<longleftrightarrow> m = Inr x \<and> r' = r"
  by (auto simp: plift_def split: sum.splits)

definition readStreamCount :: "u64 parser" where
  "readStreamCount =
     pbind readUint64 (\<lambda>v.
       passert (\<not> v > of_nat MaxArchiveEntries) (Message ''too many substreams'') (preturn v))"

definition readSubStreamsInfo :: "unpackInfo \<Rightarrow> subStreamsInfo parser" where
  "readSubStreamsInfo u =
     (let fs = u_folder u in
      pbind ReadByte (\<lambda>id.
      pbind (if id = idNumUnpackStream
             then pbind (prepeat (length fs) readStreamCount) (\<lambda>streams.
                    pbind ReadByte (\<lambda>id. preturn (streams, id)))
             else preturn (replicate (length fs) 1, id)) (\<lambda>(streams, id).
      pbind (plift (check_substream_counts 0 streams)) (\<lambda>files.
      pcheck (checkUint64 files False)
     (pbind (if id = idSize
             then pbind (read_substream_sizes (unat files) (zip fs streams)) (\<lambda>size.
                    pbind ReadByte (\<lambda>id. preturn (size, id)))
             else preturn ([], id)) (\<lambda>(size, id).
      pbind (if id = idCRC
             then
               pbind (plift (count_unknown u 0 0 streams)) (\<lambda>unknown.
               pbind (readCRCDefined unknown) (\<lambda>(ud, udef).
               pbind (plift (distribute_digests u 0 (unat files) streams ud udef)) (\<lambda>(digest, defined, left).
               passert (left = [] \<and> length digest = unat files)
                 (Message ''substream checksum count does not match'')
               (pbind ReadByte (\<lambda>id. preturn (digest, defined, id))))))
             else preturn ([], [], id)) (\<lambda>(digest, defined, id).
      passert (id = idEnd) UnexpectedID
        (preturn \<lparr>s_streams = streams, s_size = size, s_digest = digest,
                  s_digestDefined = defined\<rparr>))))))))"

definition readStreamsInfo :: "streamsInfo parser" where
  "readStreamsInfo =
     pbind ReadByte (\<lambda>id.
     pbind (if id = idPackInfo
            then pbind readPackInfo (\<lambda>p. pbind ReadByte (\<lambda>id. preturn (Some p, id)))
            else preturn (None, id)) (\<lambda>(pack, id).
     pbind (if id = idUnpackInfo
            then pbind readUnpackInfo (\<lambda>u. pbind ReadByte (\<lambda>id. preturn (Some u, id)))
            else preturn (None, id)) (\<lambda>(unpack, id).
     pbind (if id = idSubStreamsInfo
            then (case unpack of
                    None \<Rightarrow> pfail MissingUnpackInfo
                  | Some u \<Rightarrow>
                      pbind (readSubStreamsInfo u) (\<lambda>ss.
                      pbind ReadByte (\<lambda>id. preturn (Some ss, id))))
            else preturn (None, id)) (\<lambda>(sub, id).
     let s = \<lparr>si_packInfo = pack, si_unpackInfo = unpack, si_subStreamsInfo = sub\<rparr> in
     passert (id = idEnd) UnexpectedID
       (pcheck (validate (Some s)) (preturn s))))))"

section \<open>Files\<close>

text \<open>A \<open>time.Time\<close> is \<open>None\<close> for the zero time and else its nanoseconds since the Unix epoch.\<close>

record env =
  ft_nanoseconds :: "u64 \<Rightarrow> int"
  utf16le_decode :: "byte list \<Rightarrow> byte list"

record fileHeader =
  h_name :: "byte list"
  h_created :: "int option"
  h_accessed :: "int option"
  h_modified :: "int option"
  h_attributes :: u32
  h_crc :: u32
  h_size :: u64
  isEmptyStream :: bool
  isEmptyFile :: bool

definition empty_header :: fileHeader where
  "empty_header = \<lparr>h_name = [], h_created = None, h_accessed = None, h_modified = None,
     h_attributes = 0, h_crc = 0, h_size = 0, isEmptyStream = False, isEmptyFile = False\<rparr>"

definition read_external :: "string \<Rightarrow> 'a parser \<Rightarrow> 'a parser" where
  "read_external msg p = pbind ReadByte (\<lambda>external. passert (\<not> external > 0) (Message msg) p)"

definition readTimes :: "env \<Rightarrow> u64 \<Rightarrow> int option list parser" where
  "readTimes ev count =
     pcheck (checkUint64 count True)
       (pbind (readOptionalBool count) (\<lambda>defined.
        read_external ''TODO readTimes external''
          (read_defined (pbind (readLE 8) (\<lambda>ft. preturn (Some (ft_nanoseconds ev ft)))) None (unat count) defined)))"

definition readAttributes :: "u64 \<Rightarrow> u32 list parser" where
  "readAttributes count =
     pcheck (checkUint64 count True)
       (pbind (readOptionalBool count) (\<lambda>defined.
        read_external ''TODO readAttributes external'' (read_defined (readLE 4) 0 (unat count) defined)))"

text \<open>
  \<open>splitNull\<close> under \<open>bufio.Scanner\<close>: the NUL-terminated pieces of the data, the last one with or
  without its NUL; a piece that fills the scanner's buffer of 64 KiB is an error.
\<close>

fun split_null :: "byte list \<Rightarrow> byte list \<Rightarrow> byte list list" where
  "split_null acc [] = (if acc = [] then [] else [rev acc])"
| "split_null acc (b # bs) = (if b = 0 then rev acc # split_null [] bs else split_null (b # acc) bs)"

definition scan_names :: "byte list \<Rightarrow> parse_error + byte list list" where
  "scan_names data =
     (let names = split_null [] data in
      if list_ex (\<lambda>n. length n \<ge> 65536) names
      then Inl (Io (Failed ''bufio.Scanner: token too long''))
      else Inr names)"

text \<open>Everything an \<open>io.LimitReader\<close> over the source yields before its end of file.\<close>

function read_limited :: "nat \<Rightarrow> byte list parser" where
  "read_limited n r =
     (if n = 0 then Inr ([], r)
      else case Read (min 4096 n) r of
        Inl e \<Rightarrow> (if e = Io EOF then Inr ([], r) else Inl e)
      | Inr (bs, r') \<Rightarrow>
          (case read_limited (n - length bs) r' of
             Inl e \<Rightarrow> Inl e
           | Inr (cs, r'') \<Rightarrow> Inr (bs @ cs, r'')))"
  by pat_completeness auto
termination
  by (relation "measure (\<lambda>(n, _). n)") (auto dest: Read_progress)

declare read_limited.simps [simp del]

text \<open>The names are counted; no slice has as many elements as would let the count of 64 bits wrap around.\<close>

definition readNames :: "env \<Rightarrow> u64 \<Rightarrow> u64 \<Rightarrow> byte list list parser" where
  "readNames ev count len =
     pcheck (checkUint64 count True)
       (passert (\<not> (len < 1 \<or> len > of_nat MaxMetadataBytes)) (Message ''file names exceed metadata limit'')
         (read_external ''TODO readNames external''
            (pbind (read_limited (unat (len - 1))) (\<lambda>data.
             pbind (plift (scan_names (utf16le_decode ev data))) (\<lambda>names.
             passert (length names = unat count) WrongNumberOfFilenames (preturn names))))))"

text \<open>The parsers never lengthen the input, which is why the property loop below ends.\<close>

lemma shrinks_pcheck [shrink_intros]: "shrinks p \<Longrightarrow> shrinks (pcheck e p)"
  by (cases e) (simp_all add: pcheck_def shrink_intros)

lemma shrinks_plift [shrink_intros]: "shrinks (plift m)"
  by (simp add: shrinks_def)

lemma shrinks_read_tail [shrink_intros]: "shrinks (read_tail i n v)"
  by (induction n arbitrary: i v) (auto intro!: shrink_intros)

lemma shrinks_readUint64 [shrink_intros]: "shrinks readUint64"
  unfolding readUint64_def Let_def by (intro shrink_intros)

lemma shrinks_read_bool_loop [shrink_intros]: "shrinks (read_bool_loop n b m)"
  by (induction n arbitrary: b m) (auto intro!: shrink_intros)

lemma shrinks_readBool [shrink_intros]: "shrinks (readBool n)"
  unfolding readBool_def by (intro shrink_intros)

lemma shrinks_readOptionalBool [shrink_intros]: "shrinks (readOptionalBool n)"
  unfolding readOptionalBool_def by (intro shrink_intros)

lemma shrinks_read_defined [shrink_intros]: "shrinks p \<Longrightarrow> shrinks (read_defined p z n ds)"
  by (induction p z n ds rule: read_defined.induct) (auto intro!: shrink_intros)

lemma shrinks_read_external [shrink_intros]: "shrinks p \<Longrightarrow> shrinks (read_external m p)"
  unfolding read_external_def by (intro shrink_intros)

lemma shrinks_readTimes [shrink_intros]: "shrinks (readTimes ev n)"
  unfolding readTimes_def by (intro shrink_intros)

lemma shrinks_readAttributes [shrink_intros]: "shrinks (readAttributes n)"
  unfolding readAttributes_def by (intro shrink_intros)

lemma read_limited_rsize: "read_limited n r = Inr (bs, r') \<Longrightarrow> rsize r = length bs + rsize r'"
proof (induction n r arbitrary: bs r' rule: read_limited.induct)
  case (1 n r)
  show ?case
  proof (cases "n = 0 \<or> Read (min 4096 n) r = Inl (Io EOF)")
    case True
    with "1.prems" show ?thesis by (auto simp: read_limited.simps [of n] split: if_splits)
  next
    case False
    with "1.prems" obtain cs r1 ds where *: "Read (min 4096 n) r = Inr (cs, r1)"
      "read_limited (n - length cs) r1 = Inr (ds, r')" "bs = cs @ ds"
      by (auto simp: read_limited.simps [of n] split: sum.splits prod.splits if_splits)
    with False "1.IH" [OF _ *(1) refl *(2)] Read_rsize [OF *(1)] show ?thesis by simp
  qed
qed

lemma shrinks_read_limited [shrink_intros]: "shrinks (read_limited n)"
  by (auto simp: shrinks_def dest: read_limited_rsize)

lemma shrinks_readNames [shrink_intros]: "shrinks (readNames ev n len)"
  unfolding readNames_def by (intro shrink_intros)

text \<open>
  The assignments of a property. The flags of empty streams are looked up for every file, and the
  set ones are counted; of the others the list is run through, and the file of the same index assigned.
\<close>

fun set_empty_streams :: "bool list \<Rightarrow> fileHeader list \<Rightarrow> u64 \<Rightarrow> parse_error + fileHeader list \<times> u64" where
  "set_empty_streams es [] emptyStreams = Inr ([], emptyStreams)"
| "set_empty_streams [] (h # hs) emptyStreams = Inl Panic"
| "set_empty_streams (e # es) (h # hs) emptyStreams =
     sbind (set_empty_streams es hs (if e then emptyStreams + 1 else emptyStreams)) (\<lambda>(hs, emptyStreams).
       Inr (h\<lparr>isEmptyStream := e\<rparr> # hs, emptyStreams))"

fun set_range :: "('a \<Rightarrow> fileHeader \<Rightarrow> fileHeader) \<Rightarrow> 'a list \<Rightarrow> fileHeader list \<Rightarrow> parse_error + fileHeader list" where
  "set_range f [] hs = Inr hs"
| "set_range f (x # xs) [] = Inl Panic"
| "set_range f (x # xs) (h # hs) = sbind (set_range f xs hs) (\<lambda>hs. Inr (f x h # hs))"

fun set_empty_files :: "bool list \<Rightarrow> fileHeader list \<Rightarrow> parse_error + fileHeader list" where
  "set_empty_files es [] = Inr []"
| "set_empty_files es (h # hs) =
     (if isEmptyStream h then
        (case es of
           [] \<Rightarrow> Inl Panic
         | e # es \<Rightarrow> sbind (set_empty_files es hs) (\<lambda>hs. Inr (h\<lparr>isEmptyFile := e\<rparr> # hs)))
      else sbind (set_empty_files es hs) (\<lambda>hs. Inr (h # hs)))"

definition read_property ::
  "env \<Rightarrow> u64 \<Rightarrow> byte \<Rightarrow> u64 \<Rightarrow> fileHeader list \<Rightarrow> u64 \<Rightarrow> (fileHeader list \<times> u64) parser" where
  "read_property ev files property len hs emptyStreams =
     (if property = idEmptyStream then
        pbind (readBool files) (\<lambda>empty.
          plift (set_empty_streams empty hs emptyStreams))
      else if property = idEmptyFile then
        pbind (readBool emptyStreams) (\<lambda>empty.
        pbind (plift (set_empty_files empty hs)) (\<lambda>hs. preturn (hs, emptyStreams)))
      else if property = idCTime then
        pbind (readTimes ev files) (\<lambda>ts.
          pbind (plift (set_range (\<lambda>t h. h\<lparr>h_created := t\<rparr>) ts hs)) (\<lambda>hs. preturn (hs, emptyStreams)))
      else if property = idATime then
        pbind (readTimes ev files) (\<lambda>ts.
          pbind (plift (set_range (\<lambda>t h. h\<lparr>h_accessed := t\<rparr>) ts hs)) (\<lambda>hs. preturn (hs, emptyStreams)))
      else if property = idMTime then
        pbind (readTimes ev files) (\<lambda>ts.
          pbind (plift (set_range (\<lambda>t h. h\<lparr>h_modified := t\<rparr>) ts hs)) (\<lambda>hs. preturn (hs, emptyStreams)))
      else if property = idName then
        pbind (readNames ev files len) (\<lambda>ns.
          pbind (plift (set_range (\<lambda>n h. h\<lparr>h_name := n\<rparr>) ns hs)) (\<lambda>hs. preturn (hs, emptyStreams)))
      else if property = idWinAttributes then
        pbind (readAttributes files) (\<lambda>as.
          pbind (plift (set_range (\<lambda>a h. h\<lparr>h_attributes := a\<rparr>) as hs)) (\<lambda>hs. preturn (hs, emptyStreams)))
      else if property = idStartPos then pfail (Message ''TODO idStartPos'')
      else if property = idDummy then
        pbind (Discard (unat len)) (\<lambda>_. preturn (hs, emptyStreams))
      else pfail UnexpectedID)"

lemma shrinks_read_property [shrink_intros]: "shrinks (read_property ev files prop len hs es)"
  unfolding read_property_def by (intro shrink_intros)

text \<open>The endless \<open>for\<close> of \<open>readFilesInfo\<close>: one property per turn, until \<open>idEnd\<close>.\<close>

function files_loop :: "env \<Rightarrow> u64 \<Rightarrow> fileHeader list \<Rightarrow> u64 \<Rightarrow> fileHeader list parser" where
  "files_loop ev files hs emptyStreams r =
     (case ReadByte r of
        Inl e \<Rightarrow> Inl e
      | Inr (property, r1) \<Rightarrow>
          if property = idEnd then Inr (hs, r1)
          else
            (case (pbind readUint64 (\<lambda>len.
                     passert (\<not> len > of_nat MaxMetadataBytes)
                       (Message ''file property exceeds metadata limit'')
                       (read_property ev files property len hs emptyStreams))) r1 of
               Inl e \<Rightarrow> Inl e
             | Inr ((hs', emptyStreams'), r2) \<Rightarrow> files_loop ev files hs' emptyStreams' r2))"
  by pat_completeness auto
termination
proof (relation "measure (\<lambda>(_, _, _, _, r). rsize r)", goal_cases)
  case (2 ev files hs es r x property r1 y a r2 hs' es')
  have "shrinks (pbind readUint64 (\<lambda>len.
          passert (\<not> len > of_nat MaxMetadataBytes)
            (Message ''file property exceeds metadata limit'')
            (read_property ev files property len hs es)))"
    by (intro shrink_intros)
  then have "rsize r2 \<le> rsize r1" by (rule shrinksD) (use 2 in auto)
  moreover have "rsize r = Suc (rsize r1)" by (rule ReadByte_rsize) (use 2 in auto)
  ultimately show ?case by simp
qed simp

declare files_loop.simps [simp del]

definition readFilesInfo :: "env \<Rightarrow> fileHeader list parser" where
  "readFilesInfo ev =
     pbind (readUint64Bounded True) (\<lambda>files.
       passert (\<not> files > of_nat MaxArchiveEntries) (Message ''too many files'')
         (files_loop ev files (replicate (unat files) empty_header) 0))"

section \<open>The header\<close>

record header =
  streams_info :: "streamsInfo option"
  files_info :: "fileHeader list option"

fun assign_streams ::
  "streamsInfo \<Rightarrow> nat \<Rightarrow> fileHeader list \<Rightarrow> parse_error + fileHeader list \<times> nat" where
  "assign_streams si j [] = Inr ([], j)"
| "assign_streams si j (h # hs) =
     (if isEmptyStream h then
        sbind (assign_streams si j hs) (\<lambda>(hs, n). Inr (h # hs, n))
      else
        sbind (FileFolderAndSize (Some si) (int j)) (\<lambda>(folder, size, crc).
        sbind (assign_streams si (Suc j) hs) (\<lambda>(hs, n).
          Inr (h\<lparr>h_size := size, h_crc := crc\<rparr> # hs, n))))"

definition stream_count :: "streamsInfo \<Rightarrow> nat" where
  "stream_count si =
     (case si_subStreamsInfo si of
        Some ss \<Rightarrow> sum_list (map unat (s_streams ss))
      | None \<Rightarrow> Folders (Some si))"

definition readHeader :: "env \<Rightarrow> header parser" where
  "readHeader ev =
     pbind ReadByte (\<lambda>id.
     passert (id \<noteq> idArchiveProperties) (Message ''TODO idArchiveProperties'')
    (passert (id \<noteq> idAdditionalStreamsInfo) (Message ''TODO idAdditionalStreamsInfo'')
    (pbind (if id = idMainStreamsInfo
            then pbind readStreamsInfo (\<lambda>s. pbind ReadByte (\<lambda>id. preturn (Some s, id)))
            else preturn (None, id)) (\<lambda>(streams, id).
     pbind (if id = idFilesInfo
            then pbind (readFilesInfo ev) (\<lambda>fs. pbind ReadByte (\<lambda>id. preturn (Some fs, id)))
            else preturn (None, id)) (\<lambda>(files, id).
     passert (id = idEnd) UnexpectedID
       (case (streams, files) of
          (Some si, Some hs) \<Rightarrow>
            pbind (plift (assign_streams si 0 hs)) (\<lambda>(hs, j).
            passert (j = stream_count si) (Message ''file and stream counts do not match'')
              (preturn \<lparr>streams_info = Some si, files_info = Some hs\<rparr>))
        | _ \<Rightarrow> preturn \<lparr>streams_info = streams, files_info = files\<rparr>))))))"

definition readEncodedHeader :: "env \<Rightarrow> header parser" where
  "readEncodedHeader ev = expectID idHeader (readHeader ev)"

end
