(* ===== verification/HeaderSafe.thy ===== *)
theory HeaderSafe
  imports HeaderRead
begin

text \<open>
  What the header parser guarantees for every input, well-formed or not: accepted folders and
  streams satisfy the index relations the rest of the reader relies on, substream sizes add up, the
  parser never indexes a slice out of range, and neither does the construction of the decoders of an
  accepted archive.
\<close>

section \<open>Accepted folders\<close>

definition bounded :: "u64 \<Rightarrow> bool" where
  "bounded v \<longleftrightarrow> 1 \<le> unat v \<and> unat v \<le> MaxMetadataItems"

definition folder_ok :: "folder \<Rightarrow> bool" where
  "folder_ok f \<longleftrightarrow>
     1 \<le> length (f_coder f) \<and> length (f_coder f) \<le> 64 \<and>
     (\<forall>c \<in> set (f_coder f). bounded (c_in c) \<and> bounded (c_out c)) \<and>
     unat (f_in f) = sum_list (map (unat \<circ> c_in) (f_coder f)) \<and>
     unat (f_out f) = sum_list (map (unat \<circ> c_out) (f_coder f)) \<and>
     unat (f_out f) \<le> unat (f_in f) \<and> unat (f_in f) \<le> MaxMetadataItems \<and>
     length (f_bindPair f) + 1 = unat (f_out f) \<and>
     (\<forall>b \<in> set (f_bindPair f). b_in b < f_in f \<and> b_out b < f_out f) \<and>
     unat (packedStreams f) + length (f_bindPair f) = unat (f_in f) \<and>
     (\<forall>i \<in> set (f_packed f). i < f_in f \<and> findInBindPair f i = None) \<and>
     unat (packedStreams f) \<le> length (f_packed f)"

lemma checkUint64_None_iff:
  "checkUint64 v nz = None \<longleftrightarrow> (nz \<longrightarrow> v \<noteq> 0) \<and> unat v \<le> MaxMetadataItems"
  by (auto simp: checkUint64_def limit_defs word_less_nat_alt)

lemma pcheck_Inr_iff [simp]: "pcheck e p r = Inr z \<longleftrightarrow> e = None \<and> p r = Inr z"
  by (cases e) (auto simp: pcheck_def)

lemma readUint64Bounded_Inr:
  "readUint64Bounded nz r = Inr (v, r') \<Longrightarrow> (nz \<longrightarrow> v \<noteq> 0) \<and> unat v \<le> MaxMetadataItems"
  by (auto simp: readUint64Bounded_def pbind_Inr_iff checkUint64_None_iff)

lemma unat_nonzero: "v \<noteq> 0 \<Longrightarrow> 1 \<le> unat (v :: 'a::len word)"
  by (simp add: Suc_le_eq unat_gt_0)

lemma readUint64Bounded_True: "readUint64Bounded True r = Inr (v, r') \<Longrightarrow> bounded v"
  by (auto simp: bounded_def dest!: readUint64Bounded_Inr dest: unat_nonzero)

lemma bounded_1: "bounded 1"
  by (simp add: bounded_def limit_defs)

lemma readCoder_Inr: "readCoder r = Inr (c, r') \<Longrightarrow> bounded (c_in c) \<and> bounded (c_out c)"
  by (auto simp: readCoder_def pbind_Inr_iff bounded_1
      dest: readUint64Bounded_True split: if_splits prod.splits)

lemma readBindPair_Inr: "readBindPair i out r = Inr (b, r') \<Longrightarrow> b_in b < i \<and> b_out b < out"
  by (auto simp: readBindPair_def pbind_Inr_iff not_le)

lemma findInBindPair_update [simp]: "findInBindPair (f\<lparr>f_packed := ps\<rparr>) i = findInBindPair f i"
  by (simp add: findInBindPair_def)

lemma findInBindPair_None_iff: "findInBindPair f i = None \<longleftrightarrow> i \<notin> b_in ` set (f_bindPair f)"
  by (auto simp: findInBindPair_def find_None_iff)

text \<open>Fewer bind pairs than inputs leave at least one input unbound.\<close>

lemma unbound_input_exists:
  assumes "length (f_bindPair f) < n" "n \<le> 2 ^ 64"
  shows "filter (\<lambda>i. findInBindPair f i = None) (map of_nat [0..<n]) \<noteq> []"
proof
  assume "filter (\<lambda>i. findInBindPair f i = None) (map of_nat [0..<n]) = []"
  then have sub: "(of_nat ` {0..<n} :: u64 set) \<subseteq> b_in ` set (f_bindPair f)"
    by (auto simp: filter_empty_conv findInBindPair_None_iff)
  have inj: "inj_on (of_nat :: nat \<Rightarrow> u64) {0..<n}"
    by (rule inj_onI) (use assms(2) in \<open>auto dest!: arg_cong [where f = unat]\<close>)
  have "n = card (of_nat ` {0..<n} :: u64 set)"
    using card_image [OF inj] by simp
  also have "\<dots> \<le> card (b_in ` set (f_bindPair f))"
    by (rule card_mono) (use sub in auto)
  also have "\<dots> \<le> length (f_bindPair f)"
    by (meson card_image_le card_length finite_set le_trans)
  finally show False using assms(1) by simp
qed

lemma coder_sums:
  assumes "\<And>c. c \<in> set cs \<Longrightarrow> bounded (p c)" "length cs \<le> 64"
  shows "unat (sum_list (map p cs)) = sum_list (map (unat \<circ> p) cs)"
proof -
  have "sum_list (map (unat \<circ> p) cs) \<le> MaxMetadataItems * length cs"
    by (rule sum_list_bound) (use assms(1) in \<open>auto simp: bounded_def\<close>)
  also have "\<dots> \<le> MaxMetadataItems * 64" using assms(2) by simp
  finally have "sum_list (map unat (map p cs)) < 2 ^ LENGTH(64)"
    by (simp add: limit_defs comp_def)
  then show ?thesis using unat_sum_list [of "map p cs"] by simp
qed

lemma prepeat_readCoder:
  "prepeat n readCoder r = Inr (cs, r') \<Longrightarrow> \<forall>c \<in> set cs. bounded (c_in c) \<and> bounded (c_out c)"
  by (erule prepeat_allI) (rule readCoder_Inr)

lemma prepeat_readBindPair:
  "prepeat n (readBindPair i out) r = Inr (bs, r') \<Longrightarrow> \<forall>b \<in> set bs. b_in b < i \<and> b_out b < out"
  by (erule prepeat_allI) (rule readBindPair_Inr)

theorem readFolder_ok:
  assumes "readFolder r = Inr (f, r')"
  shows "folder_ok f \<and> f_size f = []"
proof -
  from assms obtain n r1 cs r2 bps r3 where
    n: "readUint64Bounded True r = Inr (n, r1)" "\<not> n > 64" and
    cs: "prepeat (unat n) readCoder r1 = Inr (cs, r2)" and
    chk: "checkUint64 (sum_list (map c_in cs)) True = None"
         "checkUint64 (sum_list (map c_out cs)) True = None"
         "\<not> sum_list (map c_in cs) < sum_list (map c_out cs)" and
    bps: "prepeat (unat (sum_list (map c_out cs) - 1))
            (readBindPair (sum_list (map c_in cs)) (sum_list (map c_out cs))) r2 = Inr (bps, r3)" and
    rest: "(let ins = sum_list (map c_in cs); outs = sum_list (map c_out cs);
              f = \<lparr>f_in = ins, f_out = outs, packedStreams = ins - (outs - 1), f_coder = cs,
                     f_bindPair = bps, f_size = [], f_packed = []\<rparr> in
            if packedStreams f = 1 then
              preturn (f\<lparr>f_packed := filter (\<lambda>i. findInBindPair f i = None)
                                      (map of_nat [0..<unat ins])\<rparr>)
            else
              pbind (prepeat (unat (packedStreams f))
                       (pbind readUint64 (\<lambda>p.
                          passert (\<not> (p \<ge> ins \<or> findInBindPair f p \<noteq> None)) InvalidBindPair
                            (preturn p)))) (\<lambda>packed.
              preturn (f\<lparr>f_packed := packed\<rparr>))) r3 = Inr (f, r')"
    unfolding readFolder_def Let_def pbind_Inr_iff passert_Inr_iff pcheck_Inr_iff
    by (metis (no_types, lifting))
  define ins outs where "ins = sum_list (map c_in cs)" "outs = sum_list (map c_out cs)"
  have len: "length cs = unat n" by (rule prepeat_length [OF cs])
  with n have l64: "1 \<le> length cs" "length cs \<le> 64"
    using readUint64Bounded_Inr [OF n(1)] unat_nonzero [of n] by (auto simp: word_less_nat_alt)
  note bnd = prepeat_readCoder [OF cs]
  have ui: "unat ins = sum_list (map (unat \<circ> c_in) cs)"
    unfolding ins_outs_def by (rule coder_sums) (use bnd l64 in auto)
  have uo: "unat outs = sum_list (map (unat \<circ> c_out) cs)"
    unfolding ins_outs_def by (rule coder_sums) (use bnd l64 in auto)
  from chk have c: "ins \<noteq> 0" "outs \<noteq> 0" "unat ins \<le> MaxMetadataItems" "unat outs \<le> unat ins"
    by (auto simp: ins_outs_def [symmetric] checkUint64_None_iff word_less_nat_alt)
  have lb: "length bps + 1 = unat outs"
    using prepeat_length [OF bps] unat_nonzero [OF c(2)]
    by (simp add: ins_outs_def [symmetric] unat_sub word_le_nat_alt)
  have "outs - 1 \<le> ins" using c unat_nonzero [OF c(2)] by (simp add: word_le_nat_alt unat_sub)
  then have ps: "unat (ins - (outs - 1)) + length bps = unat ins"
    using lb c(4) unat_nonzero [OF c(2)] by (simp add: unat_sub word_le_nat_alt)
  define f0 where "f0 = \<lparr>f_in = ins, f_out = outs, packedStreams = ins - (outs - 1), f_coder = cs,
                     f_bindPair = bps, f_size = [], f_packed = []\<rparr>"
  have ps0: "packedStreams f0 = ins - (outs - 1)" and bp0: "f_bindPair f0 = bps"
    by (simp_all add: f0_def)
  let ?unbound = "filter (\<lambda>i. findInBindPair f0 i = None) (map of_nat [0..<unat ins])"
  let ?listed = "prepeat (unat (packedStreams f0)) (pbind readUint64 (\<lambda>p.
      passert (\<not> (p \<ge> ins \<or> findInBindPair f0 p \<noteq> None)) InvalidBindPair (preturn p)))"
  have rest': "(if packedStreams f0 = 1 then preturn (f0\<lparr>f_packed := ?unbound\<rparr>)
      else pbind ?listed (\<lambda>packed. preturn (f0\<lparr>f_packed := packed\<rparr>))) r3 = Inr (f, r')"
    using rest unfolding Let_def ins_outs_def [symmetric] f0_def [symmetric] .
  have "\<exists>packed. f = f0\<lparr>f_packed := packed\<rparr> \<and> unat (ins - (outs - 1)) \<le> length packed \<and>
          (\<forall>i \<in> set packed. i < ins \<and> findInBindPair f0 i = None)"
  proof (cases "packedStreams f0 = 1")
    case True
    with rest' have f: "f = f0\<lparr>f_packed := ?unbound\<rparr>" by simp
    have "?unbound \<noteq> []"
      by (rule unbound_input_exists) (use lb c bp0 in \<open>simp_all add: limit_defs\<close>)
    then have "1 \<le> length ?unbound" unfolding Suc_le_eq One_nat_def length_greater_0_conv .
    moreover have "unat (ins - (outs - 1)) = 1" using True ps0 by simp
    ultimately have "unat (ins - (outs - 1)) \<le> length ?unbound" by (simp only:)
    moreover have "\<forall>i \<in> set ?unbound. i < ins \<and> findInBindPair f0 i = None"
      by (auto intro: word_of_nat_less)
    ultimately show ?thesis using f by blast
  next
    case False
    with rest' obtain packed where p: "f = f0\<lparr>f_packed := packed\<rparr>"
      "?listed r3 = Inr (packed, r')"
      by (auto simp: pbind_Inr_iff)
    have "\<forall>i \<in> set packed. i < ins \<and> findInBindPair f0 i = None"
      by (rule prepeat_allI [OF p(2)]) (auto simp: pbind_Inr_iff)
    with p(1) prepeat_length [OF p(2)] ps0 show ?thesis by auto
  qed
  then obtain packed where f: "f = f0\<lparr>f_packed := packed\<rparr>"
      "unat (ins - (outs - 1)) \<le> length packed"
      "\<forall>i \<in> set packed. i < ins \<and> findInBindPair f0 i = None"
    by blast
  have bp: "\<forall>b \<in> set bps. b_in b < ins \<and> b_out b < outs"
    using prepeat_readBindPair [OF bps] by (simp add: ins_outs_def)
  have fields: "f_in f = ins" "f_out f = outs" "packedStreams f = ins - (outs - 1)"
    "f_coder f = cs" "f_bindPair f = bps" "f_packed f = packed" "f_size f = []"
    by (simp_all add: f(1) f0_def)
  have packed: "\<forall>i \<in> set packed. i < ins \<and> findInBindPair f i = None"
    using f(3) by (simp add: f(1))
  show ?thesis
    unfolding folder_ok_def fields
    using l64 bnd ui uo c(3,4) lb ps f(2) bp packed by blast
qed

section \<open>Accepted stream tables\<close>

definition wf_folder :: "folder \<Rightarrow> bool" where
  "wf_folder f \<longleftrightarrow> folder_ok f \<and> length (f_size f) = unat (f_out f)"

definition streams_ok :: "streamsInfo \<Rightarrow> bool" where
  "streams_ok si \<longleftrightarrow>
     validate (Some si) = None \<and>
     (\<forall>p. si_packInfo si = Some p \<longrightarrow> length (p_size p) \<le> MaxMetadataItems) \<and>
     (\<forall>u. si_unpackInfo si = Some u \<longrightarrow> (\<forall>f \<in> set (u_folder u). wf_folder f))"

lemma folder_ok_size_update [simp]: "folder_ok (f\<lparr>f_size := s\<rparr>) = folder_ok f"
  by (simp add: folder_ok_def findInBindPair_def)

lemma folder_ok_out: "folder_ok f \<Longrightarrow> unat (sum_list (map c_out (f_coder f))) = unat (f_out f)"
  using coder_sums [of "f_coder f" c_out] by (simp add: folder_ok_def)

lemma read_folder_sizes_wf:
  "read_folder_sizes fs r = Inr (fs', r') \<Longrightarrow> \<forall>f \<in> set fs. folder_ok f \<Longrightarrow>
     \<forall>f \<in> set fs'. wf_folder f"
proof (induction fs arbitrary: r fs')
  case Nil
  then show ?case by simp
next
  case (Cons f fs)
  from Cons.prems(1) obtain size r1 rest r2 where
    "prepeat (unat (sum_list (map c_out (f_coder f)))) readUint64 r1 = Inr (size, r2)"
    "read_folder_sizes fs r2 = Inr (rest, r')" "fs' = f\<lparr>f_size := size\<rparr> # rest"
    by (auto simp: Let_def pbind_Inr_iff)
  with Cons show ?case
    by (auto simp: wf_folder_def folder_ok_out dest!: prepeat_length)
qed

lemma expectID_Inr: "expectID want p r = Inr z \<longleftrightarrow> (\<exists>r0. ReadByte r = Inr (want, r0) \<and> p r0 = Inr z)"
  by (cases z) (auto simp: expectID_def pbind_Inr_iff)

lemma readUnpackInfo_wf:
  assumes "readUnpackInfo r = Inr (u, r')"
  shows "\<forall>f \<in> set (u_folder u). wf_folder f"
proof -
  from assms obtain n fs r1 r2 fs' r3 r4 where
    "prepeat n readFolder r1 = Inr (fs, r2)" "read_folder_sizes fs r3 = Inr (fs', r4)"
    and u: "u_folder u = fs'"
    by (auto simp: readUnpackInfo_def expectID_Inr pbind_Inr_iff split: if_splits prod.splits)
  then have "\<forall>f \<in> set fs. folder_ok f"
    using prepeat_allI [of n readFolder r1 fs r2 folder_ok] readFolder_ok by blast
  with read_folder_sizes_wf [OF \<open>read_folder_sizes fs r3 = Inr (fs', r4)\<close>] u show ?thesis by simp
qed

lemma readPackInfo_size:
  "readPackInfo r = Inr (p, r') \<Longrightarrow> length (p_size p) \<le> MaxMetadataItems"
  by (auto simp: readPackInfo_def pbind_Inr_iff readSizes_def
      dest!: prepeat_length readUint64Bounded_Inr split: if_splits prod.splits)

theorem readStreamsInfo_ok:
  "readStreamsInfo r = Inr (si, r') \<Longrightarrow> streams_ok si"
  by (auto simp: readStreamsInfo_def pbind_Inr_iff streams_ok_def Let_def
      dest!: readUnpackInfo_wf readPackInfo_size split: if_splits prod.splits option.splits)

section \<open>No index out of range in the decoder graph\<close>

definition registry_safe :: "registry \<Rightarrow> bool" where
  "registry_safe reg \<longleftrightarrow>
     (\<forall>m dcomp props size ins. reg m = Some dcomp \<longrightarrow>
        dcomp props size ins \<noteq> Inl Panic \<and> dcomp props size ins \<noteq> Inr (Crypto (Some Panic)))"

lemma validate_folders_Inr:
  assumes "validate_folders acc fs = Inr t" "unat acc \<le> MaxMetadataItems"
    "\<forall>f \<in> set fs. unat (packedStreams f) \<le> MaxMetadataItems"
  shows "unat t = unat acc + (\<Sum>f \<leftarrow> fs. unat (packedStreams f)) \<and> unat t \<le> MaxMetadataItems"
  using assms
proof (induction fs arbitrary: acc)
  case Nil
  then show ?case by simp
next
  case (Cons f fs)
  have le: "packedStreams f \<le> of_nat MaxMetadataItems"
    using Cons.prems(3) by (simp add: word_le_nat_alt limit_defs)
  from Cons.prems(1) have "acc \<le> of_nat MaxMetadataItems - packedStreams f"
    and rest: "validate_folders (acc + packedStreams f) fs = Inr t"
    by (auto simp: not_less split: if_splits)
  then have "unat acc + unat (packedStreams f) \<le> MaxMetadataItems"
    using le by (simp add: word_le_nat_alt unat_sub limit_defs)
  then have "unat (acc + packedStreams f) = unat acc + unat (packedStreams f)"
    by (intro unat_add_small) (simp add: limit_defs)
  with Cons.IH [OF rest] Cons.prems(3) \<open>unat acc + unat (packedStreams f) \<le> MaxMetadataItems\<close>
  show ?case by simp
qed

lemma streams_ok_packed:
  assumes "streams_ok si" "si_packInfo si = Some p" "si_unpackInfo si = Some u"
  shows "(\<Sum>f \<leftarrow> u_folder u. unat (packedStreams f)) = length (p_size p)"
proof -
  from assms obtain t where t: "validate_folders 0 (u_folder u) = Inr t"
    "t = of_nat (length (p_size p))"
    by (auto simp: streams_ok_def validate_def split: sum.splits if_splits)
  have "\<forall>f \<in> set (u_folder u). unat (packedStreams f) \<le> MaxMetadataItems"
    using assms by (fastforce simp: streams_ok_def wf_folder_def folder_ok_def)
  from validate_folders_Inr [OF t(1) _ this]
  have "unat t = (\<Sum>f \<leftarrow> u_folder u. unat (packedStreams f))" by simp
  moreover have "unat t = length (p_size p)"
    using assms by (simp add: t(2) streams_ok_def limit_defs)
  ultimately show ?thesis by simp
qed

lemma sum_sizes_safe: "j + n \<le> length sizes \<Longrightarrow> sum_sizes sizes j n off \<noteq> Inl Panic"
  by (induction n arbitrary: j off) (auto simp: sbind_Inl_iff)

lemma folder_offset_loop_safe:
  "unat k + (\<Sum>f \<leftarrow> fs. unat (packedStreams f)) \<le> length sizes \<Longrightarrow> length sizes < 2 ^ 64 \<Longrightarrow>
     folder_offset_loop sizes fs k off \<noteq> Inl Panic"
proof (induction fs arbitrary: k off)
  case Nil
  then show ?case by simp
next
  case (Cons f fs)
  then have k: "unat (k + packedStreams f) = unat k + unat (packedStreams f)"
    by (intro unat_add_small) simp
  with Cons show ?case by (auto simp: sbind_Inl_iff sum_sizes_safe)
qed

lemma sum_list_take_le: "(\<Sum>x \<leftarrow> take n xs. f x) \<le> (\<Sum>x \<leftarrow> xs. f x :: nat)"
proof -
  have "(\<Sum>x \<leftarrow> xs. f x) = (\<Sum>x \<leftarrow> take n xs @ drop n xs. f x)" by simp
  then show ?thesis unfolding map_append sum_list_append by linarith
qed

lemma folderOffset_safe:
  assumes "streams_ok si" "si_packInfo si = Some p" "si_unpackInfo si = Some u"
    "k \<le> length (u_folder u)"
  shows "folderOffset p u k \<noteq> Inl Panic"
proof -
  have "length (p_size p) < 2 ^ 64" using assms by (auto simp: streams_ok_def limit_defs)
  moreover have "unat (0::u64) + (\<Sum>f \<leftarrow> take k (u_folder u). unat (packedStreams f)) \<le> length (p_size p)"
    unfolding streams_ok_packed [OF assms(1-3), symmetric] by (simp add: sum_list_take_le)
  ultimately show ?thesis
    using assms(4) folder_offset_loop_safe by (auto simp: folderOffset_def sbind_Inl_iff)
qed

lemma below_length: "\<not> of_nat (length xs) \<le> (w :: u64) \<Longrightarrow> unat w < length xs"
  by (metis less_le_trans mod_less_eq_dividend not_le unat_of_nat word_less_nat_alt)

lemma idx_no_panic: "i < length xs \<Longrightarrow> idx xs i \<noteq> Inl Panic"
  by simp

lemma attach_packed_safe:
  assumes "folderOffset p u k \<noteq> Inl Panic" "pos + length packed \<le> length (p_size p)"
  shows "attach_packed p u k pos packed off ins \<noteq> Inl Panic"
  using assms(2)
  by (induction packed arbitrary: pos off ins)
     (use assms(1) in \<open>auto simp: sbind_Inl_iff dest: below_length idx_no_panic\<close>)

lemma attach_packed_length:
  "attach_packed p u k pos packed off ins = Inr ins' \<Longrightarrow> length ins' = length ins"
  by (induction packed arbitrary: pos off ins) (auto simp: sbind_Inr_iff split: if_splits)

lemma bind_inputs_safe:
  "\<forall>j \<in> set js. j < length ins \<Longrightarrow> bind_inputs f outs js ins \<noteq> Inl Panic"
  by (induction js arbitrary: ins)
     (auto simp: sbind_Inl_iff split: option.splits dest: below_length idx_no_panic)

lemma bind_inputs_length:
  "bind_inputs f outs js ins = Inr ins' \<Longrightarrow> length ins' = length ins"
  by (induction js arbitrary: ins) (auto simp: sbind_Inr_iff split: option.splits if_splits)

lemma coderReader_safe:
  "registry_safe reg \<Longrightarrow> i < length (f_coder f) \<Longrightarrow> i < length (f_size f) \<Longrightarrow>
     coderReader reg f i readers \<noteq> Inl Panic"
  by (auto simp: coderReader_def sbind_Inl_iff registry_safe_def split: option.splits decoder_kind.splits)

definition graph_ok :: "folder \<Rightarrow> graph \<Rightarrow> bool" where
  "graph_ok f g \<longleftrightarrow>
     length (g_in g) = unat (f_in f) \<and> length (g_out g) = unat (f_out f) \<and>
     unat (g_input g) \<le> unat (f_in f) \<and> unat (g_output g) \<le> unat (f_out f)"

lemma coder_step_cursor:
  assumes "graph_ok f g" "wf_folder f" "c \<in> set (f_coder f)"
    "\<not> (g_input g + c_in c > of_nat (length (g_in g)) \<or> g_output g + c_out c > of_nat (length (g_out g)))"
  shows "unat (g_input g + c_in c) = unat (g_input g) + unat (c_in c)"
    "unat (g_output g + c_out c) = unat (g_output g) + unat (c_out c)"
    "unat (g_input g + c_in c) \<le> unat (f_in f)"
    "unat (g_output g + c_out c) \<le> unat (f_out f)"
proof -
  have b: "unat (c_in c) \<le> MaxMetadataItems" "unat (c_out c) \<le> MaxMetadataItems"
    using assms(2,3) by (auto simp: wf_folder_def folder_ok_def bounded_def)
  have f: "unat (f_in f) \<le> MaxMetadataItems" "unat (f_out f) \<le> MaxMetadataItems"
    using assms(2) by (auto simp: wf_folder_def folder_ok_def)
  have i: "unat (g_input g) \<le> unat (f_in f)" "unat (g_output g) \<le> unat (f_out f)"
    using assms(1) by (auto simp: graph_ok_def)
  show "unat (g_input g + c_in c) = unat (g_input g) + unat (c_in c)"
    using b(1) f(1) i(1) by (intro unat_add_small) (simp add: limit_defs)
  show "unat (g_output g + c_out c) = unat (g_output g) + unat (c_out c)"
    using b(2) f(2) i(2) by (intro unat_add_small) (simp add: limit_defs)
  show "unat (g_input g + c_in c) \<le> unat (f_in f)" "unat (g_output g + c_out c) \<le> unat (f_out f)"
    using assms(1,4) by (auto simp: graph_ok_def not_less word_le_nat_alt)
qed

lemma coder_step_safe:
  assumes "graph_ok f g" "wf_folder f" "registry_safe reg"
    "i < length (f_coder f)" "c = f_coder f ! i"
  shows "coder_step reg f i c g \<noteq> Inl Panic \<and> (coder_step reg f i c g = Inr g' \<longrightarrow> graph_ok f g')"
proof (cases "c_out c \<noteq> 1 \<or> g_input g + c_in c > of_nat (length (g_in g))
                \<or> g_output g + c_out c > of_nat (length (g_out g))")
  case True
  then show ?thesis by (auto simp: coder_step_def)
next
  case False
  have cin: "c \<in> set (f_coder f)" using assms(4,5) by simp
  note cur = coder_step_cursor [OF assms(1,2) cin]
  have size: "i < length (f_size f)"
    using assms(2,4) sum_list_ge_length [of "f_coder f" "unat \<circ> c_out"]
    by (auto simp: wf_folder_def folder_ok_def bounded_def)
  have "unat (g_output g) < length (g_out g)"
    using cur(2,4) False assms(1) by (auto simp: graph_ok_def)
  moreover have "bind_inputs f (g_out g) [unat (g_input g)..<unat (g_input g + c_in c)] (g_in g) \<noteq> Inl Panic"
    by (rule bind_inputs_safe) (use cur False assms(1) in \<open>auto simp: graph_ok_def\<close>)
  moreover have "slice (unat (g_input g)) (unat (g_input g + c_in c)) ins \<noteq> Inl Panic"
    if "length ins = length (g_in g)" for ins :: "stream option list"
    using that cur False assms(1) by (auto simp: slice_def graph_ok_def)
  moreover have "coderReader reg f i args \<noteq> Inl Panic" for args
    by (rule coderReader_safe [OF assms(3,4) size])
  ultimately show ?thesis
    using False cur assms(1)
    by (auto simp: coder_step_def sbind_Inl_iff sbind_Inr_iff graph_ok_def dest: bind_inputs_length)
qed

lemma run_coders_safe:
  assumes "wf_folder f" "registry_safe reg"
  shows "graph_ok f g \<Longrightarrow> i + length cs = length (f_coder f) \<Longrightarrow> cs = drop i (f_coder f) \<Longrightarrow>
    run_coders reg f i cs g \<noteq> Inl (Panic, h) \<and>
    (\<forall>g'. run_coders reg f i cs g = Inr g' \<longrightarrow> graph_ok f g')"
proof (induction cs arbitrary: i g)
  case Nil
  then show ?case by simp
next
  case (Cons c cs)
  from Cons.prems(3) have "drop i (f_coder f) \<noteq> []" by (metis list.distinct(1))
  then have i: "i < length (f_coder f)" by simp
  with Cons.prems(3) have c: "c = f_coder f ! i" "cs = drop (Suc i) (f_coder f)"
    by (auto simp: Cons_nth_drop_Suc [symmetric])
  note step = coder_step_safe [OF Cons.prems(1) assms i c(1)]
  show ?case
  proof (cases "coder_step reg f i c g")
    case (Inl e)
    with step show ?thesis by auto
  next
    case (Inr g1)
    with step have "graph_ok f g1" by blast
    from Cons.IH [OF this _ c(2)] i c(2) Inr show ?thesis by auto
  qed
qed

lemma no_hint_Inl [simp]: "no_hint m = Inl (e, h) \<longleftrightarrow> m = Inl e \<and> h = False"
  by (auto simp: no_hint_def split: sum.splits)

lemma no_hint_Inr [simp]: "no_hint m = Inr x \<longleftrightarrow> m = Inr x"
  by (auto simp: no_hint_def split: sum.splits)

lemma validate_tables:
  assumes "validate (Some si) = None" "si_unpackInfo si = Some u"
  shows "u_digestDefined u = [] \<or> length (u_digestDefined u) = length (u_folder u)"
    "u_digest u = [] \<or> length (u_digest u) = length (u_folder u)"
  using assms by (auto simp: validate_def split: option.splits sum.splits if_splits)

lemma folderReader_safe:
  assumes ok: "streams_ok si" and reg: "registry_safe reg" and some: "si_packInfo si \<noteq> None"
  shows "folderReader reg (Some si) folder \<noteq> Inl (Panic, h)"
proof -
  obtain p u where pu: "si_packInfo si = Some p" "si_unpackInfo si = Some u"
    using ok some by (auto simp: streams_ok_def validate_def split: option.splits)
  have val: "validate (Some si) = None" using ok by (simp add: streams_ok_def)
  show ?thesis
  proof (cases "folder < 0 \<or> folder \<ge> int (length (u_folder u))")
    case True
    then show ?thesis by (auto simp: folderReader_def val pu)
  next
    case False
    define k where "k = nat folder"
    with False have k: "k < length (u_folder u)" by auto
    define f where "f = u_folder u ! k"
    define po where "po = (\<Sum>g \<leftarrow> take k (u_folder u). length (f_packed g))"
    have wf: "wf_folder f" using ok pu k by (auto simp: streams_ok_def f_def)
    have base: "folderOffset p u k \<noteq> Inl Panic"
      by (rule folderOffset_safe [OF ok pu]) (use k in simp)
    define g0 where "g0 ins = \<lparr>g_in = ins, g_out = replicate (unat (f_out f)) None,
       g_input = 0, g_output = 0, g_encrypted = False\<rparr>" for ins
    have run: "run_coders reg f 0 (f_coder f) (g0 ins) \<noteq> Inl (Panic, h) \<and>
        (\<forall>g. run_coders reg f 0 (f_coder f) (g0 ins) = Inr g \<longrightarrow> graph_ok f g)"
      if "attach_packed p u k po (f_packed f) 0 (replicate (unat (f_in f)) None) = Inr ins" for ins
      using run_coders_safe [OF wf reg, of "g0 ins" 0 "f_coder f" h] attach_packed_length [OF that]
      by (auto simp: graph_ok_def g0_def)
    have out: "i < length (g_out g)"
      if "filter (\<lambda>i. findOutBindPair f (of_nat i) = None) [0..<unat (f_out f)] = [i]" "graph_ok f g" for i g
    proof -
      have "i \<in> set (filter (\<lambda>i. findOutBindPair f (of_nat i) = None) [0..<unat (f_out f)])" unfolding that(1) by simp
      then show ?thesis using that(2) by (simp add: graph_ok_def)
    qed
    have fold: "idx (u_folder u) k = Inr f" using k by (simp add: f_def)
    have attach: "attach_packed p u k po (f_packed f) 0 ins \<noteq> Inl Panic"
      if "\<not> int po > int (length (p_size p)) - int (length (f_packed f))" for ins
      by (rule attach_packed_safe [OF base]) (use that in linarith)
    have digest: "idx (u_digest u) k \<noteq> Inl Panic" if "u_digest u \<noteq> []"
      using that validate_tables(2) [OF val pu(2)] k by (auto simp: idx_def)
    have defined: "idx (u_digestDefined u) k \<noteq> Inl Panic" if "u_digestDefined u \<noteq> []"
      using that validate_tables(1) [OF val pu(2)] k by (auto simp: idx_def)
    show ?thesis
    proof (cases "\<not> int po > int (length (p_size p)) - int (length (f_packed f))
        \<and> (\<exists>ins g. attach_packed p u k po (f_packed f) 0 (replicate (unat (f_in f)) None) = Inr ins
             \<and> run_coders reg f 0 (f_coder f) (g0 ins) = Inr g)")
      case False': False
      then show ?thesis
        using False attach run
        by (cases "attach_packed p u k po (f_packed f) 0 (replicate (unat (f_in f)) None)")
           (auto simp: folderReader_def val pu k_def [symmetric] fold po_def [symmetric]
             g0_def [symmetric] Let_def sbind_Inl_iff split: sum.splits)
    next
      case True
      then obtain ins g where g: "attach_packed p u k po (f_packed f) 0 (replicate (unat (f_in f)) None) = Inr ins"
        "run_coders reg f 0 (f_coder f) (g0 ins) = Inr g" by blast
      then have "graph_ok f g" using run by blast
      then have "idx (g_out g) i \<noteq> Inl Panic"
        if "filter (\<lambda>i. findOutBindPair f (of_nat i) = None) [0..<unat (f_out f)] = [i]" for i
        using out [OF that] by simp
      then show ?thesis
        using False True g digest defined
        by (auto simp: folderReader_def val pu k_def [symmetric] fold po_def [symmetric]
            g0_def [symmetric] Let_def sbind_Inl_iff split: list.splits option.splits if_splits)
    qed
  qed
qed

text \<open>
  C2. Whatever streams table the parser accepts, building the decoders of any of its folders never
  indexes a slice out of range, as long as the registered decompressor constructors do not: the
  reader fails with an error value or returns the folder's reader.
\<close>

theorem accepted_streams_never_panic:
  assumes "readStreamsInfo r = Inr (si, r')" and "registry_safe reg" and "si_packInfo si \<noteq> None"
  shows "folderReader reg (Some si) folder \<noteq> Inl (Panic, h)"
  using readStreamsInfo_ok [OF assms(1)] assms(2,3) by (rule folderReader_safe)

text \<open>A table with one packed stream and one folder holding a single copy coder.\<close>

definition sample_streams :: reader where
  "sample_streams =
     \<lparr>buf = [6, 0, 1, 9, 5, 0, 7, 11, 1, 0, 1, 1, 0, 12, 5, 0, 0], chunks = [], cap = 4096, fin = EOF\<rparr>"

definition sample_info :: streamsInfo where
  "sample_info =
     \<lparr>si_packInfo = Some \<lparr>position = 0, p_streams = 1, p_size = [5], p_digest = []\<rparr>,
      si_unpackInfo = Some
        \<lparr>u_folder = [\<lparr>f_in = 1, f_out = 1, packedStreams = 1,
                       f_coder = [\<lparr>c_id = [0], c_in = 1, c_out = 1, c_properties = []\<rparr>],
                       f_bindPair = [], f_size = [5], f_packed = [0]\<rparr>],
         u_digest = [], u_digestDefined = []\<rparr>,
      si_subStreamsInfo = None\<rparr>"

definition copy_registry :: registry where
  "copy_registry m = (if m = [0] then Some (\<lambda>_ _ _. Inr Plain) else None)"

lemmas sample_parse = parser_simps id_defs limit_defs ReadByte_def readStreamsInfo_def readPackInfo_def
  readUnpackInfo_def readFolder_def readCoder_def read_exact_def Read_def readSizes_def expectID_def
  readUint64_def readUint64Bounded_def pcheck_def checkUint64_def LeadingZeros8_def Let_def
  validate_def unpackSize_def findOutBindPair_def findInBindPair_def

lemma sample_streams_read:
  "readStreamsInfo sample_streams = Inr (sample_info, sample_streams\<lparr>buf := []\<rparr>)"
  by (simp add: sample_streams_def sample_info_def sample_parse)

lemma copy_registry_safe: "registry_safe copy_registry"
  by (simp add: registry_safe_def copy_registry_def)

theorem accepted_streams_never_panic_witness:
  "folderReader copy_registry (Some sample_info) 0 \<noteq> Inl (Panic, False)"
  using accepted_streams_never_panic [OF sample_streams_read copy_registry_safe, of 0 False]
  by (simp add: sample_info_def)

end
