(* ===== verification/HeaderTotal.thy ===== *)
theory HeaderTotal
  imports HeaderSafe
begin

text \<open>
  The header parser of \<open>types.go\<close> is total: on every input it returns a header or an error value and
  never indexes a slice out of range. The interesting places are the distribution of substream
  digests, the assignment of the empty-file flags and the lookup of the stream of each file.
\<close>

section \<open>Parsers without indexing\<close>

lemma checkUint64_no_panic [simp]: "checkUint64 v nz \<noteq> Some Panic"
  by (simp add: checkUint64_def)

lemma safe_pcheck [safe_intros]: "e \<noteq> Some Panic \<Longrightarrow> safe p \<Longrightarrow> safe (pcheck e p)"
  by (cases e) (auto simp: pcheck_def intro: safe_intros)

lemma safe_plift [safe_intros]: "m \<noteq> Inl Panic \<Longrightarrow> safe (plift m)"
  by (auto simp: safe_def plift_def pfail_def preturn_def split: sum.splits)

lemma safe_read_tail [safe_intros]: "safe (read_tail i n v)"
  by (induction n arbitrary: i v) (auto intro!: safe_intros)

lemma safe_readUint64 [safe_intros]: "safe readUint64"
  unfolding readUint64_def Let_def by (intro safe_intros)

lemma safe_readUint64Bounded [safe_intros]: "safe (readUint64Bounded nz)"
  unfolding readUint64Bounded_def by (intro safe_intros checkUint64_no_panic)

lemma safe_read_bool_loop [safe_intros]: "safe (read_bool_loop n b m)"
  by (induction n arbitrary: b m) (auto intro!: safe_intros)

lemma safe_readBool [safe_intros]: "safe (readBool n)"
  unfolding readBool_def by (intro safe_intros checkUint64_no_panic)

lemma safe_readOptionalBool [safe_intros]: "safe (readOptionalBool n)"
  unfolding readOptionalBool_def by (intro safe_intros checkUint64_no_panic)

lemma safe_readSizes [safe_intros]: "safe (readSizes n)"
  unfolding readSizes_def by (intro safe_intros checkUint64_no_panic)

lemma safe_read_defined: "safe p \<Longrightarrow> length ds \<le> n \<Longrightarrow> safe (read_defined p z n ds)"
  by (induction p z n ds rule: read_defined.induct) (auto intro!: safe_intros)

lemma read_bool_loop_length: "read_bool_loop n b m r = Inr (xs, r') \<Longrightarrow> length xs = n"
  by (induction n arbitrary: b m r xs) (auto simp: pbind_Inr_iff split: if_splits)

lemma readBool_length: "readBool n r = Inr (xs, r') \<Longrightarrow> length xs = unat n"
  by (auto simp: readBool_def dest: read_bool_loop_length)

lemma readOptionalBool_length: "readOptionalBool n r = Inr (xs, r') \<Longrightarrow> length xs = unat n"
  by (auto simp: readOptionalBool_def pbind_Inr_iff dest: readBool_length split: if_splits)

text \<open>The flags that are read are as many as the elements of the array, so no element behind its end is stored.\<close>

lemma safe_optional [safe_intros]:
  assumes "\<And>ds. length ds = unat n \<Longrightarrow> safe (f ds)"
  shows "safe (pbind (readOptionalBool n) f)"
  by (rule safe_pbind_if_result [OF safe_readOptionalBool]) (auto dest: readOptionalBool_length intro: assms)

lemma safe_readCRCDefined [safe_intros]: "safe (readCRCDefined n)"
  unfolding readCRCDefined_def by (intro safe_intros safe_read_defined checkUint64_no_panic) simp

lemma safe_readPackInfo [safe_intros]: "safe readPackInfo"
  unfolding readPackInfo_def readCRC_def by (intro safe_intros) simp_all

lemma safe_read_exact [safe_intros]: "safe (read_exact n)"
  unfolding read_exact_def by (intro safe_intros) simp

lemma safe_readCoder [safe_intros]: "safe readCoder"
  unfolding readCoder_def by (intro safe_intros) simp

lemma safe_readFolder [safe_intros]: "safe readFolder"
  unfolding readFolder_def readBindPair_def Let_def by (intro safe_intros checkUint64_no_panic) simp_all

lemma safe_expectID [safe_intros]: "safe p \<Longrightarrow> safe (expectID want p)"
  unfolding expectID_def by (intro safe_intros) simp_all

lemma safe_read_folder_sizes [safe_intros]: "safe (read_folder_sizes fs)"
  by (induction fs) (auto simp: Let_def intro!: safe_intros)

lemma safe_readUnpackInfo [safe_intros]: "safe readUnpackInfo"
  unfolding readUnpackInfo_def by (intro safe_intros) simp_all

lemma safe_read_stream_sizes: "n \<le> room \<Longrightarrow> safe (read_stream_sizes u room n acc)"
  by (induction u room n acc rule: read_stream_sizes.induct) (auto intro!: safe_intros)

lemma read_stream_sizes_length: "read_stream_sizes u room n acc r = Inr ((sizes, acc'), r') \<Longrightarrow> length sizes = n"
  by (induction u room n acc arbitrary: r sizes rule: read_stream_sizes.induct) (auto simp: pbind_Inr_iff)

lemma safe_read_substream_sizes:
  "sum_list (map (unat \<circ> snd) fs) \<le> room \<Longrightarrow> safe (read_substream_sizes room fs)"
proof (induction room fs rule: read_substream_sizes.induct)
  case (1 room)
  then show ?case by (simp add: safe_intros)
next
  case (2 room f streams rest)
  show ?case
  proof (cases "streams = 0")
    case True
    with 2 show ?thesis by simp
  next
    case False
    then have some: "0 < unat streams" by (simp add: unat_gt_0)
    have enough: "unat streams + sum_list (map (unat \<circ> snd) rest) \<le> room"
      using "2.prems" by (simp add: comp_def)
    have first: "safe (read_stream_sizes (unpackSize f) room (unat streams - 1) 0)"
      by (rule safe_read_stream_sizes) (use enough in linarith)
    have "safe (case x of (sizes, acc) \<Rightarrow>
        passert (\<not> acc > unpackSize f) (Message ''substream sizes exceed folder size'')
        (passert (length sizes < room) Panic
        (pbind (read_substream_sizes (room - length sizes - 1) rest) (\<lambda>tail.
         preturn (sizes @ [unpackSize f - acc] @ tail)))))"
      if "read_stream_sizes (unpackSize f) room (unat streams - 1) 0 r = Inr (x, r')" for r x r'
    proof (cases x)
      case (Pair sizes acc)
      then have l: "length sizes = unat streams - 1" using that by (auto dest: read_stream_sizes_length)
      then have "length sizes < room" using some enough by linarith
      moreover have "safe (read_substream_sizes (room - length sizes - 1) rest)"
        by (rule "2.IH" (2) [OF False]) (use l some enough in linarith)
      ultimately show ?thesis by (simp add: Pair passert_def safe_intros)
    qed
    note body = safe_pbind_if_result [OF first this]
    show ?thesis using False body by (simp only: read_substream_sizes.simps if_False)
  qed
qed

lemma check_substream_counts_no_panic [simp]: "check_substream_counts files vs \<noteq> Inl Panic"
  by (induction vs arbitrary: files) auto

lemma count_unknown_no_panic [simp]: "count_unknown u i n vs \<noteq> Inl Panic"
  by (induction vs arbitrary: i n) auto

lemma safe_readStreamCount [safe_intros]: "safe readStreamCount"
  unfolding readStreamCount_def by (intro safe_intros) simp

section \<open>Digests\<close>

lemma read_defined_length: "read_defined p z n ds r = Inr (xs, r') \<Longrightarrow> length xs = n"
  by (induction p z n ds arbitrary: r xs rule: read_defined.induct) (auto simp: pbind_Inr_iff split: if_splits)

lemma readCRCDefined_length:
  "readCRCDefined n r = Inr ((crcs, defs), r') \<Longrightarrow> length crcs = unat n \<and> length defs = unat n"
  by (auto simp: readCRCDefined_def pbind_Inr_iff dest!: readOptionalBool_length read_defined_length)

definition digests_match :: "unpackInfo \<Rightarrow> bool" where
  "digests_match u \<longleftrightarrow> length (u_digest u) = length (u_digestDefined u)"

lemma readUnpackInfo_digests: "readUnpackInfo r = Inr (u, r') \<Longrightarrow> digests_match u"
  by (auto simp: readUnpackInfo_def expectID_Inr pbind_Inr_iff digests_match_def
      dest!: readCRCDefined_length split: if_splits prod.splits)

text \<open>The number of digests the substreams need, counted without wrap-around.\<close>

fun unknown_total :: "unpackInfo \<Rightarrow> nat \<Rightarrow> u64 list \<Rightarrow> nat" where
  "unknown_total u i [] = 0"
| "unknown_total u i (v # vs) =
     (if digest_known u i v then 0 else unat v) + unknown_total u (Suc i) vs"

lemma count_unknown_total:
  "count_unknown u i n vs = Inr t \<Longrightarrow> unat n \<le> MaxArchiveEntries \<Longrightarrow>
     \<forall>v \<in> set vs. unat v \<le> MaxArchiveEntries \<Longrightarrow> unat t = unat n + unknown_total u i vs"
proof (induction vs arbitrary: i n)
  case Nil
  then show ?case by simp
next
  case (Cons v vs)
  show ?case
  proof (cases "digest_known u i v")
    case True
    with Cons show ?thesis by simp
  next
    case False
    have v: "unat v \<le> MaxArchiveEntries" using Cons.prems(3) by simp
    from False Cons.prems(1) have "n \<le> of_nat MaxArchiveEntries - v"
      and rest: "count_unknown u (Suc i) (n + v) vs = Inr t"
      by (auto simp: not_less split: if_splits)
    then have le: "unat n + unat v \<le> MaxArchiveEntries"
      using v by (simp add: word_le_nat_alt unat_sub limit_defs)
    then have "unat (n + v) = unat n + unat v"
      by (intro unat_add_small) (simp add: limit_defs)
    with Cons.IH [OF rest] le Cons.prems(3) False show ?thesis by simp
  qed
qed

lemma substream_counts_total:
  "check_substream_counts files vs = Inr t \<Longrightarrow> unat files \<le> MaxArchiveEntries \<Longrightarrow>
     \<forall>v \<in> set vs. unat v \<le> MaxArchiveEntries \<Longrightarrow> unat t = unat files + sum_list (map unat vs)"
proof (induction vs arbitrary: files)
  case Nil
  then show ?case by simp
next
  case (Cons v vs)
  have v: "unat v \<le> MaxArchiveEntries" using Cons.prems(3) by simp
  from Cons.prems(1) have "files \<le> of_nat MaxArchiveEntries - v"
    and rest: "check_substream_counts (files + v) vs = Inr t"
    by (auto simp: not_less split: if_splits)
  then have le: "unat files + unat v \<le> MaxArchiveEntries"
    using v by (simp add: word_le_nat_alt unat_sub limit_defs)
  then have "unat (files + v) = unat files + unat v"
    by (intro unat_add_small) (simp add: limit_defs)
  with Cons.IH [OF rest] le Cons.prems(3) show ?case by simp
qed

lemma sum_zip_le: "sum_list (map (unat \<circ> snd) (zip fs vs)) \<le> sum_list (map unat vs)"
  by (induction fs vs rule: list_induct2') auto

lemma distribute_digests_no_panic:
  assumes "digests_match u"
  shows "length ds = unknown_total u i vs \<Longrightarrow> length defs = unknown_total u i vs \<Longrightarrow>
     sum_list (map unat vs) \<le> room \<Longrightarrow> distribute_digests u i room vs ds defs \<noteq> Inl Panic"
proof (induction vs arbitrary: i room ds defs)
  case Nil
  then show ?case by simp
next
  case (Cons v vs)
  show ?case
  proof (cases "digest_known u i v")
    case True
    then have "i < length (u_digest u)" "unat v = 1"
      using assms by (simp_all add: digest_known_def digests_match_def)
    with True Cons show ?thesis by (auto simp: sbind_Inl_iff)
  next
    case False
    with Cons.prems Cons.IH [of "drop (unat v) ds" "Suc i" "drop (unat v) defs" "room - unat v"]
    show ?thesis by (auto simp: sbind_Inl_iff Let_def)
  qed
qed

lemma distribute_digests_length:
  "distribute_digests u i room vs ds defs = Inr (xs, bs, left) \<Longrightarrow> length xs = length bs"
proof (induction vs arbitrary: i room ds defs xs bs)
  case Nil
  then show ?case by simp
next
  case (Cons v vs)
  then show ?case by (auto simp: sbind_Inr_iff Let_def split: if_splits)
qed

lemma readStreamCount_bound: "readStreamCount r = Inr (v, r') \<Longrightarrow> unat v \<le> MaxArchiveEntries"
  by (auto simp: readStreamCount_def pbind_Inr_iff word_less_nat_alt limit_defs)

lemma stream_counts_bound:
  assumes "(if b = idNumUnpackStream
             then pbind (prepeat n readStreamCount) (\<lambda>streams.
                    pbind ReadByte (\<lambda>id. preturn (streams, id)))
             else preturn (replicate n 1, b)) r = Inr ((streams, b'), r')"
  shows "\<forall>v \<in> set streams. unat v \<le> MaxArchiveEntries"
proof (cases "b = idNumUnpackStream")
  case True
  with assms obtain r1 where "prepeat n readStreamCount r = Inr (streams, r1)"
    by (auto simp: pbind_Inr_iff)
  then show ?thesis by (rule prepeat_allI) (rule readStreamCount_bound)
next
  case False
  with assms show ?thesis by (auto simp: limit_defs)
qed

lemma safe_readSubStreamsInfo:
  assumes "digests_match u"
  shows "safe (readSubStreamsInfo u)"
proof -
  define sizes where "sizes b streams files = (if b = idSize
      then pbind (read_substream_sizes (unat files) (zip (u_folder u) streams)) (\<lambda>size.
             pbind ReadByte (\<lambda>id. preturn (size, id)))
      else preturn ([], b))" for b and streams :: "u64 list" and files :: u64
  define digests where "digests b streams files = (if b = idCRC
      then
        pbind (plift (count_unknown u 0 0 streams)) (\<lambda>unknown.
        pbind (readCRCDefined unknown) (\<lambda>(ud, udef).
        pbind (plift (distribute_digests u 0 (unat files) streams ud udef)) (\<lambda>(digest, defined, left).
        passert (left = [] \<and> length digest = unat files)
          (Message ''substream checksum count does not match'')
        (pbind ReadByte (\<lambda>id. preturn (digest, defined, id))))))
      else preturn ([], [], b))" for b and streams :: "u64 list" and files :: u64
  have sizes: "safe (sizes b streams files)" if "sum_list (map unat streams) \<le> unat files" for b streams files
    unfolding sizes_def
    by (intro safe_intros safe_read_substream_sizes) (use sum_zip_le that le_trans in blast)
  have digests: "safe (digests b streams files)"
    if b: "\<forall>v \<in> set streams. unat v \<le> MaxArchiveEntries" "sum_list (map unat streams) \<le> unat files"
    for b streams files
    unfolding digests_def
  proof (intro safe_if safe_preturn safe_pbind_if_result [OF safe_plift] count_unknown_no_panic
      safe_pbind_if_result [OF safe_readCRCDefined])
    fix r unknown r1
    assume "plift (count_unknown u 0 0 streams) r = Inr (unknown, r1)"
    then have t: "unat unknown = unknown_total u 0 streams"
      using count_unknown_total [of u 0 0 streams unknown] b(1) by simp
    fix r2 x r3
    assume "readCRCDefined unknown r2 = Inr (x, r3)"
    then have l: "length (fst x) = unat unknown \<and> length (snd x) = unat unknown"
      using readCRCDefined_length by (cases x) auto
    have "distribute_digests u 0 (unat files) streams (fst x) (snd x) \<noteq> Inl Panic"
      by (rule distribute_digests_no_panic [OF assms]) (use l t b(2) in simp_all)
    then show "safe (case x of (ud, udef) \<Rightarrow>
        pbind (plift (distribute_digests u 0 (unat files) streams ud udef)) (\<lambda>(digest, defined, left).
        passert (left = [] \<and> length digest = unat files)
          (Message ''substream checksum count does not match'')
        (pbind ReadByte (\<lambda>id. preturn (digest, defined, id)))))"
      by (cases x) (auto intro!: safe_intros)
  qed
  have rest: "safe (pbind (plift (check_substream_counts 0 streams)) (\<lambda>files.
      pcheck (checkUint64 files False)
     (pbind (sizes b streams files) (\<lambda>(size, id).
      pbind (digests id streams files) (\<lambda>(digest, defined, id).
      passert (id = idEnd) UnexpectedID
        (preturn \<lparr>s_streams = streams, s_size = size, s_digest = digest,
                  s_digestDefined = defined\<rparr>))))))"
    if b: "\<forall>v \<in> set streams. unat v \<le> MaxArchiveEntries" for b streams
  proof (rule safe_pbind_if_result [OF safe_plift])
    fix r files r'
    assume "plift (check_substream_counts 0 streams) r = Inr (files, r')"
    then have "sum_list (map unat streams) \<le> unat files"
      using substream_counts_total [of 0 streams files] b by simp
    then show "safe (pcheck (checkUint64 files False)
     (pbind (sizes b streams files) (\<lambda>(size, id).
      pbind (digests id streams files) (\<lambda>(digest, defined, id).
      passert (id = idEnd) UnexpectedID
        (preturn \<lparr>s_streams = streams, s_size = size, s_digest = digest,
                  s_digestDefined = defined\<rparr>)))))"
      by (intro safe_intros sizes digests b checkUint64_no_panic) simp_all
  qed simp
  show ?thesis
    unfolding readSubStreamsInfo_def Let_def sizes_def [symmetric] digests_def [symmetric]
    apply (rule safe_pbind [OF safe_ReadByte])
    apply (rule safe_pbind_if_result)
     apply (intro safe_intros)
    subgoal for id r x r'
      by (cases x) (auto intro!: rest dest: stream_counts_bound)
    done
qed

lemma validate_folders_no_panic: "validate_folders acc fs \<noteq> Inl Panic"
  by (induction fs arbitrary: acc) auto

lemma validate_substreams_no_panic: "validate_substreams u ss \<noteq> Some Panic"
  unfolding validate_substreams_def Let_def by simp

lemma validate_no_panic [simp]: "validate (Some s) \<noteq> Some Panic"
proof (cases "si_packInfo s")
  case None
  then show ?thesis by (cases "si_unpackInfo s") (simp_all add: validate_def)
next
  case p: (Some p)
  show ?thesis
  proof (cases "si_unpackInfo s")
    case None
    with p show ?thesis by (simp add: validate_def)
  next
    case (Some u)
    with p show ?thesis
      using validate_folders_no_panic [of 0 "u_folder u"] validate_substreams_no_panic [of u]
      by (cases "validate_folders 0 (u_folder u)"; cases "si_subStreamsInfo s")
         (simp_all add: validate_def)
  qed
qed

lemma safe_readStreamsInfo [safe_intros]: "safe readStreamsInfo"
proof -
  have unpack: "safe (if b = idUnpackInfo
      then pbind readUnpackInfo (\<lambda>u. pbind ReadByte (\<lambda>id. preturn (Some u, id)))
      else preturn (None, b))" for b
    by (intro safe_intros)
  have sub: "safe (case fst x of None \<Rightarrow> pfail MissingUnpackInfo
        | Some u \<Rightarrow> pbind (readSubStreamsInfo u) (\<lambda>ss. pbind ReadByte (\<lambda>id. preturn (Some ss, id))))"
    if "(if b = idUnpackInfo
      then pbind readUnpackInfo (\<lambda>u. pbind ReadByte (\<lambda>id. preturn (Some u, id)))
      else preturn (None, b)) r = Inr (x, r')" for b r x r'
    using that
    by (cases "fst x")
       (auto simp: pbind_Inr_iff intro!: safe_intros safe_readSubStreamsInfo
         dest!: readUnpackInfo_digests split: if_splits)
  show ?thesis
    unfolding readStreamsInfo_def Let_def
    apply (rule safe_pbind [OF safe_ReadByte])
    apply (rule safe_pbind)
     apply (intro safe_intros)
    apply (rule safe_case_prod)
    apply (rule safe_pbind_if_result [OF unpack])
    apply (drule sub)
    subgoal for b x pack c r y r'
      by (cases y) (auto intro!: safe_intros)
    done
qed

section \<open>Files\<close>

lemma safe_read_external [safe_intros]: "safe p \<Longrightarrow> safe (read_external m p)"
  unfolding read_external_def by (intro safe_intros) simp

lemma safe_readTimes [safe_intros]: "safe (readTimes ev n)"
  unfolding readTimes_def by (intro safe_intros safe_read_defined checkUint64_no_panic) simp

lemma safe_readAttributes [safe_intros]: "safe (readAttributes n)"
  unfolding readAttributes_def by (intro safe_intros safe_read_defined checkUint64_no_panic) simp

lemma safe_read_limited [safe_intros]: "safe (read_limited n)"
proof -
  have "read_limited n r \<noteq> Inl Panic" for r
  proof (induction n r rule: read_limited.induct)
    case (1 n r)
    then show ?case
      using safe_Read [of "min 4096 n"]
      by (subst read_limited.simps) (auto simp: safe_def split: sum.splits prod.splits)
  qed
  then show ?thesis by (simp add: safe_def)
qed

lemma safe_readNames [safe_intros]: "safe (readNames ev n len)"
  unfolding readNames_def
  by (intro safe_intros checkUint64_no_panic) (simp_all add: scan_names_def Let_def)

lemma set_empty_files_no_panic:
  "length (filter isEmptyStream hs) \<le> length es \<Longrightarrow> set_empty_files es hs \<noteq> Inl Panic"
proof (induction hs arbitrary: es)
  case Nil
  then show ?case by simp
next
  case (Cons h hs)
  then show ?case by (cases es) (auto simp: sbind_Inl_iff)
qed

lemma set_empty_files_filter:
  "set_empty_files es hs = Inr hs' \<Longrightarrow>
     length (filter isEmptyStream hs') = length (filter isEmptyStream hs)"
proof (induction hs arbitrary: es hs')
  case Nil
  then show ?case by simp
next
  case (Cons h hs)
  then show ?case by (auto simp: sbind_Inr_iff split: if_splits list.splits)
qed

text \<open>\<open>emptyStreams\<close> never falls behind the number of files flagged as empty streams.\<close>

definition flags_ok :: "fileHeader list \<Rightarrow> u64 \<Rightarrow> bool" where
  "flags_ok hs es \<longleftrightarrow> length (filter isEmptyStream hs) \<le> unat es"

lemma set_range_no_panic: "length xs \<le> length hs \<Longrightarrow> set_range f xs hs \<noteq> Inl Panic"
  by (induction f xs hs rule: set_range.induct) (auto simp: sbind_Inl_iff)

lemma set_range_length: "set_range f xs hs = Inr hs' \<Longrightarrow> length hs' = length hs"
  by (induction f xs hs arbitrary: hs' rule: set_range.induct) (auto simp: sbind_Inr_iff)

lemma set_range_filter:
  "set_range f xs hs = Inr hs' \<Longrightarrow> (\<And>x h. isEmptyStream (f x h) = isEmptyStream h) \<Longrightarrow>
     length (filter isEmptyStream hs') = length (filter isEmptyStream hs)"
  by (induction f xs hs arbitrary: hs' rule: set_range.induct) (auto simp: sbind_Inr_iff)

lemma set_empty_files_length: "set_empty_files es hs = Inr hs' \<Longrightarrow> length hs' = length hs"
  by (induction es hs arbitrary: hs' rule: set_empty_files.induct)
     (auto simp: sbind_Inr_iff split: if_splits list.splits)

lemma set_empty_streams_no_panic: "length hs \<le> length es \<Longrightarrow> set_empty_streams es hs n \<noteq> Inl Panic"
  by (induction es hs n rule: set_empty_streams.induct) (auto simp: sbind_Inl_iff)

lemma set_empty_streams_count:
  "set_empty_streams es hs n = Inr (hs', n') \<Longrightarrow> unat n + length hs < 2 ^ 64 \<Longrightarrow>
     length hs' = length hs \<and> unat n' = unat n + length (filter isEmptyStream hs')"
proof (induction es hs n arbitrary: hs' n' rule: set_empty_streams.induct)
  case (3 e es h hs n)
  have "unat (if e then n + 1 else n) = unat n + (if e then 1 else 0)"
    using "3.prems"(2) by (auto simp: unat_add_small)
  with 3 show ?case by (auto simp: sbind_Inr_iff)
qed auto

text \<open>The lists that the properties read have an element for every file.\<close>

lemma readTimes_length: "readTimes ev n r = Inr (xs, r') \<Longrightarrow> length xs = unat n"
  by (auto simp: readTimes_def read_external_def pbind_Inr_iff dest: read_defined_length)

lemma readAttributes_length: "readAttributes n r = Inr (xs, r') \<Longrightarrow> length xs = unat n"
  by (auto simp: readAttributes_def read_external_def pbind_Inr_iff dest: read_defined_length)

lemma readNames_length: "readNames ev n len r = Inr (xs, r') \<Longrightarrow> length xs = unat n"
  by (auto simp: readNames_def read_external_def pbind_Inr_iff)

lemma set_range_safe:
  assumes "safe p" "\<And>r xs r'. p r = Inr (xs, r') \<Longrightarrow> length xs = length hs"
  shows "safe (pbind p (\<lambda>xs. pbind (plift (set_range f xs hs)) (\<lambda>hs. preturn (hs, es))))"
  by (rule safe_pbind_if_result [OF assms(1)])
     (auto intro!: safe_pbind safe_plift safe_preturn set_range_no_panic dest!: assms(2))

lemma read_property_no_panic:
  assumes "flags_ok hs es" "length hs = unat files"
  shows "safe (read_property ev files prop len hs es)"
proof -
  have empty_streams: "safe (pbind (readBool files) (\<lambda>empty. plift (set_empty_streams empty hs es)))"
    by (rule safe_pbind_if_result [OF safe_readBool])
       (use assms(2) in \<open>auto intro!: safe_plift set_empty_streams_no_panic dest!: readBool_length\<close>)
  have empty_files: "safe (pbind (readBool es) (\<lambda>empty.
        pbind (plift (set_empty_files empty hs)) (\<lambda>hs. preturn (hs, es))))"
  proof (rule safe_pbind_if_result [OF safe_readBool])
    fix r empty r'
    assume "readBool es r = Inr (empty, r')"
    then have "set_empty_files empty hs \<noteq> Inl Panic"
      using assms(1) by (intro set_empty_files_no_panic) (auto simp: flags_ok_def dest: readBool_length)
    then show "safe (pbind (plift (set_empty_files empty hs)) (\<lambda>hs. preturn (hs, es)))"
      by (intro safe_intros)
  qed
  show ?thesis
    unfolding read_property_def
    by (intro safe_if empty_streams empty_files set_range_safe)
       (auto simp: assms(2) intro!: safe_intros dest: readTimes_length readAttributes_length readNames_length)
qed

lemma read_property_flags:
  assumes "read_property ev files prop len hs es r = Inr ((hs', es'), r')"
    and "flags_ok hs es" "length hs = unat files" "unat es + unat files < 2 ^ 64"
  shows "flags_ok hs' es' \<and> length hs' = unat files \<and> unat es' \<le> unat es + unat files"
proof (cases "prop = idEmptyStream")
  case True
  with assms(1) obtain empty where "set_empty_streams empty hs es = Inr (hs', es')"
    by (auto simp: read_property_def pbind_Inr_iff)
  then have "length hs' = length hs" "unat es' = unat es + length (filter isEmptyStream hs')"
    using set_empty_streams_count assms(3,4) by auto
  then show ?thesis
    using assms(3) length_filter_le [of isEmptyStream hs'] by (simp add: flags_ok_def)
next
  case False
  with assms(1) have "es' = es \<and> length hs' = length hs \<and>
      length (filter isEmptyStream hs') = length (filter isEmptyStream hs)"
    by (auto simp: read_property_def pbind_Inr_iff set_empty_files_filter set_empty_files_length
        dest: set_range_filter set_range_length split: if_splits)
  with assms(2,3) show ?thesis by (simp add: flags_ok_def)
qed

lemma files_loop_no_panic:
  "flags_ok hs es \<Longrightarrow> length hs = unat files \<Longrightarrow> unat files \<le> MaxArchiveEntries \<Longrightarrow>
     unat es + MaxArchiveEntries * rsize r < 2 ^ 64 \<Longrightarrow> files_loop ev files hs es r \<noteq> Inl Panic"
proof (induction ev files hs es r rule: files_loop.induct)
  case (1 ev files hs es r)
  define body where "body pid = pbind readUint64 (\<lambda>len. passert (\<not> len > of_nat MaxMetadataBytes)
      (Message ''file property exceeds metadata limit'') (read_property ev files pid len hs es))" for pid
  have safe: "safe (body pid)" for pid
    unfolding body_def by (intro safe_intros read_property_no_panic "1.prems"(1,2)) simp
  have unfold: "files_loop ev files hs es r =
     (case ReadByte r of Inl e \<Rightarrow> Inl e
      | Inr (property, r1) \<Rightarrow> if property = idEnd then Inr (hs, r1)
          else (case body property r1 of Inl e \<Rightarrow> Inl e
                | Inr ((hs', es'), r2) \<Rightarrow> files_loop ev files hs' es' r2))"
    unfolding body_def by (rule files_loop.simps)
  show ?case
  proof (cases "ReadByte r")
    case (Inl e)
    then show ?thesis
      using safe_ReadByte by (auto simp: unfold safe_def)
  next
    case (Inr z)
    obtain pid r1 where z: "z = (pid, r1)" by fastforce
    have r1: "rsize r = Suc (rsize r1)" using Inr z by (simp add: ReadByte_rsize)
    show ?thesis
    proof (cases "pid = idEnd")
      case True
      with Inr z show ?thesis by (simp add: unfold)
    next
      case False
      show ?thesis
      proof (cases "body pid r1")
        case (Inl e)
        with safe have "e \<noteq> Panic" by (auto simp: safe_def)
        with Inr z False Inl show ?thesis by (simp add: unfold)
      next
        case body: (Inr y)
        obtain hs' es' r2 where y: "y = ((hs', es'), r2)" by (metis surj_pair)
        with body obtain len ra where "read_property ev files pid len hs es ra = Inr ((hs', es'), r2)"
          by (auto simp: body_def pbind_Inr_iff)
        then have flags: "flags_ok hs' es' \<and> length hs' = unat files \<and> unat es' \<le> unat es + unat files"
          by (rule read_property_flags) (use "1.prems" r1 in auto)
        have "shrinks (body pid)" unfolding body_def by (intro shrink_intros)
        then have r2: "rsize r2 \<le> rsize r1" by (rule shrinksD) (use body y in simp)
        have "unat es' + MaxArchiveEntries * rsize r2 < 2 ^ 64"
        proof -
          have "MaxArchiveEntries * rsize r2 \<le> MaxArchiveEntries * rsize r1"
            using r2 by (rule mult_le_mono2)
          with "1.prems"(3,4) flags show ?thesis unfolding r1 mult_Suc_right by linarith
        qed
        with "1.IH" [OF Inr z [symmetric] False, folded body_def] body y flags "1.prems"(3) Inr z False
        show ?thesis by (simp add: unfold)
      qed
    qed
  qed
qed

section \<open>The stream of each file\<close>

definition tables_match :: "streamsInfo \<Rightarrow> bool" where
  "tables_match si \<longleftrightarrow>
     (\<forall>u. si_unpackInfo si = Some u \<longrightarrow> digests_match u) \<and>
     (\<forall>ss. si_subStreamsInfo si = Some ss \<longrightarrow> length (s_digest ss) = length (s_digestDefined ss))"

lemma yields_pcheck: "yields p P \<Longrightarrow> yields (pcheck e p) P"
  by (auto simp: pcheck_def yields_pfail split: option.splits)

lemma readSubStreamsInfo_digests:
  "yields (readSubStreamsInfo u) (\<lambda>ss. length (s_digest ss) = length (s_digestDefined ss))"
proof -
  have distributed: "yields (plift (distribute_digests u 0 (unat files) streams ud udef))
      (\<lambda>(digest, defined, left). length digest = length defined)" for files :: u64 and streams ud udef
    by (rule yieldsI) (auto dest: distribute_digests_length)
  have digests: "yields (if b = idCRC
         then
           pbind (plift (count_unknown u 0 0 streams)) (\<lambda>unknown.
           pbind (readCRCDefined unknown) (\<lambda>(ud, udef).
           pbind (plift (distribute_digests u 0 (unat files) streams ud udef)) (\<lambda>(digest, defined, left).
           passert (left = [] \<and> length digest = unat files)
             (Message ''substream checksum count does not match'')
           (pbind ReadByte (\<lambda>id. preturn (digest, defined, id))))))
         else preturn ([], [], b)) (\<lambda>(digest, defined, id). length digest = length defined)"
    for b streams and files :: u64
    by (intro yields_if yields_then yields_case_prod yields_pbind [OF distributed] yields_passert
        yields_preturn) auto
  show ?thesis
    unfolding readSubStreamsInfo_def Let_def
    apply (rule yields_then, rule yields_then, rule yields_case_prod, rule yields_then)
    apply (rule yields_pcheck, rule yields_then, rule yields_case_prod, rule yields_pbind [OF digests])
    apply (intro yields_case_prod yields_passert yields_preturn)
    apply simp
    done
qed

lemma readStreamsInfo_tables: "yields readStreamsInfo tables_match"
proof -
  have unpack: "yields (if b = idUnpackInfo
         then pbind readUnpackInfo (\<lambda>u. pbind ReadByte (\<lambda>id. preturn (Some u, id)))
         else preturn (None, b)) (\<lambda>(unpack, id). \<forall>u. unpack = Some u \<longrightarrow> digests_match u)" for b
    by (rule yields_if, rule yields_pbind [where Q = digests_match])
       (auto intro!: yieldsI dest: readUnpackInfo_digests simp: pbind_Inr_iff)
  have sub: "yields (if b = idSubStreamsInfo
         then (case unpack of
                 None \<Rightarrow> pfail MissingUnpackInfo
               | Some u \<Rightarrow>
                   pbind (readSubStreamsInfo u) (\<lambda>ss. pbind ReadByte (\<lambda>id. preturn (Some ss, id))))
         else preturn (None, b))
      (\<lambda>(sub, id). \<forall>ss. sub = Some ss \<longrightarrow> length (s_digest ss) = length (s_digestDefined ss))"
    for b unpack
    by (intro yields_if yields_case_option yields_pfail yields_pbind [OF readSubStreamsInfo_digests])
       (auto intro!: yieldsI simp: pbind_Inr_iff)
  show ?thesis
    unfolding readStreamsInfo_def Let_def
    apply (rule yields_then, rule yields_then, rule yields_case_prod, rule yields_pbind [OF unpack])
    apply (rule yields_case_prod, rule yields_pbind [OF sub])
    apply (intro yields_case_prod yields_passert yields_pcheck yields_preturn)
    apply (simp add: tables_match_def)
    done
qed

lemma FileFolderAndSize_no_panic:
  assumes "tables_match si"
  shows "FileFolderAndSize (Some si) file \<noteq> Inl Panic"
proof (cases "si_unpackInfo si")
  case None
  then show ?thesis by (simp add: FileFolderAndSize_def)
next
  case (Some u)
  with assms have u: "length (u_digest u) = length (u_digestDefined u)"
    by (simp add: tables_match_def digests_match_def)
  show ?thesis
  proof (cases "si_subStreamsInfo si")
    case None
    with Some u show ?thesis
      by (auto simp: FileFolderAndSize_def sbind_Inl_iff idx_def)
  next
    case ss: (Some ss)
    with assms have "length (s_digest ss) = length (s_digestDefined ss)"
      by (simp add: tables_match_def)
    with Some u ss show ?thesis
      by (auto simp: FileFolderAndSize_def sbind_Inl_iff idx_def split: option.splits)
  qed
qed

lemma assign_streams_no_panic: "tables_match si \<Longrightarrow> assign_streams si j hs \<noteq> Inl Panic"
  by (induction hs arbitrary: j) (auto simp: sbind_Inl_iff FileFolderAndSize_no_panic)

lemma files_info_no_panic:
  assumes "rsize r < 2 ^ 40"
  shows "readFilesInfo ev r \<noteq> Inl Panic"
proof
  assume panic: "readFilesInfo ev r = Inl Panic"
  have nb: "readUint64Bounded True r \<noteq> Inl Panic"
    using safe_readUint64Bounded by (simp add: safe_def)
  from panic nb obtain n r1 where n: "readUint64Bounded True r = Inr (n, r1)"
    "\<not> n > of_nat MaxArchiveEntries"
    "files_loop ev n (replicate (unat n) empty_header) 0 r1 = Inl Panic"
    by (auto simp: readFilesInfo_def pbind_def passert_def pfail_def split: sum.splits if_splits)
  have "shrinks (readUint64Bounded True)"
    unfolding readUint64Bounded_def by (intro shrink_intros)
  then have "rsize r1 \<le> rsize r" by (rule shrinksD) (rule n(1))
  with assms have "rsize r1 < 2 ^ 40" by linarith
  then have "unat (0::u64) + MaxArchiveEntries * rsize r1 < 2 ^ 64"
    by (simp add: limit_defs)
  moreover have "unat n \<le> MaxArchiveEntries"
    using n(2) by (simp add: not_less word_le_nat_alt limit_defs)
  moreover have "flags_ok (replicate (unat n) empty_header) 0"
    by (simp add: flags_ok_def empty_header_def filter_empty_conv)
  moreover have "length (replicate (unat n) empty_header) = unat n" by simp
  ultimately show False using files_loop_no_panic n(3) by blast
qed

lemma shrinks_readStreamsInfo: "shrinks readStreamsInfo"
proof -
  have coder: "shrinks readCoder"
    unfolding readCoder_def read_exact_def readUint64Bounded_def by (intro shrink_intros)
  have folder: "shrinks readFolder"
    unfolding readFolder_def readBindPair_def readUint64Bounded_def Let_def
    by (intro shrink_intros coder)
  have crc: "shrinks (readCRCDefined n)" for n
    unfolding readCRCDefined_def by (intro shrink_intros)
  have sizes: "shrinks (read_folder_sizes fs)" for fs
    by (induction fs) (auto simp: Let_def intro!: shrink_intros)
  have ssizes: "shrinks (read_stream_sizes u room n acc)" for u room n acc
    by (induction u room n acc rule: read_stream_sizes.induct) (auto intro!: shrink_intros)
  have sub: "shrinks (read_substream_sizes room fs)" for room fs
    by (induction room fs rule: read_substream_sizes.induct) (auto intro!: shrink_intros ssizes)
  have "shrinks readPackInfo"
    unfolding readPackInfo_def readUint64Bounded_def readSizes_def readCRC_def
    by (intro shrink_intros crc)
  moreover have "shrinks readUnpackInfo"
    unfolding readUnpackInfo_def expectID_def readUint64Bounded_def
    by (intro shrink_intros crc sizes folder)
  moreover have "shrinks (readSubStreamsInfo u)" for u
    unfolding readSubStreamsInfo_def readStreamCount_def Let_def by (intro shrink_intros crc sub)
  ultimately show ?thesis
    unfolding readStreamsInfo_def Let_def by (intro shrink_intros)
qed

text \<open>
  C1. The header parser is total: on any input shorter than 1 TiB, however the data is split into
  buffer fills and whatever the decoder of names and the conversion of times do, \<open>readHeader\<close>
  returns a header or an error value, and never indexes a slice out of range. The assignments \<open>f.file[i].X = v\<close> of
  \<open>readFilesInfo\<close> are checked accesses too: without the test of \<open>readNames\<close> that there are as
  many names as files, they would panic.
\<close>

theorem header_parser_never_panics:
  assumes "rsize r < 2 ^ 40"
  shows "readHeader ev r \<noteq> Inl Panic"
proof
  assume panic: "readHeader ev r = Inl Panic"
  define streams where "streams b = (if b = idMainStreamsInfo
      then pbind readStreamsInfo (\<lambda>s. pbind ReadByte (\<lambda>id. preturn (Some s, id)))
      else preturn (None, b))" for b
  define files where "files b = (if b = idFilesInfo
      then pbind (readFilesInfo ev) (\<lambda>fs. pbind ReadByte (\<lambda>id. preturn (Some fs, id)))
      else preturn (None, b))" for b
  have byte: "ReadByte ra \<noteq> Inl Panic" for ra using safe_ReadByte by (simp add: safe_def)
  have streams_safe: "streams b ra \<noteq> Inl Panic" for b ra
  proof -
    have "safe (streams b)" unfolding streams_def by (intro safe_intros)
    then show ?thesis by (simp add: safe_def)
  qed
  have files_safe: "files b ra \<noteq> Inl Panic" if "rsize ra < 2 ^ 40" for b ra
    using files_info_no_panic [OF that] byte
    by (auto simp: files_def pbind_def preturn_def split: sum.splits if_splits)
  from panic byte obtain b r1 where b: "ReadByte r = Inr (b, r1)"
    and p1: "pbind (streams b) (\<lambda>(streams, id). pbind (files id) (\<lambda>(files, id).
       passert (id = idEnd) UnexpectedID
       (case (streams, files) of
          (Some si, Some hs) \<Rightarrow>
            pbind (plift (assign_streams si 0 hs)) (\<lambda>(hs, j).
            passert (j = stream_count si) (Message ''file and stream counts do not match'')
              (preturn \<lparr>streams_info = Some si, files_info = Some hs\<rparr>))
        | _ \<Rightarrow> preturn \<lparr>streams_info = streams, files_info = files\<rparr>))) r1 = Inl Panic"
    unfolding readHeader_def streams_def [symmetric] files_def [symmetric]
    by (auto simp: pbind_def [of ReadByte] passert_def [of "_ \<noteq> _"] pfail_def
        split: sum.splits if_splits)
  from p1 streams_safe obtain st b2 r2 where st: "streams b r1 = Inr ((st, b2), r2)"
    and p2: "pbind (files b2) (\<lambda>(files, id).
       passert (id = idEnd) UnexpectedID
       (case (st, files) of
          (Some si, Some hs) \<Rightarrow>
            pbind (plift (assign_streams si 0 hs)) (\<lambda>(hs, j).
            passert (j = stream_count si) (Message ''file and stream counts do not match'')
              (preturn \<lparr>streams_info = Some si, files_info = Some hs\<rparr>))
        | _ \<Rightarrow> preturn \<lparr>streams_info = st, files_info = files\<rparr>)) r2 = Inl Panic"
    by (auto simp: pbind_def [of "streams b"] split: sum.splits)
  have "shrinks (streams b)" unfolding streams_def by (intro shrink_intros shrinks_readStreamsInfo)
  then have "rsize r2 \<le> rsize r1" by (rule shrinksD) (rule st)
  with ReadByte_rsize [OF b] assms have r2: "rsize r2 < 2 ^ 40" by simp
  have "tables_match si" if "st = Some si" for si
    using st that by (auto simp: streams_def pbind_Inr_iff dest: yieldsD [OF readStreamsInfo_tables] split: if_splits)
  then have rest: "safe (passert (b3 = idEnd) UnexpectedID
       (case (st, fs) of
          (Some si, Some hs) \<Rightarrow>
            pbind (plift (assign_streams si 0 hs)) (\<lambda>(hs, j).
            passert (j = stream_count si) (Message ''file and stream counts do not match'')
              (preturn \<lparr>streams_info = Some si, files_info = Some hs\<rparr>))
        | _ \<Rightarrow> preturn \<lparr>streams_info = st, files_info = fs\<rparr>))" for b3 fs
    by (auto intro!: safe_intros assign_streams_no_panic split: option.splits)
  from p2 files_safe [OF r2] obtain fs b3 r3 where fs: "files b2 r2 = Inr ((fs, b3), r3)"
    by (cases "files b2 r2") (auto simp: pbind_def [of "files b2"])
  with p2 rest [of b3 fs] show False by (auto simp: safe_def)
qed

theorem header_parser_never_panics_witness:
  "readHeader \<lparr>ft_nanoseconds = (\<lambda>t. uint t), utf16le_decode = id\<rparr>
     \<lparr>buf = [5, 1, 14], chunks = [[1, 128], [0, 0]], cap = 2, fin = EOF\<rparr> \<noteq> Inl Panic"
  by (rule header_parser_never_panics) (simp add: rsize_def)

end
