(* ===== verification/HeaderWrite.thy ===== *)
theory HeaderWrite
  imports HeaderRead
begin

text \<open>
  \<open>internal/archive7z/writer.go\<close>: the encoder of the 7z header. Every \<open>write...\<close> function is the
  list of bytes it appends to its buffer. The Go code shares \<open>*writerFile\<close> pointers between the file
  list of the archive and the file lists of the folders; here a folder holds indices into the file
  table, which is an argument of the functions that look files up.
\<close>

section \<open>Tables of the writer\<close>

text \<open>A \<open>time.Time\<close> is \<open>None\<close> for the zero time and else its nanoseconds since the Unix epoch.\<close>

record writerFileHeader =
  w_Name :: "byte list"
  w_Modified :: "int option"
  w_Attributes :: u32
  w_IsDir :: bool

record writerFile =
  wf_header :: writerFileHeader
  uncompressedSize :: u64
  wf_checksum :: u32
  emptyStream :: bool

record writerFolder =
  fo_files :: "nat list"
  fo_method :: "byte list"
  fo_properties :: "byte list"
  filterMethod :: "byte list"
  aesProperties :: "byte list"
  packSize :: u64
  compressedSize :: u64
  fo_uncompressedSize :: u64
  fo_checksum :: u32

definition method7zAES :: "byte list" where "method7zAES = [0x06, 0xF1, 0x07, 0x01]"
definition methodCopy :: "byte list" where "methodCopy = [0x00]"
definition methodLZMA :: "byte list" where "methodLZMA = [0x03, 0x01, 0x01]"
definition methodLZMA2 :: "byte list" where "methodLZMA2 = [0x21]"
definition methodDeflate :: "byte list" where "methodDeflate = [0x04, 0x01, 0x08]"
definition methodBCJ :: "byte list" where "methodBCJ = [0x03, 0x03, 0x01, 0x03]"
definition methodARM64 :: "byte list" where "methodARM64 = [0x0a]"
definition methodIA64 :: "byte list" where "methodIA64 = [0x03, 0x03, 0x04, 0x01]"

section \<open>Numbers and bit vectors\<close>

definition writeUint64 :: "u64 \<Rightarrow> byte list" where
  "writeUint64 value =
     (case find (\<lambda>extra. value < push_bit (7 + extra * 7) 1) [0..<8] of
        Some extra \<Rightarrow>
          (push_bit (8 - extra) 0xFF OR ucast (drop_bit (8 * extra) value)) # le_bytes extra value
      | None \<Rightarrow> 0xFF # le_bytes 8 value)"

fun bool_vector_loop :: "byte \<Rightarrow> byte \<Rightarrow> bool list \<Rightarrow> byte list" where
  "bool_vector_loop v m [] = (if m \<noteq> 0x80 then [v] else [])"
| "bool_vector_loop v m (is_set # rest) =
     (let v = (if is_set then v OR m else v); m = drop_bit 1 m in
      if m = 0 then v # bool_vector_loop 0 0x80 rest else bool_vector_loop v m rest)"

definition writeBoolVector :: "bool list \<Rightarrow> byte list" where
  "writeBoolVector bs = bool_vector_loop 0 0x80 bs"

section \<open>Coders, folders and streams\<close>

definition writeCoder :: "byte list \<Rightarrow> byte list \<Rightarrow> byte list" where
  "writeCoder method props =
     (let flags = (of_nat (length method) :: byte) OR (if length props > 0 then 0x20 else 0) in
      flags # method @
      (if length props > 0 then writeUint64 (of_nat (length props)) @ props else []))"

definition writeFolder :: "writerFolder \<Rightarrow> byte list" where
  "writeFolder fo =
     (let encrypted = length (aesProperties fo) > 0; filtered = length (filterMethod fo) > 0 in
      if \<not> encrypted \<and> \<not> filtered then
        writeUint64 1 @ writeCoder (fo_method fo) (fo_properties fo)
      else
        writeUint64 (if encrypted \<and> filtered then 3 else 2) @
        (if encrypted then writeCoder method7zAES (aesProperties fo) else []) @
        writeCoder (fo_method fo) (fo_properties fo) @
        (if filtered then writeCoder (filterMethod fo) [] else []) @
        (if encrypted then writeUint64 1 @ writeUint64 0 else []) @
        (if filtered
         then writeUint64 (if encrypted then 2 else 1) @ writeUint64 (if encrypted then 1 else 0)
         else []))"

definition folder_sizes :: "writerFolder \<Rightarrow> u64 list" where
  "folder_sizes fo =
     (if length (aesProperties fo) > 0 then [compressedSize fo] else []) @
     [fo_uncompressedSize fo] @
     (if length (filterMethod fo) > 0 then [fo_uncompressedSize fo] else [])"

definition multiple :: "writerFolder list \<Rightarrow> bool" where
  "multiple fos = list_ex (\<lambda>fo. length (fo_files fo) \<noteq> 1) fos"

definition writeStreamsInfo :: "writerFile list \<Rightarrow> writerFolder list \<Rightarrow> byte list" where
  "writeStreamsInfo files fos =
     idPackInfo # writeUint64 0 @ writeUint64 (of_nat (length fos)) @
     idSize # concat (map (\<lambda>fo. writeUint64 (packSize fo)) fos) @
     idEnd #
     idUnpackInfo # idFolder # writeUint64 (of_nat (length fos)) @
     0 # concat (map writeFolder fos) @
     idCodersUnpackSize # concat (map (\<lambda>fo. concat (map writeUint64 (folder_sizes fo))) fos) @
     idCRC # 1 # concat (map (\<lambda>fo. le_bytes 4 (fo_checksum fo)) fos) @
     idEnd #
     idSubStreamsInfo #
     (if multiple fos then
        idNumUnpackStream # concat (map (\<lambda>fo. writeUint64 (of_nat (length (fo_files fo)))) fos) @
        idSize # concat (map (\<lambda>fo. concat (map (\<lambda>i. writeUint64 (uncompressedSize (files ! i)))
                                              (butlast (fo_files fo)))) fos) @
        idCRC # 1 # concat (map (\<lambda>fo. if length (fo_files fo) = 1 then []
                                      else concat (map (\<lambda>i. le_bytes 4 (wf_checksum (files ! i)))
                                                     (fo_files fo))) fos)
      else []) @
     [idEnd]"

section \<open>Files\<close>

definition writeEmptyStreams :: "writerFile list \<Rightarrow> byte list" where
  "writeEmptyStreams files =
     (let empty = map emptyStream files in
      if \<not> list_ex emptyStream files then []
      else
        idEmptyStream # writeUint64 (of_nat ((length empty + 7) div 8)) @ writeBoolVector empty @
        (let emptyFiles = map (\<lambda>f. \<not> w_IsDir (wf_header f)) (filter emptyStream files) in
         if list_ex id emptyFiles
         then idEmptyFile # writeUint64 (of_nat ((length emptyFiles + 7) div 8)) @
              writeBoolVector emptyFiles
         else []))"

text \<open>
  The conversion \<open>[]rune(s)\<close>: the code points of a Go string. An invalid byte becomes U+FFFD and
  is one byte long (\<open>utf8.DecodeRune\<close>).
\<close>

definition continuation :: "byte \<Rightarrow> bool" where
  "continuation b \<longleftrightarrow> 0x80 \<le> b \<and> b \<le> 0xBF"

definition cont_bits :: "byte \<Rightarrow> nat" where
  "cont_bits b = unat (b AND 0x3F)"

definition DecodeRune :: "byte list \<Rightarrow> nat \<times> nat" where
  "DecodeRune bs =
     (case bs of
        [] \<Rightarrow> (0xFFFD, 0)
      | b0 # r0 \<Rightarrow>
        if b0 < 0x80 then (unat b0, 1)
        else if b0 < 0xC2 \<or> b0 > 0xF4 then (0xFFFD, 1)
        else (case r0 of
          [] \<Rightarrow> (0xFFFD, 1)
        | b1 # r1 \<Rightarrow>
          let lo = (if b0 = 0xE0 then 0xA0 else if b0 = 0xF0 then 0x90 else 0x80);
              hi = (if b0 = 0xED then 0x9F else if b0 = 0xF4 then 0x8F else 0xBF) in
          if b1 < lo \<or> hi < b1 then (0xFFFD, 1)
          else if b0 < 0xE0 then (unat (b0 AND 0x1F) * 64 + cont_bits b1, 2)
          else (case r1 of
            [] \<Rightarrow> (0xFFFD, 1)
          | b2 # r2 \<Rightarrow>
            if \<not> continuation b2 then (0xFFFD, 1)
            else if b0 < 0xF0
            then (unat (b0 AND 0x0F) * 4096 + cont_bits b1 * 64 + cont_bits b2, 3)
            else (case r2 of
              [] \<Rightarrow> (0xFFFD, 1)
            | b3 # _ \<Rightarrow>
              if \<not> continuation b3 then (0xFFFD, 1)
              else (unat (b0 AND 0x07) * 262144 + cont_bits b1 * 4096 + cont_bits b2 * 64
                      + cont_bits b3, 4)))))"

function runes :: "byte list \<Rightarrow> nat list" where
  "runes bs =
     (if bs = [] then []
      else let (rn, w) = DecodeRune bs in rn # runes (drop (max 1 w) bs))"
  by pat_completeness auto
termination by (relation "measure length") auto

declare runes.simps [simp del]

text \<open>\<open>utf16.Encode\<close>: surrogate code points and code points above U+10FFFF become U+FFFD.\<close>

definition utf16_units :: "nat \<Rightarrow> u16 list" where
  "utf16_units rn =
     (if rn < 0xD800 \<or> (0xE000 \<le> rn \<and> rn < 0x10000) then [of_nat rn]
      else if 0x10000 \<le> rn \<and> rn \<le> 0x10FFFF
      then [of_nat (0xD800 + (rn - 0x10000) div 1024), of_nat (0xDC00 + (rn - 0x10000) mod 1024)]
      else [0xFFFD])"

definition utf16_Encode :: "nat list \<Rightarrow> u16 list" where
  "utf16_Encode rs = concat (map utf16_units rs)"

definition utf16le :: "byte list \<Rightarrow> byte list" where
  "utf16le name = concat (map (le_bytes 2) (utf16_Encode (runes name)))"

definition encoded_names :: "writerFile list \<Rightarrow> byte list" where
  "encoded_names files = concat (map (\<lambda>f. utf16le (w_Name (wf_header f)) @ le_bytes 2 (0::u16)) files)"

definition writeProperty :: "byte \<Rightarrow> byte list \<Rightarrow> byte list" where
  "writeProperty property content = property # writeUint64 (of_nat (length content)) @ content"

definition writeNames :: "writerFile list \<Rightarrow> byte list" where
  "writeNames files = writeProperty idName (0 # encoded_names files)"

definition filetime :: "int \<Rightarrow> u64" where
  "filetime t =
     word_of_int (t div 1000000000 + 11644473600) * 10000000 + word_of_int (t mod 1000000000 div 100)"

definition writeModifiedTimes :: "writerFile list \<Rightarrow> byte list" where
  "writeModifiedTimes files =
     (let times = map (\<lambda>f. w_Modified (wf_header f)) files;
          isDefined = map (\<lambda>t. t \<noteq> None) times in
      if \<not> list_ex id isDefined then []
      else writeProperty idMTime
             ((if list_all id isDefined then [1] else 0 # writeBoolVector isDefined) @
              0 # concat (map (\<lambda>t. case t of None \<Rightarrow> [] | Some t \<Rightarrow> le_bytes 8 (filetime t)) times)))"

definition writeAttributes :: "writerFile list \<Rightarrow> byte list" where
  "writeAttributes files =
     writeProperty idWinAttributes
       (1 # 0 # concat (map (\<lambda>f. le_bytes 4 (w_Attributes (wf_header f))) files))"

section \<open>Headers\<close>

definition nextHeader :: "writerFile list \<Rightarrow> writerFolder list \<Rightarrow> byte list" where
  "nextHeader files fos =
     idHeader #
     (if length files = 0 then [idEnd]
      else
        (if length fos > 0 then idMainStreamsInfo # writeStreamsInfo files fos @ [idEnd] else []) @
        idFilesInfo # writeUint64 (of_nat (length files)) @
        writeEmptyStreams files @ writeNames files @ writeModifiedTimes files @
        writeAttributes files @ [idEnd, idEnd])"

definition encodedHeader ::
  "u64 \<Rightarrow> u64 \<Rightarrow> u64 \<Rightarrow> u32 \<Rightarrow> byte list \<Rightarrow> byte list \<Rightarrow> byte list" where
  "encodedHeader packPosition packSz unpackSz checksum method props =
     idEncodedHeader #
     idPackInfo # writeUint64 packPosition @ writeUint64 1 @ idSize # writeUint64 packSz @ idEnd #
     idUnpackInfo # idFolder # writeUint64 1 @ 0 # writeUint64 1 @ writeCoder method props @
     idCodersUnpackSize # writeUint64 unpackSz @ idCRC # 1 # le_bytes 4 checksum @ idEnd #
     idSubStreamsInfo # idEnd # [idEnd]"

end
