(* ===== verification/HeaderCodec.thy ===== *)
theory HeaderCodec
  imports HeaderTotal HeaderWrite
begin

text \<open>
  The interface between the two halves of the 7z header code. A \<open>serializer\<close> is a writer and a
  reader with a law: reading back what was written gives what the written value stands for and
  leaves the rest of the buffer. The writer is \<open>internal/archive7z/writer.go\<close>, the reader
  \<open>internal/sevenzip/types.go\<close>; the interpretations at the end of each section prove the law for
  their numbers, bit vectors, coders and folders.
\<close>

locale serializer =
  fixes enc :: "'a \<Rightarrow> byte list"
    and dec :: "'b parser"
    and ok :: "'a \<Rightarrow> bool"
    and view :: "'a \<Rightarrow> 'b"
  assumes decode: "ok x \<Longrightarrow> dec (r\<lparr>buf := enc x @ bs\<rparr>) = Inr (view x, r\<lparr>buf := bs\<rparr>)"
begin

lemma bind: "ok x \<Longrightarrow> pbind dec f (r\<lparr>buf := enc x @ bs\<rparr>) = f (view x) (r\<lparr>buf := bs\<rparr>)"
  by (simp add: pbind_def decode)

lemma decode_list:
  "\<forall>x \<in> set xs. ok x \<Longrightarrow>
     prepeat (length xs) dec (r\<lparr>buf := concat (map enc xs) @ bs\<rparr>) = Inr (map view xs, r\<lparr>buf := bs\<rparr>)"
  by (induction xs) (simp_all add: bind preturn_def)

lemma bind_list:
  "\<forall>x \<in> set xs. ok x \<Longrightarrow> n = length xs \<Longrightarrow>
     pbind (prepeat n dec) f (r\<lparr>buf := concat (map enc xs) @ bs\<rparr>) = f (map view xs) (r\<lparr>buf := bs\<rparr>)"
  using decode_list by (simp add: pbind_def)

lemma decode_defined:
  "\<forall>x \<in> set xs. ok x \<Longrightarrow> all = replicate (length xs) True \<Longrightarrow>
     read_defined dec z (length xs) all (r\<lparr>buf := concat (map enc xs) @ bs\<rparr>) = Inr (map view xs, r\<lparr>buf := bs\<rparr>)"
  by (induction xs arbitrary: all) (auto simp: bind preturn_def)

lemma decode_options:
  "\<forall>x. Some x \<in> set xs \<longrightarrow> ok x \<Longrightarrow>
     read_defined (pbind dec (\<lambda>x. preturn (Some (g x)))) None (length xs) (map (\<lambda>x. x \<noteq> None) xs)
       (r\<lparr>buf := concat (map (\<lambda>x. case x of None \<Rightarrow> [] | Some x \<Rightarrow> enc x) xs) @ bs\<rparr>) =
     Inr (map (map_option (\<lambda>x. g (view x))) xs, r\<lparr>buf := bs\<rparr>)"
proof (induction xs)
  case Nil
  then show ?case by (simp add: preturn_def)
next
  case (Cons x xs)
  then show ?case
    by (cases x)
       (simp_all add: bind preturn_def pbind_def [of "pbind _ _"] pbind_def [of "read_defined _ _ _ _"]
         pbind_def [of "\<lambda>r. Inr _"])
qed

lemma prefix_free:
  assumes "ok x" "ok y" "enc x @ bs = enc y @ cs"
  shows "view x = view y \<and> bs = cs"
proof -
  fix r :: reader
  have "dec (r\<lparr>buf := enc x @ bs\<rparr>) = dec (r\<lparr>buf := enc y @ cs\<rparr>)" using assms(3) by simp
  with assms(1,2) have "view x = view y" "r\<lparr>buf := bs\<rparr> = r\<lparr>buf := cs\<rparr>" by (simp_all add: decode)
  moreover from this(2) have "buf (r\<lparr>buf := bs\<rparr>) = buf (r\<lparr>buf := cs\<rparr>)" by simp
  ultimately show ?thesis by simp
qed

end

section \<open>Numbers\<close>

interpretation le32: serializer "le_bytes 4 :: u32 \<Rightarrow> byte list" "readLE 4" "\<lambda>_. True" "\<lambda>w. w"
  by unfold_locales simp

interpretation le64: serializer "le_bytes 8 :: u64 \<Rightarrow> byte list" "readLE 8" "\<lambda>_. True" "\<lambda>w. w"
  by unfold_locales simp

lemma read_tail_le_bytes:
  "read_tail i n acc (r\<lparr>buf := le_bytes n w @ bs\<rparr>) =
     Inr (acc OR push_bit (8 * i) (take_bit (8 * n) w), r\<lparr>buf := bs\<rparr>)"
proof (induction n arbitrary: i acc w)
  case 0
  then show ?case by (simp add: preturn_def)
next
  case (Suc n)
  have "acc OR push_bit (8 * i) (ucast (ucast w :: byte)) OR
        push_bit (8 * Suc i) (take_bit (8 * n) (drop_bit 8 w)) =
        acc OR push_bit (8 * i) (take_bit (8 * Suc n) w)"
  proof (rule bit_word_eqI)
    fix k assume "k < LENGTH(64)"
    moreover have "8 + (k - (8 + 8 * i)) = k - 8 * i" if "8 + 8 * i \<le> k" using that by simp
    ultimately show "bit (acc OR push_bit (8 * i) (ucast (ucast w :: byte)) OR
        push_bit (8 * Suc i) (take_bit (8 * n) (drop_bit 8 w))) k =
        bit (acc OR push_bit (8 * i) (take_bit (8 * Suc n) w)) k"
      by (cases "8 + 8 * i \<le> k") (auto simp: bit_simps)
  qed
  with Suc show ?case by (simp add: or.assoc)
qed

text \<open>The first byte of a number with \<open>extra\<close> bytes after it.\<close>

definition first_byte :: "nat \<Rightarrow> u64 \<Rightarrow> byte" where
  "first_byte extra v = push_bit (8 - extra) 0xFF OR ucast (drop_bit (8 * extra) v)"

lemma first_byte_bit:
  "extra \<le> 8 \<Longrightarrow> bit (first_byte extra v) j \<longleftrightarrow> j < 8 \<and> (8 - extra \<le> j \<or> bit v (8 * extra + j))"
proof -
  have ff: "(0xFF :: byte) = - 1" by simp
  show "extra \<le> 8 \<Longrightarrow> ?thesis"
    unfolding first_byte_def ff by (auto simp: bit_simps add.commute)
qed

lemma small_no_bit:
  assumes "v < push_bit n 1" "n < 64" "n \<le> k"
  shows "\<not> bit (v :: u64) k"
proof -
  have "(2::nat) ^ n < 2 ^ LENGTH(64)"
    using assms(2) by (intro power_strict_increasing) auto
  from unat_of_nat_small [OF this] have "unat (push_bit n 1 :: u64) = 2 ^ n" by simp
  with assms(1) have "unat v < 2 ^ n" by (simp add: word_less_nat_alt)
  then have "take_bit n (unat v) = unat v" by (simp add: take_bit_nat_eq_self)
  then have "\<not> bit (unat v) k" using assms(3) by (metis bit_take_bit_iff not_le)
  then show ?thesis by (simp add: bit_unsigned_iff)
qed

lemma LeadingZeros8_eq:
  assumes "e < 8" "\<And>j. 8 - e \<le> j \<Longrightarrow> j < 8 \<Longrightarrow> \<not> bit b j" "bit b (7 - e)"
  shows "LeadingZeros8 b = e"
proof -
  have "[7, 6, 5, 4, 3, 2, 1, 0] = map (\<lambda>i. 7 - i) [0..<8::nat]" by (simp add: upt_rec)
  also have "[0..<8] = [0..<e] @ e # [Suc e..<8]"
    using assms(1) upt_add_eq_append [of 0 e "8 - e"] by (simp add: upt_conv_Cons)
  finally have l: "[7, 6, 5, 4, 3, 2, 1, 0] = map (\<lambda>i. 7 - i) [0..<e] @ (7 - e) # map (\<lambda>i. 7 - i) [Suc e..<8]"
    by simp
  have "takeWhile (\<lambda>i. \<not> bit b i) [7, 6, 5, 4, 3, 2, 1, 0] = map (\<lambda>i. 7 - i) [0..<e]"
    unfolding l using assms by (subst takeWhile_append2) auto
  then show ?thesis by (simp add: LeadingZeros8_def)
qed

lemma leading_ones_first_byte:
  assumes "v < push_bit (7 + extra * 7) 1" "extra < 8"
  shows "LeadingZeros8 (NOT (first_byte extra v)) = extra"
proof (rule LeadingZeros8_eq [OF assms(2)])
  have "\<not> bit v (8 * extra + (7 - extra))"
    by (rule small_no_bit [OF assms(1)]) (use assms(2) in auto)
  then show "bit (NOT (first_byte extra v)) (7 - extra)"
    using assms(2) by (auto simp: bit_simps first_byte_bit algebra_simps)
qed (use assms(2) in \<open>auto simp: bit_simps first_byte_bit\<close>)

lemma first_byte_value:
  assumes "v < push_bit (7 + extra * 7) 1" "extra < 7"
  shows "push_bit (8 * extra) (ucast (first_byte extra v AND (push_bit (8 - extra) 1 - 1)))
           OR take_bit (8 * extra) v = v"
proof (rule bit_word_eqI)
  fix k assume k: "k < LENGTH(64)"
  have mask: "(push_bit (8 - extra) 1 - 1 :: byte) = mask (8 - extra)"
    by (simp add: mask_eq_exp_minus_1 push_bit_eq_mult)
  have high: "\<not> bit v k" if "8 + extra * 7 \<le> k"
    by (rule small_no_bit [OF assms(1)]) (use assms(2) that in auto)
  show "bit (push_bit (8 * extra) (ucast (first_byte extra v AND (push_bit (8 - extra) 1 - 1)))
           OR take_bit (8 * extra) v) k = bit v k"
    unfolding mask using k high assms(2)
    by (cases "k < 8 * extra"; cases "k < 8 + extra * 7")
       (auto simp: bit_simps first_byte_bit)
qed

lemma readUint64_writeUint64:
  "readUint64 (r\<lparr>buf := writeUint64 v @ bs\<rparr>) = Inr (v, r\<lparr>buf := bs\<rparr>)"
proof (cases "find (\<lambda>extra. v < push_bit (7 + extra * 7) 1) [0..<8]")
  case None
  have "LeadingZeros8 (NOT (0xFF :: byte)) = 8"
    by (simp add: LeadingZeros8_def)
  moreover have "take_bit 64 v = v" by (simp add: take_bit_word_eq_self)
  ultimately show ?thesis
    using None by (simp add: writeUint64_def readUint64_def Let_def read_tail_le_bytes del: le_bytes.simps)
next
  case (Some extra)
  then have e: "v < push_bit (7 + extra * 7) 1" "extra < 8"
    by (auto simp: find_Some_iff simp del: upt_Suc upt_rec_numeral)
  have w: "writeUint64 v = first_byte extra v # le_bytes extra v"
    using Some by (simp add: writeUint64_def first_byte_def)
  show ?thesis
  proof (cases "extra = 7")
    case True
    have "k < 56" if "bit v k" for k
      using small_no_bit [OF e(1), of k] that True by fastforce
    then have "take_bit 56 v = v"
      by (intro bit_word_eqI) (auto simp: bit_simps)
    with True leading_ones_first_byte [OF e] show ?thesis
      by (simp add: w readUint64_def Let_def read_tail_le_bytes)
  next
    case False
    with e have "extra < 7" by simp
    with first_byte_value [OF e(1) this] leading_ones_first_byte [OF e] show ?thesis
      by (simp add: w readUint64_def Let_def read_tail_le_bytes)
  qed
qed

interpretation u64: serializer writeUint64 readUint64 "\<lambda>_. True" "\<lambda>v. v"
  by unfold_locales (rule readUint64_writeUint64)

definition fits :: "bool \<Rightarrow> u64 \<Rightarrow> bool" where
  "fits nonZero v \<longleftrightarrow> (nonZero \<longrightarrow> v \<noteq> 0) \<and> unat v \<le> MaxMetadataItems"

lemma checkUint64_fits [simp]: "fits nz v \<Longrightarrow> checkUint64 v nz = None"
  by (auto simp: checkUint64_def fits_def word_less_nat_alt limit_defs)

lemma pcheck_None [simp]: "pcheck None p = p"
  by (simp add: pcheck_def)

interpretation b64: serializer writeUint64 "readUint64Bounded nz" "fits nz" "\<lambda>v. v" for nz
  by unfold_locales (simp add: readUint64Bounded_def u64.bind preturn_def)

section \<open>Bit vectors\<close>

lemma first_byte_of_vector:
  assumes "k < 8" "ss \<noteq> [] \<or> k \<noteq> 0" "\<And>j. j < 8 - k \<Longrightarrow> \<not> bit v j"
  shows "\<exists>B rest. bool_vector_loop v (push_bit (7 - k) 1) ss = B # rest \<and>
           (\<forall>j. 8 - k \<le> j \<longrightarrow> bit B j = bit v j) \<and>
           (\<forall>r bs. read_bool_loop (length ss) B (push_bit (7 - k) 1) (r\<lparr>buf := rest @ bs\<rparr>)
                    = Inr (ss, r\<lparr>buf := bs\<rparr>))"
  using assms
proof (induction ss arbitrary: k v)
  case Nil
  then have "bit (push_bit 7 1 :: byte) 7 \<noteq> bit (push_bit (7 - k) 1 :: byte) 7"
    by (auto simp: bit_simps)
  then have "(push_bit (7 - k) 1 :: byte) \<noteq> 0x80" by fastforce
  then show ?case by (simp add: preturn_def)
next
  case (Cons s ss)
  define m where "m = (push_bit (7 - k) 1 :: byte)"
  define v' where "v' = (if s then v OR m else v)"
  have m_bit: "bit m j \<longleftrightarrow> j = 7 - k" for j
    using Cons.prems(1) unfolding m_def by (auto simp: bit_simps)
  have v'_bit: "bit v' j \<longleftrightarrow> bit v j \<or> s \<and> j = 7 - k" for j
    by (auto simp: v'_def bit_or_iff m_bit)
  have test: "(B AND m \<noteq> 0) = s" if "bit B (7 - k) = bit v' (7 - k)" for B
  proof -
    have "B AND m \<noteq> 0 \<longleftrightarrow> bit B (7 - k)"
      using bit_eq_iff [of "B AND m" 0] by (auto simp: bit_and_iff m_bit)
    then show ?thesis using that Cons.prems(1,3) by (auto simp: v'_bit)
  qed
  have m0: "m \<noteq> 0" using m_bit [of "7 - k"] by auto
  show ?case
  proof (cases "k = 7")
    case True
    have half: "drop_bit 1 m = 0" by (simp add: m_def True)
    have rest: "read_bool_loop (length ss) B 0 (r\<lparr>buf := bool_vector_loop 0 0x80 ss @ bs\<rparr>)
        = Inr (ss, r\<lparr>buf := bs\<rparr>)" for B r bs
    proof (cases ss)
      case Nil
      then show ?thesis by (simp add: preturn_def)
    next
      case (Cons t ts)
      with Cons.IH [of 0 0] obtain B' rest where
        "bool_vector_loop 0 0x80 ss = B' # rest"
        "read_bool_loop (length ss) B' 0x80 (r\<lparr>buf := rest @ bs\<rparr>) = Inr (ss, r\<lparr>buf := bs\<rparr>)"
        by auto
      then show ?thesis by (simp add: Cons pbind_def preturn_def)
    qed
    have out: "bool_vector_loop v m (s # ss) = v' # bool_vector_loop 0 0x80 ss"
      unfolding bool_vector_loop.simps Let_def v'_def [symmetric] half by simp
    have "read_bool_loop (length (s # ss)) v' m (r\<lparr>buf := bool_vector_loop 0 0x80 ss @ bs\<rparr>)
        = Inr (s # ss, r\<lparr>buf := bs\<rparr>)" for r bs
      using rest test [of v'] m0 half by (simp add: pbind_def preturn_def)
    moreover have "\<forall>j. 8 - k \<le> j \<longrightarrow> bit v' j = bit v j"
      unfolding v'_bit using Cons.prems(1) by auto
    ultimately show ?thesis using out unfolding m_def by blast
  next
    case False
    with Cons.prems(1) have k: "Suc k < 8" "7 - k = Suc (7 - Suc k)" by auto
    have half: "drop_bit 1 m = push_bit (7 - Suc k) 1"
      by (rule bit_word_eqI) (use k in \<open>auto simp: bit_simps m_bit\<close>)
    have nz: "(push_bit (7 - Suc k) 1 :: byte) \<noteq> 0"
    proof -
      have "bit (push_bit (7 - Suc k) 1 :: byte) (7 - Suc k)" by (simp add: bit_simps)
      then show ?thesis by auto
    qed
    obtain B rest where B: "bool_vector_loop v' (push_bit (7 - Suc k) 1) ss = B # rest"
      "\<forall>j. 8 - Suc k \<le> j \<longrightarrow> bit B j = bit v' j"
      "\<forall>r bs. read_bool_loop (length ss) B (push_bit (7 - Suc k) 1) (r\<lparr>buf := rest @ bs\<rparr>)
                    = Inr (ss, r\<lparr>buf := bs\<rparr>)"
      using Cons.IH [of "Suc k" v'] k Cons.prems(3) by (auto simp: v'_bit)
    have out: "bool_vector_loop v m (s # ss) = B # rest"
      unfolding bool_vector_loop.simps Let_def v'_def [symmetric] half using nz B(1) by simp
    have top: "bit B (7 - k) = bit v' (7 - k)" using B(2) k by simp
    have "read_bool_loop (length (s # ss)) B m (r\<lparr>buf := rest @ bs\<rparr>)
        = Inr (s # ss, r\<lparr>buf := bs\<rparr>)" for r bs
      using B(3) test [OF top] m0 half by (simp add: pbind_def preturn_def)
    moreover have "\<forall>j. 8 - k \<le> j \<longrightarrow> bit B j = bit v j"
      using B(2) k unfolding v'_bit by auto
    ultimately show ?thesis using out unfolding m_def by blast
  qed
qed

lemma read_bool_loop_writeBoolVector:
  "read_bool_loop (length ss) B 0 (r\<lparr>buf := writeBoolVector ss @ bs\<rparr>) = Inr (ss, r\<lparr>buf := bs\<rparr>)"
proof (cases ss)
  case Nil
  then show ?thesis by (simp add: writeBoolVector_def preturn_def)
next
  case (Cons t ts)
  with first_byte_of_vector [of 0 ss 0] obtain B' rest where
    "bool_vector_loop 0 0x80 ss = B' # rest"
    "read_bool_loop (length ss) B' 0x80 (r\<lparr>buf := rest @ bs\<rparr>) = Inr (ss, r\<lparr>buf := bs\<rparr>)"
    by auto
  then show ?thesis by (simp add: Cons pbind_def preturn_def writeBoolVector_def)
qed

lemma fits_of_nat: "n \<le> MaxMetadataItems \<Longrightarrow> 0 < n \<Longrightarrow> fits nz (of_nat n)"
  by (auto simp: fits_def limit_defs word_of_nat_eq_0_iff dest: nat_dvd_not_less)

lemma unat_of_nat_items: "n \<le> MaxMetadataItems \<Longrightarrow> unat (of_nat n :: u64) = n"
  by (simp add: limit_defs)

interpretation bools: serializer writeBoolVector "readBool (of_nat n)"
  "\<lambda>ss. length ss = n \<and> 0 < n \<and> n \<le> MaxMetadataItems" "\<lambda>ss. ss" for n
  by unfold_locales
     (auto simp: readBool_def fits_of_nat unat_of_nat_items read_bool_loop_writeBoolVector)

end
