(* ===== verification/Fills.thy ===== *)
theory Fills
  imports HeaderRead
begin

text \<open>
  How the source delivers the header. A buffered reader gets its data in fills, and the result of the parsers
  of \<open>types.go\<close> must not depend on where the fills end. \<open>fill_free\<close> says so of a parser: what it reads from one reader
  it reads from every other with the same data. The parsers of the file table are
  \<open>fill_free\<close>. \<open>readCoder\<close> is not: it takes the id and the properties of a coder with one \<open>Read\<close> each, which returns no
  more than the current fill holds.
\<close>

section \<open>Fills\<close>

definition pending :: "reader \<Rightarrow> byte list" where
  "pending r = buf r @ concat (chunks r)"

definition same_data :: "reader \<Rightarrow> reader \<Rightarrow> bool" where
  "same_data r r' \<longleftrightarrow> pending r = pending r' \<and> cap r = cap r' \<and> fin r = fin r'"

text \<open>The reader after the read of the source that an empty buffer needs.\<close>

definition filled :: "reader \<Rightarrow> reader" where
  "filled r = (if buf r = [] then (case pull (cap r) (chunks r) of (bs, cs) \<Rightarrow> r\<lparr>buf := bs, chunks := cs\<rparr>) else r)"

definition fill_free :: "'a parser \<Rightarrow> bool" where
  "fill_free p \<longleftrightarrow> (\<forall>r r' x r1. 0 < cap r \<longrightarrow> same_data r r' \<longrightarrow> p r = Inr (x, r1) \<longrightarrow>
     cap r1 = cap r \<and> (\<exists>r2. p r' = Inr (x, r2) \<and> same_data r1 r2))"

named_theorems fill_intros \<open>parsers that do not depend on the fills\<close>

lemma same_data_refl [simp]: "same_data r r"
  by (simp add: same_data_def)

lemma fill_freeI:
  "(\<And>r r' x r1. 0 < cap r \<Longrightarrow> same_data r r' \<Longrightarrow> p r = Inr (x, r1) \<Longrightarrow>
     cap r1 = cap r \<and> (\<exists>r2. p r' = Inr (x, r2) \<and> same_data r1 r2)) \<Longrightarrow> fill_free p"
  unfolding fill_free_def by blast

lemma fill_freeD:
  assumes "fill_free p" "0 < cap r" "same_data r r'" "p r = Inr (x, r1)"
  obtains r2 where "p r' = Inr (x, r2)" "same_data r1 r2" "cap r1 = cap r"
  using assms unfolding fill_free_def by blast

lemma fill_preturn [fill_intros]: "fill_free (preturn x)"
  by (auto simp: fill_free_def)

lemma fill_pfail [fill_intros]: "fill_free (pfail e)"
  by (auto simp: fill_free_def)

lemma fill_pbind [fill_intros]:
  assumes "fill_free p" "\<And>x. fill_free (f x)"
  shows "fill_free (pbind p f)"
proof (rule fill_freeI)
  fix r r' x r1
  assume cap: "0 < cap r" and r: "same_data r r'" and b: "pbind p f r = Inr (x, r1)"
  from b obtain y r0 where p: "p r = Inr (y, r0)" and f: "f y r0 = Inr (x, r1)" unfolding pbind_Inr_iff by blast
  from fill_freeD [OF assms(1) cap r p] obtain r2 where r2: "p r' = Inr (y, r2)" "same_data r0 r2" "cap r0 = cap r" .
  from fill_freeD [OF assms(2) _ r2(2) f] cap r2(3) obtain r3 where "f y r2 = Inr (x, r3)" "same_data r1 r3" "cap r1 = cap r"
    by auto
  then show "cap r1 = cap r \<and> (\<exists>r2. pbind p f r' = Inr (x, r2) \<and> same_data r1 r2)" using r2(1) by auto
qed

lemma fill_passert [fill_intros]: "fill_free p \<Longrightarrow> fill_free (passert c e p)"
  by (cases c) (simp_all add: passert_def fill_pfail)

lemma fill_if [fill_intros]: "fill_free p \<Longrightarrow> fill_free q \<Longrightarrow> fill_free (if c then p else q)"
  by simp

lemma fill_case_prod [fill_intros]: "(\<And>a b. fill_free (f a b)) \<Longrightarrow> fill_free (case z of (a, b) \<Rightarrow> f a b)"
  by (cases z) simp

lemma fill_case_option [fill_intros]:
  "fill_free p \<Longrightarrow> (\<And>x. fill_free (f x)) \<Longrightarrow> fill_free (case z of None \<Rightarrow> p | Some x \<Rightarrow> f x)"
  by (cases z) simp_all

lemma fill_prepeat [fill_intros]: "fill_free p \<Longrightarrow> fill_free (prepeat n p)"
  by (induction n) (auto intro!: fill_intros)

lemma fill_pcheck [fill_intros]: "fill_free p \<Longrightarrow> fill_free (pcheck e p)"
  by (cases e) (simp_all add: pcheck_def fill_intros)

lemma fill_plift [fill_intros]: "fill_free (plift m)"
  by (auto simp: fill_free_def)

section \<open>Reads\<close>

lemma pull_some: "0 < m \<Longrightarrow> concat cs \<noteq> [] \<Longrightarrow> fst (pull m cs) \<noteq> []"
  by (induction m cs rule: pull.induct) auto

lemma Read_pending:
  assumes "0 < n" "0 < cap r" "pending r \<noteq> []"
  obtains bs r' where "Read n r = Inr (bs, r')" "bs \<noteq> []" "pending r = bs @ pending r'" "cap r' = cap r" "fin r' = fin r"
proof (cases "buf r = []")
  case False
  then show ?thesis
    using assms(1) by (intro that [of "take n (buf r)" "r\<lparr>buf := drop n (buf r)\<rparr>"]) (auto simp: Read_def pending_def)
next
  case True
  then have c: "pending r = concat (chunks r)" by (simp add: pending_def)
  define m where "m = (if cap r \<le> n then n else cap r)"
  obtain bs cs where p: "pull m (chunks r) = (bs, cs)" by fastforce
  have bs: "bs \<noteq> []" "concat (chunks r) = bs @ concat cs"
    using pull_some [of m "chunks r"] pull_concat [OF p] assms c p by (auto simp: m_def)
  show ?thesis
  proof (cases "cap r \<le> n")
    case True
    then show ?thesis
      using \<open>buf r = []\<close> assms p bs c
      by (intro that [of bs "r\<lparr>chunks := cs\<rparr>"]) (auto simp: Read_def pending_def m_def split: list.splits)
  next
    case False
    then show ?thesis
      using \<open>buf r = []\<close> assms p bs c
      by (intro that [of "take n bs" "r\<lparr>buf := drop n bs, chunks := cs\<rparr>"])
         (auto simp: Read_def pending_def m_def split: list.splits)
  qed
qed

lemma Read_empty: "0 < n \<Longrightarrow> pending r = [] \<Longrightarrow> Read n r = Inl (Io (fin r))"
proof -
  assume n: "0 < n" "pending r = []"
  have "fst (pull m cs) = []" if "concat cs = []" for m cs using that by (induction m cs rule: pull.induct) auto
  then have "fst (pull m (chunks r)) = []" for m using n(2) by (simp add: pending_def)
  then show ?thesis using n by (auto simp: Read_def pending_def split: prod.splits list.splits) (metis fst_conv list.distinct(1))+
qed

text \<open>The loops over \<open>Read\<close> collect the first \<open>n\<close> bytes of the pending, however they are split.\<close>

lemma read_full_pending:
  "0 < cap r \<Longrightarrow> n \<le> length (pending r) \<Longrightarrow>
     \<exists>r'. read_full n started r = Inr (take n (pending r), r') \<and> pending r' = drop n (pending r) \<and> cap r' = cap r \<and> fin r' = fin r"
proof (induction n arbitrary: started r rule: less_induct)
  case (less n)
  show ?case
  proof (cases "n = 0")
    case True
    then show ?thesis by (simp add: read_full.simps [of 0])
  next
    case False
    then have nz: "pending r \<noteq> []" "0 < n" using less.prems(2) by auto
    obtain bs r1 where b: "Read n r = Inr (bs, r1)" "bs \<noteq> []" "pending r = bs @ pending r1" "cap r1 = cap r" "fin r1 = fin r"
      by (rule Read_pending [OF _ less.prems(1) nz(1)]) (use nz(2) in auto)
    have l: "length bs \<le> n" using Read_bound [OF b(1)] .
    have lt: "n - length bs < n" using b(2) False by simp
    have "n - length bs \<le> length (pending r1)" using less.prems(2) b(3) by simp
    from less.IH [OF lt _ this, of True] less.prems(1) b(4,5) obtain r2 where
      r2: "read_full (n - length bs) True r1 = Inr (take (n - length bs) (pending r1), r2)" "pending r2 = drop (n - length bs) (pending r1)"
      "cap r2 = cap r" "fin r2 = fin r" by auto
    then show ?thesis using False b l by (simp add: read_full.simps [of n])
  qed
qed

lemma Discard_pending:
  "0 < cap r \<Longrightarrow> n \<le> length (pending r) \<Longrightarrow>
     \<exists>r'. Discard n r = Inr ((), r') \<and> pending r' = drop n (pending r) \<and> cap r' = cap r \<and> fin r' = fin r"
proof (induction n arbitrary: r rule: less_induct)
  case (less n)
  show ?case
  proof (cases "n = 0")
    case True
    then show ?thesis by (simp add: Discard.simps [of 0])
  next
    case False
    then have nz: "pending r \<noteq> []" "0 < n" using less.prems(2) by auto
    obtain bs r1 where b: "Read (min 8192 n) r = Inr (bs, r1)" "bs \<noteq> []" "pending r = bs @ pending r1" "cap r1 = cap r" "fin r1 = fin r"
      by (rule Read_pending [of "min 8192 n" r, OF _ less.prems(1) nz(1)]) (use nz(2) in auto)
    have l: "length bs \<le> n" using Read_bound [OF b(1)] by simp
    have lt: "n - length bs < n" using b(2) False by simp
    have "n - length bs \<le> length (pending r1)" using less.prems(2) b(3) by simp
    from less.IH [OF lt _ this] less.prems(1) b(4,5) obtain r2 where
      r2: "Discard (n - length bs) r1 = Inr ((), r2)" "pending r2 = drop (n - length bs) (pending r1)"
      "cap r2 = cap r" "fin r2 = fin r" by auto
    then show ?thesis using False b l by (simp add: Discard.simps [of n])
  qed
qed

lemma read_limited_pending:
  "0 < cap r \<Longrightarrow> n \<le> length (pending r) \<or> fin r = EOF \<Longrightarrow>
     \<exists>r'. read_limited n r = Inr (take n (pending r), r') \<and> pending r' = drop n (pending r) \<and> cap r' = cap r \<and> fin r' = fin r"
proof (induction n arbitrary: r rule: less_induct)
  case (less n)
  show ?case
  proof (cases "n = 0")
    case True
    then show ?thesis by (simp add: read_limited.simps [of 0])
  next
    case n: False
    show ?thesis
    proof (cases "pending r = []")
      case True
      then have "Read (min 4096 n) r = Inl (Io EOF)" using Read_empty [of "min 4096 n" r] n less.prems(2) by auto
      then show ?thesis using n True by (simp add: read_limited.simps [of n])
    next
      case False
      then have nz: "pending r \<noteq> []" "0 < n" using n by auto
      obtain bs r1 where b: "Read (min 4096 n) r = Inr (bs, r1)" "bs \<noteq> []" "pending r = bs @ pending r1" "cap r1 = cap r" "fin r1 = fin r"
      by (rule Read_pending [of "min 4096 n" r, OF _ less.prems(1) nz(1)]) (use nz(2) in auto)
      have l: "length bs \<le> n" using Read_bound [OF b(1)] by simp
      have lt: "n - length bs < n" using b(2) n by simp
      have "n - length bs \<le> length (pending r1) \<or> fin r1 = EOF" using less.prems(2) b(3,5) by auto
      from less.IH [OF lt _ this] less.prems(1) b(4,5) obtain r2 where
        r2: "read_limited (n - length bs) r1 = Inr (take (n - length bs) (pending r1), r2)" "pending r2 = drop (n - length bs) (pending r1)"
        "cap r2 = cap r" "fin r2 = fin r" by auto
      then show ?thesis using n b l by (simp add: read_limited.simps [of n])
    qed
  qed
qed


text \<open>A parser that takes the first \<open>n\<close> bytes and fails when there are fewer.\<close>

lemma fill_freeI_take:
  assumes "\<And>r. 0 < cap r \<Longrightarrow> n \<le> length (pending r) \<Longrightarrow>
      \<exists>r'. p r = Inr (g (take n (pending r)), r') \<and> pending r' = drop n (pending r) \<and> cap r' = cap r \<and> fin r' = fin r"
    and "\<And>r x r'. p r = Inr (x, r') \<Longrightarrow> n \<le> rsize r"
  shows "fill_free p"
proof (rule fill_freeI)
  fix r r' x r1
  assume cap: "0 < cap r" and r: "same_data r r'" and p: "p r = Inr (x, r1)"
  have n: "n \<le> length (pending r)" using assms(2) [OF p] by (simp add: rsize_def pending_def)
  then have n': "0 < cap r'" "n \<le> length (pending r')" using r cap by (simp_all add: same_data_def)
  from assms(1) [OF cap n] p have "x = g (take n (pending r))" "pending r1 = drop n (pending r)" "cap r1 = cap r" "fin r1 = fin r"
    by auto
  then show "cap r1 = cap r \<and> (\<exists>r2. p r' = Inr (x, r2) \<and> same_data r1 r2)"
    using assms(1) [OF n'] r by (auto simp: same_data_def)
qed

lemma read_full_enough: "read_full n started r = Inr (bs, r') \<Longrightarrow> n \<le> rsize r"
  using read_full_rsize [of n started r bs r'] read_full_length [of n started r bs r'] by simp

lemma fill_ReadFull [fill_intros]: "fill_free (ReadFull n)"
  by (rule fill_freeI_take [where n = n and g = "\<lambda>bs. bs"])
     (auto simp: ReadFull_def read_full_pending dest: read_full_enough)

lemma fill_readLE [fill_intros]: "fill_free (readLE n)"
  unfolding readLE_def by (intro fill_intros)

lemma fill_Discard [fill_intros]: "fill_free (Discard n)"
  by (rule fill_freeI_take [where n = n and g = "\<lambda>_. ()"]) (auto simp: Discard_pending dest: Discard_rsize)

lemma ReadByte_pending:
  assumes "0 < cap r" "pending r = b # bs"
  obtains r' where "ReadByte r = Inr (b, r')" "pending r' = bs" "cap r' = cap r" "fin r' = fin r"
proof (cases "buf r")
  case (Cons c cs)
  then show ?thesis using assms by (intro that [of "r\<lparr>buf := cs\<rparr>"]) (auto simp: ReadByte_def pending_def)
next
  case Nil
  obtain ds cs where p: "pull (cap r) (chunks r) = (ds, cs)" by fastforce
  have c: "concat (chunks r) = b # bs" using assms(2) Nil by (simp add: pending_def)
  have "concat (chunks r) \<noteq> []" unfolding c by simp
  then have "ds \<noteq> []" "concat (chunks r) = ds @ concat cs"
    using pull_some [of "cap r" "chunks r"] pull_concat [OF p] assms(1) p by simp_all
  then show ?thesis using Nil p c
    by (intro that [of "r\<lparr>buf := tl ds, chunks := cs\<rparr>"]) (cases ds, auto simp: ReadByte_def pending_def)+
qed

lemma fill_ReadByte [fill_intros]: "fill_free ReadByte"
proof (rule fill_freeI)
  fix r r' x r1
  assume cap: "0 < cap r" and r: "same_data r r'" and p: "ReadByte r = Inr (x, r1)"
  have "length (pending r) = Suc (rsize r1)" using ReadByte_rsize [OF p] by (simp add: rsize_def pending_def)
  then obtain b bs where c: "pending r = b # bs" by (cases "pending r") auto
  then have c': "pending r' = b # bs" "0 < cap r'" using r cap by (simp_all add: same_data_def)
  from ReadByte_pending [OF cap c] obtain q where q: "ReadByte r = Inr (b, q)" "pending q = bs" "cap q = cap r" "fin q = fin r" .
  from ReadByte_pending [OF c'(2,1)] obtain q' where q': "ReadByte r' = Inr (b, q')" "pending q' = bs" "cap q' = cap r'" "fin q' = fin r'" .
  show "cap r1 = cap r \<and> (\<exists>r2. ReadByte r' = Inr (x, r2) \<and> same_data r1 r2)"
    using p q q' r by (auto simp: same_data_def)
qed

lemma read_limited_short:
  "0 < cap r \<Longrightarrow> length (pending r) < n \<Longrightarrow> fin r \<noteq> EOF \<Longrightarrow> \<exists>e. read_limited n r = Inl e"
proof (induction n arbitrary: r rule: less_induct)
  case (less n)
  show ?case
  proof (cases "pending r = []")
    case True
    then have "Read (min 4096 n) r = Inl (Io (fin r))" using less.prems by (intro Read_empty) auto
    then show ?thesis using less.prems by (simp add: read_limited.simps [of n])
  next
    case False
    then have nz: "pending r \<noteq> []" "0 < n" using less.prems by auto
    obtain bs r1 where b: "Read (min 4096 n) r = Inr (bs, r1)" "bs \<noteq> []" "pending r = bs @ pending r1" "cap r1 = cap r" "fin r1 = fin r"
      by (rule Read_pending [of "min 4096 n" r, OF _ less.prems(1) nz(1)]) (use nz(2) in auto)
    have lt: "n - length bs < n" using b(2) nz by simp
    have "length (pending r1) < n - length bs" using less.prems(2) b(3) by simp
    from less.IH [OF lt _ this] less.prems b(4,5) obtain e where "read_limited (n - length bs) r1 = Inl e" by auto
    then show ?thesis using nz b by (simp add: read_limited.simps [of n])
  qed
qed

lemma fill_read_limited [fill_intros]: "fill_free (read_limited n)"
proof (rule fill_freeI)
  fix r r' x r1
  assume cap: "0 < cap r" and r: "same_data r r'" and p: "read_limited n r = Inr (x, r1)"
  have n: "n \<le> length (pending r) \<or> fin r = EOF" using read_limited_short [OF cap, of n] p by fastforce
  then have n': "0 < cap r'" "n \<le> length (pending r') \<or> fin r' = EOF" using cap r by (simp_all add: same_data_def)
  show "cap r1 = cap r \<and> (\<exists>r2. read_limited n r' = Inr (x, r2) \<and> same_data r1 r2)"
    using read_limited_pending [OF cap n] read_limited_pending [OF n'] p r by (auto simp: same_data_def)
qed

section \<open>The parsers of the file table\<close>

lemma fill_read_tail [fill_intros]: "fill_free (read_tail i n v)"
  by (induction n arbitrary: i v) (auto intro!: fill_intros)

lemma fill_readUint64 [fill_intros]: "fill_free readUint64"
  unfolding readUint64_def Let_def by (intro fill_intros)

lemma fill_readUint64Bounded [fill_intros]: "fill_free (readUint64Bounded nz)"
  unfolding readUint64Bounded_def by (intro fill_intros)

lemma fill_read_bool_loop [fill_intros]: "fill_free (read_bool_loop n b m)"
  by (induction n arbitrary: b m) (auto intro!: fill_intros)

lemma fill_readBool [fill_intros]: "fill_free (readBool n)"
  unfolding readBool_def by (intro fill_intros)

lemma fill_readOptionalBool [fill_intros]: "fill_free (readOptionalBool n)"
  unfolding readOptionalBool_def by (intro fill_intros)

lemma fill_read_defined [fill_intros]: "fill_free p \<Longrightarrow> fill_free (read_defined p z n ds)"
  by (induction p z n ds rule: read_defined.induct) (auto intro!: fill_intros)

lemma fill_read_external [fill_intros]: "fill_free p \<Longrightarrow> fill_free (read_external m p)"
  unfolding read_external_def by (intro fill_intros)

lemma fill_readTimes [fill_intros]: "fill_free (readTimes ev n)"
  unfolding readTimes_def by (intro fill_intros)

lemma fill_readAttributes [fill_intros]: "fill_free (readAttributes n)"
  unfolding readAttributes_def by (intro fill_intros)

lemma fill_readNames [fill_intros]: "fill_free (readNames ev n len)"
  unfolding readNames_def by (intro fill_intros)

lemma fill_read_property [fill_intros]: "fill_free (read_property ev files prop len hs es)"
  unfolding read_property_def by (intro fill_intros)

lemma fill_files_loop [fill_intros]: "fill_free (files_loop ev files hs es)"
proof (rule fill_freeI)
  fix r r' x r1
  assume "0 < cap r" "same_data r r'" "files_loop ev files hs es r = Inr (x, r1)"
  then show "cap r1 = cap r \<and> (\<exists>r2. files_loop ev files hs es r' = Inr (x, r2) \<and> same_data r1 r2)"
  proof (induction ev files hs es r arbitrary: r' rule: files_loop.induct)
    case (1 ev files hs es r)
    define body where "body pid = pbind readUint64 (\<lambda>len. passert (\<not> len > of_nat MaxMetadataBytes)
        (Message ''file property exceeds metadata limit'') (read_property ev files pid len hs es))" for pid
    have free: "fill_free (body pid)" for pid unfolding body_def by (intro fill_intros)
    have unfold: "files_loop ev files hs es q =
       (case ReadByte q of Inl e \<Rightarrow> Inl e
        | Inr (property, q1) \<Rightarrow> if property = idEnd then Inr (hs, q1)
            else (case body property q1 of Inl e \<Rightarrow> Inl e
                  | Inr ((hs', es'), q2) \<Rightarrow> files_loop ev files hs' es' q2))" for q
      unfolding body_def by (rule files_loop.simps)
    from "1.prems"(3) obtain pid q1 where q1: "ReadByte r = Inr (pid, q1)"
      unfolding unfold [of r] by (auto split: sum.splits)
    from fill_freeD [OF fill_ReadByte "1.prems"(1,2) q1] obtain q1' where
      q1': "ReadByte r' = Inr (pid, q1')" "same_data q1 q1'" "cap q1 = cap r" .
    show ?case
    proof (cases "pid = idEnd")
      case True
      then show ?thesis using "1.prems"(3) q1 q1' unfolding unfold [of r] unfold [of r'] by auto
    next
      case False
      with "1.prems"(3) q1 obtain hs' es' q2 where q2: "body pid q1 = Inr ((hs', es'), q2)"
        and rest: "files_loop ev files hs' es' q2 = Inr (x, r1)"
        unfolding unfold [of r] by (auto split: sum.splits)
      from fill_freeD [OF free _ q1'(2) q2] "1.prems"(1) q1'(3) obtain q2' where
        q2': "body pid q1' = Inr ((hs', es'), q2')" "same_data q2 q2'" "cap q2 = cap r" by auto
      from "1.IH" [OF q1 refl False q2 [unfolded body_def] refl refl, of q2'] "1.prems"(1) q2' rest obtain r2 where
        "files_loop ev files hs' es' q2' = Inr (x, r2)" "same_data r1 r2" "cap r1 = cap r" by auto
      then show ?thesis using False q1'(1) q2'(1) unfolding unfold [of r'] by simp
    qed
  qed
qed

lemma fill_readFilesInfo [fill_intros]: "fill_free (readFilesInfo ev)"
  unfolding readFilesInfo_def by (intro fill_intros)

section \<open>The current fill\<close>

lemma filled_same: "same_data (filled r) r"
  by (auto simp: same_data_def filled_def pending_def dest: pull_concat split: prod.splits)

lemma filled_fields [simp]: "pending (filled r) = pending r" "cap (filled r) = cap r" "fin (filled r) = fin r"
  using filled_same [of r] by (simp_all add: same_data_def)

lemma ReadByte_filled: "buf (filled r) \<noteq> [] \<Longrightarrow> ReadByte (filled r) = ReadByte r"
  by (auto simp: filled_def ReadByte_def split: prod.splits list.splits)

lemma pbind_filled: "buf (filled r) \<noteq> [] \<Longrightarrow> pbind ReadByte f (filled r) = pbind ReadByte f r"
  by (simp add: pbind_def ReadByte_filled)

text \<open>A reader whose fill holds all of \<open>bs\<close>.\<close>

lemma filled_split:
  assumes "pending r = bs @ cs" "length bs \<le> length (buf (filled r))"
  obtains ds where "filled r = (filled r)\<lparr>buf := bs @ ds\<rparr>" "cs = ds @ concat (chunks (filled r))"
proof -
  have c: "bs @ cs = buf (filled r) @ concat (chunks (filled r))"
    using filled_fields(1) [of r] assms(1) unfolding pending_def by simp
  have "take (length bs) (buf (filled r)) = bs" using arg_cong [OF c, of "take (length bs)"] assms(2) by simp
  then have ds: "buf (filled r) = bs @ drop (length bs) (buf (filled r))" (is "_ = _ @ ?ds") by (metis append_take_drop_id)
  moreover from this c have "cs = ?ds @ concat (chunks (filled r))" by (metis append.assoc same_append_eq)
  moreover from ds have "filled r = (filled r)\<lparr>buf := bs @ ?ds\<rparr>" by simp
  ultimately show ?thesis using that by blast
qed

end
