(* ===== verification/HeaderRoundtrip.thy ===== *)
theory HeaderRoundtrip
  imports HeaderCodec Fills
begin

text \<open>
  The streams tables of the header survive being written by \<open>internal/archive7z/writer.go\<close> and
  parsed by \<open>internal/sevenzip/types.go\<close>. \<open>folder_of\<close> and \<open>streams_of\<close> say which tables of the
  reader the tables of the writer stand for.
\<close>

section \<open>Coders\<close>

definition coder_ok :: "coder \<Rightarrow> bool" where
  "coder_ok c \<longleftrightarrow> length (c_id c) \<le> 15 \<and> c_in c = 1 \<and> c_out c = 1
                \<and> length (c_properties c) \<le> MaxMetadataItems"

lemma coder_flags:
  assumes "n \<le> 15" "f = 0 \<or> f = (0x20 :: byte)"
  shows "unat ((of_nat n OR f) AND 0xf) = n" "(of_nat n OR f) AND 0x10 = 0"
    "(of_nat n OR f) AND 0x20 = f"
proof -
  have "n \<in> {0,1,2,3,4,5,6,7,8,9,10,11,12,13,14,15}" using assms(1) by (simp, presburger)
  then show "unat ((of_nat n OR f) AND 0xf) = n" "(of_nat n OR f) AND 0x10 = 0"
    "(of_nat n OR f) AND 0x20 = f"
    using assms(2) by (elim insertE; auto)+
qed

lemma read_exact_buffered [simp]:
  "length bs = n \<Longrightarrow> read_exact n (r\<lparr>buf := bs @ cs\<rparr>) = Inr (bs, r\<lparr>buf := cs\<rparr>)"
  by (cases "bs = []") (auto simp: read_exact_def parser_simps)

lemma bind_read_exact:
  "length bs = n \<Longrightarrow> pbind (read_exact n) f (r\<lparr>buf := bs @ cs\<rparr>) = f bs (r\<lparr>buf := cs\<rparr>)"
  by (simp add: pbind_def)

lemma items_small: "n \<le> MaxMetadataItems \<Longrightarrow> (of_nat n :: u64) \<le> of_nat MaxMetadataBytes"
  by (simp add: word_le_nat_alt limit_defs)

interpretation coder: serializer "\<lambda>c. writeCoder (c_id c) (c_properties c)" readCoder coder_ok "\<lambda>c. c"
proof
  fix c bs and r :: reader
  assume ok: "coder_ok c"
  define f where "f = (if length (c_properties c) > 0 then 0x20 else 0 :: byte)"
  have "f = 0 \<or> f = 0x20" by (simp add: f_def)
  note flags = coder_flags [OF _ this, of "length (c_id c)"]
  show "readCoder (r\<lparr>buf := writeCoder (c_id c) (c_properties c) @ bs\<rparr>) = Inr (c, r\<lparr>buf := bs\<rparr>)"
  proof (cases "c_properties c = []")
    case True
    then show ?thesis
      using ok flags
      by (simp add: readCoder_def writeCoder_def f_def Let_def coder_ok_def pbind_def [of ReadByte]
          bind_read_exact pbind_def [of "preturn _"] preturn_def)
  next
    case False
    then have "fits True (of_nat (length (c_properties c)))"
      using ok by (intro fits_of_nat) (auto simp: coder_ok_def)
    with False show ?thesis
      using ok flags
      by (simp add: readCoder_def writeCoder_def f_def Let_def coder_ok_def pbind_def [of ReadByte]
          bind_read_exact pbind_def [of "preturn _"] b64.bind passert_def items_small
          unat_of_nat_items pbind_def [of "pbind _ _"] preturn_def)
  qed
qed

section \<open>Folders\<close>

definition plain_coder :: "byte list \<Rightarrow> byte list \<Rightarrow> coder" where
  "plain_coder m ps = \<lparr>c_id = m, c_in = 1, c_out = 1, c_properties = ps\<rparr>"

definition folder_coders :: "writerFolder \<Rightarrow> coder list" where
  "folder_coders fo =
     (if aesProperties fo \<noteq> [] then [plain_coder method7zAES (aesProperties fo)] else []) @
     [plain_coder (fo_method fo) (fo_properties fo)] @
     (if filterMethod fo \<noteq> [] then [plain_coder (filterMethod fo) []] else [])"

definition folder_pairs :: "writerFolder \<Rightarrow> bindPair list" where
  "folder_pairs fo =
     (if aesProperties fo \<noteq> [] then [\<lparr>b_in = 1, b_out = 0\<rparr>] else []) @
     (if filterMethod fo \<noteq> []
      then [if aesProperties fo \<noteq> [] then \<lparr>b_in = 2, b_out = 1\<rparr> else \<lparr>b_in = 1, b_out = 0\<rparr>] else [])"

definition folder_of :: "writerFolder \<Rightarrow> folder" where
  "folder_of fo =
     (let n = of_nat (length (folder_coders fo)) in
      \<lparr>f_in = n, f_out = n, packedStreams = 1, f_coder = folder_coders fo,
       f_bindPair = folder_pairs fo, f_size = [], f_packed = [0]\<rparr>)"

definition methods_ok :: "writerFolder \<Rightarrow> bool" where
  "methods_ok fo \<longleftrightarrow>
     length (fo_method fo) \<le> 15 \<and> length (filterMethod fo) \<le> 15 \<and>
     length (fo_properties fo) \<le> MaxMetadataItems \<and> length (aesProperties fo) \<le> MaxMetadataItems"

lemma folder_cases:
  obtains "aesProperties fo = []" "filterMethod fo = []"
    | "aesProperties fo = []" "filterMethod fo \<noteq> []"
    | "aesProperties fo \<noteq> []" "filterMethod fo = []"
    | "aesProperties fo \<noteq> []" "filterMethod fo \<noteq> []"
  by blast

lemma folder_counts:
  "length (folder_pairs fo) = length (folder_coders fo) - 1"
  "length (folder_sizes fo) = length (folder_coders fo)"
  "length (folder_coders fo) \<in> {1, 2, 3}"
  by (cases fo rule: folder_cases;
      simp add: folder_pairs_def folder_coders_def folder_sizes_def)+

lemma folder_coders_arity: "c \<in> set (folder_coders fo) \<Longrightarrow> c_in c = 1 \<and> c_out c = 1"
  by (auto simp: folder_coders_def plain_coder_def split: if_splits)

lemma folder_sums:
  "sum_list (map c_in (folder_coders fo)) = of_nat (length (folder_coders fo))"
  "sum_list (map c_out (folder_coders fo)) = of_nat (length (folder_coders fo))"
  by (cases fo rule: folder_cases; simp add: folder_coders_def plain_coder_def)+

lemma writeFolder_eq:
  "writeFolder fo =
     writeUint64 (of_nat (length (folder_coders fo))) @
     concat (map (\<lambda>c. writeCoder (c_id c) (c_properties c)) (folder_coders fo)) @
     concat (map (\<lambda>bp. writeUint64 (b_in bp) @ writeUint64 (b_out bp)) (folder_pairs fo))"
  by (cases fo rule: folder_cases)
     (simp_all add: writeFolder_def folder_coders_def folder_pairs_def plain_coder_def Let_def)

lemma folder_coders_ok: "methods_ok fo \<Longrightarrow> \<forall>c \<in> set (folder_coders fo). coder_ok c"
  by (auto simp: methods_ok_def folder_coders_def coder_ok_def plain_coder_def method7zAES_def
      limit_defs split: if_splits)

interpretation bind_pair: serializer "\<lambda>bp. writeUint64 (b_in bp) @ writeUint64 (b_out bp)"
  "readBindPair ins outs" "\<lambda>bp. fits False (b_in bp) \<and> fits False (b_out bp) \<and> b_in bp < ins \<and> b_out bp < outs"
  "\<lambda>bp. bp" for ins outs
  by unfold_locales (simp add: readBindPair_def b64.bind passert_def preturn_def not_le)

lemma folder_pairs_ok:
  "\<forall>bp \<in> set (folder_pairs fo). fits False (b_in bp) \<and> fits False (b_out bp) \<and>
     b_in bp < of_nat (length (folder_coders fo)) \<and> b_out bp < of_nat (length (folder_coders fo))"
  by (cases fo rule: folder_cases)
     (auto simp: folder_pairs_def folder_coders_def fits_def limit_defs)

lemma folder_packed:
  "filter (\<lambda>i. find (\<lambda>v. b_in v = i) (folder_pairs fo) = None)
     (map of_nat [0..<length (folder_coders fo)]) = [0::u64]"
  by (cases fo rule: folder_cases)
     (simp_all add: folder_pairs_def folder_coders_def upt_rec)

interpretation folder: serializer writeFolder readFolder methods_ok folder_of
proof
  fix fo bs and r :: reader
  assume ok: "methods_ok fo"
  let ?n = "length (folder_coders fo)"
  have n: "?n = 1 \<or> ?n = 2 \<or> ?n = 3" using folder_counts(3) [of fo] by simp
  have unat: "unat (of_nat ?n :: u64) = ?n" using n by auto
  have fits: "fits True (of_nat ?n)" using n by (intro fits_of_nat) (auto simp: limit_defs)
  have words: "\<not> (of_nat ?n :: u64) > 64" "unat ((of_nat ?n :: u64) - 1) = ?n - 1"
    using n by auto
  have "unat ((of_nat ?n :: u64) - (of_nat ?n - 1)) = 1" by simp
  show "readFolder (r\<lparr>buf := writeFolder fo @ bs\<rparr>) = Inr (folder_of fo, r\<lparr>buf := bs\<rparr>)"
    using folder_coders_ok [OF ok] folder_pairs_ok [of fo] folder_counts [of fo] fits words
    by (simp add: readFolder_def writeFolder_eq b64.bind passert_def coder.bind_list unat Let_def
        folder_sums bind_pair.bind_list findInBindPair_def folder_packed folder_of_def preturn_def)
qed

section \<open>Streams\<close>

definition full_folder :: "writerFolder \<Rightarrow> folder" where
  "full_folder fo = (folder_of fo)\<lparr>f_size := folder_sizes fo\<rparr>"

definition file_sizes :: "writerFile list \<Rightarrow> writerFolder \<Rightarrow> u64 list" where
  "file_sizes files fo = map (\<lambda>i. uncompressedSize (files ! i)) (fo_files fo)"

definition file_checksums :: "writerFile list \<Rightarrow> writerFolder \<Rightarrow> u32 list" where
  "file_checksums files fo = map (\<lambda>i. wf_checksum (files ! i)) (fo_files fo)"

definition folder_digests :: "writerFile list \<Rightarrow> writerFolder \<Rightarrow> u32 list" where
  "folder_digests files fo =
     (if length (fo_files fo) = 1 then [fo_checksum fo] else file_checksums files fo)"

text \<open>The tables of the reader that the tables of the writer stand for.\<close>

definition unpack_of :: "writerFolder list \<Rightarrow> unpackInfo" where
  "unpack_of fos =
     \<lparr>u_folder = map full_folder fos, u_digest = map fo_checksum fos,
      u_digestDefined = replicate (length fos) True\<rparr>"

definition substreams_of :: "writerFile list \<Rightarrow> writerFolder list \<Rightarrow> subStreamsInfo" where
  "substreams_of files fos =
     (let n = length (concat (map fo_files fos)) in
      \<lparr>s_streams = map (\<lambda>fo. of_nat (length (fo_files fo))) fos,
       s_size = (if multiple fos then concat (map (file_sizes files) fos) else []),
       s_digest = (if multiple fos then concat (map (folder_digests files) fos) else []),
       s_digestDefined = (if multiple fos then replicate n True else [])\<rparr>)"

definition streams_of :: "writerFile list \<Rightarrow> writerFolder list \<Rightarrow> streamsInfo" where
  "streams_of files fos =
     \<lparr>si_packInfo = Some \<lparr>position = 0, p_streams = of_nat (length fos),
                          p_size = map packSize fos, p_digest = []\<rparr>,
      si_unpackInfo = Some (unpack_of fos),
      si_subStreamsInfo = Some (substreams_of files fos)\<rparr>"

definition sizes_ok :: "writerFile list \<Rightarrow> writerFolder \<Rightarrow> bool" where
  "sizes_ok files fo \<longleftrightarrow>
     methods_ok fo \<and> fo_files fo \<noteq> [] \<and>
     sum_list (map unat (file_sizes files fo)) = unat (fo_uncompressedSize fo) \<and>
     unat (fo_uncompressedSize fo) \<le> MaxTotalBytes"

definition tables_ok :: "writerFile list \<Rightarrow> writerFolder list \<Rightarrow> bool" where
  "tables_ok files fos \<longleftrightarrow>
     fos \<noteq> [] \<and> (\<forall>fo \<in> set fos. sizes_ok files fo) \<and>
     length (concat (map fo_files fos)) \<le> MaxArchiveEntries"

lemma length_folders:
  "\<forall>fo \<in> set fos. sizes_ok files fo \<Longrightarrow> length fos \<le> length (concat (map fo_files fos))"
proof (induction fos)
  case (Cons fo fos)
  then have "0 < length (fo_files fo)" by (auto simp: sizes_ok_def)
  with Cons show ?case by (cases "fo_files fo") auto
qed simp

subsection \<open>Unpack info\<close>

lemma read_folder_sizes_write:
  "read_folder_sizes (map folder_of fos)
     (r\<lparr>buf := concat (map (\<lambda>fo. concat (map writeUint64 (folder_sizes fo))) fos) @ bs\<rparr>) =
   Inr (map full_folder fos, r\<lparr>buf := bs\<rparr>)"
proof (induction fos)
  case Nil
  then show ?case by (simp add: preturn_def)
next
  case (Cons fo fos)
  let ?n = "length (folder_coders fo)"
  have n: "?n = 1 \<or> ?n = 2 \<or> ?n = 3" using folder_counts(3) [of fo] by simp
  then have fits: "fits True (of_nat ?n)" by (intro fits_of_nat) (auto simp: limit_defs)
  have unat: "unat (of_nat ?n :: u64) = length (folder_sizes fo)"
    using n folder_counts(2) [of fo] by auto
  have tot: "sum_list (map c_out (f_coder (folder_of fo))) = of_nat ?n"
    using folder_sums(2) [of fo] by (simp add: folder_of_def Let_def)
  show ?case
    using Cons fits
    by (simp add: tot unat u64.bind_list pbind_def [of "read_folder_sizes _"] preturn_def full_folder_def)
qed

lemma all_defined:
  assumes "\<forall>w \<in> set ws. True" "n = length ws" "0 < n" "n \<le> MaxMetadataItems"
  shows "readCRCDefined (of_nat n) (r\<lparr>buf := 1 # concat (map (le_bytes 4) ws) @ bs\<rparr>) =
     Inr ((ws, replicate n True), r\<lparr>buf := bs\<rparr>)"
  using assms le32.decode_defined [of ws "replicate n True" 0 bs r]
  by (simp add: readCRCDefined_def readOptionalBool_def fits_of_nat unat_of_nat_items pbind_def
      preturn_def)

lemma readUnpackInfo_write:
  assumes "\<forall>fo \<in> set fos. methods_ok fo" "fos \<noteq> []" "length fos \<le> MaxArchiveEntries"
  shows "readUnpackInfo (r\<lparr>buf := idFolder # writeUint64 (of_nat (length fos)) @
     0 # concat (map writeFolder fos) @
     idCodersUnpackSize # concat (map (\<lambda>fo. concat (map writeUint64 (folder_sizes fo))) fos) @
     idCRC # 1 # concat (map (\<lambda>fo. le_bytes 4 (fo_checksum fo)) fos) @ idEnd # bs\<rparr>) =
   Inr (unpack_of fos, r\<lparr>buf := bs\<rparr>)"
proof -
  have items: "length fos \<le> MaxMetadataItems" using assms(3) by (simp add: limit_defs)
  then have fits: "fits True (of_nat (length fos))"
    and unat: "unat (of_nat (length fos) :: u64) = length fos"
    using assms(2) by (auto intro: fits_of_nat unat_of_nat_items)
  have small: "\<not> (of_nat (length fos) :: u64) > of_nat MaxArchiveEntries"
    using assms(3) unat by (simp add: not_less word_le_nat_alt limit_defs)
  have crcs: "readCRCDefined (of_nat (length fos))
      (r\<lparr>buf := 1 # concat (map (\<lambda>fo. le_bytes 4 (fo_checksum fo)) fos) @ cs\<rparr>) =
      Inr ((map fo_checksum fos, replicate (length fos) True), r\<lparr>buf := cs\<rparr>)" for cs
    using all_defined [of "map fo_checksum fos" "length fos" cs r] assms(2) items
    by (simp add: comp_def)
  show ?thesis
    using assms(1) fits small
    by (simp add: readUnpackInfo_def expectID_def b64.bind passert_def pbind_def [of ReadByte]
        folder.bind_list unat pbind_def [of "read_folder_sizes _"] read_folder_sizes_write
        pbind_def [of "readCRCDefined _"] crcs pbind_def [of "pbind _ _"] unpack_of_def
        pbind_def [of "preturn _"] preturn_def id_defs)
qed

subsection \<open>Substreams\<close>

lemma full_folder_simps [simp]:
  "f_coder (full_folder fo) = folder_coders fo" "f_size (full_folder fo) = folder_sizes fo"
  "f_bindPair (full_folder fo) = folder_pairs fo" "packedStreams (full_folder fo) = 1"
  by (simp_all add: full_folder_def folder_of_def Let_def)

lemma unpackSize_full_folder: "unpackSize (full_folder fo) = fo_uncompressedSize fo"
  by (cases fo rule: folder_cases)
     (simp_all add: unpackSize_def folder_sizes_def findOutBindPair_def folder_pairs_def upt_rec)

lemma read_stream_sizes_write:
  "sum_list (map unat xs) + unat acc \<le> unat unpacked \<Longrightarrow> length xs \<le> room \<Longrightarrow>
     read_stream_sizes unpacked room (length xs) acc (r\<lparr>buf := concat (map writeUint64 xs) @ bs\<rparr>) =
     Inr ((xs, acc + sum_list xs), r\<lparr>buf := bs\<rparr>)"
proof (induction xs arbitrary: acc room)
  case Nil
  then show ?case by (simp add: preturn_def)
next
  case (Cons x xs)
  from Cons.prems(2) obtain room' where room: "room = Suc room'" by (cases room) auto
  have le: "unat x + unat acc \<le> unat unpacked" using Cons.prems by simp
  then have small: "unat (acc + x) = unat acc + unat x"
    using unat_add_le [of acc x unpacked] by simp
  have "min unpacked x = x" using le by (intro min_absorb2) (simp add: word_le_nat_alt)
  moreover have "unat (unpacked - x) = unat unpacked - unat x"
    using le by (simp add: unat_sub word_le_nat_alt)
  ultimately have "\<not> acc > unpacked - min unpacked x" using le by (simp add: not_less word_le_nat_alt)
  with Cons small room show ?case
    by (simp add: u64.bind passert_def pbind_def [of "read_stream_sizes _ _ _ _"] preturn_def add.assoc)
qed

lemma file_sizes_split:
  assumes "sizes_ok files fo"
  obtains x where "file_sizes files fo = butlast (file_sizes files fo) @ [x]"
    "x = fo_uncompressedSize fo - sum_list (butlast (file_sizes files fo))"
    "sum_list (map unat (butlast (file_sizes files fo))) \<le> unat (fo_uncompressedSize fo)"
proof -
  let ?xs = "file_sizes files fo"
  have "?xs \<noteq> []" using assms by (auto simp: sizes_ok_def file_sizes_def)
  then have split: "?xs = butlast ?xs @ [last ?xs]" by simp
  then have "sum_list (map unat ?xs) = sum_list (map unat (butlast ?xs)) + unat (last ?xs)"
    using arg_cong [OF split, of "\<lambda>zs. sum_list (map unat zs)"]
    unfolding map_append sum_list_append by simp
  with assms have sum: "unat (fo_uncompressedSize fo) = sum_list (map unat (butlast ?xs)) + unat (last ?xs)"
    by (simp add: sizes_ok_def)
  then have "unat (sum_list (butlast ?xs)) = sum_list (map unat (butlast ?xs))"
    by (intro unat_sum_list_le [where c = "fo_uncompressedSize fo"]) simp
  with sum have "unat (fo_uncompressedSize fo) = unat (sum_list (butlast ?xs) + last ?xs)"
    using unat_add_le [of "sum_list (butlast ?xs)" "last ?xs" "fo_uncompressedSize fo"] by simp
  then have "fo_uncompressedSize fo = sum_list (butlast ?xs) + last ?xs" by (simp only: word_unat_eq_iff)
  with split sum show ?thesis by (intro that [of "last ?xs"]) auto
qed

lemma read_substream_sizes_write:
  assumes "\<forall>fo \<in> set fos. sizes_ok files fo"
    "\<forall>fo \<in> set fos. length (fo_files fo) \<le> MaxArchiveEntries"
  shows "read_substream_sizes (length (concat (map fo_files fos)))
       (zip (map full_folder fos) (map (\<lambda>fo. of_nat (length (fo_files fo))) fos))
       (r\<lparr>buf := concat (map (\<lambda>fo. concat (map (\<lambda>i. writeUint64 (uncompressedSize (files ! i)))
                                           (butlast (fo_files fo)))) fos) @ bs\<rparr>) =
     Inr (concat (map (file_sizes files) fos), r\<lparr>buf := bs\<rparr>)"
  using assms
proof (induction fos)
  case Nil
  then show ?case by (simp add: preturn_def)
next
  case (Cons fo fos)
  have ok: "sizes_ok files fo" using Cons.prems by simp
  define ys where "ys = butlast (file_sizes files fo)"
  obtain x where x: "file_sizes files fo = ys @ [x]" "x = fo_uncompressedSize fo - sum_list ys"
    "sum_list (map unat ys) \<le> unat (fo_uncompressedSize fo)"
    unfolding ys_def using file_sizes_split [OF ok] by metis
  have unat: "unat (of_nat (length (fo_files fo)) :: u64) = length (fo_files fo)"
    using Cons.prems(2) by (intro unat_of_nat_items) (auto simp: limit_defs)
  moreover have "0 < length (fo_files fo)" using ok by (auto simp: sizes_ok_def)
  ultimately have nz: "(of_nat (length (fo_files fo)) :: u64) \<noteq> 0" by (metis unat_0 less_irrefl)
  have len: "unat (of_nat (length (fo_files fo)) :: u64) - Suc 0 = length ys"
    by (simp add: unat file_sizes_def ys_def)
  have enc: "concat (map (\<lambda>i. writeUint64 (uncompressedSize (files ! i))) (butlast (fo_files fo)))
      = concat (map writeUint64 ys)"
    by (simp add: ys_def file_sizes_def map_butlast comp_def)
  have "unat (sum_list ys) = sum_list (map unat ys)"
    using x(3) by (rule unat_sum_list_le)
  then have le: "\<not> sum_list ys > fo_uncompressedSize fo"
    using x(3) by (simp add: not_less word_le_nat_alt)
  have l: "length (fo_files fo) = Suc (length ys)" using arg_cong [OF x(1), of length] by (simp add: file_sizes_def)
  define room where "room = length (concat (map fo_files (fo # fos)))"
  have room: "length ys < room" "room - Suc (length ys) = length (concat (map fo_files fos))"
    using l by (simp_all add: room_def)
  have step: "read_stream_sizes (fo_uncompressedSize fo) room (length ys) 0
      (r\<lparr>buf := concat (map writeUint64 ys) @ cs\<rparr>) = Inr ((ys, sum_list ys), r\<lparr>buf := cs\<rparr>)" for cs
    using read_stream_sizes_write [of ys 0 "fo_uncompressedSize fo" room cs r] x(3) room(1) by simp
  have IH: "read_substream_sizes (length (concat (map fo_files fos)))
       (zip (map full_folder fos) (map (\<lambda>fo. of_nat (length (fo_files fo))) fos))
       (r\<lparr>buf := concat (map (\<lambda>fo. concat (map (\<lambda>i. writeUint64 (uncompressedSize (files ! i)))
                                           (butlast (fo_files fo)))) fos) @ bs\<rparr>) =
     Inr (concat (map (file_sizes files) fos), r\<lparr>buf := bs\<rparr>)"
    using Cons by simp
  show ?case
    unfolding room_def [symmetric]
    using nz le x(1,2) room(1)
    by (simp add: unpackSize_full_folder len enc pbind_def [of "read_stream_sizes _ _ _ _"] step
        passert_def room(2) pbind_def [of "read_substream_sizes _ _"] IH preturn_def)
qed

lemma counts_le:
  fixes acc :: u64
  assumes "unat acc + n \<le> MaxArchiveEntries"
  shows "unat (of_nat n :: u64) = n" "\<not> acc > of_nat MaxArchiveEntries - of_nat n"
    "unat (acc + of_nat n) = unat acc + n"
proof -
  show n: "unat (of_nat n :: u64) = n" using assms by (intro unat_of_nat_items) (simp add: limit_defs)
  then have "(of_nat n :: u64) \<le> of_nat MaxArchiveEntries"
    using assms by (simp add: word_le_nat_alt limit_defs)
  then have "unat ((of_nat MaxArchiveEntries :: u64) - of_nat n) = MaxArchiveEntries - n"
    using n by (simp add: unat_sub limit_defs)
  then show "\<not> acc > of_nat MaxArchiveEntries - of_nat n"
    using assms by (simp add: not_less word_le_nat_alt)
  show "unat (acc + of_nat n) = unat acc + n"
    using assms n by (subst unat_add_small) (simp_all add: limit_defs)
qed

lemma check_substream_counts_write:
  "unat acc + sum_list ns \<le> MaxArchiveEntries \<Longrightarrow>
     check_substream_counts acc (map of_nat ns) = Inr (acc + of_nat (sum_list ns))"
proof (induction ns arbitrary: acc)
  case (Cons n ns)
  then have le: "unat acc + n \<le> MaxArchiveEntries" by simp
  with Cons counts_le [OF le] show ?case by (simp add: add.assoc)
qed simp

lemma of_nat_eq_1: "n \<le> MaxArchiveEntries \<Longrightarrow> (of_nat n :: u64) = 1 \<longleftrightarrow> n = 1"
  using unat_of_nat_items [of n] by (auto simp: limit_defs word_unat_eq_iff)

lemma digest_known_unpack:
  "i < length fos \<Longrightarrow> n \<le> MaxArchiveEntries \<Longrightarrow> digest_known (unpack_of fos) i (of_nat n) \<longleftrightarrow> n = 1"
  by (simp add: digest_known_def unpack_of_def of_nat_eq_1)

lemma count_unknown_write:
  "unat acc + sum_list ns \<le> MaxArchiveEntries \<Longrightarrow> i + length ns \<le> length fos \<Longrightarrow>
     count_unknown (unpack_of fos) i acc (map of_nat ns) =
     Inr (acc + of_nat (sum_list (filter (\<lambda>n. n \<noteq> 1) ns)))"
proof (induction ns arbitrary: acc i)
  case (Cons n ns)
  then have le: "unat acc + n \<le> MaxArchiveEntries" by simp
  with Cons counts_le [OF le] digest_known_unpack [of i fos n]
  show ?case by (cases "n = 1") (simp_all add: add.assoc)
qed simp

definition read_digests :: "writerFile list \<Rightarrow> writerFolder \<Rightarrow> u32 list" where
  "read_digests files fo = (if length (fo_files fo) = 1 then [] else file_checksums files fo)"

lemma length_file_checksums [simp]: "length (file_checksums files fo) = length (fo_files fo)"
  by (simp add: file_checksums_def)

lemma length_folder_digests [simp]: "length (folder_digests files fo) = length (fo_files fo)"
  by (simp add: folder_digests_def)

lemma length_file_sizes [simp]: "length (file_sizes files fo) = length (fo_files fo)"
  by (simp add: file_sizes_def)

lemma distribute_digests_write:
  "i + length fos = length all \<Longrightarrow> fos = drop i all \<Longrightarrow>
     \<forall>fo \<in> set fos. length (fo_files fo) \<le> MaxArchiveEntries \<Longrightarrow>
     distribute_digests (unpack_of all) i (length (concat (map fo_files fos))) (map (\<lambda>fo. of_nat (length (fo_files fo))) fos)
       (concat (map (read_digests files) fos))
       (replicate (length (concat (map (read_digests files) fos))) True) =
     Inr (concat (map (folder_digests files) fos),
          replicate (length (concat (map (folder_digests files) fos))) True, [])"
proof (induction fos arbitrary: i)
  case Nil
  then show ?case by simp
next
  case (Cons fo fos)
  have "i < length all" using Cons.prems(1) by simp
  moreover from Cons_nth_drop_Suc [OF this] Cons.prems(2)
  have "all ! i # drop (Suc i) all = fo # fos" by (rule trans [OF _ sym])
  ultimately have i: "i < length all" "all ! i = fo" "fos = drop (Suc i) all" by auto
  have n: "length (fo_files fo) \<le> MaxArchiveEntries" using Cons.prems(3) by simp
  then have unat: "unat (of_nat (length (fo_files fo)) :: u64) = length (fo_files fo)"
    by (intro unat_of_nat_items) (simp add: limit_defs)
  have IH: "distribute_digests (unpack_of all) (Suc i) (length (concat (map fo_files fos))) (map (\<lambda>fo. of_nat (length (fo_files fo))) fos)
       (concat (map (read_digests files) fos))
       (replicate (length (concat (map (read_digests files) fos))) True) =
     Inr (concat (map (folder_digests files) fos),
          replicate (length (concat (map (folder_digests files) fos))) True, [])"
    using Cons.IH [of "Suc i"] Cons.prems i by simp
  show ?case
  proof (cases "length (fo_files fo) = 1")
    case True
    have "idx (u_digest (unpack_of all)) i = Inr (fo_checksum fo)"
      using i by (simp add: unpack_of_def)
    with True IH show ?thesis
      using digest_known_unpack [OF i(1) n] by (simp add: read_digests_def [of files fo] folder_digests_def [of files fo])
  next
    case False
    with IH show ?thesis
      using digest_known_unpack [OF i(1) n]
      by (simp add: read_digests_def [of files fo] folder_digests_def [of files fo] unat replicate_add)
  qed
qed

lemma read_digests_count:
  "length (concat (map (read_digests files) fos)) =
     sum_list (filter (\<lambda>n. n \<noteq> 1) (map (\<lambda>fo. length (fo_files fo)) fos))"
  by (induction fos) (auto simp: read_digests_def)

lemma counts_sum: "sum_list (map (\<lambda>fo. length (fo_files fo)) fos) = length (concat (map fo_files fos))"
  by (induction fos) auto

lemma tables_bounds:
  assumes "tables_ok files fos"
  shows "length fos \<le> MaxArchiveEntries" "fos \<noteq> []"
    "\<forall>fo \<in> set fos. length (fo_files fo) \<le> MaxArchiveEntries"
    "length (concat (map fo_files fos)) \<le> MaxArchiveEntries" "\<forall>fo \<in> set fos. methods_ok fo"
    "\<forall>fo \<in> set fos. sizes_ok files fo"
proof -
  show "length fos \<le> MaxArchiveEntries"
    using assms length_folders [of fos files] by (auto simp: tables_ok_def)
  show "\<forall>fo \<in> set fos. length (fo_files fo) \<le> MaxArchiveEntries"
  proof
    fix fo assume "fo \<in> set fos"
    then have "length (fo_files fo) \<le> sum_list (map (\<lambda>fo. length (fo_files fo)) fos)"
      by (intro member_le_sum_list) auto
    with assms show "length (fo_files fo) \<le> MaxArchiveEntries"
      by (simp add: counts_sum tables_ok_def)
  qed
qed (use assms in \<open>auto simp: tables_ok_def sizes_ok_def\<close>)

definition substream_digests :: "writerFile list \<Rightarrow> writerFolder list \<Rightarrow> byte list" where
  "substream_digests files fos = concat (map (\<lambda>fo. if length (fo_files fo) = 1 then []
      else concat (map (\<lambda>i. le_bytes 4 (wf_checksum (files ! i))) (fo_files fo))) fos)"

lemma substream_digests_eq:
  "substream_digests files fos = concat (map (le_bytes 4) (concat (map (read_digests files) fos)))"
  unfolding substream_digests_def
  by (induction fos) (auto simp: read_digests_def file_checksums_def comp_def)

lemma multiple_unknown:
  "multiple fos \<Longrightarrow> \<forall>fo \<in> set fos. sizes_ok files fo \<Longrightarrow>
     0 < length (concat (map (read_digests files) fos))"
  by (auto simp: multiple_def list_ex_iff read_digests_def sizes_ok_def file_checksums_def)

lemma read_digests_le: "length (concat (map (read_digests files) fos)) \<le> length (concat (map fo_files fos))"
  by (induction fos) (auto simp: read_digests_def)

lemma readSubStreamsInfo_write:
  assumes ok: "tables_ok files fos"
  shows "readSubStreamsInfo (unpack_of fos)
     (r\<lparr>buf := (if multiple fos then
        idNumUnpackStream # concat (map (\<lambda>fo. writeUint64 (of_nat (length (fo_files fo)))) fos) @
        idSize # concat (map (\<lambda>fo. concat (map (\<lambda>i. writeUint64 (uncompressedSize (files ! i)))
                                              (butlast (fo_files fo)))) fos) @
        idCRC # 1 # substream_digests files fos
      else []) @ idEnd # bs\<rparr>) = Inr (substreams_of files fos, r\<lparr>buf := bs\<rparr>)"
proof -
  note b = tables_bounds [OF ok]
  let ?ns = "map (\<lambda>fo. length (fo_files fo)) fos"
  let ?streams = "map (\<lambda>fo. of_nat (length (fo_files fo)) :: u64) fos"
  let ?n = "length (concat (map fo_files fos))"
  let ?ds = "concat (map (read_digests files) fos)"
  have streams: "?streams = map of_nat ?ns" by simp
  have n: "unat (of_nat ?n :: u64) = ?n" using b(4) by (intro unat_of_nat_items) (simp add: limit_defs)
  have files: "check_substream_counts 0 ?streams = Inr (of_nat ?n)"
    using check_substream_counts_write [of 0 ?ns] b(4) unfolding streams counts_sum by simp
  have fits: "fits False (of_nat ?n)" using b(4) n by (simp add: fits_def limit_defs)
  show ?thesis
  proof (cases "multiple fos")
    case True
    have counts: "prepeat (length fos) readStreamCount
        (r\<lparr>buf := concat (map (\<lambda>fo. writeUint64 (of_nat (length (fo_files fo)))) fos) @ cs\<rparr>) =
        Inr (?streams, r\<lparr>buf := cs\<rparr>)" for cs
      using b(3)
    proof (induction fos)
      case (Cons fo fos)
      then have "\<not> (of_nat (length (fo_files fo)) :: u64) > of_nat MaxArchiveEntries"
        using counts_le(1) [of 0 "length (fo_files fo)"]
        by (simp add: not_less word_le_nat_alt limit_defs)
      with Cons show ?case
        by (simp add: readStreamCount_def u64.bind passert_def pbind_def [of "pbind _ _"]
            pbind_def [of "prepeat _ _"] preturn_def)
    qed (simp add: preturn_def)
    have unknown: "count_unknown (unpack_of fos) 0 0 ?streams = Inr (of_nat (length ?ds))"
      using count_unknown_write [of 0 ?ns 0 fos] b(4)
      unfolding streams read_digests_count counts_sum by simp
    have crcs: "readCRCDefined (of_nat (length ?ds)) (r\<lparr>buf := 1 # substream_digests files fos @ cs\<rparr>) =
        Inr ((?ds, replicate (length ?ds) True), r\<lparr>buf := cs\<rparr>)" for cs
      unfolding substream_digests_eq
      by (rule all_defined)
         (use multiple_unknown [OF True b(6)] read_digests_le [of files fos] b(4)
          in \<open>auto simp: limit_defs\<close>)
    have dist: "distribute_digests (unpack_of fos) 0 ?n ?streams ?ds (replicate (length ?ds) True) =
        Inr (concat (map (folder_digests files) fos),
             replicate (length (concat (map (folder_digests files) fos))) True, [])"
      by (rule distribute_digests_write) (use b(3) in auto)
    have total: "length (concat (map (folder_digests files) fos)) = ?n"
      by (induction fos) auto
    have lift: "plift (Inr x) ra = Inr (x, ra)" for x ra by simp
    show ?thesis
      using True fits b(3,6) n
      by (simp add: readSubStreamsInfo_def Let_def unpack_of_def [of fos, THEN arg_cong [where f = u_folder]]
          pbind_def [of ReadByte] pbind_def [of "pbind _ _"] pbind_def [of "preturn _"] preturn_def
          counts pbind_def [of "prepeat _ _"] files plift_def read_substream_sizes_write
          pbind_def [of "read_substream_sizes _ _"] unknown pbind_def [of "readCRCDefined _"] crcs dist
          passert_def total substreams_of_def id_defs)
  next
    case False
    then have "\<forall>fo \<in> set fos. length (fo_files fo) = 1" by (simp add: multiple_def list_ex_iff)
    then have "replicate (length fos) 1 = ?streams"
      by (induction fos) auto
    with False fits files show ?thesis
      by (simp add: readSubStreamsInfo_def Let_def unpack_of_def [of fos, THEN arg_cong [where f = u_folder]]
          pbind_def [of ReadByte] pbind_def [of "preturn _"] preturn_def plift_def passert_def
          substreams_of_def id_defs)
  qed
qed

subsection \<open>The streams table\<close>

lemma validate_folders_write:
  "\<forall>fo \<in> set fos. unat (fo_uncompressedSize fo) \<le> MaxTotalBytes \<Longrightarrow>
     unat acc + length fos \<le> MaxMetadataItems \<Longrightarrow>
     validate_folders acc (map full_folder fos) = Inr (acc + of_nat (length fos))"
proof (induction fos arbitrary: acc)
  case (Cons fo fos)
  have "folder_coders fo \<noteq> []" "folder_sizes fo \<noteq> []"
    by (simp_all add: folder_coders_def folder_sizes_def)
  moreover have "\<not> fo_uncompressedSize fo > of_nat MaxTotalBytes"
    using Cons.prems(1) by (simp add: not_less word_le_nat_alt limit_defs)
  moreover have "\<not> acc > of_nat MaxMetadataItems - 1"
    using Cons.prems(2) by (simp add: not_less word_le_nat_alt limit_defs)
  moreover have "unat (acc + 1) = unat acc + 1"
    using Cons.prems(2) by (subst unat_add_small) (simp_all add: limit_defs)
  ultimately show ?case
    using Cons by (simp add: unpackSize_full_folder add.assoc)
qed simp

lemma validate_streams_of:
  assumes ok: "tables_ok files fos"
  shows "validate (Some (streams_of files fos)) = None"
proof -
  note b = tables_bounds [OF ok]
  let ?n = "length (concat (map fo_files fos))"
  have folders: "validate_folders 0 (map full_folder fos) = Inr (of_nat (length fos))"
    using validate_folders_write [of fos 0] b(1,6) by (simp add: sizes_ok_def limit_defs)
  have sum: "sum_list (map (\<lambda>fo. of_nat (length (fo_files fo)) :: u64) fos) = of_nat ?n"
    by (induction fos) auto
  have lens: "length (concat (map (file_sizes files) fos)) = ?n"
    "length (concat (map (folder_digests files) fos)) = ?n"
    by (induction fos) auto
  have multi: "\<not> list_ex (\<lambda>count. count > 1) (map (\<lambda>fo. of_nat (length (fo_files fo)) :: u64) fos)"
    if "\<not> multiple fos"
    using that by (auto simp: multiple_def list_ex_iff)
  show ?thesis
    using folders multi
    by (cases "multiple fos")
       (simp_all add: validate_def streams_of_def unpack_of_def validate_substreams_def
         substreams_of_def sum lens Let_def)
qed

lemma sizes_written:
  "length fos = n \<Longrightarrow>
   pbind (prepeat n readUint64) f (r\<lparr>buf := concat (map (\<lambda>fo. writeUint64 (packSize fo)) fos) @ bs\<rparr>) =
     f (map packSize fos) (r\<lparr>buf := bs\<rparr>)"
  using u64.bind_list [of "map packSize fos" n f bs r] by (simp add: comp_def)

lemma readPackInfo_write:
  assumes "fos \<noteq> []" "length fos \<le> MaxArchiveEntries"
  shows "readPackInfo (r\<lparr>buf := writeUint64 0 @ writeUint64 (of_nat (length fos)) @
       idSize # concat (map (\<lambda>fo. writeUint64 (packSize fo)) fos) @ idEnd # bs\<rparr>) =
     Inr (\<lparr>position = 0, p_streams = of_nat (length fos), p_size = map packSize fos, p_digest = []\<rparr>,
          r\<lparr>buf := bs\<rparr>)"
proof -
  have fits: "fits True (of_nat (length fos))"
    using assms by (intro fits_of_nat) (auto simp: limit_defs)
  have unat: "unat (of_nat (length fos) :: u64) = length fos"
    using assms(2) by (intro unat_of_nat_items) (simp add: limit_defs)
  have sizes: "readSizes (of_nat (length fos))
       (r\<lparr>buf := concat (map (\<lambda>fo. writeUint64 (packSize fo)) fos) @ cs\<rparr>) =
     Inr (map packSize fos, r\<lparr>buf := cs\<rparr>)" for cs
    using u64.decode_list [of "map packSize fos" cs r] fits
    by (simp add: readSizes_def unat comp_def)
  show ?thesis
    using fits
    by (simp add: readPackInfo_def u64.bind b64.bind pbind_def [of ReadByte] pbind_def [of "pbind _ _"]
        pbind_def [of "readSizes _"] sizes pbind_def [of "preturn _"] preturn_def passert_def id_defs)
qed

lemma streams_buffered:
  assumes ok: "tables_ok files fos"
  shows "readStreamsInfo (r\<lparr>buf := writeStreamsInfo files fos @ idEnd # bs\<rparr>) =
     Inr (streams_of files fos, r\<lparr>buf := bs\<rparr>)"
proof -
  note b = tables_bounds [OF ok]
  let ?unpack = "writeUint64 (of_nat (length fos)) @ 0 # concat (map writeFolder fos) @
     idCodersUnpackSize # concat (map (\<lambda>fo. concat (map writeUint64 (folder_sizes fo))) fos) @
     idCRC # 1 # concat (map (\<lambda>fo. le_bytes 4 (fo_checksum fo)) fos)"
  define sub where "sub = (if multiple fos then
        idNumUnpackStream # concat (map (\<lambda>fo. writeUint64 (of_nat (length (fo_files fo)))) fos) @
        idSize # concat (map (\<lambda>fo. concat (map (\<lambda>i. writeUint64 (uncompressedSize (files ! i)))
                                              (butlast (fo_files fo)))) fos) @
        idCRC # 1 # substream_digests files fos
      else [])"
  have split: "writeStreamsInfo files fos @ idEnd # bs =
     idPackInfo # writeUint64 0 @ writeUint64 (of_nat (length fos)) @
     idSize # concat (map (\<lambda>fo. writeUint64 (packSize fo)) fos) @ idEnd #
     idUnpackInfo # idFolder # ?unpack @ idEnd # idSubStreamsInfo # sub @ idEnd # idEnd # bs"
    by (simp add: writeStreamsInfo_def sub_def substream_digests_def)
  note u = readUnpackInfo_write [OF b(5,2,1)]
  have s: "readSubStreamsInfo (unpack_of fos) (r\<lparr>buf := sub @ idEnd # cs\<rparr>) =
     Inr (substreams_of files fos, r\<lparr>buf := cs\<rparr>)" for cs
    unfolding sub_def by (rule readSubStreamsInfo_write [OF ok])
  have v: "validate (Some \<lparr>si_packInfo = Some \<lparr>position = 0, p_streams = of_nat (length fos),
                          p_size = map packSize fos, p_digest = []\<rparr>,
      si_unpackInfo = Some (unpack_of fos), si_subStreamsInfo = Some (substreams_of files fos)\<rparr>) = None"
    using validate_streams_of [OF ok] by (simp add: streams_of_def)
  show ?thesis
    unfolding split
    using b(1,2)
    by (simp add: readStreamsInfo_def Let_def pbind_def [of ReadByte] pbind_def [of "pbind _ _"]
        pbind_def [of readPackInfo] readPackInfo_write pbind_def [of readUnpackInfo] u
        pbind_def [of "readSubStreamsInfo _"] s pbind_def [of "preturn _"] preturn_def passert_def
        v streams_of_def)
qed

text \<open>
  C10. Streams tables survive being written and read: for every well-formed table of the writer (folders
  of one or more files, with or without encryption and executable filter, whose file sizes
  add up) the parser reads back exactly the folders, bind pairs, packed and unpacked sizes,
  substream counts, substream sizes and checksums the writer held, accepts them, and consumes exactly the
  bytes written, provided that the table lies in one fill of the reader's buffer (4096 bytes over the
  file, 64 KiB over a decoder): what is buffered, or the next fill when nothing is. A table
  that is cut by the end of a fill can be refused, see \<open>readCoder\<close>.
\<close>

theorem streams_roundtrip:
  assumes "tables_ok files fos" "0 < cap r"
    and "pending r = writeStreamsInfo files fos @ idEnd # bs"
    and "length (writeStreamsInfo files fos) < length (buf (filled r))"
  shows "\<exists>r'. readStreamsInfo r = Inr (streams_of files fos, r') \<and> pending r' = bs \<and> cap r' = cap r \<and> fin r' = fin r"
proof -
  have c: "pending r = (writeStreamsInfo files fos @ [idEnd]) @ bs" using assms(3) by simp
  obtain ds where ds: "filled r = (filled r)\<lparr>buf := (writeStreamsInfo files fos @ [idEnd]) @ ds\<rparr>"
    "bs = ds @ concat (chunks (filled r))"
    by (rule filled_split [OF c]) (use assms(4) in auto)
  have "readStreamsInfo (filled r) = Inr (streams_of files fos, (filled r)\<lparr>buf := ds\<rparr>)"
    using streams_buffered [OF assms(1), where r = "filled r" and bs = ds] ds(1) by simp
  moreover have "readStreamsInfo (filled r) = readStreamsInfo r"
    unfolding readStreamsInfo_def by (rule pbind_filled) (use assms(4) in auto)
  moreover have "pending ((filled r)\<lparr>buf := ds\<rparr>) = bs" using ds(2) by (simp add: pending_def)
  ultimately show ?thesis by simp
qed

text \<open>A solid archive of a directory \<open>d\<close> and two files \<open>a\<close> and \<open>b\<close>.\<close>

definition sample_file :: "byte \<Rightarrow> nat \<Rightarrow> bool \<Rightarrow> writerFile" where
  "sample_file nm n dir =
     \<lparr>wf_header = \<lparr>w_Name = [nm], w_Modified = Some 1700000000123456789, w_Attributes = 0x20, w_IsDir = dir\<rparr>,
      uncompressedSize = of_nat n, wf_checksum = of_nat (n + 1000), emptyStream = dir\<rparr>"

definition sample_files :: "writerFile list" where
  "sample_files = [sample_file 100 0 True, sample_file 97 3 False, sample_file 98 2 False]"

definition sample_folders :: "writerFolder list" where
  "sample_folders =
     [\<lparr>fo_files = [1, 2], fo_method = methodLZMA2, fo_properties = [24], filterMethod = methodBCJ,
       aesProperties = [], packSize = 9, compressedSize = 9, fo_uncompressedSize = 5, fo_checksum = 7\<rparr>]"

lemma sample_tables_ok: "tables_ok sample_files sample_folders"
  by (simp add: tables_ok_def sample_folders_def sample_files_def sizes_ok_def methods_ok_def
      methodLZMA2_def methodBCJ_def file_sizes_def sample_file_def limit_defs)

text \<open>The table and two more bytes, of which the last is behind the end of the first fill.\<close>

definition sample_source :: "byte list \<Rightarrow> reader" where
  "sample_source bs = \<lparr>buf = [], chunks = [bs, [9]], cap = 4096, fin = EOF\<rparr>"

lemma filled_sample: "length bs \<le> 4096 \<Longrightarrow> bs \<noteq> [] \<Longrightarrow> buf (filled (sample_source bs)) = bs"
  by (cases bs) (simp_all add: filled_def sample_source_def)

lemma sample_table_length: "length (writeStreamsInfo sample_files sample_folders) < 1000"
  by code_simp

theorem streams_roundtrip_witness:
  "\<exists>r'. readStreamsInfo (sample_source (writeStreamsInfo sample_files sample_folders @ [idEnd, 1])) =
     Inr (streams_of sample_files sample_folders, r') \<and> pending r' = [1, 9]"
proof -
  define bs where "bs = writeStreamsInfo sample_files sample_folders @ [idEnd, 1]"
  have "pending (sample_source bs) = writeStreamsInfo sample_files sample_folders @ idEnd # [1, 9]"
    by (simp add: sample_source_def pending_def bs_def)
  moreover have "buf (filled (sample_source bs)) = bs"
    by (rule filled_sample) (use sample_table_length in \<open>simp_all add: bs_def\<close>)
  ultimately show ?thesis
    using streams_roundtrip [OF sample_tables_ok, of "sample_source bs" "[1, 9]"]
    by (auto simp: bs_def sample_source_def)
qed

end
