(* ===== verification/Utf.thy ===== *)
theory Utf
  imports HeaderWrite
begin

text \<open>
  The names of a header between their forms: the archive stores UTF-16LE, the program works with UTF-8. \<open>utf8\<close> is the
  coding of a code point, which the decoder of \<open>writer.go\<close> (\<open>DecodeRune\<close>, \<open>runes\<close>) reads back. The
  decoder of the reader is \<open>golang.org/x/text\<close>; \<open>utf16_decoder\<close> is what its documentation promises, and
  \<open>utf16_to_utf8\<close> a decoder that has the property.
\<close>

section \<open>Code points\<close>

definition scalar :: "nat \<Rightarrow> bool" where
  "scalar r \<longleftrightarrow> r < 0xD800 \<or> (0xE000 \<le> r \<and> r \<le> 0x10FFFF)"

definition utf8 :: "nat \<Rightarrow> byte list" where
  "utf8 r =
     (if r < 0x80 then [of_nat r]
      else if r < 0x800 then [of_nat (0xC0 + r div 64), of_nat (0x80 + r mod 64)]
      else if r < 0x10000 then [of_nat (0xE0 + r div 4096), of_nat (0x80 + r div 64 mod 64), of_nat (0x80 + r mod 64)]
      else [of_nat (0xF0 + r div 262144), of_nat (0x80 + r div 4096 mod 64), of_nat (0x80 + r div 64 mod 64), of_nat (0x80 + r mod 64)])"

lemma unat_byte: "n < 256 \<Longrightarrow> unat (of_nat n :: byte) = n"
  by (rule unat_of_nat_small) simp

lemma low_bits:
  assumes "n < 2 ^ k" "2 ^ k dvd m" "m + n < 256"
  shows "unat (of_nat (m + n) AND mask k :: byte) = n"
proof -
  have "unat (of_nat (m + n) AND mask k :: byte) = take_bit k (unat (of_nat (m + n) :: byte))"
    unfolding take_bit_eq_mask [symmetric] unsigned_take_bit_eq ..
  also have "\<dots> = (m + n) mod 2 ^ k" unfolding unat_byte [OF assms(3)] by (rule take_bit_eq_mod)
  also have "\<dots> = n" using assms(1,2) by (auto elim!: dvdE)
  finally show ?thesis .
qed

lemma masks: "(0x3F :: byte) = mask 6" "(0x1F :: byte) = mask 5" "(0x0F :: byte) = mask 4" "(0x07 :: byte) = mask 3"
  by (simp_all add: mask_eq_exp_minus_1)

lemma cont_bits_of: "n < 64 \<Longrightarrow> cont_bits (of_nat (0x80 + n)) = n"
  unfolding cont_bits_def masks by (rule low_bits) simp_all

lemma unat_cont: "n < 64 \<Longrightarrow> unat (of_nat (0x80 + n) :: byte) = 0x80 + n"
  by (rule unat_byte) simp

lemma continuation_of: "n < 64 \<Longrightarrow> continuation (of_nat (0x80 + n))"
  unfolding continuation_def word_le_nat_alt unat_cont by simp

lemma DecodeRune_2:
  assumes "a < 32" "c < 64" "2 \<le> a"
  shows "DecodeRune (of_nat (0xC0 + a) # of_nat (0x80 + c) # rest) = (a * 64 + c, 2)"
proof -
  define b0 b1 :: byte where d0: "b0 = of_nat (0xC0 + a)" and d1: "b1 = of_nat (0x80 + c)"
  have u: "unat b0 = 0xC0 + a" "unat b1 = 0x80 + c" "cont_bits b1 = c"
    unfolding d0 d1 using assms by (simp_all only: unat_byte unat_cont cont_bits_of)
  have "unat (b0 AND 0x1F) = a" unfolding d0 d1 masks by (rule low_bits) (use assms in simp_all)
  then have "DecodeRune (b0 # b1 # rest) = (a * 64 + c, 2)"
    using assms u by (simp add: DecodeRune_def word_less_nat_alt word_unat_eq_iff)
  then show ?thesis by (simp only: d0 d1)
qed

lemma DecodeRune_3:
  assumes "a < 16" "c < 64" "d < 64" "a = 0 \<Longrightarrow> 32 \<le> c" "a = 13 \<Longrightarrow> c < 32"
  shows "DecodeRune (of_nat (0xE0 + a) # of_nat (0x80 + c) # of_nat (0x80 + d) # rest) = (a * 4096 + c * 64 + d, 3)"
proof -
  define b0 b1 b2 :: byte where d0: "b0 = of_nat (0xE0 + a)" and d1: "b1 = of_nat (0x80 + c)" and d2: "b2 = of_nat (0x80 + d)"
  have "unat (of_nat (0xE0 + a) :: byte) = 0xE0 + a" by (rule unat_byte) (use assms in simp)
  then have u: "unat b0 = 0xE0 + a" "unat b1 = 0x80 + c" "cont_bits b1 = c" "cont_bits b2 = d" "continuation b2"
    unfolding d0 d1 d2 using assms(2,3) by (simp_all only: unat_cont cont_bits_of continuation_of)
  have "unat (b0 AND 0x0F) = a" unfolding d0 d1 d2 masks by (rule low_bits) (use assms in simp_all)
  then have "DecodeRune (b0 # b1 # b2 # rest) = (a * 4096 + c * 64 + d, 3)"
    using assms u by (auto simp: DecodeRune_def word_less_nat_alt word_unat_eq_iff not_less not_le)
  then show ?thesis by (simp only: d0 d1 d2)
qed

lemma DecodeRune_4:
  assumes "a \<le> 4" "c < 64" "d < 64" "e < 64" "a = 0 \<Longrightarrow> 16 \<le> c" "a = 4 \<Longrightarrow> c < 16"
  shows "DecodeRune (of_nat (0xF0 + a) # of_nat (0x80 + c) # of_nat (0x80 + d) # of_nat (0x80 + e) # rest) =
    (a * 262144 + c * 4096 + d * 64 + e, 4)"
proof -
  define b0 b1 b2 b3 :: byte where d0: "b0 = of_nat (0xF0 + a)" and d1: "b1 = of_nat (0x80 + c)" and d2: "b2 = of_nat (0x80 + d)"
    and d3: "b3 = of_nat (0x80 + e)"
  have "unat (of_nat (0xF0 + a) :: byte) = 0xF0 + a" by (rule unat_byte) (use assms in simp)
  then have u: "unat b0 = 0xF0 + a" "unat b1 = 0x80 + c" "cont_bits b1 = c" "cont_bits b2 = d" "continuation b2"
    "cont_bits b3 = e" "continuation b3"
    unfolding d0 d1 d2 d3 using assms(2-4) by (simp_all only: unat_cont cont_bits_of continuation_of)
  have "unat (b0 AND 0x07) = a" unfolding d0 d1 d2 d3 masks by (rule low_bits) (use assms in simp_all)
  then have "DecodeRune (b0 # b1 # b2 # b3 # rest) = (a * 262144 + c * 4096 + d * 64 + e, 4)"
    using assms u by (auto simp: DecodeRune_def word_less_nat_alt word_unat_eq_iff not_less not_le)
  then show ?thesis by (simp only: d0 d1 d2 d3)
qed

lemma DecodeRune_utf8:
  assumes "scalar r"
  shows "DecodeRune (utf8 r @ rest) = (r, length (utf8 r))"
proof -
  consider "r < 0x80" | "0x80 \<le> r" "r < 0x800" | "0x800 \<le> r" "r < 0x10000" | "0x10000 \<le> r" by linarith
  then show ?thesis
  proof cases
    case 1
    then have "unat (of_nat r :: byte) = r" by (intro unat_byte) simp
    with 1 show ?thesis by (simp add: utf8_def DecodeRune_def word_less_nat_alt)
  next
    case 2
    then show ?thesis using DecodeRune_2 [of "r div 64" "r mod 64" rest] by (simp add: utf8_def)
  next
    case 3
    define q where "q = r div 64"
    define a where "a = q div 64"
    define c where "c = q mod 64"
    define d where "d = r mod 64"
    have eq: "r = q * 64 + d" "q = a * 64 + c" by (simp_all add: a_def c_def d_def q_def)
    have lt: "c < 64" "d < 64" by (simp_all add: c_def d_def)
    have e: "r div 4096 = a" "r div 64 mod 64 = c" "r mod 64 = d"
      by (simp_all add: a_def c_def d_def q_def div_mult2_eq [of r 64 64, simplified])
    have "a < 16" using 3 eq by linarith
    moreover have "a = 0 \<Longrightarrow> 32 \<le> c" using 3 eq lt by linarith
    moreover have "a = 13 \<Longrightarrow> c < 32" using assms eq lt by (auto simp: scalar_def)
    moreover have "a * 4096 + c * 64 + d = r" using eq by simp
    moreover have "utf8 r = [of_nat (0xE0 + a), of_nat (0x80 + c), of_nat (0x80 + d)]"
      using 3 by (simp add: utf8_def e)
    ultimately show ?thesis using DecodeRune_3 [of a c d rest] lt by simp
  next
    case 4
    then have r: "r \<le> 0x10FFFF" using assms by (simp add: scalar_def)
    define q where "q = r div 64"
    define p where "p = q div 64"
    define a where "a = p div 64"
    define b where "b = p mod 64"
    define c where "c = q mod 64"
    define d where "d = r mod 64"
    have eq: "r = q * 64 + d" "q = p * 64 + c" "p = a * 64 + b" by (simp_all add: a_def b_def c_def d_def q_def p_def)
    have lt: "b < 64" "c < 64" "d < 64" by (simp_all add: b_def c_def d_def)
    have e: "r div 262144 = a" "r div 4096 mod 64 = b" "r div 64 mod 64 = c" "r mod 64 = d"
      by (simp_all add: a_def b_def c_def d_def q_def p_def div_mult2_eq [of r 64 64, simplified]
          div_mult2_eq [of r 4096 64, simplified])
    have "a \<le> 4" using r eq by linarith
    moreover have "a = 0 \<Longrightarrow> 16 \<le> b" using 4 eq lt by linarith
    moreover have "a = 4 \<Longrightarrow> b < 16" using r eq lt by linarith
    moreover have "a * 262144 + b * 4096 + c * 64 + d = r" using eq by simp
    moreover have "utf8 r = [of_nat (0xF0 + a), of_nat (0x80 + b), of_nat (0x80 + c), of_nat (0x80 + d)]"
      using 4 by (simp add: utf8_def e)
    ultimately show ?thesis using DecodeRune_4 [of a b c d rest] lt by simp
  qed
qed

lemma utf8_nonempty: "0 < length (utf8 r)"
  by (simp add: utf8_def)

lemma runes_utf8: "\<forall>r \<in> set rs. scalar r \<Longrightarrow> runes (concat (map utf8 rs)) = rs"
proof (induction rs)
  case Nil
  then show ?case by (simp add: runes.simps [of "[]"])
next
  case (Cons r rs)
  have "utf8 r @ concat (map utf8 rs) \<noteq> []" "max 1 (length (utf8 r)) = length (utf8 r)"
    using utf8_nonempty [of r] by (auto simp: Suc_le_eq)
  then show ?case
    using Cons DecodeRune_utf8 [of r "concat (map utf8 rs)"]
    by (simp add: runes.simps [of "utf8 r @ _"])
qed

lemma utf8_no_null: "r \<noteq> 0 \<Longrightarrow> scalar r \<Longrightarrow> 0 \<notin> set (utf8 r)"
proof -
  assume r: "r \<noteq> 0" "scalar r"
  have "(of_nat n :: byte) \<noteq> 0" if "0 < n" "n < 256" for n
    using unat_byte [OF that(2)] that(1) by (metis less_irrefl unat_0)
  moreover have "r div 262144 < 16" using r(2) by (auto simp: scalar_def)
  moreover have "r < 0x800 \<Longrightarrow> r div 64 < 32" "r < 0x10000 \<Longrightarrow> r div 4096 < 16" by simp_all
  moreover have "n mod 64 < 64" for n :: nat by simp
  ultimately have nz: "r < 0x80 \<Longrightarrow> (of_nat r :: byte) \<noteq> 0" "\<And>n. (of_nat (0x80 + n mod 64) :: byte) \<noteq> 0"
    "r < 0x800 \<Longrightarrow> (of_nat (0xC0 + r div 64) :: byte) \<noteq> 0" "r < 0x10000 \<Longrightarrow> (of_nat (0xE0 + r div 4096) :: byte) \<noteq> 0"
    "(of_nat (0xF0 + r div 262144) :: byte) \<noteq> 0"
    using r(1) by (auto simp del: of_nat_add of_nat_numeral simp: add_less_mono)
  then show ?thesis unfolding utf8_def by (auto simp del: of_nat_add simp: eq_commute [of 0])
qed

section \<open>UTF-16\<close>

fun units :: "byte list \<Rightarrow> u16 list" where
  "units (a # b # bs) = le_word [a, b] # units bs"
| "units _ = []"

function of_units :: "u16 list \<Rightarrow> nat list" where
  "of_units [] = []"
| "of_units [u] = [if 0xD800 \<le> unat u \<and> unat u < 0xE000 then 0xFFFD else unat u]"
| "of_units (u # v # us) =
     (if 0xD800 \<le> unat u \<and> unat u < 0xDC00 \<and> 0xDC00 \<le> unat v \<and> unat v < 0xE000
      then (0x10000 + (unat u - 0xD800) * 1024 + (unat v - 0xDC00)) # of_units us
      else (if 0xD800 \<le> unat u \<and> unat u < 0xE000 then 0xFFFD else unat u) # of_units (v # us))"
  by pat_completeness auto
termination by (relation "measure length") auto

definition utf16_to_utf8 :: "byte list \<Rightarrow> byte list" where
  "utf16_to_utf8 bs = concat (map utf8 (of_units (units bs)))"

lemma units_le: "units (concat (map (le_bytes 2) us)) = us"
proof (induction us)
  case (Cons u us)
  have "le_bytes 2 u = [ucast u, ucast (drop_bit 8 u)]" by (simp add: numeral_2_eq_2)
  moreover have "le_word (le_bytes 2 u) = u" by simp
  ultimately show ?case using Cons by simp
qed simp

lemma of_units_Encode: "\<forall>r \<in> set rs. scalar r \<Longrightarrow> of_units (utf16_Encode rs) = rs"
proof (induction rs)
  case Nil
  then show ?case by (simp add: utf16_Encode_def)
next
  case (Cons r rs)
  then have r: "scalar r" and IH: "of_units (utf16_Encode rs) = rs" by simp_all
  have e: "utf16_Encode (r # rs) = utf16_units r @ utf16_Encode rs" by (simp add: utf16_Encode_def)
  have u: "unat (of_nat n :: u16) = n" if "n < 65536" for n by (rule unat_of_nat_small) (use that in simp)
  show ?case
  proof (cases "r < 0x10000")
    case True
    then have "utf16_units r = [of_nat r]" "\<not> (0xD800 \<le> r \<and> r < 0xE000)" "unat (of_nat r :: u16) = r"
      using r u by (auto simp: utf16_units_def scalar_def)
    then show ?thesis using e IH by (cases "utf16_Encode rs") (auto simp del: of_nat_numeral)
  next
    case False
    define h where "h = 0xD800 + (r - 0x10000) div 1024"
    define l where "l = 0xDC00 + (r - 0x10000) mod 1024"
    have le: "r - 0x10000 < 1048576" using r False by (simp add: scalar_def)
    then have h: "0xD800 \<le> h" "h < 0xDC00" "0xDC00 \<le> l" "l < 0xE000" by (simp_all add: h_def l_def div_less_iff_less_mult)
    have "utf16_units r = [of_nat h, of_nat l]"
      using False r by (simp add: utf16_units_def scalar_def h_def l_def)
    moreover have "unat (of_nat h :: u16) = h" "unat (of_nat l :: u16) = l" using h by (simp_all add: u)
    moreover have "0x10000 + (h - 0xD800) * 1024 + (l - 0xDC00) = r"
      using False by (simp add: h_def l_def div_mult_mod_eq [of "r - 0x10000" 1024] add.assoc)
    ultimately show ?thesis using e IH h by simp
  qed
qed

lemma utf16_to_utf8_Encode:
  "\<forall>r \<in> set rs. scalar r \<Longrightarrow> utf16_to_utf8 (concat (map (le_bytes 2) (utf16_Encode rs))) = concat (map utf8 rs)"
  by (simp add: utf16_to_utf8_def units_le of_units_Encode)

end
