(* ===== verification/FilesRoundtrip.thy ===== *)
theory FilesRoundtrip
  imports HeaderRoundtrip Utf
begin

text \<open>
  The whole header survives being written and parsed: the file table with its flags, names, times
  and attributes, and the assignment of streams to files. \<open>entry_of\<close> is what the reader is expected
  to report of a file of the writer.
\<close>

section \<open>Lists\<close>

lemma set_range_map: "set_range g (map a fs) (map b fs) = Inr (map (\<lambda>f. g (a f) (b f)) fs)"
  by (induction fs) auto

lemma set_empty_streams_map:
  "set_empty_streams (map p fs) (replicate (length fs) h) n =
     Inr (map (\<lambda>f. h\<lparr>isEmptyStream := p f\<rparr>) fs, n + of_nat (length (filter p fs)))"
  by (induction fs arbitrary: n) (auto simp: add.assoc)

lemma concat_nth:
  "m < length xss \<Longrightarrow> t < length (xss ! m) \<Longrightarrow>
     concat xss ! (sum_list (map length (take m xss)) + t) = xss ! m ! t"
proof (induction xss arbitrary: m)
  case (Cons xs xss)
  then show ?case by (cases m) (auto simp: nth_append add.assoc)
qed simp

section \<open>Names and times\<close>

lemma read_limited_buffered:
  "length bs = n \<Longrightarrow> read_limited n (r\<lparr>buf := bs @ cs\<rparr>) = Inr (bs, r\<lparr>buf := cs\<rparr>)"
proof (induction n arbitrary: bs rule: less_induct)
  case (less n)
  show ?case
  proof (cases "n = 0")
    case True
    with less show ?thesis by (simp add: read_limited.simps [of 0])
  next
    case False
    let ?m = "min 4096 n"
    have m: "0 < ?m" "?m \<le> n" using False by auto
    have read: "Read ?m (r\<lparr>buf := bs @ cs\<rparr>) = Inr (take ?m bs, r\<lparr>buf := drop ?m bs @ cs\<rparr>)"
      using m less.prems by (auto simp: Read_def)
    have "read_limited (n - ?m) (r\<lparr>buf := drop ?m bs @ cs\<rparr>) = Inr (drop ?m bs, r\<lparr>buf := cs\<rparr>)"
      by (rule less.IH) (use m less.prems in auto)
    moreover have "length (take ?m bs) = ?m" using m less.prems by simp
    ultimately show ?thesis
      using False read append_take_drop_id [of ?m bs] by (subst read_limited.simps) simp
  qed
qed

lemma split_null_name:
  "0 \<notin> set nm \<Longrightarrow> split_null acc (nm @ 0 # rest) = (rev acc @ nm) # split_null [] rest"
  by (induction nm arbitrary: acc) auto

lemma split_null_names:
  "\<forall>nm \<in> set names. 0 \<notin> set nm \<Longrightarrow> split_null [] (concat (map (\<lambda>nm. nm @ [0]) names)) = names"
  by (induction names) (auto simp: split_null_name)

text \<open>
  What the header relies on of the modules outside the repository: the decoder turns well-formed
  UTF-16LE into UTF-8, code point by code point, and a Windows file time counts 100 ns intervals since 1601.
\<close>

definition utf16_decoder :: "env \<Rightarrow> bool" where
  "utf16_decoder ev \<longleftrightarrow>
     (\<forall>rs. (\<forall>c \<in> set rs. scalar c) \<longrightarrow>
        utf16le_decode ev (concat (map (le_bytes 2) (utf16_Encode rs))) = concat (map utf8 rs))"

text \<open>A name is well-formed UTF-8 and holds no NUL.\<close>

definition name_of :: "nat list \<Rightarrow> byte list \<Rightarrow> bool" where
  "name_of rs name \<longleftrightarrow> (\<forall>c \<in> set rs. scalar c \<and> c \<noteq> 0) \<and> name = concat (map utf8 rs)"

definition valid_name :: "byte list \<Rightarrow> bool" where
  "valid_name name \<longleftrightarrow> (\<exists>rs. name_of rs name)"

lemma valid_name_no_null: "valid_name name \<Longrightarrow> 0 \<notin> set name"
  using utf8_no_null by (auto simp: valid_name_def name_of_def)

definition decodes_names :: "env \<Rightarrow> writerFile list \<Rightarrow> bool" where
  "decodes_names ev files \<longleftrightarrow>
     utf16le_decode ev (encoded_names files) = concat (map (\<lambda>f. w_Name (wf_header f) @ [0]) files)"

lemma decodes_valid_names:
  assumes "utf16_decoder ev" "\<forall>f \<in> set files. valid_name (w_Name (wf_header f))"
  shows "decodes_names ev files"
proof -
  obtain rs where rs: "\<forall>f \<in> set files. name_of (rs f) (w_Name (wf_header f))"
    using assms(2) unfolding valid_name_def by metis
  define all where "all = concat (map (\<lambda>f. rs f @ [0]) files)"
  have "encoded_names files = concat (map (le_bytes 2) (utf16_Encode all))"
    unfolding encoded_names_def all_def using rs
  proof (induction files)
    case (Cons f fs)
    then have "runes (w_Name (wf_header f)) = rs f" using runes_utf8 by (auto simp: name_of_def)
    moreover have "utf16_Encode (rs f @ 0 # x) = utf16_Encode (rs f) @ 0 # utf16_Encode x" for x
      by (simp add: utf16_Encode_def utf16_units_def)
    ultimately show ?case using Cons by (simp add: utf16le_def)
  qed (simp add: utf16_Encode_def)
  moreover have "\<forall>c \<in> set all. scalar c" using rs by (auto simp: all_def name_of_def scalar_def)
  moreover have "concat (map utf8 all) = concat (map (\<lambda>f. w_Name (wf_header f) @ [0]) files)"
    unfolding all_def using rs by (induction files) (auto simp: name_of_def utf8_def)
  ultimately show ?thesis using assms(1) by (simp add: utf16_decoder_def decodes_names_def)
qed

definition windows_time :: "env \<Rightarrow> bool" where
  "windows_time ev \<longleftrightarrow>
     (\<forall>ft. \<bar>(uint ft - 116444736000000000) * 100\<bar> < 2 ^ 63 \<longrightarrow>
        ft_nanoseconds ev ft = (uint ft - 116444736000000000) * 100)"

definition time_ok :: "int \<Rightarrow> bool" where
  "time_ok t \<longleftrightarrow> - 9000000000000000000 \<le> t \<and> t \<le> 9000000000000000000"

lemma filetime_value:
  assumes "time_ok t"
  shows "uint (filetime t) = t div 100 + 116444736000000000"
proof -
  define s where "s = t div 1000000000"
  define n where "n = t mod 1000000000"
  have t: "t = s * 1000000000 + n" "0 \<le> n" "n < 1000000000"
    by (simp_all add: s_def n_def)
  have s: "- 9000000000 \<le> s" "s \<le> 9000000000" using t assms unfolding time_ok_def by linarith+
  have sub: "0 \<le> n div 100" "n div 100 < 10000000" using t(2,3) by (auto intro: pos_imp_zdiv_nonneg_iff)
  have "uint (word_of_int ((s + 11644473600) * 10000000 + n div 100) :: u64) =
      (s + 11644473600) * 10000000 + n div 100"
    unfolding uint_word_of_int using s sub by (intro mod_pos_pos_trivial) auto
  moreover have "filetime t = word_of_int ((s + 11644473600) * 10000000 + n div 100)"
    by (simp add: filetime_def s_def n_def wi_hom_syms)
  moreover have "t div 100 = s * 10000000 + n div 100"
    using t(1) by (simp add: div_add1_eq)
  ultimately show ?thesis by simp
qed

lemma filetime_roundtrip:
  assumes "windows_time ev" "time_ok t"
  shows "ft_nanoseconds ev (filetime t) = t - t mod 100"
proof -
  have "(uint (filetime t) - 116444736000000000) * 100 = t - t mod 100"
    unfolding filetime_value [OF assms(2)] by (simp add: minus_mod_eq_div_mult)
  moreover have "\<bar>t - t mod 100\<bar> < 2 ^ 63"
    using assms(2) pos_mod_bound [of 100 t] pos_mod_sign [of 100 t] unfolding time_ok_def by auto
  ultimately show ?thesis using assms(1) by (simp add: windows_time_def)
qed

section \<open>The property loop\<close>

definition stored_flags :: "writerFile \<Rightarrow> fileHeader" where
  "stored_flags f = empty_header
     \<lparr>isEmptyStream := emptyStream f, isEmptyFile := emptyStream f \<and> \<not> w_IsDir (wf_header f)\<rparr>"

definition stored_name :: "writerFile \<Rightarrow> fileHeader" where
  "stored_name f = (stored_flags f)\<lparr>h_name := w_Name (wf_header f)\<rparr>"

definition stored_time :: "writerFile \<Rightarrow> fileHeader" where
  "stored_time f = (stored_name f)
     \<lparr>h_modified := map_option (\<lambda>t. t - t mod 100) (w_Modified (wf_header f))\<rparr>"

definition stored_header :: "writerFile \<Rightarrow> fileHeader" where
  "stored_header f = (stored_time f)\<lparr>h_attributes := w_Attributes (wf_header f)\<rparr>"

text \<open>What the reader reports of a file: directories and empty files carry no size and checksum.\<close>

definition entry_of :: "writerFile \<Rightarrow> fileHeader" where
  "entry_of f =
     (if emptyStream f then stored_header f
      else (stored_header f)\<lparr>h_size := uncompressedSize f, h_crc := wf_checksum f\<rparr>)"

lemma files_loop_step:
  assumes "property \<noteq> idEnd" "unat len \<le> MaxMetadataBytes"
    and "read_property ev n property len hs es (r\<lparr>buf := content @ rest\<rparr>) = Inr ((hs', es'), r\<lparr>buf := rest\<rparr>)"
  shows "files_loop ev n hs es (r\<lparr>buf := property # writeUint64 len @ content @ rest\<rparr>) =
     files_loop ev n hs' es' (r\<lparr>buf := rest\<rparr>)"
proof -
  have "\<not> len > of_nat MaxMetadataBytes"
    using assms(2) by (simp add: not_less word_le_nat_alt limit_defs)
  then show ?thesis
    using assms(1,3) by (subst files_loop.simps) (simp add: u64.bind passert_def)
qed

lemma property_step:
  assumes "property \<noteq> idEnd" "length content \<le> MaxMetadataBytes"
    and "read_property ev n property (of_nat (length content)) hs es (r\<lparr>buf := content @ rest\<rparr>) =
           Inr ((hs', es'), r\<lparr>buf := rest\<rparr>)"
  shows "files_loop ev n hs es (r\<lparr>buf := writeProperty property content @ rest\<rparr>) =
     files_loop ev n hs' es' (r\<lparr>buf := rest\<rparr>)"
proof -
  have "unat (of_nat (length content) :: u64) = length content"
    using assms(2) by (intro unat_of_nat_small) (simp add: limit_defs)
  with files_loop_step [OF assms(1) _ assms(3)] assms(2) show ?thesis
    by (simp add: writeProperty_def)
qed

lemma files_loop_end:
  "files_loop ev n hs es (r\<lparr>buf := idEnd # rest\<rparr>) = Inr (hs, r\<lparr>buf := rest\<rparr>)"
  by (subst files_loop.simps) simp

lemma vector_property:
  assumes "length ss = n" "0 < n" "n \<le> MaxMetadataItems"
  shows "readBool (of_nat n) (r\<lparr>buf := writeBoolVector ss @ bs\<rparr>) = Inr (ss, r\<lparr>buf := bs\<rparr>)"
  using bools.decode assms by auto

lemma vector_len: "n \<le> MaxMetadataItems \<Longrightarrow> unat (of_nat ((n + 7) div 8) :: u64) \<le> MaxMetadataBytes"
  by (simp add: limit_defs)

lemma set_empty_files_stored:
  "set_empty_files (map (\<lambda>f. \<not> w_IsDir (wf_header f)) (filter emptyStream files))
     (map (\<lambda>f. empty_header\<lparr>isEmptyStream := emptyStream f\<rparr>) files) = Inr (map stored_flags files)"
  by (induction files) (auto simp: stored_flags_def empty_header_def)

lemma empty_stage:
  assumes "0 < length files" "length files \<le> MaxMetadataItems"
  shows "\<exists>es. files_loop ev (of_nat (length files)) (replicate (length files) empty_header) 0
       (r\<lparr>buf := writeEmptyStreams files @ rest\<rparr>) =
     files_loop ev (of_nat (length files)) (map stored_flags files) es (r\<lparr>buf := rest\<rparr>)"
proof (cases "list_ex emptyStream files")
  case False
  then have "\<forall>f \<in> set files. stored_flags f = empty_header"
    by (auto simp: list_ex_iff stored_flags_def empty_header_def)
  then have "map stored_flags files = replicate (length files) empty_header"
    by (induction files) auto
  moreover have "writeEmptyStreams files = []" using False by (simp add: writeEmptyStreams_def)
  ultimately show ?thesis by auto
next
  case True
  let ?hs = "map (\<lambda>f. empty_header\<lparr>isEmptyStream := emptyStream f\<rparr>) files"
  let ?es = "of_nat (length (filter emptyStream files)) :: u64"
  let ?flags = "map (\<lambda>f. \<not> w_IsDir (wf_header f)) (filter emptyStream files)"
  let ?second = "if list_ex id ?flags
      then idEmptyFile # writeUint64 (of_nat ((length ?flags + 7) div 8)) @ writeBoolVector ?flags else []"
  have some: "0 < length ?flags"
    using True by (auto simp: list_ex_iff filter_empty_conv)
  have few: "length ?flags \<le> MaxMetadataItems"
    using le_trans [OF length_filter_le assms(2)] by simp
  have hs: "set_empty_streams (map emptyStream files) (replicate (length files) empty_header) 0 = Inr (?hs, ?es)"
    by (simp add: set_empty_streams_map)
  have first: "files_loop ev (of_nat (length files)) (replicate (length files) empty_header) 0
       (r\<lparr>buf := idEmptyStream # writeUint64 (of_nat ((length files + 7) div 8)) @
                 writeBoolVector (map emptyStream files) @ cs\<rparr>) =
     files_loop ev (of_nat (length files)) ?hs ?es (r\<lparr>buf := cs\<rparr>)" for cs
    by (rule files_loop_step)
       (use assms vector_len vector_property [of "map emptyStream files" "length files" cs r] in
        \<open>auto simp: id_defs read_property_def pbind_def preturn_def plift_def hs\<close>)
  have written: "writeEmptyStreams files @ rest =
     idEmptyStream # writeUint64 (of_nat ((length files + 7) div 8)) @
       writeBoolVector (map emptyStream files) @ ?second @ rest"
    using True by (simp add: writeEmptyStreams_def Let_def)
  show ?thesis
  proof (cases "list_ex id ?flags")
    case False
    then have "?hs = map stored_flags files"
      by (auto simp: list_ex_iff stored_flags_def empty_header_def)
    with first [of rest] written False show ?thesis by auto
  next
    case t: True
    have "files_loop ev (of_nat (length files)) ?hs ?es
       (r\<lparr>buf := idEmptyFile # writeUint64 (of_nat ((length ?flags + 7) div 8)) @
                 writeBoolVector ?flags @ rest\<rparr>) =
      files_loop ev (of_nat (length files)) (map stored_flags files) ?es (r\<lparr>buf := rest\<rparr>)"
      by (rule files_loop_step)
         (use few some vector_len [of "length ?flags"] vector_property [of ?flags "length ?flags" rest r]
            set_empty_files_stored [of files] in
          \<open>auto simp: id_defs read_property_def pbind_def preturn_def plift_def\<close>)
    with first [of "?second @ rest"] written t show ?thesis by auto
  qed
qed

lemma names_stage:
  assumes "0 < length files" "length files \<le> MaxMetadataItems"
    "length (encoded_names files) < MaxMetadataBytes" "decodes_names ev files"
    "\<forall>f \<in> set files. 0 \<notin> set (w_Name (wf_header f)) \<and> length (w_Name (wf_header f)) < 65536"
  shows "files_loop ev (of_nat (length files)) (map stored_flags files) es
       (r\<lparr>buf := writeNames files @ rest\<rparr>) =
     files_loop ev (of_nat (length files)) (map stored_name files) es (r\<lparr>buf := rest\<rparr>)"
proof -
  let ?enc = "encoded_names files"
  let ?len = "of_nat (Suc (length ?enc)) :: u64"
  have small: "Suc (length ?enc) \<le> MaxMetadataBytes" using assms(3) by simp
  then have len: "unat ?len = Suc (length ?enc)" by (intro unat_of_nat_small) (simp add: limit_defs)
  then have ok: "\<not> (?len < 1 \<or> ?len > of_nat MaxMetadataBytes)"
    using small by (simp add: word_less_nat_alt limit_defs)
  have pred: "unat (?len - 1) = length ?enc"
    using len by (subst unat_minus_one) auto
  have fits: "fits True (of_nat (length files))" "unat (of_nat (length files) :: u64) = length files"
    using assms(1,2) by (auto intro: fits_of_nat unat_of_nat_items)
  let ?names = "map (\<lambda>f. w_Name (wf_header f)) files"
  have "split_null [] (concat (map (\<lambda>nm. nm @ [0]) ?names)) = ?names"
    by (rule split_null_names) (use assms(5) in auto)
  moreover have "utf16le_decode ev ?enc = concat (map (\<lambda>nm. nm @ [0]) ?names)"
    using assms(4) by (simp add: decodes_names_def comp_def)
  ultimately have scan: "scan_names (utf16le_decode ev ?enc) = Inr ?names"
    using assms(5) by (auto simp: scan_names_def Let_def list_ex_iff)
  have read: "readNames ev (of_nat (length files)) ?len (r\<lparr>buf := (0 # ?enc) @ rest\<rparr>) =
      Inr (?names, r\<lparr>buf := rest\<rparr>)"
    using fits ok read_limited_buffered [OF refl, of ?enc rest r]
    by (simp add: readNames_def read_external_def pbind_def passert_def pred scan plift_def
        preturn_def del: of_nat_Suc)
  have "set_range (\<lambda>n h. h\<lparr>h_name := n\<rparr>) ?names (map stored_flags files) = Inr (map stored_name files)"
    unfolding set_range_map stored_name_def ..
  with read small len show ?thesis
    unfolding writeNames_def
    by (intro property_step) (auto simp: id_defs read_property_def pbind_def preturn_def plift_def)
qed

lemma bool_vector_length: "length (bool_vector_loop v m ss) \<le> Suc (length ss)"
  by (induction ss arbitrary: v m) (auto simp: Let_def le_SucI)

lemma times_stage:
  assumes "0 < length files" "length files \<le> MaxArchiveEntries" "windows_time ev"
    "\<forall>f \<in> set files. \<forall>t. w_Modified (wf_header f) = Some t \<longrightarrow> time_ok t"
  shows "files_loop ev (of_nat (length files)) (map stored_name files) es
       (r\<lparr>buf := writeModifiedTimes files @ rest\<rparr>) =
     files_loop ev (of_nat (length files)) (map stored_time files) es (r\<lparr>buf := rest\<rparr>)"
proof -
  let ?n = "length files"
  define times where "times = map (\<lambda>f. w_Modified (wf_header f)) files"
  define flags where "flags = map (\<lambda>t. t \<noteq> None) times"
  define content where "content = concat (map (\<lambda>t. case t of None \<Rightarrow> [] | Some t \<Rightarrow> le_bytes 8 (filetime t)) times)"
  define head where "head = (if list_all id flags then [1] else 0 # writeBoolVector flags)"
  have n: "?n \<le> MaxMetadataItems" using assms(2) by (simp add: limit_defs)
  then have fits: "fits True (of_nat ?n)" "unat (of_nat ?n :: u64) = ?n"
    using assms(1) by (auto intro: fits_of_nat unat_of_nat_items)
  have len: "length times = ?n" "length flags = ?n" by (simp_all add: times_def flags_def)
  show ?thesis
  proof (cases "list_ex id flags")
    case False
    then have "\<forall>f \<in> set files. stored_time f = stored_name f"
      by (auto simp: list_ex_iff flags_def times_def stored_time_def stored_name_def stored_flags_def
          empty_header_def)
    then have "map stored_time files = map stored_name files" by simp
    moreover have "writeModifiedTimes files = []"
      using False by (simp add: writeModifiedTimes_def Let_def flags_def times_def)
    ultimately show ?thesis by (simp only: append_Nil)
  next
    case True
    have flags_read: "readOptionalBool (of_nat ?n) (r\<lparr>buf := head @ cs\<rparr>) = Inr (flags, r\<lparr>buf := cs\<rparr>)" for cs
    proof (cases "list_all id flags")
      case True
      then have "flags = replicate ?n True"
        using len by (auto simp: list_all_iff intro: replicate_eqI)
      with True fits show ?thesis
        by (simp add: readOptionalBool_def head_def pbind_def preturn_def)
    next
      case False
      with fits show ?thesis
        using vector_property [of flags ?n cs r] assms(1) n len
        by (simp add: readOptionalBool_def head_def pbind_def)
    qed
    have ftimes: "map (map_option (\<lambda>t. ft_nanoseconds ev (filetime t))) times =
        map (map_option (\<lambda>t. t - t mod 100)) times"
    proof (intro map_cong refl option.map_cong)
      fix y t assume "y \<in> set times" "t \<in> set_option y"
      then have "time_ok t" using assms(4) by (auto simp: times_def)
      with assms(3) show "ft_nanoseconds ev (filetime t) = t - t mod 100" by (rule filetime_roundtrip)
    qed
    have opts: "read_defined (pbind (readLE 8) (\<lambda>ft. preturn (Some (ft_nanoseconds ev ft)))) None ?n flags
        (r\<lparr>buf := content @ rest\<rparr>) =
      Inr (map (map_option (\<lambda>t. t - t mod 100)) times, r\<lparr>buf := rest\<rparr>)"
    proof -
      have c: "content = concat (map (\<lambda>x. case x of None \<Rightarrow> [] | Some x \<Rightarrow> le_bytes 8 x) (map (map_option filetime) times))"
        unfolding content_def by (induction times) (auto split: option.splits)
      have f: "flags = map (\<lambda>x. x \<noteq> None) (map (map_option filetime) times)"
        unfolding flags_def by simp
      show ?thesis
        unfolding c f using le64.decode_options [of "map (map_option filetime) times" "ft_nanoseconds ev" rest r] len(1)
        by (simp add: option.map_comp comp_def ftimes cong: option.case_cong)
    qed
    have read: "readTimes ev (of_nat ?n) (r\<lparr>buf := (head @ 0 # content) @ rest\<rparr>) =
       Inr (map (map_option (\<lambda>t. t - t mod 100)) times, r\<lparr>buf := rest\<rparr>)"
      using fits flags_read [of "0 # content @ rest"] opts
      by (simp add: readTimes_def read_external_def pbind_def [of "readOptionalBool _"]
          pbind_def [of ReadByte] passert_def)
    have set: "set_range (\<lambda>t h. h\<lparr>h_modified := t\<rparr>) (map (map_option (\<lambda>t. t - t mod 100)) times)
        (map stored_name files) = Inr (map stored_time files)"
      using set_range_map [of "\<lambda>t h. h\<lparr>h_modified := t\<rparr>" "\<lambda>f. map_option (\<lambda>t. t - t mod 100) (w_Modified (wf_header f))" files stored_name]
      by (simp add: times_def comp_def stored_time_def)
    have "length content \<le> 8 * ?n"
      unfolding content_def len(1) [symmetric] by (induction times) (auto split: option.splits)
    moreover have "length head \<le> ?n + 2"
      using bool_vector_length [of 0 "0x80" flags] len(2) by (simp add: head_def writeBoolVector_def)
    ultimately have size: "length (head @ 0 # content) \<le> MaxMetadataBytes"
      using assms(2) by (simp add: limit_defs)
    have "writeModifiedTimes files = writeProperty idMTime (head @ 0 # content)"
      using True by (simp add: writeModifiedTimes_def Let_def head_def content_def flags_def times_def)
    then show ?thesis
      using size read set
      by (simp only: ) (intro property_step, auto simp: id_defs read_property_def pbind_def preturn_def plift_def)
  qed
qed

lemma attributes_stage:
  assumes "0 < length files" "length files \<le> MaxArchiveEntries"
  shows "files_loop ev (of_nat (length files)) (map stored_time files) es
       (r\<lparr>buf := writeAttributes files @ rest\<rparr>) =
     files_loop ev (of_nat (length files)) (map stored_header files) es (r\<lparr>buf := rest\<rparr>)"
proof -
  let ?n = "length files"
  let ?as = "map (\<lambda>f. w_Attributes (wf_header f)) files"
  let ?enc = "concat (map (\<lambda>f. le_bytes 4 (w_Attributes (wf_header f))) files)"
  have n: "?n \<le> MaxMetadataItems" using assms(2) by (simp add: limit_defs)
  then have fits: "fits True (of_nat ?n)" "unat (of_nat ?n :: u64) = ?n"
    using assms(1) by (auto intro: fits_of_nat unat_of_nat_items)
  have "?enc = concat (map (le_bytes 4) ?as)" by (simp add: comp_def)
  then have read: "readAttributes (of_nat ?n) (r\<lparr>buf := (1 # 0 # ?enc) @ rest\<rparr>) = Inr (?as, r\<lparr>buf := rest\<rparr>)"
    using fits le32.decode_defined [of ?as "replicate ?n True" 0 rest r]
    by (simp add: readAttributes_def readOptionalBool_def read_external_def pbind_def preturn_def passert_def)
  have set: "set_range (\<lambda>a h. h\<lparr>h_attributes := a\<rparr>) ?as (map stored_time files) = Inr (map stored_header files)"
    unfolding set_range_map stored_header_def ..
  have "length ?enc = 4 * ?n" by (induction files) auto
  then have "length (1 # 0 # ?enc) \<le> MaxMetadataBytes" using assms(2) by (simp add: limit_defs)
  with read set show ?thesis
    unfolding writeAttributes_def
    by (intro property_step) (auto simp: id_defs read_property_def pbind_def preturn_def plift_def)
qed

section \<open>The stream of each file\<close>

lemma find_stream_write:
  "acc \<le> j \<Longrightarrow> j < acc + sum_list ns \<Longrightarrow> acc + sum_list ns \<le> MaxArchiveEntries \<Longrightarrow>
     \<exists>m < length ns. find_stream (of_nat j) (of_nat acc) k (map of_nat ns) = Some (k + m, of_nat (ns ! m)) \<and>
       acc + sum_list (take m ns) \<le> j \<and> j < acc + sum_list (take m ns) + ns ! m"
proof (induction ns arbitrary: acc k)
  case Nil
  then show ?case by simp
next
  case (Cons n ns)
  have less: "(of_nat j :: u64) < of_nat acc + of_nat n \<longleftrightarrow> j < acc + n"
  proof -
    have "unat (of_nat j :: u64) = j" "unat (of_nat (acc + n) :: u64) = acc + n"
      using Cons.prems by (auto simp del: of_nat_add intro!: unat_of_nat_items simp: limit_defs)
    then show ?thesis by (simp add: word_less_nat_alt)
  qed
  show ?case
  proof (cases "j < acc + n")
    case True
    with less Cons.prems show ?thesis by (intro exI [of _ 0]) simp
  next
    case False
    with Cons.IH [of "acc + n" "Suc k"] Cons.prems obtain m where "m < length ns"
      "find_stream (of_nat j) (of_nat (acc + n)) (Suc k) (map of_nat ns) = Some (Suc k + m, of_nat (ns ! m))"
      "acc + n + sum_list (take m ns) \<le> j" "j < acc + n + sum_list (take m ns) + ns ! m"
      by auto
    with False less show ?thesis by (intro exI [of _ "Suc m"]) simp
  qed
qed

text \<open>A folder of one file has the size and the checksum of that file.\<close>

definition digest_ok :: "writerFile list \<Rightarrow> writerFolder \<Rightarrow> bool" where
  "digest_ok files fo \<longleftrightarrow>
     (length (fo_files fo) = 1 \<longrightarrow> fo_checksum fo = wf_checksum (files ! hd (fo_files fo)))"

lemma folder_digests_eq: "digest_ok files fo \<Longrightarrow> folder_digests files fo = file_checksums files fo"
  by (cases "fo_files fo") (auto simp: digest_ok_def folder_digests_def file_checksums_def)

lemma single_file_size:
  assumes "sizes_ok files fo" "fo_files fo = [i]"
  shows "uncompressedSize (files ! i) = fo_uncompressedSize fo"
  using assms by (simp add: sizes_ok_def file_sizes_def word_unat_eq_iff)

lemma FileFolderAndSize_write:
  assumes ok: "tables_ok files fos" and dig: "\<forall>fo \<in> set fos. digest_ok files fo"
    and j: "j < length (concat (map fo_files fos))"
  shows "\<exists>m. FileFolderAndSize (Some (streams_of files fos)) (int j) =
     Inr (m, uncompressedSize (files ! (concat (map fo_files fos) ! j)),
             wf_checksum (files ! (concat (map fo_files fos) ! j)))"
proof -
  note b = tables_bounds [OF ok]
  let ?ns = "map (\<lambda>fo. length (fo_files fo)) fos"
  let ?i = "concat (map fo_files fos) ! j"
  obtain m where m: "m < length fos"
    "find_stream (of_nat j) 0 0 (map of_nat ?ns) = Some (m, of_nat (?ns ! m))"
    "sum_list (take m ?ns) \<le> j" "j < sum_list (take m ?ns) + ?ns ! m"
    using find_stream_write [of 0 j ?ns 0] j b(4) unfolding counts_sum by auto
  define fo where "fo = fos ! m"
  define t where "t = j - sum_list (take m ?ns)"
  have fo: "fo \<in> set fos" "?ns ! m = length (fo_files fo)" using m(1) by (auto simp: fo_def)
  have t: "t < length (fo_files fo)" "j = sum_list (map length (take m (map fo_files fos))) + t"
    using m(3,4) fo(2) by (simp_all add: t_def take_map comp_def)
  have i: "?i = fo_files fo ! t"
    unfolding t(2) using concat_nth [of m "map fo_files fos" t] m(1) t(1) by (simp add: fo_def)
  have streams: "s_streams (substreams_of files fos) = map of_nat ?ns"
    by (simp add: substreams_of_def Let_def)
  have sizes: "concat (map (file_sizes files) fos) = map (\<lambda>i. uncompressedSize (files ! i)) (concat (map fo_files fos))"
    by (induction fos) (simp_all add: file_sizes_def)
  have crcs: "concat (map (folder_digests files) fos) = map (\<lambda>i. wf_checksum (files ! i)) (concat (map fo_files fos))"
    using dig by (induction fos) (simp_all add: folder_digests_eq file_checksums_def)
  have one: "(of_nat (length (fo_files fo)) :: u64) = 1 \<longleftrightarrow> length (fo_files fo) = 1"
    using b(3) fo(1) by (simp add: of_nat_eq_1)
  define ss where "ss = substreams_of files fos"
  have find: "find_stream (of_nat j) 0 0 (s_streams ss) = Some (m, of_nat (length (fo_files fo)))"
    using m(2) unfolding ss_def streams fo(2) .
  define size where "size = uncompressedSize (files ! ?i)"
  define crc where "crc = wf_checksum (files ! ?i)"
  have tables: "j < length (s_size ss) \<and> s_size ss ! j = size \<and>
      j < length (s_digest ss) \<and> s_digest ss ! j = crc \<and>
      j < length (s_digestDefined ss) \<and> s_digestDefined ss ! j" if "multiple fos"
    using that j by (simp add: ss_def substreams_of_def Let_def sizes crcs size_def crc_def)
  have none: "s_digest ss = []" if "\<not> multiple fos"
    using that by (simp add: ss_def substreams_of_def Let_def)
  have unpack: "u_folder (unpack_of fos) = map full_folder fos" "u_digest (unpack_of fos) = map fo_checksum fos"
    "u_digestDefined (unpack_of fos) = replicate (length fos) True"
    by (simp_all add: unpack_of_def)
  have si: "si_unpackInfo (streams_of files fos) = Some (unpack_of fos)"
    "si_subStreamsInfo (streams_of files fos) = Some ss"
    by (simp_all add: streams_of_def ss_def)
  have "FileFolderAndSize (Some (streams_of files fos)) (int j) = Inr (m, size, crc)"
  proof (cases "length (fo_files fo) = 1")
    case True
    then obtain k where k: "fo_files fo = [k]" by (cases "fo_files fo") auto
    with t(1) i have "?i = k" by simp
    then have "fo_uncompressedSize fo = size" "fo_checksum fo = crc"
      using single_file_size [of files fo k] b(6) fo(1) k dig
      by (auto simp: size_def crc_def digest_ok_def)
    then show ?thesis
      using m(1) find one True b(2) tables none
      by (cases "multiple fos")
         (auto simp: FileFolderAndSize_def si unpack fo_def [symmetric] unpackSize_full_folder)
  next
    case False
    then have "multiple fos" using fo(1) by (auto simp: multiple_def list_ex_iff)
    with tables show ?thesis
      using m(1) find one False
      by (auto simp: FileFolderAndSize_def si unpack fo_def [symmetric])
  qed
  then show ?thesis by (auto simp: size_def crc_def)
qed

lemma stored_flags_simps [simp]: "isEmptyStream (stored_header f) = emptyStream f"
  by (simp add: stored_header_def stored_time_def stored_name_def stored_flags_def empty_header_def)

lemma assign_streams_write:
  assumes "\<And>k. k < length idxs \<Longrightarrow>
     \<exists>m. FileFolderAndSize (Some si) (int (j + k)) =
        Inr (m, uncompressedSize (files ! (idxs ! k)), wf_checksum (files ! (idxs ! k)))"
    and "map ((!) files) idxs = filter (\<lambda>f. \<not> emptyStream f) fs"
  shows "assign_streams si j (map stored_header fs) = Inr (map entry_of fs, j + length idxs)"
  using assms
proof (induction fs arbitrary: j idxs)
  case Nil
  then show ?case by simp
next
  case (Cons f fs)
  show ?case
  proof (cases "emptyStream f")
    case True
    with Cons.prems(2) have "map ((!) files) idxs = filter (\<lambda>f. \<not> emptyStream f) fs" by simp
    with Cons.IH [OF Cons.prems(1)] True show ?thesis by (simp add: entry_of_def)
  next
    case False
    with Cons.prems(2) obtain i is' where i: "idxs = i # is'" "files ! i = f"
      "map ((!) files) is' = filter (\<lambda>f. \<not> emptyStream f) fs"
      by (cases idxs) auto
    from Cons.prems(1) [of 0] i obtain m where
      "FileFolderAndSize (Some si) (int j) = Inr (m, uncompressedSize f, wf_checksum f)" by auto
    moreover have "assign_streams si (Suc j) (map stored_header fs) = Inr (map entry_of fs, Suc j + length is')"
      using Cons.prems(1) [of "Suc k" for k] i by (intro Cons.IH) auto
    ultimately show ?thesis using False i by (simp add: entry_of_def)
  qed
qed

section \<open>Headers\<close>

definition archive_ok :: "env \<Rightarrow> writerFile list \<Rightarrow> writerFolder list \<Rightarrow> bool" where
  "archive_ok ev files fos \<longleftrightarrow>
     files \<noteq> [] \<and> length files \<le> MaxArchiveEntries \<and>
     (fos \<noteq> [] \<longrightarrow> tables_ok files fos) \<and> (\<forall>fo \<in> set fos. digest_ok files fo) \<and>
     concat (map fo_files fos) = filter (\<lambda>i. \<not> emptyStream (files ! i)) [0..<length files] \<and>
     utf16_decoder ev \<and> length (encoded_names files) < MaxMetadataBytes \<and>
     (\<forall>f \<in> set files. valid_name (w_Name (wf_header f)) \<and> length (w_Name (wf_header f)) < 65536) \<and>
     windows_time ev \<and> (\<forall>f \<in> set files. \<forall>t. w_Modified (wf_header f) = Some t \<longrightarrow> time_ok t)"

lemma readFilesInfo_write:
  assumes ok: "archive_ok ev files fos"
  shows "readFilesInfo ev (r\<lparr>buf := writeUint64 (of_nat (length files)) @
       writeEmptyStreams files @ writeNames files @ writeModifiedTimes files @
       writeAttributes files @ idEnd # bs\<rparr>) = Inr (map stored_header files, r\<lparr>buf := bs\<rparr>)"
proof -
  let ?n = "length files"
  have n: "0 < ?n" "?n \<le> MaxArchiveEntries" "?n \<le> MaxMetadataItems"
    using ok by (auto simp: archive_ok_def limit_defs)
  have fits: "fits True (of_nat ?n)" "unat (of_nat ?n :: u64) = ?n"
    using n by (auto intro: fits_of_nat unat_of_nat_items)
  have small: "\<not> (of_nat ?n :: u64) > of_nat MaxArchiveEntries"
    using n(2) fits(2) by (simp add: not_less word_le_nat_alt limit_defs)
  obtain es where es: "files_loop ev (of_nat ?n) (replicate ?n empty_header) 0
       (r\<lparr>buf := writeEmptyStreams files @ rest\<rparr>) =
     files_loop ev (of_nat ?n) (map stored_flags files) es (r\<lparr>buf := rest\<rparr>)"
    if "rest = writeNames files @ writeModifiedTimes files @ writeAttributes files @ idEnd # bs" for rest
    using empty_stage [OF n(1,3)] by metis
  have names: "files_loop ev (of_nat ?n) (map stored_flags files) es (r\<lparr>buf := writeNames files @ rest\<rparr>) =
     files_loop ev (of_nat ?n) (map stored_name files) es (r\<lparr>buf := rest\<rparr>)" for rest
    by (rule names_stage)
       (use ok n decodes_valid_names [of ev files] valid_name_no_null in \<open>auto simp: archive_ok_def\<close>)
  have times: "files_loop ev (of_nat ?n) (map stored_name files) es (r\<lparr>buf := writeModifiedTimes files @ rest\<rparr>) =
     files_loop ev (of_nat ?n) (map stored_time files) es (r\<lparr>buf := rest\<rparr>)" for rest
    by (rule times_stage) (use ok n in \<open>auto simp: archive_ok_def\<close>)
  show ?thesis
    using fits small es [OF refl]
    by (simp add: readFilesInfo_def b64.bind passert_def names times attributes_stage [OF n(1,2)]
        files_loop_end)
qed

lemma indices_of_streams:
  "map ((!) files) (filter (\<lambda>i. P (files ! i)) [0..<length files]) = filter P files"
proof -
  have "filter P (map ((!) files) [0..<length files]) = map ((!) files) (filter (P \<circ> (!) files) [0..<length files])"
    by (rule filter_map)
  then show ?thesis by (simp add: map_nth comp_def)
qed

lemma assign_streams_archive:
  assumes "archive_ok ev files fos" "fos \<noteq> []"
  shows "assign_streams (streams_of files fos) 0 (map stored_header files) =
     Inr (map entry_of files, length (concat (map fo_files fos)))"
proof -
  have ok: "tables_ok files fos" "\<forall>fo \<in> set fos. digest_ok files fo"
    "concat (map fo_files fos) = filter (\<lambda>i. \<not> emptyStream (files ! i)) [0..<length files]"
    using assms by (auto simp: archive_ok_def)
  have "assign_streams (streams_of files fos) 0 (map stored_header files) =
      Inr (map entry_of files, 0 + length (concat (map fo_files fos)))"
  proof (rule assign_streams_write [where files = files])
    fix k assume "k < length (concat (map fo_files fos))"
    with FileFolderAndSize_write [OF ok(1,2) this]
    show "\<exists>m. FileFolderAndSize (Some (streams_of files fos)) (int (0 + k)) =
        Inr (m, uncompressedSize (files ! (concat (map fo_files fos) ! k)),
                wf_checksum (files ! (concat (map fo_files fos) ! k)))" by simp
  next
    show "map ((!) files) (concat (map fo_files fos)) = filter (\<lambda>f. \<not> emptyStream f) files"
      unfolding ok(3) by (rule indices_of_streams)
  qed
  then show ?thesis by simp
qed

lemma stream_count_write:
  assumes "tables_ok files fos"
  shows "stream_count (streams_of files fos) = length (concat (map fo_files fos))"
proof -
  have "map (\<lambda>fo. unat (of_nat (length (fo_files fo)) :: u64)) fos = map (\<lambda>fo. length (fo_files fo)) fos"
    using tables_bounds(3) [OF assms] by (auto intro: unat_of_nat_items simp: limit_defs)
  then have "sum_list (map (\<lambda>fo. unat (of_nat (length (fo_files fo)) :: u64)) fos) =
      sum_list (map (\<lambda>fo. length (fo_files fo)) fos)"
    by (rule arg_cong)
  then show ?thesis
    unfolding counts_sum
    by (simp add: stream_count_def streams_of_def substreams_of_def Let_def comp_def)
qed

lemma header_buffered:
  assumes ok: "archive_ok ev files fos"
  shows "readEncodedHeader ev (r\<lparr>buf := nextHeader files fos @ bs\<rparr>) =
     Inr (\<lparr>streams_info = (if fos = [] then None else Some (streams_of files fos)),
           files_info = Some (map entry_of files)\<rparr>, r\<lparr>buf := bs\<rparr>)"
proof (cases "fos = []")
  case True
  have "files \<noteq> []" "filter (\<lambda>i. \<not> emptyStream (files ! i)) [0..<length files] = []"
    using ok True by (auto simp: archive_ok_def)
  then have "files \<noteq> [] \<and> filter (\<lambda>f. \<not> emptyStream f) files = []"
    using indices_of_streams [of files "\<lambda>f. \<not> emptyStream f"] by (metis list.map(1))
  then have "files \<noteq> []" "map entry_of files = map stored_header files"
    by (auto simp: filter_empty_conv entry_of_def)
  then show ?thesis
    using readFilesInfo_write [OF ok, of "idEnd # bs" r]
    by (simp add: True readEncodedHeader_def expectID_def nextHeader_def readHeader_def id_defs
        pbind_def [of ReadByte] passert_def pbind_def [of "preturn _"] pbind_def [of "pbind _ _"]
        pbind_def [of "readFilesInfo _"] preturn_def)
next
  case False
  have tables: "tables_ok files fos" using ok False by (simp add: archive_ok_def)
  have files: "files \<noteq> []" using ok by (simp add: archive_ok_def)
  note streams = streams_buffered [OF tables, unfolded idEnd_def]
  show ?thesis
    using False files readFilesInfo_write [OF ok, of "idEnd # bs" r] streams
      assign_streams_archive [OF ok False] stream_count_write [OF tables]
    by (simp add: readEncodedHeader_def expectID_def nextHeader_def readHeader_def id_defs
        pbind_def [of ReadByte] passert_def pbind_def [of "preturn _"] pbind_def [of "pbind _ _"]
        pbind_def [of readStreamsInfo] pbind_def [of "readFilesInfo _"] pbind_def [of "plift _"]
        plift_def preturn_def)
qed

text \<open>What follows the streams table in \<open>readHeader\<close> does not depend on the fills.\<close>

definition header_rest :: "env \<Rightarrow> streamsInfo option \<Rightarrow> byte \<Rightarrow> header parser" where
  "header_rest ev streams pid =
     pbind (if pid = idFilesInfo
            then pbind (readFilesInfo ev) (\<lambda>fs. pbind ReadByte (\<lambda>id. preturn (Some fs, id)))
            else preturn (None, pid)) (\<lambda>(files, id).
     passert (id = idEnd) UnexpectedID
       (case (streams, files) of
          (Some si, Some hs) \<Rightarrow>
            pbind (plift (assign_streams si 0 hs)) (\<lambda>(hs, j).
            passert (j = stream_count si) (Message ''file and stream counts do not match'')
              (preturn \<lparr>streams_info = Some si, files_info = Some hs\<rparr>))
        | _ \<Rightarrow> preturn \<lparr>streams_info = streams, files_info = files\<rparr>))"

lemma fill_header_rest: "fill_free (header_rest ev streams pid)"
  unfolding header_rest_def
  by (intro fill_intros)

lemma readHeader_rest:
  "readHeader ev =
     pbind ReadByte (\<lambda>id.
     passert (id \<noteq> idArchiveProperties) (Message ''TODO idArchiveProperties'')
    (passert (id \<noteq> idAdditionalStreamsInfo) (Message ''TODO idAdditionalStreamsInfo'')
    (pbind (if id = idMainStreamsInfo
            then pbind readStreamsInfo (\<lambda>s. pbind ReadByte (\<lambda>id. preturn (Some s, id)))
            else preturn (None, id)) (\<lambda>(streams, id). header_rest ev streams id))))"
  unfolding readHeader_def header_rest_def ..

lemma readEncodedHeader_plain:
  "ReadByte r = Inr (idHeader, r1) \<Longrightarrow> ReadByte r1 = Inr (idFilesInfo, r2) \<Longrightarrow>
     readEncodedHeader ev r = header_rest ev None idFilesInfo r2"
  by (simp add: readEncodedHeader_def expectID_def readHeader_rest passert_def id_defs)

lemma readEncodedHeader_streams:
  "ReadByte r = Inr (idHeader, r1) \<Longrightarrow> ReadByte r1 = Inr (idMainStreamsInfo, r2) \<Longrightarrow>
     readStreamsInfo r2 = Inr (si, r3) \<Longrightarrow>
     readEncodedHeader ev r = pbind ReadByte (header_rest ev (Some si)) r3"
  by (simp add: readEncodedHeader_def expectID_def readHeader_rest passert_def id_defs)
     (simp add: pbind_def preturn_def split: sum.split prod.split)

text \<open>
  C8. The header of an archive survives being written and read: for every archive the writer can
  describe (see \<open>archive_ok\<close>), parsing the header bytes gives back the streams table and, for every
  file in order, its name, modification time (to 100 ns), attributes, directory and empty-file
  flags, and the size and checksum of its own content, and consumes exactly the header. The names are
  well-formed UTF-8, and the decoder of names converts well-formed UTF-16. The streams table has to lie in the first fill of the
  reader's buffer; the file table may come in any fills.
\<close>

theorem header_roundtrip:
  assumes ok: "archive_ok ev files fos" and cap: "0 < cap r"
    and c: "pending r = nextHeader files fos @ bs"
    and fits: "fos \<noteq> [] \<Longrightarrow> length (writeStreamsInfo files fos) + 2 < length (buf (filled r))"
  shows "\<exists>r'. readEncodedHeader ev r =
      Inr (\<lparr>streams_info = (if fos = [] then None else Some (streams_of files fos)),
            files_info = Some (map entry_of files)\<rparr>, r') \<and> pending r' = bs"
proof -
  define h where "h = \<lparr>streams_info = (if fos = [] then None else Some (streams_of files fos)),
            files_info = Some (map entry_of files)\<rparr>"
  have files: "files \<noteq> []" using ok by (simp add: archive_ok_def)
  define joined where "joined bs = r\<lparr>chunks := [], buf := bs\<rparr>" for bs
  have joined: "pending (joined bs) = bs" "cap (joined bs) = cap r" "fin (joined bs) = fin r" for bs
    by (simp_all add: joined_def pending_def)
  have ref: "readEncodedHeader ev (joined (nextHeader files fos @ bs)) = Inr (h, joined bs)"
    using header_buffered [OF ok, where r = "r\<lparr>chunks := []\<rparr>" and bs = bs] by (simp add: joined_def h_def)
  have J: "ReadByte (joined (b # bs)) = Inr (b, joined bs)" for b bs by (simp add: joined_def ReadByte_def)
  show ?thesis unfolding h_def [symmetric]
  proof (cases "fos = []")
    case True
    then obtain t where t: "nextHeader files fos = idHeader # idFilesInfo # t"
      using files by (simp add: nextHeader_def)
    have c2: "pending r = idHeader # idFilesInfo # t @ bs" using c t by simp
    obtain r1 where r1: "ReadByte r = Inr (idHeader, r1)" "pending r1 = idFilesInfo # t @ bs" "cap r1 = cap r" "fin r1 = fin r"
      by (rule ReadByte_pending [OF cap c2])
    obtain r2 where r2: "ReadByte r1 = Inr (idFilesInfo, r2)" "pending r2 = t @ bs" "cap r2 = cap r1" "fin r2 = fin r1"
      by (rule ReadByte_pending [OF _ r1(2)]) (use cap r1(3) in simp)
    have e: "header_rest ev None idFilesInfo (joined (t @ bs)) = Inr (h, joined bs)"
      using ref readEncodedHeader_plain [OF J J] unfolding t by simp
    have "same_data (joined (t @ bs)) r2" using joined r1 r2 by (simp add: same_data_def)
    with fill_freeD [OF fill_header_rest _ this e] cap joined obtain r' where
      "header_rest ev None idFilesInfo r2 = Inr (h, r')" "same_data (joined bs) r'" by auto
    then show "\<exists>r'. readEncodedHeader ev r = Inr (h, r') \<and> pending r' = bs"
      using readEncodedHeader_plain [OF r1(1) r2(1)] joined by (simp add: same_data_def)
  next
    case False
    have tables: "tables_ok files fos" using ok False by (simp add: archive_ok_def)
    obtain t where t: "nextHeader files fos = [idHeader, idMainStreamsInfo] @ writeStreamsInfo files fos @ idEnd # t"
      using files False by (simp add: nextHeader_def)
    define pre where "pre = [idHeader, idMainStreamsInfo] @ writeStreamsInfo files fos @ [idEnd]"
    have c2: "pending r = pre @ t @ bs" using c t by (simp add: pre_def)
    obtain ds where ds: "filled r = (filled r)\<lparr>buf := pre @ ds\<rparr>" "t @ bs = ds @ concat (chunks (filled r))"
      by (rule filled_split [OF c2]) (use fits [OF False] in \<open>simp add: pre_def\<close>)
    define q where "q bs = (filled r)\<lparr>buf := bs\<rparr>" for bs
    have Q: "ReadByte (q (b # bs)) = Inr (b, q bs)" for b bs by (simp add: q_def ReadByte_def)
    have S: "readStreamsInfo (q (writeStreamsInfo files fos @ idEnd # ds)) = Inr (streams_of files fos, q ds)"
      unfolding q_def by (rule streams_buffered [OF tables])
    have SJ: "readStreamsInfo (joined (writeStreamsInfo files fos @ idEnd # t @ bs)) = Inr (streams_of files fos, joined (t @ bs))"
      using streams_buffered [OF tables, where r = "r\<lparr>chunks := []\<rparr>" and bs = "t @ bs"] by (simp add: joined_def)
    have "readEncodedHeader ev r = readEncodedHeader ev (filled r)"
      unfolding readEncodedHeader_def expectID_def
      by (rule pbind_filled [symmetric]) (use fits [OF False] in auto)
    also have "filled r = q (pre @ ds)" using ds(1) by (simp add: q_def)
    also have "readEncodedHeader ev (q (pre @ ds)) = pbind ReadByte (header_rest ev (Some (streams_of files fos))) (q ds)"
      unfolding pre_def by (rule readEncodedHeader_streams) (use Q S in simp_all)
    finally have r: "readEncodedHeader ev r = pbind ReadByte (header_rest ev (Some (streams_of files fos))) (q ds)" .
    have "readEncodedHeader ev (joined (nextHeader files fos @ bs)) =
        pbind ReadByte (header_rest ev (Some (streams_of files fos))) (joined (t @ bs))"
      unfolding t by (rule readEncodedHeader_streams) (use J SJ in simp_all)
    with ref have e: "pbind ReadByte (header_rest ev (Some (streams_of files fos))) (joined (t @ bs)) = Inr (h, joined bs)" by simp
    have "same_data (joined (t @ bs)) (q ds)" using joined ds(2) by (simp add: same_data_def q_def pending_def)
    with fill_freeD [OF fill_pbind [OF fill_ReadByte fill_header_rest] _ this e] cap joined obtain r' where
      "pbind ReadByte (header_rest ev (Some (streams_of files fos))) (q ds) = Inr (h, r')" "same_data (joined bs) r'" by auto
    then show "\<exists>r'. readEncodedHeader ev r = Inr (h, r') \<and> pending r' = bs"
      using r joined by (simp add: same_data_def)
  qed
qed

text \<open>The decoders of the sample are as documented; its header comes in a fill up to the end of the streams table and in single bytes.\<close>

definition sample_env :: env where
  "sample_env =
     \<lparr>ft_nanoseconds = (\<lambda>ft. (uint ft - 116444736000000000) * 100), utf16le_decode = utf16_to_utf8\<rparr>"

lemma ascii_name: "b < 0x80 \<Longrightarrow> b \<noteq> 0 \<Longrightarrow> valid_name [of_nat b]"
  unfolding valid_name_def name_of_def by (intro exI [of _ "[b]"]) (simp add: scalar_def utf8_def)

lemma ascii_runes: "b < 0x80 \<Longrightarrow> runes [b] = [unat b]"
  by (simp add: runes.simps [of "[b]"] runes.simps [of "[]"] DecodeRune_def)

lemma sample_archive_ok: "archive_ok sample_env sample_files sample_folders"
proof -
  have r: "runes [100] = [100]" "runes [97] = [97]" "runes [98] = [98]" by (simp_all add: ascii_runes)
  have le: "le_bytes 2 w = [ucast w, ucast (drop_bit 8 w)]" for w :: u16 by (simp add: numeral_2_eq_2)
  have names: "encoded_names sample_files = [100, 0, 0, 0, 97, 0, 0, 0, 98, 0, 0, 0]"
    by (simp add: encoded_names_def sample_files_def sample_file_def utf16le_def r le
        utf16_Encode_def utf16_units_def)
  have valid: "valid_name [100]" "valid_name [97]" "valid_name [98]"
    using ascii_name [of 100] ascii_name [of 97] ascii_name [of 98] by simp_all
  have "utf16_decoder sample_env" by (simp add: utf16_decoder_def sample_env_def utf16_to_utf8_Encode)
  then show ?thesis
    using sample_tables_ok names valid
    by (simp add: archive_ok_def sample_env_def windows_time_def time_ok_def
        digest_ok_def limit_defs sample_folders_def sample_files_def sample_file_def upt_rec)
qed

definition sample_header :: reader where
  "sample_header =
     (let bs = nextHeader sample_files sample_folders; n = length (writeStreamsInfo sample_files sample_folders) + 3 in
      \<lparr>buf = [], chunks = take n bs # map (\<lambda>b. [b]) (drop n bs), cap = 4096, fin = EOF\<rparr>)"

lemma sample_header_facts:
  "pending sample_header = nextHeader sample_files sample_folders @ []"
  "length (writeStreamsInfo sample_files sample_folders) + 2 < length (buf (filled sample_header))"
proof -
  define bs where "bs = nextHeader sample_files sample_folders"
  define n where "n = length (writeStreamsInfo sample_files sample_folders) + 3"
  have h: "sample_header = \<lparr>buf = [], chunks = take n bs # map (\<lambda>b. [b]) (drop n bs), cap = 4096, fin = EOF\<rparr>"
    by (simp add: sample_header_def bs_def n_def Let_def)
  show "pending sample_header = nextHeader sample_files sample_folders @ []"
    by (simp add: h pending_def bs_def [symmetric])
  have "n \<le> length bs"
    by (simp add: bs_def n_def nextHeader_def sample_folders_def [THEN arg_cong [where f = length]]
        sample_files_def [THEN arg_cong [where f = length]])
  then have l: "length (take n bs) = n" by simp
  moreover have n: "0 < n" "n < 4096" using sample_table_length by (simp_all add: n_def)
  ultimately obtain x xs where "take n bs = x # xs" by (cases "take n bs") auto
  then have "buf (filled sample_header) = take n bs" using l n by (simp add: h filled_def)
  then show "length (writeStreamsInfo sample_files sample_folders) + 2 < length (buf (filled sample_header))"
    using l by (simp add: n_def)
qed

theorem header_roundtrip_witness:
  "\<exists>r'. readEncodedHeader sample_env sample_header =
     Inr (\<lparr>streams_info = Some (streams_of sample_files sample_folders),
           files_info = Some (map entry_of sample_files)\<rparr>, r') \<and> pending r' = []"
proof -
  have "0 < cap sample_header" "sample_folders \<noteq> []" by (simp_all add: sample_header_def sample_folders_def Let_def)
  with header_roundtrip [OF sample_archive_ok _ sample_header_facts] show ?thesis by simp
qed

section \<open>Encoded headers\<close>

definition header_folder :: "u64 \<Rightarrow> u64 \<Rightarrow> u32 \<Rightarrow> byte list \<Rightarrow> byte list \<Rightarrow> writerFolder" where
  "header_folder packSz unpackSz checksum method props =
     \<lparr>fo_files = [0], fo_method = method, fo_properties = props, filterMethod = [], aesProperties = [],
      packSize = packSz, compressedSize = packSz, fo_uncompressedSize = unpackSz, fo_checksum = checksum\<rparr>"

text \<open>
  C11. The encoded header, which locates the packed header of an archive, survives being written and
  read: after its id byte the parser reads back one folder with the given coder, position, packed
  and unpacked size and checksum.
\<close>

theorem encoded_header_roundtrip:
  assumes "length method \<le> 15" "length props \<le> MaxMetadataItems" "unat unpackSz \<le> MaxTotalBytes"
  shows "readStreamsInfo (r\<lparr>buf := drop 1 (encodedHeader pos packSz unpackSz checksum method props) @ bs\<rparr>) =
     Inr (\<lparr>si_packInfo = Some \<lparr>position = pos, p_streams = 1, p_size = [packSz], p_digest = []\<rparr>,
           si_unpackInfo = Some (unpack_of [header_folder packSz unpackSz checksum method props]),
           si_subStreamsInfo = Some \<lparr>s_streams = [1], s_size = [], s_digest = [], s_digestDefined = []\<rparr>\<rparr>,
          r\<lparr>buf := bs\<rparr>)"
proof -
  define fo where "fo = header_folder packSz unpackSz checksum method props"
  have fo: "writeFolder fo = writeUint64 1 @ writeCoder method props" "folder_sizes fo = [unpackSz]"
    "fo_checksum fo = checksum" "methods_ok fo" "fo_uncompressedSize fo = unpackSz"
    using assms by (simp_all add: fo_def header_folder_def writeFolder_def folder_sizes_def methods_ok_def)
  have u: "readUnpackInfo (r\<lparr>buf := idFolder # writeUint64 1 @ 0 # writeUint64 1 @ writeCoder method props @
      idCodersUnpackSize # writeUint64 unpackSz @ idCRC # 1 # le_bytes 4 checksum @ idEnd # cs\<rparr>) =
      Inr (unpack_of [fo], r\<lparr>buf := cs\<rparr>)" for cs
    using readUnpackInfo_write [of "[fo]" cs r] fo by (simp add: limit_defs del: le_bytes.simps)
  have p: "readPackInfo (r\<lparr>buf := writeUint64 pos @ writeUint64 1 @ idSize # writeUint64 packSz @ idEnd # cs\<rparr>) =
      Inr (\<lparr>position = pos, p_streams = 1, p_size = [packSz], p_digest = []\<rparr>, r\<lparr>buf := cs\<rparr>)" for cs
    using fits_of_nat [of 1 True] u64.bind_list [of "[packSz]" 1]
    by (simp add: readPackInfo_def u64.bind b64.bind pbind_def [of ReadByte] pbind_def [of "pbind _ _"]
        readSizes_def pbind_def [of "prepeat _ _"] u64.decode preturn_def pbind_def [of "preturn _"]
        passert_def id_defs limit_defs)
  have folder: "u_folder (unpack_of [fo]) = [full_folder fo]" "u_digest (unpack_of [fo]) = [checksum]"
    "u_digestDefined (unpack_of [fo]) = [True]"
    by (simp_all add: unpack_of_def fo)
  have s: "readSubStreamsInfo (unpack_of [fo]) (r\<lparr>buf := idEnd # cs\<rparr>) =
      Inr (\<lparr>s_streams = [1], s_size = [], s_digest = [], s_digestDefined = []\<rparr>, r\<lparr>buf := cs\<rparr>)" for cs
    by (simp add: readSubStreamsInfo_def Let_def folder pbind_def [of ReadByte] pbind_def [of "preturn _"]
        preturn_def plift_def passert_def checkUint64_def limit_defs id_defs)
  have v: "validate (Some \<lparr>si_packInfo = Some \<lparr>position = pos, p_streams = 1, p_size = [packSz], p_digest = []\<rparr>,
           si_unpackInfo = Some (unpack_of [fo]),
           si_subStreamsInfo = Some \<lparr>s_streams = [1], s_size = [], s_digest = [], s_digestDefined = []\<rparr>\<rparr>) = None"
    using validate_folders_write [of "[fo]" 0] fo assms(3)
    by (simp add: validate_def folder validate_substreams_def limit_defs)
  show ?thesis
    unfolding fo_def [symmetric]
    by (simp add: encodedHeader_def readStreamsInfo_def Let_def pbind_def [of ReadByte] pbind_def [of "pbind _ _"]
        pbind_def [of readPackInfo] p pbind_def [of readUnpackInfo] u
        pbind_def [of "readSubStreamsInfo _"] s pbind_def [of "preturn _"] preturn_def passert_def v
        del: le_bytes.simps)
qed

theorem encoded_header_roundtrip_witness:
  "\<exists>si. readStreamsInfo (sample_streams\<lparr>buf := drop 1 (encodedHeader 32 10 20 99 methodDeflate []) @ []\<rparr>) =
     Inr (si, sample_streams\<lparr>buf := []\<rparr>)"
proof -
  have "length methodDeflate \<le> 15" "length ([] :: byte list) \<le> MaxMetadataItems" "unat (20 :: u64) \<le> MaxTotalBytes"
    by (simp_all add: methodDeflate_def limit_defs)
  from encoded_header_roundtrip [OF this, of 32 10 99 "[]" sample_streams] show ?thesis by blast
qed

end
