(* ===== verification/Bra.thy ===== *)
theory Bra
  imports Prelude
begin

text \<open>
  \<open>internal/sevenzip/internal/bra\<close>: the branch filters. The Go interface \<open>converter\<close> with its six
  implementations is the datatype \<open>converter\<close>; \<open>Convert\<close> returns the converter left behind and the
  converted prefix of the buffer (the Go code converts in place and returns the length of that
  prefix, the rest of the buffer being unchanged). Buffers are shorter than 4 GiB, so that an index
  kept in a \<open>uint32\<close> is a natural number.
\<close>

section \<open>Blocks\<close>

text \<open>The loops over the complete blocks of \<open>n\<close> bytes of a buffer.\<close>

function blocks :: "nat \<Rightarrow> ('s \<Rightarrow> byte list \<Rightarrow> 's \<times> byte list) \<Rightarrow> 's \<Rightarrow> byte list \<Rightarrow> 's \<times> byte list" where
  "blocks n step s b =
     (if n = 0 \<or> length b < n then (s, [])
      else let (s1, out) = step s (take n b); (s2, outs) = blocks n step s1 (drop n b) in (s2, out @ outs))"
  by pat_completeness auto
termination by (relation "measure (\<lambda>(n, _, _, b). length b)") auto

declare blocks.simps [simp del]

section \<open>ARM, ARM64, PowerPC and SPARC\<close>

text \<open>One iteration each; the state is the instruction pointer \<open>ip\<close>.\<close>

definition arm_step :: "bool \<Rightarrow> u32 \<Rightarrow> byte list \<Rightarrow> u32 \<times> byte list" where
  "arm_step encoding ip b =
     (let v = le_word b; ip = ip + 4;
          v = (if b ! 3 = 0xeb
               then ((if encoding then v + drop_bit 2 ip else v - drop_bit 2 ip) AND 0x00ffffff) OR 0xeb000000
               else v)
      in (ip, le_bytes 4 v))"

definition arm64_page :: "bool \<Rightarrow> u32 \<Rightarrow> u32 \<Rightarrow> u32" where
  "arm64_page encoding ip v =
     (let flag = push_bit 20 1; m = push_bit 24 1 - push_bit 1 flag; v1 = v + flag in
      if v1 AND m > 0 then v + 0x90000000
      else
        let z = (v1 AND 0xffffffe0) OR drop_bit 26 v1;
            page = drop_bit 9 ip AND NOT 7;
            z = (if encoding then z + page else z - page)
        in (v1 AND 0x1f) OR 0x90000000 OR push_bit 26 z OR
           (0x00ffffe0 AND ((z AND (push_bit 1 flag - 1)) - flag)))"

definition arm64_step :: "bool \<Rightarrow> u32 \<Rightarrow> byte list \<Rightarrow> u32 \<times> byte list" where
  "arm64_step encoding ip b =
     (let v = le_word b;
          v = (if (v - 0x94000000) AND 0xfc000000 = 0
               then ((if encoding then v + drop_bit 2 ip else v - drop_bit 2 ip) AND 0x03ffffff) OR 0x94000000
               else if (v - 0x90000000) AND 0x9f000000 = 0
               then arm64_page encoding ip (v - 0x90000000)
               else v)
      in (ip + 4, le_bytes 4 v))"

definition ppc_step :: "bool \<Rightarrow> u32 \<Rightarrow> byte list \<Rightarrow> u32 \<times> byte list" where
  "ppc_step encoding ip b =
     (let v = be_word b;
          v = (if b ! 0 AND 0xfc = 0x48 \<and> b ! 3 AND 3 = 1
               then ((if encoding then v + ip else v - ip) AND 0x03ffffff) OR 0x48000000
               else v)
      in (ip + 4, be_bytes 4 v))"

definition sparc_step :: "bool \<Rightarrow> u32 \<Rightarrow> byte list \<Rightarrow> u32 \<times> byte list" where
  "sparc_step encoding ip b =
     (let v = be_word b;
          v = (if b ! 0 = 0x40 \<and> b ! 1 AND 0xc0 = 0 \<or> b ! 0 = 0x7f \<and> b ! 1 \<ge> 0xc0
               then
                 let v = push_bit 2 v;
                     v = (if encoding then v + ip else v - ip) AND 0x01ffffff
                 in drop_bit 2 ((v - push_bit 24 1) XOR 0xff000000) OR 0x40000000
               else v)
      in (ip + 4, be_bytes 4 v))"

section \<open>IA-64\<close>

text \<open>One slot of a bundle, and the slots from \<open>slot\<close> on.\<close>

definition ia64_slot :: "bool \<Rightarrow> u32 \<Rightarrow> nat \<Rightarrow> byte list \<Rightarrow> byte list" where
  "ia64_slot encoding pc slot b =
     (let offset = slot * 5 - 4;
          t = (le_word (take 2 (drop offset b)) :: u16);
          z = drop_bit slot (le_word (take 4 (drop (offset + 1) b)) :: u32) in
      if drop_bit slot (ucast t :: u32) AND 0xe0 \<noteq> 0 \<or> (z - 0x0a000000) AND 0x1e000000 \<noteq> 0 then b
      else
        let v = z AND 0x011fffff;
            z = z XOR v;
            v = (if encoding then v + (pc AND 0x003fffff) else v - (pc OR NOT 0x003fffff));
            v = v AND NOT 0x00c00000;
            v = v + 0x00e00000;
            v = v AND 0x011fffff
        in copy_at b (offset + 1) (le_bytes 4 (push_bit slot (z OR v))))"

definition ia64_bundle :: "bool \<Rightarrow> u32 \<Rightarrow> byte list \<Rightarrow> u32 \<times> byte list" where
  "ia64_bundle encoding pc b =
     (let m = drop_bit (unat (b ! 0 AND 0x1e)) (0x334b0000 :: u32) AND 3; pc = pc + 2 in
      (pc, if m = 0 then b else fold (ia64_slot encoding pc) [unat m..<4] b))"

section \<open>x86\<close>

definition test86MSByte :: "byte \<Rightarrow> bool" where
  "test86MSByte b \<longleftrightarrow> (b + 1) AND 0xfe = 0"

text \<open>The inner loop: the next \<open>CALL\<close> or \<open>JMP\<close> opcode, or the last four bytes.\<close>

function bcj_scan :: "byte list \<Rightarrow> nat \<Rightarrow> nat" where
  "bcj_scan b p = (if p + 4 < length b \<and> b ! p AND 0xfe \<noteq> 0xe8 then bcj_scan b (p + 1) else p)"
  by pat_completeness auto
termination by (relation "measure (\<lambda>(b, p). length b - p)") auto

declare bcj_scan.simps [simp del]

lemma bcj_scan_ge: "p \<le> bcj_scan b p"
proof (induction b p rule: bcj_scan.induct)
  case (1 b p)
  then show ?case by (subst bcj_scan.simps) auto
qed

definition bcj_operand :: "bool \<Rightarrow> u32 \<Rightarrow> u32 \<Rightarrow> u32 \<Rightarrow> u32" where
  "bcj_operand encoding cur m v =
     (let v = (if encoding then v + cur else v - cur);
          sh = unat (push_bit 2 (m AND 6)) in
      if m \<noteq> 0 \<and> test86MSByte (ucast (drop_bit sh v))
      then let v = v XOR (push_bit sh 0x100 - 1) in if encoding then v + cur else v - cur
      else v)"

definition bcj_patch :: "bool \<Rightarrow> u32 \<Rightarrow> byte list \<Rightarrow> nat \<Rightarrow> u32 \<Rightarrow> byte list" where
  "bcj_patch encoding ip b p m =
     (let v = bcj_operand encoding (ip + 5 + of_nat p) m (le_word (take 4 (drop (p + 1) b)));
          b = copy_at b (p + 1) (le_bytes 4 v)
      in b[p + 4 := 0 - (b ! (p + 4) AND 1)])"

lemma length_bcj_patch [simp]: "p < length b \<Longrightarrow> length (bcj_patch enc ip b p m) = length b"
  by (simp add: bcj_patch_def Let_def)

text \<open>The result is the new \<open>state\<close>, the final \<open>pos\<close> and the buffer.\<close>

function bcj_loop :: "bool \<Rightarrow> u32 \<Rightarrow> byte list \<Rightarrow> nat \<Rightarrow> u32 \<Rightarrow> u32 \<times> nat \<times> byte list" where
  "bcj_loop encoding ip b pos m =
     (let p = bcj_scan b pos; d = p - pos; m = (if d > 2 then 0 else drop_bit d m) in
      if p + 4 \<ge> length b then (m, p, b)
      else if m \<noteq> 0 \<and> (m > 4 \<or> m = 3 \<or> test86MSByte (b ! (p + unat (drop_bit 1 m) + 1)))
      then bcj_loop encoding ip b (p + 1) (drop_bit 1 m OR 4)
      else if test86MSByte (b ! (p + 4))
      then bcj_loop encoding ip (bcj_patch encoding ip b p m) (p + 5) 0
      else bcj_loop encoding ip b (p + 1) (drop_bit 1 m OR 4))"
  by pat_completeness auto
termination
proof (relation "measure (\<lambda>(_, _, b, pos, _). length b - pos)", goal_cases)
  case (2 enc ip b pos m p d m') then show ?case using bcj_scan_ge [of pos b] by auto
next
  case (3 enc ip b pos m p d m') then show ?case using bcj_scan_ge [of pos b] by auto
next
  case (4 enc ip b pos m p d m') then show ?case using bcj_scan_ge [of pos b] by auto
qed simp

declare bcj_loop.simps [simp del]

section \<open>The converters\<close>

datatype converter = Arm u32 | Arm64 u32 | Ppc u32 | Sparc u32 | Ia64 u32 | Bcj u32 u32

fun Size :: "converter \<Rightarrow> nat" where
  "Size (Ia64 _) = 16"
| "Size (Bcj _ _) = 5"
| "Size _ = 4"

fun Convert :: "converter \<Rightarrow> bool \<Rightarrow> byte list \<Rightarrow> converter \<times> byte list" where
  "Convert (Arm ip) encoding b =
     (if length b < 4 then (Arm ip, [])
      else let (ip, out) = blocks 4 (arm_step encoding) (if ip = 0 then 4 else ip) b in (Arm ip, out))"
| "Convert (Arm64 ip) encoding b =
     (if length b < 4 then (Arm64 ip, [])
      else let (ip, out) = blocks 4 (arm64_step encoding) ip b in (Arm64 ip, out))"
| "Convert (Ppc ip) encoding b =
     (if length b < 4 then (Ppc ip, [])
      else let (ip, out) = blocks 4 (ppc_step encoding) ip b in (Ppc ip, out))"
| "Convert (Sparc ip) encoding b =
     (if length b < 4 then (Sparc ip, [])
      else let (ip, out) = blocks 4 (sparc_step encoding) ip b in (Sparc ip, out))"
| "Convert (Ia64 ip) encoding b =
     (if length b < 16 then (Ia64 ip, [])
      else let (_, out) = blocks 16 (ia64_bundle encoding) (drop_bit 3 (ip - 16)) b
           in (Ia64 (ip + of_nat (length out)), out))"
| "Convert (Bcj ip state) encoding b =
     (if length b < 5 then (Bcj ip state, [])
      else let (state, pos, b) = bcj_loop encoding ip b 0 (state AND 7)
           in (Bcj (ip + of_nat pos) state, take pos b))"

section \<open>The filtering reader and writer\<close>

text \<open>
  The reader's source is what it still delivers and the error it then reports; \<open>io.CopyN\<close> reads
  until it has its bytes or an error, so the pieces in which the data arrives do not matter.
\<close>

record source =
  src_data :: "byte list"
  src_err :: io_error

definition CopyN :: "source \<Rightarrow> int \<Rightarrow> byte list \<times> source \<times> io_error option" where
  "CopyN s n =
     (let k = nat n in
      (take k (src_data s), s\<lparr>src_data := drop k (src_data s)\<rparr>,
       if length (src_data s) < k then Some (src_err s) else None))"

datatype bra_error = AlreadyClosed | Buffering io_error | Reached io_error

record 'c bra_reader =
  br_src :: source
  br_open :: bool
  br_buf :: "byte list"
  br_n :: nat
  br_conv :: 'c

text \<open>The end of \<open>Read\<close>: convert what is buffered and hand out at most \<open>k\<close> converted bytes.\<close>

definition deliver ::
  "('c \<Rightarrow> byte list \<Rightarrow> 'c \<times> byte list) \<Rightarrow> nat \<Rightarrow> 'c bra_reader
     \<Rightarrow> 'c bra_reader \<times> byte list \<times> bra_error option" where
  "deliver conv k rc =
     (let n = br_n rc; (c, out) = conv (br_conv rc) (drop n (br_buf rc));
          buffer = take n (br_buf rc) @ out @ drop (n + length out) (br_buf rc);
          rc = rc\<lparr>br_conv := c, br_buf := buffer, br_n := n + length out\<rparr>;
          m = min (br_n rc) k in
      if buffer = [] then (rc, [], if m = 0 then None else Some (Reached EOF))
      else (rc\<lparr>br_buf := drop m buffer, br_n := br_n rc - m\<rparr>, take m buffer, None))"

text \<open>The result of \<open>Read(p)\<close> with \<open>len(p) = k\<close>: the new state, the bytes stored in \<open>p\<close>, the error.\<close>

definition bra_Read ::
  "('c \<Rightarrow> nat) \<Rightarrow> ('c \<Rightarrow> byte list \<Rightarrow> 'c \<times> byte list) \<Rightarrow> nat \<Rightarrow> 'c bra_reader
     \<Rightarrow> 'c bra_reader \<times> byte list \<times> bra_error option" where
  "bra_Read sz conv k rc =
     (if \<not> br_open rc then (rc, [], Some AlreadyClosed)
      else
        let (got, src, err) = CopyN (br_src rc) (int (max k (sz (br_conv rc))) - int (length (br_buf rc)));
            rc = rc\<lparr>br_src := src, br_buf := br_buf rc @ got\<rparr> in
        case err of
          Some e \<Rightarrow>
            if e \<noteq> EOF then (rc, [], Some (Buffering e))
            else
              let rc = (if length (br_buf rc) < sz (br_conv rc) then rc\<lparr>br_n := length (br_buf rc)\<rparr> else rc)
              in deliver conv k rc
        | None \<Rightarrow> deliver conv k rc)"

definition newReader :: "'c \<Rightarrow> source list \<Rightarrow> 'c bra_reader option" where
  "newReader conv readers =
     (case readers of
        [src] \<Rightarrow> Some \<lparr>br_src = src, br_open = True, br_buf = [], br_n = 0, br_conv = conv\<rparr>
      | _ \<Rightarrow> None)"

text \<open>
  The writer's destination is a state with a write operation, which tells how many bytes it took
  and the error it reports.
\<close>

type_synonym 'd sink_write = "'d \<Rightarrow> byte list \<Rightarrow> 'd \<times> nat \<times> io_error option"

function writeFull :: "'d sink_write \<Rightarrow> 'd \<Rightarrow> byte list \<Rightarrow> 'd \<times> io_error option" where
  "writeFull wr d p =
     (if p = [] then (d, None)
      else let (d, n, err) = wr d p in
        if err \<noteq> None then (d, err)
        else if n = 0 then (d, Some ShortWrite)
        else writeFull wr d (drop n p))"
  by pat_completeness auto
termination by (relation "measure (\<lambda>(_, _, p). length p)") auto

declare writeFull.simps [simp del]

record ('c, 'd) bra_writer =
  bw_dst :: 'd
  bw_conv :: 'c
  bw_buffer :: "byte list"
  bw_err :: "io_error option"
  bw_closed :: bool

definition fresh_writer :: "'d \<Rightarrow> 'c \<Rightarrow> ('c, 'd) bra_writer" where
  "fresh_writer d conv = \<lparr>bw_dst = d, bw_conv = conv, bw_buffer = [], bw_err = None, bw_closed = False\<rparr>"

text \<open>A destination that is \<open>nil\<close> is refused.\<close>

definition newWriter :: "'d option \<Rightarrow> 'c \<Rightarrow> ('c, 'd) bra_writer option" where
  "newWriter destination conv = map_option (\<lambda>d. fresh_writer d conv) destination"

definition bra_Write ::
  "('c \<Rightarrow> byte list \<Rightarrow> 'c \<times> byte list) \<Rightarrow> 'd sink_write \<Rightarrow> ('c, 'd) bra_writer \<Rightarrow> byte list
     \<Rightarrow> ('c, 'd) bra_writer \<times> nat \<times> bra_error option" where
  "bra_Write conv wr w p =
     (if bw_closed w then (w, 0, Some AlreadyClosed)
      else if bw_err w \<noteq> None then (w, 0, map_option Reached (bw_err w))
      else if p = [] then (w, 0, None)
      else
        let buffer = bw_buffer w @ p; (c, out) = conv (bw_conv w) buffer;
            w = w\<lparr>bw_conv := c, bw_buffer := out @ drop (length out) buffer\<rparr>;
            w = (if length out > 0
                 then let (d, err) = writeFull wr (bw_dst w) out
                      in w\<lparr>bw_dst := d, bw_err := err, bw_buffer := drop (length out) buffer\<rparr>
                 else w)
        in (w, length p, map_option Reached (bw_err w)))"

text \<open>\<open>Close\<close> up to the closing of the destination, which is outside the filter.\<close>

definition bra_Close :: "'d sink_write \<Rightarrow> ('c, 'd) bra_writer \<Rightarrow> ('c, 'd) bra_writer \<times> io_error option" where
  "bra_Close wr w =
     (if bw_closed w then (w, bw_err w)
      else
        let w = w\<lparr>bw_closed := True\<rparr>;
            w = (if bw_err w = None \<and> length (bw_buffer w) > 0
                 then let (d, err) = writeFull wr (bw_dst w) (bw_buffer w) in w\<lparr>bw_dst := d, bw_err := err\<rparr>
                 else w)
        in (w, bw_err w))"

end
