(* ===== verification/BraStream.thy ===== *)
theory BraStream
  imports Bra
begin

text \<open>
  The streaming contract of the branch filters. A \<open>stream_converter\<close> converts a prefix of its buffer
  and may be continued with what it left over; the reader and the writer of the package then produce
  the same bytes however the data is cut into pieces. The interpretation at the end discharges the
  contract for the six converters of the package.
\<close>

section \<open>The contract of a converter\<close>

locale stream_converter =
  fixes conv :: "'c \<Rightarrow> byte list \<Rightarrow> 'c \<times> byte list"
    and lookahead :: "'c \<Rightarrow> nat"
    and room :: "'c \<Rightarrow> nat \<Rightarrow> bool"
  assumes conv_bound: "conv c xs = (c', out) \<Longrightarrow> length out \<le> length xs"
    and conv_short: "length xs < lookahead c \<Longrightarrow> conv c xs = (c, [])"
    and conv_progress: "lookahead c \<le> length xs \<Longrightarrow> snd (conv c xs) \<noteq> []"
    and conv_append: "room c (length xs + length ys) \<Longrightarrow> conv c xs = (c1, out1) \<Longrightarrow>
          conv c (xs @ ys) =
            (let (c2, out2) = conv c1 (drop (length out1) xs @ ys) in (c2, out1 @ out2))"
    and conv_room: "room c n \<Longrightarrow> conv c xs = (c', out) \<Longrightarrow> length xs \<le> n \<Longrightarrow> room c' (n - length out)"
    and room_le: "room c n \<Longrightarrow> m \<le> n \<Longrightarrow> room c m"
    and lookahead_pos: "0 < lookahead c"
    and lookahead_same: "conv c xs = (c', out) \<Longrightarrow> lookahead c' = lookahead c"
begin

text \<open>The conversion of a whole stream: the unconverted rest is copied.\<close>

definition oneshot :: "'c \<Rightarrow> byte list \<Rightarrow> byte list" where
  "oneshot c xs = (let (_, out) = conv c xs in out @ drop (length out) xs)"

lemma oneshot_append:
  assumes "room c (length xs + length ys)" "conv c xs = (c1, out1)"
  shows "oneshot c (xs @ ys) = out1 @ oneshot c1 (drop (length out1) xs @ ys)"
  using conv_append [OF assms] conv_bound [OF assms(2)]
  by (auto simp: oneshot_def add.commute split: prod.splits)

lemma oneshot_short: "length xs < lookahead c \<Longrightarrow> oneshot c xs = xs"
  by (simp add: oneshot_def conv_short)

lemma length_oneshot [simp]: "length (oneshot c xs) = length xs"
  using conv_bound by (auto simp: oneshot_def split: prod.splits)

lemma oneshot_Nil [simp]: "oneshot c [] = []"
  using length_oneshot [of c "[]"] by (metis length_0_conv)

subsection \<open>The reader\<close>

text \<open>What a reader still has to deliver, and the invariant of its state.\<close>

definition pending :: "'c bra_reader \<Rightarrow> byte list" where
  "pending rc = take (br_n rc) (br_buf rc) @
     oneshot (br_conv rc) (drop (br_n rc) (br_buf rc) @ src_data (br_src rc))"

definition reader_ok :: "'c bra_reader \<Rightarrow> bool" where
  "reader_ok rc \<longleftrightarrow> br_open rc \<and> src_err (br_src rc) = EOF \<and> br_n rc \<le> length (br_buf rc) \<and>
     room (br_conv rc) (length (br_buf rc) - br_n rc + length (src_data (br_src rc)))"

lemma deliver_step:
  assumes ok: "reader_ok rc" and d: "deliver conv k rc = (rc', bs, err)"
    and progress: "br_buf rc = [] \<or> 0 < br_n rc \<or> lookahead (br_conv rc) \<le> length (br_buf rc)"
  shows "reader_ok rc' \<and> err = None \<and> pending rc = bs @ pending rc' \<and>
    lookahead (br_conv rc') = lookahead (br_conv rc) \<and> (0 < k \<and> br_buf rc \<noteq> [] \<longrightarrow> bs \<noteq> [])"
proof -
  let ?n = "br_n rc" and ?b = "br_buf rc" and ?s = "src_data (br_src rc)"
  obtain c out where c: "conv (br_conv rc) (drop ?n ?b) = (c, out)" by fastforce
  have n: "?n \<le> length ?b" using ok by (simp add: reader_ok_def)
  have room: "room (br_conv rc) (length (drop ?n ?b) + length ?s)"
    using ok unfolding reader_ok_def length_drop by blast
  have bound: "length out \<le> length (drop ?n ?b)" by (rule conv_bound [OF c])
  define buffer where "buffer = take ?n ?b @ out @ drop (?n + length out) ?b"
  define m where "m = min (?n + length out) k"
  have len: "length buffer = length ?b" using n bound by (simp add: buffer_def)
  have m: "m \<le> ?n + length out" "m \<le> length buffer" using bound n by (simp_all add: m_def len)
  have pend: "pending rc = buffer_part @ oneshot c (drop (?n + length out) ?b @ ?s)"
    if "buffer_part = take ?n ?b @ out" for buffer_part
    using oneshot_append [OF room c] that by (simp add: pending_def add.commute)
  have room': "room c (length (drop ?n ?b) + length ?s - length out)"
    by (rule conv_room [OF room c]) simp
  have look: "lookahead c = lookahead (br_conv rc)" by (rule lookahead_same [OF c])
  have call: "deliver conv k rc =
     (if buffer = []
      then (rc\<lparr>br_conv := c, br_buf := buffer, br_n := ?n + length out\<rparr>, [], if m = 0 then None else Some (Reached EOF))
      else (rc\<lparr>br_conv := c, br_buf := drop m buffer, br_n := ?n + length out - m\<rparr>, take m buffer, None))"
    by (simp only: deliver_def Let_def c prod.case buffer_def m_def) simp
  show ?thesis
  proof (cases "buffer = []")
    case True
    then have e: "?b = []" "out = []" "?n = 0" using len n bound by auto
    then have m0: "m = 0" by (simp add: m_def)
    with True d e have "rc' = rc\<lparr>br_conv := c, br_buf := [], br_n := 0\<rparr>" "bs = []" "err = None"
      by (auto simp: call)
    then show ?thesis
      using e ok room' look pend [of "[]"] by (simp add: reader_ok_def pending_def)
  next
    case False
    with d have r: "rc' = rc\<lparr>br_conv := c, br_buf := drop m buffer, br_n := ?n + length out - m\<rparr>"
      "bs = take m buffer" "err = None"
      by (auto simp: call)
    define N where "N = ?n + length out"
    have tk: "take N buffer = take ?n ?b @ out" "drop N buffer = drop N ?b"
      using n by (simp_all add: buffer_def N_def)
    have "take m buffer @ drop m (take N buffer) = take N buffer"
      using append_take_drop_id [of m "take N buffer"] m(1) by (simp add: N_def min_absorb1)
    moreover have "pending rc = take N buffer @ oneshot c (drop N buffer @ ?s)"
      using pend [of "take N buffer"] tk by (simp add: N_def)
    moreover have "pending rc' = drop m (take N buffer) @ oneshot c (drop N buffer @ ?s)"
      using m(1) by (simp add: pending_def r(1) N_def drop_take)
    ultimately have "pending rc = take m buffer @ pending rc'" by (metis append.assoc)
    moreover have "bs \<noteq> []" if "0 < k"
    proof -
      have "0 < ?n + length out"
      proof (cases "?n = 0")
        case True
        with False progress len have "lookahead (br_conv rc) \<le> length (drop ?n ?b)" by auto
        with conv_progress [OF this] c show ?thesis by auto
      qed simp
      with that False show ?thesis by (auto simp: r(2) m_def)
    qed
    moreover have "reader_ok rc'"
    proof -
      have "length (drop m buffer) - (N - m) + length ?s = length (drop ?n ?b) + length ?s - length out"
        using m(1) len n bound by (simp add: N_def)
      with room' ok m len n bound show ?thesis by (simp add: reader_ok_def r(1) N_def)
    qed
    ultimately show ?thesis using r look by simp
  qed
qed

lemma Read_step:
  assumes ok: "reader_ok rc" and r: "bra_Read lookahead conv k rc = (rc', bs, err)"
  shows "reader_ok rc' \<and> err = None \<and> pending rc = bs @ pending rc' \<and>
    (0 < k \<and> pending rc \<noteq> [] \<longrightarrow> bs \<noteq> [])"
proof -
  let ?need = "nat (int (max k (lookahead (br_conv rc))) - int (length (br_buf rc)))"
  let ?s = "src_data (br_src rc)"
  define rc1 where "rc1 = rc\<lparr>br_src := (br_src rc)\<lparr>src_data := drop ?need ?s\<rparr>,
     br_buf := br_buf rc @ take ?need ?s\<rparr>"
  have ok1: "reader_ok rc1" and pend1: "pending rc1 = pending rc" and look: "br_conv rc1 = br_conv rc"
    using ok by (auto simp: rc1_def reader_ok_def pending_def min_def algebra_simps)
  have len1: "length (br_buf rc1) \<ge> lookahead (br_conv rc)" if "\<not> length ?s < ?need"
    using that by (auto simp: rc1_def)
  have open_rc: "br_open rc" "src_err (br_src rc) = EOF" using ok by (simp_all add: reader_ok_def)
  define rc2 where "rc2 = (if length ?s < ?need \<and> length (br_buf rc1) < lookahead (br_conv rc1)
      then rc1\<lparr>br_n := length (br_buf rc1)\<rparr> else rc1)"
  have call: "bra_Read lookahead conv k rc = deliver conv k rc2"
    using open_rc by (auto simp: bra_Read_def CopyN_def rc2_def rc1_def Let_def)
  have flush: "src_data (br_src rc1) = []" if "length ?s < ?need"
    using that by (simp add: rc1_def)
  have short: "oneshot (br_conv rc1) (drop (br_n rc1) (br_buf rc1)) = drop (br_n rc1) (br_buf rc1)"
    if "length (br_buf rc1) < lookahead (br_conv rc1)"
    by (rule oneshot_short) (use that in simp)
  have ok2: "reader_ok rc2" and pend2: "pending rc2 = pending rc1" and look2: "br_conv rc2 = br_conv rc1"
  proof -
    show "br_conv rc2 = br_conv rc1" by (simp add: rc2_def)
    show "pending rc2 = pending rc1"
      using flush short by (auto simp: rc2_def pending_def)
    have zero: "room (br_conv rc1) 0"
      if "length ?s < ?need" "length (br_buf rc1) < lookahead (br_conv rc1)"
    proof -
      let ?l = "length (br_buf rc1) - br_n rc1"
      have "room (br_conv rc1) ?l" using ok1 flush [OF that(1)] by (simp add: reader_ok_def)
      then show ?thesis
        by (rule room_le) simp
    qed
    then show "reader_ok rc2"
      using ok1 flush by (auto simp: rc2_def reader_ok_def)
  qed
  have "br_buf rc2 = [] \<or> 0 < br_n rc2 \<or> lookahead (br_conv rc2) \<le> length (br_buf rc2)"
    using len1 look by (auto simp: rc2_def)
  note step = deliver_step [OF ok2 r [unfolded call] this]
  have "br_buf rc2 \<noteq> []" if "pending rc2 \<noteq> []"
  proof (cases "length ?s < ?need")
    case True
    then have "br_src rc2 = br_src rc1" "br_buf rc2 = br_buf rc1" by (simp_all add: rc2_def)
    with that flush [OF True] show ?thesis by (auto simp: pending_def)
  next
    case False
    with len1 lookahead_pos [of "br_conv rc"] show ?thesis by (auto simp: rc2_def)
  qed
  with step pend1 pend2 show ?thesis by simp
qed

text \<open>Successive calls of \<open>Read\<close> with buffers of the sizes \<open>ks\<close>.\<close>

fun reads :: "nat list \<Rightarrow> 'c bra_reader \<Rightarrow> byte list" where
  "reads [] rc = []"
| "reads (k # ks) rc = (let (rc', bs, _) = bra_Read lookahead conv k rc in bs @ reads ks rc')"

lemma reads_pending: "reader_ok rc \<Longrightarrow> \<exists>rest. pending rc = reads ks rc @ rest"
proof (induction ks arbitrary: rc)
  case (Cons k ks)
  obtain rc' bs err where r: "bra_Read lookahead conv k rc = (rc', bs, err)" by (metis surj_pair)
  from Read_step [OF Cons.prems r] Cons.IH [of rc'] r show ?case by auto
qed simp

lemma reads_all:
  "reader_ok rc \<Longrightarrow> \<forall>k \<in> set ks. 0 < k \<Longrightarrow> length (pending rc) \<le> length ks \<Longrightarrow> reads ks rc = pending rc"
proof (induction ks arbitrary: rc)
  case (Cons k ks)
  obtain rc' bs err where r: "bra_Read lookahead conv k rc = (rc', bs, err)" by (metis surj_pair)
  note step = Read_step [OF Cons.prems(1) r]
  have "length (pending rc') \<le> length ks"
  proof (cases "pending rc = []")
    case True
    with step show ?thesis by simp
  next
    case False
    with step Cons.prems(2) have "0 < length bs" "length (pending rc) = length bs + length (pending rc')"
      by auto
    with Cons.prems(3) show ?thesis unfolding list.size by linarith
  qed
  with Cons.IH [of rc'] step Cons.prems(2) r show ?case by simp
qed simp

lemma new_reader_ok:
  assumes "newReader c [\<lparr>src_data = xs, src_err = EOF\<rparr>] = Some rc" "room c (length xs)"
  shows "reader_ok rc" "pending rc = oneshot c xs"
  using assms by (auto simp: newReader_def reader_ok_def pending_def)

end

section \<open>The contract of a destination\<close>

locale sink =
  fixes wr :: "'d sink_write" and contents :: "'d \<Rightarrow> byte list"
  assumes takes: "p \<noteq> [] \<Longrightarrow> wr d p = (d', n, err) \<Longrightarrow>
      err = None \<and> 0 < n \<and> n \<le> length p \<and> contents d' = contents d @ take n p"
begin

lemma writeFull_contents:
  "\<exists>d'. writeFull wr d p = (d', None) \<and> contents d' = contents d @ p"
proof (induction "length p" arbitrary: d p rule: less_induct)
  case less
  show ?case
  proof (cases "p = []")
    case True
    then show ?thesis by (simp add: writeFull.simps [of wr d "[]"])
  next
    case False
    obtain d1 n err where w: "wr d p = (d1, n, err)" by (metis surj_pair)
    note t = takes [OF False w]
    with False have "length (drop n p) < length p" by simp
    from less [OF this] obtain d2 where "writeFull wr d1 (drop n p) = (d2, None)"
      "contents d2 = contents d1 @ drop n p" by blast
    with False w t show ?thesis by (subst writeFull.simps) simp
  qed
qed

end

text \<open>A \<open>bytes.Buffer\<close> takes everything.\<close>

definition buffer_Write :: "byte list sink_write" where
  "buffer_Write d p = (d @ p, length p, None)"

interpretation buffer: sink buffer_Write "\<lambda>d. d"
  by unfold_locales (auto simp: buffer_Write_def)

section \<open>The writer\<close>

locale branch_writer = stream_converter conv lookahead room + sink wr contents
  for conv :: "'c \<Rightarrow> byte list \<Rightarrow> 'c \<times> byte list" and lookahead room
    and wr :: "'d sink_write" and contents
begin

text \<open>A writer that has been given \<open>xs\<close> since its creation over \<open>d0\<close> with the converter \<open>c0\<close>.\<close>

definition written :: "'c \<Rightarrow> 'd \<Rightarrow> byte list \<Rightarrow> ('c, 'd) bra_writer \<Rightarrow> bool" where
  "written c0 d0 xs w \<longleftrightarrow>
     \<not> bw_closed w \<and> bw_err w = None \<and>
     (\<exists>out. conv c0 xs = (bw_conv w, out) \<and> contents (bw_dst w) = contents d0 @ out \<and>
            bw_buffer w = drop (length out) xs)"

lemma written_new: "written c0 d0 [] (fresh_writer d0 c0)"
  using conv_short [of "[]" c0] lookahead_pos by (simp add: written_def fresh_writer_def)

lemma written_Write:
  assumes w: "written c0 d0 xs w" and room: "room c0 (length xs + length p)"
  shows "\<exists>w'. bra_Write conv wr w p = (w', length p, None) \<and> written c0 d0 (xs @ p) w'"
proof -
  obtain out where o: "conv c0 xs = (bw_conv w, out)" "contents (bw_dst w) = contents d0 @ out"
    "bw_buffer w = drop (length out) xs" "\<not> bw_closed w" "bw_err w = None"
    using w by (auto simp: written_def)
  obtain c out' where c: "conv (bw_conv w) (drop (length out) xs @ p) = (c, out')" by fastforce
  have full: "conv c0 (xs @ p) = (c, out @ out')"
    using conv_append [OF room o(1)] by (simp add: c)
  have rest: "drop (length out') (drop (length out) xs @ p) = drop (length (out @ out')) (xs @ p)"
    using conv_bound [OF o(1)] by (simp add: add.commute)
  obtain d' where d': "writeFull wr (bw_dst w) out' = (d', None)" "contents d' = contents (bw_dst w) @ out'"
    using writeFull_contents by blast
  show ?thesis
  proof (cases "p = []")
    case True
    with w o show ?thesis by (simp add: bra_Write_def)
  next
    case False
    then show ?thesis
      using o c d' full rest by (auto simp: bra_Write_def Let_def written_def)
  qed
qed

fun writes :: "byte list list \<Rightarrow> ('c, 'd) bra_writer \<Rightarrow> ('c, 'd) bra_writer" where
  "writes [] w = w"
| "writes (p # ps) w = (let (w', _, _) = bra_Write conv wr w p in writes ps w')"

lemma written_writes:
  "written c0 d0 xs w \<Longrightarrow> room c0 (length xs + length (concat ps)) \<Longrightarrow>
     written c0 d0 (xs @ concat ps) (writes ps w)"
proof (induction ps arbitrary: xs w)
  case (Cons p ps)
  have "room c0 (length xs + length p)" by (rule room_le [OF Cons.prems(2)]) simp
  from written_Write [OF Cons.prems(1) this] obtain w' where
    w': "bra_Write conv wr w p = (w', length p, None)" "written c0 d0 (xs @ p) w'" by blast
  have "room c0 (length (xs @ p) + length (concat ps))" using Cons.prems(2) by (simp add: add.assoc)
  from Cons.IH [OF w'(2) this] w'(1) show ?case by simp
qed simp

lemma close_writes:
  assumes "room c0 (length (concat ps))"
  shows "\<exists>w. bra_Close wr (writes ps (fresh_writer d0 c0)) = (w, None) \<and>
     contents (bw_dst w) = contents d0 @ oneshot c0 (concat ps)"
proof -
  define w where "w = writes ps (fresh_writer d0 c0)"
  have "written c0 d0 (concat ps) w"
    using written_writes [OF written_new, of c0 ps d0] assms by (simp add: w_def)
  then obtain out where o: "conv c0 (concat ps) = (bw_conv w, out)"
    "contents (bw_dst w) = contents d0 @ out" "bw_buffer w = drop (length out) (concat ps)"
    "\<not> bw_closed w" "bw_err w = None"
    by (auto simp: written_def)
  obtain d' where "writeFull wr (bw_dst w) (bw_buffer w) = (d', None)"
    "contents d' = contents (bw_dst w) @ bw_buffer w"
    using writeFull_contents by blast
  with o show ?thesis
    by (auto simp: bra_Close_def Let_def w_def [symmetric] oneshot_def)
qed

end

end
