(* ===== verification/BraConvert.thy ===== *)
theory BraConvert
  imports BraStream
begin

text \<open>
  The six converters of \<open>internal/sevenzip/internal/bra\<close> keep the streaming contract: the loops over
  aligned blocks because they carry only the instruction pointer, the x86 loop because its mask and
  its position can be resumed. ARM restarts its pointer when it finds it zero, so its contract is
  limited to streams below 4 GiB.
\<close>

section \<open>Aligned blocks\<close>

lemma blocks_short: "length b < n \<Longrightarrow> blocks n step s b = (s, [])"
  by (simp add: blocks.simps)

lemma blocks_step:
  "0 < n \<Longrightarrow> n \<le> length b \<Longrightarrow>
     blocks n step s b =
       (let (s1, out) = step s (take n b); (s2, outs) = blocks n step s1 (drop n b) in (s2, out @ outs))"
  by (subst blocks.simps) simp

definition block_step :: "nat \<Rightarrow> (u32 \<Rightarrow> byte list \<Rightarrow> u32 \<times> byte list) \<Rightarrow> bool" where
  "block_step n step \<longleftrightarrow>
     0 < n \<and> (\<forall>s b. length b = n \<longrightarrow> fst (step s b) = s + of_nat n \<and> length (snd (step s b)) = n)"

lemma block_stepD:
  assumes "block_step n step" "n \<le> length b"
  obtains out where "step s (take n b) = (s + of_nat n, out)" "length out = n"
proof -
  have "length (take n b) = n" using assms(2) by simp
  with assms(1) have "fst (step s (take n b)) = s + of_nat n" "length (snd (step s (take n b))) = n"
    by (auto simp: block_step_def)
  then show ?thesis by (intro that [of "snd (step s (take n b))"]) (metis prod.collapse, simp)
qed

lemma blocks_result:
  assumes "block_step n step"
  shows "\<exists>out. blocks n step s b = (s + of_nat (length out), out) \<and> length out = length b div n * n"
proof (induction "length b" arbitrary: s b rule: less_induct)
  case less
  have n: "0 < n" using assms by (simp add: block_step_def)
  show ?case
  proof (cases "length b < n")
    case True
    then show ?thesis by (simp add: blocks_short)
  next
    case False
    obtain out where o: "step s (take n b) = (s + of_nat n, out)" "length out = n"
      using block_stepD [OF assms, of b s] False by auto
    have small: "length (drop n b) < length b" using False n by simp
    obtain outs where
      "blocks n step (s + of_nat n) (drop n b) = (s + of_nat n + of_nat (length outs), outs)"
      "length outs = (length b - n) div n * n"
      using less [OF small, of "s + of_nat n"] by (metis length_drop)
    moreover have "length b div n = Suc ((length b - n) div n)"
      using False n by (simp add: le_div_geq)
    ultimately show ?thesis
      using o False n by (simp add: blocks_step algebra_simps)
  qed
qed

lemma blocks_append:
  assumes "block_step n step"
  shows "blocks n step s xs = (s1, out1) \<Longrightarrow>
     blocks n step s (xs @ ys) =
       (let (s2, out2) = blocks n step s1 (drop (length out1) xs @ ys) in (s2, out1 @ out2))"
proof (induction "length xs" arbitrary: s xs s1 out1 rule: less_induct)
  case less
  have n: "0 < n" using assms by (simp add: block_step_def)
  show ?case
  proof (cases "length xs < n")
    case True
    with less.prems show ?thesis by (auto simp: blocks_short split: prod.splits)
  next
    case False
    obtain out where o: "step s (take n xs) = (s + of_nat n, out)" "length out = n"
      using block_stepD [OF assms, of xs s] False by auto
    obtain s2 outs where b: "blocks n step (s + of_nat n) (drop n xs) = (s2, outs)" by fastforce
    have r: "s1 = s2" "out1 = out @ outs"
      using less.prems o b False n by (auto simp: blocks_step)
    have small: "length (drop n xs) < length xs" using False n by simp
    have take_xs: "take n (xs @ ys) = take n xs" "drop n (xs @ ys) = drop n xs @ ys" using False by auto
    have "blocks n step s (xs @ ys) =
        (let (s3, out3) = blocks n step (s + of_nat n) (drop n xs @ ys) in (s3, out @ out3))"
      using False n by (subst blocks_step) (simp_all add: take_xs o)
    also have "\<dots> = (let (s3, out3) = blocks n step s2 (drop (length outs) (drop n xs) @ ys) in (s3, out @ outs @ out3))"
      using less.hyps [OF small b] by (simp split: prod.splits)
    finally show ?thesis by (simp add: r o(2) add.commute split: prod.splits)
  qed
qed

section \<open>Instances of the block loop\<close>

lemma arm_block: "block_step 4 (arm_step encoding)"
  by (simp add: block_step_def arm_step_def Let_def)

lemma arm64_block: "block_step 4 (arm64_step encoding)"
  by (simp add: block_step_def arm64_step_def Let_def)

lemma ppc_block: "block_step 4 (ppc_step encoding)"
  by (simp add: block_step_def ppc_step_def Let_def)

lemma sparc_block: "block_step 4 (sparc_step encoding)"
  by (simp add: block_step_def sparc_step_def Let_def)

lemma length_ia64_slot: "slot < 4 \<Longrightarrow> length b = 16 \<Longrightarrow> length (ia64_slot encoding pc slot b) = 16"
  by (auto simp: ia64_slot_def Let_def)

lemma length_ia64_slots:
  "\<forall>slot \<in> set slots. slot < 4 \<Longrightarrow> length b = 16 \<Longrightarrow> length (fold (ia64_slot encoding pc) slots b) = 16"
  by (induction slots arbitrary: b) (auto simp: length_ia64_slot)

text \<open>IA-64 keeps a bundle counter in its loop; only its low 22 bits reach the output.\<close>

lemma ia64_slot_low:
  assumes "take_bit 22 pc = take_bit 22 pc'"
  shows "ia64_slot encoding pc = ia64_slot encoding pc'"
proof -
  have m: "(0x003fffff :: u32) = mask 22" by (simp add: mask_eq_exp_minus_1)
  have "pc AND 0x003fffff = pc' AND 0x003fffff"
    using assms by (simp only: m take_bit_eq_mask)
  moreover have "x OR NOT (mask 22) = take_bit 22 x OR NOT (mask 22 :: u32)" for x :: u32
    by (rule bit_word_eqI) (auto simp: bit_simps)
  then have "pc OR NOT 0x003fffff = pc' OR NOT 0x003fffff"
    unfolding m using assms by metis
  ultimately show ?thesis by (intro ext) (simp only: ia64_slot_def)
qed

definition ia64_step :: "bool \<Rightarrow> u32 \<Rightarrow> byte list \<Rightarrow> u32 \<times> byte list" where
  "ia64_step encoding ip b = (ip + 16, snd (ia64_bundle encoding (drop_bit 3 (ip - 16)) b))"

lemma ia64_block: "block_step 16 (ia64_step encoding)"
  by (auto simp: block_step_def ia64_step_def ia64_bundle_def Let_def intro!: length_ia64_slots)

lemma unat_drop_bit: "unat (drop_bit n w) = drop_bit n (unat w)"
  by (simp add: unsigned_drop_bit_eq take_bit_nat_eq_self)

lemma bundle_counter: "take_bit 22 (drop_bit 3 (x + 16) :: u32) = take_bit 22 (drop_bit 3 x + 2)"
proof -
  have x16: "unat (x + 16) = take_bit 32 (unat x + 16)"
    by (simp add: unat_word_ariths take_bit_eq_mod)
  have d: "drop_bit 3 (unat x + 16) = unat x div 8 + 2" by (simp add: drop_bit_eq_div)
  have "unat (take_bit 22 (drop_bit 3 (x + 16))) = take_bit 22 (drop_bit 3 (take_bit 32 (unat x + 16)))"
    by (simp add: unsigned_take_bit_eq unsigned_drop_bit_eq x16)
  also have "\<dots> = take_bit 22 (unat x div 8 + 2)"
    by (simp add: drop_bit_take_bit d)
  finally have l: "unat (take_bit 22 (drop_bit 3 (x + 16))) = take_bit 22 (unat x div 8 + 2)" .
  have "unat (drop_bit 3 x) = unat x div 8"
    unfolding unat_drop_bit by (simp add: drop_bit_eq_div)
  then have "unat (drop_bit 3 x + 2) = take_bit 32 (unat x div 8 + 2)"
    by (simp only: unat_word_ariths take_bit_eq_mod) simp
  then have "unat (take_bit 22 (drop_bit 3 x + 2)) = take_bit 22 (unat x div 8 + 2)"
    by (simp add: unsigned_take_bit_eq)
  with l show ?thesis by (simp add: word_unat_eq_iff)
qed

lemma take_bit_add_cong:
  fixes a b c :: u32
  assumes "take_bit n a = take_bit n b" "n \<le> 32"
  shows "take_bit n (a + c) = take_bit n (b + c)"
proof -
  have sum: "unat (take_bit n (x + c)) = take_bit n (take_bit n (unat x) + take_bit n (unat c))" for x
  proof -
    have "unat (x + c) = take_bit 32 (unat x + unat c)"
      by (simp only: unat_word_ariths take_bit_eq_mod) simp
    then show ?thesis
      using assms(2) by (simp add: unsigned_take_bit_eq take_bit_take_bit take_bit_add min_def)
  qed
  have "take_bit n (unat a) = take_bit n (unat b)"
    using arg_cong [OF assms(1), of unat] by (simp add: unsigned_take_bit_eq)
  with sum [of a] sum [of b] show ?thesis by (simp add: word_unat_eq_iff)
qed

lemma blocks_snd:
  assumes "0 < n" "n \<le> length b"
  shows "snd (blocks n step s b) =
     snd (step s (take n b)) @ snd (blocks n step (fst (step s (take n b))) (drop n b))"
  by (simp add: blocks_step [OF assms] split: prod.splits)

lemma ia64_blocks:
  "take_bit 22 pc = take_bit 22 (drop_bit 3 (ip - 16)) \<Longrightarrow>
     snd (blocks 16 (ia64_bundle encoding) pc b) = snd (blocks 16 (ia64_step encoding) ip b)"
proof (induction "length b" arbitrary: pc ip b rule: less_induct)
  case less
  show ?case
  proof (cases "length b < 16")
    case True
    then show ?thesis by (simp add: blocks_short)
  next
    case False
    have next_low: "take_bit 22 (pc + 2) = take_bit 22 (drop_bit 3 (ip - 16) + 2)"
      using less.prems by (rule take_bit_add_cong) simp
    then have "take_bit 22 (pc + 2) = take_bit 22 (drop_bit 3 (ip + 16 - 16))"
      using bundle_counter [of "ip - 16"] by simp
    moreover have "length (drop 16 b) < length b" using False by simp
    ultimately have IH: "snd (blocks 16 (ia64_bundle encoding) (pc + 2) (drop 16 b)) =
        snd (blocks 16 (ia64_step encoding) (ip + 16) (drop 16 b))"
      using less.hyps by blast
    have "fst (ia64_bundle encoding pc (take 16 b)) = pc + 2" "fst (ia64_step encoding ip (take 16 b)) = ip + 16"
      by (simp_all add: ia64_bundle_def ia64_step_def Let_def)
    moreover have "snd (ia64_bundle encoding pc (take 16 b)) = snd (ia64_step encoding ip (take 16 b))"
      using ia64_slot_low [OF next_low, of encoding] by (simp add: ia64_bundle_def ia64_step_def Let_def)
    moreover have "16 \<le> length b" using False by simp
    ultimately show ?thesis using IH by (simp add: blocks_snd)
  qed
qed

lemma Convert_Ia64:
  "Convert (Ia64 ip) encoding b =
     (if length b < 16 then (Ia64 ip, [])
      else let (ip', out) = blocks 16 (ia64_step encoding) ip b in (Ia64 ip', out))"
proof -
  obtain out where o: "blocks 16 (ia64_step encoding) ip b = (ip + of_nat (length out), out)"
    using blocks_result [OF ia64_block] by metis
  have "snd (blocks 16 (ia64_bundle encoding) (drop_bit 3 (ip - 16)) b) = out"
    using ia64_blocks [OF refl, of encoding ip b] o by simp
  with o show ?thesis by (auto split: prod.splits)
qed

declare Convert.simps(5) [simp del]

section \<open>x86\<close>

text \<open>One iteration of the loop at a position without an opcode to skip.\<close>

lemma bcj_scan_at:
  "bcj_scan b p + 4 \<ge> length b \<or> b ! bcj_scan b p AND 0xfe = 0xe8"
proof (induction b p rule: bcj_scan.induct)
  case (1 b p)
  then show ?case by (subst (1 2) bcj_scan.simps) auto
qed

lemma bcj_scan_idem: "bcj_scan b (bcj_scan b p) = bcj_scan b p"
  using bcj_scan_at [of b p] by (subst bcj_scan.simps) auto

lemma bcj_scan_append:
  assumes "p \<le> length xs"
  shows "bcj_scan (xs @ ys) p = (if bcj_scan xs p + 4 < length xs then bcj_scan xs p
     else bcj_scan (xs @ ys) (bcj_scan xs p))"
  using assms
proof (induction xs p rule: bcj_scan.induct)
  case (1 xs p)
  show ?case
  proof (cases "p + 4 < length xs \<and> xs ! p AND 0xfe \<noteq> 0xe8")
    case True
    then have "bcj_scan xs p = bcj_scan xs (p + 1)" "bcj_scan (xs @ ys) p = bcj_scan (xs @ ys) (p + 1)"
      by (subst bcj_scan.simps; simp add: nth_append)+
    with 1 True show ?thesis by simp
  next
    case False
    then have "bcj_scan xs p = p" by (subst bcj_scan.simps) auto
    moreover have "bcj_scan (xs @ ys) p = p" if "p + 4 < length xs"
      using that False by (subst bcj_scan.simps) (auto simp: nth_append)
    ultimately show ?thesis by simp
  qed
qed

lemma bcj_scan_shift: "bcj_scan (us @ b) (length us + p) = length us + bcj_scan b p"
proof (induction b p rule: bcj_scan.induct)
  case (1 b p)
  then show ?case by (subst (1 2) bcj_scan.simps) (auto simp: nth_append)
qed

lemma bcj_scan_le: "p \<le> length b \<Longrightarrow> bcj_scan b p \<le> length b"
proof (induction b p rule: bcj_scan.induct)
  case (1 b p)
  then show ?case by (subst bcj_scan.simps) auto
qed

definition skip_mask :: "nat \<Rightarrow> u32 \<Rightarrow> u32" where
  "skip_mask d m = (if d > 2 then 0 else drop_bit d m)"

lemma small_mask_bit: "(m :: u32) < 8 \<longleftrightarrow> (\<forall>i \<ge> 3. \<not> bit m i)"
proof
  assume "m < 8"
  then have "unat m < 2 ^ 3" by (simp add: word_less_nat_alt)
  then have "take_bit 3 (unat m) = unat m" by (simp add: take_bit_nat_eq_self)
  then have "\<not> bit (unat m) i" if "3 \<le> i" for i using that by (metis bit_take_bit_iff not_le)
  then show "\<forall>i \<ge> 3. \<not> bit m i" by (simp add: bit_unsigned_iff)
next
  assume b: "\<forall>i \<ge> 3. \<not> bit m i"
  then have "take_bit 3 m = m" by (intro bit_word_eqI) (auto simp: bit_take_bit_iff not_le)
  then have "take_bit 3 (unat m) = unat m" by (metis unsigned_take_bit_eq)
  then have "unat m < 8" using take_bit_nat_less_exp [of 3 "unat m"] by simp
  then show "m < 8" by (simp add: word_less_nat_alt)
qed

lemma skip_mask_drop: "m < 8 \<Longrightarrow> skip_mask d m = drop_bit d m"
  by (auto simp: skip_mask_def small_mask_bit bit_simps intro!: bit_word_eqI)

lemma skip_mask_less: "m < 8 \<Longrightarrow> skip_mask d m < 8"
  by (simp add: skip_mask_drop) (simp add: small_mask_bit bit_simps)

lemma skip_mask_add: "m < 8 \<Longrightarrow> skip_mask a (skip_mask b m) = skip_mask (a + b) m"
  using skip_mask_less [of m b] by (simp add: skip_mask_drop)

lemma skip_mask_0 [simp]: "skip_mask 0 m = m"
  by (simp add: skip_mask_def)

lemma bit_four: "bit (4 :: u32) i \<longleftrightarrow> i = 2"
proof -
  have "bit ((2 :: u32) ^ 2) i \<longleftrightarrow> i = 2" by (simp only: bit_exp_iff) auto
  then show ?thesis by simp
qed

lemma next_mask_less: "m < 8 \<Longrightarrow> drop_bit 1 m OR 4 < (8 :: u32)"
  unfolding small_mask_bit bit_or_iff bit_drop_bit_eq bit_four by auto

lemma mask_shift_small: "m < 8 \<Longrightarrow> unat (drop_bit 1 m :: u32) \<le> 3"
  by (simp only: unat_drop_bit) (simp add: drop_bit_eq_div word_less_nat_alt)

lemma and7: "m AND 7 = take_bit 3 (m :: u32)"
proof -
  have "(7 :: u32) = mask 3" by (simp add: mask_eq_exp_minus_1)
  then show ?thesis by (simp only: take_bit_eq_mask)
qed

lemma and7_less: "m AND 7 < (8 :: u32)"
  unfolding small_mask_bit and7 by (simp add: bit_take_bit_iff)

lemma and7_same: "m < 8 \<Longrightarrow> m AND 7 = (m :: u32)"
  unfolding small_mask_bit and7 by (intro bit_word_eqI) (auto simp: bit_take_bit_iff not_le)

lemma bcj_loop_unfold:
  "bcj_loop encoding ip b pos m =
     (let p = bcj_scan b pos; m = skip_mask (p - pos) m in
      if p + 4 \<ge> length b then (m, p, b)
      else if m \<noteq> 0 \<and> (m > 4 \<or> m = 3 \<or> test86MSByte (b ! (p + unat (drop_bit 1 m) + 1)))
      then bcj_loop encoding ip b (p + 1) (drop_bit 1 m OR 4)
      else if test86MSByte (b ! (p + 4))
      then bcj_loop encoding ip (bcj_patch encoding ip b p m) (p + 5) 0
      else bcj_loop encoding ip b (p + 1) (drop_bit 1 m OR 4))"
  by (subst bcj_loop.simps) (simp add: skip_mask_def Let_def)

lemma copy_at_append: "i + length src \<le> length b \<Longrightarrow> copy_at (b @ ys) i src = copy_at b i src @ ys"
  by (simp add: copy_at_def)

lemma copy_at_shift: "copy_at (us @ b) (length us + i) src = us @ copy_at b i src"
  by (simp add: copy_at_def add.commute)

lemma bcj_patch_append:
  "p + 4 < length b \<Longrightarrow> bcj_patch enc ip (b @ ys) p m = bcj_patch enc ip b p m @ ys"
  by (simp add: bcj_patch_def Let_def copy_at_append list_update_append nth_append)

lemma bcj_patch_shift:
  "p + 4 < length b \<Longrightarrow>
     bcj_patch enc ip (us @ b) (length us + p) m = us @ bcj_patch enc (ip + of_nat (length us)) b p m"
proof -
  assume "p + 4 < length b"
  have "copy_at (us @ b) (length us + (p + 1)) src = us @ copy_at b (p + 1) src" for src
    by (rule copy_at_shift)
  then show ?thesis
    by (simp add: bcj_patch_def Let_def list_update_append nth_append add.assoc ac_simps)
qed

lemma bcj_patch_drop: "p + 5 \<le> k \<Longrightarrow> p + 4 < length b \<Longrightarrow> drop k (bcj_patch enc ip b p m) = drop k b"
  by (simp add: bcj_patch_def Let_def copy_at_def)

subsection \<open>The loop can be resumed\<close>

lemma bcj_loop_resume: "bcj_loop enc ip b (bcj_scan b pos) (skip_mask (bcj_scan b pos - pos) m) = bcj_loop enc ip b pos m"
  by (subst (1 2) bcj_loop_unfold) (simp add: bcj_scan_idem)

lemma bcj_loop_append:
  "bcj_loop enc ip xs pos m = (s, k, xs') \<Longrightarrow> pos \<le> length xs \<Longrightarrow> m < 8 \<Longrightarrow>
     bcj_loop enc ip (xs @ ys) pos m = bcj_loop enc ip (xs' @ ys) k s \<and>
     pos \<le> k \<and> k \<le> length xs \<and> length xs' = length xs \<and> drop k xs' = drop k xs \<and> s < 8"
proof (induction enc ip xs pos m rule: bcj_loop.induct)
  case (1 enc ip xs pos m)
  define p where "p = bcj_scan xs pos"
  define m' where "m' = skip_mask (p - pos) m"
  have p: "pos \<le> p" "p \<le> length xs"
    using bcj_scan_ge [of pos xs] bcj_scan_le [OF "1.prems"(2)] by (simp_all add: p_def)
  have m': "m' < 8" using skip_mask_less [OF "1.prems"(3)] by (simp add: m'_def)
  have scan: "bcj_scan (xs @ ys) pos = (if p + 4 < length xs then p else bcj_scan (xs @ ys) p)"
    using bcj_scan_append [OF "1.prems"(2), of ys] by (simp add: p_def)
  have unfold: "bcj_loop enc ip xs pos m =
      (if p + 4 \<ge> length xs then (m', p, xs)
      else if m' \<noteq> 0 \<and> (m' > 4 \<or> m' = 3 \<or> test86MSByte (xs ! (p + unat (drop_bit 1 m') + 1)))
      then bcj_loop enc ip xs (p + 1) (drop_bit 1 m' OR 4)
      else if test86MSByte (xs ! (p + 4))
      then bcj_loop enc ip (bcj_patch enc ip xs p m') (p + 5) 0
      else bcj_loop enc ip xs (p + 1) (drop_bit 1 m' OR 4))"
    by (subst bcj_loop_unfold) (simp add: p_def m'_def Let_def)
  have hyps: "p = bcj_scan xs pos" "p - pos = p - pos" "m' = (if 2 < p - pos then 0 else drop_bit (p - pos) m)"
    by (simp_all add: p_def m'_def skip_mask_def)
  show ?case
  proof (cases "p + 4 \<ge> length xs")
    case True
    then have r: "s = m'" "k = p" "xs' = xs" using "1.prems"(1) unfold by auto
    define q where "q = bcj_scan (xs @ ys) pos"
    have q: "q = bcj_scan (xs @ ys) p" "p \<le> q"
      using True scan bcj_scan_ge [of p "xs @ ys"] by (simp_all add: q_def)
    have "skip_mask (q - p) m' = skip_mask (q - pos) m"
      using skip_mask_add [OF "1.prems"(3), of "q - p" "p - pos"] p(1) q(2) by (simp add: m'_def)
    then have "bcj_loop enc ip (xs @ ys) pos m = bcj_loop enc ip (xs @ ys) p m'"
      using bcj_loop_resume [of enc ip "xs @ ys" pos m] bcj_loop_resume [of enc ip "xs @ ys" p m'] q
      by (simp add: q_def [symmetric])
    then show ?thesis using r p m' by simp
  next
    case False
    then have lt: "p + 4 < length xs" by simp
    let ?t1 = "m' \<noteq> 0 \<and> (m' > 4 \<or> m' = 3 \<or> test86MSByte (xs ! (p + unat (drop_bit 1 m') + 1)))"
    have idx: "p + unat (drop_bit 1 m') + 1 < length xs" using mask_shift_small [OF m'] lt by linarith
    have unfold2: "bcj_loop enc ip (xs @ ys) pos m =
      (if ?t1 then bcj_loop enc ip (xs @ ys) (p + 1) (drop_bit 1 m' OR 4)
      else if test86MSByte (xs ! (p + 4))
      then bcj_loop enc ip (bcj_patch enc ip xs p m' @ ys) (p + 5) 0
      else bcj_loop enc ip (xs @ ys) (p + 1) (drop_bit 1 m' OR 4))"
      using lt idx scan
      by (subst bcj_loop_unfold)
         (simp add: m'_def [symmetric] Let_def nth_append bcj_patch_append del: One_nat_def)
    note nm = next_mask_less [OF m']
    show ?thesis
    proof (cases ?t1)
      case True
      then have r: "bcj_loop enc ip xs (p + 1) (drop_bit 1 m' OR 4) = (s, k, xs')"
        using "1.prems"(1) unfold lt by simp
      have "bcj_loop enc ip (xs @ ys) (p + 1) (drop_bit 1 m' OR 4) = bcj_loop enc ip (xs' @ ys) k s \<and>
         p + 1 \<le> k \<and> k \<le> length xs \<and> length xs' = length xs \<and> drop k xs' = drop k xs \<and> s < 8"
        by (rule "1.IH"(1) [OF hyps]) (use False True lt r nm in auto)
      then show ?thesis using True p unfold2 by simp
    next
      case t1: False
      show ?thesis
      proof (cases "test86MSByte (xs ! (p + 4))")
        case True
        then have r: "bcj_loop enc ip (bcj_patch enc ip xs p m') (p + 5) 0 = (s, k, xs')"
          using "1.prems"(1) unfold lt t1 by (simp split: if_splits)
        have "bcj_loop enc ip (bcj_patch enc ip xs p m' @ ys) (p + 5) 0 = bcj_loop enc ip (xs' @ ys) k s \<and>
           p + 5 \<le> k \<and> k \<le> length (bcj_patch enc ip xs p m') \<and> length xs' = length (bcj_patch enc ip xs p m') \<and>
           drop k xs' = drop k (bcj_patch enc ip xs p m') \<and> s < 8"
          by (rule "1.IH"(2) [OF hyps]) (use False True t1 lt r in auto)
        then show ?thesis using True t1 p lt unfold2 bcj_patch_drop [of p k xs enc ip m'] by auto
      next
        case t2: False
        then have r: "bcj_loop enc ip xs (p + 1) (drop_bit 1 m' OR 4) = (s, k, xs')"
          using "1.prems"(1) unfold lt t1 by (simp split: if_splits)
        have "bcj_loop enc ip (xs @ ys) (p + 1) (drop_bit 1 m' OR 4) = bcj_loop enc ip (xs' @ ys) k s \<and>
           p + 1 \<le> k \<and> k \<le> length xs \<and> length xs' = length xs \<and> drop k xs' = drop k xs \<and> s < 8"
          by (rule "1.IH"(3) [OF hyps]) (use False t1 t2 lt r nm in auto)
        then show ?thesis using t1 t2 p unfold2 by simp
      qed
    qed
  qed
qed

lemma bcj_loop_shift:
  "bcj_loop enc (ip + of_nat (length us)) b pos m = (s, k, b') \<Longrightarrow>
     bcj_loop enc ip (us @ b) (length us + pos) m = (s, length us + k, us @ b')"
proof (induction enc "ip + of_nat (length us)" b pos m rule: bcj_loop.induct)
  case (1 enc b pos m)
  define p where "p = bcj_scan b pos"
  define m' where "m' = skip_mask (p - pos) m"
  have hyps: "p = bcj_scan b pos" "p - pos = p - pos" "m' = (if 2 < p - pos then 0 else drop_bit (p - pos) m)"
    by (simp_all add: p_def m'_def skip_mask_def)
  have scan: "bcj_scan (us @ b) (length us + pos) = length us + p"
    by (simp add: bcj_scan_shift p_def)
  let ?t1 = "m' \<noteq> 0 \<and> (m' > 4 \<or> m' = 3 \<or> test86MSByte (b ! (p + unat (drop_bit 1 m') + 1)))"
  let ?ip = "ip + of_nat (length us)"
  have unfold: "bcj_loop enc ?ip b pos m =
      (if p + 4 \<ge> length b then (m', p, b)
      else if ?t1 then bcj_loop enc ?ip b (p + 1) (drop_bit 1 m' OR 4)
      else if test86MSByte (b ! (p + 4))
      then bcj_loop enc ?ip (bcj_patch enc ?ip b p m') (p + 5) 0
      else bcj_loop enc ?ip b (p + 1) (drop_bit 1 m' OR 4))"
    by (subst bcj_loop_unfold) (simp add: p_def m'_def Let_def)
  have nth: "(us @ b) ! (length us + p + j) = b ! (p + j)" for j
    by (simp add: nth_append add.assoc)
  have unfold2: "bcj_loop enc ip (us @ b) (length us + pos) m =
      (if p + 4 \<ge> length b then (m', length us + p, us @ b)
      else if ?t1 then bcj_loop enc ip (us @ b) (length us + (p + 1)) (drop_bit 1 m' OR 4)
      else if test86MSByte (b ! (p + 4))
      then bcj_loop enc ip (bcj_patch enc ip (us @ b) (length us + p) m') (length us + (p + 5)) 0
      else bcj_loop enc ip (us @ b) (length us + (p + 1)) (drop_bit 1 m' OR 4))"
    using nth [of "unat (drop_bit 1 m') + 1"] nth [of 4]
    by (subst bcj_loop_unfold) (simp add: scan m'_def [symmetric] Let_def add.assoc del: One_nat_def)
  show ?case
  proof (cases "p + 4 \<ge> length b")
    case True
    with "1.prems" unfold unfold2 show ?thesis by simp
  next
    case False
    note patch = bcj_patch_shift [of p b enc ip us m']
    consider "?t1" | "\<not> ?t1" "test86MSByte (b ! (p + 4))" | "\<not> ?t1" "\<not> test86MSByte (b ! (p + 4))" by blast
    then show ?thesis
    proof cases
      case 1
      with "1.prems" "1.hyps"(1) [OF hyps False 1] unfold unfold2 False show ?thesis by simp
    next
      case 2
      with "1.prems" "1.hyps"(2) [OF hyps False 2] unfold unfold2 False patch show ?thesis
        by (simp only: if_False if_True not_le) 
    next
      case 3
      with "1.prems" "1.hyps"(3) [OF hyps False 3] unfold unfold2 False show ?thesis
        by (simp only: if_False)
    qed
  qed
qed

section \<open>The converters keep the contract\<close>

fun room :: "converter \<Rightarrow> nat \<Rightarrow> bool" where
  "room (Arm ip) n = ((if ip = 0 then 4 else unat ip) + n < 2 ^ 32)"
| "room _ _ = True"

text \<open>An aligned converter is its block loop, a short buffer being no exception.\<close>

lemma Convert_blocks:
  "Convert (Arm64 ip) encoding b = (let (ip', out) = blocks 4 (arm64_step encoding) ip b in (Arm64 ip', out))"
  "Convert (Ppc ip) encoding b = (let (ip', out) = blocks 4 (ppc_step encoding) ip b in (Ppc ip', out))"
  "Convert (Sparc ip) encoding b = (let (ip', out) = blocks 4 (sparc_step encoding) ip b in (Sparc ip', out))"
  "Convert (Ia64 ip) encoding b = (let (ip', out) = blocks 16 (ia64_step encoding) ip b in (Ia64 ip', out))"
  by (simp_all add: blocks_short Convert_Ia64)

lemma aligned_append:
  assumes step: "block_step n step" and conv: "\<And>ip b. cv (K ip) b = (let (ip', out) = blocks n step ip b in (K ip', out))"
    and xs: "cv (K ip) xs = (c1, out1)"
  shows "cv (K ip) (xs @ ys) = (let (c2, out2) = cv c1 (drop (length out1) xs @ ys) in (c2, out1 @ out2))"
proof -
  obtain ip1 where b: "blocks n step ip xs = (ip1, out1)" "c1 = K ip1"
    using xs by (auto simp: conv split: prod.splits)
  show ?thesis
    using blocks_append [OF step b(1), of ys] by (simp add: conv b(2) split: prod.splits)
qed

lemma aligned_bound:
  assumes step: "block_step n step" and b: "blocks n step ip xs = (ip', out)"
  shows "length out \<le> length xs" "n \<le> length xs \<Longrightarrow> out \<noteq> []" "ip' = ip + of_nat (length out)"
proof -
  obtain out' where o: "blocks n step ip xs = (ip + of_nat (length out'), out')" "length out' = length xs div n * n"
    using blocks_result [OF step] by blast
  with b have e: "out = out'" "ip' = ip + of_nat (length out')" by auto
  have "length xs div n * n \<le> length xs" by (rule div_times_less_eq_dividend)
  then show "length out \<le> length xs" using o(2) e by simp
  show "ip' = ip + of_nat (length out)" using e by simp
  assume "n \<le> length xs"
  moreover have "0 < n" using step by (simp add: block_step_def)
  ultimately have "0 < length out'" unfolding o(2) by (simp add: div_greater_zero_iff)
  then show "out \<noteq> []" using e by auto
qed

lemma Convert_Arm:
  "Convert (Arm ip) encoding b =
     (if length b < 4 then (Arm ip, [])
      else let (ip', out) = blocks 4 (arm_step encoding) (if ip = 0 then 4 else ip) b in (Arm ip', out))"
  by simp

lemma arm_append:
  assumes "room (Arm ip) (length xs + length ys)" "Convert (Arm ip) encoding xs = (c1, out1)"
  shows "Convert (Arm ip) encoding (xs @ ys) =
     (let (c2, out2) = Convert c1 encoding (drop (length out1) xs @ ys) in (c2, out1 @ out2))"
proof (cases "length xs < 4")
  case True
  with assms(2) have "c1 = Arm ip" "out1 = []" by auto
  then show ?thesis by (simp add: Let_def split: prod.splits)
next
  case False
  define start where "start = (if ip = 0 then 4 else ip)"
  obtain ip1 where b: "blocks 4 (arm_step encoding) start xs = (ip1, out1)" "c1 = Arm ip1"
    using assms(2) False by (auto simp: start_def split: prod.splits)
  note bound = aligned_bound [OF arm_block b(1)]
  have "unat start + length out1 < 2 ^ 32"
    using assms(1) bound(1) by (auto simp: start_def split: if_splits)
  moreover then have "unat ip1 = unat start + length out1"
    unfolding bound(3) by (subst unat_add_small) auto
  moreover have "0 < unat start" by (auto simp: start_def unat_gt_0)
  ultimately have nz: "ip1 \<noteq> 0" by auto
  have rest: "Convert c1 encoding zs = (let (ip', out) = blocks 4 (arm_step encoding) ip1 zs in (Arm ip', out))" for zs
    using nz by (simp add: b(2) blocks_short)
  show ?thesis
    using blocks_append [OF arm_block b(1), of ys] False
    by (simp add: rest start_def [symmetric] split: prod.splits)
qed

lemma bcj_Convert:
  assumes "bcj_loop encoding ip b 0 (st AND 7) = (s, k, b')"
  shows "Convert (Bcj ip st) encoding b = (if length b < 5 then (Bcj ip st, []) else (Bcj (ip + of_nat k) s, take k b'))"
  using assms by simp

lemma bcj_append:
  assumes "Convert (Bcj ip st) encoding xs = (c1, out1)"
  shows "Convert (Bcj ip st) encoding (xs @ ys) =
     (let (c2, out2) = Convert c1 encoding (drop (length out1) xs @ ys) in (c2, out1 @ out2))"
proof (cases "length xs < 5")
  case True
  with assms have "c1 = Bcj ip st" "out1 = []" by auto
  then show ?thesis by (simp add: Let_def split: prod.splits)
next
  case False
  obtain s k xs' where l: "bcj_loop encoding ip xs 0 (st AND 7) = (s, k, xs')" by (metis surj_pair)
  note app = bcj_loop_append [OF l _ and7_less]
  have k: "k \<le> length xs" "length xs' = length xs" "drop k xs' = drop k xs" "s < 8"
    "bcj_loop encoding ip (xs @ ys) 0 (st AND 7) = bcj_loop encoding ip (xs' @ ys) k s"
    using app [of ys] by auto
  have c1: "c1 = Bcj (ip + of_nat k) s" "out1 = take k xs'" "length out1 = k"
    using assms bcj_Convert [OF l] False k by auto
  let ?rest = "drop k xs @ ys"
  obtain s2 k2 b2 where l2: "bcj_loop encoding (ip + of_nat k) ?rest 0 s = (s2, k2, b2)" by (metis surj_pair)
  have whole: "bcj_loop encoding ip (xs @ ys) 0 (st AND 7) = (s2, k + k2, out1 @ b2)"
  proof -
    have "xs' @ ys = out1 @ ?rest" using k(3) append_take_drop_id [of k xs'] by (simp add: c1(2))
    moreover have "bcj_loop encoding ip (out1 @ ?rest) (length out1 + 0) s = (s2, length out1 + k2, out1 @ b2)"
      by (rule bcj_loop_shift) (use l2 c1(3) in simp)
    ultimately show ?thesis using k(5) c1(3) by simp
  qed
  have "Convert c1 encoding ?rest = (Bcj (ip + of_nat k + of_nat k2) s2, take k2 b2)"
  proof (cases "length ?rest < 5")
    case True
    have "bcj_scan ?rest 0 = 0" using True by (subst bcj_scan.simps) auto
    then have "bcj_loop encoding (ip + of_nat k) ?rest 0 s = (s, 0, ?rest)"
      using True by (subst bcj_loop_unfold) (auto simp: Let_def)
    with l2 True show ?thesis by (simp add: c1(1))
  next
    case False
    have "bcj_loop encoding (ip + of_nat k) ?rest 0 (s AND 7) = (s2, k2, b2)"
      using l2 and7_same [OF k(4)] by simp
    from bcj_Convert [OF this] False show ?thesis by (simp add: c1(1))
  qed
  moreover have "Convert (Bcj ip st) encoding (xs @ ys) = (Bcj (ip + of_nat (k + k2)) s2, out1 @ take k2 b2)"
    using bcj_Convert [OF whole] False c1(3) by simp
  ultimately show ?thesis using c1(3) by (simp add: add.assoc)
qed

lemma bcj_progress:
  assumes "5 \<le> length xs" "bcj_loop encoding ip xs 0 m = (s, k, xs')" "m < 8"
  shows "0 < k"
proof -
  define p where "p = bcj_scan xs 0"
  define m' where "m' = skip_mask p m"
  show ?thesis
  proof (cases "length xs \<le> p + 4")
    case True
    then have "k = p" using assms(2) by (subst (asm) bcj_loop_unfold) (auto simp: Let_def p_def)
    with True assms(1) show ?thesis by linarith
  next
    case False
    have "bcj_loop encoding ip xs (p + 1) (drop_bit 1 m' OR 4) = (s, k, xs') \<or>
        bcj_loop encoding ip (bcj_patch encoding ip xs p m') (p + 5) 0 = (s, k, xs')"
      using assms(2) False
      by (subst (asm) bcj_loop_unfold)
         (auto simp: Let_def p_def [symmetric] m'_def [symmetric] split: if_splits)
    moreover have "drop_bit 1 m' OR 4 < 8"
      using next_mask_less [OF skip_mask_less [OF assms(3)]] by (simp add: m'_def)
    ultimately show ?thesis
      using False bcj_loop_append [of encoding ip xs "p + 1" "drop_bit 1 m' OR 4" s k xs' "[]"]
        bcj_loop_append [of encoding ip "bcj_patch encoding ip xs p m'" "p + 5" 0 s k xs' "[]"]
      by auto
  qed
qed

section \<open>The interpretation\<close>

lemma Convert_bound:
  assumes "Convert c encoding xs = (c', out)"
  shows "length out \<le> length xs" "Size c \<le> length xs \<Longrightarrow> out \<noteq> []" "Size c' = Size c"
    "length xs < Size c \<Longrightarrow> c' = c \<and> out = []"
proof -
  have "length out \<le> length xs \<and> (Size c \<le> length xs \<longrightarrow> out \<noteq> []) \<and> Size c' = Size c"
  proof (cases c)
    case (Arm ip)
    then show ?thesis
      using assms aligned_bound [OF arm_block] by (auto split: prod.splits if_splits)
  next
    case (Arm64 ip)
    then show ?thesis
      using assms aligned_bound [OF arm64_block] by (auto split: prod.splits if_splits)
  next
    case (Ppc ip)
    then show ?thesis
      using assms aligned_bound [OF ppc_block] by (auto split: prod.splits if_splits)
  next
    case (Sparc ip)
    then show ?thesis
      using assms aligned_bound [OF sparc_block] by (auto split: prod.splits if_splits)
  next
    case (Ia64 ip)
    then show ?thesis
      using assms aligned_bound [OF ia64_block] by (auto simp: Convert_Ia64 split: prod.splits if_splits)
  next
    case (Bcj ip st)
    show ?thesis
    proof (cases "length xs < 5")
      case True
      with assms Bcj show ?thesis by auto
    next
      case False
      obtain s k xs' where l: "bcj_loop encoding ip xs 0 (st AND 7) = (s, k, xs')" by (metis surj_pair)
      have "k \<le> length xs \<and> length xs' = length xs"
        using bcj_loop_append [OF l _ and7_less, of "[]"] by simp
      moreover have "0 < k" using bcj_progress [OF _ l and7_less] False by simp
      moreover have "c' = Bcj (ip + of_nat k) s" "out = take k xs'"
        using assms Bcj bcj_Convert [OF l] False by auto
      ultimately show ?thesis using Bcj by auto
    qed
  qed
  then show "length out \<le> length xs" "Size c \<le> length xs \<Longrightarrow> out \<noteq> []" "Size c' = Size c" by auto
  show "length xs < Size c \<Longrightarrow> c' = c \<and> out = []"
    using assms by (cases c) (auto simp: Convert_Ia64)
qed

lemma Convert_append:
  assumes "room c (length xs + length ys)" "Convert c encoding xs = (c1, out1)"
  shows "Convert c encoding (xs @ ys) =
     (let (c2, out2) = Convert c1 encoding (drop (length out1) xs @ ys) in (c2, out1 @ out2))"
proof (cases c)
  case (Arm ip)
  then show ?thesis using arm_append assms by simp
next
  case (Bcj ip st)
  then show ?thesis using bcj_append assms by simp
next
  case (Arm64 ip)
  show ?thesis
    using aligned_append [OF arm64_block, where cv = "\<lambda>c b. Convert c encoding b" and K = Arm64, OF Convert_blocks(1)]
      assms Arm64 by simp
next
  case (Ppc ip)
  show ?thesis
    using aligned_append [OF ppc_block, where cv = "\<lambda>c b. Convert c encoding b" and K = Ppc, OF Convert_blocks(2)]
      assms Ppc by simp
next
  case (Sparc ip)
  show ?thesis
    using aligned_append [OF sparc_block, where cv = "\<lambda>c b. Convert c encoding b" and K = Sparc, OF Convert_blocks(3)]
      assms Sparc by simp
next
  case (Ia64 ip)
  show ?thesis
    using aligned_append [OF ia64_block, where cv = "\<lambda>c b. Convert c encoding b" and K = Ia64, OF Convert_blocks(4)]
      assms Ia64 by simp
qed

lemma Convert_room:
  assumes "room c n" "Convert c encoding xs = (c', out)" "length xs \<le> n"
  shows "room c' (n - length out)"
proof (cases c)
  case (Arm ip)
  show ?thesis
  proof (cases "length xs < 4")
    case True
    with assms Arm show ?thesis by auto
  next
    case False
    define start where "start = (if ip = 0 then 4 else ip)"
    obtain ip' where b: "blocks 4 (arm_step encoding) start xs = (ip', out)" "c' = Arm ip'"
      using assms(2) Arm False by (auto simp: start_def split: prod.splits)
    note bound = aligned_bound [OF arm_block b(1)]
    have r: "unat start + n < 2 ^ 32" "0 < unat start"
      using assms(1) Arm by (auto simp: start_def unat_gt_0 split: if_splits)
    then have ip': "unat ip' = unat start + length out"
      unfolding bound(3) using bound(1) assms(3) by (subst unat_add_small) auto
    with r(2) have "ip' \<noteq> 0" by (metis unat_0 add_is_0 less_irrefl)
    with ip' r bound(1) assms(3) b(2) show ?thesis by simp
  qed
next
  case (Bcj ip st)
  with assms(2) show ?thesis by (auto split: prod.splits if_splits)
qed (use assms(2) in \<open>auto simp: Convert_Ia64 split: prod.splits if_splits\<close>)

interpretation filter: branch_writer "\<lambda>c b. Convert c encoding b" Size room buffer_Write "\<lambda>d. d" for encoding
proof unfold_locales
  fix c c' :: converter and xs ys out out1 :: "byte list" and c1 and n m :: nat
  show "Convert c encoding xs = (c', out) \<Longrightarrow> length out \<le> length xs" by (rule Convert_bound)
  show "length xs < Size c \<Longrightarrow> Convert c encoding xs = (c, [])"
    using Convert_bound(4) by (metis surj_pair)
  show "Size c \<le> length xs \<Longrightarrow> snd (Convert c encoding xs) \<noteq> []"
    using Convert_bound(2) by (metis prod.collapse)
  show "room c (length xs + length ys) \<Longrightarrow> Convert c encoding xs = (c1, out1) \<Longrightarrow>
      Convert c encoding (xs @ ys) =
        (let (c2, out2) = Convert c1 encoding (drop (length out1) xs @ ys) in (c2, out1 @ out2))"
    by (rule Convert_append)
  show "room c n \<Longrightarrow> Convert c encoding xs = (c', out) \<Longrightarrow> length xs \<le> n \<Longrightarrow> room c' (n - length out)"
    by (rule Convert_room)
  show "room c n \<Longrightarrow> m \<le> n \<Longrightarrow> room c m" by (cases c) (auto split: if_splits)
  show "0 < Size c" by (cases c) simp_all
  show "Convert c encoding xs = (c', out) \<Longrightarrow> Size c' = Size c" by (rule Convert_bound)
qed

end
