(* ===== verification/BraProps.thy ===== *)
theory BraProps
  imports BraConvert
begin

text \<open>
  The filters as the archive code uses them: \<open>internal/sevenzip/branch_writer.go\<close>, the writers it
  makes and the readers of the package, run over any sequence of calls.
\<close>

datatype BranchFilter = BranchFilterNone | BranchFilterARM64 | BranchFilterBCJ | BranchFilterIA64

definition filterConverter :: "BranchFilter \<Rightarrow> converter option" where
  "filterConverter f =
     (case f of
        BranchFilterNone \<Rightarrow> None
      | BranchFilterARM64 \<Rightarrow> Some (Arm64 0)
      | BranchFilterBCJ \<Rightarrow> Some (Bcj 0 0)
      | BranchFilterIA64 \<Rightarrow> Some (Ia64 0))"

text \<open>Without a filter the result is the destination itself, here \<open>None\<close>.\<close>

definition NewBranchFilterWriter :: "'d option \<Rightarrow> BranchFilter \<Rightarrow> (converter, 'd) bra_writer option" where
  "NewBranchFilterWriter destination f =
     (case filterConverter f of None \<Rightarrow> None | Some c \<Rightarrow> newWriter destination c)"

text \<open>The conversion of a whole stream, and runs of writes and of reads.\<close>

definition convert_all :: "converter \<Rightarrow> bool \<Rightarrow> byte list \<Rightarrow> byte list" where
  "convert_all c encoding xs = (let (_, out) = Convert c encoding xs in out @ drop (length out) xs)"

fun write_all :: "byte list list \<Rightarrow> (converter, byte list) bra_writer \<Rightarrow> (converter, byte list) bra_writer" where
  "write_all [] w = w"
| "write_all (p # ps) w =
     (let (w, _, _) = bra_Write (\<lambda>c b. Convert c True b) buffer_Write w p in write_all ps w)"

fun read_all :: "nat list \<Rightarrow> converter bra_reader \<Rightarrow> byte list" where
  "read_all [] rc = []"
| "read_all (k # ks) rc =
     (let (rc, bs, _) = bra_Read Size (\<lambda>c b. Convert c False b) k rc in bs @ read_all ks rc)"

fun after_reads :: "nat list \<Rightarrow> converter bra_reader \<Rightarrow> converter bra_reader" where
  "after_reads [] rc = rc"
| "after_reads (k # ks) rc =
     after_reads ks (fst (bra_Read Size (\<lambda>c b. Convert c False b) k rc))"

lemma convert_all_oneshot: "convert_all c encoding xs = filter.oneshot encoding c xs"
  by (simp add: convert_all_def filter.oneshot_def)

lemma write_all_writes: "write_all ps w = filter.writes True ps w"
  by (induction ps arbitrary: w) simp_all

lemma read_all_reads: "read_all ks rc = filter.reads False ks rc"
  by (induction ks arbitrary: rc) simp_all

lemma length_convert_all: "length (convert_all c encoding xs) = length xs"
  by (simp add: convert_all_oneshot)

lemma after_reads_ok: "filter.reader_ok rc \<Longrightarrow> filter.reader_ok (after_reads ks rc)"
proof (induction ks arbitrary: rc)
  case (Cons k ks)
  obtain rc' bs err where r: "bra_Read Size (\<lambda>c b. Convert c False b) k rc = (rc', bs, err)"
    by (metis surj_pair)
  from filter.Read_step [OF Cons.prems r] Cons.IH [of rc'] r show ?case by simp
qed simp

text \<open>
  C14. The branch-filtering writer is independent of how its input is cut into writes: for every
  filter and every sequence of \<open>Write\<close> calls, closing it has sent exactly the conversion of the
  concatenated input to the destination, without an error.
\<close>

theorem branch_writer_output:
  assumes "NewBranchFilterWriter (Some []) f = Some w0"
  shows "\<exists>w. bra_Close buffer_Write (write_all ps w0) = (w, None) \<and>
     bw_dst w = convert_all (bw_conv w0) True (concat ps)"
proof -
  obtain c where c: "w0 = fresh_writer [] c" "room c n" for n
    using assms by (cases f) (auto simp: NewBranchFilterWriter_def filterConverter_def newWriter_def)
  from filter.close_writes [OF c(2), where encoding = True and ps = ps and ?d0.0 = "[]"] show ?thesis
    by (simp add: write_all_writes convert_all_oneshot c(1) fresh_writer_def)
qed

theorem branch_writer_output_witness:
  "\<exists>w. bra_Close buffer_Write
       (write_all [[0x55], [0x48, 0xe8, 0x10, 0x20], [0x00, 0x00, 0x90]] (fresh_writer [] (Bcj 0 0))) = (w, None) \<and>
     bw_dst w = convert_all (Bcj 0 0) True [0x55, 0x48, 0xe8, 0x10, 0x20, 0x00, 0x00, 0x90]"
proof -
  have "NewBranchFilterWriter (Some []) BranchFilterBCJ = Some (fresh_writer [] (Bcj 0 0))"
    by (simp add: NewBranchFilterWriter_def filterConverter_def newWriter_def)
  from branch_writer_output [OF this, of "[[0x55], [0x48, 0xe8, 0x10, 0x20], [0x00, 0x00, 0x90]]"]
  show ?thesis by (simp add: fresh_writer_def)
qed

text \<open>
  C15. The branch-filtering reader delivers the conversion of its source, whatever the sizes of the
  buffers it is read with: as many reads as there are bytes, with non-empty buffers, return exactly
  the conversion of the whole source. ARM is limited to sources below 4 GiB.
\<close>

theorem branch_reader_output:
  assumes "newReader c [\<lparr>src_data = xs, src_err = EOF\<rparr>] = Some rc" and "room c (length xs)"
    and "\<forall>k \<in> set ks. 0 < k" and "length xs \<le> length ks"
  shows "read_all ks rc = convert_all c False xs"
proof -
  have rc: "filter.reader_ok rc" "filter.pending False rc = filter.oneshot False c xs"
    by (rule filter.new_reader_ok(1) [OF assms(1,2)]) (rule filter.new_reader_ok(2) [OF assms(1,2)])
  have "length (filter.pending False rc) \<le> length ks" using rc(2) assms(4) by simp
  from filter.reads_all [OF rc(1) assms(3) this] rc(2) show ?thesis
    by (simp add: read_all_reads convert_all_oneshot)
qed

theorem branch_reader_output_witness:
  "read_all [3, 1, 7, 2, 9] \<lparr>br_src = \<lparr>src_data = [0xeb, 1, 2, 0xeb, 7], src_err = EOF\<rparr>, br_open = True,
       br_buf = [], br_n = 0, br_conv = Arm 0\<rparr> = convert_all (Arm 0) False [0xeb, 1, 2, 0xeb, 7]"
  by (rule branch_reader_output) (simp_all add: newReader_def)

text \<open>
  C40. The branch-filtering reader never reports the end of its source: after any reads, the next
  one returns no error, so that at the end it returns no bytes and no error, for ever. (A caller that
  waits for \<open>io.EOF\<close> does not return when the source is shorter than it expects.)
\<close>

theorem branch_reader_no_EOF:
  assumes "newReader c [\<lparr>src_data = xs, src_err = EOF\<rparr>] = Some rc" and "room c (length xs)"
  shows "snd (snd (bra_Read Size (\<lambda>c b. Convert c False b) k (after_reads ks rc))) = None"
proof -
  have ok: "filter.reader_ok (after_reads ks rc)"
    by (rule after_reads_ok [OF filter.new_reader_ok(1) [OF assms]])
  obtain rc' bs err where r: "bra_Read Size (\<lambda>c b. Convert c False b) k (after_reads ks rc) = (rc', bs, err)"
    by (metis surj_pair)
  from filter.Read_step [OF ok r] r show ?thesis by simp
qed

theorem branch_reader_no_EOF_witness:
  "snd (snd (bra_Read Size (\<lambda>c b. Convert c False b) 5
     (after_reads [4, 4] \<lparr>br_src = \<lparr>src_data = [1, 2], src_err = EOF\<rparr>, br_open = True,
       br_buf = [], br_n = 0, br_conv = Ppc 0\<rparr>))) = None"
  by (rule branch_reader_no_EOF [where c = "Ppc 0" and xs = "[1, 2]"]) (simp_all add: newReader_def)

end
