(* ===== verification/LzmaRange.thy ===== *)
theory LzmaRange
  imports Prelude
begin

text \<open>
  \<open>internal/xz/lzma\<close>: the adaptive probabilities of \<open>prob.go\<close>, the range coder of
  \<open>rangecodec.go\<close> and the limited writer of \<open>bytewriter.go\<close>. An operation of this package is a
  function from its state to an error or a value and the state it leaves behind: unlike a failed
  parser, a failed encoder is still in use (\<open>encoder.Close\<close> goes on after \<open>ErrLimit\<close>), so that
  the state after an error is part of the model. \<open>lbind\<close> is the \<open>if err != nil\<close> chain; \<open>focus\<close> and
  \<open>element\<close> run an operation on a part of the state.
\<close>

section \<open>Operations on a state that survives errors\<close>

datatype lzma_error =
    ErrLimit
  | ErrNoSpace
  | LzIo io_error
  | LzError string
  | ErrEOS \<comment> \<open>the end-of-stream marker was found\<close>
  | LzPanic \<comment> \<open>the Go program would panic\<close>

type_synonym ('s, 'a) lz = "'s \<Rightarrow> (lzma_error + 'a) \<times> 's"

definition lret :: "'a \<Rightarrow> ('s, 'a) lz" where
  "lret x s = (Inr x, s)"

definition lfail :: "lzma_error \<Rightarrow> ('s, 'a) lz" where
  "lfail e s = (Inl e, s)"

definition lbind :: "('s, 'a) lz \<Rightarrow> ('a \<Rightarrow> ('s, 'b) lz) \<Rightarrow> ('s, 'b) lz" where
  "lbind m f s = (case m s of (Inl e, s') \<Rightarrow> (Inl e, s') | (Inr x, s') \<Rightarrow> f x s')"

text \<open>A state here is a structure and a coder; \<open>focus\<close> selects a component of the structure.\<close>

definition focus :: "('c \<Rightarrow> 'b) \<Rightarrow> ('b \<Rightarrow> 'c \<Rightarrow> 'c) \<Rightarrow> ('b \<times> 'r, 'a) lz \<Rightarrow> ('c \<times> 'r, 'a) lz" where
  "focus get put m s = (case s of (c, r) \<Rightarrow>
     case m (get c, r) of (res, b, r') \<Rightarrow> (res, put b c, r'))"

definition element :: "nat \<Rightarrow> ('b \<times> 'r, 'a) lz \<Rightarrow> ('b list \<times> 'r, 'a) lz" where
  "element i m s = (case s of (xs, r) \<Rightarrow>
     if i < length xs then focus (\<lambda>xs. xs ! i) (\<lambda>b xs. xs[i := b]) m (xs, r)
     else (Inl LzPanic, xs, r))"

text \<open>An operation of the coder alone.\<close>

definition on_coder :: "('r, 'a) lz \<Rightarrow> ('c \<times> 'r, 'a) lz" where
  "on_coder m s = (case s of (c, r) \<Rightarrow> case m r of (res, r') \<Rightarrow> (res, c, r'))"

lemma lbind_Inr:
  "lbind m f s = (Inr y, s'') \<longleftrightarrow> (\<exists>x s'. m s = (Inr x, s') \<and> f x s' = (Inr y, s''))"
  by (auto simp: lbind_def split: prod.splits sum.splits)

lemma lret_Inr [simp]: "lret x s = (Inr y, s') \<longleftrightarrow> y = x \<and> s' = s"
  by (auto simp: lret_def)

lemma lfail_Inr [simp]: "lfail e s \<noteq> (Inr y, s')"
  by (simp add: lfail_def)

section \<open>Probabilities\<close>

type_synonym prob = u16

definition movebits :: nat where "movebits = 5"
definition probbits :: nat where "probbits = 11"
definition probInit :: prob where "probInit = push_bit (probbits - 1) 1"

definition prob_inc :: "prob \<Rightarrow> prob" where
  "prob_inc p = p + drop_bit movebits (push_bit probbits 1 - p)"

definition prob_dec :: "prob \<Rightarrow> prob" where
  "prob_dec p = p - drop_bit movebits p"

definition prob_bound :: "prob \<Rightarrow> u32 \<Rightarrow> u32" where
  "prob_bound p r = drop_bit probbits r * ucast p"

section \<open>Writers and readers of bytes\<close>

text \<open>
  The writer below the coder keeps what was written; \<open>quota\<close> is the number of bytes it still takes
  before it fails (\<open>None\<close>: a buffer in memory, which never does). \<open>lb_N\<close> is the limit of
  \<open>LimitedByteWriter\<close>. The byte reader delivers \<open>br_data\<close> and then the error \<open>br_end\<close>.
\<close>

record byte_writer =
  written :: "byte list"
  quota :: "nat option"

record LimitedByteWriter =
  lb_BW :: byte_writer
  lb_N :: int

record byte_reader =
  br_data :: "byte list"
  br_end :: io_error

definition WriteByte :: "byte \<Rightarrow> (byte_writer, unit) lz" where
  "WriteByte c w =
     (case quota w of
        None \<Rightarrow> (Inr (), w\<lparr>written := written w @ [c]\<rparr>)
      | Some 0 \<Rightarrow> (Inl (LzIo (Failed ''write'')), w)
      | Some (Suc q) \<Rightarrow> (Inr (), w\<lparr>written := written w @ [c], quota := Some q\<rparr>))"

definition limited_WriteByte :: "byte \<Rightarrow> (LimitedByteWriter, unit) lz" where
  "limited_WriteByte c l =
     (if lb_N l \<le> 0 then (Inl ErrLimit, l)
      else case WriteByte c (lb_BW l) of
             (Inl e, w) \<Rightarrow> (Inl e, l\<lparr>lb_BW := w\<rparr>)
           | (Inr _, w) \<Rightarrow> (Inr (), l\<lparr>lb_BW := w, lb_N := lb_N l - 1\<rparr>))"

section \<open>The range encoder\<close>

record rangeEncoder =
  re_lbw :: LimitedByteWriter
  re_nrange :: u32
  re_low :: u64
  re_cacheLen :: int
  re_cache :: byte

definition maxInt64 :: int where "maxInt64 = 2 ^ 63 - 1"

definition new_limited :: "byte_writer \<Rightarrow> LimitedByteWriter" where
  "new_limited w = \<lparr>lb_BW = w, lb_N = maxInt64\<rparr>"

definition newRangeEncoder :: "LimitedByteWriter \<Rightarrow> rangeEncoder" where
  "newRangeEncoder lbw =
     \<lparr>re_lbw = lbw, re_nrange = 0xffffffff, re_low = 0, re_cacheLen = 1, re_cache = 0\<rparr>"

definition re_Available :: "rangeEncoder \<Rightarrow> int" where
  "re_Available e = lb_N (re_lbw e) - (re_cacheLen e + 4)"

definition re_writeByte :: "byte \<Rightarrow> (rangeEncoder, unit) lz" where
  "re_writeByte c e =
     (if re_Available e < 1 then (Inl ErrLimit, e)
      else case limited_WriteByte c (re_lbw e) of (res, l) \<Rightarrow> (res, e\<lparr>re_lbw := l\<rparr>))"

lemma re_writeByte_cacheLen: "re_cacheLen (snd (re_writeByte c e)) = re_cacheLen e"
  by (auto simp: re_writeByte_def split: prod.splits)

text \<open>The loop of \<open>shiftLow\<close>: the cached byte and the \<open>0xff\<close> bytes after it, with the carry.\<close>

function write_cache :: "byte \<Rightarrow> byte \<Rightarrow> (rangeEncoder, unit) lz" where
  "write_cache tmp carry e =
     (case re_writeByte (tmp + carry) e of
        (Inl err, e) \<Rightarrow> (Inl err, e)
      | (Inr _, e) \<Rightarrow>
          let e = e\<lparr>re_cacheLen := re_cacheLen e - 1\<rparr> in
          if re_cacheLen e \<le> 0
          then (if re_cacheLen e < 0 then (Inl LzPanic, e) else (Inr (), e))
          else write_cache 0xff carry e)"
  by pat_completeness auto
termination
proof (relation "measure (\<lambda>(_, _, e). nat (re_cacheLen e))", goal_cases)
  case 2
  then show ?case using re_writeByte_cacheLen by (auto dest: arg_cong [of _ _ snd] simp: re_writeByte_cacheLen)
qed simp

declare write_cache.simps [simp del]

definition shiftLow :: "(rangeEncoder, unit) lz" where
  "shiftLow e =
     (let finish = (\<lambda>e. e\<lparr>re_cacheLen := re_cacheLen e + 1, re_low := ucast (push_bit 8 (ucast (re_low e) :: u32))\<rparr>) in
      if (ucast (re_low e) :: u32) < 0xff000000 \<or> drop_bit 32 (re_low e) \<noteq> 0
      then case write_cache (re_cache e) (ucast (drop_bit 32 (re_low e))) e of
             (Inl err, e) \<Rightarrow> (Inl err, e)
           | (Inr _, e) \<Rightarrow> (Inr (), finish (e\<lparr>re_cache := ucast (drop_bit 24 (ucast (re_low e) :: u32))\<rparr>))
      else (Inr (), finish e))"

definition re_normalize :: "(rangeEncoder, unit) lz" where
  "re_normalize e =
     (if re_nrange e \<ge> push_bit 24 1 then (Inr (), e)
      else shiftLow (e\<lparr>re_nrange := push_bit 8 (re_nrange e)\<rparr>))"

definition DirectEncodeBit :: "u32 \<Rightarrow> (rangeEncoder, unit) lz" where
  "DirectEncodeBit b e =
     (let nrange = drop_bit 1 (re_nrange e) in
      re_normalize (e\<lparr>re_nrange := nrange, re_low := re_low e + (ucast nrange AND (0 - (ucast b AND 1)))\<rparr>))"

definition EncodeBit :: "u32 \<Rightarrow> (prob \<times> rangeEncoder, unit) lz" where
  "EncodeBit b s =
     (case s of (p, e) \<Rightarrow>
        let pv = (ucast p :: u32); bound = drop_bit probbits (re_nrange e) * pv in
        if b AND 1 = 0
        then case re_normalize (e\<lparr>re_nrange := bound\<rparr>) of
               (res, e) \<Rightarrow> (res, ucast (pv + drop_bit movebits (push_bit probbits 1 - pv)), e)
        else case re_normalize (e\<lparr>re_low := re_low e + ucast bound, re_nrange := re_nrange e - bound\<rparr>) of
               (res, e) \<Rightarrow> (res, ucast (pv - drop_bit movebits pv), e))"

fun shifts :: "nat \<Rightarrow> (rangeEncoder, unit) lz" where
  "shifts 0 = lret ()"
| "shifts (Suc n) = lbind shiftLow (\<lambda>_. shifts n)"

definition re_Close :: "(rangeEncoder, unit) lz" where
  "re_Close = shifts 5"

section \<open>The range decoder\<close>

record rangeDecoder =
  rd_br :: byte_reader
  rd_nrange :: u32
  rd_code :: u32

definition br_ReadByte :: "(byte_reader, byte) lz" where
  "br_ReadByte r =
     (case br_data r of
        [] \<Rightarrow> (Inl (LzIo (br_end r)), r)
      | b # bs \<Rightarrow> (Inr b, r\<lparr>br_data := bs\<rparr>))"

definition updateCode :: "(rangeDecoder, unit) lz" where
  "updateCode d =
     (case br_ReadByte (rd_br d) of
        (Inl err, r) \<Rightarrow> (Inl err, d\<lparr>rd_br := r\<rparr>)
      | (Inr b, r) \<Rightarrow> (Inr (), d\<lparr>rd_br := r, rd_code := push_bit 8 (rd_code d) OR ucast b\<rparr>))"

fun updates :: "nat \<Rightarrow> (rangeDecoder, unit) lz" where
  "updates 0 = lret ()"
| "updates (Suc n) = lbind updateCode (\<lambda>_. updates n)"

text \<open>The reader is shared with the caller, so its state is returned also when there is an error.\<close>

definition newRangeDecoder :: "(byte_reader, rangeDecoder) lz" where
  "newRangeDecoder r =
     (case br_ReadByte r of
        (Inl err, r) \<Rightarrow> (Inl err, r)
      | (Inr b, r) \<Rightarrow>
          if b \<noteq> 0 then (Inl (LzError ''first byte not zero''), r)
          else case updates 4 \<lparr>rd_br = r, rd_nrange = 0xffffffff, rd_code = 0\<rparr> of
                 (Inl err, d) \<Rightarrow> (Inl err, rd_br d)
               | (Inr _, d) \<Rightarrow>
                   if rd_code d \<ge> rd_nrange d then (Inl (LzError ''code out of range''), rd_br d)
                   else (Inr d, rd_br d))"

definition possiblyAtEnd :: "rangeDecoder \<Rightarrow> bool" where
  "possiblyAtEnd d \<longleftrightarrow> rd_code d = 0"

definition rd_normalize :: "(rangeDecoder, unit) lz" where
  "rd_normalize d =
     (if rd_nrange d \<ge> push_bit 24 1 then (Inr (), d)
      else updateCode (d\<lparr>rd_nrange := push_bit 8 (rd_nrange d)\<rparr>))"

definition DirectDecodeBit :: "(rangeDecoder, u32) lz" where
  "DirectDecodeBit d =
     (let nrange = drop_bit 1 (rd_nrange d); code = rd_code d - nrange; t = 0 - drop_bit 31 code in
      lbind rd_normalize (\<lambda>_. lret ((t + 1) AND 1))
        (d\<lparr>rd_nrange := nrange, rd_code := code + (nrange AND t)\<rparr>))"

definition DecodeBit :: "(prob \<times> rangeDecoder, u32) lz" where
  "DecodeBit s =
     (case s of (p, d) \<Rightarrow>
        let pv = (ucast p :: u32); bound = drop_bit probbits (rd_nrange d) * pv in
        if rd_code d < bound
        then case lbind rd_normalize (\<lambda>_. lret 0) (d\<lparr>rd_nrange := bound\<rparr>) of
               (res, d) \<Rightarrow> (res, ucast (pv + drop_bit movebits (push_bit probbits 1 - pv)), d)
        else case lbind rd_normalize (\<lambda>_. lret 1) (d\<lparr>rd_code := rd_code d - bound, rd_nrange := rd_nrange d - bound\<rparr>) of
               (res, d) \<Rightarrow> (res, ucast (pv - drop_bit movebits pv), d))"

end
