(* ===== verification/LzmaCodecs.thy ===== *)
theory LzmaCodecs
  imports LzmaRange
begin

text \<open>
  \<open>internal/xz/lzma\<close>: the codecs of bit trees (\<open>treecodecs.go\<close>), direct bits (\<open>directcodec.go\<close>),
  lengths (\<open>lengthcodec.go\<close>), distances (\<open>distcodec.go\<close>, with \<open>nlz32\<close> of \<open>bitops.go\<close>) and literals
  (\<open>literalcodec.go\<close>). An array index out of range is \<open>LzPanic\<close>.
\<close>

section \<open>Single probabilities and bit trees\<close>

definition prob_Encode :: "u32 \<Rightarrow> (prob \<times> rangeEncoder, unit) lz" where
  "prob_Encode v = EncodeBit v"

definition prob_Decode :: "(prob \<times> rangeDecoder, u32) lz" where
  "prob_Decode = DecodeBit"

record probTree =
  pt_probs :: "prob list"
  pt_bits :: byte

type_synonym treeCodec = probTree
type_synonym treeReverseCodec = probTree

definition makeProbTree :: "nat \<Rightarrow> lzma_error + probTree" where
  "makeProbTree bits =
     (if \<not> (1 \<le> bits \<and> bits \<le> 32) then Inl LzPanic
      else Inr \<lparr>pt_probs = replicate (2 ^ bits) probInit, pt_bits = of_nat bits\<rparr>)"

definition makeTreeCodec :: "nat \<Rightarrow> lzma_error + treeCodec" where
  "makeTreeCodec bits = makeProbTree bits"

definition makeTreeReverseCodec :: "nat \<Rightarrow> lzma_error + treeReverseCodec" where
  "makeTreeReverseCodec bits = makeProbTree bits"

abbreviation on_probs :: "(prob list \<times> 'r, 'a) lz \<Rightarrow> (probTree \<times> 'r, 'a) lz" where
  "on_probs \<equiv> focus pt_probs (\<lambda>ps t. t\<lparr>pt_probs := ps\<rparr>)"

text \<open>The loops, with the number of remaining iterations first.\<close>

fun tree_encode :: "nat \<Rightarrow> u32 \<Rightarrow> u32 \<Rightarrow> (prob list \<times> rangeEncoder, unit) lz" where
  "tree_encode 0 v m = lret ()"
| "tree_encode (Suc i) v m =
     (let b = drop_bit i v AND 1 in
      lbind (element (unat m) (EncodeBit b)) (\<lambda>_. tree_encode i v (push_bit 1 m OR b)))"

fun tree_decode :: "nat \<Rightarrow> u32 \<Rightarrow> (prob list \<times> rangeDecoder, u32) lz" where
  "tree_decode 0 m = lret m"
| "tree_decode (Suc j) m =
     lbind (element (unat m) DecodeBit) (\<lambda>b. tree_decode j (push_bit 1 m OR b))"

definition treeCodec_Encode :: "u32 \<Rightarrow> (treeCodec \<times> rangeEncoder, unit) lz" where
  "treeCodec_Encode v s = on_probs (tree_encode (unat (pt_bits (fst s))) v 1) s"

definition treeCodec_Decode :: "(treeCodec \<times> rangeDecoder, u32) lz" where
  "treeCodec_Decode s =
     (let bits = unat (pt_bits (fst s)) in
      lbind (on_probs (tree_decode bits 1)) (\<lambda>m. lret (m - push_bit bits 1)) s)"

text \<open>The reverse tree starts with the least significant bit; \<open>i\<close> counts up to \<open>i + n\<close>.\<close>

fun reverse_encode :: "nat \<Rightarrow> nat \<Rightarrow> u32 \<Rightarrow> u32 \<Rightarrow> (prob list \<times> rangeEncoder, unit) lz" where
  "reverse_encode 0 i v m = lret ()"
| "reverse_encode (Suc n) i v m =
     (let b = drop_bit i v AND 1 in
      lbind (element (unat m) (EncodeBit b)) (\<lambda>_. reverse_encode n (i + 1) v (push_bit 1 m OR b)))"

fun reverse_decode :: "nat \<Rightarrow> nat \<Rightarrow> u32 \<Rightarrow> u32 \<Rightarrow> (prob list \<times> rangeDecoder, u32) lz" where
  "reverse_decode 0 j v m = lret v"
| "reverse_decode (Suc n) j v m =
     lbind (element (unat m) DecodeBit)
       (\<lambda>b. reverse_decode n (j + 1) (v OR push_bit j b) (push_bit 1 m OR b))"

definition treeReverseCodec_Encode :: "u32 \<Rightarrow> (treeReverseCodec \<times> rangeEncoder, unit) lz" where
  "treeReverseCodec_Encode v s = on_probs (reverse_encode (unat (pt_bits (fst s))) 0 v 1) s"

definition treeReverseCodec_Decode :: "(treeReverseCodec \<times> rangeDecoder, u32) lz" where
  "treeReverseCodec_Decode s = on_probs (reverse_decode (unat (pt_bits (fst s))) 0 0 1) s"

section \<open>Direct bits\<close>

type_synonym directCodec = byte

fun direct_encode :: "nat \<Rightarrow> u32 \<Rightarrow> ('c \<times> rangeEncoder, unit) lz" where
  "direct_encode 0 v = lret ()"
| "direct_encode (Suc i) v =
     lbind (on_coder (DirectEncodeBit (drop_bit i v))) (\<lambda>_. direct_encode i v)"

fun direct_decode :: "nat \<Rightarrow> u32 \<Rightarrow> ('c \<times> rangeDecoder, u32) lz" where
  "direct_decode 0 v = lret v"
| "direct_decode (Suc i) v =
     lbind (on_coder DirectDecodeBit) (\<lambda>x. direct_decode i (push_bit 1 v OR x))"

definition directCodec_Encode :: "directCodec \<Rightarrow> u32 \<Rightarrow> ('c \<times> rangeEncoder, unit) lz" where
  "directCodec_Encode dc v = direct_encode (unat dc) v"

definition directCodec_Decode :: "directCodec \<Rightarrow> ('c \<times> rangeDecoder, u32) lz" where
  "directCodec_Decode dc = direct_decode (unat dc) 0"

section \<open>Lengths\<close>

definition maxPosBits :: nat where "maxPosBits = 4"
definition minMatchLen :: int where "minMatchLen = 2"
definition maxMatchLen :: int where "maxMatchLen = minMatchLen + 16 + 256 - 1"

record lengthCodec =
  lc_choice :: "prob list"
  lc_low :: "treeCodec list"
  lc_mid :: "treeCodec list"
  lc_high :: treeCodec

definition lengthCodec_init :: "lzma_error + lengthCodec" where
  "lengthCodec_init =
     sbind (makeTreeCodec 3) (\<lambda>low. sbind (makeTreeCodec 3) (\<lambda>mid. sbind (makeTreeCodec 8) (\<lambda>high.
       Inr \<lparr>lc_choice = replicate 2 probInit, lc_low = replicate (2 ^ maxPosBits) low,
            lc_mid = replicate (2 ^ maxPosBits) mid, lc_high = high\<rparr>)))"

abbreviation on_choice :: "nat \<Rightarrow> (prob \<times> 'r, 'a) lz \<Rightarrow> (lengthCodec \<times> 'r, 'a) lz" where
  "on_choice i m \<equiv> focus lc_choice (\<lambda>ps lc. lc\<lparr>lc_choice := ps\<rparr>) (element i m)"

abbreviation on_low :: "u32 \<Rightarrow> (treeCodec \<times> 'r, 'a) lz \<Rightarrow> (lengthCodec \<times> 'r, 'a) lz" where
  "on_low i m \<equiv> focus lc_low (\<lambda>ts lc. lc\<lparr>lc_low := ts\<rparr>) (element (unat i) m)"

abbreviation on_mid :: "u32 \<Rightarrow> (treeCodec \<times> 'r, 'a) lz \<Rightarrow> (lengthCodec \<times> 'r, 'a) lz" where
  "on_mid i m \<equiv> focus lc_mid (\<lambda>ts lc. lc\<lparr>lc_mid := ts\<rparr>) (element (unat i) m)"

abbreviation on_high :: "(treeCodec \<times> 'r, 'a) lz \<Rightarrow> (lengthCodec \<times> 'r, 'a) lz" where
  "on_high \<equiv> focus lc_high (\<lambda>t lc. lc\<lparr>lc_high := t\<rparr>)"

definition lengthCodec_Encode :: "u32 \<Rightarrow> u32 \<Rightarrow> (lengthCodec \<times> rangeEncoder, unit) lz" where
  "lengthCodec_Encode l posState =
     (if l > of_int (maxMatchLen - minMatchLen) then lfail (LzError ''l out of range'')
      else if l < 8
      then lbind (on_choice 0 (prob_Encode 0)) (\<lambda>_. on_low posState (treeCodec_Encode l))
      else lbind (on_choice 0 (prob_Encode 1)) (\<lambda>_.
        if l < 16
        then lbind (on_choice 1 (prob_Encode 0)) (\<lambda>_. on_mid posState (treeCodec_Encode (l - 8)))
        else lbind (on_choice 1 (prob_Encode 1)) (\<lambda>_. on_high (treeCodec_Encode (l - 16)))))"

definition lengthCodec_Decode :: "u32 \<Rightarrow> (lengthCodec \<times> rangeDecoder, u32) lz" where
  "lengthCodec_Decode posState =
     lbind (on_choice 0 prob_Decode) (\<lambda>b.
       if b = 0 then on_low posState treeCodec_Decode
       else lbind (on_choice 1 prob_Decode) (\<lambda>b.
         if b = 0 then lbind (on_mid posState treeCodec_Decode) (\<lambda>l. lret (l + 8))
         else lbind (on_high treeCodec_Decode) (\<lambda>l. lret (l + 16))))"

section \<open>Distances\<close>

definition minDistance :: int where "minDistance = 1"
definition maxDistance :: int where "maxDistance = 2 ^ 32"
definition lenStates :: nat where "lenStates = 4"
definition startPosModel :: nat where "startPosModel = 4"
definition endPosModel :: nat where "endPosModel = 14"
definition posSlotBits :: nat where "posSlotBits = 6"
definition alignBits :: nat where "alignBits = 4"

definition ntz32Const :: u32 where "ntz32Const = 0x04d7651f"

definition ntz32Table :: "int list" where
  "ntz32Table =
     [0, 1, 2, 24, 3, 19, 6, 25,
      22, 4, 20, 10, 16, 7, 12, 26,
      31, 23, 18, 5, 21, 9, 15, 11,
      30, 17, 8, 14, 29, 13, 28, 27]"

definition nlz32 :: "u32 \<Rightarrow> int" where
  "nlz32 x =
     (let x = x OR drop_bit 1 x; x = x OR drop_bit 2 x; x = x OR drop_bit 4 x; x = x OR drop_bit 8 x;
          x = x OR drop_bit 16 x; x = x + 1 in
      if x = 0 then 0 else 32 - ntz32Table ! unat (drop_bit 27 (x * ntz32Const)))"

record distCodec =
  dc_posSlotCodecs :: "treeCodec list"
  dc_posModel :: "treeReverseCodec list"
  dc_alignCodec :: treeReverseCodec

fun collect :: "('e + 'a) list \<Rightarrow> 'e + 'a list" where
  "collect [] = Inr []"
| "collect (m # ms) = sbind m (\<lambda>x. sbind (collect ms) (\<lambda>xs. Inr (x # xs)))"

definition distCodec_init :: "lzma_error + distCodec" where
  "distCodec_init =
     sbind (makeTreeCodec posSlotBits) (\<lambda>slot.
     sbind (collect (map (\<lambda>i. makeTreeReverseCodec ((startPosModel + i) div 2 - 1)) [0..<endPosModel - startPosModel]))
       (\<lambda>models. sbind (makeTreeReverseCodec alignBits) (\<lambda>align.
       Inr \<lparr>dc_posSlotCodecs = replicate lenStates slot, dc_posModel = models, dc_alignCodec = align\<rparr>)))"

definition lenState :: "u32 \<Rightarrow> u32" where
  "lenState l = (if l \<ge> of_nat lenStates then of_nat lenStates - 1 else l)"

abbreviation on_slot :: "u32 \<Rightarrow> (treeCodec \<times> 'r, 'a) lz \<Rightarrow> (distCodec \<times> 'r, 'a) lz" where
  "on_slot l m \<equiv> focus dc_posSlotCodecs (\<lambda>ts dc. dc\<lparr>dc_posSlotCodecs := ts\<rparr>) (element (unat (lenState l)) m)"

abbreviation on_model :: "u32 \<Rightarrow> (treeCodec \<times> 'r, 'a) lz \<Rightarrow> (distCodec \<times> 'r, 'a) lz" where
  "on_model i m \<equiv> focus dc_posModel (\<lambda>ts dc. dc\<lparr>dc_posModel := ts\<rparr>) (element (unat i) m)"

abbreviation on_align :: "(treeCodec \<times> 'r, 'a) lz \<Rightarrow> (distCodec \<times> 'r, 'a) lz" where
  "on_align \<equiv> focus dc_alignCodec (\<lambda>t dc. dc\<lparr>dc_alignCodec := t\<rparr>)"

definition dist_slot :: "u32 \<Rightarrow> u32 \<times> u32" where
  "dist_slot dist =
     (if dist < of_nat startPosModel then (dist, 0)
      else let bits = of_int (30 - nlz32 dist); posSlot = of_nat startPosModel - 2 + push_bit 1 bits
           in (posSlot + (drop_bit (unat bits) dist AND 1), bits))"

definition distCodec_Encode :: "u32 \<Rightarrow> u32 \<Rightarrow> (distCodec \<times> rangeEncoder, unit) lz" where
  "distCodec_Encode dist l =
     (case dist_slot dist of (posSlot, bits) \<Rightarrow>
        lbind (on_slot l (treeCodec_Encode posSlot)) (\<lambda>_.
          if posSlot < of_nat startPosModel then lret ()
          else if posSlot < of_nat endPosModel
          then on_model (posSlot - of_nat startPosModel) (treeReverseCodec_Encode dist)
          else lbind (directCodec_Encode (ucast (bits - of_nat alignBits)) (drop_bit alignBits dist))
                 (\<lambda>_. on_align (treeReverseCodec_Encode dist))))"

definition distCodec_Decode :: "u32 \<Rightarrow> (distCodec \<times> rangeDecoder, u32) lz" where
  "distCodec_Decode l =
     lbind (on_slot l treeCodec_Decode) (\<lambda>posSlot.
       if posSlot < of_nat startPosModel then lret posSlot
       else
         let bits = drop_bit 1 posSlot - 1; dist = push_bit (unat bits) (2 OR (posSlot AND 1)) in
         if posSlot < of_nat endPosModel
         then lbind (on_model (posSlot - of_nat startPosModel) treeReverseCodec_Decode) (\<lambda>u. lret (dist + u))
         else lbind (directCodec_Decode (ucast (bits - of_nat alignBits))) (\<lambda>u.
              let dist = dist + push_bit alignBits u in
              lbind (on_align treeReverseCodec_Decode) (\<lambda>u. lret (dist + u))))"

section \<open>Literals\<close>

definition minLC :: int where "minLC = 0"
definition maxLC :: int where "maxLC = 8"
definition minLP :: int where "minLP = 0"
definition maxLP :: int where "maxLP = 4"

type_synonym literalCodec = "prob list"

definition literalCodec_init :: "int \<Rightarrow> int \<Rightarrow> lzma_error + literalCodec" where
  "literalCodec_init lc lp =
     (if \<not> (minLC \<le> lc \<and> lc \<le> maxLC) then Inl LzPanic
      else if \<not> (minLP \<le> lp \<and> lp \<le> maxLP) then Inl LzPanic
      else Inr (replicate (0x300 * 2 ^ nat (lc + lp)) probInit))"

text \<open>The slice \<open>c.probs[k : k+n]\<close>.\<close>

definition slice :: "nat \<Rightarrow> nat \<Rightarrow> ('b list \<times> 'r, 'a) lz \<Rightarrow> ('b list \<times> 'r, 'a) lz" where
  "slice k n m s =
     (if k + n \<le> length (fst s)
      then focus (\<lambda>xs. take n (drop k xs)) (\<lambda>ys xs. take k xs @ ys @ drop (k + n) xs) m s
      else (Inl LzPanic, s))"

text \<open>
  The loops of the literal codec. \<open>symbol\<close> starts at 1 and doubles in every round, so that it
  reaches \<open>0x100\<close> after eight of them, the fuel; running out of it is a panic.
\<close>

fun literal_encode :: "nat \<Rightarrow> u32 \<Rightarrow> u32 \<Rightarrow> (prob list \<times> rangeEncoder, unit) lz" where
  "literal_encode n symbol r =
     (if symbol < 0x100
      then case n of
          0 \<Rightarrow> lfail LzPanic
        | Suc n \<Rightarrow>
            let bit = drop_bit 7 r AND 1 in
            lbind (element (unat symbol) (prob_Encode bit)) (\<lambda>_. literal_encode n (push_bit 1 symbol OR bit) (push_bit 1 r))
      else lret ())"

fun literal_decode :: "nat \<Rightarrow> u32 \<Rightarrow> (prob list \<times> rangeDecoder, u32) lz" where
  "literal_decode n symbol =
     (if symbol < 0x100
      then case n of
          0 \<Rightarrow> lfail LzPanic
        | Suc n \<Rightarrow> lbind (element (unat symbol) DecodeBit) (\<lambda>bit. literal_decode n (push_bit 1 symbol OR bit))
      else lret symbol)"

fun matched_encode :: "nat \<Rightarrow> u32 \<Rightarrow> u32 \<Rightarrow> u32 \<Rightarrow> (prob list \<times> rangeEncoder, unit) lz" where
  "matched_encode 0 m symbol r = lfail LzPanic"
| "matched_encode (Suc n) m symbol r =
     (let matchBit = drop_bit 7 m AND 1; m = push_bit 1 m; bit = drop_bit 7 r AND 1; r = push_bit 1 r;
          i = push_bit 8 (1 + matchBit) OR symbol in
      lbind (element (unat i) (prob_Encode bit)) (\<lambda>_.
        let symbol = push_bit 1 symbol OR bit in
        if matchBit \<noteq> bit \<or> symbol \<ge> 0x100 then literal_encode n symbol r
        else matched_encode n m symbol r))"

fun matched_decode :: "nat \<Rightarrow> u32 \<Rightarrow> u32 \<Rightarrow> (prob list \<times> rangeDecoder, u32) lz" where
  "matched_decode 0 m symbol = lfail LzPanic"
| "matched_decode (Suc n) m symbol =
     (let matchBit = drop_bit 7 m AND 1; m = push_bit 1 m; i = push_bit 8 (1 + matchBit) OR symbol in
      lbind (element (unat i) DecodeBit) (\<lambda>bit.
        let symbol = push_bit 1 symbol OR bit in
        if matchBit \<noteq> bit \<or> symbol \<ge> 0x100 then literal_decode n symbol
        else matched_decode n m symbol))"

declare literal_encode.simps [simp del] literal_decode.simps [simp del]
declare matched_encode.simps [simp del] matched_decode.simps [simp del]

definition literalCodec_Encode ::
  "byte \<Rightarrow> u32 \<Rightarrow> byte \<Rightarrow> u32 \<Rightarrow> (literalCodec \<times> rangeEncoder, unit) lz" where
  "literalCodec_Encode s state match litState =
     (let k = litState * 0x300 in
      slice (unat k) 0x300
        (if state \<ge> 7 then matched_encode 8 (ucast match) 1 (ucast s) else literal_encode 8 1 (ucast s)))"

definition literalCodec_Decode ::
  "u32 \<Rightarrow> byte \<Rightarrow> u32 \<Rightarrow> (literalCodec \<times> rangeDecoder, byte) lz" where
  "literalCodec_Decode state match litState =
     (let k = litState * 0x300 in
      lbind (slice (unat k) 0x300
          (if state \<ge> 7 then matched_decode 8 (ucast match) 1 else literal_decode 8 1))
        (\<lambda>symbol. lret (ucast (symbol - 0x100))))"

end
