(* ===== verification/LzmaState.thy ===== *)
theory LzmaState
  imports LzmaCodecs
begin

text \<open>
  \<open>internal/xz/lzma\<close>: the operations of the stream (\<open>operation.go\<close>), the properties
  (\<open>properties.go\<close>) and the probability model with the four last distances and the state of the
  literal and match history (\<open>state.go\<close>).
\<close>

section \<open>Operations\<close>

text \<open>An operation with \<open>op_n = 0\<close> is the literal \<open>op_b\<close>, any other a match.\<close>

record match =
  m_distance :: int
  m_n :: int

record operation =
  op_match :: match
  op_b :: byte

definition literalOperation :: "byte \<Rightarrow> operation" where
  "literalOperation b = \<lparr>op_match = \<lparr>m_distance = 0, m_n = 0\<rparr>, op_b = b\<rparr>"

definition matchOperation :: "match \<Rightarrow> operation" where
  "matchOperation m = \<lparr>op_match = m, op_b = 0\<rparr>"

definition operation_Len :: "operation \<Rightarrow> int" where
  "operation_Len op = (if m_n (op_match op) = 0 then 1 else m_n (op_match op))"

section \<open>Properties\<close>

definition minPB :: int where "minPB = 0"
definition maxPB :: int where "maxPB = 4"

definition maxPropertyCode :: int where
  "maxPropertyCode = (maxPB + 1) * (maxLP + 1) * (maxLC + 1) - 1"

record Properties =
  LC :: int
  LP :: int
  PB :: int

definition PropertiesForCode :: "byte \<Rightarrow> lzma_error + Properties" where
  "PropertiesForCode code =
     (if uint code > maxPropertyCode then Inl (LzError ''invalid properties code'')
      else
        let lc = uint (code mod 9); code = code div 9; lp = uint (code mod 5); code = code div 5
        in Inr \<lparr>LC = lc, LP = lp, PB = uint (code mod 5)\<rparr>)"

definition Properties_verify :: "Properties \<Rightarrow> lzma_error option" where
  "Properties_verify p =
     (if \<not> (minLC \<le> LC p \<and> LC p \<le> maxLC) then Some (LzError ''lc out of range'')
      else if \<not> (minLP \<le> LP p \<and> LP p \<le> maxLP) then Some (LzError ''lp out of range'')
      else if \<not> (minPB \<le> PB p \<and> PB p \<le> maxPB) then Some (LzError ''pb out of range'')
      else None)"

definition Properties_Code :: "Properties \<Rightarrow> byte" where
  "Properties_Code p = of_int ((PB p * 5 + LP p) * 9 + LC p)"

section \<open>The state\<close>

definition states :: nat where "states = 12"

record lzma_state =
  rep :: "u32 list"
  isMatch :: "prob list"
  isRepG0Long :: "prob list"
  isRep :: "prob list"
  isRepG0 :: "prob list"
  isRepG1 :: "prob list"
  isRepG2 :: "prob list"
  litCodec :: literalCodec
  lenCodec :: lengthCodec
  repLenCodec :: lengthCodec
  distCodec_of :: distCodec
  history :: u32 \<comment> \<open>the field \<open>state\<close>\<close>
  posBitMask :: u32
  st_Properties :: Properties

definition initProbSlice :: "nat \<Rightarrow> prob list" where
  "initProbSlice n = replicate n probInit"

text \<open>\<open>Reset\<close> depends on the properties only; it panics when they are out of range.\<close>

definition state_Reset :: "Properties \<Rightarrow> lzma_error + lzma_state" where
  "state_Reset p =
     sbind (literalCodec_init (LC p) (LP p)) (\<lambda>lit.
     sbind lengthCodec_init (\<lambda>len.
     sbind lengthCodec_init (\<lambda>replen.
     sbind distCodec_init (\<lambda>dist.
       Inr \<lparr>rep = replicate 4 0,
            isMatch = initProbSlice (states * 2 ^ maxPosBits),
            isRepG0Long = initProbSlice (states * 2 ^ maxPosBits),
            isRep = initProbSlice states, isRepG0 = initProbSlice states,
            isRepG1 = initProbSlice states, isRepG2 = initProbSlice states,
            litCodec = lit, lenCodec = len, repLenCodec = replen, distCodec_of = dist,
            history = 0, posBitMask = push_bit (nat (PB p)) 1 - 1, st_Properties = p\<rparr>))))"

definition newState :: "Properties \<Rightarrow> lzma_error + lzma_state" where
  "newState p = state_Reset p"

definition updateStateLiteral :: "lzma_state \<Rightarrow> lzma_state" where
  "updateStateLiteral s =
     (if history s < 4 then s\<lparr>history := 0\<rparr>
      else if history s < 10 then s\<lparr>history := history s - 3\<rparr>
      else s\<lparr>history := history s - 6\<rparr>)"

definition updateStateMatch :: "lzma_state \<Rightarrow> lzma_state" where
  "updateStateMatch s = s\<lparr>history := if history s < 7 then 7 else 10\<rparr>"

definition updateStateRep :: "lzma_state \<Rightarrow> lzma_state" where
  "updateStateRep s = s\<lparr>history := if history s < 7 then 8 else 11\<rparr>"

definition updateStateShortRep :: "lzma_state \<Rightarrow> lzma_state" where
  "updateStateShortRep s = s\<lparr>history := if history s < 7 then 9 else 11\<rparr>"

text \<open>The indexes computed from the position: \<open>state1\<close>, \<open>state2\<close> and \<open>posState\<close>.\<close>

definition state_states :: "lzma_state \<Rightarrow> int \<Rightarrow> u32 \<times> u32 \<times> u32" where
  "state_states s dictHead =
     (let posState = of_int dictHead AND posBitMask s
      in (history s, push_bit maxPosBits (history s) OR posState, posState))"

definition state_litState :: "lzma_state \<Rightarrow> byte \<Rightarrow> int \<Rightarrow> u32" where
  "state_litState s prev dictHead =
     (let lp = nat (LP (st_Properties s)); lc = nat (LC (st_Properties s)) in
      push_bit lc (of_int dictHead AND (push_bit lp 1 - 1)) OR drop_bit (8 - lc) (ucast prev))"

section \<open>Access to the parts of the state\<close>

definition modify :: "('c \<Rightarrow> 'c) \<Rightarrow> ('c \<times> 'r, unit) lz" where
  "modify f s = (case s of (c, r) \<Rightarrow> (Inr (), f c, r))"

abbreviation at_isMatch :: "u32 \<Rightarrow> (prob \<times> 'r, 'a) lz \<Rightarrow> (lzma_state \<times> 'r, 'a) lz" where
  "at_isMatch i m \<equiv> focus isMatch (\<lambda>ps s. s\<lparr>isMatch := ps\<rparr>) (element (unat i) m)"

abbreviation at_isRepG0Long :: "u32 \<Rightarrow> (prob \<times> 'r, 'a) lz \<Rightarrow> (lzma_state \<times> 'r, 'a) lz" where
  "at_isRepG0Long i m \<equiv> focus isRepG0Long (\<lambda>ps s. s\<lparr>isRepG0Long := ps\<rparr>) (element (unat i) m)"

abbreviation at_isRep :: "u32 \<Rightarrow> (prob \<times> 'r, 'a) lz \<Rightarrow> (lzma_state \<times> 'r, 'a) lz" where
  "at_isRep i m \<equiv> focus isRep (\<lambda>ps s. s\<lparr>isRep := ps\<rparr>) (element (unat i) m)"

abbreviation at_isRepG0 :: "u32 \<Rightarrow> (prob \<times> 'r, 'a) lz \<Rightarrow> (lzma_state \<times> 'r, 'a) lz" where
  "at_isRepG0 i m \<equiv> focus isRepG0 (\<lambda>ps s. s\<lparr>isRepG0 := ps\<rparr>) (element (unat i) m)"

abbreviation at_isRepG1 :: "u32 \<Rightarrow> (prob \<times> 'r, 'a) lz \<Rightarrow> (lzma_state \<times> 'r, 'a) lz" where
  "at_isRepG1 i m \<equiv> focus isRepG1 (\<lambda>ps s. s\<lparr>isRepG1 := ps\<rparr>) (element (unat i) m)"

abbreviation at_isRepG2 :: "u32 \<Rightarrow> (prob \<times> 'r, 'a) lz \<Rightarrow> (lzma_state \<times> 'r, 'a) lz" where
  "at_isRepG2 i m \<equiv> focus isRepG2 (\<lambda>ps s. s\<lparr>isRepG2 := ps\<rparr>) (element (unat i) m)"

abbreviation on_litCodec :: "(literalCodec \<times> 'r, 'a) lz \<Rightarrow> (lzma_state \<times> 'r, 'a) lz" where
  "on_litCodec \<equiv> focus litCodec (\<lambda>c s. s\<lparr>litCodec := c\<rparr>)"

abbreviation on_lenCodec :: "(lengthCodec \<times> 'r, 'a) lz \<Rightarrow> (lzma_state \<times> 'r, 'a) lz" where
  "on_lenCodec \<equiv> focus lenCodec (\<lambda>c s. s\<lparr>lenCodec := c\<rparr>)"

abbreviation on_repLenCodec :: "(lengthCodec \<times> 'r, 'a) lz \<Rightarrow> (lzma_state \<times> 'r, 'a) lz" where
  "on_repLenCodec \<equiv> focus repLenCodec (\<lambda>c s. s\<lparr>repLenCodec := c\<rparr>)"

abbreviation on_distCodec :: "(distCodec \<times> 'r, 'a) lz \<Rightarrow> (lzma_state \<times> 'r, 'a) lz" where
  "on_distCodec \<equiv> focus distCodec_of (\<lambda>c s. s\<lparr>distCodec_of := c\<rparr>)"

section \<open>Facts\<close>

lemmas lclppb_defs =
  minLC_def maxLC_def minLP_def maxLP_def minPB_def maxPB_def maxPropertyCode_def

lemma verify_None:
  "Properties_verify p = None \<longleftrightarrow> 0 \<le> LC p \<and> LC p \<le> 8 \<and> 0 \<le> LP p \<and> LP p \<le> 4 \<and> 0 \<le> PB p \<and> PB p \<le> 4"
  by (auto simp: Properties_verify_def lclppb_defs)

lemma Properties_Code_decodes:
  assumes "Properties_verify p = None"
  shows "PropertiesForCode (Properties_Code p) = Inr p"
proof -
  define k where "k = (PB p * 5 + LP p) * 9 + LC p"
  have r: "0 \<le> LC p" "LC p \<le> 8" "0 \<le> LP p" "LP p \<le> 4" "0 \<le> PB p" "PB p \<le> 4"
    using assms by (simp_all add: verify_None)
  have k: "0 \<le> k" "k \<le> 224" using r by (simp_all add: k_def)
  then have u: "uint (Properties_Code p) = k"
    unfolding Properties_Code_def k_def [symmetric] uint_word_of_int by simp
  have d: "k div 9 = PB p * 5 + LP p" "k mod 9 = LC p"
    using r unfolding k_def by (simp_all add: div_mult_self3 mod_mult_self3 div_pos_pos_trivial mod_pos_pos_trivial del: distrib_right_numeral)
  have e: "(PB p * 5 + LP p) div 5 = PB p" "(PB p * 5 + LP p) mod 5 = LP p" "PB p mod 5 = PB p" "LP p mod 5 = LP p"
    using r by (simp_all only: div_mult_self3 mod_mult_self3 div_pos_pos_trivial mod_pos_pos_trivial)
  show ?thesis
    using k by (simp add: PropertiesForCode_def u lclppb_defs Let_def uint_div_distrib uint_mod_distrib d e)
qed

lemma PropertiesForCode_ok:
  assumes "PropertiesForCode code = Inr p"
  shows "Properties_verify p = None" "Properties_Code p = code"
proof -
  define k where "k = uint code"
  have k: "0 \<le> k" "k \<le> 224"
    using assms by (simp_all add: k_def PropertiesForCode_def lclppb_defs split: if_splits)
  have "k div 9 div 5 \<le> 224 div 9 div 5" "0 div 9 div 5 \<le> k div 9 div 5"
    using k by (simp_all only: zdiv_mono1 zero_less_numeral)
  then have top: "k div 9 div 5 mod 5 = k div 9 div 5" by (intro mod_pos_pos_trivial) simp_all
  have "\<lparr>LC = k mod 9, LP = k div 9 mod 5, PB = k div 9 div 5 mod 5\<rparr> = p"
    using assms k
    by (simp only: PropertiesForCode_def lclppb_defs k_def Let_def uint_div_distrib uint_mod_distrib)
      (simp add: top [unfolded k_def])
  then have p: "LC p = k mod 9" "LP p = k div 9 mod 5" "PB p = k div 9 div 5 mod 5" by auto
  then show "Properties_verify p = None"
  proof -
    have "0 \<le> j mod 9" "j mod 9 \<le> 8" "0 \<le> j mod 5" "j mod 5 \<le> 4" for j :: int
      using pos_mod_bound [of 9 j] pos_mod_bound [of 5 j] by simp_all
    then show ?thesis unfolding verify_None p by blast
  qed
  have "(PB p * 5 + LP p) * 9 + LC p = k" 
  proof -
    show ?thesis unfolding p top by (simp add: div_mult_mod_eq)
  qed
  then show "Properties_Code p = code" by (simp add: Properties_Code_def k_def)
qed

end
