(* ===== verification/LzmaDict.thy ===== *)
theory LzmaDict
  imports LzmaState
begin

text \<open>
  \<open>internal/xz/lzma\<close>: the circular buffer (\<open>buffer.go\<close>) and the dictionaries of the decoder
  (\<open>decoderdict.go\<close>) and of the encoder (\<open>encoderdict.go\<close>). Indexes into the buffer are natural
  numbers; a difference of two of them is an integer, as in the code. A call that writes returns
  the number of bytes it took and \<open>ErrNoSpace\<close> when it could not take them all.
\<close>

section \<open>The circular buffer\<close>

record buffer =
  b_data :: "byte list"
  b_front :: nat
  b_rear :: nat

definition newBuffer :: "nat \<Rightarrow> buffer" where
  "newBuffer sz = \<lparr>b_data = replicate (sz + 1) 0, b_front = 0, b_rear = 0\<rparr>"

definition buffer_Cap :: "buffer \<Rightarrow> nat" where
  "buffer_Cap b = length (b_data b) - 1"

definition buffer_Reset :: "buffer \<Rightarrow> buffer" where
  "buffer_Reset b = b\<lparr>b_front := 0, b_rear := 0\<rparr>"

definition Buffered :: "buffer \<Rightarrow> nat" where
  "Buffered b =
     (let delta = int (b_front b) - int (b_rear b) in
      nat (if delta < 0 then delta + int (length (b_data b)) else delta))"

definition buffer_Available :: "buffer \<Rightarrow> nat" where
  "buffer_Available b =
     (let delta = int (b_rear b) - 1 - int (b_front b) in
      nat (if delta < 0 then delta + int (length (b_data b)) else delta))"

definition addIndex :: "buffer \<Rightarrow> nat \<Rightarrow> nat \<Rightarrow> nat" where
  "addIndex b i n =
     (let j = int i + (int n - int (length (b_data b))) in
      nat (if j < 0 then j + int (length (b_data b)) else j))"

text \<open>\<open>Peek(p)\<close> with \<open>len(p) = k\<close>: the bytes stored in \<open>p\<close>.\<close>

definition Peek :: "buffer \<Rightarrow> nat \<Rightarrow> byte list" where
  "Peek b k =
     (let n = min k (Buffered b); p = take n (drop (b_rear b) (b_data b)) in
      if length p < n then p @ take (n - length p) (b_data b) else p)"

definition buffer_Read :: "buffer \<Rightarrow> nat \<Rightarrow> byte list \<times> buffer" where
  "buffer_Read b k = (let p = Peek b k in (p, b\<lparr>b_rear := addIndex b (b_rear b) (length p)\<rparr>))"

definition Discard :: "buffer \<Rightarrow> int \<Rightarrow> (lzma_error option \<times> int) \<times> buffer" where
  "Discard b n =
     (if n < 0 then ((Some (LzError ''negative argument''), 0), b)
      else
        let m = int (Buffered b); k = min n m in
        ((if m < n then Some (LzError ''discarded less bytes then requested'') else None, k),
         b\<lparr>b_rear := addIndex b (b_rear b) (nat k)\<rparr>))"

definition buffer_Write :: "buffer \<Rightarrow> byte list \<Rightarrow> nat \<times> lzma_error option \<times> buffer" where
  "buffer_Write b p =
     (let m = buffer_Available b; n = min (length p) m; q = take n p;
          err = (if m < length p then Some ErrNoSpace else None);
          k = min n (length (b_data b) - b_front b);
          data1 = copy_at (b_data b) (b_front b) (take k q);
          data2 = (if k < n then copy_at data1 0 (drop k q) else data1)
      in (n, err, b\<lparr>b_data := data2, b_front := addIndex b (b_front b) n\<rparr>))"

definition buffer_WriteByte :: "buffer \<Rightarrow> byte \<Rightarrow> lzma_error option \<times> buffer" where
  "buffer_WriteByte b c =
     (if buffer_Available b < 1 then (Some ErrNoSpace, b)
      else (None, b\<lparr>b_data := (b_data b)[b_front b := c], b_front := addIndex b (b_front b) 1\<rparr>))"

fun common_prefix :: "byte list \<Rightarrow> byte list \<Rightarrow> nat" where
  "common_prefix (x # xs) (y # ys) = (if x = y then Suc (common_prefix xs ys) else 0)"
| "common_prefix _ _ = 0"

definition prefixLen :: "byte list \<Rightarrow> byte list \<Rightarrow> nat" where
  "prefixLen a b = (if length a > length b then common_prefix b a else common_prefix a b)"

definition matchLen :: "buffer \<Rightarrow> nat \<Rightarrow> byte list \<Rightarrow> nat" where
  "matchLen b distance p =
     (let i = int (b_rear b) - int distance in
      if i < 0
      then let n = prefixLen p (drop (nat (int (length (b_data b)) + i)) (b_data b)) in
        if int n < - i then n
        else n + prefixLen (drop n p) (b_data b)
      else prefixLen p (drop (nat i) (b_data b)))"

section \<open>The dictionary of the decoder\<close>

definition MaxDictCap :: int where "MaxDictCap = 2 ^ 32 - 1"
definition MinDictCap :: int where "MinDictCap = 2 ^ 12"

record decoderDict =
  dd_buf :: buffer
  dd_head :: nat

definition newDecoderDict :: "int \<Rightarrow> lzma_error + decoderDict" where
  "newDecoderDict dictCap =
     (if \<not> (1 \<le> dictCap \<and> dictCap \<le> MaxDictCap) then Inl (LzError ''dictCap out of range'')
      else Inr \<lparr>dd_buf = newBuffer (nat dictCap), dd_head = 0\<rparr>)"

definition decoderDict_Reset :: "decoderDict \<Rightarrow> decoderDict" where
  "decoderDict_Reset d = d\<lparr>dd_head := 0\<rparr>"

definition decoderDict_WriteByte :: "decoderDict \<Rightarrow> byte \<Rightarrow> lzma_error option \<times> decoderDict" where
  "decoderDict_WriteByte d c =
     (case buffer_WriteByte (dd_buf d) c of
        (Some err, b) \<Rightarrow> (Some err, d\<lparr>dd_buf := b\<rparr>)
      | (None, b) \<Rightarrow> (None, d\<lparr>dd_buf := b, dd_head := dd_head d + 1\<rparr>))"

definition dictLen :: "decoderDict \<Rightarrow> nat" where
  "dictLen d =
     (let capacity = buffer_Cap (dd_buf d) in if dd_head d \<ge> capacity then capacity else dd_head d)"

definition back_index :: "buffer \<Rightarrow> nat \<Rightarrow> int \<Rightarrow> nat" where
  "back_index b from_index dist =
     (let i = int from_index - dist in nat (if i < 0 then i + int (length (b_data b)) else i))"

definition byteAt :: "decoderDict \<Rightarrow> int \<Rightarrow> byte" where
  "byteAt d dist =
     (if \<not> (0 < dist \<and> dist \<le> int (dictLen d)) then 0
      else b_data (dd_buf d) ! back_index (dd_buf d) (b_front (dd_buf d)) dist)"

text \<open>The loop of \<open>writeMatch\<close>; the panic of the code on a short write ends it.\<close>

function copy_match :: "buffer \<Rightarrow> nat \<Rightarrow> nat \<Rightarrow> lzma_error option \<times> buffer" where
  "copy_match b i n =
     (if n = 0 then (None, b)
      else
        let (p, i') = (if i \<ge> b_front b then (drop i (b_data b), 0)
                       else (take (b_front b - i) (drop i (b_data b)), b_front b));
            p = take n p; (_, err, b') = buffer_Write b p in
        if err \<noteq> None then (Some LzPanic, b')
        else if p = [] then (Some LzPanic, b') \<comment> \<open>the code would not end; see the invariant of the buffer\<close>
        else copy_match b' i' (n - length p))"
  by pat_completeness auto
termination by (relation "measure (\<lambda>(_, _, n). n)") auto

declare copy_match.simps [simp del]

definition decoderDict_writeMatch :: "decoderDict \<Rightarrow> int \<Rightarrow> int \<Rightarrow> lzma_error option \<times> decoderDict" where
  "decoderDict_writeMatch d dist n =
     (if \<not> (0 < dist \<and> dist \<le> int (dictLen d)) then (Some (LzError ''distance out of range''), d)
      else if \<not> (0 < n \<and> n \<le> maxMatchLen) then (Some (LzError ''length out of range''), d)
      else if n > int (buffer_Available (dd_buf d)) then (Some ErrNoSpace, d)
      else case copy_match (dd_buf d) (back_index (dd_buf d) (b_front (dd_buf d)) dist) (nat n) of
             (err, b) \<Rightarrow> (err, d\<lparr>dd_head := dd_head d + nat n, dd_buf := b\<rparr>))"

definition decoderDict_Write :: "decoderDict \<Rightarrow> byte list \<Rightarrow> nat \<times> lzma_error option \<times> decoderDict" where
  "decoderDict_Write d p =
     (case buffer_Write (dd_buf d) p of
        (n, err, b) \<Rightarrow> (n, err, d\<lparr>dd_buf := b, dd_head := dd_head d + n\<rparr>))"

definition decoderDict_Available :: "decoderDict \<Rightarrow> nat" where
  "decoderDict_Available d = buffer_Available (dd_buf d)"

definition decoderDict_Read :: "decoderDict \<Rightarrow> nat \<Rightarrow> byte list \<times> decoderDict" where
  "decoderDict_Read d k = (case buffer_Read (dd_buf d) k of (p, b) \<Rightarrow> (p, d\<lparr>dd_buf := b\<rparr>))"

section \<open>The dictionary of the encoder\<close>

text \<open>The matcher, which the code keeps in the dictionary, is a component of its own: \<open>Discard\<close>
  returns the bytes it hands to the matcher.\<close>

record encoderDict =
  ed_buf :: buffer
  ed_head :: nat
  ed_capacity :: nat

definition newEncoderDict :: "int \<Rightarrow> int \<Rightarrow> lzma_error + encoderDict" where
  "newEncoderDict dictCap bufSize =
     (if \<not> (1 \<le> dictCap \<and> dictCap \<le> MaxDictCap) then Inl (LzError ''dictionary capacity out of range'')
      else if bufSize < 1 then Inl (LzError ''buffer size must be larger than zero'')
      else Inr \<lparr>ed_buf = newBuffer (nat (dictCap + bufSize)), ed_head = 0, ed_capacity = nat dictCap\<rparr>)"

text \<open>\<open>None\<close> is the panic of a discard of more bytes than there are, or than the array holds.\<close>

definition encoderDict_Discard :: "encoderDict \<Rightarrow> nat \<Rightarrow> (encoderDict \<times> byte list) option" where
  "encoderDict_Discard d n =
     (if int n > maxMatchLen then None
      else case buffer_Read (ed_buf d) n of
        (p, b) \<Rightarrow> if length p < n then None
                  else Some (d\<lparr>ed_buf := b, ed_head := ed_head d + n\<rparr>, p))"

definition encoderDict_Len :: "encoderDict \<Rightarrow> nat" where
  "encoderDict_Len d =
     (let n = buffer_Available (ed_buf d) in if n > ed_head d then ed_head d else n)"

definition DictLen :: "encoderDict \<Rightarrow> nat" where
  "DictLen d = (if ed_head d < ed_capacity d then ed_head d else ed_capacity d)"

definition encoderDict_Available :: "encoderDict \<Rightarrow> int" where
  "encoderDict_Available d = int (buffer_Available (ed_buf d)) - int (DictLen d)"

text \<open>\<open>p[:m]\<close> with a negative \<open>m\<close> is a panic; the invariant of the dictionary excludes it.\<close>

definition encoderDict_Write :: "encoderDict \<Rightarrow> byte list \<Rightarrow> nat \<times> lzma_error option \<times> encoderDict" where
  "encoderDict_Write d p =
     (let m = encoderDict_Available d in
      if int (length p) > m \<and> m < 0 then (0, Some LzPanic, d)
      else
        let (q, err) = (if int (length p) > m then (take (nat m) p, Some ErrNoSpace) else (p, None));
            (n, e, b) = buffer_Write (ed_buf d) q
        in (n, if e \<noteq> None then e else err, d\<lparr>ed_buf := b\<rparr>))"

definition Pos :: "encoderDict \<Rightarrow> nat" where
  "Pos d = ed_head d"

definition ByteAt :: "encoderDict \<Rightarrow> int \<Rightarrow> byte" where
  "ByteAt d distance =
     (if \<not> (0 < distance \<and> distance \<le> int (encoderDict_Len d)) then 0
      else b_data (ed_buf d) ! back_index (ed_buf d) (b_rear (ed_buf d)) distance)"

text \<open>\<open>CopyN\<close> to a writer that keeps what it is given.\<close>

definition encoderDict_CopyN :: "encoderDict \<Rightarrow> int \<Rightarrow> byte list \<times> lzma_error option" where
  "encoderDict_CopyN d n =
     (if n \<le> 0 then ([], None)
      else
        let m = int (encoderDict_Len d); err = (if n > m then Some ErrNoSpace else None);
            i = int (b_rear (ed_buf d)) - min n m; data = b_data (ed_buf d) in
        (if i < 0 then drop (nat (i + int (length data))) data @ take (b_rear (ed_buf d)) data
         else take (b_rear (ed_buf d) - nat i) (drop (nat i) data), err))"

definition encoderDict_Buffered :: "encoderDict \<Rightarrow> nat" where
  "encoderDict_Buffered d = Buffered (ed_buf d)"

end
