(* ===== verification/LzmaOps.thy ===== *)
theory LzmaOps
  imports LzmaDict
begin

text \<open>
  \<open>internal/xz/lzma\<close>: the coding of one operation, in both directions, \<open>encoder.go\<close> and
  \<open>decoder.go\<close>. The dictionaries are only read here; the state of these operations is the
  probability model and the range coder.
\<close>

text \<open>Reading the model.\<close>

definition gets :: "('c \<Rightarrow> 'a) \<Rightarrow> ('c \<times> 'r, 'a) lz" where
  "gets f s = (case s of (c, r) \<Rightarrow> (Inr (f c), c, r))"

section \<open>Writing operations\<close>

definition writeLiteral :: "encoderDict \<Rightarrow> byte \<Rightarrow> (lzma_state \<times> rangeEncoder, unit) lz" where
  "writeLiteral dict b =
     lbind (gets (\<lambda>s. state_states s (int (Pos dict)))) (\<lambda>(state, state2, _).
     lbind (at_isMatch state2 (prob_Encode 0)) (\<lambda>_.
     lbind (gets (\<lambda>s. state_litState s (ByteAt dict 1) (int (Pos dict)))) (\<lambda>litState.
     lbind (gets (\<lambda>s. ByteAt dict (int (unat (rep s ! 0)) + 1))) (\<lambda>match.
     lbind (on_litCodec (literalCodec_Encode b state match litState)) (\<lambda>_.
     modify updateStateLiteral)))))"

definition iverson :: "bool \<Rightarrow> u32" where
  "iverson ok = (if ok then 1 else 0)"

text \<open>The loop over \<open>rep\<close>: the first of the four that equals \<open>dist\<close>, or 4.\<close>

definition find_rep :: "u32 list \<Rightarrow> u32 \<Rightarrow> nat" where
  "find_rep r dist =
     (if r ! 0 = dist then 0 else if r ! 1 = dist then 1 else if r ! 2 = dist then 2
      else if r ! 3 = dist then 3 else 4)"

definition push_rep :: "u32 \<Rightarrow> lzma_state \<Rightarrow> lzma_state" where
  "push_rep dist s = s\<lparr>rep := [dist, rep s ! 0, rep s ! 1, rep s ! 2]\<rparr>"

text \<open>The updates of \<open>rep\<close> for \<open>g\<close> in 1, 2, 3.\<close>

definition shift_reps :: "nat \<Rightarrow> u32 \<Rightarrow> u32 list \<Rightarrow> u32 list" where
  "shift_reps g dist r =
     (let r = (if g = 3 then r[3 := r ! 2] else r); r = (if g \<ge> 2 then r[2 := r ! 1] else r);
          r = r[1 := r ! 0]
      in r[0 := dist])"

definition shift_rep :: "nat \<Rightarrow> u32 \<Rightarrow> lzma_state \<Rightarrow> lzma_state" where
  "shift_rep g dist s = s\<lparr>rep := shift_reps g dist (rep s)\<rparr>"

definition writeMatch :: "encoderDict \<Rightarrow> match \<Rightarrow> (lzma_state \<times> rangeEncoder, unit) lz" where
  "writeMatch dict m =
     (if \<not> (minDistance \<le> m_distance m \<and> m_distance m \<le> maxDistance) then lfail LzPanic
      else
        let dist = (of_int (m_distance m - minDistance) :: u32) in
        lbind (gets rep) (\<lambda>r.
        if \<not> (minMatchLen \<le> m_n m \<and> m_n m \<le> maxMatchLen) \<and> \<not> (dist = r ! 0 \<and> m_n m = 1)
        then lfail LzPanic
        else
          lbind (gets (\<lambda>s. state_states s (int (Pos dict)))) (\<lambda>(state, state2, posState).
          lbind (at_isMatch state2 (prob_Encode 1)) (\<lambda>_.
          let g = find_rep r dist; b = iverson (g < 4) in
          lbind (at_isRep state (prob_Encode b)) (\<lambda>_.
          let n = (of_int (m_n m - minMatchLen) :: u32) in
          if b = 0
          then
            lbind (modify (push_rep dist)) (\<lambda>_.
            lbind (modify updateStateMatch) (\<lambda>_.
            lbind (on_lenCodec (lengthCodec_Encode n posState)) (\<lambda>_.
            on_distCodec (distCodec_Encode dist n))))
          else
            let b = iverson (g \<noteq> 0) in
            lbind (at_isRepG0 state (prob_Encode b)) (\<lambda>_.
            if b = 0
            then
              let b = iverson (m_n m \<noteq> 1) in
              lbind (at_isRepG0Long state2 (prob_Encode b)) (\<lambda>_.
              if b = 0 then modify updateStateShortRep
              else lbind (modify updateStateRep) (\<lambda>_. on_repLenCodec (lengthCodec_Encode n posState)))
            else
              let b = iverson (g \<noteq> 1) in
              lbind (at_isRepG1 state (prob_Encode b)) (\<lambda>_.
              lbind (if b = 1 then at_isRepG2 state (prob_Encode (iverson (g \<noteq> 2))) else lret ()) (\<lambda>_.
              lbind (modify (shift_rep g dist)) (\<lambda>_.
              lbind (modify updateStateRep) (\<lambda>_.
              on_repLenCodec (lengthCodec_Encode n posState)))))))))))"

section \<open>Reading operations\<close>

definition decodeLiteral :: "decoderDict \<Rightarrow> (lzma_state \<times> rangeDecoder, operation) lz" where
  "decodeLiteral dict =
     lbind (gets (\<lambda>s. state_litState s (byteAt dict 1) (int (dd_head dict)))) (\<lambda>litState.
     lbind (gets (\<lambda>s. byteAt dict (int (unat (rep s ! 0)) + 1))) (\<lambda>match.
     lbind (gets history) (\<lambda>state.
     lbind (on_litCodec (literalCodec_Decode state match litState)) (\<lambda>b.
     lret (literalOperation b)))))"

definition eosDist :: u32 where "eosDist = 0xffffffff"

definition rep_op :: "u32 \<Rightarrow> int \<Rightarrow> operation" where
  "rep_op dist n = matchOperation \<lparr>m_distance = int (unat dist) + minDistance, m_n = n\<rparr>"

text \<open>The assignment \<open>rep[0], err = distCodec.Decode(...)\<close> also takes place when the call fails, with the distance 0.\<close>

definition on_error :: "('c \<Rightarrow> 'c) \<Rightarrow> ('c \<times> 'r, 'a) lz \<Rightarrow> ('c \<times> 'r, 'a) lz" where
  "on_error f m s = (case m s of (Inl e, c, r) \<Rightarrow> (Inl e, f c, r) | (Inr x, s) \<Rightarrow> (Inr x, s))"

abbreviation set_rep0 :: "u32 \<Rightarrow> lzma_state \<Rightarrow> lzma_state" where
  "set_rep0 dist s \<equiv> s\<lparr>rep := (rep s)[0 := dist]\<rparr>"

definition readOp :: "decoderDict \<Rightarrow> (lzma_state \<times> rangeDecoder, operation) lz" where
  "readOp dict =
     lbind (gets (\<lambda>s. state_states s (int (dd_head dict)))) (\<lambda>(state, state2, posState).
     lbind (at_isMatch state2 prob_Decode) (\<lambda>b.
     if b = 0
     then lbind (decodeLiteral dict) (\<lambda>op. lbind (modify updateStateLiteral) (\<lambda>_. lret op))
     else
       lbind (at_isRep state prob_Decode) (\<lambda>b.
       if b = 0
       then
         lbind (modify (\<lambda>s. s\<lparr>rep := [rep s ! 0, rep s ! 0, rep s ! 1, rep s ! 2]\<rparr>)) (\<lambda>_.
         lbind (modify updateStateMatch) (\<lambda>_.
         lbind (on_lenCodec (lengthCodec_Decode posState)) (\<lambda>n.
         lbind (on_error (set_rep0 0) (on_distCodec (distCodec_Decode n))) (\<lambda>dist.
         lbind (modify (set_rep0 dist)) (\<lambda>_.
         if dist = eosDist then lfail ErrEOS
         else lret (rep_op dist (int (unat n) + minMatchLen)))))))
       else
         lbind (at_isRepG0 state prob_Decode) (\<lambda>b.
         lbind (gets rep) (\<lambda>r.
         if b = 0
         then
           lbind (at_isRepG0Long state2 prob_Decode) (\<lambda>b.
           if b = 0 then lbind (modify updateStateShortRep) (\<lambda>_. lret (rep_op (r ! 0) 1))
           else
             lbind (on_repLenCodec (lengthCodec_Decode posState)) (\<lambda>n.
             lbind (modify updateStateRep) (\<lambda>_.
             lret (rep_op (r ! 0) (int (unat n) + minMatchLen)))))
         else
           lbind (at_isRepG1 state prob_Decode) (\<lambda>b.
           lbind (if b = 0 then lret 1
                  else lbind (at_isRepG2 state prob_Decode) (\<lambda>b. lret (if b = 0 then 2 else 3))) (\<lambda>g.
           lbind (modify (shift_rep g (r ! g))) (\<lambda>_.
           lbind (on_repLenCodec (lengthCodec_Decode posState)) (\<lambda>n.
           lbind (modify updateStateRep) (\<lambda>_.
           lret (rep_op (r ! g) (int (unat n) + minMatchLen))))))))))))"

end
