(* ===== verification/RangeEncode.thy ===== *)
theory RangeEncode
  imports LzmaRange
begin

text \<open>
  What the range encoder computes. The bytes already written, the cached byte, the \<open>0xff\<close> bytes the
  cache stands for and \<open>low\<close> are one natural number, the lower end of the current interval;
  \<open>nrange\<close> is its length. Coding a bit replaces the interval by a part of it, and \<open>shiftLow\<close>
  multiplies by 256: the carry never runs past the cached byte.
\<close>

section \<open>Byte strings as big-endian numbers\<close>

definition num :: "byte list \<Rightarrow> nat" where
  "num bs = foldl (\<lambda>n b. 256 * n + unat b) 0 bs"

lemma num_Nil [simp]: "num [] = 0"
  by (simp add: num_def)

lemma num_snoc [simp]: "num (bs @ [b]) = 256 * num bs + unat b"
  by (simp add: num_def)

lemma num_single [simp]: "num [b] = unat b"
  by (simp add: num_def)

lemma num_append: "num (xs @ ys) = num xs * 256 ^ length ys + num ys"
proof (induction ys rule: rev_induct)
  case (snoc y ys)
  have "num (xs @ ys @ [y]) = 256 * num (xs @ ys) + unat y" by (simp flip: append_assoc)
  with snoc show ?case by (simp add: algebra_simps)
qed simp

lemma num_Cons: "num (b # bs) = unat b * 256 ^ length bs + num bs"
  using num_append [of "[b]" bs] by (simp add: num_def)

lemma num_less: "num bs < 256 ^ length bs"
proof (induction bs rule: rev_induct)
  case (snoc b bs)
  have "unat b < 256" using unsigned_less [of b] by simp
  with snoc have "256 * num bs + unat b < 256 * 256 ^ length bs" by linarith
  then show ?case by simp
qed simp

lemma num_replicate_0 [simp]: "num (replicate n 0) = 0"
  by (induction n) (simp_all add: num_Cons)

lemma num_replicate_ff: "num (replicate n 0xff) + 1 = 256 ^ n"
  by (induction n) (simp_all add: num_Cons)

section \<open>The state as a number\<close>

definition enc_written :: "rangeEncoder \<Rightarrow> byte list" where
  "enc_written e = written (lb_BW (re_lbw e))"

definition pending :: "rangeEncoder \<Rightarrow> byte list" where
  "pending e = re_cache e # replicate (nat (re_cacheLen e) - 1) 0xff"

definition enc_base :: "byte list \<Rightarrow> rangeEncoder \<Rightarrow> nat" where
  "enc_base pre e = num (drop (length pre) (enc_written e) @ pending e) * 2 ^ 32 + unat (re_low e)"

definition enc_pos :: "byte list \<Rightarrow> rangeEncoder \<Rightarrow> nat" where
  "enc_pos pre e = length (enc_written e) - length pre + nat (re_cacheLen e)"

text \<open>\<open>pre\<close> is what was written before the coder started, \<open>w\<close> the length of the interval.\<close>

definition enc_state :: "byte list \<Rightarrow> rangeEncoder \<Rightarrow> nat \<Rightarrow> bool" where
  "enc_state pre e w \<longleftrightarrow>
     take (length pre) (enc_written e) = pre \<and> 1 \<le> re_cacheLen e \<and> 0 < w \<and>
     unat (re_low e) + w \<le> 2 ^ 33 \<and>
     num (pending e) * 2 ^ 32 + unat (re_low e) + w \<le> 256 ^ nat (re_cacheLen e) * 2 ^ 32"

lemma enc_state_length: "enc_state pre e w \<Longrightarrow> length pre \<le> length (enc_written e)"
  unfolding enc_state_def by (metis length_take min.bounded_iff order_refl)

lemma enc_state_mono: "enc_state pre e w \<Longrightarrow> 0 < w' \<Longrightarrow> w' \<le> w \<Longrightarrow> enc_state pre e w'"
  by (auto simp: enc_state_def)

lemma length_pending [simp]: "1 \<le> re_cacheLen e \<Longrightarrow> length (pending e) = nat (re_cacheLen e)"
  by (simp add: pending_def)

section \<open>Writing the cache\<close>

lemma WriteByte_Inr:
  "WriteByte c w = (Inr u, w') \<Longrightarrow> written w' = written w @ [c]"
  by (auto simp: WriteByte_def split: option.splits nat.splits)

lemma re_writeByte_Inr:
  assumes "re_writeByte c e = (Inr u, e')"
  shows "enc_written e' = enc_written e @ [c]"
    "re_low e' = re_low e" "re_nrange e' = re_nrange e" "re_cacheLen e' = re_cacheLen e"
    "re_cache e' = re_cache e"
  using assms
  by (auto simp: re_writeByte_def limited_WriteByte_def enc_written_def
      split: if_splits prod.splits sum.splits dest: WriteByte_Inr)

lemma write_cache_Inr:
  assumes "write_cache tmp carry e = (Inr u, e')" "re_cacheLen e = int (Suc n)"
  shows "enc_written e' = enc_written e @ (tmp + carry) # replicate n (0xff + carry)
    \<and> re_low e' = re_low e \<and> re_nrange e' = re_nrange e \<and> re_cacheLen e' = 0"
  using assms
proof (induction n arbitrary: tmp e)
  case 0
  then obtain e1 where e1: "re_writeByte (tmp + carry) e = (Inr (), e1)"
    by (subst (asm) write_cache.simps) (auto split: prod.splits sum.splits)
  note w = re_writeByte_Inr [OF e1]
  have "e' = e1\<lparr>re_cacheLen := re_cacheLen e1 - 1\<rparr>"
    using 0 e1 w by (subst (asm) write_cache.simps) (simp add: Let_def)
  with w 0 show ?case by (simp add: enc_written_def)
next
  case (Suc n)
  from Suc.prems(1) obtain e1 where e1: "re_writeByte (tmp + carry) e = (Inr (), e1)"
    by (subst (asm) write_cache.simps) (auto split: prod.splits sum.splits)
  let ?e2 = "e1\<lparr>re_cacheLen := re_cacheLen e1 - 1\<rparr>"
  note w = re_writeByte_Inr [OF e1]
  have len: "re_cacheLen ?e2 = int (Suc n)" using w Suc.prems(2) by simp
  then have "write_cache 0xff carry ?e2 = (Inr u, e')"
    using Suc.prems(1) e1 by (subst (asm) write_cache.simps) (simp add: Let_def)
  from Suc.IH [OF this len] w show ?case by (simp add: enc_written_def)
qed

lemma num_carry:
  assumes "num (c # replicate n 0xff) + k < 256 ^ Suc n" "k \<le> 1"
  shows "num ((c + of_nat k) # replicate n (0xff + of_nat k)) = num (c # replicate n 0xff) + k"
proof (cases "k = 0")
  case False
  with assms(2) have k: "k = 1" by simp
  have "c \<noteq> 0xff"
  proof
    assume "c = 0xff"
    then have "num (c # replicate n 0xff) + 1 = 256 ^ Suc n"
      using num_replicate_ff [of "Suc n"] by simp
    with assms(1) k show False by simp
  qed
  moreover have "c = 1 + c + 0xff" by simp
  ultimately have "1 + c \<noteq> 0" by force
  then have "unat (c + 1) = unat c + 1" by (metis Suc_eq_plus1 unatSuc add.commute)
  moreover have "(0xff :: byte) + of_nat k = 0" by (simp add: k)
  ultimately have "num ((c + of_nat k) # replicate n (0xff + of_nat k)) = Suc (unat c) * 256 ^ n"
    by (simp only: num_Cons) (simp add: k add.commute)
  then show ?thesis
    using k num_replicate_ff [of n] by (simp add: num_Cons)
qed simp

section \<open>Shifting\<close>

lemma low_parts:
  fixes low :: u64
  shows "unat (ucast low :: u32) = unat low mod 2 ^ 32"
    and "(ucast (drop_bit 32 low) :: byte) = of_nat (unat low div 2 ^ 32)"
    and "unat (ucast (push_bit 8 (ucast low :: u32)) :: u64) = (unat low mod 2 ^ 24) * 256"
    and "unat (ucast (drop_bit 24 (ucast low :: u32)) :: byte) = unat low mod 2 ^ 32 div 2 ^ 24"
proof -
  show low: "unat (ucast low :: u32) = unat low mod 2 ^ 32"
    by (simp add: unsigned_ucast_eq take_bit_eq_mod)
  show "(ucast (drop_bit 32 low) :: byte) = of_nat (unat low div 2 ^ 32)"
    by (rule word_unat_eq_iff [THEN iffD2],
        unfold unsigned_ucast_eq unat_drop_bit_eq, unfold unat_of_nat drop_bit_eq_div take_bit_eq_mod) simp
  have shifted: "unat (push_bit 8 (ucast low :: u32)) = (unat low mod 2 ^ 24) * 256"
    unfolding unsigned_push_bit_eq low
    unfolding take_bit_eq_mod push_bit_eq_mult
    using mod_mult_mult2 [of "unat low mod 2 ^ 32" 256 "2 ^ 24"] by (simp add: mod_mod_cancel)
  have "(unat low mod 2 ^ 24) * 256 < 2 ^ 64"
    using mod_less_divisor [of "2 ^ 24" "unat low"] by simp
  then show "unat (ucast (push_bit 8 (ucast low :: u32)) :: u64) = (unat low mod 2 ^ 24) * 256"
    by (simp only: unsigned_ucast_eq take_bit_eq_mod shifted) simp
  show "unat (ucast (drop_bit 24 (ucast low :: u32)) :: byte) = unat low mod 2 ^ 32 div 2 ^ 24"
    unfolding unsigned_ucast_eq [of "drop_bit 24 (ucast low :: u32)"] unat_drop_bit_eq low
    unfolding drop_bit_eq_div take_bit_eq_mod by simp
qed

text \<open>The two branches of \<open>shiftLow\<close>: the top byte of \<open>low\<close> joins the pending bytes, or they are written.\<close>

definition shifted_low :: "rangeEncoder \<Rightarrow> nat" where
  "shifted_low e = (unat (re_low e) mod 2 ^ 24) * 256"

lemma shift_test:
  "((ucast low :: u32) < 0xff000000 \<or> drop_bit 32 low \<noteq> 0) \<longleftrightarrow>
     unat (low :: u64) < 0xff000000 \<or> 2 ^ 32 \<le> unat low"
proof -
  have "drop_bit 32 low = 0 \<longleftrightarrow> unat low div 2 ^ 32 = 0"
    unfolding word_unat_eq_iff unat_drop_bit_eq unfolding drop_bit_eq_div by simp
  moreover have "(ucast low :: u32) < 0xff000000 \<longleftrightarrow> unat low mod 2 ^ 32 < 0xff000000"
    by (simp only: word_less_nat_alt low_parts) simp
  ultimately show ?thesis by (cases "unat low < 2 ^ 32") (auto simp: div_eq_0_iff)
qed

lemma shiftLow_wait:
  assumes "shiftLow e = (Inr u, e')" "0xff000000 \<le> unat (re_low e)" "unat (re_low e) < 2 ^ 32"
  shows "enc_written e' = enc_written e" "re_nrange e' = re_nrange e"
    "re_cacheLen e' = re_cacheLen e + 1" "re_cache e' = re_cache e" "unat (re_low e') = shifted_low e"
  using assms unfolding shiftLow_def shift_test Let_def
  by (auto simp: enc_written_def shifted_low_def low_parts(3))

lemma shiftLow_write:
  assumes e': "shiftLow e = (Inr u, e')" and t: "unat (re_low e) < 0xff000000 \<or> 2 ^ 32 \<le> unat (re_low e)"
    and n: "re_cacheLen e = int (Suc n)"
  shows "enc_written e' = enc_written e @
      (re_cache e + of_nat (unat (re_low e) div 2 ^ 32)) # replicate n (0xff + of_nat (unat (re_low e) div 2 ^ 32))"
    "re_nrange e' = re_nrange e" "re_cacheLen e' = 1" "unat (re_low e') = shifted_low e"
    "unat (re_cache e') = unat (re_low e) mod 2 ^ 32 div 2 ^ 24"
proof -
  define c where "c = (ucast (drop_bit 32 (re_low e)) :: byte)"
  obtain e1 where e1: "write_cache (re_cache e) c e = (Inr (), e1)"
    and e2: "e' = e1\<lparr>re_cache := ucast (drop_bit 24 (ucast (re_low e1) :: u32)),
      re_cacheLen := re_cacheLen e1 + 1, re_low := ucast (push_bit 8 (ucast (re_low e1) :: u32))\<rparr>"
    using e' t unfolding shiftLow_def shift_test Let_def c_def by (auto split: prod.splits sum.splits)
  note w = write_cache_Inr [OF e1 n]
  have c: "of_nat (unat (re_low e) div 2 ^ 32) = c" unfolding c_def low_parts(2) ..
  show "enc_written e' = enc_written e @
      (re_cache e + of_nat (unat (re_low e) div 2 ^ 32)) # replicate n (0xff + of_nat (unat (re_low e) div 2 ^ 32))"
    unfolding c using w e2 by (simp add: enc_written_def)
  show "re_nrange e' = re_nrange e" "re_cacheLen e' = 1" using w e2 by simp_all
  show "unat (re_low e') = shifted_low e" using w e2 by (simp add: shifted_low_def low_parts(3))
  show "unat (re_cache e') = unat (re_low e) mod 2 ^ 32 div 2 ^ 24"
    using w e2 low_parts(4) [of "re_low e"] by simp
qed

lemma low_split:
  "(l :: nat) = l div 2 ^ 32 * 2 ^ 32 + (l mod 2 ^ 32 div 2 ^ 24) * 2 ^ 24 + l mod 2 ^ 24"
proof -
  have "l mod 2 ^ 32 = (l mod 2 ^ 32 div 2 ^ 24) * 2 ^ 24 + l mod 2 ^ 32 mod 2 ^ 24"
    by (rule div_mult_mod_eq [symmetric])
  moreover have "l mod 2 ^ 32 mod 2 ^ 24 = l mod 2 ^ 24"
    by (rule mod_mod_cancel) simp
  moreover have "l = l div 2 ^ 32 * 2 ^ 32 + l mod 2 ^ 32" by (rule div_mult_mod_eq [symmetric])
  ultimately show ?thesis by linarith
qed

lemma shiftLow_interval:
  assumes inv: "enc_state pre e w" and w: "w \<le> 2 ^ 24" and e': "shiftLow e = (Inr u, e')"
  shows "enc_state pre e' (256 * w) \<and> enc_base pre e' = 256 * enc_base pre e \<and>
    enc_pos pre e' = Suc (enc_pos pre e) \<and> re_nrange e' = re_nrange e \<and> unat (re_low e') < 2 ^ 32"
proof -
  define l where "l = unat (re_low e)"
  define q b t where "q = l div 2 ^ 32" and "b = l mod 2 ^ 32 div 2 ^ 24" and "t = l mod 2 ^ 24"
  obtain n where n: "re_cacheLen e = int (Suc n)"
    using inv by (metis enc_state_def int_one_le_iff_zero_less zero_less_imp_eq_int not0_implies_Suc not_gr_zero)
  have l: "l = q * 2 ^ 32 + b * 2 ^ 24 + t" unfolding q_def b_def t_def by (rule low_split)
  have t: "t < 2 ^ 24" "b < 256" by (simp_all add: t_def b_def less_mult_imp_div_less)
  have nc: "nat (re_cacheLen e) = Suc n" using n by simp
  from inv have w0: "0 < w" and lw: "l + w \<le> 2 ^ 33" and pre: "take (length pre) (enc_written e) = pre"
    and bound: "num (pending e) * 2 ^ 32 + l + w \<le> 256 ^ Suc n * 2 ^ 32"
    by (simp_all only: enc_state_def l_def nc)
  note len = enc_state_length [OF inv]
  have sl: "shifted_low e = 256 * t" by (simp add: shifted_low_def l_def t_def)
  consider "0xff000000 \<le> l" "l < 2 ^ 32" | "l < 0xff000000 \<or> 2 ^ 32 \<le> l" by linarith
  then show ?thesis
  proof cases
    case 1
    note s = shiftLow_wait [OF e' 1 [unfolded l_def]]
    have q0: "q = 0" using 1(2) unfolding q_def by simp
    then have "b * 2 ^ 24 + t = l" "b \<le> 255" using l t(2) by simp_all
    with 1(1) t(1) have "255 \<le> b" by simp
    with q0 \<open>b \<le> 255\<close> have q: "q = 0" "b = 0xff" by simp_all
    have p: "pending e' = pending e @ [0xff]"
      using s(3,4) n by (simp add: pending_def replicate_append_same nat_add_distrib)
    show ?thesis
      using s sl l q bound w0 w t pre n len
      by (simp add: enc_state_def enc_base_def enc_pos_def p num_append l_def [symmetric] nat_add_distrib)
  next
    case 2
    note s = shiftLow_write [OF e' 2 [unfolded l_def] n]
    have q1: "q \<le> 1" using lw w0 by (simp add: q_def)
    define W where "W = (re_cache e + of_nat q) # replicate n (0xff + of_nat q)"
    have pn: "pending e = re_cache e # replicate n 0xff" using n by (simp add: pending_def)
    have "num W = num (pending e) + q"
      unfolding W_def pn
    proof (rule num_carry [OF _ q1])
      have "q * 2 ^ 32 < l + w" using l w0 by linarith
      with bound have "(num (pending e) + q) * 2 ^ 32 < 256 ^ Suc n * 2 ^ 32" by (simp add: algebra_simps)
      then show "num (re_cache e # replicate n 0xff) + q < 256 ^ Suc n"
        by (simp only: pn mult_less_cancel2)
    qed
    have cap: "b * 2 ^ 24 + t + w \<le> 2 ^ 32"
      using 2
    proof
      assume "l < 0xff000000"
      with l w show ?thesis by simp
    next
      assume "2 ^ 32 \<le> l"
      then have "q \<noteq> 0" by (simp add: q_def)
      with l lw q1 show ?thesis by (cases q) auto
    qed
    have p': "pending e' = [re_cache e']" using s(3) by (simp add: pending_def)
    have b: "unat (re_cache e') = b" using s(5) by (simp add: b_def l_def)
    define h where "h = num (drop (length pre) (enc_written e))"
    have "num (drop (length pre) (enc_written e') @ pending e') = 256 * (h * 256 ^ Suc n + num (pending e) + q) + b"
      using s(1) len \<open>num W = _\<close> b
      by (simp add: p' h_def num_append W_def q_def l_def num_Cons)
    moreover have "num (drop (length pre) (enc_written e) @ pending e) = h * 256 ^ Suc n + num (pending e)"
      by (simp add: num_append h_def pn)
    ultimately have base: "enc_base pre e' = 256 * enc_base pre e"
      using l s(4) sl by (simp add: enc_base_def l_def [symmetric])
    have "enc_state pre e' (256 * w)"
      using s(1,3,4) sl pre len w0 w t cap b by (simp add: enc_state_def p' num_Cons)
    moreover have "enc_pos pre e' = Suc (enc_pos pre e)"
      using s(1,3) len by (simp add: enc_pos_def nc)
    ultimately show ?thesis using base s(2,4) sl t by simp
  qed
qed

end
