(* ===== verification/RangeSync.thy ===== *)
theory RangeSync
  imports RangeEncode
begin

text \<open>
  The decoder of \<open>rangecodec.go\<close> in step with the encoder. \<open>F\<close> is the byte string the encoder will
  have written when it is closed, \<open>T\<close> what follows it in the file. The decoder has read four bytes
  more than the encoder has decided, and its \<open>code\<close> is the distance from the lower end of the
  encoder's interval to the number it has read. \<open>triple\<close> states that a decoding operation undoes an
  encoding operation, with an assertion on their common state before and after; it is closed under sequencing and under the access to parts of the state, so
  that the round trip of every codec of the package is a composition of the round trip of one bit.
\<close>

definition enc_ready :: "byte list \<Rightarrow> rangeEncoder \<Rightarrow> bool" where
  "enc_ready pre e \<longleftrightarrow> enc_state pre e (unat (re_nrange e)) \<and> 2 ^ 24 \<le> unat (re_nrange e)"

definition target :: "byte list \<Rightarrow> byte list \<Rightarrow> rangeEncoder \<Rightarrow> nat" where
  "target pre F e = num (take (enc_pos pre e + 4) F)"

definition contains :: "byte list \<Rightarrow> byte list \<Rightarrow> rangeEncoder \<Rightarrow> bool" where
  "contains pre F e \<longleftrightarrow> enc_pos pre e + 4 \<le> length F \<and>
     enc_base pre e \<le> target pre F e \<and> target pre F e < enc_base pre e + unat (re_nrange e)"

definition sync :: "byte list \<Rightarrow> byte list \<Rightarrow> byte list \<Rightarrow> rangeDecoder \<Rightarrow> rangeEncoder \<Rightarrow> bool" where
  "sync pre F T d e \<longleftrightarrow> rd_nrange d = re_nrange e \<and>
     enc_base pre e + unat (rd_code d) = target pre F e \<and>
     br_data (rd_br d) = drop (enc_pos pre e + 4) F @ T"

section \<open>Normalisation\<close>

lemma unat_shift8:
  assumes "unat (w :: u32) < 2 ^ 24"
  shows "unat (push_bit 8 w) = 256 * unat w"
proof -
  have "unat (push_bit 8 w) = take_bit 32 (push_bit 8 (unat w))"
    by (simp only: unsigned_push_bit_eq) simp
  also have "\<dots> = (unat w * 256) mod 2 ^ 32" by (simp only: push_bit_eq_mult take_bit_eq_mod) simp
  finally show ?thesis using assms by simp
qed

lemma unat_shift8_or:
  assumes "unat (w :: u32) < 2 ^ 24"
  shows "unat (push_bit 8 w OR ucast (b :: byte)) = 256 * unat w + unat b"
proof -
  have "push_bit 8 w OR ucast b = push_bit 8 w + (ucast b :: u32)"
    by (rule disjunctive_add [symmetric]) (auto simp: bit_simps dest: bit_imp_le_length)
  moreover have b: "unat b < 256" using unsigned_less [of b] by simp
  moreover have "unat (ucast b :: u32) = unat b" using b by (simp add: unsigned_ucast_eq take_bit_eq_mod)
  ultimately show ?thesis
    using unat_shift8 [OF assms] assms by (simp add: unat_add_small)
qed

lemma re_normalize_state:
  assumes st: "enc_state pre e (unat (re_nrange e))" and r: "2 ^ 16 \<le> unat (re_nrange e)"
    and n: "re_normalize e = (Inr u, e')"
  shows "enc_ready pre e' \<and>
    (2 ^ 24 \<le> unat (re_nrange e) \<and> e' = e \<or>
     unat (re_nrange e) < 2 ^ 24 \<and> unat (re_nrange e') = 256 * unat (re_nrange e) \<and>
     enc_base pre e' = 256 * enc_base pre e \<and> enc_pos pre e' = Suc (enc_pos pre e))"
proof (cases "2 ^ 24 \<le> unat (re_nrange e)")
  case True
  then have "e' = e" using n by (simp add: re_normalize_def word_le_nat_alt)
  with True st show ?thesis by (simp add: enc_ready_def)
next
  case False
  define e1 where "e1 = e\<lparr>re_nrange := push_bit 8 (re_nrange e)\<rparr>"
  have s: "shiftLow e1 = (Inr u, e')" using n False by (simp add: re_normalize_def word_le_nat_alt e1_def)
  have "enc_state pre e1 (unat (re_nrange e))"
    using st by (simp add: enc_state_def e1_def enc_written_def pending_def)
  from shiftLow_interval [OF this _ s] False
  have i: "enc_state pre e' (256 * unat (re_nrange e))" "enc_base pre e' = 256 * enc_base pre e1"
    "enc_pos pre e' = Suc (enc_pos pre e1)" "re_nrange e' = re_nrange e1" by auto
  have w: "unat (re_nrange e1) = 256 * unat (re_nrange e)"
    using False unat_shift8 [of "re_nrange e"] by (simp add: e1_def)
  have "enc_base pre e1 = enc_base pre e" "enc_pos pre e1 = enc_pos pre e"
    by (simp_all add: enc_base_def enc_pos_def e1_def enc_written_def pending_def)
  with i w r False show ?thesis by (simp add: enc_ready_def)
qed

lemma normalize_sync:
  assumes st: "enc_state pre e (unat (re_nrange e))" and r: "2 ^ 16 \<le> unat (re_nrange e)"
    and n: "re_normalize e = (Inr u, e')" and c: "contains pre F e'"
  shows "contains pre F e"
    and "sync pre F T d e \<Longrightarrow> \<exists>d'. rd_normalize d = (Inr (), d') \<and> sync pre F T d' e'"
proof -
  note state = re_normalize_state [OF st r n]
  have "contains pre F e \<and> (sync pre F T d e \<longrightarrow> (\<exists>d'. rd_normalize d = (Inr (), d') \<and> sync pre F T d' e'))"
  proof (cases "2 ^ 24 \<le> unat (re_nrange e)")
    case True
    with state have "e' = e" by linarith
    with True c show ?thesis by (auto simp: rd_normalize_def sync_def word_le_nat_alt)
  next
    case False
    with state have w: "unat (re_nrange e') = 256 * unat (re_nrange e)"
      and base: "enc_base pre e' = 256 * enc_base pre e" and pos: "enc_pos pre e' = Suc (enc_pos pre e)"
      by auto
    define k where "k = enc_pos pre e + 4"
    have k: "k < length F" using c pos by (simp add: contains_def k_def)
    then have t: "target pre F e' = 256 * target pre F e + unat (F ! k)"
      by (simp add: target_def pos k_def [symmetric] take_Suc_conv_app_nth)
    have b: "unat (F ! k) < 256" using unsigned_less [of "F ! k"] by simp
    have con: "contains pre F e"
      using c k t b w base by (auto simp: contains_def k_def)
    have "\<exists>d'. rd_normalize d = (Inr (), d') \<and> sync pre F T d' e'" if s: "sync pre F T d e"
    proof -
      have data: "br_data (rd_br d) = F ! k # drop (Suc k) F @ T"
        using s Cons_nth_drop_Suc [OF k] by (simp add: sync_def k_def [symmetric])
      define d' where "d' = d\<lparr>rd_nrange := push_bit 8 (rd_nrange d),
        rd_br := rd_br d\<lparr>br_data := drop (Suc k) F @ T\<rparr>,
        rd_code := push_bit 8 (rd_code d) OR ucast (F ! k)\<rparr>"
      have rn: "rd_nrange d = re_nrange e" and code: "enc_base pre e + unat (rd_code d) = target pre F e"
        using s by (simp_all add: sync_def)
      have small: "unat (rd_code d) < 2 ^ 24" using con code False by (simp add: contains_def)
      have "rd_normalize d = (Inr (), d')"
        using False data rn by (simp add: rd_normalize_def updateCode_def br_ReadByte_def d'_def word_le_nat_alt)
      moreover have "unat (rd_nrange d') = unat (re_nrange e')"
        using False w unat_shift8 [of "re_nrange e"] rn by (simp add: d'_def)
      moreover have "enc_base pre e' + unat (rd_code d') = target pre F e'"
        using code t base unat_shift8_or [OF small] by (simp add: d'_def)
      ultimately show ?thesis by (auto simp: sync_def d'_def pos k_def word_unat_eq_iff)
    qed
    with con show ?thesis by blast
  qed
  then show "contains pre F e" and
    "sync pre F T d e \<Longrightarrow> \<exists>d'. rd_normalize d = (Inr (), d') \<and> sync pre F T d' e'" by auto
qed

section \<open>Encoding operations and the decoding operations that undo them\<close>

definition triple ::
  "('c \<Rightarrow> bool) \<Rightarrow> ('c \<times> rangeEncoder, unit) lz \<Rightarrow> ('c \<times> rangeDecoder, 'a) lz \<Rightarrow> 'a
     \<Rightarrow> ('c \<Rightarrow> bool) \<Rightarrow> bool" where
  "triple P E D v Q \<longleftrightarrow>
     (\<forall>pre c e u c' e'. P c \<longrightarrow> enc_ready pre e \<longrightarrow> E (c, e) = (Inr u, c', e') \<longrightarrow>
        Q c' \<and> enc_ready pre e' \<and>
        (\<forall>F. contains pre F e' \<longrightarrow> contains pre F e \<and>
           (\<forall>T d. sync pre F T d e \<longrightarrow> (\<exists>d'. D (c, d) = (Inr v, c', d') \<and> sync pre F T d' e'))))"

abbreviation codes ::
  "('c \<Rightarrow> bool) \<Rightarrow> ('c \<times> rangeEncoder, unit) lz \<Rightarrow> ('c \<times> rangeDecoder, 'a) lz \<Rightarrow> 'a \<Rightarrow> bool" where
  "codes I E D v \<equiv> triple I E D v I"

lemma tripleI:
  assumes "\<And>pre c e u c' e'. P c \<Longrightarrow> enc_ready pre e \<Longrightarrow> E (c, e) = (Inr u, c', e') \<Longrightarrow>
    Q c' \<and> enc_ready pre e'"
    and "\<And>pre c e u c' e' F. P c \<Longrightarrow> enc_ready pre e \<Longrightarrow> E (c, e) = (Inr u, c', e') \<Longrightarrow>
      contains pre F e' \<Longrightarrow> contains pre F e"
    and "\<And>pre c e u c' e' F T d. P c \<Longrightarrow> enc_ready pre e \<Longrightarrow> E (c, e) = (Inr u, c', e') \<Longrightarrow>
      contains pre F e' \<Longrightarrow> contains pre F e \<Longrightarrow> sync pre F T d e \<Longrightarrow>
      \<exists>d'. D (c, d) = (Inr v, c', d') \<and> sync pre F T d' e'"
  shows "triple P E D v Q"
  unfolding triple_def
proof (intro allI impI)
  fix pre c e u c' e'
  assume a: "P c" "enc_ready pre e" "E (c, e) = (Inr u, c', e')"
  show "Q c' \<and> enc_ready pre e' \<and> (\<forall>F. contains pre F e' \<longrightarrow> contains pre F e \<and>
      (\<forall>T d. sync pre F T d e \<longrightarrow> (\<exists>d'. D (c, d) = (Inr v, c', d') \<and> sync pre F T d' e')))"
    using assms(1) [OF a] assms(2) [OF a] assms(3) [OF a] by blast
qed

lemma tripleD:
  assumes "triple P E D v Q" "P c" "enc_ready pre e" "E (c, e) = (Inr u, c', e')"
  shows "Q c'" "enc_ready pre e'"
    and "contains pre F e' \<Longrightarrow> contains pre F e"
    and "contains pre F e' \<Longrightarrow> sync pre F T d e \<Longrightarrow>
      \<exists>d'. D (c, d) = (Inr v, c', d') \<and> sync pre F T d' e'"
  using assms unfolding triple_def by blast+

lemma triple_conseq:
  "triple P E D v Q \<Longrightarrow> (\<And>c. P' c \<Longrightarrow> P c) \<Longrightarrow> (\<And>c. Q c \<Longrightarrow> Q' c) \<Longrightarrow> triple P' E D v Q'"
  unfolding triple_def by blast

lemma codes_ret: "codes I (lret u) (lret v) v"
  by (rule tripleI) auto

lemma codes_bind:
  assumes one: "triple P E1 D1 v1 Q" and two: "triple Q E2 (D2 v1) v2 R"
  shows "triple P (lbind E1 (\<lambda>_. E2)) (lbind D1 D2) v2 R"
proof -
  have split: "\<exists>c1 e1. E1 (c, e) = (Inr (), c1, e1) \<and> E2 (c1, e1) = (Inr u, c', e')"
    if "lbind E1 (\<lambda>_. E2) (c, e) = (Inr u, c', e')" for c e u c' e'
    using that by (auto simp: lbind_Inr)
  show ?thesis
  proof (rule tripleI)
    fix pre c e u c' e'
    assume a: "P c" "enc_ready pre e" "lbind E1 (\<lambda>_. E2) (c, e) = (Inr u, c', e')"
    from split [OF a(3)] obtain c1 e1 where r: "E1 (c, e) = (Inr (), c1, e1)" "E2 (c1, e1) = (Inr u, c', e')" by blast
    note o1 = tripleD(1,2) [OF one a(1,2) r(1)]
    note o3 = tripleD(3,4) [OF one a(1,2) r(1)]
    note o2 = tripleD [OF two o1 r(2)]
    show "R c' \<and> enc_ready pre e'" using o2 by blast
    { fix F assume "contains pre F e'" then show "contains pre F e" using o2(3) o3(1) by blast }
    fix F T d
    assume F: "contains pre F e'" and s: "sync pre F T d e"
    from o3(2) [OF o2(3) [OF F] s] obtain d1 where d1: "D1 (c, d) = (Inr v1, c1, d1)" "sync pre F T d1 e1" by blast
    from o2(4) [OF F d1(2)] d1(1) show "\<exists>d'. lbind D1 D2 (c, d) = (Inr v2, c', d') \<and> sync pre F T d' e'"
      by (auto simp: lbind_def)
  qed
qed

lemma lbind_lret [simp]: "lbind E lret = E"
  by (rule ext) (simp add: lbind_def lret_def split: prod.split sum.split)

lemma codes_value: "triple P E D v Q \<Longrightarrow> triple P E (lbind D (\<lambda>x. lret (f x))) (f v) Q"
  using codes_bind [where P = P and Q = Q and R = Q and ?E1.0 = E and ?D1.0 = D and ?v1.0 = v and ?E2.0 = "lret ()"
      and ?D2.0 = "\<lambda>x. lret (f x)" and ?v2.0 = "f v"] codes_ret [of Q "()" "f v"]
  by simp

lemma codes_focus:
  assumes "codes J E D v" "\<And>c. I c \<Longrightarrow> J (get c)" "\<And>c b. I c \<Longrightarrow> J b \<Longrightarrow> I (put b c)"
  shows "codes I (focus get put E) (focus get put D) v"
proof (rule tripleI)
  fix pre c e u c' e'
  assume a: "I c" "enc_ready pre e" "focus get put E (c, e) = (Inr u, c', e')"
  then obtain b where b: "E (get c, e) = (Inr u, b, e')" "c' = put b c"
    by (auto simp: focus_def split: prod.splits)
  note o = tripleD [OF assms(1) assms(2) [OF a(1)] a(2) b(1)]
  show "I c' \<and> enc_ready pre e'" using o(1,2) assms(3) a(1) b(2) by blast
  { fix F assume "contains pre F e'" then show "contains pre F e" using o(3) by blast }
  fix F T d
  assume "contains pre F e'" "sync pre F T d e"
  from o(4) [OF this] b(2) show "\<exists>d'. focus get put D (c, d) = (Inr v, c', d') \<and> sync pre F T d' e'"
    by (auto simp: focus_def)
qed

text \<open>Arrays, whose elements keep an invariant that may depend on the index.\<close>

definition array :: "nat \<Rightarrow> (nat \<Rightarrow> 'b \<Rightarrow> bool) \<Rightarrow> 'b list \<Rightarrow> bool" where
  "array n J xs \<longleftrightarrow> length xs = n \<and> (\<forall>i<n. J i (xs ! i))"

lemma array_update: "array n J xs \<Longrightarrow> J i b \<Longrightarrow> array n J (xs[i := b])"
  by (cases "i < n") (auto simp: array_def nth_list_update)

lemma array_nth: "array n J xs \<Longrightarrow> i < n \<Longrightarrow> J i (xs ! i)"
  by (simp add: array_def)

lemma array_replicate: "(\<And>i. i < n \<Longrightarrow> J i x) \<Longrightarrow> array n J (replicate n x)"
  by (simp add: array_def)

lemma codes_element:
  assumes "i < n \<Longrightarrow> codes (J i) E D v"
  shows "codes (array n J) (element i E) (element i D) v"
proof -
  let ?get = "\<lambda>xs. xs ! i" and ?put = "\<lambda>b xs. xs[i := b]"
  have f: "codes (array n J) (focus ?get ?put E) (focus ?get ?put D) v" if i: "i < n"
    by (rule codes_focus [OF assms [OF i]]) (simp_all add: array_nth array_update i)
  show ?thesis
  proof (rule tripleI)
    fix pre c e u c' e'
    assume a: "array n J c" "enc_ready pre e" "element i E (c, e) = (Inr u, c', e')"
    then have i: "i < n" "i < length c" and r: "focus ?get ?put E (c, e) = (Inr u, c', e')"
      by (auto simp: element_def array_def split: if_splits)
    note c = tripleD [OF f [OF i(1)] a(1,2) r]
    show "array n J c' \<and> enc_ready pre e'" using c(1,2) by blast
    { fix F assume "contains pre F e'" then show "contains pre F e" by (rule c(3)) }
    fix F T d
    assume "contains pre F e'" "sync pre F T d e"
    from c(4) [OF this] i show "\<exists>d'. element i D (c, d) = (Inr v, c', d') \<and> sync pre F T d' e'"
      by (simp add: element_def)
  qed
qed

lemma codes_cong:
  assumes "triple P E D v Q" "\<And>c e. P c \<Longrightarrow> E' (c, e) = E (c, e)" "\<And>c d. P c \<Longrightarrow> D' (c, d) = D (c, d)"
  shows "triple P E' D' v Q"
proof (rule tripleI)
  fix pre c e u c' e'
  assume a: "P c" "enc_ready pre e" "E' (c, e) = (Inr u, c', e')"
  note o = tripleD [OF assms(1) a(1,2) a(3) [unfolded assms(2) [OF a(1)]]]
  show "Q c' \<and> enc_ready pre e'" using o(1,2) by blast
  { fix F assume "contains pre F e'" then show "contains pre F e" by (rule o(3)) }
  fix F T d assume "contains pre F e'" "sync pre F T d e"
  then show "\<exists>d'. D' (c, d) = (Inr v, c', d') \<and> sync pre F T d' e'"
    unfolding assms(3) [OF a(1)] by (rule o(4))
qed

lemma codes_fail: "triple P (lfail err) D v Q"
  by (simp add: triple_def)

section \<open>One bit\<close>

text \<open>The probabilities the update rules keep: never closer to the ends than 31 of 2048.\<close>

definition prob_ok :: "prob \<Rightarrow> bool" where
  "prob_ok p \<longleftrightarrow> 31 \<le> unat p \<and> unat p \<le> 2017"

definition next_prob :: "u32 \<Rightarrow> prob \<Rightarrow> prob" where
  "next_prob b p = (if b AND 1 = 0
     then ucast ((ucast p :: u32) + drop_bit movebits (push_bit probbits 1 - ucast p))
     else ucast ((ucast p :: u32) - drop_bit movebits (ucast p)))"

lemma prob_parts:
  assumes "prob_ok p"
  shows "unat (ucast p :: u32) = unat p"
    and "unat (next_prob 0 p) = unat p + (2048 - unat p) div 32"
    and "unat (next_prob 1 p) = unat p - unat p div 32"
proof -
  define P where "P = (ucast p :: u32)"
  have u: "unat p < 2048" "31 \<le> unat p" using assms by (simp_all add: prob_ok_def)
  show P: "unat (ucast p :: u32) = unat p" using u by (simp add: unsigned_ucast_eq take_bit_eq_mod)
  then have P': "unat P = unat p" by (simp add: P_def)
  have one: "push_bit probbits 1 = (2048 :: u32)" by (simp add: probbits_def)
  have le: "P \<le> 2048" "drop_bit movebits P \<le> P" 
    unfolding word_le_nat_alt unat_drop using u by (simp_all add: P')
  have "unat (2048 - P) = 2048 - unat p" using unat_sub [OF le(1)] by (simp add: P')
  then have inc: "unat (drop_bit movebits (2048 - P)) = (2048 - unat p) div 32"
    unfolding unat_drop by (simp add: movebits_def)
  then have "unat (P + drop_bit movebits (2048 - P)) = unat p + (2048 - unat p) div 32"
    using u by (simp add: unat_add_small P')
  then show "unat (next_prob 0 p) = unat p + (2048 - unat p) div 32"
    unfolding next_prob_def one P_def [symmetric] using u by (simp add: unsigned_ucast_eq take_bit_eq_mod)
  have "unat (drop_bit movebits P) = unat p div 32"
    unfolding unat_drop by (simp add: P' movebits_def)
  then have "unat (P - drop_bit movebits P) = unat p - unat p div 32"
    using unat_sub [OF le(2)] by (simp add: P')
  then show "unat (next_prob 1 p) = unat p - unat p div 32"
    using u by (simp add: next_prob_def P_def [symmetric] unsigned_ucast_eq take_bit_eq_mod)
qed

lemma prob_ok_next: "prob_ok p \<Longrightarrow> prob_ok (next_prob b p)"
proof -
  assume p: "prob_ok p"
  have "next_prob b p = next_prob 0 p \<or> next_prob b p = next_prob 1 p" by (simp add: next_prob_def)
  then show ?thesis using p prob_parts(2,3) [OF p] by (auto simp: prob_ok_def)
qed

definition bit_bound :: "u32 \<Rightarrow> prob \<Rightarrow> u32" where
  "bit_bound r p = drop_bit probbits r * ucast p"

lemma bit_bound_range:
  assumes "prob_ok p" "2 ^ 24 \<le> unat r"
  shows "2 ^ 16 \<le> unat (bit_bound r p)" "unat (bit_bound r p) + 2 ^ 16 \<le> unat r"
proof -
  have u: "31 \<le> unat p" "unat p \<le> 2017" using assms(1) by (simp_all add: prob_ok_def)
  define q where "q = unat r div 2048"
  have q: "2 ^ 13 \<le> q" "q * 2048 \<le> unat r" using assms(2) by (simp_all add: q_def)
  have "unat r < 2 ^ 32" using unsigned_less [of r] by simp
  moreover have "q * unat p \<le> q * 2017" using u(2) by (rule mult_le_mono2)
  ultimately have small: "q * unat p < 2 ^ 32" "q * unat p + 31 * q \<le> unat r" using q by linarith+
  have "unat (drop_bit probbits r) = q"
    unfolding unat_drop by (simp add: q_def probbits_def)
  then have bound: "unat (bit_bound r p) = q * unat p"
    using small by (simp add: bit_bound_def unat_word_ariths prob_parts(1) [OF assms(1)])
  have "q * 31 \<le> q * unat p" using u(1) by (rule mult_le_mono2)
  moreover have "2 ^ 16 \<le> q * 31" using q(1) by simp
  ultimately have a: "2 ^ 16 \<le> q * unat p" "2 ^ 16 \<le> q * 31" by linarith+
  then show "2 ^ 16 \<le> unat (bit_bound r p)" "unat (bit_bound r p) + 2 ^ 16 \<le> unat r"
    by (use q small bound a in linarith)+
qed

lemma EncodeBit_eq:
  "EncodeBit b (p, e) =
     (let bound = bit_bound (re_nrange e) p;
          e1 = (if b AND 1 = 0 then e\<lparr>re_nrange := bound\<rparr>
                else e\<lparr>re_low := re_low e + ucast bound, re_nrange := re_nrange e - bound\<rparr>);
          (res, e2) = re_normalize e1
      in (res, next_prob b p, e2))"
  by (simp add: EncodeBit_def bit_bound_def next_prob_def Let_def)

lemma DecodeBit_eq:
  "DecodeBit (p, d) =
     (let bound = bit_bound (rd_nrange d) p; b = (if rd_code d < bound then 0 else 1);
          d1 = (if rd_code d < bound then d\<lparr>rd_nrange := bound\<rparr>
                else d\<lparr>rd_code := rd_code d - bound, rd_nrange := rd_nrange d - bound\<rparr>);
          (res, d2) = lbind rd_normalize (\<lambda>_. lret b) d1
      in (res, next_prob b p, d2))"
  by (simp add: DecodeBit_def bit_bound_def next_prob_def Let_def)

lemma enc_base_nrange [simp]:
  "enc_base pre (e\<lparr>re_nrange := r\<rparr>) = enc_base pre e" "enc_pos pre (e\<lparr>re_nrange := r\<rparr>) = enc_pos pre e"
  "target pre F (e\<lparr>re_nrange := r\<rparr>) = target pre F e"
  "enc_state pre (e\<lparr>re_nrange := r\<rparr>) w = enc_state pre e w"
  by (simp_all add: enc_base_def enc_pos_def enc_written_def pending_def target_def enc_state_def)

text \<open>Narrowing the interval to its part of length \<open>m\<close> at offset \<open>k\<close>.\<close>

lemma narrow:
  assumes ready: "enc_ready pre e" and k: "k + unat m \<le> unat (re_nrange e)" and m: "2 ^ 16 \<le> unat m"
    and l: "unat l = k" and n: "re_normalize (e\<lparr>re_low := re_low e + l, re_nrange := m\<rparr>) = (Inr u, e')"
  shows "enc_ready pre e'"
    and "contains pre F e' \<Longrightarrow> contains pre F e"
    and "contains pre F e' \<Longrightarrow> sync pre F T d e \<Longrightarrow> k \<le> unat (rd_code d) \<and> unat (rd_code d) < k + unat m"
    and "contains pre F e' \<Longrightarrow> sync pre F T d e \<Longrightarrow> unat c + k = unat (rd_code d) \<Longrightarrow>
      \<exists>d'. rd_normalize (d\<lparr>rd_code := c, rd_nrange := m\<rparr>) = (Inr (), d') \<and> sync pre F T d' e'"
proof -
  define e1 where "e1 = e\<lparr>re_low := re_low e + l, re_nrange := m\<rparr>"
  have low: "unat (re_low e + l) = unat (re_low e) + k"
      using ready k l by (intro trans [OF unat_add_small]) (simp_all add: enc_ready_def enc_state_def)
  have st: "enc_state pre e1 (unat (re_nrange e1))"
    using ready k m low by (simp add: enc_ready_def enc_state_def e1_def pending_def enc_written_def)
  have base: "enc_base pre e1 = enc_base pre e + k" "enc_pos pre e1 = enc_pos pre e" "target pre F e1 = target pre F e" for F
    by (simp_all add: enc_base_def enc_pos_def enc_written_def pending_def target_def e1_def low)
  have m1: "2 ^ 16 \<le> unat (re_nrange e1)" using m by (simp add: e1_def)
  note n1 = n [folded e1_def]
  show "enc_ready pre e'" using re_normalize_state [OF st m1 n1] by blast
  have con1: "contains pre F e1" if "contains pre F e'" for F
    by (rule normalize_sync(1) [OF st m1 n1 that])
  have con: "contains pre F e" if "contains pre F e'" for F
    using con1 [OF that] k base by (simp add: contains_def e1_def)
  then show "contains pre F e' \<Longrightarrow> contains pre F e" .
  { assume F: "contains pre F e'" and s: "sync pre F T d e"
    show code: "k \<le> unat (rd_code d) \<and> unat (rd_code d) < k + unat m"
      using con1 [OF F] s base by (simp add: contains_def sync_def e1_def)
    assume c: "unat c + k = unat (rd_code d)"
    have "sync pre F T (d\<lparr>rd_code := c, rd_nrange := m\<rparr>) e1"
      using s c base by (simp add: sync_def e1_def)
    from normalize_sync(2) [OF st m1 n1 F this]
    show "\<exists>d'. rd_normalize (d\<lparr>rd_code := c, rd_nrange := m\<rparr>) = (Inr (), d') \<and> sync pre F T d' e'" . }
qed

lemma codes_bit: "codes prob_ok (EncodeBit b) DecodeBit (b AND 1)"
proof (rule tripleI)
  fix pre p e u p' e'
  assume ok: "prob_ok p" and ready: "enc_ready pre e" and r: "EncodeBit b (p, e) = (Inr u, p', e')"
  define m where "m = bit_bound (re_nrange e) p"
  from bit_bound_range [OF ok, of "re_nrange e"] ready
  have m: "2 ^ 16 \<le> unat m" "unat m + 2 ^ 16 \<le> unat (re_nrange e)" by (simp_all add: m_def enc_ready_def)
  have p': "p' = next_prob b p" using r by (auto simp: EncodeBit_eq Let_def split: prod.splits)
  define k where "k = (if b AND 1 = 0 then 0 else unat m)"
  define l where "l = (if b AND 1 = 0 then 0 else ucast m :: u64)"
  define w where "w = (if b AND 1 = 0 then m else re_nrange e - m)"
  have uw: "unat w = (if b AND 1 = 0 then unat m else unat (re_nrange e) - unat m)"
    using m by (auto simp: w_def unat_sub word_le_nat_alt)
  have kw: "k + unat w \<le> unat (re_nrange e)" "2 ^ 16 \<le> unat w" using m uw by (auto simp: k_def)
  have lk: "unat l = k"
    by (simp add: l_def k_def unat_ucast_up)
  have n: "re_normalize (e\<lparr>re_low := re_low e + l, re_nrange := w\<rparr>) = (Inr u, e')"
    using r by (auto simp: EncodeBit_eq Let_def l_def w_def m_def split: prod.splits if_splits)
  note nar = narrow [OF ready kw lk n]
  show "prob_ok p' \<and> enc_ready pre e'" using nar(1) prob_ok_next [OF ok] p' by blast
  { fix F assume "contains pre F e'" then show "contains pre F e" by (rule nar(2)) }
  fix F T d
  assume F: "contains pre F e'" and s: "sync pre F T d e"
  have bnd: "bit_bound (rd_nrange d) p = m" using s by (simp add: sync_def m_def)
  note code = nar(3) [OF F s]
  show "\<exists>d'. DecodeBit (p, d) = (Inr (b AND 1), p', d') \<and> sync pre F T d' e'"
  proof (cases "b AND 1 = 0")
    case True
    with code uw have "rd_code d < m" by (simp add: k_def word_less_nat_alt)
    moreover obtain d' where "rd_normalize (d\<lparr>rd_nrange := m\<rparr>) = (Inr (), d')" "sync pre F T d' e'"
      using nar(4) [OF F s, of "rd_code d"] True by (auto simp: k_def w_def)
    ultimately show ?thesis
      using True p' by (simp add: DecodeBit_eq bnd Let_def lbind_def lret_def next_prob_def)
  next
    case False
    then have b1: "b AND 1 = 1" by (simp add: and_one_eq mod_2_eq_odd split: if_splits)
    from False code have nl: "\<not> rd_code d < m" by (simp add: k_def word_less_nat_alt)
    then have "unat (rd_code d - m) + k = unat (rd_code d)"
      using False by (simp add: k_def unat_sub word_le_nat_alt word_less_nat_alt)
    from nar(4) [OF F s this] obtain d' where
      "rd_normalize (d\<lparr>rd_code := rd_code d - m, rd_nrange := re_nrange e - m\<rparr>) = (Inr (), d')"
      "sync pre F T d' e'" using False by (auto simp: w_def)
    moreover have nr: "rd_nrange d = re_nrange e" using s by (simp add: sync_def)
    ultimately show ?thesis
      using nl p' b1 unfolding DecodeBit_eq bnd Let_def unfolding nr by (simp add: lbind_def lret_def next_prob_def)
  qed
qed

lemma rd_swap: "d\<lparr>rd_nrange := a, rd_code := b\<rparr> = d\<lparr>rd_code := b, rd_nrange := a\<rparr>"
  by simp

lemma codes_direct: "codes I (on_coder (DirectEncodeBit b)) (on_coder DirectDecodeBit) (b AND 1)"
proof (rule tripleI)
  fix pre c e u c' e'
  assume "I c" and ready: "enc_ready pre e" and r: "on_coder (DirectEncodeBit b) (c, e) = (Inr u, c', e')"
  define m where "m = drop_bit 1 (re_nrange e)"
  have um: "unat m = unat (re_nrange e) div 2"
    unfolding m_def unat_drop by simp
  define k where "k = (if b AND 1 = 0 then 0 else unat m)"
  define l where "l = (if b AND 1 = 0 then 0 else ucast m :: u64)"
  have kw: "k + unat m \<le> unat (re_nrange e)" "2 ^ 16 \<le> unat m"
    using ready um by (auto simp: k_def enc_ready_def)
  have lk: "unat l = k"
    by (simp add: l_def k_def unat_ucast_up)
  have l: "ucast m AND (0 - (ucast b AND 1)) = l"
  proof -
    have low: "(ucast b AND 1 :: u64) = ucast (b AND 1)" by (rule bit_word_eqI) (auto simp: bit_simps)
    show ?thesis
    proof (cases "b AND 1 = 0")
      case False
      then have "b AND 1 = 1" by (simp add: and_one_eq mod_2_eq_odd split: if_splits)
      then show ?thesis unfolding low by (simp add: l_def)
    qed (simp add: low l_def)
  qed
  have n: "re_normalize (e\<lparr>re_low := re_low e + l, re_nrange := m\<rparr>) = (Inr u, e')" and c': "c' = c"
    using r unfolding on_coder_def DirectEncodeBit_def Let_def m_def [symmetric] l prod.case
    by (cases e; auto split: prod.splits)+
  note nar = narrow [OF ready kw lk n]
  show "I c' \<and> enc_ready pre e'" using nar(1) \<open>I c\<close> c' by blast
  { fix F assume "contains pre F e'" then show "contains pre F e" by (rule nar(2)) }
  fix F T d
  assume F: "contains pre F e'" and s: "sync pre F T d e"
  have bnd: "drop_bit 1 (rd_nrange d) = m" using s by (simp add: sync_def m_def)
  note code = nar(3) [OF F s]
  show "\<exists>d'. on_coder DirectDecodeBit (c, d) = (Inr (b AND 1), c', d') \<and> sync pre F T d' e'"
  proof -
    define t where "t = 0 - drop_bit 31 (rd_code d - m)"
    have "unat (re_nrange e) < 2 ^ 32" by (rule order_less_le_trans [OF unsigned_less]) simp
    then have m31: "unat m < 2 ^ 31" using um by simp
    have one: "b AND 1 = 0 \<or> b AND 1 = 1" by (simp add: and_one_eq mod_2_eq_odd)
    have t: "t = (if b AND 1 = 0 then - 1 else 0)"
    proof (cases "b AND 1 = 0")
      case True
      then have lt: "unat (rd_code d) < unat m" using code by (simp add: k_def)
      then have "unat (rd_code d - m) = 2 ^ 32 + unat (rd_code d) - unat m"
        by (simp add: unat_sub_if' word_le_nat_alt)
      then have "unat (drop_bit 31 (rd_code d - m)) = 1" unfolding unat_drop using lt m31 by simp
      then have "drop_bit 31 (rd_code d - m) = 1" by (simp add: word_unat_eq_iff)
      then show ?thesis using True by (simp add: t_def)
    next
      case False
      then have ge: "unat m \<le> unat (rd_code d)" "unat (rd_code d) < unat m + unat m"
        using code by (simp_all add: k_def)
      then have "unat (rd_code d - m) = unat (rd_code d) - unat m"
        by (simp add: unat_sub word_le_nat_alt)
      then have "unat (drop_bit 31 (rd_code d - m)) = 0" unfolding unat_drop using ge m31 by simp
      then have "drop_bit 31 (rd_code d - m) = 0" by (simp only: unat_eq_0)
      then show ?thesis using False by (simp add: t_def)
    qed
    have c1: "unat (rd_code d - m + (m AND t)) + k = unat (rd_code d)"
      using t code by (cases "b AND 1 = 0") (auto simp: k_def unat_sub word_le_nat_alt)
    have res: "(t + 1) AND 1 = b AND 1" using t one by auto
    from nar(4) [OF F s c1] obtain d' where
      "rd_normalize (d\<lparr>rd_code := rd_code d - m + (m AND t), rd_nrange := m\<rparr>) = (Inr (), d')"
      "sync pre F T d' e'" by blast
    then show ?thesis
      using c' unfolding on_coder_def DirectDecodeBit_def prod.case Let_def bnd t_def [symmetric] res rd_swap
      by (simp add: lbind_def lret_def)
  qed
qed

end
