(* ===== verification/RangeRun.thy ===== *)
theory RangeRun
  imports RangeSync
begin

text \<open>
  A whole range-coded stream: what \<open>newRangeEncoder\<close>, a run of coding operations and \<open>Close\<close> write,
  \<open>newRangeDecoder\<close> and the decoding operations read back, and the decoder ends with \<open>code = 0\<close> on
  the first byte that follows. The locale \<open>codec\<close> is what the package expects of a codec, a pair of
  operations \<open>Encode\<close> and \<open>Decode\<close> on a structure of probabilities.
\<close>

section \<open>The beginning\<close>

lemma new_ready:
  "enc_ready (written (lb_BW lbw)) (newRangeEncoder lbw)"
  "enc_base (written (lb_BW lbw)) (newRangeEncoder lbw) = 0"
  "enc_pos (written (lb_BW lbw)) (newRangeEncoder lbw) = 1"
  by (simp_all add: enc_ready_def enc_state_def newRangeEncoder_def enc_written_def pending_def
      enc_base_def enc_pos_def)

lemma new_nrange: "re_nrange (newRangeEncoder lbw) = 0xffffffff"
  by (simp add: newRangeEncoder_def)

lemma num4:
  "num [a, b, c, d] = ((unat a * 256 + unat b) * 256 + unat c) * 256 + unat d"
  by (simp add: num_def)

lemma code4:
  fixes a b c d :: byte
  shows "unat (push_bit 8 (push_bit 8 (push_bit 8 (push_bit 8 (0 :: u32) OR ucast a) OR ucast b) OR ucast c) OR ucast d)
    = num [a, b, c, d]"
proof -
  have less: "unat x < 256" for x :: byte using unsigned_less [of x] by simp
  have s: "unat (push_bit 8 (w :: u32) OR ucast x) = 256 * unat w + unat x" if "unat w < 2 ^ 24" for w and x :: byte
    by (rule unat_shift8_or [OF that])
  define x y z where "x = push_bit 8 (0 :: u32) OR ucast a" and "y = push_bit 8 x OR ucast b"
    and "z = push_bit 8 y OR ucast c"
  have x: "unat x = unat a" unfolding x_def by (subst s) simp_all
  then have "unat x < 2 ^ 24" using less [of a] by simp
  from s [OF this, of b] x have y: "unat y = 256 * unat a + unat b" by (simp add: y_def)
  then have "unat y < 2 ^ 24" using less [of a] less [of b] by simp
  from s [OF this, of c] y have z: "unat z = 256 * (256 * unat a + unat b) + unat c" by (simp add: z_def)
  then have "unat z < 2 ^ 24" using less [of a] less [of b] less [of c] by simp
  from s [OF this, of d] z show ?thesis unfolding x_def [symmetric] y_def [symmetric] z_def [symmetric] num4
    by simp
qed

lemma newRangeDecoder_sync:
  assumes c: "contains (written (lb_BW lbw)) F (newRangeEncoder lbw)" and data: "br_data r = F @ T"
  shows "\<exists>d. newRangeDecoder r = (Inr d, rd_br d) \<and> sync (written (lb_BW lbw)) F T d (newRangeEncoder lbw)"
proof -
  let ?e = "newRangeEncoder lbw" and ?pre = "written (lb_BW lbw)"
  have len: "5 \<le> length F" and small: "num (take 5 F) < 2 ^ 32 - 1"
    using c by (simp_all add: contains_def new_ready target_def new_nrange)
  obtain z a b c' d rest where F: "F = z # a # b # c' # d # rest"
    using len by (auto simp: neq_Nil_conv Suc_le_length_iff numeral_eq_Suc)
  have t: "take 5 F = [z, a, b, c', d]" by (simp add: F)
  have zn: "num (take 5 F) = unat z * 2 ^ 32 + num [a, b, c', d]" unfolding t by (subst num_Cons) simp
  have z: "z = 0"
  proof (rule ccontr)
    assume "z \<noteq> 0"
    then have "unat z \<noteq> 0" by (simp add: unat_eq_0)
    with zn small show False by simp
  qed
  define code where "code = push_bit 8 (push_bit 8 (push_bit 8 (push_bit 8 (0 :: u32) OR ucast a) OR ucast b) OR ucast c') OR ucast d"
  have code: "unat code = num (take 5 F)" unfolding zn z code_def code4 by simp
  define r' where "r' = r\<lparr>br_data := rest @ T\<rparr>"
  have u4: "updates 4 \<lparr>rd_br = r\<lparr>br_data := a # b # c' # d # rest @ T\<rparr>, rd_nrange = 0xffffffff, rd_code = 0\<rparr>
      = (Inr (), \<lparr>rd_br = r', rd_nrange = 0xffffffff, rd_code = code\<rparr>)"
    unfolding code_def r'_def
    by (simp add: numeral_eq_Suc lbind_def lret_def updateCode_def br_ReadByte_def)
  have lt: "\<not> 0xffffffff \<le> code" using small code by (simp add: word_le_nat_alt)
  have "newRangeDecoder r = (Inr \<lparr>rd_br = r', rd_nrange = 0xffffffff, rd_code = code\<rparr>, r')"
    using data u4 lt by (simp add: newRangeDecoder_def br_ReadByte_def F z)
  moreover have "sync ?pre F T \<lparr>rd_br = r', rd_nrange = 0xffffffff, rd_code = code\<rparr> ?e"
    using code by (simp add: sync_def new_ready target_def r'_def F new_nrange)
  ultimately show ?thesis by force
qed

section \<open>The end\<close>

lemma shiftLow_flush:
  assumes st: "enc_state pre e w" and low: "re_low e = 0" and s: "shiftLow e = (Inr u, e')"
  shows "enc_written e' = enc_written e @ pending e"
proof -
  obtain n where n: "re_cacheLen e = int (Suc n)"
    using st by (metis enc_state_def int_one_le_iff_zero_less zero_less_imp_eq_int not0_implies_Suc not_gr_zero)
  show ?thesis using shiftLow_write(1) [OF s _ n] low n by (simp add: pending_def)
qed

lemma shifts_interval:
  assumes "enc_state pre e 1" "shifts n e = (Inr u, e')"
  shows "enc_state pre e' 1 \<and> enc_base pre e' = 256 ^ n * enc_base pre e \<and>
    enc_pos pre e' = enc_pos pre e + n \<and> (0 < n \<longrightarrow> unat (re_low e') < 2 ^ 32)"
  using assms
proof (induction n arbitrary: e)
  case (Suc n)
  from Suc.prems(2) obtain e1 where e1: "shiftLow e = (Inr (), e1)" "shifts n e1 = (Inr u, e')"
    by (auto simp: lbind_Inr)
  note s = shiftLow_interval [OF Suc.prems(1) _ e1(1)]
  then have "enc_state pre e1 1" by (auto intro: enc_state_mono)
  from Suc.IH [OF this e1(2)] s e1(2) show ?case by (cases n) auto
qed auto

lemma Close_written:
  assumes ready: "enc_ready pre e" and c: "re_Close e = (Inr u, e')"
  obtains F where "enc_written e' = pre @ F" "contains pre F e" "num F = enc_base pre e"
    "length F = enc_pos pre e + 4"
proof -
  have "shifts (4 + 1) e = (Inr u, e')" using c by (simp add: re_Close_def)
  then obtain e4 where e4: "shifts 4 e = (Inr (), e4)" "shiftLow e4 = (Inr u, e')"
    by (auto simp: lbind_Inr numeral_eq_Suc)
  have st: "enc_state pre e 1" using ready by (auto simp: enc_ready_def intro: enc_state_mono)
  note s4 = shifts_interval [OF st e4(1)]
  define M where "M = num (drop (length pre) (enc_written e4) @ pending e4)"
  have base: "M * 2 ^ 32 + unat (re_low e4) = 2 ^ 32 * enc_base pre e" "unat (re_low e4) < 2 ^ 32"
    using s4 by (simp_all add: enc_base_def M_def)
  have "unat (re_low e4) = (M * 2 ^ 32 + unat (re_low e4)) mod 2 ^ 32"
    using base(2) by (simp only: mod_mult_self3 mod_less)
  also have "\<dots> = 0" unfolding base(1) by simp
  finally have low: "re_low e4 = 0" by (simp only: unat_eq_0)
  have M: "M = enc_base pre e" using base(1) low by simp
  have st4: "enc_state pre e4 1" using s4 by blast
  note w = shiftLow_flush [OF st4 low e4(2)]
  define F where "F = drop (length pre) (enc_written e4) @ pending e4"
  have "enc_written e' = pre @ F"
    using w st4 by (metis F_def append_assoc append_take_drop_id enc_state_def)
  moreover have len: "length F = enc_pos pre e + 4"
    using s4 by (simp add: F_def enc_pos_def enc_state_def)
  moreover have "num F = enc_base pre e" using M by (simp add: F_def M_def)
  moreover have "0 < unat (re_nrange e)" using ready by (simp add: enc_ready_def)
  ultimately show thesis using that by (simp add: contains_def target_def)
qed

section \<open>Streams\<close>

lemma codes_run:
  assumes cd: "codes I E D v" and I: "I c"
    and run: "E (c, newRangeEncoder lbw) = (Inr u, c', e)" and close: "re_Close e = (Inr u', e')"
  obtains F where "enc_written e' = written (lb_BW lbw) @ F"
    and "\<And>T r. br_data r = F @ T \<Longrightarrow> \<exists>d d'. newRangeDecoder r = (Inr d, rd_br d) \<and>
      D (c, d) = (Inr v, c', d') \<and> possiblyAtEnd d' \<and> br_data (rd_br d') = T"
proof -
  note o1 = tripleD [OF cd I new_ready(1) run]
  obtain F where F: "enc_written e' = written (lb_BW lbw) @ F" "contains (written (lb_BW lbw)) F e"
    "num F = enc_base (written (lb_BW lbw)) e" "length F = enc_pos (written (lb_BW lbw)) e + 4"
    by (rule Close_written [OF o1(2) close]) blast
  have "\<exists>d d'. newRangeDecoder r = (Inr d, rd_br d) \<and>
      D (c, d) = (Inr v, c', d') \<and> possiblyAtEnd d' \<and> br_data (rd_br d') = T"
    if "br_data r = F @ T" for T r
  proof -
    from newRangeDecoder_sync [OF o1(3) [OF F(2)] that] obtain d where
      d: "newRangeDecoder r = (Inr d, rd_br d)" "sync (written (lb_BW lbw)) F T d (newRangeEncoder lbw)" by blast
    from o1(4) [OF F(2) d(2)] obtain d' where
      d': "D (c, d) = (Inr v, c', d')" "sync (written (lb_BW lbw)) F T d' e" by blast
    then have "unat (rd_code d') = 0" "br_data (rd_br d') = T"
      using F(3,4) by (simp_all add: sync_def target_def)
    then have "possiblyAtEnd d'" by (simp only: possiblyAtEnd_def unat_eq_0)
    with d(1) d'(1) \<open>br_data (rd_br d') = T\<close> show ?thesis by blast
  qed
  with F(1) show thesis by (rule that)
qed

text \<open>A sequence of values, coded one after the other.\<close>

fun encode_all :: "('v \<Rightarrow> ('c \<times> rangeEncoder, unit) lz) \<Rightarrow> 'v list \<Rightarrow> ('c \<times> rangeEncoder, unit) lz" where
  "encode_all encode [] = lret ()"
| "encode_all encode (v # vs) = lbind (encode v) (\<lambda>_. encode_all encode vs)"

fun decode_all :: "('c \<times> rangeDecoder, 'v) lz \<Rightarrow> nat \<Rightarrow> ('c \<times> rangeDecoder, 'v list) lz" where
  "decode_all decode 0 = lret []"
| "decode_all decode (Suc n) = lbind decode (\<lambda>v. lbind (decode_all decode n) (\<lambda>vs. lret (v # vs)))"

locale codec =
  fixes encode :: "'v \<Rightarrow> ('c \<times> rangeEncoder, unit) lz"
    and decode :: "('c \<times> rangeDecoder, 'v) lz"
    and inv :: "'c \<Rightarrow> bool" and valid :: "'v \<Rightarrow> bool"
  assumes codes: "valid v \<Longrightarrow> codes inv (encode v) decode v"
begin

lemma codes_all: "list_all valid vs \<Longrightarrow> codes inv (encode_all encode vs) (decode_all decode (length vs)) vs"
proof (induction vs)
  case (Cons v vs)
  from Cons codes show ?case
    by (auto intro!: codes_bind [where ?v1.0 = v] codes_value)
qed (simp add: codes_ret)

lemma stream_roundtrip:
  assumes "list_all valid vs" "inv c" "encode_all encode vs (c, newRangeEncoder lbw) = (Inr u, c', e)"
    and "re_Close e = (Inr u', e')"
  obtains F where "enc_written e' = written (lb_BW lbw) @ F"
    and "\<And>T r. br_data r = F @ T \<Longrightarrow> \<exists>d d'. newRangeDecoder r = (Inr d, rd_br d) \<and>
      decode_all decode (length vs) (c, d) = (Inr vs, c', d') \<and> possiblyAtEnd d' \<and> br_data (rd_br d') = T"
  by (rule codes_run [OF codes_all [OF assms(1)] assms(2-4)]) blast

end

end
