(* ===== verification/LzmaCodecProofs.thy ===== *)
theory LzmaCodecProofs
  imports LzmaCodecs RangeRun
begin

text \<open>
  The codecs of \<open>LzmaCodecs\<close> decode what they encode, for every state of their probabilities. Each
  is an instance of the locale \<open>codec\<close>.
\<close>

lemma and_1_1 [simp]: "(b AND 1) AND 1 = (b AND 1 :: u32)"
  by (simp add: and.assoc)

lemma u32_below_iff: "n \<le> 31 \<Longrightarrow> (w :: u32) < push_bit n 1 \<longleftrightarrow> unat w < 2 ^ n"
  unfolding word_less_nat_alt unsigned_push_bit_eq
  unfolding push_bit_eq_mult take_bit_eq_mod using power_strict_increasing [of n 32 "2 :: nat"] by simp

section \<open>Trees\<close>

definition tree_ok :: "nat \<Rightarrow> probTree \<Rightarrow> bool" where
  "tree_ok n t \<longleftrightarrow> unat (pt_bits t) = n \<and> array (2 ^ n) (\<lambda>_. prob_ok) (pt_probs t)"

lemma prob_ok_init: "prob_ok probInit"
  by (simp add: prob_ok_def probInit_def probbits_def)

lemma makeProbTree_ok:
  "1 \<le> bits \<Longrightarrow> bits \<le> 32 \<Longrightarrow> \<exists>t. makeProbTree bits = Inr t \<and> tree_ok bits t"
  by (auto simp: makeProbTree_def tree_ok_def intro!: array_replicate prob_ok_init)

lemma codes_prob: "codes prob_ok (prob_Encode b) prob_Decode (b AND 1)"
  unfolding prob_Encode_def prob_Decode_def by (rule codes_bit)

lemma tree_codes:
  "codes (array n (\<lambda>_. prob_ok)) (tree_encode i v m) (tree_decode i m) (push_bit i m OR take_bit i v)"
proof (induction i arbitrary: m)
  case 0
  show ?case by (simp add: codes_ret)
next
  case (Suc i)
  define b where "b = drop_bit i v AND 1"
  have val: "push_bit i (push_bit 1 m OR b) OR take_bit i v = push_bit (Suc i) m OR take_bit (Suc i) v"
    by (rule bit_word_eqI) (auto simp: b_def bit_simps less_Suc_eq)
  have "codes (array n (\<lambda>_. prob_ok)) (element (unat m) (EncodeBit b)) (element (unat m) DecodeBit) b"
    using codes_element [where J = "\<lambda>_. prob_ok", OF codes_bit [of b]] by (simp add: b_def)
  then show ?case
    unfolding tree_encode.simps tree_decode.simps Let_def b_def [symmetric] val [symmetric]
    by (rule codes_bind) (rule Suc.IH)
qed

lemma codes_on_probs:
  assumes "\<And>n. codes (array (2 ^ n) (\<lambda>_. prob_ok)) (E n) (D n) (v n)"
  shows "codes (tree_ok n) (\<lambda>s. on_probs (E (unat (pt_bits (fst s)))) s) (\<lambda>s. on_probs (D (unat (pt_bits (fst s)))) s) (v n)"
  by (rule codes_cong [OF codes_focus [OF assms [of n], of "tree_ok n"]]) (auto simp: tree_ok_def)

lemma codes_tree: "codes (tree_ok n) (treeCodec_Encode v) treeCodec_Decode (take_bit n v)"
proof -
  have v: "(push_bit n 1 OR take_bit n v) - push_bit n 1 = take_bit n v"
  proof -
    have "push_bit n 1 OR take_bit n v = push_bit n 1 + take_bit n v"
      by (rule disjunctive_add [symmetric]) (auto simp: bit_simps)
    then show ?thesis by (simp only: add_diff_cancel_left')
  qed
  have "codes (tree_ok n) (\<lambda>s. on_probs (tree_encode (unat (pt_bits (fst s))) v 1) s)
      (\<lambda>s. on_probs (tree_decode (unat (pt_bits (fst s))) 1) s) (push_bit n 1 OR take_bit n v)"
    by (rule codes_on_probs, rule tree_codes)
  from codes_value [OF this, of "\<lambda>m. m - push_bit n 1", unfolded v] show ?thesis
    by (rule codes_cong)
      (auto simp: treeCodec_Encode_def treeCodec_Decode_def tree_ok_def lbind_def Let_def v split: prod.splits)
qed

lemma Suc_add_diff: "i < n \<Longrightarrow> Suc (i + (n - Suc i)) = n"
  by simp

lemma reverse_codes:
  "codes (array k (\<lambda>_. prob_ok)) (reverse_encode n i v m) (reverse_decode n i w m)
     (w OR push_bit i (take_bit n (drop_bit i v)))"
proof (induction n arbitrary: i w m)
  case 0
  show ?case by (simp add: codes_ret)
next
  case (Suc n)
  define b where "b = drop_bit i v AND 1"
  have val: "(w OR push_bit i b) OR push_bit (i + 1) (take_bit n (drop_bit (i + 1) v))
      = w OR push_bit i (take_bit (Suc n) (drop_bit i v))"
    by (rule bit_word_eqI) (auto simp: b_def bit_simps less_Suc_eq le_less Suc_add_diff simp del: push_bit_Suc)
  have "codes (array k (\<lambda>_. prob_ok)) (element (unat m) (EncodeBit b)) (element (unat m) DecodeBit) b"
    using codes_element [where J = "\<lambda>_. prob_ok", OF codes_bit [of b]] by (simp add: b_def)
  then show ?case
    unfolding reverse_encode.simps reverse_decode.simps Let_def b_def [symmetric] val [symmetric]
    by (rule codes_bind) (rule Suc.IH)
qed

lemma codes_reverse:
  "codes (tree_ok n) (treeReverseCodec_Encode v) treeReverseCodec_Decode (take_bit n v)"
proof -
  have v: "take_bit n v = 0 OR push_bit 0 (take_bit n (drop_bit 0 v))" by simp
  show ?thesis
    unfolding v
    by (rule codes_cong [OF codes_on_probs [where E = "\<lambda>n. reverse_encode n 0 v 1"
            and D = "\<lambda>n. reverse_decode n 0 0 1" and v = "\<lambda>n. 0 OR push_bit 0 (take_bit n (drop_bit 0 v))",
            OF reverse_codes]])
      (simp_all only: treeReverseCodec_Encode_def treeReverseCodec_Decode_def)
qed

section \<open>Direct bits\<close>

lemma direct_codes:
  "codes I (direct_encode n v) (direct_decode n w) (push_bit n w OR take_bit n v)"
proof (induction n arbitrary: w)
  case 0
  show ?case by (simp add: codes_ret)
next
  case (Suc n)
  define b where "b = drop_bit n v AND 1"
  have val: "push_bit n (push_bit 1 w OR b) OR take_bit n v = push_bit (Suc n) w OR take_bit (Suc n) v"
    by (rule bit_word_eqI) (auto simp: b_def bit_simps less_Suc_eq)
  show ?case
    unfolding direct_encode.simps direct_decode.simps val [symmetric] b_def
    by (rule codes_bind, rule codes_direct) (rule Suc.IH)
qed

lemma codes_directCodec:
  "codes I (directCodec_Encode dc v) (directCodec_Decode dc) (take_bit (unat dc) v)"
  using direct_codes [of I "unat dc" v 0] by (simp add: directCodec_Encode_def directCodec_Decode_def)

section \<open>Lengths\<close>

definition length_ok :: "lengthCodec \<Rightarrow> bool" where
  "length_ok lc \<longleftrightarrow> array 2 (\<lambda>_. prob_ok) (lc_choice lc) \<and> array 16 (\<lambda>_. tree_ok 3) (lc_low lc) \<and>
     array 16 (\<lambda>_. tree_ok 3) (lc_mid lc) \<and> tree_ok 8 (lc_high lc)"

lemma lengthCodec_init_ok: "\<exists>lc. lengthCodec_init = Inr lc \<and> length_ok lc"
proof -
  obtain t h where "makeProbTree 3 = Inr t" "tree_ok 3 t" "makeProbTree 8 = Inr h" "tree_ok 8 h"
    using makeProbTree_ok [of 3] makeProbTree_ok [of 8] by auto
  then show ?thesis
    by (auto simp: lengthCodec_init_def makeTreeCodec_def length_ok_def maxPosBits_def
        intro!: array_replicate prob_ok_init)
qed

lemma codes_choice:
  "codes length_ok (on_choice i (prob_Encode b)) (on_choice i prob_Decode) (b AND 1)"
  by (rule codes_focus [OF codes_element [OF codes_prob]]) (auto simp: length_ok_def)

lemma codes_low:
  "codes length_ok (on_low i (treeCodec_Encode v)) (on_low i treeCodec_Decode) (take_bit 3 v)"
  by (rule codes_focus [OF codes_element [OF codes_tree]]) (auto simp: length_ok_def)

lemma codes_mid:
  "codes length_ok (on_mid i (treeCodec_Encode v)) (on_mid i treeCodec_Decode) (take_bit 3 v)"
  by (rule codes_focus [OF codes_element [OF codes_tree]]) (auto simp: length_ok_def)

lemma codes_high:
  "codes length_ok (on_high (treeCodec_Encode v)) (on_high treeCodec_Decode) (take_bit 8 v)"
  by (rule codes_focus [OF codes_tree]) (auto simp: length_ok_def)

lemma take_bit_small: "unat (v :: u32) < 2 ^ n \<Longrightarrow> take_bit n v = v"
  by (simp only: word_unat_eq_iff unsigned_take_bit_eq take_bit_nat_eq_self)

lemma codes_length: "codes length_ok (lengthCodec_Encode l posState) (lengthCodec_Decode posState) l"
proof -
  consider "l > 271" | "unat l < 8" | "8 \<le> unat l" "unat l < 16" | "16 \<le> unat l" "\<not> l > 271"
    by linarith
  then show ?thesis
  proof cases
    case 1
    then show ?thesis by (simp add: lengthCodec_Encode_def maxMatchLen_def minMatchLen_def codes_fail)
  next
    case 2
    then have c: "\<not> l > 271" "l < 8" "take_bit 3 l = l" by (simp_all add: word_less_nat_alt take_bit_small)
    from c(1,2) have E: "lengthCodec_Encode l posState =
        lbind (on_choice 0 (prob_Encode 0)) (\<lambda>_. on_low posState (treeCodec_Encode l))"
      by (simp add: lengthCodec_Encode_def maxMatchLen_def minMatchLen_def)
    show ?thesis
      unfolding E lengthCodec_Decode_def
      by (rule codes_bind [OF codes_choice]) (use codes_low [of posState l] c(3) in simp)
  next
    case 3
    then have c: "\<not> l > 271" "\<not> l < 8" "l < 16" by (simp_all add: word_less_nat_alt)
    have "unat (l - 8) = unat l - 8" using 3 by (simp add: unat_sub word_le_nat_alt)
    with 3 have v: "take_bit 3 (l - 8) = l - 8" by (simp add: take_bit_small)
    from c have E: "lengthCodec_Encode l posState =
        lbind (on_choice 0 (prob_Encode 1)) (\<lambda>_. lbind (on_choice 1 (prob_Encode 0))
          (\<lambda>_. on_mid posState (treeCodec_Encode (l - 8))))"
      by (simp add: lengthCodec_Encode_def maxMatchLen_def minMatchLen_def)
    have "codes length_ok (on_mid posState (treeCodec_Encode (l - 8)))
        (lbind (on_mid posState treeCodec_Decode) (\<lambda>l. lret (l + 8))) l"
      using codes_value [OF codes_mid [of posState "l - 8"], of "\<lambda>l. l + 8"] v by simp
    then show ?thesis
      unfolding E lengthCodec_Decode_def
      by (intro codes_bind [OF codes_choice, where ?v2.0 = l]; simp)
        (intro codes_bind [OF codes_choice, where ?v2.0 = l]; simp)
  next
    case 4
    then have c: "\<not> l > 271" "\<not> l < 8" "\<not> l < 16" by (simp_all add: word_less_nat_alt)
    have "unat (l - 16) = unat l - 16" using 4 by (simp add: unat_sub word_le_nat_alt)
    with 4 have v: "take_bit 8 (l - 16) = l - 16"
      by (intro take_bit_small) (simp add: word_less_nat_alt)
    from c have E: "lengthCodec_Encode l posState =
        lbind (on_choice 0 (prob_Encode 1)) (\<lambda>_. lbind (on_choice 1 (prob_Encode 1))
          (\<lambda>_. on_high (treeCodec_Encode (l - 16))))"
      by (simp add: lengthCodec_Encode_def maxMatchLen_def minMatchLen_def)
    have "codes length_ok (on_high (treeCodec_Encode (l - 16)))
        (lbind (on_high treeCodec_Decode) (\<lambda>l. lret (l + 16))) l"
      using codes_value [OF codes_high [of "l - 16"], of "\<lambda>l. l + 16"] v by simp
    then show ?thesis
      unfolding E lengthCodec_Decode_def
      by (intro codes_bind [OF codes_choice, where ?v2.0 = l]; simp)
        (intro codes_bind [OF codes_choice, where ?v2.0 = l]; simp)
  qed
qed

end
