(* ===== verification/LzmaDistProofs.thy ===== *)
theory LzmaDistProofs
  imports LzmaCodecProofs
begin

text \<open>
  The codecs of distances and literals decode what they encode. For the distances this rests on
  \<open>nlz32\<close>, which counts the leading zeros with a multiplication and a table.
\<close>

section \<open>Counting leading zeros\<close>

lemma smear_step:
  fixes x y :: u32
  assumes "\<And>j. bit y j \<longleftrightarrow> (\<exists>k<n. bit x (j + k))" "0 < n"
  shows "bit (y OR drop_bit n y) j \<longleftrightarrow> (\<exists>k<n + n. bit x (j + k))"
proof
  assume "bit (y OR drop_bit n y) j"
  then have "(\<exists>k<n. bit x (j + k)) \<or> (\<exists>k<n. bit x (j + (n + k)))"
    by (auto simp: bit_simps assms(1) ac_simps)
  then show "\<exists>k<n + n. bit x (j + k)"
    by (metis add_strict_left_mono trans_less_add1)
next
  assume "\<exists>k<n + n. bit x (j + k)"
  then obtain k where k: "k < n + n" "bit x (j + k)" by blast
  show "bit (y OR drop_bit n y) j"
  proof (cases "k < n")
    case True
    with k show ?thesis by (auto simp: bit_simps assms(1))
  next
    case False
    then have "k - n < n" "bit x (n + j + (k - n))" using k by (auto simp: ac_simps)
    then have "bit y (n + j)" using assms(1) by blast
    then show ?thesis by (simp add: bit_simps)
  qed
qed

definition smear :: "u32 \<Rightarrow> u32" where
  "smear x =
     (let x = x OR drop_bit 1 x; x = x OR drop_bit 2 x; x = x OR drop_bit 4 x; x = x OR drop_bit 8 x
      in x OR drop_bit 16 x)"

lemma bit_smear: "bit (smear x) j \<longleftrightarrow> (\<exists>k<32. bit x (j + k))"
proof -
  define a where "a = x OR drop_bit 1 x"
  define b where "b = a OR drop_bit 2 a"
  define c where "c = b OR drop_bit 4 b"
  define d where "d = c OR drop_bit 8 c"
  have a: "bit a j \<longleftrightarrow> (\<exists>k<2. bit x (j + k))" for j
    using smear_step [of x 1 x j] by (simp add: a_def numeral_2_eq_2)
  have b: "bit b j \<longleftrightarrow> (\<exists>k<4. bit x (j + k))" for j
    using smear_step [of a 2 x j, OF a] by (simp add: b_def)
  have c: "bit c j \<longleftrightarrow> (\<exists>k<8. bit x (j + k))" for j
    using smear_step [of b 4 x j, OF b] by (simp add: c_def)
  have d: "bit d j \<longleftrightarrow> (\<exists>k<16. bit x (j + k))" for j
    using smear_step [of c 8 x j, OF c] by (simp add: d_def)
  show ?thesis
    using smear_step [of d 16 x j, OF d]
    by (simp only: smear_def Let_def a_def [symmetric] b_def [symmetric] c_def [symmetric] d_def [symmetric])
      simp
qed

lemma top_bit:
  fixes x :: u32
  assumes "2 ^ n \<le> unat x" "unat x < 2 ^ Suc n"
  shows "bit x n" "\<And>j. bit x j \<Longrightarrow> j \<le> n" "n < 32"
proof -
  have "unat x < 2 ^ 32" by (rule order_less_le_trans [OF unsigned_less]) simp
  with assms(1) have "(2 :: nat) ^ n < 2 ^ 32" by (rule le_less_trans)
  then show "n < 32" by (rule power_less_imp_less_exp [rotated]) simp
  have t: "take_bit (Suc n) (unat x) = unat x" using assms(2) by (rule take_bit_nat_eq_self)
  show "j \<le> n" if "bit x j" for j
  proof -
    have "bit (unat x) j" using that by (simp add: bit_unsigned_iff)
    then have "bit (take_bit (Suc n) (unat x)) j" by (simp only: t)
    then show ?thesis by (simp add: bit_take_bit_iff)
  qed
  have "unat x div 2 ^ n = 1" using assms by (intro div_nat_eqI) simp_all
  then have "bit (unat x) n" by (simp add: bit_iff_odd)
  then show "bit x n" by (simp add: bit_unsigned_iff)
qed

lemma smear_mask:
  fixes x :: u32
  assumes "2 ^ n \<le> unat x" "unat x < 2 ^ Suc n"
  shows "smear x = mask (Suc n)"
proof (rule bit_word_eqI)
  fix j assume "j < LENGTH(32)"
  note t = top_bit [OF assms]
  have "(\<exists>k<32. bit x (j + k)) \<longleftrightarrow> j \<le> n"
  proof
    assume "j \<le> n"
    then have "n - j < 32" "bit x (j + (n - j))" using t by auto
    then show "\<exists>k<32. bit x (j + k)" by blast
  qed (use t(2) in fastforce)
  then show "bit (smear x) j \<longleftrightarrow> bit (mask (Suc n) :: u32) j"
    using \<open>j < LENGTH(32)\<close> by (auto simp: bit_smear bit_mask_iff)
qed

lemma nlz32_table:
  "\<forall>n \<in> set [0..<31]. ntz32Table ! unat (drop_bit 27 ((2 ^ Suc n) * ntz32Const)) = int (Suc n)"
  by code_simp

lemma nlz32_top:
  assumes "2 ^ n \<le> unat x" "unat x < 2 ^ Suc n"
  shows "nlz32 x = 31 - int n"
proof -
  have n: "n < 32" by (rule top_bit [OF assms])
  have "nlz32 x = (if smear x + 1 = 0 then 0
      else 32 - ntz32Table ! unat (drop_bit 27 ((smear x + 1) * ntz32Const)))"
    by (simp only: nlz32_def smear_def Let_def)
  moreover have "smear x + 1 = 2 ^ Suc n" unfolding smear_mask [OF assms] by (simp add: mask_eq_exp_minus_1)
  moreover have "(2 :: u32) ^ Suc n = 0 \<longleftrightarrow> n = 31"
    unfolding exp_eq_zero_iff using n by auto
  ultimately show ?thesis
    using nlz32_table n by (cases "n = 31") auto
qed

section \<open>Distances\<close>

definition dist_ok :: "distCodec \<Rightarrow> bool" where
  "dist_ok dc \<longleftrightarrow> array 4 (\<lambda>_. tree_ok 6) (dc_posSlotCodecs dc) \<and>
     array 10 (\<lambda>i. tree_ok ((4 + i) div 2 - 1)) (dc_posModel dc) \<and> tree_ok 4 (dc_alignCodec dc)"

lemma collect_Inr:
  "(\<And>x. x \<in> set xs \<Longrightarrow> \<exists>y. f x = Inr y \<and> P x y) \<Longrightarrow>
     \<exists>ys. collect (map f xs) = Inr ys \<and> list_all2 P xs ys"
proof (induction xs)
  case (Cons x xs)
  obtain y where "f x = Inr y" "P x y" using Cons.prems [of x] by auto
  moreover obtain ys where "collect (map f xs) = Inr ys" "list_all2 P xs ys" using Cons by auto
  ultimately show ?case by simp
qed simp

lemma distCodec_init_ok: "\<exists>dc. distCodec_init = Inr dc \<and> dist_ok dc"
proof -
  obtain t h where "makeProbTree 6 = Inr t" "tree_ok 6 t" "makeProbTree 4 = Inr h" "tree_ok 4 h"
    using makeProbTree_ok [of 6] makeProbTree_ok [of 4] by auto
  moreover have m: "\<exists>y. makeProbTree ((4 + i) div 2 - 1) = Inr y \<and> tree_ok ((4 + i) div 2 - 1) y"
    if "i \<in> set [0..<10]" for i
    by (rule makeProbTree_ok) (use that in auto)
  from collect_Inr [of "[0..<10]" "\<lambda>i. makeProbTree ((4 + i) div 2 - 1)"
      "\<lambda>i. tree_ok ((4 + i) div 2 - 1)", OF m] obtain ms where
    "collect (map (\<lambda>i. makeProbTree ((4 + i) div 2 - 1)) [0..<10]) = Inr ms"
    "list_all2 (\<lambda>i y. tree_ok ((4 + i) div 2 - 1) y) [0..<10] ms" by blast
  moreover from this(2) have "array 10 (\<lambda>i. tree_ok ((4 + i) div 2 - 1)) ms"
    by (auto simp: array_def list_all2_conv_all_nth)
  ultimately show ?thesis
    by (simp add: distCodec_init_def makeTreeCodec_def makeTreeReverseCodec_def dist_ok_def posSlotBits_def
        startPosModel_def endPosModel_def alignBits_def lenStates_def array_replicate)
qed

lemma codes_slot:
  "codes dist_ok (on_slot l (treeCodec_Encode v)) (on_slot l treeCodec_Decode) (take_bit 6 v)"
  by (rule codes_focus [OF codes_element [OF codes_tree]]) (auto simp: dist_ok_def)

lemma codes_model:
  "codes dist_ok (on_model i (treeReverseCodec_Encode v)) (on_model i treeReverseCodec_Decode)
     (take_bit ((4 + unat i) div 2 - 1) v)"
  by (rule codes_focus [OF codes_element [OF codes_reverse]]) (auto simp: dist_ok_def)

lemma codes_align:
  "codes dist_ok (on_align (treeReverseCodec_Encode v)) (on_align treeReverseCodec_Decode) (take_bit 4 v)"
  by (rule codes_focus [OF codes_reverse]) (auto simp: dist_ok_def)

text \<open>\<open>k\<close> is the number of bits below the two leading ones of the distance.\<close>

lemma dist_bits:
  fixes dist :: u32
  assumes "4 \<le> unat dist"
  obtains k where "1 \<le> k" "k \<le> 30" "2 ^ Suc k \<le> unat dist" "unat dist < 2 ^ Suc (Suc k)"
proof -
  obtain n where n: "2 ^ n \<le> unat dist" "unat dist < 2 ^ Suc n"
    using ex_power_ivl1 [of 2 "unat dist"] assms by auto
  have "2 \<le> n"
  proof (rule ccontr)
    assume "\<not> 2 \<le> n"
    then have "(2 :: nat) ^ Suc n \<le> 2 ^ 2" by (intro power_increasing) simp_all
    with n(2) assms show False by simp
  qed
  moreover have "n < 32" by (rule top_bit [OF n])
  ultimately show thesis using that [of "n - 1"] n by simp
qed

lemma dist_slot_large:
  assumes k: "1 \<le> k" "k \<le> 30" and d: "2 ^ Suc k \<le> unat dist" "unat dist < 2 ^ Suc (Suc k)"
  defines "b \<equiv> drop_bit k dist AND 1"
  shows "dist_slot dist = (of_nat (2 + 2 * k) + b, of_nat k)"
proof -
  have "(2 :: nat) ^ 2 \<le> 2 ^ Suc k" using k by (intro power_increasing) simp_all
  then have "4 \<le> unat dist" using d(1) by simp
  then have "\<not> dist < 4" by (simp add: word_less_nat_alt)
  moreover have "(of_int (30 - nlz32 dist) :: u32) = of_nat k"
    using nlz32_top [OF d] by simp
  moreover have "unat (of_nat k :: u32) = k" using k by (intro unat_of_nat_small) simp
  ultimately show ?thesis by (simp add: dist_slot_def startPosModel_def b_def Let_def)
qed

lemma dist_parts:
  fixes dist :: u32
  assumes d: "2 ^ Suc k \<le> unat dist" "unat dist < 2 ^ Suc (Suc k)"
  shows "push_bit k (2 OR (drop_bit k dist AND 1)) + take_bit k dist = dist"
proof -
  note t = top_bit [OF d]
  have "push_bit k (2 OR (drop_bit k dist AND 1)) + take_bit k dist
      = push_bit k (2 OR (drop_bit k dist AND 1)) OR take_bit k dist"
    by (rule disjunctive_add) (auto simp: bit_simps)
  also have "\<dots> = dist"
  proof (rule bit_word_eqI)
    fix j assume "j < LENGTH(32)"
    have two: "bit (2 :: u32) i \<longleftrightarrow> i = 1" for i
      unfolding bit_2_iff by auto
    have top: "bit (2 OR (drop_bit k dist AND 1)) i \<longleftrightarrow> i = 1 \<or> i = 0 \<and> bit dist k" for i
      unfolding bit_or_iff bit_and_iff two bit_drop_bit_eq bit_1_iff by (cases "i = 0") simp_all
    consider "j < k" | "j = k" | "j = Suc k" | "Suc k < j" by linarith
    then show "bit (push_bit k (2 OR (drop_bit k dist AND 1)) OR take_bit k dist) j \<longleftrightarrow> bit dist j"
    proof cases
      case 4
      then have "\<not> bit dist j" using t(2) [of j] by auto
      with 4 show ?thesis
        unfolding bit_or_iff [of "push_bit _ _"] bit_push_bit_iff bit_take_bit_iff top by auto
    qed (unfold bit_or_iff [of "push_bit _ _"] bit_push_bit_iff bit_take_bit_iff top,
        use t(1) \<open>j < LENGTH(32)\<close> in auto)
  qed
  finally show ?thesis .
qed

lemma codes_dist: "codes dist_ok (distCodec_Encode dist l) (distCodec_Decode l) dist"
proof (cases "4 \<le> unat dist")
  case False
  then have s: "dist < 4" "take_bit 6 dist = dist" by (simp_all add: word_less_nat_alt take_bit_small)
  then have "dist_slot dist = (dist, 0)" by (simp add: dist_slot_def startPosModel_def)
  then have E: "distCodec_Encode dist l = lbind (on_slot l (treeCodec_Encode dist)) (\<lambda>_. lret ())"
    using s by (simp add: distCodec_Encode_def startPosModel_def)
  show ?thesis
    unfolding E distCodec_Decode_def
    by (rule codes_bind [OF codes_slot]) (use s in \<open>simp add: startPosModel_def codes_ret\<close>)
next
  case True
  obtain k where k: "1 \<le> k" "k \<le> 30" and d: "2 ^ Suc k \<le> unat dist" "unat dist < 2 ^ Suc (Suc k)"
    by (rule dist_bits [OF True])
  define b where "b = drop_bit k dist AND 1"
  define posSlot where "posSlot = of_nat (2 + 2 * k) + b"
  have slot: "dist_slot dist = (posSlot, of_nat k)"
    using dist_slot_large [OF k d] by (simp add: posSlot_def b_def)
  have "b = 0 \<or> b = 1" unfolding b_def and_one_eq by (simp add: mod_2_eq_odd)
  then have b: "unat b < 2" by auto
  have u: "unat (of_nat (2 + 2 * k) :: u32) = 2 + 2 * k" using k by (intro unat_of_nat_small) simp
  have uk: "unat (of_nat k :: u32) = k" using k by (intro unat_of_nat_small) simp
  have ps: "unat posSlot = 2 + 2 * k + unat b"
    unfolding posSlot_def using u b k by (subst unat_add_small) simp_all
  have "unat (drop_bit 1 posSlot) = k + 1" unfolding unat_drop ps using b by simp
  moreover have "of_nat (unat (drop_bit 1 posSlot)) = drop_bit 1 posSlot" by (simp only: of_nat_unat ucast_id)
  ultimately have "drop_bit 1 posSlot = of_nat k + 1" by (simp add: add.commute)
  then have bits: "drop_bit 1 posSlot - 1 = of_nat k" by simp
  have low: "posSlot AND 1 = b"
    unfolding word_unat_eq_iff and_one_eq unat_mod_distrib ps using b by simp
  have n4: "\<not> posSlot < 4" using ps k by (simp add: word_less_nat_alt)
  have slot6: "take_bit 6 posSlot = posSlot" using ps b k by (intro take_bit_small) simp
  have slot_codes: "codes dist_ok (on_slot l (treeCodec_Encode posSlot)) (on_slot l treeCodec_Decode) posSlot"
    using codes_slot [of l posSlot] slot6 by simp
  define base where "base = push_bit k (2 OR b)"
  have D: "distCodec_Decode l = lbind (on_slot l treeCodec_Decode) (\<lambda>posSlot.
       if posSlot < 4 then lret posSlot
       else
         let bits = drop_bit 1 posSlot - 1; dist = push_bit (unat bits) (2 OR (posSlot AND 1)) in
         if posSlot < 14
         then lbind (on_model (posSlot - 4) treeReverseCodec_Decode) (\<lambda>u. lret (dist + u))
         else lbind (directCodec_Decode (ucast (bits - 4))) (\<lambda>u.
              let dist = dist + push_bit 4 u in
              lbind (on_align treeReverseCodec_Decode) (\<lambda>u. lret (dist + u))))"
    unfolding distCodec_Decode_def startPosModel_def endPosModel_def alignBits_def of_nat_numeral ..
  show ?thesis
  proof (cases "posSlot < 14")
    case True
    then have E: "distCodec_Encode dist l =
        lbind (on_slot l (treeCodec_Encode posSlot)) (\<lambda>_. on_model (posSlot - 4) (treeReverseCodec_Encode dist))"
      using slot n4 by (simp add: distCodec_Encode_def startPosModel_def endPosModel_def)
    have "unat (posSlot - 4) = 2 * k + unat b - 2" using ps n4 k by (simp add: unat_sub word_le_nat_alt word_less_nat_alt)
    then have i: "(4 + unat (posSlot - 4)) div 2 - 1 = k" using b k by simp
    have "codes dist_ok (on_model (posSlot - 4) (treeReverseCodec_Encode dist))
        (lbind (on_model (posSlot - 4) treeReverseCodec_Decode) (\<lambda>u. lret (base + u))) dist"
      using codes_value [OF codes_model [of "posSlot - 4" dist], of "\<lambda>u. base + u", unfolded i]
        dist_parts [OF d] by (simp add: base_def b_def)
    note model = this
    show ?thesis
      unfolding E D
      by (rule codes_bind [OF slot_codes])
        (use model in \<open>simp add: n4 True bits [simplified] low [simplified] uk base_def Let_def\<close>)
  next
    case False
    have "6 \<le> k" using False ps b by (simp add: word_less_nat_alt)
    define h where "h = (ucast (of_nat k - 4 :: u32) :: byte)"
    have "unat (of_nat k - 4 :: u32) = k - 4" using \<open>6 \<le> k\<close> uk by (simp add: unat_sub word_le_nat_alt)
    then have h: "unat h = k - 4" using k by (simp add: h_def unsigned_ucast_eq take_bit_nat_eq_self)
    have E: "distCodec_Encode dist l = lbind (on_slot l (treeCodec_Encode posSlot)) (\<lambda>_.
        lbind (directCodec_Encode h (drop_bit 4 dist)) (\<lambda>_. on_align (treeReverseCodec_Encode dist)))"
      using slot n4 False by (simp add: distCodec_Encode_def startPosModel_def endPosModel_def alignBits_def h_def)
    define high where "high = base + push_bit 4 (take_bit (k - 4) (drop_bit 4 dist))"
    have "push_bit 4 (take_bit (k - 4) (drop_bit 4 dist)) + take_bit 4 dist
        = push_bit 4 (take_bit (k - 4) (drop_bit 4 dist)) OR take_bit 4 dist"
      by (rule disjunctive_add) (auto simp: bit_simps)
    also have "\<dots> = take_bit k dist"
      using \<open>6 \<le> k\<close> by (intro bit_word_eqI) (auto simp: bit_simps)
    finally have v: "high + take_bit 4 dist = dist"
      using dist_parts [OF d] by (simp add: high_def base_def b_def add.assoc)
    have "codes dist_ok (on_align (treeReverseCodec_Encode dist))
        (lbind (on_align treeReverseCodec_Decode) (\<lambda>u. lret (high + u))) dist"
      using codes_value [OF codes_align [of dist], of "\<lambda>u. high + u"] v by simp
    then have "codes dist_ok
        (lbind (directCodec_Encode h (drop_bit 4 dist)) (\<lambda>_. on_align (treeReverseCodec_Encode dist)))
        (lbind (directCodec_Decode h) (\<lambda>u. lbind (on_align treeReverseCodec_Decode) (\<lambda>u'. lret (base + push_bit 4 u + u')))) dist"
      by (intro codes_bind [OF codes_directCodec]) (simp add: h high_def)
    note direct = this
    show ?thesis
      unfolding E D
      by (rule codes_bind [OF slot_codes])
        (use direct in \<open>simp add: n4 False bits [simplified] low [simplified] uk base_def h_def Let_def\<close>)
  qed
qed

end
