(* ===== verification/LzmaLiteralProofs.thy ===== *)
theory LzmaLiteralProofs
  imports LzmaDistProofs
begin

text \<open>
  The literal codec decodes what it encodes, in both modes, and the codecs as instances of the
  locale \<open>codec\<close>.
\<close>

section \<open>Literals\<close>

text \<open>
  With \<open>n\<close> bits to go, \<open>symbol\<close> is a one followed by the \<open>8 - n\<close> bits coded so far, and \<open>r\<close> has been
  shifted so that the next bit is bit 7.
\<close>

definition symbol_value :: "nat \<Rightarrow> u32 \<Rightarrow> u32 \<Rightarrow> u32" where
  "symbol_value n symbol r = push_bit n symbol OR drop_bit (8 - n) (take_bit 8 r)"

definition symbol_ok :: "nat \<Rightarrow> u32 \<Rightarrow> bool" where
  "symbol_ok n symbol \<longleftrightarrow> n \<le> 8 \<and> 2 ^ (8 - n) \<le> unat symbol \<and> unat symbol < 2 ^ (9 - n)"

lemma symbol_next_value:
  assumes "n < 8"
  shows "symbol_value n (push_bit 1 symbol OR (drop_bit 7 r AND 1)) (push_bit 1 r) = symbol_value (Suc n) symbol r"
proof (rule bit_word_eqI)
  fix j assume "j < LENGTH(32)"
  consider "j < n" | "j = n" | "n < j" by linarith
  then show "bit (symbol_value n (push_bit 1 symbol OR (drop_bit 7 r AND 1)) (push_bit 1 r)) j
      \<longleftrightarrow> bit (symbol_value (Suc n) symbol r) j"
    unfolding symbol_value_def bit_or_iff [of "push_bit _ _"] bit_push_bit_iff bit_drop_bit_eq bit_take_bit_iff bit_and_iff bit_1_iff
    using assms \<open>j < LENGTH(32)\<close>
    by cases (auto simp: Suc_diff_Suc)
qed

lemma shift_or_bit: "unat (symbol :: u32) < 2 ^ 8 \<Longrightarrow> unat (push_bit 1 symbol OR (x AND 1)) = 2 * unat symbol + unat (x AND 1)"
proof -
  assume small: "unat symbol < 2 ^ 8"
  have "push_bit 1 symbol OR (x AND 1) = push_bit 1 symbol + (x AND 1)"
    by (rule disjunctive_add [symmetric]) (unfold bit_push_bit_iff bit_and_iff bit_1_iff, auto)
  moreover have "unat (push_bit 1 symbol) = 2 * unat symbol"
    unfolding unsigned_push_bit_eq unfolding push_bit_eq_mult take_bit_eq_mod using small by simp
  moreover have "unat (x AND 1) < 2" by (simp add: and_one_eq mod_2_eq_odd)
  ultimately show ?thesis using small by (simp add: unat_add_small)
qed

lemma symbol_next_ok:
  assumes "symbol_ok (Suc n) symbol"
  shows "symbol_ok n (push_bit 1 symbol OR (x AND 1))"
proof -
  have n: "n < 8" and b: "2 ^ (7 - n) \<le> unat symbol" "unat symbol < 2 ^ (8 - n)"
    using assms by (simp_all add: symbol_ok_def)
  have "(2 :: nat) ^ (8 - n) \<le> 2 ^ 8" by (rule power_increasing) simp_all
  with b have s: "unat (push_bit 1 symbol OR (x AND 1)) = 2 * unat symbol + unat (x AND 1)"
    by (intro shift_or_bit) simp
  have x: "unat (x AND 1) < 2" by (simp add: and_one_eq mod_2_eq_odd)
  have "(2 :: nat) ^ (8 - n) = 2 * 2 ^ (7 - n)" "(2 :: nat) ^ (9 - n) = 2 * 2 ^ (8 - n)"
    using n by (simp_all add: Suc_diff_le numeral_eq_Suc flip: power_Suc)
  then show ?thesis unfolding symbol_ok_def s using n b x by simp
qed

lemma symbol_less_iff: "symbol_ok n symbol \<Longrightarrow> symbol < 0x100 \<longleftrightarrow> n \<noteq> 0"
proof (cases "n = 0")
  case False
  assume "symbol_ok n symbol"
  moreover have "(2 :: nat) ^ (9 - n) \<le> 2 ^ 8" by (rule power_increasing) (use False in simp_all)
  ultimately show ?thesis using False by (simp add: symbol_ok_def word_less_nat_alt)
qed (simp add: symbol_ok_def word_less_nat_alt)

lemma codes_prob_at:
  "codes (array k (\<lambda>_. prob_ok)) (element i (prob_Encode (x AND 1))) (element i DecodeBit) (x AND 1)"
  using codes_element [where J = "\<lambda>_. prob_ok", OF codes_prob [of "x AND 1"]]
  by (simp add: prob_Decode_def)

lemma literal_codes:
  "symbol_ok n symbol \<Longrightarrow>
     codes (array k (\<lambda>_. prob_ok)) (literal_encode n symbol r) (literal_decode n symbol) (symbol_value n symbol r)"
proof (induction n arbitrary: symbol r)
  case 0
  have "symbol_value 0 symbol r = symbol"
    unfolding symbol_value_def by (rule bit_word_eqI) (auto simp: bit_simps)
  with symbol_less_iff [OF 0] show ?case
    by (subst literal_encode.simps, subst literal_decode.simps) (simp add: codes_ret)
next
  case (Suc n)
  from symbol_less_iff [OF Suc.prems] have less: "symbol < 0x100" by simp
  have n: "n < 8" using Suc.prems by (simp add: symbol_ok_def)
  show ?case
    unfolding symbol_next_value [OF n, symmetric]
    apply (subst literal_encode.simps, subst literal_decode.simps)
    apply (simp only: less if_True nat.case Let_def)
    by (rule codes_bind, rule codes_prob_at) (rule Suc.IH, rule symbol_next_ok, rule Suc.prems)
qed

lemma matched_codes:
  "symbol_ok n symbol \<Longrightarrow> 0 < n \<Longrightarrow>
     codes (array k (\<lambda>_. prob_ok)) (matched_encode n m symbol r) (matched_decode n m symbol) (symbol_value n symbol r)"
proof (induction n arbitrary: m symbol r)
  case (Suc n)
  have n: "n < 8" using Suc.prems by (simp add: symbol_ok_def)
  define matchBit where "matchBit = drop_bit 7 m AND 1"
  define s where "s = push_bit 1 symbol OR (drop_bit 7 r AND 1)"
  have s: "symbol_ok n s" unfolding s_def by (rule symbol_next_ok [OF Suc.prems(1)])
  have val: "symbol_value (Suc n) symbol r = symbol_value n s (push_bit 1 r)"
    unfolding s_def by (rule symbol_next_value [OF n, symmetric])
  have rest: "codes (array k (\<lambda>_. prob_ok))
      (if matchBit \<noteq> drop_bit 7 r AND 1 \<or> 0x100 \<le> s then literal_encode n s (push_bit 1 r)
       else matched_encode n (push_bit 1 m) s (push_bit 1 r))
      (if matchBit \<noteq> drop_bit 7 r AND 1 \<or> 0x100 \<le> s then literal_decode n s
       else matched_decode n (push_bit 1 m) s) (symbol_value n s (push_bit 1 r))"
    using literal_codes [OF s] Suc.IH [OF s] symbol_less_iff [OF s] by (cases n) (auto simp: not_le)
  show ?case
    unfolding matched_encode.simps matched_decode.simps Let_def val
    by (rule codes_bind, rule codes_prob_at) (fold s_def matchBit_def, rule rest)
qed simp

definition literal_ok :: "nat \<Rightarrow> literalCodec \<Rightarrow> bool" where
  "literal_ok n ps \<longleftrightarrow> array n (\<lambda>_. prob_ok) ps"

lemma literalCodec_init_ok:
  "minLC \<le> lc \<Longrightarrow> lc \<le> maxLC \<Longrightarrow> minLP \<le> lp \<Longrightarrow> lp \<le> maxLP \<Longrightarrow>
     \<exists>ps. literalCodec_init lc lp = Inr ps \<and> literal_ok (0x300 * 2 ^ nat (lc + lp)) ps"
  by (simp add: literalCodec_init_def literal_ok_def array_replicate prob_ok_init)

lemma codes_slice:
  assumes "codes (array n (\<lambda>_. P)) E D v"
  shows "codes (array l (\<lambda>_. P)) (slice k n E) (slice k n D) v"
proof -
  let ?get = "\<lambda>xs. take n (drop k xs)" and ?put = "\<lambda>ys xs. take k xs @ ys @ drop (k + n) xs"
  show ?thesis
  proof (cases "k + n \<le> l")
    case True
    have "codes (array l (\<lambda>_. P)) (focus ?get ?put E) (focus ?get ?put D) v"
      by (rule codes_focus [OF assms]) (use True in \<open>auto simp: array_def nth_append\<close>)
    then show ?thesis
      by (rule codes_cong) (use True in \<open>auto simp: slice_def array_def\<close>)
  next
    case False
    have "codes (array l (\<lambda>_. P)) (lfail LzPanic) (lfail LzPanic) v" by (rule codes_fail)
    then show ?thesis
      by (rule codes_cong) (use False in \<open>auto simp: slice_def array_def lfail_def\<close>)
  qed
qed

lemma codes_literal:
  "codes (literal_ok n) (literalCodec_Encode s state match litState) (literalCodec_Decode state match litState) s"
proof -
  have "symbol_ok 8 1" by (simp add: symbol_ok_def)
  then have "codes (array 0x300 (\<lambda>_. prob_ok))
      (if state \<ge> 7 then matched_encode 8 (ucast match) 1 (ucast s) else literal_encode 8 1 (ucast s))
      (if state \<ge> 7 then matched_decode 8 (ucast match) 1 else literal_decode 8 1) (symbol_value 8 1 (ucast s))"
    by (simp add: matched_codes literal_codes)
  from codes_slice [OF this] have "codes (array n (\<lambda>_. prob_ok))
      (slice (unat (litState * 0x300)) 0x300
        (if state \<ge> 7 then matched_encode 8 (ucast match) 1 (ucast s) else literal_encode 8 1 (ucast s)))
      (slice (unat (litState * 0x300)) 0x300
        (if state \<ge> 7 then matched_decode 8 (ucast match) 1 else literal_decode 8 1)) (symbol_value 8 1 (ucast s))"
    by blast
  from codes_value [OF this, of "\<lambda>symbol. ucast (symbol - 0x100) :: byte"]
  have "codes (array n (\<lambda>_. prob_ok)) (literalCodec_Encode s state match litState)
      (literalCodec_Decode state match litState) (ucast (symbol_value 8 1 (ucast s) - 0x100))"
    by (simp add: literalCodec_Encode_def literalCodec_Decode_def)
  moreover have "ucast (symbol_value 8 1 (ucast s) - 0x100) = s"
  proof -
    have "symbol_value 8 1 (ucast s) = push_bit 8 1 OR (ucast s :: u32)"
      unfolding symbol_value_def by (rule bit_word_eqI) (auto simp: bit_simps dest: bit_imp_le_length)
    also have "\<dots> = push_bit 8 1 + ucast s"
      by (rule disjunctive_add [symmetric]) (unfold bit_push_bit_iff bit_1_iff, auto simp: bit_simps dest: bit_imp_le_length)
    moreover have "ucast (ucast s :: u32) = s"
      by (rule bit_word_eqI) (auto simp: bit_simps dest: bit_imp_le_length)
    ultimately show ?thesis by simp
  qed
  ultimately show ?thesis by (simp add: literal_ok_def [abs_def])
qed

section \<open>The codecs as instances of the interface\<close>

interpretation tree: codec treeCodec_Encode treeCodec_Decode "tree_ok n" "\<lambda>v. unat v < 2 ^ n" for n
  by unfold_locales (use codes_tree take_bit_small in metis)

interpretation reverse: codec treeReverseCodec_Encode treeReverseCodec_Decode "tree_ok n" "\<lambda>v. unat v < 2 ^ n" for n
  by unfold_locales (use codes_reverse take_bit_small in metis)

interpretation direct: codec "directCodec_Encode dc" "directCodec_Decode dc" I "\<lambda>v. unat v < 2 ^ unat dc" for dc I
  by unfold_locales (use codes_directCodec take_bit_small in metis)

interpretation lengths: codec "\<lambda>l. lengthCodec_Encode l posState" "lengthCodec_Decode posState" length_ok "\<lambda>_. True" for posState
  by unfold_locales (rule codes_length)

interpretation distances: codec "\<lambda>dist. distCodec_Encode dist l" "distCodec_Decode l" dist_ok "\<lambda>_. True" for l
  by unfold_locales (rule codes_dist)

interpretation literals: codec "\<lambda>s. literalCodec_Encode s state match litState"
    "literalCodec_Decode state match litState" "literal_ok n" "\<lambda>_. True" for state match litState n
  by unfold_locales (rule codes_literal)

end
