(* ===== verification/LzmaOpProofs.thy ===== *)
theory LzmaOpProofs
  imports LzmaOps LzmaLiteralProofs
begin

text \<open>
  Reading an operation undoes writing it: with dictionaries that agree on the bytes the model looks
  at, \<open>readOp\<close> returns the operation \<open>writeLiteral\<close> or \<open>writeMatch\<close> has coded and leaves the same
  model behind, for every state of the model.
\<close>

section \<open>Laws of the operations\<close>

lemma lbind_assoc: "lbind (lbind m f) g = lbind m (\<lambda>x. lbind (f x) g)"
  by (rule ext) (simp add: lbind_def split: prod.split sum.split)

lemma lbind_lret_left [simp]: "lbind (lret x) f = f x"
  by (rule ext) (simp add: lbind_def lret_def)

lemma lbind_lfail [simp]: "lbind (lfail e) f = lfail e"
  by (rule ext) (simp add: lbind_def lfail_def)

lemma lbind_if: "lbind (if b then m else m') f = (if b then lbind m f else lbind m' f)"
  by simp

lemma triple_gets:
  assumes "triple P (E x) (D y) v Q" "\<And>c. P c \<Longrightarrow> f c = x" "\<And>c. P c \<Longrightarrow> g c = y"
  shows "triple P (lbind (gets f) E) (lbind (gets g) D) v Q"
  by (rule codes_cong [OF assms(1)]) (simp_all add: lbind_def gets_def assms(2,3))

lemma triple_gets_enc:
  assumes "triple P (E x) D v Q" "\<And>c. P c \<Longrightarrow> f c = x"
  shows "triple P (lbind (gets f) E) D v Q"
  by (rule codes_cong [OF assms(1)]) (simp_all add: lbind_def gets_def assms(2))

lemma triple_gets_dec:
  assumes "triple P E (D y) v Q" "\<And>c. P c \<Longrightarrow> g c = y"
  shows "triple P E (lbind (gets g) D) v Q"
  by (rule codes_cong [OF assms(1)]) (simp_all add: lbind_def gets_def assms(2))

lemma triple_modify:
  assumes "\<And>c. P c \<Longrightarrow> Q (f c)" "\<And>c. P c \<Longrightarrow> g c = f c"
  shows "triple P (modify f) (modify g) () Q"
  by (rule tripleI) (auto simp: modify_def assms)

lemma triple_modify_lret:
  assumes "\<And>c. P c \<Longrightarrow> Q (f c)" "\<And>c. P c \<Longrightarrow> g c = f c"
  shows "triple P (modify f) (lbind (modify g) (\<lambda>_. lret v)) v Q"
  by (rule codes_value [OF triple_modify]) (simp_all add: assms)

text \<open>Two operations that succeed in the same way.\<close>

definition agree :: "('s, 'a) lz \<Rightarrow> ('s, 'a) lz \<Rightarrow> bool" where
  "agree m m' \<longleftrightarrow> (\<forall>s x s'. m s = (Inr x, s') \<longleftrightarrow> m' s = (Inr x, s'))"

lemma triple_agree: "triple P E D v Q \<Longrightarrow> agree E' E \<Longrightarrow> triple P E' D v Q"
  unfolding triple_def agree_def by blast

lemma agree_focus_modify:
  assumes "\<And>c. get (f c) = get c" "\<And>b c. f (put b c) = put b (f c)"
  shows "agree (lbind (modify f) (\<lambda>_. focus get put m)) (lbind (focus get put m) (\<lambda>_. modify f))"
  by (auto simp: agree_def lbind_def modify_def focus_def assms split: prod.splits sum.splits)

section \<open>The invariant of the model\<close>

definition state_ok :: "nat \<Rightarrow> lzma_state \<Rightarrow> bool" where
  "state_ok n s \<longleftrightarrow> length (rep s) = 4 \<and>
     array 192 (\<lambda>_. prob_ok) (isMatch s) \<and> array 192 (\<lambda>_. prob_ok) (isRepG0Long s) \<and>
     array 12 (\<lambda>_. prob_ok) (isRep s) \<and> array 12 (\<lambda>_. prob_ok) (isRepG0 s) \<and>
     array 12 (\<lambda>_. prob_ok) (isRepG1 s) \<and> array 12 (\<lambda>_. prob_ok) (isRepG2 s) \<and>
     literal_ok n (litCodec s) \<and> length_ok (lenCodec s) \<and> length_ok (repLenCodec s) \<and>
     dist_ok (distCodec_of s)"

text \<open>The parts of the model that coding a bit does not change are fixed in \<open>model\<close>.\<close>

definition model :: "nat \<Rightarrow> u32 \<Rightarrow> u32 list \<Rightarrow> u32 \<Rightarrow> Properties \<Rightarrow> lzma_state \<Rightarrow> bool" where
  "model n h r pm p s \<longleftrightarrow> state_ok n s \<and> history s = h \<and> rep s = r \<and> posBitMask s = pm \<and> st_Properties s = p"

lemma model_simps:
  "model n h r pm p s \<Longrightarrow> history s = h" "model n h r pm p s \<Longrightarrow> rep s = r"
  "model n h r pm p s \<Longrightarrow> posBitMask s = pm" "model n h r pm p s \<Longrightarrow> st_Properties s = p"
  "model n h r pm p s \<Longrightarrow> state_ok n s" "model n h r pm p s \<Longrightarrow> length r = 4"
  by (auto simp: model_def state_ok_def)

lemma triple_model:
  assumes "\<And>h r pm p. triple (model n h r pm p) E D v (state_ok n)"
  shows "triple (state_ok n) E D v (state_ok n)"
  unfolding triple_def
proof (intro allI impI, goal_cases)
  case (1 pre c e u c' e')
  have "model n (history c) (rep c) (posBitMask c) (st_Properties c) c" using 1(1) by (simp add: model_def)
  with assms [of "history c" "rep c" "posBitMask c" "st_Properties c"] 1(2,3) show ?case
    unfolding triple_def by blast
qed

lemma codes_model_bit2:
  "codes (model n h r pm p) (at_isMatch i (prob_Encode b)) (at_isMatch i prob_Decode) (b AND 1)"
  "codes (model n h r pm p) (at_isRepG0Long i (prob_Encode b)) (at_isRepG0Long i prob_Decode) (b AND 1)"
  by (rule codes_focus [OF codes_element [where n = 192, OF codes_prob]]; auto simp: model_def state_ok_def)+

lemma codes_model_bit:
  "codes (model n h r pm p) (at_isRep i (prob_Encode b)) (at_isRep i prob_Decode) (b AND 1)"
  "codes (model n h r pm p) (at_isRepG0 i (prob_Encode b)) (at_isRepG0 i prob_Decode) (b AND 1)"
  "codes (model n h r pm p) (at_isRepG1 i (prob_Encode b)) (at_isRepG1 i prob_Decode) (b AND 1)"
  "codes (model n h r pm p) (at_isRepG2 i (prob_Encode b)) (at_isRepG2 i prob_Decode) (b AND 1)"
  by (rule codes_focus [OF codes_element [where n = 12, OF codes_prob]]; auto simp: model_def state_ok_def)+

lemma codes_model_len:
  "codes (model n h r pm p) (on_lenCodec (lengthCodec_Encode l ps)) (on_lenCodec (lengthCodec_Decode ps)) l"
  "codes (model n h r pm p) (on_repLenCodec (lengthCodec_Encode l ps)) (on_repLenCodec (lengthCodec_Decode ps)) l"
  by (rule codes_focus [OF codes_length]; auto simp: model_def state_ok_def)+

lemma codes_model_dist:
  "codes (model n h r pm p) (on_distCodec (distCodec_Encode d l)) (on_distCodec (distCodec_Decode l)) d"
  by (rule codes_focus [OF codes_dist]; auto simp: model_def state_ok_def)

lemma codes_model_literal:
  "codes (model n h r pm p) (on_litCodec (literalCodec_Encode b st mb ls))
     (on_litCodec (literalCodec_Decode st mb ls)) b"
  by (rule codes_focus [OF codes_literal]; auto simp: model_def state_ok_def)

lemma and_1_iverson [simp]: "iverson b AND 1 = iverson b"
  by (simp add: iverson_def)

lemma iverson_0 [simp]: "iverson b = 0 \<longleftrightarrow> \<not> b" "iverson b = 1 \<longleftrightarrow> b"
  by (simp_all add: iverson_def)

lemma state_ok_history:
  "state_ok n s \<Longrightarrow> state_ok n (updateStateLiteral s)" "state_ok n s \<Longrightarrow> state_ok n (updateStateMatch s)"
  "state_ok n s \<Longrightarrow> state_ok n (updateStateRep s)" "state_ok n s \<Longrightarrow> state_ok n (updateStateShortRep s)"
  by (simp_all add: state_ok_def updateStateLiteral_def updateStateMatch_def updateStateRep_def
      updateStateShortRep_def)

section \<open>Literals\<close>

text \<open>What the model reads of the dictionaries.\<close>

definition same_view :: "u32 list \<Rightarrow> encoderDict \<Rightarrow> decoderDict \<Rightarrow> bool" where
  "same_view r ed dd \<longleftrightarrow> Pos ed = dd_head dd \<and> ByteAt ed 1 = byteAt dd 1 \<and>
     ByteAt ed (int (unat (r ! 0)) + 1) = byteAt dd (int (unat (r ! 0)) + 1)"

definition readOp_opt :: "decoderDict \<Rightarrow> (lzma_state \<times> rangeDecoder, operation option) lz" where
  "readOp_opt dict =
     lbind (gets (\<lambda>s. state_states s (int (dd_head dict)))) (\<lambda>(state, state2, posState).
     lbind (at_isMatch state2 prob_Decode) (\<lambda>b.
     if b = 0
     then lbind (decodeLiteral dict) (\<lambda>op. lbind (modify updateStateLiteral) (\<lambda>_. lret (Some op)))
     else
       lbind (at_isRep state prob_Decode) (\<lambda>b.
       if b = 0
       then
         lbind (modify (\<lambda>s. s\<lparr>rep := [rep s ! 0, rep s ! 0, rep s ! 1, rep s ! 2]\<rparr>)) (\<lambda>_.
         lbind (modify updateStateMatch) (\<lambda>_.
         lbind (on_lenCodec (lengthCodec_Decode posState)) (\<lambda>n.
         lbind (on_error (set_rep0 0) (on_distCodec (distCodec_Decode n))) (\<lambda>dist.
         lbind (modify (\<lambda>s. s\<lparr>rep := (rep s)[0 := dist]\<rparr>)) (\<lambda>_.
         lret (if dist = eosDist then None else Some (rep_op dist (int (unat n) + minMatchLen))))))))
       else
         lbind (at_isRepG0 state prob_Decode) (\<lambda>b.
         lbind (gets rep) (\<lambda>r.
         if b = 0
         then
           lbind (at_isRepG0Long state2 prob_Decode) (\<lambda>b.
           if b = 0 then lbind (modify updateStateShortRep) (\<lambda>_. lret (Some (rep_op (r ! 0) 1)))
           else
             lbind (on_repLenCodec (lengthCodec_Decode posState)) (\<lambda>n.
             lbind (modify updateStateRep) (\<lambda>_.
             lret (Some (rep_op (r ! 0) (int (unat n) + minMatchLen))))))
         else
           lbind (at_isRepG1 state prob_Decode) (\<lambda>b.
           lbind (if b = 0 then lret 1
                  else lbind (at_isRepG2 state prob_Decode) (\<lambda>b. lret (if b = 0 then 2 else 3))) (\<lambda>g.
           lbind (modify (shift_rep g (r ! g))) (\<lambda>_.
           lbind (on_repLenCodec (lengthCodec_Decode posState)) (\<lambda>n.
           lbind (modify updateStateRep) (\<lambda>_.
           lret (Some (rep_op (r ! g) (int (unat n) + minMatchLen)))))))))))))"

lemma readOp_split:
  "readOp dict = lbind (readOp_opt dict) (\<lambda>x. case x of None \<Rightarrow> lfail ErrEOS | Some op \<Rightarrow> lret op)"
proof -
  have opt: "(case if c then None else Some y of None \<Rightarrow> lfail ErrEOS | Some op \<Rightarrow> lret op)
      = (if c then lfail ErrEOS else lret y)" for c and y :: operation
    by simp
  show ?thesis
    unfolding readOp_def readOp_opt_def lbind_assoc split_def lbind_if lbind_lret_left option.case opt ..
qed

lemma literal_roundtrip:
  assumes "same_view r ed dd"
  shows "triple (model n h r pm p) (writeLiteral ed b) (readOp_opt dd) (Some (literalOperation b)) (state_ok n)"
proof -
  from assms have pos: "Pos ed = dd_head dd" and b1: "ByteAt ed 1 = byteAt dd 1"
    and br: "ByteAt ed (int (unat (r ! 0)) + 1) = byteAt dd (int (unat (r ! 0)) + 1)"
    by (simp_all add: same_view_def)
  define ps where "ps = of_int (int (dd_head dd)) AND pm"
  define s2 where "s2 = push_bit maxPosBits h OR ps"
  define ls :: u32 where "ls = push_bit (nat (LC p)) (of_int (int (dd_head dd)) AND (push_bit (nat (LP p)) 1 - 1))
      OR drop_bit (8 - nat (LC p)) (ucast (byteAt dd 1))"
  have st: "state_states s (int (dd_head dd)) = (h, s2, ps)" if "model n h r pm p s" for s
    using model_simps [OF that] by (simp add: state_states_def s2_def ps_def Let_def)
  have lit: "state_litState s (byteAt dd 1) (int (dd_head dd)) = ls" if "model n h r pm p s" for s
    using model_simps [OF that] by (simp add: state_litState_def ls_def Let_def)
  have mb: "byteAt dd (int (unat (rep s ! 0)) + 1) = byteAt dd (int (unat (r ! 0)) + 1)"
    "ByteAt ed (int (unat (rep s ! 0)) + 1) = byteAt dd (int (unat (r ! 0)) + 1)" if "model n h r pm p s" for s
    using model_simps(2) [OF that] br by simp_all
  have "triple (model n h r pm p)
      (lbind (on_litCodec (literalCodec_Encode b h (byteAt dd (int (unat (r ! 0)) + 1)) ls)) (\<lambda>_. modify updateStateLiteral))
      (lbind (on_litCodec (literalCodec_Decode h (byteAt dd (int (unat (r ! 0)) + 1)) ls))
        (\<lambda>b. lbind (modify updateStateLiteral) (\<lambda>_. lret (Some (literalOperation b)))))
      (Some (literalOperation b)) (state_ok n)"
    by (rule codes_bind [OF codes_model_literal], rule triple_modify_lret)
      (auto dest: model_simps intro: state_ok_history)
  note coded = this
  show ?thesis
    unfolding writeLiteral_def readOp_opt_def decodeLiteral_def lbind_assoc lbind_lret_left pos b1
    by (rule triple_gets [where x = "(h, s2, ps)" and y = "(h, s2, ps)"], unfold prod.case,
        rule codes_bind [OF codes_model_bit2(1)], simp only: zero_and_eq if_True simp_thms,
        rule triple_gets [where x = ls and y = ls], rule triple_gets [OF _ mb(2,1)],
        rule triple_gets_dec [where y = h], rule coded)
      (simp_all add: st lit model_simps)
qed

section \<open>Matches\<close>

definition match_ok :: "u32 list \<Rightarrow> match \<Rightarrow> bool" where
  "match_ok r m \<longleftrightarrow> minDistance \<le> m_distance m \<and> m_distance m \<le> maxDistance \<and>
     (minMatchLen \<le> m_n m \<and> m_n m \<le> maxMatchLen \<or>
      of_int (m_distance m - minDistance) = r ! 0 \<and> m_n m = 1)"

lemma agree_refl: "agree m m"
  by (simp add: agree_def)

lemma agree_bind: "agree m m' \<Longrightarrow> (\<And>x. agree (f x) (f' x)) \<Longrightarrow> agree (lbind m f) (lbind m' f')"
  unfolding agree_def lbind_Inr by metis

lemma writeMatch_rep: "agree (lbind (modify updateStateRep) (\<lambda>_. on_repLenCodec m))
    (lbind (on_repLenCodec m) (\<lambda>_. modify updateStateRep))"
  by (rule agree_focus_modify) (simp_all add: updateStateRep_def)

lemma writeMatch_new:
  "agree
     (lbind (modify (push_rep dist)) (\<lambda>_. lbind (modify updateStateMatch) (\<lambda>_.
       lbind (on_lenCodec m) (\<lambda>_. on_distCodec m'))))
     (lbind (modify (\<lambda>s. s\<lparr>rep := [rep s ! 0, rep s ! 0, rep s ! 1, rep s ! 2]\<rparr>)) (\<lambda>_.
       lbind (modify updateStateMatch) (\<lambda>_. lbind (on_lenCodec m) (\<lambda>_.
         lbind (on_distCodec m') (\<lambda>_. modify (\<lambda>s. s\<lparr>rep := (rep s)[0 := dist]\<rparr>))))))"
  by (auto simp: agree_def lbind_def modify_def focus_def push_rep_def updateStateMatch_def
      split: prod.splits sum.splits)

text \<open>The three ways of coding a match, after the bit that tells repeated distances from new ones.\<close>

lemma triple_on_error:
  assumes "triple P E D v Q"
  shows "triple P E (on_error f D) v Q"
  unfolding triple_def
proof (intro allI impI conjI)
  fix pre c e u c' e'
  assume c: "P c" "enc_ready pre e" "E (c, e) = (Inr u, c', e')"
  note t = assms [unfolded triple_def, rule_format, OF c]
  show "Q c'" "enc_ready pre e'" using t by blast+
  fix F assume F: "contains pre F e'"
  show "contains pre F e" using t F by blast
  fix T d assume "sync pre F T d e"
  then obtain d' where "D (c, d) = (Inr v, c', d')" "sync pre F T d' e'" using t F by blast
  then show "\<exists>d'. on_error f D (c, d) = (Inr v, c', d') \<and> sync pre F T d' e'" by (simp add: on_error_def)
qed

lemma new_match:
  assumes "length r = 4"
  shows "triple (model n h r pm p)
     (lbind (modify (push_rep dist)) (\<lambda>_. lbind (modify updateStateMatch) (\<lambda>_.
       lbind (on_lenCodec (lengthCodec_Encode l ps)) (\<lambda>_. on_distCodec (distCodec_Encode dist l)))))
     (lbind (modify (\<lambda>s. s\<lparr>rep := [rep s ! 0, rep s ! 0, rep s ! 1, rep s ! 2]\<rparr>)) (\<lambda>_.
         lbind (modify updateStateMatch) (\<lambda>_.
         lbind (on_lenCodec (lengthCodec_Decode ps)) (\<lambda>n.
         lbind (on_error (set_rep0 0) (on_distCodec (distCodec_Decode n))) (\<lambda>dist.
         lbind (modify (\<lambda>s. s\<lparr>rep := (rep s)[0 := dist]\<rparr>)) (\<lambda>_.
         lret (if dist = eosDist then None else Some (rep_op dist (int (unat n) + minMatchLen)))))))))
     (if dist = eosDist then None else Some (rep_op dist (int (unat l) + minMatchLen))) (state_ok n)"
proof -
  let ?r = "[r ! 0, r ! 0, r ! 1, r ! 2]" and ?h = "if h < 7 then 7 else 10"
  have dup: "triple (model n h r pm p) (modify (\<lambda>s. s\<lparr>rep := [rep s ! 0, rep s ! 0, rep s ! 1, rep s ! 2]\<rparr>))
      (modify (\<lambda>s. s\<lparr>rep := [rep s ! 0, rep s ! 0, rep s ! 1, rep s ! 2]\<rparr>)) () (model n h ?r pm p)"
    by (rule triple_modify) (auto simp: model_def state_ok_def)
  have upd: "triple (model n h ?r pm p) (modify updateStateMatch) (modify updateStateMatch) () (model n ?h ?r pm p)"
    by (rule triple_modify) (auto simp: model_def state_ok_def updateStateMatch_def)
  have set: "triple (model n ?h ?r pm p) (modify (\<lambda>s. s\<lparr>rep := (rep s)[0 := dist]\<rparr>))
      (lbind (modify (\<lambda>s. s\<lparr>rep := (rep s)[0 := dist]\<rparr>)) (\<lambda>_. lret v)) v (state_ok n)" for v :: "operation option"
    by (rule triple_modify_lret) (auto simp: model_def state_ok_def)
  show ?thesis
    by (rule triple_agree [OF _ writeMatch_new], rule codes_bind [OF dup], rule codes_bind [OF upd],
        rule codes_bind [OF codes_model_len(1)], rule codes_bind [OF triple_on_error [OF codes_model_dist]], rule set)
qed

lemma rep_length:
  "triple (model n h r pm p)
     (lbind (modify updateStateRep) (\<lambda>_. on_repLenCodec (lengthCodec_Encode l ps)))
     (lbind (on_repLenCodec (lengthCodec_Decode ps)) (\<lambda>n. lbind (modify updateStateRep) (\<lambda>_.
        lret (Some (rep_op dist (int (unat n) + minMatchLen))))))
     (Some (rep_op dist (int (unat l) + minMatchLen))) (state_ok n)"
  by (rule triple_agree [OF _ writeMatch_rep], rule codes_bind [OF codes_model_len(2)], rule triple_modify_lret)
    (auto dest: model_simps(5) intro: state_ok_history)

lemma rep_shift:
  assumes "length r = 4"
  shows "triple (model n h r pm p) (modify (shift_rep g dist)) (modify (shift_rep g dist)) ()
    (model n h (shift_reps g dist r) pm p)"
  by (rule triple_modify) (use assms in \<open>auto simp: model_def state_ok_def shift_rep_def shift_reps_def Let_def\<close>)

text \<open>Which bits are coded for each value of \<open>g\<close>.\<close>

lemma find_rep_less: "find_rep r dist < 4 \<Longrightarrow> r ! find_rep r dist = dist"
  by (auto simp: find_rep_def)

lemma find_rep_le: "find_rep r dist \<le> 4"
  by (simp add: find_rep_def)

lemma int_unat_of_int: "0 \<le> k \<Longrightarrow> k < 2 ^ 32 \<Longrightarrow> int (unat (of_int k :: u32)) = k"
  by (simp add: uint_word_of_int)

lemma match_roundtrip:
  assumes pos: "Pos ed = dd_head dd" and ok: "match_ok r m" and len: "length r = 4"
  shows "triple (model n h r pm p) (writeMatch ed m) (readOp_opt dd)
    (if m_distance m = maxDistance \<and> find_rep r eosDist = 4 then None else Some (matchOperation m)) (state_ok n)"
proof -
  define ps where "ps = of_int (int (dd_head dd)) AND pm"
  define s2 where "s2 = push_bit maxPosBits h OR ps"
  have st: "state_states s (int (dd_head dd)) = (h, s2, ps)" if "model n h r pm p s" for s
    using model_simps [OF that] by (simp add: state_states_def s2_def ps_def Let_def)
  define dist where "dist = (of_int (m_distance m - minDistance) :: u32)"
  define l where "l = (of_int (m_n m - minMatchLen) :: u32)"
  define g where "g = find_rep r dist"
  have bounds: "1 \<le> m_distance m" "m_distance m \<le> 2 ^ 32" using ok
    by (simp_all add: match_ok_def minDistance_def maxDistance_def)
  then have ud: "int (unat dist) + minDistance = m_distance m"
    unfolding dist_def by (subst int_unat_of_int) (simp_all add: minDistance_def)
  have eos: "dist = eosDist \<longleftrightarrow> m_distance m = maxDistance"
    using ud by (auto simp: eosDist_def maxDistance_def minDistance_def word_uint_eq_iff)
  have op: "rep_op dist (m_n m) = matchOperation m" unfolding rep_op_def ud by (cases m) simp
  have n: "minMatchLen \<le> m_n m \<and> m_n m \<le> maxMatchLen \<or> g = 0 \<and> m_n m = 1"
    using ok by (auto simp: match_ok_def g_def find_rep_def dist_def)
  have ul: "int (unat l) + minMatchLen = m_n m" if "m_n m \<noteq> 1"
    unfolding l_def using n that by (subst int_unat_of_int) (auto simp: minMatchLen_def maxMatchLen_def)
  have opl: "rep_op dist (int (unat l) + minMatchLen) = matchOperation m" if "m_n m \<noteq> 1"
    unfolding ul [OF that] by (rule op)
  let ?v = "if m_distance m = maxDistance \<and> find_rep r eosDist = 4 then None else Some (matchOperation m)"
  have vg: "?v = Some (matchOperation m)" if "g < 4" using that eos by (auto simp: g_def)
  have rg: "r ! g = dist" if "g < 4" using find_rep_less that by (simp add: g_def)
  have guard: "\<not> (\<not> (minDistance \<le> m_distance m \<and> m_distance m \<le> maxDistance))"
    "\<not> (\<not> (minMatchLen \<le> m_n m \<and> m_n m \<le> maxMatchLen) \<and> \<not> (dist = r ! 0 \<and> m_n m = 1))"
    using ok by (auto simp: match_ok_def dist_def)
  have m1: "m_n m \<noteq> 1" if "g \<noteq> 0" using n that by (auto simp: minMatchLen_def)
  have v4: "?v = (if dist = eosDist then None else Some (rep_op dist (int (unat l) + minMatchLen)))" if "\<not> g < 4"
  proof -
    have "g = 4" "g \<noteq> 0" using that find_rep_le [of r dist] by (simp_all add: g_def)
    then show ?thesis unfolding opl [OF m1 [OF \<open>g \<noteq> 0\<close>]] using eos by (auto simp: g_def)
  qed
  have short: "triple (model n h r pm p) (modify updateStateShortRep)
      (lbind (modify updateStateShortRep) (\<lambda>_. lret (Some (rep_op dist 1)))) (Some (matchOperation m)) (state_ok n)"
    if "m_n m = 1"
    using op that by (auto intro!: triple_modify_lret state_ok_history dest: model_simps(5))
  have long: "triple (model n h r' pm p)
     (lbind (modify updateStateRep) (\<lambda>_. on_repLenCodec (lengthCodec_Encode l ps)))
     (lbind (on_repLenCodec (lengthCodec_Decode ps)) (\<lambda>n. lbind (modify updateStateRep) (\<lambda>_.
        lret (Some (rep_op dist (int (unat n) + minMatchLen)))))) (Some (matchOperation m)) (state_ok n)"
    if "m_n m \<noteq> 1" for r'
    using rep_length [of n h r' pm p l ps dist] opl [OF that] by simp
  note shifted = codes_bind [OF rep_shift [OF len] long [OF m1]]
  show ?thesis
    unfolding writeMatch_def readOp_opt_def pos Let_def dist_def [symmetric] l_def [symmetric]
  proof (subst if_not_P [OF guard(1)], rule triple_gets_enc [where x = r], subst if_not_P [OF guard(2)],
      rule triple_gets [where x = "(h, s2, ps)" and y = "(h, s2, ps)"], unfold prod.case g_def [symmetric],
      rule codes_bind [OF codes_model_bit2(1)], simp only: and.idem one_neq_zero if_False,
      rule codes_bind [OF codes_model_bit(1)], simp only: and_1_iverson iverson_0, cases "g < 4", goal_cases)
    case 1
    show ?case
    proof (simp only: 1 if_False simp_thms, rule codes_bind [OF codes_model_bit(2)],
        rule triple_gets_dec [where y = r], simp only: and_1_iverson iverson_0 vg [OF 1] if_True, cases "g = 0", goal_cases)
      case 1
      then have r0: "r ! 0 = dist" using rg by simp
      show ?case
        using short long [of r] unfolding r0
        by (simp only: 1 if_True simp_thms, intro codes_bind [OF codes_model_bit2(2)])
          (simp only: and_1_iverson iverson_0, cases "m_n m = 1"; simp)
    next
      case 2
      then have g: "g = 1 \<or> g = 2 \<or> g = 3" using \<open>g < 4\<close> by auto
      have rest: "triple (model n h r pm p) (lbind (modify (shift_rep g dist)) (\<lambda>_. lbind (modify updateStateRep)
          (\<lambda>_. on_repLenCodec (lengthCodec_Encode l ps))))
          (lbind (modify (shift_rep g (r ! g))) (\<lambda>_. lbind (on_repLenCodec (lengthCodec_Decode ps))
            (\<lambda>n. lbind (modify updateStateRep) (\<lambda>_. lret (Some (rep_op (r ! g) (int (unat n) + minMatchLen)))))))
          (Some (matchOperation m)) (state_ok n)"
        unfolding rg [OF \<open>g < 4\<close>] by (rule shifted [OF 2])
      show ?case
      proof (simp only: 2 if_False simp_thms, rule codes_bind [OF codes_model_bit(3)],
          simp only: and_1_iverson iverson_0, cases "g = 1", goal_cases)
        case 1
        then show ?case using rest by simp
      next
        case 2
        show ?case
          using 2 g rest unfolding lbind_assoc if_P [OF 2] if_not_P [OF not_not [THEN iffD2, OF 2]]
          by (intro codes_bind [OF codes_model_bit(4)]) (auto simp: iverson_def)
      qed
    qed (simp add: model_simps)
  next
    case 2
    show ?case
      using new_match [OF len, of n h pm p dist l ps] unfolding v4 [OF 2, symmetric] by (simp only: 2 if_True simp_thms)
  qed (simp_all add: st model_simps)
qed

end
