(* ===== verification/LzmaDictProofs.thy ===== *)
theory LzmaDictProofs
  imports LzmaDict
begin

text \<open>
  The circular buffer and the dictionaries refine the sequence of the bytes written. \<open>ring L h R b\<close>:
  the bytes of \<open>h\<close> have been written to the buffer \<open>b\<close> of \<open>L\<close> cells and the first \<open>R\<close> of them read;
  the buffer holds the last \<open>L\<close> bytes of \<open>h\<close>.
\<close>

section \<open>The buffer\<close>

definition ring :: "nat \<Rightarrow> byte list \<Rightarrow> nat \<Rightarrow> buffer \<Rightarrow> bool" where
  "ring L h R b \<longleftrightarrow> 0 < L \<and> length (b_data b) = L \<and> b_front b = length h mod L \<and> b_rear b = R mod L \<and>
     R \<le> length h \<and> length h < R + L \<and>
     (\<forall>i < length h. length h \<le> i + L \<longrightarrow> b_data b ! (i mod L) = h ! i)"

lemma mod_differ: "a < b \<Longrightarrow> b < a + L \<Longrightarrow> a mod L \<noteq> b mod (L :: nat)"
proof
  assume ab: "a < b" "b < a + L" and eq: "a mod L = b mod L"
  have "L dvd b - a" using eq ab(1) mod_eq_dvd_iff_nat [of a b L] by simp
  then have "L \<le> b - a" using ab(1) by (intro dvd_imp_le) auto
  with ab show False by simp
qed

lemma mod_forward:
  assumes "a \<le> b" "b < a + L" "0 < (L :: nat)"
  shows "b mod L = (if a mod L + (b - a) < L then a mod L + (b - a) else a mod L + (b - a) - L)"
proof -
  have "b mod L = (a mod L + (b - a)) mod L" using assms(1) mod_add_left_eq [of a L "b - a"] by simp
  moreover have "a mod L + (b - a) < L + L" using assms mod_less_divisor [of L a] by linarith
  ultimately show ?thesis
    by (cases "a mod L + (b - a) < L") (simp_all add: le_mod_geq)
qed

lemma mod_add_small:
  "k < (L :: nat) \<Longrightarrow> (a + k) mod L = (if a mod L + k < L then a mod L + k else a mod L + k - L)"
  using mod_forward [of a "a + k" L] by simp

lemma ring_new: "ring (Suc n) [] 0 (newBuffer n)"
  by (simp add: ring_def newBuffer_def)

lemma ring_length: "ring L h R b \<Longrightarrow> length (b_data b) = L"
  by (simp add: ring_def)

lemma ring_Buffered: "ring L h R b \<Longrightarrow> Buffered b = length h - R"
  using mod_forward [of R "length h" L] mod_less_divisor [of L R]
  by (auto simp: ring_def Buffered_def Let_def of_nat_diff split: if_splits)

lemma ring_Available: "ring L h R b \<Longrightarrow> buffer_Available b = L - 1 - (length h - R)"
  using mod_forward [of R "length h" L] mod_less_divisor [of L R]
  by (auto simp: ring_def buffer_Available_def Let_def of_nat_diff split: if_splits)

lemma ring_addIndex:
  assumes "ring L h R b" "n \<le> L"
  shows "addIndex b (i mod L) n = (i + n) mod L"
proof (cases "n = L")
  case True
  have "0 < L" using assms by (simp add: ring_def)
  then have "int (i mod L) < int L" by simp
  with True assms show ?thesis by (simp add: addIndex_def ring_def Let_def)
next
  case False
  then show ?thesis
    using mod_forward [of i "i + n" L] assms by (auto simp: addIndex_def ring_def Let_def split: if_splits)
qed

lemma ring_Peek:
  assumes r: "ring L h R b"
  shows "Peek b k = take k (drop R h)"
proof (rule nth_equalityI)
  define n where "n = min k (length h - R)"
  have n: "n = min k (Buffered b)" using ring_Buffered [OF r] by (simp add: n_def)
  have L: "0 < L" "length (b_data b) = L" "b_rear b = R mod L" "n < L" "R mod L < L" "R \<le> length h"
    using r by (auto simp: ring_def n_def)
  have lp: "length (take n (drop (R mod L) (b_data b))) = min n (L - R mod L)" using L(2) by (simp add: min.commute)
  have peek: "Peek b k = take n (drop (R mod L) (b_data b)) @ take (n - (L - R mod L)) (b_data b)"
    unfolding Peek_def Let_def n [symmetric] L(3) lp by (cases "n \<le> L - R mod L") (simp_all add: min_def)
  then have "length (Peek b k) = min n (L - R mod L) + min (n - (L - R mod L)) L"
    using L(2) by (simp add: min.commute)
  then have "length (Peek b k) = n" using L(4,5) by arith
  then show len: "length (Peek b k) = length (take k (drop R h))" by (simp add: n_def min.commute)
  fix i assume "i < length (Peek b k)"
  then have i: "i < n" unfolding len by (simp add: n_def)
  then have "R + i < length h" "length h \<le> R + i + L" using r by (auto simp: n_def ring_def)
  then have "b_data b ! ((R + i) mod L) = h ! (R + i)" using r by (simp add: ring_def)
  moreover have "Peek b k ! i = b_data b ! ((R + i) mod L)"
    using mod_forward [of R "R + i" L] i L by (auto simp: peek nth_append min_def add.commute)
  ultimately show "Peek b k ! i = take k (drop R h) ! i" using i L(6) by (simp add: n_def)
qed

lemma ring_Read:
  assumes r: "ring L h R b" and "buffer_Read b k = (p, b')"
  shows "p = take k (drop R h)" "ring L h (R + length p) b'"
proof -
  show p: "p = take k (drop R h)" using assms ring_Peek [OF r] by (auto simp: buffer_Read_def Let_def)
  have "length p \<le> L" "R + length p \<le> length h" using r p by (auto simp: ring_def)
  then show "ring L h (R + length p) b'"
    using assms ring_addIndex [OF r, of "length p" R] ring_Peek [OF r, of k] p
    by (auto simp: buffer_Read_def Let_def ring_def)
qed

text \<open>What the two copies of \<open>Write\<close> leave in the cells.\<close>

lemma two_copies:
  assumes "f < length data" "length q \<le> length data" "i < length data"
  defines "k \<equiv> min (length q) (length data - f)"
  defines "data1 \<equiv> copy_at data f (take k q)"
  shows "(if k < length q then copy_at data1 0 (drop k q) else data1) ! i =
    (if f \<le> i \<and> i < f + length q then q ! (i - f)
     else if i + length data < f + length q then q ! (i + length data - f) else data ! i)"
proof -
  have k: "k \<le> length q" "f + k \<le> length data" "k < length q \<Longrightarrow> f + k = length data"
    using assms(1) by (auto simp: k_def min_def)
  have d1: "data1 ! j = (if f \<le> j \<and> j < f + k then q ! (j - f) else data ! j)" if "j < length data" for j
    using assms(1) that k by (auto simp: data1_def copy_at_nth)
  have len: "length data1 = length data" using assms(1) by (simp add: data1_def)
  show ?thesis
  proof (cases "k < length q")
    case True
    with k have e: "length data = f + k" by simp
    have "copy_at data1 0 (drop k q) ! i = (if i < length q - k then q ! (k + i) else data1 ! i)"
      using assms(3) by (simp add: copy_at_nth len)
    then show ?thesis using True d1 [OF assms(3)] e assms(2,3) by (auto simp: ac_simps)
  next
    case False
    then show ?thesis using d1 [OF assms(3)] k assms(3) by auto
  qed
qed

lemma ring_Write:
  assumes r: "ring L h R b" and w: "buffer_Write b p = (n, err, b')"
  shows "n = min (length p) (L - 1 - (length h - R))"
    "err = (if L - 1 - (length h - R) < length p then Some ErrNoSpace else None)"
    "ring L (h @ take n p) R b'"
proof -
  have av: "buffer_Available b = L - 1 - (length h - R)" by (rule ring_Available [OF r])
  show n: "n = min (length p) (L - 1 - (length h - R))"
    using arg_cong [OF w, of fst] by (simp add: buffer_Write_def av Let_def)
  show "err = (if L - 1 - (length h - R) < length p then Some ErrNoSpace else None)"
    using arg_cong [OF w, of "\<lambda>x. fst (snd x)"] by (simp add: buffer_Write_def av Let_def)
  define q where "q = take n p"
  define f where "f = length h mod L"
  have q: "length q = n" "n < L" using n r by (auto simp: q_def ring_def)
  have L: "0 < L" "length (b_data b) = L" "f < L" "b_front b = f" using r by (auto simp: ring_def f_def)
  define k where "k = min n (L - f)"
  have kq: "take k q = take k (take n p)" "drop k q = drop k (take n p)" by (simp_all add: q_def)
  define data' where "data' = (if k < n then copy_at (copy_at (b_data b) f (take k q)) 0 (drop k q)
      else copy_at (b_data b) f (take k q))"
  have b': "b' = b\<lparr>b_data := data', b_front := (length h + n) mod L\<rparr>"
    using arg_cong [OF w, of "\<lambda>x. snd (snd x)"] ring_addIndex [OF r, of n "length h"] q(2) L
    unfolding buffer_Write_def av n [symmetric] Let_def data'_def q_def k_def L(2,4) unfolding f_def by simp
  have data': "data' ! i = (if f \<le> i \<and> i < f + n then q ! (i - f)
     else if i + L < f + n then q ! (i + L - f) else b_data b ! i)" if "i < L" for i
    using two_copies [of f "b_data b" q i, unfolded q(1) L(2)] that L(3) less_imp_le [OF q(2)]
    unfolding data'_def k_def by blast
  have len': "length data' = L" using L by (simp add: data'_def)
  have "data' ! (i mod L) = (h @ q) ! i" if i: "i < length h + n" "length h + n \<le> i + L" for i
  proof (cases "i < length h")
    case True
    have "i mod L < L" using L(1) by simp
    have no: "i mod L \<noteq> (length h + j) mod L" if "j < n" for j
      by (rule mod_differ) (use True that i q in auto)
    have "\<not> (f \<le> i mod L \<and> i mod L < f + n)"
    proof
      assume a: "f \<le> i mod L \<and> i mod L < f + n"
      then have "(length h + (i mod L - f)) mod L = i mod L"
        using mod_add_small [of "i mod L - f" L "length h"] less_imp_diff_less [OF \<open>i mod L < L\<close>] \<open>i mod L < L\<close> a
        unfolding f_def [symmetric] by simp
      moreover have "i mod L - f < n" using a by linarith
      ultimately show False using no [of "i mod L - f"] by simp
    qed
    moreover have "\<not> i mod L + L < f + n"
    proof
      assume a: "i mod L + L < f + n"
      then have "(length h + (i mod L + L - f)) mod L = i mod L"
        using mod_add_small [of "i mod L + L - f" L "length h"] a L(3) q(2)
        unfolding f_def [symmetric] by simp
      moreover have "i mod L + L - f < n" using a L(3) by linarith
      ultimately show False using no [of "i mod L + L - f"] by simp
    qed
    ultimately show ?thesis
      using data' [OF \<open>i mod L < L\<close>] True i r by (auto simp: ring_def nth_append)
  next
    case False
    define j where "j = i - length h"
    have j: "i = length h + j" "j < n" using False i by (simp_all add: j_def)
    have m: "i mod L = (if f + j < L then f + j else f + j - L)"
      using mod_forward [of "length h" i L] j q L by (auto simp: f_def)
    show ?thesis
    proof (cases "f + j < L")
      case True
      then show ?thesis using data' [of "f + j"] j q m by (simp add: nth_append)
    next
      case False
      then have "f + j - L < L" "\<not> f \<le> f + j - L" "f + j - L + L = f + j" using j(2) q(2) L(3) by linarith+
      with False show ?thesis using data' [of "f + j - L"] j q m by (simp add: nth_append)
    qed
  qed
  moreover have "length h + n < R + L" using r by (auto simp: n ring_def)
  ultimately show "ring L (h @ take n p) R b'"
    using r q len' by (auto simp: ring_def b' q_def)
qed

lemma ring_WriteByte:
  assumes r: "ring L h R b" and w: "buffer_WriteByte b c = (err, b')"
  shows "L - 1 - (length h - R) < 1 \<Longrightarrow> err = Some ErrNoSpace \<and> b' = b"
    "1 \<le> L - 1 - (length h - R) \<Longrightarrow> err = None \<and> ring L (h @ [c]) R b'"
proof -
  have av: "buffer_Available b = L - 1 - (length h - R)" by (rule ring_Available [OF r])
  show "L - 1 - (length h - R) < 1 \<Longrightarrow> err = Some ErrNoSpace \<and> b' = b"
    using w by (auto simp: buffer_WriteByte_def av)
  assume room: "1 \<le> L - 1 - (length h - R)"
  have len: "length (b_data b) = L" "b_front b = length h mod L" "0 < L" using r by (auto simp: ring_def)
  have lt: "length h mod L < length (b_data b)" using len by simp
  have one: "min (Suc 0) (L - length h mod L) = Suc 0"
    using mod_less_divisor [OF len(3), of "length h"] by arith
  have "copy_at (b_data b) (length h mod L) [c] = (b_data b)[length h mod L := c]"
    using lt len(1) one by (simp add: copy_at_def upd_conv_take_nth_drop)
  then have "buffer_Write b [c] = (1, None, b')"
    using w room len by (auto simp: buffer_WriteByte_def buffer_Write_def av Let_def one)
  moreover have "\<not> L - 1 - (length h - R) < 1" using room by arith
  then have "err = None" using w unfolding buffer_WriteByte_def av by simp
  ultimately show "err = None \<and> ring L (h @ [c]) R b'" using ring_Write(3) [OF r, of "[c]"] by simp
qed

lemma ring_back_index:
  assumes r: "ring L h R b" and d: "0 < dist" "dist \<le> i" "dist \<le> L"
  shows "back_index b (i mod L) (int dist) = (i - dist) mod L"
proof (cases "dist = L")
  case True
  have L: "0 < L" "length (b_data b) = L" using r by (auto simp: ring_def)
  have "int (i mod L) < int L" "i mod L = (i - L) mod L" using d L True by (simp_all add: le_mod_geq)
  with True L show ?thesis by (simp add: back_index_def Let_def)
next
  case False
  have L: "0 < L" "length (b_data b) = L" using r by (auto simp: ring_def)
  have "i = (i - dist) + dist" "(i - dist) mod L < L" using d L by auto
  with False mod_forward [of "i - dist" i L] d L show ?thesis
    by (cases "(i - dist) mod L + dist < L") (auto simp: back_index_def Let_def of_nat_diff)
qed

lemma ring_back:
  assumes r: "ring L h R b" and d: "0 < dist" "dist \<le> i" "i \<le> length h" "length h - i + dist \<le> L"
  shows "b_data b ! back_index b (i mod L) (int dist) = h ! (i - dist)"
proof -
  have "back_index b (i mod L) (int dist) = (i - dist) mod L" by (rule ring_back_index [OF r]) (use d in auto)
  moreover have "i - dist < length h" "length h \<le> i - dist + L" using d by auto
  ultimately show ?thesis using r by (simp add: ring_def)
qed

lemma ring_slice:
  assumes r: "ring L h R b" and a: "a + m \<le> length h" "length h \<le> a + L" "a mod L + m \<le> L"
  shows "take m (drop (a mod L) (b_data b)) = take m (drop a h)"
proof (rule nth_equalityI)
  have L: "0 < L" "length (b_data b) = L" using r by (auto simp: ring_def)
  then show "length (take m (drop (a mod L) (b_data b))) = length (take m (drop a h))"
    using a by simp
  fix i assume "i < length (take m (drop (a mod L) (b_data b)))"
  then have i: "i < m" "a mod L + i < L" using a(3) by auto
  then have "(a + i) mod L = a mod L + i" by (metis mod_add_left_eq mod_less)
  moreover have "b_data b ! ((a + i) mod L) = h ! (a + i)"
    using r a i by (auto simp: ring_def)
  ultimately show "take m (drop (a mod L) (b_data b)) ! i = take m (drop a h) ! i"
    using i a L by simp
qed

section \<open>Copies\<close>

text \<open>The reference: \<open>n\<close> times the byte \<open>dist\<close> before the end, each appended before the next is read.\<close>

fun lz_copy :: "nat \<Rightarrow> nat \<Rightarrow> 'a list \<Rightarrow> 'a list" where
  "lz_copy dist 0 h = h"
| "lz_copy dist (Suc n) h = lz_copy dist n (h @ [h ! (length h - dist)])"

lemma length_lz_copy [simp]: "length (lz_copy dist n h) = length h + n"
  by (induction n arbitrary: h) simp_all

lemma lz_copy_add: "lz_copy dist (m + n) h = lz_copy dist n (lz_copy dist m h)"
  by (induction m arbitrary: h) simp_all

lemma lz_copy_prefix: "take (length h) (lz_copy dist n h) = h"
  by (induction n arbitrary: h) (simp_all, metis append_eq_conv_conj length_append_singleton lessI less_imp_le_nat min.absorb1 take_take)

lemma lz_copy_short:
  "m \<le> dist \<Longrightarrow> dist \<le> length h \<Longrightarrow> lz_copy dist m h = h @ take m (drop (length h - dist) h)"
proof (induction m)
  case (Suc m)
  have "lz_copy dist (Suc m) h = lz_copy dist 1 (lz_copy dist m h)"
    using lz_copy_add [of dist m 1 h] by simp
  also have "\<dots> = lz_copy dist m h @ [lz_copy dist m h ! (length h + m - dist)]" by simp
  also have "lz_copy dist m h ! (length h + m - dist) = drop (length h - dist) h ! m"
    using Suc by (simp add: nth_append)
  finally show ?case using Suc by (simp add: take_Suc_conv_app_nth)
qed simp

lemma copy_match_step:
  assumes "0 < n" and "(if i \<ge> b_front b then (drop i (b_data b), 0)
      else (take (b_front b - i) (drop i (b_data b)), b_front b)) = (q, i')"
    and "take n q = p" "buffer_Write b p = (k, None, b1)" "p \<noteq> []"
  shows "copy_match b i n = copy_match b1 i' (n - length p)"
  by (subst copy_match.simps, subst assms(2)) (use assms(1,3-5) in simp)

lemma copy_match_ring:
  assumes "ring L h R b" "0 < dist" "dist < L" "dist \<le> length h" "n \<le> L - 1 - (length h - R)"
  shows "\<exists>b'. copy_match b ((length h - dist) mod L) n = (None, b') \<and> ring L (lz_copy dist n h) R b'"
  using assms
proof (induction n arbitrary: h b rule: less_induct)
  case (less n)
  note r = less.prems(1) and d = less.prems(2-4) and room = less.prems(5)
  have L: "0 < L" "length (b_data b) = L" "b_front b = length h mod L" using r by (auto simp: ring_def)
  define a where "a = length h - dist"
  define i where "i = a mod L"
  define f where "f = length h mod L"
  have lt: "i < L" "f < L" using L(1) by (simp_all add: i_def f_def)
  have fi: "f = (if i + dist < L then i + dist else i + dist - L)"
    using mod_add_small [of dist L a] d by (simp add: i_def f_def a_def)
  define m where "m = min n (if i \<ge> f then L - i else f - i)"
  define i' where "i' = (if i \<ge> f then 0 else f)"
  have m: "m \<le> dist" "i + m \<le> L" "n = 0 \<or> 0 < m" "m \<le> n" "m \<noteq> n \<Longrightarrow> i' = (a + m) mod L"
    using fi d lt mod_add_small [of m L a] by (auto simp: m_def i'_def i_def [symmetric] min_def split: if_splits)
  have p: "take n (if i \<ge> f then drop i (b_data b) else take (f - i) (drop i (b_data b))) = take m (drop i (b_data b))"
    using L(2) by (auto simp: m_def min_def)
  have sl: "take m (drop i (b_data b)) = take m (drop a h)"
    unfolding i_def by (rule ring_slice [OF r]) (use m d in \<open>auto simp: a_def i_def\<close>)
  have lp: "length (take m (drop a h)) = m" using m d by (simp add: a_def)
  show ?case
  proof (cases "n = 0")
    case True
    with r show ?thesis by (subst copy_match.simps) simp
  next
    case False
    obtain k err b1 where w: "buffer_Write b (take m (drop a h)) = (k, err, b1)" by (metis prod_cases3)
    have mr: "m \<le> L - 1 - (length h - R)" using m(4) room by simp
    have "k = m" "err = None" using ring_Write(1,2) [OF r w] mr unfolding lp by (simp_all add: min_absorb1)
    moreover from this have "ring L (h @ take m (drop a h)) R b1" using ring_Write(3) [OF r w] by simp
    ultimately have e: "k = m" "err = None" "ring L (h @ take m (drop a h)) R b1" by blast+
    have h1: "h @ take m (drop a h) = lz_copy dist m h"
      using lz_copy_short [OF m(1) d(3)] by (simp add: a_def)
    have "take m (drop a h) \<noteq> []" using lp False m(3) by (metis list.size(3) less_irrefl)
    then have step: "copy_match b i n = copy_match b1 i' (n - m)"
      using copy_match_step [of n b i "if i \<ge> f then drop i (b_data b) else take (f - i) (drop i (b_data b))" i'
          "take m (drop a h)" k b1] False p sl w e(2) lp
      unfolding L(3) f_def [symmetric] i'_def by (simp split: if_splits)
    show ?thesis
    proof (cases "m = n")
      case True
      then have "copy_match b i n = (None, b1)" using step by (subst (asm) (2) copy_match.simps) simp
      with e(3) h1 True show ?thesis by (simp add: i_def a_def)
    next
      case ne: False
      have "n - m < n" using False m by auto
      moreover have "dist \<le> length (lz_copy dist m h)" using d by simp
      moreover have "n - m \<le> L - 1 - (length (lz_copy dist m h) - R)" using room m(4) r by (auto simp: ring_def)
      ultimately obtain b' where b': "copy_match b1 ((length (lz_copy dist m h) - dist) mod L) (n - m) = (None, b')"
        "ring L (lz_copy dist (n - m) (lz_copy dist m h)) R b'"
        using less.IH [OF _ e(3) [unfolded h1] d(1,2)] by blast
      have "length (lz_copy dist m h) - dist = a + m" using d by (simp add: a_def)
      with b' step m(5) [OF ne] m(4) show ?thesis
        by (simp add: i_def a_def lz_copy_add [symmetric])
    qed
  qed
qed

end
