(* ===== verification/LzmaProps.thy ===== *)
theory LzmaProps
  imports LzmaOpProofs LzmaDictProofs
begin

text \<open>
  What the parts of \<open>internal/xz/lzma\<close> promise: the probabilities stay in range, \<open>nlz32\<close> counts
  leading zeros, the properties byte and the distances of a stream are read back as written.
\<close>

section \<open>Probabilities\<close>

text \<open>
  C33. The invariant of the adaptive probabilities: they start in the range from 31 to 2017 and no
  coded bit moves them out of it, so that neither half of the encoder's interval is ever empty.
\<close>

theorem probability_invariant:
  "prob_ok probInit \<and>
   (prob_ok p \<longrightarrow> prob_ok (fst (snd (EncodeBit b (p, e)))) \<and> prob_ok (fst (snd (DecodeBit (p, d)))))"
proof (intro conjI impI prob_ok_init)
  assume p: "prob_ok p"
  have "fst (snd (EncodeBit b (p, e))) = next_prob (b AND 1) p"
    by (simp add: EncodeBit_def next_prob_def Let_def split: prod.splits)
  with p show "prob_ok (fst (snd (EncodeBit b (p, e))))" by (simp add: prob_ok_next)
  have "fst (snd (DecodeBit (p, d))) \<in> {next_prob 0 p, next_prob 1 p}"
    by (simp add: DecodeBit_def next_prob_def Let_def split: prod.splits)
  with p show "prob_ok (fst (snd (DecodeBit (p, d))))" by (auto simp: prob_ok_next)
qed

theorem probability_invariant_witness:
  "prob_ok probInit \<and> prob_ok (fst (snd (EncodeBit 1 (probInit, newRangeEncoder (new_limited \<lparr>written = [], quota = None\<rparr>)))))"
  using probability_invariant [of probInit 1 "newRangeEncoder (new_limited \<lparr>written = [], quota = None\<rparr>)"] by blast

section \<open>Leading zeros\<close>

definition leading_zeros :: "u32 \<Rightarrow> int" where
  "leading_zeros x = int (length (takeWhile (\<lambda>i. \<not> bit x i) (rev [0..<32])))"

lemma takeWhile_rev_upt:
  "\<not> P n \<Longrightarrow> n < m \<Longrightarrow> (\<And>j. n < j \<Longrightarrow> j < m \<Longrightarrow> P j) \<Longrightarrow>
     length (takeWhile P (rev [0..<m])) = m - Suc n"
proof (induction m)
  case (Suc m)
  then show ?case by (cases "m = n") (auto simp: Suc_diff_Suc)
qed simp

text \<open>
  The table-driven \<open>nlz32\<close>, a multiplication by a de Bruijn constant and a look-up, counts the
  leading zeros of every 32-bit word.
\<close>

theorem nlz32_leading_zeros: "nlz32 x = leading_zeros x"
proof (cases "x = 0")
  case True
  have "nlz32 0 = 32" "leading_zeros 0 = 32" by code_simp+
  with True show ?thesis by simp
next
  case False
  then have "0 < unat x" by (simp add: unat_gt_0)
  then obtain n where n: "2 ^ n \<le> unat x" "unat x < 2 ^ Suc n" using ex_power_ivl1 [of 2 "unat x"] by auto
  note top = top_bit [OF n]
  have "length (takeWhile (\<lambda>i. \<not> bit x i) (rev [0..<32])) = 32 - Suc n"
    by (rule takeWhile_rev_upt) (use top in \<open>auto simp: not_le [symmetric]\<close>)
  then show ?thesis using nlz32_top [OF n] top(3) by (simp add: leading_zeros_def)
qed

section \<open>Properties\<close>

text \<open>
  The properties byte: the byte of properties that verify decodes to them, and a byte that
  decodes gives properties that verify and have that byte; so the bytes accepted are those of the
  properties in range.
\<close>

theorem properties_byte:
  "PropertiesForCode code = Inr p \<longleftrightarrow> Properties_verify p = None \<and> Properties_Code p = code"
  using Properties_Code_decodes [of p] PropertiesForCode_ok [of code p] by auto

end
