(* ===== verification/LzmaStream.thy ===== *)
theory LzmaStream
  imports LzmaOps
begin

text \<open>
  \<open>internal/xz/lzma\<close>: the encoder of \<open>encoder.go\<close> and the decoder of \<open>decoder.go\<close> as state machines.
  A loop of the code whose end is a theorem and not a fact of its text is a
  \<open>partial_function (option)\<close>: \<open>None\<close> is a call that does not return. The matcher, an interface in
  the code, is a record of its two operations over its own state; \<open>None\<close> is a panic of it.
\<close>

section \<open>The encoder\<close>

record 'm matcher =
  m_NextOp :: "u32 list \<Rightarrow> encoderDict \<Rightarrow> 'm \<Rightarrow> (operation \<times> 'm) option"
  m_Write :: "byte list \<Rightarrow> 'm \<Rightarrow> 'm option"

definition opLenMargin :: int where "opLenMargin = 16"

record 'm encoder =
  e_dict :: encoderDict
  e_m :: 'm
  e_state :: lzma_state
  e_re :: rangeEncoder
  e_start :: nat
  e_marker :: bool
  e_limit :: bool
  e_margin :: int

definition newEncoder :: "LimitedByteWriter \<Rightarrow> lzma_state \<Rightarrow> encoderDict \<Rightarrow> 'm \<Rightarrow> bool \<Rightarrow> 'm encoder" where
  "newEncoder bw state dict m marker =
     \<lparr>e_dict = dict, e_m = m, e_state = state, e_re = newRangeEncoder bw, e_start = Pos dict,
      e_marker = marker, e_limit = False, e_margin = (if marker then opLenMargin + 5 else opLenMargin)\<rparr>"

definition encoder_Reopen :: "LimitedByteWriter \<Rightarrow> 'm encoder \<Rightarrow> 'm encoder" where
  "encoder_Reopen bw e = e\<lparr>e_re := newRangeEncoder bw, e_start := Pos (e_dict e), e_limit := False\<rparr>"

definition Compressed :: "'m encoder \<Rightarrow> int" where
  "Compressed e = int (Pos (e_dict e)) - int (e_start e)"

definition on_re :: "(lzma_state \<times> rangeEncoder, unit) lz \<Rightarrow> 'm encoder \<Rightarrow> lzma_error option \<times> 'm encoder" where
  "on_re f e =
     (case f (e_state e, e_re e) of
        (Inl err, s, re) \<Rightarrow> (Some err, e\<lparr>e_state := s, e_re := re\<rparr>)
      | (Inr _, s, re) \<Rightarrow> (None, e\<lparr>e_state := s, e_re := re\<rparr>))"

definition writeOp :: "int \<Rightarrow> encoderDict \<Rightarrow> operation \<Rightarrow> (lzma_state \<times> rangeEncoder, unit) lz" where
  "writeOp margin dict op s =
     (if re_Available (snd s) < margin then (Inl ErrLimit, s)
      else if m_n (op_match op) = 0 then writeLiteral dict (op_b op) s
      else writeMatch dict (op_match op) s)"

text \<open>One round of the loop of \<open>compress\<close>: the next operation is written and its bytes discarded.\<close>

definition encoder_Discard :: "'m matcher \<Rightarrow> int \<Rightarrow> 'm encoder \<Rightarrow> lzma_error option \<times> 'm encoder" where
  "encoder_Discard mt n e =
     (if n < 0 then (Some LzPanic, e)
      else case encoderDict_Discard (e_dict e) (nat n) of
        None \<Rightarrow> (Some LzPanic, e)
      | Some (d, p) \<Rightarrow>
          (case m_Write mt p (e_m e) of
             None \<Rightarrow> (Some LzPanic, e\<lparr>e_dict := d\<rparr>)
           | Some m \<Rightarrow> (None, e\<lparr>e_dict := d, e_m := m\<rparr>)))"

definition compress_step :: "'m matcher \<Rightarrow> 'm encoder \<Rightarrow> lzma_error option \<times> 'm encoder" where
  "compress_step mt e =
     (case m_NextOp mt (rep (e_state e)) (e_dict e) (e_m e) of
        None \<Rightarrow> (Some LzPanic, e)
      | Some (op, m) \<Rightarrow>
          (case on_re (writeOp (e_margin e) (e_dict e) op) (e\<lparr>e_m := m\<rparr>) of
             (Some err, e) \<Rightarrow> (Some err, e)
           | (None, e) \<Rightarrow> encoder_Discard mt (operation_Len op) e))"

partial_function (option) compress_loop ::
    "'m matcher \<Rightarrow> nat \<Rightarrow> 'm encoder \<Rightarrow> (lzma_error option \<times> 'm encoder) option" where
  "compress_loop mt n e =
     (if encoderDict_Buffered (e_dict e) \<le> n then Some (None, e)
      else case compress_step mt e of
             (Some err, e) \<Rightarrow> Some (Some err, e)
           | (None, e) \<Rightarrow> compress_loop mt n e)"

definition compress :: "'m matcher \<Rightarrow> bool \<Rightarrow> 'm encoder \<Rightarrow> (lzma_error option \<times> 'm encoder) option" where
  "compress mt all e = compress_loop mt (if all then 0 else nat (maxMatchLen - 1)) e"

text \<open>\<open>Write\<close> returns the number of bytes taken.\<close>

partial_function (option) encoder_Write_from ::
    "'m matcher \<Rightarrow> byte list \<Rightarrow> nat \<Rightarrow> 'm encoder \<Rightarrow> (nat \<times> lzma_error option \<times> 'm encoder) option" where
  "encoder_Write_from mt p n e =
     (case encoderDict_Write (e_dict e) (drop n p) of
        (k, err, d) \<Rightarrow>
          (let n = n + k; e = e\<lparr>e_dict := d\<rparr> in
           if err = Some ErrNoSpace
           then (case compress mt False e of
                   None \<Rightarrow> None
                 | Some (Some err, e) \<Rightarrow> Some (n, Some err, e)
                 | Some (None, e) \<Rightarrow> encoder_Write_from mt p n e)
           else Some (n, err, e)))"

definition encoder_Write :: "'m matcher \<Rightarrow> byte list \<Rightarrow> 'm encoder \<Rightarrow> (nat \<times> lzma_error option \<times> 'm encoder) option" where
  "encoder_Write mt p e = encoder_Write_from mt p 0 e"

definition eosMatch :: match where
  "eosMatch = \<lparr>m_distance = maxDistance, m_n = minMatchLen\<rparr>"

definition encoder_finish :: "'m encoder \<Rightarrow> lzma_error option \<times> 'm encoder" where
  "encoder_finish e =
     (case (if e_marker e then on_re (writeMatch (e_dict e) eosMatch) e else (None, e)) of
        (Some err, e) \<Rightarrow> (Some err, e)
      | (None, e) \<Rightarrow> on_re (on_coder re_Close) e)"

definition encoder_Close :: "'m matcher \<Rightarrow> 'm encoder \<Rightarrow> (lzma_error option \<times> 'm encoder) option" where
  "encoder_Close mt e =
     (case compress mt True e of
        None \<Rightarrow> None
      | Some (err, e) \<Rightarrow>
          if err \<noteq> None \<and> err \<noteq> Some ErrLimit then Some (err, e)
          else Some (encoder_finish e))"

section \<open>The decoder\<close>

record decoder =
  d_Dict :: decoderDict
  d_State :: lzma_state
  d_rd :: rangeDecoder
  d_start :: nat
  d_size :: int
  d_eos :: bool
  d_eosMarker :: bool

definition newDecoder :: "byte_reader \<Rightarrow> lzma_state \<Rightarrow> decoderDict \<Rightarrow> int \<Rightarrow> lzma_error + decoder" where
  "newDecoder br state dict sz =
     (case newRangeDecoder br of
        (Inl err, _) \<Rightarrow> Inl err
      | (Inr rd, _) \<Rightarrow> Inr \<lparr>d_Dict = dict, d_State = state, d_rd = rd, d_start = dd_head dict,
          d_size = sz, d_eos = False, d_eosMarker = False\<rparr>)"

definition decoder_Reopen :: "byte_reader \<Rightarrow> int \<Rightarrow> decoder \<Rightarrow> lzma_error + decoder" where
  "decoder_Reopen br sz d =
     (case newRangeDecoder br of
        (Inl err, _) \<Rightarrow> Inl err
      | (Inr rd, _) \<Rightarrow> Inr (d\<lparr>d_rd := rd, d_start := dd_head (d_Dict d), d_size := sz, d_eos := False\<rparr>))"

definition Decompressed :: "decoder \<Rightarrow> int" where
  "Decompressed d = int (dd_head (d_Dict d)) - int (d_start d)"

definition decoder_readOp :: "decoder \<Rightarrow> (lzma_error + operation) \<times> decoder" where
  "decoder_readOp d =
     (case readOp (d_Dict d) (d_State d, d_rd d) of
        (res, s, rd) \<Rightarrow> (res, d\<lparr>d_State := s, d_rd := rd, d_eosMarker := (res = Inl ErrEOS \<or> d_eosMarker d)\<rparr>))"

definition apply_op :: "operation \<Rightarrow> decoder \<Rightarrow> lzma_error option \<times> decoder" where
  "apply_op op d =
     (case (if m_n (op_match op) = 0 then decoderDict_WriteByte (d_Dict d) (op_b op)
            else decoderDict_writeMatch (d_Dict d) (m_distance (op_match op)) (m_n (op_match op))) of
        (err, dict) \<Rightarrow> (err, d\<lparr>d_Dict := dict\<rparr>))"

definition errDataAfterEOS :: lzma_error where "errDataAfterEOS = LzError ''data after end of stream marker''"
definition errSize :: lzma_error where "errSize = LzError ''wrong uncompressed data size''"

text \<open>The branch of \<open>decompress\<close> for a failed \<open>readOp\<close>, and the one for a decoder that has all its bytes.\<close>

definition decompress_fail :: "lzma_error \<Rightarrow> decoder \<Rightarrow> lzma_error \<times> decoder" where
  "decompress_fail err d =
     (if err = ErrEOS
      then let d = d\<lparr>d_eos := True\<rparr> in
        (if \<not> possiblyAtEnd (d_rd d) then errDataAfterEOS
         else if d_size d \<ge> 0 \<and> d_size d \<noteq> Decompressed d then errSize
         else LzIo EOF, d)
      else if err = LzIo EOF then (LzIo UnexpectedEOF, d\<lparr>d_eos := True\<rparr>)
      else (err, d))"

definition decompress_done :: "decoder \<Rightarrow> lzma_error \<times> decoder" where
  "decompress_done d =
     (let d = d\<lparr>d_eos := True\<rparr> in
      if Decompressed d > d_size d then (errSize, d)
      else if \<not> possiblyAtEnd (d_rd d)
      then (case decoder_readOp d of
              (Inr _, d) \<Rightarrow> (errSize, d)
            | (Inl err, d) \<Rightarrow>
                (if err = LzIo EOF then LzIo UnexpectedEOF else if err = ErrEOS then LzIo EOF else err, d))
      else (LzIo EOF, d))"

text \<open>One round of the loop of \<open>decompress\<close>.\<close>

definition decompress_step :: "decoder \<Rightarrow> lzma_error option \<times> decoder" where
  "decompress_step d =
     (case decoder_readOp d of
        (Inl err, d) \<Rightarrow> (case decompress_fail err d of (err, d) \<Rightarrow> (Some err, d))
      | (Inr op, d) \<Rightarrow>
          (case apply_op op d of
             (Some err, d) \<Rightarrow> (Some err, d)
           | (None, d) \<Rightarrow>
               if d_size d \<ge> 0 \<and> Decompressed d \<ge> d_size d
               then (case decompress_done d of (err, d) \<Rightarrow> (Some err, d))
               else (None, d)))"

partial_function (option) decompress_loop :: "decoder \<Rightarrow> (lzma_error option \<times> decoder) option" where
  "decompress_loop d =
     (if int (decoderDict_Available (d_Dict d)) < maxMatchLen then Some (None, d)
      else case decompress_step d of
             (Some err, d) \<Rightarrow> Some (Some err, d)
           | (None, d) \<Rightarrow> decompress_loop d)"

definition decompress :: "decoder \<Rightarrow> (lzma_error option \<times> decoder) option" where
  "decompress d = (if d_eos d then Some (Some (LzIo EOF), d) else decompress_loop d)"

text \<open>\<open>Read(p)\<close> with \<open>len(p) = k\<close>; \<open>acc\<close> is what \<open>p\<close> holds already.\<close>

partial_function (option) decoder_Read_from ::
    "nat \<Rightarrow> byte list \<Rightarrow> decoder \<Rightarrow> (byte list \<times> lzma_error option \<times> decoder) option" where
  "decoder_Read_from k acc d =
     (case decoderDict_Read (d_Dict d) (k - length acc) of
        (q, dict) \<Rightarrow>
          (let d = d\<lparr>d_Dict := dict\<rparr>; acc = acc @ q in
           if q = [] \<and> d_eos d then Some (acc, Some (LzIo EOF), d)
           else if length acc \<ge> k then Some (acc, None, d)
           else case decompress d of
                  None \<Rightarrow> None
                | Some (err, d) \<Rightarrow>
                    if err \<noteq> None \<and> err \<noteq> Some (LzIo EOF) then Some (acc, err, d)
                    else decoder_Read_from k acc d))"

definition decoder_Read :: "nat \<Rightarrow> decoder \<Rightarrow> (byte list \<times> lzma_error option \<times> decoder) option" where
  "decoder_Read k d = decoder_Read_from k [] d"

declare compress_loop.simps [code] encoder_Write_from.simps [code] decompress_loop.simps [code]
  decoder_Read_from.simps [code]

end
