(* ===== verification/LzmaViews.thy ===== *)
theory LzmaViews
  imports LzmaDictProofs LzmaOpProofs
begin

text \<open>
  The dictionaries as refinements of the sequence of bytes they have seen. \<open>dd_rep h0 h R d\<close>: after
  its last reset, with \<open>h0\<close> before it, the decoder's dictionary has been given \<open>h\<close>, and the first \<open>R\<close>
  of all these bytes have been read. \<open>ed_rep w R d\<close>: the encoder's dictionary has been given \<open>w\<close>
  and the first \<open>R\<close> bytes have been coded.
\<close>

definition view :: "byte list \<Rightarrow> int \<Rightarrow> byte" where
  "view h dist = (if 0 < dist \<and> dist \<le> int (length h) then h ! (length h - nat dist) else 0)"

section \<open>The dictionary of the decoder\<close>

definition dd_rep :: "byte list \<Rightarrow> byte list \<Rightarrow> nat \<Rightarrow> decoderDict \<Rightarrow> bool" where
  "dd_rep h0 h R d \<longleftrightarrow> ring (Suc (buffer_Cap (dd_buf d))) (h0 @ h) R (dd_buf d) \<and> dd_head d = length h"

lemma dd_repD: "dd_rep h0 h R d \<Longrightarrow> ring (Suc (buffer_Cap (dd_buf d))) (h0 @ h) R (dd_buf d)"
  by (simp add: dd_rep_def)

lemma ring_Cap: "ring L h R b \<Longrightarrow> Suc (buffer_Cap b) = L"
  by (auto simp: ring_def buffer_Cap_def)

lemma dd_new:
  "newDecoderDict c = Inr d \<Longrightarrow> dd_rep [] [] 0 d \<and> buffer_Cap (dd_buf d) = nat c \<and> 1 \<le> c"
  using ring_new [of "nat c"] by (auto simp: newDecoderDict_def dd_rep_def buffer_Cap_def newBuffer_def split: if_splits)

lemma dd_reset: "dd_rep h0 h R d \<Longrightarrow> dd_rep (h0 @ h) [] R (decoderDict_Reset d)"
  by (simp add: dd_rep_def decoderDict_Reset_def)

lemma dictLen_rep: "dd_rep h0 h R d \<Longrightarrow> dictLen d = min (buffer_Cap (dd_buf d)) (length h)"
  by (simp add: dd_rep_def dictLen_def Let_def min_def)

lemma dd_Available: "dd_rep h0 h R d \<Longrightarrow> decoderDict_Available d = buffer_Cap (dd_buf d) - (length h0 + length h - R)"
  using ring_Available [OF dd_repD] by (simp add: decoderDict_Available_def)

lemma nth_back: "dist \<le> length h \<Longrightarrow> (h0 @ h) ! (length h0 + length h - dist) = h ! (length h - dist)"
  using nth_append_length_plus [of h0 h "length h - dist"] by simp

lemma byteAt_view:
  assumes r: "dd_rep h0 h R d" and c: "dist \<le> int (buffer_Cap (dd_buf d))"
  shows "byteAt d dist = view h dist"
proof (cases "0 < dist \<and> dist \<le> int (length h)")
  case True
  then obtain k where k: "dist = int k" "0 < k" "k \<le> length h" by (metis nat_0_le of_nat_0_less_iff of_nat_le_iff order_less_imp_le)
  have "b_front (dd_buf d) = length (h0 @ h) mod Suc (buffer_Cap (dd_buf d))" using dd_repD [OF r] by (simp add: ring_def)
  moreover have "b_data (dd_buf d) ! back_index (dd_buf d) (length (h0 @ h) mod Suc (buffer_Cap (dd_buf d))) (int k)
      = (h0 @ h) ! (length (h0 @ h) - k)"
    by (rule ring_back [OF dd_repD [OF r]]) (use k c in auto)
  moreover have "(h0 @ h) ! (length (h0 @ h) - k) = h ! (length h - k)" using k nth_back [of k h h0] by simp
  ultimately show ?thesis using k c dictLen_rep [OF r] by (simp add: byteAt_def view_def)
qed (use dictLen_rep [OF r] in \<open>auto simp: byteAt_def view_def\<close>)

lemma dd_WriteByte:
  assumes r: "dd_rep h0 h R d" and room: "1 \<le> decoderDict_Available d"
  obtains d' where "decoderDict_WriteByte d c = (None, d')" "dd_rep h0 (h @ [c]) R d'"
    "buffer_Cap (dd_buf d') = buffer_Cap (dd_buf d)"
proof -
  obtain err b where w: "buffer_WriteByte (dd_buf d) c = (err, b)" by fastforce
  have "err = None \<and> ring (Suc (buffer_Cap (dd_buf d))) ((h0 @ h) @ [c]) R b"
    by (rule ring_WriteByte(2) [OF dd_repD [OF r] w]) (use room dd_Available [OF r] in simp)
  moreover from this have "buffer_Cap b = buffer_Cap (dd_buf d)" using ring_Cap by blast
  ultimately show thesis
    using r w by (intro that [of "d\<lparr>dd_buf := b, dd_head := dd_head d + 1\<rparr>"]) (auto simp: decoderDict_WriteByte_def dd_rep_def)
qed

lemma lz_copy_append: "dist \<le> length h \<Longrightarrow> lz_copy dist n (h0 @ h) = h0 @ lz_copy dist n h"
proof (induction n arbitrary: h)
  case (Suc n)
  from Suc.IH [of "h @ [h ! (length h - dist)]"] Suc.prems show ?case by (simp add: nth_back)
qed simp

lemma dd_writeMatch:
  assumes r: "dd_rep h0 h R d" and d: "1 \<le> dist" "dist \<le> length h" "dist \<le> buffer_Cap (dd_buf d)"
    and n: "1 \<le> n" "n \<le> nat maxMatchLen" "n \<le> decoderDict_Available d"
  obtains d' where "decoderDict_writeMatch d (int dist) (int n) = (None, d')" "dd_rep h0 (lz_copy dist n h) R d'"
    "buffer_Cap (dd_buf d') = buffer_Cap (dd_buf d)"
proof -
  let ?L = "Suc (buffer_Cap (dd_buf d))"
  note ring = dd_repD [OF r]
  have f: "b_front (dd_buf d) = length (h0 @ h) mod ?L" "length (b_data (dd_buf d)) = ?L" using ring by (auto simp: ring_def)
  have dl: "int dist \<le> int (dictLen d)" using d dictLen_rep [OF r] by simp
  have bi: "back_index (dd_buf d) (b_front (dd_buf d)) (int dist) = (length (h0 @ h) - dist) mod ?L"
    unfolding f by (rule ring_back_index [OF ring]) (use d in auto)
  have "\<exists>b'. copy_match (dd_buf d) ((length (h0 @ h) - dist) mod ?L) n = (None, b') \<and> ring ?L (lz_copy dist n (h0 @ h)) R b'"
    by (rule copy_match_ring [OF ring]) (use d n dd_Available [OF r] in auto)
  then obtain b' where b': "copy_match (dd_buf d) ((length (h0 @ h) - dist) mod ?L) n = (None, b')"
    "ring ?L (h0 @ lz_copy dist n h) R b'" using lz_copy_append [OF d(2)] by auto
  have c: "buffer_Cap b' = buffer_Cap (dd_buf d)" using ring_Cap [OF b'(2)] by simp
  have "decoderDict_writeMatch d (int dist) (int n) = (None, d\<lparr>dd_head := dd_head d + n, dd_buf := b'\<rparr>)"
    using dl d n b'(1) by (simp add: decoderDict_writeMatch_def bi decoderDict_Available_def maxMatchLen_def minMatchLen_def)
  then show thesis using r b'(2) c
    by (intro that [of "d\<lparr>dd_head := dd_head d + n, dd_buf := b'\<rparr>"]) (auto simp: dd_rep_def)
qed

lemma dd_Write:
  assumes r: "dd_rep h0 h R d" and w: "decoderDict_Write d p = (n, err, d')"
  shows "n = min (length p) (decoderDict_Available d)"
    "err = (if decoderDict_Available d < length p then Some ErrNoSpace else None)"
    "dd_rep h0 (h @ take n p) R d'" "buffer_Cap (dd_buf d') = buffer_Cap (dd_buf d)"
proof -
  obtain b where b: "buffer_Write (dd_buf d) p = (n, err, b)" "d' = d\<lparr>dd_buf := b, dd_head := dd_head d + n\<rparr>"
    using w by (auto simp: decoderDict_Write_def split: prod.splits)
  note rw = ring_Write [OF dd_repD [OF r] b(1)]
  show n: "n = min (length p) (decoderDict_Available d)"
    "err = (if decoderDict_Available d < length p then Some ErrNoSpace else None)"
    using rw(1,2) dd_Available [OF r] by simp_all
  show c: "buffer_Cap (dd_buf d') = buffer_Cap (dd_buf d)" using ring_Cap [OF rw(3)] b(2) by simp
  have "buffer_Cap b = buffer_Cap (dd_buf d)" using c b(2) by simp
  then show "dd_rep h0 (h @ take n p) R d'" using rw(3) r n(1) b(2) by (simp add: dd_rep_def)
qed

lemma dd_Read:
  assumes r: "dd_rep h0 h R d" and w: "decoderDict_Read d k = (p, d')"
  shows "p = take k (drop R (h0 @ h))" "dd_rep h0 h (R + length p) d'"
    "buffer_Cap (dd_buf d') = buffer_Cap (dd_buf d)"
proof -
  obtain b where b: "buffer_Read (dd_buf d) k = (p, b)" "d' = d\<lparr>dd_buf := b\<rparr>"
    using w by (auto simp: decoderDict_Read_def split: prod.splits)
  note rr = ring_Read [OF dd_repD [OF r] b(1)]
  show "p = take k (drop R (h0 @ h))" by (rule rr(1))
  show c: "buffer_Cap (dd_buf d') = buffer_Cap (dd_buf d)" using ring_Cap [OF rr(2)] b(2) by simp
  have "buffer_Cap b = buffer_Cap (dd_buf d)" using c b(2) by simp
  then show "dd_rep h0 h (R + length p) d'" using rr(2) r b(2) by (simp add: dd_rep_def)
qed

section \<open>The dictionary of the encoder\<close>

definition ed_rep :: "byte list \<Rightarrow> nat \<Rightarrow> encoderDict \<Rightarrow> bool" where
  "ed_rep w R d \<longleftrightarrow> ring (Suc (buffer_Cap (ed_buf d))) w R (ed_buf d) \<and> ed_head d = R \<and>
     length w - R + min R (ed_capacity d) \<le> buffer_Cap (ed_buf d)"

lemma ed_repD: "ed_rep w R d \<Longrightarrow> ring (Suc (buffer_Cap (ed_buf d))) w R (ed_buf d)"
  by (simp add: ed_rep_def)

lemma ed_new:
  "newEncoderDict c bs = Inr d \<Longrightarrow> ed_rep [] 0 d \<and> ed_capacity d = nat c \<and> buffer_Cap (ed_buf d) = nat (c + bs) \<and> 1 \<le> c \<and> 1 \<le> bs"
  using ring_new [of "nat (c + bs)"]
  by (auto simp: newEncoderDict_def ed_rep_def buffer_Cap_def newBuffer_def split: if_splits)

lemma ed_bounds:
  assumes "ed_rep w R d"
  shows "R \<le> length w" "length w - R + min R (ed_capacity d) \<le> buffer_Cap (ed_buf d)"
  using assms by (auto simp: ed_rep_def ring_def)

lemma ed_Buffered: "ed_rep w R d \<Longrightarrow> encoderDict_Buffered d = length w - R"
  using ring_Buffered [OF ed_repD] by (simp add: encoderDict_Buffered_def)

lemma ed_DictLen: "ed_rep w R d \<Longrightarrow> DictLen d = min R (ed_capacity d)"
  by (simp add: ed_rep_def DictLen_def)

lemma ed_Pos: "ed_rep w R d \<Longrightarrow> Pos d = R"
  by (simp add: ed_rep_def Pos_def)

lemma ed_Len:
  assumes r: "ed_rep w R d"
  shows "encoderDict_Len d = min R (buffer_Cap (ed_buf d) - (length w - R))"
proof -
  have "buffer_Available (ed_buf d) = buffer_Cap (ed_buf d) - (length w - R)"
    using ring_Available [OF ed_repD [OF r]] by simp
  moreover have "ed_head d = R" using r by (simp add: ed_rep_def)
  ultimately show ?thesis unfolding encoderDict_Len_def Let_def by (simp add: min_def)
qed

lemma ed_Available:
  "ed_rep w R d \<Longrightarrow> encoderDict_Available d = int (buffer_Cap (ed_buf d) - (length w - R) - min R (ed_capacity d))"
  using ring_Available [OF ed_repD] ed_bounds [of w R d] ed_DictLen [of w R d]
  by (simp add: encoderDict_Available_def)

lemma ByteAt_view:
  assumes r: "ed_rep w R d" and c: "dist \<le> int (ed_capacity d)"
  shows "ByteAt d dist = view (take R w) dist"
proof (cases "0 < dist \<and> dist \<le> int R")
  case True
  then obtain k where k: "dist = int k" "0 < k" "k \<le> R" by (metis nat_0_le of_nat_0_less_iff of_nat_le_iff order_less_imp_le)
  note b = ed_bounds [OF r]
  have rear: "b_rear (ed_buf d) = R mod Suc (buffer_Cap (ed_buf d))" using ed_repD [OF r] by (simp add: ring_def)
  have "b_data (ed_buf d) ! back_index (ed_buf d) (R mod Suc (buffer_Cap (ed_buf d))) (int k) = w ! (R - k)"
    by (rule ring_back [OF ed_repD [OF r]]) (use k c b in auto)
  moreover have "int k \<le> int (encoderDict_Len d)" using k c b ed_Len [OF r] by simp
  ultimately show ?thesis using k b by (simp add: ByteAt_def view_def rear)
next
  case False
  then have "\<not> (0 < dist \<and> dist \<le> int (encoderDict_Len d))" using ed_Len [OF r] by auto
  with False ed_bounds(1) [OF r] show ?thesis unfolding ByteAt_def view_def by auto
qed

lemma ed_Write:
  assumes r: "ed_rep w R d" and wr: "encoderDict_Write d p = (n, err, d')"
  shows "n = min (length p) (nat (encoderDict_Available d))"
    "err = (if nat (encoderDict_Available d) < length p then Some ErrNoSpace else None)"
    "ed_rep (w @ take n p) R d'" "buffer_Cap (ed_buf d') = buffer_Cap (ed_buf d)" "ed_capacity d' = ed_capacity d"
proof -
  define m where "m = buffer_Cap (ed_buf d) - (length w - R) - min R (ed_capacity d)"
  have av: "encoderDict_Available d = int m" using ed_Available [OF r] by (simp add: m_def)
  obtain k e b where b: "buffer_Write (ed_buf d) (take m p) = (k, e, b)" by (metis prod_cases3)
  note rw = ring_Write [OF ed_repD [OF r] b]
  have lt: "length (take m p) = min (length p) m" by (simp add: min.commute)
  have "m \<le> Suc (buffer_Cap (ed_buf d)) - 1 - (length w - R)" by (simp add: m_def)
  then have "min (length p) m \<le> Suc (buffer_Cap (ed_buf d)) - 1 - (length w - R)" by simp
  then have ke: "k = min (length p) m" "e = None" using rw(1,2) unfolding lt by (simp_all only: min_absorb1 not_less [THEN iffD2] if_False)
  have "encoderDict_Write d p = (k, if m < length p then Some ErrNoSpace else None, d\<lparr>ed_buf := b\<rparr>)"
    using b ke by (auto simp: encoderDict_Write_def av Let_def)
  then have n: "n = k" "err = (if m < length p then Some ErrNoSpace else None)" "d' = d\<lparr>ed_buf := b\<rparr>"
    using wr by simp_all
  show "n = min (length p) (nat (encoderDict_Available d))"
    "err = (if nat (encoderDict_Available d) < length p then Some ErrNoSpace else None)"
    using n ke av by simp_all
  have c: "buffer_Cap b = buffer_Cap (ed_buf d)" using ring_Cap [OF rw(3)] by simp
  then show "buffer_Cap (ed_buf d') = buffer_Cap (ed_buf d)" "ed_capacity d' = ed_capacity d" using n by simp_all
  have "take k (take m p) = take n p" using n ke by (simp add: min_absorb1)
  moreover have "length (take n p) = k" using n ke by simp
  moreover have "length w + k - R + min R (ed_capacity d) \<le> buffer_Cap (ed_buf d)"
  proof -
    have "k \<le> m" using ke by simp
    then show ?thesis using ed_bounds [OF r] unfolding m_def by linarith
  qed
  ultimately show "ed_rep (w @ take n p) R d'"
    using rw(3) r c n by (simp add: ed_rep_def)
qed

lemma ed_Discard:
  assumes r: "ed_rep w R d" and n: "n \<le> length w - R" "int n \<le> maxMatchLen"
  obtains d' where "encoderDict_Discard d n = Some (d', take n (drop R w))" "ed_rep w (R + n) d'"
    "buffer_Cap (ed_buf d') = buffer_Cap (ed_buf d)" "ed_capacity d' = ed_capacity d"
proof -
  obtain p b where b: "buffer_Read (ed_buf d) n = (p, b)" by fastforce
  note rr = ring_Read [OF ed_repD [OF r] b]
  have lp: "length p = n" using rr(1) n(1) by simp
  have c: "buffer_Cap b = buffer_Cap (ed_buf d)" using ring_Cap [OF rr(2)] by simp
  show thesis
  proof (rule that)
    show "encoderDict_Discard d n = Some (d\<lparr>ed_buf := b, ed_head := ed_head d + n\<rparr>, take n (drop R w))"
      using b lp n(2) rr(1) by (simp add: encoderDict_Discard_def)
    show "ed_rep w (R + n) (d\<lparr>ed_buf := b, ed_head := ed_head d + n\<rparr>)"
      using rr(2) r c lp n(1) by (auto simp: ed_rep_def)
  qed (use c in simp_all)
qed

section \<open>Both views of a history\<close>

text \<open>Repetitions within the capacity give the literal coder the same match byte on both sides.\<close>

lemma same_view_rep:
  assumes "ed_rep w R ed" "dd_rep h0 (take R w) R' dd"
    and "int (unat (r ! 0)) + 1 \<le> int (ed_capacity ed)" "int (unat (r ! 0)) + 1 \<le> int (buffer_Cap (dd_buf dd))"
  shows "same_view r ed dd"
proof -
  have 1: "1 \<le> int (ed_capacity ed)" using assms(3) by linarith
  have "length (take R w) = R" using ed_bounds(1) [OF assms(1)] by simp
  then have "Pos ed = dd_head dd" using ed_Pos [OF assms(1)] assms(2) by (simp add: dd_rep_def)
  moreover have "ByteAt ed dist = byteAt dd dist"
    if "dist \<le> int (ed_capacity ed)" "dist \<le> int (buffer_Cap (dd_buf dd))" for dist
    using ByteAt_view [OF assms(1) that(1)] byteAt_view [OF assms(2) that(2)] by simp
  moreover have "1 \<le> int (buffer_Cap (dd_buf dd))" using assms(4) by linarith
  ultimately show ?thesis using assms(3,4) 1 unfolding same_view_def by blast
qed

end
