(* ===== verification/LzmaRunProofs.thy ===== *)
theory LzmaRunProofs
  imports LzmaStream LzmaViews
begin

text \<open>
  One operation written by the encoder is read and applied by the decoder, whatever the place of the
  bytes in the two buffers: the dictionaries enter only as the history \<open>h\<close> they represent.
  \<open>coding\<close> collects the operations of a run of the encoder.
\<close>

section \<open>The last distances\<close>

definition reps_ok :: "nat \<Rightarrow> u32 list \<Rightarrow> bool" where
  "reps_ok cap r \<longleftrightarrow> length r = 4 \<and> (\<forall>x \<in> set r. unat x < cap)"

text \<open>Operations that bring no new distances into \<open>rep\<close> but those of \<open>X\<close>.\<close>

definition reps_in :: "u32 set \<Rightarrow> (lzma_state \<times> 'r, 'a) lz \<Rightarrow> bool" where
  "reps_in X m \<longleftrightarrow> (\<forall>s r. length (rep s) = 4 \<longrightarrow> set (rep s) \<subseteq> X \<longrightarrow>
     length (rep (fst (snd (m (s, r))))) = 4 \<and> set (rep (fst (snd (m (s, r))))) \<subseteq> X)"

lemma reps_in_bind: "reps_in X (m :: (lzma_state \<times> 'r, 'a) lz) \<Longrightarrow> (\<And>x. reps_in X (f x)) \<Longrightarrow> reps_in X (lbind m f)"
  unfolding reps_in_def
proof (intro allI impI)
  fix s :: lzma_state and r :: 'r
  assume m: "\<forall>s r. length (rep s) = 4 \<longrightarrow> set (rep s) \<subseteq> X \<longrightarrow>
      length (rep (fst (snd (m (s, r))))) = 4 \<and> set (rep (fst (snd (m (s, r))))) \<subseteq> X"
    and f: "\<And>x. \<forall>(s :: lzma_state) r. length (rep s) = 4 \<longrightarrow> set (rep s) \<subseteq> X \<longrightarrow>
      length (rep (fst (snd (f x (s, r))))) = 4 \<and> set (rep (fst (snd (f x (s, r))))) \<subseteq> X"
    and s: "length (rep s) = 4" "set (rep s) \<subseteq> X"
  obtain res s1 r1 where 1: "m (s, r) = (res, s1, r1)" by (metis prod_cases3)
  with m s have s1: "length (rep s1) = 4" "set (rep s1) \<subseteq> X" by (metis fst_conv snd_conv)+
  show "length (rep (fst (snd (lbind m f (s, r))))) = 4 \<and> set (rep (fst (snd (lbind m f (s, r))))) \<subseteq> X"
    using 1 s1 f by (cases res) (simp_all add: lbind_def)
qed

lemma reps_in_focus: "(\<And>b s. rep (put b s) = rep s) \<Longrightarrow> reps_in X (focus get put m)"
  by (auto simp: reps_in_def focus_def split: prod.splits)

lemma reps_in_gets: "reps_in X (gets f)"
  by (auto simp: reps_in_def gets_def)

lemma reps_in_lret: "reps_in X (lret x)" "reps_in X (lfail e)"
  by (auto simp: reps_in_def lret_def lfail_def)

lemma reps_in_modify:
  "(\<And>s. length (rep s) = 4 \<Longrightarrow> set (rep s) \<subseteq> X \<Longrightarrow> length (rep (f s)) = 4 \<and> set (rep (f s)) \<subseteq> X) \<Longrightarrow>
    reps_in X (modify f)"
  by (auto simp: reps_in_def modify_def)

lemma list_4: "length r = 4 \<Longrightarrow> \<exists>a b c d. r = [a, b, c, d]"
  by (auto simp: numeral_eq_Suc length_Suc_conv)

lemma reps_in_updates:
  "reps_in X (modify updateStateLiteral)" "reps_in X (modify updateStateMatch)"
  "reps_in X (modify updateStateRep)" "reps_in X (modify updateStateShortRep)"
  by (rule reps_in_modify; simp add: updateStateLiteral_def updateStateMatch_def updateStateRep_def updateStateShortRep_def)+

lemma reps_in_push: "dist \<in> X \<Longrightarrow> reps_in X (modify (push_rep dist))"
  by (rule reps_in_modify) (drule list_4, auto simp: push_rep_def)

lemma reps_in_shift: "dist \<in> X \<Longrightarrow> reps_in X (modify (shift_rep g dist))"
  by (rule reps_in_modify) (drule list_4, auto simp: shift_rep_def shift_reps_def Let_def)

lemmas reps_in_intros =
  reps_in_bind reps_in_gets reps_in_lret reps_in_updates reps_in_push reps_in_shift

lemma reps_in_writeLiteral: "reps_in X (writeLiteral ed b)"
  unfolding writeLiteral_def by (auto intro!: reps_in_intros reps_in_focus)

lemma reps_in_writeMatch:
  "of_int (m_distance m - minDistance) \<in> X \<Longrightarrow> reps_in X (writeMatch ed m)"
  unfolding writeMatch_def Let_def by (auto intro!: reps_in_intros reps_in_focus)

section \<open>Histories\<close>

definition next_hist :: "byte list \<Rightarrow> operation \<Rightarrow> byte list" where
  "next_hist h op =
     (if m_n (op_match op) = 0 then h @ [op_b op]
      else lz_copy (nat (m_distance (op_match op))) (nat (m_n (op_match op))) h)"

definition op_ok :: "nat \<Rightarrow> byte list \<Rightarrow> u32 list \<Rightarrow> operation \<Rightarrow> bool" where
  "op_ok cap h r op \<longleftrightarrow> op = literalOperation (op_b op) \<or>
     op = matchOperation (op_match op) \<and> m_n (op_match op) \<noteq> 0 \<and> match_ok r (op_match op) \<and>
     m_distance (op_match op) \<le> int (min cap (length h))"

lemma literal_simps [simp]: "m_n (op_match (literalOperation b)) = 0" "op_b (literalOperation b) = b"
  by (simp_all add: literalOperation_def)

lemma match_simps [simp]: "op_match (matchOperation m) = m"
  by (simp add: matchOperation_def)

lemma op_ok_match:
  assumes "op_ok cap h r op" "m_n (op_match op) \<noteq> 0"
  shows "matchOperation (op_match op) = op" "match_ok r (op_match op)" "m_distance (op_match op) \<le> int cap"
    "m_distance (op_match op) \<le> int (length h)"
proof -
  have "op \<noteq> literalOperation (op_b op)" using assms(2) literal_simps(1) by metis
  with assms(1) have "op = matchOperation (op_match op) \<and> match_ok r (op_match op) \<and>
      m_distance (op_match op) \<le> int (min cap (length h))" unfolding op_ok_def by blast
  then show "matchOperation (op_match op) = op" "match_ok r (op_match op)" "m_distance (op_match op) \<le> int cap"
    "m_distance (op_match op) \<le> int (length h)" unfolding of_nat_min min.bounded_iff by metis+
qed

lemma op_ok_literal: "op_ok cap h r op \<Longrightarrow> m_n (op_match op) = 0 \<Longrightarrow> literalOperation (op_b op) = op"
  by (auto simp: op_ok_def)

lemma op_ok_Len: "op_ok cap h r op \<Longrightarrow> 1 \<le> operation_Len op \<and> operation_Len op \<le> maxMatchLen"
  using op_ok_match(2) by (force simp: operation_Len_def match_ok_def minMatchLen_def maxMatchLen_def)

lemma length_next_hist: "op_ok cap h r op \<Longrightarrow> length (next_hist h op) = length h + nat (operation_Len op)"
  by (auto simp: next_hist_def operation_Len_def)

lemma next_hist_prefix: "take (length h) (next_hist h op) = h"
  by (simp add: next_hist_def lz_copy_prefix)

section \<open>One operation\<close>

lemma triple_state:
  assumes "\<And>h r pm p. r = r0 \<Longrightarrow> triple (model n h r pm p) E D v (state_ok n)"
  shows "triple (\<lambda>c. state_ok n c \<and> rep c = r0) E D v (state_ok n)"
  unfolding triple_def
proof (intro allI impI, goal_cases)
  case (1 pre c e u c' e')
  have "model n (history c) (rep c) (posBitMask c) (st_Properties c) c" using 1(1) by (simp add: model_def)
  with assms [of "rep c" "history c" "posBitMask c" "st_Properties c"] 1 show ?case
    unfolding triple_def by blast
qed

lemma triple_readOp:
  assumes "triple P E (readOp_opt dd) (Some op) Q"
  shows "triple P E (readOp dd) op Q"
proof (rule tripleI)
  fix pre c e u c' e'
  assume a: "P c" "enc_ready pre e" "E (c, e) = (Inr u, c', e')"
  note o = tripleD [OF assms a]
  show "Q c' \<and> enc_ready pre e'" using o(1,2) by blast
  { fix F assume "contains pre F e'" then show "contains pre F e" by (rule o(3)) }
  fix F T d assume "contains pre F e'" "sync pre F T d e"
  from o(4) [OF this] show "\<exists>d'. readOp dd (c, d) = (Inr op, c', d') \<and> sync pre F T d' e'"
    by (auto simp: readOp_split lbind_def lret_def)
qed

lemma reps_ok_less: "reps_ok cap r \<Longrightarrow> i < 4 \<Longrightarrow> unat (r ! i) < cap"
  by (auto simp: reps_ok_def)

lemma no_eos_rep:
  assumes "reps_ok cap r" "cap < 2 ^ 32"
  shows "find_rep r eosDist = 4"
proof -
  have "unat (r ! i) < 2 ^ 32 - 1" if "i < 4" for i using reps_ok_less [OF assms(1) that] assms(2) by simp
  moreover have "unat eosDist = 2 ^ 32 - 1" by (simp add: eosDist_def)
  ultimately have "r ! i \<noteq> eosDist" if "i < 4" for i using that by fastforce
  then show ?thesis by (simp add: find_rep_def)
qed

lemma op_triple:
  assumes ed: "ed_rep w (length h) ed" "take (length h) w = h" "cap \<le> ed_capacity ed"
    and dd: "dd_rep h0 h R dd" "cap \<le> buffer_Cap (dd_buf dd)"
    and op: "op_ok cap h r op" and r: "reps_ok cap r" and cap: "cap < 2 ^ 32"
  shows "triple (\<lambda>c. state_ok n c \<and> rep c = r) (writeOp margin ed op) (readOp dd) op (state_ok n)"
proof -
  have pos: "Pos ed = dd_head dd" using ed_Pos [OF ed(1)] dd(1) by (simp add: dd_rep_def)
  have "triple (\<lambda>c. state_ok n c \<and> rep c = r)
      (if m_n (op_match op) = 0 then writeLiteral ed (op_b op) else writeMatch ed (op_match op)) (readOp dd) op (state_ok n)"
  proof (cases "m_n (op_match op) = 0")
    case True
    then have lit: "literalOperation (op_b op) = op" by (rule op_ok_literal [OF op])
    have "int (unat (r ! 0)) < int cap" using reps_ok_less [OF r, of 0] by (simp only: of_nat_less_iff)
    then have r0: "int (unat (r ! 0)) + 1 \<le> int cap" by linarith
    have "same_view r ed dd"
      by (rule same_view_rep [OF ed(1)]) (use ed(2,3) dd r0 in auto)
    then have "triple (model n h r pm p) (writeLiteral ed (op_b op)) (readOp_opt dd) (Some op) (state_ok n)" for h pm p
      using literal_roundtrip [of r ed dd n h pm p "op_b op"] unfolding lit by blast
    with True show ?thesis by (simp add: triple_readOp triple_state)
  next
    case False
    note m = op_ok_match [OF op False]
    have len: "length r = 4" using r by (simp add: reps_ok_def)
    have "m_distance (op_match op) \<noteq> maxDistance" using m(3) cap by (simp add: maxDistance_def)
    then have "triple (model n h r pm p) (writeMatch ed (op_match op)) (readOp_opt dd) (Some op) (state_ok n)" for h pm p
      using match_roundtrip [OF pos m(2) len, of n h pm p] m(1) by simp
    with False show ?thesis by (simp add: triple_readOp triple_state)
  qed
  note coded = this
  show ?thesis
  proof (rule tripleI)
    fix pre c e u c' e'
    assume a: "state_ok n c \<and> rep c = r" "enc_ready pre e" "writeOp margin ed op (c, e) = (Inr u, c', e')"
    then have E: "(if m_n (op_match op) = 0 then writeLiteral ed (op_b op) else writeMatch ed (op_match op)) (c, e) = (Inr u, c', e')"
      by (auto simp: writeOp_def split: if_splits)
    note o = tripleD [OF coded a(1,2) E]
    show "state_ok n c' \<and> enc_ready pre e'" using o(1,2) by blast
    { fix F assume "contains pre F e'" then show "contains pre F e" by (rule o(3)) }
    { fix F T d assume "contains pre F e'" "sync pre F T d e"
      then show "\<exists>d'. readOp dd (c, d) = (Inr op, c', d') \<and> sync pre F T d' e'" by (rule o(4)) }
  qed
qed

lemma writeOp_reps:
  assumes op: "op_ok cap h (rep c) op" and r: "reps_ok cap (rep c)" and w: "writeOp margin ed op (c, e) = (Inr u, c', e')"
    and cap: "cap < 2 ^ 32"
  shows "reps_ok cap (rep c')"
proof (cases "m_n (op_match op) = 0")
  case True
  then have "writeLiteral ed (op_b op) (c, e) = (Inr u, c', e')" using w by (auto simp: writeOp_def split: if_splits)
  moreover have "reps_in (set (rep c)) (writeLiteral ed (op_b op))" by (rule reps_in_writeLiteral)
  ultimately have "length (rep c') = 4 \<and> set (rep c') \<subseteq> set (rep c)"
    using r unfolding reps_in_def reps_ok_def by (metis fst_conv snd_conv order_refl)
  with r show ?thesis by (auto simp: reps_ok_def)
next
  case False
  define x :: u32 where "x = of_int (m_distance (op_match op) - minDistance)"
  have d: "1 \<le> m_distance (op_match op)" "m_distance (op_match op) \<le> int cap"
    using op_ok_match(2,3) [OF op False] by (auto simp: match_ok_def minDistance_def)
  have "int (unat x) = m_distance (op_match op) - minDistance"
    unfolding x_def by (rule int_unat_of_int) (use d cap in \<open>simp_all add: minDistance_def\<close>)
  then have "int (unat x) < int cap" using d unfolding minDistance_def by linarith
  then have x: "unat x < cap" by (simp only: of_nat_less_iff)
  have "writeMatch ed (op_match op) (c, e) = (Inr u, c', e')" using w False by (auto simp: writeOp_def split: if_splits)
  moreover have "reps_in (insert x (set (rep c))) (writeMatch ed (op_match op))"
    by (rule reps_in_writeMatch) (simp add: x_def)
  ultimately have "length (rep c') = 4 \<and> set (rep c') \<subseteq> insert x (set (rep c))"
    using r unfolding reps_in_def reps_ok_def by (metis fst_conv snd_conv subset_insertI)
  with r x show ?thesis by (auto simp: reps_ok_def)
qed

section \<open>A run of the encoder\<close>

inductive coding :: "nat \<Rightarrow> int \<Rightarrow> byte list \<Rightarrow> lzma_state \<Rightarrow> rangeEncoder \<Rightarrow> operation list \<Rightarrow>
    byte list \<Rightarrow> lzma_state \<Rightarrow> rangeEncoder \<Rightarrow> bool" for cap margin where
  coding_none: "coding cap margin h c e [] h c e"
| coding_op: "coding cap margin h c e (op # ops) h2 c2 e2"
  if "op_ok cap h (rep c) op" and "ed_rep w (length h) ed" "take (length h) w = h" "cap \<le> ed_capacity ed"
    and "writeOp margin ed op (c, e) = (Inr u, c1, e1)" and "coding cap margin (next_hist h op) c1 e1 ops h2 c2 e2"

inductive_cases coding_NilE: "coding cap margin h c e [] h2 c2 e2"
inductive_cases coding_ConsE: "coding cap margin h c e (op # ops) h2 c2 e2"

lemma coding_snoc:
  assumes "coding cap margin h c e ops h1 c1 e1"
    and "op_ok cap h1 (rep c1) op" "ed_rep w (length h1) ed" "take (length h1) w = h1" "cap \<le> ed_capacity ed"
    and "writeOp margin ed op (c1, e1) = (Inr u, c2, e2)"
  shows "coding cap margin h c e (ops @ [op]) (next_hist h1 op) c2 e2"
  using assms by (induction rule: coding.induct) (auto intro: coding.intros)

lemma coding_length: "coding cap margin h c e ops h2 c2 e2 \<Longrightarrow> length h \<le> length h2"
  by (induction rule: coding.induct) (use length_next_hist in fastforce)+

text \<open>A capacity that exceeds what is coded can be reduced.\<close>

lemma coding_smaller:
  assumes "coding cap margin h c e ops h2 c2 e2" "cap' \<le> cap" "length h2 \<le> cap' \<or> cap' = cap"
  shows "coding cap' margin h c e ops h2 c2 e2"
proof (cases "cap' = cap")
  case False
  with assms have "length h2 \<le> cap'" by simp
  with assms(1,2) show ?thesis
  proof (induction rule: coding.induct)
    case (coding_op h c op w ed e u c1 e1 ops h2 c2 e2)
    have "length h \<le> length (next_hist h op)" using length_next_hist [OF coding_op.hyps(1)] by simp
    then have "length h \<le> cap'" using coding_length [OF coding_op.hyps(6)] coding_op.prems(2) by simp
    then have "op_ok cap' h (rep c) op" using coding_op.hyps(1) coding_op.prems(1) by (auto simp: op_ok_def)
    moreover have "cap' \<le> ed_capacity ed" using coding_op.hyps(4) coding_op.prems(1) by simp
    ultimately show ?case using coding_op by (auto intro: coding.coding_op)
  qed (rule coding_none)
qed (use assms(1) in simp)

text \<open>Any decoder that represents the history reads a run from its first operation on.\<close>

lemma op_step:
  assumes op: "op_ok cap h (rep c) op" "ed_rep w (length h) ed" "take (length h) w = h" "cap \<le> ed_capacity ed"
    and wr: "writeOp margin ed op (c, e) = (Inr u, c1, e1)"
    and inv: "state_ok n c" "reps_ok cap (rep c)" "enc_ready pre e" "cap < 2 ^ 32"
    and dd: "dd_rep h0 h R dd" "cap \<le> buffer_Cap (dd_buf dd)"
  shows "state_ok n c1" "reps_ok cap (rep c1)" "enc_ready pre e1" "contains pre F e1 \<Longrightarrow> contains pre F e"
    "contains pre F e1 \<Longrightarrow> sync pre F T rd e \<Longrightarrow> \<exists>rd1. readOp dd (c, rd) = (Inr op, c1, rd1) \<and> sync pre F T rd1 e1"
proof -
  note t = op_triple [OF op(2-4) dd op(1) inv(2,4), of n margin]
  have P: "state_ok n c \<and> rep c = rep c" using inv(1) by simp
  note o = tripleD [OF t P inv(3) wr]
  show "state_ok n c1" "enc_ready pre e1" "contains pre F e1 \<Longrightarrow> contains pre F e"
    "contains pre F e1 \<Longrightarrow> sync pre F T rd e \<Longrightarrow> \<exists>rd1. readOp dd (c, rd) = (Inr op, c1, rd1) \<and> sync pre F T rd1 e1"
    using o by blast+
  show "reps_ok cap (rep c1)" by (rule writeOp_reps [OF op(1) inv(2) wr inv(4)])
qed

text \<open>A dictionary that represents a history, to speak of the encoder alone.\<close>

lemma dd_rep_exists: "\<exists>dd. dd_rep [] h (length h) dd \<and> buffer_Cap (dd_buf dd) = Suc (length h + k)"
proof -
  define L where "L = Suc (Suc (length h + k))"
  define b where "b = \<lparr>b_data = h @ replicate (Suc (Suc k)) 0, b_front = length h, b_rear = length h\<rparr>"
  have "ring L h (length h) b" by (auto simp: ring_def b_def L_def nth_append)
  moreover have "buffer_Cap b = Suc (length h + k)" by (simp add: buffer_Cap_def b_def)
  ultimately have "dd_rep [] h (length h) \<lparr>dd_buf = b, dd_head = length h\<rparr>" by (simp add: dd_rep_def L_def)
  with \<open>buffer_Cap b = Suc (length h + k)\<close> show ?thesis by (intro exI [of _ "\<lparr>dd_buf = b, dd_head = length h\<rparr>"]) simp
qed

lemma coding_inv:
  assumes "coding cap margin h c e ops h2 c2 e2" and "state_ok n c" "reps_ok cap (rep c)" "enc_ready pre e" "cap < 2 ^ 32"
  shows "state_ok n c2" "reps_ok cap (rep c2)" "enc_ready pre e2" "contains pre F e2 \<Longrightarrow> contains pre F e"
    "length h \<le> length h2" "ops \<noteq> [] \<Longrightarrow> length h < length h2" "take (length h) h2 = h"
proof -
  have "state_ok n c2 \<and> reps_ok cap (rep c2) \<and> enc_ready pre e2 \<and> (contains pre F e2 \<longrightarrow> contains pre F e) \<and>
      length h \<le> length h2 \<and> (ops \<noteq> [] \<longrightarrow> length h < length h2) \<and> take (length h) h2 = h"
    using assms
  proof (induction rule: coding.induct)
    case (coding_op h c op w ed e u c1 e1 ops h2 c2 e2)
    obtain dd where dd: "dd_rep [] h (length h) dd" "cap \<le> buffer_Cap (dd_buf dd)"
      using dd_rep_exists [of h cap] by force
    note s = op_step [OF coding_op.hyps(1-5) coding_op.prems dd]
    have l: "length h < length (next_hist h op)"
      using length_next_hist op_ok_Len coding_op.hyps(1) by fastforce
    from coding_op.IH [OF s(1-3) coding_op.prems(4)] s(4) [of F] l
    have IH: "state_ok n c2 \<and> reps_ok cap (rep c2) \<and> enc_ready pre e2 \<and> (contains pre F e2 \<longrightarrow> contains pre F e) \<and>
      length (next_hist h op) \<le> length h2 \<and> take (length (next_hist h op)) h2 = next_hist h op" by blast
    then have "take (length h) h2 = take (length h) (next_hist h op)" using l
      by (metis min.absorb1 less_imp_le_nat take_take)
    with IH l next_hist_prefix [of h op] show ?case by simp
  qed simp
  then show "state_ok n c2" "reps_ok cap (rep c2)" "enc_ready pre e2" "contains pre F e2 \<Longrightarrow> contains pre F e"
    "length h \<le> length h2" "ops \<noteq> [] \<Longrightarrow> length h < length h2" "take (length h) h2 = h" by blast+
qed

end
