(* ===== verification/LzmaReadProofs.thy ===== *)
theory LzmaReadProofs
  imports LzmaRunProofs
begin

text \<open>
  The decoder of a finished stream: \<open>decompress\<close> and \<open>Read\<close> always return, and \<open>Read\<close> delivers the
  bytes that were encoded, in order, and then \<open>io.EOF\<close>.
\<close>

section \<open>A finished stream\<close>

text \<open>
  The parameters of a stream: its bytes \<open>sr_F\<close>, written after \<open>sr_pre\<close> and followed by \<open>sr_T\<close>; what
  was encoded, \<open>sr_hist\<close>, with the state of the model and of the coder after the last operation; the
  bytes \<open>sr_before\<close> that the decoder's dictionary had seen before its last reset.
\<close>

record stream =
  sr_cap :: nat
  sr_lits :: nat
  sr_margin :: int
  sr_pre :: "byte list"
  sr_F :: "byte list"
  sr_T :: "byte list"
  sr_marker :: bool
  sr_before :: "byte list"
  sr_hist :: "byte list"
  sr_state :: lzma_state
  sr_coder :: rangeEncoder

definition synced :: "stream \<Rightarrow> rangeDecoder \<Rightarrow> rangeEncoder \<Rightarrow> bool" where
  "synced S rd e \<longleftrightarrow> sync (sr_pre S) (sr_F S) (sr_T S) rd e"

definition at_end :: "stream \<Rightarrow> rangeDecoder \<Rightarrow> bool" where
  "at_end S rd \<longleftrightarrow> possiblyAtEnd rd \<and> br_data (rd_br rd) = sr_T S"

text \<open>What a decoder finds after the last operation: the end of the coded number, or the marker.\<close>

definition ending :: "stream \<Rightarrow> bool" where
  "ending S \<longleftrightarrow> contains (sr_pre S) (sr_F S) (sr_coder S) \<and> sr_cap S < 2 ^ 32 \<and>
     (\<forall>rd. synced S rd (sr_coder S) \<longrightarrow>
       (if sr_marker S
        then \<forall>R dd. dd_rep (sr_before S) (sr_hist S) R dd \<longrightarrow> sr_cap S \<le> buffer_Cap (dd_buf dd) \<longrightarrow>
          (\<exists>c rd'. readOp dd (sr_state S, rd) = (Inl ErrEOS, c, rd') \<and> at_end S rd')
        else at_end S rd))"

definition live :: "stream \<Rightarrow> operation list \<Rightarrow> byte list \<Rightarrow> nat \<Rightarrow> decoder \<Rightarrow> bool" where
  "live S ops h R d \<longleftrightarrow>
     (\<exists>e. coding (sr_cap S) (sr_margin S) h (d_State d) e ops (sr_hist S) (sr_state S) (sr_coder S) \<and>
       enc_ready (sr_pre S) e \<and> synced S (d_rd d) e) \<and>
     state_ok (sr_lits S) (d_State d) \<and> reps_ok (sr_cap S) (rep (d_State d)) \<and>
     dd_rep (sr_before S) h R (d_Dict d) \<and> sr_cap S \<le> buffer_Cap (dd_buf (d_Dict d)) \<and>
     maxMatchLen \<le> int (buffer_Cap (dd_buf (d_Dict d))) \<and> \<not> d_eos d \<and> d_start d \<le> length h \<and>
     (ops \<noteq> [] \<or> sr_marker S) \<and>
     (d_size d = int (length (sr_hist S)) - int (d_start d) \<and> (ops \<noteq> [] \<or> length (sr_hist S) = d_start d) \<or>
      d_size d = -1 \<and> sr_marker S)"

definition finished :: "stream \<Rightarrow> nat \<Rightarrow> decoder \<Rightarrow> bool" where
  "finished S R d \<longleftrightarrow> d_eos d \<and> dd_rep (sr_before S) (sr_hist S) R (d_Dict d) \<and>
     (\<not> (sr_marker S \<and> 0 \<le> d_size d) \<longrightarrow> br_data (rd_br (d_rd d)) = sr_T S) \<and>
     (\<not> sr_marker S \<longrightarrow> d_State d = sr_state S) \<and>
     sr_cap S \<le> buffer_Cap (dd_buf (d_Dict d)) \<and> maxMatchLen \<le> int (buffer_Cap (dd_buf (d_Dict d)))"

lemma live_unread:
  assumes "live S ops h R d" "int (decoderDict_Available (d_Dict d)) < maxMatchLen"
  shows "R < length (sr_before S) + length h"
proof -
  have dd: "dd_rep (sr_before S) h R (d_Dict d)" "maxMatchLen \<le> int (buffer_Cap (dd_buf (d_Dict d)))"
    using assms(1) by (simp_all add: live_def)
  show ?thesis using dd_Available [OF dd(1)] dd(2) assms(2) by linarith
qed

section \<open>Steps of the decoder\<close>

lemma apply_op_rep:
  assumes dd: "dd_rep h0 h R (d_Dict d)" "cap \<le> buffer_Cap (dd_buf (d_Dict d))" and op: "op_ok cap h r op"
    and room: "maxMatchLen \<le> int (decoderDict_Available (d_Dict d))"
  obtains dict where "apply_op op d = (None, d\<lparr>d_Dict := dict\<rparr>)" "dd_rep h0 (next_hist h op) R dict"
    "buffer_Cap (dd_buf dict) = buffer_Cap (dd_buf (d_Dict d))"
proof (cases "m_n (op_match op) = 0")
  case True
  have "1 \<le> decoderDict_Available (d_Dict d)" using room by (simp add: maxMatchLen_def minMatchLen_def)
  from dd_WriteByte [OF dd(1) this] obtain dict where d: "decoderDict_WriteByte (d_Dict d) (op_b op) = (None, dict)"
    "dd_rep h0 (h @ [op_b op]) R dict" "buffer_Cap (dd_buf dict) = buffer_Cap (dd_buf (d_Dict d))" by blast
  then show thesis using True by (intro that [of dict]) (simp_all add: apply_op_def next_hist_def)
next
  case False
  note m = op_ok_match [OF op False]
  define dist n where "dist = nat (m_distance (op_match op))" and "n = nat (m_n (op_match op))"
  have b: "1 \<le> m_distance (op_match op)" "1 \<le> m_n (op_match op)" "m_n (op_match op) \<le> maxMatchLen"
    using m(2) by (auto simp: match_ok_def minDistance_def minMatchLen_def maxMatchLen_def)
  have d: "1 \<le> dist" "dist \<le> length h" "dist \<le> buffer_Cap (dd_buf (d_Dict d))" "m_distance (op_match op) = int dist"
    using m(3,4) b dd(2) by (simp_all add: dist_def)
  have n: "1 \<le> n" "n \<le> nat maxMatchLen" "n \<le> decoderDict_Available (d_Dict d)" "m_n (op_match op) = int n"
    using b room by (simp_all add: n_def)
  obtain dict where w: "decoderDict_writeMatch (d_Dict d) (int dist) (int n) = (None, dict)"
    "dd_rep h0 (lz_copy dist n h) R dict" "buffer_Cap (dd_buf dict) = buffer_Cap (dd_buf (d_Dict d))"
    by (rule dd_writeMatch [OF dd(1) d(1-3) n(1-3)])
  then show thesis using False d(4) n(4)
    by (intro that [of dict]) (simp_all add: apply_op_def next_hist_def)
qed

lemma decoder_readOp_live:
  assumes l: "live S (op # ops) h R d" and e: "ending S"
  obtains c rd e1 where "decoder_readOp d = (Inr op, d\<lparr>d_State := c, d_rd := rd\<rparr>)" "op_ok (sr_cap S) h (rep (d_State d)) op"
    "coding (sr_cap S) (sr_margin S) (next_hist h op) c e1 ops (sr_hist S) (sr_state S) (sr_coder S)"
    "enc_ready (sr_pre S) e1" "synced S rd e1" "state_ok (sr_lits S) c" "reps_ok (sr_cap S) (rep c)"
proof -
  obtain e0 where e0: "coding (sr_cap S) (sr_margin S) h (d_State d) e0 (op # ops) (sr_hist S) (sr_state S) (sr_coder S)"
    "enc_ready (sr_pre S) e0" "synced S (d_rd d) e0" using l by (auto simp: live_def)
  from e0(1) obtain w ed u c e1 where o: "op_ok (sr_cap S) h (rep (d_State d)) op" "ed_rep w (length h) ed"
    "take (length h) w = h" "sr_cap S \<le> ed_capacity ed" "writeOp (sr_margin S) ed op (d_State d, e0) = (Inr u, c, e1)"
    "coding (sr_cap S) (sr_margin S) (next_hist h op) c e1 ops (sr_hist S) (sr_state S) (sr_coder S)"
    by (rule coding_ConsE) blast
  have i: "state_ok (sr_lits S) (d_State d)" "reps_ok (sr_cap S) (rep (d_State d))" "enc_ready (sr_pre S) e0" "sr_cap S < 2 ^ 32"
    "dd_rep (sr_before S) h R (d_Dict d)" "sr_cap S \<le> buffer_Cap (dd_buf (d_Dict d))"
    using l e e0(2) by (simp_all add: live_def ending_def)
  note s = op_step [OF o(1-5) i]
  note ci = coding_inv [OF o(6) s(1-3) i(4)]
  have "contains (sr_pre S) (sr_F S) e1" using ci(4) e by (simp add: ending_def)
  from s(5) [OF this e0(3) [unfolded synced_def]] obtain rd where
    rd: "readOp (d_Dict d) (d_State d, d_rd d) = (Inr op, c, rd)" "sync (sr_pre S) (sr_F S) (sr_T S) rd e1" by blast
  have "decoder_readOp d = (Inr op, d\<lparr>d_State := c, d_rd := rd\<rparr>)" using rd(1) by (simp add: decoder_readOp_def)
  then show thesis using o(1,6) s(1-3) rd(2) by (intro that) (simp_all add: synced_def)
qed

lemma readOp_marker:
  assumes e: "ending S" "sr_marker S" and s: "synced S (d_rd d) (sr_coder S)" "d_State d = sr_state S"
    and dd: "dd_rep (sr_before S) (sr_hist S) R (d_Dict d)" "sr_cap S \<le> buffer_Cap (dd_buf (d_Dict d))"
  obtains c rd where "decoder_readOp d = (Inl ErrEOS, d\<lparr>d_State := c, d_rd := rd, d_eosMarker := True\<rparr>)" "at_end S rd"
proof -
  obtain c rd where "readOp (d_Dict d) (sr_state S, d_rd d) = (Inl ErrEOS, c, rd)" "at_end S rd"
    using e s(1) dd unfolding ending_def by fastforce
  then show thesis using s(2) by (intro that [where c = c and rd = rd]) (simp_all add: decoder_readOp_def)
qed

lemma decompress_done_end:
  assumes e: "ending S" and s: "synced S (d_rd d) (sr_coder S)" "d_State d = sr_state S"
    and dd: "dd_rep (sr_before S) (sr_hist S) R (d_Dict d)" "sr_cap S \<le> buffer_Cap (dd_buf (d_Dict d))"
      "maxMatchLen \<le> int (buffer_Cap (dd_buf (d_Dict d)))"
    and sz: "d_size d = Decompressed d" "0 \<le> d_size d"
  obtains d' where "decompress_done d = (LzIo EOF, d')" "finished S R d'"
proof (cases "possiblyAtEnd (d_rd d)")
  case True
  have "at_end S (d_rd d)" if "\<not> sr_marker S" using e s(1) that by (auto simp: ending_def)
  then show thesis using True dd sz s(2)
    by (intro that [of "d\<lparr>d_eos := True\<rparr>"]) (auto simp: decompress_done_def Decompressed_def finished_def at_end_def)
next
  case False
  have "at_end S (d_rd d)" if "\<not> sr_marker S" using e s(1) that by (auto simp: ending_def)
  with False have m: "sr_marker S" by (auto simp: at_end_def)
  define d1 where "d1 = d\<lparr>d_eos := True\<rparr>"
  have "synced S (d_rd d1) (sr_coder S)" "d_State d1 = sr_state S" "dd_rep (sr_before S) (sr_hist S) R (d_Dict d1)"
    "sr_cap S \<le> buffer_Cap (dd_buf (d_Dict d1))" using s dd by (simp_all add: d1_def)
  from readOp_marker [OF e m this] obtain c rd where
    r: "decoder_readOp d1 = (Inl ErrEOS, d1\<lparr>d_State := c, d_rd := rd, d_eosMarker := True\<rparr>)" "at_end S rd" by blast
  have "\<not> d_size d1 < Decompressed d1" "\<not> possiblyAtEnd (d_rd d1)" using sz False by (simp_all add: d1_def Decompressed_def)
  then have "decompress_done d = (LzIo EOF, d1\<lparr>d_State := c, d_rd := rd, d_eosMarker := True\<rparr>)"
    using r(1) unfolding decompress_done_def Let_def d1_def [symmetric] by simp
  then show thesis using dd r(2) m
    by (intro that) (auto simp: finished_def at_end_def d1_def)
qed

lemma decompress_step_op:
  assumes l: "live S (op # ops) h R d" and e: "ending S" and room: "maxMatchLen \<le> int (decoderDict_Available (d_Dict d))"
  shows "\<exists>d'. decompress_step d = (None, d') \<and> live S ops (next_hist h op) R d' \<or>
    decompress_step d = (Some (LzIo EOF), d') \<and> finished S R d'"
proof -
  obtain c rd e1 where r: "decoder_readOp d = (Inr op, d\<lparr>d_State := c, d_rd := rd\<rparr>)" "op_ok (sr_cap S) h (rep (d_State d)) op"
    "coding (sr_cap S) (sr_margin S) (next_hist h op) c e1 ops (sr_hist S) (sr_state S) (sr_coder S)"
    "enc_ready (sr_pre S) e1" "synced S rd e1" "state_ok (sr_lits S) c" "reps_ok (sr_cap S) (rep c)"
    by (rule decoder_readOp_live [OF l e])
  define d1 where "d1 = d\<lparr>d_State := c, d_rd := rd\<rparr>"
  have dd: "dd_rep (sr_before S) h R (d_Dict d1)" "sr_cap S \<le> buffer_Cap (dd_buf (d_Dict d1))"
    "maxMatchLen \<le> int (decoderDict_Available (d_Dict d1))" "maxMatchLen \<le> int (buffer_Cap (dd_buf (d_Dict d1)))"
    using l room by (simp_all add: live_def d1_def)
  obtain dict where a: "apply_op op d1 = (None, d1\<lparr>d_Dict := dict\<rparr>)" "dd_rep (sr_before S) (next_hist h op) R dict"
    "buffer_Cap (dd_buf dict) = buffer_Cap (dd_buf (d_Dict d1))"
    by (rule apply_op_rep [OF dd(1,2) r(2) dd(3)])
  define d2 where "d2 = d1\<lparr>d_Dict := dict\<rparr>"
  have step: "decompress_step d = (if d_size d2 \<ge> 0 \<and> Decompressed d2 \<ge> d_size d2
      then (case decompress_done d2 of (err, d) \<Rightarrow> (Some err, d)) else (None, d2))"
    using r(1) a(1) by (simp add: decompress_step_def d1_def d2_def)
  have len: "length h < length (next_hist h op)" using length_next_hist [OF r(2)] op_ok_Len [OF r(2)] by simp
  have cap: "sr_cap S < 2 ^ 32" using e by (simp add: ending_def)
  note ci = coding_inv [OF r(3,6,7,4) cap]
  have D: "Decompressed d2 = int (length (next_hist h op)) - int (d_start d)"
    using a(2) by (simp add: Decompressed_def d2_def d1_def dd_rep_def)
  have st: "d_start d \<le> length h" using l by (simp add: live_def)
  have live2: "live S ops (next_hist h op) R d2"
    if "ops \<noteq> [] \<or> d_size d = -1 \<and> sr_marker S"
    using that l r(3-7) a(2,3) dd len st unfolding live_def d2_def d1_def by auto
  show ?thesis
  proof (cases "d_size d = -1 \<and> sr_marker S")
    case True
    then have "decompress_step d = (None, d2)" unfolding step by (simp add: d2_def d1_def)
    with live2 True show ?thesis by blast
  next
    case False
    then have sz: "d_size d = int (length (sr_hist S)) - int (d_start d)" using l by (auto simp: live_def)
    show ?thesis
    proof (cases "ops = []")
      case True
      then have last: "next_hist h op = sr_hist S" "c = sr_state S" "e1 = sr_coder S"
        using r(3) by (auto elim: coding_NilE)
      have "synced S (d_rd d2) (sr_coder S)" "d_State d2 = sr_state S" "dd_rep (sr_before S) (sr_hist S) R (d_Dict d2)"
        "sr_cap S \<le> buffer_Cap (dd_buf (d_Dict d2))" "maxMatchLen \<le> int (buffer_Cap (dd_buf (d_Dict d2)))" "d_size d2 = Decompressed d2" "0 \<le> d_size d2"
        using last r(5) a(2,3) dd D sz st len by (simp_all add: d2_def d1_def)
      from decompress_done_end [OF e this] obtain d' where
        d': "decompress_done d2 = (LzIo EOF, d')" "finished S R d'" by blast
      have "decompress_step d = (Some (LzIo EOF), d')"
        unfolding step using d' \<open>d_size d2 = Decompressed d2\<close> \<open>0 \<le> d_size d2\<close> by simp
      with d' show ?thesis by blast
    next
      case ops: False
      then have "length (next_hist h op) < length (sr_hist S)" by (rule ci(6))
      then have "\<not> Decompressed d2 \<ge> d_size d2" using D sz by (simp add: d2_def d1_def)
      then have "decompress_step d = (None, d2)" unfolding step by simp
      with live2 ops show ?thesis by blast
    qed
  qed
qed

lemma decompress_step_end:
  assumes l: "live S [] h R d" and e: "ending S"
  obtains d' where "decompress_step d = (Some (LzIo EOF), d')" "finished S R d'"
proof -
  obtain e0 where e0: "coding (sr_cap S) (sr_margin S) h (d_State d) e0 [] (sr_hist S) (sr_state S) (sr_coder S)"
    "synced S (d_rd d) e0" using l by (auto simp: live_def)
  then have h: "h = sr_hist S" "d_State d = sr_state S" "synced S (d_rd d) (sr_coder S)" by (auto elim: coding_NilE)
  have m: "sr_marker S" and dd: "dd_rep (sr_before S) (sr_hist S) R (d_Dict d)" "sr_cap S \<le> buffer_Cap (dd_buf (d_Dict d))"
    and big: "maxMatchLen \<le> int (buffer_Cap (dd_buf (d_Dict d)))"
    using l h by (auto simp: live_def)
  have sz: "d_size d < 0 \<or> d_size d = Decompressed d"
    using l h dd(1) by (auto simp: live_def Decompressed_def dd_rep_def)
  from readOp_marker [OF e m h(3,2) dd] obtain c rd where
    r: "decoder_readOp d = (Inl ErrEOS, d\<lparr>d_State := c, d_rd := rd, d_eosMarker := True\<rparr>)" "at_end S rd" by blast
  define d1 where "d1 = d\<lparr>d_State := c, d_rd := rd, d_eosMarker := True, d_eos := True\<rparr>"
  have "decompress_step d = (Some (LzIo EOF), d1)"
    using r sz by (auto simp: decompress_step_def decompress_fail_def at_end_def d1_def Let_def Decompressed_def)
  moreover have "finished S R d1" using dd big r(2) m by (simp add: finished_def d1_def at_end_def)
  ultimately show thesis by (rule that)
qed

section \<open>The loops\<close>

lemma decompress_loop_live:
  assumes "live S ops h R d" "ending S"
  shows "\<exists>err d'. decompress_loop d = Some (err, d') \<and>
    (err = None \<and> int (decoderDict_Available (d_Dict d')) < maxMatchLen \<and> (\<exists>ops' h'. live S ops' h' R d') \<or>
     err = Some (LzIo EOF) \<and> finished S R d')"
  using assms(1)
proof (induction ops arbitrary: h d)
  case Nil
  show ?case
  proof (cases "int (decoderDict_Available (d_Dict d)) < maxMatchLen")
    case True
    then show ?thesis using Nil by (subst decompress_loop.simps) auto
  next
    case False
    from decompress_step_end [OF Nil assms(2)] obtain d' where
      "decompress_step d = (Some (LzIo EOF), d')" "finished S R d'" by blast
    then show ?thesis using False by (subst decompress_loop.simps) auto
  qed
next
  case (Cons op ops)
  show ?case
  proof (cases "int (decoderDict_Available (d_Dict d)) < maxMatchLen")
    case True
    then show ?thesis using Cons.prems by (subst decompress_loop.simps) auto
  next
    case False
    then have room: "maxMatchLen \<le> int (decoderDict_Available (d_Dict d))" by simp
    from decompress_step_op [OF Cons.prems assms(2) room] obtain d' where
      "decompress_step d = (None, d') \<and> live S ops (next_hist h op) R d' \<or>
       decompress_step d = (Some (LzIo EOF), d') \<and> finished S R d'" by blast
    then show ?thesis
    proof
      assume s: "decompress_step d = (None, d') \<and> live S ops (next_hist h op) R d'"
      then have "decompress_loop d = decompress_loop d'" using False by (subst decompress_loop.simps) simp
      with Cons.IH [of "next_hist h op" d'] s show ?thesis by simp
    next
      assume "decompress_step d = (Some (LzIo EOF), d') \<and> finished S R d'"
      then show ?thesis using False by (subst decompress_loop.simps) auto
    qed
  qed
qed

text \<open>A decoder that is being read: all of its bytes up to \<open>R\<close> have been delivered.\<close>

definition reading :: "stream \<Rightarrow> nat \<Rightarrow> decoder \<Rightarrow> bool" where
  "reading S R d \<longleftrightarrow> ending S \<and> (finished S R d \<or> (\<exists>ops h. live S ops h R d))"

definition all_bytes :: "stream \<Rightarrow> byte list" where
  "all_bytes S = sr_before S @ sr_hist S"

lemma decompress_reading:
  assumes "reading S R d"
  obtains err d' where "decompress d = Some (err, d')" "err = None \<or> err = Some (LzIo EOF)" "reading S R d'"
    "d_eos d \<Longrightarrow> d' = d" "d_eos d' \<or> R < length (sr_before S) + dd_head (d_Dict d')"
proof (cases "d_eos d")
  case True
  then show thesis using assms by (intro that [of "Some (LzIo EOF)" d]) (simp_all add: decompress_def)
next
  case False
  then obtain ops h where l: "live S ops h R d" "ending S" using assms by (auto simp: reading_def finished_def)
  from decompress_loop_live [OF this] obtain err d' where
    d: "decompress_loop d = Some (err, d')"
      "err = None \<and> int (decoderDict_Available (d_Dict d')) < maxMatchLen \<and> (\<exists>ops' h'. live S ops' h' R d') \<or>
       err = Some (LzIo EOF) \<and> finished S R d'" by blast
  have "d_eos d' \<or> R < length (sr_before S) + dd_head (d_Dict d')"
  proof (cases "finished S R d'")
    case False
    then obtain ops' h' where l': "live S ops' h' R d'" "int (decoderDict_Available (d_Dict d')) < maxMatchLen" using d(2) by blast
    then show ?thesis using live_unread [OF l'] by (simp add: live_def dd_rep_def)
  qed (simp add: finished_def)
  then show thesis using d l(2) False by (intro that [of err d']) (auto simp: decompress_def reading_def)
qed

definition seen :: "stream \<Rightarrow> decoder \<Rightarrow> nat" where
  "seen S d = length (sr_before S) + dd_head (d_Dict d)"

lemma finished_Dict: "finished S R d \<Longrightarrow> dd_rep (sr_before S) (sr_hist S) R' dict \<Longrightarrow>
    buffer_Cap (dd_buf dict) = buffer_Cap (dd_buf (d_Dict d)) \<Longrightarrow> finished S R' (d\<lparr>d_Dict := dict\<rparr>)"
  by (simp add: finished_def)

lemma live_Dict:
  "live S ops h R d \<Longrightarrow> dd_rep (sr_before S) h R' dict \<Longrightarrow> buffer_Cap (dd_buf dict) = buffer_Cap (dd_buf (d_Dict d)) \<Longrightarrow>
    live S ops h R' (d\<lparr>d_Dict := dict\<rparr>)"
  by (simp add: live_def)

lemma reading_Read:
  assumes r: "reading S R d" and rd: "decoderDict_Read (d_Dict d) k = (q, dict)"
  shows "reading S (R + length q) (d\<lparr>d_Dict := dict\<rparr>)" "seen S (d\<lparr>d_Dict := dict\<rparr>) = seen S d"
    "q = take (min k (seen S d - R)) (drop R (all_bytes S))" "seen S d \<le> length (all_bytes S)" "R \<le> seen S d"
    "d_eos d \<Longrightarrow> seen S d = length (all_bytes S)"
proof -
  obtain h where h: "dd_rep (sr_before S) h R (d_Dict d)" "h = take (length h) (sr_hist S)"
    and f: "finished S R d \<and> h = sr_hist S \<or> \<not> d_eos d \<and> (\<exists>ops. live S ops h R d)"
  proof (cases "finished S R d")
    case True
    then show thesis by (intro that [of "sr_hist S"]) (simp_all add: finished_def)
  next
    case False
    then obtain ops h where l: "live S ops h R d" "sr_cap S < 2 ^ 32" using r by (auto simp: reading_def ending_def)
    then obtain e where "coding (sr_cap S) (sr_margin S) h (d_State d) e ops (sr_hist S) (sr_state S) (sr_coder S)"
      "state_ok (sr_lits S) (d_State d)" "reps_ok (sr_cap S) (rep (d_State d))" "enc_ready (sr_pre S) e" by (auto simp: live_def)
    from coding_inv(7) [OF this l(2)] l(1) show thesis by (intro that [of h]) (auto simp: live_def)
  qed
  note rr = dd_Read [OF h(1) rd]
  have sn: "seen S d = length (sr_before S @ h)" using h(1) by (simp add: seen_def dd_rep_def)
  have pre: "sr_before S @ h = take (seen S d) (all_bytes S)"
    using h(2) by (simp add: all_bytes_def sn)
  show "seen S (d\<lparr>d_Dict := dict\<rparr>) = seen S d" using rr(2) h(1) by (simp add: seen_def dd_rep_def)
  show "R \<le> seen S d" using dd_repD [OF h(1)] by (simp add: sn ring_def)
  have "length h \<le> length (sr_hist S)" by (metis h(2) nat_le_linear take_all_iff)
  then show "seen S d \<le> length (all_bytes S)" by (simp add: sn all_bytes_def)
  show "q = take (min k (seen S d - R)) (drop R (all_bytes S))" unfolding rr(1) pre drop_take take_take ..
  show "d_eos d \<Longrightarrow> seen S d = length (all_bytes S)" using f by (auto simp: sn all_bytes_def)
  show "reading S (R + length q) (d\<lparr>d_Dict := dict\<rparr>)"
    using f finished_Dict [of S R d, OF _ _ rr(3)] live_Dict [of S _ h R d, OF _ rr(2,3)] rr(2) r
    unfolding reading_def by blast
qed

lemma Read_from_reading:
  assumes "reading S R d" "length acc < k"
  shows "\<exists>d' out. decoder_Read_from k acc d =
      Some (acc @ out, if length out < k - length acc then Some (LzIo EOF) else None, d') \<and>
    out = take (k - length acc) (drop R (all_bytes S)) \<and> reading S (R + length out) d'"
  using assms
proof (induction "2 * (length (all_bytes S) - R) + (if d_eos d then 0 else if R < seen S d then 1 else 2)"
    arbitrary: R d acc rule: less_induct)
  case less
  define m where "m = k - length acc"
  have m: "0 < m" using less.prems(2) by (simp add: m_def)
  obtain q dict where rd: "decoderDict_Read (d_Dict d) m = (q, dict)" by fastforce
  define d1 where "d1 = d\<lparr>d_Dict := dict\<rparr>"
  note r = reading_Read [OF less.prems(1) rd, folded d1_def]
  have eos: "d_eos d1 = d_eos d" by (simp add: d1_def)
  have lq: "length q = min m (seen S d - R)" unfolding r(3) using r(4) by simp
  have unfold: "decoder_Read_from k acc d =
      (if q = [] \<and> d_eos d1 then Some (acc @ q, Some (LzIo EOF), d1)
       else if length (acc @ q) \<ge> k then Some (acc @ q, None, d1)
       else case decompress d1 of None \<Rightarrow> None
         | Some (err, d) \<Rightarrow> if err \<noteq> None \<and> err \<noteq> Some (LzIo EOF) then Some (acc @ q, err, d)
             else decoder_Read_from k (acc @ q) d)"
    by (subst decoder_Read_from.simps) (simp add: rd [unfolded m_def] d1_def Let_def)
  consider (stop) "q = []" "d_eos d1" | (full) "q \<noteq> [] \<or> \<not> d_eos d1" "length (acc @ q) \<ge> k"
    | (more) "q \<noteq> [] \<or> \<not> d_eos d1" "length (acc @ q) < k" by linarith
  then show ?case
  proof cases
    case stop
    then have "drop R (all_bytes S) = []" using lq m r(5) r(6) eos by auto
    then show ?thesis using stop r(1) m by (auto simp: unfold m_def)
  next
    case full
    then have "length q = m" using lq less.prems(2) by (simp add: m_def)
    then have "q = take m (drop R (all_bytes S))" using lq r(3) by simp
    then show ?thesis using full r(1) \<open>length q = m\<close> by (intro exI [of _ d1] exI [of _ q]) (auto simp: unfold m_def)
  next
    case more
    then have short: "length q < m" by (simp add: m_def)
    then have q: "length q = seen S d - R" using lq by simp
    from decompress_reading [OF r(1)] obtain err d2 where d2: "decompress d1 = Some (err, d2)"
      "err = None \<or> err = Some (LzIo EOF)" "reading S (R + length q) d2" "d_eos d1 \<Longrightarrow> d2 = d1"
      "d_eos d2 \<or> R + length q < seen S d2" unfolding seen_def by metis
    have step: "decoder_Read_from k acc d = decoder_Read_from k (acc @ q) d2"
      using more d2(1,2) unfolding unfold by auto
    have "2 * (length (all_bytes S) - (R + length q)) + (if d_eos d2 then 0 else if R + length q < seen S d2 then 1 else 2)
        < 2 * (length (all_bytes S) - R) + (if d_eos d then 0 else if R < seen S d then 1 else 2)"
    proof (cases "q = []")
      case True
      then have "\<not> d_eos d" "\<not> R < seen S d" using more(1) eos q by simp_all
      then show ?thesis using True d2(5) by auto
    next
      case False
      then have "0 < length q" by simp
      moreover have "R + length q \<le> length (all_bytes S)" using q r(4,5) by simp
      ultimately have l: "0 < length q" "R + length q \<le> length (all_bytes S)" .
      show ?thesis
      proof (cases "d_eos d")
        case True
        then have "d_eos d2" using d2(4) eos by simp
        moreover have "length (all_bytes S) - (R + length q) < length (all_bytes S) - R" using l by linarith
        ultimately show ?thesis using True by simp
      next
        case False
        with l q d2(5) show ?thesis by auto
      qed
    qed
    from less.hyps [OF this d2(3) more(2)] obtain d' out where o: "decoder_Read_from k (acc @ q) d2 =
        Some ((acc @ q) @ out, if length out < k - length (acc @ q) then Some (LzIo EOF) else None, d')"
      "out = take (k - length (acc @ q)) (drop (R + length q) (all_bytes S))" "reading S (R + length q + length out) d'" by blast
    have k: "k - length (acc @ q) = m - length q" by (simp add: m_def)
    have q1: "q = take (length q) (drop R (all_bytes S))" using r(3) lq by simp
    have "q @ out = take m (drop R (all_bytes S))"
      using take_add [of "length q" "m - length q" "drop R (all_bytes S)"] short q1 o(2) k by (simp add: add.commute)
    moreover have "length out < k - length (acc @ q) \<longleftrightarrow> length (q @ out) < k - length acc"
      using short unfolding k by (auto simp: m_def)
    moreover have "reading S (R + length (q @ out)) d'" using o(3) by (simp only: length_append add.assoc)
    ultimately show ?thesis unfolding step o(1) append_assoc m_def [symmetric]
      by (intro exI [of _ d'] exI [of _ "q @ out"]) (simp only: simp_thms)
  qed
qed

lemma Read_reading:
  assumes "reading S R d" "0 < k"
  obtains d' where "decoder_Read k d = Some (take k (drop R (all_bytes S)),
      if length (drop R (all_bytes S)) < k then Some (LzIo EOF) else None, d')"
    "reading S (R + length (take k (drop R (all_bytes S)))) d'"
proof -
  have "length (take k (drop R (all_bytes S))) < k \<longleftrightarrow> length (drop R (all_bytes S)) < k" by auto
  with Read_from_reading [OF assms(1), of "[]" k] assms(2) show thesis
    by (auto simp: decoder_Read_def intro: that)
qed

lemma Read_EOF: "decoder_Read k d = Some (out, Some (LzIo EOF), d') \<Longrightarrow> d_eos d'"
proof -
  have "fst (snd y) = Some (LzIo EOF) \<longrightarrow> d_eos (snd (snd y))" if "decoder_Read_from k acc d = Some y" for k acc d y
    using that
  proof (rule decoder_Read_from.raw_induct [rotated], goal_cases)
    case (1 f k acc d y)
    then show ?case by (auto simp: Let_def split: prod.splits if_splits option.splits)
  qed
  then show "decoder_Read k d = Some (out, Some (LzIo EOF), d') \<Longrightarrow> d_eos d'" by (fastforce simp: decoder_Read_def)
qed

text \<open>A sequence of reads of the given sizes.\<close>

fun read_sizes :: "nat list \<Rightarrow> decoder \<Rightarrow> (byte list \<times> decoder) option" where
  "read_sizes [] d = Some ([], d)"
| "read_sizes (k # ks) d =
     (case decoder_Read k d of
        None \<Rightarrow> None
      | Some (p, _, d) \<Rightarrow> (case read_sizes ks d of None \<Rightarrow> None | Some (q, d) \<Rightarrow> Some (p @ q, d)))"

lemma read_sizes_reading:
  assumes "reading S R d" "\<forall>k \<in> set ks. 0 < k"
  shows "\<exists>d'. read_sizes ks d = Some (take (sum_list ks) (drop R (all_bytes S)), d') \<and>
    reading S (R + length (take (sum_list ks) (drop R (all_bytes S)))) d'"
  using assms
proof (induction ks arbitrary: R d)
  case (Cons k ks)
  define X where "X = drop R (all_bytes S)"
  have "0 < k" using Cons.prems(2) by simp
  from Read_reading [OF Cons.prems(1) this, folded X_def] obtain err d1 where
    r: "decoder_Read k d = Some (take k X, err, d1)" "reading S (R + length (take k X)) d1" by blast
  have X1: "drop (R + length (take k X)) (all_bytes S) = drop k X"
    unfolding X_def by (simp add: min_def add.commute) 
  from Cons.IH [OF r(2)] Cons.prems(2) obtain d2 where
    "read_sizes ks d1 = Some (take (sum_list ks) (drop k X), d2)"
    "reading S (R + length (take k X) + length (take (sum_list ks) (drop k X))) d2" unfolding X1 by auto
  moreover have "take k X @ take (sum_list ks) (drop k X) = take (sum_list (k # ks)) X" by (simp add: take_add)
  ultimately show ?case using r(1) unfolding X_def [symmetric]
    by (metis (no_types, lifting) add.assoc case_prod_conv length_append option.simps(5) read_sizes.simps(2))
qed simp

lemma reads_reading:
  assumes "reading S 0 d" "\<forall>k \<in> set ks. 0 < k" "0 < n"
  shows "\<exists>d' d''. read_sizes ks d = Some (take (sum_list ks) (all_bytes S), d') \<and>
    decoder_Read n d' = Some (take n (drop (sum_list ks) (all_bytes S)),
      if length (all_bytes S) < sum_list ks + n then Some (LzIo EOF) else None, d'')"
proof -
  obtain d' where d': "read_sizes ks d = Some (take (sum_list ks) (all_bytes S), d')"
    "reading S (length (take (sum_list ks) (all_bytes S))) d'"
    using read_sizes_reading [OF assms(1,2)] by auto
  have X: "drop (length (take (sum_list ks) (all_bytes S))) (all_bytes S) = drop (sum_list ks) (all_bytes S)"
    by (simp add: min_def)
  obtain d'' where "decoder_Read n d' = Some (take n (drop (sum_list ks) (all_bytes S)),
      if length (drop (sum_list ks) (all_bytes S)) < n then Some (LzIo EOF) else None, d'')"
    by (rule Read_reading [OF d'(2) assms(3), unfolded X]) blast
  moreover have "length (drop (sum_list ks) (all_bytes S)) < n \<longleftrightarrow> length (all_bytes S) < sum_list ks + n"
    using assms(3) by auto
  ultimately show ?thesis using d'(1) by simp
qed

end
