(* ===== verification/LzmaWriteProofs.thy ===== *)
theory LzmaWriteProofs
  imports LzmaReadProofs
begin

text \<open>
  The encoder over any matcher that keeps the contract of the locale \<open>match_finder\<close>: its calls
  return, and a run of them without an error is a \<open>coding\<close> of the bytes it was given.
\<close>

section \<open>The end of a stream\<close>

lemma on_re_None:
  "on_re f e = (None, e') \<longleftrightarrow> (\<exists>s re. f (e_state e, e_re e) = (Inr (), s, re) \<and> e' = e\<lparr>e_state := s, e_re := re\<rparr>)"
  by (auto simp: on_re_def split: prod.splits sum.splits)

lemma on_re_dict: "on_re f e = (err, e') \<Longrightarrow> e_dict e' = e_dict e"
  by (auto simp: on_re_def split: prod.splits sum.splits)

lemma finish_dict: "encoder_finish e = (err, e') \<Longrightarrow> e_dict e' = e_dict e"
  by (auto simp: encoder_finish_def split: prod.splits option.splits if_splits dest!: on_re_dict)

lemma Close_at_end:
  assumes ready: "enc_ready pre e" and c: "re_Close e = (Inr u, e')"
  obtains F where "enc_written e' = pre @ F" "contains pre F e"
    "\<And>T rd. sync pre F T rd e \<Longrightarrow> possiblyAtEnd rd \<and> br_data (rd_br rd) = T"
proof -
  obtain F where F: "enc_written e' = pre @ F" "contains pre F e" "num F = enc_base pre e" "length F = enc_pos pre e + 4"
    by (rule Close_written [OF ready c])
  have "possiblyAtEnd rd \<and> br_data (rd_br rd) = T" if "sync pre F T rd e" for T rd
  proof -
    have "unat (rd_code rd) = 0" "br_data (rd_br rd) = T"
      using that F(3,4) by (simp_all add: sync_def target_def)
    then show ?thesis by (simp only: possiblyAtEnd_def unat_eq_0)
  qed
  with F(1,2) show thesis by (rule that)
qed

lemma eos_ok: "match_ok r eosMatch"
  by (simp add: match_ok_def eosMatch_def minDistance_def maxDistance_def minMatchLen_def maxMatchLen_def)

lemma finish_ending:
  assumes fin: "encoder_finish e = (None, e')" and ready: "enc_ready pre (e_re e)"
    and st: "state_ok n (e_state e)" "reps_ok cap (rep (e_state e))" "cap < 2 ^ 32"
    and ed: "ed_rep w (length w) (e_dict e)"
  obtains F where "enc_written (e_re e') = pre @ F"
    "\<And>T h0 margin. ending \<lparr>sr_cap = cap, sr_lits = n, sr_margin = margin, sr_pre = pre, sr_F = F, sr_T = T,
       sr_marker = e_marker e, sr_before = h0, sr_hist = w, sr_state = e_state e, sr_coder = e_re e\<rparr>"
proof (cases "e_marker e")
  case False
  with fin have "on_re (on_coder re_Close) e = (None, e')" by (simp add: encoder_finish_def)
  then obtain re where re: "re_Close (e_re e) = (Inr (), re)" "e_re e' = re"
    by (auto simp: on_re_None on_coder_def split: prod.splits)
  from Close_at_end [OF ready re(1)] obtain F where F: "enc_written re = pre @ F" "contains pre F (e_re e)"
    "\<And>T rd. sync pre F T rd (e_re e) \<Longrightarrow> possiblyAtEnd rd \<and> br_data (rd_br rd) = T" by blast
  then show thesis by (intro that [of F]) (use False re(2) st(3) in \<open>auto simp: ending_def synced_def at_end_def\<close>)
next
  case True
  with fin obtain s1 re1 where m: "writeMatch (e_dict e) eosMatch (e_state e, e_re e) = (Inr (), s1, re1)"
    and c: "on_re (on_coder re_Close) (e\<lparr>e_state := s1, e_re := re1\<rparr>) = (None, e')"
    by (auto simp: encoder_finish_def on_re_None split: prod.splits option.splits)
  from c obtain re where re: "re_Close re1 = (Inr (), re)" "e_re e' = re"
    by (auto simp: on_re_None on_coder_def split: prod.splits)
  have triple: "triple (\<lambda>c. state_ok n c \<and> rep c = rep (e_state e)) (writeMatch (e_dict e) eosMatch) (readOp_opt dd) None (state_ok n)"
    if "dd_rep h0 w R dd" for h0 R dd
  proof (rule triple_state)
    have pos: "Pos (e_dict e) = dd_head dd" using ed_Pos [OF ed] that by (simp add: dd_rep_def)
    have len: "length (rep (e_state e)) = 4" using st(2) by (simp add: reps_ok_def)
    show "triple (model n h r pm p) (writeMatch (e_dict e) eosMatch) (readOp_opt dd) None (state_ok n)"
      if "r = rep (e_state e)" for h r pm p
      using match_roundtrip [OF pos eos_ok len, of n h pm p] no_eos_rep [OF st(2,3)] that by (simp add: eosMatch_def)
  qed
  have P: "state_ok n (e_state e) \<and> rep (e_state e) = rep (e_state e)" using st(1) by simp
  obtain dd0 where dd0: "dd_rep [] w (length w) dd0" using dd_rep_exists by blast
  note o0 = tripleD [OF triple [OF dd0] P ready m]
  from Close_at_end [OF o0(2) re(1)] obtain F where F: "enc_written re = pre @ F" "contains pre F re1"
    "\<And>T rd. sync pre F T rd re1 \<Longrightarrow> possiblyAtEnd rd \<and> br_data (rd_br rd) = T" by blast
  have "\<exists>c rd'. readOp dd (e_state e, rd) = (Inl ErrEOS, c, rd') \<and> possiblyAtEnd rd' \<and> br_data (rd_br rd') = T"
    if "dd_rep h0 w R dd" "sync pre F T rd (e_re e)" for h0 R dd T rd
  proof -
    from tripleD(4) [OF triple [OF that(1)] P ready m F(2) that(2)] obtain rd' where
      r: "readOp_opt dd (e_state e, rd) = (Inr None, s1, rd')" "sync pre F T rd' re1" by blast
    have "readOp dd (e_state e, rd) = (Inl ErrEOS, s1, rd')" using r(1) by (simp add: readOp_split lbind_def lfail_def)
    with F(3) [OF r(2)] show ?thesis by blast
  qed
  then show thesis
    by (intro that [of F]) (use True F(1) o0(3) [OF F(2)] re(2) st(3) in \<open>simp_all add: ending_def synced_def at_end_def\<close>)
qed

lemma state_init:
  assumes "newState p = Inr s" "1 \<le> cap"
  shows "\<exists>n. state_ok n s" "reps_ok cap (rep s)" "length (rep s) = 4"
proof -
  from assms(1) obtain lit len replen dist where i: "literalCodec_init (LC p) (LP p) = Inr lit"
    "lengthCodec_init = Inr len" "lengthCodec_init = Inr replen" "distCodec_init = Inr dist"
    and s: "s = \<lparr>rep = replicate 4 0, isMatch = initProbSlice (states * 2 ^ maxPosBits),
            isRepG0Long = initProbSlice (states * 2 ^ maxPosBits),
            isRep = initProbSlice states, isRepG0 = initProbSlice states,
            isRepG1 = initProbSlice states, isRepG2 = initProbSlice states,
            litCodec = lit, lenCodec = len, repLenCodec = replen, distCodec_of = dist,
            history = 0, posBitMask = push_bit (nat (PB p)) 1 - 1, st_Properties = p\<rparr>"
    unfolding newState_def state_Reset_def by (auto simp: sbind_def split: sum.splits)
  have "length_ok len" "length_ok replen" using lengthCodec_init_ok i(2,3) by (metis sum.inject(2))+
  moreover have "dist_ok dist" using distCodec_init_ok i(4) by (metis sum.inject(2))
  moreover have "literal_ok (length lit) lit" using i(1)
    by (auto simp: literalCodec_init_def literal_ok_def array_replicate prob_ok_init split: if_splits)
  ultimately show "\<exists>n. state_ok n s"
    by (intro exI [of _ "length lit"])
      (simp add: s state_ok_def initProbSlice_def array_replicate prob_ok_init states_def maxPosBits_def)
  show "reps_ok cap (rep s)" "length (rep s) = 4" using assms(2) by (simp_all add: s reps_ok_def)
qed

section \<open>The contract of a matcher\<close>

text \<open>
  \<open>inv cap R m\<close> is the matcher's own invariant after \<open>R\<close> bytes have been written to it. \<open>NextOp\<close>
  must propose an operation that reproduces the next bytes of the buffer from the dictionary.
\<close>

definition next_op_ok :: "nat \<Rightarrow> byte list \<Rightarrow> nat \<Rightarrow> u32 list \<Rightarrow> operation \<Rightarrow> bool" where
  "next_op_ok cap w R r op \<longleftrightarrow> op_ok cap (take R w) r op \<and> R + nat (operation_Len op) \<le> length w \<and>
     next_hist (take R w) op = take (R + nat (operation_Len op)) w"

text \<open>A sequence of calls of \<open>Write\<close>, which ends with the first error.\<close>

fun write_chunks :: "'m matcher \<Rightarrow> byte list list \<Rightarrow> 'm encoder \<Rightarrow> (lzma_error option \<times> 'm encoder) option" where
  "write_chunks mt [] e = Some (None, e)"
| "write_chunks mt (p # ps) e =
     (case encoder_Write mt p e of
        None \<Rightarrow> None
      | Some (_, Some err, e) \<Rightarrow> Some (Some err, e)
      | Some (_, None, e) \<Rightarrow> write_chunks mt ps e)"

locale match_finder =
  fixes mt :: "'m matcher" and inv :: "nat \<Rightarrow> nat \<Rightarrow> 'm \<Rightarrow> bool"
  assumes NextOp: "inv cap R m \<Longrightarrow> ed_rep w R ed \<Longrightarrow> ed_capacity ed = cap \<Longrightarrow> cap < 2 ^ 32 \<Longrightarrow> R < length w \<Longrightarrow>
      length r = 4 \<Longrightarrow>
      \<exists>op m'. m_NextOp mt r ed m = Some (op, m') \<and> inv cap R m' \<and> next_op_ok cap w R r op"
    and Writes: "inv cap R m \<Longrightarrow> \<exists>m'. m_Write mt p m = Some m' \<and> inv cap (R + length p) m'"
begin

definition encoding :: "lzma_state \<Rightarrow> rangeEncoder \<Rightarrow> byte list \<Rightarrow> nat \<Rightarrow> byte list \<Rightarrow> 'm encoder \<Rightarrow> bool" where
  "encoding c0 e0 h0 R w e \<longleftrightarrow>
     (\<exists>ops. coding (ed_capacity (e_dict e)) (e_margin e) h0 c0 e0 ops (take R w) (e_state e) (e_re e)) \<and>
     ed_rep w R (e_dict e) \<and> inv (ed_capacity (e_dict e)) R (e_m e) \<and> length (rep (e_state e)) = 4 \<and>
     ed_capacity (e_dict e) < 2 ^ 32 \<and> reps_ok (ed_capacity (e_dict e)) (rep (e_state e))"

text \<open>What no call changes.\<close>

definition same_frame :: "'m encoder \<Rightarrow> 'm encoder \<Rightarrow> bool" where
  "same_frame e e' \<longleftrightarrow> ed_capacity (e_dict e') = ed_capacity (e_dict e) \<and>
     buffer_Cap (ed_buf (e_dict e')) = buffer_Cap (ed_buf (e_dict e)) \<and> e_marker e' = e_marker e \<and>
     e_margin e' = e_margin e \<and> e_start e' = e_start e"

lemma same_frame_trans: "same_frame e1 e2 \<Longrightarrow> same_frame e2 e3 \<Longrightarrow> same_frame e1 e3"
  by (simp add: same_frame_def)

lemma same_frame_refl [simp]: "same_frame e e"
  by (simp add: same_frame_def)

lemma encoding_Buffered: "encoding c0 e0 h0 R w e \<Longrightarrow> encoderDict_Buffered (e_dict e) = length w - R"
  by (simp add: encoding_def ed_Buffered)

lemma compress_step_ok:
  assumes e: "encoding c0 e0 h0 R w e" and R: "R < length w"
  shows "\<exists>err e'. compress_step mt e = (err, e') \<and> same_frame e e' \<and>
    (err = None \<longrightarrow> (\<exists>R'. R < R' \<and> R' \<le> length w \<and> encoding c0 e0 h0 R' w e')) \<and>
    (err \<noteq> None \<longrightarrow> e_dict e' = e_dict e)"
proof -
  obtain ops where en: "coding (ed_capacity (e_dict e)) (e_margin e) h0 c0 e0 ops (take R w) (e_state e) (e_re e)"
    "ed_rep w R (e_dict e)" "inv (ed_capacity (e_dict e)) R (e_m e)" "length (rep (e_state e)) = 4"
    "ed_capacity (e_dict e) < 2 ^ 32" "reps_ok (ed_capacity (e_dict e)) (rep (e_state e))"
    using e by (auto simp: encoding_def)
  from NextOp [OF en(3,2) refl en(5) R en(4)] obtain op m where
    m: "m_NextOp mt (rep (e_state e)) (e_dict e) (e_m e) = Some (op, m)" "inv (ed_capacity (e_dict e)) R m"
      "next_op_ok (ed_capacity (e_dict e)) w R (rep (e_state e)) op" by blast
  note ok = m(3) [unfolded next_op_ok_def]
  obtain res s re where w: "writeOp (e_margin e) (e_dict e) op (e_state e, e_re e) = (res, s, re)" by (metis prod_cases3)
  show ?thesis
  proof (cases res)
    case (Inl err)
    then have "compress_step mt e = (Some err, e\<lparr>e_m := m, e_state := s, e_re := re\<rparr>)"
      using m(1) w by (simp add: compress_step_def on_re_def)
    then show ?thesis by (simp add: same_frame_def)
  next
    case (Inr u)
    define n where "n = nat (operation_Len op)"
    have n: "operation_Len op = int n" "1 \<le> n" "int n \<le> maxMatchLen" "R + n \<le> length w"
      using op_ok_Len [of _ _ _ op] ok by (force simp: n_def)+
    have nR: "n \<le> length w - R" using n(4) by simp
    obtain d where d: "encoderDict_Discard (e_dict e) n = Some (d, take n (drop R w))" "ed_rep w (R + n) d"
      "buffer_Cap (ed_buf d) = buffer_Cap (ed_buf (e_dict e))" "ed_capacity d = ed_capacity (e_dict e)"
      by (rule ed_Discard [OF en(2) nR n(3)])
    from Writes [OF m(2), of "take n (drop R w)"] n(4) obtain m' where
      m': "m_Write mt (take n (drop R w)) m = Some m'" "inv (ed_capacity (e_dict e)) (R + n) m'" by auto
    have step: "compress_step mt e = (None, e\<lparr>e_dict := d, e_m := m', e_state := s, e_re := re\<rparr>)"
      using m(1) w Inr d(1) m'(1) n by (simp add: compress_step_def on_re_def encoder_Discard_def)
    have "op_ok (ed_capacity (e_dict e)) (take R w) (rep (e_state e)) op" using ok by blast
    moreover have "ed_rep w (length (take R w)) (e_dict e)" "take (length (take R w)) w = take R w"
      using en(2) R by simp_all
    ultimately have "coding (ed_capacity (e_dict e)) (e_margin e) h0 c0 e0 (ops @ [op]) (next_hist (take R w) op) s re"
      using coding_snoc [OF en(1)] w Inr by blast
    moreover have "reps_ok (ed_capacity (e_dict e)) (rep s)"
      using writeOp_reps [OF _ en(6) _ en(5)] ok w Inr by blast
    ultimately have "encoding c0 e0 h0 (R + n) w (e\<lparr>e_dict := d, e_m := m', e_state := s, e_re := re\<rparr>)"
      using d m' ok en(5) unfolding encoding_def n_def by (auto simp: reps_ok_def)
    then show ?thesis unfolding step using n d(3,4)
      by (simp add: same_frame_def) (rule exI [of _ "R + n"], simp)
  qed
qed

lemma compress_loop_ok:
  assumes "encoding c0 e0 h0 R w e"
  shows "\<exists>err e' R'. compress_loop mt n e = Some (err, e') \<and> same_frame e e' \<and> R \<le> R' \<and>
    (err = None \<longrightarrow> encoding c0 e0 h0 R' w e' \<and> length w - R' \<le> n) \<and>
    (err \<noteq> None \<longrightarrow> n < encoderDict_Buffered (e_dict e'))"
  using assms
proof (induction "length w - R" arbitrary: R e rule: less_induct)
  case less
  note b = encoding_Buffered [OF less.prems]
  show ?case
  proof (cases "length w - R \<le> n")
    case True
    then show ?thesis using b less.prems by (subst compress_loop.simps) auto
  next
    case False
    then have R: "R < length w" by simp
    from compress_step_ok [OF less.prems R] obtain err e1 where s: "compress_step mt e = (err, e1)" "same_frame e e1"
      "err = None \<Longrightarrow> \<exists>R'. R < R' \<and> R' \<le> length w \<and> encoding c0 e0 h0 R' w e1" "err \<noteq> None \<Longrightarrow> e_dict e1 = e_dict e" by blast
    show ?thesis
    proof (cases err)
      case None
      with s(3) obtain R1 where R1: "R < R1" "R1 \<le> length w" "encoding c0 e0 h0 R1 w e1" by blast
      then have "length w - R1 < length w - R" using R by simp
      from less.hyps [OF this R1(3)] obtain err' e' R' where i: "compress_loop mt n e1 = Some (err', e')"
        "same_frame e1 e'" "R1 \<le> R'" "err' = None \<longrightarrow> encoding c0 e0 h0 R' w e' \<and> length w - R' \<le> n"
        "err' \<noteq> None \<longrightarrow> n < encoderDict_Buffered (e_dict e')" by blast
      have "compress_loop mt n e = compress_loop mt n e1"
        using False b s(1) None by (subst compress_loop.simps) simp
      with i R1(1) same_frame_trans [OF s(2) i(2)] show ?thesis by (intro exI [of _ err'] exI [of _ e'] exI [of _ R']) simp
    next
      case (Some x)
      then have "compress_loop mt n e = Some (Some x, e1)"
        using False b s(1) by (subst compress_loop.simps) simp
      with s(2,4) Some False b show ?thesis by (intro exI [of _ "Some x"] exI [of _ e1] exI [of _ R]) simp
    qed
  qed
qed

lemma encoding_append:
  assumes e: "encoding c0 e0 h0 R w e" and w: "encoderDict_Write (e_dict e) p = (k, err, d)"
  shows "encoding c0 e0 h0 R (w @ take k p) (e\<lparr>e_dict := d\<rparr>)" "same_frame e (e\<lparr>e_dict := d\<rparr>)"
    "k = min (length p) (nat (encoderDict_Available (e_dict e)))"
    "err = (if nat (encoderDict_Available (e_dict e)) < length p then Some ErrNoSpace else None)"
proof -
  have r: "ed_rep w R (e_dict e)" using e by (simp add: encoding_def)
  note ew = ed_Write [OF r w]
  show "k = min (length p) (nat (encoderDict_Available (e_dict e)))"
    "err = (if nat (encoderDict_Available (e_dict e)) < length p then Some ErrNoSpace else None)" by (fact ew)+
  show "same_frame e (e\<lparr>e_dict := d\<rparr>)" using ew(4,5) by (simp add: same_frame_def)
  have t: "take R (w @ take k p) = take R w" using ed_bounds(1) [OF r] by simp
  show "encoding c0 e0 h0 R (w @ take k p) (e\<lparr>e_dict := d\<rparr>)"
    using e ew(3,5) unfolding encoding_def t by simp
qed

text \<open>The lookahead buffer holds a longest match, so that \<open>compress(0)\<close> always makes room.\<close>

definition lookahead :: "'m encoder \<Rightarrow> bool" where
  "lookahead e \<longleftrightarrow> int (ed_capacity (e_dict e)) + maxMatchLen \<le> int (buffer_Cap (ed_buf (e_dict e)))"

lemma Write_from_ok:
  assumes "encoding c0 e0 h0 R w e" "lookahead e" "n \<le> length p"
  shows "\<exists>k err e' R'. encoder_Write_from mt p n e = Some (k, err, e') \<and> same_frame e e' \<and>
    (err = None \<longrightarrow> k = length p \<and> encoding c0 e0 h0 R' (w @ drop n p) e')"
  using assms
proof (induction "2 * (length p - n) + (if encoderDict_Available (e_dict e) = 0 then 1 else 0)"
    arbitrary: n w R e rule: less_induct)
  case less
  obtain k err d where w: "encoderDict_Write (e_dict e) (drop n p) = (k, err, d)" by (metis prod_cases3)
  note a = encoding_append [OF less.prems(1) w]
  define e1 where "e1 = e\<lparr>e_dict := d\<rparr>"
  have unfold: "encoder_Write_from mt p n e =
      (if err = Some ErrNoSpace
       then (case compress mt False e1 of None \<Rightarrow> None | Some (Some err, e) \<Rightarrow> Some (n + k, Some err, e)
             | Some (None, e) \<Rightarrow> encoder_Write_from mt p (n + k) e)
       else Some (n + k, err, e1))"
    by (subst encoder_Write_from.simps) (simp add: w e1_def Let_def)
  show ?case
  proof (cases "nat (encoderDict_Available (e_dict e)) < length (drop n p)")
    case False
    then have "err = None" "k = length (drop n p)" using a(3,4) by simp_all
    then show ?thesis unfolding unfold using a(1,2) less.prems(3)
      by (intro exI [of _ "length p"] exI [of _ None] exI [of _ e1] exI [of _ R]) (simp add: e1_def)
  next
    case True
    then have err: "err = Some ErrNoSpace" and k: "k = nat (encoderDict_Available (e_dict e))" "n + k < length p"
      using a(3,4) by simp_all
    have en1: "encoding c0 e0 h0 R (w @ take k (drop n p)) e1" "same_frame e e1" using a(1,2) by (simp_all add: e1_def)
    from compress_loop_ok [OF en1(1), of "nat (maxMatchLen - 1)"] obtain err2 e2 R2 where
      c: "compress mt False e1 = Some (err2, e2)" "same_frame e1 e2"
        "err2 = None \<longrightarrow> encoding c0 e0 h0 R2 (w @ take k (drop n p)) e2 \<and>
          length (w @ take k (drop n p)) - R2 \<le> nat (maxMatchLen - 1)" unfolding compress_def by auto
    show ?thesis
    proof (cases err2)
      case (Some x)
      then show ?thesis unfolding unfold using err c same_frame_trans [OF en1(2) c(2)] by auto
    next
      case None
      then have en2: "encoding c0 e0 h0 R2 (w @ take k (drop n p)) e2"
        "length (w @ take k (drop n p)) - R2 \<le> nat (maxMatchLen - 1)" using c(3) by blast+
      have fr: "same_frame e e2" by (rule same_frame_trans [OF en1(2) c(2)])
      have la: "lookahead e2" using less.prems(2) fr by (simp add: lookahead_def same_frame_def)
      have r2: "ed_rep (w @ take k (drop n p)) R2 (e_dict e2)" using en2(1) by (simp add: encoding_def)
      have av: "0 < encoderDict_Available (e_dict e2)"
        using ed_Available [OF r2] en2(2) la min.cobounded2 [of R2 "ed_capacity (e_dict e2)"]
        unfolding lookahead_def maxMatchLen_def minMatchLen_def by linarith
      have "2 * (length p - (n + k)) + (if encoderDict_Available (e_dict e2) = 0 then 1 else 0)
          < 2 * (length p - n) + (if encoderDict_Available (e_dict e) = 0 then 1 else 0)"
      proof (cases "encoderDict_Available (e_dict e) = 0")
        case True
        then show ?thesis using av k by simp
      next
        case False
        have "ed_rep w R (e_dict e)" using less.prems(1) by (simp add: encoding_def)
        with False have "0 < k" using k(1) ed_Available by simp
        then show ?thesis using av k(2) False by simp
      qed
      from less.hyps [OF this en2(1) la] k(2) obtain k' err' e' R' where
        i: "encoder_Write_from mt p (n + k) e2 = Some (k', err', e')" "same_frame e2 e'"
          "err' = None \<longrightarrow> k' = length p \<and> encoding c0 e0 h0 R' ((w @ take k (drop n p)) @ drop (n + k) p) e'" by auto
      have "(w @ take k (drop n p)) @ drop (n + k) p = w @ drop n p"
        by (metis append.assoc append_take_drop_id drop_drop add.commute)
      with i same_frame_trans [OF fr i(2)] show ?thesis unfolding unfold using err c(1) None
        by (intro exI [of _ k'] exI [of _ err'] exI [of _ e'] exI [of _ R']) simp
    qed
  qed
qed

lemma Write_ok:
  assumes "encoding c0 e0 h0 R w e" "lookahead e"
  obtains k err e' R' where "encoder_Write mt p e = Some (k, err, e')" "same_frame e e'"
    "err = None \<Longrightarrow> k = length p \<and> encoding c0 e0 h0 R' (w @ p) e'"
  using Write_from_ok [OF assms, of 0 p] by (auto simp: encoder_Write_def)

lemma Close_ok:
  assumes e: "encoding c0 e0 h0 R w e"
  obtains err e' where "encoder_Close mt e = Some (err, e')"
    "err = None \<Longrightarrow> encoderDict_Buffered (e_dict e') = 0 \<Longrightarrow>
      \<exists>e1. encoding c0 e0 h0 (length w) w e1 \<and> same_frame e e1 \<and> encoder_finish e1 = (None, e')"
proof -
  from compress_loop_ok [OF e, of 0] obtain err1 e1 R1 where c: "compress mt True e = Some (err1, e1)"
    "same_frame e e1" "err1 = None \<Longrightarrow> encoding c0 e0 h0 R1 w e1 \<and> length w - R1 \<le> 0"
    "err1 \<noteq> None \<Longrightarrow> 0 < encoderDict_Buffered (e_dict e1)" unfolding compress_def by auto
  show thesis
  proof (cases "err1 \<noteq> None \<and> err1 \<noteq> Some ErrLimit")
    case True
    then show thesis using c(1) by (intro that [of err1 e1]) (auto simp: encoder_Close_def)
  next
    case False
    obtain err e' where f: "encoder_finish e1 = (err, e')" by fastforce
    have closed: "\<exists>e1. encoding c0 e0 h0 (length w) w e1 \<and> same_frame e e1 \<and> encoder_finish e1 = (None, e')"
      if "err = None" "encoderDict_Buffered (e_dict e') = 0"
    proof -
      have "err1 = None" using c(4) that(2) finish_dict [OF f] by (cases err1) auto
      then have en: "encoding c0 e0 h0 R1 w e1" "length w - R1 = 0" using c(3) by auto
      then have "R1 = length w" using ed_bounds(1) [of w R1 "e_dict e1"] by (simp add: encoding_def)
      with en(1) c(2) f that(1) show ?thesis by auto
    qed
    show thesis by (rule that [OF _ closed]) (use c(1) f False in \<open>auto simp: encoder_Close_def\<close>)
  qed
qed

lemma write_chunks_ok:
  assumes "encoding c0 e0 h0 R w e" "lookahead e"
  shows "\<exists>err e' R'. write_chunks mt ps e = Some (err, e') \<and> same_frame e e' \<and>
    (err = None \<longrightarrow> encoding c0 e0 h0 R' (w @ concat ps) e')"
  using assms
proof (induction ps arbitrary: w R e)
  case (Cons p ps)
  from Write_ok [OF Cons.prems] obtain k err e1 R1 where w: "encoder_Write mt p e = Some (k, err, e1)" "same_frame e e1"
    "err = None \<Longrightarrow> k = length p \<and> encoding c0 e0 h0 R1 (w @ p) e1" by blast
  show ?case
  proof (cases err)
    case None
    have "lookahead e1" using Cons.prems(2) w(2) by (simp add: lookahead_def same_frame_def)
    from Cons.IH [OF _ this] w(3) [OF None] obtain err' e' R' where
      "write_chunks mt ps e1 = Some (err', e')" "same_frame e1 e'"
      "err' = None \<longrightarrow> encoding c0 e0 h0 R' ((w @ p) @ concat ps) e'" by blast
    then show ?thesis using w(1,2) None same_frame_trans [OF w(2)] by auto
  qed (use w in auto)
qed auto

lemma encoding_new:
  assumes s: "newState p = Inr s" and ed: "newEncoderDict cap bs = Inr ed" and m: "inv (nat cap) 0 m" and bs: "maxMatchLen \<le> bs"
  shows "encoding s (newRangeEncoder lbw) [] 0 [] (newEncoder lbw s ed m marker)" "lookahead (newEncoder lbw s ed m marker)"
proof -
  have c: "1 \<le> cap" "cap < 2 ^ 32" "ed_rep [] 0 ed" "ed_capacity ed = nat cap" "buffer_Cap (ed_buf ed) = nat (cap + bs)"
    using ed_new [OF ed] ed by (auto simp: newEncoderDict_def MaxDictCap_def split: if_splits)
  have c1: "1 \<le> nat cap" using c(1) by linarith
  have "reps_ok (nat cap) (rep s)" "length (rep s) = 4" using state_init(2,3) [OF s c1] by auto
  then show "encoding s (newRangeEncoder lbw) [] 0 [] (newEncoder lbw s ed m marker)"
    using c m by (auto simp: encoding_def newEncoder_def intro: coding_none exI [of _ "[]"])
  show "lookahead (newEncoder lbw s ed m marker)" using c bs by (simp add: lookahead_def newEncoder_def)
qed

text \<open>A whole stream, from fresh dictionaries on both sides.\<close>

lemma stream_reading:
  assumes s: "newState p = Inr s" and ed: "newEncoderDict cap bs = Inr ed" and m: "inv (nat cap) 0 m"
    and run: "write_chunks mt ps (newEncoder lbw s ed m marker) = Some (None, e1)" "encoder_Close mt e1 = Some (None, e2)"
      "encoderDict_Buffered (e_dict e2) = 0"
    and dd: "newDecoderDict dcap = Inr dd" "cap \<le> dcap \<or> int (length (concat ps)) \<le> dcap" "maxMatchLen \<le> dcap" and bs: "maxMatchLen \<le> bs"
    and size: "sz = -1 \<and> marker \<or> sz = int (length (concat ps)) \<and> (marker \<or> concat ps \<noteq> [])"
  obtains F where "enc_written (e_re e2) = written (lb_BW lbw) @ F"
    "\<And>T r. br_data r = F @ T \<Longrightarrow> \<exists>S d. newDecoder r s dd sz = Inr d \<and> reading S 0 d \<and> all_bytes S = concat ps"
proof -
  define w where "w = concat ps"
  define pre where "pre = written (lb_BW lbw)"
  have c: "1 \<le> cap" "cap < 2 ^ 32" "ed_rep [] 0 ed" "ed_capacity ed = nat cap" "buffer_Cap (ed_buf ed) = nat (cap + bs)"
    using ed_new [OF ed] ed by (auto simp: newEncoderDict_def MaxDictCap_def split: if_splits)
  have c1: "1 \<le> nat cap" using c(1) by linarith
  obtain n where n: "state_ok n s" using state_init(1) [OF s c1] by blast
  define k where "k = min (nat cap) (nat dcap)"
  have "1 \<le> k" using c1 dd(3) by (simp add: k_def maxMatchLen_def minMatchLen_def)
  from state_init(2,3) [OF s this] have reps: "reps_ok k (rep s)" "length (rep s) = 4" by auto
  define e where "e = newEncoder lbw s ed m marker"
  have e: "e_dict e = ed" "e_state e = s" "e_re e = newRangeEncoder lbw" "e_marker e = marker" "e_m e = m"
    by (simp_all add: e_def newEncoder_def)
  have en: "encoding s (newRangeEncoder lbw) [] 0 [] e" and la: "lookahead e"
    using encoding_new [OF s ed m bs] by (simp_all add: e_def)
  from write_chunks_ok [OF en la, of ps] run(1) obtain R1 where
    w1: "encoding s (newRangeEncoder lbw) [] R1 w e1" "same_frame e e1" by (auto simp: e_def w_def)
  from Close_ok [OF w1(1)] run(2,3) obtain e3 where
    e3: "encoding s (newRangeEncoder lbw) [] (length w) w e3" "same_frame e1 e3" "encoder_finish e3 = (None, e2)"
    by (metis option.inject prod.inject)
  have fr: "ed_capacity (e_dict e3) = nat cap" "e_marker e3 = marker"
    using w1(2) e3(2) c e by (simp_all add: same_frame_def)
  have cl: "nat cap < 2 ^ 32" using c by simp
  obtain ops where ops: "coding (nat cap) (e_margin e3) [] s (newRangeEncoder lbw) ops w (e_state e3) (e_re e3)"
    "ed_rep w (length w) (e_dict e3)" using e3(1) fr by (auto simp: encoding_def)
  have coded: "coding k (e_margin e3) [] s (newRangeEncoder lbw) ops w (e_state e3) (e_re e3)"
  proof (rule coding_smaller [OF ops(1)])
    show "length w \<le> k \<or> k = nat cap" using dd(2) by (auto simp: k_def w_def)
  qed (simp add: k_def)
  have ready: "enc_ready pre (newRangeEncoder lbw)" by (simp add: pre_def new_ready)
  have kl: "k < 2 ^ 32" using cl by (simp add: k_def)
  note ci = coding_inv [OF coded n reps(1) ready kl]
  obtain F where F: "enc_written (e_re e2) = pre @ F"
    "\<And>T h0 margin. ending \<lparr>sr_cap = k, sr_lits = n, sr_margin = margin, sr_pre = pre, sr_F = F, sr_T = T,
       sr_marker = marker, sr_before = h0, sr_hist = w, sr_state = e_state e3, sr_coder = e_re e3\<rparr>"
    using finish_ending [OF e3(3) ci(3,1,2) kl ops(2)] unfolding fr by blast
  have "\<exists>S d. newDecoder r s dd sz = Inr d \<and> reading S 0 d \<and> all_bytes S = concat ps"
    if r: "br_data r = F @ T" for T r
  proof -
    define S where "S = \<lparr>sr_cap = k, sr_lits = n, sr_margin = e_margin e3, sr_pre = pre, sr_F = F, sr_T = T,
       sr_marker = marker, sr_before = [], sr_hist = w, sr_state = e_state e3, sr_coder = e_re e3\<rparr>"
    have end_S: "ending S" using F(2) by (simp add: S_def)
    then have "contains pre F (e_re e3)" by (simp add: ending_def S_def)
    then have "contains pre F (newRangeEncoder lbw)" by (rule ci(4))
    from newRangeDecoder_sync [OF this [unfolded pre_def] r] obtain rd where
      rd: "newRangeDecoder r = (Inr rd, rd_br rd)" "sync pre F T rd (newRangeEncoder lbw)" unfolding pre_def by blast
    define d where "d = \<lparr>d_Dict = dd, d_State = s, d_rd = rd, d_start = dd_head dd, d_size = sz, d_eos = False, d_eosMarker = False\<rparr>"
    have d: "newDecoder r s dd sz = Inr d" using rd(1) by (simp add: newDecoder_def d_def)
    have dr: "dd_rep [] [] 0 dd" "buffer_Cap (dd_buf dd) = nat dcap" using dd_new [OF dd(1)] by auto
    have "ops \<noteq> [] \<or> w = []" using ops(1) by (cases ops) (auto elim: coding_NilE)
    then have nonempty: "ops \<noteq> [] \<or> marker" "sz = -1 \<and> marker \<or> sz = int (length w) \<and> (ops \<noteq> [] \<or> w = [])"
      using size by (auto simp: w_def)
    have "live S ops [] 0 d"
      unfolding live_def
    proof (intro conjI)
      show "\<exists>e. coding (sr_cap S) (sr_margin S) [] (d_State d) e ops (sr_hist S) (sr_state S) (sr_coder S) \<and>
          enc_ready (sr_pre S) e \<and> synced S (d_rd d) e"
        using coded ready rd(2) by (auto simp: S_def d_def synced_def)
    qed (use n reps dr dd(3) c nonempty k_def in \<open>auto simp: S_def d_def dd_rep_def\<close>)
    then have "reading S 0 d" using end_S by (auto simp: reading_def)
    with d show ?thesis by (intro exI [of _ S] exI [of _ d]) (simp add: all_bytes_def S_def w_def)
  qed
  with F(1) show thesis unfolding pre_def by (rule that)
qed

end

end
