(* ===== verification/LzmaHashProofs.thy ===== *)
theory LzmaHashProofs
  imports LzmaHash LzmaWriteProofs
begin

text \<open>
  The hash table keeps the contract of \<open>match_finder\<close>: it never panics, and whatever the table holds,
  the operation it proposes reproduces the next bytes of the buffer, because every candidate distance
  is checked against the bytes themselves.
\<close>

section \<open>Common prefixes\<close>

lemma common_prefix_take:
  "take (common_prefix a b) a = take (common_prefix a b) b" "common_prefix a b \<le> length a" "common_prefix a b \<le> length b"
  by (induction a b rule: common_prefix.induct) auto

lemma prefixLen_take:
  "take (prefixLen a b) a = take (prefixLen a b) b" "prefixLen a b \<le> length a" "prefixLen a b \<le> length b"
  using common_prefix_take [of a b] common_prefix_take [of b a] by (auto simp: prefixLen_def)

lemma prefixLen_nth: "j < prefixLen a b \<Longrightarrow> a ! j = b ! j"
  by (metis nth_take prefixLen_take(1))

lemma ring_rear_back:
  assumes "ring L h R b" "dist \<le> R" "dist \<le> L"
  shows "int ((R - dist) mod L) = (if b_rear b < dist then int (b_rear b) - int dist + int L else int (b_rear b) - int dist)"
proof -
  have L: "0 < L" "b_rear b = R mod L" "length (b_data b) = L" using assms(1) by (auto simp: ring_def)
  show ?thesis
  proof (cases "dist = 0")
    case False
    have "(R - dist) mod L = back_index b (R mod L) (int dist)"
      using ring_back_index [OF assms(1) _ assms(2,3)] False by simp
    moreover have "R mod L < L" using L(1) by simp
    ultimately show ?thesis using L assms(3) by (auto simp: back_index_def Let_def)
  qed (simp add: L)
qed

lemma matchLen_ring:
  assumes r: "ring L w R b" and d: "1 \<le> dist" "dist \<le> R" "length w - R + dist \<le> L"
    and p: "R + length p \<le> length w" "p = take (length p) (drop R w)"
  shows "matchLen b dist p \<le> length p" "j < matchLen b dist p \<Longrightarrow> w ! (R + j) = w ! (R - dist + j)"
    "dist \<le> b_rear b \<Longrightarrow> b_rear b - dist + matchLen b dist p \<le> L"
proof -
  define a i where "a = R - dist" and "i = a mod L"
  have L: "0 < L" "length (b_data b) = L" "i < L" using r by (auto simp: ring_def i_def)
  have i: "int i = (if b_rear b < dist then int (b_rear b) - int dist + int L else int (b_rear b) - int dist)"
    unfolding i_def a_def by (rule ring_rear_back [OF r d(2)]) (use d in simp)
  have cell: "b_data b ! ((a + j) mod L) = w ! (a + j)" if "a + j < length w" for j
    using r that d by (auto simp: ring_def a_def)
  have pj: "p ! j = w ! (R + j)" if "j < length p" for j
    using p that by (metis drop_eq_Nil nth_drop nth_take order.trans nat_le_linear le_add1 add_leD1)
  define n1 where "n1 = prefixLen p (drop i (b_data b))"
  have n1: "n1 \<le> length p" "n1 \<le> L - i" using prefixLen_take(2,3) [of p "drop i (b_data b)"] L by (simp_all add: n1_def)
  have first: "w ! (R + j) = w ! (a + j)" if "j < n1" for j
  proof -
    have "p ! j = b_data b ! (i + j)" using prefixLen_nth [of j p "drop i (b_data b)"] that n1 L by (simp add: n1_def)
    moreover have "i + j < L" using that n1 L by linarith
    then have "(a + j) mod L = i + j" using mod_add_small [of j L a] by (simp add: i_def)
    moreover have "a + j < length w" using that n1 p(1) d by (simp add: a_def)
    ultimately show ?thesis using cell [of j] pj [of j] that n1 by simp
  qed
  consider (up) "matchLen b dist p = n1" | (wrap) "b_rear b < dist" "n1 = L - i"
    "matchLen b dist p = n1 + prefixLen (drop n1 p) (b_data b)"
  proof (cases "b_rear b < dist")
    case True
    then have "nat (int (length (b_data b)) + (int (b_rear b) - int dist)) = i" using i L by simp
    moreover have "- (int (b_rear b) - int dist) = int (L - i)" using i True L by simp
    moreover have "int n1 < int (L - i) \<longleftrightarrow> n1 < L - i" by (rule of_nat_less_iff)
    ultimately have "matchLen b dist p = (if n1 < L - i then n1 else n1 + prefixLen (drop n1 p) (b_data b))"
      using True unfolding matchLen_def Let_def n1_def by simp
    then show thesis using that True n1(2) by (auto split: if_splits)
  next
    case False
    then have "nat (int (b_rear b) - int dist) = i" using i by simp
    then show thesis using that(1) False by (simp add: matchLen_def n1_def)
  qed
  then have "matchLen b dist p \<le> length p \<and> (\<forall>j < matchLen b dist p. w ! (R + j) = w ! (a + j)) \<and>
      (dist \<le> b_rear b \<longrightarrow> b_rear b - dist + matchLen b dist p \<le> L)"
  proof cases
    case up
    then show ?thesis using n1 first i L by auto
  next
    case wrap
    define n2 where "n2 = prefixLen (drop n1 p) (b_data b)"
    have n2: "n1 + n2 \<le> length p" "n2 \<le> L" "matchLen b dist p = n1 + n2"
      using prefixLen_take(2,3) [of "drop n1 p" "b_data b"] n1 L wrap by (simp_all add: n2_def)
    have "w ! (R + j) = w ! (a + j)" if j: "n1 \<le> j" "j < n1 + n2" for j
    proof -
      define k where "k = j - n1"
      have k: "j = n1 + k" "k < n2" using j by (simp_all add: k_def)
      have "drop n1 p ! k = b_data b ! k" by (rule prefixLen_nth) (use k in \<open>simp add: n2_def\<close>)
      then have "p ! j = b_data b ! k" using k n2 by simp
      moreover have "(a + j) mod L = k"
      proof -
        have "a + j = (a div L) * L + i + (L - i) + k" using k wrap by (simp add: i_def)
        also have "\<dots> = Suc (a div L) * L + k" using L by simp
        finally show ?thesis using k n2 by (simp only: mod_mult_self3 mod_less)
      qed
      moreover have "a + j < length w" using k n2 p(1) d by (simp add: a_def)
      ultimately show ?thesis using cell [of j] pj [of j] k n2 by simp
    qed
    then show ?thesis using n2 wrap(1) first by (metis not_less)
  qed
  then show "matchLen b dist p \<le> length p" "j < matchLen b dist p \<Longrightarrow> w ! (R + j) = w ! (R - dist + j)"
    "dist \<le> b_rear b \<Longrightarrow> b_rear b - dist + matchLen b dist p \<le> L" by (simp_all add: a_def)
qed

lemma lz_copy_take:
  assumes "1 \<le> dist" "dist \<le> R" "R + n \<le> length w" "\<And>j. j < n \<Longrightarrow> w ! (R + j) = w ! (R - dist + j)"
  shows "lz_copy dist n (take R w) = take (R + n) w"
  using assms
proof (induction n arbitrary: R)
  case (Suc n)
  have "take R w @ [take R w ! (R - dist)] = take (Suc R) w"
    using Suc.prems(1-3) Suc.prems(4) [of 0] by (simp add: take_Suc_conv_app_nth)
  moreover have "lz_copy dist n (take (Suc R) w) = take (Suc R + n) w"
  proof (rule Suc.IH)
    fix j assume "j < n"
    then show "w ! (Suc R + j) = w ! (Suc R - dist + j)" using Suc.prems(4) [of "Suc j"] Suc.prems(2) by (simp add: Suc_diff_le)
  qed (use Suc.prems in auto)
  moreover have "length (take R w) = R" using Suc.prems(3) by simp
  ultimately show ?case by simp
qed simp

section \<open>The candidates\<close>

definition sofar_ok :: "u32 list \<Rightarrow> encoderDict \<Rightarrow> byte list \<Rightarrow> nat \<Rightarrow> byte list \<Rightarrow> match \<Rightarrow> bool" where
  "sofar_ok r d w R data m \<longleftrightarrow> m = \<lparr>m_distance = 0, m_n = 0\<rparr> \<or>
     (\<exists>dist n. m = \<lparr>m_distance = int dist, m_n = int n\<rparr> \<and> 1 \<le> dist \<and> dist \<le> DictLen d \<and> 1 \<le> n \<and> n \<le> length data \<and>
       (n = 1 \<longrightarrow> of_int (int dist - minDistance) = r ! 0) \<and> (\<forall>j<n. w ! (R + j) = w ! (R - dist + j)) \<and>
       (dist \<le> b_rear (ed_buf d) \<longrightarrow> b_rear (ed_buf d) - dist + n \<le> length (b_data (ed_buf d))))"

lemma sofar_zero: "sofar_ok r d w R data \<lparr>m_distance = 0, m_n = 0\<rparr>"
  by (simp add: sofar_ok_def)

lemma try_dist_ok:
  assumes ed: "ed_rep w R d" and data: "R + length data \<le> length w" "data = take (length data) (drop R w)"
    and m: "sofar_ok r d w R data m" "m_n m < int (length data)" "m_distance m < dist" "1 \<le> dist"
  shows "\<exists>m' go. try_dist r d data dist m = Some (m', go) \<and> sofar_ok r d w R data m' \<and>
    m_distance m' \<le> dist \<and> (go \<longrightarrow> m_n m' < int (length data))"
proof (cases "dist > int (DictLen d)")
  case True
  then have "try_dist r d data dist m = Some (m, True)" by (simp add: try_dist_def)
  then show ?thesis using m by (intro exI [of _ m] exI [of _ True]) simp
next
  case False
  define L where "L = Suc (buffer_Cap (ed_buf d))"
  have ring: "ring L w R (ed_buf d)" using ed_repD [OF ed] by (simp add: L_def)
  have L: "length (b_data (ed_buf d)) = L" "b_rear (ed_buf d) < L" using ring by (auto simp: ring_def)
  note eb = ed_bounds [OF ed]
  obtain k where k: "dist = int k" "1 \<le> k" "k \<le> DictLen d" using m(4) False
    by (metis int_one_le_iff_zero_less nat_0_le nat_le_iff not_le of_nat_1 of_nat_le_iff order_less_imp_le zero_less_imp_eq_int)
  have "k \<le> min R (ed_capacity d)" using k(3) ed_DictLen [OF ed] by simp
  then have kR: "k \<le> R" "length w - R + k \<le> L" using eb(2) unfolding L_def by (simp, linarith)
  define i where "i = (let i = int (b_rear (ed_buf d)) - dist + m_n m in if i < 0 then i + int L else i)"
  have mn: "0 \<le> m_n m" using m(1) by (auto simp: sofar_ok_def)
  have i0: "0 \<le> i"
    using mn kR eb L(2) k(1) unfolding i_def Let_def by (auto simp: not_less)
  have iL: "i < int L"
  proof (cases "m_n m = 0")
    case True
    then show ?thesis using L(2) k by (auto simp: i_def Let_def)
  next
    case nz: False
    then obtain dist' n where m': "m_distance m = int dist'" "m_n m = int n" "n \<le> length data"
      "dist' \<le> b_rear (ed_buf d) \<longrightarrow> b_rear (ed_buf d) - dist' + n \<le> L"
      using m(1) L(1) by (auto simp: sofar_ok_def)
    have "n < L" using m(2) m'(2,3) data(1) kR(2) k(2) by linarith
    then show ?thesis using m' m(3) k unfolding i_def Let_def by (cases "dist' \<le> b_rear (ed_buf d)") auto
  qed
  note ml = matchLen_ring [OF ring k(2) kR data]
  define n where "n = matchLen (ed_buf d) k data"
  have new: "sofar_ok r d w R data \<lparr>m_distance = dist, m_n = int n\<rparr>" if "n \<noteq> 0" "\<not> (n = 1 \<and> of_int (dist - minDistance) \<noteq> r ! 0)"
  proof -
    have "1 \<le> n" "n \<le> length data" "\<forall>j<n. w ! (R + j) = w ! (R - k + j)"
      "k \<le> b_rear (ed_buf d) \<longrightarrow> b_rear (ed_buf d) - k + n \<le> length (b_data (ed_buf d))"
      using that(1) ml L(1) by (simp_all add: n_def)
    with that(2) k show ?thesis unfolding sofar_ok_def by (intro disjI2 exI [of _ k] exI [of _ n]) auto
  qed
  have le: "int n \<le> int (length data)" using ml(1) by (simp add: n_def)
  have tried: "try_dist r d data dist m =
      (if b_data (ed_buf d) ! nat i \<noteq> data ! nat (m_n m) then Some (m, True)
       else if n = 0 then Some (m, True)
       else if n = 1 \<and> of_int (dist - minDistance) \<noteq> r ! 0 then Some (m, True)
       else if int n > m_n m then Some (\<lparr>m_distance = dist, m_n = int n\<rparr>, int n \<noteq> int (length data))
       else Some (m, True))"
    using False i0 iL m(2) k(1) unfolding try_dist_def L(1) Let_def i_def n_def by simp
  show ?thesis
    unfolding tried using m new le by (auto split: if_splits)
qed

lemma try_dists_ok:
  assumes "ed_rep w R d" "R + length data \<le> length w" "data = take (length data) (drop R w)"
    and "sofar_ok r d w R data m" "m_n m < int (length data)"
    and "sorted_wrt (<) dists" "\<forall>x \<in> set dists. m_distance m < x \<and> 1 \<le> x"
  shows "\<exists>m'. try_dists r d data dists m = Some m' \<and> sofar_ok r d w R data m'"
  using assms(4-7)
proof (induction dists arbitrary: m)
  case (Cons dist dists)
  from try_dist_ok [OF assms(1-3) Cons.prems(1,2), of dist] Cons.prems(4) obtain m' go where
    t: "try_dist r d data dist m = Some (m', go)" "sofar_ok r d w R data m'" "m_distance m' \<le> dist"
      "go \<Longrightarrow> m_n m' < int (length data)" by auto
  show ?case
  proof (cases go)
    case True
    have "\<forall>x \<in> set dists. m_distance m' < x \<and> 1 \<le> x" using Cons.prems(3,4) t(3) by fastforce
    with Cons.IH [OF t(2) t(4) [OF True]] Cons.prems(3) t(1) True show ?thesis by simp
  qed (use t in simp)
qed simp

text \<open>The chains lead back in time, so that the distances increase.\<close>

lemma chain_ok:
  assumes "delta < int (length data)" "- int (length data) \<le> rear" "rear < 0"
  shows "\<exists>ps. chain data tailPos rear delta k = Some ps \<and> sorted_wrt (>) ps \<and> (\<forall>x \<in> set ps. x \<le> tailPos + delta)"
  using assms(1)
proof (induction k arbitrary: delta)
  case (Suc k)
  define i where "i = (let i = rear + delta in if i < 0 then i + int (length data) else i)"
  show ?case
  proof (cases "delta < 0 \<or> k = 0")
    case False
    then have i: "0 \<le> i" "i < int (length data)" using assms(2,3) Suc.prems by (auto simp: i_def Let_def)
    define u where "u = data ! nat i"
    have step: "chain data tailPos rear delta (Suc k) = (if u = 0 then Some [tailPos + delta]
        else case chain data tailPos rear (delta - int (unat u)) k of None \<Rightarrow> None | Some ps \<Rightarrow> Some ((tailPos + delta) # ps))"
      using False i unfolding u_def i_def Let_def by simp
    show ?thesis
    proof (cases "u = 0")
      case nz: False
      then have "0 < unat u" by (simp add: unat_gt_0)
      then have lt: "delta - int (unat u) < delta" by linarith
      from Suc.IH [of "delta - int (unat u)"] lt Suc.prems obtain ps where
        "chain data tailPos rear (delta - int (unat u)) k = Some ps" "sorted_wrt (>) ps"
        "\<forall>x \<in> set ps. x \<le> tailPos + (delta - int (unat u))" by auto
      then show ?thesis unfolding step using nz lt by fastforce
    qed (use step in simp)
  qed auto
qed simp

section \<open>The rolling hash and the table\<close>

definition roller_ok :: "cyclicPoly \<Rightarrow> bool" where
  "roller_ok r \<longleftrightarrow> length (cp_p r) \<le> cp_cap r \<and> cp_i r < cp_cap r"

lemma RollByte_ok: "roller_ok r \<Longrightarrow> \<exists>h r'. RollByte r x = Some (h, r') \<and> roller_ok r'"
  by (auto simp: roller_ok_def RollByte_def Let_def)

lemma ht_hash_ok: "roller_ok r \<Longrightarrow> \<exists>h' r'. ht_hash p h r = Some (h', r') \<and> roller_ok r'"
proof (induction p arbitrary: h r)
  case (Cons x p)
  from RollByte_ok [OF Cons.prems] obtain h' r' where "RollByte r x = Some (h', r')" "roller_ok r'" by blast
  with Cons.IH [of r' h'] show ?case by auto
qed simp

definition table_ok :: "nat \<Rightarrow> nat \<Rightarrow> hashTable \<Rightarrow> bool" where
  "table_ok cap R t \<longleftrightarrow> 1 \<le> cap \<and> length (ht_data t) = cap \<and> ht_front t < cap \<and>
     ht_hoff t = int R - int (ht_wordLen t) \<and> unat (ht_mask t) < length (ht_t t) \<and>
     (\<forall>x \<in> set (ht_t t). x \<le> max 0 (ht_hoff t + 1)) \<and> roller_ok (ht_wr t) \<and> roller_ok (ht_hr t)"

lemma mask_index: "unat (m :: u64) < n \<Longrightarrow> unat (h AND m) < n"
  by (metis and.commute le_less_trans word_and_le1 word_le_nat_alt)

lemma buffered_bounds: "0 \<le> ht_buffered t" "ht_buffered t \<le> int (length (ht_data t))" "0 \<le> ht_hoff t \<Longrightarrow> ht_buffered t \<le> ht_hoff t + 1"
  by (auto simp: ht_buffered_def Let_def)

lemma putEntry_ok:
  assumes t: "table_ok cap R t"
  shows "\<exists>t'. putEntry h (ht_hoff t) t = Some t' \<and> table_ok cap R t'"
proof (cases "ht_hoff t < 0")
  case False
  have i: "unat (h AND ht_mask t) < length (ht_t t)" using t by (auto simp: table_ok_def intro: mask_index)
  have next_front: "ht_addIndex t' (ht_front t) 1 < cap" if "ht_data t' = ht_data t" for t'
    using t that by (auto simp: table_ok_def ht_addIndex_def Let_def)
  show ?thesis
    using t False i next_front
    by (auto simp: putEntry_def putDelta_def table_ok_def Let_def dest!: set_update_subset_insert [THEN subsetD])
qed (use t in \<open>simp add: putEntry_def\<close>)

lemma ht_WriteByte_ok:
  assumes t: "table_ok cap R t"
  shows "\<exists>t'. ht_WriteByte b t = Some t' \<and> table_ok cap (Suc R) t'"
proof -
  have "roller_ok (ht_wr t)" using t by (simp add: table_ok_def)
  then obtain h r where r: "RollByte (ht_wr t) b = Some (h, r)" "roller_ok r" using RollByte_ok by blast
  define t1 where "t1 = t\<lparr>ht_wr := r, ht_hoff := ht_hoff t + 1\<rparr>"
  have "table_ok cap (Suc R) t1" using t r(2) by (force simp: table_ok_def t1_def)
  from putEntry_ok [OF this] r(1) show ?thesis by (simp add: ht_WriteByte_def t1_def)
qed

lemma ht_Write_ok: "table_ok cap R t \<Longrightarrow> \<exists>t'. ht_Write p t = Some t' \<and> table_ok cap (R + length p) t'"
proof (induction p arbitrary: R t)
  case (Cons b p)
  from ht_WriteByte_ok [OF Cons.prems] obtain t' where "ht_WriteByte b t = Some t'" "table_ok cap (Suc R) t'" by blast
  with Cons.IH [of "Suc R" t'] show ?case by simp
qed simp

lemma getMatches_ok:
  assumes t: "table_ok cap R t"
  shows "\<exists>ps. getMatches h k t = Some ps \<and> sorted_wrt (>) ps"
proof (cases "ht_hoff t < 0 \<or> k = 0")
  case False
  define i where "i = unat (h AND ht_mask t)"
  define tailPos where "tailPos = ht_hoff t + 1 - ht_buffered t"
  define rear where "rear = (let rear = int (ht_front t) - ht_buffered t in if rear \<ge> 0 then rear - int (length (ht_data t)) else rear)"
  have i: "i < length (ht_t t)" using t by (auto simp: table_ok_def i_def intro: mask_index)
  note b = buffered_bounds [of t]
  have "ht_t t ! i \<le> ht_hoff t + 1" using t i False by (fastforce simp: table_ok_def dest: nth_mem)
  then have delta: "ht_t t ! i - 1 - tailPos < int (length (ht_data t))" using b(2) by (simp add: tailPos_def)
  have rear: "- int (length (ht_data t)) \<le> rear" "rear < 0" using t b by (auto simp: rear_def Let_def table_ok_def)
  have "getMatches h k t = chain (ht_data t) tailPos rear (ht_t t ! i - 1 - tailPos) k"
    using False i unfolding getMatches_def Let_def i_def [symmetric] tailPos_def [symmetric] rear_def by simp
  with chain_ok [OF delta rear, of tailPos k] show ?thesis by auto
qed (simp add: getMatches_def)

lemma newHashTable_ok:
  assumes "newHashTable (int cap) n = Inr t"
  shows "table_ok cap 0 t"
proof -
  define e where "e = nat (hashTableExponent (of_int (int cap)))"
  from assms have t: "0 < cap" "1 \<le> n" "t = \<lparr>ht_t = replicate (2 ^ e) 0, ht_data = replicate cap 0, ht_front = 0,
      ht_mask = push_bit e 1 - 1, ht_hoff = - n, ht_wordLen = nat n,
      ht_wr = \<lparr>cp_h = 0, cp_p = [], cp_i = 0, cp_cap = nat n\<rparr>, ht_hr = \<lparr>cp_h = 0, cp_p = [], cp_i = 0, cp_cap = nat n\<rparr>\<rparr>"
    by (auto simp: newHashTable_def newCyclicPoly_def e_def Let_def split: if_splits)
  have "hashTableExponent x \<le> 20" for x
    by (simp add: hashTableExponent_def minTableExponent_def maxTableExponent_def Let_def)
  then have "e \<le> 20" unfolding e_def by (simp add: nat_le_iff)
  then have "e < 64" by simp
  have "unat (push_bit e 1 - 1 :: u64) = unat (mask e :: u64)" by (simp add: mask_eq_exp_minus_1)
  also have "\<dots> < 2 ^ e" unfolding mask_eq_take_bit_minus_one unsigned_take_bit_eq by (rule take_bit_nat_less_exp)
  finally have "unat (push_bit e 1 - 1 :: u64) < 2 ^ e" .
  with t show ?thesis unfolding t(3) by (simp add: table_ok_def roller_ok_def del: push_bit_of_1)
qed

section \<open>The contract\<close>

lemma sorted_dists:
  "sorted_wrt (>) ps \<Longrightarrow>
    sorted_wrt (<) ([1, 2, 3, 4, 5, 6, 7, 8] @ filter (\<lambda>dis. dis > shortDists) (map (\<lambda>pos. h - pos) ps))"
proof -
  assume "sorted_wrt (>) ps"
  then have "sorted_wrt (<) (map (\<lambda>pos. h - pos) ps)" by (simp add: sorted_wrt_map)
  then have "sorted_wrt (<) (filter (\<lambda>dis. dis > shortDists) (map (\<lambda>pos. h - pos) ps))" by (rule sorted_wrt_filter)
  then show ?thesis by (auto simp: sorted_wrt_append shortDists_def)
qed

lemma sofar_next_op:
  assumes ed: "ed_rep w R d" "ed_capacity d = cap" "cap < 2 ^ 32" and data: "data = take (nat maxMatchLen) (drop R w)" "R < length w"
    and m: "sofar_ok r d w R data m"
  shows "next_op_ok cap w R r (if m_n m = 0 then literalOperation (hd data) else matchOperation m)"
proof (cases "m_n m = 0")
  case True
  have "hd data = w ! R" using data by (simp add: hd_conv_nth maxMatchLen_def minMatchLen_def)
  with True data(2) show ?thesis
    by (simp add: next_op_ok_def op_ok_def operation_Len_def next_hist_def take_Suc_conv_app_nth)
next
  case False
  then obtain dist n where n: "m = \<lparr>m_distance = int dist, m_n = int n\<rparr>" "1 \<le> dist" "dist \<le> DictLen d" "1 \<le> n"
    "n \<le> length data" "n = 1 \<longrightarrow> of_int (int dist - minDistance) = r ! 0" "\<forall>j<n. w ! (R + j) = w ! (R - dist + j)"
    using m by (auto simp: sofar_ok_def)
  have "n \<le> length w - R \<and> n \<le> 273" using n(5) data by (simp add: maxMatchLen_def minMatchLen_def)
  then have l: "R + n \<le> length w" "int n \<le> maxMatchLen" using data(2) by (auto simp: maxMatchLen_def minMatchLen_def)
  have d: "dist \<le> R" "dist \<le> cap" using n(3) ed_DictLen [OF ed(1)] ed(2) by simp_all
  then have "int dist < 2 ^ 32" using ed(3) by (metis le_less_trans of_nat_less_numeral_power_cancel_iff)
  then have "match_ok r m"
    using n l(2) by (auto simp: match_ok_def minDistance_def minMatchLen_def maxDistance_def)
  moreover have "lz_copy dist n (take R w) = take (R + n) w" by (rule lz_copy_take) (use n d l in auto)
  ultimately show ?thesis using n(1,4) d l(1) data(2)
    by (simp add: next_op_ok_def op_ok_def operation_Len_def next_hist_def)
qed

interpretation hash: match_finder hash_matcher table_ok
proof
  fix cap R t w ed and r :: "u32 list"
  assume t: "table_ok cap R t" and ed: "ed_rep w R ed" "ed_capacity ed = cap" "cap < 2 ^ 32" and R: "R < length w"
    and "length r = 4"
  define data where "data = Peek (ed_buf ed) (nat maxMatchLen)"
  have data: "data = take (nat maxMatchLen) (drop R w)" unfolding data_def by (rule ring_Peek [OF ed_repD [OF ed(1)]])
  have ne: "data \<noteq> []" "0 < length data" using data R by (simp_all add: maxMatchLen_def minMatchLen_def)
  have "R + length data \<le> length w" using data R by simp
  moreover have "data = take (length data) (drop R w)" unfolding data by (simp add: min_def)
  ultimately have len: "R + length data \<le> length w" "data = take (length data) (drop R w)" .
  have "\<exists>p t'. (if length data < ht_wordLen t then Some ([], t) else ht_Matches (take (ht_wordLen t) data) maxMatches t) = Some (p, t') \<and>
      sorted_wrt (>) p \<and> table_ok cap R t'"
  proof (cases "length data < ht_wordLen t")
    case False
    have "roller_ok (ht_hr t)" using t by (simp add: table_ok_def)
    from ht_hash_ok [OF this] obtain h hr where h: "ht_hash (take (ht_wordLen t) data) 0 (ht_hr t) = Some (h, hr)" "roller_ok hr" by blast
    have t': "table_ok cap R (t\<lparr>ht_hr := hr\<rparr>)" using t h(2) by (auto simp: table_ok_def)
    from getMatches_ok [OF this] obtain ps where
      "getMatches h maxMatches (t\<lparr>ht_hr := hr\<rparr>) = Some ps" "sorted_wrt (>) ps" by blast
    then show ?thesis using False h(1) t' by (simp add: ht_Matches_def)
  qed (use t in simp)
  then obtain p t' where p: "(if length data < ht_wordLen t then Some ([], t) else ht_Matches (take (ht_wordLen t) data) maxMatches t) = Some (p, t')"
    "sorted_wrt (>) p" "table_ok cap R t'" by blast
  define dists where "dists = [1, 2, 3, 4, 5, 6, 7, 8] @ filter (\<lambda>dis. dis > shortDists) (map (\<lambda>pos. int (ed_head ed) - pos) p)"
  have "\<exists>m. try_dists r ed data dists \<lparr>m_distance = 0, m_n = 0\<rparr> = Some m \<and> sofar_ok r ed w R data m"
    unfolding dists_def
    by (rule try_dists_ok [OF ed(1) len sofar_zero _ sorted_dists [OF p(2)]]) (use ne in \<open>auto simp: shortDists_def\<close>)
  then obtain m where m: "try_dists r ed data dists \<lparr>m_distance = 0, m_n = 0\<rparr> = Some m" "sofar_ok r ed w R data m" by blast
  define op where "op = (if m_n m = 0 then literalOperation (hd data) else matchOperation m)"
  have "ht_NextOp r ed t = Some (op, t')"
    using p(1) m(1) ne(1) unfolding ht_NextOp_def Let_def data_def [symmetric]
    by (simp only: option.case prod.case dists_def) (auto simp: op_def split: list.splits)
  moreover have "next_op_ok cap w R r op" unfolding op_def by (rule sofar_next_op [OF ed data R m(2)])
  ultimately show "\<exists>op m'. m_NextOp hash_matcher r ed t = Some (op, m') \<and> table_ok cap R m' \<and> next_op_ok cap w R r op"
    using p(3) by (simp add: hash_matcher_def)
next
  fix cap R t p
  assume "table_ok cap R t"
  then show "\<exists>m'. m_Write hash_matcher p t = Some m' \<and> table_ok cap (R + length p) m'"
    using ht_Write_ok by (simp add: hash_matcher_def)
qed

end
