(* ===== verification/LzmaStreamProps.thy ===== *)
theory LzmaStreamProps
  imports LzmaHashProofs
begin

text \<open>
  The raw LZMA stream as its users see it: the encoder of \<open>encoder.go\<close> over the hash table of
  \<open>hashtable.go\<close> and the decoder of \<open>decoder.go\<close>.
\<close>

section \<open>Round trip\<close>

text \<open>
  C9. The LZMA round trip. Data is written to the encoder in any pieces, the encoder is closed
  without an error, and its buffer is then empty; the bytes it wrote, followed by anything, are
  given to a decoder whose dictionary has the capacity of the encoder's or holds all the data, and
  that knows the size or looks for the end marker the encoder has written. Then
  reads of any sizes return the data in order, a read that goes past its end returns the rest with
  \<open>io.EOF\<close>, and every call returns. (A stream without a marker is not read back when it is empty;
  \<open>newEncoder\<close> is used that way only for a header of size 0.)
\<close>

theorem lzma_stream_roundtrip:
  assumes "newState p = Inr s" "newEncoderDict (int cap) bs = Inr ed" "newHashTable (int cap) 4 = Inr t"
    and "write_chunks hash_matcher ps (newEncoder lbw s ed t marker) = Some (None, e1)"
    and "encoder_Close hash_matcher e1 = Some (None, e2)" "encoderDict_Buffered (e_dict e2) = 0"
    and "written (lb_BW lbw) = []" "br_data r = enc_written (e_re e2) @ rest"
    and "newDecoderDict dcap = Inr dd" "int cap \<le> dcap \<or> int (length (concat ps)) \<le> dcap" "maxMatchLen \<le> dcap" "maxMatchLen \<le> bs"
    and "sz = -1 \<and> marker \<or> sz = int (length (concat ps)) \<and> (marker \<or> concat ps \<noteq> [])"
    and "\<forall>k \<in> set ks. 0 < k" "0 < n"
  shows "\<exists>d d' d''. newDecoder r s dd sz = Inr d \<and> read_sizes ks d = Some (take (sum_list ks) (concat ps), d') \<and>
    decoder_Read n d' = Some (take n (drop (sum_list ks) (concat ps)),
      if length (concat ps) < sum_list ks + n then Some (LzIo EOF) else None, d'')"
proof -
  have t: "table_ok (nat (int cap)) 0 t" using newHashTable_ok [OF assms(3)] by simp
  obtain F where F: "enc_written (e_re e2) = written (lb_BW lbw) @ F"
    "\<And>T r. br_data r = F @ T \<Longrightarrow> \<exists>S d. newDecoder r s dd sz = Inr d \<and> reading S 0 d \<and> all_bytes S = concat ps"
    by (rule hash.stream_reading [OF assms(1,2) t assms(4-6,9-13)]) blast
  from F(2) [of r rest] assms(7,8) F(1) obtain S d where
    d: "newDecoder r s dd sz = Inr d" "reading S 0 d" "all_bytes S = concat ps" by auto
  from reads_reading [OF d(2) assms(14,15)] d(1) show ?thesis unfolding d(3) by blast
qed

section \<open>Termination\<close>

lemma close_returns:
  assumes "newState p = Inr s" "newEncoderDict (int cap) bs = Inr ed" "newHashTable (int cap) 4 = Inr t" "maxMatchLen \<le> bs"
    and w: "write_chunks hash_matcher ps (newEncoder lbw s ed t marker) = Some (None, e)"
  shows "\<exists>r. encoder_Close hash_matcher e = Some r"
proof -
  have t: "table_ok (nat (int cap)) 0 t" using newHashTable_ok [OF assms(3)] by simp
  obtain R where "hash.encoding s (newRangeEncoder lbw) [] R ([] @ concat ps) e"
    using hash.write_chunks_ok [OF hash.encoding_new [OF assms(1,2) t assms(4), of lbw marker], of ps] w by auto
  from hash.Close_ok [OF this] show ?thesis by blast
qed

text \<open>
  C27. The loops of the encoder end: whatever is written, and whether or not the limit of the writer
  is reached, every \<open>Write\<close> returns, and so does \<open>Close\<close> after writes without an error.
\<close>

theorem encoder_returns:
  assumes "newState p = Inr s" "newEncoderDict (int cap) bs = Inr ed" "newHashTable (int cap) 4 = Inr t" "maxMatchLen \<le> bs"
  shows "\<exists>err e. write_chunks hash_matcher ps (newEncoder lbw s ed t marker) = Some (err, e) \<and>
    (err = None \<longrightarrow> (\<exists>r. encoder_Close hash_matcher e = Some r))"
proof -
  have t: "table_ok (nat (int cap)) 0 t" using newHashTable_ok [OF assms(3)] by simp
  from hash.write_chunks_ok [OF hash.encoding_new [OF assms(1,2) t assms(4), of lbw marker], of ps] obtain err e where
    w: "write_chunks hash_matcher ps (newEncoder lbw s ed t marker) = Some (err, e)" by blast
  moreover have "\<exists>r. encoder_Close hash_matcher e = Some r" if "err = None"
    using close_returns [OF assms] w that by simp
  ultimately show ?thesis by blast
qed

section \<open>A run\<close>

definition sample_props :: Properties where "sample_props = \<lparr>LC = 0, LP = 0, PB = 0\<rparr>"
definition sample_state :: lzma_state where "sample_state = (case newState sample_props of Inr s \<Rightarrow> s)"
definition sample_dict :: encoderDict where "sample_dict = (case newEncoderDict 1 273 of Inr d \<Rightarrow> d)"
definition sample_table :: hashTable where "sample_table = (case newHashTable 1 4 of Inr t \<Rightarrow> t)"
definition sample_decoder :: decoderDict where "sample_decoder = (case newDecoderDict 273 of Inr d \<Rightarrow> d)"
definition sample_writer :: LimitedByteWriter where "sample_writer = new_limited \<lparr>written = [], quota = None\<rparr>"

lemma sample_start:
  "newHashTable 1 4 = Inr sample_table" "newState sample_props = Inr sample_state"
  "newEncoderDict 1 273 = Inr sample_dict" "newDecoderDict 273 = Inr sample_decoder"
  by code_simp+

definition sample_written :: "lzma_error option \<times> hashTable encoder" where
  "sample_written = (case write_chunks hash_matcher [[5]] (newEncoder sample_writer sample_state sample_dict sample_table False) of
     Some r \<Rightarrow> r)"

definition sample_closed :: "lzma_error option \<times> hashTable encoder" where
  "sample_closed = (case encoder_Close hash_matcher (snd sample_written) of Some r \<Rightarrow> r)"

lemma sample_run:
  "write_chunks hash_matcher [[5]] (newEncoder sample_writer sample_state sample_dict sample_table False) =
     Some (None, snd sample_written)"
  by code_simp

lemma sample_no_error: "fst sample_closed = None"
  by code_simp

lemma sample_empty: "encoderDict_Buffered (e_dict (snd sample_closed)) = 0"
  by code_simp

lemma sample_close:
  "encoder_Close hash_matcher (snd sample_written) = Some (None, snd sample_closed)"
  "encoderDict_Buffered (e_dict (snd sample_closed)) = 0"
proof -
  obtain r where "encoder_Close hash_matcher (snd sample_written) = Some r"
    using close_returns [OF sample_start(2), of 1 273, OF _ _ _ sample_run]
    by (auto simp: sample_start maxMatchLen_def minMatchLen_def)
  then show "encoder_Close hash_matcher (snd sample_written) = Some (None, snd sample_closed)"
    "encoderDict_Buffered (e_dict (snd sample_closed)) = 0"
    using sample_no_error sample_empty by (cases r, simp add: sample_closed_def)+
qed

theorem lzma_stream_roundtrip_witness:
  "\<exists>d d' d''. newDecoder \<lparr>br_data = enc_written (e_re (snd sample_closed)) @ [9], br_end = EOF\<rparr>
      sample_state sample_decoder 1 = Inr d \<and>
    read_sizes [1] d = Some (take (sum_list [1]) (concat [[5]]), d') \<and>
    decoder_Read 3 d' = Some (take 3 (drop (sum_list [1]) (concat [[5]])),
      if length (concat [[5 :: byte]]) < sum_list [1] + 3 then Some (LzIo EOF) else None, d'')"
  by (rule lzma_stream_roundtrip [where cap = 1 and bs = 273 and dcap = 273 and rest = "[9]", OF sample_start(2) _ _ sample_run sample_close])
    (simp_all add: sample_start sample_writer_def new_limited_def maxMatchLen_def minMatchLen_def)

theorem encoder_returns_witness:
  "\<exists>err e. write_chunks hash_matcher [[1, 2], [], [3]] (newEncoder sample_writer sample_state sample_dict sample_table True) = Some (err, e) \<and>
    (err = None \<longrightarrow> (\<exists>r. encoder_Close hash_matcher e = Some r))"
  by (rule encoder_returns [where cap = 1 and bs = 273, OF sample_start(2)]) (simp_all add: sample_start maxMatchLen_def minMatchLen_def)

end
