(* ===== verification/LzmaHeader.thy ===== *)
theory LzmaHeader
  imports LzmaDict
begin

text \<open>
  \<open>internal/xz/lzma\<close>: the header of an LZMA file (\<open>header.go\<close>) and the chunk headers of LZMA2 with
  the automaton of the chunk types and the coding of dictionary capacities (\<open>header2.go\<close>).
  A named \<open>byte\<close> type with constants is a datatype, so that its invalid values, which the code
  rejects or ends on with a panic, do not exist here.
\<close>

section \<open>The header of a file\<close>

definition uint32LE :: "byte list \<Rightarrow> u32" where "uint32LE b = le_word (take 4 b)"
definition uint64LE :: "byte list \<Rightarrow> u64" where "uint64LE b = le_word (take 8 b)"
definition putUint32LE :: "u32 \<Rightarrow> byte list" where "putUint32LE x = le_bytes 4 x"
definition putUint64LE :: "u64 \<Rightarrow> byte list" where "putUint64LE x = le_bytes 8 x"

definition noHeaderSize :: u64 where "noHeaderSize = push_bit 64 1 - 1"
definition HeaderLen :: nat where "HeaderLen = 13"

text \<open>\<open>hdr_Size\<close> is an \<open>int64\<close>.\<close>

record Header =
  hdr_Properties :: Properties
  hdr_DictSize :: u32
  hdr_Size :: int

definition marshalBinary :: "Header \<Rightarrow> lzma_error + byte list" where
  "marshalBinary h =
     (case Properties_verify (hdr_Properties h) of
        Some err \<Rightarrow> Inl err
      | None \<Rightarrow>
          if \<not> uint (hdr_DictSize h) \<le> MaxDictCap then Inl (LzError ''DictCap out of range'')
          else
            let s = (if hdr_Size h > 0 then of_int (hdr_Size h) else noHeaderSize)
            in Inr (Properties_Code (hdr_Properties h) # putUint32LE (hdr_DictSize h) @ putUint64LE s))"

definition unmarshalBinary :: "byte list \<Rightarrow> lzma_error + Header" where
  "unmarshalBinary data =
     (if length data \<noteq> HeaderLen then Inl (LzError ''data has wrong length'')
      else sbind (PropertiesForCode (data ! 0)) (\<lambda>p.
        let dictSize = uint32LE (drop 1 data); s = uint64LE (drop 5 data) in
        if uint dictSize < 0 then Inl (LzError ''dictionary capacity exceeds maximum integer'')
        else if s = noHeaderSize then Inr \<lparr>hdr_Properties = p, hdr_DictSize = dictSize, hdr_Size = -1\<rparr>
        else if sint s < 0 then Inl (LzError ''uncompressed size out of int64 range'')
        else Inr \<lparr>hdr_Properties = p, hdr_DictSize = dictSize, hdr_Size = sint s\<rparr>))"

definition validDictSize :: "int \<Rightarrow> bool" where
  "validDictSize dictcap =
     (dictcap = MaxDictCap \<or>
      list_ex (\<lambda>n. dictcap = 2 ^ n \<or> dictcap = 2 ^ n + 2 ^ (n - 1)) [10..<32])"

definition ValidHeader :: "byte list \<Rightarrow> bool" where
  "ValidHeader data =
     (case unmarshalBinary data of
        Inl _ \<Rightarrow> False
      | Inr h \<Rightarrow> validDictSize (uint (hdr_DictSize h)) \<and> (hdr_Size h < 0 \<or> hdr_Size h \<le> 2 ^ 38))"

section \<open>Chunk headers\<close>

definition maxCompressed :: int where "maxCompressed = 2 ^ 16"
definition maxUncompressed :: int where "maxUncompressed = 2 ^ 21"

datatype chunkType = cEOS | cUD | cU | cL | cLR | cLRN | cLRND

definition hEOS :: byte where "hEOS = 0"
definition hUD :: byte where "hUD = 1"
definition hU :: byte where "hU = 2"
definition hL :: byte where "hL = push_bit 7 1"
definition hLR :: byte where "hLR = push_bit 7 1 OR push_bit 5 1"
definition hLRN :: byte where "hLRN = push_bit 7 1 OR push_bit 6 1"
definition hLRND :: byte where "hLRND = push_bit 7 1 OR push_bit 6 1 OR push_bit 5 1"

definition errHeaderByte :: lzma_error where "errHeaderByte = LzError ''unsupported chunk header byte''"

definition headerChunkType :: "byte \<Rightarrow> lzma_error + chunkType" where
  "headerChunkType h =
     (if h AND hL = 0 then
        (if h = hEOS then Inr cEOS
         else if h = hUD then Inr cUD
         else if h = hU then Inr cU
         else Inl errHeaderByte)
      else
        let k = h AND hLRND in
        if k = hL then Inr cL
        else if k = hLR then Inr cLR
        else if k = hLRN then Inr cLRN
        else if k = hLRND then Inr cLRND
        else Inl errHeaderByte)"

definition uncompressedHeaderLen :: nat where "uncompressedHeaderLen = 3"

fun headerLen :: "chunkType \<Rightarrow> nat" where
  "headerLen cEOS = 1"
| "headerLen cU = uncompressedHeaderLen"
| "headerLen cUD = uncompressedHeaderLen"
| "headerLen cL = 5"
| "headerLen cLR = 5"
| "headerLen cLRN = 6"
| "headerLen cLRND = 6"

record chunkHeader =
  ch_ctype :: chunkType
  ch_uncompressed :: u32
  ch_compressed :: u16
  ch_props :: Properties

definition uint16BE :: "byte list \<Rightarrow> u16" where "uint16BE p = be_word (take 2 p)"
definition putUint16BE :: "u16 \<Rightarrow> byte list" where "putUint16BE x = be_bytes 2 x"

definition noProps :: Properties where "noProps = \<lparr>LC = 0, LP = 0, PB = 0\<rparr>"

text \<open>The comparisons \<open>c <= cU\<close> and \<open>c <= cLR\<close> of the code.\<close>

definition uncompressed :: "chunkType \<Rightarrow> bool" where
  "uncompressed c = (c = cU \<or> c = cUD)"

definition no_props :: "chunkType \<Rightarrow> bool" where
  "no_props c = (uncompressed c \<or> c = cEOS \<or> c = cL \<or> c = cLR)"

definition chunk_UnmarshalBinary :: "byte list \<Rightarrow> lzma_error + chunkHeader" where
  "chunk_UnmarshalBinary data =
     (if data = [] then Inl (LzError ''no data'')
      else sbind (headerChunkType (data ! 0)) (\<lambda>c.
        let n = headerLen c in
        if length data < n then Inl (LzError ''incomplete data'')
        else if length data > n then Inl (LzError ''invalid data length'')
        else
          let h = \<lparr>ch_ctype = c, ch_uncompressed = 0, ch_compressed = 0, ch_props = noProps\<rparr> in
          if c = cEOS then Inr h
          else
            let h = h\<lparr>ch_uncompressed := ucast (uint16BE (drop 1 data))\<rparr> in
            if uncompressed c then Inr h
            else
              let h = h\<lparr>ch_uncompressed := ch_uncompressed h OR push_bit 16 (ucast (data ! 0 AND NOT hLRND)),
                        ch_compressed := uint16BE (drop 3 data)\<rparr> in
              if no_props c then Inr h
              else sbind (PropertiesForCode (data ! 5)) (\<lambda>p. Inr (h\<lparr>ch_props := p\<rparr>))))"

fun headerByte :: "chunkType \<Rightarrow> byte" where
  "headerByte cEOS = hEOS"
| "headerByte cUD = hUD"
| "headerByte cU = hU"
| "headerByte cL = hL"
| "headerByte cLR = hLR"
| "headerByte cLRN = hLRN"
| "headerByte cLRND = hLRND"

definition chunk_MarshalBinary :: "chunkHeader \<Rightarrow> lzma_error + byte list" where
  "chunk_MarshalBinary h =
     (case Properties_verify (ch_props h) of
        Some err \<Rightarrow> Inl err
      | None \<Rightarrow>
          let c = ch_ctype h; b = headerByte c;
              size_bytes = putUint16BE (ucast (ch_uncompressed h)) in
          if c = cEOS then Inr [b]
          else if uncompressed c then Inr (b # size_bytes)
          else
            let b = b OR (ucast (drop_bit 16 (ch_uncompressed h)) AND NOT hLRND);
                data = b # size_bytes @ putUint16BE (ch_compressed h) in
            if no_props c then Inr data
            else Inr (data @ [Properties_Code (ch_props h)]))"

text \<open>\<open>io.ReadFull\<close> into a slice of length \<open>n\<close>.\<close>

definition br_ReadFull :: "nat \<Rightarrow> (byte_reader, byte list) lz" where
  "br_ReadFull n r =
     (if n \<le> length (br_data r) then (Inr (take n (br_data r)), r\<lparr>br_data := drop n (br_data r)\<rparr>)
      else (Inl (LzIo (if br_data r \<noteq> [] \<and> br_end r = EOF then UnexpectedEOF else br_end r)),
            r\<lparr>br_data := []\<rparr>))"

definition readChunkHeader :: "(byte_reader, chunkHeader) lz" where
  "readChunkHeader =
     lbind (br_ReadFull 1) (\<lambda>p.
       case headerChunkType (p ! 0) of
         Inl err \<Rightarrow> lfail err
       | Inr c \<Rightarrow>
           lbind (br_ReadFull (headerLen c - 1)) (\<lambda>q.
             case chunk_UnmarshalBinary (p @ q) of Inl err \<Rightarrow> lfail err | Inr h \<Rightarrow> lret h))"

section \<open>The automaton of the chunk types\<close>

text \<open>The states are the letters of the code: \<open>S\<close>, \<open>L\<close>, \<open>R\<close>, \<open>U\<close> and \<open>T\<close>.\<close>

datatype chunkState = Start_S | Lzma_L | Reset_R | Uncompressed_U | Stop_T

definition errChunkType :: lzma_error where "errChunkType = LzError ''unexpected chunk type''"

fun chunkState_next :: "chunkState \<Rightarrow> chunkType \<Rightarrow> lzma_error + chunkState" where
  "chunkState_next Start_S c =
     (case c of cEOS \<Rightarrow> Inr Stop_T | cUD \<Rightarrow> Inr Reset_R | cLRND \<Rightarrow> Inr Lzma_L | _ \<Rightarrow> Inl errChunkType)"
| "chunkState_next Lzma_L c =
     (case c of cEOS \<Rightarrow> Inr Stop_T | cUD \<Rightarrow> Inr Reset_R | cU \<Rightarrow> Inr Uncompressed_U | _ \<Rightarrow> Inr Lzma_L)"
| "chunkState_next Reset_R c =
     (case c of cEOS \<Rightarrow> Inr Stop_T | cUD \<Rightarrow> Inr Reset_R | cU \<Rightarrow> Inr Reset_R
      | cLRN \<Rightarrow> Inr Lzma_L | cLRND \<Rightarrow> Inr Lzma_L | _ \<Rightarrow> Inl errChunkType)"
| "chunkState_next Uncompressed_U c =
     (case c of cEOS \<Rightarrow> Inr Stop_T | cUD \<Rightarrow> Inr Reset_R | cU \<Rightarrow> Inr Uncompressed_U | _ \<Rightarrow> Inr Lzma_L)"
| "chunkState_next Stop_T c = Inl errChunkType"

fun defaultChunkType :: "chunkState \<Rightarrow> chunkType" where
  "defaultChunkType Start_S = cLRND"
| "defaultChunkType Lzma_L = cL"
| "defaultChunkType Uncompressed_U = cL"
| "defaultChunkType Reset_R = cLRN"
| "defaultChunkType Stop_T = cEOS"

section \<open>Dictionary capacities\<close>

definition lzma2_maxDictCap :: int where "lzma2_maxDictCap = 2 ^ 32 - 1"
definition maxDictCapCode :: byte where "maxDictCapCode = 40"

definition decodeDictCap :: "byte \<Rightarrow> int" where
  "decodeDictCap c = push_bit (11 + unat (drop_bit 1 c AND 0x1f)) (2 OR (uint c AND 1))"

definition DecodeDictCap :: "byte \<Rightarrow> lzma_error + int" where
  "DecodeDictCap c =
     (if c \<ge> maxDictCapCode
      then if c = maxDictCapCode then Inr lzma2_maxDictCap else Inl (LzError ''invalid dictionary size code'')
      else Inr (decodeDictCap c))"

lemma middle:
  fixes a b :: byte
  assumes "a < b"
  shows "a \<le> a + drop_bit 1 (b - a)" "a + drop_bit 1 (b - a) < b"
proof -
  have ab: "unat a < unat b" using assms by (simp add: word_less_nat_alt)
  have "unat (drop_bit 1 (b - a)) = (unat b - unat a) div 2"
    using ab by (simp add: unat_drop unat_sub word_less_nat_alt word_le_nat_alt)
  moreover have "unat a + (unat b - unat a) div 2 < 2 ^ LENGTH(8)"
    using ab unsigned_less [of b, where 'a = nat] by linarith
  ultimately have "unat (a + drop_bit 1 (b - a)) = unat a + (unat b - unat a) div 2"
    by (simp add: unat_add_small)
  then show "a \<le> a + drop_bit 1 (b - a)" "a + drop_bit 1 (b - a) < b"
    using ab unfolding word_le_nat_alt word_less_nat_alt by linarith+
qed

lemma after_middle: "a \<le> c \<Longrightarrow> c < b \<Longrightarrow> unat b - unat (c + 1) < unat b - unat a" for a b c :: byte
  using unat_add_small [of c 1] unsigned_less [of b, where 'a = nat]
  by (simp add: word_le_nat_alt word_less_nat_alt)

lemma search_measure:
  fixes a b :: byte
  assumes "a < b" and c: "c = a + drop_bit 1 (b - a)"
  shows "unat c - unat a < unat b - unat a" "unat b - unat (c + 1) < unat b - unat a"
  using middle [OF assms(1)] after_middle [of a c b] assms by (auto simp: word_less_nat_alt word_le_nat_alt)

function search_dict_cap :: "int \<Rightarrow> byte \<Rightarrow> byte \<Rightarrow> byte" where
  "search_dict_cap n a b =
     (if a < b
      then let c = a + drop_bit 1 (b - a); m = decodeDictCap c in
        if n \<le> m
        then if n = m then c else search_dict_cap n a c
        else search_dict_cap n (c + 1) b
      else a)"
  by pat_completeness auto
termination
  by (relation "measure (\<lambda>(n, a, b). unat b - unat a)")
    (simp_all only: wf_measure in_measure case_prod_conv search_measure)

declare search_dict_cap.simps [simp del]

definition EncodeDictCap :: "int \<Rightarrow> byte" where
  "EncodeDictCap n = search_dict_cap n 0 40"

end
