(* ===== verification/LzmaBinTree.thy ===== *)
theory LzmaBinTree
  imports LzmaStream "HOL-Library.Monad_Syntax"
begin

text \<open>
  \<open>internal/xz/lzma/bintree.go\<close>: the matcher that keeps the words of the dictionary in a binary
  search tree whose nodes are the entries of a ring. \<open>None\<close> is a call that does not return a value:
  an index out of range or another panic, or a walk through the tree that does not end.
\<close>

section \<open>Nodes\<close>

record node =
  nd_x :: u32
  nd_p :: u32
  nd_l :: u32
  nd_r :: u32

definition wordLen :: int where "wordLen = 4"

record binTree =
  bt_node :: "node list"
  bt_hoff :: int
  bt_front :: u32
  bt_root :: u32
  bt_x :: u32

definition null_index :: u32 where "null_index = push_bit 32 1 - 1"

definition newBinTree :: "int \<Rightarrow> lzma_error + binTree" where
  "newBinTree capacity =
     (if capacity < 1 then Inl (LzError ''capacity must be larger than zero'')
      else if capacity \<ge> uint null_index then Inl (LzError ''capacity must less 2^{32}-1'')
      else Inr \<lparr>bt_node = replicate (nat capacity) \<lparr>nd_x = 0, nd_p = 0, nd_l = 0, nd_r = 0\<rparr>,
        bt_hoff = - wordLen, bt_front = 0, bt_root = null_index, bt_x = 0\<rparr>)"

definition get_node :: "binTree \<Rightarrow> u32 \<Rightarrow> node option" where
  "get_node t v = (if unat v < length (bt_node t) then Some (bt_node t ! unat v) else None)"

definition upd_node :: "u32 \<Rightarrow> (node \<Rightarrow> node) \<Rightarrow> binTree \<Rightarrow> binTree option" where
  "upd_node v f t =
     do { n \<leftarrow> get_node t v; Some (t\<lparr>bt_node := (bt_node t)[unat v := f n]\<rparr>) }"

text \<open>A pointer to the root of the tree, or to the left or right link of a node.\<close>

datatype link = Root_Link | Left_Link u32 | Right_Link u32

fun set_link :: "link \<Rightarrow> u32 \<Rightarrow> binTree \<Rightarrow> binTree option" where
  "set_link Root_Link u t = Some (t\<lparr>bt_root := u\<rparr>)"
| "set_link (Left_Link p) u t = upd_node p (\<lambda>n. n\<lparr>nd_l := u\<rparr>) t"
| "set_link (Right_Link p) u t = upd_node p (\<lambda>n. n\<lparr>nd_r := u\<rparr>) t"

section \<open>Insertion and removal\<close>

text \<open>The loop of \<open>add\<close>: the place for a new node with the value \<open>x\<close> below the node \<open>p\<close>.\<close>

partial_function (option) find_place :: "binTree \<Rightarrow> u32 \<Rightarrow> u32 \<Rightarrow> (u32 \<times> link) option" where
  "find_place t x p =
     do { pn \<leftarrow> get_node t p;
          if x \<le> nd_x pn
          then (if nd_l pn = null_index then Some (p, Left_Link p) else find_place t x (nd_l pn))
          else (if nd_r pn = null_index then Some (p, Right_Link p) else find_place t x (nd_r pn)) }"

definition bt_add :: "u32 \<Rightarrow> binTree \<Rightarrow> binTree option" where
  "bt_add v t =
     do { t \<leftarrow> upd_node v (\<lambda>n. n\<lparr>nd_l := null_index, nd_r := null_index\<rparr>) t;
          if bt_root t = null_index
          then upd_node v (\<lambda>n. n\<lparr>nd_p := null_index\<rparr>) (t\<lparr>bt_root := v\<rparr>)
          else do {
            vn \<leftarrow> get_node t v;
            (p, place) \<leftarrow> find_place t (nd_x vn) (bt_root t);
            t \<leftarrow> set_link place v t;
            upd_node v (\<lambda>n. n\<lparr>nd_p := p\<rparr>) t } }"

definition bt_parent :: "u32 \<Rightarrow> binTree \<Rightarrow> (u32 \<times> link) option" where
  "bt_parent v t =
     (if bt_root t = v then Some (null_index, Root_Link)
      else do { vn \<leftarrow> get_node t v; let p = nd_p vn; pn \<leftarrow> get_node t p;
                Some (p, if nd_l pn = v then Left_Link p else Right_Link p) })"

text \<open>The last node on the way to the right, as in \<open>remove\<close> and \<open>max\<close>, and on the way to the left.\<close>

partial_function (option) rightmost :: "binTree \<Rightarrow> u32 \<Rightarrow> u32 option" where
  "rightmost t v =
     do { vn \<leftarrow> get_node t v; if nd_r vn = null_index then Some v else rightmost t (nd_r vn) }"

partial_function (option) leftmost :: "binTree \<Rightarrow> u32 \<Rightarrow> u32 option" where
  "leftmost t v =
     do { vn \<leftarrow> get_node t v; if nd_l vn = null_index then Some v else leftmost t (nd_l vn) }"

definition bt_remove :: "u32 \<Rightarrow> binTree \<Rightarrow> binTree option" where
  "bt_remove v t =
     do { vn \<leftarrow> get_node t v;
          (p, ptr) \<leftarrow> bt_parent v t;
          let l = nd_l vn; let r = nd_r vn;
          if l = null_index
          then do { t \<leftarrow> set_link ptr r t;
                    if r \<noteq> null_index then upd_node r (\<lambda>n. n\<lparr>nd_p := p\<rparr>) t else Some t }
          else if r = null_index
          then do { t \<leftarrow> set_link ptr l t; upd_node l (\<lambda>n. n\<lparr>nd_p := p\<rparr>) t }
          else do {
            ln \<leftarrow> get_node t l;
            if nd_r ln = null_index
            then do { t \<leftarrow> upd_node l (\<lambda>n. n\<lparr>nd_r := r\<rparr>) t;
                      t \<leftarrow> upd_node r (\<lambda>n. n\<lparr>nd_p := l\<rparr>) t;
                      t \<leftarrow> upd_node l (\<lambda>n. n\<lparr>nd_p := p\<rparr>) t;
                      set_link ptr l t }
            else do {
              u \<leftarrow> rightmost t (nd_r ln);
              un \<leftarrow> get_node t u;
              let ul = nd_l un; let up = nd_p un;
              t \<leftarrow> upd_node up (\<lambda>n. n\<lparr>nd_r := ul\<rparr>) t;
              t \<leftarrow> (if ul \<noteq> null_index then upd_node ul (\<lambda>n. n\<lparr>nd_p := up\<rparr>) t else Some t);
              t \<leftarrow> upd_node u (\<lambda>n. n\<lparr>nd_l := l, nd_r := r\<rparr>) t;
              t \<leftarrow> upd_node l (\<lambda>n. n\<lparr>nd_p := u\<rparr>) t;
              t \<leftarrow> upd_node r (\<lambda>n. n\<lparr>nd_p := u\<rparr>) t;
              t \<leftarrow> set_link ptr u t;
              upd_node u (\<lambda>n. n\<lparr>nd_p := p\<rparr>) t } } }"

definition bt_WriteByte :: "byte \<Rightarrow> binTree \<Rightarrow> binTree option" where
  "bt_WriteByte c t =
     (let t = t\<lparr>bt_x := push_bit 8 (bt_x t) OR ucast c, bt_hoff := bt_hoff t + 1\<rparr> in
      if bt_hoff t < 0 then Some t
      else
        let v = bt_front t in
        do { t \<leftarrow> (if uint v < bt_hoff t then bt_remove v t else Some t);
             t \<leftarrow> upd_node v (\<lambda>n. n\<lparr>nd_x := bt_x t\<rparr>) t;
             t \<leftarrow> bt_add v t;
             let f = bt_front t + 1;
             Some (t\<lparr>bt_front := if uint f \<ge> int (length (bt_node t)) then 0 else f\<rparr>) })"

fun bt_Write :: "byte list \<Rightarrow> binTree \<Rightarrow> binTree option" where
  "bt_Write [] t = Some t"
| "bt_Write (c # p) t = do { t \<leftarrow> bt_WriteByte c t; bt_Write p t }"

section \<open>Searching\<close>

text \<open>The loop of \<open>search\<close>, with the nodes \<open>a\<close> and \<open>b\<close> found so far.\<close>

partial_function (option) search_from :: "binTree \<Rightarrow> u32 \<Rightarrow> u32 \<Rightarrow> u32 \<Rightarrow> u32 \<Rightarrow> (u32 \<times> u32) option" where
  "search_from t x a b v =
     do { vn \<leftarrow> get_node t v;
          if x \<le> nd_x vn
          then (if x = nd_x vn then Some (v, v)
                else if nd_l vn = null_index then Some (a, v)
                else search_from t x a v (nd_l vn))
          else (if nd_r vn = null_index then Some (v, b)
                else search_from t x v b (nd_r vn)) }"

definition bt_search :: "binTree \<Rightarrow> u32 \<Rightarrow> u32 \<Rightarrow> (u32 \<times> u32) option" where
  "bt_search t v x =
     (if v = null_index then Some (null_index, null_index) else search_from t x null_index null_index v)"

definition bt_max :: "binTree \<Rightarrow> u32 \<Rightarrow> u32 option" where
  "bt_max t v = (if v = null_index then Some null_index else rightmost t v)"

definition bt_min :: "binTree \<Rightarrow> u32 \<Rightarrow> u32 option" where
  "bt_min t v = (if v = null_index then Some null_index else leftmost t v)"

text \<open>The climb of \<open>pred\<close> (and of \<open>succ\<close>) to the first node that is entered from the right (left).\<close>

partial_function (option) climb :: "(node \<Rightarrow> u32) \<Rightarrow> binTree \<Rightarrow> u32 \<Rightarrow> u32 option" where
  "climb side t v =
     do { vn \<leftarrow> get_node t v; let p = nd_p vn;
          if p = null_index then Some null_index
          else do { pn \<leftarrow> get_node t p; if side pn = v then Some p else climb side t p } }"

definition bt_pred :: "binTree \<Rightarrow> u32 \<Rightarrow> u32 option" where
  "bt_pred t v =
     (if v = null_index then Some null_index
      else do { vn \<leftarrow> get_node t v; u \<leftarrow> bt_max t (nd_l vn);
                if u \<noteq> null_index then Some u else climb nd_r t v })"

definition bt_succ :: "binTree \<Rightarrow> u32 \<Rightarrow> u32 option" where
  "bt_succ t v =
     (if v = null_index then Some null_index
      else do { vn \<leftarrow> get_node t v; u \<leftarrow> bt_min t (nd_r vn);
                if u \<noteq> null_index then Some u else climb nd_l t v })"

definition xval :: "byte list \<Rightarrow> u32" where
  "xval a =
     (case a of
        [] \<Rightarrow> 0
      | [a0] \<Rightarrow> push_bit 24 (ucast a0)
      | [a0, a1] \<Rightarrow> push_bit 16 (ucast a1) OR push_bit 24 (ucast a0)
      | [a0, a1, a2] \<Rightarrow> push_bit 8 (ucast a2) OR push_bit 16 (ucast a1) OR push_bit 24 (ucast a0)
      | a0 # a1 # a2 # a3 # _ \<Rightarrow>
          ucast a3 OR push_bit 8 (ucast a2) OR push_bit 16 (ucast a1) OR push_bit 24 (ucast a0))"

definition bt_distance :: "binTree \<Rightarrow> u32 \<Rightarrow> int" where
  "bt_distance t v =
     (let dist = uint (bt_front t) - uint v in if dist \<le> 0 then dist + int (length (bt_node t)) else dist)"

section \<open>The next operation\<close>

record matchParams =
  mp_rep :: "u32 list"
  mp_nAccept :: int
  mp_check :: nat
  mp_stopShorter :: bool

text \<open>
  The body of the loop of \<open>match\<close> for a distance: the match so far, and \<open>None\<close> to go on or \<open>Some\<close> of
  the result \<open>accepted\<close>. Outside, \<open>None\<close> is a panic.
\<close>

definition match_step :: "buffer \<Rightarrow> byte list \<Rightarrow> matchParams \<Rightarrow> int \<Rightarrow> match \<Rightarrow> (match \<times> bool option) option" where
  "match_step b data p dist m =
     (let i = int (b_rear b) - dist + m_n m - 1;
          i = (if i < 0 then i + int (length (b_data b))
               else if i \<ge> int (length (b_data b)) then i - int (length (b_data b)) else i);
          stop = (if mp_stopShorter p then Some False else None)
      in
      if m_n m > 0 \<and> (i < 0 \<or> i \<ge> int (length (b_data b)) \<or> m_n m - 1 \<ge> int (length data)) then None
      else if m_n m > 0 \<and> b_data b ! nat i \<noteq> data ! nat (m_n m - 1) then Some (m, stop)
      else
        let n = int (matchLen b (nat dist) data) in
        if n = 0 then Some (m, stop)
        else if n = 1 \<and> of_int (dist - minDistance) \<noteq> mp_rep p ! 0 then Some (m, None)
        else if n < m_n m \<or> (n = m_n m \<and> dist \<ge> m_distance m) then Some (m, None)
        else Some (\<lparr>m_distance = dist, m_n = n\<rparr>, if n \<ge> mp_nAccept p then Some True else None))"

text \<open>The loop of \<open>match\<close>, with room for \<open>k\<close> more checks; an iterator returns a distance and its new state.\<close>

fun bt_match :: "buffer \<Rightarrow> byte list \<Rightarrow> matchParams \<Rightarrow> ('i \<Rightarrow> (int option \<times> 'i) option) \<Rightarrow>
    nat \<Rightarrow> 'i \<Rightarrow> match \<Rightarrow> (match \<times> nat \<times> bool) option" where
  "bt_match b data p iter 0 s m = Some (m, 0, True)"
| "bt_match b data p iter (Suc k) s m =
     do { (d, s) \<leftarrow> iter s;
          case d of
            None \<Rightarrow> Some (m, Suc k, False)
          | Some dist \<Rightarrow> do {
              (m, res) \<leftarrow> match_step b data p dist m;
              case res of
                Some accepted \<Rightarrow> Some (m, k, accepted)
              | None \<Rightarrow> bt_match b data p iter k s m } }"

definition iterSmall :: "int \<Rightarrow> (int option \<times> int) option" where
  "iterSmall i = (let i = i - 1 in Some (if i \<le> 0 then None else Some i, i))"

definition iterEqual :: "binTree \<Rightarrow> u32 \<Rightarrow> u32 \<Rightarrow> (int option \<times> u32) option" where
  "iterEqual t x u =
     (if u = null_index then Some (None, u)
      else do { un \<leftarrow> get_node t u; (u', v) \<leftarrow> bt_search t (nd_l un) x;
                Some (Some (bt_distance t u), if u' \<noteq> v then null_index else u') })"

definition iterSucc :: "binTree \<Rightarrow> u32 \<Rightarrow> (int option \<times> u32) option" where
  "iterSucc t v =
     (if v = null_index then Some (None, v)
      else do { v' \<leftarrow> bt_succ t v; Some (Some (bt_distance t v), v') })"

definition iterPred :: "binTree \<Rightarrow> u32 \<Rightarrow> (int option \<times> u32) option" where
  "iterPred t u =
     (if u = null_index then Some (None, u)
      else do { u' \<leftarrow> bt_pred t u; Some (Some (bt_distance t u), u') })"

definition bt_best :: "u32 list \<Rightarrow> buffer \<Rightarrow> byte list \<Rightarrow> binTree \<Rightarrow> match option" where
  "bt_best r b data t =
     (let p = \<lparr>mp_rep = r, mp_nAccept = maxMatchLen, mp_check = 32, mp_stopShorter = False\<rparr> in
      do { (m, k, accepted) \<leftarrow> bt_match b data p iterSmall (mp_check p) 4 \<lparr>m_distance = 0, m_n = 0\<rparr>;
           if accepted then Some m
           else do {
             let x = xval data;
             (u, v) \<leftarrow> bt_search t (bt_root t) x;
             if u = v \<and> length data = 4
             then do { (m, _) \<leftarrow> bt_match b data p (iterEqual t x) k u m; Some m }
             else do {
               let p = p\<lparr>mp_stopShorter := True\<rparr>;
               (m, k, accepted) \<leftarrow> bt_match b data p (iterSucc t) k v m;
               if accepted then Some m
               else do { (m, _) \<leftarrow> bt_match b data p (iterPred t) k u m; Some m } } } })"

definition bt_NextOp :: "u32 list \<Rightarrow> encoderDict \<Rightarrow> binTree \<Rightarrow> (operation \<times> binTree) option" where
  "bt_NextOp r d t =
     (case Peek (ed_buf d) (nat maxMatchLen) of
        [] \<Rightarrow> None
      | c # cs \<Rightarrow>
          do { m \<leftarrow> bt_best r (ed_buf d) (c # cs) t;
               Some (if m_n m = 0 then literalOperation c else matchOperation m, t) })"

definition tree_matcher :: "binTree matcher" where
  "tree_matcher = \<lparr>m_NextOp = bt_NextOp, m_Write = bt_Write\<rparr>"

declare find_place.simps [code] rightmost.simps [code] leftmost.simps [code] search_from.simps [code] climb.simps [code]

end
