(* ===== verification/LzmaFile.thy ===== *)
theory LzmaFile
  imports LzmaHeader LzmaHash LzmaBinTree
begin

text \<open>
  \<open>internal/xz/lzma\<close>: the choice of the matcher (\<open>matchalgorithm.go\<close>) and the LZMA file format with
  its header, written by \<open>Writer\<close> (\<open>writer.go\<close>) and read by \<open>Reader\<close> (\<open>reader.go\<close>). The destination
  of a writer is a \<open>byte_writer\<close>, the source of a reader a \<open>byte_reader\<close>; the \<open>bufio.Writer\<close> the
  code puts around a destination that cannot write single bytes is not modelled.
\<close>

section \<open>The match algorithm\<close>

datatype matchAlgorithm = HashTable4 | BinaryTree | Unknown_Algorithm byte

definition errUnsupportedMatchAlgorithm :: lzma_error where
  "errUnsupportedMatchAlgorithm = LzError ''unsupported match algorithm value''"

fun matchAlgorithm_verify :: "matchAlgorithm \<Rightarrow> lzma_error option" where
  "matchAlgorithm_verify HashTable4 = None"
| "matchAlgorithm_verify BinaryTree = None"
| "matchAlgorithm_verify (Unknown_Algorithm _) = Some errUnsupportedMatchAlgorithm"

datatype any_matcher = Hash_Table hashTable | Binary_Tree binTree

fun matchAlgorithm_new :: "matchAlgorithm \<Rightarrow> int \<Rightarrow> lzma_error + any_matcher" where
  "matchAlgorithm_new HashTable4 dictCap = sbind (newHashTable dictCap 4) (\<lambda>t. Inr (Hash_Table t))"
| "matchAlgorithm_new BinaryTree dictCap = sbind (newBinTree dictCap) (\<lambda>t. Inr (Binary_Tree t))"
| "matchAlgorithm_new (Unknown_Algorithm _) dictCap = Inl errUnsupportedMatchAlgorithm"

fun any_NextOp :: "u32 list \<Rightarrow> encoderDict \<Rightarrow> any_matcher \<Rightarrow> (operation \<times> any_matcher) option" where
  "any_NextOp r d (Hash_Table t) = map_option (\<lambda>(op, t). (op, Hash_Table t)) (ht_NextOp r d t)"
| "any_NextOp r d (Binary_Tree t) = map_option (\<lambda>(op, t). (op, Binary_Tree t)) (bt_NextOp r d t)"

fun any_Write :: "byte list \<Rightarrow> any_matcher \<Rightarrow> any_matcher option" where
  "any_Write p (Hash_Table t) = map_option Hash_Table (ht_Write p t)"
| "any_Write p (Binary_Tree t) = map_option Binary_Tree (bt_Write p t)"

definition any_ops :: "any_matcher matcher" where
  "any_ops = \<lparr>m_NextOp = any_NextOp, m_Write = any_Write\<rparr>"

section \<open>The configuration of a writer\<close>

record WriterConfig =
  c_Properties :: "Properties option"
  c_DictCap :: int
  c_BufSize :: int
  c_Matcher :: matchAlgorithm
  c_SizeInHeader :: bool
  c_Size :: int
  c_EOSMarker :: bool

definition WriterConfig_fill :: "WriterConfig \<Rightarrow> WriterConfig" where
  "WriterConfig_fill c =
     (let c = (if c_Properties c = None then c\<lparr>c_Properties := Some \<lparr>LC = 3, LP = 0, PB = 2\<rparr>\<rparr> else c);
          c = (if c_DictCap c = 0 then c\<lparr>c_DictCap := 8 * 1024 * 1024\<rparr> else c);
          c = (if c_BufSize c = 0 then c\<lparr>c_BufSize := 4096\<rparr> else c);
          c = (if c_Size c > 0 then c\<lparr>c_SizeInHeader := True\<rparr> else c)
      in if \<not> c_SizeInHeader c then c\<lparr>c_EOSMarker := True\<rparr> else c)"

text \<open>\<open>Verify\<close> fills in the defaults and returns the configuration that is used from then on.\<close>

definition WriterConfig_Verify :: "WriterConfig \<Rightarrow> lzma_error + WriterConfig" where
  "WriterConfig_Verify c =
     (let c = WriterConfig_fill c in
      case c_Properties c of
        None \<Rightarrow> Inl (LzError ''WriterConfig has no Properties set'')
      | Some p \<Rightarrow>
      (case Properties_verify p of
         Some err \<Rightarrow> Inl err
       | None \<Rightarrow>
           if \<not> (MinDictCap \<le> c_DictCap c \<and> c_DictCap c \<le> MaxDictCap)
           then Inl (LzError ''dictionary capacity is out of range'')
           else if \<not> maxMatchLen \<le> c_BufSize c then Inl (LzError ''lookahead buffer size too small'')
           else if c_SizeInHeader c \<and> c_Size c < 0 then Inl (LzError ''negative size not supported'')
           else if \<not> c_SizeInHeader c \<and> \<not> c_EOSMarker c then Inl (LzError ''EOS marker is required'')
           else case matchAlgorithm_verify (c_Matcher c) of Some err \<Rightarrow> Inl err | None \<Rightarrow> Inr c))"

definition WriterConfig_header :: "WriterConfig \<Rightarrow> Properties \<Rightarrow> Header" where
  "WriterConfig_header c p =
     \<lparr>hdr_Properties = p, hdr_DictSize = of_int (c_DictCap c),
      hdr_Size = if c_SizeInHeader c then c_Size c else -1\<rparr>"

section \<open>The writer\<close>

record Writer =
  w_h :: Header
  w_e :: "any_matcher encoder"

text \<open>\<open>Write\<close> of the destination: as many bytes as its quota allows, and an error if these are not all.\<close>

definition bw_Write :: "byte list \<Rightarrow> byte_writer \<Rightarrow> lzma_error option \<times> byte_writer" where
  "bw_Write data w =
     (case quota w of
        None \<Rightarrow> (None, w\<lparr>written := written w @ data\<rparr>)
      | Some q \<Rightarrow>
          (if length data \<le> q then None else Some (LzIo (Failed ''write'')),
           w\<lparr>written := written w @ take q data, quota := Some (q - length data)\<rparr>))"

text \<open>The destination is shared with the range encoder.\<close>

definition on_dest :: "(byte_writer \<Rightarrow> lzma_error option \<times> byte_writer) \<Rightarrow> 'm encoder \<Rightarrow> lzma_error option \<times> 'm encoder" where
  "on_dest f e =
     (case f (lb_BW (re_lbw (e_re e))) of
        (err, w) \<Rightarrow> (err, e\<lparr>e_re := (e_re e)\<lparr>re_lbw := (re_lbw (e_re e))\<lparr>lb_BW := w\<rparr>\<rparr>\<rparr>))"

definition writeHeader :: "Writer \<Rightarrow> lzma_error option \<times> Writer" where
  "writeHeader w =
     (case marshalBinary (w_h w) of
        Inl err \<Rightarrow> (Some err, w)
      | Inr data \<Rightarrow> (case on_dest (bw_Write data) (w_e w) of (err, e) \<Rightarrow> (err, w\<lparr>w_e := e\<rparr>)))"

definition NewWriter :: "WriterConfig \<Rightarrow> byte_writer \<Rightarrow> lzma_error + Writer" where
  "NewWriter c lzma =
     sbind (WriterConfig_Verify c) (\<lambda>c.
       case c_Properties c of
         None \<Rightarrow> Inl LzPanic
       | Some p \<Rightarrow>
       (let h = WriterConfig_header c p in
        sbind (newState (hdr_Properties h)) (\<lambda>state.
        sbind (matchAlgorithm_new (c_Matcher c) (uint (hdr_DictSize h))) (\<lambda>m.
        sbind (newEncoderDict (uint (hdr_DictSize h)) (c_BufSize c)) (\<lambda>dict.
        (case writeHeader \<lparr>w_h = h, w_e = newEncoder (new_limited lzma) state dict m (c_EOSMarker c)\<rparr> of
           (Some err, _) \<Rightarrow> Inl err
         | (None, w) \<Rightarrow> Inr w))))))"

definition buffered_total :: "'m encoder \<Rightarrow> int" where
  "buffered_total e = Compressed e + int (encoderDict_Buffered (e_dict e))"

definition Writer_Write :: "byte list \<Rightarrow> Writer \<Rightarrow> (nat \<times> lzma_error option \<times> Writer) option" where
  "Writer_Write p w =
     (let m = (let m = hdr_Size (w_h w) - buffered_total (w_e w) in if m < 0 then 0 else m);
          full = hdr_Size (w_h w) \<ge> 0 \<and> m < int (length p);
          q = (if full then take (nat m) p else p)
      in case encoder_Write any_ops q (w_e w) of
           None \<Rightarrow> None
         | Some (n, werr, e) \<Rightarrow>
             Some (n, if werr \<noteq> None then werr else if full then Some ErrNoSpace else None, w\<lparr>w_e := e\<rparr>))"

definition Writer_Close :: "Writer \<Rightarrow> (lzma_error option \<times> Writer) option" where
  "Writer_Close w =
     (if hdr_Size (w_h w) \<ge> 0 \<and> buffered_total (w_e w) \<noteq> hdr_Size (w_h w) then Some (Some errSize, w)
      else case encoder_Close any_ops (w_e w) of
             None \<Rightarrow> None
           | Some (err, e) \<Rightarrow> Some (err, w\<lparr>w_e := e\<rparr>))"

section \<open>The reader\<close>

record Reader =
  r_header :: Header
  r_headerOrig :: Header
  r_d :: decoder

definition ReaderConfig_fill :: "int \<Rightarrow> int" where
  "ReaderConfig_fill dictCap = (if dictCap = 0 then 2 ^ 31 - 1 else dictCap)"

definition ReaderConfig_Verify :: "int \<Rightarrow> lzma_error + int" where
  "ReaderConfig_Verify dictCap =
     (let dictCap = ReaderConfig_fill dictCap in
      if \<not> (MinDictCap \<le> dictCap \<and> dictCap \<le> MaxDictCap)
      then Inl (LzError ''dictionary capacity is out of range'') else Inr dictCap)"

definition maxStreamSize :: int where "maxStreamSize = 2 ^ 50"

text \<open>The size of the dictionary for a header: at least \<open>MinDictCap\<close>, and no more than the file needs.\<close>

definition dict_size :: "Header \<Rightarrow> int" where
  "dict_size h =
     (let d = uint (hdr_DictSize h); d = (if d < MinDictCap then MinDictCap else d);
          d = (if hdr_Size h \<ge> 0 \<and> hdr_Size h < d then hdr_Size h else d)
      in if d < MinDictCap then MinDictCap else d)"

text \<open>The configuration is its only field, the limit for the size of the dictionary.\<close>

definition NewReader :: "int \<Rightarrow> byte_reader \<Rightarrow> lzma_error + Reader" where
  "NewReader dictCap lzma =
     sbind (ReaderConfig_Verify dictCap) (\<lambda>dictCap.
       case br_ReadFull HeaderLen lzma of
         (Inl err, _) \<Rightarrow> Inl (if err = LzIo EOF then LzError ''unexpected EOF'' else err)
       | (Inr data, lzma) \<Rightarrow>
           sbind (unmarshalBinary data) (\<lambda>h.
             if dictCap < uint (hdr_DictSize h)
             then Inl (LzError ''header dictionary size exceeds configured dictionary capacity'')
             else if hdr_Size h > maxStreamSize then Inl (LzError ''stream size exceeds a pebibyte'')
             else
               sbind (newState (hdr_Properties h)) (\<lambda>state.
               sbind (newDecoderDict (dict_size h)) (\<lambda>dict.
               sbind (newDecoder lzma state dict (hdr_Size h)) (\<lambda>d.
                 Inr \<lparr>r_header = h\<lparr>hdr_DictSize := of_int (dict_size h)\<rparr>, r_headerOrig = h, r_d = d\<rparr>)))))"

definition Reader_Header :: "Reader \<Rightarrow> Header" where
  "Reader_Header r = r_headerOrig r"

definition Reader_EOSMarker :: "Reader \<Rightarrow> bool" where
  "Reader_EOSMarker r = d_eosMarker (r_d r)"

definition Reader_Read :: "nat \<Rightarrow> Reader \<Rightarrow> (byte list \<times> lzma_error option \<times> Reader) option" where
  "Reader_Read k r =
     (case decoder_Read k (r_d r) of None \<Rightarrow> None | Some (p, err, d) \<Rightarrow> Some (p, err, r\<lparr>r_d := d\<rparr>))"

end
