(* ===== verification/LzmaHeaderProps.thy ===== *)
theory LzmaHeaderProps
  imports LzmaHeader
begin

text \<open>The headers of LZMA and LZMA2, the chunk automaton and the dictionary capacity codes.\<close>

section \<open>The header of a file\<close>

lemma sint_of_int_64: "0 \<le> z \<Longrightarrow> z < 2 ^ 63 \<Longrightarrow> sint (of_int z :: u64) = z"
  by (simp add: sint_uint uint_word_of_int take_bit_int_eq_self signed_take_bit_int_eq_self)

lemma size_not_unknown: "0 \<le> z \<Longrightarrow> z < 2 ^ 63 \<Longrightarrow> (of_int z :: u64) \<noteq> noHeaderSize"
  using sint_of_int_64 [of z] by (auto simp: noHeaderSize_def)

lemma unmarshal_marshal:
  assumes "marshalBinary h = Inr data" "hdr_Size h < 2 ^ 63"
  shows "length data = HeaderLen \<and>
    unmarshalBinary data = Inr (h\<lparr>hdr_Size := if hdr_Size h > 0 then hdr_Size h else -1\<rparr>)"
proof -
  define s where "s = (if hdr_Size h > 0 then of_int (hdr_Size h) else noHeaderSize)"
  have v: "Properties_verify (hdr_Properties h) = None"
    and data: "data = Properties_Code (hdr_Properties h) # le_bytes 4 (hdr_DictSize h) @ le_bytes 8 s"
    using assms(1) by (auto simp: marshalBinary_def putUint32LE_def putUint64LE_def s_def split: option.splits if_splits)
  have parts: "uint32LE (drop 1 data) = hdr_DictSize h" "uint64LE (drop 5 data) = s"
    by (simp_all add: data uint32LE_def uint64LE_def)
  have "s = noHeaderSize \<longleftrightarrow> \<not> hdr_Size h > 0" "hdr_Size h > 0 \<Longrightarrow> sint s = hdr_Size h"
    using size_not_unknown [of "hdr_Size h"] sint_of_int_64 [of "hdr_Size h"] assms(2) by (auto simp: s_def)
  then show ?thesis
    unfolding unmarshalBinary_def parts by (simp add: data HeaderLen_def Properties_Code_decodes [OF v])
qed

text \<open>
  C31. The header of an LZMA file that is written is read back, with the size that stands for
  "unknown" in place of a size that is not positive.
\<close>

theorem file_header_roundtrip:
  assumes "marshalBinary h = Inr data" "hdr_Size h < 2 ^ 63"
  shows "length data = HeaderLen \<and>
    unmarshalBinary data = Inr (h\<lparr>hdr_Size := if hdr_Size h > 0 then hdr_Size h else -1\<rparr>)"
  by (rule unmarshal_marshal [OF assms])

theorem file_header_roundtrip_witness:
  "let h = \<lparr>hdr_Properties = \<lparr>LC = 3, LP = 0, PB = 2\<rparr>, hdr_DictSize = 0x800000, hdr_Size = 1000\<rparr> in
   length (case marshalBinary h of Inr d \<Rightarrow> d) = HeaderLen \<and>
     unmarshalBinary (case marshalBinary h of Inr d \<Rightarrow> d) = Inr (h\<lparr>hdr_Size := if hdr_Size h > 0 then hdr_Size h else -1\<rparr>)"
  unfolding Let_def by (rule file_header_roundtrip) (simp_all add: marshalBinary_def Properties_verify_def lclppb_defs MaxDictCap_def)

section \<open>Chunk headers\<close>


lemma mask_split: "(b AND m) OR (b AND NOT m) = b" for b m :: byte
  by (rule bit_word_eqI) (auto simp: bit_simps)

lemma mask_over:
  fixes b m k l :: byte
  assumes "k AND m = k"
  shows "(k OR (b AND NOT m)) AND m = k" "(k OR (b AND NOT m)) AND NOT m = b AND NOT m"
    "k AND l = l \<Longrightarrow> (k OR (b AND NOT m)) AND l = l OR (b AND NOT m AND l)"
proof -
  have k: "bit k n \<Longrightarrow> bit m n" for n using assms by (metis bit_and_iff)
  show "(k OR (b AND NOT m)) AND m = k" by (rule bit_word_eqI) (auto simp: bit_simps k)
  show "(k OR (b AND NOT m)) AND NOT m = b AND NOT m" by (rule bit_word_eqI) (auto simp: bit_simps k)
  assume "k AND l = l"
  then have "bit l n \<Longrightarrow> bit k n" for n by (metis bit_and_iff)
  then show "(k OR (b AND NOT m)) AND l = l OR (b AND NOT m AND l)" by (intro bit_word_eqI) (auto simp: bit_simps)
qed

lemma header_bytes:
  "hL AND hLRND = hL" "hLR AND hLRND = hLR" "hLRN AND hLRND = hLRN" "hLRND AND hLRND = hLRND"
  "hL AND hL = hL" "hLR AND hL = hL" "hLRN AND hL = hL" "hLRND AND hL = hL"
  "hL \<noteq> 0" "hL \<noteq> hLR" "hL \<noteq> hLRN" "hL \<noteq> hLRND" "hLR \<noteq> hLRN" "hLR \<noteq> hLRND" "hLRN \<noteq> hLRND" "hLR \<noteq> hL" "hLRN \<noteq> hL" "hLRND \<noteq> hL"
  "hLRN \<noteq> hLR" "hLRND \<noteq> hLR" "hLRND \<noteq> hLRN"
  "hEOS AND hL = 0" "hUD AND hL = 0" "hU AND hL = 0" "hEOS \<noteq> hUD" "hEOS \<noteq> hU" "hUD \<noteq> hEOS" "hUD \<noteq> hU" "hU \<noteq> hEOS" "hU \<noteq> hUD"
  "NOT hLRND AND hL = 0"
  by (code_simp)+

lemma headerChunkType_plain: "c = cEOS \<or> uncompressed c \<Longrightarrow> headerChunkType (headerByte c) = Inr c"
  by (auto simp: uncompressed_def headerChunkType_def header_bytes)

lemma headerChunkType_lzma:
  assumes "c \<noteq> cEOS" "\<not> uncompressed c"
  shows "headerChunkType (headerByte c OR (b AND NOT hLRND)) = Inr c"
    "(headerByte c OR (b AND NOT hLRND)) AND NOT hLRND = b AND NOT hLRND"
proof -
  have k: "headerByte c AND hLRND = headerByte c" "headerByte c AND hL = hL"
    using assms by (cases c; simp add: uncompressed_def header_bytes)+
  have top: "(headerByte c OR (b AND NOT hLRND)) AND hL \<noteq> 0"
    unfolding mask_over(3) [OF k] by (simp add: header_bytes)
  show "(headerByte c OR (b AND NOT hLRND)) AND NOT hLRND = b AND NOT hLRND" by (rule mask_over(2) [OF k(1)])
  show "headerChunkType (headerByte c OR (b AND NOT hLRND)) = Inr c"
    using top assms unfolding headerChunkType_def mask_over(1) [OF k(1)] Let_def
    by (cases c) (simp_all add: uncompressed_def header_bytes)
qed

lemma headerChunkType_ok:
  assumes "headerChunkType b = Inr c"
  shows "c = cEOS \<or> uncompressed c \<Longrightarrow> headerByte c = b"
    "c \<noteq> cEOS \<Longrightarrow> \<not> uncompressed c \<Longrightarrow> headerByte c OR (b AND NOT hLRND) = b"
  using assms mask_split [of b hLRND]
  by (auto simp: headerChunkType_def uncompressed_def Let_def split: if_splits)


text \<open>What the chunk of a type carries: an uncompressed chunk has a size of 16 bits, a compressed one of 21.\<close>

definition carried :: "chunkHeader \<Rightarrow> chunkHeader" where
  "carried h =
     (let c = ch_ctype h; u = ch_uncompressed h in
      \<lparr>ch_ctype = c,
        ch_uncompressed = (if c = cEOS then 0 else if uncompressed c then take_bit 16 u else take_bit 21 u),
        ch_compressed = (if c = cEOS \<or> uncompressed c then 0 else ch_compressed h),
        ch_props = (if no_props c then noProps else ch_props h)\<rparr>)"

lemma size_parts:
  "ucast (ucast u :: u16) OR push_bit 16 (ucast ((ucast (drop_bit 16 u) :: byte) AND NOT hLRND)) = take_bit 21 (u :: u32)"
proof -
  have m: "b AND NOT hLRND = take_bit 5 b" for b :: byte
    by (rule bit_word_eqI) (auto simp: bit_simps hLRND_def less_Suc_eq numeral_eq_Suc)
  show ?thesis unfolding m by (rule bit_word_eqI) (auto simp: bit_simps)
qed

lemma uint16BE_put [simp]: "uint16BE (putUint16BE x @ ys) = x" "uint16BE (putUint16BE x) = x"
  by (simp_all add: uint16BE_def putUint16BE_def)

lemma length_putUint16BE [simp]: "length (putUint16BE x) = 2"
  by (simp add: putUint16BE_def)

lemma putUint16BE_get: "length q = 2 \<Longrightarrow> putUint16BE (uint16BE (q @ ys)) = q"
  using be_bytes_be_word [of q, where 'a = 16] by (simp add: uint16BE_def putUint16BE_def)

lemma chunk_Unmarshal_Marshal:
  assumes "chunk_MarshalBinary h = Inr data"
  shows "length data = headerLen (ch_ctype h)" "chunk_UnmarshalBinary data = Inr (carried h)"
proof -
  define c where "c = ch_ctype h"
  have v: "Properties_verify (ch_props h) = None" using assms by (auto simp: chunk_MarshalBinary_def split: option.splits)
  consider "c = cEOS" | "uncompressed c" "c \<noteq> cEOS" | "\<not> uncompressed c" "c \<noteq> cEOS" by blast
  then have "length data = headerLen c \<and> chunk_UnmarshalBinary data = Inr (carried h)"
  proof cases
    case 1
    then have "data = [headerByte c]" using assms v by (auto simp: chunk_MarshalBinary_def c_def Let_def)
    then show ?thesis using 1 headerChunkType_plain [of c]
      by (auto simp: chunk_UnmarshalBinary_def carried_def c_def no_props_def)
  next
    case 2
    then have d: "data = headerByte c # putUint16BE (ucast (ch_uncompressed h))"
      using assms v by (auto simp: chunk_MarshalBinary_def c_def Let_def)
    have "headerLen c = 3" using 2 by (auto simp: uncompressed_def uncompressedHeaderLen_def)
    moreover have "ucast (ucast u :: u16) = take_bit 16 u" for u :: u32
      by (rule bit_word_eqI) (auto simp: bit_simps)
    ultimately show ?thesis using 2 headerChunkType_plain [of c] unfolding d
      by (auto simp: chunk_UnmarshalBinary_def carried_def c_def [symmetric] no_props_def)
  next
    case 3
    define b where "b = headerByte c OR (ucast (drop_bit 16 (ch_uncompressed h)) AND NOT hLRND)"
    define tail where "tail = (if no_props c then [] else [Properties_Code (ch_props h)])"
    have d: "data = b # putUint16BE (ucast (ch_uncompressed h)) @ putUint16BE (ch_compressed h) @ tail"
      using assms v 3 by (auto simp: chunk_MarshalBinary_def c_def b_def tail_def Let_def)
    have len: "headerLen c = 5 + length tail" using 3 by (cases c) (auto simp: tail_def no_props_def uncompressed_def)
    have parts: "headerChunkType b = Inr c" "b AND NOT hLRND = ucast (drop_bit 16 (ch_uncompressed h)) AND NOT hLRND"
      unfolding b_def using headerChunkType_lzma [of c] 3 by blast+
    have nth: "data ! 0 = b" "drop (Suc 0) data = putUint16BE (ucast (ch_uncompressed h)) @ putUint16BE (ch_compressed h) @ tail"
      "drop 3 data = putUint16BE (ch_compressed h) @ tail" "\<not> no_props c \<Longrightarrow> data ! 5 = Properties_Code (ch_props h)"
      by (simp_all add: d numeral_eq_Suc tail_def nth_append)
    have "length data = headerLen c" "data \<noteq> []" by (simp_all add: d len)
    then show ?thesis using 3 Properties_Code_decodes [OF v] nth(4) unfolding chunk_UnmarshalBinary_def nth(1-3) parts
      by (auto simp: nth(2,3) parts size_parts carried_def c_def [symmetric] Let_def no_props_def)
  qed
  then show "length data = headerLen (ch_ctype h)" "chunk_UnmarshalBinary data = Inr (carried h)" by (simp_all add: c_def)
qed


lemma size_back:
  fixes p :: u16 and b :: byte
  defines "u \<equiv> ucast p OR push_bit 16 (ucast (b AND NOT hLRND)) :: u32"
  shows "(ucast u :: u16) = p" "(ucast (drop_bit 16 u) :: byte) AND NOT hLRND = b AND NOT hLRND"
proof -
  have m: "b AND NOT hLRND = take_bit 5 b" for b :: byte
    by (rule bit_word_eqI) (auto simp: bit_simps hLRND_def less_Suc_eq numeral_eq_Suc)
  show "(ucast u :: u16) = p" "(ucast (drop_bit 16 u) :: byte) AND NOT hLRND = b AND NOT hLRND"
    unfolding m u_def by (rule bit_word_eqI; auto simp: bit_simps dest: bit_imp_le_length)+
qed

lemma chunk_Marshal_Unmarshal:
  assumes "chunk_UnmarshalBinary data = Inr h"
  shows "chunk_MarshalBinary h = Inr data"
proof -
  obtain b q where data: "data = b # q" using assms by (cases data) (auto simp: chunk_UnmarshalBinary_def)
  from assms obtain c where c: "headerChunkType b = Inr c" "length data = headerLen c"
    by (auto simp: chunk_UnmarshalBinary_def data sbind_Inr_iff Let_def split: if_splits)
  have noProps: "Properties_verify noProps = None" by (simp add: noProps_def verify_None)
  consider "c = cEOS" | "uncompressed c" "c \<noteq> cEOS" | "\<not> uncompressed c" "c \<noteq> cEOS" by blast
  then show ?thesis
  proof cases
    case 1
    then show ?thesis using assms c noProps headerChunkType_ok(1) [OF c(1)]
      by (auto simp: chunk_UnmarshalBinary_def chunk_MarshalBinary_def data)
  next
    case 2
    have q: "length q = 2" using c(2) 2 by (auto simp: data uncompressed_def uncompressedHeaderLen_def)
    have "h = \<lparr>ch_ctype = c, ch_uncompressed = ucast (uint16BE q), ch_compressed = 0, ch_props = noProps\<rparr>"
      using assms c 2 by (auto simp: chunk_UnmarshalBinary_def data Let_def)
    moreover have "ucast (ucast (uint16BE q) :: u32) = uint16BE q" by (rule bit_word_eqI) (auto simp: bit_simps)
    ultimately show ?thesis using 2 noProps headerChunkType_ok(1) [OF c(1)] putUint16BE_get [OF q, of "[]"]
      by (simp add: chunk_MarshalBinary_def data Let_def)
  next
    case 3
    define q1 where "q1 = take 2 q"
    define q2 where "q2 = take 2 (drop 2 q)"
    have len: "length q = (if no_props c then 4 else 5)" using c(2) 3 by (cases c) (auto simp: data no_props_def uncompressed_def)
    have q: "q = q1 @ q2 @ drop 4 q" "length q1 = 2" "length q2 = 2"
      by (simp_all add: q1_def q2_def len) (metis append_take_drop_id drop_drop numeral_Bit0)
    define u where "u = (ucast (uint16BE q) OR push_bit 16 (ucast (b AND NOT hLRND)) :: u32)"
    define H where "H p = \<lparr>ch_ctype = c, ch_uncompressed = u, ch_compressed = uint16BE (drop 2 q), ch_props = p\<rparr>" for p
    have u: "(ucast u :: u16) = uint16BE q" "headerByte c OR (ucast (drop_bit 16 u) AND NOT hLRND) = b"
      using size_back [of "uint16BE q" b] headerChunkType_ok(2) [OF c(1)] 3 by (simp_all add: u_def)
    have put: "putUint16BE (uint16BE q) = q1" "putUint16BE (uint16BE (drop 2 q)) = q2"
      using putUint16BE_get [OF q(2), of "q2 @ drop 4 q"] putUint16BE_get [OF q(3), of "drop 4 q"] q
      by (metis, metis append_eq_conv_conj)
    have "h = H noProps" if "no_props c" using assms c 3 that by (simp add: chunk_UnmarshalBinary_def data H_def u_def)
    moreover have "\<exists>p. PropertiesForCode (data ! 5) = Inr p \<and> h = H p" if "\<not> no_props c"
      using assms c 3 that by (auto simp: chunk_UnmarshalBinary_def data H_def u_def sbind_Inr_iff)
    ultimately consider "no_props c" "h = H noProps" | p where "\<not> no_props c" "PropertiesForCode (data ! 5) = Inr p" "h = H p"
      by blast
    then show ?thesis
    proof cases
      case 1
      then have "q1 @ q2 = q" using q(1) len by simp
      then show ?thesis using 1 3 noProps by (simp add: chunk_MarshalBinary_def H_def Let_def u put data)
    next
      case (2 p)
      have "length (drop 4 q) = 1" using len 2(1) by simp
      then have "drop 4 q = [data ! 5]" by (cases "drop 4 q") (auto simp: data nth_via_drop)
      then have "q1 @ q2 @ [data ! 5] = q" using q(1) by simp
      then show ?thesis using 2 3 PropertiesForCode_ok [OF 2(2)]
        by (simp add: chunk_MarshalBinary_def H_def Let_def u put data)
    qed
  qed
qed

lemma chunk_Unmarshal_length:
  assumes "chunk_UnmarshalBinary data = Inr h"
  shows "length data = headerLen (ch_ctype h)" "headerChunkType (data ! 0) = Inr (ch_ctype h)"
  using assms by (auto simp: chunk_UnmarshalBinary_def sbind_Inr_iff Let_def split: if_splits)

lemma readChunkHeader_append:
  assumes "chunk_UnmarshalBinary data = Inr h" "br_data r = data @ rest"
  shows "readChunkHeader r = (Inr h, r\<lparr>br_data := rest\<rparr>)"
proof -
  note len = chunk_Unmarshal_length [OF assms(1)]
  obtain b q where data: "data = b # q" using assms(1) by (cases data) (auto simp: chunk_UnmarshalBinary_def)
  have "length q = headerLen (ch_ctype h) - 1" using len(1) by (simp add: data)
  then show ?thesis using assms len(2)
    by (simp add: readChunkHeader_def lbind_def br_ReadFull_def data lret_def)
qed

text \<open>
  C30. LZMA2 chunk headers. A header that is written is read back from the stream up to the fields
  its type does not carry, and the stream stands behind it; and the bytes of a header that is
  accepted are the bytes its fields are written as.
\<close>

theorem chunk_header_roundtrip:
  "(\<forall>h data r rest. chunk_MarshalBinary h = Inr data \<and> br_data r = data @ rest \<longrightarrow>
      readChunkHeader r = (Inr (carried h), r\<lparr>br_data := rest\<rparr>)) \<and>
   (\<forall>h data. chunk_UnmarshalBinary data = Inr h \<longrightarrow> chunk_MarshalBinary h = Inr data)"
  using chunk_Unmarshal_Marshal readChunkHeader_append chunk_Marshal_Unmarshal by blast

theorem chunk_header_roundtrip_witness:
  "readChunkHeader \<lparr>br_data = [0xE1, 0x23, 0x45, 0x67, 0x89, 0x5D, 7], br_end = EOF\<rparr> =
     (Inr (carried \<lparr>ch_ctype = cLRND, ch_uncompressed = 0x12345, ch_compressed = 0x6789, ch_props = \<lparr>LC = 3, LP = 0, PB = 2\<rparr>\<rparr>),
      \<lparr>br_data = [0xE1, 0x23, 0x45, 0x67, 0x89, 0x5D, 7], br_end = EOF\<rparr>\<lparr>br_data := [7]\<rparr>)"
proof -
  have "chunk_MarshalBinary \<lparr>ch_ctype = cLRND, ch_uncompressed = 0x12345, ch_compressed = 0x6789, ch_props = \<lparr>LC = 3, LP = 0, PB = 2\<rparr>\<rparr> =
      Inr [0xE1, 0x23, 0x45, 0x67, 0x89, 0x5D]"
    by code_simp
  then show ?thesis
    using chunk_header_roundtrip [THEN conjunct1, rule_format, of _ _ "\<lparr>br_data = [0xE1, 0x23, 0x45, 0x67, 0x89, 0x5D, 7], br_end = EOF\<rparr>" "[7]"]
    by simp
qed

section \<open>Sequences of chunks\<close>

fun run_chunks :: "chunkState \<Rightarrow> chunkType list \<Rightarrow> lzma_error + chunkState" where
  "run_chunks s [] = Inr s"
| "run_chunks s (c # cs) = sbind (chunkState_next s c) (\<lambda>s. run_chunks s cs)"

text \<open>Properties have been set since the last reset of the dictionary by an uncompressed chunk.\<close>

definition has_props :: "chunkType list \<Rightarrow> bool" where
  "has_props pre = (\<exists>c \<in> set (takeWhile (\<lambda>c. c \<noteq> cUD) (rev pre)). c = cLRN \<or> c = cLRND)"

definition chunk_allowed :: "chunkType list \<Rightarrow> chunkType \<Rightarrow> bool" where
  "chunk_allowed pre c =
     (cEOS \<notin> set pre \<and> (pre = [] \<longrightarrow> c = cEOS \<or> c = cUD \<or> c = cLRND) \<and>
      (c = cL \<or> c = cLR \<longrightarrow> has_props pre))"

definition legal_chunks :: "chunkType list \<Rightarrow> bool" where
  "legal_chunks cs = (\<forall>i < length cs. chunk_allowed (take i cs) (cs ! i))"

definition state_after :: "chunkType list \<Rightarrow> chunkState" where
  "state_after cs =
     (if cs = [] then Start_S else if cEOS \<in> set cs then Stop_T
      else if \<not> has_props cs then Reset_R
      else if last cs = cU then Uncompressed_U else Lzma_L)"

lemma run_chunks_snoc: "run_chunks s (cs @ [c]) = sbind (run_chunks s cs) (\<lambda>s. chunkState_next s c)"
  by (induction cs arbitrary: s) (auto simp: sbind_def split: sum.splits)

lemma has_props_simps [simp]: "\<not> has_props []"
  "has_props (cs @ [c]) \<longleftrightarrow> c \<noteq> cUD \<and> (c = cLRN \<or> c = cLRND \<or> has_props cs)"
  by (auto simp: has_props_def)

lemma legal_snoc: "legal_chunks (cs @ [c]) \<longleftrightarrow> legal_chunks cs \<and> chunk_allowed cs c"
  by (auto simp: legal_chunks_def nth_append less_Suc_eq all_conj_distrib)

lemma run_chunks_state:
  "(legal_chunks cs \<longrightarrow> run_chunks Start_S cs = Inr (state_after cs)) \<and>
   (\<not> legal_chunks cs \<longrightarrow> (\<exists>e. run_chunks Start_S cs = Inl e))"
proof (induction cs rule: rev_induct)
  case (snoc c cs)
  show ?case
  proof (cases "legal_chunks cs")
    case True
    then have "run_chunks Start_S (cs @ [c]) = chunkState_next (state_after cs) c"
      using snoc by (simp add: run_chunks_snoc)
    then show ?thesis using True
      by (cases c) (auto simp: legal_snoc chunk_allowed_def state_after_def)
  next
    case False
    then show ?thesis using snoc by (auto simp: run_chunks_snoc legal_snoc)
  qed
qed (simp add: legal_chunks_def state_after_def)

text \<open>
  C29. The automaton of \<open>chunkState\<close> accepts exactly the chunk sequences that LZMA2 allows: the first
  chunk resets the dictionary, nothing follows the end of the stream, and a chunk without new
  properties comes after properties set since the last uncompressed chunk that reset the dictionary.
\<close>

theorem chunk_automaton:
  "(\<exists>s. run_chunks Start_S cs = Inr s) = (\<forall>i < length cs.
     cEOS \<notin> set (take i cs) \<and> (i = 0 \<longrightarrow> cs ! i \<in> {cEOS, cUD, cLRND}) \<and>
     (cs ! i \<in> {cL, cLR} \<longrightarrow> has_props (take i cs)))"
proof -
  have "(\<exists>s. run_chunks Start_S cs = Inr s) = legal_chunks cs" using run_chunks_state [of cs] by auto
  also have "\<dots> = (\<forall>i < length cs. cEOS \<notin> set (take i cs) \<and> (i = 0 \<longrightarrow> cs ! i \<in> {cEOS, cUD, cLRND}) \<and>
     (cs ! i \<in> {cL, cLR} \<longrightarrow> has_props (take i cs)))"
    unfolding legal_chunks_def chunk_allowed_def by auto
  finally show ?thesis .
qed

theorem chunk_automaton_witness:
  "(\<exists>s. run_chunks Start_S [cLRND, cU, cLR, cUD, cLRN, cEOS] = Inr s) = (\<forall>i < length [cLRND, cU, cLR, cUD, cLRN, cEOS].
     cEOS \<notin> set (take i [cLRND, cU, cLR, cUD, cLRN, cEOS]) \<and>
     (i = 0 \<longrightarrow> [cLRND, cU, cLR, cUD, cLRN, cEOS] ! i \<in> {cEOS, cUD, cLRND}) \<and>
     ([cLRND, cU, cLR, cUD, cLRN, cEOS] ! i \<in> {cL, cLR} \<longrightarrow> has_props (take i [cLRND, cU, cLR, cUD, cLRN, cEOS])))"
  by (rule chunk_automaton)

section \<open>Dictionary capacities\<close>

definition cap_of :: "nat \<Rightarrow> int" where
  "cap_of k = (2 + int (k mod 2)) * 2 ^ (11 + k div 2)"

lemma decodeDictCap_cap_of:
  assumes "unat c < 64"
  shows "decodeDictCap c = cap_of (unat c)"
proof -
  have m: "(0x1f :: byte) = mask 5" by (simp add: mask_eq_exp_minus_1)
  have "unat (drop_bit 1 c AND 0x1f) = unat c div 2"
    unfolding m take_bit_eq_mask [symmetric] unsigned_take_bit_eq unat_drop
    using assms by (simp add: take_bit_nat_eq_self)
  moreover have "uint c AND 1 = int (unat c mod 2)" by (simp only: and_one_eq zmod_int) simp
  moreover have "2 OR int (unat c mod 2) = 2 + int (unat c mod 2)"
    using mod2_eq_if [of "unat c"] by (simp split: if_splits)
  ultimately show ?thesis by (simp add: decodeDictCap_def cap_of_def push_bit_eq_mult)
qed

lemma cap_of_Suc: "cap_of k < cap_of (Suc k)"
proof (cases "even k")
  case True
  then obtain j where "k = 2 * j" by blast
  then show ?thesis by (simp add: cap_of_def)
next
  case False
  then obtain j where "k = Suc (2 * j)" by (auto elim: oddE)
  then show ?thesis by (simp add: cap_of_def power_add)
qed

lemma cap_of_less: "j < k \<Longrightarrow> cap_of j < cap_of k"
  by (induction rule: less_Suc_induct) (auto intro: cap_of_Suc)

lemma search_dict_cap_least:
  assumes "a \<le> b" "b \<le> 40" "\<forall>k < unat a. cap_of k < n" "b < 40 \<longrightarrow> n \<le> cap_of (unat b)"
  shows "let c = search_dict_cap n a b in c \<le> 40 \<and> (\<forall>k < unat c. cap_of k < n) \<and> (c < 40 \<longrightarrow> n \<le> cap_of (unat c))"
  using assms
proof (induction n a b rule: search_dict_cap.induct)
  case (1 n a b)
  show ?case
  proof (cases "a < b")
    case True
    define c where "c = a + drop_bit 1 (b - a)"
    have c: "a \<le> c" "c < b" using middle [OF True] by (simp_all add: c_def)
    have "unat b \<le> 40" using 1(4) by (simp add: word_le_nat_alt)
    then have cu: "unat c < 40" "unat c < 64" "unat (c + 1) = Suc (unat c)"
      using c(2) unat_add_small [of c 1] by (simp_all add: word_less_nat_alt)
    have d: "decodeDictCap c = cap_of (unat c)" by (rule decodeDictCap_cap_of [OF cu(2)])
    note unfolded = search_dict_cap.simps [of n a b, folded c_def, unfolded Let_def d]
    consider "n = cap_of (unat c)" | "n < cap_of (unat c)" | "cap_of (unat c) < n" by linarith
    then show ?thesis
    proof cases
      case 1
      then have "search_dict_cap n a b = c" using True unfolded by simp
      then show ?thesis using 1 cu by (auto simp: word_le_nat_alt cap_of_less)
    next
      case 2
      then have "search_dict_cap n a b = search_dict_cap n a c"
        using True unfolded by simp
      then show ?thesis using "1.IH"(1) [OF True c_def refl] 2 d c cu 1(5) by (simp add: word_le_nat_alt)
    next
      case 3
      then have "search_dict_cap n a b = search_dict_cap n (c + 1) b"
        using True unfolded by simp
      moreover have "\<forall>k < unat (c + 1). cap_of k < n"
        using 3 cap_of_less cu(3) by (metis less_Suc_eq less_trans)
      moreover have "c + 1 \<le> b" using c(2) cu(3) by (simp add: word_le_nat_alt word_less_nat_alt)
      ultimately show ?thesis using "1.IH"(2) [OF True c_def refl] 3 d 1(4,6) by simp
    qed
  next
    case False
    moreover have "search_dict_cap n a b = a" using False by (simp add: search_dict_cap.simps [of n a b])
    ultimately have "search_dict_cap n a b = a" "b = a" using 1(3) by simp_all
    then show ?thesis using 1(4-6) by (simp add: Let_def)
  qed
qed

lemma EncodeDictCap_least_code:
  assumes "n \<le> 2 ^ 32 - 1"
  shows "\<exists>m. DecodeDictCap (EncodeDictCap n) = Inr m \<and> n \<le> m \<and>
    (\<forall>c m'. DecodeDictCap c = Inr m' \<and> n \<le> m' \<longrightarrow> EncodeDictCap n \<le> c)"
proof -
  define c where "c = EncodeDictCap n"
  have c: "c \<le> 40" "\<forall>k < unat c. cap_of k < n" "c < 40 \<longrightarrow> n \<le> cap_of (unat c)"
    using search_dict_cap_least [of 0 40 n] by (simp_all add: c_def EncodeDictCap_def Let_def)
  have dec: "DecodeDictCap d = (if d = 40 then Inr (2 ^ 32 - 1) else Inr (cap_of (unat d)))" if "d \<le> 40" for d
    using that decodeDictCap_cap_of [of d]
    by (auto simp: DecodeDictCap_def maxDictCapCode_def lzma2_maxDictCap_def word_le_nat_alt word_unat_eq_iff)
  have "c \<le> d" if "DecodeDictCap d = Inr m'" "n \<le> m'" for d m'
  proof (rule ccontr)
    assume "\<not> c \<le> d"
    then have d: "unat d < unat c" "d \<le> 40" "d \<noteq> 40" using c(1) by (auto simp: word_le_nat_alt)
    then show False using c(2) dec [OF d(2)] that by auto
  qed
  moreover have "n \<le> (if c = 40 then 2 ^ 32 - 1 else cap_of (unat c))" using c(1,3) assms by auto
  ultimately show ?thesis using dec [OF c(1)] unfolding c_def [symmetric] by auto
qed

end
