(* ===== verification/LzmaFileProps.thy ===== *)
theory LzmaFileProps
  imports LzmaFile LzmaHeaderProps LzmaHashProofs
begin

text \<open>LZMA files: what \<open>Writer\<close> writes is read back by \<open>Reader\<close>.\<close>

section \<open>Sequences of calls\<close>

fun Writer_writes :: "byte list list \<Rightarrow> Writer \<Rightarrow> (lzma_error option \<times> Writer) option" where
  "Writer_writes [] w = Some (None, w)"
| "Writer_writes (p # ps) w =
     (case Writer_Write p w of
        None \<Rightarrow> None
      | Some (_, Some err, w) \<Rightarrow> Some (Some err, w)
      | Some (_, None, w) \<Rightarrow> Writer_writes ps w)"

fun Reader_reads :: "nat list \<Rightarrow> Reader \<Rightarrow> (byte list \<times> Reader) option" where
  "Reader_reads [] r = Some ([], r)"
| "Reader_reads (k # ks) r =
     (case Reader_Read k r of
        None \<Rightarrow> None
      | Some (p, _, r) \<Rightarrow> (case Reader_reads ks r of None \<Rightarrow> None | Some (q, r) \<Rightarrow> Some (p @ q, r)))"

lemma Writer_writes_chunks:
  "Writer_writes ps w = Some (None, w') \<Longrightarrow> write_chunks any_ops ps (w_e w) = Some (None, w_e w') \<and> w_h w' = w_h w"
proof (induction ps arbitrary: w)
  case (Cons p ps)
  from Cons.prems obtain n w1 where w: "Writer_Write p w = Some (n, None, w1)" "Writer_writes ps w1 = Some (None, w')"
    by (auto split: option.splits)
  then have "encoder_Write any_ops p (w_e w) = Some (n, None, w_e w1)" "w_h w1 = w_h w"
    by (auto simp: Writer_Write_def Let_def split: option.splits if_splits)
  with Cons.IH [OF w(2)] show ?case by simp
qed simp

lemma Reader_reads_sizes:
  "read_sizes ks (r_d r) = Some (p, d) \<Longrightarrow> Reader_reads ks r = Some (p, r\<lparr>r_d := d\<rparr>)"
proof (induction ks arbitrary: r p)
  case (Cons k ks)
  from Cons.prems obtain q err d1 q' where d: "decoder_Read k (r_d r) = Some (q, err, d1)"
    "read_sizes ks d1 = Some (q', d)" "p = q @ q'"
    by (auto split: option.splits)
  with Cons.IH [of "r\<lparr>r_d := d1\<rparr>" q'] show ?case by (simp add: Reader_Read_def)
qed simp

section \<open>The hash table as one of the matchers\<close>

fun any_ok :: "nat \<Rightarrow> nat \<Rightarrow> any_matcher \<Rightarrow> bool" where
  "any_ok cap R (Hash_Table t) = table_ok cap R t"
| "any_ok cap R (Binary_Tree t) = False"

interpretation any: match_finder any_ops any_ok
proof
  fix cap R m w ed and r :: "u32 list"
  assume m: "any_ok cap R m" and a: "ed_rep w R ed" "ed_capacity ed = cap" "cap < 2 ^ 32" "R < length w" "length r = 4"
  then obtain t where t: "m = Hash_Table t" "table_ok cap R t" by (cases m) auto
  from hash.NextOp [OF t(2) a] obtain op t' where
    "ht_NextOp r ed t = Some (op, t')" "table_ok cap R t'" "next_op_ok cap w R r op" by (auto simp: hash_matcher_def)
  then show "\<exists>op m'. m_NextOp any_ops r ed m = Some (op, m') \<and> any_ok cap R m' \<and> next_op_ok cap w R r op"
    by (intro exI [of _ op] exI [of _ "Hash_Table t'"]) (simp add: any_ops_def t(1))
next
  fix cap R m p
  assume "any_ok cap R m"
  then obtain t where t: "m = Hash_Table t" "table_ok cap R t" by (cases m) auto
  from hash.Writes [OF t(2), of p] obtain t' where "ht_Write p t = Some t'" "table_ok cap (R + length p) t'"
    by (auto simp: hash_matcher_def)
  then show "\<exists>m'. m_Write any_ops p m = Some m' \<and> any_ok cap (R + length p) m'"
    by (intro exI [of _ "Hash_Table t'"]) (simp add: any_ops_def t(1))
qed

section \<open>Opening a writer and a reader\<close>

lemma Verify_ok:
  assumes "WriterConfig_Verify c = Inr c'"
  shows "MinDictCap \<le> c_DictCap c'" "c_DictCap c' \<le> MaxDictCap" "maxMatchLen \<le> c_BufSize c'"
    "c_SizeInHeader c' \<Longrightarrow> 0 \<le> c_Size c'" "\<not> c_SizeInHeader c' \<Longrightarrow> c_EOSMarker c'" "c_Matcher c' = c_Matcher c"
proof -
  from assms have c': "c' = WriterConfig_fill c"
    by (auto simp: WriterConfig_Verify_def Let_def split: option.splits if_splits)
  with assms show "MinDictCap \<le> c_DictCap c'" "c_DictCap c' \<le> MaxDictCap" "maxMatchLen \<le> c_BufSize c'"
    "c_SizeInHeader c' \<Longrightarrow> 0 \<le> c_Size c'" "\<not> c_SizeInHeader c' \<Longrightarrow> c_EOSMarker c'"
    by (auto simp: WriterConfig_Verify_def Let_def split: option.splits if_splits)
  show "c_Matcher c' = c_Matcher c" by (simp add: c' WriterConfig_fill_def Let_def)
qed

lemma dict_cap_word: "MinDictCap \<le> d \<Longrightarrow> d \<le> MaxDictCap \<Longrightarrow> uint (of_int d :: u32) = d"
  by (simp add: MinDictCap_def MaxDictCap_def uint_word_of_int)

lemma bw_Write_ok: "bw_Write data b = (None, b') \<Longrightarrow> written b' = written b @ data"
  by (auto simp: bw_Write_def split: option.splits if_splits)

lemma NewWriter_ok:
  assumes "NewWriter c dest = Inr w"
  obtains c' p hb s m ed lbw where "WriterConfig_Verify c = Inr c'" "w_h w = WriterConfig_header c' p"
    "marshalBinary (w_h w) = Inr hb" "newState p = Inr s" "matchAlgorithm_new (c_Matcher c') (c_DictCap c') = Inr m"
    "newEncoderDict (c_DictCap c') (c_BufSize c') = Inr ed" "w_e w = newEncoder lbw s ed m (c_EOSMarker c')"
    "written (lb_BW lbw) = written dest @ hb"
proof -
  from assms obtain c' p where c': "WriterConfig_Verify c = Inr c'" "c_Properties c' = Some p"
    by (auto simp: NewWriter_def sbind_Inr_iff split: option.splits)
  define h where "h = WriterConfig_header c' p"
  have cap: "uint (hdr_DictSize h) = c_DictCap c'" "hdr_Properties h = p"
    using dict_cap_word Verify_ok(1,2) [OF c'(1)] by (simp_all add: h_def WriterConfig_header_def)
  from assms c' obtain s m ed r where o: "newState p = Inr s" "matchAlgorithm_new (c_Matcher c') (c_DictCap c') = Inr m"
    "newEncoderDict (c_DictCap c') (c_BufSize c') = Inr ed"
    and r: "writeHeader \<lparr>w_h = h, w_e = newEncoder (new_limited dest) s ed m (c_EOSMarker c')\<rparr> = r"
      "(case r of (Some err, _) \<Rightarrow> Inl err | (None, w) \<Rightarrow> Inr w) = Inr w"
    by (simp add: NewWriter_def h_def [symmetric] cap Let_def sbind_Inr_iff) blast
  have w: "writeHeader \<lparr>w_h = h, w_e = newEncoder (new_limited dest) s ed m (c_EOSMarker c')\<rparr> = (None, w)"
    using r by (auto split: prod.splits option.splits)
  from w obtain hb e where hb: "marshalBinary h = Inr hb" "w = \<lparr>w_h = h, w_e = e\<rparr>"
    and e: "on_dest (bw_Write hb) (newEncoder (new_limited dest) s ed m (c_EOSMarker c')) = (None, e)"
    by (auto simp: writeHeader_def split: sum.splits prod.splits)
  from e obtain b where b: "bw_Write hb dest = (None, b)"
    "e = newEncoder ((new_limited dest)\<lparr>lb_BW := b\<rparr>) s ed m (c_EOSMarker c')"
    by (auto simp: on_dest_def newEncoder_def newRangeEncoder_def new_limited_def split: prod.splits)
  show thesis
    by (rule that [of c' p hb s m ed "(new_limited dest)\<lparr>lb_BW := b\<rparr>", OF c'(1) _ _ o])
      (use hb b bw_Write_ok [OF b(1)] in \<open>simp_all add: h_def\<close>)
qed

lemma total_written:
  assumes "any.encoding c0 e0 h0 R w e" "e_start e = 0"
  shows "buffered_total e = int (length w)"
proof -
  have r: "ed_rep w R (e_dict e)" using assms(1) by (simp add: any.encoding_def)
  show ?thesis using assms(2) ed_Pos [OF r] ed_Buffered [OF r] ed_bounds(1) [OF r]
    by (simp add: buffered_total_def Compressed_def)
qed

lemma NewReader_ok:
  assumes "marshalBinary h = Inr hb" "hdr_Size h < 2 ^ 50" "ReaderConfig_Verify lim = Inr dcap"
    "uint (hdr_DictSize h) \<le> dcap" "newState (hdr_Properties h) = Inr s" "br_data r = hb @ bs"
    and h': "h' = h\<lparr>hdr_Size := if hdr_Size h > 0 then hdr_Size h else -1\<rparr>"
    and d: "newDecoderDict (dict_size h') = Inr dd" "newDecoder (r\<lparr>br_data := bs\<rparr>) s dd (hdr_Size h') = Inr d"
  shows "\<exists>rd. NewReader lim r = Inr rd \<and> r_d rd = d"
proof -
  have "hdr_Size h < 2 ^ 63" using assms(2) by simp
  from unmarshal_marshal [OF assms(1) this] have u: "length hb = HeaderLen" "unmarshalBinary hb = Inr h'"
    by (simp_all add: h')
  have "br_ReadFull HeaderLen r = (Inr hb, r\<lparr>br_data := bs\<rparr>)" by (simp add: br_ReadFull_def u(1) [symmetric] assms(6))
  moreover have "hdr_DictSize h' = hdr_DictSize h" "hdr_Properties h' = hdr_Properties h" "hdr_Size h' \<le> maxStreamSize"
    using assms(2) by (simp_all add: h' maxStreamSize_def)
  ultimately show ?thesis using assms(3-5) u(2) d by (simp add: NewReader_def)
qed

section \<open>Round trip\<close>

text \<open>
  C3. LZMA files. Whatever configuration a writer with the hash table is opened with, and in
  whatever pieces the data is written: when no call has failed and the buffer is empty after
  \<open>Close\<close>, a reader with a limit that allows the dictionary reads the data back from the bytes
  written, in reads of any sizes, up to the end of the data. (The exception is an empty file of
  size 0 without a marker, see \<open>Header.marshalBinary\<close>.)
\<close>

theorem lzma_file_roundtrip:
  assumes "NewWriter c dest = Inr w0" "c_Matcher c = HashTable4" "written dest = []"
    and "Writer_writes ps w0 = Some (None, w1)" "Writer_Close w1 = Some (None, w2)"
      "encoderDict_Buffered (e_dict (w_e w2)) = 0"
    and "br_data r = enc_written (e_re (w_e w2)) @ rest" "ReaderConfig_Verify lim = Inr dcap"
      "uint (hdr_DictSize (w_h w0)) \<le> dcap"
    and "length (concat ps) < 2 ^ 50" "concat ps \<noteq> [] \<or> e_marker (w_e w0)"
    and "\<forall>k \<in> set ks. 0 < k" "0 < n"
  shows "\<exists>rd rd' rd''. NewReader lim r = Inr rd \<and> Reader_reads ks rd = Some (take (sum_list ks) (concat ps), rd') \<and>
    Reader_Read n rd' = Some (take n (drop (sum_list ks) (concat ps)),
      if length (concat ps) < sum_list ks + n then Some (LzIo EOF) else None, rd'')"
proof -
  obtain c' p hb s m ed lbw where nw: "WriterConfig_Verify c = Inr c'" "w_h w0 = WriterConfig_header c' p"
    "marshalBinary (w_h w0) = Inr hb" "newState p = Inr s" "matchAlgorithm_new (c_Matcher c') (c_DictCap c') = Inr m"
    "newEncoderDict (c_DictCap c') (c_BufSize c') = Inr ed" "w_e w0 = newEncoder lbw s ed m (c_EOSMarker c')"
    "written (lb_BW lbw) = hb"
    using NewWriter_ok [OF assms(1)] assms(3) by (metis append_Nil)
  note v = Verify_ok [OF nw(1)]
  have m: "any_ok (nat (c_DictCap c')) 0 m"
    using nw(5) newHashTable_ok [of "nat (c_DictCap c')" 4] v(1,6) assms(2) by (auto simp: sbind_Inr_iff MinDictCap_def)
  have run: "write_chunks any_ops ps (w_e w0) = Some (None, w_e w1)" "w_h w1 = w_h w0"
    using Writer_writes_chunks [OF assms(4)] by simp_all
  note en = any.encoding_new [OF nw(4,6) m v(3), of lbw "c_EOSMarker c'"]
  obtain R where e1: "any.encoding s (newRangeEncoder lbw) [] R (concat ps) (w_e w1)" "any.same_frame (w_e w0) (w_e w1)"
    using any.write_chunks_ok [OF en, of ps] run(1) nw(7) by auto
  have "e_start (w_e w1) = 0" using e1(2) nw(6,7)
    by (auto simp: any.same_frame_def newEncoder_def newEncoderDict_def Pos_def split: if_splits)
  note total = total_written [OF e1(1) this]
  have size: "hdr_Size (w_h w0) < 0 \<or> hdr_Size (w_h w0) = int (length (concat ps))"
    and cl: "encoder_Close any_ops (w_e w1) = Some (None, w_e w2)"
    using assms(5) run(2) total by (auto simp: Writer_Close_def split: if_splits option.splits)
  define h' where "h' = (w_h w0)\<lparr>hdr_Size := if hdr_Size (w_h w0) > 0 then hdr_Size (w_h w0) else -1\<rparr>"
  have dsz: "uint (hdr_DictSize (w_h w0)) = c_DictCap c'" "hdr_Properties (w_h w0) = p"
    using dict_cap_word v(1,2) by (simp_all add: nw(2) WriterConfig_header_def)
  have dict: "MinDictCap \<le> dict_size h'" "dict_size h' \<le> MaxDictCap"
    "c_DictCap c' \<le> dict_size h' \<or> int (length (concat ps)) \<le> dict_size h'"
    using v(1,2) size dsz(1) by (auto simp: dict_size_def h'_def Let_def)
  obtain dd where dd: "newDecoderDict (dict_size h') = Inr dd"
    using dict(1,2) by (simp add: newDecoderDict_def MinDictCap_def)
  have big: "maxMatchLen \<le> dict_size h'" using dict(1) by (simp add: MinDictCap_def maxMatchLen_def minMatchLen_def)
  have sz: "hdr_Size h' = -1 \<and> c_EOSMarker c' \<or> hdr_Size h' = int (length (concat ps)) \<and> (c_EOSMarker c' \<or> concat ps \<noteq> [])"
    using size assms(11) v(4,5) nw(2,7) by (auto simp: h'_def newEncoder_def WriterConfig_header_def)
  obtain F where F: "enc_written (e_re (w_e w2)) = written (lb_BW lbw) @ F"
    "\<And>T r. br_data r = F @ T \<Longrightarrow> \<exists>S d. newDecoder r s dd (hdr_Size h') = Inr d \<and> reading S 0 d \<and> all_bytes S = concat ps"
    by (rule any.stream_reading [OF nw(4,6) m _ cl assms(6) dd dict(3) big v(3) sz]) (use run(1) nw(7) in auto)
  have data: "br_data r = hb @ F @ rest" by (simp add: assms(7) F(1) nw(8))
  obtain S d where d: "newDecoder (r\<lparr>br_data := F @ rest\<rparr>) s dd (hdr_Size h') = Inr d" "reading S 0 d" "all_bytes S = concat ps"
    using F(2) [of "r\<lparr>br_data := F @ rest\<rparr>" rest] by auto
  have "hdr_Size (w_h w0) < 2 ^ 50" using size assms(10) by auto
  from NewReader_ok [OF nw(3) this assms(8,9) _ data h'_def dd d(1)] nw(4) dsz(2) obtain rd where
    rd: "NewReader lim r = Inr rd" "r_d rd = d" by auto
  from reads_reading [OF d(2) assms(12,13)] obtain d' d'' where
    "read_sizes ks d = Some (take (sum_list ks) (concat ps), d')"
    "decoder_Read n d' = Some (take n (drop (sum_list ks) (concat ps)),
      if length (concat ps) < sum_list ks + n then Some (LzIo EOF) else None, d'')" unfolding d(3) by blast
  with rd Reader_reads_sizes [of ks rd] show ?thesis
    by (intro exI [of _ rd] exI [of _ "rd\<lparr>r_d := d'\<rparr>"] exI [of _ "rd\<lparr>r_d := d''\<rparr>"]) (simp add: Reader_Read_def)
qed

definition sample_config :: WriterConfig where
  "sample_config = \<lparr>c_Properties = Some \<lparr>LC = 0, LP = 0, PB = 0\<rparr>, c_DictCap = 4096, c_BufSize = 273, c_Matcher = HashTable4,
     c_SizeInHeader = False, c_Size = 0, c_EOSMarker = True\<rparr>"

definition sample_file :: Writer where
  "sample_file = (case NewWriter sample_config \<lparr>written = [], quota = None\<rparr> of Inr w \<Rightarrow> w)"

definition sample_end :: "lzma_error option \<times> Writer" where
  "sample_end = (case Writer_Close sample_file of Some r \<Rightarrow> r)"

lemma sample_file_open: "NewWriter sample_config \<lparr>written = [], quota = None\<rparr> = Inr sample_file"
  by code_simp

lemma sample_file_params: "e_marker (w_e sample_file)" "uint (hdr_DictSize (w_h sample_file)) = 4096"
  by code_simp+

lemma sample_file_closed:
  "Writer_Close sample_file = Some (None, snd sample_end)" "encoderDict_Buffered (e_dict (w_e (snd sample_end))) = 0"
proof -
  have "case Writer_Close sample_file of Some (None, w) \<Rightarrow> encoderDict_Buffered (e_dict (w_e w)) = 0 | _ \<Rightarrow> False"
    by code_simp
  then show "Writer_Close sample_file = Some (None, snd sample_end)" "encoderDict_Buffered (e_dict (w_e (snd sample_end))) = 0"
    by (auto simp: sample_end_def split: option.splits prod.splits)
qed

theorem lzma_file_roundtrip_witness:
  "\<exists>rd rd' rd''. NewReader 0 \<lparr>br_data = enc_written (e_re (w_e (snd sample_end))) @ [7], br_end = EOF\<rparr> = Inr rd \<and>
    Reader_reads [] rd = Some (take (sum_list []) (concat []), rd') \<and>
    Reader_Read 5 rd' = Some (take 5 (drop (sum_list []) (concat [])),
      if length (concat [] :: byte list) < sum_list [] + 5 then Some (LzIo EOF) else None, rd'')"
  by (rule lzma_file_roundtrip [where dcap = "2 ^ 31 - 1", OF sample_file_open _ _ _ sample_file_closed])
    (simp_all add: sample_config_def sample_file_params ReaderConfig_Verify_def ReaderConfig_fill_def MinDictCap_def MaxDictCap_def)

section \<open>The binary tree\<close>

lemma common_prefix_replicate: "common_prefix (replicate a x) (replicate b x) = min a b"
proof (induction a arbitrary: b)
  case (Suc a)
  then show ?case by (cases b) simp_all
qed simp

lemma copy_zero: "0 < n \<Longrightarrow> copy_at (replicate n x) 0 [x] = replicate n x"
  by (cases n) (simp_all add: copy_at_def)

lemma matchLen_zeros:
  assumes "b_data b = replicate L 0" "b_rear b = 0" "dist < L" "0 < dist"
  shows "matchLen b dist [0] = 1"
proof -
  have "prefixLen [0] (replicate k 0) = (if k = 0 then 0 else 1)" for k
    using common_prefix_replicate [of 1 "0 :: byte" k] common_prefix_replicate [of k "0 :: byte" 1]
    by (auto simp: prefixLen_def)
  moreover have "drop (nat (int L - int dist)) (replicate L (0 :: byte)) = replicate dist 0"
    using assms(3) by (simp add: nat_diff_distrib)
  moreover have "prefixLen [] xs = 0" for xs by (simp add: prefixLen_def)
  ultimately show ?thesis using assms(4) by (simp add: matchLen_def assms(1,2) Let_def)
qed

lemma bt_match_none: "0 < k \<Longrightarrow> iter i = Some (None, j) \<Longrightarrow> bt_match b data p iter k i m = Some (m, k, False)"
  by (cases k) simp_all

text \<open>
  C38. With the matcher \<open>BinaryTree\<close> a stream may not be read back. When the first byte is 0, the
  tree proposes a match at distance 1, which compares the byte with the zeros the buffer was made
  with, although nothing has been written before it; the decoder rejects that operation.
\<close>

theorem tree_matcher_before_start:
  assumes "newEncoderDict cap bs = Inr ed" "maxMatchLen \<le> bs" "newBinTree cap = Inr t" "newState p = Inr s"
    and "newDecoderDict dcap = Inr dd"
  shows "\<exists>ed1 op. encoderDict_Write ed [0] = (1, None, ed1) \<and> DictLen ed1 = 0 \<and>
    bt_NextOp (rep s) ed1 t = Some (op, t) \<and> op = matchOperation \<lparr>m_distance = 1, m_n = 1\<rparr> \<and>
    fst (apply_op op (d\<lparr>d_Dict := dd\<rparr>)) = Some (LzError ''distance out of range'')"
proof -
  define L where "L = Suc (nat (cap + bs))"
  have c: "1 \<le> cap" "ed = \<lparr>ed_buf = newBuffer (nat (cap + bs)), ed_head = 0, ed_capacity = nat cap\<rparr>"
    using assms(1) by (auto simp: newEncoderDict_def split: if_splits)
  have L: "274 < L" using c(1) assms(2) by (simp add: L_def maxMatchLen_def minMatchLen_def)
  define b where "b = \<lparr>b_data = replicate L (0 :: byte), b_front = 1, b_rear = 0\<rparr>"
  define ed1 where "ed1 = ed\<lparr>ed_buf := b\<rparr>"
  have zeros: "b_data b = replicate L 0" "b_rear b = 0" by (simp_all add: b_def)
  have "ed_buf ed = \<lparr>b_data = replicate L 0, b_front = 0, b_rear = 0\<rparr>" "DictLen ed = 0"
    by (simp_all add: c(2) newBuffer_def L_def DictLen_def)
  then have w: "encoderDict_Write ed [0] = (1, None, ed1)" using L c(2)
    by (simp add: encoderDict_Write_def encoderDict_Available_def buffer_Available_def buffer_Write_def addIndex_def
      copy_zero min_def ed1_def b_def Let_def)
  have peek: "Peek b (nat maxMatchLen) = [0]"
    using L by (simp add: Peek_def Buffered_def b_def maxMatchLen_def minMatchLen_def Let_def min_def)
  have r: "rep s ! 0 = 0" using assms(4) by (auto simp: newState_def state_Reset_def sbind_Inr_iff)
  have root: "bt_root t = null_index" using assms(3) by (auto simp: newBinTree_def split: if_splits)
  have len: "matchLen b 1 [0] = 1" "matchLen b 2 [0] = 1" "matchLen b 3 [0] = 1"
    by (rule matchLen_zeros [OF zeros]; use L in simp)+
  define p where "p = \<lparr>mp_rep = rep s, mp_nAccept = maxMatchLen, mp_check = 32, mp_stopShorter = False\<rparr>"
  have step: "match_step b [0] p 3 \<lparr>m_distance = 0, m_n = 0\<rparr> = Some (\<lparr>m_distance = 0, m_n = 0\<rparr>, None)"
    "match_step b [0] p 2 \<lparr>m_distance = 0, m_n = 0\<rparr> = Some (\<lparr>m_distance = 0, m_n = 0\<rparr>, None)"
    "match_step b [0] p 1 \<lparr>m_distance = 0, m_n = 0\<rparr> = Some (\<lparr>m_distance = 1, m_n = 1\<rparr>, None)"
    by (simp_all add: match_step_def len len(1) [simplified] p_def r Let_def minDistance_def maxMatchLen_def minMatchLen_def)
  have "bt_match b [0] p iterSmall (Suc (Suc (Suc (Suc k)))) 4 \<lparr>m_distance = 0, m_n = 0\<rparr> =
      Some (\<lparr>m_distance = 1, m_n = 1\<rparr>, Suc k, False)" for k
    by (simp add: iterSmall_def step)
  from this [of 28] have "bt_match b [0] p iterSmall 32 4 \<lparr>m_distance = 0, m_n = 0\<rparr> =
      Some (\<lparr>m_distance = 1, m_n = 1\<rparr>, Suc 28, False)" by (simp add: numeral_eq_Suc)
  then have m: "bt_best (rep s) b [0] t = Some \<lparr>m_distance = 1, m_n = 1\<rparr>"
    by (simp add: bt_best_def p_def root bt_search_def iterSucc_def iterPred_def bt_match_none Let_def)
  have "bt_NextOp (rep s) ed1 t = Some (matchOperation \<lparr>m_distance = 1, m_n = 1\<rparr>, t)"
    using m by (simp add: bt_NextOp_def ed1_def peek)
  moreover have "fst (apply_op (matchOperation \<lparr>m_distance = 1, m_n = 1\<rparr>) (d\<lparr>d_Dict := dd\<rparr>)) =
      Some (LzError ''distance out of range'')"
    using assms(5) by (auto simp: apply_op_def matchOperation_def decoderDict_writeMatch_def newDecoderDict_def dictLen_def Let_def split: if_splits)
  ultimately show ?thesis using w c(2) by (intro exI [of _ ed1] exI) (simp add: ed1_def DictLen_def)
qed

theorem tree_matcher_before_start_witness:
  "\<forall>d :: decoder. \<exists>ed dd ed1 op t (s :: lzma_state). newDecoderDict 4096 = Inr dd \<and> encoderDict_Write ed [0] = (1, None, ed1) \<and> DictLen ed1 = 0 \<and>
    bt_NextOp (rep s) ed1 t = Some (op, t) \<and> op = matchOperation \<lparr>m_distance = 1, m_n = 1\<rparr> \<and>
    fst (apply_op op (d\<lparr>d_Dict := dd\<rparr>)) = Some (LzError ''distance out of range'')"
proof
  fix d :: decoder
  obtain ed t where o: "newEncoderDict 4096 4096 = Inr ed" "newBinTree 4096 = Inr t"
    by (simp add: newEncoderDict_def newBinTree_def MaxDictCap_def null_index_def)
  obtain s where s: "newState \<lparr>LC = 0, LP = 0, PB = 0\<rparr> = Inr s"
    using sample_file_open by (auto simp: NewWriter_def sample_config_def WriterConfig_Verify_def WriterConfig_fill_def
      WriterConfig_header_def sbind_Inr_iff Let_def split: option.splits if_splits)
  obtain dd where dd: "newDecoderDict 4096 = Inr dd" by (simp add: newDecoderDict_def MaxDictCap_def)
  have "maxMatchLen \<le> 4096" by (simp add: maxMatchLen_def minMatchLen_def)
  from tree_matcher_before_start [OF o(1) this o(2) s dd, of d] obtain ed1 op where
    "encoderDict_Write ed [0] = (1, None, ed1)" "DictLen ed1 = 0"
    "bt_NextOp (rep s) ed1 t = Some (op, t)" "op = matchOperation \<lparr>m_distance = 1, m_n = 1\<rparr>"
    "fst (apply_op op (d\<lparr>d_Dict := dd\<rparr>)) = Some (LzError ''distance out of range'')" by blast
  note found = conjI [OF dd conjI [OF this(1) conjI [OF this(2) conjI [OF this(3) conjI [OF this(4,5)]]]]]
  show "\<exists>ed dd ed1 op t (s :: lzma_state). newDecoderDict 4096 = Inr dd \<and> encoderDict_Write ed [0] = (1, None, ed1) \<and> DictLen ed1 = 0 \<and>
    bt_NextOp (rep s) ed1 t = Some (op, t) \<and> op = matchOperation \<lparr>m_distance = 1, m_n = 1\<rparr> \<and>
    fst (apply_op op (d\<lparr>d_Dict := dd\<rparr>)) = Some (LzError ''distance out of range'')"
    by (intro exI) (rule found)
qed

end
