(* ===== verification/LzmaDictSpec.thy ===== *)
theory LzmaDictSpec
  imports LzmaViews
begin

text \<open>
  The contract of the dictionary of the decoder: it behaves as the list of all bytes written so far
  with a read position. \<open>abstract_step\<close> states the operations over that list, without a buffer that
  wraps around; the refinement theorem compares every result of every sequence of operations.
\<close>

section \<open>The operations as values\<close>

datatype dict_op = PutByte byte | CopyBack int int | TakeBytes nat | StartAnew

definition dict_step :: "dict_op \<Rightarrow> decoderDict \<Rightarrow> (lzma_error option \<times> byte list) \<times> decoderDict" where
  "dict_step op d =
     (case op of
        PutByte c \<Rightarrow> (case decoderDict_WriteByte d c of (err, d) \<Rightarrow> ((err, []), d))
      | CopyBack dist n \<Rightarrow> (case decoderDict_writeMatch d dist n of (err, d) \<Rightarrow> ((err, []), d))
      | TakeBytes k \<Rightarrow> (case decoderDict_Read d k of (p, d) \<Rightarrow> ((None, p), d))
      | StartAnew \<Rightarrow> ((None, []), decoderDict_Reset d))"

section \<open>The abstract dictionary\<close>

record abstract_dict =
  ad_old :: "byte list" \<comment> \<open>written before the last reset\<close>
  ad_bytes :: "byte list" \<comment> \<open>written since\<close>
  ad_read :: nat \<comment> \<open>how many of all of them have been read\<close>

definition ad_unread :: "abstract_dict \<Rightarrow> nat" where
  "ad_unread a = length (ad_old a) + length (ad_bytes a) - ad_read a"

text \<open>\<open>cap\<close> is the capacity: so many bytes may be unread, and so far back may a match begin.\<close>

definition abstract_step :: "nat \<Rightarrow> dict_op \<Rightarrow> abstract_dict \<Rightarrow> (lzma_error option \<times> byte list) \<times> abstract_dict" where
  "abstract_step cap op a =
     (case op of
        PutByte c \<Rightarrow>
          if ad_unread a \<ge> cap then ((Some ErrNoSpace, []), a)
          else ((None, []), a\<lparr>ad_bytes := ad_bytes a @ [c]\<rparr>)
      | CopyBack dist n \<Rightarrow>
          if \<not> (0 < dist \<and> dist \<le> int (min cap (length (ad_bytes a)))) then ((Some (LzError ''distance out of range''), []), a)
          else if \<not> (0 < n \<and> n \<le> 273) then ((Some (LzError ''length out of range''), []), a)
          else if n > int (cap - ad_unread a) then ((Some ErrNoSpace, []), a)
          else ((None, []), a\<lparr>ad_bytes := lz_copy (nat dist) (nat n) (ad_bytes a)\<rparr>)
      | TakeBytes k \<Rightarrow>
          let p = take k (drop (ad_read a) (ad_old a @ ad_bytes a)) in ((None, p), a\<lparr>ad_read := ad_read a + length p\<rparr>)
      | StartAnew \<Rightarrow> ((None, []), a\<lparr>ad_old := ad_old a @ ad_bytes a, ad_bytes := []\<rparr>))"

text \<open>The results of a sequence of operations.\<close>

fun dict_run :: "(dict_op \<Rightarrow> 's \<Rightarrow> 'r \<times> 's) \<Rightarrow> dict_op list \<Rightarrow> 's \<Rightarrow> 'r list" where
  "dict_run step [] s = []"
| "dict_run step (op # ops) s = (case step op s of (r, s) \<Rightarrow> r # dict_run step ops s)"

section \<open>Simulation\<close>

definition represents :: "nat \<Rightarrow> abstract_dict \<Rightarrow> decoderDict \<Rightarrow> bool" where
  "represents cap a d \<longleftrightarrow> dd_rep (ad_old a) (ad_bytes a) (ad_read a) d \<and> buffer_Cap (dd_buf d) = cap"

lemma represents_room:
  "represents cap a d \<Longrightarrow> decoderDict_Available d = cap - ad_unread a \<and> ad_unread a \<le> cap"
  using dd_Available [of "ad_old a" "ad_bytes a" "ad_read a" d] dd_repD [of "ad_old a" "ad_bytes a" "ad_read a" d]
  by (auto simp: represents_def ad_unread_def ring_def)

lemma sim_PutByte:
  assumes r: "represents cap a d" and s: "dict_step (PutByte c) d = (res, d')"
  shows "\<exists>a'. abstract_step cap (PutByte c) a = (res, a') \<and> represents cap a' d'"
proof (cases "ad_unread a \<ge> cap")
  case True
  from r have rep: "dd_rep (ad_old a) (ad_bytes a) (ad_read a) d" "buffer_Cap (dd_buf d) = cap" by (simp_all add: represents_def)
  obtain err b where w: "buffer_WriteByte (dd_buf d) c = (err, b)" by fastforce
  have "err = Some ErrNoSpace \<and> b = dd_buf d"
    by (rule ring_WriteByte(1) [OF dd_repD [OF rep(1)] w]) (use True rep(2) in \<open>simp add: ad_unread_def\<close>)
  with w have "buffer_WriteByte (dd_buf d) c = (Some ErrNoSpace, dd_buf d)" by simp
  then show ?thesis using True r s by (auto simp: dict_step_def abstract_step_def decoderDict_WriteByte_def)
next
  case False
  then have "1 \<le> decoderDict_Available d" using represents_room [OF r] by simp
  from r have rep: "dd_rep (ad_old a) (ad_bytes a) (ad_read a) d" "buffer_Cap (dd_buf d) = cap" by (simp_all add: represents_def)
  obtain d1 where d1: "decoderDict_WriteByte d c = (None, d1)" "dd_rep (ad_old a) (ad_bytes a @ [c]) (ad_read a) d1"
    "buffer_Cap (dd_buf d1) = buffer_Cap (dd_buf d)" by (rule dd_WriteByte [OF rep(1) \<open>1 \<le> decoderDict_Available d\<close>])
  then show ?thesis using False s rep(2) by (auto simp: dict_step_def abstract_step_def represents_def)
qed

lemma sim_CopyBack:
  assumes r: "represents cap a d" and s: "dict_step (CopyBack dist n) d = (res, d')"
  shows "\<exists>a'. abstract_step cap (CopyBack dist n) a = (res, a') \<and> represents cap a' d'"
proof -
  have dl: "dictLen d = min cap (length (ad_bytes a))" using r dictLen_rep by (auto simp: represents_def)
  have av: "buffer_Available (dd_buf d) = cap - ad_unread a" "ad_unread a \<le> cap"
    using represents_room [OF r] by (simp_all add: decoderDict_Available_def)
  have mm: "maxMatchLen = 273" by (simp add: maxMatchLen_def minMatchLen_def)
  consider (far) "\<not> (0 < dist \<and> dist \<le> int (dictLen d))" | (long) "0 < dist \<and> dist \<le> int (dictLen d)" "\<not> (0 < n \<and> n \<le> 273)"
    | (full) "0 < dist \<and> dist \<le> int (dictLen d)" "0 < n \<and> n \<le> 273" "n > int (cap - ad_unread a)"
    | (copy) "0 < dist \<and> dist \<le> int (dictLen d)" "0 < n \<and> n \<le> 273" "\<not> n > int (cap - ad_unread a)" by linarith
  then show ?thesis
  proof cases
    case far
    then have "decoderDict_writeMatch d dist n = (Some (LzError ''distance out of range''), d)"
      by (simp add: decoderDict_writeMatch_def)
    moreover have "abstract_step cap (CopyBack dist n) a = ((Some (LzError ''distance out of range''), []), a)"
      using far unfolding abstract_step_def dl by simp
    ultimately show ?thesis using s r by (simp add: dict_step_def)
  next
    case long
    then have "decoderDict_writeMatch d dist n = (Some (LzError ''length out of range''), d)"
      by (simp add: decoderDict_writeMatch_def mm)
    moreover have "abstract_step cap (CopyBack dist n) a = ((Some (LzError ''length out of range''), []), a)"
      using long unfolding abstract_step_def dl by simp
    ultimately show ?thesis using s r by (simp add: dict_step_def)
  next
    case full
    then have "decoderDict_writeMatch d dist n = (Some ErrNoSpace, d)"
      by (simp add: decoderDict_writeMatch_def mm av(1))
    moreover have "abstract_step cap (CopyBack dist n) a = ((Some ErrNoSpace, []), a)"
      using full av(2) unfolding abstract_step_def dl by simp
    ultimately show ?thesis using s r by (simp add: dict_step_def)
  next
    case copy
    define k where "k = nat dist"
    define m where "m = nat n"
    have k: "dist = int k" "n = int m" "1 \<le> k" "1 \<le> m" using copy unfolding k_def m_def by linarith+
    have c: "k \<le> length (ad_bytes a)" "k \<le> cap" "m \<le> nat maxMatchLen" "m \<le> decoderDict_Available d"
      using copy k dl av by (simp_all add: mm decoderDict_Available_def)
    from r have rep: "dd_rep (ad_old a) (ad_bytes a) (ad_read a) d" "buffer_Cap (dd_buf d) = cap" by (simp_all add: represents_def)
    have "k \<le> buffer_Cap (dd_buf d)" using c(2) rep(2) by simp
    then obtain d1 where d1: "decoderDict_writeMatch d (int k) (int m) = (None, d1)"
      "dd_rep (ad_old a) (lz_copy k m (ad_bytes a)) (ad_read a) d1" "buffer_Cap (dd_buf d1) = buffer_Cap (dd_buf d)"
      by (rule dd_writeMatch [OF rep(1) k(3) c(1) _ k(4) c(3,4)])
    have "abstract_step cap (CopyBack dist n) a = ((None, []), a\<lparr>ad_bytes := lz_copy k m (ad_bytes a)\<rparr>)"
      using copy av(2) k c unfolding abstract_step_def dl by simp
    with d1 show ?thesis using s k rep(2) by (simp add: dict_step_def represents_def)
  qed
qed

lemma sim_step:
  assumes r: "represents cap a d" and s: "dict_step op d = (res, d')"
  shows "\<exists>a'. abstract_step cap op a = (res, a') \<and> represents cap a' d'"
proof (cases op)
  case (TakeBytes k)
  obtain p d1 where rd: "decoderDict_Read d k = (p, d1)" by fastforce
  have "dd_rep (ad_old a) (ad_bytes a) (ad_read a) d" "buffer_Cap (dd_buf d) = cap" using r by (simp_all add: represents_def)
  with dd_Read [OF this(1) rd] rd s TakeBytes show ?thesis
    by (auto simp: dict_step_def abstract_step_def represents_def Let_def simp del: drop_append)
next
  case StartAnew
  then show ?thesis using r s dd_reset by (auto simp: dict_step_def abstract_step_def represents_def decoderDict_Reset_def)
qed (use sim_PutByte sim_CopyBack r s in blast)+

lemma sim_run: "represents cap a d \<Longrightarrow> dict_run dict_step ops d = dict_run (abstract_step cap) ops a"
proof (induction ops arbitrary: a d)
  case (Cons op ops)
  obtain res d' where s: "dict_step op d = (res, d')" by fastforce
  from sim_step [OF Cons.prems s] obtain a' where "abstract_step cap op a = (res, a')" "represents cap a' d'" by blast
  then show ?case using s Cons.IH by simp
qed simp

text \<open>
  C12. The dictionary of the decoder refines a list of bytes: after \<open>newDecoderDict\<close>, every sequence of
  single bytes, matches, reads and resets yields exactly the errors and the bytes of the abstract
  dictionary, whose matches copy byte by byte from the list of everything written.
\<close>

theorem dictionary_refinement:
  assumes "newDecoderDict c = Inr d"
  shows "dict_run dict_step ops d = dict_run (abstract_step (nat c)) ops \<lparr>ad_old = [], ad_bytes = [], ad_read = 0\<rparr>"
  using dd_new [OF assms] by (intro sim_run) (simp add: represents_def)

lemma dictionary_refinement_witness:
  "\<exists>d. newDecoderDict 4 = Inr d \<and>
    dict_run dict_step [PutByte 1, PutByte 2, CopyBack 2 2, PutByte 3, TakeBytes 3, CopyBack 1 3, CopyBack 9 1, TakeBytes 9] d =
      [(None, []), (None, []), (None, []), (Some ErrNoSpace, []), (None, [1, 2, 1]), (None, []),
       (Some (LzError ''distance out of range''), []), (None, [2, 2, 2, 2])]"
proof -
  have d: "newDecoderDict 4 = Inr \<lparr>dd_buf = newBuffer 4, dd_head = 0\<rparr>" by (simp add: newDecoderDict_def MaxDictCap_def)
  have "dict_run (abstract_step (nat 4)) [PutByte 1, PutByte 2, CopyBack 2 2, PutByte 3, TakeBytes 3, CopyBack 1 3, CopyBack 9 1, TakeBytes 9]
      \<lparr>ad_old = [], ad_bytes = [], ad_read = 0\<rparr> =
      [(None, []), (None, []), (None, []), (Some ErrNoSpace, []), (None, [1, 2, 1]), (None, []),
       (Some (LzError ''distance out of range''), []), (None, [2, 2, 2, 2])]" by code_simp
  with dictionary_refinement [OF d] d show ?thesis by metis
qed

end
