(* ===== verification/LzmaSafe.thy ===== *)
theory LzmaSafe
  imports LzmaReadProofs
begin

text \<open>
  The decoder on arbitrary input, as it comes from a broken or hostile file: every operation keeps
  the well-formedness of the probability model, no array is indexed out of range, no call panics,
  and every call returns.
\<close>

section \<open>Safe operations of the decoder\<close>

text \<open>
  \<open>safe_op I m Q\<close>: from a structure with the invariant \<open>I\<close> and any range decoder, \<open>m\<close> ends without a
  panic, the structure has the invariant again, also after an error, and a result satisfies \<open>Q\<close>.
\<close>

definition outcome :: "('a \<Rightarrow> bool) \<Rightarrow> lzma_error + 'a \<Rightarrow> bool" where
  "outcome Q res \<longleftrightarrow> res \<noteq> Inl LzPanic \<and> (\<forall>x. res = Inr x \<longrightarrow> Q x)"

lemma outcome_simps [simp]: "outcome Q (Inl err) \<longleftrightarrow> err \<noteq> LzPanic" "outcome Q (Inr x) \<longleftrightarrow> Q x"
  by (auto simp: outcome_def)

definition safe_op :: "('c \<Rightarrow> bool) \<Rightarrow> ('c \<times> rangeDecoder, 'a) lz \<Rightarrow> ('a \<Rightarrow> bool) \<Rightarrow> bool" where
  "safe_op I m Q \<longleftrightarrow> (\<forall>c d res c' d'. I c \<longrightarrow> m (c, d) = (res, c', d') \<longrightarrow> I c' \<and> outcome Q res)"

lemma safe_opI:
  "(\<And>c d res c' d'. I c \<Longrightarrow> m (c, d) = (res, c', d') \<Longrightarrow>
      I c' \<and> outcome Q res) \<Longrightarrow> safe_op I m Q"
  unfolding safe_op_def by blast

lemma safe_opD:
  "safe_op I m Q \<Longrightarrow> I c \<Longrightarrow> m (c, d) = (res, c', d') \<Longrightarrow>
     I c' \<and> outcome Q res"
  unfolding safe_op_def by blast

lemma safe_lret: "Q x \<Longrightarrow> safe_op I (lret x) Q"
  by (rule safe_opI) (auto simp: lret_def)

lemma safe_lfail: "err \<noteq> LzPanic \<Longrightarrow> safe_op I (lfail err) Q"
  by (rule safe_opI) (auto simp: lfail_def)

lemma safe_lbind:
  assumes "safe_op I m R" "\<And>x. R x \<Longrightarrow> safe_op I (f x) Q"
  shows "safe_op I (lbind m f) Q"
proof (rule safe_opI)
  fix c d res c' d'
  assume c: "I c" and run: "lbind m f (c, d) = (res, c', d')"
  obtain r1 c1 d1 where m: "m (c, d) = (r1, c1, d1)" by (metis prod_cases3)
  note s = safe_opD [OF assms(1) c m]
  show "I c' \<and> outcome Q res"
  proof (cases r1)
    case (Inl e)
    then show ?thesis using run m s by (auto simp: lbind_def)
  next
    case (Inr x)
    then have "f x (c1, d1) = (res, c', d')" "R x" "I c1" using run m s by (auto simp: lbind_def)
    then show ?thesis using safe_opD [OF assms(2)] by blast
  qed
qed

lemma safe_weaken: "safe_op I m Q \<Longrightarrow> (\<And>x. Q x \<Longrightarrow> Q' x) \<Longrightarrow> safe_op I m Q'"
  unfolding safe_op_def outcome_def by blast

lemma safe_focus:
  assumes "safe_op J m Q" "\<And>c. I c \<Longrightarrow> J (get c)" "\<And>b c. I c \<Longrightarrow> J b \<Longrightarrow> I (put b c)"
  shows "safe_op I (focus get put m) Q"
proof (rule safe_opI)
  fix c d res c' d'
  assume c: "I c" and run: "focus get put m (c, d) = (res, c', d')"
  then obtain b where "m (get c, d) = (res, b, d')" "c' = put b c" by (auto simp: focus_def split: prod.splits)
  with safe_opD [OF assms(1) assms(2) [OF c]] assms(3) [OF c]
  show "I c' \<and> outcome Q res" by blast
qed

lemma safe_cong:
  assumes "safe_op I m' Q" "\<And>c d. I c \<Longrightarrow> m (c, d) = m' (c, d)"
  shows "safe_op I m Q"
  using assms by (simp add: safe_op_def)

lemma safe_element:
  assumes "i < n" "safe_op (J i) m Q"
  shows "safe_op (array n J) (element i m) Q"
proof (rule safe_cong)
  show "safe_op (array n J) (focus (\<lambda>xs. xs ! i) (\<lambda>b xs. xs[i := b]) m) Q"
    by (rule safe_focus [OF assms(2)]) (use assms(1) in \<open>auto intro: array_nth array_update\<close>)
qed (use assms(1) in \<open>simp add: element_def array_def\<close>)

lemma array_splice:
  assumes "array n (\<lambda>_. A) xs" "array l (\<lambda>_. A) ys" "k + l \<le> n"
  shows "array n (\<lambda>_. A) (take k xs @ ys @ drop (k + l) xs)"
proof -
  have len: "length (take k xs @ ys @ drop (k + l) xs) = n" using assms by (simp add: array_def)
  have "list_all A xs" "list_all A ys" using assms by (simp_all add: array_def list_all_length)
  then have "list_all A (take k xs @ ys @ drop (k + l) xs)"
    by (auto simp: list_all_iff dest: in_set_takeD in_set_dropD)
  then show ?thesis unfolding array_def list_all_length len using len by simp
qed

lemma safe_slice:
  assumes "k + l \<le> n" "safe_op (array l (\<lambda>_. A)) m Q"
  shows "safe_op (array n (\<lambda>_. A)) (slice k l m) Q"
proof (rule safe_cong)
  show "safe_op (array n (\<lambda>_. A)) (focus (\<lambda>xs. take l (drop k xs)) (\<lambda>ys xs. take k xs @ ys @ drop (k + l) xs) m) Q"
  proof (rule safe_focus [OF assms(2)])
    fix ys xs
    assume "array n (\<lambda>_. A) xs" "array l (\<lambda>_. A) ys"
    then show "array n (\<lambda>_. A) (take k xs @ ys @ drop (k + l) xs)" using array_splice assms(1) by blast
  qed (use assms(1) in \<open>auto simp: array_def\<close>)
qed (use assms(1) in \<open>simp add: slice_def array_def\<close>)

lemma safe_gets: "(\<And>c. I c \<Longrightarrow> Q (f c)) \<Longrightarrow> safe_op I (gets f) Q"
  by (rule safe_opI) (auto simp: gets_def)

lemma safe_modify: "(\<And>c. I c \<Longrightarrow> I (f c)) \<Longrightarrow> safe_op I (modify f) (\<lambda>_. True)"
  by (rule safe_opI) (auto simp: modify_def)

section \<open>Bits and trees\<close>

definition is_bit :: "u32 \<Rightarrow> bool" where "is_bit b \<longleftrightarrow> b = 0 \<or> b = 1"

lemma normalize_outcome:
  assumes "lbind rd_normalize (\<lambda>_. lret b) d = (res, d')" "is_bit b"
  shows "outcome is_bit res"
proof -
  obtain r e where n: "rd_normalize d = (r, e)" by fastforce
  then have "r \<noteq> Inl LzPanic"
    by (auto simp: rd_normalize_def updateCode_def br_ReadByte_def split: if_splits list.splits)
  then show ?thesis using assms n by (cases r) (auto simp: lbind_def lret_def)
qed

lemma is_bit_values: "is_bit 0" "is_bit 1" "is_bit (x AND 1)"
  by (simp_all add: is_bit_def and_one_eq mod2_eq_if)

lemma safe_bit: "safe_op prob_ok DecodeBit is_bit"
proof (rule safe_opI)
  fix p d res p' d'
  assume p: "prob_ok p" and run: "DecodeBit (p, d) = (res, p', d')"
  define bound where "bound = drop_bit probbits (rd_nrange d) * (ucast p :: u32)"
  show "prob_ok p' \<and> outcome is_bit res"
  proof (cases "rd_code d < bound")
    case True
    then have "lbind rd_normalize (\<lambda>_. lret 0) (d\<lparr>rd_nrange := bound\<rparr>) = (res, d')" "p' = next_prob 0 p"
      using run by (auto simp: DecodeBit_def bound_def next_prob_def Let_def split: prod.splits)
    then show ?thesis using prob_ok_next [OF p] normalize_outcome is_bit_values by blast
  next
    case False
    then have "lbind rd_normalize (\<lambda>_. lret 1) (d\<lparr>rd_code := rd_code d - bound, rd_nrange := rd_nrange d - bound\<rparr>) = (res, d')"
      "p' = next_prob 1 p"
      using run by (auto simp: DecodeBit_def bound_def next_prob_def Let_def split: prod.splits)
    then show ?thesis using prob_ok_next [OF p] normalize_outcome is_bit_values by blast
  qed
qed

lemma safe_direct_bit: "safe_op I (on_coder DirectDecodeBit) is_bit"
proof (rule safe_opI)
  fix c d res c' d'
  assume c: "I c" and run: "on_coder DirectDecodeBit (c, d) = (res, c', d')"
  then have "DirectDecodeBit d = (res, d')" "c' = c" by (auto simp: on_coder_def split: prod.splits)
  then show "I c' \<and> outcome is_bit res"
    using c normalize_outcome [OF _ is_bit_values(3)] unfolding DirectDecodeBit_def Let_def by blast
qed

lemma shift_bit:
  assumes "is_bit b" "unat m < 2 ^ 31"
  shows "unat (push_bit 1 m OR b) = 2 * unat m + unat b" "unat b \<le> 1"
proof -
  show b: "unat b \<le> 1" using assms(1) by (auto simp: is_bit_def)
  have "unat (push_bit 1 m) = 2 * unat m"
    unfolding unsigned_push_bit_eq unfolding push_bit_eq_mult take_bit_eq_mod using assms(2) by simp
  moreover have "b = b AND 1" using assms(1) by (auto simp: is_bit_def)
  then have "push_bit 1 m OR b = push_bit 1 m + b"
    by (metis (no_types, lifting) bit_push_bit_iff bit_and_iff bit_1_iff disjunctive_add not_one_le_zero)
  ultimately show "unat (push_bit 1 m OR b) = 2 * unat m + unat b"
    using assms b by (simp add: unat_add_small)
qed

section \<open>Trees\<close>

text \<open>After \<open>i\<close> bits the index \<open>m\<close> lies between \<open>2 ^ i\<close> and \<open>2 ^ (i + 1)\<close>.\<close>

definition at_level :: "nat \<Rightarrow> u32 \<Rightarrow> bool" where
  "at_level i m \<longleftrightarrow> 2 ^ i \<le> unat m \<and> unat m < 2 ^ Suc i"

lemma at_level_0: "at_level 0 1"
  by (simp add: at_level_def)

lemma at_level_next:
  assumes "at_level i m" "is_bit b" "i < 31"
  shows "at_level (Suc i) (push_bit 1 m OR b)"
proof -
  have "(2 :: nat) ^ Suc i \<le> 2 ^ 31" using assms(3) by (intro power_increasing) auto
  then have "unat m < 2 ^ 31" using assms(1) by (simp add: at_level_def)
  from shift_bit [OF assms(2) this] show ?thesis using assms(1) by (simp add: at_level_def)
qed

abbreviation probs_ok :: "nat \<Rightarrow> prob list \<Rightarrow> bool" where
  "probs_ok n \<equiv> array n (\<lambda>_. prob_ok)"

lemma safe_tree_loop:
  "at_level i m \<Longrightarrow> i + j = n \<Longrightarrow> n < 32 \<Longrightarrow> safe_op (probs_ok (2 ^ n)) (tree_decode j m) (at_level n)"
proof (induction j arbitrary: i m)
  case (Suc j)
  have "(2 :: nat) ^ Suc i \<le> 2 ^ n" using Suc.prems(2) by (intro power_increasing) auto
  then have "unat m < 2 ^ n" using Suc.prems(1) by (simp add: at_level_def)
  moreover have "safe_op (probs_ok (2 ^ n)) (tree_decode j (push_bit 1 m OR b)) (at_level n)" if "is_bit b" for b
    using Suc.IH [OF at_level_next [OF Suc.prems(1) that]] Suc.prems(2,3) by simp
  ultimately show ?case by (auto intro!: safe_lbind [OF safe_element [OF _ safe_bit]])
qed (simp add: safe_lret)

lemma safe_reverse_loop:
  "at_level i m \<Longrightarrow> i + j = n \<Longrightarrow> n < 32 \<Longrightarrow> safe_op (probs_ok (2 ^ n)) (reverse_decode j k v m) (\<lambda>_. True)"
proof (induction j arbitrary: i k v m)
  case (Suc j)
  have "(2 :: nat) ^ Suc i \<le> 2 ^ n" using Suc.prems(2) by (intro power_increasing) auto
  then have "unat m < 2 ^ n" using Suc.prems(1) by (simp add: at_level_def)
  moreover have "safe_op (probs_ok (2 ^ n)) (reverse_decode j (k + 1) (v OR push_bit k b) (push_bit 1 m OR b)) (\<lambda>_. True)"
    if "is_bit b" for b
    using Suc.IH [OF at_level_next [OF Suc.prems(1) that]] Suc.prems(2,3) by simp
  ultimately show ?case by (auto intro!: safe_lbind [OF safe_element [OF _ safe_bit]])
qed (simp add: safe_lret)

text \<open>An operation that first looks at its structure.\<close>

lemma safe_look: "(\<And>c d. I c \<Longrightarrow> m (c, d) = f (g c) (c, d)) \<Longrightarrow> (\<And>c. I c \<Longrightarrow> safe_op I (f (g c)) Q) \<Longrightarrow> safe_op I m Q"
  unfolding safe_op_def by metis

lemma safe_on_probs: "safe_op (probs_ok (2 ^ n)) m Q \<Longrightarrow> safe_op (tree_ok n) (on_probs m) Q"
  by (erule safe_focus) (simp_all add: tree_ok_def)

lemma safe_tree:
  assumes "n < 32"
  shows "safe_op (tree_ok n) treeCodec_Decode (\<lambda>x. unat x < 2 ^ n)"
proof (rule safe_look [where g = "\<lambda>c. unat (pt_bits c)" and
    f = "\<lambda>bits. lbind (on_probs (tree_decode bits 1)) (\<lambda>m. lret (m - push_bit bits 1))"])
  fix c assume "tree_ok n c"
  then have n: "unat (pt_bits c) = n" by (simp add: tree_ok_def)
  have "unat (m - push_bit n 1) < 2 ^ n" if "at_level n m" for m :: u32
  proof -
    have "(2 :: nat) ^ n < 2 ^ 32" using assms by (intro power_strict_increasing) auto
    then have "unat (push_bit n 1 :: u32) = 2 ^ n"
      unfolding unsigned_push_bit_eq unfolding push_bit_eq_mult take_bit_eq_mod by simp
    with that have "2 ^ n \<le> unat m \<and> unat m < 2 * 2 ^ n" "unat (m - push_bit n 1) = unat m - 2 ^ n"
      by (simp_all add: at_level_def unat_sub word_le_nat_alt)
    then show ?thesis by linarith
  qed
  then show "safe_op (tree_ok n) (lbind (on_probs (tree_decode (unat (pt_bits c)) 1))
      (\<lambda>m. lret (m - push_bit (unat (pt_bits c)) 1))) (\<lambda>x. unat x < 2 ^ n)"
    unfolding n by (intro safe_lbind [OF safe_on_probs [OF safe_tree_loop [OF at_level_0 _ assms]]] safe_lret) auto
qed (simp add: treeCodec_Decode_def Let_def)

lemma safe_reverse:
  assumes "n < 32"
  shows "safe_op (tree_ok n) treeReverseCodec_Decode (\<lambda>_. True)"
proof (rule safe_look [where g = "\<lambda>c. unat (pt_bits c)" and f = "\<lambda>bits. on_probs (reverse_decode bits 0 0 1)"])
  fix c assume "tree_ok n c"
  then have n: "unat (pt_bits c) = n" by (simp add: tree_ok_def)
  show "safe_op (tree_ok n) (on_probs (reverse_decode (unat (pt_bits c)) 0 0 1)) (\<lambda>_. True)"
    unfolding n by (intro safe_on_probs safe_reverse_loop [OF at_level_0 _ assms]) simp
qed (simp add: treeReverseCodec_Decode_def)

section \<open>Codecs\<close>

lemma safe_direct: "safe_op I (direct_decode n v) (\<lambda>_. True)"
proof (induction n arbitrary: v)
  case (Suc n)
  then show ?case by (auto intro!: safe_lbind [OF safe_direct_bit])
qed (simp add: safe_lret)

lemma safe_length:
  assumes "unat posState < 16"
  shows "safe_op length_ok (lengthCodec_Decode posState) (\<lambda>x. unat x < 272)"
proof -
  have choice: "safe_op length_ok (on_choice i prob_Decode) is_bit" if "i < 2" for i
    unfolding prob_Decode_def
    by (rule safe_focus [OF safe_element [OF that safe_bit]]) (simp_all add: length_ok_def)
  have tree3: "safe_op (tree_ok 3) treeCodec_Decode (\<lambda>x. unat x < 8)" using safe_tree [of 3] by simp
  have tree8: "safe_op (tree_ok 8) treeCodec_Decode (\<lambda>x. unat x < 256)" using safe_tree [of 8] by simp
  have low: "safe_op length_ok (on_low posState treeCodec_Decode) (\<lambda>x. unat x < 8)"
    by (rule safe_focus [OF safe_element [OF assms tree3]]) (simp_all add: length_ok_def)
  have mid: "safe_op length_ok (on_mid posState treeCodec_Decode) (\<lambda>x. unat x < 8)"
    by (rule safe_focus [OF safe_element [OF assms tree3]]) (simp_all add: length_ok_def)
  have high: "safe_op length_ok (on_high treeCodec_Decode) (\<lambda>x. unat x < 256)"
    by (rule safe_focus [OF tree8]) (simp_all add: length_ok_def)
  have "unat (l + 8) < 272" if "unat l < 8" for l :: u32 using that by (simp add: unat_add_small)
  moreover have "unat (l + 16) < 272" if "unat l < 256" for l :: u32 using that by (simp add: unat_add_small)
  ultimately show ?thesis unfolding lengthCodec_Decode_def
    by (intro safe_lbind [OF choice] safe_lbind [OF mid] safe_lbind [OF high])
      (auto intro!: safe_weaken [OF low] safe_lbind [OF choice] safe_lbind [OF mid] safe_lbind [OF high] safe_lret)
qed

lemma safe_dist: "safe_op dist_ok (distCodec_Decode l) (\<lambda>_. True)"
proof -
  have tree6: "safe_op (tree_ok 6) treeCodec_Decode (\<lambda>x. unat x < 64)" using safe_tree [of 6] by simp
  have l: "unat (lenState l) < 4" by (simp add: lenState_def lenStates_def word_le_nat_alt not_le)
  have slot: "safe_op dist_ok (on_slot l treeCodec_Decode) (\<lambda>x. unat x < 64)"
    by (rule safe_focus [OF safe_element [OF l tree6]]) (simp_all add: dist_ok_def)
  have model: "safe_op dist_ok (on_model i treeReverseCodec_Decode) (\<lambda>_. True)" if "unat i < 10" for i
    by (rule safe_focus [OF safe_element [OF that safe_reverse]]) (use that in \<open>simp_all add: dist_ok_def\<close>)
  have align: "safe_op dist_ok (on_align treeReverseCodec_Decode) (\<lambda>_. True)"
    by (rule safe_focus [OF safe_reverse]) (simp_all add: dist_ok_def)
  have idx: "unat (posSlot - of_nat startPosModel) < 10"
    if "\<not> posSlot < of_nat startPosModel" "posSlot < of_nat endPosModel" for posSlot :: u32
    using that by (simp add: startPosModel_def endPosModel_def unat_sub word_le_nat_alt word_less_nat_alt not_less)
  show ?thesis unfolding distCodec_Decode_def directCodec_Decode_def Let_def
    by (intro safe_lbind [OF slot])
      (auto intro!: safe_lret safe_lbind [OF model] safe_lbind [OF safe_direct] safe_lbind [OF align] idx)
qed

lemma literal_decode_eq:
  "literal_decode n symbol = (if symbol < 0x100 then case n of 0 \<Rightarrow> lfail LzPanic
     | Suc n \<Rightarrow> lbind (element (unat symbol) DecodeBit) (\<lambda>bit. literal_decode n (push_bit 1 symbol OR bit)) else lret symbol)"
  by (rule literal_decode.simps)

lemma safe_literal_loop:
  "at_level i symbol \<Longrightarrow> i + n = 8 \<Longrightarrow> safe_op (probs_ok 0x300) (literal_decode n symbol) (\<lambda>_. True)"
proof (induction n arbitrary: i symbol)
  case 0
  then have "\<not> symbol < 0x100" by (simp add: at_level_def word_less_nat_alt)
  then show ?case by (simp add: literal_decode_eq safe_lret)
next
  case (Suc n)
  have "(2 :: nat) ^ Suc i \<le> 2 ^ 8" using Suc.prems(2) by (intro power_increasing) auto
  then have s: "unat symbol < 0x100" using Suc.prems(1) by (simp add: at_level_def)
  have "safe_op (probs_ok 0x300) (literal_decode n (push_bit 1 symbol OR b)) (\<lambda>_. True)" if "is_bit b" for b
    using Suc.IH [OF at_level_next [OF Suc.prems(1) that]] Suc.prems(2) by simp
  then show ?case using s unfolding literal_decode_eq [of "Suc n"]
    by (auto intro!: safe_lbind [OF safe_element [OF _ safe_bit]] simp: word_less_nat_alt)
qed

lemma matched_index:
  fixes mb symbol :: u32
  assumes "unat mb \<le> 1" "unat symbol < 0x100"
  shows "unat (push_bit 8 (1 + mb) OR symbol) < (0x300 :: nat)"
proof -
  have "take_bit 8 symbol = symbol" 
    using assms(2) by (simp add: word_unat_eq_iff unsigned_take_bit_eq take_bit_nat_eq_self)
  then have "push_bit 8 (1 + mb) AND symbol = push_bit 8 (1 + mb) AND take_bit 8 symbol" by simp
  also have "\<dots> = 0" by (rule bit_word_eqI) (auto simp: bit_simps)
  finally have "push_bit 8 (1 + mb) OR symbol = push_bit 8 (1 + mb) + symbol" by (simp add: disjunctive_add_eq_or)
  moreover have "mb = 0 \<or> mb = 1" using assms(1) by (auto simp: word_unat_eq_iff)
  ultimately show ?thesis using assms(2) by (auto simp: unat_add_small push_bit_eq_mult)
qed

lemma safe_matched_loop:
  "at_level i symbol \<Longrightarrow> i + n = 8 \<Longrightarrow> 0 < n \<Longrightarrow> safe_op (probs_ok 0x300) (matched_decode n m symbol) (\<lambda>_. True)"
proof (induction n arbitrary: i m symbol)
  case (Suc n)
  define mb where "mb = drop_bit 7 m AND 1"
  have mb: "unat mb \<le> 1" using is_bit_values(3) [of "drop_bit 7 m"] by (auto simp: mb_def is_bit_def)
  have "(2 :: nat) ^ Suc i \<le> 2 ^ 8" using Suc.prems(2) by (intro power_increasing) auto
  then have s: "unat symbol < 0x100" using Suc.prems(1) by (simp add: at_level_def)
  have "unat (push_bit 8 (1 + mb) OR symbol) < 0x300" by (rule matched_index) (use mb s in simp_all)
  moreover have "safe_op (probs_ok 0x300)
      (if mb \<noteq> b \<or> push_bit 1 symbol OR b \<ge> 0x100 then literal_decode n (push_bit 1 symbol OR b)
       else matched_decode n (push_bit 1 m) (push_bit 1 symbol OR b)) (\<lambda>_. True)" if "is_bit b" for b
  proof -
    have l: "at_level (Suc i) (push_bit 1 symbol OR b)" using at_level_next [OF Suc.prems(1) that] Suc.prems(2) by simp
    show ?thesis
    proof (cases "mb \<noteq> b \<or> push_bit 1 symbol OR b \<ge> 0x100")
      case True
      then show ?thesis using safe_literal_loop [OF l, of n] Suc.prems(2) by simp
    next
      case False
      then have "0 < n" using l Suc.prems(2) by (cases n) (auto simp: at_level_def word_le_nat_alt)
      then show ?thesis using Suc.IH [OF l] Suc.prems(2) False by simp
    qed
  qed
  ultimately show ?case unfolding matched_decode.simps(2) Let_def mb_def [symmetric]
    by (intro safe_lbind [OF safe_element [OF _ safe_bit]])
qed simp

lemma safe_literal:
  assumes "unat (litState * 0x300) + 0x300 \<le> n"
  shows "safe_op (literal_ok n) (literalCodec_Decode state m litState) (\<lambda>_. True)"
proof -
  have "safe_op (probs_ok 0x300) (if state \<ge> 7 then matched_decode 8 (ucast m) 1 else literal_decode 8 1) (\<lambda>_. True)"
    using safe_matched_loop [OF at_level_0, of 8] safe_literal_loop [OF at_level_0, of 8] by simp
  from safe_slice [OF assms this] show ?thesis unfolding literal_ok_def literalCodec_Decode_def Let_def
    by (auto intro!: safe_lbind safe_lret)
qed

end
