(* ===== verification/LzmaSafeProps.thy ===== *)
theory LzmaSafeProps
  imports LzmaSafe LzmaFile LzmaHeaderProps
begin

text \<open>
  The decoder of \<open>decoder.go\<close> on arbitrary input: \<open>readOp\<close> yields an operation the dictionary can
  check, \<open>decompress\<close> fills the dictionary in finitely many rounds, and every \<open>Read\<close> returns.
\<close>

section \<open>The invariant of the state\<close>

text \<open>
  The tables of probabilities are well formed and the values that index them are in range; \<open>p\<close> are
  the properties, which fix the size of the table for literals.
\<close>

definition literals :: "Properties \<Rightarrow> nat" where
  "literals p = 0x300 * 2 ^ nat (LC p + LP p)"

definition state_safe :: "Properties \<Rightarrow> lzma_state \<Rightarrow> bool" where
  "state_safe p s \<longleftrightarrow> state_ok (literals p) s \<and> unat (history s) < 12 \<and> unat (posBitMask s) < 16 \<and>
     st_Properties s = p \<and> Properties_verify p = None"

lemma mask_bound:
  fixes x m :: u32
  assumes "unat m < 2 ^ k"
  shows "unat (x AND m) < 2 ^ k"
proof -
  have "x AND m \<le> m" by (simp add: word_and_le1)
  then show ?thesis using assms by (simp add: word_le_nat_alt)
qed

lemma unat_push_bit_small: "k < 32 \<Longrightarrow> unat x * 2 ^ k < 2 ^ 32 \<Longrightarrow> unat (push_bit k x :: u32) = unat x * 2 ^ k"
  unfolding unsigned_push_bit_eq unfolding push_bit_eq_mult take_bit_eq_mod by simp

lemma pow_mask:
  assumes "k < 32"
  shows "unat (push_bit k 1 - 1 :: u32) = 2 ^ k - 1"
proof -
  have "(2 :: nat) ^ k < 2 ^ 32" using assms by (intro power_strict_increasing) auto
  then have "unat (push_bit k 1 :: u32) = 2 ^ k" using unat_push_bit_small [of k 1] assms by simp
  moreover from this have "(push_bit k 1 :: u32) \<noteq> 0" by (metis power_not_zero unat_0 zero_neq_numeral)
  ultimately show ?thesis by (simp add: unat_minus_one)
qed

lemma newState_safe:
  assumes "newState p = Inr s" "Properties_verify p = None"
  shows "state_safe p s"
proof -
  obtain lit len replen dist where i: "literalCodec_init (LC p) (LP p) = Inr lit" "lengthCodec_init = Inr len"
      "lengthCodec_init = Inr replen" "distCodec_init = Inr dist"
    and s: "s = \<lparr>rep = replicate 4 0, isMatch = initProbSlice (states * 2 ^ maxPosBits),
            isRepG0Long = initProbSlice (states * 2 ^ maxPosBits),
            isRep = initProbSlice states, isRepG0 = initProbSlice states,
            isRepG1 = initProbSlice states, isRepG2 = initProbSlice states,
            litCodec = lit, lenCodec = len, repLenCodec = replen, distCodec_of = dist,
            history = 0, posBitMask = push_bit (nat (PB p)) 1 - 1, st_Properties = p\<rparr>"
    using assms(1) unfolding newState_def state_Reset_def by (auto simp: sbind_def split: sum.splits)
  have "length_ok len" "length_ok replen" using lengthCodec_init_ok i(2,3) by (metis sum.inject(2))+
  moreover have "dist_ok dist" using distCodec_init_ok i(4) by (metis sum.inject(2))
  moreover have "literal_ok (literals p) lit" using i(1)
    by (auto simp: literals_def literalCodec_init_def literal_ok_def array_replicate prob_ok_init split: if_splits)
  ultimately have ok: "state_ok (literals p) s"
    by (simp add: s state_ok_def initProbSlice_def array_replicate prob_ok_init states_def maxPosBits_def)
  have "nat (PB p) \<le> 4" using assms(2) by (auto simp: verify_None)
  then have "(2 :: nat) ^ nat (PB p) \<le> 2 ^ 4" by (intro power_increasing) auto
  then have "unat (push_bit (nat (PB p)) 1 - 1 :: u32) < 16" using pow_mask [of "nat (PB p)"] \<open>nat (PB p) \<le> 4\<close> by simp
  then show ?thesis using ok assms(2) by (simp add: state_safe_def s)
qed

section \<open>Reading an operation\<close>

lemma safe_prob:
  "unat i < 192 \<Longrightarrow> safe_op (state_safe p) (at_isMatch i prob_Decode) is_bit"
  "unat i < 192 \<Longrightarrow> safe_op (state_safe p) (at_isRepG0Long i prob_Decode) is_bit"
  "unat i < 12 \<Longrightarrow> safe_op (state_safe p) (at_isRep i prob_Decode) is_bit"
  "unat i < 12 \<Longrightarrow> safe_op (state_safe p) (at_isRepG0 i prob_Decode) is_bit"
  "unat i < 12 \<Longrightarrow> safe_op (state_safe p) (at_isRepG1 i prob_Decode) is_bit"
  "unat i < 12 \<Longrightarrow> safe_op (state_safe p) (at_isRepG2 i prob_Decode) is_bit"
  unfolding prob_Decode_def
  by (rule safe_focus [OF safe_element [where J = "\<lambda>_. prob_ok", OF _ safe_bit]];
      auto simp: state_safe_def state_ok_def)+

lemma safe_codecs:
  "unat i < 16 \<Longrightarrow> safe_op (state_safe p) (on_lenCodec (lengthCodec_Decode i)) (\<lambda>x. unat x < 272)"
  "unat i < 16 \<Longrightarrow> safe_op (state_safe p) (on_repLenCodec (lengthCodec_Decode i)) (\<lambda>x. unat x < 272)"
  "safe_op (state_safe p) (on_distCodec (distCodec_Decode l)) (\<lambda>_. True)"
  by (rule safe_focus [OF safe_length] safe_focus [OF safe_dist];
      auto simp: state_safe_def state_ok_def)+

definition indexes_ok :: "u32 \<times> u32 \<times> u32 \<Rightarrow> bool" where
  "indexes_ok x \<longleftrightarrow> unat (fst x) < 12 \<and> unat (fst (snd x)) < 192 \<and> unat (snd (snd x)) < 16"

lemma state_states_ok:
  assumes "state_safe p s"
  shows "indexes_ok (state_states s head)"
proof -
  have b: "unat (history s) < 12" "unat (posBitMask s) < 2 ^ 4" using assms by (simp_all add: state_safe_def)
  define m where "m = of_int head AND posBitMask s"
  have m: "unat m < 2 ^ 4" unfolding m_def by (rule mask_bound [OF b(2)])
  then have "take_bit 4 m = m" by (simp add: word_unat_eq_iff unsigned_take_bit_eq take_bit_nat_eq_self)
  then have "push_bit 4 (history s) AND m = push_bit 4 (history s) AND take_bit 4 m" by simp
  also have "\<dots> = 0" by (rule bit_word_eqI) (auto simp: bit_simps)
  finally have "push_bit 4 (history s) OR m = push_bit 4 (history s) + m" by (simp add: disjunctive_add_eq_or)
  moreover have "unat (push_bit 4 (history s)) = 16 * unat (history s)"
    unfolding unsigned_push_bit_eq unfolding push_bit_eq_mult take_bit_eq_mod using b by simp
  ultimately have "unat (push_bit 4 (history s) OR m) < 192" using b m by (simp add: unat_add_small)
  then show ?thesis using b m by (simp add: indexes_ok_def state_states_def Let_def m_def [symmetric] maxPosBits_def)
qed

lemma drop_bit_bound:
  fixes x :: u32
  assumes "unat x < 2 ^ 8" "l \<le> 8"
  shows "unat (drop_bit (8 - l) x) < 2 ^ l"
proof -
  have "(2 :: nat) ^ l * 2 ^ (8 - l) = 2 ^ 8" using assms(2) by (simp flip: power_add)
  then have "unat x div 2 ^ (8 - l) < 2 ^ l" using assms(1) by (simp add: div_less_iff_less_mult)
  then show ?thesis unfolding unsigned_drop_bit_eq unfolding drop_bit_eq_div using assms(1) by (simp add: take_bit_nat_eq_self)
qed

lemma litState_bound:
  assumes "state_safe p s"
  shows "unat (state_litState s prev head * 0x300) + 0x300 \<le> literals p"
proof -
  define lp where "lp = nat (LP p)"
  define lc where "lc = nat (LC p)"
  have r: "lc \<le> 8" "lp \<le> 4" "nat (LC p + LP p) = lc + lp" "st_Properties s = p"
    using assms by (auto simp: state_safe_def verify_None lp_def lc_def nat_add_distrib)
  define hi where "hi = (of_int head AND (push_bit lp 1 - 1) :: u32)"
  define lo where "lo = (drop_bit (8 - lc) (ucast prev) :: u32)"
  have hi: "unat hi < 2 ^ lp" unfolding hi_def by (rule mask_bound) (use r pow_mask [of lp] in simp)
  have "unat (ucast prev :: u32) < 2 ^ 8" using unsigned_less [of prev, where ?'a = nat] by (simp add: unsigned_ucast_eq take_bit_nat_eq_self)
  then have lo: "unat lo < 2 ^ lc" unfolding lo_def using r(1) by (rule drop_bit_bound)
  then have "take_bit lc lo = lo" by (simp add: word_unat_eq_iff unsigned_take_bit_eq take_bit_nat_eq_self)
  then have "push_bit lc hi AND lo = push_bit lc hi AND take_bit lc lo" by simp
  also have "\<dots> = 0" by (rule bit_word_eqI) (auto simp: bit_simps)
  finally have o: "push_bit lc hi OR lo = push_bit lc hi + lo" by (simp add: disjunctive_add_eq_or)
  have pp: "(2 :: nat) ^ (lc + lp) \<le> 2 ^ 12" using r by (intro power_increasing) auto
  have "2 ^ lc * (unat hi + 1) \<le> (2 :: nat) ^ lc * 2 ^ lp" using hi by (intro mult_left_mono) auto
  then have s: "2 ^ lc * unat hi + unat lo < 2 ^ (lc + lp)" using lo by (simp add: power_add)
  then have "unat (push_bit lc hi) = 2 ^ lc * unat hi"
    unfolding unsigned_push_bit_eq unfolding push_bit_eq_mult take_bit_eq_mod using pp by (simp add: mult.commute)
  then have l: "unat (state_litState s prev head) < 2 ^ (lc + lp)"
    unfolding state_litState_def r(4) Let_def lp_def [symmetric] lc_def [symmetric]
      hi_def [symmetric] lo_def [symmetric] o using s pp by (simp add: unat_add_small)
  then have "unat (state_litState s prev head * 0x300) = unat (state_litState s prev head) * 0x300"
    using pp by (simp add: unat_word_ariths)
  then show ?thesis using l by (simp add: literals_def r(3))
qed

text \<open>Operations that \<open>readOp\<close> may return: the length is that of a literal or between 1 and 273.\<close>

definition op_bounds :: "operation \<Rightarrow> bool" where
  "op_bounds op \<longleftrightarrow> m_n (op_match op) = 0 \<or>
     0 < m_distance (op_match op) \<and> 1 \<le> m_n (op_match op) \<and> m_n (op_match op) \<le> maxMatchLen"

lemma rep_op_bounds: "1 \<le> n \<Longrightarrow> n \<le> maxMatchLen \<Longrightarrow> op_bounds (rep_op dist n)"
  by (simp add: op_bounds_def rep_op_def matchOperation_def minDistance_def)

lemma decoded_length: "unat (n :: u32) < 272 \<Longrightarrow> op_bounds (rep_op dist (int (unat n) + minMatchLen))"
  by (rule rep_op_bounds; unfold maxMatchLen_def minMatchLen_def; linarith)

lemma safe_update:
  "safe_op (state_safe p) (modify updateStateLiteral) (\<lambda>_. True)"
  "safe_op (state_safe p) (modify updateStateMatch) (\<lambda>_. True)"
  "safe_op (state_safe p) (modify updateStateRep) (\<lambda>_. True)"
  "safe_op (state_safe p) (modify updateStateShortRep) (\<lambda>_. True)"
  "safe_op (state_safe p) (modify (\<lambda>s. s\<lparr>rep := [rep s ! 0, rep s ! 0, rep s ! 1, rep s ! 2]\<rparr>)) (\<lambda>_. True)"
  "safe_op (state_safe p) (modify (\<lambda>s. s\<lparr>rep := (rep s)[0 := dist]\<rparr>)) (\<lambda>_. True)"
  "safe_op (state_safe p) (modify (shift_rep g dist)) (\<lambda>_. True)"
  by (intro safe_modify; auto simp: state_safe_def state_ok_def updateStateLiteral_def updateStateMatch_def
      updateStateRep_def updateStateShortRep_def shift_rep_def shift_reps_def Let_def
      word_less_nat_alt word_le_nat_alt unat_sub not_less)+

lemma safe_decodeLiteral: "safe_op (state_safe p) (decodeLiteral dict) op_bounds"
proof -
  have lit: "safe_op (state_safe p) (on_litCodec (literalCodec_Decode state m litState)) (\<lambda>_. True)"
    if "unat (litState * 0x300) + 0x300 \<le> literals p" for state m litState
    by (rule safe_focus [OF safe_literal [OF that]]) (auto simp: state_safe_def state_ok_def)
  show ?thesis unfolding decodeLiteral_def
    by (intro safe_lbind [OF safe_gets [where Q = "\<lambda>l. unat (l * 0x300) + 0x300 \<le> literals p"]]
        safe_lbind [OF safe_gets [where Q = "\<lambda>_. True"]] safe_lbind [OF lit] safe_lret litState_bound)
      (auto simp: op_bounds_def literalOperation_def)
qed

lemma safe_distance: "safe_op (state_safe p) (on_error (set_rep0 0) (on_distCodec (distCodec_Decode n))) (\<lambda>_. True)"
proof (rule safe_opI)
  fix c d res c' d'
  assume c: "state_safe p c" and m: "on_error (set_rep0 0) (on_distCodec (distCodec_Decode n)) (c, d) = (res, c', d')"
  obtain res1 c1 d1 where r: "on_distCodec (distCodec_Decode n) (c, d) = (res1, c1, d1)" by (metis prod_cases3)
  have 1: "state_safe p c1" "outcome (\<lambda>_. True) res1" using safe_opD [OF safe_codecs(3) c r] by simp_all
  have "modify (set_rep0 0) (c1, d1) = (Inr (), set_rep0 0 c1, d1)" by (simp add: modify_def)
  from safe_opD [OF safe_update(6) 1(1) this] have "state_safe p (set_rep0 0 c1)" by simp
  then show "state_safe p c' \<and> outcome (\<lambda>_. True) res" using m 1 by (auto simp: on_error_def r split: sum.splits)
qed

lemma safe_op_if: "safe_op I m Q \<Longrightarrow> safe_op I m' Q \<Longrightarrow> safe_op I (if b then m else m') Q"
  by simp

lemma safe_new_match:
  assumes "unat posState < 16"
  shows "safe_op (state_safe p)
      (lbind (modify (\<lambda>s. s\<lparr>rep := [rep s ! 0, rep s ! 0, rep s ! 1, rep s ! 2]\<rparr>)) (\<lambda>_.
       lbind (modify updateStateMatch) (\<lambda>_.
       lbind (on_lenCodec (lengthCodec_Decode posState)) (\<lambda>n.
       lbind (on_error (set_rep0 0) (on_distCodec (distCodec_Decode n))) (\<lambda>dist.
       lbind (modify (\<lambda>s. s\<lparr>rep := (rep s)[0 := dist]\<rparr>)) (\<lambda>_.
       if dist = eosDist then lfail ErrEOS else lret (rep_op dist (int (unat n) + minMatchLen)))))))) op_bounds"
  by (intro safe_lbind [OF safe_update(5)] safe_lbind [OF safe_update(2)] safe_lbind [OF safe_codecs(1) [OF assms]]
      safe_lbind [OF safe_distance] safe_lbind [OF safe_update(6)] safe_op_if
      safe_lfail safe_lret decoded_length) simp_all

lemma safe_rep_match:
  assumes "unat posState < 16"
  shows "safe_op (state_safe p)
      (lbind (on_repLenCodec (lengthCodec_Decode posState)) (\<lambda>n.
       lbind (modify updateStateRep) (\<lambda>_. lret (rep_op dist (int (unat n) + minMatchLen))))) op_bounds"
  by (intro safe_lbind [OF safe_codecs(2) [OF assms]] safe_lbind [OF safe_update(3)] safe_lret decoded_length)

lemma safe_short_rep: "safe_op (state_safe p) (lbind (modify updateStateShortRep) (\<lambda>_. lret (rep_op dist 1))) op_bounds"
  by (intro safe_lbind [OF safe_update(4)] safe_lret rep_op_bounds) (simp_all add: maxMatchLen_def minMatchLen_def)

lemma safe_which:
  "unat state < 12 \<Longrightarrow> safe_op (state_safe p)
     (if b = 0 then lret 1 else lbind (at_isRepG2 state prob_Decode) (\<lambda>b. lret (if b = 0 then 2 else 3))) (\<lambda>_. True)"
  for b :: u32
  by (auto intro!: safe_lret safe_lbind [OF safe_prob(6)])

lemma safe_readOp: "safe_op (state_safe p) (readOp dict) op_bounds"
proof -
  have gets_rep: "safe_op (state_safe p) (gets rep) (\<lambda>_. True)" by (rule safe_gets) simp
  have indexes: "safe_op (state_safe p) (gets (\<lambda>s. state_states s (int (dd_head dict)))) indexes_ok"
    by (rule safe_gets) (rule state_states_ok)
  have literal: "safe_op (state_safe p) (lbind (decodeLiteral dict) (\<lambda>op. lbind (modify updateStateLiteral) (\<lambda>_. lret op))) op_bounds"
    by (intro safe_lbind [OF safe_decodeLiteral] safe_lbind [OF safe_update(1)] safe_lret)
  show ?thesis unfolding readOp_def
    apply (rule safe_lbind [OF indexes], clarify)
    subgoal premises prems for state state2 posState
    proof -
      have i: "unat state < 12" "unat state2 < 192" "unat posState < 16" using prems by (simp_all add: indexes_ok_def)
      note bits = safe_prob(1) [OF i(2)] safe_prob(2) [OF i(2)] safe_prob(3-5) [OF i(1)]
      note matches = safe_new_match [OF i(3)] safe_rep_match [OF i(3)] safe_short_rep
      show ?thesis
        by (intro safe_lbind [OF bits(1)] safe_lbind [OF bits(2)] safe_lbind [OF bits(3)] safe_lbind [OF bits(4)]
            safe_lbind [OF bits(5)] safe_lbind [OF gets_rep] safe_lbind [OF safe_which [OF i(1)]]
            safe_lbind [OF safe_update(7)] safe_op_if literal matches)
    qed
    done
qed

section \<open>The decoder\<close>

definition dict_ok :: "decoderDict \<Rightarrow> bool" where
  "dict_ok dict \<longleftrightarrow> (\<exists>h0 h R. dd_rep h0 h R dict)"

lemma dict_okI: "dd_rep h0 h R dict \<Longrightarrow> dict_ok dict"
  unfolding dict_ok_def by blast

definition decoder_ok :: "decoder \<Rightarrow> bool" where
  "decoder_ok d \<longleftrightarrow> (\<exists>p. state_safe p (d_State d)) \<and> dict_ok (d_Dict d) \<and>
     maxMatchLen \<le> int (buffer_Cap (dd_buf (d_Dict d)))"

abbreviation room :: "decoder \<Rightarrow> nat" where
  "room d \<equiv> decoderDict_Available (d_Dict d)"

lemma readOp_ok:
  assumes "decoder_ok d" "decoder_readOp d = (res, d')"
  shows "decoder_ok d'" "outcome op_bounds res" "d_Dict d' = d_Dict d"
proof -
  obtain p where p: "state_safe p (d_State d)" using assms(1) by (auto simp: decoder_ok_def)
  obtain r s rd where op: "readOp (d_Dict d) (d_State d, d_rd d) = (r, s, rd)" by (metis prod_cases3)
  with safe_opD [OF safe_readOp p op] assms
  show "decoder_ok d'" "outcome op_bounds res" "d_Dict d' = d_Dict d"
    by (auto simp: decoder_readOp_def decoder_ok_def)
qed

lemma apply_op_ok:
  assumes d: "decoder_ok d" and op: "op_bounds op" and room: "maxMatchLen \<le> int (room d)"
    and run: "apply_op op d = (err, d')"
  shows "decoder_ok d'" "err \<noteq> Some LzPanic" "err \<noteq> Some (LzIo EOF)" "err = None \<Longrightarrow> room d' < room d"
proof -
  obtain p h0 h R where r: "state_safe p (d_State d)" "dd_rep h0 h R (d_Dict d)"
    and cap: "maxMatchLen \<le> int (buffer_Cap (dd_buf (d_Dict d)))" using d by (auto simp: decoder_ok_def dict_ok_def)
  have av: "room d = buffer_Cap (dd_buf (d_Dict d)) - (length h0 + length h - R)" by (rule dd_Available [OF r(2)])
  consider (literal) "m_n (op_match op) = 0"
    | (bad) "m_n (op_match op) \<noteq> 0" "\<not> m_distance (op_match op) \<le> int (dictLen (d_Dict d))"
    | (good) "m_n (op_match op) \<noteq> 0" "m_distance (op_match op) \<le> int (dictLen (d_Dict d))" by blast
  then have "decoder_ok d' \<and> err \<noteq> Some LzPanic \<and> err \<noteq> Some (LzIo EOF) \<and> (err = None \<longrightarrow> room d' < room d)"
  proof cases
    case literal
    have "1 \<le> room d" using room by (simp add: maxMatchLen_def minMatchLen_def)
    then obtain dict where w: "decoderDict_WriteByte (d_Dict d) (op_b op) = (None, dict)" "dd_rep h0 (h @ [op_b op]) R dict"
      "buffer_Cap (dd_buf dict) = buffer_Cap (dd_buf (d_Dict d))" by (rule dd_WriteByte [OF r(2)])
    have "decoderDict_Available dict < room d"
      using dd_Available [OF w(2)] w(3) av \<open>1 \<le> room d\<close> dd_repD [OF r(2)] by (simp add: ring_def)
    then show ?thesis using literal w run r(1) cap dict_okI [OF w(2)] unfolding apply_op_def decoder_ok_def by auto
  next
    case bad
    then show ?thesis using run d by (auto simp: apply_op_def decoderDict_writeMatch_def)
  next
    case good
    define dist where "dist = nat (m_distance (op_match op))"
    define n where "n = nat (m_n (op_match op))"
    have m: "m_distance (op_match op) = int dist" "m_n (op_match op) = int n" "1 \<le> dist" "1 \<le> n" "n \<le> nat maxMatchLen"
      using op good(1) by (auto simp: op_bounds_def dist_def n_def)
    have "n \<le> room d" using m(5) room by simp
    moreover have "dist \<le> length h" "dist \<le> buffer_Cap (dd_buf (d_Dict d))" using good(2) m(1) dictLen_rep [OF r(2)] by simp_all
    ultimately obtain dict where w: "decoderDict_writeMatch (d_Dict d) (int dist) (int n) = (None, dict)"
      "dd_rep h0 (lz_copy dist n h) R dict" "buffer_Cap (dd_buf dict) = buffer_Cap (dd_buf (d_Dict d))"
      using dd_writeMatch [OF r(2) m(3) _ _ m(4,5)] by blast
    have "decoderDict_Available dict < room d"
      using dd_Available [OF w(2)] w(3) av \<open>n \<le> room d\<close> m(4) dd_repD [OF r(2)] by (simp add: ring_def)
    then show ?thesis using good(1) m(1,2) w run r(1) cap dict_okI [OF w(2)] unfolding apply_op_def decoder_ok_def by auto
  qed
  then show "decoder_ok d'" "err \<noteq> Some LzPanic" "err \<noteq> Some (LzIo EOF)" "err = None \<Longrightarrow> room d' < room d" by auto
qed

lemma decoder_ok_eos [simp]: "decoder_ok (d\<lparr>d_eos := b\<rparr>) = decoder_ok d"
  by (simp add: decoder_ok_def)

lemma fail_ok:
  assumes "decoder_ok d" "err \<noteq> LzPanic" "decompress_fail err d = (err', d')"
  shows "decoder_ok d'" "err' \<noteq> LzPanic" "err' = LzIo EOF \<Longrightarrow> d_eos d'"
  using assms by (auto simp: decompress_fail_def Let_def errDataAfterEOS_def errSize_def split: if_splits)

lemma done_ok:
  assumes d: "decoder_ok d" and run: "decompress_done d = (err, d')"
  shows "decoder_ok d'" "err \<noteq> LzPanic" "err = LzIo EOF \<Longrightarrow> d_eos d'"
proof -
  obtain res e where r: "decoder_readOp (d\<lparr>d_eos := True\<rparr>) = (res, e)" by fastforce
  have "d_eos e" using r by (auto simp: decoder_readOp_def split: prod.splits)
  with readOp_ok [OF _ r] d run r show "decoder_ok d'" "err \<noteq> LzPanic" "err = LzIo EOF \<Longrightarrow> d_eos d'"
    by (auto simp: decompress_done_def Let_def errSize_def split: if_splits sum.splits)
qed

lemma step_ok:
  assumes d: "decoder_ok d" and room: "maxMatchLen \<le> int (room d)" and run: "decompress_step d = (err, d')"
  shows "decoder_ok d' \<and> err \<noteq> Some LzPanic \<and> (err = None \<longrightarrow> room d' < room d) \<and> (err = Some (LzIo EOF) \<longrightarrow> d_eos d')"
proof -
  obtain res d1 where r: "decoder_readOp d = (res, d1)" by fastforce
  note ok = readOp_ok [OF d r]
  show ?thesis
  proof (cases res)
    case (Inl e)
    then show ?thesis using run r ok fail_ok [OF ok(1), of e] by (auto simp: decompress_step_def split: prod.splits)
  next
    case (Inr op)
    then have op: "op_bounds op" using ok(2) by simp
    obtain err2 d2 where a: "apply_op op d1 = (err2, d2)" by fastforce
    have "maxMatchLen \<le> int (room d1)" using room ok(3) by simp
    note ok2 = apply_op_ok [OF ok(1) op this a]
    obtain err3 d3 where dn: "decompress_done d2 = (err3, d3)" by fastforce
    show ?thesis
      using run r Inr a ok2 ok(3) dn done_ok [OF ok2(1) dn] unfolding decompress_step_def
      by (auto split: option.splits if_splits)
  qed
qed

lemma loop_ok:
  assumes "decoder_ok d"
  shows "\<exists>err d'. decompress_loop d = Some (err, d') \<and> decoder_ok d' \<and> err \<noteq> Some LzPanic \<and>
    (err = None \<longrightarrow> int (room d') < maxMatchLen) \<and> (err = Some (LzIo EOF) \<longrightarrow> d_eos d')"
  using assms
proof (induction "room d" arbitrary: d rule: less_induct)
  case less
  show ?case
  proof (cases "int (room d) < maxMatchLen")
    case True
    then show ?thesis using less.prems by (subst decompress_loop.simps) simp
  next
    case False
    obtain err d1 where s: "decompress_step d = (err, d1)" by fastforce
    note ok = step_ok [OF less.prems _ s]
    show ?thesis
    proof (cases err)
      case None
      then have "room d1 < room d" "decoder_ok d1" using ok False by simp_all
      from less.hyps [OF this] show ?thesis using False s None by (subst decompress_loop.simps) simp
    next
      case (Some e)
      then show ?thesis using False s ok by (subst decompress_loop.simps) simp
    qed
  qed
qed

lemma dict_read_ok:
  assumes d: "decoder_ok d" and rd: "decoderDict_Read (d_Dict d) k = (q, dict)"
  shows "decoder_ok (d\<lparr>d_Dict := dict\<rparr>)" "length q \<le> k" "q = [] \<Longrightarrow> 0 < k \<Longrightarrow> maxMatchLen \<le> int (room d)"
proof -
  obtain p h0 h R where r: "state_safe p (d_State d)" "dd_rep h0 h R (d_Dict d)"
    and cap: "maxMatchLen \<le> int (buffer_Cap (dd_buf (d_Dict d)))" using d by (auto simp: decoder_ok_def dict_ok_def)
  note rr = dd_Read [OF r(2) rd]
  show "decoder_ok (d\<lparr>d_Dict := dict\<rparr>)" using r(1) rr(2,3) cap by (auto simp: decoder_ok_def intro: dict_okI)
  show "length q \<le> k" using rr(1) by simp
  assume "q = []" "0 < k"
  then have "drop R (h0 @ h) = []" using rr(1) by (simp del: drop_append)
  then have "length (h0 @ h) \<le> R" by (simp only: drop_eq_Nil)
  then show "maxMatchLen \<le> int (room d)" using dd_Available [OF r(2)] cap by simp
qed

text \<open>A round that reads nothing is followed by one that does or by the end.\<close>

lemma Read_from_ok:
  assumes "decoder_ok d" "length acc \<le> k"
  shows "\<exists>out err d'. decoder_Read_from k acc d = Some (out, err, d') \<and> decoder_ok d' \<and> err \<noteq> Some LzPanic \<and>
    length out \<le> k \<and> (err = None \<longrightarrow> length out = k)"
  using assms
proof (induction "2 * (k - length acc) + (if d_eos d \<or> int (room d) < maxMatchLen then 0 else 1)"
    arbitrary: d acc rule: less_induct)
  case less
  obtain q dict where rd: "decoderDict_Read (d_Dict d) (k - length acc) = (q, dict)" by fastforce
  define d1 where "d1 = d\<lparr>d_Dict := dict\<rparr>"
  note r = dict_read_ok [OF less.prems(1) rd, folded d1_def]
  have unfold: "decoder_Read_from k acc d =
      (if q = [] \<and> d_eos d then Some (acc @ q, Some (LzIo EOF), d1)
       else if length (acc @ q) \<ge> k then Some (acc @ q, None, d1)
       else case decompress d1 of None \<Rightarrow> None
         | Some (err, d) \<Rightarrow> if err \<noteq> None \<and> err \<noteq> Some (LzIo EOF) then Some (acc @ q, err, d)
             else decoder_Read_from k (acc @ q) d)"
    by (subst decoder_Read_from.simps) (simp add: rd d1_def Let_def)
  have le: "length (acc @ q) \<le> k" using r(2) less.prems(2) by simp
  show ?case
  proof (cases "(q = [] \<and> d_eos d) \<or> length (acc @ q) \<ge> k")
    case True
    then show ?thesis using r(1) le unfolding unfold by auto
  next
    case False
    obtain err d2 where d2: "decompress d1 = Some (err, d2)" "decoder_ok d2" "err \<noteq> Some LzPanic"
      "err = None \<longrightarrow> int (room d2) < maxMatchLen" "err = Some (LzIo EOF) \<longrightarrow> d_eos d2"
      using loop_ok [OF r(1)] r(1) unfolding decompress_def by (cases "d_eos d1") auto
    show ?thesis
    proof (cases "err = None \<or> err = Some (LzIo EOF)")
      case True
      then have z: "d_eos d2 \<or> int (room d2) < maxMatchLen" using d2(4,5) by blast
      have "2 * (k - length (acc @ q)) + 0 < 2 * (k - length acc) + (if d_eos d \<or> int (room d) < maxMatchLen then 0 else 1)"
      proof (cases "q = []")
        case True
        then show ?thesis using False r(3) by auto
      next
        case q: False
        then have "0 < length q" by simp
        then have "k - length (acc @ q) < k - length acc" using le unfolding length_append by arith
        then show ?thesis by simp
      qed
      from less.hyps [OF _ d2(2) le] this z show ?thesis using False True d2(1) unfolding unfold by auto
    next
      case stop: False
      then show ?thesis using False d2 le unfolding unfold by auto
    qed
  qed
qed

section \<open>Files\<close>

text \<open>Calls of \<open>Read\<close> with buffers of the given sizes, each with its result, also after an error.\<close>

fun Reader_reads :: "nat list \<Rightarrow> Reader \<Rightarrow> ((byte list \<times> lzma_error option) list \<times> Reader) option" where
  "Reader_reads [] r = Some ([], r)"
| "Reader_reads (k # ks) r =
     (case Reader_Read k r of
        None \<Rightarrow> None
      | Some (p, err, r) \<Rightarrow> (case Reader_reads ks r of None \<Rightarrow> None | Some (rs, r) \<Rightarrow> Some ((p, err) # rs, r)))"

fun good_read :: "nat \<Rightarrow> byte list \<times> lzma_error option \<Rightarrow> bool" where
  "good_read k (p, err) \<longleftrightarrow> length p \<le> k \<and> err \<noteq> Some LzPanic \<and> (err = None \<longrightarrow> length p = k)"

lemma Reader_reads_ok:
  "decoder_ok (r_d r) \<Longrightarrow> \<exists>rs r'. Reader_reads ks r = Some (rs, r') \<and> list_all2 good_read ks rs"
proof (induction ks arbitrary: r)
  case (Cons k ks)
  obtain out err d' where d: "decoder_Read_from k [] (r_d r) = Some (out, err, d')" "decoder_ok d'" "good_read k (out, err)"
    using Read_from_ok [OF Cons.prems, of "[]" k] by auto
  from Cons.IH [of "r\<lparr>r_d := d'\<rparr>"] d show ?case by (auto simp: Reader_Read_def decoder_Read_def)
qed simp

lemma updateCode_no_panic: "updateCode d \<noteq> (Inl LzPanic, d')"
  by (simp add: updateCode_def br_ReadByte_def split: list.split)

lemma updates_no_panic: "updates n d \<noteq> (Inl LzPanic, d')"
  by (induction n arbitrary: d) (auto simp: lret_def lbind_def updateCode_no_panic split: prod.split sum.split)

lemma newRangeDecoder_no_panic: "newRangeDecoder br \<noteq> (Inl LzPanic, br')"
  using updates_no_panic by (auto simp: newRangeDecoder_def br_ReadByte_def split: list.split prod.split sum.split)

lemma newDecoder_no_panic: "newDecoder br s dict sz \<noteq> Inl LzPanic"
  using newRangeDecoder_no_panic by (auto simp: newDecoder_def split: prod.split sum.split)

lemma newDecoder_ok:
  assumes "newState p = Inr s" "Properties_verify p = None" "newDecoderDict c = Inr dict" "maxMatchLen \<le> c"
    and "newDecoder br s dict sz = Inr d"
  shows "decoder_ok d"
  using newState_safe [OF assms(1,2)] dd_new [OF assms(3)] assms(4,5)
  by (auto simp: newDecoder_def decoder_ok_def intro: dict_okI split: prod.splits sum.splits)

lemma newState_total:
  assumes "Properties_verify p = None"
  shows "\<exists>s. newState p = Inr s"
proof -
  obtain lc dc where i: "lengthCodec_init = Inr lc" "distCodec_init = Inr dc" using lengthCodec_init_ok distCodec_init_ok by blast
  show ?thesis unfolding newState_def state_Reset_def i
    using assms by (simp add: verify_None literalCodec_init_def lclppb_defs)
qed

lemma dict_size_bounds: "MinDictCap \<le> dict_size h" "dict_size h \<le> MaxDictCap"
  using uint_bounded [of "hdr_DictSize h"] by (auto simp: dict_size_def Let_def MinDictCap_def MaxDictCap_def)

lemma unmarshal_ok: "unmarshalBinary data = Inr h \<Longrightarrow> Properties_verify (hdr_Properties h) = None"
  by (auto simp: unmarshalBinary_def Let_def sbind_Inr_iff dest: PropertiesForCode_ok(1) split: if_splits)

lemma unmarshal_no_panic: "unmarshalBinary data \<noteq> Inl LzPanic"
  by (auto simp: unmarshalBinary_def Let_def sbind_Inl_iff PropertiesForCode_def)

lemma ReadFull_no_panic: "br_ReadFull n br \<noteq> (Inl LzPanic, br')"
  by (simp add: br_ReadFull_def)

lemma NewReader_no_panic: "NewReader dictCap br \<noteq> Inl LzPanic"
proof
  assume p: "NewReader dictCap br = Inl LzPanic"
  obtain res br' where f: "br_ReadFull HeaderLen br = (res, br')" by fastforce
  from p f obtain data where data: "res = Inr data"
    by (cases res) (auto simp: NewReader_def ReadFull_no_panic ReaderConfig_Verify_def Let_def sbind_Inl_iff split: if_splits)
  with p f obtain h where h: "unmarshalBinary data = Inr h"
    by (cases "unmarshalBinary data") (auto simp: NewReader_def unmarshal_no_panic ReaderConfig_Verify_def Let_def split: if_splits)
  obtain s where s: "newState (hdr_Properties h) = Inr s" using newState_total [OF unmarshal_ok [OF h]] by blast
  show False using p f data h s newDecoder_no_panic
    by (auto simp: NewReader_def ReaderConfig_Verify_def newDecoderDict_def Let_def sbind_Inl_iff split: if_splits)
qed

lemma NewReader_safe:
  assumes "NewReader dictCap br = Inr r"
  shows "decoder_ok (r_d r)"
proof -
  obtain res br' where f: "br_ReadFull HeaderLen br = (res, br')" by fastforce
  obtain data where data: "res = Inr data" using assms f by (cases res) (auto simp: NewReader_def sbind_Inr_iff)
  obtain h s dict where h: "unmarshalBinary data = Inr h"
    and s: "newState (hdr_Properties h) = Inr s" "newDecoderDict (dict_size h) = Inr dict"
      "newDecoder br' s dict (hdr_Size h) = Inr (r_d r)"
    using assms f data by (auto simp: NewReader_def sbind_Inr_iff split: if_splits)
  have "maxMatchLen \<le> dict_size h"
    using dict_size_bounds(1) [of h] by (simp add: MinDictCap_def maxMatchLen_def minMatchLen_def)
  then show ?thesis using newDecoder_ok [OF s(1) unmarshal_ok [OF h] s(2) _ s(3)] by simp
qed

text \<open>
  C6. The reader of LZMA files on arbitrary bytes, in any configuration: \<open>NewReader\<close> does not panic,
  and every later call of \<open>Read\<close> returns, also one after an error; it never panics and never writes
  past the buffer, and it fills the buffer unless it reports an error or the end.
\<close>

theorem lzma_reader_total:
  "NewReader dictCap br \<noteq> Inl LzPanic \<and>
   (NewReader dictCap br = Inr r \<longrightarrow> (\<exists>rs r'. Reader_reads ks r = Some (rs, r') \<and> list_all2 good_read ks rs))"
  using NewReader_no_panic Reader_reads_ok [OF NewReader_safe] by blast

text \<open>A file whose header is accepted and whose stream is broken.\<close>

definition broken_file :: byte_reader where
  "broken_file = \<lparr>br_data = [0x5d, 0, 0x10, 0, 0, 0xff, 0xff, 0xff, 0xff, 0xff, 0xff, 0xff, 0xff, 0, 1, 2, 3, 4, 5], br_end = EOF\<rparr>"

lemma broken_file_reader: "\<exists>r. NewReader 0 broken_file = Inr r"
proof -
  define h where "h = \<lparr>hdr_Properties = \<lparr>LC = 3, LP = 0, PB = 2\<rparr>, hdr_DictSize = 4096, hdr_Size = -1\<rparr>"
  have "Properties_verify (hdr_Properties h) = None" by (simp add: h_def verify_None)
  then obtain s where s: "newState (hdr_Properties h) = Inr s" using newState_total by blast
  have u: "unmarshalBinary [0x5d, 0, 0x10, 0, 0, 0xff, 0xff, 0xff, 0xff, 0xff, 0xff, 0xff, 0xff] = Inr h" unfolding h_def by code_simp
  have c: "ReaderConfig_Verify 0 = Inr (2 ^ 31 - 1)" by code_simp
  have d: "newDecoderDict (dict_size h) = Inr \<lparr>dd_buf = newBuffer 4096, dd_head = 0\<rparr>"
    by (simp add: h_def dict_size_def newDecoderDict_def MinDictCap_def MaxDictCap_def)
  have rd: "newRangeDecoder \<lparr>br_data = [0, 1, 2, 3, 4, 5], br_end = EOF\<rparr> =
      (Inr \<lparr>rd_br = \<lparr>br_data = [5], br_end = EOF\<rparr>, rd_nrange = 0xffffffff, rd_code = 0x01020304\<rparr>,
       \<lparr>br_data = [5], br_end = EOF\<rparr>)" by code_simp
  have f: "br_ReadFull HeaderLen broken_file = (Inr [0x5d, 0, 0x10, 0, 0, 0xff, 0xff, 0xff, 0xff, 0xff, 0xff, 0xff, 0xff],
      \<lparr>br_data = [0, 1, 2, 3, 4, 5], br_end = EOF\<rparr>)"
    by (simp add: br_ReadFull_def broken_file_def HeaderLen_def)
  have small: "uint (hdr_DictSize h) \<le> 2 ^ 31 - 1" "hdr_Size h \<le> maxStreamSize" by (simp_all add: h_def maxStreamSize_def)
  show ?thesis using s small rd by (simp add: NewReader_def c f u d newDecoder_def)
qed

lemma lzma_reader_total_witness:
  "\<exists>r rs r'. NewReader 0 broken_file = Inr r \<and> Reader_reads [3, 1000] r = Some (rs, r') \<and> list_all2 good_read [3, 1000] rs"
  using lzma_reader_total [of 0 broken_file _ "[3, 1000]"] broken_file_reader by blast

end
