(* ===== verification/Xpress.thy ===== *)
theory Xpress
  imports Prelude
begin

text \<open>
  \<open>internal/wim/xpress/xpress.go\<close>: the decoder of the LZ77 and Huffman variant of Microsoft XPRESS.
  The bits are read from a 32-bit window that is refilled with 16-bit words. An index out of range
  is the value \<open>XpPanic\<close>; the main loop is a \<open>partial_function\<close>, whose \<open>None\<close> is a loop without end.
\<close>

section \<open>Input\<close>

datatype xp_error = XpTruncated | XpError string | XpPanic

definition huffmanSymbols :: nat where "huffmanSymbols = 512"
definition huffmanTableBits :: nat where "huffmanTableBits = 15"
definition huffmanTableLength :: nat where "huffmanTableLength = 2 ^ huffmanTableBits"

record xp_input =
  xi_data :: "byte list"
  xi_pos :: nat

text \<open>The reads \<open>in.data[i]\<close> and \<open>binary.LittleEndian.Uint16(in.data[i:])\<close>.\<close>

definition xp_byte_at :: "byte list \<Rightarrow> nat \<Rightarrow> xp_error + byte" where
  "xp_byte_at data i = (if i < length data then Inr (data ! i) else Inl XpPanic)"

definition xp_uint16_at :: "byte list \<Rightarrow> nat \<Rightarrow> xp_error + u16" where
  "xp_uint16_at data i = (if i + 1 < length data then Inr (le_word (take 2 (drop i data))) else Inl XpPanic)"

definition xp_readByte :: "xp_input \<Rightarrow> xp_error + byte \<times> xp_input" where
  "xp_readByte i =
     (if xi_pos i \<ge> length (xi_data i) then Inl XpTruncated
      else sbind (xp_byte_at (xi_data i) (xi_pos i)) (\<lambda>value. Inr (value, i\<lparr>xi_pos := xi_pos i + 1\<rparr>)))"

definition xp_readUint16 :: "xp_input \<Rightarrow> xp_error + u16 \<times> xp_input" where
  "xp_readUint16 i =
     (if xi_pos i + 2 > length (xi_data i) then Inl XpTruncated
      else sbind (xp_uint16_at (xi_data i) (xi_pos i)) (\<lambda>value. Inr (value, i\<lparr>xi_pos := xi_pos i + 2\<rparr>)))"

section \<open>The table of codes\<close>

text \<open>Two lengths of four bits in a byte.\<close>

definition symbolLength :: "byte list \<Rightarrow> nat \<Rightarrow> xp_error + nat" where
  "symbolLength lengths symbol =
     (if symbol div 2 \<ge> length lengths then Inl XpPanic
      else if symbol mod 2 = 0 then Inr (unat (lengths ! (symbol div 2) AND 0x0f))
      else Inr (unat (drop_bit 4 (lengths ! (symbol div 2)))))"

text \<open>
  The loop over the symbols for one length. The entries of the table up to \<open>tableIndex\<close> are a list;
  a store behind the end of the array is a panic.
\<close>

definition fill_entries :: "nat \<Rightarrow> u16 \<Rightarrow> u16 list \<Rightarrow> xp_error + u16 list" where
  "fill_entries n v table =
     (if length table + n > huffmanTableLength then Inl XpPanic else Inr (table @ replicate n v))"

fun fill_symbols :: "byte list \<Rightarrow> nat \<Rightarrow> nat list \<Rightarrow> u16 list \<Rightarrow> xp_error + u16 list" where
  "fill_symbols lengths bitLength [] table = Inr table"
| "fill_symbols lengths bitLength (symbol # symbols) table =
     sbind (symbolLength lengths symbol) (\<lambda>l.
       if l \<noteq> bitLength then fill_symbols lengths bitLength symbols table
       else
         let entries = 2 ^ (huffmanTableBits - bitLength) in
         if length table + entries > huffmanTableLength then Inl (XpError ''invalid XPRESS Huffman table'')
         else sbind (fill_entries entries (of_nat symbol) table) (fill_symbols lengths bitLength symbols))"

fun fill_lengths :: "byte list \<Rightarrow> nat list \<Rightarrow> u16 list \<Rightarrow> xp_error + u16 list" where
  "fill_lengths lengths [] table = Inr table"
| "fill_lengths lengths (bitLength # bitLengths) table =
     sbind (fill_symbols lengths bitLength [0..<huffmanSymbols] table) (fill_lengths lengths bitLengths)"

definition huffman_table :: "byte list \<Rightarrow> xp_error + u16 list" where
  "huffman_table lengths =
     sbind (fill_lengths lengths [1..<huffmanTableBits + 1] []) (\<lambda>table.
       if length table \<noteq> huffmanTableLength then Inl (XpError ''incomplete XPRESS Huffman table'') else Inr table)"

section \<open>The window of bits\<close>

record xp_state =
  xs_in :: xp_input
  xs_bits :: u32
  xs_extra :: int
  xs_out :: "byte list"

text \<open>A shift by a negative count is a panic.\<close>

definition xp_consume :: "int \<Rightarrow> xp_state \<Rightarrow> xp_error + xp_state" where
  "xp_consume count s =
     (if count < 0 then Inl XpPanic
      else
        let s = s\<lparr>xs_bits := push_bit (nat count) (xs_bits s), xs_extra := xs_extra s - count\<rparr> in
        if xs_extra s < 0
        then sbind (xp_readUint16 (xs_in s)) (\<lambda>(word, i).
               Inr (s\<lparr>xs_in := i, xs_bits := xs_bits s OR push_bit (nat (- xs_extra s)) (ucast word),
                      xs_extra := xs_extra s + 16\<rparr>))
        else Inr s)"

section \<open>Symbols and matches\<close>

definition xp_start :: "byte list \<Rightarrow> xp_error + xp_state" where
  "xp_start data =
     sbind (xp_readUint16 \<lparr>xi_data = data, xi_pos = huffmanSymbols div 2\<rparr>) (\<lambda>(first, i).
     sbind (xp_readUint16 i) (\<lambda>(second, i).
       Inr \<lparr>xs_in = i, xs_bits = push_bit 16 (ucast first) OR ucast second, xs_extra = 16, xs_out = []\<rparr>))"

definition xp_symbol :: "byte list \<Rightarrow> u16 list \<Rightarrow> xp_state \<Rightarrow> xp_error + nat \<times> xp_state" where
  "xp_symbol lengths table s =
     (let i = unat (drop_bit (32 - huffmanTableBits) (xs_bits s)) in
      if i \<ge> length table then Inl XpPanic
      else
        let symbol = unat (table ! i) in
        sbind (symbolLength lengths symbol) (\<lambda>l.
          if l = 0 then Inl (XpError ''invalid zero-length XPRESS symbol'')
          else sbind (xp_consume (int l) s) (\<lambda>s. Inr (symbol, s))))"

definition xp_matchLength :: "nat \<Rightarrow> xp_state \<Rightarrow> xp_error + nat \<times> xp_state" where
  "xp_matchLength code s =
     (if code = 0x0f
      then sbind (xp_readByte (xs_in s)) (\<lambda>(value, i).
             if value = 0xff
             then sbind (xp_readUint16 i) (\<lambda>(extended, i). Inr (unat extended + 3, s\<lparr>xs_in := i\<rparr>))
             else Inr (unat value + 0x0f + 3, s\<lparr>xs_in := i\<rparr>))
      else Inr (code + 3, s))"

definition xp_distance :: "nat \<Rightarrow> xp_state \<Rightarrow> xp_error + nat \<times> xp_state" where
  "xp_distance distanceBits s =
     (if distanceBits \<noteq> 0
      then sbind (xp_consume (int distanceBits) s) (\<lambda>s'.
             Inr (unat (drop_bit (32 - distanceBits) (xs_bits s)) + 2 ^ distanceBits, s'))
      else Inr (1, s))"

fun xp_copy :: "nat \<Rightarrow> nat \<Rightarrow> byte list \<Rightarrow> xp_error + byte list" where
  "xp_copy distance 0 output = Inr output"
| "xp_copy distance (Suc n) output =
     (if distance = 0 \<or> distance > length output then Inl XpPanic
      else xp_copy distance n (output @ [output ! (length output - distance)]))"

text \<open>One round of the main loop.\<close>

definition xp_step :: "nat \<Rightarrow> byte list \<Rightarrow> u16 list \<Rightarrow> xp_state \<Rightarrow> xp_error + xp_state" where
  "xp_step outputSize lengths table s =
     sbind (xp_symbol lengths table s) (\<lambda>(symbol, s).
       if symbol < 256 then Inr (s\<lparr>xs_out := xs_out s @ [of_nat symbol]\<rparr>)
       else
         sbind (xp_matchLength ((symbol - 256) mod 16) s) (\<lambda>(matchLength, s).
           if matchLength > outputSize - length (xs_out s) then Inl (XpError ''XPRESS match exceeds output size'')
           else
             sbind (xp_distance ((symbol - 256) div 16) s) (\<lambda>(distance, s).
               if distance > length (xs_out s) then Inl (XpError ''invalid XPRESS match distance'')
               else sbind (xp_copy distance matchLength (xs_out s)) (\<lambda>output. Inr (s\<lparr>xs_out := output\<rparr>)))))"

partial_function (option) xp_loop :: "nat \<Rightarrow> byte list \<Rightarrow> u16 list \<Rightarrow> xp_state \<Rightarrow> (xp_error + byte list) option" where
  "xp_loop outputSize lengths table s =
     (if length (xs_out s) \<ge> outputSize then Some (Inr (xs_out s))
      else case xp_step outputSize lengths table s of
             Inl e \<Rightarrow> Some (Inl e)
           | Inr s \<Rightarrow> xp_loop outputSize lengths table s)"

definition Decompress :: "byte list \<Rightarrow> int \<Rightarrow> (xp_error + byte list) option" where
  "Decompress data outputSize =
     (if outputSize < 0 then Some (Inl (XpError ''negative XPRESS output size''))
      else if outputSize = 0 then Some (Inr [])
      else if length data < huffmanSymbols div 2 + 4 then Some (Inl XpTruncated)
      else if length data < huffmanSymbols div 2 then Some (Inl XpPanic) \<comment> \<open>\<open>data[:huffmanSymbols/2]\<close>\<close>
      else
        let lengths = take (huffmanSymbols div 2) data in
        case huffman_table lengths of
          Inl e \<Rightarrow> Some (Inl e)
        | Inr table \<Rightarrow>
            (case xp_start data of
               Inl e \<Rightarrow> Some (Inl e)
             | Inr s \<Rightarrow> xp_loop (nat outputSize) lengths table s))"

declare xp_loop.simps [code]

end
