(* ===== verification/XpressProps.thy ===== *)
theory XpressProps
  imports Xpress
begin

text \<open>
  The XPRESS decoder: its table is the one of a complete canonical prefix code, and on any input it
  returns exactly as many bytes as asked for, or an error.
\<close>

section \<open>The table of codes\<close>

definition code_len :: "byte list \<Rightarrow> nat \<Rightarrow> nat" where
  "code_len lengths symbol =
     (if even symbol then unat (lengths ! (symbol div 2) AND 0x0f) else unat (drop_bit 4 (lengths ! (symbol div 2))))"

lemma code_len_bound: "code_len lengths symbol < 16"
proof -
  have "unat (b AND 0x0f) < 16" for b :: byte
    using word_and_le1 [of b "0x0f"] by (simp add: word_le_nat_alt)
  moreover have "unat (drop_bit 4 b) < 16" for b :: byte
    using unsigned_less [of b, where ?'a = nat]
    unfolding unsigned_drop_bit_eq unfolding drop_bit_eq_div by (simp add: take_bit_nat_eq_self)
  ultimately show ?thesis by (simp add: code_len_def)
qed

lemma symbolLength_code_len: "length lengths = 256 \<Longrightarrow> symbol < 512 \<Longrightarrow> symbolLength lengths symbol = Inr (code_len lengths symbol)"
  using div_less_iff_less_mult [of 2 symbol 256]
  by (auto simp: symbolLength_def code_len_def even_iff_mod_2_eq_zero)

text \<open>The symbols in the order in which the code numbers them, and the slots they fill.\<close>

definition of_len :: "byte list \<Rightarrow> nat \<Rightarrow> nat list" where
  "of_len lengths b = filter (\<lambda>s. code_len lengths s = b) [0..<512]"

definition canonical :: "byte list \<Rightarrow> nat \<Rightarrow> nat list" where
  "canonical lengths m = concat (map (of_len lengths) [1..<m])"

definition slots :: "byte list \<Rightarrow> nat list \<Rightarrow> nat list" where
  "slots lengths ss = concat (map (\<lambda>s. replicate (2 ^ (15 - code_len lengths s)) s) ss)"

lemma slots_append [simp]: "slots lengths (xs @ ys) = slots lengths xs @ slots lengths ys"
  by (simp add: slots_def)

lemma fill_symbols_eq:
  assumes "length lengths = 256" "\<forall>s \<in> set ss. s < 512" "length table \<le> 2 ^ 15"
  shows "fill_symbols lengths b ss table =
    (let new = slots lengths (filter (\<lambda>s. code_len lengths s = b) ss) in
     if length table + length new > 2 ^ 15 then Inl (XpError ''invalid XPRESS Huffman table'')
     else Inr (table @ map of_nat new))"
  using assms(2,3)
proof (induction ss arbitrary: table)
  case (Cons s ss)
  have l: "symbolLength lengths s = Inr (code_len lengths s)" using Cons.prems assms(1) by (intro symbolLength_code_len) auto
  show ?case
  proof (cases "code_len lengths s = b \<and> length table + 2 ^ (15 - b) \<le> 2 ^ 15")
    case True
    with Cons.IH [of "table @ replicate (2 ^ (15 - b)) (of_nat s)"] Cons.prems l show ?thesis
      by (simp add: fill_entries_def huffmanTableBits_def huffmanTableLength_def slots_def Let_def ac_simps)
  next
    case False
    with Cons.IH [of table] Cons.prems l show ?thesis
      by (auto simp: huffmanTableBits_def huffmanTableLength_def slots_def Let_def)
  qed
qed (simp add: slots_def)

lemma fill_lengths_eq:
  assumes "length lengths = 256" "length table \<le> 2 ^ 15"
  shows "fill_lengths lengths bs table =
    (let new = slots lengths (concat (map (of_len lengths) bs)) in
     if length table + length new > 2 ^ 15 then Inl (XpError ''invalid XPRESS Huffman table'')
     else Inr (table @ map of_nat new))"
  using assms(2)
proof (induction bs arbitrary: table)
  case (Cons b bs)
  have f: "fill_symbols lengths b [0..<huffmanSymbols] table =
      (let new = slots lengths (of_len lengths b) in
       if length table + length new > 2 ^ 15 then Inl (XpError ''invalid XPRESS Huffman table'') else Inr (table @ map of_nat new))"
    using fill_symbols_eq [OF assms(1) _ Cons.prems, of "[0..<512]" b] by (simp add: of_len_def huffmanSymbols_def)
  show ?case
  proof (cases "length table + length (slots lengths (of_len lengths b)) > 2 ^ 15")
    case True
    then show ?thesis using f by (simp add: Let_def)
  next
    case False
    then show ?thesis using f Cons.IH [of "table @ map of_nat (slots lengths (of_len lengths b))"] by (simp add: Let_def ac_simps)
  qed
qed (simp add: slots_def)

lemma huffman_table_eq:
  assumes "length lengths = 256"
  shows "huffman_table lengths =
    (let new = slots lengths (canonical lengths 16) in
     if length new > 2 ^ 15 then Inl (XpError ''invalid XPRESS Huffman table'')
     else if length new < 2 ^ 15 then Inl (XpError ''incomplete XPRESS Huffman table'')
     else Inr (map of_nat new))"
  using fill_lengths_eq [OF assms, of "[]" "[1..<16]"]
  by (auto simp: huffman_table_def huffmanTableBits_def huffmanTableLength_def canonical_def Let_def)

section \<open>The canonical order\<close>

definition rank :: "byte list \<Rightarrow> nat \<Rightarrow> nat" where
  "rank lengths s = 512 * code_len lengths s + s"

lemma canonical_ranks: "\<forall>s \<in> set (canonical lengths m). s < 512 \<and> 1 \<le> code_len lengths s \<and> rank lengths s < 512 * m"
  by (auto simp: canonical_def of_len_def rank_def)

lemma of_len_sorted: "sorted (map (rank lengths) (of_len lengths b))"
proof -
  have "map (rank lengths) (of_len lengths b) = map (\<lambda>s. 512 * b + s) (of_len lengths b)"
    by (simp add: of_len_def rank_def)
  moreover have "sorted (of_len lengths b)" by (simp add: of_len_def sorted_wrt_filter)
  then have "sorted (map (\<lambda>s. 512 * b + s) (of_len lengths b))"
    by (simp add: sorted_map sorted_wrt_iff_nth_less)
  ultimately show ?thesis by (simp only:)
qed

lemma canonical_Suc: "1 \<le> m \<Longrightarrow> canonical lengths (Suc m) = canonical lengths m @ of_len lengths m"
  by (simp add: canonical_def)

lemma canonical_sorted: "sorted (map (rank lengths) (canonical lengths m))"
proof (induction m)
  case (Suc m)
  show ?case
  proof (cases "1 \<le> m")
    case True
    have "\<forall>s \<in> set (of_len lengths m). 512 * m \<le> rank lengths s" by (auto simp: of_len_def rank_def)
    then show ?thesis using Suc.IH canonical_ranks [of lengths m] of_len_sorted [of lengths m]
      by (fastforce simp: canonical_Suc [OF True] sorted_append)
  qed (simp add: canonical_def)
qed (simp add: canonical_def)

lemma canonical_distinct: "distinct (canonical lengths m)"
proof (induction m)
  case (Suc m)
  show ?case
  proof (cases "1 \<le> m")
    case True
    have "set (canonical lengths m) \<inter> set (of_len lengths m) = {}"
      by (auto simp: canonical_def of_len_def)
    then show ?thesis using Suc.IH by (simp add: canonical_Suc [OF True] of_len_def)
  qed (simp add: canonical_def)
qed (simp add: canonical_def)

lemma canonical_set: "set (canonical lengths 16) = {s. s < 512 \<and> code_len lengths s \<noteq> 0}"
  using code_len_bound by (auto simp: canonical_def of_len_def)

lemma slots_sorted: "sorted (map (rank lengths) ss) \<Longrightarrow> sorted (map (rank lengths) (slots lengths ss))"
  by (induction ss) (auto simp: slots_def sorted_append)

lemma slots_count: "distinct ss \<Longrightarrow> count_list (slots lengths ss) s = (if s \<in> set ss then 2 ^ (15 - code_len lengths s) else 0)"
proof (induction ss)
  case (Cons x ss)
  have r: "count_list (replicate n x) s = (if x = s then n else 0)" for n by (induction n) auto
  show ?case using Cons by (auto simp: slots_def r)
qed (simp add: slots_def)

lemma slots_length: "length (slots lengths ss) = (\<Sum>s\<leftarrow>ss. 2 ^ (15 - code_len lengths s))"
  by (induction ss) (simp_all add: slots_def)

text \<open>The sum of Kraft for the lengths, in units of \<open>2 ^ -15\<close>.\<close>

definition kraft :: "byte list \<Rightarrow> nat" where
  "kraft lengths = (\<Sum>s\<leftarrow>[0..<512]. if code_len lengths s = 0 then 0 else 2 ^ (15 - code_len lengths s))"

lemma canonical_kraft: "length (slots lengths (canonical lengths 16)) = kraft lengths"
proof -
  have "length (slots lengths (canonical lengths 16)) = (\<Sum>s \<in> set (canonical lengths 16). 2 ^ (15 - code_len lengths s))"
    unfolding slots_length by (rule sum_list_distinct_conv_sum_set [OF canonical_distinct])
  also have "\<dots> = (\<Sum>s \<in> {..<512}. if code_len lengths s = 0 then 0 else 2 ^ (15 - code_len lengths s))"
    unfolding canonical_set by (rule sum.mono_neutral_cong_left) auto
  also have "\<dots> = kraft lengths"
    unfolding kraft_def by (simp add: sum_list_distinct_conv_sum_set atLeast0LessThan)
  finally show ?thesis .
qed

lemma unat_u16: "x < 512 \<Longrightarrow> unat (of_nat x :: u16) = x"
  by (rule unat_of_nat_small) simp

lemma of_nat_u16: "x < 512 \<Longrightarrow> y < 512 \<Longrightarrow> (of_nat x :: u16) = of_nat y \<longleftrightarrow> x = y"
  using unat_u16 [of x] unat_u16 [of y] by (auto simp: word_unat_eq_iff)

lemma count_of_nat: "\<forall>x \<in> set xs. x < 512 \<Longrightarrow> s < 512 \<Longrightarrow> count_list (map of_nat xs :: u16 list) (of_nat s) = count_list xs s"
  by (induction xs) (auto simp: of_nat_u16)

definition is_canonical :: "byte list \<Rightarrow> u16 list \<Rightarrow> bool" where
  "is_canonical lengths table \<longleftrightarrow> length table = 2 ^ 15 \<and> sorted (map (\<lambda>u. rank lengths (unat u)) table) \<and>
     (\<forall>s \<in> set [0..<512]. count_list table (of_nat s) = (if code_len lengths s = 0 then 0 else 2 ^ (15 - code_len lengths s)))"

lemma canonical_table:
  assumes "kraft lengths = 2 ^ 15"
  shows "is_canonical lengths (map of_nat (slots lengths (canonical lengths 16)))"
proof -
  let ?t = "slots lengths (canonical lengths 16)"
  have b: "\<forall>s \<in> set ?t. s < 512" using canonical_ranks [of lengths 16] by (auto simp: slots_def)
  then have "map (\<lambda>u. rank lengths (unat u)) (map of_nat ?t :: u16 list) = map (rank lengths) ?t" by (simp add: unat_u16)
  moreover have "count_list ?t s = (if code_len lengths s = 0 then 0 else 2 ^ (15 - code_len lengths s))" if "s < 512" for s
    using slots_count [OF canonical_distinct [of lengths 16], of lengths s] that by (simp add: canonical_set)
  ultimately show ?thesis
    using slots_sorted [OF canonical_sorted] canonical_kraft [of lengths] assms
    by (simp only: is_canonical_def length_map) (simp add: count_of_nat [OF b])
qed

text \<open>
  C17. The table of the XPRESS decoder is accepted exactly for complete codes, those whose lengths
  satisfy the equation of Kraft, and it is then the table of the canonical code: it covers all words of
  15 bits, gives every symbol as many of them as its length says, and orders them by length and symbol.
\<close>

theorem huffman_table_canonical:
  assumes "length lengths = 256"
  shows "case huffman_table lengths of
      Inl e \<Rightarrow> kraft lengths \<noteq> 2 ^ 15 \<and> e \<noteq> XpPanic
    | Inr table \<Rightarrow> kraft lengths = 2 ^ 15 \<and> is_canonical lengths table"
  using canonical_table [of lengths] unfolding huffman_table_eq [OF assms] Let_def canonical_kraft by simp

lemma code_len_flat: "s < 512 \<Longrightarrow> code_len (replicate 256 0x99) s = 9"
  using div_less_iff_less_mult [of 2 s 256] by (simp add: code_len_def)

lemma huffman_table_canonical_witness:
  "\<exists>table. huffman_table (replicate 256 0x99) = Inr table \<and> is_canonical (replicate 256 0x99) table"
proof -
  have "kraft (replicate 256 0x99) = (\<Sum>s\<leftarrow>[0..<512]. 64)"
    unfolding kraft_def by (intro arg_cong [where f = sum_list] map_cong) (simp_all add: code_len_flat)
  then have "kraft (replicate 256 0x99) = 2 ^ 15" by (simp add: map_replicate_const sum_list_replicate)
  then show ?thesis using huffman_table_canonical [of "replicate 256 0x99"] by (simp split: sum.splits)
qed

section \<open>The main loop\<close>

definition xp_post :: "('a \<Rightarrow> bool) \<Rightarrow> xp_error + 'a \<Rightarrow> bool" where
  "xp_post Q r = (case r of Inl e \<Rightarrow> e \<noteq> XpPanic | Inr x \<Rightarrow> Q x)"

lemma xp_post_simps [simp]: "xp_post Q (Inl e) \<longleftrightarrow> e \<noteq> XpPanic" "xp_post Q (Inr x) \<longleftrightarrow> Q x"
  by (simp_all add: xp_post_def)

lemma xp_post_sbind: "xp_post R m \<Longrightarrow> (\<And>x. R x \<Longrightarrow> xp_post Q (f x)) \<Longrightarrow> xp_post Q (sbind m f)"
  by (cases m) auto

lemma xp_post_read: "xp_post (\<lambda>_. True) (xp_readByte i)" "xp_post (\<lambda>_. True) (xp_readUint16 i)"
  by (simp_all add: xp_readByte_def xp_readUint16_def xp_byte_at_def xp_uint16_at_def)

lemma xp_consume_post: "0 \<le> count \<Longrightarrow> xp_post (\<lambda>s'. xs_out s' = xs_out s) (xp_consume count s)"
  by (auto simp: xp_consume_def Let_def intro!: xp_post_sbind [OF xp_post_read(2)])

lemma xp_symbol_post:
  assumes "length lengths = 256" "length table = 2 ^ 15" "\<forall>u \<in> set table. unat u < 512"
  shows "xp_post (\<lambda>(symbol, s'). symbol < 512 \<and> xs_out s' = xs_out s) (xp_symbol lengths table s)"
proof -
  define i where "i = unat (drop_bit 17 (xs_bits s))"
  have "unat (xs_bits s) < 2 ^ 32" using unsigned_less [of "xs_bits s", where ?'a = nat] by simp
  then have i: "i < length table"
    unfolding i_def unsigned_drop_bit_eq unfolding drop_bit_eq_div assms(2) by (simp add: take_bit_nat_eq_self)
  then have "unat (table ! i) < 512" using assms(3) by simp
  then show ?thesis using i symbolLength_code_len [OF assms(1)]
    by (auto simp: xp_symbol_def Let_def huffmanTableBits_def i_def [symmetric] not_le
        intro!: xp_post_sbind [OF xp_consume_post])
qed

lemma xp_matchLength_post: "xp_post (\<lambda>(n, s'). 0 < n \<and> xs_out s' = xs_out s) (xp_matchLength code s)"
  by (auto simp: xp_matchLength_def intro!: xp_post_sbind [OF xp_post_read(1)] xp_post_sbind [OF xp_post_read(2)])

lemma xp_distance_post: "xp_post (\<lambda>(dist, s'). 0 < dist \<and> xs_out s' = xs_out s) (xp_distance code s)"
  by (auto simp: xp_distance_def intro!: xp_post_sbind [OF xp_consume_post])

lemma xp_copy_length: "0 < dist \<Longrightarrow> dist \<le> length xs \<Longrightarrow> xp_post (\<lambda>ys. length ys = length xs + n) (xp_copy dist n xs)"
proof (induction n arbitrary: xs)
  case (Suc n)
  from Suc.IH [of "xs @ [xs ! (length xs - dist)]"] Suc.prems show ?case by simp
qed simp

lemma xp_step_post:
  assumes "length lengths = 256" "length table = 2 ^ 15" "\<forall>u \<in> set table. unat u < 512" "length (xs_out s) < outputSize"
  shows "xp_post (\<lambda>s'. length (xs_out s) < length (xs_out s') \<and> length (xs_out s') \<le> outputSize) (xp_step outputSize lengths table s)"
proof -
  have copy: "xp_post (\<lambda>s'. length (xs_out s) < length (xs_out s') \<and> length (xs_out s') \<le> outputSize)
      (sbind (xp_copy dist n (xs_out s)) (\<lambda>output. Inr (s1\<lparr>xs_out := output\<rparr>)))"
    if "0 < n" "n \<le> outputSize - length (xs_out s)" "0 < dist" "dist \<le> length (xs_out s)" for dist n s1
    by (rule xp_post_sbind [OF xp_copy_length]) (use that assms(4) in auto)
  show ?thesis unfolding xp_step_def
    by (rule xp_post_sbind [OF xp_symbol_post [OF assms(1-3)]])
      (use assms(4) in \<open>auto intro!: xp_post_sbind [OF xp_matchLength_post] xp_post_sbind [OF xp_distance_post] copy\<close>)
qed

lemma xp_loop_exact:
  assumes "length lengths = 256" "length table = 2 ^ 15" "\<forall>u \<in> set table. unat u < 512" "length (xs_out s) \<le> outputSize"
  shows "\<exists>r. xp_loop outputSize lengths table s = Some r \<and> xp_post (\<lambda>output. length output = outputSize) r"
  using assms(4)
proof (induction "outputSize - length (xs_out s)" arbitrary: s rule: less_induct)
  case less
  show ?case
  proof (cases "length (xs_out s) < outputSize")
    case True
    note post = xp_step_post [OF assms(1-3) True]
    show ?thesis
    proof (cases "xp_step outputSize lengths table s")
      case (Inl e)
      then show ?thesis using True post by (subst xp_loop.simps) simp
    next
      case (Inr s')
      then have "length (xs_out s) < length (xs_out s')" "length (xs_out s') \<le> outputSize" using post by simp_all
      then have "\<exists>r. xp_loop outputSize lengths table s' = Some r \<and> xp_post (\<lambda>output. length output = outputSize) r"
        using True by (intro less.hyps) auto
      then show ?thesis using True Inr by (subst xp_loop.simps) simp
    qed
  next
    case False
    then show ?thesis using less.prems by (subst xp_loop.simps) simp
  qed
qed

lemma table_entries:
  assumes "length lengths = 256" "huffman_table lengths = Inr table"
  shows "length table = 2 ^ 15" "\<forall>u \<in> set table. unat u < 512"
proof -
  have "table = map of_nat (slots lengths (canonical lengths 16))" "length (slots lengths (canonical lengths 16)) = 2 ^ 15"
    using assms(2) unfolding huffman_table_eq [OF assms(1)] Let_def by (auto split: if_splits)
  moreover have "\<forall>s \<in> set (slots lengths (canonical lengths 16)). s < 512"
    using canonical_ranks [of lengths 16] by (auto simp: slots_def)
  ultimately show "length table = 2 ^ 15" "\<forall>u \<in> set table. unat u < 512" by (auto simp: unat_u16)
qed

text \<open>
  C16. \<open>Decompress\<close> returns on every input, without an index out of range, and its result is an error or
  has exactly the size that was asked for. The reads of the input, the lookups and stores of the table and the copies
  of matches are checked accesses, which the tests of the code keep in range.
\<close>

theorem decompress_exact:
  "\<exists>r. Decompress data outputSize = Some r \<and>
    (case r of Inl e \<Rightarrow> e \<noteq> XpPanic | Inr output \<Rightarrow> int (length output) = outputSize)"
proof -
  let ?l = "take (huffmanSymbols div 2) data"
  consider "outputSize \<le> 0" | "length data < 260" | (run) "0 < outputSize" "260 \<le> length data" by linarith
  then show ?thesis
  proof cases
    case run
    then have l: "length ?l = 256" by (simp add: huffmanSymbols_def)
    have start: "xp_post (\<lambda>s. xs_out s = []) (xp_start data)" unfolding xp_start_def
      by (auto intro!: xp_post_sbind [OF xp_post_read(2)])
    have err: "huffman_table ?l \<noteq> Inl XpPanic" unfolding huffman_table_eq [OF l] Let_def by simp
    show ?thesis
    proof (cases "huffman_table ?l")
      case (Inl e)
      then show ?thesis using run err by (auto simp: Decompress_def huffmanSymbols_def)
    next
      case table: (Inr table)
      show ?thesis
      proof (cases "xp_start data")
        case (Inl e)
        then show ?thesis using run table start by (auto simp: Decompress_def huffmanSymbols_def)
      next
        case (Inr s)
        then have "length (xs_out s) \<le> nat outputSize" using start by simp
        from xp_loop_exact [OF l table_entries [OF l table] this] show ?thesis
          using run table Inr by (auto simp: Decompress_def huffmanSymbols_def xp_post_def split: sum.splits)
      qed
    qed
  qed (auto simp: Decompress_def huffmanSymbols_def)
qed

end
