(* ===== verification/Delta.thy ===== *)
theory Delta
  imports Prelude
begin

text \<open>
  \<open>internal/sevenzip/internal/delta/reader.go\<close>: the filter that adds to every byte the decoded byte
  \<open>delta\<close> positions before it. The wrapped reader is a state \<open>'r\<close> with its \<open>Read\<close>, which returns the
  bytes it stores and its error. The loop over the bytes is a \<open>partial_function\<close>: \<open>None\<close> is a call
  that does not return.
\<close>

section \<open>The reader\<close>

definition stateSize :: nat where "stateSize = 256"

datatype delta_error = DeltaAlreadyClosed | DeltaNeedOneReader | DeltaInsufficientProperties | DeltaReading io_error

record 'r delta_reader =
  dr_rc :: "'r option" \<comment> \<open>\<open>None\<close> after \<open>Close\<close>\<close>
  dr_state :: "byte list"
  dr_delta :: nat

text \<open>The sum \<open>p[0] + 1\<close> is one of bytes.\<close>

definition delta_NewReader :: "byte list \<Rightarrow> 'r list \<Rightarrow> delta_error + 'r delta_reader" where
  "delta_NewReader p readers =
     (case readers of
        [r] \<Rightarrow> (if length p \<noteq> 1 then Inl DeltaInsufficientProperties
                else Inr \<lparr>dr_rc = Some r, dr_state = replicate stateSize 0, dr_delta = unat (p ! 0 + 1)\<rparr>)
      | _ \<Rightarrow> Inl DeltaNeedOneReader)"

definition delta_Close :: "('r \<Rightarrow> io_error option) \<Rightarrow> 'r delta_reader \<Rightarrow> delta_error option \<times> 'r delta_reader" where
  "delta_Close close rc =
     (case dr_rc rc of
        None \<Rightarrow> (Some DeltaAlreadyClosed, rc)
      | Some r \<Rightarrow> (case close r of Some e \<Rightarrow> (Some (DeltaReading e), rc) | None \<Rightarrow> (None, rc\<lparr>dr_rc := None\<rparr>)))"

section \<open>Decoding\<close>

text \<open>The inner loop runs over the buffer, the outer one starts it again until \<open>n\<close> bytes are done.\<close>

function delta_round :: "nat \<Rightarrow> nat \<Rightarrow> byte list \<times> byte list \<times> nat \<times> nat \<Rightarrow> byte list \<times> byte list \<times> nat \<times> nat" where
  "delta_round delta n (p, buffer, i, j) =
     (if j < delta \<and> i < n
      then let v = buffer ! j + p ! i in delta_round delta n (p[i := v], buffer[j := v], i + 1, j + 1)
      else (p, buffer, i, j))"
  by pat_completeness auto
termination by (relation "measure (\<lambda>(delta, n, p, buffer, i, j). n - i)") auto

declare delta_round.simps [simp del]

partial_function (option) delta_rounds ::
    "nat \<Rightarrow> nat \<Rightarrow> byte list \<times> byte list \<times> nat \<times> nat \<Rightarrow> (byte list \<times> byte list \<times> nat) option" where
  "delta_rounds delta n s =
     (case s of (p, buffer, i, j) \<Rightarrow>
        if i < n then delta_rounds delta n (delta_round delta n (p, buffer, i, 0)) else Some (p, buffer, j))"

definition delta_decode :: "nat \<Rightarrow> byte list \<Rightarrow> byte list \<Rightarrow> (byte list \<times> byte list) option" where
  "delta_decode delta state p =
     (let buffer = copy_at (replicate stateSize 0) 0 (take delta state) in
      case delta_rounds delta (length p) (p, buffer, 0, 0) of
        None \<Rightarrow> None
      | Some (p, buffer, j) \<Rightarrow>
          let j = (if j = delta then 0 else j);
              state = copy_at state 0 (drop j (take delta buffer));
              state = copy_at state (delta - j) (take j buffer)
          in Some (p, state))"

text \<open>\<open>Read(p)\<close> with \<open>len(p) = k\<close>: the bytes in \<open>p[:n]\<close>, the error and the reader.\<close>

definition delta_Read ::
    "(nat \<Rightarrow> 'r \<Rightarrow> byte list \<times> io_error option \<times> 'r) \<Rightarrow> nat \<Rightarrow> 'r delta_reader
       \<Rightarrow> (byte list \<times> delta_error option \<times> 'r delta_reader) option" where
  "delta_Read rd k rc =
     (case dr_rc rc of
        None \<Rightarrow> Some ([], Some DeltaAlreadyClosed, rc)
      | Some r \<Rightarrow>
          (case rd k r of
             (p, err, r) \<Rightarrow>
               let rc = rc\<lparr>dr_rc := Some r\<rparr> in
               if err \<noteq> None \<and> err \<noteq> Some EOF then Some (p, Some (DeltaReading (the err)), rc)
               else (case delta_decode (dr_delta rc) (dr_state rc) p of
                       None \<Rightarrow> None
                     | Some (p, state) \<Rightarrow> Some (p, None, rc\<lparr>dr_state := state\<rparr>))))"

declare delta_rounds.simps [code]

section \<open>The filter as a function of the whole stream\<close>

text \<open>\<open>h\<close> are the bytes decoded before.\<close>

fun undelta :: "nat \<Rightarrow> byte list \<Rightarrow> byte list \<Rightarrow> byte list" where
  "undelta d h [] = []"
| "undelta d h (x # xs) =
     (let y = x + (if length h < d then 0 else h ! (length h - d)) in y # undelta d (h @ [y]) xs)"

lemma length_undelta [simp]: "length (undelta d h xs) = length xs"
  by (induction xs arbitrary: h) (simp_all add: Let_def)

lemma undelta_append: "undelta d h (xs @ ys) = undelta d h xs @ undelta d (h @ undelta d h xs) ys"
  by (induction xs arbitrary: h) (simp_all add: Let_def)

text \<open>The window: the last \<open>d\<close> bytes, zeros before the first.\<close>

definition window :: "nat \<Rightarrow> byte list \<Rightarrow> byte list" where
  "window d h = drop (length h) (replicate d 0 @ h)"

lemma length_window [simp]: "length (window d h) = d"
  by (simp add: window_def)

lemma window_Nil: "window d [] = replicate d 0"
  by (simp add: window_def)

lemma window_snoc:
  assumes "0 < d"
  shows "window d h = (if length h < d then 0 else h ! (length h - d)) # tl (window d h)"
    "window d (h @ [y]) = tl (window d h) @ [y]"
proof -
  let ?v = "if length h < d then 0 else h ! (length h - d)"
  have len: "length h < length (replicate d (0 :: byte) @ h)" using assms by simp
  have nth: "(replicate d 0 @ h) ! length h = ?v" by (simp add: nth_append)
  have eq: "window d h = ?v # drop (Suc (length h)) (replicate d 0 @ h)"
    unfolding window_def nth [symmetric] by (rule Cons_nth_drop_Suc [OF len, symmetric])
  then show "window d h = ?v # tl (window d h)" by (simp only: list.sel)
  have "tl (window d h) = drop (Suc (length h)) (replicate d 0 @ h)" by (simp only: eq list.sel)
  then show "window d (h @ [y]) = tl (window d h) @ [y]"
    using assms by (simp add: window_def)
qed

text \<open>In the buffer the window is rotated by \<open>j\<close>.\<close>

definition rotated :: "nat \<Rightarrow> byte list \<Rightarrow> nat \<Rightarrow> byte list \<Rightarrow> bool" where
  "rotated d h j buffer \<longleftrightarrow> j \<le> d \<and> d \<le> length buffer \<and> drop j (take d buffer) @ take j buffer = window d h"

lemma rotated_step:
  fixes x :: byte
  assumes "rotated d h j buffer" "j < d"
  defines "y \<equiv> buffer ! j + x"
  shows "y = x + (if length h < d then 0 else h ! (length h - d))" "rotated d (h @ [y]) (Suc j) (buffer[j := y])"
proof -
  have b: "j < length buffer" "d \<le> length buffer" "drop j (take d buffer) @ take j buffer = window d h"
    using assms(1,2) by (simp_all add: rotated_def)
  have dj: "drop j (take d buffer) = buffer ! j # drop (Suc j) (take d buffer)"
    using Cons_nth_drop_Suc [of j "take d buffer"] b assms(2) by simp
  define v where "v = (if length h < d then 0 else h ! (length h - d))"
  define T where "T = tl (window d h)"
  have w: "window d h = v # T" unfolding T_def v_def by (rule window_snoc(1)) (use assms(2) in simp)
  have e: "buffer ! j # (drop (Suc j) (take d buffer) @ take j buffer) = v # T" using b(3) by (simp only: dj w append_Cons)
  then have hd: "buffer ! j = v" "drop (Suc j) (take d buffer) @ take j buffer = T" by simp_all
  show "y = x + (if length h < d then 0 else h ! (length h - d))" by (simp add: y_def hd(1) v_def [symmetric])
  have "drop (Suc j) (take d (buffer[j := y])) = drop (Suc j) (take d buffer)" by (simp add: take_update_swap)
  moreover have "take (Suc j) (buffer[j := y]) = take j buffer @ [y]" using b(1) by (simp add: take_Suc_conv_app_nth)
  moreover have "window d (h @ [y]) = T @ [y]" unfolding T_def by (rule window_snoc(2)) (use assms(2) in simp)
  moreover have "drop (Suc j) (take d buffer) @ (take j buffer @ [y]) = T @ [y]" using hd(2) by simp
  ultimately show "rotated d (h @ [y]) (Suc j) (buffer[j := y])"
    unfolding rotated_def using assms(2) b(2) by (simp only: length_list_update) simp
qed

lemma rotated_wrap: "rotated d h d buffer \<longleftrightarrow> rotated d h 0 buffer"
  by (simp add: rotated_def)

section \<open>The loops\<close>

lemma delta_round_spec:
  assumes "rotated d h j buffer" "n = length (out @ rest)"
  shows "\<exists>buffer'. delta_round d n (out @ rest, buffer, length out, j) =
      (out @ undelta d h (take (d - j) rest) @ drop (d - j) rest, buffer', length out + min (d - j) (length rest), j + min (d - j) (length rest)) \<and>
    rotated d (h @ undelta d h (take (d - j) rest)) (j + min (d - j) (length rest)) buffer' \<and> length buffer' = length buffer"
  using assms
proof (induction rest arbitrary: out h j buffer)
  case Nil
  then show ?case by (subst delta_round.simps) simp
next
  case (Cons x rest)
  show ?case
  proof (cases "j < d")
    case True
    define y where "y = buffer ! j + x"
    note st = rotated_step [OF Cons.prems(1) True, of x, folded y_def]
    have c: "d - j = Suc (d - Suc j)" using True by simp
    have u: "undelta d h (take (d - j) (x # rest)) = y # undelta d (h @ [y]) (take (d - Suc j) rest)"
      unfolding c by (simp add: st(1) Let_def)
    have "delta_round d n (out @ x # rest, buffer, length out, j) = delta_round d n ((out @ [y]) @ rest, buffer[j := y], length (out @ [y]), Suc j)"
      using True Cons.prems(2) by (subst delta_round.simps) (simp add: y_def Let_def nth_append list_update_append)
    with Cons.IH [OF st(2), of "out @ [y]"] Cons.prems(2) show ?thesis unfolding u unfolding c by simp
  next
    case False
    then have "j = d" using Cons.prems(1) by (simp add: rotated_def)
    then show ?thesis using Cons.prems(1) by (subst delta_round.simps) simp
  qed
qed

lemma delta_rounds_spec:
  assumes "0 < d" "rotated d h j buffer" "n = length (out @ rest)" "rest = [] \<or> j = 0 \<or> j = d"
  shows "\<exists>buffer' j'. delta_rounds d n (out @ rest, buffer, length out, j) = Some (out @ undelta d h rest, buffer', j') \<and>
    rotated d (h @ undelta d h rest) j' buffer' \<and> length buffer' = length buffer"
  using assms(2-4)
proof (induction "length rest" arbitrary: out rest h j buffer rule: less_induct)
  case less
  show ?case
  proof (cases "rest = []")
    case True
    then show ?thesis using less.prems by (subst delta_rounds.simps) simp
  next
    case False
    then have r0: "rotated d h 0 buffer" using less.prems(1,3) rotated_wrap by blast
    from delta_round_spec [OF r0 less.prems(2)] obtain b1 where b1:
      "delta_round d n (out @ rest, buffer, length out, 0) =
        (out @ undelta d h (take d rest) @ drop d rest, b1, length out + min d (length rest), min d (length rest))"
      "rotated d (h @ undelta d h (take d rest)) (min d (length rest)) b1" "length b1 = length buffer" by auto
    define out' where "out' = out @ undelta d h (take d rest)"
    have l: "length out' = length out + min d (length rest)" "n = length (out' @ drop d rest)"
      using less.prems(2) by (simp_all add: out'_def min.commute)
    have "length (drop d rest) < length rest" using False assms(1) by simp
    moreover have "drop d rest = [] \<or> min d (length rest) = 0 \<or> min d (length rest) = d" by (simp add: min_def)
    ultimately obtain b2 j2 where b2:
      "delta_rounds d n (out' @ drop d rest, b1, length out', min d (length rest)) =
        Some (out' @ undelta d (h @ undelta d h (take d rest)) (drop d rest), b2, j2)"
      "rotated d ((h @ undelta d h (take d rest)) @ undelta d (h @ undelta d h (take d rest)) (drop d rest)) j2 b2"
      "length b2 = length b1" using less.hyps [OF _ b1(2) l(2)] by blast
    have u: "undelta d h rest = undelta d h (take d rest) @ undelta d (h @ undelta d h (take d rest)) (drop d rest)"
      using undelta_append [of d h "take d rest" "drop d rest"] by simp
    have "length out < n" using False less.prems(2) by simp
    then have "delta_rounds d n (out @ rest, buffer, length out, j) = delta_rounds d n (out' @ drop d rest, b1, length out', min d (length rest))"
      by (subst delta_rounds.simps) (simp add: b1(1) l(1), simp add: out'_def)
    then show ?thesis using b2 b1(3) unfolding u by (simp add: out'_def)
  qed
qed

definition holds :: "nat \<Rightarrow> byte list \<Rightarrow> byte list \<Rightarrow> bool" where
  "holds d h state \<longleftrightarrow> length state = stateSize \<and> take d state = window d h"

lemma holds_new: "d \<le> stateSize \<Longrightarrow> holds d [] (replicate stateSize 0)"
  by (simp add: holds_def window_Nil min_def)

lemma delta_decode_spec:
  assumes "0 < d" "d \<le> stateSize" "holds d h state"
  shows "\<exists>state'. delta_decode d state p = Some (undelta d h p, state') \<and> holds d (h @ undelta d h p) state'"
proof -
  have s: "length state = stateSize" "take d state = window d h" using assms(3) by (simp_all add: holds_def)
  define b0 where "b0 = copy_at (replicate stateSize (0 :: byte)) 0 (take d state)"
  have "take d b0 = window d h" "length b0 = stateSize" using assms(2) s by (simp_all add: b0_def copy_at_def)
  then have "rotated d h 0 b0" using assms(2) by (simp add: rotated_def)
  from delta_rounds_spec [OF assms(1) this, of "length p" "[]" p] obtain b j where b:
    "delta_rounds d (length p) (p, b0, 0, 0) = Some (undelta d h p, b, j)"
    "rotated d (h @ undelta d h p) j b" "length b = stateSize" using \<open>length b0 = stateSize\<close> by auto
  define j' where "j' = (if j = d then 0 else j)"
  have r: "rotated d (h @ undelta d h p) j' b" using b(2) rotated_wrap by (auto simp: j'_def)
  then have j': "j' \<le> d" by (simp add: rotated_def)
  define A where "A = drop j' (take d b)"
  define B where "B = take j' b"
  have AB: "A @ B = window d (h @ undelta d h p)" "length A = d - j'" "length B = j'"
    using r b(3) assms(2) by (simp_all add: rotated_def A_def B_def)
  define st where "st = copy_at (copy_at state 0 A) (d - j') B"
  have "length (copy_at state 0 A) = stateSize" using s by simp
  then have "length st = stateSize" using assms(2) by (simp add: st_def)
  moreover have "take d st = A @ B" using AB(2,3) s(1) assms(2) j' by (simp add: st_def copy_at_def min_def)
  ultimately have "holds d (h @ undelta d h p) st" using AB(1) by (simp add: holds_def)
  moreover have "delta_decode d state p = Some (undelta d h p, st)"
    unfolding delta_decode_def Let_def b0_def [symmetric]
    by (simp add: b(1) j'_def [symmetric] A_def [symmetric] B_def [symmetric] st_def)
  ultimately show ?thesis by blast
qed

section \<open>Properties\<close>

text \<open>
  Reads with buffers of the given sizes: what each read of the filter stores and reports, and what the same reads
  of the source alone store and report.
\<close>

fun delta_reads :: "(nat \<Rightarrow> 'r \<Rightarrow> byte list \<times> io_error option \<times> 'r) \<Rightarrow> nat list \<Rightarrow> 'r delta_reader \<Rightarrow> (byte list \<times> delta_error option) list option" where
  "delta_reads rd [] rc = Some []"
| "delta_reads rd (k # ks) rc =
     (case delta_Read rd k rc of
        None \<Rightarrow> None
      | Some (p, err, rc) \<Rightarrow> (case delta_reads rd ks rc of None \<Rightarrow> None | Some results \<Rightarrow> Some ((p, err) # results)))"

fun source_reads :: "(nat \<Rightarrow> 'r \<Rightarrow> byte list \<times> io_error option \<times> 'r) \<Rightarrow> nat list \<Rightarrow> 'r \<Rightarrow> (byte list \<times> io_error option) list" where
  "source_reads rd [] r = []"
| "source_reads rd (k # ks) r = (case rd k r of (p, err, r) \<Rightarrow> (p, err) # source_reads rd ks r)"

definition failed :: "io_error option \<Rightarrow> bool" where
  "failed err \<longleftrightarrow> err \<noteq> None \<and> err \<noteq> Some EOF"

text \<open>
  What the filter makes of the reads of its source, \<open>h\<close> the bytes decoded before: a read that failed is handed on as
  it is and leaves no trace, every other one is decoded and reports no error.
\<close>

fun undelta_reads :: "nat \<Rightarrow> byte list \<Rightarrow> (byte list \<times> io_error option) list \<Rightarrow> (byte list \<times> delta_error option) list" where
  "undelta_reads d h [] = []"
| "undelta_reads d h ((p, err) # results) =
     (if failed err then (p, Some (DeltaReading (the err))) # undelta_reads d h results
      else (undelta d h p, None) # undelta_reads d (h @ undelta d h p) results)"

lemma delta_reads_spec:
  assumes "0 < d" "d \<le> stateSize"
  shows "dr_rc rc = Some r \<Longrightarrow> dr_delta rc = d \<Longrightarrow> holds d h (dr_state rc) \<Longrightarrow>
    delta_reads rd ks rc = Some (undelta_reads d h (source_reads rd ks r))"
proof (induction ks arbitrary: rc r h)
  case (Cons k ks)
  obtain p err r' where rd: "rd k r = (p, err, r')" by (metis prod_cases3)
  obtain st where st: "delta_decode d (dr_state rc) p = Some (undelta d h p, st)" "holds d (h @ undelta d h p) st"
    using delta_decode_spec [OF assms Cons.prems(3)] by blast
  show ?case
  proof (cases "failed err")
    case True
    then have "delta_Read rd k rc = Some (p, Some (DeltaReading (the err)), rc\<lparr>dr_rc := Some r'\<rparr>)"
      using Cons.prems rd by (auto simp: delta_Read_def failed_def)
    with True Cons.IH [of "rc\<lparr>dr_rc := Some r'\<rparr>" r' h] Cons.prems rd show ?thesis by simp
  next
    case False
    then have "delta_Read rd k rc = Some (undelta d h p, None, rc\<lparr>dr_rc := Some r', dr_state := st\<rparr>)"
      using Cons.prems rd st by (auto simp: delta_Read_def failed_def Let_def)
    with False Cons.IH [of "rc\<lparr>dr_rc := Some r', dr_state := st\<rparr>" r' "h @ undelta d h p"] st(2) Cons.prems(2) rd
    show ?thesis by simp
  qed
qed simp

lemma undelta_reads_joined:
  assumes "list_all (\<lambda>(p, err). \<not> failed err) results"
  shows "concat (map fst (undelta_reads d h results)) = undelta d h (concat (map fst results))"
    "list_all (\<lambda>(q, err). err = None) (undelta_reads d h results)"
  using assms by (induction d h results rule: undelta_reads.induct) (simp_all add: undelta_append)

text \<open>
  C24. What the delta filter delivers, for every property byte but 255. Every read of the filter returns and is
  determined by the reads of the source alone: a read of the source that reports no error, or the end, is decoded and
  reports no error, so the end of the source is lost; a read that reports another error hands on the raw bytes
  and the error, and the decoding goes on behind it as if those bytes had not been there. So where no read of the
  source fails, the bytes of any sequence of reads are the bytes of the source, each with the decoded byte
  \<open>delta\<close> positions before it added, whatever the sizes of the reads.
\<close>

theorem delta_reader_output:
  assumes "delta_NewReader p [r] = Inr rc" "p ! 0 \<noteq> 255"
  shows "\<exists>results. delta_reads rd ks rc = Some results \<and>
    results = undelta_reads (unat (p ! 0) + 1) [] (source_reads rd ks r) \<and>
    (list_all (\<lambda>(p, err). \<not> failed err) (source_reads rd ks r) \<longrightarrow>
      concat (map fst results) = undelta (unat (p ! 0) + 1) [] (concat (map fst (source_reads rd ks r))) \<and>
      list_all (\<lambda>(q, err). err = None) results)"
proof -
  have rc: "rc = \<lparr>dr_rc = Some r, dr_state = replicate stateSize 0, dr_delta = unat (p ! 0 + 1)\<rparr>"
    using assms(1) by (simp add: delta_NewReader_def split: if_splits)
  have "p ! 0 + 1 \<noteq> 0"
  proof
    assume "p ! 0 + 1 = 0"
    then have "p ! 0 = 0 - 1" by (metis add_diff_cancel)
    then show False using assms(2) by simp
  qed
  then have "1 + p ! 0 \<noteq> 0" by (simp add: add.commute)
  then have d: "unat (p ! 0 + 1) = unat (p ! 0) + 1" using unatSuc [of "p ! 0"] by (simp add: add.commute)
  have le: "unat (p ! 0) + 1 \<le> stateSize" using unsigned_less [of "p ! 0", where ?'a = nat] by (simp add: stateSize_def)
  have "delta_reads rd ks rc = Some (undelta_reads (unat (p ! 0) + 1) [] (source_reads rd ks r))"
    by (rule delta_reads_spec) (use le holds_new [OF le] in \<open>simp_all add: rc d\<close>)
  then show ?thesis by (simp add: undelta_reads_joined)
qed

text \<open>A source in memory that delivers at most two bytes at a time and fails once when it is asked for more than 100.\<close>

definition two_bytes :: "nat \<Rightarrow> byte list \<Rightarrow> byte list \<times> io_error option \<times> byte list" where
  "two_bytes k data =
     (take (min k 2) data, if data = [] then Some EOF else if 100 < k then Some UnexpectedEOF else None, drop (min k 2) data)"

lemma delta_reader_output_witness:
  "\<exists>rc. delta_NewReader [1] [[1, 2, 3, 4, 255, 7 :: byte]] = Inr rc \<and>
    delta_reads two_bytes [1, 3, 101, 9, 1] rc =
      Some [([1], None), ([2, 4], None), ([4, 255], Some (DeltaReading UnexpectedEOF)), ([9], None), ([], None)]"
proof -
  have "undelta_reads (unat ([1] ! 0 :: byte) + 1) [] (source_reads two_bytes [1, 3, 101, 9, 1] [1, 2, 3, 4, 255, 7]) =
      [([1], None), ([2, 4], None), ([4, 255], Some (DeltaReading UnexpectedEOF)), ([9], None), ([], None)]"
    by code_simp
  moreover obtain rc where "delta_NewReader [1] [[1, 2, 3, 4, 255, 7 :: byte]] = Inr rc" by (simp add: delta_NewReader_def)
  moreover have "[1 :: byte] ! 0 \<noteq> 255" by simp
  ultimately show ?thesis using delta_reader_output by metis
qed

text \<open>The property 255, the distance 256, gives the distance 0, with which the loop makes no progress.\<close>

lemma delta_round_zero: "delta_round 0 n (p, buffer, i, 0) = (p, buffer, i, 0)"
  by (subst delta_round.simps) simp

lemma delta_rounds_zero:
  assumes "delta_rounds d n s = Some r"
  shows "d = 0 \<longrightarrow> n \<le> fst (snd (snd s))"
proof (rule delta_rounds.raw_induct [where P = "\<lambda>d n s r. d = 0 \<longrightarrow> n \<le> fst (snd (snd s))", OF _ assms])
  fix rec d n s r
  assume IH: "\<And>d n s r. rec d n s = Some r \<Longrightarrow> d = 0 \<longrightarrow> n \<le> fst (snd (snd s))"
    and run: "(case s of (p, buffer, i, j) \<Rightarrow>
      if i < n then rec d n (delta_round d n (p, buffer, i, 0)) else Some (p, buffer, j)) = Some r"
  show "d = 0 \<longrightarrow> n \<le> fst (snd (snd s))"
  proof
    assume "d = 0"
    then show "n \<le> fst (snd (snd s))"
      using IH [of 0 n] run by (cases s) (fastforce simp: delta_round_zero split: if_splits)
  qed
qed

text \<open>
  C39. With the property 255, which stands for the distance 256, no read that gets a byte from the
  source returns.
\<close>

theorem delta_hangs:
  assumes "delta_NewReader [255] [r] = Inr rc" "rd k r = (b # bs, None, r')"
  shows "delta_Read rd k rc = None"
proof -
  have rc: "rc = \<lparr>dr_rc = Some r, dr_state = replicate stateSize 0, dr_delta = 0\<rparr>"
    using assms(1) by (simp add: delta_NewReader_def)
  have "delta_rounds 0 (length (b # bs)) (b # bs, buffer, 0, 0) = None" for buffer
    using delta_rounds_zero [of 0 "length (b # bs)" "(b # bs, buffer, 0, 0)"] by (cases "delta_rounds 0 (length (b # bs)) (b # bs, buffer, 0, 0)") auto
  then show ?thesis using assms(2) by (simp add: rc delta_Read_def delta_decode_def Let_def)
qed

lemma delta_hangs_witness:
  "\<exists>rc. delta_NewReader [255] [[7 :: byte]] = Inr rc \<and> delta_Read two_bytes 1 rc = None"
  using delta_hangs [of "[7]" _ two_bytes 1 7 "[]" "[]"] by (simp add: delta_NewReader_def two_bytes_def)

end
