(* ===== verification/Crc.thy ===== *)
theory Crc
  imports Prelude
begin

text \<open>
  The CRC-32 of package \<open>hash/crc32\<close> with the polynomial IEEE, bit by bit, and \<open>crc32Combine\<close> of
  \<open>internal/archive7z/writer.go\<close>, which computes the checksum of a concatenation from those of its parts
  with matrices over the field of two elements.
\<close>

section \<open>CRC-32\<close>

definition crc32_IEEE :: u32 where "crc32_IEEE = 0xedb88320"

definition crc_shift :: "u32 \<Rightarrow> u32" where
  "crc_shift c = (if c AND 1 = 0 then drop_bit 1 c else drop_bit 1 c XOR crc32_IEEE)"

definition crc_byte :: "u32 \<Rightarrow> byte \<Rightarrow> u32" where
  "crc_byte c b = (crc_shift ^^ 8) (c XOR ucast b)"

definition crc_update :: "u32 \<Rightarrow> byte list \<Rightarrow> u32" where
  "crc_update c bs = NOT (foldl crc_byte (NOT c) bs)"

definition crc32 :: "byte list \<Rightarrow> u32" where
  "crc32 bs = crc_update 0 bs"

section \<open>Combination\<close>

lemma unat_half: "unat (drop_bit 1 v) = unat (v :: 'a::len word) div 2"
  unfolding unsigned_drop_bit_eq unfolding drop_bit_eq_div by (simp add: take_bit_nat_eq_self)

lemma drop_bit_1_less: "v \<noteq> 0 \<Longrightarrow> unat (drop_bit 1 v) < unat (v :: 'a::len word)"
  unfolding unat_half by (simp add: unat_gt_0)

function matrix_loop :: "u32 list \<Rightarrow> u32 \<Rightarrow> nat \<Rightarrow> u32 \<Rightarrow> u32" where
  "matrix_loop matrix vector i acc =
     (if vector = 0 then acc
      else matrix_loop matrix (drop_bit 1 vector) (i + 1) (if vector AND 1 \<noteq> 0 then acc XOR matrix ! i else acc))"
  by pat_completeness auto
termination by (relation "measure (\<lambda>(_, v, _, _). unat v)") (simp_all add: drop_bit_1_less [unfolded One_nat_def])

declare matrix_loop.simps [simp del]

definition crc32MatrixTimes :: "u32 list \<Rightarrow> u32 \<Rightarrow> u32" where
  "crc32MatrixTimes matrix vector = matrix_loop matrix vector 0 0"

definition crc32MatrixSquare :: "u32 list \<Rightarrow> u32 list" where
  "crc32MatrixSquare matrix = map (crc32MatrixTimes matrix) matrix"

text \<open>The rows of the first matrix, and the squares that follow.\<close>

definition first_matrix :: "u32 list" where
  "first_matrix = crc32_IEEE # map (\<lambda>i. push_bit (i - 1) 1) [1..<32]"

fun next_operators :: "nat \<Rightarrow> u32 list \<Rightarrow> u32 list list" where
  "next_operators 0 m = []"
| "next_operators (Suc n) m = m # next_operators n (crc32MatrixSquare m)"

definition crc32CombineOperators :: "u32 list list" where
  "crc32CombineOperators =
     next_operators 64 (crc32MatrixSquare (crc32MatrixSquare (crc32MatrixSquare first_matrix)))"

function combine_loop :: "u32 list list \<Rightarrow> u64 \<Rightarrow> nat \<Rightarrow> u32 \<Rightarrow> u32" where
  "combine_loop operators secondLength k first =
     (if secondLength = 0 then first
      else combine_loop operators (drop_bit 1 secondLength) (k + 1)
        (if secondLength AND 1 \<noteq> 0 then crc32MatrixTimes (operators ! k) first else first))"
  by pat_completeness auto

termination by (relation "measure (\<lambda>(_, n, _, _). unat n)") (simp_all add: drop_bit_1_less [unfolded One_nat_def])

declare combine_loop.simps [simp del]

definition crc32Combine :: "u32 \<Rightarrow> u32 \<Rightarrow> u64 \<Rightarrow> u32" where
  "crc32Combine first second secondLength =
     (if secondLength = 0 then first else combine_loop crc32CombineOperators secondLength 0 first XOR second)"

section \<open>Linear maps\<close>

definition linear :: "(u32 \<Rightarrow> u32) \<Rightarrow> bool" where
  "linear f \<longleftrightarrow> (\<forall>x y. f (x XOR y) = f x XOR f y)"

lemma linear_xor: "linear f \<Longrightarrow> f (x XOR y) = f x XOR f y"
  by (simp add: linear_def)

lemma linear_0: "linear f \<Longrightarrow> f 0 = 0"
  using linear_xor [of f 0 0] by simp

lemma linear_funpow: "linear f \<Longrightarrow> linear (f ^^ n)"
  by (induction n) (simp_all add: linear_def)

lemma odd_bit: "(v :: 'a::len word) AND 1 = (if bit v 0 then 1 else 0)"
  by (simp add: and_one_eq bit_0 mod_2_eq_odd)

lemma linear_shift: "linear crc_shift"
proof -
  have "crc_shift x = drop_bit 1 x XOR (if bit x 0 then crc32_IEEE else 0)" for x
    by (simp add: crc_shift_def odd_bit)
  then show ?thesis by (simp add: linear_def bit_simps ac_simps drop_bit_xor)
qed

text \<open>The matrix of a linear map: its values at the powers of two.\<close>

definition matrix :: "(u32 \<Rightarrow> u32) \<Rightarrow> u32 list" where
  "matrix f = map (\<lambda>i. f (push_bit i 1)) [0..<32]"

lemma split_bit:
  fixes v :: u32
  shows "push_bit i v = push_bit (Suc i) (drop_bit 1 v) XOR (if v AND 1 \<noteq> 0 then push_bit i 1 else 0)"
proof (rule bit_word_eqI)
  fix n assume "n < LENGTH(32)"
  consider "n < i" | "n = i" | k where "n = Suc (i + k)" by (metis less_imp_Suc_add nat_neq_iff)
  then show "bit (push_bit i v) n = bit (push_bit (Suc i) (drop_bit 1 v) XOR (if v AND 1 \<noteq> 0 then push_bit i 1 else 0)) n"
    by cases (use \<open>n < LENGTH(32)\<close> in \<open>auto simp: bit_simps odd_bit simp del: push_bit_Suc\<close>)
qed

lemma matrix_loop_eq:
  "linear f \<Longrightarrow> unat v < 2 ^ (32 - i) \<Longrightarrow> i \<le> 32 \<Longrightarrow> matrix_loop (matrix f) v i s = s XOR f (push_bit i v)"
proof (induction "matrix f" v i s rule: matrix_loop.induct)
  case (1 v i s)
  show ?case
  proof (cases "v = 0")
    case True
    then show ?thesis using linear_0 [OF "1.prems"(1)] by (subst matrix_loop.simps) simp
  next
    case False
    then have i: "i < 32" using "1.prems"(2,3) by (cases "i = 32") (auto simp: unat_gt_0 unat_eq_0)
    have "unat (drop_bit 1 v) < 2 ^ (32 - Suc i)"
    proof -
      have "(2 :: nat) ^ (32 - i) = 2 * 2 ^ (32 - Suc i)" using i by (simp flip: power_Suc add: Suc_diff_Suc)
      then show ?thesis using "1.prems"(2) unfolding unat_half by linarith
    qed
    then have "matrix_loop (matrix f) (drop_bit 1 v) (i + 1) (if v AND 1 \<noteq> 0 then s XOR matrix f ! i else s)
        = (if v AND 1 \<noteq> 0 then s XOR matrix f ! i else s) XOR f (push_bit (Suc i) (drop_bit 1 v))"
      using "1.hyps" [OF False "1.prems"(1)] i by simp
    moreover have "matrix f ! i = f (push_bit i 1)" using i by (simp add: matrix_def)
    moreover have "f (push_bit i v) = f (push_bit (Suc i) (drop_bit 1 v)) XOR (if v AND 1 \<noteq> 0 then f (push_bit i 1) else 0)"
      using linear_xor [OF "1.prems"(1)] linear_0 [OF "1.prems"(1)] by (subst split_bit) simp
    ultimately show ?thesis using False by (subst matrix_loop.simps) (simp add: ac_simps)
  qed
qed

lemma matrix_times: "linear f \<Longrightarrow> crc32MatrixTimes (matrix f) v = f v"
  using matrix_loop_eq [of f v 0 0] unsigned_less [of v, where ?'a = nat] by (simp add: crc32MatrixTimes_def)

lemma matrix_square: "linear f \<Longrightarrow> crc32MatrixSquare (matrix f) = matrix (f ^^ 2)"
  using matrix_times [of f] by (simp add: crc32MatrixSquare_def matrix_def [of "f ^^ 2"] numeral_2_eq_2)
    (simp add: matrix_def)

lemma first_matrix_shift: "first_matrix = matrix crc_shift"
proof (rule nth_equalityI)
  fix i assume "i < length first_matrix"
  then have i: "i < 32" by (simp add: first_matrix_def)
  show "first_matrix ! i = matrix crc_shift ! i"
  proof (cases i)
    case 0
    then show ?thesis by (simp add: first_matrix_def matrix_def crc_shift_def del: upt_Suc)
  next
    case (Suc k)
    have "bit (push_bit (Suc k) 1 :: u32) 0 = False" by (simp add: bit_simps)
    moreover have "drop_bit 1 (push_bit (Suc k) 1 :: u32) = push_bit k 1"
      using i Suc by (intro bit_word_eqI) (auto simp: bit_simps)
    ultimately have "crc_shift (push_bit (Suc k) 1) = push_bit k 1" by (simp only: crc_shift_def odd_bit) simp
    then show ?thesis using i Suc by (simp add: first_matrix_def matrix_def del: upt_Suc push_bit_Suc)
  qed
qed (simp add: first_matrix_def matrix_def)

lemma next_operators_nth:
  "linear f \<Longrightarrow> k < n \<Longrightarrow> next_operators n (matrix f) ! k = matrix (f ^^ (2 ^ k))"
proof (induction n arbitrary: f k)
  case (Suc n)
  show ?case
  proof (cases k)
    case 0
    then show ?thesis by simp
  next
    case (Suc j)
    have "next_operators n (matrix (f ^^ 2)) ! j = matrix ((f ^^ 2) ^^ (2 ^ j))"
      using Suc.IH [OF linear_funpow [OF Suc.prems(1)], of j 2] Suc.prems(2) Suc by simp
    moreover have "(f ^^ 2) ^^ (2 ^ j) = f ^^ (2 ^ k)" using Suc by (simp add: funpow_mult ac_simps)
    ultimately show ?thesis using Suc matrix_square [OF Suc.prems(1)] by simp
  qed
qed simp

lemma low_bit: "n AND 1 \<noteq> 0 \<longleftrightarrow> unat n mod 2 \<noteq> 0" for n :: "'a::len word"
  by (metis and_one_eq unsigned_1 unsigned_and_eq unsigned_eq_0_iff)

lemma combine_loop_eq:
  assumes "linear f"
  shows "(\<And>k. k < 64 \<Longrightarrow> operators ! k = matrix (f ^^ (2 ^ k))) \<Longrightarrow> unat n < 2 ^ (64 - k) \<Longrightarrow> k \<le> 64 \<Longrightarrow> combine_loop operators n k x = (f ^^ (2 ^ k * unat n)) x"
proof (induction operators n k x rule: combine_loop.induct)
  case (1 operators n k x)
  show ?case
  proof (cases "n = 0")
    case True
    then show ?thesis by (subst combine_loop.simps) simp
  next
    case False
    then have k: "k < 64" using "1.prems"(2,3) by (cases "k = 64") (auto simp: unat_gt_0 unat_eq_0)
    have "(2 :: nat) ^ (64 - k) = 2 * 2 ^ (64 - (k + 1))" using k by (simp flip: power_Suc add: Suc_diff_Suc)
    then have h: "unat (drop_bit 1 n) < 2 ^ (64 - (k + 1))" using "1.prems"(2) unfolding unat_half by linarith
    define y where "y = (if n AND 1 \<noteq> 0 then crc32MatrixTimes (operators ! k) x else x)"
    have y: "y = (f ^^ (2 ^ k * (unat n mod 2))) x"
      using matrix_times [OF linear_funpow [OF assms(1)]] "1.prems"(1) [OF k]
      unfolding y_def low_bit by (cases "unat n mod 2 = 0") simp_all
    have "combine_loop operators n k x = combine_loop operators (drop_bit 1 n) (k + 1) y"
      using False by (subst combine_loop.simps) (simp add: y_def)
    also have "\<dots> = (f ^^ (2 ^ (k + 1) * (unat n div 2))) y"
      using "1.IH" [OF False "1.prems"(1) h] k unfolding y_def unat_half by simp
    also have "\<dots> = (f ^^ (2 ^ (k + 1) * (unat n div 2) + 2 ^ k * (unat n mod 2))) x"
      unfolding y by (simp only: funpow_add o_apply)
    also have "2 ^ (k + 1) * (unat n div 2) + 2 ^ k * (unat n mod 2) = 2 ^ k * (2 * (unat n div 2) + unat n mod 2)"
      by (simp only: power_add power_one_right distrib_left mult.assoc)
    finally show ?thesis by simp
  qed
qed

lemma operators_nth: "k < 64 \<Longrightarrow> crc32CombineOperators ! k = matrix ((crc_shift ^^ 8) ^^ (2 ^ k))"
proof -
  assume k: "k < 64"
  have "crc32MatrixSquare (crc32MatrixSquare (crc32MatrixSquare first_matrix)) = matrix (((crc_shift ^^ 2) ^^ 2) ^^ 2)"
    by (simp only: first_matrix_shift matrix_square linear_funpow linear_shift)
  also have "((crc_shift ^^ 2) ^^ 2) ^^ 2 = crc_shift ^^ 8" by (simp add: funpow_mult)
  finally show ?thesis
    using next_operators_nth [OF linear_funpow [OF linear_shift] k, of 8] by (simp only: crc32CombineOperators_def)
qed

section \<open>The checksum of a concatenation\<close>

lemma crc_byte_xor: "crc_byte (x XOR y) b = (crc_shift ^^ 8) x XOR crc_byte y b"
  using linear_xor [OF linear_funpow [OF linear_shift], of 8 x "y XOR ucast b"] by (simp add: crc_byte_def ac_simps)

lemma foldl_crc_xor: "foldl crc_byte (x XOR y) bs = (crc_shift ^^ (8 * length bs)) x XOR foldl crc_byte y bs"
proof (induction bs arbitrary: x y)
  case (Cons b bs)
  have "(crc_shift ^^ (8 * length bs)) ((crc_shift ^^ 8) x) = (crc_shift ^^ (8 * length (b # bs))) x"
  proof -
    have "8 * length (b # bs) = 8 * length bs + 8" by simp
    then show ?thesis by (simp only: funpow_add o_apply)
  qed
  then show ?case using Cons by (simp only: foldl_Cons crc_byte_xor)
qed simp

lemma not_xor_right: "NOT (x XOR y) = x XOR NOT (y :: 'a::len word)"
  by (rule bit_word_eqI) (auto simp: bit_simps)

lemma crc32_append: "crc32 (xs @ ys) = (crc_shift ^^ (8 * length ys)) (crc32 xs) XOR crc32 ys"
proof -
  define s where "s = foldl crc_byte (NOT 0) xs"
  have "s = crc32 xs XOR NOT 0" by (simp add: s_def crc32_def crc_update_def)
  then have "foldl crc_byte s ys = (crc_shift ^^ (8 * length ys)) (crc32 xs) XOR foldl crc_byte (NOT 0) ys"
    by (simp only: foldl_crc_xor)
  moreover have "crc32 (xs @ ys) = NOT (foldl crc_byte s ys)" by (simp add: crc32_def crc_update_def s_def)
  moreover have "crc32 ys = NOT (foldl crc_byte (NOT 0) ys)" by (simp add: crc32_def crc_update_def)
  ultimately show ?thesis by (simp only: not_xor_right)
qed

text \<open>
  C25. \<open>crc32Combine\<close> computes the checksum of a concatenation from the checksums of the two parts and
  the length of the second.
\<close>

theorem crc32Combine_append:
  assumes "length ys < 2 ^ 64"
  shows "crc32Combine (crc32 xs) (crc32 ys) (of_nat (length ys)) = crc32 (xs @ ys)"
proof (cases "ys = []")
  case True
  then show ?thesis by (simp add: crc32Combine_def)
next
  case False
  have n: "unat (of_nat (length ys) :: u64) = length ys" using assms by (intro unat_of_nat_small) simp
  then have "(of_nat (length ys) :: u64) \<noteq> 0" using False by (metis length_0_conv unat_0)
  moreover have "combine_loop crc32CombineOperators (of_nat (length ys)) 0 (crc32 xs) = (crc_shift ^^ (8 * length ys)) (crc32 xs)"
    using combine_loop_eq [OF linear_funpow [OF linear_shift, of 8], of crc32CombineOperators "of_nat (length ys)" 0] operators_nth assms
    by (simp add: n funpow_mult)
  ultimately show ?thesis by (simp add: crc32Combine_def crc32_append)
qed

lemma crc32Combine_append_witness:
  "crc32Combine (crc32 [0x31, 0x32]) (crc32 [0x33]) (of_nat (length [0x33 :: byte])) = crc32 ([0x31, 0x32] @ [0x33])"
  by (rule crc32Combine_append) simp

end
