(* ===== verification/XzFormat.thy ===== *)
theory XzFormat
  imports Bra Crc LzmaHeader
begin

text \<open>
  \<open>internal/xz\<close>: the variable-length integers of \<open>bits.go\<close>, the structures of \<open>format.go\<close> (header,
  footer, block header, index) and the LZMA2 filter of \<open>lzmafilter.go\<close>, the only filter there is.
  A reader is a \<open>source\<close>: the bytes it still delivers and the error it then reports. An \<open>int64\<close> is an
  \<open>int\<close>, read from 64 bits by \<open>sint\<close>.
\<close>

section \<open>Errors and reading\<close>

datatype xz_error = XzIo io_error | XzError string | ErrIndexIndicator | XzErrPadding | XzLzma lzma_error | XzPanic

text \<open>\<open>io.ReadFull\<close>.\<close>

definition xz_ReadFull :: "nat \<Rightarrow> source \<Rightarrow> (xz_error + byte list) \<times> nat \<times> source" where
  "xz_ReadFull n r =
     (let p = take n (src_data r); r' = r\<lparr>src_data := drop n (src_data r)\<rparr> in
      if length (src_data r) \<ge> n then (Inr p, n, r')
      else (Inl (XzIo (if p \<noteq> [] \<and> src_err r = EOF then UnexpectedEOF else src_err r)), length p, r'))"

definition xz_putUint32LE :: "u32 \<Rightarrow> byte list" where "xz_putUint32LE x = le_bytes 4 x"
definition xz_uint32LE :: "byte list \<Rightarrow> u32" where "xz_uint32LE p = le_word (take 4 p)"

section \<open>Variable-length integers\<close>

lemma drop_bit_7_less: "0x80 \<le> x \<Longrightarrow> unat (drop_bit 7 x) < unat (x :: u64)"
  by (simp add: unat_drop word_le_nat_alt)

function putUvarint :: "u64 \<Rightarrow> byte list" where
  "putUvarint x = (if x \<ge> 0x80 then (ucast x OR 0x80) # putUvarint (drop_bit 7 x) else [ucast x])"
  by pat_completeness auto
termination by (relation "measure unat") (simp_all add: drop_bit_7_less)

declare putUvarint.simps [simp del]

definition maxUvarintLen :: nat where "maxUvarintLen = 10"

fun uvarint_loop :: "io_error \<Rightarrow> byte list \<Rightarrow> nat \<Rightarrow> nat \<Rightarrow> u64 \<Rightarrow> (u64 \<times> nat \<times> xz_error option) \<times> byte list" where
  "uvarint_loop e [] i s x = ((x, i, Some (XzIo e)), [])"
| "uvarint_loop e (b # bs) i s x =
     (let i = i + 1 in
      if i > maxUvarintLen then ((x, i, Some (XzError ''uvarint overflows 64-bit unsigned integer'')), bs)
      else if b < 0x80
      then if i = maxUvarintLen \<and> b > 1
           then ((x, i, Some (XzError ''uvarint overflows 64-bit unsigned integer'')), bs)
           else ((x OR push_bit s (ucast b), i, None), bs)
      else uvarint_loop e bs i (s + 7) (x OR push_bit s (ucast (b AND 0x7f))))"

definition readUvarint :: "source \<Rightarrow> (u64 \<times> nat \<times> xz_error option) \<times> source" where
  "readUvarint r = (case uvarint_loop (src_err r) (src_data r) 0 0 0 of (res, bs) \<Rightarrow> (res, r\<lparr>src_data := bs\<rparr>))"

section \<open>The header and the footer of a stream\<close>

definition allZeros :: "byte list \<Rightarrow> bool" where
  "allZeros p \<longleftrightarrow> list_all (\<lambda>c. c = 0) p"

definition padLen :: "int \<Rightarrow> nat" where
  "padLen n = (let k = nat (n mod 4) in if k > 0 then 4 - k else k)"

definition headerMagic :: "byte list" where "headerMagic = [0xfd, 0x37, 0x7a, 0x58, 0x5a, 0x00]"
definition xz_HeaderLen :: nat where "xz_HeaderLen = 12"

definition xz_None :: byte where "xz_None = 0"
definition xz_CRC32 :: byte where "xz_CRC32 = 1"
definition xz_CRC64 :: byte where "xz_CRC64 = 4"
definition xz_SHA256 :: byte where "xz_SHA256 = 0xa"

definition errInvalidFlags :: xz_error where "errInvalidFlags = XzError ''invalid flags''"

definition verifyFlags :: "byte \<Rightarrow> xz_error option" where
  "verifyFlags flags = (if flags \<in> {xz_None, xz_CRC32, xz_CRC64, xz_SHA256} then None else Some errInvalidFlags)"

text \<open>The header of a stream is its flags.\<close>

definition header_UnmarshalBinary :: "byte list \<Rightarrow> xz_error + byte" where
  "header_UnmarshalBinary data =
     (if length data \<noteq> xz_HeaderLen then Inl (XzError ''wrong file header length'')
      else if headerMagic \<noteq> take 6 data then Inl (XzError ''invalid header magic bytes'')
      else if xz_uint32LE (drop 8 data) \<noteq> crc32 (take 2 (drop 6 data)) then Inl (XzError ''invalid checksum for file header'')
      else if data ! 6 \<noteq> 0 then Inl errInvalidFlags
      else case verifyFlags (data ! 7) of Some err \<Rightarrow> Inl err | None \<Rightarrow> Inr (data ! 7))"

definition header_MarshalBinary :: "byte \<Rightarrow> xz_error + byte list" where
  "header_MarshalBinary flags =
     (case verifyFlags flags of
        Some err \<Rightarrow> Inl err
      | None \<Rightarrow> Inr (headerMagic @ [0, flags] @ xz_putUint32LE (crc32 [0, flags])))"

definition xz_ValidHeader :: "byte list \<Rightarrow> bool" where
  "xz_ValidHeader data = (case header_UnmarshalBinary data of Inl _ \<Rightarrow> False | Inr _ \<Rightarrow> True)"

definition footerLen :: nat where "footerLen = 12"
definition footerMagic :: "byte list" where "footerMagic = [0x59, 0x5a]"

record footer =
  indexSize :: int
  ft_flags :: byte

definition minIndexSize :: int where "minIndexSize = 4"
definition maxIndexSize :: int where "maxIndexSize = 2 ^ 32 * 4"

definition footer_MarshalBinary :: "footer \<Rightarrow> xz_error + byte list" where
  "footer_MarshalBinary f =
     (case verifyFlags (ft_flags f) of
        Some err \<Rightarrow> Inl err
      | None \<Rightarrow>
          if \<not> (minIndexSize \<le> indexSize f \<and> indexSize f \<le> maxIndexSize) then Inl (XzError ''index size out of range'')
          else if indexSize f mod 4 \<noteq> 0 then Inl (XzError ''index size not aligned to four bytes'')
          else
            let body = xz_putUint32LE (of_int (indexSize f div 4 - 1)) @ [0, ft_flags f]
            in Inr (xz_putUint32LE (crc32 body) @ body @ footerMagic))"

definition footer_UnmarshalBinary :: "byte list \<Rightarrow> xz_error + footer" where
  "footer_UnmarshalBinary data =
     (if length data \<noteq> footerLen then Inl (XzError ''wrong footer length'')
      else if drop 10 data \<noteq> footerMagic then Inl (XzError ''footer magic invalid'')
      else if xz_uint32LE data \<noteq> crc32 (take 6 (drop 4 data)) then Inl (XzError ''footer checksum error'')
      else
        let size = (uint (xz_uint32LE (drop 4 data)) + 1) * 4 in
        if data ! 8 \<noteq> 0 then Inl errInvalidFlags
        else case verifyFlags (data ! 9) of Some err \<Rightarrow> Inl err | None \<Rightarrow> Inr \<lparr>indexSize = size, ft_flags = data ! 9\<rparr>)"

section \<open>The LZMA2 filter\<close>

definition lzmaFilterID :: u64 where "lzmaFilterID = 0x21"
definition lzmaFilterLen :: nat where "lzmaFilterLen = 3"

record lzmaFilter =
  lf_dictCap :: int

definition filter_id :: "lzmaFilter \<Rightarrow> u64" where
  "filter_id f = lzmaFilterID"

definition filter_MarshalBinary :: "lzmaFilter \<Rightarrow> xz_error + byte list" where
  "filter_MarshalBinary f = Inr [ucast lzmaFilterID, 1, EncodeDictCap (lf_dictCap f)]"

definition filter_UnmarshalBinary :: "byte list \<Rightarrow> xz_error + lzmaFilter" where
  "filter_UnmarshalBinary data =
     (if length data \<noteq> lzmaFilterLen then Inl (XzError ''data for LZMA2 filter has wrong length'')
      else if data ! 0 \<noteq> ucast lzmaFilterID then Inl (XzError ''wrong LZMA2 filter id'')
      else if data ! 1 \<noteq> 1 then Inl (XzError ''wrong LZMA2 filter size'')
      else case DecodeDictCap (data ! 2) of
             Inl _ \<Rightarrow> Inl (XzError ''wrong LZMA2 dictionary size property'')
           | Inr dc \<Rightarrow> Inr \<lparr>lf_dictCap = dc\<rparr>)"

definition filter_last :: "lzmaFilter \<Rightarrow> bool" where
  "filter_last f = True"

definition minFilters :: nat where "minFilters = 1"
definition maxFilters :: nat where "maxFilters = 4"
definition minReservedID :: u64 where "minReservedID = 2 ^ 62"

definition readFilter :: "source \<Rightarrow> (xz_error + lzmaFilter) \<times> source" where
  "readFilter r =
     (case readUvarint r of
        ((_, _, Some err), r) \<Rightarrow> (Inl err, r)
      | ((idn, _, None), r) \<Rightarrow>
          if idn = lzmaFilterID
          then (case xz_ReadFull (lzmaFilterLen - 1) r of
                  (Inl err, _, r) \<Rightarrow> (Inl err, r)
                | (Inr p, _, r) \<Rightarrow> (filter_UnmarshalBinary (ucast lzmaFilterID # p), r))
          else if idn \<ge> minReservedID then (Inl (XzError ''reserved filter id in block stream header''), r)
          else (Inl (XzError ''invalid filter id''), r))"

definition readFilters :: "source \<Rightarrow> nat \<Rightarrow> (xz_error + lzmaFilter list) \<times> source" where
  "readFilters r n =
     (if n \<noteq> 1 then (Inl (XzError ''unsupported filter count''), r)
      else case readFilter r of (Inl err, r) \<Rightarrow> (Inl err, r) | (Inr f, r) \<Rightarrow> (Inr [f], r))"

section \<open>The header of a block\<close>

text \<open>A size that is absent is negative.\<close>

record blockHeader =
  bh_compressedSize :: int
  bh_uncompressedSize :: int
  bh_filters :: "lzmaFilter list"

definition filterCountMask :: byte where "filterCountMask = 0x03"
definition compressedSizePresent :: byte where "compressedSizePresent = 0x40"
definition uncompressedSizePresent :: byte where "uncompressedSizePresent = 0x80"
definition reservedBlockFlags :: byte where "reservedBlockFlags = 0x3C"

definition readSizeInBlockHeader :: "source \<Rightarrow> bool \<Rightarrow> (xz_error + int) \<times> source" where
  "readSizeInBlockHeader r present =
     (if \<not> present then (Inr (-1), r)
      else case readUvarint r of
             ((_, _, Some err), r) \<Rightarrow> (Inl err, r)
           | ((x, _, None), r) \<Rightarrow>
               if x \<ge> 2 ^ 63 then (Inl (XzError ''size overflow in block header''), r) else (Inr (uint x), r))"

definition block_UnmarshalBinary :: "byte list \<Rightarrow> xz_error + blockHeader" where
  "block_UnmarshalBinary data =
     (if data = [] then Inl XzPanic
      else if data ! 0 = 0 then Inl ErrIndexIndicator
      else
        let headerLen = (unat (data ! 0) + 1) * 4; n = headerLen - 4 in
        if length data \<noteq> headerLen then Inl (XzError ''data length'')
        else if crc32 (take n data) \<noteq> xz_uint32LE (drop n data) then Inl (XzError ''checksum error for block header'')
        else
          let flags = data ! 1 in
          if flags AND reservedBlockFlags \<noteq> 0 then Inl (XzError ''reserved block header flags set'')
          else
            case readSizeInBlockHeader \<lparr>src_data = drop 2 (take n data), src_err = EOF\<rparr> (flags AND compressedSizePresent \<noteq> 0) of
              (Inl err, _) \<Rightarrow> Inl err
            | (Inr c, r) \<Rightarrow>
                (case readSizeInBlockHeader r (flags AND uncompressedSizePresent \<noteq> 0) of
                   (Inl err, _) \<Rightarrow> Inl err
                 | (Inr u, r) \<Rightarrow>
                     (case readFilters r (unat (flags AND filterCountMask) + 1) of
                        (Inl err, _) \<Rightarrow> Inl err
                      | (Inr fs, r) \<Rightarrow>
                          if \<not> allZeros (src_data r) then Inl XzErrPadding
                          else Inr \<lparr>bh_compressedSize = c, bh_uncompressedSize = u, bh_filters = fs\<rparr>)))"

definition readBlockHeader :: "source \<Rightarrow> (xz_error + blockHeader) \<times> nat \<times> source" where
  "readBlockHeader r =
     (case CopyN r 1 of
        (p, r, Some e) \<Rightarrow> (Inl (XzIo e), length p, r)
      | (p, r, None) \<Rightarrow>
          let s = p ! 0 in
          if s = 0 then (Inl ErrIndexIndicator, 1, r)
          else
            let headerLen = (unat s + 1) * 4 in
            (case CopyN r (int headerLen - 1) of
               (q, r, Some e) \<Rightarrow> (Inl (XzIo e), 1 + length q, r)
             | (q, r, None) \<Rightarrow> (block_UnmarshalBinary (p @ q), 1 + length q, r)))"

text \<open>The checks of the filters, and their coding one after the other.\<close>

fun check_filters :: "lzmaFilter list \<Rightarrow> xz_error option" where
  "check_filters [] = None"
| "check_filters [f] =
     (if filter_id f \<noteq> lzmaFilterID then Some (XzError ''last filter must be the LZMA2 filter'') else None)"
| "check_filters (f # fs) =
     (if filter_id f = lzmaFilterID then Some (XzError ''LZMA2 filter is not the last'') else check_filters fs)"

fun marshal_filters :: "lzmaFilter list \<Rightarrow> xz_error + byte list" where
  "marshal_filters [] = Inr []"
| "marshal_filters (f # fs) = sbind (filter_MarshalBinary f) (\<lambda>p. sbind (marshal_filters fs) (\<lambda>q. Inr (p @ q)))"

definition block_MarshalBinary :: "blockHeader \<Rightarrow> xz_error + byte list" where
  "block_MarshalBinary h =
     (if \<not> (minFilters \<le> length (bh_filters h) \<and> length (bh_filters h) \<le> maxFilters) then Inl (XzError ''filter count wrong'')
      else case check_filters (bh_filters h) of Some err \<Rightarrow> Inl err
      | None \<Rightarrow>
          let flags = of_nat (length (bh_filters h) - 1);
              flags = (if bh_compressedSize h \<ge> 0 then flags OR compressedSizePresent else flags);
              flags = (if bh_uncompressedSize h \<ge> 0 then flags OR uncompressedSizePresent else flags);
              c = (if bh_compressedSize h \<ge> 0 then putUvarint (of_int (bh_compressedSize h)) else []);
              u = (if bh_uncompressedSize h \<ge> 0 then putUvarint (of_int (bh_uncompressedSize h)) else []) in
          sbind (marshal_filters (bh_filters h)) (\<lambda>fp.
            let buf = [0, flags] @ c @ u @ fp;
                buf = buf @ replicate (padLen (int (length buf))) 0;
                len = length buf + 4; s = len div 4 - 1 in
            if len mod 4 \<noteq> 0 then Inl XzPanic
            else if \<not> (1 < s \<and> s \<le> 255) then Inl XzPanic
            else let buf = buf[0 := of_nat s] in Inr (buf @ xz_putUint32LE (crc32 buf))))"

section \<open>The index\<close>

record xz_record =
  unpaddedSize :: int
  uncompressedSize :: int

definition readRecord :: "source \<Rightarrow> (xz_error + xz_record) \<times> nat \<times> source" where
  "readRecord r =
     (case readUvarint r of
        ((_, k, Some err), r) \<Rightarrow> (Inl err, k, r)
      | ((u, k, None), r) \<Rightarrow>
          if sint u < 0 then (Inl (XzError ''unpadded size negative''), k, r)
          else
            (case readUvarint r of
               ((_, l, Some err), r) \<Rightarrow> (Inl err, k + l, r)
             | ((v, l, None), r) \<Rightarrow>
                 if sint v < 0 then (Inl (XzError ''uncompressed size negative''), k + l, r)
                 else (Inr \<lparr>unpaddedSize = sint u, uncompressedSize = sint v\<rparr>, k + l, r)))"

definition record_MarshalBinary :: "xz_record \<Rightarrow> byte list" where
  "record_MarshalBinary rec = putUvarint (of_int (unpaddedSize rec)) @ putUvarint (of_int (uncompressedSize rec))"

text \<open>
  A writer is a state with a write operation. \<open>io.MultiWriter\<close> writes to it and then to the hash,
  whose state is what it has been given.
\<close>

type_synonym 'w xz_write = "byte list \<Rightarrow> 'w \<Rightarrow> nat \<times> io_error option \<times> 'w"

text \<open>A writer that takes everything it is given.\<close>

definition append_write :: "byte list xz_write" where
  "append_write p w = (length p, None, w @ p)"

definition mw_Write :: "'w xz_write \<Rightarrow> byte list \<Rightarrow> 'w \<times> byte list \<Rightarrow> nat \<times> io_error option \<times> 'w \<times> byte list" where
  "mw_Write wr p s =
     (case wr p (fst s) of
        (n, err, w) \<Rightarrow>
          if err \<noteq> None then (n, err, w, snd s)
          else if n \<noteq> length p then (n, Some ShortWrite, w, snd s)
          else (n, None, w, snd s @ p))"

text \<open>The parts of \<open>writeIndex\<close>, written until one fails.\<close>

fun write_parts :: "'w xz_write \<Rightarrow> byte list list \<Rightarrow> nat \<Rightarrow> 'w \<times> byte list \<Rightarrow> nat \<times> io_error option \<times> 'w \<times> byte list" where
  "write_parts wr [] n s = (n, None, s)"
| "write_parts wr (p # ps) n s =
     (case mw_Write wr p s of (k, err, s) \<Rightarrow> if err \<noteq> None then (n + k, err, s) else write_parts wr ps (n + k) s)"

definition writeIndex :: "'w xz_write \<Rightarrow> xz_record list \<Rightarrow> 'w \<Rightarrow> nat \<times> io_error option \<times> 'w" where
  "writeIndex wr index w =
     (case write_parts wr ([0] # putUvarint (of_nat (length index)) # map record_MarshalBinary index) 0 (w, []) of
        (n, Some err, w, _) \<Rightarrow> (n, Some err, w)
      | (n, None, s) \<Rightarrow>
          (case mw_Write wr (replicate (padLen (int n)) 0) s of
             (k, Some err, w, _) \<Rightarrow> (n + k, Some err, w)
           | (k, None, w, hashed) \<Rightarrow>
               (case wr (xz_putUint32LE (crc32 hashed)) w of (l, err, w) \<Rightarrow> (n + k + l, err, w))))"

fun readRecords :: "nat \<Rightarrow> source \<Rightarrow> (xz_error + xz_record list) \<times> nat \<times> source" where
  "readRecords 0 r = (Inr [], 0, r)"
| "readRecords (Suc m) r =
     (case readRecord r of
        (Inl err, k, r) \<Rightarrow> (Inl err, k, r)
      | (Inr rec, k, r) \<Rightarrow>
          (case readRecords m r of
             (Inl err, l, r) \<Rightarrow> (Inl err, k + l, r)
           | (Inr recs, l, r) \<Rightarrow> (Inr (rec # recs), k + l, r)))"

text \<open>The tee gives the hash what has been read from \<open>r\<close> up to \<open>r'\<close>.\<close>

definition consumed :: "source \<Rightarrow> source \<Rightarrow> byte list" where
  "consumed r r' = take (length (src_data r) - length (src_data r')) (src_data r)"

definition readIndexBody :: "source \<Rightarrow> nat \<Rightarrow> (xz_error + xz_record list) \<times> nat \<times> source" where
  "readIndexBody r expectedRecordLen =
     (case readUvarint r of
        ((_, k, Some err), r1) \<Rightarrow> (Inl err, k, r1)
      | ((u, k, None), r1) \<Rightarrow>
          if sint u < 0 \<or> of_int (sint u) \<noteq> u then (Inl (XzError ''record number overflow''), k, r1)
          else if sint u \<noteq> int expectedRecordLen then (Inl (XzError ''index length''), k, r1)
          else
            (case readRecords expectedRecordLen r1 of
               (Inl err, l, r2) \<Rightarrow> (Inl err, k + l, r2)
             | (Inr recs, l, r2) \<Rightarrow>
                 (case xz_ReadFull (padLen (int (k + l) + 1)) r2 of
                    (Inl err, m, r3) \<Rightarrow> (Inl err, k + l + m, r3)
                  | (Inr p, m, r3) \<Rightarrow>
                      if \<not> allZeros p then (Inl (XzError ''non-zero byte in index padding''), k + l + m, r3)
                      else
                        (case xz_ReadFull 4 r3 of
                           (Inl err, q, r4) \<Rightarrow> (Inl err, k + l + m + q, r4)
                         | (Inr c, q, r4) \<Rightarrow>
                             if xz_uint32LE c \<noteq> crc32 (0 # consumed r r3)
                             then (Inl (XzError ''wrong checksum for index''), k + l + m + q, r4)
                             else (Inr recs, k + l + m + q, r4)))))"

end
