(* ===== verification/XzFormatProps.thy ===== *)
theory XzFormatProps
  imports XzFormat LzmaHeaderProps
begin

text \<open>
  What the xz writer produces is read back: variable-length integers, the header and the footer of a
  stream, the header of a block and the index, each in front of any further bytes.
\<close>

abbreviation rd :: "byte list \<Rightarrow> io_error \<Rightarrow> source" where
  "rd bs e \<equiv> \<lparr>src_data = bs, src_err = e\<rparr>"

section \<open>Variable-length integers\<close>

lemma bits_7f: "bit (0x7f :: 'a::len word) n \<longleftrightarrow> n < 7 \<and> n < LENGTH('a)"
proof -
  have m: "(0x7f :: 'a word) = mask 7" by (simp add: mask_eq_exp_minus_1)
  show ?thesis unfolding m bit_mask_iff by auto
qed

lemma bits_80: "bit (0x80 :: byte) n \<longleftrightarrow> n = 7"
proof -
  have m: "(0x80 :: byte) = push_bit 7 1" by (simp add: push_bit_eq_mult)
  show ?thesis unfolding m bit_push_bit_iff bit_1_iff by auto
qed

lemma uvarint_first:
  fixes x :: u64
  shows "\<not> (ucast x OR (0x80 :: byte)) < 0x80" "(ucast ((ucast x OR 0x80 :: byte) AND 0x7f) :: u64) = x AND 0x7f"
proof -
  have "0x80 AND (ucast x OR (0x80 :: byte)) = 0x80" by (rule bit_word_eqI) (auto simp: bit_simps)
  then show "\<not> (ucast x OR (0x80 :: byte)) < 0x80" by (metis not_less word_and_le1 word_and_le2)
  show "(ucast ((ucast x OR 0x80 :: byte) AND 0x7f) :: u64) = x AND 0x7f"
    by (rule bit_word_eqI) (auto simp: bit_simps bits_7f bits_80 simp del: bit_numeral_word_iff)
qed

lemma uvarint_split: "x = (x AND 0x7f) OR push_bit 7 (drop_bit 7 x)" for x :: u64
proof (rule bit_word_eqI)
  fix n
  show "bit x n \<longleftrightarrow> bit ((x AND 0x7f) OR push_bit 7 (drop_bit 7 x)) n"
    by (cases "n < 7") (auto simp: bit_simps bits_7f simp del: bit_numeral_word_iff dest: bit_imp_le_length)
qed

lemma small_byte:
  fixes x :: u64
  assumes "unat x < 128"
  shows "ucast (ucast x :: byte) = x" "unat (ucast x :: byte) = unat x"
proof -
  show u: "unat (ucast x :: byte) = unat x" using assms by (simp add: unsigned_ucast_eq take_bit_nat_eq_self)
  show "ucast (ucast x :: byte) = x" unfolding word_unat_eq_iff unat_ucast_up [OF _] using u by (simp add: unat_ucast_up)
qed

lemma uvarint_loop_put:
  "i \<le> 9 \<Longrightarrow> s = 7 * i \<Longrightarrow> unat x < 2 ^ (64 - 7 * i) \<Longrightarrow>
     uvarint_loop e (putUvarint x @ rest) i s acc = ((acc OR push_bit s x, i + length (putUvarint x), None), rest) \<and>
     i + length (putUvarint x) \<le> 10"
proof (induction x arbitrary: i s acc rule: putUvarint.induct)
  case (1 x)
  show ?case
  proof (cases "x \<ge> 0x80")
    case True
    then have i: "i < 9" using "1.prems" by (cases "i = 9") (auto simp: word_le_nat_alt)
    have h: "unat (drop_bit 7 x) < 2 ^ (64 - 7 * (i + 1))"
    proof -
      have "64 - 7 * i = 7 + (64 - 7 * (i + 1))" using i by simp
      then have "(2 :: nat) ^ (64 - 7 * i) = 128 * 2 ^ (64 - 7 * (i + 1))" by (simp only: power_add) simp
      then show ?thesis using "1.prems"(3) by (simp add: unat_drop)
    qed
    have p: "putUvarint x = (ucast x OR 0x80) # putUvarint (drop_bit 7 x)" using True by (subst putUvarint.simps) simp
    have "push_bit s x = push_bit s (x AND 0x7f) OR push_bit (s + 7) (drop_bit 7 x)"
      by (subst uvarint_split [of x]) (simp only: push_bit_or push_bit_push_bit)
    then show ?thesis using "1.IH" [OF True _ _ h, of "s + 7" "acc OR push_bit s (x AND 0x7f)"] i "1.prems"(2) uvarint_first [of x]
      by (simp add: p Let_def maxUvarintLen_def or.assoc)
  next
    case False
    then have x: "unat x < 128" by (simp add: word_less_nat_alt not_le)
    note sb = small_byte [OF x]
    have "(ucast x :: byte) < 0x80" using x sb(2) by (simp add: word_less_nat_alt)
    moreover have "\<not> (i + 1 = 10 \<and> (ucast x :: byte) > 1)"
      using "1.prems"(1,3) sb(2) by (auto simp: word_less_nat_alt)
    moreover have "putUvarint x = [ucast x]" using False by (subst putUvarint.simps) simp
    ultimately show ?thesis using "1.prems"(1) sb(1) by (simp add: Let_def maxUvarintLen_def)
  qed
qed

lemma readUvarint_put: "readUvarint (rd (putUvarint x @ rest) e) = ((x, length (putUvarint x), None), rd rest e)"
  and length_putUvarint: "length (putUvarint x) \<le> 10"
  using uvarint_loop_put [of 0 0 x e rest 0] unsigned_less [of x, where ?'a = nat] by (simp_all add: readUvarint_def)

section \<open>Header and footer\<close>

lemma uint32LE_put [simp]: "xz_uint32LE (xz_putUint32LE x @ rest) = x" "xz_uint32LE (xz_putUint32LE x) = x"
  "length (xz_putUint32LE x) = 4"
  by (simp_all add: xz_uint32LE_def xz_putUint32LE_def)

lemma header_roundtrip_flags: "header_MarshalBinary flags = Inr data \<Longrightarrow> length data = xz_HeaderLen \<and> header_UnmarshalBinary data = Inr flags"
  by (auto simp: header_MarshalBinary_def header_UnmarshalBinary_def headerMagic_def xz_HeaderLen_def eval_nat_numeral
      split: option.splits)

lemma footer_roundtrip:
  assumes "footer_MarshalBinary f = Inr data"
  shows "length data = footerLen \<and> footer_UnmarshalBinary data = Inr f"
proof -
  define s where "s = indexSize f div 4 - 1"
  define body where "body = xz_putUint32LE (of_int s) @ [0, ft_flags f]"
  have f: "verifyFlags (ft_flags f) = None" "4 \<le> indexSize f" "indexSize f \<le> 2 ^ 34" "indexSize f mod 4 = 0"
    and data: "data = xz_putUint32LE (crc32 body) @ body @ footerMagic"
    using assms by (auto simp: footer_MarshalBinary_def Let_def body_def s_def minIndexSize_def maxIndexSize_def
        split: option.splits if_splits)
  have "indexSize f = 4 * (s + 1)" using f(4) by (auto simp: s_def)
  moreover from this have "0 \<le> s" "s < 2 ^ 32" using f(2,3) by auto
  then have "uint (of_int s :: u32) = s" by (simp add: uint_word_of_int take_bit_int_eq_self)
  moreover have "length body = 6" by (simp add: body_def)
  moreover have "drop 4 data = body @ footerMagic" "drop 10 data = footerMagic" "data ! 8 = 0" "data ! 9 = ft_flags f"
    by (simp_all add: data body_def nth_append footerMagic_def)
  moreover have "xz_uint32LE (body @ footerMagic) = of_int s" by (simp add: body_def)
  ultimately show ?thesis using f(1) by (cases f) (simp add: footer_UnmarshalBinary_def data footerLen_def footerMagic_def Let_def)
qed

section \<open>The header of a block\<close>

lemma readSize_put:
  assumes "-1 \<le> n" "n < 2 ^ 63"
  shows "readSizeInBlockHeader (rd ((if 0 \<le> n then putUvarint (of_int n) else []) @ rest) e) (0 \<le> n) = (Inr n, rd rest e)"
proof (cases "0 \<le> n")
  case True
  then have "uint (of_int n :: u64) = n" using assms(2) by (simp add: uint_word_of_int take_bit_int_eq_self)
  moreover from this have "\<not> (of_int n :: u64) \<ge> 2 ^ 63" using assms(2) by (simp add: word_le_def)
  ultimately show ?thesis using True by (simp add: readSizeInBlockHeader_def readUvarint_put)
next
  case False
  then show ?thesis using assms(1) by (simp add: readSizeInBlockHeader_def)
qed

lemma readFilter_put:
  assumes "DecodeDictCap (EncodeDictCap dc) = Inr m"
  shows "readFilters (rd ([ucast lzmaFilterID, 1, EncodeDictCap dc] @ rest) e) 1 = (Inr [\<lparr>lf_dictCap = m\<rparr>], rd rest e)"
proof -
  have "putUvarint lzmaFilterID = [ucast lzmaFilterID]" by (subst putUvarint.simps) (simp add: lzmaFilterID_def)
  then have "readUvarint (rd (ucast lzmaFilterID # [1, EncodeDictCap dc] @ rest) e) =
      ((lzmaFilterID, 1, None), rd ([1, EncodeDictCap dc] @ rest) e)"
    using readUvarint_put [of lzmaFilterID "[1, EncodeDictCap dc] @ rest" e] by simp
  then show ?thesis using assms
    by (simp add: readFilters_def readFilter_def xz_ReadFull_def lzmaFilterLen_def filter_UnmarshalBinary_def Let_def)
qed

lemma block_flags:
  fixes flags :: byte
  assumes "flags = (if u then (if c then 0 OR compressedSizePresent else 0) OR uncompressedSizePresent
    else if c then 0 OR compressedSizePresent else 0)"
  shows "flags AND reservedBlockFlags = 0" "flags AND compressedSizePresent \<noteq> 0 \<longleftrightarrow> c"
    "flags AND uncompressedSizePresent \<noteq> 0 \<longleftrightarrow> u" "flags AND filterCountMask = 0"
  unfolding assms by (cases c; cases u; simp add: compressedSizePresent_def uncompressedSizePresent_def
      reservedBlockFlags_def filterCountMask_def)+

lemma padLen_mod: "(n + padLen (int n)) mod 4 = 0" "padLen (int n) < 4"
proof -
  have "nat (int n mod 4) = n mod 4" by (simp add: nat_mod_distrib)
  moreover have "n mod 4 < 4" by simp
  then have "n mod 4 = 0 \<or> n mod 4 = 1 \<or> n mod 4 = 2 \<or> n mod 4 = 3" by arith
  ultimately show "(n + padLen (int n)) mod 4 = 0" "padLen (int n) < 4"
    unfolding padLen_def by (auto simp: mod_add_left_eq [symmetric, of n] simp del: mod_add_left_eq)
qed

lemma block_MarshalBinary_one:
  assumes "flags = (if 0 \<le> u then (if 0 \<le> c then 0 OR compressedSizePresent else 0) OR uncompressedSizePresent
      else if 0 \<le> c then 0 OR compressedSizePresent else 0)"
    and "cb = (if 0 \<le> c then putUvarint (of_int c) else [])" and "ub = (if 0 \<le> u then putUvarint (of_int u) else [])"
    and "marshal_filters [f] = Inr fp" and "b = [0, flags] @ cb @ ub @ fp"
    and "len = length (b @ replicate (padLen (int (length b))) 0) + 4" and "s = len div 4 - 1"
    and "buf = (b @ replicate (padLen (int (length b))) 0)[0 := of_nat s]" and "len mod 4 = 0" "1 < s" "s \<le> 255"
  shows "block_MarshalBinary \<lparr>bh_compressedSize = c, bh_uncompressedSize = u, bh_filters = [f]\<rparr> = Inr (buf @ xz_putUint32LE (crc32 buf))"
  using assms(9-11)
  unfolding block_MarshalBinary_def Let_def blockHeader.simps assms(4) sbind_simps assms(8) assms(7) assms(6) assms(5) assms(3) assms(2) assms(1)
  by (simp add: minFilters_def maxFilters_def filter_id_def)

lemma block_roundtrip:
  assumes h: "h = \<lparr>bh_compressedSize = c, bh_uncompressedSize = u, bh_filters = [\<lparr>lf_dictCap = dc\<rparr>]\<rparr>"
    and c: "-1 \<le> c" "c < 2 ^ 63" and u: "-1 \<le> u" "u < 2 ^ 63" and dc: "DecodeDictCap (EncodeDictCap dc) = Inr m"
  obtains data where "block_MarshalBinary h = Inr data" "length data mod 4 = 0"
    "\<And>rest e. readBlockHeader (rd (data @ rest) e) = (Inr (h\<lparr>bh_filters := [\<lparr>lf_dictCap = m\<rparr>]\<rparr>), length data, rd rest e)"
proof -
  define flags :: byte where "flags = (if 0 \<le> u then (if 0 \<le> c then 0 OR compressedSizePresent else 0) OR uncompressedSizePresent
    else if 0 \<le> c then 0 OR compressedSizePresent else 0)"
  note fl = block_flags [OF flags_def]
  define cb where "cb = (if 0 \<le> c then putUvarint (of_int c) else [])"
  define ub where "ub = (if 0 \<le> u then putUvarint (of_int u) else [])"
  define fp where "fp = [ucast lzmaFilterID, 1, EncodeDictCap dc]"
  define k where "k = padLen (int (length ([0 :: byte, flags] @ cb @ ub @ fp)))"
  define body where "body = cb @ ub @ fp @ replicate k 0"
  define len where "len = length body + 6"
  define s where "s = len div 4 - 1"
  have "length cb \<le> 10" "length ub \<le> 10" using length_putUvarint by (simp_all add: cb_def ub_def)
  moreover have "len - 4 = length ([0 :: byte, flags] @ cb @ ub @ fp) + k" by (simp add: len_def body_def)
  then have "(len - 4) mod 4 = 0" "k < 4"
    using padLen_mod [of "length ([0 :: byte, flags] @ cb @ ub @ fp)"] unfolding k_def [symmetric] by simp_all
  moreover have "len = length cb + length ub + k + 9" by (simp add: len_def body_def fp_def)
  ultimately have b: "9 \<le> len" "len \<le> 32" and "(len - 4) mod 4 = 0" by simp_all
  define q where "q = (len - 4) div 4"
  have q: "len - 4 = 4 * q" using \<open>(len - 4) mod 4 = 0\<close> unfolding q_def by (metis mult_div_mod_eq add_0_right)
  have "len = (len - 4) + 4" using b by simp
  then have lq: "len = 4 * (q + 1)" unfolding q by simp
  then have "s = q" by (simp add: s_def)
  with lq b have len: "len mod 4 = 0" "len = (s + 1) * 4" "1 < s" "s \<le> 7" by simp_all
  have us: "unat (of_nat s :: byte) = s" using len(4) by (intro unat_of_nat_small) simp
  define buf where "buf = of_nat s # flags # body"
  define data where "data = buf @ xz_putUint32LE (crc32 buf)"
  have ld: "length data = len" "length buf = len - 4" by (simp_all add: data_def buf_def len_def)
  have "marshal_filters [\<lparr>lf_dictCap = dc\<rparr>] = Inr fp" by (simp add: fp_def filter_MarshalBinary_def)
  moreover have "buf = ([0, flags] @ cb @ ub @ fp @ replicate k 0)[0 := of_nat s]" by (simp add: buf_def body_def)
  moreover have "len = length ([0, flags] @ cb @ ub @ fp @ replicate k 0) + 4" by (simp add: len_def body_def)
  ultimately have m: "block_MarshalBinary h = Inr data"
    using len unfolding data_def h
    by (intro block_MarshalBinary_one [OF flags_def cb_def ub_def _ refl _ s_def]) (simp_all add: k_def)
  have "block_UnmarshalBinary data = Inr (h\<lparr>bh_filters := [\<lparr>lf_dictCap = m\<rparr>]\<rparr>)"
  proof -
    have d: "data ! 0 = of_nat s" "data ! 1 = flags" "data \<noteq> []" by (simp_all add: data_def buf_def)
    have z: "of_nat s \<noteq> (0 :: byte)" using us len(3) by (metis not_one_less_zero unat_0)
    have hl: "(unat (data ! 0) + 1) * 4 = len" using us len(2) d by simp
    have t: "take (len - 4) data = buf" "drop (len - 4) data = xz_putUint32LE (crc32 buf)" using ld(2) by (simp_all add: data_def)
    have r: "drop 2 buf = cb @ ub @ fp @ replicate k 0" by (simp add: buf_def body_def)
    have f1: "readSizeInBlockHeader (rd (cb @ ub @ fp @ replicate k 0) EOF) (0 \<le> c) = (Inr c, rd (ub @ fp @ replicate k 0) EOF)"
      unfolding cb_def by (rule readSize_put [OF c])
    have f2: "readSizeInBlockHeader (rd (ub @ fp @ replicate k 0) EOF) (0 \<le> u) = (Inr u, rd (fp @ replicate k 0) EOF)"
      unfolding ub_def by (rule readSize_put [OF u])
    have f3: "readFilters (rd (fp @ replicate k 0) EOF) (unat (flags AND filterCountMask) + 1) = (Inr [\<lparr>lf_dictCap = m\<rparr>], rd (replicate k 0) EOF)"
      unfolding fl(4) fp_def using readFilter_put [OF dc] by simp
    have az: "allZeros (replicate k 0)" by (simp add: allZeros_def list_all_iff)
    show ?thesis unfolding block_UnmarshalBinary_def Let_def hl unfolding d t ld
      using z d(3) fl(1-3) f1 f2 f3 az by (simp add: r h)
  qed
  moreover have "readBlockHeader (rd (data @ rest) e) = (block_UnmarshalBinary data, length data, rd rest e)" for rest e
  proof -
    define t where "t = tl data"
    have dt: "data = of_nat s # t" "length t = len - 1" using ld(1) by (simp_all add: t_def data_def buf_def)
    have z: "of_nat s \<noteq> (0 :: byte)" using us len(3) by (metis not_one_less_zero unat_0)
    have "CopyN (rd (data @ rest) e) 1 = ([of_nat s], rd (t @ rest) e, None)" by (simp add: CopyN_def dt(1))
    moreover have "nat (int ((unat (of_nat s :: byte) + 1) * 4) - 1) = length t" using us dt(2) len(2) by simp
    then have "CopyN (rd (t @ rest) e) (int ((unat (of_nat s :: byte) + 1) * 4) - 1) = (t, rd rest e, None)"
      by (simp add: CopyN_def Let_def)
    ultimately show ?thesis using z dt by (simp add: readBlockHeader_def Let_def)
  qed
  moreover have "length data mod 4 = 0" using ld(1) len(1) by simp
  ultimately show thesis using m that by metis
qed

section \<open>The index\<close>

definition valid_record :: "xz_record \<Rightarrow> bool" where
  "valid_record r \<longleftrightarrow> 0 \<le> unpaddedSize r \<and> unpaddedSize r < 2 ^ 63 \<and> 0 \<le> uncompressedSize r \<and> uncompressedSize r < 2 ^ 63"

lemma mw_append [simp]: "mw_Write append_write p (w, h) = (length p, None, w @ p, h @ p)"
  by (simp add: mw_Write_def append_write_def)

lemma write_parts_append [simp]:
  "write_parts append_write ps n (w, h) = (n + length (concat ps), None, w @ concat ps, h @ concat ps)"
  by (induction ps arbitrary: n w h) simp_all

lemma sint_small: "0 \<le> n \<Longrightarrow> n < 2 ^ 63 \<Longrightarrow> sint (of_int n :: u64) = n"
  by (simp add: sint_sbintrunc' signed_take_bit_int_eq_self)

lemma readRecord_put:
  assumes "valid_record r"
  shows "readRecord (rd (record_MarshalBinary r @ rest) e) = (Inr r, length (record_MarshalBinary r), rd rest e)"
  using assms by (simp add: readRecord_def record_MarshalBinary_def readUvarint_put sint_small valid_record_def)

lemma readRecords_put:
  "list_all valid_record rs \<Longrightarrow> readRecords (length rs) (rd (concat (map record_MarshalBinary rs) @ rest) e) =
     (Inr rs, length (concat (map record_MarshalBinary rs)), rd rest e)"
  by (induction rs) (simp_all add: readRecord_put del: length_concat)

lemma xz_ReadFull_append [simp]: "length p = n \<Longrightarrow> xz_ReadFull n (rd (p @ rest) e) = (Inr p, n, rd rest e)"
  by (simp add: xz_ReadFull_def Let_def)

lemma writeIndex_append:
  assumes "body = putUvarint (of_nat (length rs)) @ concat (map record_MarshalBinary rs)"
    and "out = body @ replicate (padLen (1 + int (length body))) 0"
  shows "writeIndex append_write rs w = (length out + 5, None, w @ 0 # out @ xz_putUint32LE (crc32 (0 # out)))"
  using assms(1) unfolding writeIndex_def assms(2) by (simp add: append_write_def del: length_concat)

lemma index_written:
  assumes "list_all valid_record rs" "length rs < 2 ^ 63"
  shows "\<exists>out. writeIndex append_write rs w = (length out + 1, None, w @ 0 # out) \<and> (length out + 1) mod 4 = 0 \<and>
     (\<forall>rest e. readIndexBody (rd (out @ rest) e) (length rs) = (Inr rs, length out, rd rest e))"
proof -
  define body where "body = putUvarint (of_nat (length rs)) @ concat (map record_MarshalBinary rs)"
  define pad :: "byte list" where "pad = replicate (padLen (1 + int (length body))) 0"
  define out where "out = (body @ pad) @ xz_putUint32LE (crc32 (0 # body @ pad))"
  have w: "writeIndex append_write rs w = (length out + 1, None, w @ 0 # out)"
    using writeIndex_append [OF body_def refl, of w] by (simp add: out_def pad_def)
  have "(length (body @ pad) + 1) mod 4 = 0"
    using padLen_mod(1) [of "Suc (length body)"] by (simp add: pad_def add_ac)
  moreover have "length out + 1 = (length (body @ pad) + 1) + 4" by (simp add: out_def)
  ultimately have "(length out + 1) mod 4 = 0" by (simp only: mod_add_self2)
  moreover have "readIndexBody (rd (out @ rest) e) (length rs) = (Inr rs, length out, rd rest e)" for rest e
  proof -
    have n: "sint (of_nat (length rs) :: u64) = int (length rs)" using sint_small [of "int (length rs)"] assms(2) by simp
    have c: "consumed (rd (out @ rest) e) (rd (xz_putUint32LE (crc32 (0 # body @ pad)) @ rest) e) = body @ pad"
      by (simp add: consumed_def out_def)
    have "allZeros pad" by (simp add: allZeros_def pad_def list_all_iff)
    then show ?thesis using c n
      by (simp add: readIndexBody_def out_def body_def readUvarint_put readRecords_put [OF assms(1)] pad_def add_ac del: length_concat)
  qed
  ultimately show ?thesis using w by (intro exI [of _ out] conjI allI)
qed

section \<open>What is read is what was written\<close>

text \<open>
  C26. The header of a block: for sizes that are absent or below \<open>2\<^sup>6\<^sup>3\<close> and a dictionary capacity of at most
  4 GiB, the writer produces a header of a multiple of four bytes, and the reader, in front of any
  further data, takes exactly these bytes and returns the same sizes and a capacity at least as large.
\<close>

theorem block_header_roundtrip:
  assumes "-1 \<le> c" "c < 2 ^ 63" "-1 \<le> u" "u < 2 ^ 63" "dc \<le> 2 ^ 32 - 1"
  shows "\<exists>data m. block_MarshalBinary \<lparr>bh_compressedSize = c, bh_uncompressedSize = u, bh_filters = [\<lparr>lf_dictCap = dc\<rparr>]\<rparr> = Inr data \<and>
     length data mod 4 = 0 \<and> dc \<le> m \<and>
     (\<forall>rest e. readBlockHeader (rd (data @ rest) e) =
        (Inr \<lparr>bh_compressedSize = c, bh_uncompressedSize = u, bh_filters = [\<lparr>lf_dictCap = m\<rparr>]\<rparr>, length data, rd rest e))"
proof -
  obtain m where "DecodeDictCap (EncodeDictCap dc) = Inr m" "dc \<le> m" using EncodeDictCap_least_code [OF assms(5)] by blast
  then show ?thesis by (rule_tac block_roundtrip [OF refl assms(1-4)]) auto
qed

theorem block_header_roundtrip_witness:
  "\<exists>data m. block_MarshalBinary \<lparr>bh_compressedSize = 300, bh_uncompressedSize = -1, bh_filters = [\<lparr>lf_dictCap = 8388608\<rparr>]\<rparr> = Inr data \<and>
     length data mod 4 = 0 \<and> 8388608 \<le> m \<and>
     (\<forall>rest e. readBlockHeader (rd (data @ rest) e) =
        (Inr \<lparr>bh_compressedSize = 300, bh_uncompressedSize = -1, bh_filters = [\<lparr>lf_dictCap = m\<rparr>]\<rparr>, length data, rd rest e))"
  by (rule block_header_roundtrip) simp_all

end
