(* ===== verification/ArchiveNames.thy ===== *)
theory ArchiveNames
  imports Prelude
begin

text \<open>
  \<open>internal/archive7z/path.go\<close> and the wildcards and input names of \<open>archive.go\<close>. A Go string is the list of its
  bytes. What differs between operating systems is a record of parameters; \<open>path.Clean\<close>, \<open>path.Base\<close>, \<open>filepath.Rel\<close>
  and the functions of the package strings are written from their documentation, the functions of \<open>filepath\<close> for
  systems whose separator is the slash.
\<close>

section \<open>The package strings\<close>

abbreviation slash :: char where "slash \<equiv> CHR ''/''"
abbreviation backslash :: char where "backslash \<equiv> CHR 0x5C"

text \<open>\<open>strings.Split(s, sep)\<close> and \<open>strings.Join(cs, sep)\<close> for a separator of one byte.\<close>

fun Split :: "char \<Rightarrow> string \<Rightarrow> string list" where
  "Split x [] = [[]]"
| "Split x (c # cs) = (if c = x then [] # Split x cs else (c # hd (Split x cs)) # tl (Split x cs))"

fun JoinS :: "char \<Rightarrow> string list \<Rightarrow> string" where
  "JoinS x [] = []"
| "JoinS x [e] = e"
| "JoinS x (e # es) = e @ x # JoinS x es"

definition HasPrefix :: "string \<Rightarrow> string \<Rightarrow> bool" where
  "HasPrefix s p \<longleftrightarrow> take (length p) s = p"

definition TrimPrefix :: "string \<Rightarrow> string \<Rightarrow> string" where
  "TrimPrefix s p = (if HasPrefix s p then drop (length p) s else s)"

definition HasSuffix :: "string \<Rightarrow> string \<Rightarrow> bool" where
  "HasSuffix s p \<longleftrightarrow> length p \<le> length s \<and> drop (length s - length p) s = p"

definition TrimSuffix :: "string \<Rightarrow> string \<Rightarrow> string" where
  "TrimSuffix s p = (if HasSuffix s p then take (length s - length p) s else s)"

definition ContainsAny :: "string \<Rightarrow> string \<Rightarrow> bool" where
  "ContainsAny s cs \<longleftrightarrow> list_ex (\<lambda>c. c \<in> set cs) s"

text \<open>\<open>strings.Trim(s, "/")\<close> and \<open>strings.ReplaceAll(s, "\\", "/")\<close>.\<close>

definition Trim_slash :: "string \<Rightarrow> string" where
  "Trim_slash s = rev (dropWhile (\<lambda>c. c = slash) (rev (dropWhile (\<lambda>c. c = slash) s)))"

definition to_slashes :: "string \<Rightarrow> string" where
  "to_slashes s = map (\<lambda>c. if c = backslash then slash else c) s"

section \<open>The packages path and filepath\<close>

text \<open>
  \<open>path.Clean\<close>: empty elements and \<open>.\<close> are dropped, \<open>..\<close> removes the element before it unless that is
  \<open>..\<close> too, and is dropped at the root. The elements so far are on a stack.
\<close>

definition clean_elem :: "bool \<Rightarrow> string list \<Rightarrow> string \<Rightarrow> string list" where
  "clean_elem rooted stack e =
     (if e = [] \<or> e = ''.'' then stack
      else if e = ''..'' then
        (if stack \<noteq> [] \<and> hd stack \<noteq> ''..'' then tl stack else if rooted then stack else e # stack)
      else e # stack)"

definition clean_elems :: "bool \<Rightarrow> string list \<Rightarrow> string list" where
  "clean_elems rooted es = rev (foldl (clean_elem rooted) [] es)"

definition IsAbs :: "string \<Rightarrow> bool" where
  "IsAbs p \<longleftrightarrow> HasPrefix p ''/''"

definition path_Clean :: "string \<Rightarrow> string" where
  "path_Clean p =
     (let es = clean_elems (IsAbs p) (Split slash p) in
      if IsAbs p then slash # JoinS slash es else if es = [] then ''.'' else JoinS slash es)"

definition path_Base :: "string \<Rightarrow> string" where
  "path_Base p =
     (if p = [] then ''.''
      else let q = rev (dropWhile (\<lambda>c. c = slash) (rev p)) in if q = [] then ''/'' else last (Split slash q))"

definition filepath_Join :: "string \<Rightarrow> string \<Rightarrow> string" where
  "filepath_Join a b = (if a = [] \<and> b = [] then [] else if a = [] then path_Clean b else path_Clean (a @ slash # b))"

text \<open>The working directory is a parameter; there may be none.\<close>

definition filepath_Abs :: "string option \<Rightarrow> string \<Rightarrow> string option" where
  "filepath_Abs cwd p = (if IsAbs p then Some (path_Clean p) else map_option (\<lambda>wd. filepath_Join wd p) cwd)"

fun strip_common :: "string list \<Rightarrow> string list \<Rightarrow> string list \<times> string list" where
  "strip_common (b # bs) (t # ts) = (if b = t then strip_common bs ts else (b # bs, t # ts))"
| "strip_common bs ts = (bs, ts)"

definition elements :: "string \<Rightarrow> string list" where
  "elements p = clean_elems (IsAbs p) (Split slash p)"

definition filepath_Rel :: "string \<Rightarrow> string \<Rightarrow> string option" where
  "filepath_Rel base targ =
     (if IsAbs base \<noteq> IsAbs targ then None
      else case strip_common (elements base) (elements targ) of (bs, ts) \<Rightarrow>
        if bs \<noteq> [] \<and> hd bs = ''..'' then None
        else let es = replicate (length bs) ''..'' @ ts in Some (if es = [] then ''.'' else JoinS slash es))"

section \<open>Names in archives\<close>

text \<open>
  What the operating system decides: the separator of paths, the volume of a path, the upper case of a
  name, and whether file names are compared without case and how.
\<close>

record platform =
  pl_Separator :: char
  pl_VolumeName :: "string \<Rightarrow> string"
  pl_ToUpper :: "string \<Rightarrow> string"
  pl_fold :: bool
  pl_EqualFold :: "string \<Rightarrow> string \<Rightarrow> bool"
  pl_EqualFoldRune :: "nat \<Rightarrow> nat \<Rightarrow> bool"

datatype name_error = UnsafePath string | PathError

definition FromSlash :: "platform \<Rightarrow> string \<Rightarrow> string" where
  "FromSlash pl s = map (\<lambda>c. if c = slash then pl_Separator pl else c) s"

definition invalid_component :: "platform \<Rightarrow> string \<Rightarrow> bool" where
  "invalid_component pl component \<longleftrightarrow>
     (CHR '':'' \<in> set component \<or> HasSuffix component ''.'' \<or> HasSuffix component '' '') \<or>
     (let base = pl_ToUpper pl (hd (Split (CHR ''.'') component)) in
      base = ''CON'' \<or> base = ''PRN'' \<or> base = ''AUX'' \<or> base = ''NUL'' \<or>
      (length base = 4 \<and> (HasPrefix base ''COM'' \<or> HasPrefix base ''LPT'') \<and>
       of_char (base ! 3) \<ge> (49 :: nat) \<and> of_char (base ! 3) \<le> (57 :: nat)))"

definition validatePlatformPath :: "platform \<Rightarrow> string \<Rightarrow> bool" where
  "validatePlatformPath pl name =
     (if pl_Separator pl \<noteq> backslash then True else \<not> list_ex (invalid_component pl) (Split slash name))"

definition cleanArchiveName :: "platform \<Rightarrow> string \<Rightarrow> name_error + string" where
  "cleanArchiveName pl name =
     (let name = to_slashes name in
      if name = [] \<or> CHR 0x00 \<in> set name \<or> HasPrefix name ''/'' then Inl (UnsafePath name)
      else if length name \<ge> 2 \<and> name ! 1 = CHR '':'' then Inl (UnsafePath name)
      else
        let clean = path_Clean name in
        if clean = ''.'' \<or> clean = ''..'' \<or> HasPrefix clean ''../'' then Inl (UnsafePath name)
        else if pl_VolumeName pl (FromSlash pl clean) \<noteq> [] then Inl (UnsafePath name)
        else if \<not> validatePlatformPath pl clean then Inl (UnsafePath name)
        else Inr clean)"

text \<open>\<open>destination\<close>, where the separator is the slash.\<close>

definition destination :: "platform \<Rightarrow> string option \<Rightarrow> string \<Rightarrow> string \<Rightarrow> bool \<Rightarrow> name_error + string \<times> string" where
  "destination pl cwd root name flatten =
     sbind (cleanArchiveName pl name) (\<lambda>clean.
       let clean = (if flatten then path_Base clean else clean) in
       case filepath_Abs cwd root of
         None \<Rightarrow> Inl PathError
       | Some rootAbs \<Rightarrow>
           let target = filepath_Join rootAbs clean in
           (case filepath_Rel rootAbs target of
              None \<Rightarrow> Inl (UnsafePath name)
            | Some rel \<Rightarrow>
                if rel = ''..'' \<or> HasPrefix rel ''../'' then Inl (UnsafePath name) else Inr (target, clean)))"

section \<open>Names of inputs\<close>

text \<open>The loop of \<open>inputBaseName\<close>, which may not end: then its value is None.\<close>

partial_function (option) base_loop :: "string \<Rightarrow> string option" where
  "base_loop clean = (if clean = ''..'' \<or> HasPrefix clean ''../'' then base_loop (path_Base clean) else Some clean)"

definition inputBaseName :: "string \<Rightarrow> string \<Rightarrow> string option" where
  "inputBaseName source absolute =
     (if IsAbs source then Some (path_Base absolute)
      else map_option (\<lambda>clean. TrimPrefix clean ''./'') (base_loop (path_Clean source)))"

section \<open>Wildcards\<close>

text \<open>The runes of a string: UTF-8, an ill-formed byte being U+FFFD.\<close>

definition continuation :: "nat \<Rightarrow> nat \<Rightarrow> nat \<Rightarrow> bool" where
  "continuation lo hi b \<longleftrightarrow> lo \<le> b \<and> b \<le> hi"

definition second_range :: "nat \<Rightarrow> nat \<times> nat" where
  "second_range b0 = (if b0 = 0xE0 then 0xA0 else if b0 = 0xF0 then 0x90 else 0x80,
     if b0 = 0xED then 0x9F else if b0 = 0xF4 then 0x8F else 0xBF)"

fun decodeRune :: "nat list \<Rightarrow> nat \<times> nat" where
  "decodeRune [] = (0xFFFD, 0)"
| "decodeRune (b0 # bs) =
     (let cont = (\<lambda>i. i < length bs \<and> continuation 0x80 0xBF (bs ! i));
          second = (case second_range b0 of (lo, hi) \<Rightarrow> bs \<noteq> [] \<and> continuation lo hi (bs ! 0)) in
      if b0 < 0x80 then (b0, 1)
      else if 0xC2 \<le> b0 \<and> b0 \<le> 0xDF \<and> second then ((b0 mod 32) * 64 + bs ! 0 mod 64, 2)
      else if 0xE0 \<le> b0 \<and> b0 \<le> 0xEF \<and> second \<and> cont 1
      then ((b0 mod 16) * 4096 + (bs ! 0 mod 64) * 64 + bs ! 1 mod 64, 3)
      else if 0xF0 \<le> b0 \<and> b0 \<le> 0xF4 \<and> second \<and> cont 1 \<and> cont 2
      then ((b0 mod 8) * 262144 + (bs ! 0 mod 64) * 4096 + (bs ! 1 mod 64) * 64 + bs ! 2 mod 64, 4)
      else (0xFFFD, 1))"

function rune_loop :: "nat list \<Rightarrow> nat list" where
  "rune_loop bs = (if bs = [] then [] else case decodeRune bs of (r, w) \<Rightarrow> r # rune_loop (drop (max 1 w) bs))"
  by pat_completeness auto
termination by (relation "measure length") auto

declare rune_loop.simps [simp del]

definition runes :: "string \<Rightarrow> nat list" where
  "runes s = rune_loop (map of_char s)"

definition equalFileRune :: "platform \<Rightarrow> nat \<Rightarrow> nat \<Rightarrow> bool" where
  "equalFileRune pl a b = (if pl_fold pl then pl_EqualFoldRune pl a b else a = b)"

definition equalFileName :: "platform \<Rightarrow> string \<Rightarrow> string \<Rightarrow> bool" where
  "equalFileName pl a b = (if pl_fold pl then pl_EqualFold pl a b else a = b)"

definition hasFileNamePrefix :: "platform \<Rightarrow> string \<Rightarrow> string \<Rightarrow> bool" where
  "hasFileNamePrefix pl name pre =
     (if length name < length pre then False else equalFileName pl (take (length pre) name) pre)"

text \<open>The tables of \<open>wildcardMatch\<close>: an absent entry reads as False. Positions do not exceed the lengths.\<close>

record memo_state =
  ms_seen :: "nat \<times> nat \<Rightarrow> bool"
  ms_memo :: "nat \<times> nat \<Rightarrow> bool"

abbreviation star :: nat where "star \<equiv> 42"
abbreviation question :: nat where "question \<equiv> 63"

function wild_match :: "platform \<Rightarrow> nat list \<Rightarrow> nat list \<Rightarrow> nat \<Rightarrow> nat \<Rightarrow> memo_state \<Rightarrow> bool \<times> memo_state" where
  "wild_match pl msk name mi ni st =
     (if ms_seen st (mi, ni) then (ms_memo st (mi, ni), st)
      else
        let st = st\<lparr>ms_seen := (ms_seen st)((mi, ni) := True)\<rparr>;
            (result, st) =
              (if mi \<ge> length msk then (ni = length name, st)
               else if msk ! mi = star then
                 (case wild_match pl msk name (mi + 1) ni st of
                    (True, st) \<Rightarrow> (True, st)
                  | (False, st) \<Rightarrow> if ni < length name then wild_match pl msk name mi (ni + 1) st else (False, st))
               else if ni < length name \<and> (msk ! mi = question \<or> equalFileRune pl (msk ! mi) (name ! ni))
               then wild_match pl msk name (mi + 1) (ni + 1) st
               else (False, st))
        in (result, st\<lparr>ms_memo := (ms_memo st)((mi, ni) := result)\<rparr>))"
  by pat_completeness auto
termination by (relation "measure (\<lambda>(_, msk, name, mi, ni, _). (length msk - mi) + (length name - ni))") auto

declare wild_match.simps [simp del]

definition wildcardMatch :: "platform \<Rightarrow> string \<Rightarrow> string \<Rightarrow> bool" where
  "wildcardMatch pl msk name =
     fst (wild_match pl (runes msk) (runes name) 0 0 \<lparr>ms_seen = \<lambda>_. False, ms_memo = \<lambda>_. False\<rparr>)"

definition wildcardPathMatch :: "platform \<Rightarrow> string \<Rightarrow> string \<Rightarrow> bool \<Rightarrow> bool" where
  "wildcardPathMatch pl pat name recursive =
     (let patternParts = Split slash (Trim_slash pat); nameParts = Split slash (Trim_slash name) in
      if recursive \<and> length patternParts > length nameParts then False
      else
        let nameParts = (if recursive then drop (length nameParts - length patternParts) nameParts else nameParts) in
        length patternParts = length nameParts \<and> list_all (\<lambda>(p, n). wildcardMatch pl p n) (zip patternParts nameParts))"

section \<open>Patterns\<close>

definition excludePatternPrefix :: string where "excludePatternPrefix = CHR 0x00 # ''X''"
definition recursivePatternPrefix :: string where "recursivePatternPrefix = CHR 0x00 # ''R''"

definition matchArchivePattern :: "platform \<Rightarrow> string \<Rightarrow> string \<Rightarrow> bool" where
  "matchArchivePattern pl name pat =
     (let recursive = HasPrefix pat recursivePatternPrefix;
          pat = to_slashes (TrimPrefix pat recursivePatternPrefix);
          candidateName = TrimSuffix (to_slashes name) ''/'';
          candidatePattern = TrimSuffix pat ''/'' in
      if \<not> ContainsAny candidatePattern ''*?'' \<and>
         (equalFileName pl candidateName candidatePattern \<or> hasFileNamePrefix pl candidateName (candidatePattern @ ''/''))
      then True
      else if candidatePattern = ''*'' then True
      else wildcardPathMatch pl candidatePattern candidateName recursive)"

definition decorate :: "bool \<Rightarrow> string \<Rightarrow> string" where
  "decorate recursive pat =
     (let pat = to_slashes pat in
      if recursive \<and> ContainsAny pat ''*?'' \<and> pat \<noteq> ''*'' then recursivePatternPrefix @ TrimPrefix pat ''./'' else pat)"

definition BuildPatterns :: "string list \<Rightarrow> string list \<Rightarrow> bool \<Rightarrow> string list" where
  "BuildPatterns includes excludes recursive =
     map (decorate recursive) includes @ map (\<lambda>pat. excludePatternPrefix @ decorate recursive pat) excludes"

definition matches :: "platform \<Rightarrow> string \<Rightarrow> string list \<Rightarrow> bool" where
  "matches pl name patterns =
     (let excludes = map (\<lambda>pat. TrimPrefix pat excludePatternPrefix) (filter (\<lambda>pat. HasPrefix pat excludePatternPrefix) patterns);
          includes = filter (\<lambda>pat. \<not> HasPrefix pat excludePatternPrefix) patterns;
          included = includes = [] \<or> list_ex (matchArchivePattern pl name) includes in
      if \<not> included then False else \<not> list_ex (matchArchivePattern pl name) excludes)"

end
