(* ===== verification/ArchiveNamesProps.thy ===== *)
theory ArchiveNamesProps
  imports ArchiveNames
begin

text \<open>
  What the names of archives and inputs promise: a cleaned name consists of proper elements, its
  destination lies below the directory, the memoised wildcard matcher decides the language of the mask,
  and the loop of \<open>inputBaseName\<close> ends exactly when the last element of the path is not \<open>..\<close>.
\<close>

section \<open>Splitting and joining\<close>

lemma Split_not_Nil [simp]: "Split x s \<noteq> []"
  by (cases s) simp_all

lemma Split_append: "Split x (a @ x # b) = Split x a @ Split x b"
  by (induction a) simp_all

lemma Split_one: "x \<notin> set e \<Longrightarrow> Split x e = [e]"
  by (induction e) auto

lemma Split_Join: "list_all (\<lambda>e. x \<notin> set e) es \<Longrightarrow> es \<noteq> [] \<Longrightarrow> Split x (JoinS x es) = es"
  by (induction x es rule: JoinS.induct) (simp_all add: Split_one Split_append)

lemma Split_elements: "e \<in> set (Split x s) \<Longrightarrow> x \<notin> set e \<and> set e \<subseteq> set s"
proof (induction s arbitrary: e)
  case (Cons c s)
  then show ?case by (cases "Split x s") (fastforce split: if_splits)+
qed simp

lemma set_JoinS: "set (JoinS x es) \<subseteq> insert x (\<Union> (set ` set es))"
  by (induction x es rule: JoinS.induct) auto

section \<open>Clean paths\<close>

definition proper :: "string \<Rightarrow> bool" where
  "proper e \<longleftrightarrow> e \<noteq> [] \<and> e \<noteq> ''.'' \<and> e \<noteq> ''..'' \<and> slash \<notin> set e"

lemma proper_no_slash: "list_all proper es \<Longrightarrow> list_all (\<lambda>e. slash \<notin> set e) es"
  by (induction es) (simp_all add: proper_def)

definition stack_ok :: "bool \<Rightarrow> string list \<Rightarrow> bool" where
  "stack_ok rooted st \<longleftrightarrow> (\<exists>ps k. st = ps @ replicate k ''..'' \<and> list_all proper ps \<and> (rooted \<longrightarrow> k = 0))"

lemma clean_elem_ok:
  assumes "stack_ok rooted st" "slash \<notin> set e"
  shows "stack_ok rooted (clean_elem rooted st e)"
proof -
  obtain ps k where st: "st = ps @ replicate k ''..''" "list_all proper ps" "rooted \<longrightarrow> k = 0"
    using assms(1) by (auto simp: stack_ok_def)
  consider "e = [] \<or> e = ''.''" | "e = ''..''" "ps = []" | p qs where "e = ''..''" "ps = p # qs" | "proper e"
    using assms(2) by (cases ps) (auto simp: proper_def)
  then show ?thesis
  proof cases
    case 1
    then show ?thesis using assms(1) by (simp add: clean_elem_def)
  next
    case 2
    then have "clean_elem rooted st e = (if rooted then [] else replicate (Suc k) ''..'')"
      using st by (cases k) (auto simp: clean_elem_def)
    then show ?thesis unfolding stack_ok_def
      by (intro exI [of _ "[]"] exI [of _ "if rooted then 0 else Suc k"]) auto
  next
    case 3
    then have "clean_elem rooted st e = qs @ replicate k ''..''"
      using st by (simp add: clean_elem_def proper_def)
    then show ?thesis using st 3 unfolding stack_ok_def by auto
  next
    case 4
    then have "clean_elem rooted st e = (e # ps) @ replicate k ''..''" using st(1) by (simp add: clean_elem_def proper_def)
    moreover have "list_all proper (e # ps)" using 4 st(2) by simp
    ultimately show ?thesis using st(3) unfolding stack_ok_def by blast
  qed
qed

lemma clean_fold_ok: "list_all (\<lambda>e. slash \<notin> set e) es \<Longrightarrow> stack_ok rooted st \<Longrightarrow> stack_ok rooted (foldl (clean_elem rooted) st es)"
  by (induction es arbitrary: st) (simp_all add: clean_elem_ok)

lemma clean_fold_set: "set (foldl (clean_elem rooted) st es) \<subseteq> set st \<union> set es"
proof (induction es arbitrary: st)
  case (Cons e es)
  have "set (clean_elem rooted st e) \<subseteq> insert e (set st)"
    by (auto simp: clean_elem_def dest: list.set_sel(2))
  then show ?case using Cons.IH [of "clean_elem rooted st e"] by auto
qed simp

lemma clean_fold_proper: "list_all proper es \<Longrightarrow> foldl (clean_elem rooted) st es = rev es @ st"
  by (induction es arbitrary: st) (simp_all add: clean_elem_def proper_def)

lemma clean_elems_proper: "list_all proper es \<Longrightarrow> clean_elems rooted es = es"
  by (simp add: clean_elems_def clean_fold_proper)

lemma clean_elems_Nil [simp]: "clean_elems rooted ([] # es) = clean_elems rooted es"
  by (simp add: clean_elems_def clean_elem_def)

lemma elements_shape:
  obtains k ps where "elements p = replicate k ''..'' @ ps" "list_all proper ps" "IsAbs p \<longrightarrow> k = 0"
    "\<Union> (set ` set (elements p)) \<subseteq> set p"
proof -
  have a: "list_all (\<lambda>e. slash \<notin> set e) (Split slash p)" using Split_elements by (auto simp: list_all_iff)
  have "stack_ok (IsAbs p) []" by (simp add: stack_ok_def)
  from clean_fold_ok [OF a this] obtain ps k where
    "rev (elements p) = ps @ replicate k ''..''" "list_all proper ps" "IsAbs p \<longrightarrow> k = 0"
    by (auto simp: stack_ok_def elements_def clean_elems_def)
  moreover from this(1) have "elements p = replicate k ''..'' @ rev ps" by (simp add: rev_swap)
  moreover have "set (elements p) \<subseteq> set (Split slash p)"
    using clean_fold_set [of "IsAbs p" "[]" "Split slash p"] by (simp add: elements_def clean_elems_def)
  then have "\<Union> (set ` set (elements p)) \<subseteq> set p" using Split_elements by blast
  ultimately show thesis using that [of k "rev ps"] by simp
qed

lemma Join_head: "list_all proper es \<Longrightarrow> es \<noteq> [] \<Longrightarrow> JoinS slash es \<noteq> [] \<and> hd (JoinS slash es) \<noteq> slash"
  by (cases es rule: remdups_adj.cases) (auto simp: proper_def hd_append neq_Nil_conv)

lemma relative_elements:
  assumes "list_all proper es" "es \<noteq> []"
  shows "\<not> IsAbs (JoinS slash es)" "elements (JoinS slash es) = es" "path_Clean (JoinS slash es) = JoinS slash es"
proof -
  show r: "\<not> IsAbs (JoinS slash es)" using Join_head [OF assms] by (cases "JoinS slash es") (auto simp: IsAbs_def HasPrefix_def)
  show e: "elements (JoinS slash es) = es"
    using clean_elems_proper assms by (simp add: elements_def Split_Join proper_no_slash)
  show "path_Clean (JoinS slash es) = JoinS slash es"
    using r e assms(2) by (simp add: path_Clean_def Let_def elements_def)
qed

lemma path_Clean_elements:
  "path_Clean p = (if IsAbs p then slash # JoinS slash (elements p) else if elements p = [] then ''.'' else JoinS slash (elements p))"
  by (simp add: path_Clean_def elements_def Let_def)

lemma rooted_elements:
  assumes "list_all proper es"
  shows "IsAbs (slash # JoinS slash es)" "elements (slash # JoinS slash es) = es"
    "list_all proper ds \<Longrightarrow> ds \<noteq> [] \<Longrightarrow> elements ((slash # JoinS slash es) @ slash # JoinS slash ds) = es @ ds"
proof -
  have s: "clean_elems True (Split slash (slash # JoinS slash es) @ ds) = es @ ds" if "list_all proper ds" for ds
    using assms that clean_elems_proper [of "es @ ds" True]
    by (cases "es = []") (simp_all add: Split_Join proper_no_slash)
  show a: "IsAbs (slash # JoinS slash es)" by (simp add: IsAbs_def HasPrefix_def)
  show "elements (slash # JoinS slash es) = es" using s [of "[]"] a by (simp add: elements_def)
  assume d: "list_all proper ds" "ds \<noteq> []"
  have "IsAbs ((slash # JoinS slash es) @ slash # JoinS slash ds)" by (simp add: IsAbs_def HasPrefix_def)
  then show "elements ((slash # JoinS slash es) @ slash # JoinS slash ds) = es @ ds"
    unfolding elements_def Split_append using s [OF d(1)] d by (simp add: Split_Join proper_no_slash)
qed

lemma last_Split_Base:
  assumes "es \<noteq> []" "list_all (\<lambda>e. e \<noteq> [] \<and> slash \<notin> set e) es"
  shows "path_Base (JoinS slash es) = last es"
proof -
  have l: "last (JoinS slash es) \<noteq> slash \<and> JoinS slash es \<noteq> []" using assms
    by (induction slash es rule: JoinS.induct) (auto simp: last_append dest: last_in_set)
  then have "dropWhile (\<lambda>c. c = slash) (rev (JoinS slash es)) = rev (JoinS slash es)"
    by (cases "JoinS slash es" rule: rev_cases) simp_all
  moreover have "Split slash (JoinS slash es) = es" using assms by (intro Split_Join) (auto simp: list_all_iff)
  ultimately show ?thesis using l by (simp add: path_Base_def Let_def)
qed

lemma proper_nonempty: "list_all proper es \<Longrightarrow> list_all (\<lambda>e. e \<noteq> [] \<and> slash \<notin> set e) es"
  by (induction es) (simp_all add: proper_def)

section \<open>Cleaned names\<close>

lemma cleanArchiveName_cases:
  assumes "cleanArchiveName pl name = Inr clean"
  obtains es where "es \<noteq> []" "list_all proper es" "clean = JoinS slash es" "set clean \<subseteq> insert slash (set (to_slashes name))"
    "CHR 0x00 \<notin> set (to_slashes name)" "pl_VolumeName pl (FromSlash pl clean) = []" "validatePlatformPath pl clean"
proof -
  define n where "n = to_slashes name"
  have n: "\<not> IsAbs n" "CHR 0x00 \<notin> set n" "clean = path_Clean n" "clean \<noteq> ''.''" "clean \<noteq> ''..''" "\<not> HasPrefix clean ''../''"
    "pl_VolumeName pl (FromSlash pl clean) = []" "validatePlatformPath pl clean"
    using assms by (auto simp: cleanArchiveName_def Let_def n_def IsAbs_def split: if_splits)
  obtain k ps where e: "elements n = replicate k ''..'' @ ps" "list_all proper ps" "\<Union> (set ` set (elements n)) \<subseteq> set n"
    by (rule elements_shape [of n])
  have c: "clean = JoinS slash (elements n)" "elements n \<noteq> []" using n(1,3,4) by (auto simp: path_Clean_elements split: if_splits)
  have "k = 0"
  proof (cases k)
    case (Suc j)
    then have "elements n = ''..'' # replicate j ''..'' @ ps" using e(1) by simp
    then have "clean = ''..'' \<or> HasPrefix clean ''../''"
      unfolding c(1) by (cases "replicate j ''..'' @ ps") (simp_all add: HasPrefix_def)
    then show ?thesis using n(5,6) by blast
  qed
  then have "list_all proper (elements n)" using e(1,2) by simp
  moreover have "set clean \<subseteq> insert slash (set n)" unfolding c(1) using set_JoinS [of slash "elements n"] e(3) by blast
  ultimately show thesis using that [of "elements n"] c n(2,7,8) unfolding n_def by simp
qed

lemma no_backslash [simp]: "backslash \<notin> set (to_slashes s)"
  by (auto simp: to_slashes_def)

lemma to_slashes_id: "backslash \<notin> set s \<Longrightarrow> to_slashes s = s"
  unfolding to_slashes_def by (rule map_idI) auto

lemma hd_of_prefix:
  assumes "HasPrefix (JoinS slash es) (e @ [slash])" "slash \<notin> set e" "list_all (\<lambda>e. slash \<notin> set e) es" "es \<noteq> []"
  shows "hd es = e"
proof -
  have "JoinS slash es = e @ slash # drop (Suc (length e)) (JoinS slash es)"
    using assms(1) append_take_drop_id [of "Suc (length e)" "JoinS slash es"] by (simp add: HasPrefix_def)
  then have "Split slash (JoinS slash es) = Split slash e @ Split slash (drop (Suc (length e)) (JoinS slash es))"
    by (metis Split_append)
  then have "es = e # Split slash (drop (Suc (length e)) (JoinS slash es))" using assms(2-4) by (simp add: Split_Join Split_one)
  then show ?thesis by (rule ssubst) simp
qed

lemma no_dotdot:
  assumes "list_all proper es" "es \<noteq> []"
  shows "JoinS slash es \<noteq> ''.''" "JoinS slash es \<noteq> ''..''" "\<not> HasPrefix (JoinS slash es) ''../''"
proof -
  have s: "Split slash (JoinS slash es) = es" using assms by (simp add: Split_Join proper_no_slash)
  show "JoinS slash es \<noteq> ''.''" "JoinS slash es \<noteq> ''..''" using s assms(1) by (auto simp: proper_def)
  show "\<not> HasPrefix (JoinS slash es) ''../''"
    using hd_of_prefix [of es "''..''"] assms by (cases es) (auto simp: proper_def proper_no_slash)
qed

lemma last_proper: "list_all proper es \<Longrightarrow> es \<noteq> [] \<Longrightarrow> proper (last es)"
  by (simp add: list_all_iff)

section \<open>Destinations\<close>

lemma strip_common_prefix [simp]: "strip_common es (es @ ds) = ([], ds)"
  by (induction es) (cases ds; simp)+

lemma destination_step:
  assumes es: "es \<noteq> []" "list_all proper es" and ra: "filepath_Abs cwd root = Some ra" and wd: "\<And>wd. cwd = Some wd \<Longrightarrow> IsAbs wd"
  shows "IsAbs (filepath_Join ra (JoinS slash es))" "elements (filepath_Join ra (JoinS slash es)) = elements ra @ es"
    "filepath_Rel ra (filepath_Join ra (JoinS slash es)) = Some (JoinS slash es)"
proof -
  obtain p where p: "ra = path_Clean p" "IsAbs p"
  proof (cases "IsAbs root")
    case True
    then show thesis using ra by (intro that [of root]) (simp_all add: filepath_Abs_def)
  next
    case False
    then obtain w where w: "cwd = Some w" "ra = filepath_Join w root" using ra by (auto simp: filepath_Abs_def)
    then have "IsAbs w" using wd by simp
    then have "w \<noteq> []" "IsAbs (w @ slash # root)" by (cases w; simp add: IsAbs_def HasPrefix_def)+
    then show thesis using that w(2) by (simp add: filepath_Join_def)
  qed
  obtain k ds where "elements p = replicate k ''..'' @ ds" "list_all proper ds" "IsAbs p \<longrightarrow> k = 0"
    by (rule elements_shape [of p])
  then have ds: "elements p = ds" "list_all proper ds" "ra = slash # JoinS slash ds" using p by (simp_all add: path_Clean_elements)
  have q: "filepath_Join ra (JoinS slash es) = path_Clean (ra @ slash # JoinS slash es)" using ds(3) by (simp add: filepath_Join_def)
  have e: "elements (ra @ slash # JoinS slash es) = ds @ es" "IsAbs (ra @ slash # JoinS slash es)"
    unfolding ds(3) using rooted_elements(3) [OF ds(2) es(2,1)] by (simp_all add: IsAbs_def HasPrefix_def)
  have t: "filepath_Join ra (JoinS slash es) = slash # JoinS slash (ds @ es)" unfolding q using e by (simp add: path_Clean_elements)
  have "list_all proper (ds @ es)" using ds(2) es(2) by simp
  note r = rooted_elements(1,2) [OF this] and rd = rooted_elements(1,2) [OF ds(2)]
  show "IsAbs (filepath_Join ra (JoinS slash es))" unfolding t by (rule r(1))
  show "elements (filepath_Join ra (JoinS slash es)) = elements ra @ es" unfolding t r(2) unfolding ds(3) rd(2) ..
  show "filepath_Rel ra (filepath_Join ra (JoinS slash es)) = Some (JoinS slash es)"
    unfolding t unfolding ds(3) filepath_Rel_def r(2) rd(2) using r(1) rd(1) es(1) by simp
qed

section \<open>The loop of inputBaseName\<close>

lemma base_loop_Some:
  assumes "base_loop c = Some b"
  shows "c \<noteq> ''..''"
proof (rule base_loop.raw_induct [where P = "\<lambda>c b. c \<noteq> ''..''", OF _ assms])
  fix f c b
  assume "\<And>c b. f c = Some b \<Longrightarrow> c \<noteq> ''..''" "(if c = ''..'' \<or> HasPrefix c ''../'' then f (path_Base c) else Some c) = Some b"
  moreover have "path_Base ''..'' = ''..''" by (simp add: path_Base_def)
  ultimately show "c \<noteq> ''..''" by (metis (full_types))
qed

lemma base_loop_dotdot [simp]: "base_loop ''..'' = None"
  using base_loop_Some [of "''..''"] by (cases "base_loop ''..''") auto

lemma proper_not_prefix: "proper e \<Longrightarrow> \<not> HasPrefix e ''../''"
  using no_dotdot(3) [of "[e]"] by simp

lemma base_loop_proper: "proper e \<Longrightarrow> base_loop e = Some e"
  using proper_not_prefix [of e] by (subst base_loop.simps) (simp add: proper_def)

lemma base_loop_elements:
  assumes "es = replicate k ''..'' @ ps" "list_all proper ps"
  shows "base_loop (if es = [] then ''.'' else JoinS slash es) =
    (if es \<noteq> [] \<and> last es = ''..'' then None else if es \<noteq> [] \<and> hd es = ''..'' then Some (last es) else Some (if es = [] then ''.'' else JoinS slash es))"
proof (cases k)
  case 0
  show ?thesis
  proof (cases "es = []")
    case True
    then show ?thesis by (subst base_loop.simps) (simp add: HasPrefix_def)
  next
    case False
    then have "proper (last es)" "proper (hd es)" using 0 assms by (simp_all add: list_all_iff)
    moreover have "base_loop (JoinS slash es) = Some (JoinS slash es)"
      using no_dotdot [of es] False 0 assms by (subst base_loop.simps) simp
    ultimately show ?thesis using False by (simp add: proper_def)
  qed
next
  case (Suc j)
  then have es: "es = ''..'' # replicate j ''..'' @ ps" using assms(1) by simp
  have ne: "list_all (\<lambda>e. e \<noteq> [] \<and> slash \<notin> set e) es"
    unfolding assms(1) using proper_nonempty [OF assms(2)] by (auto simp: list_all_iff)
  have "JoinS slash es = ''..'' \<or> HasPrefix (JoinS slash es) ''../''"
    unfolding es by (cases "replicate j ''..'' @ ps") (simp_all add: HasPrefix_def)
  then have l: "base_loop (JoinS slash es) = base_loop (last es)"
    using last_Split_Base [OF _ ne] es by (subst base_loop.simps) auto
  show ?thesis
  proof (cases "ps = []")
    case True
    then have "last es = ''..''" using assms(1) Suc by (simp add: last_replicate)
    then show ?thesis using l es by simp
  next
    case False
    then have "last es = last ps" using assms(1) by simp
    moreover have "proper (last ps)" using assms(2) False by (rule last_proper)
    ultimately show ?thesis using l es base_loop_proper [of "last ps"] by (simp add: proper_def)
  qed
qed

section \<open>The wildcard matcher\<close>

text \<open>The language of a mask: a star stands for any runes, a question mark for one, another rune for those equal to it.\<close>

inductive mask_lang :: "platform \<Rightarrow> nat list \<Rightarrow> nat list \<Rightarrow> bool" for pl where
  empty: "mask_lang pl [] []"
| star: "mask_lang pl ms ns \<Longrightarrow> mask_lang pl (star # ms) (us @ ns)"
| one: "c \<noteq> star \<Longrightarrow> c = question \<or> equalFileRune pl c r \<Longrightarrow> mask_lang pl ms ns \<Longrightarrow> mask_lang pl (c # ms) (r # ns)"

inductive_simps mask_lang_simps: "mask_lang pl [] ns" "mask_lang pl (c # ms) ns"

lemma mask_lang_Nil [simp]: "mask_lang pl [] ns \<longleftrightarrow> ns = []"
  by (simp add: mask_lang_simps)

lemma mask_lang_star: "mask_lang pl (star # ms) ns \<longleftrightarrow> mask_lang pl ms ns \<or> (ns \<noteq> [] \<and> mask_lang pl (star # ms) (tl ns))"
proof
  assume "mask_lang pl (star # ms) ns"
  then obtain us vs where "ns = us @ vs" "mask_lang pl ms vs" by (auto simp: mask_lang_simps)
  then show "mask_lang pl ms ns \<or> (ns \<noteq> [] \<and> mask_lang pl (star # ms) (tl ns))"
    by (cases us) (auto intro: mask_lang.star)
next
  assume "mask_lang pl ms ns \<or> (ns \<noteq> [] \<and> mask_lang pl (star # ms) (tl ns))"
  then show "mask_lang pl (star # ms) ns"
  proof
    assume "mask_lang pl ms ns"
    then show ?thesis using mask_lang.star [of pl ms ns "[]"] by simp
  next
    assume a: "ns \<noteq> [] \<and> mask_lang pl (star # ms) (tl ns)"
    then obtain us vs where "tl ns = us @ vs" "mask_lang pl ms vs" by (auto simp: mask_lang_simps)
    then show ?thesis using a mask_lang.star [of pl ms vs "hd ns # us"] by (cases ns) simp_all
  qed
qed

lemma mask_lang_one:
  "c \<noteq> star \<Longrightarrow> mask_lang pl (c # ms) ns \<longleftrightarrow> ns \<noteq> [] \<and> (c = question \<or> equalFileRune pl c (hd ns)) \<and> mask_lang pl ms (tl ns)"
  by (cases ns) (auto simp: mask_lang_simps)

text \<open>The entries of the table from a diagonal on that have been visited are right.\<close>

definition spec_at :: "platform \<Rightarrow> nat list \<Rightarrow> nat list \<Rightarrow> nat \<times> nat \<Rightarrow> bool" where
  "spec_at pl msk name = (\<lambda>(i, j). mask_lang pl (drop i msk) (drop j name))"

definition table_ok :: "platform \<Rightarrow> nat list \<Rightarrow> nat list \<Rightarrow> nat \<Rightarrow> memo_state \<Rightarrow> bool" where
  "table_ok pl msk name d st \<longleftrightarrow> (\<forall>k. d \<le> fst k + snd k \<longrightarrow> ms_seen st k \<longrightarrow> ms_memo st k = spec_at pl msk name k)"

definition below_same :: "nat \<Rightarrow> memo_state \<Rightarrow> memo_state \<Rightarrow> bool" where
  "below_same d st st' \<longleftrightarrow> (\<forall>k. fst k + snd k < d \<longrightarrow> ms_seen st' k = ms_seen st k \<and> ms_memo st' k = ms_memo st k)"

lemma table_update:
  assumes "table_ok pl msk name (fst k + snd k) st" "table_ok pl msk name (fst k + snd k + 1) s1"
    "below_same (fst k + snd k + 1) (st\<lparr>ms_seen := (ms_seen st)(k := True)\<rparr>) s1" "r = spec_at pl msk name k"
  shows "table_ok pl msk name (fst k + snd k) (s1\<lparr>ms_memo := (ms_memo s1)(k := r)\<rparr>) \<and>
    below_same (fst k + snd k) st (s1\<lparr>ms_memo := (ms_memo s1)(k := r)\<rparr>)"
proof -
  have "ms_memo (s1\<lparr>ms_memo := (ms_memo s1)(k := r)\<rparr>) l = spec_at pl msk name l"
    if le: "fst k + snd k \<le> fst l + snd l" and se: "ms_seen s1 l" for l
  proof (cases "l = k")
    case False
    consider "fst l + snd l = fst k + snd k" | "fst k + snd k + 1 \<le> fst l + snd l" using le by linarith
    then show ?thesis
    proof cases
      case 1
      then have "fst l + snd l < fst k + snd k + 1" by simp
      then have "ms_seen s1 l = ms_seen st l \<and> ms_memo s1 l = ms_memo st l" using assms(3) False by (cases l) (simp add: below_same_def)
      then show ?thesis using assms(1) le se False by (cases l) (simp add: table_ok_def)
    next
      case 2
      then show ?thesis using assms(2) le se False by (cases l) (simp add: table_ok_def)
    qed
  qed (use assms(4) in simp)
  moreover have "ms_seen s1 l = ms_seen st l \<and> ms_memo s1 l = ms_memo st l \<and> l \<noteq> k" if "fst l + snd l < fst k + snd k" for l
  proof -
    have l: "l \<noteq> k" "fst l + snd l < fst k + snd k + 1" using that by auto
    then show ?thesis using assms(3) by (cases l; cases k) (auto simp: below_same_def)
  qed
  ultimately show ?thesis by (simp add: table_ok_def below_same_def)
qed

lemma table_mono: "table_ok pl msk name d st \<Longrightarrow> d \<le> d' \<Longrightarrow> table_ok pl msk name d' st"
  by (simp add: table_ok_def)

lemma table_down:
  assumes "table_ok pl msk name d s0" "table_ok pl msk name (d + 1) s1" "below_same (d + 1) s0 s1"
  shows "table_ok pl msk name d s1 \<and> below_same d s0 s1"
proof -
  have "ms_memo s1 k = spec_at pl msk name k" if "d \<le> fst k + snd k" "ms_seen s1 k" for k
    using assms that by (cases k; cases "d = fst k + snd k") (simp_all add: table_ok_def below_same_def)
  moreover have "below_same d s0 s1" using assms(3) by (simp add: below_same_def)
  ultimately show ?thesis by (simp add: table_ok_def)
qed

lemma below_trans: "below_same d st s1 \<Longrightarrow> below_same d s1 s2 \<Longrightarrow> below_same d st s2"
  by (simp add: below_same_def)

lemma wild_match_spec:
  "mi \<le> length msk \<Longrightarrow> ni \<le> length name \<Longrightarrow> table_ok pl msk name (mi + ni) st \<Longrightarrow>
     wild_match pl msk name mi ni st = (b, st') \<Longrightarrow>
     b = spec_at pl msk name (mi, ni) \<and> table_ok pl msk name (mi + ni) st' \<and> below_same (mi + ni) st st'"
proof (induction pl msk name mi ni st arbitrary: b st' rule: wild_match.induct)
  case (1 pl msk name mi ni st)
  show ?case
  proof (cases "ms_seen st (mi, ni)")
    case True
    then show ?thesis using "1.prems" by (subst (asm) wild_match.simps) (auto simp: table_ok_def below_same_def)
  next
    case False
    define s0 where "s0 = st\<lparr>ms_seen := (ms_seen st)((mi, ni) := True)\<rparr>"
    define d where "d = mi + ni + 1"
    have s0: "table_ok pl msk name d s0" "below_same d s0 s0" using "1.prems"(3) by (auto simp: table_ok_def s0_def below_same_def d_def)
    obtain r s1 where r: "(if mi \<ge> length msk then (ni = length name, s0)
               else if msk ! mi = star then
                 (case wild_match pl msk name (mi + 1) ni s0 of
                    (True, st) \<Rightarrow> (True, st)
                  | (False, st) \<Rightarrow> if ni < length name then wild_match pl msk name mi (ni + 1) st else (False, st))
               else if ni < length name \<and> (msk ! mi = question \<or> equalFileRune pl (msk ! mi) (name ! ni))
               then wild_match pl msk name (mi + 1) (ni + 1) s0
               else (False, s0)) = (r, s1)" (is "?body = _") by (cases ?body)
    have "wild_match pl msk name mi ni st = (r, s1\<lparr>ms_memo := (ms_memo s1)((mi, ni) := r)\<rparr>)"
      unfolding wild_match.simps [of pl msk name mi ni st] Let_def s0_def [symmetric] r using False by simp
    then have bs: "b = r" "st' = s1\<lparr>ms_memo := (ms_memo s1)((mi, ni) := r)\<rparr>" using "1.prems"(4) by simp_all
    have "r = spec_at pl msk name (mi, ni) \<and> table_ok pl msk name d s1 \<and> below_same d s0 s1"
    proof -
      note IH = "1.IH" [OF False refl, folded s0_def]
      consider "mi \<ge> length msk" | "mi < length msk" "msk ! mi = star" | "mi < length msk" "msk ! mi \<noteq> star" by linarith
      then show ?thesis
      proof cases
        case 1
        then show ?thesis using r s0 "1.prems"(2) by (auto simp: spec_at_def)
      next
        case 2
        obtain b1 s2 where w1: "wild_match pl msk name (mi + 1) ni s0 = (b1, s2)" by fastforce
        have h1: "b1 = spec_at pl msk name (mi + 1, ni)" "table_ok pl msk name d s2" "below_same d s0 s2"
          using "1.IH"(1) [OF False s0_def _ _ _ _ _ w1] 2 "1.prems"(2) s0(1) by (simp_all add: d_def)
        have sp: "spec_at pl msk name (mi, ni) \<longleftrightarrow> b1 \<or> (ni < length name \<and> spec_at pl msk name (mi, ni + 1))"
          using 2 h1(1) mask_lang_star [of pl "drop (mi + 1) msk" "drop ni name"]
          by (auto simp: spec_at_def Cons_nth_drop_Suc [symmetric] drop_Suc tl_drop)
        show ?thesis
        proof (cases "b1 \<or> \<not> ni < length name")
          case True
          then have "r = b1" "s1 = s2" using r 2 w1 by (auto split: bool.splits)
          then show ?thesis using h1 sp True by auto
        next
          case F: False
          then have w2: "wild_match pl msk name mi (ni + 1) s2 = (r, s1)" using r 2 w1 by simp
          have "r = spec_at pl msk name (mi, ni + 1)" "table_ok pl msk name d s1" "below_same d s2 s1"
            using "1.IH"(2) [OF False s0_def _ _ w1 [symmetric] _ _ _ _ _ w2] 2 F h1 "1.prems"(1) by (simp_all add: d_def)
          then show ?thesis using h1(3) sp F below_trans by auto
        qed
      next
        case 3
        have sp: "spec_at pl msk name (mi, ni) \<longleftrightarrow> ni < length name \<and> (msk ! mi = question \<or> equalFileRune pl (msk ! mi) (name ! ni)) \<and>
            spec_at pl msk name (mi + 1, ni + 1)"
          using 3 mask_lang_one [of "msk ! mi" pl "drop (mi + 1) msk" "drop ni name"]
          by (auto simp: spec_at_def Cons_nth_drop_Suc [symmetric] hd_drop_conv_nth drop_Suc tl_drop)
        show ?thesis
        proof (cases "ni < length name \<and> (msk ! mi = question \<or> equalFileRune pl (msk ! mi) (name ! ni))")
          case True
          then have w2: "wild_match pl msk name (mi + 1) (ni + 1) s0 = (r, s1)" using r 3 by simp
          have "r = spec_at pl msk name (mi + 1, ni + 1)" "table_ok pl msk name (d + 1) s1" "below_same (d + 1) s0 s1"
            using "1.IH"(3) [OF False s0_def _ _ True _ _ _ w2] 3 True table_mono [OF s0(1), of "d + 1"] by (simp_all add: d_def)
          then show ?thesis using sp True table_down [OF s0(1)] by simp
        next
          case F: False
          then have "r = False" "s1 = s0" using r 3 unfolding if_not_P [OF F] by simp_all
          then show ?thesis using s0 sp F by auto
        qed
      qed
    qed
    then show ?thesis using table_update [of pl msk name "(mi, ni)" st s1 r] "1.prems"(3) unfolding bs d_def s0_def by simp
  qed
qed

lemma wildcardMatch_lang: "wildcardMatch pl msk name \<longleftrightarrow> mask_lang pl (runes msk) (runes name)"
proof -
  define st where "st = \<lparr>ms_seen = \<lambda>_. False, ms_memo = \<lambda>_. False\<rparr>"
  obtain b st' where w: "wild_match pl (runes msk) (runes name) 0 0 st = (b, st')" by fastforce
  have "table_ok pl (runes msk) (runes name) 0 st" by (simp add: table_ok_def st_def)
  then have "b = spec_at pl (runes msk) (runes name) (0, 0)" using wild_match_spec [OF _ _ _ w] by simp
  then show ?thesis using w by (simp add: wildcardMatch_def st_def spec_at_def)
qed

section \<open>Properties\<close>

text \<open>
  C18. A name \<open>cleanArchiveName\<close> accepts becomes a sequence of proper elements: no empty one, no \<open>.\<close>, no \<open>..\<close>, joined by
  slashes, without a backslash or a NUL; it has no volume, on Windows none of its elements is invalid
  or reserved, and cleaning it again changes nothing, except that a colon that has become its second
  byte is then refused.
\<close>

theorem cleanArchiveName_safe:
  assumes "cleanArchiveName pl name = Inr clean"
  shows "\<exists>es. es \<noteq> [] \<and> list_all proper es \<and> clean = JoinS slash es \<and> Split slash clean = es \<and>
     backslash \<notin> set clean \<and> CHR 0x00 \<notin> set clean \<and> pl_VolumeName pl (FromSlash pl clean) = [] \<and>
     (pl_Separator pl = backslash \<longrightarrow> \<not> list_ex (invalid_component pl) es) \<and>
     cleanArchiveName pl clean = (if length clean \<ge> 2 \<and> clean ! 1 = CHR '':'' then Inl (UnsafePath clean) else Inr clean)"
proof (rule cleanArchiveName_cases [OF assms])
  fix es
  assume es: "es \<noteq> []" "list_all proper es" and c: "clean = JoinS slash es" "set clean \<subseteq> insert slash (set (to_slashes name))"
    and n: "CHR 0x00 \<notin> set (to_slashes name)" and v: "pl_VolumeName pl (FromSlash pl clean) = []" and w: "validatePlatformPath pl clean"
  have s: "Split slash clean = es" using es c(1) by (simp add: Split_Join proper_no_slash)
  have b: "backslash \<notin> set clean" "CHR 0x00 \<notin> set clean"
    using c(2) n no_backslash [of name] by auto
  have r: "clean \<noteq> []" "\<not> HasPrefix clean ''/''" "path_Clean clean = clean"
    using relative_elements [OF es(2,1)] Join_head [OF es(2,1)] c(1) by (simp_all add: IsAbs_def)
  have "cleanArchiveName pl clean = (if length clean \<ge> 2 \<and> clean ! 1 = CHR '':'' then Inl (UnsafePath clean) else Inr clean)"
    using b r v w no_dotdot [OF es(2,1)] by (simp add: cleanArchiveName_def Let_def to_slashes_id c(1) [symmetric])
  moreover have "pl_Separator pl = backslash \<longrightarrow> \<not> list_ex (invalid_component pl) es" using w s by (auto simp: validatePlatformPath_def)
  ultimately show ?thesis using es c(1) s b v by blast
qed

definition unix :: platform where
  "unix = \<lparr>pl_Separator = slash, pl_VolumeName = \<lambda>_. [], pl_ToUpper = \<lambda>s. s, pl_fold = False, pl_EqualFold = (=), pl_EqualFoldRune = (=)\<rparr>"

theorem cleanArchiveName_safe_witness:
  "\<exists>es. es \<noteq> [] \<and> list_all proper es \<and> ''b/c.txt'' = JoinS slash es \<and> Split slash ''b/c.txt'' = es \<and>
     backslash \<notin> set ''b/c.txt'' \<and> CHR 0x00 \<notin> set ''b/c.txt'' \<and> pl_VolumeName unix (FromSlash unix ''b/c.txt'') = [] \<and>
     (pl_Separator unix = backslash \<longrightarrow> \<not> list_ex (invalid_component unix) es) \<and>
     cleanArchiveName unix ''b/c.txt'' =
       (if length ''b/c.txt'' \<ge> 2 \<and> ''b/c.txt'' ! 1 = CHR '':'' then Inl (UnsafePath ''b/c.txt'') else Inr ''b/c.txt'')"
  by (rule cleanArchiveName_safe [of unix "''a/.././b//c.txt''"]) code_simp

text \<open>
  C19. Where the separator is the slash and the working directory is absolute: \<open>destination\<close> succeeds for every
  name that is accepted, and the target is absolute, with the elements of the root followed by at
  least one proper element, by exactly one when names are flattened: it lies below the root.
\<close>

theorem destination_below_root:
  assumes "\<And>wd. cwd = Some wd \<Longrightarrow> IsAbs wd"
  shows "case cleanArchiveName pl name of
      Inl err \<Rightarrow> destination pl cwd root name flatten = Inl err
    | Inr clean \<Rightarrow>
        (case filepath_Abs cwd root of
           None \<Rightarrow> destination pl cwd root name flatten = Inl PathError
         | Some ra \<Rightarrow>
             \<exists>target es. destination pl cwd root name flatten = Inr (target, JoinS slash es) \<and>
               (if flatten then es = [last (Split slash clean)] else es = Split slash clean) \<and>
               es \<noteq> [] \<and> list_all proper es \<and> IsAbs target \<and> elements target = elements ra @ es)"
proof (cases "cleanArchiveName pl name")
  case (Inl e)
  then show ?thesis by (simp add: destination_def)
next
  case (Inr clean)
  obtain fs where fs: "fs \<noteq> []" "list_all proper fs" "clean = JoinS slash fs" by (rule cleanArchiveName_cases [OF Inr])
  have s: "Split slash clean = fs" using fs by (simp add: Split_Join proper_no_slash)
  show ?thesis
  proof (cases "filepath_Abs cwd root")
    case None
    then show ?thesis using Inr by (simp add: destination_def Let_def)
  next
    case (Some ra)
    define es where "es = (if flatten then [last fs] else fs)"
    have es: "es \<noteq> []" "list_all proper es" using fs last_proper [OF fs(2,1)] by (simp_all add: es_def)
    have b: "(if flatten then path_Base clean else clean) = JoinS slash es"
      using last_Split_Base [OF fs(1) proper_nonempty [OF fs(2)]] fs(3) by (simp add: es_def)
    note d = destination_step [OF es Some assms] and nd = no_dotdot [OF es(2,1)]
    have "destination pl cwd root name flatten = Inr (filepath_Join ra (JoinS slash es), JoinS slash es)"
      using Inr Some d(3) nd unfolding destination_def by (simp add: Let_def b)
    then show ?thesis using Inr Some es d(1,2) s by (auto simp: es_def)
  qed
qed

theorem destination_below_root_witness:
  "case cleanArchiveName unix ''x/y'' of
      Inl err \<Rightarrow> destination unix (Some ''/home'') ''out'' ''x/y'' False = Inl err
    | Inr clean \<Rightarrow>
        (case filepath_Abs (Some ''/home'') ''out'' of
           None \<Rightarrow> destination unix (Some ''/home'') ''out'' ''x/y'' False = Inl PathError
         | Some ra \<Rightarrow>
             \<exists>target es. destination unix (Some ''/home'') ''out'' ''x/y'' False = Inr (target, JoinS slash es) \<and>
               (if False then es = [last (Split slash clean)] else es = Split slash clean) \<and>
               es \<noteq> [] \<and> list_all proper es \<and> IsAbs target \<and> elements target = elements ra @ es)"
  by (rule destination_below_root) (simp add: IsAbs_def HasPrefix_def)

text \<open>
  C20. A pattern with wildcards matches a path exactly when the elements of the path, or with recursion
  those at its end, are in the languages of the elements of the pattern.
\<close>

theorem wildcardPathMatch_language:
  "wildcardPathMatch pl pat name recursive \<longleftrightarrow>
     (\<exists>pre ns. Split slash (Trim_slash name) = pre @ ns \<and> (recursive \<or> pre = []) \<and>
        list_all2 (\<lambda>p n. mask_lang pl (runes p) (runes n)) (Split slash (Trim_slash pat)) ns)"
proof -
  define ps where "ps = Split slash (Trim_slash pat)"
  define es where "es = Split slash (Trim_slash name)"
  have z: "length ps = length ns \<and> list_all (\<lambda>(p, n). wildcardMatch pl p n) (zip ps ns) \<longleftrightarrow>
      list_all2 (\<lambda>p n. mask_lang pl (runes p) (runes n)) ps ns" for ns
    by (auto simp: list_all2_iff wildcardMatch_lang list_all_iff)
  have "(\<exists>pre ns. es = pre @ ns \<and> (recursive \<or> pre = []) \<and> list_all2 (\<lambda>p n. mask_lang pl (runes p) (runes n)) ps ns) \<longleftrightarrow>
      (if recursive then length ps \<le> length es \<and> list_all2 (\<lambda>p n. mask_lang pl (runes p) (runes n)) ps (drop (length es - length ps) es)
       else list_all2 (\<lambda>p n. mask_lang pl (runes p) (runes n)) ps es)" (is "?L = ?R")
  proof
    assume ?L
    then obtain pre ns where p: "es = pre @ ns" "recursive \<or> pre = []" "list_all2 (\<lambda>p n. mask_lang pl (runes p) (runes n)) ps ns" by blast
    then show ?R using list_all2_lengthD [OF p(3)] by auto
  next
    assume r: ?R
    show ?L
    proof (cases recursive)
      case True
      then show ?thesis using r
        by (intro exI [of _ "take (length es - length ps) es"] exI [of _ "drop (length es - length ps) es"]) simp
    qed (use r in auto)
  qed
  then show ?thesis unfolding ps_def [symmetric] es_def [symmetric] wildcardPathMatch_def Let_def
    by (auto simp: z [symmetric])
qed

text \<open>
  C34. \<open>inputBaseName\<close> of a relative path does not return exactly when the last element of the cleaned path
  is \<open>..\<close>; if only the first is, the result is the last element; else it is the cleaned path. So
  adding the parent directory hangs.
\<close>

theorem inputBaseName_returns:
  "inputBaseName source absolute =
     (if IsAbs source then Some (path_Base absolute)
      else if elements source \<noteq> [] \<and> last (elements source) = ''..'' then None
      else if elements source \<noteq> [] \<and> hd (elements source) = ''..'' then Some (last (elements source))
      else Some (path_Clean source))"
proof (cases "IsAbs source")
  case True
  then show ?thesis by (simp add: inputBaseName_def)
next
  case False
  obtain k ps where e: "elements source = replicate k ''..'' @ ps" "list_all proper ps"
    by (rule elements_shape [of source])
  have t: "TrimPrefix (JoinS slash es) ''./'' = JoinS slash es" if "list_all proper es" "es \<noteq> []" for es
    using hd_of_prefix [of es "''.''"] that by (cases es) (auto simp: TrimPrefix_def proper_def proper_no_slash)
  have l: "proper (last ps)" "TrimPrefix (last ps) ''./'' = last ps" if "ps \<noteq> []"
    using last_proper [OF e(2) that] t [of "[last ps]"] by simp_all
  have d: "TrimPrefix ''.'' ''./'' = ''.''" by (simp add: TrimPrefix_def HasPrefix_def)
  note b = base_loop_elements [OF e]
  show ?thesis
  proof (cases "ps = []")
    case True
    then have "last (elements source) = ''..''" if "elements source \<noteq> []" using that e(1) by (cases k) (simp_all add: last_replicate)
    then show ?thesis using False b d by (auto simp: inputBaseName_def path_Clean_elements)
  next
    case ne: False
    then have "last (elements source) = last ps" "elements source \<noteq> []" using e(1) by simp_all
    moreover have "elements source = ps \<or> hd (elements source) = ''..''" using e(1) by (cases k) simp_all
    ultimately show ?thesis using False b l [OF ne] t [OF e(2) ne] by (auto simp: inputBaseName_def path_Clean_elements proper_def)
  qed
qed

end
