(* ===== verification/FilterPlan.thy ===== *)
theory FilterPlan
  imports BraProps "HOL-Library.Multiset"
begin

text \<open>
  \<open>internal/archive7z/filter_plan.go\<close>: which executable filter a file gets, from the header of the portable
  executable, and the grouping of the inputs by filter. Reading outside the header is the value
  None; opening and closing a file, and the lower case of a string, are parameters. At the end: the
  header is never read outside, the filters that need alignment get only aligned files, and the
  groups are a partition of the inputs.
\<close>

section \<open>Portable executables\<close>

definition byte_at :: "byte list \<Rightarrow> nat \<Rightarrow> byte option" where
  "byte_at h off = (if off < length h then Some (h ! off) else None)"

text \<open>\<open>header[lo:hi]\<close>\<close>

definition header_slice :: "byte list \<Rightarrow> int \<Rightarrow> int \<Rightarrow> byte list option" where
  "header_slice h lo hi =
     (if 0 \<le> lo \<and> lo \<le> hi \<and> hi \<le> int (length h) then Some (take (nat (hi - lo)) (drop (nat lo) h)) else None)"

definition le16 :: "byte list \<Rightarrow> nat \<Rightarrow> u16 option" where
  "le16 h off = (if off + 2 \<le> length h then Some (le_word (take 2 (drop off h))) else None)"

definition le32 :: "byte list \<Rightarrow> nat \<Rightarrow> u32 option" where
  "le32 h off = (if off + 4 \<le> length h then Some (le_word (take 4 (drop off h))) else None)"

text \<open>\<open>strings.TrimRight(s, "\x00")\<close> on the bytes of a name.\<close>

definition trim_zeros :: "byte list \<Rightarrow> byte list" where
  "trim_zeros p = rev (dropWhile (\<lambda>c. c = 0) (rev p))"

fun section_loop :: "byte list \<Rightarrow> int \<Rightarrow> byte list \<Rightarrow> nat list \<Rightarrow> bool option" where
  "section_loop header sectionOffset name [] = Some False"
| "section_loop header sectionOffset name (i # is) =
     (let offset = sectionOffset + int i * 40 in
      if offset < 0 \<or> offset > int (length header) - 40 then Some False
      else
        (case header_slice header offset (offset + 8) of
           None \<Rightarrow> None
         | Some raw \<Rightarrow> if trim_zeros raw = name then Some True else section_loop header sectionOffset name is))"

definition peHasSection :: "byte list \<Rightarrow> nat \<Rightarrow> byte list \<Rightarrow> bool option" where
  "peHasSection header peOffset name =
     (case le16 header (peOffset + 6) of None \<Rightarrow> None | Some sections \<Rightarrow>
      (case le16 header (peOffset + 20) of None \<Rightarrow> None | Some optional \<Rightarrow>
        if unat sections > 64 \<or> unat optional > 0x1000 then Some False
        else section_loop header (int (peOffset + 24 + unat optional)) name [0..<unat sections]))"

text \<open>The section \<open>.a64xrm\<close>.\<close>

definition a64xrm :: "byte list" where "a64xrm = [0x2e, 0x61, 0x36, 0x34, 0x78, 0x72, 0x6d]"

definition machine_filter :: "byte list \<Rightarrow> nat \<Rightarrow> u16 \<Rightarrow> BranchFilter option" where
  "machine_filter header peOffset machine =
     (if machine = 0x014c then Some BranchFilterBCJ
      else if machine = 0x8664 then
        map_option (\<lambda>b. if b then BranchFilterARM64 else BranchFilterBCJ) (peHasSection header peOffset a64xrm)
      else if machine = 0xaa64 then Some BranchFilterARM64
      else if machine = 0xa641 then Some BranchFilterARM64
      else if machine = 0xa64e then Some BranchFilterARM64
      else if machine = 0x0200 then Some BranchFilterIA64
      else Some BranchFilterNone)"

text \<open>The choice after the signature \<open>MZ\<close>, and the whole of \<open>classifyPE\<close>.\<close>

definition classify_pe :: "byte list \<Rightarrow> int \<Rightarrow> BranchFilter option" where
  "classify_pe header sz =
     (case le32 header 0x3c of None \<Rightarrow> None | Some peOffsetValue \<Rightarrow>
        if peOffsetValue \<ge> 0x1000 \<or> peOffsetValue AND 7 \<noteq> 0 \<or> peOffsetValue > of_nat (length header - 512)
        then Some BranchFilterNone
        else
          let peOffset = unat peOffsetValue in
          (case le32 header peOffset of None \<Rightarrow> None | Some signature \<Rightarrow>
            if signature \<noteq> 0x00004550 then Some BranchFilterNone
            else
              (case le16 header (peOffset + 4) of None \<Rightarrow> None | Some machine \<Rightarrow>
                (case machine_filter header peOffset machine of
                   None \<Rightarrow> None
                 | Some f \<Rightarrow>
                     if f = BranchFilterARM64 \<and> (sz < 0 \<or> sz AND 3 \<noteq> 0) then Some BranchFilterNone
                     else if f = BranchFilterIA64 \<and> (sz < 0 \<or> sz AND 15 \<noteq> 0) then Some BranchFilterNone
                     else Some f))))"

definition classifyPE :: "byte list \<Rightarrow> int \<Rightarrow> BranchFilter option" where
  "classifyPE header sz =
     (if length header < 512 then Some BranchFilterNone
      else
        (case byte_at header 0 of None \<Rightarrow> None | Some m \<Rightarrow>
          if m \<noteq> 0x4d then Some BranchFilterNone
          else (case byte_at header 1 of None \<Rightarrow> None | Some z \<Rightarrow>
            if z \<noteq> 0x5a then Some BranchFilterNone else classify_pe header sz)))"

section \<open>Inputs and groups\<close>

record inputFile =
  if_path :: string
  if_name :: string
  if_isDir :: bool
  if_size :: int

datatype plan_error = AnalyzeError string | CloseError string | GroupOverflow | PlanPanic

text \<open>\<open>inputFile.open\<close> yields what can be read and what closing then reports, or fails.\<close>

type_synonym open_input = "inputFile \<Rightarrow> (source \<times> bool) option"

definition executableAnalysisSize :: nat where "executableAnalysisSize = 16384"

text \<open>\<open>io.ReadAll\<close> of a \<open>LimitReader\<close>.\<close>

definition read_limited :: "source \<Rightarrow> nat \<Rightarrow> byte list \<times> io_error option" where
  "read_limited r n = (take n (src_data r), if length (src_data r) < n \<and> src_err r \<noteq> EOF then Some (src_err r) else None)"

definition classifyInputExecutable :: "open_input \<Rightarrow> inputFile \<Rightarrow> plan_error + BranchFilter" where
  "classifyInputExecutable opn inp =
     (case opn inp of
        None \<Rightarrow> Inl (AnalyzeError (if_path inp))
      | Some (r, close_ok) \<Rightarrow>
          (case read_limited r executableAnalysisSize of
             (_, Some err) \<Rightarrow> Inl (AnalyzeError (if_path inp))
           | (header, None) \<Rightarrow>
               if \<not> close_ok then Inl (CloseError (if_path inp))
               else case classifyPE header (if_size inp) of None \<Rightarrow> Inl PlanPanic | Some f \<Rightarrow> Inr f))"

text \<open>\<open>filepath.Ext\<close>: from the last dot of the last element of a path.\<close>

fun Ext_rev :: "string \<Rightarrow> string \<Rightarrow> string" where
  "Ext_rev [] acc = []"
| "Ext_rev (c # cs) acc =
     (if c = CHR ''/'' then [] else if c = CHR ''.'' then c # acc else Ext_rev cs (c # acc))"

definition Ext :: "string \<Rightarrow> string" where
  "Ext p = Ext_rev (rev p) []"

definition executableCandidate :: "(string \<Rightarrow> string) \<Rightarrow> string \<Rightarrow> bool" where
  "executableCandidate lower name \<longleftrightarrow> lower (Ext name) \<in> {''.dll'', ''.exe'', ''.ocx'', ''.sfx'', ''.sys''}"

record AddOptions =
  ao_DisableFilters :: bool
  ao_Method :: string

definition executableFiltersEnabled :: "(string \<Rightarrow> string) \<Rightarrow> AddOptions \<Rightarrow> int \<Rightarrow> bool" where
  "executableFiltersEnabled lower options level =
     (if ao_DisableFilters options \<or> level = 0 then False
      else
        let m = lower (ao_Method options); m = (if m = [] then ''lzma2'' else m)
        in m = ''lzma'' \<or> m = ''lzma2'')"

record inputGroup =
  ig_filter :: BranchFilter
  ig_expectedSize :: u64
  ig_files :: "inputFile list"

text \<open>The two maps of the loop: a missing key reads as no files and size zero.\<close>

record plan_state =
  ps_directories :: "inputFile list"
  ps_grouped :: "BranchFilter \<Rightarrow> inputFile list"
  ps_sizes :: "BranchFilter \<Rightarrow> u64"

definition input_filter :: "(string \<Rightarrow> string) \<Rightarrow> open_input \<Rightarrow> bool \<Rightarrow> inputFile \<Rightarrow> plan_error + BranchFilter" where
  "input_filter lower opn enabled inp =
     (if enabled \<and> executableCandidate lower (if_name inp) then classifyInputExecutable opn inp else Inr BranchFilterNone)"

definition plan_step :: "(string \<Rightarrow> string) \<Rightarrow> open_input \<Rightarrow> bool \<Rightarrow> inputFile \<Rightarrow> plan_state \<Rightarrow> plan_error + plan_state" where
  "plan_step lower opn enabled inp st =
     (if if_isDir inp then Inr (st\<lparr>ps_directories := ps_directories st @ [inp]\<rparr>)
      else sbind (input_filter lower opn enabled inp) (\<lambda>f.
        let sz = of_int (max (if_size inp) 0) :: u64 in
        if ps_sizes st f > - 1 - sz then Inl GroupOverflow
        else Inr (st\<lparr>ps_grouped := (ps_grouped st)(f := ps_grouped st f @ [inp]),
                    ps_sizes := (ps_sizes st)(f := ps_sizes st f + sz)\<rparr>)))"

fun plan_loop :: "(string \<Rightarrow> string) \<Rightarrow> open_input \<Rightarrow> bool \<Rightarrow> inputFile list \<Rightarrow> plan_state \<Rightarrow> plan_error + plan_state" where
  "plan_loop lower opn enabled [] st = Inr st"
| "plan_loop lower opn enabled (inp # inputs) st =
     sbind (plan_step lower opn enabled inp st) (\<lambda>st. plan_loop lower opn enabled inputs st)"

definition filter_order :: "BranchFilter list" where
  "filter_order = [BranchFilterNone, BranchFilterARM64, BranchFilterBCJ, BranchFilterIA64]"

definition plan_groups :: "plan_state \<Rightarrow> inputGroup list" where
  "plan_groups st =
     map (\<lambda>f. \<lparr>ig_filter = f, ig_expectedSize = ps_sizes st f, ig_files = ps_grouped st f\<rparr>)
       (filter (\<lambda>f. ps_grouped st f \<noteq> []) filter_order)"

definition planInputGroups ::
  "(string \<Rightarrow> string) \<Rightarrow> open_input \<Rightarrow> inputFile list \<Rightarrow> bool \<Rightarrow> plan_error + inputFile list \<times> inputGroup list" where
  "planInputGroups lower opn inputs enabled =
     sbind (plan_loop lower opn enabled inputs \<lparr>ps_directories = [], ps_grouped = \<lambda>_. [], ps_sizes = \<lambda>_. 0\<rparr>) (\<lambda>st.
       let directories = ps_directories st; groups = plan_groups st in
       if length groups = 1 \<and> ig_filter (groups ! 0) = BranchFilterNone \<and> directories \<noteq> []
       then Inr ([], groups[0 := (groups ! 0)\<lparr>ig_files := inputs\<rparr>])
       else Inr (directories, groups))"

section \<open>The header is read within its bounds\<close>

lemma le16_Some: "off + 2 \<le> length h \<Longrightarrow> \<exists>w. le16 h off = Some w"
  and le32_Some: "off + 4 \<le> length h \<Longrightarrow> \<exists>w. le32 h off = Some w"
  by (simp_all add: le16_def le32_def)

lemma section_loop_total: "\<exists>b. section_loop h off name is = Some b"
  by (induction "is") (auto simp: Let_def header_slice_def)

lemma peHasSection_total: "off + 22 \<le> length h \<Longrightarrow> \<exists>b. peHasSection h off name = Some b"
  using section_loop_total [of h _ name] le16_Some [of "off + 6" h] le16_Some [of "off + 20" h] by (auto simp: peHasSection_def)

lemma machine_filter_total: "off + 22 \<le> length h \<Longrightarrow> \<exists>f. machine_filter h off m = Some f"
  using peHasSection_total [of off h a64xrm] by (auto simp: machine_filter_def)

lemma pe_offset_le:
  assumes "512 \<le> length h" "\<not> v > of_nat (length h - 512)"
  shows "unat (v :: u32) + 512 \<le> length h"
proof -
  have "unat v \<le> unat (of_nat (length h - 512) :: u32)" using assms(2) by (simp add: word_le_nat_alt [symmetric])
  also have "\<dots> \<le> length h - 512" by (simp add: unsigned_of_nat take_bit_nat_less_eq_self)
  finally show ?thesis using assms(1) by simp
qed

text \<open>
  C22. \<open>classifyPE\<close> never reads outside the header, whatever the header holds and wherever its section table
  lies, and chooses the ARM64 filter only
  for sizes that are a multiple of 4, the IA64 filter only for multiples of 16.
\<close>

theorem classifyPE_safe:
  "\<exists>f. classifyPE header sz = Some f \<and>
     (f = BranchFilterARM64 \<longrightarrow> 0 \<le> sz \<and> sz mod 4 = 0) \<and> (f = BranchFilterIA64 \<longrightarrow> 0 \<le> sz \<and> sz mod 16 = 0) \<and>
     (f \<noteq> BranchFilterNone \<longrightarrow> take 2 header = [0x4d, 0x5a])"
proof (cases "length header < 512 \<or> take 2 header \<noteq> [0x4d, 0x5a]")
  case True
  then have "length header < 512 \<or> header ! 0 \<noteq> 0x4d \<or> header ! 1 \<noteq> 0x5a"
    by (cases header rule: remdups_adj.cases) auto
  then show ?thesis by (auto simp: classifyPE_def byte_at_def)
next
  case False
  then have len: "512 \<le> length header" and mz: "take 2 header = [0x4d, 0x5a]" by simp_all
  then have "header ! 0 = 0x4d" "header ! 1 = 0x5a" by (cases header rule: remdups_adj.cases; auto)+
  moreover have "header \<noteq> []" using len by auto
  ultimately have c: "classifyPE header sz = classify_pe header sz" using len by (simp add: classifyPE_def byte_at_def)
  have m3: "sz AND 3 = sz mod 4" "sz AND 15 = sz mod 16"
    using take_bit_eq_mask [of 2 sz] take_bit_eq_mask [of 4 sz] by (simp_all add: take_bit_eq_mod mask_eq_exp_minus_1)
  obtain v where v: "le32 header 0x3c = Some v" using le32_Some [of 60 header] len by auto
  show ?thesis
  proof (cases "v \<ge> 0x1000 \<or> v AND 7 \<noteq> 0 \<or> v > of_nat (length header - 512)")
    case True
    then show ?thesis using v by (simp add: c classify_pe_def)
  next
    case in_range: False
    then have off: "unat v + 512 \<le> length header" using pe_offset_le [OF len] by blast
    obtain s where s: "le32 header (unat v) = Some s" using le32_Some [of "unat v" header] off by auto
    obtain m where m: "le16 header (unat v + 4) = Some m" using le16_Some [of "unat v + 4" header] off by auto
    obtain f where f: "machine_filter header (unat v) m = Some f" using machine_filter_total [of "unat v" header m] off by auto
    show ?thesis using in_range v s m f mz by (auto simp: c classify_pe_def m3 Let_def)
  qed
qed

theorem classifyPE_safe_witness:
  "\<exists>f. classifyPE ([0x4d, 0x5a] @ replicate 600 0) 4097 = Some f \<and>
     (f = BranchFilterARM64 \<longrightarrow> 0 \<le> (4097 :: int) \<and> (4097 :: int) mod 4 = 0) \<and>
     (f = BranchFilterIA64 \<longrightarrow> 0 \<le> (4097 :: int) \<and> (4097 :: int) mod 16 = 0) \<and>
     (f \<noteq> BranchFilterNone \<longrightarrow> take 2 ([0x4d, 0x5a] @ replicate 600 0) = [0x4d, 0x5a :: byte])"
  by (rule classifyPE_safe)

section \<open>The groups are a partition\<close>

definition in_group :: "(string \<Rightarrow> string) \<Rightarrow> open_input \<Rightarrow> bool \<Rightarrow> BranchFilter \<Rightarrow> inputFile \<Rightarrow> bool" where
  "in_group lower opn enabled f i \<longleftrightarrow> \<not> if_isDir i \<and> input_filter lower opn enabled i = Inr f"

definition total_size :: "inputFile list \<Rightarrow> int" where
  "total_size is = sum_list (map (\<lambda>i. max (if_size i) 0) is)"

text \<open>The state of the loop after some inputs.\<close>

definition plan_inv :: "(string \<Rightarrow> string) \<Rightarrow> open_input \<Rightarrow> bool \<Rightarrow> inputFile list \<Rightarrow> plan_state \<Rightarrow> bool" where
  "plan_inv lower opn enabled is st \<longleftrightarrow>
     ps_directories st = filter if_isDir is \<and>
     (\<forall>f. ps_grouped st f = filter (in_group lower opn enabled f) is \<and> uint (ps_sizes st f) = total_size (ps_grouped st f)) \<and>
     (\<forall>i \<in> set is. if_isDir i \<or> (\<exists>f. in_group lower opn enabled f i))"

lemma size_add:
  fixes a b :: u64
  assumes "\<not> a > - 1 - b"
  shows "uint (a + b) = uint a + uint b"
proof -
  have m: "uint (- 1 :: u64) = 2 ^ 64 - 1" by (simp add: unsigned_minus_1_eq_mask mask_eq_exp_minus_1)
  have "uint b \<le> uint (- 1 :: u64)" unfolding m using unsigned_less [of b, where 'a = int] by simp
  then have "uint (- 1 - b) = uint (- 1 :: u64) - uint b" by (simp add: uint_sub_lem)
  moreover have "a \<le> - 1 - b" using assms by (simp add: not_less)
  ultimately have "uint a \<le> 2 ^ 64 - 1 - uint b" using m by (simp add: word_le_def)
  then show ?thesis by (intro uint_add_lem [THEN iffD1]) simp
qed

lemma plan_step_inv:
  assumes "plan_step lower opn enabled i st = Inr st'" "plan_inv lower opn enabled is st" "if_size i < 2 ^ 63"
  shows "plan_inv lower opn enabled (is @ [i]) st'"
proof (cases "if_isDir i")
  case True
  then show ?thesis using assms by (auto simp: plan_step_def plan_inv_def in_group_def)
next
  case False
  then obtain f where f: "input_filter lower opn enabled i = Inr f" "\<not> ps_sizes st f > - 1 - of_int (max (if_size i) 0)"
    "st' = st\<lparr>ps_grouped := (ps_grouped st)(f := ps_grouped st f @ [i]),
              ps_sizes := (ps_sizes st)(f := ps_sizes st f + of_int (max (if_size i) 0))\<rparr>"
    using assms(1) by (auto simp: plan_step_def sbind_Inr_iff Let_def split: if_splits)
  have "uint (of_int (max (if_size i) 0) :: u64) = max (if_size i) 0"
    using assms(3) by (simp add: uint_word_of_int take_bit_int_eq_self)
  then have "uint (ps_sizes st f + of_int (max (if_size i) 0)) = uint (ps_sizes st f) + max (if_size i) 0"
    using size_add [OF f(2)] by simp
  then show ?thesis using f(1,3) False assms(2) by (auto simp: plan_inv_def in_group_def total_size_def)
qed

lemma plan_loop_inv:
  "plan_loop lower opn enabled js st = Inr st' \<Longrightarrow> plan_inv lower opn enabled is st \<Longrightarrow>
     list_all (\<lambda>i. if_size i < 2 ^ 63) js \<Longrightarrow> plan_inv lower opn enabled (is @ js) st'"
proof (induction js arbitrary: "is" st)
  case (Cons j js)
  then obtain s where s: "plan_step lower opn enabled j st = Inr s" "plan_loop lower opn enabled js s = Inr st'"
    by (auto simp: sbind_Inr_iff)
  show ?case using Cons.IH [OF s(2) plan_step_inv [OF s(1) Cons.prems(2)]] Cons.prems(3) by simp
qed simp

lemma concat_nonempty: "concat (map F (filter (\<lambda>f. F f \<noteq> []) fs)) = concat (map F fs)"
  by (induction fs) auto

lemma filter_order_all: "set filter_order = UNIV" "distinct filter_order"
  by (auto simp: filter_order_def intro: BranchFilter.exhaust)

lemma partition_mset:
  assumes "\<forall>i \<in> set is. if_isDir i \<or> (\<exists>f. in_group lower opn enabled f i)"
  shows "mset (filter if_isDir is @ concat (map (\<lambda>f. filter (in_group lower opn enabled f) is) filter_order)) = mset is"
  using assms
proof (induction "is")
  case Nil
  then show ?case by (simp add: filter_order_def)
next
  case (Cons i "is")
  show ?case
  proof (cases "if_isDir i")
    case True
    then show ?thesis using Cons by (simp add: in_group_def)
  next
    case False
    then obtain f where "input_filter lower opn enabled i = Inr f" using Cons.prems by (auto simp: in_group_def)
    then have "in_group lower opn enabled g i \<longleftrightarrow> f = g" for g using False by (simp add: in_group_def)
    then show ?thesis using Cons False by (cases f) (simp_all add: filter_order_def)
  qed
qed

text \<open>
  C21. The groups \<open>planInputGroups\<close> returns are a partition of the inputs: with the directories they hold every
  input once; each filter has at most one group; the files of a group are those classified for its
  filter, in the order of the inputs; and the expected size is their total, without overflow.
\<close>

theorem planInputGroups_partition:
  assumes "planInputGroups lower opn inputs enabled = Inr (dirs, groups)" "list_all (\<lambda>i. if_size i < 2 ^ 63) inputs"
  shows "mset (dirs @ concat (map ig_files groups)) = mset inputs \<and> distinct (map ig_filter groups) \<and> list_all if_isDir dirs \<and>
    list_all (\<lambda>g. filter (\<lambda>i. \<not> if_isDir i) (ig_files g) = filter (in_group lower opn enabled (ig_filter g)) inputs \<and>
      uint (ig_expectedSize g) = total_size (filter (\<lambda>i. \<not> if_isDir i) (ig_files g)) \<and>
      (list_ex if_isDir (ig_files g) \<longrightarrow> ig_filter g = BranchFilterNone)) groups"
proof -
  obtain st where l: "plan_loop lower opn enabled inputs \<lparr>ps_directories = [], ps_grouped = \<lambda>_. [], ps_sizes = \<lambda>_. 0\<rparr> = Inr st"
    and r: "(dirs, groups) = (if length (plan_groups st) = 1 \<and> ig_filter (plan_groups st ! 0) = BranchFilterNone \<and> ps_directories st \<noteq> []
      then ([], (plan_groups st)[0 := (plan_groups st ! 0)\<lparr>ig_files := inputs\<rparr>]) else (ps_directories st, plan_groups st))"
    using assms(1) by (auto simp: planInputGroups_def sbind_Inr_iff Let_def split: if_splits)
  have "plan_inv lower opn enabled [] \<lparr>ps_directories = [], ps_grouped = \<lambda>_. [], ps_sizes = \<lambda>_. 0\<rparr>"
    by (simp add: plan_inv_def total_size_def)
  from plan_loop_inv [OF l this assms(2)] have inv: "plan_inv lower opn enabled inputs st" by simp
  define F where "F = (\<lambda>f. filter (in_group lower opn enabled f) inputs)"
  have g: "ps_grouped st = F" "ps_directories st = filter if_isDir inputs" "\<And>f. uint (ps_sizes st f) = total_size (F f)"
    "\<forall>i \<in> set inputs. if_isDir i \<or> (\<exists>f. in_group lower opn enabled f i)"
    using inv by (auto simp: plan_inv_def F_def)
  have nd: "filter (\<lambda>i. \<not> if_isDir i) (F f) = F f" "\<not> list_ex if_isDir (F f)" for f
    by (intro filter_id_conv [THEN iffD2]) (auto simp: F_def in_group_def list_ex_iff)
  have G: "plan_groups st = map (\<lambda>f. \<lparr>ig_filter = f, ig_expectedSize = ps_sizes st f, ig_files = F f\<rparr>) (filter (\<lambda>f. F f \<noteq> []) filter_order)"
    by (simp add: plan_groups_def g(1))
  show ?thesis
  proof (cases "length (plan_groups st) = 1 \<and> ig_filter (plan_groups st ! 0) = BranchFilterNone \<and> ps_directories st \<noteq> []")
    case True
    then have one: "filter (\<lambda>f. F f \<noteq> []) filter_order = [BranchFilterNone]" unfolding G
      by (cases "filter (\<lambda>f. F f \<noteq> []) filter_order") auto
    have "in_group lower opn enabled BranchFilterNone i \<longleftrightarrow> \<not> if_isDir i" if i: "i \<in> set inputs" for i
    proof
      assume "\<not> if_isDir i"
      then obtain f where f: "in_group lower opn enabled f i" using g(4) i by blast
      then have "f \<in> set (filter (\<lambda>f. F f \<noteq> []) filter_order)" using i filter_order_all(1) by (auto simp: F_def filter_empty_conv)
      then show "in_group lower opn enabled BranchFilterNone i" using f unfolding one by simp
    qed (simp add: in_group_def)
    then have "filter (\<lambda>i. \<not> if_isDir i) inputs = F BranchFilterNone" unfolding F_def by (intro filter_cong) auto
    moreover have "dirs = []" "groups = [\<lparr>ig_filter = BranchFilterNone, ig_expectedSize = ps_sizes st BranchFilterNone, ig_files = inputs\<rparr>]"
      using r True unfolding G one by auto
    ultimately show ?thesis using g(3) by (simp add: F_def)
  next
    case False
    then have d: "dirs = filter if_isDir inputs" "groups = plan_groups st" using r g(2) by auto
    have "map ig_files groups = map F (filter (\<lambda>f. F f \<noteq> []) filter_order)" "map ig_filter groups = filter (\<lambda>f. F f \<noteq> []) filter_order"
      unfolding d G by (simp_all add: comp_def)
    moreover have "mset (dirs @ concat (map F filter_order)) = mset inputs" unfolding d F_def by (rule partition_mset [OF g(4)])
    ultimately have "mset (dirs @ concat (map ig_files groups)) = mset inputs" "distinct (map ig_filter groups)"
      using filter_order_all(2) by (simp_all add: concat_nonempty)
    moreover have "list_all if_isDir dirs" by (simp add: d(1) list_all_iff)
    moreover have "list_all (\<lambda>g. ig_files g = F (ig_filter g) \<and> uint (ig_expectedSize g) = total_size (F (ig_filter g))) groups"
      unfolding d(2) G using g(3) by (simp add: list_all_iff)
    then have "list_all (\<lambda>g. filter (\<lambda>i. \<not> if_isDir i) (ig_files g) = F (ig_filter g) \<and>
        uint (ig_expectedSize g) = total_size (filter (\<lambda>i. \<not> if_isDir i) (ig_files g)) \<and>
        (list_ex if_isDir (ig_files g) \<longrightarrow> ig_filter g = BranchFilterNone)) groups"
      using nd by (simp add: list_all_iff)
    ultimately show ?thesis unfolding F_def by blast
  qed
qed

text \<open>Two files and a directory, nothing analysed.\<close>

theorem planInputGroups_partition_witness:
  "\<exists>dirs groups. planInputGroups id (\<lambda>_. None)
      [\<lparr>if_path = ''/d'', if_name = ''d'', if_isDir = True, if_size = 0\<rparr>, \<lparr>if_path = ''/d/a'', if_name = ''d/a'', if_isDir = False, if_size = 7\<rparr>] False = Inr (dirs, groups) \<and>
    mset (dirs @ concat (map ig_files groups)) =
      mset [\<lparr>if_path = ''/d'', if_name = ''d'', if_isDir = True, if_size = 0\<rparr>, \<lparr>if_path = ''/d/a'', if_name = ''d/a'', if_isDir = False, if_size = 7\<rparr>]"
proof -
  define fs where "fs = [\<lparr>if_path = ''/d'', if_name = ''d'', if_isDir = True, if_size = 0\<rparr>, \<lparr>if_path = ''/d/a'', if_name = ''d/a'', if_isDir = False, if_size = 7\<rparr>]"
  obtain dirs groups where p: "planInputGroups id (\<lambda>_. None) fs False = Inr (dirs, groups)"
    by (simp add: fs_def planInputGroups_def plan_step_def input_filter_def Let_def plan_groups_def filter_order_def)
  have "list_all (\<lambda>i. if_size i < 2 ^ 63) fs" by (simp add: fs_def)
  from planInputGroups_partition [OF p this] p show ?thesis unfolding fs_def by blast
qed

end
