(* ===== verification/Aes.thy ===== *)
theory Aes
  imports ArchiveNames XzFormat
begin

text \<open>
  AES-256-CBC streams: \<open>sevenzip/internal/aes7z\<close> (\<open>key.go\<close>, \<open>reader.go\<close>) and the \<open>aesWriter\<close> of
  \<open>archive7z/writer.go\<close>. The block cipher, SHA-256 and the LRU cache are parameters; the chaining of
  \<open>crypto/cipher\<close>, the runes and UTF-16 are written out.
\<close>

section \<open>Keys\<close>

text \<open>\<open>utf16.Encode\<close>.\<close>

fun utf16_encode :: "nat list \<Rightarrow> u16 list" where
  "utf16_encode [] = []"
| "utf16_encode (r # rs) =
     (if r < 0xD800 \<or> (0xE000 \<le> r \<and> r < 0x10000) then [of_nat r]
      else if 0x10000 \<le> r \<and> r \<le> 0x10FFFF then [of_nat (0xD800 + (r - 0x10000) div 1024), of_nat (0xDC00 + (r - 0x10000) mod 1024)]
      else [0xFFFD]) @ utf16_encode rs"

definition encoded_password :: "string \<Rightarrow> byte list" where
  "encoded_password password = concat (map (le_bytes 2) (utf16_encode (runes password)))"

datatype aes_error =
    AesIo io_error | AesBlock io_error | AesAlreadyClosed | AesNeedOneReader | AesInsufficientProperties | AesNoPasswordSet
  | AesUnsupportedMethod | CyclesPowerTooLarge | AesCipher | AesWriterClosed

definition maxCyclesPower :: nat where "maxCyclesPower = 24"

text \<open>What is hashed: the salt, the password and a counter, \<open>2 ^ cycles\<close> times.\<close>

definition hash_input :: "byte list \<Rightarrow> nat \<Rightarrow> byte list" where
  "hash_input encoded cycles = concat (map (\<lambda>i. encoded @ le_bytes 8 (of_nat i :: u64)) [0..<2 ^ cycles])"

definition derive_key :: "(byte list \<Rightarrow> byte list) \<Rightarrow> string \<Rightarrow> nat \<Rightarrow> byte list \<Rightarrow> aes_error + byte list" where
  "derive_key sha256 password cycles salt =
     (let encoded = salt @ encoded_password password in
      if cycles = 0x3f then Inr (take 32 (encoded @ replicate 32 0))
      else if cycles > maxCyclesPower then Inl CyclesPowerTooLarge
      else Inr (take 32 (sha256 (hash_input encoded cycles) @ replicate 32 0)))"

type_synonym cache_key = "string \<times> nat \<times> byte list"

definition calculateKey ::
  "('c \<Rightarrow> cache_key \<Rightarrow> byte list option) \<Rightarrow> ('c \<Rightarrow> cache_key \<Rightarrow> byte list \<Rightarrow> 'c) \<Rightarrow> (byte list \<Rightarrow> byte list) \<Rightarrow>
     string \<Rightarrow> nat \<Rightarrow> byte list \<Rightarrow> 'c \<Rightarrow> (aes_error + byte list) \<times> 'c" where
  "calculateKey get add sha256 password cycles salt cache =
     (case get cache (password, cycles, salt) of
        Some key \<Rightarrow> (Inr key, cache)
      | None \<Rightarrow>
          (case derive_key sha256 password cycles salt of
             Inl err \<Rightarrow> (Inl err, cache)
           | Inr key \<Rightarrow> (Inr key, add cache (password, cycles, salt) key)))"

text \<open>The key of the writer.\<close>

definition calculate7zKey :: "(byte list \<Rightarrow> byte list) \<Rightarrow> string \<Rightarrow> nat \<Rightarrow> byte list \<Rightarrow> byte list" where
  "calculate7zKey sha256 password cycles salt = sha256 (hash_input (salt @ encoded_password password) cycles)"

section \<open>Chaining\<close>

definition xor_bytes :: "byte list \<Rightarrow> byte list \<Rightarrow> byte list" where
  "xor_bytes a b = map2 (XOR) a b"

text \<open>\<open>CryptBlocks\<close> of an encrypter and a decrypter; the state is the last block of ciphertext.\<close>

function crypt_enc :: "(byte list \<Rightarrow> byte list) \<Rightarrow> byte list \<Rightarrow> byte list \<Rightarrow> byte list \<times> byte list" where
  "crypt_enc E iv p =
     (if length p < 16 then ([], iv)
      else let c = E (xor_bytes iv (take 16 p)); (out, iv') = crypt_enc E c (drop 16 p) in (c @ out, iv'))"
  by pat_completeness auto
termination by (relation "measure (\<lambda>(_, _, p). length p)") auto

function crypt_dec :: "(byte list \<Rightarrow> byte list) \<Rightarrow> byte list \<Rightarrow> byte list \<Rightarrow> byte list \<times> byte list" where
  "crypt_dec D iv p =
     (if length p < 16 then ([], iv)
      else let c = take 16 p; (out, iv') = crypt_dec D c (drop 16 p) in (xor_bytes iv (D c) @ out, iv'))"
  by pat_completeness auto
termination by (relation "measure (\<lambda>(_, _, p). length p)") auto

declare crypt_enc.simps [simp del] crypt_dec.simps [simp del]

section \<open>The reader\<close>

text \<open>The block mode is the key and the last block; \<open>D\<close> is the block cipher under a key.\<close>

record aes_reader =
  ar_rc :: "source option"
  ar_salt :: "byte list"
  ar_iv :: "byte list"
  ar_cycles :: nat
  ar_cbc :: "(byte list \<times> byte list) option"
  ar_pending :: "byte list"
  ar_start :: nat
  ar_end :: nat

definition aes_NewReader :: "byte list \<Rightarrow> source list \<Rightarrow> aes_error + aes_reader" where
  "aes_NewReader p readers =
     (if length readers \<noteq> 1 then Inl AesNeedOneReader
      else if length p < 2 then Inl AesInsufficientProperties
      else if p ! 0 AND 0xc0 = 0 then Inl AesUnsupportedMethod
      else
        let salt = (drop_bit 7 (p ! 0) AND 1) + drop_bit 4 (p ! 1); iv = (drop_bit 6 (p ! 0) AND 1) + (p ! 1 AND 0x0f) in
        if length p \<noteq> unat (2 + salt + iv) then Inl AesInsufficientProperties
        else Inr \<lparr>ar_rc = Some (readers ! 0), ar_salt = take (unat salt) (drop 2 p),
          ar_iv = take 16 (drop (2 + unat salt) p @ replicate 16 0), ar_cycles = unat (p ! 0 AND 0x3f),
          ar_cbc = None, ar_pending = replicate 16 0, ar_start = 0, ar_end = 0\<rparr>)"

text \<open>What closing the wrapped reader reports is an argument.\<close>

definition aes_Close :: "io_error option \<Rightarrow> aes_reader \<Rightarrow> aes_error option \<times> aes_reader" where
  "aes_Close close_err rc =
     (if ar_rc rc = None then (Some AesAlreadyClosed, rc)
      else case close_err of Some e \<Rightarrow> (Some (AesIo e), rc) | None \<Rightarrow> (None, rc\<lparr>ar_rc := None\<rparr>))"

text \<open>\<open>aes.NewCipher\<close> accepts keys of 16, 24 and 32 bytes.\<close>

definition aes_Password ::
  "('c \<Rightarrow> cache_key \<Rightarrow> byte list option) \<Rightarrow> ('c \<Rightarrow> cache_key \<Rightarrow> byte list \<Rightarrow> 'c) \<Rightarrow> (byte list \<Rightarrow> byte list) \<Rightarrow>
     string \<Rightarrow> aes_reader \<Rightarrow> 'c \<Rightarrow> aes_error option \<times> aes_reader \<times> 'c" where
  "aes_Password get add sha256 p rc cache =
     (case calculateKey get add sha256 p (ar_cycles rc) (ar_salt rc) cache of
        (Inl err, cache) \<Rightarrow> (Some err, rc, cache)
      | (Inr key, cache) \<Rightarrow>
          if length key \<notin> {16, 24, 32} then (Some AesCipher, rc, cache)
          else (None, rc\<lparr>ar_cbc := Some (key, ar_iv rc)\<rparr>, cache))"

text \<open>\<open>io.ReadFull\<close>, with the bytes it has read.\<close>

definition ReadFull :: "nat \<Rightarrow> source \<Rightarrow> byte list \<times> io_error option \<times> source" where
  "ReadFull n r =
     (let p = take n (src_data r) in
      (p, if length (src_data r) \<ge> n then None
          else if p \<noteq> [] \<and> src_err r = EOF then Some UnexpectedEOF else Some (src_err r),
       r\<lparr>src_data := drop n (src_data r)\<rparr>))"

text \<open>The complete blocks are decrypted in the buffer of the caller; the call ends on an error.\<close>

definition read_complete ::
  "(byte list \<Rightarrow> byte list \<Rightarrow> byte list) \<Rightarrow> byte list \<Rightarrow> byte list \<Rightarrow> source \<Rightarrow> byte list \<Rightarrow> nat \<Rightarrow> aes_reader \<Rightarrow>
     (byte list \<times> aes_error option \<times> aes_reader) + (byte list \<times> byte list \<times> source)" where
  "read_complete D key chain src q complete rc =
     (case ReadFull complete src of
        (data, err, src) \<Rightarrow>
          if length data mod 16 \<noteq> 0 then Inl (q, Some (AesBlock UnexpectedEOF), rc\<lparr>ar_rc := Some src\<rparr>)
          else
            (case crypt_dec (D key) chain data of
               (m, chain) \<Rightarrow>
                 let q = q @ m; rc = rc\<lparr>ar_rc := Some src, ar_cbc := Some (key, chain)\<rparr> in
                 (case err of
                    None \<Rightarrow> Inr (q, chain, src)
                  | Some e \<Rightarrow>
                      if q \<noteq> [] \<and> (e = EOF \<or> e = UnexpectedEOF) then Inl (q, None, rc)
                      else if e = EOF then Inl ([], Some (AesIo EOF), rc)
                      else Inl (q, Some (AesBlock e), rc))))"

definition read_pending ::
  "(byte list \<Rightarrow> byte list \<Rightarrow> byte list) \<Rightarrow> byte list \<Rightarrow> byte list \<Rightarrow> source \<Rightarrow> byte list \<Rightarrow> nat \<Rightarrow> aes_reader \<Rightarrow>
     byte list \<times> aes_error option \<times> aes_reader" where
  "read_pending D key chain src q l rc =
     (case ReadFull 16 src of
        (data, Some e, src) \<Rightarrow>
          let rc = rc\<lparr>ar_rc := Some src, ar_cbc := Some (key, chain), ar_pending := data @ drop (length data) (ar_pending rc)\<rparr> in
          if q \<noteq> [] \<and> e = EOF then (q, None, rc)
          else if e = EOF then ([], Some (AesIo EOF), rc)
          else (q, Some (AesBlock e), rc)
      | (data, None, src) \<Rightarrow>
          (case crypt_dec (D key) chain data of
             (m, chain) \<Rightarrow>
               let copied = min (l - length q) (length m) in
               (q @ take copied m, None,
                rc\<lparr>ar_rc := Some src, ar_cbc := Some (key, chain), ar_pending := m, ar_start := copied, ar_end := 16\<rparr>)))"

definition aes_Read :: "(byte list \<Rightarrow> byte list \<Rightarrow> byte list) \<Rightarrow> aes_reader \<Rightarrow> nat \<Rightarrow> byte list \<times> aes_error option \<times> aes_reader" where
  "aes_Read D rc l =
     (case ar_rc rc of None \<Rightarrow> ([], Some AesAlreadyClosed, rc)
      | Some src \<Rightarrow>
        (case ar_cbc rc of None \<Rightarrow> ([], Some AesNoPasswordSet, rc)
         | Some (key, chain) \<Rightarrow>
           if l = 0 then ([], None, rc)
           else
             let q = take l (take (ar_end rc - ar_start rc) (drop (ar_start rc) (ar_pending rc)));
                 start = ar_start rc + length q;
                 rc = (if start = ar_end rc then rc\<lparr>ar_start := 0, ar_end := 0\<rparr> else rc\<lparr>ar_start := start\<rparr>) in
             if length q = l then (q, None, rc)
             else
               let complete = (l - length q) div 16 * 16 in
               (case (if complete > 0 then read_complete D key chain src q complete rc else Inr (q, chain, src)) of
                  Inl result \<Rightarrow> result
                | Inr (q, chain, src) \<Rightarrow>
                    if length q < l then read_pending D key chain src q l rc
                    else (q, None, rc\<lparr>ar_rc := Some src, ar_cbc := Some (key, chain)\<rparr>))))"

section \<open>The writer\<close>

record aes_writer =
  aw_key :: "byte list"
  aw_chain :: "byte list"
  aw_properties :: "byte list"
  aw_buffer :: "byte list"
  aw_closed :: bool

text \<open>The random initialisation vector is a parameter; reading it may fail.\<close>

definition newAESWriter :: "(byte list \<Rightarrow> byte list) \<Rightarrow> io_error + byte list \<Rightarrow> string \<Rightarrow> aes_error + aes_writer" where
  "newAESWriter sha256 rand password =
     (case rand of
        Inl err \<Rightarrow> Inl (AesIo err)
      | Inr iv \<Rightarrow>
          let cycles = 19; key = calculate7zKey sha256 password cycles [] in
          if length key \<notin> {16, 24, 32} then Inl AesCipher
          else Inr \<lparr>aw_key = key, aw_chain = iv, aw_properties = [of_nat cycles OR 0x40, 15] @ iv, aw_buffer = [], aw_closed = False\<rparr>)"

definition aes_Write ::
  "(byte list \<Rightarrow> byte list \<Rightarrow> byte list) \<Rightarrow> 'w xz_write \<Rightarrow> byte list \<Rightarrow> aes_writer \<times> 'w \<Rightarrow> nat \<times> aes_error option \<times> aes_writer \<times> 'w" where
  "aes_Write E wr p s =
     (case s of (w, d) \<Rightarrow>
        if aw_closed w then (0, Some AesWriterClosed, w, d)
        else
          let buffer = aw_buffer w @ p; complete = length buffer div 16 * 16 in
          if complete = 0 then (length p, None, w\<lparr>aw_buffer := buffer\<rparr>, d)
          else
            (case crypt_enc (E (aw_key w)) (aw_chain w) (take complete buffer) of
               (c, chain) \<Rightarrow>
                 (case wr c d of
                    (n, err, d) \<Rightarrow>
                      let err = (if err = None \<and> n \<noteq> complete then Some ShortWrite else err) in
                      (case err of
                         Some e \<Rightarrow> (0, Some (AesIo e), w\<lparr>aw_buffer := c @ drop complete buffer, aw_chain := chain\<rparr>, d)
                       | None \<Rightarrow> (length p, None, w\<lparr>aw_buffer := drop complete buffer, aw_chain := chain\<rparr>, d)))))"

definition aesw_Close ::
  "(byte list \<Rightarrow> byte list \<Rightarrow> byte list) \<Rightarrow> 'w xz_write \<Rightarrow> aes_writer \<times> 'w \<Rightarrow> aes_error option \<times> aes_writer \<times> 'w" where
  "aesw_Close E wr s =
     (case s of (w, d) \<Rightarrow>
        if aw_closed w then (None, w, d)
        else
          let w = w\<lparr>aw_closed := True\<rparr> in
          if aw_buffer w = [] then (None, w, d)
          else
            let block = take 16 (aw_buffer w @ replicate 16 0) in
            (case crypt_enc (E (aw_key w)) (aw_chain w) block of
               (c, chain) \<Rightarrow> (case wr c d of (n, err, d) \<Rightarrow> (map_option AesIo err, w\<lparr>aw_chain := chain\<rparr>, d))))"

end
