(* ===== verification/AesProps.thy ===== *)
theory AesProps
  imports Aes
begin

text \<open>
  The AES reader refines a stream of plaintext: whatever the sizes of the reads, they deliver the
  decryption of the whole blocks of the source, in order, and then the end; a source that ends inside
  a block is reported. What the writer has written and closed is read back, padded with zeros to
  whole blocks.
\<close>

section \<open>Chaining\<close>

definition cipher_ok :: "(byte list \<Rightarrow> byte list \<Rightarrow> byte list) \<Rightarrow> (byte list \<Rightarrow> byte list \<Rightarrow> byte list) \<Rightarrow> bool" where
  "cipher_ok E D \<longleftrightarrow> (\<forall>k b. length b = 16 \<longrightarrow> length (E k b) = 16 \<and> length (D k b) = 16 \<and> D k (E k b) = b)"

definition lengths_ok :: "(byte list \<Rightarrow> byte list) \<Rightarrow> bool" where
  "lengths_ok d \<longleftrightarrow> (\<forall>b. length b = 16 \<longrightarrow> length (d b) = 16)"

lemma length_xor_bytes [simp]: "length (xor_bytes a b) = min (length a) (length b)"
  by (simp add: xor_bytes_def)

lemma xor_bytes_cancel: "length a = length b \<Longrightarrow> xor_bytes a (xor_bytes a b) = b"
  by (rule nth_equalityI) (simp_all add: xor_bytes_def xor.assoc [symmetric])

lemma crypt_dec_short [simp]: "length p < 16 \<Longrightarrow> crypt_dec d iv p = ([], iv)"
  by (subst crypt_dec.simps) simp

lemma crypt_dec_block: "length c = 16 \<Longrightarrow> crypt_dec d iv (c @ p) = (case crypt_dec d c p of (out, iv') \<Rightarrow> (xor_bytes iv (d c) @ out, iv'))"
  by (subst crypt_dec.simps) simp

lemma crypt_enc_block: "length b = 16 \<Longrightarrow> crypt_enc e iv (b @ p) =
    (case crypt_enc e (e (xor_bytes iv b)) p of (out, iv') \<Rightarrow> (e (xor_bytes iv b) @ out, iv'))"
  by (subst crypt_enc.simps) (simp add: Let_def)

lemma crypt_enc_short [simp]: "length p < 16 \<Longrightarrow> crypt_enc e iv p = ([], iv)"
  by (subst crypt_enc.simps) simp

lemma blocks_induct [consumes 1, case_names nil block]:
  assumes "length p mod 16 = 0" "P []" "\<And>b q. length b = (16 :: nat) \<Longrightarrow> length q mod 16 = 0 \<Longrightarrow> P q \<Longrightarrow> P (b @ q)"
  shows "P p"
  using assms(1)
proof (induction "length p" arbitrary: p rule: less_induct)
  case less
  show ?case
  proof (cases "p = []")
    case False
    then have "16 \<le> length p" using less.prems by (cases "length p < 16") simp_all
    then have "length (take 16 p) = 16" "length (drop 16 p) mod 16 = 0" "length (drop 16 p) < length p"
      using less.prems by (simp_all add: mod_if [of "length p"])
    then have "P (take 16 p @ drop 16 p)" by (intro assms(3) less.hyps) simp_all
    then show ?thesis by simp
  qed (use assms(2) in simp)
qed

lemma crypt_dec_append:
  "length p mod 16 = 0 \<Longrightarrow> crypt_dec d iv (p @ q) =
     (case crypt_dec d iv p of (a, c) \<Rightarrow> case crypt_dec d c q of (b, c') \<Rightarrow> (a @ b, c'))"
  by (induction p arbitrary: iv rule: blocks_induct) (simp_all add: crypt_dec_block split: prod.splits)

lemma crypt_enc_append:
  "length p mod 16 = 0 \<Longrightarrow> crypt_enc e iv (p @ q) =
     (case crypt_enc e iv p of (a, c) \<Rightarrow> case crypt_enc e c q of (b, c') \<Rightarrow> (a @ b, c'))"
  by (induction p arbitrary: iv rule: blocks_induct) (simp_all add: crypt_enc_block split: prod.splits)

lemma crypt_dec_lengths:
  "length p mod 16 = 0 \<Longrightarrow> length iv = 16 \<Longrightarrow> lengths_ok d \<Longrightarrow> crypt_dec d iv p = (m, iv') \<Longrightarrow>
     length m = length p \<and> length iv' = 16"
proof (induction p arbitrary: iv m iv' rule: blocks_induct)
  case (block b q)
  obtain m' where m: "crypt_dec d b q = (m', iv')" "m = xor_bytes iv (d b) @ m'"
    using block.prems(3) block.hyps(1) by (auto simp: crypt_dec_block split: prod.splits)
  have "length (d b) = 16" using block.prems(2) block.hyps(1) by (simp add: lengths_ok_def)
  then show ?case using block.IH [OF block.hyps(1) block.prems(2) m(1)] m(2) block.prems(1) block.hyps(1) by simp
qed simp

lemma crypt_roundtrip:
  assumes "cipher_ok E D"
  shows "length p mod 16 = 0 \<Longrightarrow> length iv = 16 \<Longrightarrow> crypt_enc (E k) iv p = (c, iv') \<Longrightarrow>
     length c = length p \<and> length iv' = 16 \<and> crypt_dec (D k) iv c = (p, iv')"
proof (induction p arbitrary: iv c iv' rule: blocks_induct)
  case (block b q)
  define x where "x = E k (xor_bytes iv b)"
  have "length (xor_bytes iv b) = 16" using block.hyps(1) block.prems(1) by simp
  then have x: "length x = 16" "D k x = xor_bytes iv b" using assms by (simp_all add: x_def cipher_ok_def)
  obtain c' where c: "crypt_enc (E k) x q = (c', iv')" "c = x @ c'"
    using block.prems(2) block.hyps(1) by (auto simp: crypt_enc_block x_def [symmetric] split: prod.splits)
  then have "crypt_dec (D k) iv c = (b @ q, iv')"
    using block.IH [OF x(1) c(1)] x xor_bytes_cancel [of iv b] block.prems(1) block.hyps(1) by (simp add: crypt_dec_block)
  then show ?case using block.IH [OF x(1) c(1)] x(1) c(2) block.hyps(1) by simp
qed simp

section \<open>The reader\<close>

definition pending_bytes :: "aes_reader \<Rightarrow> byte list" where
  "pending_bytes rc = take (ar_end rc - ar_start rc) (drop (ar_start rc) (ar_pending rc))"

text \<open>The plaintext that is still to be delivered.\<close>

definition plain :: "(byte list \<Rightarrow> byte list \<Rightarrow> byte list) \<Rightarrow> aes_reader \<Rightarrow> byte list" where
  "plain D rc =
     (case (ar_rc rc, ar_cbc rc) of
        (Some src, Some (key, chain)) \<Rightarrow> pending_bytes rc @ fst (crypt_dec (D key) chain (src_data src))
      | _ \<Rightarrow> [])"

definition aes_ok :: "(byte list \<Rightarrow> byte list \<Rightarrow> byte list) \<Rightarrow> source \<Rightarrow> byte list \<Rightarrow> byte list \<Rightarrow> aes_reader \<Rightarrow> bool" where
  "aes_ok D src key chain rc \<longleftrightarrow>
     ar_rc rc = Some src \<and> ar_cbc rc = Some (key, chain) \<and> src_err src = EOF \<and> length chain = 16 \<and> lengths_ok (D key) \<and>
     length (ar_pending rc) = 16 \<and> ar_start rc \<le> ar_end rc \<and> ar_end rc \<le> 16"

lemma read_complete_full:
  assumes "complete mod 16 = 0" "complete \<le> length (src_data src)" "crypt_dec (D key) chain (take complete (src_data src)) = (m, chain')"
  shows "read_complete D key chain src q complete rc = Inr (q @ m, chain', src\<lparr>src_data := drop complete (src_data src)\<rparr>)"
  using assms by (simp add: read_complete_def ReadFull_def Let_def)

lemma read_complete_short:
  assumes "length (src_data src) < complete" "src_err src = EOF"
  shows "read_complete D key chain src q complete rc = Inl
    (if length (src_data src) mod 16 \<noteq> 0 then (q, Some (AesBlock UnexpectedEOF), rc\<lparr>ar_rc := Some (src\<lparr>src_data := []\<rparr>)\<rparr>)
     else case crypt_dec (D key) chain (src_data src) of (m, chain') \<Rightarrow>
       (q @ m, if q @ m = [] \<and> src_data src = [] then Some (AesIo EOF) else if q @ m = [] then Some (AesBlock UnexpectedEOF) else None,
        rc\<lparr>ar_rc := Some (src\<lparr>src_data := []\<rparr>), ar_cbc := Some (key, chain')\<rparr>))"
  using assms by (auto simp: read_complete_def ReadFull_def Let_def split: prod.splits)

lemma read_pending_full:
  assumes "16 \<le> length (src_data src)" "crypt_dec (D key) chain (take 16 (src_data src)) = (m, chain')"
  shows "read_pending D key chain src q l rc =
    (q @ take (min (l - length q) (length m)) m, None,
     rc\<lparr>ar_rc := Some (src\<lparr>src_data := drop 16 (src_data src)\<rparr>), ar_cbc := Some (key, chain'), ar_pending := m,
       ar_start := min (l - length q) (length m), ar_end := 16\<rparr>)"
  using assms by (simp add: read_pending_def ReadFull_def Let_def)

lemma read_pending_short:
  assumes "length (src_data src) < 16" "src_err src = EOF"
  shows "read_pending D key chain src q l rc =
    (q, if src_data src \<noteq> [] then Some (AesBlock UnexpectedEOF) else if q = [] then Some (AesIo EOF) else None,
     rc\<lparr>ar_rc := Some (src\<lparr>src_data := []\<rparr>), ar_cbc := Some (key, chain), ar_pending := src_data src @ drop (length (src_data src)) (ar_pending rc)\<rparr>)"
  using assms by (auto simp: read_pending_def ReadFull_def Let_def split: prod.splits)

lemma length_pending_bytes: "aes_ok D src key chain rc \<Longrightarrow> length (pending_bytes rc) = ar_end rc - ar_start rc"
  by (auto simp: aes_ok_def pending_bytes_def)

lemma plain_ok: "aes_ok D src key chain rc \<Longrightarrow> plain D rc = pending_bytes rc @ fst (crypt_dec (D key) chain (src_data src))"
  by (simp add: aes_ok_def plain_def)

lemma aes_Read_pending:
  assumes "aes_ok D src key chain rc" "0 < l" "l \<le> length (pending_bytes rc)"
  obtains rc' where "aes_Read D rc l = (take l (pending_bytes rc), None, rc')" "aes_ok D src key chain rc'"
    "pending_bytes rc' = drop l (pending_bytes rc)"
proof -
  note len = length_pending_bytes [OF assms(1)]
  define rc' where "rc' = (if ar_start rc + l = ar_end rc then rc\<lparr>ar_start := 0, ar_end := 0\<rparr> else rc\<lparr>ar_start := ar_start rc + l\<rparr>)"
  have "aes_Read D rc l = (take l (pending_bytes rc), None, rc')"
    using assms len by (simp add: aes_Read_def aes_ok_def pending_bytes_def [symmetric] rc'_def Let_def min_def)
  moreover have "aes_ok D src key chain rc'" using assms len by (auto simp: aes_ok_def rc'_def)
  moreover have "pending_bytes rc' = drop l (pending_bytes rc)"
    using assms len by (auto simp: pending_bytes_def rc'_def drop_take add.commute)
  ultimately show thesis by (rule that)
qed

definition emptied :: "aes_reader \<Rightarrow> aes_reader" where
  "emptied rc = rc\<lparr>ar_start := 0, ar_end := 0\<rparr>"

lemma aes_Read_source:
  assumes "aes_ok D src key chain rc" "length (pending_bytes rc) < l"
  shows "aes_Read D rc l =
    (let complete = (l - length (pending_bytes rc)) div 16 * 16 in
     case (if complete > 0 then read_complete D key chain src (pending_bytes rc) complete (emptied rc) else Inr (pending_bytes rc, chain, src)) of
       Inl result \<Rightarrow> result
     | Inr (q, chain, src) \<Rightarrow>
         if length q < l then read_pending D key chain src q l (emptied rc)
         else (q, None, (emptied rc)\<lparr>ar_rc := Some src, ar_cbc := Some (key, chain)\<rparr>))"
  using assms length_pending_bytes [OF assms(1)] unfolding aes_Read_def aes_ok_def pending_bytes_def [symmetric] emptied_def
  by (simp add: Let_def)

text \<open>After a read the source, the chain and the pending bytes are as follows.\<close>

lemma aes_ok_after:
  assumes "aes_ok D src key chain rc" "length chain' = 16" "length pend = 16" "a \<le> b" "b \<le> 16"
  shows "aes_ok D (src\<lparr>src_data := xs\<rparr>) key chain'
      (rc\<lparr>ar_rc := Some (src\<lparr>src_data := xs\<rparr>), ar_cbc := Some (key, chain'), ar_pending := pend, ar_start := a, ar_end := b\<rparr>)"
  using assms by (simp add: aes_ok_def)

lemma aes_Read_full:
  assumes ok: "aes_ok D src key chain rc" and l: "length (pending_bytes rc) < l"
    and c: "c = (l - length (pending_bytes rc)) div 16 * 16" and full: "c \<le> length (src_data src)"
    and m: "crypt_dec (D key) chain (take c (src_data src)) = (m, ch)"
  shows "aes_Read D rc l =
    (if length (pending_bytes rc @ m) < l then read_pending D key ch (src\<lparr>src_data := drop c (src_data src)\<rparr>) (pending_bytes rc @ m) l (emptied rc)
     else (pending_bytes rc @ m, None, (emptied rc)\<lparr>ar_rc := Some (src\<lparr>src_data := drop c (src_data src)\<rparr>), ar_cbc := Some (key, ch)\<rparr>))"
proof -
  have c16: "c mod 16 = 0" by (simp add: c)
  show ?thesis
  proof (cases "c > 0")
  case True
  then show ?thesis using read_complete_full [of c src D key chain m ch "pending_bytes rc" "emptied rc"] full m c16
    unfolding aes_Read_source [OF ok l] c [symmetric] Let_def by simp
next
  case False
  then have "c = 0" by simp
  then show ?thesis using m unfolding aes_Read_source [OF ok l] c [symmetric] Let_def by simp
  qed
qed

lemma aes_Read_step:
  assumes ok: "aes_ok D src key chain rc" and l: "0 < l" and whole: "length (src_data src) mod 16 = 0"
  obtains src' chain' rc' where "aes_Read D rc l = (take l (plain D rc), if plain D rc = [] then Some (AesIo EOF) else None, rc')"
    "aes_ok D src' key chain' rc'" "length (src_data src') mod 16 = 0" "plain D rc' = drop l (plain D rc)"
proof (cases "l \<le> length (pending_bytes rc)")
  case True
  obtain rc' where r: "aes_Read D rc l = (take l (pending_bytes rc), None, rc')" "aes_ok D src key chain rc'"
    "pending_bytes rc' = drop l (pending_bytes rc)" by (rule aes_Read_pending [OF ok l True])
  have "plain D rc \<noteq> []" using True l by (auto simp: plain_ok [OF ok])
  then show thesis using that [OF _ r(2) whole] r True by (simp add: plain_ok [OF ok] plain_ok [OF r(2)])
next
  case False
  define pend where "pend = pending_bytes rc"
  define c where "c = (l - length pend) div 16 * 16"
  have lt: "length pend < l" using False by (simp add: pend_def)
  have cl: "c \<le> l - length pend" "l - length pend < c + 16" by (simp_all add: c_def)
  note facts = ok [unfolded aes_ok_def]
  have P: "plain D rc = pend @ fst (crypt_dec (D key) chain (src_data src))" by (simp add: plain_ok [OF ok] pend_def)
  have c16: "c mod 16 = 0" by (simp add: c_def)
  show thesis
  proof (cases "c \<le> length (src_data src)")
    case True
    define rest where "rest = drop c (src_data src)"
    obtain m ch where m: "crypt_dec (D key) chain (take c (src_data src)) = (m, ch)" by fastforce
    have tl: "length (take c (src_data src)) = c" using True by simp
    then have lm: "length m = c" "length ch = 16" using crypt_dec_lengths [OF _ _ _ m] facts c16 by simp_all
    have "crypt_dec (D key) chain (take c (src_data src) @ rest) = (case crypt_dec (D key) ch rest of (b, c') \<Rightarrow> (m @ b, c'))"
      by (subst crypt_dec_append) (simp_all add: tl c16 m del: append_take_drop_id length_take)
    then have P2: "plain D rc = pend @ m @ fst (crypt_dec (D key) ch rest)" unfolding P by (simp add: rest_def split: prod.splits)
    have wr: "length rest mod 16 = 0" using whole c16 True by (simp add: rest_def mod_eq_0_iff_dvd dvd_diff_nat)
    note r = aes_Read_full [OF ok lt [unfolded pend_def] c_def [unfolded pend_def] True m, folded pend_def rest_def]
    show thesis
    proof (cases "length (pend @ m) < l")
      case full: False
      define rc' where "rc' = (emptied rc)\<lparr>ar_rc := Some (src\<lparr>src_data := rest\<rparr>), ar_cbc := Some (key, ch)\<rparr>"
      have o: "aes_ok D (src\<lparr>src_data := rest\<rparr>) key ch rc'" using facts lm by (simp add: aes_ok_def rc'_def emptied_def)
      have "length (pend @ m) = l" using full lm cl lt by simp
      moreover have "plain D rc' = fst (crypt_dec (D key) ch rest)"
        unfolding plain_ok [OF o] by (simp add: rc'_def emptied_def pending_bytes_def)
      ultimately show thesis using that [of rc' "src\<lparr>src_data := rest\<rparr>" ch] r full o wr P2 l by (auto simp: rc'_def)
    next
      case more: True
      have b: "l - length (pend @ m) < 16" using lm cl by simp
      show thesis
      proof (cases "rest = []")
        case True
        define rc' where "rc' = (emptied rc)\<lparr>ar_rc := Some (src\<lparr>src_data := []\<rparr>), ar_cbc := Some (key, ch), ar_pending := ar_pending rc\<rparr>"
        have o: "aes_ok D (src\<lparr>src_data := []\<rparr>) key ch rc'" using facts lm by (simp add: aes_ok_def rc'_def emptied_def)
        have "plain D rc' = []" unfolding plain_ok [OF o] by (simp add: rc'_def emptied_def pending_bytes_def)
        moreover have "aes_Read D rc l = (pend @ m, if pend @ m = [] then Some (AesIo EOF) else None, rc')"
          using r more True read_pending_short [of "src\<lparr>src_data := rest\<rparr>" D key ch "pend @ m" l "emptied rc"] facts
          by (simp add: rc'_def emptied_def)
        ultimately show thesis using that [of rc' "src\<lparr>src_data := []\<rparr>" ch] o P2 True more by simp
      next
        case ne: False
        then have "16 \<le> length rest" using wr by (cases "length rest < 16") simp_all
        obtain m2 ch2 where m2: "crypt_dec (D key) ch (take 16 rest) = (m2, ch2)" by fastforce
        have t16: "length (take 16 rest) = 16" using \<open>16 \<le> length rest\<close> by simp
        then have lm2: "length m2 = 16" "length ch2 = 16" using crypt_dec_lengths [OF _ lm(2) _ m2] facts by simp_all
        have "crypt_dec (D key) ch (take 16 rest @ drop 16 rest) = (case crypt_dec (D key) ch2 (drop 16 rest) of (b, c') \<Rightarrow> (m2 @ b, c'))"
          by (subst crypt_dec_append) (simp_all add: t16 m2 del: append_take_drop_id length_take)
        then have P3: "plain D rc = pend @ m @ m2 @ fst (crypt_dec (D key) ch2 (drop 16 rest))" unfolding P2 by (simp split: prod.splits)
        define a where "a = l - length (pend @ m)"
        define rc' where "rc' = (emptied rc)\<lparr>ar_rc := Some (src\<lparr>src_data := drop 16 rest\<rparr>), ar_cbc := Some (key, ch2), ar_pending := m2, ar_start := a, ar_end := 16\<rparr>"
        have o: "aes_ok D (src\<lparr>src_data := drop 16 rest\<rparr>) key ch2 rc'" using facts lm2 b by (simp add: aes_ok_def rc'_def emptied_def a_def)
        have "plain D rc' = drop a m2 @ fst (crypt_dec (D key) ch2 (drop 16 rest))"
          unfolding plain_ok [OF o] using lm2 by (simp add: rc'_def emptied_def pending_bytes_def)
        moreover have "aes_Read D rc l = (pend @ m @ take a m2, None, rc')"
          using r more read_pending_full [of "src\<lparr>src_data := rest\<rparr>" D key ch m2 ch2 "pend @ m" l "emptied rc"] \<open>16 \<le> length rest\<close> m2 lm2 b
          by (simp add: rc'_def a_def min_def)
        moreover have "l = length (pend @ m) + a" "0 < a" "a < 16" using more b by (simp_all add: a_def)
        moreover have "length (drop 16 rest) mod 16 = 0" using wr \<open>16 \<le> length rest\<close> by (simp add: mod_eq_0_iff_dvd dvd_diff_nat)
        moreover have "m2 \<noteq> []" using lm2 by auto
        ultimately show thesis using that [of rc' "src\<lparr>src_data := drop 16 rest\<rparr>" ch2] o P3 lm2 by auto
      qed
    qed
  next
    case short: False
    obtain m ch where m: "crypt_dec (D key) chain (src_data src) = (m, ch)" by fastforce
    have lm: "length m = length (src_data src)" "length ch = 16" using crypt_dec_lengths [OF whole _ _ m] facts by simp_all
    define rc' where "rc' = (emptied rc)\<lparr>ar_rc := Some (src\<lparr>src_data := []\<rparr>), ar_cbc := Some (key, ch)\<rparr>"
    have r: "aes_Read D rc l = (pend @ m, if pend @ m = [] then Some (AesIo EOF) else None, rc')"
      using read_complete_short [of src c D key chain pend "emptied rc"] short facts whole m lm
      unfolding aes_Read_source [OF ok lt [unfolded pend_def]] pend_def [symmetric] c_def [symmetric] rc'_def by (auto simp: Let_def)
    have "aes_ok D (src\<lparr>src_data := []\<rparr>) key ch rc'" using facts lm by (simp add: aes_ok_def rc'_def emptied_def)
    moreover from this have "plain D rc' = []" by (simp add: plain_ok) (simp add: rc'_def emptied_def pending_bytes_def)
    moreover have "plain D rc = pend @ m" "length (pend @ m) < l" using m short lm cl lt P by simp_all
    ultimately show thesis using that [of rc' "src\<lparr>src_data := []\<rparr>" ch] r by simp
  qed
qed

text \<open>Reads one after the other, up to the first that reports something.\<close>

fun aes_reads :: "(byte list \<Rightarrow> byte list \<Rightarrow> byte list) \<Rightarrow> nat list \<Rightarrow> aes_reader \<Rightarrow> byte list \<times> aes_error option" where
  "aes_reads D [] rc = ([], None)"
| "aes_reads D (l # ls) rc =
     (case aes_Read D rc l of
        (out, err, rc) \<Rightarrow> if err \<noteq> None then (out, err) else case aes_reads D ls rc of (out', err) \<Rightarrow> (out @ out', err))"

lemma aes_reads_plain:
  "aes_ok D src key chain rc \<Longrightarrow> length (src_data src) mod 16 = 0 \<Longrightarrow> list_all (\<lambda>l. 0 < l) ls \<Longrightarrow>
     \<exists>err. aes_reads D ls rc = (take (sum_list ls) (plain D rc), err) \<and> (err = None \<or> err = Some (AesIo EOF)) \<and>
       (err = Some (AesIo EOF) \<longrightarrow> length (plain D rc) \<le> sum_list ls) \<and> (length (plain D rc) < length ls \<longrightarrow> err = Some (AesIo EOF))"
proof (induction ls arbitrary: src chain rc)
  case (Cons l ls)
  then have l: "0 < l" by simp
  obtain src' chain' rc' where r: "aes_Read D rc l = (take l (plain D rc), if plain D rc = [] then Some (AesIo EOF) else None, rc')"
    "aes_ok D src' key chain' rc'" "length (src_data src') mod 16 = 0" "plain D rc' = drop l (plain D rc)"
    by (rule aes_Read_step [OF Cons.prems(1) l Cons.prems(2)])
  show ?case
  proof (cases "plain D rc = []")
    case True
    then show ?thesis using r(1) by simp
  next
    case False
    obtain err where "aes_reads D ls rc' = (take (sum_list ls) (plain D rc'), err)" "err = None \<or> err = Some (AesIo EOF)"
      "err = Some (AesIo EOF) \<longrightarrow> length (plain D rc') \<le> sum_list ls" "length (plain D rc') < length ls \<longrightarrow> err = Some (AesIo EOF)"
      using Cons.IH [OF r(2,3)] Cons.prems(3) by auto
    note reads = this
    have "0 < length (plain D rc)" using False by simp
    moreover have "length (plain D rc') = length (plain D rc) - l" using r(4) by simp
    ultimately have "length (plain D rc) < Suc (length ls) \<Longrightarrow> length (plain D rc') < length ls" using l by arith
    then show ?thesis using reads r False l by (auto simp: take_add)
  qed
qed simp

section \<open>The writer\<close>

lemma aes_Write_append:
  assumes "\<not> aw_closed w" "c = length (aw_buffer w @ p) div 16 * 16" "crypt_enc (E (aw_key w)) (aw_chain w) (take c (aw_buffer w @ p)) = (ct, chain)"
    "length ct = c"
  shows "aes_Write E append_write p (w, d) =
    (length p, None, w\<lparr>aw_buffer := drop c (aw_buffer w @ p), aw_chain := chain\<rparr>, d @ ct)"
proof (cases "c = 0")
  case True
  then show ?thesis using assms by (simp add: aes_Write_def Let_def)
next
  case False
  then show ?thesis using assms(1,3,4) unfolding aes_Write_def Let_def prod.case assms(2) [symmetric] by (simp add: append_write_def)
qed

text \<open>Writes one after the other, up to the first that fails.\<close>

fun aes_writes :: "(byte list \<Rightarrow> byte list \<Rightarrow> byte list) \<Rightarrow> byte list list \<Rightarrow> aes_writer \<times> byte list \<Rightarrow>
    aes_error option \<times> aes_writer \<times> byte list" where
  "aes_writes E [] s = (None, s)"
| "aes_writes E (p # ps) s = (case aes_Write E append_write p s of (_, err, s) \<Rightarrow> if err \<noteq> None then (err, s) else aes_writes E ps s)"

lemma aes_writes_append:
  "cipher_ok E D \<Longrightarrow> \<not> aw_closed w \<Longrightarrow> length (aw_buffer w) < 16 \<Longrightarrow> length (aw_chain w) = 16 \<Longrightarrow>
     \<exists>n ct chain. n mod 16 = 0 \<and> n \<le> length (aw_buffer w @ concat ps) \<and> length (aw_buffer w @ concat ps) < n + 16 \<and>
       crypt_enc (E (aw_key w)) (aw_chain w) (take n (aw_buffer w @ concat ps)) = (ct, chain) \<and>
       aes_writes E ps (w, d) = (None, w\<lparr>aw_buffer := drop n (aw_buffer w @ concat ps), aw_chain := chain\<rparr>, d @ ct)"
proof (induction ps arbitrary: w d)
  case Nil
  then show ?case by (intro exI [of _ 0] exI [of _ "[]"] exI [of _ "aw_chain w"]) simp
next
  case (Cons p ps)
  define all where "all = aw_buffer w @ p"
  define c where "c = length all div 16 * 16"
  have c: "c mod 16 = 0" "c \<le> length all" "length all < c + 16" by (simp_all add: c_def)
  obtain ct chain where e: "crypt_enc (E (aw_key w)) (aw_chain w) (take c all) = (ct, chain)" by fastforce
  have tl: "length (take c all) mod 16 = 0" using c by simp
  have ct: "length ct = c" "length chain = 16" using crypt_roundtrip [OF Cons.prems(1) tl Cons.prems(4) e] c by simp_all
  define w' where "w' = w\<lparr>aw_buffer := drop c all, aw_chain := chain\<rparr>"
  have s: "aes_Write E append_write p (w, d) = (length p, None, w', d @ ct)"
    unfolding w'_def using aes_Write_append [where w = w and p = p and c = c and E = E and d = d and ct = ct and chain = chain] Cons.prems(2) e ct(1) c_def by (simp add: all_def)
  have w': "\<not> aw_closed w'" "length (aw_buffer w') < 16" "length (aw_chain w') = 16" "aw_key w' = aw_key w" "aw_buffer w' = drop c all" "aw_chain w' = chain"
    using Cons.prems(2) c ct by (simp_all add: w'_def)
  obtain n ct2 chain2 where n: "n mod 16 = 0" "n \<le> length (drop c all @ concat ps)" "length (drop c all @ concat ps) < n + 16"
    "crypt_enc (E (aw_key w)) chain (take n (drop c all @ concat ps)) = (ct2, chain2)"
    "aes_writes E ps (w', d @ ct) = (None, w'\<lparr>aw_buffer := drop n (drop c all @ concat ps), aw_chain := chain2\<rparr>, (d @ ct) @ ct2)"
    using Cons.IH [OF Cons.prems(1) w'(1-3), of "d @ ct"] unfolding w'(4-6) by (elim exE conjE) (rule that; assumption)
  have "aw_buffer w @ concat (p # ps) = all @ concat ps" by (simp add: all_def)
  then have "aw_buffer w @ concat (p # ps) = (take c all @ drop c all) @ concat ps" by (simp only: append_take_drop_id)
  then have x: "aw_buffer w @ concat (p # ps) = take c all @ drop c all @ concat ps" by (simp del: append_take_drop_id)
  have tc: "length (take c all) = c" using c(2) by simp
  have sp: "take (c + n) (aw_buffer w @ concat (p # ps)) = take c all @ take n (drop c all @ concat ps)"
    "drop (c + n) (aw_buffer w @ concat (p # ps)) = drop n (drop c all @ concat ps)"
    "length (aw_buffer w @ concat (p # ps)) = c + length (drop c all @ concat ps)"
    unfolding x using tc by (simp_all del: length_take append_take_drop_id length_drop)
  have "crypt_enc (E (aw_key w)) (aw_chain w) (take (c + n) (aw_buffer w @ concat (p # ps))) = (ct @ ct2, chain2)"
    unfolding sp crypt_enc_append [OF tl] e using n(4) by simp
  moreover have "(c + n) mod 16 = 0" using c(1) n(1) by (simp add: mod_eq_0_iff_dvd)
  moreover have "aes_writes E (p # ps) (w, d) = (None, w\<lparr>aw_buffer := drop (c + n) (aw_buffer w @ concat (p # ps)), aw_chain := chain2\<rparr>, d @ ct @ ct2)"
    unfolding sp(2) using s n(5) by (simp add: w'_def)
  moreover have "c + n \<le> length (aw_buffer w @ concat (p # ps))" "length (aw_buffer w @ concat (p # ps)) < c + n + 16"
    unfolding sp(3) using n(2,3) by linarith+
  ultimately show ?case by (intro exI [of _ "c + n"] exI [of _ "ct @ ct2"] exI [of _ chain2] conjI)
qed

section \<open>The whole way\<close>

lemma aes_Close_append:
  assumes "cipher_ok E D" "\<not> aw_closed w" "length (aw_buffer w) < 16" "length (aw_chain w) = 16"
  shows "\<exists>w' ct z chain. aesw_Close E append_write (w, d) = (None, w', d @ ct) \<and> z < 16 \<and> length (aw_buffer w @ replicate z 0) mod 16 = 0 \<and>
    crypt_enc (E (aw_key w)) (aw_chain w) (aw_buffer w @ replicate z 0) = (ct, chain)"
proof (cases "aw_buffer w = []")
  case True
  then show ?thesis using assms(2) by (simp add: aesw_Close_def Let_def) (rule exI [of _ 0], simp)
next
  case False
  obtain ct chain where e: "crypt_enc (E (aw_key w)) (aw_chain w) (aw_buffer w @ replicate (16 - length (aw_buffer w)) 0) = (ct, chain)" by fastforce
  have "aesw_Close E append_write (w, d) = (None, w\<lparr>aw_closed := True, aw_chain := chain\<rparr>, d @ ct)"
    using assms(2,3) e False by (simp add: aesw_Close_def Let_def append_write_def)
  then show ?thesis using e False assms(3)
    by (intro exI [of _ "w\<lparr>aw_closed := True, aw_chain := chain\<rparr>"] exI [of _ ct] exI [of _ "16 - length (aw_buffer w)"] exI [of _ chain]) simp
qed

lemma aes_NewReader_properties:
  assumes "length iv = 16"
  shows "aes_NewReader ([of_nat 19 OR 0x40, 15] @ iv) [src] = Inr \<lparr>ar_rc = Some src, ar_salt = [], ar_iv = iv, ar_cycles = 19,
    ar_cbc = None, ar_pending = replicate 16 0, ar_start = 0, ar_end = 0\<rparr>"
  using assms by (simp add: aes_NewReader_def Let_def)

text \<open>
  C23. What an AES writer has been given, in any pieces, and closed is read back with the same password: for
  reads of any sizes the reader delivers the data, padded with fewer than 16 zeros to whole blocks,
  in order and without an error, and then reports the end. The block cipher is any pair of
  functions that are inverse on blocks of 16 bytes, SHA-256 any function with results of 32 bytes.
\<close>

theorem aes_stream_roundtrip:
  assumes "cipher_ok E D" "\<And>x. length (sha256 x) = 32" "length iv = 16" "get cache (password, 19, []) = None"
    "list_all (\<lambda>l. 0 < l) ls"
  shows "\<exists>w w' w'' d d' r r' cache' z err. newAESWriter sha256 (Inr iv) password = Inr w \<and>
      aes_writes E ps (w, []) = (None, w', d) \<and> aesw_Close E append_write (w', d) = (None, w'', d') \<and>
      aes_NewReader (aw_properties w) [\<lparr>src_data = d', src_err = EOF\<rparr>] = Inr r \<and>
      aes_Password get add sha256 password r cache = (None, r', cache') \<and>
      z < 16 \<and> aes_reads D ls r' = (take (sum_list ls) (concat ps @ replicate z 0), err) \<and> (err = None \<or> err = Some (AesIo EOF)) \<and>
      (err = Some (AesIo EOF) \<longrightarrow> length (concat ps @ replicate z 0) \<le> sum_list ls) \<and>
      (length (concat ps @ replicate z 0) < length ls \<longrightarrow> err = Some (AesIo EOF))"
proof -
  define key where "key = calculate7zKey sha256 password 19 []"
  have key: "length key = 32" "derive_key sha256 password 19 [] = Inr key"
    using assms(2) by (simp_all add: key_def calculate7zKey_def derive_key_def maxCyclesPower_def Let_def)
  define w where "w = \<lparr>aw_key = key, aw_chain = iv, aw_properties = [of_nat 19 OR 0x40, 15] @ iv, aw_buffer = [], aw_closed = False\<rparr>"
  have nw: "newAESWriter sha256 (Inr iv) password = Inr w"
    using key(1) unfolding newAESWriter_def Let_def sum.case key_def [symmetric] by (simp add: w_def)
  have w: "\<not> aw_closed w" "length (aw_buffer w) < 16" "length (aw_chain w) = 16" "aw_buffer w = []" "aw_key w = key" "aw_chain w = iv"
    using assms(3) by (simp_all add: w_def)
  obtain n ct chain where n: "n mod 16 = 0" "n \<le> length (concat ps)" "length (concat ps) < n + 16"
    "crypt_enc (E key) iv (take n (concat ps)) = (ct, chain)"
    "aes_writes E ps (w, []) = (None, w\<lparr>aw_buffer := drop n (concat ps), aw_chain := chain\<rparr>, ct)"
    using aes_writes_append [OF assms(1) w(1-3), of ps "[]"] unfolding w(4-6) append_Nil by (elim exE conjE) (rule that; assumption)
  define w' where "w' = w\<lparr>aw_buffer := drop n (concat ps), aw_chain := chain\<rparr>"
  have tn: "length (take n (concat ps)) mod 16 = 0" using n(1,2) by (simp del: length_concat)
  note r1 = crypt_roundtrip [OF assms(1) tn assms(3) n(4)]
  have w': "\<not> aw_closed w'" "length (aw_buffer w') < 16" "length (aw_chain w') = 16" "aw_buffer w' = drop n (concat ps)" "aw_key w' = key" "aw_chain w' = chain"
    using w n(2,3) r1 by (simp_all add: w'_def del: length_concat)
  obtain w'' ct2 z chain2 where z: "aesw_Close E append_write (w', ct) = (None, w'', ct @ ct2)" "z < 16"
    "length (drop n (concat ps) @ replicate z 0) mod 16 = 0" "crypt_enc (E key) chain (drop n (concat ps) @ replicate z 0) = (ct2, chain2)"
    using aes_Close_append [OF assms(1) w'(1-3), of ct] unfolding w'(4-6) by (elim exE conjE) (rule that; assumption)
  note r2 = crypt_roundtrip [OF assms(1) z(3) _ z(4)]
  define src where "src = \<lparr>src_data = ct @ ct2, src_err = EOF\<rparr>"
  define r where "r = \<lparr>ar_rc = Some src, ar_salt = [], ar_iv = iv, ar_cycles = 19, ar_cbc = None, ar_pending = replicate 16 0, ar_start = 0, ar_end = 0\<rparr>"
  have nr: "aes_NewReader (aw_properties w) [src] = Inr r" using aes_NewReader_properties [OF assms(3), of src] by (simp add: w_def r_def)
  have pw: "aes_Password get add sha256 password r cache = (None, r\<lparr>ar_cbc := Some (key, iv)\<rparr>, add cache (password, 19, []) key)"
    using key assms(4) by (simp add: aes_Password_def calculateKey_def r_def)
  define r' where "r' = r\<lparr>ar_cbc := Some (key, iv)\<rparr>"
  have "lengths_ok (D key)" using assms(1) by (simp add: lengths_ok_def cipher_ok_def)
  then have ok: "aes_ok D src key iv r'" using assms(3) by (simp add: aes_ok_def r'_def r_def src_def)
  have "crypt_dec (D key) iv (ct @ ct2) = (concat ps @ replicate z 0, chain2)"
    using r1 r2 tn by (simp add: crypt_dec_append del: length_concat)
  then have pl: "plain D r' = concat ps @ replicate z 0" unfolding plain_ok [OF ok] by (simp add: src_def r'_def r_def pending_bytes_def)
  have "length (src_data src) mod 16 = 0" 
  proof -
    have "length ct mod 16 = 0" "length ct2 mod 16 = 0" using r1 r2 tn z(3) by simp_all
    then show ?thesis by (simp add: src_def mod_eq_0_iff_dvd)
  qed
  from aes_reads_plain [OF ok this assms(5)] obtain err where
    "aes_reads D ls r' = (take (sum_list ls) (concat ps @ replicate z 0), err)" "err = None \<or> err = Some (AesIo EOF)"
    "err = Some (AesIo EOF) \<longrightarrow> length (concat ps @ replicate z 0) \<le> sum_list ls"
    "length (concat ps @ replicate z 0) < length ls \<longrightarrow> err = Some (AesIo EOF)"
    unfolding pl by blast
  then show ?thesis using nw n(5) z(1,2) nr pw unfolding r'_def w'_def src_def by blast
qed

theorem aes_stream_roundtrip_witness:
  "\<exists>w w' w'' d d' r r' cache' z err. newAESWriter (\<lambda>_. replicate 32 7) (Inr (replicate 16 1)) ''pw'' = Inr w \<and>
      aes_writes (\<lambda>k b. rev b) [[1, 2], replicate 40 3] (w, []) = (None, w', d) \<and> aesw_Close (\<lambda>k b. rev b) append_write (w', d) = (None, w'', d') \<and>
      aes_NewReader (aw_properties w) [\<lparr>src_data = d', src_err = EOF\<rparr>] = Inr r \<and>
      aes_Password (\<lambda>_ _. None) (\<lambda>c _ _. c) (\<lambda>_. replicate 32 7) ''pw'' r () = (None, r', cache') \<and>
      z < 16 \<and> aes_reads (\<lambda>k b. rev b) [1, 30, 40] r' = (take (sum_list [1, 30, 40]) (concat [[1, 2], replicate 40 3] @ replicate z 0), err) \<and>
      (err = None \<or> err = Some (AesIo EOF)) \<and>
      (err = Some (AesIo EOF) \<longrightarrow> length (concat [[1, 2 :: byte], replicate 40 3] @ replicate z 0) \<le> sum_list [1, 30, 40]) \<and>
      (length (concat [[1, 2 :: byte], replicate 40 3] @ replicate z 0) < length [1, 30, 40 :: nat] \<longrightarrow> err = Some (AesIo EOF))"
  by (rule aes_stream_roundtrip) (simp_all add: cipher_ok_def)

end
