(* ===== verification/LzmaFrame.thy ===== *)
theory LzmaFrame
  imports LzmaWriteProofs
begin

text \<open>
  What no operation of the encoder changes: the properties in its state, and the sum of the bytes in the
  buffer below the coder and the bytes it still takes. An operation that stops with \<open>ErrLimit\<close>
  leaves a coder that cannot be closed, so that a chunk that was closed holds whole operations.
\<close>

section \<open>The space of the coder\<close>

definition re_total :: "rangeEncoder \<Rightarrow> int" where
  "re_total e = int (length (enc_written e)) + lb_N (re_lbw e)"

definition spent :: "rangeEncoder \<Rightarrow> bool" where
  "spent e \<longleftrightarrow> re_Available e < 1"

definition re_keeps :: "rangeEncoder \<Rightarrow> (lzma_error + 'a) \<times> rangeEncoder \<Rightarrow> bool" where
  "re_keeps e r \<longleftrightarrow> re_total (snd r) = re_total e \<and>
     (1 \<le> re_cacheLen e \<longrightarrow> (fst r = Inl ErrLimit \<longrightarrow> spent (snd r)) \<and> (isl (fst r) \<or> 1 \<le> re_cacheLen (snd r)))"

lemma writeByte_keeps: "re_keeps e (re_writeByte c e)"
  by (auto simp: re_keeps_def re_writeByte_def limited_WriteByte_def WriteByte_def re_total_def enc_written_def spent_def
      re_Available_def split: option.splits nat.splits)

lemma total_cacheLen [simp]: "re_total (e\<lparr>re_cacheLen := n\<rparr>) = re_total e"
  by (simp add: re_total_def enc_written_def)

lemma write_cache_keeps: "re_total (snd (write_cache tmp carry e)) = re_total e \<and>
    (1 \<le> re_cacheLen e \<longrightarrow> fst (write_cache tmp carry e) = Inl ErrLimit \<longrightarrow> spent (snd (write_cache tmp carry e)))"
proof (induction tmp carry e rule: write_cache.induct)
  case (1 tmp carry e)
  obtain res e1 where w: "re_writeByte (tmp + carry) e = (res, e1)" by fastforce
  have k: "re_total e1 = re_total e" "1 \<le> re_cacheLen e \<Longrightarrow> res = Inl ErrLimit \<Longrightarrow> spent e1"
    using writeByte_keeps [of e "tmp + carry"] by (auto simp: w re_keeps_def)
  show ?case
  proof (cases res)
    case (Inl err)
    then show ?thesis using k by (subst (1 2 3) write_cache.simps) (simp add: w)
  next
    case (Inr u)
    show ?thesis
    proof (cases "re_cacheLen e1 - 1 \<le> 0")
      case True
      then show ?thesis using k Inr by (subst (1 2 3) write_cache.simps) (simp add: w Let_def)
    next
      case False
      define e2 where "e2 = e1\<lparr>re_cacheLen := re_cacheLen e1 - 1\<rparr>"
      have "write_cache tmp carry e = write_cache 0xff carry e2" using False Inr
        by (subst write_cache.simps) (simp add: w Let_def e2_def)
      moreover have "re_total e2 = re_total e" "1 \<le> re_cacheLen e2" using k False by (simp_all add: e2_def)
      ultimately show ?thesis using 1 [OF w [symmetric] Inr e2_def] False by (simp add: e2_def)
    qed
  qed
qed

text \<open>Every \<open>shiftLow\<close> takes one byte of the space, now or when the cache is written.\<close>

lemma write_cache_Available:
  "write_cache tmp carry e = (Inr u, e') \<Longrightarrow>
    re_Available e' = re_Available e \<and> lb_N (re_lbw e') < lb_N (re_lbw e) \<and> re_low e' = re_low e \<and> 1 \<le> re_Available e \<and>
    re_cacheLen e' = 0"
proof (induction tmp carry e arbitrary: u e' rule: write_cache.induct)
  case (1 tmp carry e)
  from 1(2) obtain e1 where w: "re_writeByte (tmp + carry) e = (Inr (), e1)"
    by (subst (asm) write_cache.simps) (auto split: prod.splits sum.splits)
  then have e1: "re_Available e1 = re_Available e - 1" "lb_N (re_lbw e1) = lb_N (re_lbw e) - 1" "re_low e1 = re_low e"
    "1 \<le> re_Available e" "re_cacheLen e1 = re_cacheLen e"
    by (auto simp: re_writeByte_def limited_WriteByte_def re_Available_def split: if_splits prod.splits sum.splits)
  define e2 where "e2 = e1\<lparr>re_cacheLen := re_cacheLen e1 - 1\<rparr>"
  have e2: "re_Available e2 = re_Available e" "lb_N (re_lbw e2) = lb_N (re_lbw e) - 1" "re_low e2 = re_low e"
    using e1 by (simp_all add: e2_def re_Available_def)
  show ?case
  proof (cases "re_cacheLen e2 \<le> 0")
    case True
    then have "e' = e2" "re_cacheLen e2 = 0" using 1(2) w unfolding e2_def
      by (subst (asm) write_cache.simps; auto simp: Let_def split: if_splits)+
    then show ?thesis using e2 e1(4) by simp
  next
    case False
    then have "write_cache 0xff carry e2 = (Inr u, e')" using 1(2) w unfolding e2_def
      by (subst (asm) write_cache.simps) (simp add: Let_def)
    from 1(1) [OF w [symmetric] refl refl, of u e', folded e2_def, OF False this] e2 e1(4) show ?thesis by simp
  qed
qed

lemma shiftLow_Available:
  assumes "shiftLow e = (Inr u, e')"
  shows "re_Available e' = re_Available e - 1" "re_low e' = ucast (push_bit 8 (ucast (re_low e) :: u32))"
    "lb_N (re_lbw e') \<le> lb_N (re_lbw e)"
    "(ucast (re_low e) :: u32) < 0xff000000 \<Longrightarrow> 1 \<le> re_Available e \<and> re_cacheLen e' = 1"
  using assms write_cache_Available [of "re_cache e" "ucast (drop_bit 32 (re_low e))" e]
  by (auto simp: shiftLow_def Let_def re_Available_def split: if_splits prod.splits sum.splits)

lemma shiftLow_keeps: "re_keeps e (shiftLow e)"
proof -
  have "1 \<le> re_cacheLen e \<Longrightarrow> 1 \<le> re_cacheLen e'" if "shiftLow e = (Inr u, e')" for u e'
    using that write_cache_Available [of "re_cache e" "ucast (drop_bit 32 (re_low e))" e]
    by (auto simp: shiftLow_def Let_def split: if_splits prod.splits sum.splits)
  then have "1 \<le> re_cacheLen e \<Longrightarrow> isl (fst (shiftLow e)) \<or> 1 \<le> re_cacheLen (snd (shiftLow e))"
    by (cases "shiftLow e"; cases "fst (shiftLow e)") auto
  then show ?thesis using write_cache_keeps [of "re_cache e" "ucast (drop_bit 32 (re_low e))" e]
    by (auto simp: shiftLow_def Let_def re_keeps_def re_total_def enc_written_def split: prod.splits sum.splits)
qed

lemma normalize_keeps: "re_lbw e1 = re_lbw e \<Longrightarrow> re_cacheLen e1 = re_cacheLen e \<Longrightarrow> re_keeps e (re_normalize e1)"
  using shiftLow_keeps [of "e1\<lparr>re_nrange := push_bit 8 (re_nrange e1)\<rparr>"]
  by (auto simp: re_normalize_def re_keeps_def re_total_def enc_written_def)

section \<open>The operations\<close>

definition keeps :: "('c \<times> rangeEncoder, 'a) lz \<Rightarrow> bool" where
  "keeps m \<longleftrightarrow> (\<forall>c e. case m (c, e) of (res, _, e') \<Rightarrow> re_keeps e (res, e'))"

lemma keepsD: "keeps m \<Longrightarrow> m (c, e) = (res, c', e') \<Longrightarrow> re_keeps e (res, e')"
  unfolding keeps_def by (drule spec [of _ c], drule spec [of _ e]) simp

lemma keepsI: "(\<And>c e res c' e'. m (c, e) = (res, c', e') \<Longrightarrow> re_keeps e (res, e')) \<Longrightarrow> keeps m"
  by (simp add: keeps_def split: prod.splits)

lemma keeps_bind:
  assumes m: "keeps m" and f: "\<And>x. keeps (f x)"
  shows "keeps (lbind m f)"
proof (rule keepsI)
  fix c e res c' e' assume b: "lbind m f (c, e) = (res, c', e')"
  obtain r1 c1 e1 where 1: "m (c, e) = (r1, c1, e1)" by (metis prod_cases3)
  note k = keepsD [OF m 1]
  show "re_keeps e (res, e')"
  proof (cases r1)
    case (Inr x)
    then have "f x (c1, e1) = (res, c', e')" using b 1 by (simp add: lbind_def)
    from keepsD [OF f this] k Inr show ?thesis by (simp add: re_keeps_def)
  qed (use b 1 k in \<open>auto simp: lbind_def re_keeps_def\<close>)
qed

lemma keeps_focus: "keeps m \<Longrightarrow> keeps (focus get put m)"
  by (simp add: keeps_def focus_def re_keeps_def split: prod.splits)

lemma keeps_element: "keeps m \<Longrightarrow> keeps (element i m)"
  by (simp add: keeps_def element_def focus_def re_keeps_def split: prod.splits)

lemma keeps_slice: "keeps m \<Longrightarrow> keeps (slice k n m)"
  by (simp add: keeps_def slice_def focus_def re_keeps_def split: prod.splits)

lemma keeps_base: "keeps (lret x)" "e \<noteq> ErrLimit \<Longrightarrow> keeps (lfail e)" "keeps (gets g)" "keeps (modify h)"
  by (simp_all add: keeps_def lret_def lfail_def gets_def modify_def re_keeps_def)

lemma keeps_coder: "(\<And>e. re_keeps e (m e)) \<Longrightarrow> keeps (on_coder m)"
  by (rule keepsI) (auto simp: on_coder_def split: prod.splits, metis)

lemma keeps_EncodeBit: "keeps (EncodeBit b)"
proof (rule keepsI)
  fix c :: prob and e res c' e'
  assume "EncodeBit b (c, e) = (res, c', e')"
  then have "\<exists>e1. re_lbw e1 = re_lbw e \<and> re_cacheLen e1 = re_cacheLen e \<and> re_normalize e1 = (res, e')"
    by (auto simp: EncodeBit_def Let_def split: if_splits prod.splits)
      (rule exI, rule conjI [rotated], rule conjI [rotated], assumption, simp, simp)+
  then show "re_keeps e (res, e')" using normalize_keeps by metis
qed

lemma keeps_DirectEncodeBit: "keeps (on_coder (DirectEncodeBit b))"
  by (rule keeps_coder) (simp add: DirectEncodeBit_def Let_def normalize_keeps)

lemma keeps_dep: "(\<And>c. keeps (m c)) \<Longrightarrow> keeps (\<lambda>s. m (fst s) s)"
  by (simp add: keeps_def)

lemmas keeps_intros = keeps_bind keeps_focus keeps_element keeps_slice keeps_base keeps_EncodeBit keeps_DirectEncodeBit

lemma keeps_tree: "keeps (tree_encode n v m)"
  by (induction n arbitrary: m) (auto simp: Let_def intro!: keeps_intros)

lemma keeps_reverse: "keeps (reverse_encode n i v m)"
  by (induction n arbitrary: i m) (auto simp: Let_def intro!: keeps_intros)

lemma keeps_direct: "keeps (direct_encode n v)"
  by (induction n) (auto intro!: keeps_intros)

lemma keeps_literal: "keeps (literal_encode n symbol r)"
  by (induction n arbitrary: symbol r; subst literal_encode.simps) (auto simp: Let_def prob_Encode_def intro!: keeps_intros)

lemma keeps_matched: "keeps (matched_encode n m symbol r)"
  by (induction n arbitrary: m symbol r)
    (auto simp: matched_encode.simps Let_def prob_Encode_def intro!: keeps_intros keeps_literal)

lemma keeps_treeCodec: "keeps (treeCodec_Encode v)" "keeps (treeReverseCodec_Encode v)"
  unfolding treeCodec_Encode_def [abs_def] treeReverseCodec_Encode_def [abs_def]
  by (rule keeps_dep, rule keeps_focus, rule keeps_tree keeps_reverse)+

lemma keeps_lengthCodec: "keeps (lengthCodec_Encode l posState)"
  unfolding lengthCodec_Encode_def prob_Encode_def by (auto intro!: keeps_intros keeps_treeCodec)

lemma keeps_distCodec: "keeps (distCodec_Encode dist l)"
  unfolding distCodec_Encode_def directCodec_Encode_def
  by (auto intro!: keeps_intros keeps_treeCodec keeps_direct split: prod.split)

lemma keeps_literalCodec: "keeps (literalCodec_Encode s state match litState)"
  unfolding literalCodec_Encode_def Let_def by (auto intro!: keeps_intros keeps_literal keeps_matched)

lemma keeps_writeLiteral: "keeps (writeLiteral ed b)"
  unfolding writeLiteral_def prob_Encode_def by (auto intro!: keeps_intros keeps_literalCodec)

lemma keeps_writeMatch: "keeps (writeMatch ed m)"
  unfolding writeMatch_def prob_Encode_def Let_def
  by (auto intro!: keeps_intros keeps_lengthCodec keeps_distCodec)

section \<open>The properties\<close>

definition same_props :: "(lzma_state \<times> 'r, 'a) lz \<Rightarrow> bool" where
  "same_props m \<longleftrightarrow> (\<forall>s r. st_Properties (fst (snd (m (s, r)))) = st_Properties s)"

lemma same_props_bind: "same_props m \<Longrightarrow> (\<And>x. same_props (f x)) \<Longrightarrow> same_props (lbind m f)"
  unfolding same_props_def lbind_def by (simp split: prod.splits sum.splits) (metis fst_conv snd_conv)

lemma same_props_focus: "(\<And>b s. st_Properties (put b s) = st_Properties s) \<Longrightarrow> same_props (focus get put m)"
  by (auto simp: same_props_def focus_def split: prod.splits)

lemma same_props_modify: "(\<And>s. st_Properties (f s) = st_Properties s) \<Longrightarrow> same_props (modify f)"
  by (auto simp: same_props_def modify_def)

lemma same_props_base: "same_props (lret x)" "same_props (lfail e)" "same_props (gets g)"
  "same_props (modify updateStateLiteral)" "same_props (modify updateStateMatch)"
  "same_props (modify updateStateRep)" "same_props (modify updateStateShortRep)"
  "same_props (modify (push_rep dist))" "same_props (modify (shift_rep k dist))"
  by (auto simp: same_props_def lret_def lfail_def gets_def modify_def updateStateLiteral_def updateStateMatch_def
      updateStateRep_def updateStateShortRep_def push_rep_def shift_rep_def)

lemmas same_props_intros = same_props_bind same_props_focus same_props_base

lemma writeOp_same_props: "writeOp margin ed op (c, e) = (res, c', e') \<Longrightarrow> st_Properties c' = st_Properties c"
proof -
  assume w: "writeOp margin ed op (c, e) = (res, c', e')"
  have "same_props (writeLiteral ed b)" for b :: byte
    unfolding writeLiteral_def by (auto intro!: same_props_intros)
  moreover have "same_props (writeMatch ed m)" for m
    unfolding writeMatch_def Let_def by (auto intro!: same_props_intros)
  ultimately show ?thesis using w unfolding same_props_def writeOp_def
    by (auto split: if_splits) (metis fst_conv snd_conv)+
qed

lemma writeOp_keeps:
  assumes "writeOp margin ed op (c, e) = (res, c', e')"
  shows "re_total e' = re_total e" "res = Inl ErrLimit \<Longrightarrow> 1 \<le> re_cacheLen e \<Longrightarrow> (c', e') = (c, e) \<or> spent e'"
    "res = Inr u \<Longrightarrow> 1 \<le> re_cacheLen e \<Longrightarrow> 1 \<le> re_cacheLen e'"
  using assms keepsD [OF keeps_writeLiteral, of ed _ c e res c' e'] keepsD [OF keeps_writeMatch, of ed _ c e res c' e']
  by (auto simp: writeOp_def re_keeps_def split: if_splits)

lemma coding_keeps:
  assumes "coding cap margin h c e ops h' c' e'"
  shows "st_Properties c' = st_Properties c \<and> re_total e' = re_total e \<and> (1 \<le> re_cacheLen e \<longrightarrow> 1 \<le> re_cacheLen e')"
  using assms by (induction) (auto dest: writeOp_keeps(1,3) writeOp_same_props)

section \<open>Closing the coder\<close>

lemma total_new: "re_total (newRangeEncoder lbw) = int (length (written (lb_BW lbw))) + lb_N lbw"
  by (simp add: re_total_def newRangeEncoder_def enc_written_def)

lemma Close_space:
  assumes "re_Close e = (Inr u, e')"
  shows "5 \<le> re_Available e" "lb_N (re_lbw e') = re_Available e"
proof -
  have five: "(5 :: nat) = Suc (Suc (Suc (Suc (Suc 0))))" by simp
  from assms obtain e1 e2 e3 e4 where s: "shiftLow e = (Inr (), e1)" "shiftLow e1 = (Inr (), e2)" "shiftLow e2 = (Inr (), e3)"
    "shiftLow e3 = (Inr (), e4)" "shiftLow e4 = (Inr (), e')"
    unfolding re_Close_def five shifts.simps by (auto simp: lbind_Inr)
  define x where "x = (ucast (re_low e) :: u32)"
  have cast: "ucast (ucast y :: u64) = y" for y :: u32 by (rule bit_eqI) (auto simp: bit_simps dest: bit_imp_le_length)
  have "(ucast (re_low e4) :: u32) = push_bit 8 (push_bit 8 (push_bit 8 (push_bit 8 x)))"
    using shiftLow_Available(2) [OF s(1)] shiftLow_Available(2) [OF s(2)] shiftLow_Available(2) [OF s(3)] shiftLow_Available(2) [OF s(4)]
    by (simp only: cast x_def)
  also have "\<dots> = 0" by (rule bit_eqI) (auto simp: bit_simps)
  finally have "1 \<le> re_Available e4 \<and> re_cacheLen e' = 1" using shiftLow_Available(4) [OF s(5)] by simp
  moreover have "re_Available e4 = re_Available e - 4" "re_Available e' = re_Available e - 5"
    using shiftLow_Available(1) [OF s(1)] shiftLow_Available(1) [OF s(2)] shiftLow_Available(1) [OF s(3)]
      shiftLow_Available(1) [OF s(4)] shiftLow_Available(1) [OF s(5)] by simp_all
  ultimately show "5 \<le> re_Available e" "lb_N (re_lbw e') = re_Available e" by (simp_all add: re_Available_def)
qed

lemma shifts_total: "re_total (snd (shifts n e)) = re_total e"
proof (induction n arbitrary: e)
  case (Suc n)
  obtain r e1 where 1: "shiftLow e = (r, e1)" by fastforce
  show ?case using Suc [of e1] shiftLow_keeps [of e] 1 by (cases r) (auto simp: lbind_def re_keeps_def)
qed (simp add: lret_def)

lemma Close_total: "re_Close e = (res, e') \<Longrightarrow> re_total e' = re_total e"
  using shifts_total [of 5 e] by (simp add: re_Close_def)

lemma Close_not_spent: "re_Close e = (Inr u, e') \<Longrightarrow> \<not> spent e"
  using Close_space(1) [of e u e'] by (simp add: spent_def)

end
