(* ===== verification/Lzma2.thy ===== *)
theory Lzma2
  imports LzmaFile
begin

text \<open>
  \<open>internal/xz/lzma\<close>: the chunk sequences of LZMA2, written by \<open>Writer2\<close> (\<open>writer2.go\<close>) and read by
  \<open>Reader2\<close> (\<open>reader2.go\<close>). The reader of a coded chunk is limited to its bytes and buffered; since
  \<open>startChunk\<close> refuses to go on before all of them are used, the model takes them from the source
  when the chunk starts (\<open>window\<close>) and keeps the number that the source could not deliver. The
  dictionary, shared by the readers of the chunks, is a component of \<open>Reader2\<close> that is handed to
  the decoder for each call.
\<close>

section \<open>Uncompressed chunks\<close>

text \<open>The limited reader of the code is the source with the number \<open>ur_N\<close>.\<close>

record uncompressedReader =
  ur_N :: nat
  ur_eof :: bool
  ur_err :: "lzma_error option"

definition newUncompressedReader :: "nat \<Rightarrow> uncompressedReader" where
  "newUncompressedReader sz = \<lparr>ur_N = sz, ur_eof = False, ur_err = None\<rparr>"

definition ur_Reopen :: "nat \<Rightarrow> uncompressedReader \<Rightarrow> uncompressedReader" where
  "ur_Reopen sz ur = ur\<lparr>ur_err := None, ur_eof := False, ur_N := sz\<rparr>"

type_synonym ur_state = "uncompressedReader \<times> decoderDict \<times> byte_reader"

text \<open>\<open>io.CopyN(ur.Dict, &ur.lr, n)\<close>: the number of bytes copied and the error.\<close>

definition ur_CopyN :: "nat \<Rightarrow> ur_state \<Rightarrow> nat \<times> lzma_error option \<times> ur_state" where
  "ur_CopyN n s =
     (case s of (ur, dict, src) \<Rightarrow>
        let p = take (min n (ur_N ur)) (br_data src) in
        case decoderDict_Write dict p of
          (k, werr, dict) \<Rightarrow>
            (k, if werr \<noteq> None then werr
                else if k = n then None
                else if k = ur_N ur then Some (LzIo EOF)
                else Some (LzIo (br_end src)),
             ur\<lparr>ur_N := ur_N ur - length p\<rparr>, dict, src\<lparr>br_data := drop (length p) (br_data src)\<rparr>))"

definition ur_fill :: "ur_state \<Rightarrow> lzma_error option \<times> ur_state" where
  "ur_fill s =
     (let tail = (\<lambda>s. (Some (LzIo (if ur_N (fst s) \<noteq> 0 then UnexpectedEOF else EOF)), s)) in
      if ur_eof (fst s) then tail s
      else case ur_CopyN (decoderDict_Available (fst (snd s))) s of
             (n, err, ur, rest) \<Rightarrow>
               if err \<noteq> Some (LzIo EOF) then (err, ur, rest)
               else let s = (ur\<lparr>ur_eof := True\<rparr>, rest) in
                    if n > 0 then (None, s) else tail s)"

text \<open>The loop of \<open>Read(p)\<close> with \<open>len(p) = k\<close>; \<open>acc\<close> is what \<open>p\<close> holds already.\<close>

partial_function (option) ur_Read_from :: "nat \<Rightarrow> byte list \<Rightarrow> ur_state \<Rightarrow> (byte list \<times> lzma_error option \<times> ur_state) option" where
  "ur_Read_from k acc s =
     (case s of (ur, dict, src) \<Rightarrow>
        (case decoderDict_Read dict (k - length acc) of
           (q, dict) \<Rightarrow>
             (let acc = acc @ q in
              if length acc \<ge> k then Some (acc, None, ur, dict, src)
              else case ur_fill (ur, dict, src) of
                     (Some err, ur, rest) \<Rightarrow> Some (acc, Some err, ur\<lparr>ur_err := Some err\<rparr>, rest)
                   | (None, s) \<Rightarrow> ur_Read_from k acc s)))"

definition ur_Read :: "nat \<Rightarrow> ur_state \<Rightarrow> (byte list \<times> lzma_error option \<times> ur_state) option" where
  "ur_Read k s = (if ur_err (fst s) \<noteq> None then Some ([], ur_err (fst s), s) else ur_Read_from k [] s)"

section \<open>The reader\<close>

text \<open>The configuration is its only field, the capacity of the dictionary.\<close>

definition Reader2Config_fill :: "int \<Rightarrow> int" where
  "Reader2Config_fill dictCap = (if dictCap = 0 then 8 * 1024 * 1024 else dictCap)"

definition Reader2Config_Verify :: "int \<Rightarrow> lzma_error + int" where
  "Reader2Config_Verify dictCap =
     (let dictCap = Reader2Config_fill dictCap in
      if \<not> (MinDictCap \<le> dictCap \<and> dictCap \<le> MaxDictCap)
      then Inl (LzError ''dictionary capacity is out of range'') else Inr dictCap)"

datatype chunkReader = No_Chunk | Raw_Chunk | Coded_Chunk

text \<open>\<open>r2_lr\<close> says whether the limited reader of a coded chunk is there; \<open>r2_missing\<close> is the number of
  the bytes of the chunk that the source did not have, and \<open>r2_window\<close> of those it had.\<close>

record Reader2 =
  r2_r :: byte_reader
  r2_err :: "lzma_error option"
  r2_dict :: decoderDict
  r2_ur :: "uncompressedReader option"
  r2_decoder :: "decoder option"
  r2_chunkReader :: chunkReader
  r2_lr :: bool
  r2_missing :: nat
  r2_window :: nat
  r2_cstate :: chunkState

definition unread :: "Reader2 \<Rightarrow> bool" where
  "unread r \<longleftrightarrow> r2_missing r \<noteq> 0 \<or>
     (case r2_decoder r of None \<Rightarrow> False | Some d \<Rightarrow> br_data (rd_br (d_rd d)) \<noteq> [])"

definition window :: "nat \<Rightarrow> byte_reader \<Rightarrow> byte_reader" where
  "window n src = \<lparr>br_data = take n (br_data src), br_end = (if n \<le> length (br_data src) then EOF else br_end src)\<rparr>"

definition decoder_for :: "byte_reader \<Rightarrow> chunkHeader \<Rightarrow> int \<Rightarrow> Reader2 \<Rightarrow> lzma_error + decoder" where
  "decoder_for br h sz r =
     (case r2_decoder r of
        None \<Rightarrow> sbind (newState (ch_props h)) (\<lambda>s. newDecoder br s (r2_dict r) sz)
      | Some d \<Rightarrow>
          sbind (case ch_ctype h of
                   cLR \<Rightarrow> state_Reset (st_Properties (d_State d))
                 | cLRN \<Rightarrow> newState (ch_props h)
                 | cLRND \<Rightarrow> newState (ch_props h)
                 | _ \<Rightarrow> Inr (d_State d))
            (\<lambda>s. decoder_Reopen br sz (d\<lparr>d_State := s, d_Dict := r2_dict r\<rparr>)))"

definition open_chunk :: "chunkHeader \<Rightarrow> Reader2 \<Rightarrow> lzma_error option \<times> Reader2" where
  "open_chunk h r =
     (let r = (if ch_ctype h = cUD \<or> ch_ctype h = cLRND then r\<lparr>r2_dict := decoderDict_Reset (r2_dict r)\<rparr> else r);
          sz = uint (ch_uncompressed h) + 1 in
      if uncompressed (ch_ctype h)
      then (None, r\<lparr>r2_ur := Some (case r2_ur r of None \<Rightarrow> newUncompressedReader (nat sz) | Some ur \<Rightarrow> ur_Reopen (nat sz) ur),
                    r2_chunkReader := Raw_Chunk\<rparr>)
      else
        let n = unat (ch_compressed h) + 1; src = r2_r r;
            r = r\<lparr>r2_lr := True, r2_missing := n - length (br_data src),
                  r2_window := min n (length (br_data src)), r2_r := src\<lparr>br_data := drop n (br_data src)\<rparr>\<rparr> in
        case decoder_for (window n src) h sz r of
          Inl err \<Rightarrow> (Some err, r)
        | Inr d \<Rightarrow> (None, r\<lparr>r2_decoder := Some d, r2_chunkReader := Coded_Chunk\<rparr>))"

definition errUnreadData :: lzma_error where "errUnreadData = LzError ''compressed chunk contains unread data''"

definition startChunk :: "Reader2 \<Rightarrow> lzma_error option \<times> Reader2" where
  "startChunk r =
     (if r2_lr r \<and> unread r then (Some errUnreadData, r)
      else
        let r = r\<lparr>r2_lr := False, r2_chunkReader := No_Chunk\<rparr> in
        case readChunkHeader (r2_r r) of
          (Inl err, src) \<Rightarrow> (Some (if err = LzIo EOF then LzIo UnexpectedEOF else err), r\<lparr>r2_r := src\<rparr>)
        | (Inr h, src) \<Rightarrow>
            let r = r\<lparr>r2_r := src\<rparr> in
            case chunkState_next (r2_cstate r) (ch_ctype h) of
              Inl err \<Rightarrow> (Some err, r)
            | Inr c \<Rightarrow>
                if c = Stop_T then (Some (LzIo EOF), r\<lparr>r2_cstate := c\<rparr>)
                else open_chunk h (r\<lparr>r2_cstate := c\<rparr>))"

definition NewReader2 :: "int \<Rightarrow> byte_reader \<Rightarrow> lzma_error + Reader2" where
  "NewReader2 dictCap src =
     sbind (Reader2Config_Verify dictCap) (\<lambda>dictCap.
     sbind (newDecoderDict dictCap) (\<lambda>dict.
       case startChunk \<lparr>r2_r = src, r2_err = None, r2_dict = dict, r2_ur = None, r2_decoder = None,
           r2_chunkReader = No_Chunk, r2_lr = False, r2_missing = 0, r2_window = 0, r2_cstate = Start_S\<rparr> of
         (None, r) \<Rightarrow> Inr r
       | (Some err, r) \<Rightarrow> Inr (r\<lparr>r2_err := Some err\<rparr>)))"

text \<open>\<open>Read\<close> of the reader of the current chunk; without one the call is a nil dereference.\<close>

definition chunk_Read :: "nat \<Rightarrow> Reader2 \<Rightarrow> (byte list \<times> lzma_error option \<times> Reader2) option" where
  "chunk_Read k r =
     (case r2_chunkReader r of
        No_Chunk \<Rightarrow> Some ([], Some LzPanic, r)
      | Raw_Chunk \<Rightarrow>
          (case r2_ur r of
             None \<Rightarrow> Some ([], Some LzPanic, r)
           | Some ur \<Rightarrow>
               (case ur_Read k (ur, r2_dict r, r2_r r) of
                  None \<Rightarrow> None
                | Some (p, err, ur, dict, src) \<Rightarrow>
                    Some (p, err, r\<lparr>r2_ur := Some ur, r2_dict := dict, r2_r := src\<rparr>)))
      | Coded_Chunk \<Rightarrow>
          (case r2_decoder r of
             None \<Rightarrow> Some ([], Some LzPanic, r)
           | Some d \<Rightarrow>
               (case decoder_Read k (d\<lparr>d_Dict := r2_dict r\<rparr>) of
                  None \<Rightarrow> None
                | Some (p, err, d) \<Rightarrow> Some (p, err, r\<lparr>r2_decoder := Some d, r2_dict := d_Dict d\<rparr>))))"

definition errNoData :: lzma_error where "errNoData = LzError ''Reader2 doesn't get data''"

partial_function (option) Reader2_Read_from :: "nat \<Rightarrow> byte list \<Rightarrow> Reader2 \<Rightarrow> (byte list \<times> lzma_error option \<times> Reader2) option" where
  "Reader2_Read_from k acc r =
     (if length acc \<ge> k then Some (acc, None, r)
      else case chunk_Read (k - length acc) r of
             None \<Rightarrow> None
           | Some (q, err, r) \<Rightarrow>
               (let acc = acc @ q in
                case err of
                  Some err \<Rightarrow>
                    if err = LzIo EOF
                    then (case startChunk r of
                            (None, r) \<Rightarrow> Reader2_Read_from k acc r
                          | (Some err, r) \<Rightarrow> Some (acc, Some err, r\<lparr>r2_err := Some err\<rparr>))
                    else Some (acc, Some err, r\<lparr>r2_err := Some err\<rparr>)
                | None \<Rightarrow>
                    if q = [] then Some (acc, Some errNoData, r\<lparr>r2_err := Some errNoData\<rparr>)
                    else Reader2_Read_from k acc r))"

definition Reader2_Read :: "nat \<Rightarrow> Reader2 \<Rightarrow> (byte list \<times> lzma_error option \<times> Reader2) option" where
  "Reader2_Read k r = (if r2_err r \<noteq> None then Some ([], r2_err r, r) else Reader2_Read_from k [] r)"

definition EOS :: "Reader2 \<Rightarrow> bool" where
  "EOS r \<longleftrightarrow> r2_cstate r = Stop_T"

section \<open>The configuration of a writer\<close>

record Writer2Config =
  c2_Properties :: "Properties option"
  c2_DictCap :: int
  c2_BufSize :: int
  c2_Matcher :: matchAlgorithm

definition Writer2Config_fill :: "Writer2Config \<Rightarrow> Writer2Config" where
  "Writer2Config_fill c =
     (let c = (if c2_Properties c = None then c\<lparr>c2_Properties := Some \<lparr>LC = 3, LP = 0, PB = 2\<rparr>\<rparr> else c);
          c = (if c2_DictCap c = 0 then c\<lparr>c2_DictCap := 8 * 1024 * 1024\<rparr> else c)
      in if c2_BufSize c = 0 then c\<lparr>c2_BufSize := 4096\<rparr> else c)"

definition Writer2Config_Verify :: "Writer2Config \<Rightarrow> lzma_error + Writer2Config" where
  "Writer2Config_Verify c =
     (let c = Writer2Config_fill c in
      case c2_Properties c of
        None \<Rightarrow> Inl (LzError ''WriterConfig has no Properties set'')
      | Some p \<Rightarrow>
      (case Properties_verify p of
         Some err \<Rightarrow> Inl err
       | None \<Rightarrow>
           if \<not> (MinDictCap \<le> c2_DictCap c \<and> c2_DictCap c \<le> MaxDictCap)
           then Inl (LzError ''dictionary capacity is out of range'')
           else if \<not> maxMatchLen \<le> c2_BufSize c then Inl (LzError ''lookahead buffer size too small'')
           else if LC p + LP p > 4 then Inl (LzError ''sum of lc and lp exceeds 4'')
           else case matchAlgorithm_verify (c2_Matcher c) of Some err \<Rightarrow> Inl err | None \<Rightarrow> Inr c))"

section \<open>The writer\<close>

text \<open>The buffer of the code and the limited writer in front of it are the \<open>re_lbw\<close> of the encoder.\<close>

record 'm Writer2 =
  w2_w :: byte_writer
  w2_start :: lzma_state
  w2_encoder :: "'m encoder"
  w2_cstate :: chunkState
  w2_ctype :: chunkType

definition w2_limited :: LimitedByteWriter where
  "w2_limited = \<lparr>lb_BW = \<lparr>written = [], quota = None\<rparr>, lb_N = maxCompressed\<rparr>"

definition w2_buf :: "'m Writer2 \<Rightarrow> byte list" where
  "w2_buf w = written (lb_BW (re_lbw (e_re (w2_encoder w))))"

definition NewWriter2 :: "Writer2Config \<Rightarrow> byte_writer \<Rightarrow> lzma_error + any_matcher Writer2" where
  "NewWriter2 c lzma2 =
     sbind (Writer2Config_Verify c) (\<lambda>c.
       case c2_Properties c of
         None \<Rightarrow> Inl LzPanic
       | Some p \<Rightarrow>
       sbind (newState p) (\<lambda>start.
       sbind (matchAlgorithm_new (c2_Matcher c) (c2_DictCap c)) (\<lambda>m.
       sbind (newEncoderDict (c2_DictCap c) (c2_BufSize c)) (\<lambda>d.
         Inr \<lparr>w2_w = lzma2, w2_start = start, w2_encoder = newEncoder w2_limited start d m False,
              w2_cstate = Start_S, w2_ctype = defaultChunkType Start_S\<rparr>))))"

text \<open>\<open>written()\<close> of the code is \<open>buffered_total\<close> of the encoder.\<close>

definition w2_written :: "'m Writer2 \<Rightarrow> int" where
  "w2_written w = buffered_total (w2_encoder w)"

definition w2_write_header :: "chunkHeader \<Rightarrow> 'm Writer2 \<Rightarrow> lzma_error option \<times> 'm Writer2" where
  "w2_write_header h w =
     (case chunk_MarshalBinary h of
        Inl err \<Rightarrow> (Some err, w)
      | Inr hdata \<Rightarrow> (case bw_Write hdata (w2_w w) of (err, bw) \<Rightarrow> (err, w\<lparr>w2_w := bw\<rparr>)))"

definition writeUncompressedChunk :: "'m Writer2 \<Rightarrow> lzma_error option \<times> 'm Writer2" where
  "writeUncompressedChunk w =
     (let u = Compressed (w2_encoder w) in
      if u \<le> 0 then (Some (LzError ''can't write empty uncompressed chunk''), w)
      else if u > maxUncompressed then (Some LzPanic, w)
      else
        let ctype = (if w2_ctype w = cLRND then cUD else cU);
            w = w\<lparr>w2_ctype := ctype, w2_encoder := (w2_encoder w)\<lparr>e_state := w2_start w\<rparr>\<rparr> in
        case w2_write_header \<lparr>ch_ctype = ctype, ch_uncompressed = of_int (u - 1), ch_compressed = 0, ch_props = noProps\<rparr> w of
          (Some err, w) \<Rightarrow> (Some err, w)
        | (None, w) \<Rightarrow>
            case encoderDict_CopyN (e_dict (w2_encoder w)) u of
              (p, cerr) \<Rightarrow>
                (case bw_Write p (w2_w w) of
                   (err, bw) \<Rightarrow> (if err \<noteq> None then err else cerr, w\<lparr>w2_w := bw\<rparr>)))"

definition drop_buf :: "nat \<Rightarrow> 'm encoder \<Rightarrow> 'm encoder" where
  "drop_buf n e =
     (let lbw = re_lbw (e_re e); bw = lb_BW lbw in
      e\<lparr>e_re := (e_re e)\<lparr>re_lbw := lbw\<lparr>lb_BW := bw\<lparr>written := drop n (written bw)\<rparr>\<rparr>\<rparr>\<rparr>)"

definition writeCompressedChunk :: "'m Writer2 \<Rightarrow> lzma_error option \<times> 'm Writer2" where
  "writeCompressedChunk w =
     (let u = Compressed (w2_encoder w); c = int (length (w2_buf w)) in
      if uncompressed (w2_ctype w) then (Some LzPanic, w)
      else if u \<le> 0 then (Some (LzError ''writeCompressedChunk: empty chunk''), w)
      else if u > maxUncompressed then (Some LzPanic, w)
      else if c \<le> 0 then (Some LzPanic, w)
      else if c > maxCompressed then (Some LzPanic, w)
      else
        case w2_write_header \<lparr>ch_ctype = w2_ctype w, ch_uncompressed = of_int (u - 1), ch_compressed = of_int (c - 1),
               ch_props = st_Properties (e_state (w2_encoder w))\<rparr> w of
          (Some err, w) \<Rightarrow> (Some err, w)
        | (None, w) \<Rightarrow>
            case bw_Write (w2_buf w) (w2_w w) of
              (err, bw) \<Rightarrow>
                (err, w\<lparr>w2_w := bw, w2_encoder := drop_buf (length (written bw) - length (written (w2_w w))) (w2_encoder w)\<rparr>))"

definition writeChunk :: "'m Writer2 \<Rightarrow> lzma_error option \<times> 'm Writer2" where
  "writeChunk w =
     (let u = int uncompressedHeaderLen + Compressed (w2_encoder w);
          c = int (headerLen (w2_ctype w)) + int (length (w2_buf w)) in
      if u < c then writeUncompressedChunk w else writeCompressedChunk w)"

definition next_chunk :: "'m Writer2 \<Rightarrow> lzma_error option \<times> 'm Writer2" where
  "next_chunk w =
     (let w = w\<lparr>w2_encoder := encoder_Reopen w2_limited (w2_encoder w)\<rparr> in
      case chunkState_next (w2_cstate w) (w2_ctype w) of
        Inl err \<Rightarrow> (Some err, w)
      | Inr s \<Rightarrow> (None, w\<lparr>w2_cstate := s, w2_ctype := defaultChunkType s, w2_start := e_state (w2_encoder w)\<rparr>))"

definition flushChunk :: "'m matcher \<Rightarrow> 'm Writer2 \<Rightarrow> (lzma_error option \<times> 'm Writer2) option" where
  "flushChunk mt w =
     (if w2_written w = 0 then Some (None, w)
      else case encoder_Close mt (w2_encoder w) of
             None \<Rightarrow> None
           | Some (Some err, e) \<Rightarrow> Some (Some err, w\<lparr>w2_encoder := e\<rparr>)
           | Some (None, e) \<Rightarrow>
               (case writeChunk (w\<lparr>w2_encoder := e\<rparr>) of
                  (Some err, w) \<Rightarrow> Some (Some err, w)
                | (None, w) \<Rightarrow> Some (next_chunk w)))"

partial_function (option) Writer2_Write_from ::
    "'m matcher \<Rightarrow> byte list \<Rightarrow> nat \<Rightarrow> 'm Writer2 \<Rightarrow> (nat \<times> lzma_error option \<times> 'm Writer2) option" where
  "Writer2_Write_from mt p n w =
     (if length p \<le> n then Some (n, None, w)
      else
        let m = maxUncompressed - w2_written w in
        if m \<le> 0 then Some (n, Some LzPanic, w)
        else case encoder_Write mt (take (nat m) (drop n p)) (w2_encoder w) of
               None \<Rightarrow> None
             | Some (k, err, e) \<Rightarrow>
                 (let n = n + k; w = w\<lparr>w2_encoder := e\<rparr> in
                  if err \<noteq> None \<and> err \<noteq> Some ErrLimit then Some (n, err, w)
                  else if err = Some ErrLimit \<or> int k = m
                  then (case flushChunk mt w of
                          None \<Rightarrow> None
                        | Some (Some err, w) \<Rightarrow> Some (n, Some err, w)
                        | Some (None, w) \<Rightarrow> Writer2_Write_from mt p n w)
                  else Writer2_Write_from mt p n w))"

definition errClosed :: lzma_error where "errClosed = LzError ''writer closed''"

definition Writer2_Write :: "'m matcher \<Rightarrow> byte list \<Rightarrow> 'm Writer2 \<Rightarrow> (nat \<times> lzma_error option \<times> 'm Writer2) option" where
  "Writer2_Write mt p w =
     (if w2_cstate w = Stop_T then Some (0, Some errClosed, w) else Writer2_Write_from mt p 0 w)"

partial_function (option) Writer2_flush_loop :: "'m matcher \<Rightarrow> 'm Writer2 \<Rightarrow> (lzma_error option \<times> 'm Writer2) option" where
  "Writer2_flush_loop mt w =
     (if w2_written w \<le> 0 then Some (None, w)
      else case flushChunk mt w of
             None \<Rightarrow> None
           | Some (Some err, w) \<Rightarrow> Some (Some err, w)
           | Some (None, w) \<Rightarrow> Writer2_flush_loop mt w)"

definition Writer2_Flush :: "'m matcher \<Rightarrow> 'm Writer2 \<Rightarrow> (lzma_error option \<times> 'm Writer2) option" where
  "Writer2_Flush mt w = (if w2_cstate w = Stop_T then Some (Some errClosed, w) else Writer2_flush_loop mt w)"

text \<open>\<open>Close\<close> drops the error of the flush.\<close>

definition Writer2_Close :: "'m matcher \<Rightarrow> 'm Writer2 \<Rightarrow> (lzma_error option \<times> 'm Writer2) option" where
  "Writer2_Close mt w =
     (if w2_cstate w = Stop_T then Some (Some errClosed, w)
      else case Writer2_Flush mt w of
             None \<Rightarrow> None
           | Some (Some _, w) \<Rightarrow> Some (None, w)
           | Some (None, w) \<Rightarrow>
               (case bw_Write [0] (w2_w w) of
                  (Some err, bw) \<Rightarrow> Some (Some err, w\<lparr>w2_w := bw\<rparr>)
                | (None, bw) \<Rightarrow> Some (None, w\<lparr>w2_w := bw, w2_cstate := Stop_T\<rparr>)))"

declare ur_Read_from.simps [code] Reader2_Read_from.simps [code] Writer2_Write_from.simps [code] Writer2_flush_loop.simps [code]

end
