(* ===== verification/Lzma2ReadProofs.thy ===== *)
theory Lzma2ReadProofs
  imports Lzma2 LzmaHeaderProps LzmaReadProofs
begin

text \<open>
  The reader of a well-formed sequence of chunks. \<open>chunked cs c h out D\<close>: in the state \<open>cs\<close> of the
  chunk automaton, with \<open>c\<close> the state of the model and \<open>h\<close> the bytes already produced, the bytes
  \<open>out\<close> up to the end marker complete the data to \<open>D\<close>. \<open>Reader2\<close> delivers it, whatever the sizes of the reads.
\<close>

section \<open>Sequences of chunks\<close>

definition raw_header :: "chunkType \<Rightarrow> nat \<Rightarrow> chunkHeader" where
  "raw_header ct u = \<lparr>ch_ctype = ct, ch_uncompressed = of_int (int u - 1), ch_compressed = 0, ch_props = noProps\<rparr>"

definition coded_header :: "chunkType \<Rightarrow> Properties \<Rightarrow> nat \<Rightarrow> nat \<Rightarrow> chunkHeader" where
  "coded_header ct p u c =
     \<lparr>ch_ctype = ct, ch_uncompressed = of_int (int u - 1), ch_compressed = of_int (int c - 1), ch_props = p\<rparr>"

definition coded_chunk :: "nat \<Rightarrow> nat \<Rightarrow> byte list \<Rightarrow> lzma_state \<Rightarrow> byte list \<Rightarrow> lzma_state \<Rightarrow> byte list \<Rightarrow> bool" where
  "coded_chunk cap n h c h' c' F \<longleftrightarrow> (\<exists>margin coder ops.
     ending \<lparr>sr_cap = cap, sr_lits = n, sr_margin = margin, sr_pre = [], sr_F = F, sr_T = [],
       sr_marker = False, sr_before = [], sr_hist = h', sr_state = c', sr_coder = coder\<rparr> \<and>
     coding cap margin h c (newRangeEncoder w2_limited) ops h' c' coder \<and> ops \<noteq> [])"

inductive chunked :: "nat \<Rightarrow> nat \<Rightarrow> lzma_state \<Rightarrow> chunkState \<Rightarrow> lzma_state \<Rightarrow> byte list \<Rightarrow> byte list \<Rightarrow> byte list \<Rightarrow> bool"
  for cap n s0 where
  chunked_stop: "cs \<noteq> Stop_T \<Longrightarrow> chunked cap n s0 cs c h [0] h"
| chunked_raw: "chunked cap n s0 cs c h (hb @ data @ out) D"
  if "chunked cap n s0 cs' c (h @ data) out D" and "ct = (if cs = Start_S then cUD else cU)"
    and "chunkState_next cs ct = Inr cs'" "cs = Start_S \<Longrightarrow> h = []" "0 < length data" "length data \<le> 2 ^ 16"
    and "chunk_MarshalBinary (raw_header ct (length data)) = Inr hb"
| chunked_coded: "chunked cap n s0 cs c h (hb @ F @ out) D"
  if "chunked cap n s0 cs' c' h' out D" and "chunkState_next cs (defaultChunkType cs) = Inr cs'"
    and "cs = Start_S \<Longrightarrow> h = []" "cs = Start_S \<or> cs = Reset_R \<Longrightarrow> c = s0"
    and "coded_chunk cap n h c h' c' F" "state_ok n c" "reps_ok cap (rep c)"
    and "length h' - length h \<le> 2 ^ 21" "length F \<le> 2 ^ 16"
    and "chunk_MarshalBinary (coded_header (defaultChunkType cs) (st_Properties s0) (length h' - length h) (length F)) = Inr hb"

lemma coded_chunkD:
  assumes "coded_chunk cap n h c h' c' F" "state_ok n c" "reps_ok cap (rep c)"
  shows "take (length h) h' = h" "length h < length h'" "5 \<le> length F" "cap < 2 ^ 32"
    "\<exists>d. newRangeDecoder \<lparr>br_data = F, br_end = x\<rparr> = (Inr d, rd_br d) \<and> sync [] F [] d (newRangeEncoder w2_limited)"
proof -
  obtain margin coder ops where e: "ending \<lparr>sr_cap = cap, sr_lits = n, sr_margin = margin, sr_pre = [], sr_F = F, sr_T = [],
       sr_marker = False, sr_before = [], sr_hist = h', sr_state = c', sr_coder = coder\<rparr>"
    and o: "coding cap margin h c (newRangeEncoder w2_limited) ops h' c' coder" "ops \<noteq> []"
    using assms(1) by (auto simp: coded_chunk_def)
  have ready: "enc_ready [] (newRangeEncoder w2_limited)" using new_ready(1) [of w2_limited] by (simp add: w2_limited_def)
  show cap: "cap < 2 ^ 32" using e by (simp add: ending_def)
  note ci = coding_inv [OF o(1) assms(2,3) ready cap]
  show "take (length h) h' = h" "length h < length h'" using ci(7) ci(6) [OF o(2)] by simp_all
  have c: "contains [] F coder" using e by (simp add: ending_def)
  then have c0: "contains (written (lb_BW w2_limited)) F (newRangeEncoder w2_limited)" using ci(4) by (simp add: w2_limited_def)
  then show "5 \<le> length F" using new_ready by (simp add: contains_def)
  show "\<exists>d. newRangeDecoder \<lparr>br_data = F, br_end = x\<rparr> = (Inr d, rd_br d) \<and> sync [] F [] d (newRangeEncoder w2_limited)"
    using newRangeDecoder_sync [OF c0, of "\<lparr>br_data = F, br_end = x\<rparr>" "[]"] by (simp add: w2_limited_def)
qed

lemma chunked_prefix: "chunked cap n s0 cs c h out D \<Longrightarrow> take (length h) D = h"
proof (induction rule: chunked.induct)
  case (chunked_raw cs' c h data out D ct cs hb)
  have "take (length h) D = take (length h) (take (length (h @ data)) D)" by (simp add: min_absorb1)
  also have "\<dots> = h" unfolding chunked_raw.IH by simp
  finally show ?case .
next
  case (chunked_coded cs' c' h' out D cs h c F hb)
  note d = coded_chunkD [OF chunked_coded.hyps(5-7)]
  then have "length h \<le> length h'" by simp
  then have "take (length h) D = take (length h) (take (length h') D)" by (simp add: min_absorb1)
  then show ?case using chunked_coded.IH d(1) by simp
qed simp

section \<open>Uncompressed chunks\<close>

text \<open>The reader of an uncompressed chunk that completes the data to \<open>D\<close> and is followed by \<open>tail\<close>.\<close>

definition raw_state :: "byte list \<Rightarrow> byte list \<Rightarrow> nat \<Rightarrow> nat \<Rightarrow> ur_state \<Rightarrow> bool" where
  "raw_state D tail L R s \<longleftrightarrow> (case s of (ur, dict, src) \<Rightarrow> \<exists>hc data.
     dd_rep [] hc R dict \<and> buffer_Cap (dd_buf dict) = L \<and> hc @ data = D \<and> br_data src = data @ tail \<and>
     ur_N ur = length data \<and> (ur_eof ur \<longrightarrow> data = []) \<and> ur_err ur = None)"

lemma raw_stateI:
  "dd_rep [] hc R dict \<Longrightarrow> buffer_Cap (dd_buf dict) = L \<Longrightarrow> hc @ data = D \<Longrightarrow> br_data src = data @ tail \<Longrightarrow>
    ur_N ur = length data \<Longrightarrow> (ur_eof ur \<Longrightarrow> data = []) \<Longrightarrow> ur_err ur = None \<Longrightarrow> raw_state D tail L R (ur, dict, src)"
  by (auto simp: raw_state_def)

lemma ur_CopyN_raw:
  assumes "dd_rep [] hc (length hc) dict" "br_data src = data @ tail" "ur_N ur = length data"
  defines "p \<equiv> take (buffer_Cap (dd_buf dict)) data"
  obtains dict' where "ur_CopyN (decoderDict_Available dict) (ur, dict, src) =
      (length p, if length p = buffer_Cap (dd_buf dict) then None else Some (LzIo EOF), ur\<lparr>ur_N := length data - length p\<rparr>,
       dict', src\<lparr>br_data := drop (length p) (data @ tail)\<rparr>)"
    "dd_rep [] (hc @ p) (length hc) dict'" "buffer_Cap (dd_buf dict') = buffer_Cap (dd_buf dict)"
proof -
  have av: "decoderDict_Available dict = buffer_Cap (dd_buf dict)" using dd_Available [OF assms(1)] by simp
  have p: "take (min (buffer_Cap (dd_buf dict)) (ur_N ur)) (br_data src) = p" "length p \<le> buffer_Cap (dd_buf dict)"
    "length p \<noteq> buffer_Cap (dd_buf dict) \<Longrightarrow> length p = length data"
    using assms(2,3) by (auto simp: p_def min_def take_append split: if_splits)
  obtain j werr dict' where wr: "decoderDict_Write dict p = (j, werr, dict')" by (metis prod_cases3)
  note w = dd_Write [OF assms(1) wr, unfolded av]
  have j: "j = length p" "werr = None" using w(1,2) p(2) by simp_all
  show thesis
    by (rule that [OF _ w(3) [unfolded j(1) take_all [OF order_refl]] w(4)])
      (unfold ur_CopyN_def prod.case Let_def av p(1) wr, use p(3) in \<open>auto simp: j assms(2,3)\<close>)
qed

definition raw_measure :: "ur_state \<Rightarrow> nat" where
  "raw_measure s = ur_N (fst s) + (if ur_eof (fst s) then 0 else 1)"

lemma ur_fill_raw:
  assumes "raw_state D tail L R (ur, dict, src)" "R = dd_head dict" "1 \<le> L"
  shows "(\<exists>s. ur_fill (ur, dict, src) = (None, s) \<and> raw_state D tail L R s \<and> raw_measure s < raw_measure (ur, dict, src)) \<or>
    (\<exists>ur' dict' src'. ur_fill (ur, dict, src) = (Some (LzIo EOF), ur', dict', src') \<and> R = length D \<and>
      raw_state D tail L R (ur', dict', src'))"
proof -
  obtain hc data where h: "dd_rep [] hc R dict" "buffer_Cap (dd_buf dict) = L" "hc @ data = D" "br_data src = data @ tail"
    "ur_N ur = length data" "ur_eof ur \<longrightarrow> data = []" "ur_err ur = None" using assms(1) by (auto simp: raw_state_def)
  have R: "R = length hc" using assms(2) h(1) by (simp add: dd_rep_def)
  show ?thesis
  proof (cases "ur_eof ur")
    case True
    then have "ur_fill (ur, dict, src) = (Some (LzIo EOF), ur, dict, src)" "R = length D" using h R by (auto simp: ur_fill_def)
    with assms(1) show ?thesis by blast
  next
    case eof: False
    define p where "p = take L data"
    obtain dict' where c: "ur_CopyN (decoderDict_Available dict) (ur, dict, src) =
      (length p, if length p = L then None else Some (LzIo EOF), ur\<lparr>ur_N := length data - length p\<rparr>,
       dict', src\<lparr>br_data := drop (length p) (data @ tail)\<rparr>)"
      "dd_rep [] (hc @ p) (length hc) dict'" "buffer_Cap (dd_buf dict') = L"
      using ur_CopyN_raw [OF h(1) [unfolded R] h(4,5)] unfolding h(2) p_def by blast
    have p: "p @ drop L data = data" "drop (length p) (data @ tail) = drop L data @ tail"
      "length (drop L data) = length data - length p" "length p \<noteq> L \<Longrightarrow> drop L data = []"
      by (auto simp: p_def min_def split: if_splits)
    define ur1 where "ur1 = ur\<lparr>ur_N := length data - length p\<rparr>"
    define src1 where "src1 = src\<lparr>br_data := drop (length p) (data @ tail)\<rparr>"
    have inv: "raw_state D tail L R (ur1\<lparr>ur_eof := b\<rparr>, dict', src1)" if "b \<longrightarrow> drop L data = []" for b
      by (rule raw_stateI [OF c(2) [folded R] c(3), of "drop L data"])
        (use that h p in \<open>simp_all add: ur1_def src1_def\<close>)
    show ?thesis
    proof (cases "data = []")
      case True
      then have "length p \<noteq> L" "p = []" using assms(3) by (auto simp: p_def)
      then have "ur_fill (ur, dict, src) = (Some (LzIo EOF), ur1\<lparr>ur_eof := True\<rparr>, dict', src1)"
        using eof c(1) True by (simp add: ur_fill_def ur1_def src1_def)
      then show ?thesis using inv [of True] True R h(3) by auto
    next
      case False
      then have "0 < length p" using assms(3) by (simp add: p_def)
      then have f: "ur_fill (ur, dict, src) = (None, ur1\<lparr>ur_eof := length p \<noteq> L\<rparr>, dict', src1)"
        using eof c(1) by (auto simp: ur_fill_def ur1_def src1_def)
      moreover have "length data - length p < length data" using \<open>0 < length p\<close> False by simp
      then have "raw_measure (ur1\<lparr>ur_eof := length p \<noteq> L\<rparr>, dict', src1) < raw_measure (ur, dict, src)"
        using eof h(5) by (auto simp: raw_measure_def ur1_def)
      ultimately show ?thesis using inv [of "length p \<noteq> L"] p(4) by blast
    qed
  qed
qed

definition raw_done :: "byte list \<Rightarrow> byte list \<Rightarrow> nat \<Rightarrow> ur_state \<Rightarrow> bool" where
  "raw_done D tail L s \<longleftrightarrow> (case s of (ur, dict, src) \<Rightarrow>
     dd_rep [] D (length D) dict \<and> buffer_Cap (dd_buf dict) = L \<and> br_data src = tail)"

lemma ur_Read_from_raw:
  assumes "raw_state D tail L R s" "1 \<le> L" "length acc < k"
  shows "\<exists>s'. let q = take (k - length acc) (drop R D) in
    ur_Read_from k acc s = Some (acc @ q, if length q < k - length acc then Some (LzIo EOF) else None, s') \<and>
    (if length q < k - length acc then raw_done D tail L s' else raw_state D tail L (R + length q) s')"
  using assms(1,3)
proof (induction "raw_measure s" arbitrary: R s acc rule: less_induct)
  case less
  obtain ur dict src where s: "s = (ur, dict, src)" by (metis prod_cases3)
  define m where "m = k - length acc"
  have m: "0 < m" using less.prems(2) by (simp add: m_def)
  obtain hc data where h: "dd_rep [] hc R dict" "buffer_Cap (dd_buf dict) = L" "hc @ data = D" "br_data src = data @ tail"
    "ur_N ur = length data" "ur_eof ur \<longrightarrow> data = []" "ur_err ur = None" using less.prems(1) by (auto simp: raw_state_def s)
  obtain q dict1 where rd: "decoderDict_Read dict m = (q, dict1)" by fastforce
  note r = dd_Read [OF h(1) rd]
  have Rh: "R \<le> length hc" using dd_repD [OF h(1)] by (simp add: ring_def)
  have q: "q = take m (drop R hc)" using r(1) by simp
  have st: "raw_state D tail L (R + length q) (ur, dict1, src)"
    by (rule raw_stateI [OF r(2), of L data]) (use r(3) h in simp_all)
  have unfold: "ur_Read_from k acc s =
      (if length (acc @ q) \<ge> k then Some (acc @ q, None, ur, dict1, src)
       else case ur_fill (ur, dict1, src) of
              (Some err, ur, rest) \<Rightarrow> Some (acc @ q, Some err, ur\<lparr>ur_err := Some err\<rparr>, rest)
            | (None, s) \<Rightarrow> ur_Read_from k (acc @ q) s)"
    unfolding s by (subst ur_Read_from.simps) (simp add: rd [unfolded m_def] Let_def)
  show ?case
  proof (cases "length q = m")
    case True
    then have "take m (drop R D) = q" using q Rh h(3) by auto
    moreover have "ur_Read_from k acc s = Some (acc @ q, None, ur, dict1, src)"
      unfolding unfold using True m_def less.prems(2) by simp
    ultimately show ?thesis unfolding m_def [symmetric] Let_def using True st by auto
  next
    case False
    then have short: "length q < m" "q = drop R hc" using q by auto
    then have all: "R + length q = length hc" using Rh by simp
    have k: "\<not> length (acc @ q) \<ge> k" using short(1) by (simp add: m_def)
    have "R + length q = dd_head dict1" using r(2) all by (simp add: dd_rep_def)
    from ur_fill_raw [OF st this assms(2)] show ?thesis
    proof (elim disjE exE conjE)
      fix s1 assume f: "ur_fill (ur, dict1, src) = (None, s1)" "raw_state D tail L (R + length q) s1"
        "raw_measure s1 < raw_measure (ur, dict1, src)"
      have step: "ur_Read_from k acc s = ur_Read_from k (acc @ q) s1" unfolding unfold using k f by simp
      have "raw_measure s1 < raw_measure s" using f(3) by (simp add: s raw_measure_def)
      from less.hyps [OF this f(2), of "acc @ q"] k obtain s' where i: "let q2 = take (k - length (acc @ q)) (drop (R + length q) D) in
        ur_Read_from k (acc @ q) s1 = Some ((acc @ q) @ q2, if length q2 < k - length (acc @ q) then Some (LzIo EOF) else None, s') \<and>
        (if length q2 < k - length (acc @ q) then raw_done D tail L s' else raw_state D tail L (R + length q + length q2) s')" by (elim meta_impE exE) simp_all
      define q2 where "q2 = take (m - length q) (drop (R + length q) D)"
      have kq: "k - length (acc @ q) = m - length q" by (simp add: m_def)
      have "q = take (length q) (drop R D)" using short h(3) Rh by auto
      then have full: "take m (drop R D) = q @ q2"
        using take_add [of "length q" "m - length q" "drop R D"] short(1) unfolding q2_def by (simp add: add.commute)
      have "length q2 < m - length q \<longleftrightarrow> length (q @ q2) < m" using short(1) by auto
      with i show ?thesis unfolding step m_def [symmetric] full kq Let_def q2_def [symmetric]
        by (intro exI [of _ s']) (auto simp: add.assoc)
    next
      fix ur1 dict2 src1 assume f: "ur_fill (ur, dict1, src) = (Some (LzIo EOF), ur1, dict2, src1)" "R + length q = length D"
        "raw_state D tail L (R + length q) (ur1, dict2, src1)"
      then obtain hc' data' where d: "dd_rep [] hc' (R + length q) dict2" "buffer_Cap (dd_buf dict2) = L" "hc' @ data' = D"
        "br_data src1 = data' @ tail" by (auto simp: raw_state_def)
      have "R + length q \<le> length hc'" using dd_repD [OF d(1)] by (simp add: ring_def)
      then have "data' = []" using f(2) d(3) by auto
      then have fin: "raw_done D tail L (ur1\<lparr>ur_err := Some (LzIo EOF)\<rparr>, dict2, src1)"
        using d f(2) by (simp add: raw_done_def)
      have "take m (drop R D) = q" using f(2) short h(3) Rh all by auto
      moreover have "ur_Read_from k acc s = Some (acc @ q, Some (LzIo EOF), ur1\<lparr>ur_err := Some (LzIo EOF)\<rparr>, dict2, src1)"
        unfolding unfold using k f by simp
      ultimately show ?thesis unfolding m_def [symmetric] Let_def using short(1) fin by auto
    qed
  qed
qed

section \<open>Between two chunks\<close>

definition roomy :: "nat \<Rightarrow> Reader2 \<Rightarrow> bool" where
  "roomy cap r \<longleftrightarrow> cap \<le> buffer_Cap (dd_buf (r2_dict r)) \<and> maxMatchLen \<le> int (buffer_Cap (dd_buf (r2_dict r)))"

text \<open>After the first compressed chunk there is a decoder, in the state of the model.\<close>

definition has_state :: "chunkState \<Rightarrow> lzma_state \<Rightarrow> Reader2 \<Rightarrow> bool" where
  "has_state cs c r \<longleftrightarrow>
     (cs = Lzma_L \<or> cs = Uncompressed_U \<longrightarrow> (\<exists>d. r2_decoder r = Some d \<and> d_State d = c))"

definition coded_by :: "stream \<Rightarrow> byte list \<Rightarrow> lzma_state \<Rightarrow> bool" where
  "coded_by S h c \<longleftrightarrow> sr_before S = [] \<and> sr_hist S = h \<and> sr_T S = [] \<and> \<not> sr_marker S \<and> sr_state S = c"

text \<open>Before the chunks \<open>out\<close>; and inside the chunk before them, with \<open>R\<close> bytes delivered.\<close>

definition between :: "nat \<Rightarrow> nat \<Rightarrow> lzma_state \<Rightarrow> byte list \<Rightarrow> byte list \<Rightarrow> byte list \<Rightarrow> byte list \<Rightarrow> Reader2 \<Rightarrow> bool" where
  "between cap n s0 tail h out D r \<longleftrightarrow> (\<exists>c. chunked cap n s0 (r2_cstate r) c h out D \<and> has_state (r2_cstate r) c r \<and>
     r2_err r = None \<and> dd_rep [] h (length h) (r2_dict r) \<and> roomy cap r \<and> \<not> (r2_lr r \<and> unread r) \<and> br_data (r2_r r) = out @ tail)"

definition inside :: "nat \<Rightarrow> nat \<Rightarrow> lzma_state \<Rightarrow> byte list \<Rightarrow> byte list \<Rightarrow> byte list \<Rightarrow> byte list \<Rightarrow> nat \<Rightarrow> Reader2 \<Rightarrow> bool" where
  "inside cap n s0 tail h out D R r \<longleftrightarrow> (\<exists>c. chunked cap n s0 (r2_cstate r) c h out D \<and> r2_err r = None \<and> roomy cap r \<and>
     (r2_chunkReader r = Raw_Chunk \<and> \<not> r2_lr r \<and> has_state (r2_cstate r) c r \<and>
        (\<exists>ur. r2_ur r = Some ur \<and> raw_state h (out @ tail) (buffer_Cap (dd_buf (r2_dict r))) R (ur, r2_dict r, r2_r r)) \<or>
      r2_chunkReader r = Coded_Chunk \<and> r2_missing r = 0 \<and> br_data (r2_r r) = out @ tail \<and>
        (\<exists>d S. r2_decoder r = Some d \<and> reading S R (d\<lparr>d_Dict := r2_dict r\<rparr>) \<and> coded_by S h c \<and> sr_cap S = cap)))"

text \<open>The sizes in the headers are read back.\<close>

lemma size_word:
  assumes "0 < u" "u \<le> 2 ^ k" "k < 32"
  shows "uint (take_bit k (of_int (int u - 1) :: u32)) = int u - 1"
proof -
  have "int u \<le> 2 ^ k" using assms(2) by (metis of_nat_le_iff of_nat_numeral of_nat_power)
  moreover have "(2 :: int) ^ k \<le> 2 ^ 32" using assms(3) by (intro power_increasing) simp_all
  ultimately have "0 \<le> int u - 1" "int u - 1 < 2 ^ k" "int u - 1 < 2 ^ 32" using assms(1) by linarith+
  then have "(int u - 1) mod 2 ^ 32 = int u - 1" "(int u - 1) mod 2 ^ k = int u - 1" by (intro mod_pos_pos_trivial; simp)+
  then show ?thesis by (simp only: unsigned_take_bit_eq uint_word_of_int) (simp add: take_bit_eq_mod)
qed

lemma raw_carried:
  assumes "ct = cU \<or> ct = cUD" "0 < u" "u \<le> 2 ^ 16"
  shows "uint (ch_uncompressed (carried (raw_header ct u))) + 1 = int u" "ch_ctype (carried (raw_header ct u)) = ct"
proof -
  have "ch_uncompressed (carried (raw_header ct u)) = take_bit 16 (of_int (int u - 1))"
    using assms(1) by (auto simp: carried_def raw_header_def uncompressed_def Let_def)
  then show "uint (ch_uncompressed (carried (raw_header ct u))) + 1 = int u" using size_word [OF assms(2,3)] by simp
  show "ch_ctype (carried (raw_header ct u)) = ct" by (simp add: carried_def raw_header_def Let_def)
qed

lemma coded_carried:
  assumes "ct \<noteq> cEOS" "\<not> uncompressed ct" "0 < u" "u \<le> 2 ^ 21" "0 < c" "c \<le> 2 ^ 16"
    and h_def: "h = carried (coded_header ct p u c)"
  shows "uint (ch_uncompressed h) + 1 = int u" "unat (ch_compressed h) + 1 = c" "ch_ctype h = ct"
    "\<not> no_props ct \<Longrightarrow> ch_props h = p"
proof -
  have "ch_uncompressed h = take_bit 21 (of_int (int u - 1))"
    using assms(1,2) by (simp add: h_def carried_def coded_header_def Let_def)
  then show "uint (ch_uncompressed h) + 1 = int u" using size_word [OF assms(3,4)] by simp
  have "(int c - 1) mod 2 ^ 16 = int c - 1" using assms(5,6) by (simp add: mod_pos_pos_trivial)
  then have "uint (of_int (int c - 1) :: u16) = int c - 1" unfolding uint_word_of_int by simp
  then have "unat (of_int (int c - 1) :: u16) = nat (int c - 1)" by (simp only: unat_eq_nat_uint)
  moreover have "ch_compressed h = of_int (int c - 1)"
    using assms(1,2) by (simp add: h_def carried_def coded_header_def Let_def)
  ultimately show "unat (ch_compressed h) + 1 = c" using assms(5) by simp
  show "ch_ctype h = ct" "\<not> no_props ct \<Longrightarrow> ch_props h = p" by (simp_all add: h_def carried_def coded_header_def Let_def)
qed

lemma startChunk_header:
  assumes "\<not> (r2_lr r \<and> unread r)" "chunk_MarshalBinary h = Inr hb" "br_data (r2_r r) = hb @ rest"
    "chunkState_next (r2_cstate r) (ch_ctype (carried h)) = Inr cs" "cs \<noteq> Stop_T"
  shows "startChunk r = open_chunk (carried h)
    (r\<lparr>r2_lr := False, r2_chunkReader := No_Chunk, r2_r := (r2_r r)\<lparr>br_data := rest\<rparr>, r2_cstate := cs\<rparr>)"
  unfolding startChunk_def if_not_P [OF assms(1)]
  using assms(4,5) readChunkHeader_append [OF chunk_Unmarshal_Marshal(2) [OF assms(2)] assms(3)]
  by (simp add: Let_def)

lemma next_not_stop: "chunkState_next cs ct = Inr cs' \<Longrightarrow> ct \<noteq> cEOS \<Longrightarrow> cs' \<noteq> Stop_T"
  by (cases cs; cases ct) auto

lemma start_raw:
  assumes b: "\<not> (r2_lr r \<and> unread r)" "br_data (r2_r r) = (hb @ data @ out) @ tail" "r2_err r = None" "roomy cap r"
    "dd_rep [] h (length h) (r2_dict r)" "has_state (r2_cstate r) c r"
    and c: "chunked cap n s0 cs' c (h @ data) out D" "ct = (if r2_cstate r = Start_S then cUD else cU)"
    "chunkState_next (r2_cstate r) ct = Inr cs'" "r2_cstate r = Start_S \<Longrightarrow> h = []" "0 < length data" "length data \<le> 2 ^ 16"
    "chunk_MarshalBinary (raw_header ct (length data)) = Inr hb"
  shows "\<exists>r'. startChunk r = (None, r') \<and> inside cap n s0 tail (h @ data) out D (length h) r'"
proof -
  have ct: "ct = cU \<or> ct = cUD" using c(2) by auto
  note h = raw_carried [OF ct c(5,6)]
  define r1 where "r1 = r\<lparr>r2_lr := False, r2_chunkReader := No_Chunk, r2_r := (r2_r r)\<lparr>br_data := data @ out @ tail\<rparr>, r2_cstate := cs'\<rparr>"
  define dict where "dict = (if ct = cUD then decoderDict_Reset (r2_dict r) else r2_dict r)"
  define ur where "ur = (case r2_ur r of None \<Rightarrow> newUncompressedReader (length data) | Some ur \<Rightarrow> ur_Reopen (length data) ur)"
  define r2 where "r2 = r1\<lparr>r2_dict := dict, r2_ur := Some ur, r2_chunkReader := Raw_Chunk\<rparr>"
  have "cs' \<noteq> Stop_T" using next_not_stop [OF c(3)] ct by auto
  then have "startChunk r = open_chunk (carried (raw_header ct (length data))) r1"
    unfolding r1_def using startChunk_header [OF b(1) c(7), of "data @ out @ tail" cs'] b(2) c(3) h(2) by simp
  also have "\<dots> = (None, r2)"
    using ct h by (auto simp: open_chunk_def uncompressed_def Let_def r2_def r1_def dict_def ur_def split: option.split)
  finally have start: "startChunk r = (None, r2)" .
  have dict: "dd_rep [] h (length h) dict" "buffer_Cap (dd_buf dict) = buffer_Cap (dd_buf (r2_dict r))"
    using b(5) dd_reset [OF b(5)] c(2,4) by (auto simp: dict_def decoderDict_Reset_def)
  have ur: "ur_N ur = length data" "\<not> ur_eof ur" "ur_err ur = None"
    by (auto simp: ur_def newUncompressedReader_def ur_Reopen_def split: option.splits)
  have "raw_state (h @ data) (out @ tail) (buffer_Cap (dd_buf dict)) (length h) (ur, dict, r2_r r1)"
    by (rule raw_stateI [OF dict(1), of _ data]) (use ur in \<open>simp_all add: r1_def\<close>)
  moreover have "has_state cs' c r2"
    using b(6) c(2,3) ct by (cases "r2_cstate r") (auto simp: has_state_def r2_def r1_def split: if_splits)
  ultimately have "inside cap n s0 tail (h @ data) out D (length h) r2"
    unfolding inside_def using c(1) b(3,4) dict(2)
    by (intro exI [of _ c]) (auto simp: r2_def r1_def roomy_def)
  with start show ?thesis by blast
qed

lemma decoder_for_ok:
  assumes "newRangeDecoder br = (Inr rd, x)"
    and "case r2_decoder r of None \<Rightarrow> newState (ch_props ch) = Inr c
      | Some d \<Rightarrow> ch_ctype ch = cL \<and> d_State d = c \<or> (ch_ctype ch = cLRN \<or> ch_ctype ch = cLRND) \<and> newState (ch_props ch) = Inr c"
  shows "\<exists>d. decoder_for br ch sz r = Inr d \<and> d_Dict d = r2_dict r \<and> d_State d = c \<and> d_rd d = rd \<and>
    d_start d = dd_head (r2_dict r) \<and> d_size d = sz \<and> \<not> d_eos d"
  using assms by (auto simp: decoder_for_def newDecoder_def decoder_Reopen_def split: option.splits)

lemma start_coded:
  assumes s0: "newState (st_Properties s0) = Inr s0"
    and b: "\<not> (r2_lr r \<and> unread r)" "br_data (r2_r r) = (hb @ F @ out) @ tail" "r2_err r = None" "roomy cap r"
    "dd_rep [] h (length h) (r2_dict r)" "has_state (r2_cstate r) c r"
    and c: "chunked cap n s0 cs' c' h' out D" "chunkState_next (r2_cstate r) (defaultChunkType (r2_cstate r)) = Inr cs'"
    "r2_cstate r = Start_S \<Longrightarrow> h = []" "r2_cstate r = Start_S \<or> r2_cstate r = Reset_R \<Longrightarrow> c = s0"
    "coded_chunk cap n h c h' c' F" "state_ok n c" "reps_ok cap (rep c)" "length h' - length h \<le> 2 ^ 21" "length F \<le> 2 ^ 16"
    "chunk_MarshalBinary (coded_header (defaultChunkType (r2_cstate r)) (st_Properties s0) (length h' - length h) (length F)) = Inr hb"
  shows "\<exists>r'. startChunk r = (None, r') \<and> inside cap n s0 tail h' out D (length h) r'"
proof -
  define ct where "ct = defaultChunkType (r2_cstate r)"
  define u where "u = length h' - length h"
  define ch where "ch = carried (coded_header ct (st_Properties s0) u (length F))"
  note cc = coded_chunkD [OF c(5-7)]
  have not_stop: "r2_cstate r \<noteq> Stop_T" using c(2) by (cases "r2_cstate r") auto
  then have ct: "ct \<noteq> cEOS" "\<not> uncompressed ct" by (cases "r2_cstate r"; simp add: ct_def uncompressed_def)+
  have u: "0 < u" "u \<le> 2 ^ 21" "0 < length F" using cc(2,3) c(8) by (auto simp: u_def)
  note hdr = coded_carried [OF ct u c(9) ch_def]
  obtain margin coder ops where S: "ending \<lparr>sr_cap = cap, sr_lits = n, sr_margin = margin, sr_pre = [], sr_F = F, sr_T = [],
       sr_marker = False, sr_before = [], sr_hist = h', sr_state = c', sr_coder = coder\<rparr>"
    "coding cap margin h c (newRangeEncoder w2_limited) ops h' c' coder" "ops \<noteq> []" using c(5) by (auto simp: coded_chunk_def)
  define S0 where "S0 = \<lparr>sr_cap = cap, sr_lits = n, sr_margin = margin, sr_pre = [], sr_F = F, sr_T = [],
       sr_marker = False, sr_before = [], sr_hist = h', sr_state = c', sr_coder = coder\<rparr>"
  obtain rd where rd: "newRangeDecoder \<lparr>br_data = F, br_end = EOF\<rparr> = (Inr rd, rd_br rd)" "sync [] F [] rd (newRangeEncoder w2_limited)"
    using cc(5) by blast
  define r1 where "r1 = r\<lparr>r2_lr := False, r2_chunkReader := No_Chunk, r2_r := (r2_r r)\<lparr>br_data := F @ out @ tail\<rparr>, r2_cstate := cs'\<rparr>"
  define dict where "dict = (if ct = cLRND then decoderDict_Reset (r2_dict r) else r2_dict r)"
  define r2 where "r2 = r1\<lparr>r2_dict := dict, r2_lr := True, r2_missing := 0,
    r2_window := length F, r2_r := (r2_r r)\<lparr>br_data := out @ tail\<rparr>\<rparr>"
  have "startChunk r = open_chunk ch r1"
    unfolding r1_def ch_def using startChunk_header [OF b(1) c(10), of "F @ out @ tail" cs'] b(2) c(2) hdr(3)
      next_not_stop [OF c(2)] ct(1) by (simp add: ch_def ct_def u_def)
  have state: "case r2_decoder r2 of None \<Rightarrow> newState (ch_props ch) = Inr c
      | Some d \<Rightarrow> ch_ctype ch = cL \<and> d_State d = c \<or> (ch_ctype ch = cLRN \<or> ch_ctype ch = cLRND) \<and> newState (ch_props ch) = Inr c"
  proof (cases "r2_cstate r = Start_S \<or> r2_cstate r = Reset_R")
    case True
    then have "ct = cLRN \<or> ct = cLRND" by (auto simp: ct_def)
    moreover from this have "ch_props ch = st_Properties s0" using hdr(4) by (auto simp: no_props_def uncompressed_def)
    ultimately show ?thesis using True c(4) s0 hdr(3) by (auto split: option.splits)
  next
    case False
    then have "ct = cL" "\<exists>d. r2_decoder r = Some d \<and> d_State d = c"
      using not_stop b(6) by (cases "r2_cstate r"; simp add: ct_def has_state_def)+
    then show ?thesis using hdr(3) by (auto simp: r2_def r1_def)
  qed
  obtain d where d: "decoder_for \<lparr>br_data = F, br_end = EOF\<rparr> ch (int u) r2 = Inr d" "d_Dict d = dict" "d_State d = c" "d_rd d = rd"
    "d_start d = dd_head dict" "d_size d = int u" "\<not> d_eos d"
    using decoder_for_ok [OF rd(1) state, of "int u"] by (auto simp: r2_def)
  have "open_chunk ch r1 = (None, r2\<lparr>r2_decoder := Some d, r2_chunkReader := Coded_Chunk\<rparr>)"
    using d(1) ct hdr(1-3) by (auto simp: open_chunk_def Let_def window_def r2_def r1_def dict_def uncompressed_def)
  with \<open>startChunk r = open_chunk ch r1\<close> have start: "startChunk r = (None, r2\<lparr>r2_decoder := Some d, r2_chunkReader := Coded_Chunk\<rparr>)" by simp
  have dict: "dd_rep [] h (length h) dict" "buffer_Cap (dd_buf dict) = buffer_Cap (dd_buf (r2_dict r))"
    using b(5) dd_reset [OF b(5)] c(3) not_stop by (cases "r2_cstate r"; auto simp: dict_def ct_def decoderDict_Reset_def)+
  have "live S0 ops h (length h) d"
    unfolding live_def
  proof (intro conjI)
    show "\<exists>e. coding (sr_cap S0) (sr_margin S0) h (d_State d) e ops (sr_hist S0) (sr_state S0) (sr_coder S0) \<and>
        enc_ready (sr_pre S0) e \<and> synced S0 (d_rd d) e"
      using S(2) rd(2) new_ready(1) [of w2_limited] d(3,4) by (auto simp: S0_def synced_def w2_limited_def)
  qed (use d dict c(6,7) S(3) b(4) cc(2) u_def in \<open>auto simp: S0_def roomy_def dd_rep_def\<close>)
  then have "reading S0 (length h) d" using S(1) by (auto simp: reading_def S0_def)
  moreover have "d\<lparr>d_Dict := dict\<rparr> = d" using d(2) by simp
  ultimately have "inside cap n s0 tail h' out D (length h) (r2\<lparr>r2_decoder := Some d, r2_chunkReader := Coded_Chunk\<rparr>)"
    unfolding inside_def using c(1) b(3,4) dict(2)
    by (intro exI [of _ c']) (auto simp: r2_def r1_def roomy_def coded_by_def S0_def)
  with start show ?thesis by blast
qed

lemma start_between:
  assumes s0: "newState (st_Properties s0) = Inr s0" and b: "between cap n s0 tail h out D r"
  shows "(\<exists>r'. startChunk r = (Some (LzIo EOF), r') \<and> D = h \<and> EOS r' \<and> \<not> r2_lr r' \<and> br_data (r2_r r') = tail) \<or>
    (\<exists>r' h' out'. startChunk r = (None, r') \<and> inside cap n s0 tail h' out' D (length h) r' \<and> length out' < length out)"
proof -
  obtain c where c: "chunked cap n s0 (r2_cstate r) c h out D" "has_state (r2_cstate r) c r"
     "r2_err r = None" "dd_rep [] h (length h) (r2_dict r)" "roomy cap r" "\<not> (r2_lr r \<and> unread r)" "br_data (r2_r r) = out @ tail"
    using b by (auto simp: between_def)
  from c(1) show ?thesis
  proof cases
    case chunked_stop
    have "chunk_UnmarshalBinary [0] = Inr \<lparr>ch_ctype = cEOS, ch_uncompressed = 0, ch_compressed = 0, ch_props = noProps\<rparr>" by code_simp
    then have "readChunkHeader (r2_r r) = (Inr \<lparr>ch_ctype = cEOS, ch_uncompressed = 0, ch_compressed = 0, ch_props = noProps\<rparr>,
        (r2_r r)\<lparr>br_data := tail\<rparr>)"
      using readChunkHeader_append [of "[0]" _ "r2_r r" tail] c(7) chunked_stop by simp
    moreover have "chunkState_next (r2_cstate r) cEOS = Inr Stop_T" using chunked_stop by (cases "r2_cstate r") auto
    ultimately show ?thesis using c(6) chunked_stop by (auto simp: startChunk_def EOS_def)
  next
    case (chunked_raw cs' data out1 ct hb)
    have "0 < length hb" using chunk_Unmarshal_Marshal(1) [OF chunked_raw(8)] by (cases ct) (auto simp: raw_header_def uncompressedHeaderLen_def)
    moreover obtain r' where "startChunk r = (None, r')" "inside cap n s0 tail (h @ data) out1 D (length h) r'"
      using start_raw [OF c(6) c(7) [unfolded chunked_raw(1)] c(3,5,4,2) chunked_raw(2-8)] by blast
    moreover have "length out1 < length out" using \<open>0 < length hb\<close> chunked_raw(1) by simp
    ultimately show ?thesis by blast
  next
    case (chunked_coded cs' c' h' out1 F hb)
    have "5 \<le> length F" using coded_chunkD(3) chunked_coded by blast
    then have "length out1 < length out" using chunked_coded(1) by (cases F) auto
    moreover obtain r' where "startChunk r = (None, r')" "inside cap n s0 tail h' out1 D (length h) r'"
      using start_coded [OF s0 c(6) c(7) [unfolded chunked_coded(1)] c(3,5,4,2) chunked_coded(2-11)] by blast
    ultimately show ?thesis by blast
  qed
qed

section \<open>Reading\<close>

lemma reading_bounds:
  assumes "reading S R d"
  shows "R \<le> length (all_bytes S)" "sr_cap S \<le> buffer_Cap (dd_buf (d_Dict d))" "maxMatchLen \<le> int (buffer_Cap (dd_buf (d_Dict d)))"
proof -
  obtain q dict where "decoderDict_Read (d_Dict d) 0 = (q, dict)" by fastforce
  from reading_Read [OF assms this] show "R \<le> length (all_bytes S)" by simp
  show "sr_cap S \<le> buffer_Cap (dd_buf (d_Dict d))" "maxMatchLen \<le> int (buffer_Cap (dd_buf (d_Dict d)))"
    using assms by (auto simp: reading_def finished_def live_def)
qed

lemma reading_eos: "reading S R d \<Longrightarrow> d_eos d \<Longrightarrow> finished S R d"
  by (auto simp: reading_def live_def)

definition after_read :: "nat \<Rightarrow> nat \<Rightarrow> lzma_state \<Rightarrow> byte list \<Rightarrow> byte list \<Rightarrow> byte list \<Rightarrow> byte list \<Rightarrow> nat \<Rightarrow> nat \<Rightarrow> Reader2 \<Rightarrow> bool" where
  "after_read cap n s0 tail h out D R k r \<longleftrightarrow>
     (if length h < R + k then between cap n s0 tail h out D r else inside cap n s0 tail h out D (R + k) r)"

lemma raw_chunk_Read:
  assumes c: "chunked cap n s0 (r2_cstate r) c h out D" "r2_err r = None" "roomy cap r"
    and raw: "r2_chunkReader r = Raw_Chunk" "\<not> r2_lr r" "has_state (r2_cstate r) c r" "r2_ur r = Some ur"
      "raw_state h (out @ tail) (buffer_Cap (dd_buf (r2_dict r))) R (ur, r2_dict r, r2_r r)" and k: "0 < k"
  shows "\<exists>r'. chunk_Read k r = Some (take k (drop R h), if length h < R + k then Some (LzIo EOF) else None, r') \<and>
    after_read cap n s0 tail h out D R k r'"
proof -
  define L where "L = buffer_Cap (dd_buf (r2_dict r))"
  define q where "q = take k (drop R h)"
  have L: "1 \<le> L" using c(3) by (simp add: roomy_def L_def maxMatchLen_def minMatchLen_def)
  have ne: "ur_err ur = None" using raw(5) by (auto simp: raw_state_def)
  have R: "R \<le> length h"
  proof -
    obtain hc data where "dd_rep [] hc R (r2_dict r)" "hc @ data = h" using raw(5) by (auto simp: raw_state_def)
    moreover from this have "R \<le> length hc" using dd_repD [of "[]" hc R "r2_dict r"] by (simp add: ring_def)
    ultimately show ?thesis by auto
  qed
  have lq: "length q < k \<longleftrightarrow> length h < R + k" using R k by (auto simp: q_def)
  have len: "length ([] :: byte list) < k" using k by simp
  from ur_Read_from_raw [OF raw(5) [folded L_def] L len] obtain ur' dict src where
    u: "ur_Read_from k [] (ur, r2_dict r, r2_r r) = Some (q, if length h < R + k then Some (LzIo EOF) else None, ur', dict, src)"
      "if length h < R + k then raw_done h (out @ tail) L (ur', dict, src) else raw_state h (out @ tail) L (R + length q) (ur', dict, src)"
    unfolding Let_def append_Nil list.size(3) diff_zero q_def [symmetric] lq by (metis prod_cases3)
  define r' where "r' = r\<lparr>r2_ur := Some ur', r2_dict := dict, r2_r := src\<rparr>"
  have "chunk_Read k r = Some (q, if length h < R + k then Some (LzIo EOF) else None, r')"
    using raw(1,4) u(1) ne by (simp add: chunk_Read_def ur_Read_def r'_def)
  moreover have "after_read cap n s0 tail h out D R k r'"
  proof (cases "length h < R + k")
    case True
    then have "dd_rep [] h (length h) dict" "buffer_Cap (dd_buf dict) = L" "br_data src = out @ tail" using u(2) by (simp_all add: raw_done_def)
    then show ?thesis using True c raw(2,3)
      by (auto simp: after_read_def between_def r'_def roomy_def has_state_def L_def)
  next
    case False
    then have "length q = k" using lq by (simp add: q_def)
    then have st: "raw_state h (out @ tail) L (R + k) (ur', dict, src)" using u(2) False by simp
    then have "buffer_Cap (dd_buf dict) = L" by (auto simp: raw_state_def)
    then show ?thesis using False c raw(1-3) st
      by (auto simp: after_read_def inside_def r'_def roomy_def has_state_def L_def)
  qed
  ultimately show ?thesis unfolding q_def by blast
qed

lemma coded_chunk_Read:
  assumes c: "chunked cap n s0 (r2_cstate r) c h out D" "r2_err r = None"
    and coded: "r2_chunkReader r = Coded_Chunk" "r2_missing r = 0" "br_data (r2_r r) = out @ tail" "r2_decoder r = Some d"
      "reading S R (d\<lparr>d_Dict := r2_dict r\<rparr>)" "coded_by S h c" "sr_cap S = cap" and k: "0 < k"
  shows "\<exists>r'. chunk_Read k r = Some (take k (drop R h), if length h < R + k then Some (LzIo EOF) else None, r') \<and>
    after_read cap n s0 tail h out D R k r'"
proof -
  have all: "all_bytes S = h" using coded(6) by (simp add: all_bytes_def coded_by_def)
  have R: "R \<le> length h" using reading_bounds(1) [OF coded(5)] all by simp
  have lq: "length (drop R h) < k \<longleftrightarrow> length h < R + k" using R k by auto
  obtain d' where d': "decoder_Read k (d\<lparr>d_Dict := r2_dict r\<rparr>) = Some (take k (drop R h), if length h < R + k then Some (LzIo EOF) else None, d')"
    "reading S (R + length (take k (drop R h))) d'"
    using Read_reading [OF coded(5) k, unfolded all lq] by blast
  note b = reading_bounds(2,3) [OF d'(2)]
  define r' where "r' = r\<lparr>r2_decoder := Some d', r2_dict := d_Dict d'\<rparr>"
  have "chunk_Read k r = Some (take k (drop R h), if length h < R + k then Some (LzIo EOF) else None, r')"
    using coded(1,4) d'(1) by (simp add: chunk_Read_def r'_def)
  moreover have "after_read cap n s0 tail h out D R k r'"
  proof (cases "length h < R + k")
    case True
    then have "d_eos d'" using Read_EOF d'(1) by simp
    then have "finished S (length h) d'" using reading_eos [OF d'(2)] R True by (simp add: min_def split: if_splits)
    then have f: "dd_rep [] h (length h) (d_Dict d')" "br_data (rd_br (d_rd d')) = []" "d_State d' = c"
      using coded(6) by (auto simp: finished_def coded_by_def)
    then show ?thesis using True c b coded(2,3,7)
      by (auto simp: after_read_def between_def r'_def roomy_def has_state_def unread_def)
  next
    case False
    moreover from this have "length (take k (drop R h)) = k" by simp
    then have "reading S (R + k) d'" using d'(2) by (simp only:)
    moreover have "d'\<lparr>d_Dict := d_Dict d'\<rparr> = d'" by simp
    ultimately show ?thesis using c b coded
      by (auto simp: after_read_def inside_def r'_def roomy_def)
  qed
  ultimately show ?thesis by blast
qed

lemma chunk_Read_inside:
  assumes "inside cap n s0 tail h out D R r" "0 < k"
  shows "\<exists>r'. chunk_Read k r = Some (take k (drop R h), if length h < R + k then Some (LzIo EOF) else None, r') \<and>
    after_read cap n s0 tail h out D R k r'"
  using assms(1) unfolding inside_def
  by (elim exE conjE disjE) (rule raw_chunk_Read coded_chunk_Read; (assumption | rule assms(2)))+

lemma inside_bounds: "inside cap n s0 tail h out D R r \<Longrightarrow> R \<le> length h \<and> take (length h) D = h"
proof -
  assume i: "inside cap n s0 tail h out D R r"
  have "R \<le> length h"
  proof (rule ccontr)
    assume "\<not> R \<le> length h"
    have "\<exists>hc data. dd_rep [] hc R dict \<and> hc @ data = h" if "raw_state h (out @ tail) L R (ur, dict, src)" for L ur dict src
      using that by (auto simp: raw_state_def)
    moreover have "R \<le> length (hc @ data)" if "dd_rep [] hc R dict" for hc data :: "byte list" and dict
      using dd_repD [OF that] by (simp add: ring_def)
    moreover have "R \<le> length h" if "reading S R d" "coded_by S h c" for S d c
      using reading_bounds(1) [OF that(1)] that(2) by (simp add: all_bytes_def coded_by_def)
    ultimately show False using i \<open>\<not> R \<le> length h\<close> unfolding inside_def by metis
  qed
  moreover have "take (length h) D = h" using i chunked_prefix by (auto simp: inside_def)
  ultimately show ?thesis by simp
qed

text \<open>A reader of the sequence: the data up to \<open>R\<close> has been delivered.\<close>

definition serving :: "nat \<Rightarrow> nat \<Rightarrow> lzma_state \<Rightarrow> byte list \<Rightarrow> byte list \<Rightarrow> nat \<Rightarrow> Reader2 \<Rightarrow> bool" where
  "serving cap n s0 tail D R r \<longleftrightarrow>
     (\<exists>h out. inside cap n s0 tail h out D R r) \<or> r2_err r = Some (LzIo EOF) \<and> EOS r \<and> R = length D \<and> \<not> r2_lr r \<and> br_data (r2_r r) = tail"

lemma Read_from_inside:
  assumes s0: "newState (st_Properties s0) = Inr s0" and "inside cap n s0 tail h out D R r" "length acc \<le> k"
  shows "\<exists>r'. let q = take (k - length acc) (drop R D) in
    Reader2_Read_from k acc r = Some (acc @ q, if length q < k - length acc then Some (LzIo EOF) else None, r') \<and>
    serving cap n s0 tail D (R + length q) r' \<and> (length q < k - length acc \<longrightarrow> EOS r')"
  using assms(2,3)
proof (induction "length out" arbitrary: h out R r acc rule: less_induct)
  case less
  define m where "m = k - length acc"
  show ?case
  proof (cases "m = 0")
    case True
    then have "Reader2_Read_from k acc r = Some (acc, None, r)"
      by (subst Reader2_Read_from.simps) (simp add: m_def)
    then show ?thesis using True less.prems(1) unfolding m_def [symmetric] by (auto simp: serving_def)
  next
    case False
    then have m: "0 < m" by simp
    note b = inside_bounds [OF less.prems(1)]
    from chunk_Read_inside [OF less.prems(1) m] obtain r1 where
      c: "chunk_Read m r = Some (take m (drop R h), if length h < R + m then Some (LzIo EOF) else None, r1)"
        "after_read cap n s0 tail h out D R m r1" by blast
    have hD: "h = take (length h) D" using b by simp
    have unfold: "Reader2_Read_from k acc r =
        (let acc = acc @ take m (drop R h) in
         if length h < R + m
         then (case startChunk r1 of (None, r) \<Rightarrow> Reader2_Read_from k acc r | (Some err, r) \<Rightarrow> Some (acc, Some err, r\<lparr>r2_err := Some err\<rparr>))
         else if take m (drop R h) = [] then Some (acc, Some errNoData, r1\<lparr>r2_err := Some errNoData\<rparr>)
         else Reader2_Read_from k acc r1)"
      using m by (subst Reader2_Read_from.simps) (auto simp: c(1) [unfolded m_def] m_def Let_def)
    show ?thesis
    proof (cases "length h < R + m")
      case False
      have "min (length h) (R + m) = R + m" using False by simp
      then have q: "take m (drop R D) = take m (drop R h)"
        by (subst hD) (simp add: drop_take take_take)
      have lq: "length (take m (drop R h)) = m" using False by simp
      then have ne: "take m (drop R h) \<noteq> []" using m by auto
      have "Reader2_Read_from k (acc @ take m (drop R h)) r1 = Some (acc @ take m (drop R h), None, r1)"
      proof -
        have "k \<le> length (acc @ take m (drop R h))" using lq less.prems(2) by (simp add: m_def)
        then show ?thesis by (subst Reader2_Read_from.simps) (rule if_P)
      qed
      then have "Reader2_Read_from k acc r = Some (acc @ take m (drop R h), None, r1)"
        unfolding unfold using False ne by (simp add: Let_def)
      then show ?thesis using c(2) False lq unfolding m_def [symmetric] q Let_def
        by (intro exI [of _ r1]) (auto simp: after_read_def serving_def)
    next
      case True
      define q1 where "q1 = take m (drop R h)"
      have q1: "q1 = drop R h" "R + length q1 = length h" "length q1 < m" using True b m by (auto simp: q1_def)
      have bt: "between cap n s0 tail h out D r1" using c(2) True by (simp add: after_read_def)
      have qD: "drop R D = q1 @ drop (length h) D" using q1 b hD by (metis add.commute append_take_drop_id drop_drop drop_take take_drop)
      from start_between [OF s0 bt] show ?thesis
      proof (elim disjE exE conjE)
        fix r2 assume e: "startChunk r1 = (Some (LzIo EOF), r2)" "D = h" "EOS r2" "\<not> r2_lr r2" "br_data (r2_r r2) = tail"
        then have "Reader2_Read_from k acc r = Some (acc @ q1, Some (LzIo EOF), r2\<lparr>r2_err := Some (LzIo EOF)\<rparr>)"
          unfolding unfold using True by (simp add: Let_def q1_def)
        moreover have "take m (drop R D) = q1" using e(2) by (simp add: q1_def)
        ultimately show ?thesis using q1 e unfolding m_def [symmetric] Let_def
          by (intro exI [of _ "r2\<lparr>r2_err := Some (LzIo EOF)\<rparr>"]) (simp add: serving_def EOS_def)
      next
        fix r2 h' out' assume s: "startChunk r1 = (None, r2)" "inside cap n s0 tail h' out' D (length h) r2" "length out' < length out"
        then have step: "Reader2_Read_from k acc r = Reader2_Read_from k (acc @ q1) r2"
          unfolding unfold using True by (simp add: Let_def q1_def)
        have "length (acc @ q1) \<le> k" using q1(3) by (simp add: m_def)
        from less.hyps [OF s(3,2) this] obtain r' where i: "let q = take (k - length (acc @ q1)) (drop (length h) D) in
            Reader2_Read_from k (acc @ q1) r2 = Some ((acc @ q1) @ q, if length q < k - length (acc @ q1) then Some (LzIo EOF) else None, r') \<and>
            serving cap n s0 tail D (length h + length q) r' \<and> (length q < k - length (acc @ q1) \<longrightarrow> EOS r')" by blast
        define q2 where "q2 = take (m - length q1) (drop (length h) D)"
        have kq: "k - length (acc @ q1) = m - length q1" by (simp add: m_def)
        have full: "take m (drop R D) = q1 @ q2" using q1(3) unfolding qD q2_def by simp
        have "length q2 < m - length q1 \<longleftrightarrow> length (q1 @ q2) < m" using q1(3) by auto
        with i q1(2) show ?thesis unfolding step m_def [symmetric] full kq Let_def q2_def [symmetric]
          by (intro exI [of _ r']) (auto simp: add.assoc [symmetric])
      qed
    qed
  qed
qed

lemma Read2_serving:
  assumes "newState (st_Properties s0) = Inr s0" "serving cap n s0 tail D R r" "0 < k"
  shows "\<exists>r'. Reader2_Read k r = Some (take k (drop R D), if length (drop R D) < k then Some (LzIo EOF) else None, r') \<and>
    serving cap n s0 tail D (R + length (take k (drop R D))) r' \<and> (length (drop R D) < k \<longrightarrow> EOS r')"
proof (cases "\<exists>h out. inside cap n s0 tail h out D R r")
  case True
  then obtain h out where i: "inside cap n s0 tail h out D R r" by blast
  have "length (take k (drop R D)) < k \<longleftrightarrow> length (drop R D) < k" by auto
  moreover have "r2_err r = None" using i by (auto simp: inside_def)
  ultimately show ?thesis using Read_from_inside [OF assms(1) i, of "[]" k]
    by (auto simp: Let_def Reader2_Read_def)
next
  case False
  then have "r2_err r = Some (LzIo EOF)" "EOS r" "R = length D" using assms(2) by (simp_all add: serving_def)
  then show ?thesis using assms(2,3) by (simp add: Reader2_Read_def)
qed

end
