(* ===== verification/Lzma2WriteProofs.thy ===== *)
theory Lzma2WriteProofs
  imports LzmaFrame Lzma2ReadProofs
begin

text \<open>
  The chunks that \<open>Writer2\<close> makes. An encoder stopped by the limit of its buffer has coded a whole
  number of operations, or it cannot be closed; the bytes a chunk leaves in the dictionary go into the next one.
\<close>

section \<open>The dictionary\<close>

lemma ed_CopyN:
  assumes r: "ed_rep w R d" and u: "0 < u" "u \<le> encoderDict_Len d"
  shows "encoderDict_CopyN d (int u) = (take u (drop (R - u) w), None)"
proof -
  define L where "L = Suc (buffer_Cap (ed_buf d))"
  define a where "a = R - u"
  note ring = ed_repD [OF r, folded L_def]
  have L: "0 < L" "length (b_data (ed_buf d)) = L" "b_rear (ed_buf d) = R mod L" using ring by (auto simp: ring_def)
  have b: "u \<le> R" "R \<le> length w" "u < L" "length w \<le> a + L" "R = a + u"
    using u(2) ed_Len [OF r] ed_bounds [OF r] by (auto simp: a_def L_def)
  have fwd: "R mod L = (if a mod L + u < L then a mod L + u else a mod L + u - L)" using mod_add_small [OF b(3)] b(5) by simp
  have aL: "a mod L < L" using L(1) by simp
  show ?thesis
  proof (cases "a mod L + u < L")
    case True
    then have "take u (drop (a mod L) (b_data (ed_buf d))) = take u (drop a w)"
      by (intro ring_slice [OF ring]) (use b in auto)
    moreover have "b_rear (ed_buf d) = a mod L + u" using True fwd L(3) by simp
    ultimately show ?thesis using u by (simp add: encoderDict_CopyN_def Let_def a_def [symmetric])
  next
    case False
    define m where "m = L - a mod L"
    have m: "m \<le> u" "0 < m" "R mod L = u - m" "a mod L + m = L" using False fwd aL b(3) by (auto simp: m_def)
    have "(a + m) mod L = (a mod L + m) mod L" by (simp add: mod_add_left_eq)
    then have am: "(a + m) mod L = 0" using m(4) by simp
    have 1: "take m (drop (a mod L) (b_data (ed_buf d))) = take m (drop a w)"
      by (rule ring_slice [OF ring]) (use b m in auto)
    have 2: "take (u - m) (drop ((a + m) mod L) (b_data (ed_buf d))) = take (u - m) (drop (a + m) w)"
      by (rule ring_slice [OF ring]) (use b m am in auto)
    have "drop (a mod L) (b_data (ed_buf d)) @ take (R mod L) (b_data (ed_buf d)) = take u (drop a w)"
      using 1 2 am m L(2) take_add [of m "u - m" "drop a w"] by (simp add: add.commute)
    moreover have "int (R mod L) - int u = int (a mod L) - int L" using m by simp
    ultimately show ?thesis using u b(1) L aL by (simp add: encoderDict_CopyN_def Let_def a_def [symmetric])
  qed
qed

lemma ed_CopyN_error: "encoderDict_CopyN d (int u) = (p, None) \<Longrightarrow> 0 < u \<Longrightarrow> u \<le> encoderDict_Len d"
  by (auto simp: encoderDict_CopyN_def Let_def split: if_splits)

section \<open>The encoder at the limit\<close>

text \<open>An encoder that the limit has stopped inside of an operation.\<close>

definition cut_off :: "nat \<Rightarrow> 'm encoder \<Rightarrow> bool" where
  "cut_off n e \<longleftrightarrow> spent (e_re e) \<and> 0 < encoderDict_Buffered (e_dict e) \<and> n \<le> Pos (e_dict e)"

text \<open>The writer of chunks over a matcher that keeps the contract.\<close>

locale chunk_writer = match_finder mt inv
  for mt :: "'m matcher" and inv :: "nat \<Rightarrow> nat \<Rightarrow> 'm \<Rightarrow> bool"
begin

lemma compress_step_limit:
  assumes e: "encoding c0 e0 h0 R w e" "1 \<le> re_cacheLen e0" and R: "R < length w" and s: "compress_step mt e = (Some ErrLimit, e')"
  shows "encoding c0 e0 h0 R w e' \<or> cut_off (length h0) e'"
proof -
  have en: "ed_rep w R (e_dict e)" "inv (ed_capacity (e_dict e)) R (e_m e)" "length (rep (e_state e)) = 4"
    "ed_capacity (e_dict e) < 2 ^ 32" using e by (auto simp: encoding_def)
  have cl: "1 \<le> re_cacheLen (e_re e)" using e(2) coding_keeps e(1) unfolding encoding_def by blast
  from NextOp [OF en(2,1) refl en(4) R en(3)] obtain op m where
    m: "m_NextOp mt (rep (e_state e)) (e_dict e) (e_m e) = Some (op, m)" "inv (ed_capacity (e_dict e)) R m" by blast
  obtain res c re where w: "writeOp (e_margin e) (e_dict e) op (e_state e, e_re e) = (res, c, re)" by (metis prod_cases3)
  show ?thesis
  proof (cases res)
    case (Inl err)
    then have e': "err = ErrLimit" "e' = e\<lparr>e_m := m, e_state := c, e_re := re\<rparr>"
      using s m(1) w by (simp_all add: compress_step_def on_re_def)
    from writeOp_keeps(2) [OF w] Inl e'(1) cl consider "c = e_state e" "re = e_re e" | "spent re" by auto
    then show ?thesis
    proof cases
      case 1
      then have "e' = e\<lparr>e_m := m\<rparr>" using e'(2) by simp
      then show ?thesis using e(1) m(2) by (simp add: encoding_def)
    next
      case 2
      obtain ops where "coding (ed_capacity (e_dict e)) (e_margin e) h0 c0 e0 ops (take R w) (e_state e) (e_re e)"
        using e(1) by (auto simp: encoding_def)
      from coding_length [OF this] have "length h0 \<le> R" by simp
      then show ?thesis using 2 R ed_Buffered [OF en(1)] ed_Pos [OF en(1)] e'(2) by (simp add: cut_off_def)
    qed
  next
    case (Inr u)
    then have "fst (compress_step mt e) \<noteq> Some ErrLimit"
      using m(1) w by (auto simp: compress_step_def on_re_def encoder_Discard_def split: option.splits)
    with s show ?thesis by simp
  qed
qed

lemma compress_loop_limit:
  assumes "encoding c0 e0 h0 R w e" "1 \<le> re_cacheLen e0" "compress_loop mt n e = Some (Some ErrLimit, e')"
  shows "(\<exists>R' \<ge> R. encoding c0 e0 h0 R' w e') \<or> cut_off (length h0) e'"
  using assms(1,3)
proof (induction "length w - R" arbitrary: R e rule: less_induct)
  case less
  note b = encoding_Buffered [OF less.prems(1)]
  have "\<not> length w - R \<le> n" using less.prems(2) b by (subst (asm) compress_loop.simps) (auto split: if_splits)
  then have R: "R < length w" by simp
  obtain err e1 where s: "compress_step mt e = (err, e1)" by fastforce
  show ?case
  proof (cases err)
    case None
    with compress_step_ok [OF less.prems(1) R] s obtain R1 where R1: "R < R1" "R1 \<le> length w" "encoding c0 e0 h0 R1 w e1" by auto
    then have "length w - R1 < length w - R" using R by simp
    moreover have "compress_loop mt n e1 = Some (Some ErrLimit, e')"
      using less.prems(2) s None b \<open>\<not> length w - R \<le> n\<close> by (subst (asm) compress_loop.simps) simp
    ultimately have "(\<exists>R' \<ge> R1. encoding c0 e0 h0 R' w e') \<or> cut_off (length h0) e'" using less.hyps R1(3) by blast
    then show ?thesis using R1(1) by (meson less_imp_le order_trans)
  next
    case (Some x)
    then have "x = ErrLimit" "e1 = e'" using less.prems(2) s b \<open>\<not> length w - R \<le> n\<close>
      by (subst (asm) compress_loop.simps, simp)+
    with compress_step_limit [OF less.prems(1) assms(2) R] s Some show ?thesis by blast
  qed
qed

lemma Write_from_limit:
  assumes "encoder_Write_from mt p n e = Some (k, err, e')" "err = Some ErrLimit" "encoding c0 e0 h0 R w e" "n \<le> length p"
    and cl: "1 \<le> re_cacheLen e0"
  shows "n \<le> k \<and> k \<le> length p \<and> 0 < encoderDict_Buffered (e_dict e') \<and> ((\<exists>R' \<ge> R. encoding c0 e0 h0 R' (w @ take (k - n) (drop n p)) e') \<or> cut_off (length h0) e')"
proof -
  have "\<forall>R w. mt' = mt \<longrightarrow> encoding c0 e0 h0 R w e \<longrightarrow> n \<le> length p \<longrightarrow> fst (snd y) = Some ErrLimit \<longrightarrow>
      n \<le> fst y \<and> fst y \<le> length p \<and> 0 < encoderDict_Buffered (e_dict (snd (snd y))) \<and>
      ((\<exists>R' \<ge> R. encoding c0 e0 h0 R' (w @ take (fst y - n) (drop n p)) (snd (snd y))) \<or> cut_off (length h0) (snd (snd y)))"
    if "encoder_Write_from mt' p n e = Some y" for mt' y p n e
  proof (rule encoder_Write_from.raw_induct [OF _ that], intro allI impI, goal_cases)
    case (1 f mt' p n e y R w)
    obtain j er d where wr: "encoderDict_Write (e_dict e) (drop n p) = (j, er, d)" by (metis prod_cases3)
    note a = encoding_append [OF 1(4) wr]
    define e1 where "e1 = e\<lparr>e_dict := d\<rparr>"
    have en1: "encoding c0 e0 h0 R (w @ take j (drop n p)) e1" using a(1) by (simp add: e1_def)
    have j: "n + j \<le> length p" using a(3) 1(5) by simp
    show ?case
    proof (cases "er = Some ErrNoSpace")
      case False
      then have "snd y = (er, e1)" using 1(2) by (auto simp: wr e1_def Let_def)
      with False a(4) 1(6) show ?thesis by (auto split: if_splits)
    next
      case True
      obtain x e2 where c: "compress mt False e1 = Some (x, e2)"
        using compress_loop_ok [OF en1, of "nat (maxMatchLen - 1)"] by (auto simp: compress_def)
      show ?thesis
      proof (cases x)
        case (Some er2)
        then have y: "y = (n + j, Some er2, e2)" using 1(2) True c 1(3) by (simp add: wr e1_def Let_def)
        then have "compress_loop mt (nat (maxMatchLen - 1)) e1 = Some (Some ErrLimit, e2)"
          using c Some 1(6) by (simp add: compress_def)
        moreover have "0 < encoderDict_Buffered (e_dict e2)"
          using compress_loop_ok [OF en1, of "nat (maxMatchLen - 1)"] c Some by (auto simp: compress_def)
        ultimately show ?thesis using compress_loop_limit [OF en1 cl] y j by simp
      next
        case None
        then have f: "f mt' p (n + j) e2 = Some y" using 1(2) True c 1(3) by (simp add: wr e1_def Let_def)
        have "\<exists>R2 \<ge> R. encoding c0 e0 h0 R2 (w @ take j (drop n p)) e2"
          using compress_loop_ok [OF en1, of "nat (maxMatchLen - 1)"] c None by (auto simp: compress_def)
        then obtain R2 where R2: "R \<le> R2" "encoding c0 e0 h0 R2 (w @ take j (drop n p)) e2" by blast
        have i: "n + j \<le> fst y \<and> fst y \<le> length p \<and> 0 < encoderDict_Buffered (e_dict (snd (snd y))) \<and>
          ((\<exists>R' \<ge> R2. encoding c0 e0 h0 R' ((w @ take j (drop n p)) @ take (fst y - (n + j)) (drop (n + j) p)) (snd (snd y))) \<or>
            cut_off (length h0) (snd (snd y)))"
          using 1(1) [OF f, rule_format, OF 1(3) R2(2) j 1(6)] .
        have "take j (drop n p) @ take (fst y - (n + j)) (drop (n + j) p) = take (fst y - n) (drop n p)"
          using take_add [of j "fst y - (n + j)" "drop n p"] i by (simp add: add.commute)
        then have "(w @ take j (drop n p)) @ take (fst y - (n + j)) (drop (n + j) p) = w @ take (fst y - n) (drop n p)" by simp
        with i show ?thesis using R2(1) by (auto intro: order_trans)
      qed
    qed
  qed
  from this [OF assms(1)] assms(2-4) show ?thesis by simp
qed

lemma Close_limit:
  assumes e: "encoding c0 e0 h0 R w e" "1 \<le> re_cacheLen e0" "\<not> e_marker e" and c: "encoder_Close mt e = Some (None, e')"
  obtains e1 R1 re where "R \<le> R1" "encoding c0 e0 h0 R1 w e1" "same_frame e e1" "re_Close (e_re e1) = (Inr (), re)"
    "e' = e1\<lparr>e_re := re\<rparr>"
proof -
  from compress_loop_ok [OF e(1), of 0] obtain err e1 R1 where l: "compress_loop mt 0 e = Some (err, e1)"
    "same_frame e e1" "R \<le> R1" "err = None \<Longrightarrow> encoding c0 e0 h0 R1 w e1" by blast
  have err: "err = None \<or> err = Some ErrLimit" and f: "encoder_finish e1 = (None, e')"
    using c l(1) by (auto simp: encoder_Close_def compress_def split: if_splits)
  have "\<not> e_marker e1" using e(3) l(2) by (simp add: same_frame_def)
  with f obtain re where re: "re_Close (e_re e1) = (Inr (), re)" "e' = e1\<lparr>e_re := re\<rparr>"
    by (auto simp: encoder_finish_def on_re_None on_coder_def split: prod.splits)
  have "\<exists>R1 \<ge> R. encoding c0 e0 h0 R1 w e1"
  proof (cases err)
    case None
    then show ?thesis using l(3,4) by blast
  next
    case (Some x)
    then have "compress_loop mt 0 e = Some (Some ErrLimit, e1)" using l(1) err by simp
    from compress_loop_limit [OF e(1,2) this] show ?thesis
      using Close_not_spent [OF re(1)] by (auto simp: cut_off_def)
  qed
  then show thesis using that l(2) re by blast
qed

lemma Close_cut:
  assumes e: "cut_off n e" "\<not> e_marker e" "1 \<le> e_margin e"
  shows "\<exists>err e'. encoder_Close mt e = Some (Some err, e')"
proof (cases "m_NextOp mt (rep (e_state e)) (e_dict e) (e_m e)")
  case None
  then have "compress_loop mt 0 e = Some (Some LzPanic, e)"
    using e(1) by (subst compress_loop.simps) (simp add: compress_step_def cut_off_def)
  then show ?thesis by (simp add: encoder_Close_def compress_def)
next
  case (Some y)
  obtain op m where y: "y = (op, m)" by fastforce
  define e1 where "e1 = e\<lparr>e_m := m\<rparr>"
  have "re_Available (e_re e) < e_margin e" using e(1,3) by (simp add: cut_off_def spent_def)
  then have "compress_step mt e = (Some ErrLimit, e1)"
    using Some y by (simp add: compress_step_def on_re_def writeOp_def e1_def)
  then have "compress_loop mt 0 e = Some (Some ErrLimit, e1)"
    using e(1) by (subst compress_loop.simps) (simp add: cut_off_def)
  moreover have "\<exists>err e'. encoder_finish e1 = (Some err, e')"
  proof -
    obtain res re where r: "re_Close (e_re e) = (res, re)" by fastforce
    then obtain err where "res = Inl err" using e(1) Close_not_spent by (cases res) (auto simp: cut_off_def)
    then show ?thesis using r e(2) by (simp add: encoder_finish_def on_re_def on_coder_def e1_def)
  qed
  ultimately show ?thesis by (auto simp: encoder_Close_def compress_def)
qed

section \<open>The invariant of the writer\<close>

text \<open>\<open>R0\<close> bytes are in the chunks already written, of the \<open>X\<close> that were given to the writer.\<close>

definition w2_frame :: "nat \<Rightarrow> nat \<Rightarrow> lzma_state \<Rightarrow> nat \<Rightarrow> 'm Writer2 \<Rightarrow> bool" where
  "w2_frame cap n s0 R0 w \<longleftrightarrow> lookahead (w2_encoder w) \<and> \<not> e_marker (w2_encoder w) \<and> 1 \<le> e_margin (w2_encoder w) \<and>
     e_start (w2_encoder w) = R0 \<and> ed_capacity (e_dict (w2_encoder w)) = cap \<and>
     state_ok n (w2_start w) \<and> reps_ok cap (rep (w2_start w)) \<and> st_Properties (w2_start w) = st_Properties s0 \<and>
     w2_cstate w \<noteq> Stop_T \<and> w2_ctype w = defaultChunkType (w2_cstate w) \<and>
     (w2_cstate w = Start_S \<or> w2_cstate w = Reset_R \<longrightarrow> w2_start w = s0) \<and> (w2_cstate w = Start_S \<longrightarrow> R0 = 0)"

definition emitted :: "nat \<Rightarrow> nat \<Rightarrow> lzma_state \<Rightarrow> byte list \<Rightarrow> byte list \<Rightarrow> 'm Writer2 \<Rightarrow> bool" where
  "emitted cap n s0 pre h w \<longleftrightarrow> (\<exists>out. written (w2_w w) = pre @ out \<and>
     (\<forall>rest D. chunked cap n s0 (w2_cstate w) (w2_start w) h rest D \<longrightarrow> chunked cap n s0 Start_S s0 [] (out @ rest) D))"

definition w2_inv :: "nat \<Rightarrow> nat \<Rightarrow> lzma_state \<Rightarrow> byte list \<Rightarrow> nat \<Rightarrow> byte list \<Rightarrow> 'm Writer2 \<Rightarrow> bool" where
  "w2_inv cap n s0 pre R0 X w \<longleftrightarrow>
     (\<exists>R. encoding (w2_start w) (newRangeEncoder w2_limited) (take R0 X) R X (w2_encoder w)) \<and>
     w2_frame cap n s0 R0 w \<and> emitted cap n s0 pre (take R0 X) w \<and> R0 \<le> length X \<and> length X \<le> R0 + 2 ^ 21"

lemma w2_frame_encoder:
  "w2_frame cap n s0 R0 w \<Longrightarrow> same_frame (w2_encoder w) e \<Longrightarrow> w2_frame cap n s0 R0 (w\<lparr>w2_encoder := e\<rparr>)"
  by (simp add: w2_frame_def same_frame_def lookahead_def)

lemma w2_encoding:
  assumes "encoding c0 e0 (take R0 X) R X e" "R0 \<le> length X"
  shows "R0 \<le> R" "R \<le> length X" "ed_rep X R (e_dict e)"
proof -
  show r: "ed_rep X R (e_dict e)" using assms(1) by (simp add: encoding_def)
  then show "R \<le> length X" by (rule ed_bounds)
  from assms obtain ops where "coding (ed_capacity (e_dict e)) (e_margin e) (take R0 X) c0 e0 ops (take R X) (e_state e) (e_re e)"
    by (auto simp: encoding_def)
  from coding_length [OF this] assms(2) \<open>R \<le> length X\<close> show "R0 \<le> R" by simp
qed

lemma w2_written_inv: "w2_inv cap n s0 pre R0 X w \<Longrightarrow> w2_written w = int (length X - R0)"
proof -
  assume i: "w2_inv cap n s0 pre R0 X w"
  then obtain R where e: "encoding (w2_start w) (newRangeEncoder w2_limited) (take R0 X) R X (w2_encoder w)" "R0 \<le> length X"
    and st: "e_start (w2_encoder w) = R0" by (auto simp: w2_inv_def w2_frame_def)
  note b = w2_encoding [OF e]
  show ?thesis using b e(2) st ed_Pos [OF b(3)] ed_Buffered [OF b(3)]
    by (simp add: w2_written_def buffered_total_def Compressed_def)
qed

lemma bw_Write_None: "bw_Write p w = (None, w') \<Longrightarrow> written w' = written w @ p"
  by (auto simp: bw_Write_def split: option.splits if_splits)

text \<open>A new chunk starts where the last one ended.\<close>

lemma next_chunk_inv:
  assumes n: "next_chunk w1 = (None, w2)" and cs: "w2_cstate w1 = w2_cstate w" "w2_cstate w \<noteq> Stop_T" "w2_ctype w1 \<noteq> cEOS"
    and e1: "encoding c0 e0 h0 R1 X e" "R0 < R1" "R1 \<le> length X" "length X \<le> R0 + 2 ^ 21"
    and e: "e_dict (w2_encoder w1) = e_dict e" "e_m (w2_encoder w1) = e_m e" "\<not> e_marker (w2_encoder w1)"
      "1 \<le> e_margin (w2_encoder w1)" "lookahead e" "ed_capacity (e_dict e) = cap"
    and st: "state_ok n (e_state (w2_encoder w1))" "reps_ok cap (rep (e_state (w2_encoder w1)))"
      "st_Properties (e_state (w2_encoder w1)) = st_Properties s0"
      "uncompressed (w2_ctype w1) \<and> (w2_cstate w = Start_S \<or> w2_cstate w = Reset_R) \<Longrightarrow> e_state (w2_encoder w1) = s0"
      "w2_cstate w = Reset_R \<Longrightarrow> w2_ctype w1 \<noteq> cUD"
      "\<not> uncompressed (w2_ctype w1) \<Longrightarrow> w2_ctype w1 = defaultChunkType (w2_cstate w)"
      "uncompressed (w2_ctype w1) \<Longrightarrow> w2_ctype w1 = (if w2_cstate w = Start_S then cUD else cU)"
    and out: "written (w2_w w1) = pre @ out"
      "\<And>rest D cs'. chunkState_next (w2_cstate w) (w2_ctype w1) = Inr cs' \<Longrightarrow>
         chunked cap n s0 cs' (e_state (w2_encoder w1)) (take R1 X) rest D \<Longrightarrow> chunked cap n s0 Start_S s0 [] (out @ rest) D"
  shows "w2_inv cap n s0 pre R1 X w2"
proof -
  define e2 where "e2 = encoder_Reopen w2_limited (w2_encoder w1)"
  obtain cs' where cs': "chunkState_next (w2_cstate w) (w2_ctype w1) = Inr cs'"
    and w2: "w2 = w1\<lparr>w2_encoder := e2, w2_cstate := cs', w2_ctype := defaultChunkType cs', w2_start := e_state e2\<rparr>"
    using n cs(1) by (auto simp: next_chunk_def Let_def e2_def split: sum.splits)
  have r: "ed_rep X R1 (e_dict e)" using e1(1) by (simp add: encoding_def)
  have e2: "e_dict e2 = e_dict e" "e_m e2 = e_m e" "e_re e2 = newRangeEncoder w2_limited" "e_start e2 = R1"
    "e_state e2 = e_state (w2_encoder w1)" "\<not> e_marker e2" "1 \<le> e_margin e2"
    using e ed_Pos [OF r] by (simp_all add: e2_def encoder_Reopen_def)
  have "encoding (e_state e2) (newRangeEncoder w2_limited) (take R1 X) R1 X e2"
    using e1(1) e2 st(2) e(6) unfolding encoding_def
    by (auto simp: reps_ok_def intro!: exI [of _ "[]"] coding_none)
  moreover have "cs' \<noteq> Stop_T" using next_not_stop [OF cs' cs(3)] .
  moreover have "cs' \<noteq> Start_S" using cs' by (cases "w2_cstate w"; cases "w2_ctype w1") auto
  moreover have "e_state e2 = s0" if "cs' = Reset_R"
  proof -
    have "uncompressed (w2_ctype w1) \<and> (w2_cstate w = Start_S \<or> w2_cstate w = Reset_R)"
    proof (cases "uncompressed (w2_ctype w1)")
      case True
      then show ?thesis using cs' that st(7) by (cases "w2_cstate w") auto
    next
      case False
      then show ?thesis using cs' that st(6) cs(2) by (cases "w2_cstate w") (auto simp: uncompressed_def)
    qed
    then show ?thesis using st(4) e2(5) by simp
  qed
  moreover have "lookahead e2" using e(5) e2(1) by (simp add: lookahead_def)
  moreover have "emitted cap n s0 pre (take R1 X) w2" unfolding emitted_def
    by (rule exI [of _ out]) (use w2 out(1) out(2) [OF cs'] e2(5) in auto)
  ultimately show ?thesis using e2 e(6) st(1-3) e1(2-4) unfolding w2_inv_def w2_frame_def
    by (auto simp: w2)
qed

text \<open>What the encoder has coded when a chunk is closed.\<close>

lemma closed_chunk:
  assumes i: "w2_inv cap n s0 pre R0 X w" and c: "encoder_Close mt (w2_encoder w) = Some (None, e')"
  obtains e1 R1 re where "encoding (w2_start w) (newRangeEncoder w2_limited) (take R0 X) R1 X e1" "same_frame (w2_encoder w) e1"
    "e' = e1\<lparr>e_re := re\<rparr>" "R0 \<le> R1" "R1 \<le> length X" "Compressed e' = int (R1 - R0)" "length (enc_written re) + 5 \<le> 2 ^ 16"
    "st_Properties (e_state e1) = st_Properties s0" "state_ok n (e_state e1)" "reps_ok cap (rep (e_state e1))"
    "R0 < R1 \<Longrightarrow> coded_chunk cap n (take R0 X) (w2_start w) (take R1 X) (e_state e1) (enc_written re)"
proof -
  obtain R where e: "encoding (w2_start w) (newRangeEncoder w2_limited) (take R0 X) R X (w2_encoder w)"
    and fr: "w2_frame cap n s0 R0 w" and X: "R0 \<le> length X" using i by (auto simp: w2_inv_def)
  have cl: "1 \<le> re_cacheLen (newRangeEncoder w2_limited)" by (simp add: newRangeEncoder_def)
  have m: "\<not> e_marker (w2_encoder w)" using fr by (simp add: w2_frame_def)
  obtain e1 R1 re where k: "R \<le> R1" "encoding (w2_start w) (newRangeEncoder w2_limited) (take R0 X) R1 X e1"
    "same_frame (w2_encoder w) e1" "re_Close (e_re e1) = (Inr (), re)" "e' = e1\<lparr>e_re := re\<rparr>"
    by (rule Close_limit [OF e cl m c])
  note b = w2_encoding [OF k(2) X]
  have cap: "ed_capacity (e_dict e1) = cap" "e_start e1 = R0" using fr k(3) by (simp_all add: w2_frame_def same_frame_def)
  obtain ops where ops: "coding cap (e_margin e1) (take R0 X) (w2_start w) (newRangeEncoder w2_limited) ops (take R1 X) (e_state e1) (e_re e1)"
    "cap < 2 ^ 32" using k(2) cap(1) by (auto simp: encoding_def)
  have ready: "enc_ready [] (newRangeEncoder w2_limited)" using new_ready(1) [of w2_limited] by (simp add: w2_limited_def)
  have st: "state_ok n (w2_start w)" "reps_ok cap (rep (w2_start w))" "st_Properties (w2_start w) = st_Properties s0"
    using fr by (simp_all add: w2_frame_def)
  note ci = coding_inv [OF ops(1) st(1,2) ready ops(2)]
  note ck = coding_keeps [OF ops(1)]
  have total: "re_total re = 2 ^ 16"
    using Close_total [OF k(4)] ck total_new [of w2_limited] by (simp add: w2_limited_def maxCompressed_def)
  have len: "length (enc_written re) + 5 \<le> 2 ^ 16"
    using total Close_space [OF k(4)] by (simp add: re_total_def)
  obtain F where F: "enc_written re = [] @ F" "contains [] F (e_re e1)"
    "\<And>T rd. sync [] F T rd (e_re e1) \<Longrightarrow> possiblyAtEnd rd \<and> br_data (rd_br rd) = T"
    using Close_at_end [OF ci(3) k(4)] by blast
  have F1: "enc_written re = F" using F(1) by simp
  have coded: "coded_chunk cap n (take R0 X) (w2_start w) (take R1 X) (e_state e1) (enc_written re)" if "R0 < R1"
  proof -
    have "ops \<noteq> []" using ops(1) that b(2) X by (auto elim!: coding_NilE dest: arg_cong [of _ _ length])
    then show ?thesis unfolding coded_chunk_def F1 using ops F(2,3)
      by (intro exI [of _ "e_margin e1"] exI [of _ "e_re e1"] exI [of _ ops])
        (auto simp: ending_def synced_def at_end_def)
  qed
  have "Compressed e' = int (R1 - R0)" using k(5) ed_Pos [OF b(3)] cap(2) b(1) by (simp add: Compressed_def)
  with that [OF k(2,3,5) b(1,2) _ len _ ci(1,2) coded] ck st(3) show thesis by simp
qed

lemma writeUncompressed_emits:
  assumes u: "writeUncompressedChunk w = (None, w')" "Compressed (w2_encoder w) = int u"
  obtains hb p where "0 < u" "w2_ctype w' = (if w2_ctype w = cLRND then cUD else cU)" "w2_cstate w' = w2_cstate w"
    "w2_encoder w' = (w2_encoder w)\<lparr>e_state := w2_start w\<rparr>" "chunk_MarshalBinary (raw_header (w2_ctype w') u) = Inr hb"
    "encoderDict_CopyN (e_dict (w2_encoder w)) (int u) = (p, None)" "written (w2_w w') = written (w2_w w) @ hb @ p"
  using u by (auto simp: writeUncompressedChunk_def Let_def w2_write_header_def raw_header_def
      split: if_splits sum.splits prod.splits option.splits dest!: bw_Write_None intro!: that)

lemma w2_buf_dest [simp]: "w2_buf (w\<lparr>w2_w := x\<rparr>) = w2_buf w"
  by (simp add: w2_buf_def)

lemma writeCompressed_emits:
  assumes u: "writeCompressedChunk w = (None, w')" "Compressed (w2_encoder w) = int u"
  obtains hb k where "0 < u" "w2_ctype w' = w2_ctype w" "\<not> uncompressed (w2_ctype w)" "w2_cstate w' = w2_cstate w"
    "w2_encoder w' = drop_buf k (w2_encoder w)"
    "chunk_MarshalBinary (coded_header (w2_ctype w) (st_Properties (e_state (w2_encoder w))) u (length (w2_buf w))) = Inr hb"
    "written (w2_w w') = written (w2_w w) @ hb @ w2_buf w"
  using u by (auto simp: writeCompressedChunk_def Let_def w2_write_header_def coded_header_def
      split: if_splits sum.splits prod.splits option.splits dest!: bw_Write_None intro!: that)

lemma flush_raw:
  assumes i: "w2_inv cap n s0 pre R0 X w" and c: "encoder_Close mt (w2_encoder w) = Some (None, e')"
    and u: "writeUncompressedChunk (w\<lparr>w2_encoder := e'\<rparr>) = (None, w1)" and nx: "next_chunk w1 = (None, w2)"
    and small: "int uncompressedHeaderLen + Compressed e' < int (headerLen (w2_ctype w)) + int (length (enc_written (e_re e')))"
  shows "\<exists>R1 > R0. w2_inv cap n s0 pre R1 X w2"
proof -
  obtain e1 R1 re where k: "encoding (w2_start w) (newRangeEncoder w2_limited) (take R0 X) R1 X e1" "same_frame (w2_encoder w) e1"
    "e' = e1\<lparr>e_re := re\<rparr>" "R0 \<le> R1" "R1 \<le> length X" "Compressed e' = int (R1 - R0)" "length (enc_written re) + 5 \<le> 2 ^ 16"
    by (rule closed_chunk [OF i c]) blast
  have fr: "w2_frame cap n s0 R0 w" and em: "emitted cap n s0 pre (take R0 X) w" and X: "length X \<le> R0 + 2 ^ 21"
    using i by (simp_all add: w2_inv_def)
  obtain out where out: "written (w2_w w) = pre @ out"
    "\<And>rest D. chunked cap n s0 (w2_cstate w) (w2_start w) (take R0 X) rest D \<Longrightarrow> chunked cap n s0 Start_S s0 [] (out @ rest) D"
    using em by (auto simp: emitted_def)
  have k6: "Compressed (w2_encoder (w\<lparr>w2_encoder := e'\<rparr>)) = int (R1 - R0)" using k(6) by simp
  obtain hb p where w1: "0 < R1 - R0" "w2_ctype w1 = (if w2_ctype w = cLRND then cUD else cU)" "w2_cstate w1 = w2_cstate w"
    "w2_encoder w1 = e'\<lparr>e_state := w2_start w\<rparr>" "chunk_MarshalBinary (raw_header (w2_ctype w1) (R1 - R0)) = Inr hb"
    "encoderDict_CopyN (e_dict e') (int (R1 - R0)) = (p, None)" "written (w2_w w1) = written (w2_w w) @ hb @ p"
    using writeUncompressed_emits [OF u k6] by auto
  have r: "ed_rep X R1 (e_dict e')" using k(1,3) by (simp add: encoding_def)
  have "encoderDict_CopyN (e_dict e') (int (R1 - R0)) = (take (R1 - R0) (drop (R1 - (R1 - R0)) X), None)"
    by (rule ed_CopyN [OF r w1(1) ed_CopyN_error [OF w1(6,1)]])
  then have p: "p = take (R1 - R0) (drop R0 X)" using w1(1,6) by simp
  then have data: "take R0 X @ p = take R1 X" "length p = R1 - R0"
    using take_add [of R0 "R1 - R0" X] k(4,5) by simp_all
  have ct: "w2_ctype w = defaultChunkType (w2_cstate w)" "w2_cstate w \<noteq> Stop_T" using fr by (simp_all add: w2_frame_def)
  then have ct1: "w2_ctype w1 = (if w2_cstate w = Start_S then cUD else cU)" using w1(2) by (cases "w2_cstate w") auto
  have "headerLen (w2_ctype w) \<le> 6" by (cases "w2_ctype w") (simp_all add: uncompressedHeaderLen_def)
  then have lp: "length p \<le> 2 ^ 16" using small k(3,6,7) data(2) by (simp add: uncompressedHeaderLen_def)
  have frame: "lookahead e1" "\<not> e_marker e1" "1 \<le> e_margin e1" "ed_capacity (e_dict e1) = cap"
    using fr k(2) by (simp_all add: w2_frame_def same_frame_def lookahead_def)
  have emits: "chunked cap n s0 Start_S s0 [] ((out @ hb @ p) @ rest) D"
    if "chunkState_next (w2_cstate w) (w2_ctype w1) = Inr cs'" "chunked cap n s0 cs' (w2_start w) (take R1 X) rest D" for rest D cs'
  proof -
    have "chunked cap n s0 (w2_cstate w) (w2_start w) (take R0 X) (hb @ p @ rest) D"
      by (rule chunked_raw [OF _ ct1 that(1)])
        (use that(2) data w1(1,5) lp fr in \<open>auto simp: w2_frame_def\<close>)
    then show ?thesis using out(2) by simp
  qed
  have unc: "uncompressed (w2_ctype w1)" using ct1 by (simp add: uncompressed_def)
  have "w2_inv cap n s0 pre R1 X w2"
    by (rule next_chunk_inv [OF nx w1(3) ct(2) _ k(1) _ k(5) X, of cap n s0 pre "out @ hb @ p"])
      (use w1 k(3) fr frame ct1 unc out(1) emits in \<open>auto simp: w2_frame_def\<close>)
  then show ?thesis using w1(1) by auto
qed

lemma flush_coded:
  assumes i: "w2_inv cap n s0 pre R0 X w" and c: "encoder_Close mt (w2_encoder w) = Some (None, e')"
    and u: "writeCompressedChunk (w\<lparr>w2_encoder := e'\<rparr>) = (None, w1)" and nx: "next_chunk w1 = (None, w2)"
  shows "\<exists>R1 > R0. w2_inv cap n s0 pre R1 X w2"
proof -
  obtain e1 R1 re where k: "encoding (w2_start w) (newRangeEncoder w2_limited) (take R0 X) R1 X e1" "same_frame (w2_encoder w) e1"
    "e' = e1\<lparr>e_re := re\<rparr>" "R0 \<le> R1" "R1 \<le> length X" "Compressed e' = int (R1 - R0)" "length (enc_written re) + 5 \<le> 2 ^ 16"
    "st_Properties (e_state e1) = st_Properties s0" "state_ok n (e_state e1)" "reps_ok cap (rep (e_state e1))"
    "R0 < R1 \<Longrightarrow> coded_chunk cap n (take R0 X) (w2_start w) (take R1 X) (e_state e1) (enc_written re)"
    by (rule closed_chunk [OF i c]) blast
  have fr: "w2_frame cap n s0 R0 w" and em: "emitted cap n s0 pre (take R0 X) w" and X: "length X \<le> R0 + 2 ^ 21"
    using i by (simp_all add: w2_inv_def)
  obtain out where out: "written (w2_w w) = pre @ out"
    "\<And>rest D. chunked cap n s0 (w2_cstate w) (w2_start w) (take R0 X) rest D \<Longrightarrow> chunked cap n s0 Start_S s0 [] (out @ rest) D"
    using em by (auto simp: emitted_def)
  have k6: "Compressed (w2_encoder (w\<lparr>w2_encoder := e'\<rparr>)) = int (R1 - R0)" using k(6) by simp
  define F where "F = enc_written re"
  have buf: "w2_buf (w\<lparr>w2_encoder := e'\<rparr>) = F" using k(3) by (simp add: w2_buf_def F_def enc_written_def)
  obtain hb j where w1: "0 < R1 - R0" "w2_ctype w1 = w2_ctype w" "\<not> uncompressed (w2_ctype w)" "w2_cstate w1 = w2_cstate w"
    "w2_encoder w1 = drop_buf j e'" "chunk_MarshalBinary (coded_header (w2_ctype w) (st_Properties (e_state e1)) (R1 - R0) (length F)) = Inr hb"
    "written (w2_w w1) = written (w2_w w) @ hb @ F"
    by (rule writeCompressed_emits [OF u k6, unfolded buf], rule that) (use k(3) in auto)
  have ct: "w2_ctype w = defaultChunkType (w2_cstate w)" "w2_cstate w \<noteq> Stop_T" using fr by (simp_all add: w2_frame_def)
  then have ct1: "w2_ctype w1 \<noteq> cEOS" using w1(2) by (cases "w2_cstate w") auto
  have frame: "lookahead e1" "\<not> e_marker e1" "1 \<le> e_margin e1" "ed_capacity (e_dict e1) = cap"
    using fr k(2) by (simp_all add: w2_frame_def same_frame_def lookahead_def)
  have e2: "e_dict (w2_encoder w1) = e_dict e1" "e_m (w2_encoder w1) = e_m e1" "e_marker (w2_encoder w1) = e_marker e1"
    "e_margin (w2_encoder w1) = e_margin e1" "e_state (w2_encoder w1) = e_state e1"
    using w1(5) k(3) by (simp_all add: drop_buf_def Let_def)
  have sizes: "length (take R1 X) - length (take R0 X) = R1 - R0" "R1 - R0 \<le> 2 ^ 21" using k(4,5) X by simp_all
  have emits: "chunked cap n s0 Start_S s0 [] ((out @ hb @ F) @ rest) D"
    if "chunkState_next (w2_cstate w) (w2_ctype w1) = Inr cs'" "chunked cap n s0 cs' (e_state e1) (take R1 X) rest D" for rest D cs'
  proof -
    have "chunked cap n s0 (w2_cstate w) (w2_start w) (take R0 X) (hb @ F @ rest) D"
      by (rule chunked_coded [OF that(2)])
        (use that(1) k(7,8,11) w1(1,2,6) ct sizes fr in \<open>auto simp: w2_frame_def F_def\<close>)
    then show ?thesis using out(2) by simp
  qed
  have "w2_inv cap n s0 pre R1 X w2"
    by (rule next_chunk_inv [OF nx w1(4) ct(2) ct1 k(1) _ k(5) X, of cap n s0 pre "out @ hb @ F"])
      (use w1 k(8-10) e2 frame ct out(1) emits in \<open>auto simp: uncompressed_def\<close>)
  then show ?thesis using w1(1) by auto
qed

lemma flushChunk_inv:
  assumes i: "w2_inv cap n s0 pre R0 X w" and f: "flushChunk mt w = Some (None, w')" and ne: "w2_written w \<noteq> 0"
  shows "\<exists>R1 > R0. w2_inv cap n s0 pre R1 X w'"
proof -
  obtain e' w1 where c: "encoder_Close mt (w2_encoder w) = Some (None, e')" "writeChunk (w\<lparr>w2_encoder := e'\<rparr>) = (None, w1)"
    "next_chunk w1 = (None, w')"
    using f ne by (auto simp: flushChunk_def split: option.splits prod.splits)
  show ?thesis
    using flush_raw [OF i c(1) _ c(3)] flush_coded [OF i c(1) _ c(3)] c(2)
    by (auto simp: writeChunk_def Let_def w2_buf_def enc_written_def split: if_splits)
qed

section \<open>The calls of the writer\<close>

lemma flushChunk_returns:
  assumes "w2_inv cap n s0 pre R0 X w \<or> cut_off R0 (w2_encoder w) \<and> w2_frame cap n s0 R0 w"
  shows "\<exists>err w'. flushChunk mt w = Some (err, w') \<and> (err = None \<longrightarrow> w2_inv cap n s0 pre R0 X w)"
proof -
  have "\<exists>err e'. encoder_Close mt (w2_encoder w) = Some (err, e') \<and> (err = None \<longrightarrow> w2_inv cap n s0 pre R0 X w)"
  proof (cases "w2_inv cap n s0 pre R0 X w")
    case True
    then show ?thesis using Close_ok unfolding w2_inv_def by metis
  next
    case False
    with assms Close_cut [of R0 "w2_encoder w"] show ?thesis by (auto simp: w2_frame_def)
  qed
  then obtain err e' where c: "encoder_Close mt (w2_encoder w) = Some (err, e')" "err = None \<Longrightarrow> w2_inv cap n s0 pre R0 X w" by blast
  have "w2_written w = 0 \<Longrightarrow> w2_inv cap n s0 pre R0 X w"
  proof -
    assume z: "w2_written w = 0"
    have "w2_written w \<noteq> 0" if "cut_off R0 (w2_encoder w)" "e_start (w2_encoder w) = R0"
      using that by (simp add: w2_written_def buffered_total_def Compressed_def cut_off_def)
    with z assms show ?thesis by (auto simp: w2_frame_def)
  qed
  then show ?thesis using c
    by (cases err) (auto simp: flushChunk_def split: prod.splits option.splits)
qed

text \<open>One round of \<open>Write\<close>: the bytes are taken and the invariant holds, or the chunk has to be flushed.\<close>

lemma Write_round:
  assumes i: "w2_inv cap n s0 pre R0 X w" and q: "length X + length q \<le> R0 + 2 ^ 21"
  obtains k err e where "encoder_Write mt q (w2_encoder w) = Some (k, err, e)"
    "err = None \<Longrightarrow> k = length q \<and> w2_inv cap n s0 pre R0 (X @ q) (w\<lparr>w2_encoder := e\<rparr>)"
    "err = Some ErrLimit \<Longrightarrow> k \<le> length q \<and> 0 < encoderDict_Buffered (e_dict e) \<and> (w2_inv cap n s0 pre R0 (X @ take k q) (w\<lparr>w2_encoder := e\<rparr>) \<or>
       cut_off R0 e \<and> w2_frame cap n s0 R0 (w\<lparr>w2_encoder := e\<rparr>))"
proof -
  obtain R where e: "encoding (w2_start w) (newRangeEncoder w2_limited) (take R0 X) R X (w2_encoder w)" and fr: "w2_frame cap n s0 R0 w"
    and em: "emitted cap n s0 pre (take R0 X) w" and X: "R0 \<le> length X" using i by (auto simp: w2_inv_def)
  have la: "lookahead (w2_encoder w)" using fr by (simp add: w2_frame_def)
  obtain k err e' R' where w: "encoder_Write mt q (w2_encoder w) = Some (k, err, e')" "same_frame (w2_encoder w) e'"
    "err = None \<Longrightarrow> k = length q \<and> encoding (w2_start w) (newRangeEncoder w2_limited) (take R0 X) R' (X @ q) e'"
    by (rule Write_ok [OF e la]) blast
  have fr': "w2_frame cap n s0 R0 (w\<lparr>w2_encoder := e'\<rparr>)" by (rule w2_frame_encoder [OF fr w(2)])
  have inv: "w2_inv cap n s0 pre R0 (X @ q') (w\<lparr>w2_encoder := e'\<rparr>)"
    if "encoding (w2_start w) (newRangeEncoder w2_limited) (take R0 X) R'' (X @ q') e'" "length q' \<le> length q" for q' R''
    using that fr' em X q unfolding w2_inv_def emitted_def by auto
  have lim: "k \<le> length q \<and> 0 < encoderDict_Buffered (e_dict e') \<and> (w2_inv cap n s0 pre R0 (X @ take k q) (w\<lparr>w2_encoder := e'\<rparr>) \<or>
       cut_off R0 e' \<and> w2_frame cap n s0 R0 (w\<lparr>w2_encoder := e'\<rparr>))" if "err = Some ErrLimit"
  proof -
    have cl: "1 \<le> re_cacheLen (newRangeEncoder w2_limited)" by (simp add: newRangeEncoder_def)
    have lR: "length (take R0 X) = R0" using X by simp
    from Write_from_limit [OF w(1) [unfolded encoder_Write_def] that e le0 cl] show ?thesis
      unfolding lR using inv [of _ "take k q"] fr' by auto
  qed
  show thesis by (rule that [OF w(1) _ lim]) (use w(3) inv [of R' q] in auto)
qed

lemma Write_from_w2:
  assumes "Writer2_Write_from mt p n' w = Some y" "fst (snd y) = None" "w2_inv cap n s0 pre R0 X w" "n' \<le> length p"
  shows "fst y = length p \<and> (\<exists>R1. w2_inv cap n s0 pre R1 (X @ drop n' p) (snd (snd y)))"
proof -
  have "\<forall>R0 X. mt' = mt \<longrightarrow> fst (snd y) = None \<longrightarrow> w2_inv cap n s0 pre R0 X w \<longrightarrow> n' \<le> length p \<longrightarrow>
      fst y = length p \<and> (\<exists>R1. w2_inv cap n s0 pre R1 (X @ drop n' p) (snd (snd y)))"
    if "Writer2_Write_from mt' p n' w = Some y" for mt' y p n' w
  proof (rule Writer2_Write_from.raw_induct [OF _ that], intro allI impI, goal_cases)
    case (1 f mt' p n' w y R0 X)
    show ?case
    proof (cases "length p \<le> n'")
      case True
      then have "y = (n', None, w)" using 1(2) by simp
      with True 1(5,6) show ?thesis by auto
    next
      case False
      define m where "m = maxUncompressed - w2_written w"
      have wr: "w2_written w = int (length X - R0)" by (rule w2_written_inv [OF 1(5)])
      have b: "R0 \<le> length X" "length X \<le> R0 + 2 ^ 21" using 1(5) by (simp_all add: w2_inv_def)
      have m: "0 < m" using 1(2,4) False by (auto simp: m_def Let_def split: if_splits)
      then have nm: "length X + nat m = R0 + 2 ^ 21" using wr b by (simp add: m_def maxUncompressed_def)
      define q where "q = take (nat m) (drop n' p)"
      have lq: "length X + length q \<le> R0 + 2 ^ 21" using nm by (simp add: q_def)
      obtain k err e where r: "encoder_Write mt q (w2_encoder w) = Some (k, err, e)"
        "err = None \<Longrightarrow> k = length q \<and> w2_inv cap n s0 pre R0 (X @ q) (w\<lparr>w2_encoder := e\<rparr>)"
        "err = Some ErrLimit \<Longrightarrow> k \<le> length q \<and> 0 < encoderDict_Buffered (e_dict e) \<and> (w2_inv cap n s0 pre R0 (X @ take k q) (w\<lparr>w2_encoder := e\<rparr>) \<or>
           cut_off R0 e \<and> w2_frame cap n s0 R0 (w\<lparr>w2_encoder := e\<rparr>))"
        by (rule Write_round [OF 1(5) lq]) blast
      have y: "(if err \<noteq> None \<and> err \<noteq> Some ErrLimit then Some (n' + k, err, w\<lparr>w2_encoder := e\<rparr>)
          else if err = Some ErrLimit \<or> int k = m
          then (case flushChunk mt (w\<lparr>w2_encoder := e\<rparr>) of None \<Rightarrow> None
                | Some (Some err, w) \<Rightarrow> Some (n' + k, Some err, w) | Some (None, w) \<Rightarrow> f mt p (n' + k) w)
          else f mt p (n' + k) (w\<lparr>w2_encoder := e\<rparr>)) = Some y"
        using 1(2) False m r(1) unfolding 1(3) by (simp add: m_def [symmetric] q_def [symmetric] Let_def)
      have err: "err = None \<or> err = Some ErrLimit" using y 1(4) by (auto split: if_splits)
      have k: "k \<le> length q" using err r(2,3) by auto
      have X1: "X @ take k q @ drop (n' + k) p = X @ drop n' p"
      proof -
        have "take k q = take k (drop n' p)" using k by (simp add: q_def min_absorb1)
        then show ?thesis by (metis append_take_drop_id drop_drop add.commute)
      qed
      have step: "fst y = length p \<and> (\<exists>R1. w2_inv cap n s0 pre R1 (X @ drop n' p) (snd (snd y)))"
        if "f mt p (n' + k) w1 = Some y" "w2_inv cap n s0 pre R1 (X @ take k q) w1" for w1 R1
      proof -
        have le: "n' + k \<le> length p" using k False by (auto simp: q_def)
        from 1(1) [OF that(1), rule_format, OF refl 1(4) that(2) le] X1 show ?thesis by simp
      qed
      show ?thesis
      proof (cases "err = Some ErrLimit \<or> int k = m")
        case False
        then show ?thesis using y err r(2) step [of "w\<lparr>w2_encoder := e\<rparr>" R0] by auto
      next
        case True
        then obtain w1 where fl: "flushChunk mt (w\<lparr>w2_encoder := e\<rparr>) = Some (None, w1)" "f mt p (n' + k) w1 = Some y"
          using y err 1(4) by (auto split: option.splits prod.splits)
        have "w2_inv cap n s0 pre R0 (X @ take k q) (w\<lparr>w2_encoder := e\<rparr>)"
        proof (cases err)
          case None
          then show ?thesis using r(2) by simp
        next
          case (Some x)
          then have "w2_inv cap n s0 pre R0 (X @ take k q) (w\<lparr>w2_encoder := e\<rparr>) \<or>
             cut_off R0 (w2_encoder (w\<lparr>w2_encoder := e\<rparr>)) \<and> w2_frame cap n s0 R0 (w\<lparr>w2_encoder := e\<rparr>)" using r(3) err by auto
          from flushChunk_returns [OF this] fl(1) show ?thesis by auto
        qed
        then have "\<exists>R1. w2_inv cap n s0 pre R1 (X @ take k q) w1"
          using fl(1) flushChunk_inv [OF _ fl(1)] by (cases "w2_written (w\<lparr>w2_encoder := e\<rparr>) = 0") (force simp: flushChunk_def, blast)
        then show ?thesis using step [OF fl(2)] by blast
      qed
    qed
  qed
  from this [OF assms(1)] assms(2-4) show ?thesis by simp
qed

lemma flush_loop_w2:
  assumes "Writer2_flush_loop mt w = Some y" "fst y = None" "w2_inv cap n s0 pre R0 X w"
  shows "w2_inv cap n s0 pre (length X) X (snd y)"
proof -
  have "\<forall>R0. mt' = mt \<longrightarrow> fst y = None \<longrightarrow> w2_inv cap n s0 pre R0 X w \<longrightarrow> w2_inv cap n s0 pre (length X) X (snd y)"
    if "Writer2_flush_loop mt' w = Some y" for mt' y w
  proof (rule Writer2_flush_loop.raw_induct [OF _ that], intro allI impI, goal_cases)
    case (1 f mt' w y R0)
    have wr: "w2_written w = int (length X - R0)" by (rule w2_written_inv [OF 1(5)])
    show ?case
    proof (cases "w2_written w \<le> 0")
      case True
      then have "y = (None, w)" "R0 = length X" using 1(2,5) wr by (auto simp: w2_inv_def)
      then show ?thesis using 1(5) by simp
    next
      case False
      then obtain w1 where w1: "flushChunk mt w = Some (None, w1)" "f mt w1 = Some y"
        using 1(2,3,4) by (auto split: option.splits prod.splits)
      from flushChunk_inv [OF 1(5) w1(1)] False obtain R1 where "w2_inv cap n s0 pre R1 X w1" by auto
      with 1(1) [OF w1(2)] 1(4) show ?thesis by blast
    qed
  qed
  from this [OF assms(1)] assms(2,3) show ?thesis by blast
qed

section \<open>The calls return\<close>

lemma flushChunk_progress:
  assumes "w2_inv cap n s0 pre R0 X w"
  obtains err w' where "flushChunk mt w = Some (err, w')" "err = None \<Longrightarrow> w2_written w \<noteq> 0 \<Longrightarrow> \<exists>R1 > R0. w2_inv cap n s0 pre R1 X w'"
  using flushChunk_returns [of cap n s0 pre R0 X w] flushChunk_inv [OF assms] assms by blast

lemma Write_from_returns:
  assumes "w2_inv cap n s0 pre R0 X w"
  shows "\<exists>y. Writer2_Write_from mt p n' w = Some y"
  using assms
proof (induction "(length p - n') * (2 ^ 21 + 1) + (length X - R0)" arbitrary: n' X R0 w rule: less_induct)
  case less
  define m where "m = maxUncompressed - w2_written w"
  show ?case
  proof (cases "length p \<le> n' \<or> m \<le> 0")
    case True
    then show ?thesis by (subst Writer2_Write_from.simps) (auto simp: m_def [symmetric] Let_def)
  next
    case False
    have wr: "w2_written w = int (length X - R0)" by (rule w2_written_inv [OF less.prems])
    have b: "R0 \<le> length X" "length X \<le> R0 + 2 ^ 21" using less.prems by (simp_all add: w2_inv_def)
    then have nm: "length X + nat m = R0 + 2 ^ 21" using wr False by (auto simp: m_def maxUncompressed_def)
    define q where "q = take (nat m) (drop n' p)"
    have lq: "length X + length q \<le> R0 + 2 ^ 21" "0 < length q" using nm False by (auto simp: q_def)
    obtain k err e where r: "encoder_Write mt q (w2_encoder w) = Some (k, err, e)"
      "err = None \<Longrightarrow> k = length q \<and> w2_inv cap n s0 pre R0 (X @ q) (w\<lparr>w2_encoder := e\<rparr>)"
      "err = Some ErrLimit \<Longrightarrow> k \<le> length q \<and> 0 < encoderDict_Buffered (e_dict e) \<and> (w2_inv cap n s0 pre R0 (X @ take k q) (w\<lparr>w2_encoder := e\<rparr>) \<or>
         cut_off R0 e \<and> w2_frame cap n s0 R0 (w\<lparr>w2_encoder := e\<rparr>))"
      by (rule Write_round [OF less.prems lq(1)]) blast
    define w1 where "w1 = w\<lparr>w2_encoder := e\<rparr>"
    have unfold: "Writer2_Write_from mt p n' w =
        (if err \<noteq> None \<and> err \<noteq> Some ErrLimit then Some (n' + k, err, w1)
         else if err = Some ErrLimit \<or> int k = m
         then (case flushChunk mt w1 of None \<Rightarrow> None
               | Some (Some err, w) \<Rightarrow> Some (n' + k, Some err, w) | Some (None, w) \<Rightarrow> Writer2_Write_from mt p (n' + k) w)
         else Writer2_Write_from mt p (n' + k) w1)"
      using False r(1) by (subst Writer2_Write_from.simps) (simp add: m_def [symmetric] q_def [symmetric] Let_def w1_def)
    have step: "\<exists>y. Writer2_Write_from mt p (n' + k) w2 = Some y"
      if i: "w2_inv cap n s0 pre R1 (X @ take k q) w2" and k: "k \<le> length q" "0 < k \<or> R0 < R1" for w2 R1
    proof (rule less.hyps [OF _ i])
      have lX: "length (X @ take k q) = length X + k" using k(1) by simp
      have R1: "R1 \<le> length X + k" "length X + k \<le> R1 + 2 ^ 21" using i lX by (simp_all add: w2_inv_def)
      have kp: "n' + k \<le> length p" using k(1) False by (auto simp: q_def)
      show "(length p - (n' + k)) * (2 ^ 21 + 1) + (length (X @ take k q) - R1) < (length p - n') * (2 ^ 21 + 1) + (length X - R0)"
      proof (cases "k = 0")
        case True
        then show ?thesis using k(2) R1 b lX by simp
      next
        case False
        then have "(length p - (n' + k)) + 1 \<le> length p - n'" using kp by linarith
        moreover define K :: nat where "K = 2 ^ 21 + 1"
        ultimately have "(length p - (n' + k)) * K + K \<le> (length p - n') * K"
          using mult_le_mono1 [of "(length p - (n' + k)) + 1" "length p - n'" K] by simp
        moreover have "length (X @ take k q) - R1 < K" using R1 unfolding lX K_def by linarith
        ultimately show ?thesis unfolding K_def [symmetric] by linarith
      qed
    qed
    show ?thesis
    proof (cases "err = Some ErrLimit \<or> err = None \<and> int k = m")
      case False
      then show ?thesis unfolding unfold using r(2) step [of R0 w1] lq(2) by (auto simp: w1_def)
    next
      case True
      have k: "k \<le> length q" using True r(2,3) by auto
      have i: "w2_inv cap n s0 pre R0 (X @ take k q) w1 \<or> cut_off R0 (w2_encoder w1) \<and> w2_frame cap n s0 R0 w1"
        using True r(2,3) by (auto simp: w1_def)
      from flushChunk_returns [OF i] obtain fe w2 where f: "flushChunk mt w1 = Some (fe, w2)"
        "fe = None \<Longrightarrow> w2_inv cap n s0 pre R0 (X @ take k q) w1" by blast
      show ?thesis
      proof (cases fe)
        case None
        note i1 = f(2) [OF None]
        have "\<exists>y. Writer2_Write_from mt p (n' + k) w2 = Some y"
        proof (cases "w2_written w1 = 0")
          case True
          obtain R where e: "encoding (w2_start w1) (newRangeEncoder w2_limited) (take R0 (X @ take k q)) R (X @ take k q) (w2_encoder w1)"
            "R0 \<le> length (X @ take k q)" using i1 by (auto simp: w2_inv_def)
          have "encoderDict_Buffered (e_dict e) = 0"
            using True w2_written_inv [OF i1] w2_encoding [OF e] encoding_Buffered [OF e(1)] by (simp add: w1_def)
          then have "err = None" using r(3) \<open>err = Some ErrLimit \<or> err = None \<and> int k = m\<close> by auto
          then have "0 < k" using r(2) lq(2) by simp
          moreover have "w2 = w1" using f(1) None True by (simp add: flushChunk_def)
          ultimately show ?thesis using step [of R0 w2] i1 k by blast
        next
          case False
          with flushChunk_inv [OF i1 f(1) [unfolded None]] obtain R1 where "R0 < R1" "w2_inv cap n s0 pre R1 (X @ take k q) w2" by blast
          then show ?thesis using step [of R1 w2] k by blast
        qed
        then show ?thesis unfolding unfold using True None f(1) by auto
      qed (use True f(1) in \<open>auto simp: unfold\<close>)
    qed
  qed
qed

lemma flushChunk_error: "flushChunk mt w = Some (Some err, w') \<Longrightarrow> w2_cstate w' = w2_cstate w"
  by (auto simp: flushChunk_def writeChunk_def writeUncompressedChunk_def writeCompressedChunk_def w2_write_header_def
      next_chunk_def Let_def split: if_splits option.splits prod.splits sum.splits)

lemma flush_loop_error:
  assumes "Writer2_flush_loop mt w = Some y" "fst y \<noteq> None" "w2_inv cap n s0 pre R0 X w"
  shows "w2_cstate (snd y) \<noteq> Stop_T"
proof -
  have "\<forall>R0. mt' = mt \<longrightarrow> fst y \<noteq> None \<longrightarrow> w2_inv cap n s0 pre R0 X w \<longrightarrow> w2_cstate (snd y) \<noteq> Stop_T"
    if "Writer2_flush_loop mt' w = Some y" for mt' y w
  proof (rule Writer2_flush_loop.raw_induct [OF _ that], intro allI impI, goal_cases)
    case (1 f mt' w y R0)
    have ns: "w2_cstate w \<noteq> Stop_T" using 1(5) by (simp add: w2_inv_def w2_frame_def)
    show ?case
    proof (cases "w2_written w \<le> 0")
      case True
      then show ?thesis using 1(2,4) by auto
    next
      case False
      then obtain err w1 where w1: "flushChunk mt w = Some (err, w1)" "case err of Some er \<Rightarrow> y = (Some er, w1) | None \<Rightarrow> f mt w1 = Some y"
        using 1(2,3) by (auto split: option.splits prod.splits)
      show ?thesis
      proof (cases err)
        case None
        with flushChunk_inv [OF 1(5)] w1(1) False obtain R1 where R1: "w2_inv cap n s0 pre R1 X w1" by auto
        have "f mt w1 = Some y" using w1(2) None by simp
        from 1(1) [OF this, rule_format, OF refl 1(4) R1] show ?thesis .
      qed (use flushChunk_error [of w _ w1] w1 ns in auto)
    qed
  qed
  from this [OF assms(1)] assms(2,3) show ?thesis by blast
qed

lemma flush_loop_returns:
  assumes "w2_inv cap n s0 pre R0 X w"
  shows "\<exists>y. Writer2_flush_loop mt w = Some y"
  using assms
proof (induction "length X - R0" arbitrary: R0 w rule: less_induct)
  case less
  obtain err w' where f: "flushChunk mt w = Some (err, w')"
    "err = None \<Longrightarrow> w2_written w \<noteq> 0 \<Longrightarrow> \<exists>R1 > R0. w2_inv cap n s0 pre R1 X w'"
    by (rule flushChunk_progress [OF less.prems], rule that) auto
  show ?case
  proof (cases "w2_written w \<le> 0 \<or> err \<noteq> None")
    case True
    then show ?thesis using f(1) by (subst Writer2_flush_loop.simps) auto
  next
    case False
    then obtain R1 where R1: "R0 < R1" "w2_inv cap n s0 pre R1 X w'" using f(2) by auto
    then have "length X - R1 < length X - R0" by (auto simp: w2_inv_def)
    from less.hyps [OF this R1(2)] show ?thesis using False f(1) by (subst Writer2_flush_loop.simps) auto
  qed
qed

end

section \<open>Runs\<close>

text \<open>A user calls \<open>Write\<close> and \<open>Flush\<close> in any order; the run ends with the first error.\<close>

datatype w2_call = W2_Write "byte list" | W2_Flush

fun call_data :: "w2_call \<Rightarrow> byte list" where
  "call_data (W2_Write p) = p"
| "call_data W2_Flush = []"

fun Writer2_calls :: "'m matcher \<Rightarrow> w2_call list \<Rightarrow> 'm Writer2 \<Rightarrow> (lzma_error option \<times> 'm Writer2) option" where
  "Writer2_calls mt [] w = Some (None, w)"
| "Writer2_calls mt (W2_Write p # cs) w =
     (case Writer2_Write mt p w of
        None \<Rightarrow> None
      | Some (_, Some err, w) \<Rightarrow> Some (Some err, w)
      | Some (_, None, w) \<Rightarrow> Writer2_calls mt cs w)"
| "Writer2_calls mt (W2_Flush # cs) w =
     (case Writer2_Flush mt w of
        None \<Rightarrow> None
      | Some (Some err, w) \<Rightarrow> Some (Some err, w)
      | Some (None, w) \<Rightarrow> Writer2_calls mt cs w)"

context chunk_writer
begin

lemma w2_not_stop: "w2_inv cap n s0 pre R0 X w \<Longrightarrow> w2_cstate w \<noteq> Stop_T"
  by (simp add: w2_inv_def w2_frame_def)

lemma calls_inv:
  assumes "w2_inv cap n s0 pre R0 X w"
  shows "\<exists>err w'. Writer2_calls mt cs w = Some (err, w') \<and>
    (err = None \<longrightarrow> (\<exists>R1. w2_inv cap n s0 pre R1 (X @ concat (map call_data cs)) w'))"
  using assms
proof (induction cs arbitrary: X R0 w)
  case Nil
  then show ?case by auto
next
  case (Cons c cs)
  note ns = w2_not_stop [OF Cons.prems]
  show ?case
  proof (cases c)
    case (W2_Write p)
    obtain k err w1 where w: "Writer2_Write_from mt p 0 w = Some (k, err, w1)"
      using Write_from_returns [OF Cons.prems, of p 0] by (metis prod_cases3)
    show ?thesis
    proof (cases err)
      case None
      with Write_from_w2 [OF w _ Cons.prems] obtain R1 where "w2_inv cap n s0 pre R1 (X @ p) w1" by auto
      from Cons.IH [OF this] show ?thesis using W2_Write w None ns by (simp add: Writer2_Write_def)
    qed (use W2_Write w ns in \<open>simp add: Writer2_Write_def\<close>)
  next
    case W2_Flush
    obtain err w1 where w: "Writer2_flush_loop mt w = Some (err, w1)"
      using flush_loop_returns [OF Cons.prems] by (metis surj_pair)
    show ?thesis
    proof (cases err)
      case None
      from flush_loop_w2 [OF w _ Cons.prems] None have "w2_inv cap n s0 pre (length X) X w1" by simp
      from Cons.IH [OF this] show ?thesis using W2_Flush w None ns by (simp add: Writer2_Flush_def)
    qed (use W2_Flush w ns in \<open>simp add: Writer2_Flush_def\<close>)
  qed
qed

text \<open>A closed stream; \<open>Close\<close> reports success also when its flush has failed, and only then is not stopped.\<close>

lemma Close2_chunked:
  assumes "w2_inv cap n s0 pre R0 X w" "Writer2_Close mt w = Some (None, w')" "w2_cstate w' = Stop_T"
  shows "\<exists>out. written (w2_w w') = pre @ out \<and> chunked cap n s0 Start_S s0 [] out X"
proof -
  note ns = w2_not_stop [OF assms(1)]
  obtain err w1 where w: "Writer2_flush_loop mt w = Some (err, w1)"
    using flush_loop_returns [OF assms(1)] by (metis surj_pair)
  show ?thesis
  proof (cases err)
    case None
    then have i: "w2_inv cap n s0 pre (length X) X w1" using flush_loop_w2 [OF w _ assms(1)] by simp
    then obtain out where out: "written (w2_w w1) = pre @ out"
      "\<And>rest D. chunked cap n s0 (w2_cstate w1) (w2_start w1) X rest D \<Longrightarrow> chunked cap n s0 Start_S s0 [] (out @ rest) D"
      by (auto simp: w2_inv_def emitted_def)
    have "written (w2_w w') = written (w2_w w1) @ [0]"
      using assms(2) ns w None by (auto simp: Writer2_Close_def Writer2_Flush_def split: prod.splits option.splits dest!: bw_Write_None)
    then show ?thesis using out(1) out(2) [OF chunked_stop [OF w2_not_stop [OF i]]] by auto
  next
    case (Some e)
    have "w2_cstate w1 \<noteq> Stop_T \<Longrightarrow> False" using assms(2,3) ns w Some by (auto simp: Writer2_Close_def Writer2_Flush_def)
    moreover have "w2_cstate w1 \<noteq> Stop_T" using flush_loop_error [OF w _ assms(1)] Some by simp
    ultimately show ?thesis by blast
  qed
qed

end

end
