(* ===== verification/Lzma2Props.thy ===== *)
theory Lzma2Props
  imports Lzma2WriteProofs LzmaFileProps
begin

text \<open>LZMA2 as its users see it: what \<open>Writer2\<close> writes is read back by \<open>Reader2\<close>, and every call returns.\<close>

fun Reader2_reads :: "nat list \<Rightarrow> Reader2 \<Rightarrow> (byte list \<times> Reader2) option" where
  "Reader2_reads [] r = Some ([], r)"
| "Reader2_reads (k # ks) r =
     (case Reader2_Read k r of
        None \<Rightarrow> None
      | Some (p, _, r) \<Rightarrow> (case Reader2_reads ks r of None \<Rightarrow> None | Some (q, r) \<Rightarrow> Some (p @ q, r)))"

lemma Reader2_reads_serving:
  assumes "newState (st_Properties s0) = Inr s0" "serving cap n s0 tail D R r" "\<forall>k \<in> set ks. 0 < k"
  shows "\<exists>r'. Reader2_reads ks r = Some (take (sum_list ks) (drop R D), r') \<and>
    serving cap n s0 tail D (R + length (take (sum_list ks) (drop R D))) r'"
  using assms(2,3)
proof (induction ks arbitrary: R r)
  case (Cons k ks)
  define X where "X = drop R D"
  have "0 < k" using Cons.prems(2) by simp
  from Read2_serving [OF assms(1) Cons.prems(1) this, folded X_def] obtain err r1 where
    r: "Reader2_Read k r = Some (take k X, err, r1)" "serving cap n s0 tail D (R + length (take k X)) r1" by blast
  have X1: "drop (R + length (take k X)) D = drop k X" unfolding X_def by (simp add: min_def add.commute)
  from Cons.IH [OF r(2)] Cons.prems(2) obtain r2 where
    "Reader2_reads ks r1 = Some (take (sum_list ks) (drop k X), r2)"
    "serving cap n s0 tail D (R + length (take k X) + length (take (sum_list ks) (drop k X))) r2" unfolding X1 by auto
  moreover have "take k X @ take (sum_list ks) (drop k X) = take (sum_list (k # ks)) X" by (simp add: take_add)
  ultimately show ?case using r(1) unfolding X_def [symmetric]
    by (metis (no_types, lifting) Reader2_reads.simps(2) add.assoc case_prod_conv length_append option.simps(5))
qed simp

section \<open>Opening\<close>

interpretation w2: chunk_writer any_ops any_ok
  by unfold_locales

lemma Verify2_ok:
  assumes "Writer2Config_Verify c = Inr c'"
  shows "MinDictCap \<le> c2_DictCap c'" "maxMatchLen \<le> c2_BufSize c'" "c2_Matcher c' = c2_Matcher c"
proof -
  from assms have c': "c' = Writer2Config_fill c"
    by (auto simp: Writer2Config_Verify_def Let_def split: option.splits if_splits)
  with assms show "MinDictCap \<le> c2_DictCap c'" "maxMatchLen \<le> c2_BufSize c'"
    by (auto simp: Writer2Config_Verify_def Let_def split: option.splits if_splits)
  show "c2_Matcher c' = c2_Matcher c" by (simp add: c' Writer2Config_fill_def Let_def)
qed

lemma newState_props: "newState p = Inr s \<Longrightarrow> st_Properties s = p"
  by (auto simp: newState_def state_Reset_def sbind_Inr_iff)

lemma NewWriter2_ok:
  assumes "NewWriter2 c dest = Inr w" "c2_Matcher c = HashTable4"
  obtains c' n s0 where "Writer2Config_Verify c = Inr c'" "newState (st_Properties s0) = Inr s0"
    "w2.w2_inv (nat (c2_DictCap c')) n s0 (written dest) 0 [] w"
proof -
  from assms(1) obtain c' p s0 m d where o: "Writer2Config_Verify c = Inr c'" "newState p = Inr s0"
    "matchAlgorithm_new (c2_Matcher c') (c2_DictCap c') = Inr m" "newEncoderDict (c2_DictCap c') (c2_BufSize c') = Inr d"
    "w = \<lparr>w2_w = dest, w2_start = s0, w2_encoder = newEncoder w2_limited s0 d m False, w2_cstate = Start_S,
       w2_ctype = defaultChunkType Start_S\<rparr>"
    by (auto simp: NewWriter2_def sbind_Inr_iff split: option.splits)
  note v = Verify2_ok [OF o(1)]
  obtain t where t: "m = Hash_Table t" "newHashTable (int (nat (c2_DictCap c'))) 4 = Inr t"
    using o(3) v(1,3) assms(2) by (auto simp: sbind_Inr_iff MinDictCap_def)
  have "table_ok (nat (c2_DictCap c')) 0 t" using newHashTable_ok [OF t(2)] by simp
  then have m: "any_ok (nat (c2_DictCap c')) 0 m" using t(1) by simp
  note en = any.encoding_new [OF o(2,4) m v(2), of w2_limited False]
  have c1: "1 \<le> nat (c2_DictCap c')" using v(1) by (simp add: MinDictCap_def)
  obtain n where n: "state_ok n s0" using state_init(1) [OF o(2) c1] by blast
  have p: "st_Properties s0 = p" by (rule newState_props [OF o(2)])
  have fr: "w2.w2_frame (nat (c2_DictCap c')) n s0 0 w"
    using en(2) n state_init(2) [OF o(2) c1] ed_new [OF o(4)]
    by (simp add: w2.w2_frame_def o(5) newEncoder_def opLenMargin_def Pos_def newEncoderDict_def ed_rep_def)
  have "w2.emitted (nat (c2_DictCap c')) n s0 (written dest) [] w"
    unfolding w2.emitted_def by (rule exI [of _ "[]"]) (simp add: o(5))
  then have "w2.w2_inv (nat (c2_DictCap c')) n s0 (written dest) 0 [] w"
    using en(1) fr by (auto simp: w2.w2_inv_def o(5))
  then show thesis by (rule that [OF o(1), rotated]) (use o(2) p in simp)
qed

lemma NewReader2_ok:
  assumes s0: "newState (st_Properties s0) = Inr s0" and c: "chunked cap n s0 Start_S s0 [] out D" "br_data r = out @ tail"
    and d: "Reader2Config_Verify rcap = Inr dcap" "int cap \<le> dcap"
  shows "\<exists>rd. NewReader2 rcap r = Inr rd \<and> serving cap n s0 tail D 0 rd"
proof -
  have dc: "MinDictCap \<le> dcap" "dcap \<le> MaxDictCap" using d(1) by (auto simp: Reader2Config_Verify_def Let_def split: if_splits)
  then obtain dd where dd: "newDecoderDict dcap = Inr dd" by (auto simp: newDecoderDict_def MinDictCap_def)
  note nd = dd_new [OF dd]
  define r0 where "r0 = \<lparr>r2_r = r, r2_err = None, r2_dict = dd, r2_ur = None, r2_decoder = None,
           r2_chunkReader = No_Chunk, r2_lr = False, r2_missing = 0, r2_window = 0, r2_cstate = Start_S\<rparr>"
  have "between cap n s0 tail [] out D r0" unfolding between_def
    by (rule exI [of _ s0]) (use c nd dc d(2) in \<open>auto simp: r0_def has_state_def roomy_def MinDictCap_def maxMatchLen_def minMatchLen_def\<close>)
  from start_between [OF s0 this] show ?thesis
  proof (elim disjE exE conjE)
    fix r1 assume s: "startChunk r0 = (Some (LzIo EOF), r1)" "D = []" "EOS r1" "\<not> r2_lr r1" "br_data (r2_r r1) = tail"
    then have "NewReader2 rcap r = Inr (r1\<lparr>r2_err := Some (LzIo EOF)\<rparr>)"
      using d(1) dd by (simp add: NewReader2_def r0_def)
    then show ?thesis using s by (auto simp: serving_def EOS_def)
  next
    fix r1 h' out' assume s: "startChunk r0 = (None, r1)" "inside cap n s0 tail h' out' D (length []) r1"
    then have "NewReader2 rcap r = Inr r1" using d(1) dd by (simp add: NewReader2_def r0_def)
    then show ?thesis using s by (auto simp: serving_def)
  qed
qed

section \<open>The round trip\<close>

text \<open>
  C5. The LZMA2 round trip. A \<open>Writer2\<close> with the hash table is given data in any pieces, with
  calls of \<open>Flush\<close> between them, and closed; no call reports an error and the end marker has been
  written. The bytes it has sent, followed by anything, are given to a \<open>Reader2\<close> with at least the capacity of
  the writer's dictionary. Then reads of any sizes deliver the data in order, across chunks coded, stored
  and split at the limits of their sizes, a read past the end returns the rest with \<open>io.EOF\<close>,
  and \<open>EOS\<close> then holds.
\<close>

theorem lzma2_roundtrip:
  assumes "NewWriter2 c dest = Inr w0" "c2_Matcher c = HashTable4" "Writer2Config_Verify c = Inr c'"
    and "Writer2_calls any_ops cs w0 = Some (None, w1)" "Writer2_Close any_ops w1 = Some (None, w2)" "w2_cstate w2 = Stop_T"
    and "br_data r = drop (length (written dest)) (written (w2_w w2)) @ rest"
    and "Reader2Config_Verify rcap = Inr dcap" "c2_DictCap c' \<le> dcap"
    and "\<forall>k \<in> set ks. 0 < k" "0 < m"
  shows "\<exists>rd rd1 rd2. NewReader2 rcap r = Inr rd \<and>
    Reader2_reads ks rd = Some (take (sum_list ks) (concat (map call_data cs)), rd1) \<and>
    Reader2_Read m rd1 = Some (take m (drop (sum_list ks) (concat (map call_data cs))),
      if length (concat (map call_data cs)) < sum_list ks + m then Some (LzIo EOF) else None, rd2) \<and>
    (length (concat (map call_data cs)) < sum_list ks + m \<longrightarrow> EOS rd2)"
proof -
  define X where "X = concat (map call_data cs)"
  obtain c1 n s0 where w: "Writer2Config_Verify c = Inr c1" "newState (st_Properties s0) = Inr s0"
    "w2.w2_inv (nat (c2_DictCap c1)) n s0 (written dest) 0 [] w0"
    by (rule NewWriter2_ok [OF assms(1,2)])
  define cap where "cap = nat (c2_DictCap c')"
  have i: "w2.w2_inv cap n s0 (written dest) 0 [] w0" using w(1,3) assms(3) by (simp add: cap_def)
  from w2.calls_inv [OF i, of cs] assms(4) obtain R1 where "w2.w2_inv cap n s0 (written dest) R1 X w1" by (auto simp: X_def)
  from w2.Close2_chunked [OF this assms(5,6)] obtain out where
    out: "written (w2_w w2) = written dest @ out" "chunked cap n s0 Start_S s0 [] out X" by blast
  have r: "br_data r = out @ rest" using assms(7) out(1) by simp
  have d: "int cap \<le> dcap" using assms(9) Verify2_ok(1) [OF assms(3)] by (simp add: cap_def MinDictCap_def)
  obtain rd where rd: "NewReader2 rcap r = Inr rd" "serving cap n s0 rest X 0 rd"
    using NewReader2_ok [OF w(2) out(2) r assms(8) d] by blast
  from Reader2_reads_serving [OF w(2) rd(2) assms(10)] obtain rd1 where rd1: "Reader2_reads ks rd = Some (take (sum_list ks) X, rd1)"
    "serving cap n s0 rest X (length (take (sum_list ks) X)) rd1" by auto
  have dr: "drop (length (take (sum_list ks) X)) X = drop (sum_list ks) X" by (simp add: min_def)
  have "length (drop (sum_list ks) X) < m \<longleftrightarrow> length X < sum_list ks + m" using assms(11) by auto
  with Read2_serving [OF w(2) rd1(2) assms(11), unfolded dr] rd(1) rd1(1) show ?thesis
    unfolding X_def [symmetric] by auto
qed

section \<open>A run\<close>

definition sample2_config :: Writer2Config where
  "sample2_config = \<lparr>c2_Properties = Some \<lparr>LC = 0, LP = 0, PB = 0\<rparr>, c2_DictCap = 4096, c2_BufSize = 273, c2_Matcher = HashTable4\<rparr>"

definition sample2_calls :: "w2_call list" where
  "sample2_calls = [W2_Write [], W2_Flush]"

definition sample2_open :: "any_matcher Writer2" where
  "sample2_open = (case NewWriter2 sample2_config \<lparr>written = [1], quota = None\<rparr> of Inr w \<Rightarrow> w)"

definition sample2_written :: "lzma_error option \<times> any_matcher Writer2" where
  "sample2_written = (case Writer2_calls any_ops sample2_calls sample2_open of Some r \<Rightarrow> r)"

definition sample2_closed :: "lzma_error option \<times> any_matcher Writer2" where
  "sample2_closed = (case Writer2_Close any_ops (snd sample2_written) of Some r \<Rightarrow> r)"

lemma sample2_new: "NewWriter2 sample2_config \<lparr>written = [1], quota = None\<rparr> = Inr sample2_open"
  by code_simp

lemma sample2_verify: "Writer2Config_Verify sample2_config = Inr sample2_config"
  by code_simp

lemma sample2_run:
  "case Writer2_calls any_ops sample2_calls sample2_open of
     Some (None, w) \<Rightarrow> (case Writer2_Close any_ops w of Some (None, w) \<Rightarrow> w2_cstate w = Stop_T \<and> written (w2_w w) = [1, 0] | _ \<Rightarrow> False)
   | _ \<Rightarrow> False"
  by code_simp

lemma sample2_steps:
  "Writer2_calls any_ops sample2_calls sample2_open = Some (None, snd sample2_written)"
  "Writer2_Close any_ops (snd sample2_written) = Some (None, snd sample2_closed)"
  "w2_cstate (snd sample2_closed) = Stop_T" "written (w2_w (snd sample2_closed)) = [1, 0]"
  using sample2_run by (auto simp: sample2_closed_def sample2_written_def split: option.splits prod.splits)

theorem lzma2_roundtrip_witness:
  "\<exists>rd rd1 rd2. NewReader2 0 \<lparr>br_data = [0, 9], br_end = EOF\<rparr> = Inr rd \<and>
    Reader2_reads [1] rd = Some (take (sum_list [1]) (concat (map call_data sample2_calls)), rd1) \<and>
    Reader2_Read 2 rd1 = Some (take 2 (drop (sum_list [1]) (concat (map call_data sample2_calls))),
      if length (concat (map call_data sample2_calls)) < sum_list [1] + 2 then Some (LzIo EOF) else None, rd2) \<and>
    (length (concat (map call_data sample2_calls)) < sum_list [1] + 2 \<longrightarrow> EOS rd2)"
  by (rule lzma2_roundtrip [where c' = sample2_config and dcap = "8 * 1024 * 1024" and rest = "[9]",
        OF sample2_new _ sample2_verify sample2_steps(1-3)])
    (simp_all add: sample2_steps(4) sample2_config_def Reader2Config_Verify_def Reader2Config_fill_def MinDictCap_def MaxDictCap_def)

end
