(* ===== verification/Lzma2Safe.thy ===== *)
theory Lzma2Safe
  imports Lzma2 LzmaSafeProps
begin

text \<open>
  The reader of LZMA2 streams on arbitrary bytes: \<open>reader2_ok\<close> is what every call keeps, and each
  call of \<open>Read\<close> returns, because every round delivers a byte, uses up a byte of the source
  or ends.
\<close>

section \<open>Stored chunks\<close>

text \<open>A source that has been read from.\<close>

definition read_on :: "byte_reader \<Rightarrow> byte_reader \<Rightarrow> bool" where
  "read_on src src' \<longleftrightarrow> (\<exists>n. src' = src\<lparr>br_data := drop n (br_data src)\<rparr>)"

lemma read_on_refl [simp]: "read_on src src"
  unfolding read_on_def by (rule exI [of _ 0]) simp

lemma read_on_drop [simp]: "read_on src (src\<lparr>br_data := drop n (br_data src)\<rparr>)"
  unfolding read_on_def by blast

lemma read_on_trans [trans]: "read_on a b \<Longrightarrow> read_on b c \<Longrightarrow> read_on a c"
  by (auto simp: read_on_def)

lemma read_on_length: "read_on a b \<Longrightarrow> length (br_data b) \<le> length (br_data a)"
  by (auto simp: read_on_def)

definition dict_wf :: "decoderDict \<Rightarrow> bool" where
  "dict_wf dict \<longleftrightarrow> dict_ok dict \<and> maxMatchLen \<le> int (buffer_Cap (dd_buf dict))"

lemma decoder_ok_wf: "decoder_ok d \<longleftrightarrow> (\<exists>p. state_safe p (d_State d)) \<and> dict_wf (d_Dict d)"
  by (auto simp: decoder_ok_def dict_wf_def)

lemma wf_reset: "dict_wf dict \<Longrightarrow> dict_wf (decoderDict_Reset dict)"
  using dd_reset [of _ _ _ dict] by (fastforce simp: dict_wf_def dict_ok_def decoderDict_Reset_def)

lemma wf_Read:
  assumes "dict_wf dict" "decoderDict_Read dict k = (q, dict')"
  shows "dict_wf dict'" "length q \<le> k" "length q < k \<Longrightarrow> 0 < decoderDict_Available dict'"
proof -
  obtain h0 h R where r: "dd_rep h0 h R dict" and cap: "maxMatchLen \<le> int (buffer_Cap (dd_buf dict))"
    using assms(1) by (auto simp: dict_wf_def dict_ok_def)
  note rr = dd_Read [OF r assms(2)]
  show "dict_wf dict'" using rr(2,3) cap by (auto simp: dict_wf_def intro: dict_okI)
  show "length q \<le> k" using rr(1) by simp
  assume "length q < k"
  define X where "X = drop R (h0 @ h)"
  have "q = take k X" using rr(1) by (simp add: X_def)
  with \<open>length q < k\<close> have "length q = length X" by (simp add: min_def split: if_splits)
  also have "\<dots> = length h0 + length h - R" by (simp add: X_def)
  finally have "length h0 + length h - (R + length q) = 0" by simp
  then show "0 < decoderDict_Available dict'"
    using dd_Available [OF rr(2)] rr(3) cap by (simp add: maxMatchLen_def minMatchLen_def)
qed

definition left :: "ur_state \<Rightarrow> nat" where
  "left s = length (br_data (snd (snd s))) + (if ur_eof (fst s) then 0 else 1)"

lemma ur_CopyN_ok:
  assumes "dict_wf dict" "ur_CopyN (decoderDict_Available dict) (ur, dict, src) = (n, err, ur', dict', src')"
  shows "dict_wf dict'" "err \<noteq> Some LzPanic" "length (br_data src') = length (br_data src) - n" "n \<le> length (br_data src)"
    "err = None \<Longrightarrow> n = decoderDict_Available dict" "ur_err ur' = ur_err ur" "ur_eof ur' = ur_eof ur" "read_on src src'"
proof -
  define p where "p = take (min (decoderDict_Available dict) (ur_N ur)) (br_data src)"
  obtain h0 h R where r: "dd_rep h0 h R dict" and cap: "maxMatchLen \<le> int (buffer_Cap (dd_buf dict))"
    using assms(1) by (auto simp: dict_wf_def dict_ok_def)
  obtain j werr d1 where wr: "decoderDict_Write dict p = (j, werr, d1)" by (metis prod_cases3)
  note w = dd_Write [OF r wr]
  have p: "length p \<le> decoderDict_Available dict" "length p \<le> length (br_data src)" by (simp_all add: p_def)
  then have j: "j = length p" "werr = None" using w(1,2) by simp_all
  have res: "n = length p" "dict' = d1" "ur' = ur\<lparr>ur_N := ur_N ur - length p\<rparr>"
    "src' = src\<lparr>br_data := drop (length p) (br_data src)\<rparr>"
    "err = (if length p = decoderDict_Available dict then None else if length p = ur_N ur then Some (LzIo EOF) else Some (LzIo (br_end src)))"
    using assms(2) wr j by (auto simp: ur_CopyN_def p_def Let_def)
  show "dict_wf dict'" using w(3,4) cap res(2) by (auto simp: dict_wf_def intro: dict_okI)
  show "err \<noteq> Some LzPanic" "length (br_data src') = length (br_data src) - n" "n \<le> length (br_data src)"
    "err = None \<Longrightarrow> n = decoderDict_Available dict" "ur_err ur' = ur_err ur" "ur_eof ur' = ur_eof ur" "read_on src src'"
    using p(2) by (auto simp: res split: if_splits)
qed

lemma ur_fill_ok:
  assumes "dict_wf dict" "0 < decoderDict_Available dict" "ur_fill (ur, dict, src) = (err, ur', dict', src')"
  shows "dict_wf dict'" "err \<noteq> Some LzPanic" "read_on src src'" "ur_err ur' = ur_err ur"
    "err = None \<Longrightarrow> left (ur', dict', src') < left (ur, dict, src)"
proof -
  obtain n cerr ur1 dict1 src1 where c: "ur_CopyN (decoderDict_Available dict) (ur, dict, src) = (n, cerr, ur1, dict1, src1)"
    by (metis prod_cases5)
  note ok = ur_CopyN_ok [OF assms(1) c]
  show "dict_wf dict'" "err \<noteq> Some LzPanic" "read_on src src'" "ur_err ur' = ur_err ur"
    using assms(1,3) c ok by (auto simp: ur_fill_def Let_def split: if_splits)
  assume "err = None"
  then show "left (ur', dict', src') < left (ur, dict, src)"
    using assms(2,3) c ok by (auto simp: ur_fill_def left_def Let_def split: if_splits)
qed

lemma ur_Read_from_ok:
  assumes "dict_wf dict" "length acc \<le> k" "ur_err ur \<noteq> Some LzPanic"
  shows "\<exists>out err ur' dict' src'. ur_Read_from k acc (ur, dict, src) = Some (out, err, ur', dict', src') \<and>
    dict_wf dict' \<and> err \<noteq> Some LzPanic \<and> ur_err ur' \<noteq> Some LzPanic \<and> length out \<le> k \<and>
    (err = None \<longrightarrow> length out = k) \<and> read_on src src'"
  using assms
proof (induction "left (ur, dict, src)" arbitrary: ur dict src acc rule: less_induct)
  case less
  obtain q d1 where rd: "decoderDict_Read dict (k - length acc) = (q, d1)" by fastforce
  note r = wf_Read [OF less.prems(1) rd]
  have le: "length (acc @ q) \<le> k" using r(2) less.prems(2) by simp
  show ?case
  proof (cases "length (acc @ q) \<ge> k")
    case True
    then show ?thesis using rd r(1) le less.prems(3) by (subst ur_Read_from.simps) simp
  next
    case False
    then have av: "0 < decoderDict_Available d1" using r(3) by simp
    obtain err ur2 d2 src2 where f: "ur_fill (ur, d1, src) = (err, ur2, d2, src2)" by (metis prod_cases4)
    note ok = ur_fill_ok [OF r(1) av f]
    show ?thesis
    proof (cases err)
      case (Some e)
      then show ?thesis using False rd f ok le by (subst ur_Read_from.simps) simp
    next
      case None
      then have "left (ur2, d2, src2) < left (ur, dict, src)" using ok(5) by (simp add: left_def)
      from less.hyps [OF this ok(1) le] less.prems(3) ok(4) obtain out err' ur' dict' src' where
        i: "ur_Read_from k (acc @ q) (ur2, d2, src2) = Some (out, err', ur', dict', src')" "dict_wf dict'" "err' \<noteq> Some LzPanic"
          "ur_err ur' \<noteq> Some LzPanic" "length out \<le> k" "err' = None \<longrightarrow> length out = k" "read_on src2 src'" by metis
      have "ur_Read_from k acc (ur, dict, src) = ur_Read_from k (acc @ q) (ur2, d2, src2)"
        using None False rd f by (subst ur_Read_from.simps) simp
      then show ?thesis using i read_on_trans [OF ok(3) i(7)] by simp
    qed
  qed
qed

section \<open>The invariant\<close>

definition reader2_ok :: "Reader2 \<Rightarrow> bool" where
  "reader2_ok r \<longleftrightarrow> dict_wf (r2_dict r) \<and>
     (\<forall>d. r2_decoder r = Some d \<longrightarrow> (\<exists>p. state_safe p (d_State d))) \<and>
     (\<forall>ur. r2_ur r = Some ur \<longrightarrow> ur_err ur \<noteq> Some LzPanic) \<and>
     r2_err r \<noteq> Some LzPanic"

definition readable :: "Reader2 \<Rightarrow> bool" where
  "readable r \<longleftrightarrow> (case r2_chunkReader r of No_Chunk \<Rightarrow> False
     | Raw_Chunk \<Rightarrow> r2_ur r \<noteq> None | Coded_Chunk \<Rightarrow> r2_decoder r \<noteq> None)"

lemma ReadFull_on: "br_ReadFull n br = (res, br') \<Longrightarrow> read_on br br'"
  by (auto simp: br_ReadFull_def read_on_def intro: exI [of _ n] split: if_splits)

lemma header_props: "chunk_UnmarshalBinary p = Inr h \<Longrightarrow> Properties_verify (ch_props h) = None"
  by (auto simp: chunk_UnmarshalBinary_def Let_def sbind_Inr_iff noProps_def verify_None dest: PropertiesForCode_ok(1) split: if_splits)

lemma props_no_panic: "PropertiesForCode b \<noteq> Inl LzPanic"
  by (simp add: PropertiesForCode_def Let_def)

lemma type_no_panic: "headerChunkType b \<noteq> Inl LzPanic"
  by (simp add: headerChunkType_def errHeaderByte_def Let_def)

lemma header_no_panic: "chunk_UnmarshalBinary p \<noteq> Inl LzPanic" 
  unfolding chunk_UnmarshalBinary_def Let_def
  by (simp add: sbind_Inl_iff props_no_panic type_no_panic del: One_nat_def)

lemma readChunkHeader_ok:
  assumes "readChunkHeader br = (res, br')"
  shows "res \<noteq> Inl LzPanic" "res = Inr h \<Longrightarrow> Properties_verify (ch_props h) = None \<and> length (br_data br') < length (br_data br)"
    "read_on br br'"
proof -
  obtain r1 b1 where f1: "br_ReadFull 1 br = (r1, b1)" by fastforce
  note l1 = ReadFull_on [OF f1] and n1 = f1 ReadFull_no_panic [of 1 br b1]
  have "res \<noteq> Inl LzPanic \<and> read_on br br' \<and>
    (\<forall>h. res = Inr h \<longrightarrow> Properties_verify (ch_props h) = None \<and> length (br_data br') < length (br_data br))"
  proof (cases r1)
    case (Inl e)
    then show ?thesis using assms n1 l1 by (auto simp: readChunkHeader_def lbind_def)
  next
    case p: (Inr p)
    then have one: "length (br_data b1) < length (br_data br)" using f1 by (auto simp: br_ReadFull_def split: if_splits)
    show ?thesis
    proof (cases "headerChunkType (p ! 0)")
      case (Inl e)
      then show ?thesis using assms f1 p l1 type_no_panic by (auto simp: readChunkHeader_def lbind_def lfail_def)
    next
      case c: (Inr c)
      obtain r2 b2 where f2: "br_ReadFull (headerLen c - 1) b1 = (r2, b2)" by fastforce
      note l2 = ReadFull_on [OF f2] and n2 = f2 ReadFull_no_panic [of "headerLen c - 1" b1 b2]
      have "readChunkHeader br = (case r2 of Inl e \<Rightarrow> (Inl e, b2) | Inr q \<Rightarrow> (chunk_UnmarshalBinary (p @ q), b2))"
        using f1 p c f2 by (auto simp: readChunkHeader_def lbind_def lfail_def lret_def split: sum.split)
      then show ?thesis using assms n2 read_on_trans [OF l1 l2] read_on_length [OF l2] one header_no_panic header_props
        by (auto split: sum.splits)
    qed
  qed
  then show "res \<noteq> Inl LzPanic" "read_on br br'"
    "res = Inr h \<Longrightarrow> Properties_verify (ch_props h) = None \<and> length (br_data br') < length (br_data br)" by blast+
qed


lemma next_no_panic: "chunkState_next c t \<noteq> Inl LzPanic"
  by (cases c; cases t) (simp_all add: errChunkType_def)

lemma Reset_safe:
  assumes "state_safe p s"
  shows "\<exists>s'. state_Reset (st_Properties s) = Inr s' \<and> state_safe p s'"
proof -
  have p: "Properties_verify p = None" "st_Properties s = p" using assms by (auto simp: state_safe_def)
  then obtain s' where "newState p = Inr s'" using newState_total by blast
  then show ?thesis using newState_safe [OF _ p(1)] p(2) unfolding newState_def by auto
qed

lemma decoder_for_safe:
  assumes "reader2_ok r" "Properties_verify (ch_props h) = None"
  shows "decoder_for br h sz r \<noteq> Inl LzPanic"
    "decoder_for br h sz r = Inr d \<Longrightarrow> \<exists>p. state_safe p (d_State d)"
proof -
  obtain s where s: "newState (ch_props h) = Inr s" "state_safe (ch_props h) s"
    using newState_total [OF assms(2)] newState_safe [OF _ assms(2)] by blast
  have np: "\<And>br b. newRangeDecoder br \<noteq> (Inl LzPanic, b)" by (rule newRangeDecoder_no_panic)
  have "decoder_for br h sz r \<noteq> Inl LzPanic \<and> (decoder_for br h sz r = Inr d \<longrightarrow> (\<exists>p. state_safe p (d_State d)))"
  proof (cases "r2_decoder r")
    case None
    then show ?thesis using s np by (auto simp: decoder_for_def newDecoder_def split: prod.split sum.split)
  next
    case (Some d0)
    then obtain p where p: "state_safe p (d_State d0)" using assms(1) by (auto simp: reader2_ok_def)
    from Reset_safe [OF p] obtain s' where s': "state_Reset (st_Properties (d_State d0)) = Inr s'" "state_safe p s'" by blast
    define m where "m = (case ch_ctype h of cLR \<Rightarrow> state_Reset (st_Properties (d_State d0))
      | cLRN \<Rightarrow> newState (ch_props h) | cLRND \<Rightarrow> newState (ch_props h) | _ \<Rightarrow> Inr (d_State d0))"
    obtain t q where m: "m = Inr t" "state_safe q t"
      using s s' p by (cases "ch_ctype h") (auto simp: m_def)
    have "decoder_for br h sz r = decoder_Reopen br sz (d0\<lparr>d_State := t, d_Dict := r2_dict r\<rparr>)"
      using Some m(1) by (simp add: decoder_for_def m_def [symmetric])
    then show ?thesis using m(2) np by (auto simp: decoder_Reopen_def split: prod.split sum.split)
  qed
  then show "decoder_for br h sz r \<noteq> Inl LzPanic" "decoder_for br h sz r = Inr d \<Longrightarrow> \<exists>p. state_safe p (d_State d)" by blast+
qed

abbreviation source_left :: "Reader2 \<Rightarrow> nat" where
  "source_left r \<equiv> length (br_data (r2_r r))"

definition started :: "Reader2 \<Rightarrow> lzma_error option \<Rightarrow> Reader2 \<Rightarrow> bool" where
  "started r err r' \<longleftrightarrow> reader2_ok r' \<and> err \<noteq> Some LzPanic \<and> r2_err r' = r2_err r \<and> read_on (r2_r r) (r2_r r') \<and>
     (err = None \<longrightarrow> readable r')"

lemma open_chunk_ok:
  assumes "reader2_ok r" "Properties_verify (ch_props h) = None" "open_chunk h r = (err, r')"
  shows "started r err r'"
proof -
  define r0 where "r0 = (if ch_ctype h = cUD \<or> ch_ctype h = cLRND then r\<lparr>r2_dict := decoderDict_Reset (r2_dict r)\<rparr> else r)"
  have r0: "reader2_ok r0" "r2_r r0 = r2_r r" "r2_err r0 = r2_err r"
    using assms(1) wf_reset by (auto simp: r0_def reader2_ok_def)
  show ?thesis
  proof (cases "uncompressed (ch_ctype h)")
    case True
    then show ?thesis using assms(3) r0 unfolding open_chunk_def r0_def [symmetric] Let_def
      by (auto simp: started_def readable_def reader2_ok_def newUncompressedReader_def ur_Reopen_def split: option.splits)
  next
    case False
    define n where "n = unat (ch_compressed h) + 1"
    define r1 where "r1 = r0\<lparr>r2_lr := True, r2_missing := n - length (br_data (r2_r r0)), r2_window := min n (length (br_data (r2_r r0))),
      r2_r := r2_r r0\<lparr>br_data := drop n (br_data (r2_r r0))\<rparr>\<rparr>"
    define dr where "dr = decoder_for (window n (r2_r r0)) h (uint (ch_uncompressed h) + 1) r1"
    have r1: "reader2_ok r1" "read_on (r2_r r) (r2_r r1)" "r2_err r1 = r2_err r" using r0 by (auto simp: r1_def reader2_ok_def)
    have e: "(err, r') = (case dr of Inl err \<Rightarrow> (Some err, r1) | Inr d \<Rightarrow> (None, r1\<lparr>r2_decoder := Some d, r2_chunkReader := Coded_Chunk\<rparr>))"
      using assms(3) False unfolding open_chunk_def r0_def [symmetric] Let_def n_def [symmetric] r1_def [symmetric] dr_def [symmetric] by simp
    note ok = decoder_for_safe [OF r1(1) assms(2), of "window n (r2_r r0)" "uint (ch_uncompressed h) + 1", folded dr_def]
    show ?thesis
    proof (cases dr)
      case (Inl err)
      then show ?thesis using e r1 ok(1) by (simp add: started_def)
    next
      case (Inr d)
      then show ?thesis using e r1 ok(2) [OF Inr] by (auto simp: started_def readable_def reader2_ok_def)
    qed
  qed
qed

lemma startChunk_ok:
  assumes "reader2_ok r" "startChunk r = (err, r')"
  shows "started r err r'" "err = None \<Longrightarrow> source_left r' < source_left r"
proof -
  define r1 where "r1 = r\<lparr>r2_lr := False, r2_chunkReader := No_Chunk\<rparr>"
  obtain res src where h: "readChunkHeader (r2_r r1) = (res, src)" by fastforce
  note ho = readChunkHeader_ok [OF h]
  define r2 where "r2 = r1\<lparr>r2_r := src\<rparr>"
  have r2: "reader2_ok (r2\<lparr>r2_cstate := c\<rparr>)" "reader2_ok r2" "read_on (r2_r r) (r2_r r2)" "r2_err r2 = r2_err r" for c
    using assms(1) ho(3) by (auto simp: reader2_ok_def r1_def r2_def)
  have "started r err r' \<and> (err = None \<longrightarrow> source_left r' < source_left r)"
  proof (cases "r2_lr r \<and> unread r")
    case True
    then show ?thesis using assms by (auto simp: startChunk_def started_def errUnreadData_def)
  next
    case False
    then have e: "(err, r') = (case res of Inl err \<Rightarrow> (Some (if err = LzIo EOF then LzIo UnexpectedEOF else err), r2)
      | Inr hh \<Rightarrow> (case chunkState_next (r2_cstate r2) (ch_ctype hh) of Inl err \<Rightarrow> (Some err, r2)
          | Inr c \<Rightarrow> if c = Stop_T then (Some (LzIo EOF), r2\<lparr>r2_cstate := c\<rparr>) else open_chunk hh (r2\<lparr>r2_cstate := c\<rparr>)))"
      using assms(2) h unfolding startChunk_def r1_def [symmetric] Let_def
      by (auto simp: r2_def r1_def split: sum.split)
    show ?thesis
    proof (cases res)
      case (Inl err0)
      then show ?thesis using e r2(2-) ho(1) by (auto simp: started_def)
    next
      case hh: (Inr hh)
      then have p: "Properties_verify (ch_props hh) = None" "source_left r2 < source_left r" using ho(2) by (auto simp: r1_def r2_def)
      show ?thesis
      proof (cases "chunkState_next (r2_cstate r2) (ch_ctype hh)")
        case (Inl err0)
        then show ?thesis using e hh r2(2-) next_no_panic by (auto simp: started_def)
      next
        case (Inr c)
        then show ?thesis using e hh r2 p open_chunk_ok [OF r2(1) p(1), of c err r'] read_on_trans [OF r2(3)] read_on_length [of "r2_r r2" "r2_r r'"]
          by (cases "c = Stop_T") (auto simp: started_def)
      qed
    qed
  qed
  then show "started r err r'" "err = None \<Longrightarrow> source_left r' < source_left r" by blast+
qed

lemma chunk_Read_ok:
  assumes "reader2_ok r" "readable r"
  shows "\<exists>q err r'. chunk_Read k r = Some (q, err, r') \<and> reader2_ok r' \<and> readable r' \<and> good_read k (q, err) \<and>
    r2_err r' = r2_err r \<and> read_on (r2_r r) (r2_r r')"
proof (cases "r2_chunkReader r")
  case No_Chunk
  then show ?thesis using assms(2) by (simp add: readable_def)
next
  case Raw_Chunk
  then obtain ur where ur: "r2_ur r = Some ur" using assms(2) by (auto simp: readable_def)
  have u: "dict_wf (r2_dict r)" "ur_err ur \<noteq> Some LzPanic" using assms(1) ur by (auto simp: reader2_ok_def)
  have "\<exists>out err ur' dict' src'. ur_Read k (ur, r2_dict r, r2_r r) = Some (out, err, ur', dict', src') \<and>
    dict_wf dict' \<and> good_read k (out, err) \<and> ur_err ur' \<noteq> Some LzPanic \<and> read_on (r2_r r) src'"
  proof (cases "ur_err ur")
    case None
    then show ?thesis using ur_Read_from_ok [OF u(1) _ u(2), of "[]" k "r2_r r"] by (auto simp: ur_Read_def)
  next
    case (Some e)
    then show ?thesis using u by (simp add: ur_Read_def)
  qed
  then show ?thesis using Raw_Chunk ur assms(1) by (auto simp: chunk_Read_def reader2_ok_def readable_def)
next
  case Coded_Chunk
  then obtain d where d: "r2_decoder r = Some d" using assms(2) by (auto simp: readable_def)
  have "decoder_ok (d\<lparr>d_Dict := r2_dict r\<rparr>)" using assms(1) d by (auto simp: decoder_ok_wf reader2_ok_def)
  from Read_from_ok [OF this, of "[]" k] obtain out err d' where
    "decoder_Read k (d\<lparr>d_Dict := r2_dict r\<rparr>) = Some (out, err, d')" "decoder_ok d'" "good_read k (out, err)"
    by (auto simp: decoder_Read_def)
  then show ?thesis using Coded_Chunk d assms(1) by (auto simp: chunk_Read_def reader2_ok_def readable_def decoder_ok_wf)
qed

section \<open>Every call returns\<close>

definition reader2_wf :: "Reader2 \<Rightarrow> bool" where
  "reader2_wf r \<longleftrightarrow> reader2_ok r \<and> (r2_err r = None \<longrightarrow> readable r)"

lemma Read2_from_ok:
  assumes "reader2_ok r" "readable r" "r2_err r = None" "length acc \<le> k"
  shows "\<exists>out err r'. Reader2_Read_from k acc r = Some (out, err, r') \<and> reader2_wf r' \<and> good_read k (out, err) \<and> read_on (r2_r r) (r2_r r')"
  using assms
proof (induction "source_left r + (k - length acc)" arbitrary: r acc rule: less_induct)
  case less
  show ?case
  proof (cases "length acc \<ge> k")
    case True
    then show ?thesis using less.prems by (subst Reader2_Read_from.simps) (simp add: reader2_wf_def)
  next
    case False
    obtain q err r1 where c: "chunk_Read (k - length acc) r = Some (q, err, r1)"
      and r1: "reader2_ok r1" "readable r1" "good_read (k - length acc) (q, err)" "r2_err r1 = None" "read_on (r2_r r) (r2_r r1)"
      using chunk_Read_ok [OF less.prems(1,2)] less.prems(3) by metis
    have le: "length (acc @ q) \<le> k" using r1(3) False by auto
    have stop: "reader2_ok r' \<and> e \<noteq> LzPanic \<longrightarrow> reader2_wf (r'\<lparr>r2_err := Some e\<rparr>)" for r' e
      by (simp add: reader2_wf_def reader2_ok_def)
    have unfold: "Reader2_Read_from k acc r = (case err of
        Some err \<Rightarrow>
          if err = LzIo EOF
          then (case startChunk r1 of
                  (None, r) \<Rightarrow> Reader2_Read_from k (acc @ q) r
                | (Some err, r) \<Rightarrow> Some (acc @ q, Some err, r\<lparr>r2_err := Some err\<rparr>))
          else Some (acc @ q, Some err, r1\<lparr>r2_err := Some err\<rparr>)
      | None \<Rightarrow>
          if q = [] then Some (acc @ q, Some errNoData, r1\<lparr>r2_err := Some errNoData\<rparr>)
          else Reader2_Read_from k (acc @ q) r1)"
      using False c by (subst Reader2_Read_from.simps) (simp add: Let_def)
    show ?thesis
    proof (cases err)
      case None
      then have "length q = k - length acc" using r1(3) by simp
      then have "source_left r1 + (k - length (acc @ q)) < source_left r + (k - length acc)" "q \<noteq> []"
        using False read_on_length [OF r1(5)] by auto
      from less.hyps [OF this(1) r1(1,2,4) le] this(2) None read_on_trans [OF r1(5)] show ?thesis unfolding unfold by fastforce
    next
      case e: (Some e)
      obtain err2 r2 where s: "startChunk r1 = (err2, r2)" by fastforce
      note ok = startChunk_ok [OF r1(1) s, unfolded started_def]
      show ?thesis
      proof (cases "e = LzIo EOF \<and> err2 = None")
        case True
        then have "source_left r2 + (k - length (acc @ q)) < source_left r + (k - length acc)" using ok read_on_length [OF r1(5)] by auto
        from less.hyps [OF this _ _ _ le] ok True r1(4) s e read_on_trans [OF r1(5)] read_on_trans [of "r2_r r1" "r2_r r2"]
        show ?thesis unfolding unfold by fastforce
      next
        case False
        then show ?thesis using e s ok r1 le stop [of r1 e] stop [of r2 "the err2"] read_on_trans [OF r1(5)] unfolding unfold by auto
      qed
    qed
  qed
qed

lemma Read2_ok:
  assumes "reader2_wf r"
  shows "\<exists>out err r'. Reader2_Read k r = Some (out, err, r') \<and> reader2_wf r' \<and> good_read k (out, err) \<and> read_on (r2_r r) (r2_r r')"
proof (cases "r2_err r")
  case None
  then show ?thesis using assms Read2_from_ok [of r "[]" k] by (simp add: Reader2_Read_def reader2_wf_def)
next
  case (Some e)
  then show ?thesis using assms by (auto simp: Reader2_Read_def reader2_wf_def reader2_ok_def)
qed

lemma NewReader2_wf:
  shows "NewReader2 dictCap src \<noteq> Inl LzPanic" "NewReader2 dictCap src = Inr r \<Longrightarrow> reader2_wf r"
proof -
  have "NewReader2 dictCap src \<noteq> Inl LzPanic \<and> (\<forall>r. NewReader2 dictCap src = Inr r \<longrightarrow> reader2_wf r)"
  proof (cases "Reader2Config_Verify dictCap")
    case (Inl err)
    then show ?thesis by (auto simp: NewReader2_def Reader2Config_Verify_def Let_def split: if_splits)
  next
    case (Inr c)
    then have c: "MinDictCap \<le> c" "c \<le> MaxDictCap" by (auto simp: Reader2Config_Verify_def Let_def split: if_splits)
    then obtain dict where dict: "newDecoderDict c = Inr dict" by (auto simp: newDecoderDict_def MinDictCap_def)
    define r0 where "r0 = \<lparr>r2_r = src, r2_err = None, r2_dict = dict, r2_ur = None, r2_decoder = None,
           r2_chunkReader = No_Chunk, r2_lr = False, r2_missing = 0, r2_window = 0, r2_cstate = Start_S\<rparr>"
    have "reader2_ok r0" using dd_new [OF dict] c
      by (auto simp: r0_def reader2_ok_def dict_wf_def MinDictCap_def maxMatchLen_def minMatchLen_def intro: dict_okI)
    obtain err r1 where s: "startChunk r0 = (err, r1)" by fastforce
    note ok = startChunk_ok [OF \<open>reader2_ok r0\<close> s, unfolded started_def]
    have "NewReader2 dictCap src = Inr (if err = None then r1 else r1\<lparr>r2_err := err\<rparr>)"
      using Inr dict s by (auto simp: NewReader2_def r0_def split: option.split)
    then show ?thesis using ok by (auto simp: reader2_wf_def reader2_ok_def r0_def)
  qed
  then show "NewReader2 dictCap src \<noteq> Inl LzPanic" "NewReader2 dictCap src = Inr r \<Longrightarrow> reader2_wf r" by blast+
qed

lemma NewReader2_on: "NewReader2 dictCap src = Inr r \<Longrightarrow> read_on src (r2_r r)"
proof -
  assume n: "NewReader2 dictCap src = Inr r"
  then obtain c dict where c: "Reader2Config_Verify dictCap = Inr c" "newDecoderDict c = Inr dict"
    by (auto simp: NewReader2_def sbind_Inr_iff)
  then have "MinDictCap \<le> c" by (auto simp: Reader2Config_Verify_def Let_def split: if_splits)
  define r0 where "r0 = \<lparr>r2_r = src, r2_err = None, r2_dict = dict, r2_ur = None, r2_decoder = None,
         r2_chunkReader = No_Chunk, r2_lr = False, r2_missing = 0, r2_window = 0, r2_cstate = Start_S\<rparr>"
  have "reader2_ok r0" using dd_new [OF c(2)] \<open>MinDictCap \<le> c\<close>
    by (auto simp: r0_def reader2_ok_def dict_wf_def MinDictCap_def maxMatchLen_def minMatchLen_def intro: dict_okI)
  obtain err r1 where s: "startChunk r0 = (err, r1)" by fastforce
  have "read_on src (r2_r r1)" using startChunk_ok(1) [OF \<open>reader2_ok r0\<close> s] by (simp add: started_def r0_def)
  moreover have "r2_r r = r2_r r1" using n c s by (auto simp: NewReader2_def r0_def split: option.splits)
  ultimately show ?thesis by simp
qed

text \<open>
  C7. The reader of LZMA2 streams on arbitrary bytes and in any configuration: \<open>NewReader2\<close> does not
  panic, and of the reader it returns every call of \<open>Read\<close>, with a buffer of any size, also
  after an error, returns. No call panics or writes past the buffer, and a call fills
  the buffer unless it reports an error or the end.
\<close>

fun Reader2_calls :: "nat list \<Rightarrow> Reader2 \<Rightarrow> ((byte list \<times> lzma_error option) list \<times> Reader2) option" where
  "Reader2_calls [] r = Some ([], r)"
| "Reader2_calls (k # ks) r =
     (case Reader2_Read k r of
        None \<Rightarrow> None
      | Some (p, err, r) \<Rightarrow> (case Reader2_calls ks r of None \<Rightarrow> None | Some (rs, r) \<Rightarrow> Some ((p, err) # rs, r)))"

lemma Reader2_calls_ok: "reader2_wf r \<Longrightarrow> \<exists>rs r'. Reader2_calls ks r = Some (rs, r') \<and> list_all2 good_read ks rs"
proof (induction ks arbitrary: r)
  case (Cons k ks)
  from Read2_ok [OF Cons.prems, of k] Cons.IH show ?case by fastforce
qed simp

theorem reader2_total:
  "case NewReader2 dictCap src of
     Inl err \<Rightarrow> err \<noteq> LzPanic
   | Inr r \<Rightarrow> \<exists>rs r'. Reader2_calls ks r = Some (rs, r') \<and> list_all2 good_read ks rs"
proof (cases "NewReader2 dictCap src")
  case (Inl err)
  then show ?thesis using NewReader2_wf(1) [of dictCap src] by auto
next
  case (Inr r)
  then show ?thesis using Reader2_calls_ok [OF NewReader2_wf(2) [OF Inr]] by simp
qed

text \<open>
  C13. The reader of LZMA2 streams stays well formed. \<open>reader2_wf\<close> says that the dictionary
  is a ring whose indexes point into its buffer and that it holds the longest match, that the
  probabilities of the decoder are in range and its tables have the sizes its properties call for,
  and that there is a reader of a chunk unless an error is recorded. \<open>NewReader2\<close> establishes it for
  any bytes, and it is kept by the start of a chunk, by the reader of a chunk and by \<open>Read\<close>; none of them
  writes back to the source.
\<close>

theorem reader2_well_formed:
  "(NewReader2 dictCap src = Inr r0 \<longrightarrow> reader2_wf r0) \<and>
   (reader2_wf r \<longrightarrow>
      (\<forall>err r1. startChunk r = (err, r1) \<longrightarrow> reader2_wf (r1\<lparr>r2_err := err\<rparr>) \<and> read_on (r2_r r) (r2_r r1)) \<and>
      (r2_err r = None \<longrightarrow>
        (\<exists>p e r2. chunk_Read k r = Some (p, e, r2) \<and> reader2_wf r2 \<and> read_on (r2_r r) (r2_r r2))) \<and>
      (\<exists>p e r3. Reader2_Read k r = Some (p, e, r3) \<and> reader2_wf r3))"
proof -
  have "reader2_wf (r1\<lparr>r2_err := err\<rparr>) \<and> read_on (r2_r r) (r2_r r1)" if "reader2_wf r" "startChunk r = (err, r1)" for err r1
  proof -
    have "started r err r1" using startChunk_ok(1) [OF _ that(2)] that(1) by (simp add: reader2_wf_def)
    moreover have "readable (r1\<lparr>r2_err := e\<rparr>) = readable r1" for e by (cases "r2_chunkReader r1") (simp_all add: readable_def)
    ultimately show ?thesis by (simp add: reader2_wf_def started_def reader2_ok_def)
  qed
  moreover have "\<exists>p e r2. chunk_Read k r = Some (p, e, r2) \<and> reader2_wf r2 \<and> read_on (r2_r r) (r2_r r2)"
    if "reader2_wf r" "r2_err r = None"
    using chunk_Read_ok [of r k] that by (fastforce simp: reader2_wf_def)
  ultimately show ?thesis using NewReader2_wf(2) Read2_ok by blast
qed

text \<open>
  C37. A stream that is cut in the five bytes a coded chunk begins with, or whose header announces a chunk
  shorter than that, is taken for complete. The current chunk has come to its end, and the source holds the header of a
  coded chunk that may follow and at most four bytes of the chunk. Then \<open>Read\<close> reports a plain \<open>io.EOF\<close>, while \<open>EOS\<close> is false, since \<open>startChunk\<close> passes on
  the error of the range decoder; for a source that is empty it reports
  \<open>io.ErrUnexpectedEOF\<close>.
\<close>

lemma updates_short:
  "length (br_data (rd_br d)) < n \<Longrightarrow> br_end (rd_br d) = EOF \<Longrightarrow> \<exists>d'. updates n d = (Inl (LzIo EOF), d')"
proof (induction n arbitrary: d)
  case (Suc n)
  show ?case
  proof (cases "br_data (rd_br d)")
    case Nil
    then show ?thesis using Suc.prems by (simp add: lbind_def updateCode_def br_ReadByte_def)
  next
    case (Cons b bs)
    then show ?thesis using Suc.prems Suc.IH [of "d\<lparr>rd_br := rd_br d\<lparr>br_data := bs\<rparr>, rd_code := push_bit 8 (rd_code d) OR ucast b\<rparr>"]
      by (simp add: lbind_def updateCode_def br_ReadByte_def)
  qed
qed simp

lemma newRangeDecoder_short:
  assumes "length p < 5" "p = [] \<or> p ! 0 = 0"
  shows "fst (newRangeDecoder \<lparr>br_data = p, br_end = EOF\<rparr>) = Inl (LzIo EOF)"
proof (cases p)
  case (Cons b bs)
  with assms updates_short [of "\<lparr>rd_br = \<lparr>br_data = bs, br_end = EOF\<rparr>, rd_nrange = 0xffffffff, rd_code = 0\<rparr>" 4]
  show ?thesis by (auto simp: newRangeDecoder_def br_ReadByte_def simp del: updates.simps)
qed (simp add: newRangeDecoder_def br_ReadByte_def)

lemma Read_at_chunk_end:
  assumes "r2_err r = None" "0 < k" "chunk_Read k r = Some (q, Some (LzIo EOF), r1)" "startChunk r1 = (Some e, r2)"
  shows "Reader2_Read k r = Some (q, Some e, r2\<lparr>r2_err := Some e\<rparr>)"
  using assms unfolding Reader2_Read_def by (subst Reader2_Read_from.simps) (simp add: Let_def)

lemma decoder_for_short:
  assumes "reader2_ok r" "Properties_verify (ch_props h) = None" "fst (newRangeDecoder br) = Inl e"
  shows "decoder_for br h sz r = Inl e"
proof -
  have n: "\<exists>b. newRangeDecoder br = (Inl e, b)" using assms(3) by (metis prod.collapse)
  obtain s where s: "newState (ch_props h) = Inr s" using newState_total [OF assms(2)] by blast
  have "\<exists>s'. state_Reset (st_Properties (d_State d)) = Inr s'" if "r2_decoder r = Some d" for d
    using assms(1) that Reset_safe unfolding reader2_ok_def by blast
  with n s show ?thesis
    by (cases "r2_decoder r"; cases "ch_ctype h") (auto simp: decoder_for_def newDecoder_def decoder_Reopen_def)
qed

lemma startChunk_short:
  assumes "reader2_ok r" "\<not> (r2_lr r \<and> unread r)" "readChunkHeader (r2_r r) = (Inr h, \<lparr>br_data = p, br_end = EOF\<rparr>)"
    and "\<not> uncompressed (ch_ctype h)" "chunkState_next (r2_cstate r) (ch_ctype h) = Inr c" "c \<noteq> Stop_T"
    and "min (unat (ch_compressed h) + 1) (length p) < 5" "p = [] \<or> p ! 0 = 0"
  shows "\<exists>r2. startChunk r = (Some (LzIo EOF), r2) \<and> \<not> EOS r2"
proof -
  define r1 where "r1 = r\<lparr>r2_lr := False, r2_chunkReader := No_Chunk, r2_r := \<lparr>br_data = p, br_end = EOF\<rparr>, r2_cstate := c\<rparr>"
  define n where "n = unat (ch_compressed h) + 1"
  define r0 where "r0 = (if ch_ctype h = cUD \<or> ch_ctype h = cLRND then r1\<lparr>r2_dict := decoderDict_Reset (r2_dict r1)\<rparr> else r1)"
  have r0: "r2_r r0 = \<lparr>br_data = p, br_end = EOF\<rparr>" "reader2_ok r0" "r2_cstate r0 = c"
    using assms(1) wf_reset by (auto simp: r0_def r1_def reader2_ok_def)
  define r2 where "r2 = r0\<lparr>r2_lr := True, r2_missing := n - length p, r2_window := min n (length p), r2_r := \<lparr>br_data = drop n p, br_end = EOF\<rparr>\<rparr>"
  have "window n \<lparr>br_data = p, br_end = EOF\<rparr> = \<lparr>br_data = take n p, br_end = EOF\<rparr>" by (simp add: window_def)
  moreover have "fst (newRangeDecoder \<lparr>br_data = take n p, br_end = EOF\<rparr>) = Inl (LzIo EOF)"
    by (rule newRangeDecoder_short) (use assms(7,8) in \<open>auto simp: n_def min.commute\<close>)
  moreover have "reader2_ok r2" using r0(2) by (simp add: r2_def reader2_ok_def)
  moreover have "Properties_verify (ch_props h) = None" using readChunkHeader_ok(2) [OF assms(3)] by simp
  ultimately have d: "decoder_for (window n \<lparr>br_data = p, br_end = EOF\<rparr>) h (uint (ch_uncompressed h) + 1) r2 = Inl (LzIo EOF)"
    using decoder_for_short by simp
  have "open_chunk h r1 = (Some (LzIo EOF), r2)"
    using d assms(4) r0(1) unfolding open_chunk_def n_def [symmetric] r0_def [symmetric] Let_def by (simp add: r2_def)
  then have "startChunk r = (Some (LzIo EOF), r2)"
    using assms(2,3,5,6) by (auto simp: startChunk_def r1_def Let_def)
  moreover have "\<not> EOS r2" using assms(6) by (simp add: EOS_def r2_def r0(3))
  ultimately show ?thesis by blast
qed

theorem truncated_after_header:
  assumes "reader2_wf r" "r2_err r = None" "0 < k"
    and "chunk_Read k r = Some (q, Some (LzIo EOF), r1)" "\<not> (r2_lr r1 \<and> unread r1)"
  shows "(r2_r r1 = \<lparr>br_data = [], br_end = EOF\<rparr> \<longrightarrow>
      (\<exists>r2. Reader2_Read k r = Some (q, Some (LzIo UnexpectedEOF), r2))) \<and>
    (readChunkHeader (r2_r r1) = (Inr h, \<lparr>br_data = p, br_end = EOF\<rparr>) \<and> \<not> uncompressed (ch_ctype h) \<and>
      chunkState_next (r2_cstate r1) (ch_ctype h) = Inr c \<and> c \<noteq> Stop_T \<and>
      min (unat (ch_compressed h) + 1) (length p) < 5 \<and> (p = [] \<or> p ! 0 = 0) \<longrightarrow>
      (\<exists>r2. Reader2_Read k r = Some (q, Some (LzIo EOF), r2) \<and> \<not> EOS r2))"
proof -
  have r1: "reader2_ok r1" using chunk_Read_ok [of r k] assms(1,2,4) by (auto simp: reader2_wf_def)
  note rd = Read_at_chunk_end [OF assms(2-4)]
  have "\<exists>r2. startChunk r1 = (Some (LzIo UnexpectedEOF), r2)" if "r2_r r1 = \<lparr>br_data = [], br_end = EOF\<rparr>"
    using assms(5) that by (auto simp: startChunk_def readChunkHeader_def br_ReadFull_def lbind_def Let_def)
  then show ?thesis using rd startChunk_short [OF r1 assms(5)] by (fastforce simp: EOS_def)
qed

section \<open>Runs\<close>

definition cut_source :: byte_reader where
  "cut_source = \<lparr>br_data = [0xE0, 0, 0, 0, 9, 0x5D, 0, 1], br_end = EOF\<rparr>"

text \<open>The reader behind a stored chunk, in front of a coded chunk of ten bytes that is cut.\<close>

definition cut_reader :: Reader2 where
  "cut_reader = \<lparr>r2_r = cut_source, r2_err = None, r2_dict = \<lparr>dd_buf = newBuffer 4096, dd_head = 0\<rparr>,
     r2_ur = Some \<lparr>ur_N = 0, ur_eof = True, ur_err = Some (LzIo EOF)\<rparr>, r2_decoder = None, r2_chunkReader = Raw_Chunk,
     r2_lr = False, r2_missing = 0, r2_window = 0, r2_cstate = Uncompressed_U\<rparr>"

lemma cut_dict: "newDecoderDict 4096 = Inr \<lparr>dd_buf = newBuffer 4096, dd_head = 0\<rparr>"
  by (simp add: newDecoderDict_def MaxDictCap_def)

lemma cut_reader_wf: "reader2_wf cut_reader"
  using dd_new [OF cut_dict]
  by (auto simp: reader2_wf_def reader2_ok_def readable_def cut_reader_def dict_wf_def maxMatchLen_def minMatchLen_def intro: dict_okI)

lemma cut_header:
  "case readChunkHeader cut_source of
     (Inl _, _) \<Rightarrow> False
   | (Inr h, src) \<Rightarrow> src = \<lparr>br_data = [0, 1], br_end = EOF\<rparr> \<and> \<not> uncompressed (ch_ctype h) \<and>
       (case chunkState_next Uncompressed_U (ch_ctype h) of Inl _ \<Rightarrow> False | Inr c \<Rightarrow> c \<noteq> Stop_T)"
  by code_simp

lemma cut_chunk_Read: "chunk_Read k cut_reader = Some ([], Some (LzIo EOF), cut_reader)"
  by (simp add: chunk_Read_def cut_reader_def ur_Read_def)

theorem reader2_well_formed_witness:
  "\<exists>p e r. Reader2_Read 7 cut_reader = Some (p, e, r) \<and> reader2_wf r"
  using reader2_well_formed [of 4096 cut_source cut_reader cut_reader 7] cut_reader_wf by blast

theorem truncated_after_header_witness:
  "\<exists>r2. Reader2_Read 5 cut_reader = Some ([], Some (LzIo EOF), r2) \<and> \<not> EOS r2"
proof -
  obtain h c where h: "readChunkHeader cut_source = (Inr h, \<lparr>br_data = [0, 1], br_end = EOF\<rparr>)" "\<not> uncompressed (ch_ctype h)"
    "chunkState_next Uncompressed_U (ch_ctype h) = Inr c" "c \<noteq> Stop_T"
    using cut_header by (auto split: prod.splits sum.splits)
  have r: "r2_err cut_reader = None" "\<not> (r2_lr cut_reader \<and> unread cut_reader)" "r2_r cut_reader = cut_source" "r2_cstate cut_reader = Uncompressed_U"
    by (simp_all add: cut_reader_def)
  show ?thesis
    using truncated_after_header [OF cut_reader_wf r(1) _ cut_chunk_Read r(2), of 5 h "[0, 1]" c] h r(3,4) by simp
qed

end
