(* ===== verification/XzStream.thy ===== *)
theory XzStream
  imports XzFormat Lzma2
begin

text \<open>
  \<open>internal/xz/reader.go\<close>, \<open>writer.go\<close>, \<open>crc.go\<close> and \<open>none-check.go\<close>: the reader and the writer of
  xz files over the LZMA2 streams, in the pure Go build, where \<open>lzmadec.Available\<close> is false. The source and the destination,
  which the code shares between the streams and their blocks, are handed to each call and
  returned. SHA-256 is a parameter.
\<close>

definition xz_of :: "lzma_error \<Rightarrow> xz_error" where
  "xz_of err = (case err of LzIo e \<Rightarrow> XzIo e | LzPanic \<Rightarrow> XzPanic | _ \<Rightarrow> XzLzma err)"

section \<open>Checksums\<close>

text \<open>A hash of package \<open>hash\<close> is its size and its \<open>Sum\<close> of what it has been given.\<close>

record checksum =
  cs_Size :: nat
  cs_Sum :: "byte list \<Rightarrow> byte list"

definition crc64_ECMA :: u64 where "crc64_ECMA = 0xC96C5795D7870F42"

definition crc64_shift :: "u64 \<Rightarrow> u64" where
  "crc64_shift c = (if c AND 1 = 0 then drop_bit 1 c else drop_bit 1 c XOR crc64_ECMA)"

definition crc64 :: "byte list \<Rightarrow> u64" where
  "crc64 bs = NOT (foldl (\<lambda>c b. (crc64_shift ^^ 8) (c XOR ucast b)) (NOT 0) bs)"

definition xz_putUint64LE :: "u64 \<Rightarrow> byte list" where
  "xz_putUint64LE x = le_bytes 8 x"

definition newCRC32 :: checksum where
  "newCRC32 = \<lparr>cs_Size = 4, cs_Sum = \<lambda>d. xz_putUint32LE (crc32 d)\<rparr>"

definition newCRC64 :: checksum where
  "newCRC64 = \<lparr>cs_Size = 8, cs_Sum = \<lambda>d. xz_putUint64LE (crc64 d)\<rparr>"

definition newNoneHash :: checksum where
  "newNoneHash = \<lparr>cs_Size = 0, cs_Sum = \<lambda>d. []\<rparr>"

definition newHashFunc :: "(byte list \<Rightarrow> byte list) \<Rightarrow> byte \<Rightarrow> xz_error + checksum" where
  "newHashFunc sha flags =
     (if flags = xz_None then Inr newNoneHash
      else if flags = xz_CRC32 then Inr newCRC32
      else if flags = xz_CRC64 then Inr newCRC64
      else if flags = xz_SHA256 then Inr \<lparr>cs_Size = 32, cs_Sum = sha\<rparr>
      else Inl errInvalidFlags)"

section \<open>Filters\<close>

definition verifyFilters :: "lzmaFilter list \<Rightarrow> xz_error option" where
  "verifyFilters f =
     (if f = [] then Some (XzError ''no filters'')
      else if length f > 4 then Some (XzError ''more than four filters'')
      else if \<exists>g \<in> set (butlast f). filter_last g then Some (XzError ''last filter is not last'')
      else if \<not> filter_last (last f) then Some (XzError ''wrong last filter'')
      else None)"

definition errFilterOverflow :: xz_error where
  "errFilterOverflow = XzError ''LZMA2 filter parameter dictionary capacity overflow''"

definition filter_reader :: "lzmaFilter \<Rightarrow> int \<Rightarrow> byte_reader \<Rightarrow> xz_error + Reader2" where
  "filter_reader f dictCap r =
     (let dc = lf_dictCap f in
      if dc < 1 then Inl errFilterOverflow
      else case Reader2Config_Verify dictCap of
             Inl err \<Rightarrow> Inl (xz_of err)
           | Inr limit \<Rightarrow>
               if dc > limit then Inl (XzError ''LZMA2 dictionary capacity exceeds the limit'')
               else (case NewReader2 limit r of Inl err \<Rightarrow> Inl (xz_of err) | Inr r2 \<Rightarrow> Inr r2))"

text \<open>The loop over the filters: a list that \<open>verifyFilters\<close> accepts has one element, since every
  filter is a last one.\<close>

definition newFilterReader :: "int \<Rightarrow> byte_reader \<Rightarrow> lzmaFilter list \<Rightarrow> xz_error + Reader2" where
  "newFilterReader dictCap r fs =
     (case verifyFilters fs of
        Some err \<Rightarrow> Inl err
      | None \<Rightarrow> (case fs of [f] \<Rightarrow> filter_reader f dictCap r | _ \<Rightarrow> Inl XzPanic))"

section \<open>The reader of a block\<close>

record xz_ReaderConfig =
  rc_DictCap :: int
  rc_SingleStream :: bool

definition xz_ReaderConfig_Verify :: "xz_ReaderConfig \<Rightarrow> xz_error option" where
  "xz_ReaderConfig_Verify c = (case Reader2Config_Verify (rc_DictCap c) of Inl err \<Rightarrow> Some (xz_of err) | Inr _ \<Rightarrow> None)"

definition to_br :: "source \<Rightarrow> byte_reader" where
  "to_br s = \<lparr>br_data = src_data s, br_end = src_err s\<rparr>"

definition of_br :: "byte_reader \<Rightarrow> source" where
  "of_br r = \<lparr>src_data = br_data r, src_err = br_end r\<rparr>"

text \<open>
  A \<open>Reader2\<close> takes a coded chunk from its source at once, while the \<open>bufio.Reader\<close> of the code
  takes 4096 bytes when it needs one. \<open>unfetched\<close> is the number of bytes of the chunk the code has not read
  yet, so that \<open>pos_left\<close> is what the source of the code still holds and the
  differences of \<open>pos_left\<close> are what the \<open>countingReader\<close> counts.
\<close>

definition unfetched :: "Reader2 \<Rightarrow> nat" where
  "unfetched r =
     (if \<not> r2_lr r then 0
      else let w = r2_window r;
               used = (case r2_chunkReader r of
                         Coded_Chunk \<Rightarrow> (case r2_decoder r of None \<Rightarrow> 0 | Some d \<Rightarrow> w - length (br_data (rd_br (d_rd d))))
                       | _ \<Rightarrow> min 1 w)
           in w - min w (4096 * ((used + 4095) div 4096)))"

definition pos_left :: "Reader2 \<Rightarrow> nat" where
  "pos_left r = length (br_data (r2_r r)) + unfetched r"

record blockReader =
  bk_header :: blockHeader
  bk_headerLen :: nat
  bk_hash :: checksum
  bk_hashed :: "byte list"
  bk_lxz :: int
  bk_n :: int
  bk_fr :: Reader2

definition newBlockReader :: "xz_ReaderConfig \<Rightarrow> source \<Rightarrow> blockHeader \<Rightarrow> nat \<Rightarrow> checksum \<Rightarrow> xz_error + blockReader" where
  "newBlockReader c src h hlen hash =
     sbind (newFilterReader (rc_DictCap c) (to_br src) (bh_filters h)) (\<lambda>r2.
       Inr \<lparr>bk_header = h, bk_headerLen = hlen, bk_hash = hash, bk_hashed = [],
            bk_lxz = int (length (src_data src)) - int (pos_left r2), bk_n = 0, bk_fr = r2\<rparr>)"

definition bk_unpaddedSize :: "blockReader \<Rightarrow> int" where
  "bk_unpaddedSize b = int (bk_headerLen b) + bk_lxz b + int (cs_Size (bk_hash b))"

definition bk_record :: "blockReader \<Rightarrow> xz_record" where
  "bk_record b = \<lparr>unpaddedSize = bk_unpaddedSize b, uncompressedSize = bk_n b\<rparr>"

text \<open>What \<open>Read\<close> does at the end of the data: the sizes, the padding and the checksum.\<close>

definition block_end :: "blockReader \<Rightarrow> source \<Rightarrow> xz_error \<times> source" where
  "block_end b src =
     (if bk_n b < bh_uncompressedSize (bk_header b) \<or> bk_lxz b < bh_compressedSize (bk_header b)
      then (XzIo UnexpectedEOF, src)
      else
        let s = cs_Size (bk_hash b); k = padLen (bk_lxz b) in
        case xz_ReadFull (k + s) src of
          (Inl err, _, src) \<Rightarrow> (if err = XzIo EOF then XzIo UnexpectedEOF else err, src)
        | (Inr q, _, src) \<Rightarrow>
            if \<not> allZeros (take k q) then (XzError ''non-zero block padding'', src)
            else if drop k q \<noteq> cs_Sum (bk_hash b) (bk_hashed b) then (XzError ''checksum error for block'', src)
            else (XzIo EOF, src))"

definition block_Read :: "nat \<Rightarrow> blockReader \<times> source \<Rightarrow> (byte list \<times> xz_error option \<times> blockReader \<times> source) option" where
  "block_Read k s =
     (case s of (b, src) \<Rightarrow>
      let r2 = (bk_fr b)\<lparr>r2_r := to_br src\<rparr> in
      case Reader2_Read k r2 of
        None \<Rightarrow> None
      | Some (p, err, r2') \<Rightarrow>
          let b = b\<lparr>bk_fr := r2', bk_n := bk_n b + int (length p), bk_lxz := bk_lxz b + (int (pos_left r2) - int (pos_left r2')),
                    bk_hashed := (if cs_Size (bk_hash b) \<noteq> 0 then bk_hashed b @ p else bk_hashed b)\<rparr>;
              src = of_br (r2_r r2');
              u = bh_uncompressedSize (bk_header b); c = bh_compressedSize (bk_header b) in
          if u \<ge> 0 \<and> bk_n b > u then Some (p, Some (XzError ''wrong uncompressed size for block''), b, src)
          else if c \<ge> 0 \<and> bk_lxz b > c then Some (p, Some (XzError ''wrong compressed size for block''), b, src)
          else if err \<noteq> Some (LzIo EOF) then Some (p, map_option xz_of err, b, src)
          else case block_end b src of (e, src) \<Rightarrow> Some (p, Some e, b, src))"

section \<open>The reader of a stream\<close>

record streamReader =
  xs_br :: "blockReader option"
  xs_newHash :: checksum
  xs_h :: byte
  xs_index :: "xz_record list"

definition eof_unexpected :: "xz_error \<Rightarrow> xz_error" where
  "eof_unexpected err = (if err = XzIo EOF then XzIo UnexpectedEOF else err)"

definition newStreamReader ::
    "(byte list \<Rightarrow> byte list) \<Rightarrow> xz_ReaderConfig \<Rightarrow> source \<Rightarrow> (xz_error + streamReader) \<times> source" where
  "newStreamReader sha c src =
     (case xz_ReaderConfig_Verify c of
        Some err \<Rightarrow> (Inl err, src)
      | None \<Rightarrow>
        (case xz_ReadFull 4 src of
           (Inl err, _, src) \<Rightarrow> (Inl err, src)
         | (Inr p, _, src) \<Rightarrow>
             if p = [0, 0, 0, 0] then (Inl XzErrPadding, src)
             else
               (case xz_ReadFull (xz_HeaderLen - 4) src of
                  (Inl err, _, src) \<Rightarrow> (Inl (eof_unexpected err), src)
                | (Inr q, _, src) \<Rightarrow>
                    (sbind (header_UnmarshalBinary (p @ q)) (\<lambda>flags.
                     sbind (newHashFunc sha flags) (\<lambda>hash.
                       Inr \<lparr>xs_br = None, xs_newHash = hash, xs_h = flags, xs_index = []\<rparr>)), src))))"

text \<open>The comparison of the records; \<open>index[i]\<close> out of range is a panic.\<close>

fun check_index :: "xz_record list \<Rightarrow> xz_record list \<Rightarrow> xz_error option" where
  "check_index [] _ = None"
| "check_index (rec # recs) [] = Some XzPanic"
| "check_index (rec # recs) (i # index) =
     (if rec \<noteq> i then Some (XzError ''record differs from the index'') else check_index recs index)"

definition readTail :: "streamReader \<Rightarrow> source \<Rightarrow> xz_error option \<times> source" where
  "readTail r src =
     (case readIndexBody src (length (xs_index r)) of
        (Inl err, _, src) \<Rightarrow> (Some (eof_unexpected err), src)
      | (Inr index, n, src) \<Rightarrow>
        (case check_index (xs_index r) index of
           Some err \<Rightarrow> (Some err, src)
         | None \<Rightarrow>
           (case xz_ReadFull footerLen src of
              (Inl err, _, src) \<Rightarrow> (Some (eof_unexpected err), src)
            | (Inr p, _, src) \<Rightarrow>
              (case footer_UnmarshalBinary p of
                 Inl err \<Rightarrow> (Some err, src)
               | Inr f \<Rightarrow>
                   (if ft_flags f \<noteq> xs_h r then Some (XzError ''footer flags incorrect'')
                    else if indexSize f \<noteq> int n + 1 then Some (XzError ''index size in footer wrong'')
                    else None, src)))))"

text \<open>The loop of \<open>Read(p)\<close> with \<open>len(p) = k\<close>; \<open>acc\<close> is what \<open>p\<close> holds already. A round reads the header of the
  next block or from the current one.\<close>

partial_function (option) stream_Read_from ::
    "xz_ReaderConfig \<Rightarrow> nat \<Rightarrow> byte list \<Rightarrow> streamReader \<Rightarrow> source \<Rightarrow>
       (byte list \<times> xz_error option \<times> streamReader \<times> source) option" where
  "stream_Read_from c k acc r src =
     (if length acc \<ge> k then Some (acc, None, r, src)
      else case xs_br r of
        None \<Rightarrow>
          (case readBlockHeader src of
             (Inl err, _, src) \<Rightarrow>
               if err = ErrIndexIndicator
               then (case readTail r src of
                       (Some err, src) \<Rightarrow> Some (acc, Some err, r, src)
                     | (None, src) \<Rightarrow> Some (acc, Some (XzIo EOF), r, src))
               else Some (acc, Some err, r, src)
           | (Inr bh, hlen, src) \<Rightarrow>
               (case newBlockReader c src bh hlen (xs_newHash r) of
                  Inl err \<Rightarrow> Some (acc, Some err, r, src)
                | Inr b \<Rightarrow> stream_Read_from c k acc (r\<lparr>xs_br := Some b\<rparr>) (of_br (r2_r (bk_fr b)))))
      | Some b \<Rightarrow>
          (case block_Read (k - length acc) (b, src) of
             None \<Rightarrow> None
           | Some (p, err, b, src) \<Rightarrow>
               (case err of
                  None \<Rightarrow> stream_Read_from c k (acc @ p) (r\<lparr>xs_br := Some b\<rparr>) src
                | Some err \<Rightarrow>
                    if err = XzIo EOF
                    then stream_Read_from c k (acc @ p) (r\<lparr>xs_index := xs_index r @ [bk_record b], xs_br := None\<rparr>) src
                    else Some (acc @ p, Some err, r\<lparr>xs_br := Some b\<rparr>, src))))"

definition stream_Read ::
    "xz_ReaderConfig \<Rightarrow> nat \<Rightarrow> streamReader \<Rightarrow> source \<Rightarrow> (byte list \<times> xz_error option \<times> streamReader \<times> source) option" where
  "stream_Read c k r src = stream_Read_from c k [] r src"

section \<open>The reader of a file\<close>

record xz_Reader =
  xr_config :: xz_ReaderConfig
  xr_xz :: source
  xr_sr :: "streamReader option"
  xr_closed :: bool

definition xz_NewReader :: "(byte list \<Rightarrow> byte list) \<Rightarrow> xz_ReaderConfig \<Rightarrow> source \<Rightarrow> xz_error + xz_Reader" where
  "xz_NewReader sha c src =
     (case xz_ReaderConfig_Verify c of
        Some err \<Rightarrow> Inl err
      | None \<Rightarrow>
        (case newStreamReader sha c src of
           (Inl err, _) \<Rightarrow> Inl (eof_unexpected err)
         | (Inr sr, src) \<Rightarrow> Inr \<lparr>xr_config = c, xr_xz = src, xr_sr = Some sr, xr_closed = False\<rparr>))"

definition errUnexpectedData :: xz_error where "errUnexpectedData = XzError ''unexpected data after stream''"
definition errClosedPipe :: xz_error where "errClosedPipe = XzError ''io: read/write on closed pipe''"

text \<open>The next stream, past the padding.\<close>

partial_function (option) next_stream ::
    "(byte list \<Rightarrow> byte list) \<Rightarrow> xz_ReaderConfig \<Rightarrow> source \<Rightarrow> ((xz_error + streamReader) \<times> source) option" where
  "next_stream sha c src =
     (case newStreamReader sha c src of
        (Inl err, src) \<Rightarrow> if err = XzErrPadding then next_stream sha c src else Some (Inl err, src)
      | (Inr sr, src) \<Rightarrow> Some (Inr sr, src))"

partial_function (option) xz_Read_from ::
    "(byte list \<Rightarrow> byte list) \<Rightarrow> nat \<Rightarrow> byte list \<Rightarrow> xz_Reader \<Rightarrow> (byte list \<times> xz_error option \<times> xz_Reader) option" where
  "xz_Read_from sha k acc r =
     (if length acc \<ge> k then Some (acc, None, r)
      else case xr_sr r of
        None \<Rightarrow>
          if rc_SingleStream (xr_config r)
          then (case xz_ReadFull 1 (xr_xz r) of
                  (res, _, src) \<Rightarrow> Some (acc, Some (if res \<noteq> Inl (XzIo EOF) then errUnexpectedData else XzIo EOF), r\<lparr>xr_xz := src\<rparr>))
          else (case next_stream sha (xr_config r) (xr_xz r) of
                  None \<Rightarrow> None
                | Some (Inl err, src) \<Rightarrow> Some (acc, Some err, r\<lparr>xr_xz := src\<rparr>)
                | Some (Inr sr, src) \<Rightarrow> xz_Read_from sha k acc (r\<lparr>xr_sr := Some sr, xr_xz := src\<rparr>))
      | Some sr \<Rightarrow>
          (case stream_Read (xr_config r) (k - length acc) sr (xr_xz r) of
             None \<Rightarrow> None
           | Some (p, err, sr, src) \<Rightarrow>
               (let acc = acc @ p; r = r\<lparr>xr_sr := Some sr, xr_xz := src\<rparr> in
                case err of
                  None \<Rightarrow> xz_Read_from sha k acc r
                | Some err \<Rightarrow>
                    if err = XzIo EOF then xz_Read_from sha k acc (r\<lparr>xr_sr := None\<rparr>)
                    else Some (acc, Some err, r))))"

definition xz_Read ::
    "(byte list \<Rightarrow> byte list) \<Rightarrow> nat \<Rightarrow> xz_Reader \<Rightarrow> (byte list \<times> xz_error option \<times> xz_Reader) option" where
  "xz_Read sha k r =
     (if k = 0 then Some ([], None, r)
      else if xr_closed r then Some ([], Some errClosedPipe, r)
      else xz_Read_from sha k [] r)"

definition xz_Reader_Close :: "xz_Reader \<Rightarrow> xz_Reader" where
  "xz_Reader_Close r = r\<lparr>xr_closed := True\<rparr>"

end
