(* ===== verification/XzWriter.thy ===== *)
theory XzWriter
  imports XzStream LzmaFile
begin

text \<open>
  The writer of xz files, \<open>internal/xz/writer.go\<close>. The destination is handed to the \<open>Writer2\<close> of the block for each call.
\<close>

section \<open>The configuration\<close>

record xz_WriterConfig =
  wc_Properties :: "Properties option"
  wc_DictCap :: int
  wc_BufSize :: int
  wc_BlockSize :: int
  wc_CheckSum :: byte
  wc_NoCheckSum :: bool
  wc_Matcher :: matchAlgorithm

definition xz_maxInt64 :: int where "xz_maxInt64 = 2 ^ 63 - 1"

definition xz_WriterConfig_fill :: "xz_WriterConfig \<Rightarrow> xz_WriterConfig" where
  "xz_WriterConfig_fill c =
     (let c = (if wc_Properties c = None then c\<lparr>wc_Properties := Some \<lparr>LC = 3, LP = 0, PB = 2\<rparr>\<rparr> else c);
          c = (if wc_DictCap c = 0 then c\<lparr>wc_DictCap := 8 * 1024 * 1024\<rparr> else c);
          c = (if wc_BufSize c = 0 then c\<lparr>wc_BufSize := 4096\<rparr> else c);
          c = (if wc_BlockSize c = 0 then c\<lparr>wc_BlockSize := xz_maxInt64\<rparr> else c);
          c = (if wc_CheckSum c = 0 then c\<lparr>wc_CheckSum := xz_CRC64\<rparr> else c)
      in if wc_NoCheckSum c then c\<lparr>wc_CheckSum := xz_None\<rparr> else c)"

definition lzma2_config :: "xz_WriterConfig \<Rightarrow> Writer2Config" where
  "lzma2_config c = \<lparr>c2_Properties = wc_Properties c, c2_DictCap = wc_DictCap c, c2_BufSize = wc_BufSize c, c2_Matcher = wc_Matcher c\<rparr>"

definition xz_WriterConfig_Verify :: "xz_WriterConfig \<Rightarrow> xz_error + xz_WriterConfig" where
  "xz_WriterConfig_Verify c =
     (let c = xz_WriterConfig_fill c in
      case Writer2Config_Verify (lzma2_config c) of
        Inl err \<Rightarrow> Inl (xz_of err)
      | Inr _ \<Rightarrow>
          if wc_BlockSize c \<le> 0 then Inl (XzError ''block size out of range'')
          else case verifyFlags (wc_CheckSum c) of Some err \<Rightarrow> Inl err | None \<Rightarrow> Inr c)"

definition xz_filters :: "xz_WriterConfig \<Rightarrow> lzmaFilter list" where
  "xz_filters c = [\<lparr>lf_dictCap = wc_DictCap c\<rparr>]"

definition filter_writeCloser :: "lzmaFilter \<Rightarrow> xz_WriterConfig \<Rightarrow> byte_writer \<Rightarrow> xz_error + any_matcher Writer2" where
  "filter_writeCloser f c w =
     (let config = lzma2_config c; dc = lf_dictCap f in
      if dc < 1 then Inl errFilterOverflow
      else
        let config = (if dc > c2_DictCap config then config\<lparr>c2_DictCap := dc\<rparr> else config) in
        case NewWriter2 config w of Inl err \<Rightarrow> Inl (xz_of err) | Inr w2 \<Rightarrow> Inr w2)"

definition newFilterWriteCloser :: "xz_WriterConfig \<Rightarrow> byte_writer \<Rightarrow> lzmaFilter list \<Rightarrow> xz_error + any_matcher Writer2" where
  "newFilterWriteCloser c w fs =
     (case verifyFilters fs of
        Some err \<Rightarrow> Inl err
      | None \<Rightarrow> (case fs of [f] \<Rightarrow> filter_writeCloser f c w | _ \<Rightarrow> Inl XzPanic))"

section \<open>The writer of a block\<close>

text \<open>\<open>bw_w\<close> is the \<open>Writer2\<close>; \<open>bw_cxz\<close> is what the \<open>countingWriter\<close> has counted.\<close>

record blockWriter =
  bw_cxz :: int
  bw_w :: "any_matcher Writer2"
  bw_n :: int
  bw_blockSize :: int
  bw_closed :: bool
  bw_headerLen :: nat
  bw_filters :: "lzmaFilter list"
  bw_hash :: checksum
  bw_hashed :: "byte list"

definition xz_newBlockWriter :: "xz_WriterConfig \<Rightarrow> byte_writer \<Rightarrow> checksum \<Rightarrow> xz_error + blockWriter" where
  "xz_newBlockWriter c xz hash =
     sbind (newFilterWriteCloser c xz (xz_filters c)) (\<lambda>w.
       Inr \<lparr>bw_cxz = 0, bw_w = w, bw_n = 0, bw_blockSize = wc_BlockSize c, bw_closed = False, bw_headerLen = 0,
            bw_filters = xz_filters c, bw_hash = hash, bw_hashed = []\<rparr>)"

definition xz_write_all :: "byte list \<Rightarrow> byte_writer \<Rightarrow> xz_error option \<times> byte_writer" where
  "xz_write_all data w = (case bw_Write data w of (err, w) \<Rightarrow> (map_option xz_of err, w))"

definition block_writeHeader :: "blockWriter \<Rightarrow> byte_writer \<Rightarrow> xz_error option \<times> blockWriter \<times> byte_writer" where
  "block_writeHeader b w =
     (let h = \<lparr>bh_compressedSize = -1, bh_uncompressedSize = -1, bh_filters = bw_filters b\<rparr>;
          h = (if bw_closed b then h\<lparr>bh_compressedSize := bw_cxz b, bh_uncompressedSize := bw_n b\<rparr> else h) in
      case block_MarshalBinary h of
        Inl err \<Rightarrow> (Some err, b, w)
      | Inr data \<Rightarrow>
          (case xz_write_all data w of
             (Some err, w) \<Rightarrow> (Some err, b, w)
           | (None, w) \<Rightarrow> (None, b\<lparr>bw_headerLen := length data\<rparr>, w)))"

definition bw_unpaddedSize :: "blockWriter \<Rightarrow> int" where
  "bw_unpaddedSize b = int (bw_headerLen b) + bw_cxz b + int (cs_Size (bw_hash b))"

definition bw_record :: "blockWriter \<Rightarrow> xz_error + xz_record" where
  "bw_record b =
     (if bw_headerLen b \<le> 0 then Inl XzPanic
      else Inr \<lparr>unpaddedSize = bw_unpaddedSize b, uncompressedSize = bw_n b\<rparr>)"

definition xz_errClosed :: xz_error where "xz_errClosed = XzError ''writer already closed''"
definition errNoSpace :: xz_error where "errNoSpace = XzError ''no space''"

text \<open>A call of the \<open>Writer2\<close> on the destination, with its bytes counted.\<close>

definition on_writer2 ::
    "(any_matcher Writer2 \<Rightarrow> ('a \<times> any_matcher Writer2) option) \<Rightarrow> blockWriter \<times> byte_writer \<Rightarrow> ('a \<times> blockWriter \<times> byte_writer) option" where
  "on_writer2 f s =
     (case s of (b, xz) \<Rightarrow>
      case f ((bw_w b)\<lparr>w2_w := xz\<rparr>) of
        None \<Rightarrow> None
      | Some (x, w) \<Rightarrow>
          Some (x, b\<lparr>bw_w := w, bw_cxz := bw_cxz b + (int (length (written (w2_w w))) - int (length (written xz)))\<rparr>, w2_w w))"

text \<open>\<open>bw.mw.Write(p)\<close>, an \<open>io.MultiWriter\<close> when there is a checksum.\<close>

definition block_w_Write :: "byte list \<Rightarrow> any_matcher Writer2 \<Rightarrow> ((nat \<times> lzma_error option) \<times> any_matcher Writer2) option" where
  "block_w_Write p w = (case Writer2_Write any_ops p w of None \<Rightarrow> None | Some (n, err, w) \<Rightarrow> Some ((n, err), w))"

definition block_mw_Write :: "byte list \<Rightarrow> blockWriter \<times> byte_writer \<Rightarrow> (nat \<times> xz_error option \<times> blockWriter \<times> byte_writer) option" where
  "block_mw_Write p s =
     (case on_writer2 (block_w_Write p) s of
        None \<Rightarrow> None
      | Some ((n, err), b, xz) \<Rightarrow>
          if cs_Size (bw_hash b) = 0 then Some (n, map_option xz_of err, b, xz)
          else if err \<noteq> None then Some (n, map_option xz_of err, b, xz)
          else if n \<noteq> length p then Some (n, Some (XzIo ShortWrite), b, xz)
          else Some (n, None, b\<lparr>bw_hashed := bw_hashed b @ p\<rparr>, xz))"

definition block_Write :: "byte list \<Rightarrow> blockWriter \<times> byte_writer \<Rightarrow> (nat \<times> xz_error option \<times> blockWriter \<times> byte_writer) option" where
  "block_Write p s =
     (case s of (b, xz) \<Rightarrow>
      if bw_closed b then Some (0, Some xz_errClosed, b, xz)
      else
        let t = bw_blockSize b - bw_n b;
            err = (if int (length p) > t then Some errNoSpace else None);
            p = (if int (length p) > t then take (nat t) p else p) in
        if t < 0 then Some (0, Some XzPanic, b, xz)
        else
        (case block_mw_Write p (b, xz) of
           None \<Rightarrow> None
         | Some (n, werr, b, xz) \<Rightarrow> Some (n, if werr \<noteq> None then werr else err, b\<lparr>bw_n := bw_n b + int n\<rparr>, xz)))"

definition block_Close :: "blockWriter \<times> byte_writer \<Rightarrow> (xz_error option \<times> blockWriter \<times> byte_writer) option" where
  "block_Close s =
     (case s of (b, xz) \<Rightarrow>
      if bw_closed b then Some (Some xz_errClosed, b, xz)
      else
        let b = b\<lparr>bw_closed := True\<rparr> in
        (case on_writer2 (Writer2_Close any_ops) (b, xz) of
           None \<Rightarrow> None
         | Some (Some err, b, xz) \<Rightarrow> Some (Some (xz_of err), b, xz)
         | Some (None, b, xz) \<Rightarrow>
             (case xz_write_all (replicate (padLen (bw_cxz b)) 0 @ cs_Sum (bw_hash b) (bw_hashed b)) xz of
                (err, xz) \<Rightarrow> Some (err, b, xz))))"

section \<open>The writer of a file\<close>

record xz_Writer =
  xw_config :: xz_WriterConfig
  xw_xz :: byte_writer
  xw_bw :: "blockWriter option"
  xw_newHash :: checksum
  xw_h :: byte
  xw_index :: "xz_record list"
  xw_closed :: bool

definition newBlockWriter :: "xz_Writer \<Rightarrow> xz_error option \<times> xz_Writer" where
  "newBlockWriter w =
     (case xz_newBlockWriter (xw_config w) (xw_xz w) (xw_newHash w) of
        Inl err \<Rightarrow> (Some err, w\<lparr>xw_bw := None\<rparr>)
      | Inr b \<Rightarrow> (case block_writeHeader b (xw_xz w) of (err, b, xz) \<Rightarrow> (err, w\<lparr>xw_bw := Some b, xw_xz := xz\<rparr>)))"

definition closeBlockWriter :: "xz_Writer \<Rightarrow> (xz_error option \<times> xz_Writer) option" where
  "closeBlockWriter w =
     (case xw_bw w of
        None \<Rightarrow> Some (Some XzPanic, w)
      | Some b \<Rightarrow>
          (case block_Close (b, xw_xz w) of
             None \<Rightarrow> None
           | Some (err, b, xz) \<Rightarrow>
               (let w = w\<lparr>xw_bw := Some b, xw_xz := xz\<rparr> in
                case err of
                  Some err \<Rightarrow> Some (Some err, w)
                | None \<Rightarrow>
                    (case bw_record b of
                       Inl err \<Rightarrow> Some (Some err, w)
                     | Inr rec \<Rightarrow> Some (None, w\<lparr>xw_index := xw_index w @ [rec]\<rparr>)))))"

definition xz_NewWriter :: "(byte list \<Rightarrow> byte list) \<Rightarrow> xz_WriterConfig \<Rightarrow> byte_writer \<Rightarrow> xz_error + xz_Writer" where
  "xz_NewWriter sha c xz =
     sbind (xz_WriterConfig_Verify c) (\<lambda>c.
     sbind (newHashFunc sha (wc_CheckSum c)) (\<lambda>hash.
     sbind (header_MarshalBinary (wc_CheckSum c)) (\<lambda>data.
       case xz_write_all data xz of
         (Some err, xz) \<Rightarrow> Inl err
       | (None, xz) \<Rightarrow>
           (case newBlockWriter \<lparr>xw_config = c, xw_xz = xz, xw_bw = None, xw_newHash = hash, xw_h = wc_CheckSum c,
                   xw_index = [], xw_closed = False\<rparr> of
              (Some err, _) \<Rightarrow> Inl err
            | (None, w) \<Rightarrow> Inr w))))"

text \<open>The loop of \<open>Write(p)\<close>, of which the first \<open>n\<close> bytes are written.  \<open>bs\<close> collects the writers of the blocks that the call
  has closed, which the code drops.\<close>

partial_function (option) xz_Write_from ::
    "byte list \<Rightarrow> nat \<Rightarrow> blockWriter list \<Rightarrow> xz_Writer \<Rightarrow> (nat \<times> xz_error option \<times> blockWriter list \<times> xz_Writer) option" where
  "xz_Write_from p n bs w =
     (case xw_bw w of
        None \<Rightarrow> Some (n, Some XzPanic, bs, w)
      | Some b \<Rightarrow>
          (case block_Write (drop n p) (b, xw_xz w) of
             None \<Rightarrow> None
           | Some (k, err, b, xz) \<Rightarrow>
               (let n = n + k; w = w\<lparr>xw_bw := Some b, xw_xz := xz\<rparr> in
                if err \<noteq> Some errNoSpace then Some (n, err, bs, w)
                else (case closeBlockWriter w of
                        None \<Rightarrow> None
                      | Some (Some err, w) \<Rightarrow> Some (n, Some err, bs, w)
                      | Some (None, w) \<Rightarrow>
                          (let bs = bs @ [the (xw_bw w)] in
                           case newBlockWriter w of
                             (Some err, w) \<Rightarrow> Some (n, Some err, bs, w)
                           | (None, w) \<Rightarrow> xz_Write_from p n bs w)))))"

declare xz_Write_from.simps [code]

definition xz_Write :: "byte list \<Rightarrow> xz_Writer \<Rightarrow> (nat \<times> xz_error option \<times> blockWriter list \<times> xz_Writer) option" where
  "xz_Write p w = (if xw_closed w then Some (0, Some xz_errClosed, [], w) else xz_Write_from p 0 [] w)"

definition dest_write :: "byte_writer xz_write" where
  "dest_write p w =
     (case bw_Write p w of
        (err, w') \<Rightarrow> (length (written w') - length (written w), map_option (\<lambda>e. case e of LzIo e \<Rightarrow> e | _ \<Rightarrow> ShortWrite) err, w'))"

definition xz_Close :: "xz_Writer \<Rightarrow> (xz_error option \<times> xz_Writer) option" where
  "xz_Close w =
     (if xw_closed w then Some (Some xz_errClosed, w)
      else
        case closeBlockWriter (w\<lparr>xw_closed := True\<rparr>) of
          None \<Rightarrow> None
        | Some (Some err, w) \<Rightarrow> Some (Some err, w)
        | Some (None, w) \<Rightarrow>
            (case writeIndex dest_write (xw_index w) (xw_xz w) of
               (_, Some e, xz) \<Rightarrow> Some (Some (XzIo e), w\<lparr>xw_xz := xz\<rparr>)
             | (n, None, xz) \<Rightarrow>
                 (case footer_MarshalBinary \<lparr>indexSize = int n, ft_flags = xw_h w\<rparr> of
                    Inl err \<Rightarrow> Some (Some err, w\<lparr>xw_xz := xz\<rparr>)
                  | Inr data \<Rightarrow> (case xz_write_all data xz of (err, xz) \<Rightarrow> Some (err, w\<lparr>xw_xz := xz\<rparr>)))))"

end
