(* ===== verification/XzReadProofs.thy ===== *)
theory XzReadProofs
  imports XzStream XzFormatProps Lzma2Safe Lzma2Props
begin

text \<open>
  What the reader of xz files delivers. \<open>block_of\<close> says which bytes are a block with its data, \<open>stream_of\<close> which are a
  stream and \<open>file_of\<close> which are a file of several streams with padding; the reader of each level
  delivers the data and then takes exactly these bytes from its source.
\<close>

section \<open>Blocks\<close>

definition sum_ok :: "checksum \<Rightarrow> bool" where
  "sum_ok hash \<longleftrightarrow> (\<forall>d. length (cs_Sum hash d) = cs_Size hash)"

lemma newHashFunc_ok:
  "newHashFunc sha flags = Inr hash \<Longrightarrow> (\<And>d. length (sha d) = 32) \<Longrightarrow> sum_ok hash"
  by (auto simp: newHashFunc_def newNoneHash_def newCRC32_def newCRC64_def xz_putUint64LE_def sum_ok_def split: if_splits)

definition no_sizes :: "lzmaFilter \<Rightarrow> blockHeader" where
  "no_sizes f = \<lparr>bh_compressedSize = -1, bh_uncompressedSize = -1, bh_filters = [f]\<rparr>"

definition block_tail :: "checksum \<Rightarrow> byte list \<Rightarrow> byte list \<Rightarrow> byte list" where
  "block_tail hash C X = replicate (padLen (int (length C))) 0 @ cs_Sum hash (if cs_Size hash \<noteq> 0 then X else [])"

text \<open>\<open>m\<close> is the capacity in the header of the block.\<close>

definition block_of :: "nat \<Rightarrow> int \<Rightarrow> checksum \<Rightarrow> xz_record \<times> byte list \<times> byte list \<Rightarrow> bool" where
  "block_of cap m hash t \<longleftrightarrow> (case t of (rec, bytes, X) \<Rightarrow> \<exists>n s0 hb C. newState (st_Properties s0) = Inr s0 \<and>
     chunked cap n s0 Start_S s0 [] C X \<and> int cap \<le> m \<and> 1 \<le> m \<and>
     (\<forall>rest e. readBlockHeader (rd (hb @ rest) e) = (Inr (no_sizes \<lparr>lf_dictCap = m\<rparr>), length hb, rd rest e)) \<and>
     bytes = hb @ C @ block_tail hash C X \<and>
     rec = \<lparr>unpaddedSize = int (length hb) + int (length C) + int (cs_Size hash), uncompressedSize = int (length X)\<rparr>)"

text \<open>The reader of a block of which \<open>R\<close> bytes have been delivered.\<close>

definition in_block :: "checksum \<Rightarrow> xz_record \<Rightarrow> byte list \<Rightarrow> byte list \<Rightarrow> nat \<Rightarrow> blockReader \<Rightarrow> source \<Rightarrow> bool" where
  "in_block hash rec tail X R b src \<longleftrightarrow> (\<exists>cap n s0 C f. newState (st_Properties s0) = Inr s0 \<and>
     serving cap n s0 (block_tail hash C X @ tail) X R ((bk_fr b)\<lparr>r2_r := to_br src\<rparr>) \<and>
     reader2_wf ((bk_fr b)\<lparr>r2_r := to_br src\<rparr>) \<and>
     bk_header b = no_sizes f \<and> bk_hash b = hash \<and> bk_hashed b = (if cs_Size hash \<noteq> 0 then take R X else []) \<and>
     bk_n b = int R \<and> bk_lxz b + int (pos_left ((bk_fr b)\<lparr>r2_r := to_br src\<rparr>)) = int (length C + length (block_tail hash C X @ tail)) \<and>
     R \<le> length X \<and>
     rec = \<lparr>unpaddedSize = int (bk_headerLen b) + int (length C) + int (cs_Size hash), uncompressedSize = int (length X)\<rparr>)"

lemma to_of_br [simp]: "to_br (of_br r) = r" "of_br (to_br s) = s"
  by (simp_all add: to_br_def of_br_def)

lemma br_fields [simp]: "br_data (to_br s) = src_data s" "br_end (to_br s) = src_err s" "src_data (of_br r) = br_data r" "src_err (of_br r) = br_end r"
  by (simp_all add: to_br_def of_br_def)

lemma chunked_not_stop: "chunked cap n s0 cs c h out D \<Longrightarrow> cs \<noteq> Stop_T"
  by (erule chunked.cases) (auto dest!: arg_cong [of _ _ isl])

lemma serving_end:
  assumes "serving cap n s0 tail D R r" "EOS r"
  shows "R = length D" "\<not> r2_lr r" "br_data (r2_r r) = tail"
proof -
  have "\<not> inside cap n s0 tail h out D R r" for h out
    using assms(2) chunked_not_stop [of _ _ _ Stop_T] by (auto simp: inside_def EOS_def)
  then show "R = length D" "\<not> r2_lr r" "br_data (r2_r r) = tail" using assms(1) by (auto simp: serving_def)
qed

lemma block_end_ok:
  assumes "sum_ok hash" "bk_hash b = hash" "bk_header b = no_sizes f" "0 \<le> bk_n b" "bk_lxz b = int (length C)"
    and "src_data src = block_tail hash C X @ tail" "bk_hashed b = (if cs_Size hash \<noteq> 0 then X else [])"
  shows "block_end b src = (XzIo EOF, src\<lparr>src_data := tail\<rparr>)"
proof -
  define k where "k = padLen (int (length C))"
  define s where "s = cs_Sum hash (if cs_Size hash \<noteq> 0 then X else [])"
  have s: "length s = cs_Size hash" using assms(1) by (simp add: s_def sum_ok_def)
  have "src = rd ((replicate k 0 @ s) @ tail) (src_err src)" using assms(6) by (simp add: block_tail_def k_def s_def)
  then have r: "xz_ReadFull (k + cs_Size hash) src = (Inr (replicate k 0 @ s), k + cs_Size hash, src\<lparr>src_data := tail\<rparr>)"
    using s xz_ReadFull_append [of "replicate k 0 @ s" "k + cs_Size hash" tail "src_err src"] by simp
  have "allZeros (replicate k 0)" by (simp add: allZeros_def list_all_iff)
  moreover have "cs_Sum hash (bk_hashed b) = s" using assms(7) by (simp add: s_def)
  ultimately show ?thesis using r assms(2-5) s
    by (simp add: block_end_def no_sizes_def k_def [symmetric] Let_def)
qed

lemma block_Read_ok:
  assumes i: "in_block hash rec tail X R b src" and k: "0 < k" and hash: "sum_ok hash"
  shows "\<exists>b' src'. block_Read k (b, src) =
      Some (take k (drop R X), if length (drop R X) < k then Some (XzIo EOF) else None, b', src') \<and> src_err src' = src_err src \<and>
    (if length (drop R X) < k then src_data src' = tail \<and> bk_record b' = rec else in_block hash rec tail X (R + k) b' src')"
proof -
  define r2 where "r2 = (bk_fr b)\<lparr>r2_r := to_br src\<rparr>"
  define q where "q = take k (drop R X)"
  obtain cap n s0 C f where c: "newState (st_Properties s0) = Inr s0" "serving cap n s0 (block_tail hash C X @ tail) X R r2"
    "reader2_wf r2" "bk_header b = no_sizes f" "bk_hash b = hash" "bk_hashed b = (if cs_Size hash \<noteq> 0 then take R X else [])"
    "bk_n b = int R" "bk_lxz b + int (pos_left r2) = int (length C + length (block_tail hash C X @ tail))" "R \<le> length X"
    "rec = \<lparr>unpaddedSize = int (bk_headerLen b) + int (length C) + int (cs_Size hash), uncompressedSize = int (length X)\<rparr>"
    using i unfolding in_block_def r2_def by blast
  from Read2_serving [OF c(1,2) k] obtain r2' where r: "Reader2_Read k r2 = Some (q, if length (drop R X) < k then Some (LzIo EOF) else None, r2')"
    "serving cap n s0 (block_tail hash C X @ tail) X (R + length q) r2'" "length (drop R X) < k \<Longrightarrow> EOS r2'"
    unfolding q_def by blast
  from Read2_ok [OF c(3), of k] r(1) have wf: "reader2_wf r2'" "read_on (r2_r r2) (r2_r r2')" by auto
  define b1 where "b1 = b\<lparr>bk_fr := r2', bk_n := bk_n b + int (length q), bk_lxz := bk_lxz b + (int (pos_left r2) - int (pos_left r2')),
      bk_hashed := (if cs_Size (bk_hash b) \<noteq> 0 then bk_hashed b @ q else bk_hashed b)\<rparr>"
  define src1 where "src1 = of_br (r2_r r2')"
  have er: "src_err src1 = src_err src" using wf(2) by (auto simp: src1_def read_on_def r2_def)
  have hd: "bh_uncompressedSize (bk_header b1) = -1" "bh_compressedSize (bk_header b1) = -1" by (simp_all add: b1_def c(4) no_sizes_def)
  define e where "e = (if length (drop R X) < k then Some (LzIo EOF) else None)"
  have eq: "block_Read k (b, src) = (if e \<noteq> Some (LzIo EOF) then Some (q, map_option xz_of e, b1, src1)
      else case block_end b1 src1 of (e, src) \<Rightarrow> Some (q, Some e, b1, src))"
    unfolding block_Read_def prod.case r2_def [symmetric] Let_def r(1) [folded e_def] option.case b1_def [symmetric] src1_def [symmetric] hd
    by simp
  have tk: "take R X @ q = take (R + k) X" by (simp add: q_def take_add)
  show ?thesis
  proof (cases "length (drop R X) < k")
    case False
    then have lq: "length q = k" by (simp add: q_def)
    have "block_Read k (b, src) = Some (q, None, b1, src1)"
      using eq False by (simp add: e_def)
    moreover have "in_block hash rec tail X (R + k) b1 src1"
      unfolding in_block_def
      by (rule exI [of _ cap], rule exI [of _ n], rule exI [of _ s0], rule exI [of _ C], rule exI [of _ f])
        (use c r(2) wf lq False tk in \<open>auto simp: b1_def src1_def\<close>)
    ultimately show ?thesis using False er unfolding q_def by auto
  next
    case True
    then have lq: "R + length q = length X" "q = drop R X" using c(9) by (auto simp: q_def)
    note se = serving_end [OF r(2) r(3) [OF True]]
    have pl: "pos_left r2' = length (block_tail hash C X @ tail)" using se by (simp add: pos_left_def unfetched_def)
    have be: "block_end b1 src1 = (XzIo EOF, src1\<lparr>src_data := tail\<rparr>)"
      by (rule block_end_ok [OF hash, of _ f C _ X])
        (use c lq se pl tk in \<open>auto simp: b1_def src1_def\<close>)
    have "block_Read k (b, src) = Some (q, Some (XzIo EOF), b1, src1\<lparr>src_data := tail\<rparr>)"
      using eq True be by (simp add: e_def)
    moreover have "bk_record b1 = rec" using c lq pl by (simp add: bk_record_def bk_unpaddedSize_def b1_def)
    ultimately show ?thesis using True er unfolding q_def by auto
  qed
qed

lemma newBlockReader_ok:
  assumes b: "block_of cap m hash (rec, bytes, X)" and lim: "Reader2Config_Verify (rc_DictCap c) = Inr limit" "m \<le> limit"
  obtains hlen src1 where "\<And>e. readBlockHeader (rd (bytes @ tail) e) = (Inr (no_sizes \<lparr>lf_dictCap = m\<rparr>), hlen, rd src1 e)"
    "\<And>e. \<exists>b. newBlockReader c (rd src1 e) (no_sizes \<lparr>lf_dictCap = m\<rparr>) (hlen) hash = Inr b \<and>
       in_block hash rec tail X 0 b (of_br (r2_r (bk_fr b))) \<and> src_err (of_br (r2_r (bk_fr b))) = e"
proof -
  obtain n s0 hb C where d: "newState (st_Properties s0) = Inr s0" "chunked cap n s0 Start_S s0 [] C X" "int cap \<le> m" "1 \<le> m"
     "\<And>rest e. readBlockHeader (rd (hb @ rest) e) = (Inr (no_sizes \<lparr>lf_dictCap = m\<rparr>), length hb, rd rest e)"
     "bytes = hb @ C @ block_tail hash C X"
     "rec = \<lparr>unpaddedSize = int (length hb) + int (length C) + int (cs_Size hash), uncompressedSize = int (length X)\<rparr>"
    using b by (auto simp: block_of_def)
  define src1 where "src1 = C @ block_tail hash C X @ tail"
  have "limit = Reader2Config_fill (rc_DictCap c)" using lim(1) by (auto simp: Reader2Config_Verify_def Let_def split: if_splits)
  then have lim2: "Reader2Config_Verify limit = Inr limit"
    using lim(1) by (auto simp: Reader2Config_Verify_def Reader2Config_fill_def MinDictCap_def Let_def split: if_splits)
  have "\<exists>b. newBlockReader c (rd src1 e) (no_sizes \<lparr>lf_dictCap = m\<rparr>) (length hb) hash = Inr b \<and>
       in_block hash rec tail X 0 b (of_br (r2_r (bk_fr b))) \<and> src_err (of_br (r2_r (bk_fr b))) = e" for e
  proof -
    have br: "br_data (to_br (rd src1 e)) = C @ (block_tail hash C X @ tail)" by (simp add: src1_def)
    obtain r2 where r2: "NewReader2 limit (to_br (rd src1 e)) = Inr r2" "serving cap n s0 (block_tail hash C X @ tail) X 0 r2"
      using NewReader2_ok [OF d(1,2) br lim2] d(3) lim(2) by force
    note wf = NewReader2_wf(2) [OF r2(1)]
    have on: "br_end (r2_r r2) = e" using NewReader2_on [OF r2(1)] by (auto simp: read_on_def)
    define b where "b = \<lparr>bk_header = no_sizes \<lparr>lf_dictCap = m\<rparr>, bk_headerLen = length hb, bk_hash = hash, bk_hashed = [],
            bk_lxz = int (length src1) - int (pos_left r2), bk_n = 0, bk_fr = r2\<rparr>"
    have "newBlockReader c (rd src1 e) (no_sizes \<lparr>lf_dictCap = m\<rparr>) (length hb) hash = Inr b"
      using r2(1) lim d(4) by (simp add: newBlockReader_def no_sizes_def newFilterReader_def verifyFilters_def filter_last_def
          filter_reader_def Let_def b_def)
    moreover have "in_block hash rec tail X 0 b (of_br (r2_r (bk_fr b)))"
      unfolding in_block_def
      by (rule exI [of _ cap], rule exI [of _ n], rule exI [of _ s0], rule exI [of _ C], rule exI [of _ "\<lparr>lf_dictCap = m\<rparr>"])
        (use d(1,7) r2(2) wf in \<open>simp add: b_def src1_def\<close>)
    ultimately show ?thesis using on by (auto simp: b_def)
  qed
  moreover have "readBlockHeader (rd (bytes @ tail) e) = (Inr (no_sizes \<lparr>lf_dictCap = m\<rparr>), length hb, rd src1 e)" for e
    using d(5) [of "C @ block_tail hash C X @ tail" e] by (simp add: d(6) src1_def)
  ultimately show thesis by (rule that [of "length hb" src1, rotated])
qed

section \<open>Streams\<close>

type_synonym block = "xz_record \<times> byte list \<times> byte list"

abbreviation bl_recs :: "block list \<Rightarrow> xz_record list" where "bl_recs bl \<equiv> map fst bl"
abbreviation bl_bytes :: "block list \<Rightarrow> byte list" where "bl_bytes bl \<equiv> concat (map (fst \<circ> snd) bl)"
abbreviation bl_data :: "block list \<Rightarrow> byte list" where "bl_data bl \<equiv> concat (map (snd \<circ> snd) bl)"

text \<open>The index and the footer of a stream.\<close>

definition ending_of :: "byte \<Rightarrow> xz_record list \<Rightarrow> byte list \<Rightarrow> bool" where
  "ending_of flags recs bytes \<longleftrightarrow> (\<exists>idx ftr. bytes = 0 # idx @ ftr \<and>
     (\<forall>rest e. readIndexBody (rd (idx @ rest) e) (length recs) = (Inr recs, length idx, rd rest e)) \<and>
     length ftr = footerLen \<and> footer_UnmarshalBinary ftr = Inr \<lparr>indexSize = int (length idx) + 1, ft_flags = flags\<rparr>)"

text \<open>What stands behind the blocks: the index and the footer, or nothing in a file that is cut there.\<close>

definition closing :: "byte \<Rightarrow> xz_record list \<Rightarrow> byte list \<Rightarrow> byte list \<Rightarrow> io_error \<Rightarrow> bool" where
  "closing flags recs fin tail e \<longleftrightarrow> ending_of flags recs fin \<or> fin = [] \<and> tail = [] \<and> e = EOF"

text \<open>The reader of a stream: \<open>recs\<close> are all its records, \<open>D\<close> is the data not delivered.\<close>

definition in_stream :: "nat \<Rightarrow> int \<Rightarrow> xz_record list \<Rightarrow> byte list \<Rightarrow> byte list \<Rightarrow> block list \<Rightarrow> streamReader \<Rightarrow> source \<Rightarrow> bool" where
  "in_stream cap m recs tail D bl r src \<longleftrightarrow> sum_ok (xs_newHash r) \<and> (\<exists>fin. closing (xs_h r) recs fin tail (src_err src) \<and>
     (case xs_br r of
        None \<Rightarrow> list_all (block_of cap m (xs_newHash r)) bl \<and> recs = xs_index r @ bl_recs bl \<and>
          src_data src = bl_bytes bl @ fin @ tail \<and> D = bl_data bl
      | Some b \<Rightarrow> \<exists>rec bytes X bl' R. bl = (rec, bytes, X) # bl' \<and> list_all (block_of cap m (xs_newHash r)) bl' \<and>
          recs = xs_index r @ rec # bl_recs bl' \<and> in_block (xs_newHash r) rec (bl_bytes bl' @ fin @ tail) X R b src \<and>
          D = drop R X @ bl_data bl'))"

lemma check_index_refl: "check_index recs recs = None"
  by (induction recs) simp_all

lemma readTail_ok:
  assumes "ending_of (xs_h r) (xs_index r) (0 # fin)"
  shows "readTail r (rd (fin @ tail) e) = (None, rd tail e)"
proof -
  obtain idx ftr where f: "fin = idx @ ftr"
     "\<And>rest e. readIndexBody (rd (idx @ rest) e) (length (xs_index r)) = (Inr (xs_index r), length idx, rd rest e)"
     "length ftr = footerLen" "footer_UnmarshalBinary ftr = Inr \<lparr>indexSize = int (length idx) + 1, ft_flags = xs_h r\<rparr>"
    using assms by (auto simp: ending_of_def)
  show ?thesis using f by (simp add: readTail_def check_index_refl)
qed

lemma readBlockHeader_index: "readBlockHeader (rd (0 # fin) e) = (Inl ErrIndexIndicator, 1, rd fin e)"
  by (simp add: readBlockHeader_def CopyN_def Let_def)

lemma in_block_R: "in_block hash rec tail X R b src \<Longrightarrow> R \<le> length X"
  by (auto simp: in_block_def)

definition stream_result :: "nat \<Rightarrow> byte list \<Rightarrow> byte list \<Rightarrow> (byte list \<times> xz_error option \<times> streamReader \<times> source) option \<Rightarrow>
    (streamReader \<Rightarrow> source \<Rightarrow> bool) \<Rightarrow> bool" where
  "stream_result k acc D res Q \<longleftrightarrow> (\<exists>r' src'. res = Some (acc @ take (k - length acc) D,
     if length D < k - length acc then Some (XzIo EOF) else None, r', src') \<and> Q r' src')"

lemma stream_Read_from_ok:
  assumes lim: "Reader2Config_Verify (rc_DictCap c) = Inr limit" "m \<le> limit"
    and "in_stream cap m recs tail D bl r src" "length acc \<le> k"
  shows "stream_result k acc D (stream_Read_from c k acc r src) (\<lambda>r' src'. src_err src' = src_err src \<and>
    (if length D < k - length acc then src_data src' = tail
     else \<exists>bl'. in_stream cap m recs tail (drop (k - length acc) D) bl' r' src'))"
  using assms(3,4)
proof (induction "2 * length bl + (if xs_br r = None then 1 else 0)" arbitrary: bl r src acc D rule: less_induct)
  case less
  define hash where "hash = xs_newHash r"
  have hash: "sum_ok hash"
    using less.prems(1) by (auto simp: in_stream_def hash_def)
  show ?case
  proof (cases "length acc \<ge> k")
    case True
    then show ?thesis using less.prems(1)
      by (subst stream_Read_from.simps) (auto simp: stream_result_def)
  next
    case k: False
    show ?thesis
    proof (cases "xs_br r")
      case None
      then obtain fin where fin: "closing (xs_h r) recs fin tail (src_err src)" and st: "list_all (block_of cap m hash) bl" "recs = xs_index r @ bl_recs bl"
        "src_data src = bl_bytes bl @ fin @ tail" "D = bl_data bl" using less.prems(1) by (auto simp: in_stream_def hash_def)
      have src: "src = rd (bl_bytes bl @ fin @ tail) (src_err src)" using st(3) by simp
      show ?thesis
      proof (cases bl)
        case Nil
        from fin have "stream_Read_from c k acc r src = Some (acc, Some (XzIo EOF), r, rd tail (src_err src))"
          unfolding closing_def
        proof
          assume fin: "ending_of (xs_h r) recs fin"
          then obtain fin' where fin': "fin = 0 # fin'" by (auto simp: ending_of_def)
          have "readBlockHeader src = (Inl ErrIndexIndicator, 1, rd (fin' @ tail) (src_err src))"
            by (subst src) (simp add: Nil fin' readBlockHeader_index)
          moreover have "readTail r (rd (fin' @ tail) (src_err src)) = (None, rd tail (src_err src))"
            by (rule readTail_ok) (use fin fin' st(2) Nil in simp)
          ultimately show ?thesis using k None by (subst stream_Read_from.simps) simp
        next
          assume "fin = [] \<and> tail = [] \<and> src_err src = EOF"
          then have "src = rd [] EOF" "tail = []" "src_err src = EOF" using src Nil by simp_all
          moreover from this have "readBlockHeader src = (Inl (XzIo EOF), 0, src)" by (simp add: readBlockHeader_def CopyN_def)
          moreover have "XzIo EOF \<noteq> ErrIndexIndicator" by simp
          ultimately show ?thesis using k None by (subst stream_Read_from.simps) simp
        qed
        then show ?thesis using k st(4) Nil by (simp add: stream_result_def)
      next
        case (Cons t bl')
        obtain rec bytes X where t: "t = (rec, bytes, X)" by (metis prod_cases3)
        have b: "block_of cap m hash (rec, bytes, X)" using st(1) by (simp add: Cons t)
        obtain hlen src1 where h: "\<And>e. readBlockHeader (rd (bytes @ bl_bytes bl' @ fin @ tail) e) =
            (Inr (no_sizes \<lparr>lf_dictCap = m\<rparr>), hlen, rd src1 e)"
          "\<And>e. \<exists>b. newBlockReader c (rd src1 e) (no_sizes \<lparr>lf_dictCap = m\<rparr>) hlen hash = Inr b \<and>
             in_block hash rec (bl_bytes bl' @ fin @ tail) X 0 b (of_br (r2_r (bk_fr b))) \<and> src_err (of_br (r2_r (bk_fr b))) = e"
          by (rule newBlockReader_ok [OF b lim, where tail = "bl_bytes bl' @ fin @ tail"]) (rule that)
        from h(2) [of "src_err src"] obtain b where nb:
          "newBlockReader c (rd src1 (src_err src)) (no_sizes \<lparr>lf_dictCap = m\<rparr>) hlen hash = Inr b"
          "in_block hash rec (bl_bytes bl' @ fin @ tail) X 0 b (of_br (r2_r (bk_fr b)))" "src_err (of_br (r2_r (bk_fr b))) = src_err src" by blast
        define r1 where "r1 = r\<lparr>xs_br := Some b\<rparr>"
        define s1 where "s1 = of_br (r2_r (bk_fr b))"
        have "readBlockHeader src = (Inr (no_sizes \<lparr>lf_dictCap = m\<rparr>), hlen, rd src1 (src_err src))"
          by (subst src) (simp add: Cons t h(1))
        then have step: "stream_Read_from c k acc r src = stream_Read_from c k acc r1 s1"
          using k None nb(1) by (subst stream_Read_from.simps) (simp add: hash_def r1_def s1_def)
        have "in_stream cap m recs tail D bl r1 s1"
          unfolding in_stream_def using hash fin st nb(2,3)
          by (auto simp: r1_def s1_def hash_def Cons t intro!: exI [of _ fin] exI [of _ 0])
        from less.hyps [OF _ this less.prems(2)] show ?thesis
          unfolding step using None nb(3) by (simp add: r1_def s1_def)
      qed
    next
      case (Some b)
      then obtain fin rec bytes X bl' R where fin: "closing (xs_h r) recs fin tail (src_err src)" and bl: "bl = (rec, bytes, X) # bl'"
        and st: "list_all (block_of cap m hash) bl'" "recs = xs_index r @ rec # bl_recs bl'"
          "in_block hash rec (bl_bytes bl' @ fin @ tail) X R b src" "D = drop R X @ bl_data bl'"
        using less.prems(1) by (auto simp: in_stream_def hash_def)
      define j where "j = k - length acc"
      define q where "q = take j (drop R X)"
      have j: "0 < j" using k by (simp add: j_def)
      obtain b' src' where rd: "block_Read j (b, src) = Some (q, if length (drop R X) < j then Some (XzIo EOF) else None, b', src')"
        "src_err src' = src_err src" "if length (drop R X) < j then src_data src' = bl_bytes bl' @ fin @ tail \<and> bk_record b' = rec
           else in_block hash rec (bl_bytes bl' @ fin @ tail) X (R + j) b' src'"
        using block_Read_ok [OF st(3) j hash] unfolding q_def by blast
      show ?thesis
      proof (cases "length (drop R X) < j")
        case False
        define r1 where "r1 = r\<lparr>xs_br := Some b'\<rparr>"
        have lq: "length (acc @ q) = k" using False k by (simp add: q_def j_def)
        have "stream_Read_from c k acc r src = stream_Read_from c k (acc @ q) r1 src'"
          using k Some rd(1) False by (subst stream_Read_from.simps) (simp add: r1_def j_def)
        also have "\<dots> = Some (acc @ q, None, r1, src')" using lq by (subst stream_Read_from.simps) simp
        finally have res: "stream_Read_from c k acc r src = Some (acc @ q, None, r1, src')" .
        have "in_stream cap m recs tail (drop (R + j) X @ bl_data bl') bl r1 src'"
          unfolding in_stream_def using hash fin st rd(2,3) False
          by (auto simp: r1_def hash_def bl intro!: exI [of _ fin] exI [of _ "R + j"])
        moreover have "drop j D = drop (R + j) X @ bl_data bl'" "take j D = q" "\<not> length D < j"
          using False by (simp_all add: st(4) q_def add.commute)
        ultimately show ?thesis unfolding stream_result_def j_def [symmetric] res using rd(2) by auto
      next
        case True
        define r1 where "r1 = r\<lparr>xs_index := xs_index r @ [bk_record b'], xs_br := None\<rparr>"
        have q: "q = drop R X" using True by (simp add: q_def)
        have step: "stream_Read_from c k acc r src = stream_Read_from c k (acc @ q) r1 src'"
          using k Some rd(1) True by (subst stream_Read_from.simps) (simp add: r1_def j_def)
        have ist: "in_stream cap m recs tail (bl_data bl') bl' r1 src'"
          unfolding in_stream_def using hash fin st rd(2,3) True
          by (auto simp: r1_def hash_def intro!: exI [of _ fin])
        have ms: "2 * length bl' + (if xs_br r1 = None then 1 else 0) < 2 * length bl + (if xs_br r = None then 1 else 0)"
          using Some by (simp add: bl r1_def)
        have le: "length (acc @ q) \<le> k" using True k by (simp add: q j_def)
        note i = less.hyps [OF ms ist le]
        have kq: "k - length (acc @ q) = j - length q" "length q < j" using True by (simp_all add: j_def q)
        have D: "D = q @ bl_data bl'" by (simp add: st(4) q)
        have td: "take j D = q @ take (j - length q) (bl_data bl')" "drop j D = drop (j - length q) (bl_data bl')"
          "length D < j \<longleftrightarrow> length (bl_data bl') < j - length q" using kq(2) unfolding D by (auto simp del: length_concat)
        show ?thesis using i unfolding stream_result_def step kq(1) j_def [symmetric] td append_assoc rd(2) .
      qed
    qed
  qed
qed

section \<open>Files\<close>

definition stream_of :: "(byte list \<Rightarrow> byte list) \<Rightarrow> int \<Rightarrow> byte list \<Rightarrow> byte list \<Rightarrow> bool" where
  "stream_of sha limit bytes D \<longleftrightarrow> (\<exists>cap m flags hash hdr bl fin. m \<le> limit \<and> newHashFunc sha flags = Inr hash \<and>
     header_MarshalBinary flags = Inr hdr \<and> list_all (block_of cap m hash) bl \<and> ending_of flags (bl_recs bl) fin \<and>
     bytes = hdr @ bl_bytes bl @ fin \<and> D = bl_data bl)"

inductive file_of :: "(byte list \<Rightarrow> byte list) \<Rightarrow> int \<Rightarrow> byte list \<Rightarrow> byte list \<Rightarrow> bool" for sha limit where
  file_end: "file_of sha limit (replicate (4 * j) 0) []"
| file_next: "stream_of sha limit b D \<Longrightarrow> file_of sha limit rest E \<Longrightarrow> file_of sha limit (replicate (4 * j) 0 @ b @ rest) (D @ E)"

lemma newStreamReader_closing:
  assumes sha: "\<And>d. length (sha d) = 32" and lim: "Reader2Config_Verify (rc_DictCap c) = Inr limit"
    and d: "m \<le> limit" "newHashFunc sha flags = Inr hash" "header_MarshalBinary flags = Inr hdr"
    "list_all (block_of cap m hash) bl" "closing flags (bl_recs bl) fin tail e" "bytes = hdr @ bl_bytes bl @ fin" "D = bl_data bl"
  obtains r src where "newStreamReader sha c (rd (bytes @ tail) e) = (Inr r, src)"
    "in_stream cap m (bl_recs bl) tail D bl r src" "src_err src = e" "length tail < length (bytes @ tail)"
proof -
  note h = header_roundtrip_flags [OF d(3)]
  define src where "src = rd (bl_bytes bl @ fin @ tail) e"
  define r where "r = \<lparr>xs_br = None, xs_newHash = hash, xs_h = flags, xs_index = []\<rparr>"
  have "take 4 hdr = [0xfd, 0x37, 0x7a, 0x58]"
    using d(3) by (auto simp: header_MarshalBinary_def headerMagic_def split: option.splits)
  moreover have "rd (bytes @ tail) e = rd (take 4 hdr @ (drop 4 hdr @ bl_bytes bl @ fin @ tail)) e"
    by (simp add: d(6) append_assoc [symmetric] del: append_assoc)
  moreover have "length (take 4 hdr) = 4" "length (drop 4 hdr) = xz_HeaderLen - 4" using h by (simp_all add: xz_HeaderLen_def)
  moreover have "xz_ReaderConfig_Verify c = None" using lim by (simp add: xz_ReaderConfig_Verify_def)
  moreover have "take 4 hdr @ drop 4 hdr = hdr" by simp
  ultimately have "newStreamReader sha c (rd (bytes @ tail) e) = (Inr r, src)"
    using xz_ReadFull_append [of "take 4 hdr" 4 "drop 4 hdr @ bl_bytes bl @ fin @ tail" e]
      xz_ReadFull_append [of "drop 4 hdr" "xz_HeaderLen - 4" "bl_bytes bl @ fin @ tail" e] h d(2)
    unfolding newStreamReader_def by (simp add: src_def r_def)
  moreover have "in_stream cap m (bl_recs bl) tail D bl r src"
    unfolding in_stream_def using newHashFunc_ok [OF d(2) sha] d by (auto simp: r_def src_def)
  moreover have "src_err src = e" by (simp add: src_def)
  moreover have "length tail < length (bytes @ tail)" using h by (simp add: d(6) xz_HeaderLen_def)
  ultimately show thesis by (intro that)
qed

lemma newStreamReader_ok:
  assumes sha: "\<And>d. length (sha d) = 32" and lim: "Reader2Config_Verify (rc_DictCap c) = Inr limit" and s: "stream_of sha limit bytes D"
  obtains r src cap m recs bl where "newStreamReader sha c (rd (bytes @ tail) e) = (Inr r, src)"
    "m \<le> limit" "in_stream cap m recs tail D bl r src" "src_err src = e" "length tail < length (bytes @ tail)"
proof -
  obtain cap m flags hash hdr bl fin where d: "m \<le> limit" "newHashFunc sha flags = Inr hash" "header_MarshalBinary flags = Inr hdr"
    "list_all (block_of cap m hash) bl" "ending_of flags (bl_recs bl) fin" "bytes = hdr @ bl_bytes bl @ fin" "D = bl_data bl"
    using s unfolding stream_of_def by blast
  have "closing flags (bl_recs bl) fin tail e" using d(5) by (simp add: closing_def)
  from this show thesis by (rule newStreamReader_closing [OF sha lim d(1-4) _ d(6,7)]) (rule that [OF _ d(1)])
qed


lemma next_stream_pad:
  assumes lim: "Reader2Config_Verify (rc_DictCap c) = Inr limit"
  shows "next_stream sha c (rd (replicate (4 * j) 0 @ x) e) = next_stream sha c (rd x e)"
proof (induction j)
  case (Suc j)
  have "rd (replicate (4 * Suc j) 0 @ x) e = rd ([0, 0, 0, 0] @ replicate (4 * j) 0 @ x) e" by (simp add: eval_nat_numeral)
  moreover have "xz_ReadFull 4 (rd ([0, 0, 0, 0] @ replicate (4 * j) 0 @ x) e) = (Inr [0, 0, 0, 0], 4, rd (replicate (4 * j) 0 @ x) e)"
    by (rule xz_ReadFull_append) simp
  moreover have "xz_ReaderConfig_Verify c = None" using lim by (simp add: xz_ReaderConfig_Verify_def)
  ultimately have "newStreamReader sha c (rd (replicate (4 * Suc j) 0 @ x) e) = (Inl XzErrPadding, rd (replicate (4 * j) 0 @ x) e)"
    by (simp add: newStreamReader_def)
  then show ?case using Suc by (subst next_stream.simps) simp
qed simp

lemma next_stream_end:
  assumes "Reader2Config_Verify (rc_DictCap c) = Inr limit"
  shows "next_stream sha c (rd (replicate (4 * j) 0) EOF) = Some (Inl (XzIo EOF), rd [] EOF)"
proof -
  have "xz_ReaderConfig_Verify c = None" using assms by (simp add: xz_ReaderConfig_Verify_def)
  then have "next_stream sha c (rd [] EOF) = Some (Inl (XzIo EOF), rd [] EOF)"
    by (subst next_stream.simps) (simp add: newStreamReader_def xz_ReadFull_def Let_def)
  then show ?thesis using next_stream_pad [OF assms, of sha j "[]" EOF] by simp
qed

lemma next_stream_next:
  assumes "Reader2Config_Verify (rc_DictCap c) = Inr limit" "newStreamReader sha c (rd x e) = (Inr r, src)"
  shows "next_stream sha c (rd (replicate (4 * j) 0 @ x) e) = Some (Inr r, src)"
  using assms by (simp add: next_stream_pad) (subst next_stream.simps, simp)

definition in_file :: "(byte list \<Rightarrow> byte list) \<Rightarrow> int \<Rightarrow> byte list \<Rightarrow> byte list \<Rightarrow> xz_Reader \<Rightarrow> bool" where
  "in_file sha limit tail D r \<longleftrightarrow> \<not> xr_closed r \<and> Reader2Config_Verify (rc_DictCap (xr_config r)) = Inr limit \<and> src_err (xr_xz r) = EOF \<and>
     (rc_SingleStream (xr_config r) \<longrightarrow> tail = []) \<and>
     (case xr_sr r of
        None \<Rightarrow> src_data (xr_xz r) = tail \<and> file_of sha limit tail D
      | Some sr \<Rightarrow> \<exists>cap m recs D1 E bl. m \<le> limit \<and> in_stream cap m recs tail D1 bl sr (xr_xz r) \<and> file_of sha limit tail E \<and> D = D1 @ E)"

lemma in_fileI:
  assumes "m \<le> limit" "in_stream cap m recs tail D1 bl sr (xr_xz r)" "file_of sha limit tail E" "xr_sr r = Some sr"
    and "\<not> xr_closed r" "Reader2Config_Verify (rc_DictCap (xr_config r)) = Inr limit" "src_err (xr_xz r) = EOF"
    and "rc_SingleStream (xr_config r) \<longrightarrow> tail = []"
  shows "in_file sha limit tail (D1 @ E) r"
proof -
  have "\<exists>cap m recs D F bl. m \<le> limit \<and> in_stream cap m recs tail D bl sr (xr_xz r) \<and> file_of sha limit tail F \<and> D1 @ E = D @ F"
    using assms(1-3) by blast
  then show ?thesis using assms(4-8) by (simp add: in_file_def)
qed

lemma stream_of_nonempty: "stream_of sha limit b D \<Longrightarrow> b \<noteq> []"
  using header_roundtrip_flags by (fastforce simp: stream_of_def xz_HeaderLen_def)

lemma file_of_empty: "file_of sha limit [] D \<Longrightarrow> D = []"
  by (erule file_of.cases) (auto dest: stream_of_nonempty)

lemma xz_Read_from_ok:
  assumes sha: "\<And>d. length (sha d) = 32" and "in_file sha limit tail D r" "length acc \<le> k"
  shows "\<exists>r' tail'. xz_Read_from sha k acc r = Some (acc @ take (k - length acc) D, if length D < k - length acc then Some (XzIo EOF) else None, r') \<and>
    in_file sha limit tail' (drop (k - length acc) D) r'"
  using assms(2,3)
proof (induction "2 * length tail + (if xr_sr r = None then 0 else 1)" arbitrary: tail D r acc rule: less_induct)
  case less
  define j where "j = k - length acc"
  note lim = less.prems(1) [unfolded in_file_def, THEN conjunct2, THEN conjunct1]
  show ?case
  proof (cases "j = 0")
    case True
    then have "xz_Read_from sha k acc r = Some (acc, None, r)" by (subst xz_Read_from.simps) (simp add: j_def)
    then show ?thesis using less.prems(1) True unfolding j_def [symmetric] by auto
  next
    case j: False
    then have k: "\<not> length acc \<ge> k" by (simp add: j_def)
    show ?thesis
    proof (cases "xr_sr r")
      case (Some sr)
      then obtain cap m recs D1 E bl where i: "m \<le> limit" "in_stream cap m recs tail D1 bl sr (xr_xz r)" "file_of sha limit tail E" "D = D1 @ E"
        using less.prems(1) by (auto simp: in_file_def)
      have "\<exists>sr' src'. stream_Read (xr_config r) j sr (xr_xz r) = Some (take j D1, if length D1 < j then Some (XzIo EOF) else None, sr', src') \<and>
          src_err src' = src_err (xr_xz r) \<and> (if length D1 < j then src_data src' = tail
           else \<exists>bl'. in_stream cap m recs tail (drop j D1) bl' sr' src')"
        using stream_Read_from_ok [OF lim i(1,2), of "[]" j] unfolding stream_result_def stream_Read_def list.size(3) diff_zero append_Nil by simp
      then obtain sr' src' where
        s: "stream_Read (xr_config r) j sr (xr_xz r) = Some (take j D1, if length D1 < j then Some (XzIo EOF) else None, sr', src')"
          "src_err src' = src_err (xr_xz r)" "if length D1 < j then src_data src' = tail
           else \<exists>bl'. in_stream cap m recs tail (drop j D1) bl' sr' src'" by (elim exE conjE)
      show ?thesis
      proof (cases "length D1 < j")
        case False
        define r1 where "r1 = r\<lparr>xr_sr := Some sr', xr_xz := src'\<rparr>"
        have "xz_Read_from sha k acc r = xz_Read_from sha k (acc @ take j D1) r1"
          using k Some s(1) False by (subst xz_Read_from.simps) (simp add: j_def [symmetric] r1_def Let_def)
        also have "\<dots> = Some (acc @ take j D1, None, r1)"
        proof -
          have "k \<le> length (acc @ take j D1)" using False by (simp add: j_def)
          then show ?thesis by (subst xz_Read_from.simps) (rule if_P)
        qed
        finally have res: "xz_Read_from sha k acc r = Some (acc @ take j D1, None, r1)" .
        obtain bl' where "in_stream cap m recs tail (drop j D1) bl' sr' src'" using s(3) False by auto
        then have "in_file sha limit tail (drop j D1 @ E) r1"
          by (intro in_fileI [OF i(1) _ i(3)]) (use less.prems(1) s(2) in \<open>simp_all add: in_file_def r1_def\<close>)
        then show ?thesis using res False unfolding j_def [symmetric] i(4) by auto
      next
        case True
        define r1 where "r1 = r\<lparr>xr_xz := src', xr_sr := None\<rparr>"
        have step: "xz_Read_from sha k acc r = xz_Read_from sha k (acc @ D1) r1"
          using k Some s(1) True by (subst xz_Read_from.simps) (simp add: j_def [symmetric] r1_def Let_def)
        have inf: "in_file sha limit tail E r1" using less.prems(1) i s(2,3) True by (auto simp: in_file_def r1_def)
        have ms: "2 * length tail + (if xr_sr r1 = None then 0 else 1) < 2 * length tail + (if xr_sr r = None then 0 else 1)"
          using Some by (simp add: r1_def)
        have le: "length (acc @ D1) \<le> k" using True by (simp add: j_def)
        have kj: "k - length (acc @ D1) = j - length D1" by (simp add: j_def)
        note ih = less.hyps [OF ms inf le]
        have "take j D = D1 @ take (j - length D1) E" "drop j D = drop (j - length D1) E" "length D < j \<longleftrightarrow> length E < j - length D1"
          using True by (auto simp: i(4))
        then show ?thesis using ih unfolding step j_def [symmetric] kj by simp
      qed
    next
      case None
      then have f: "src_data (xr_xz r) = tail" "file_of sha limit tail D" "src_err (xr_xz r) = EOF" using less.prems(1) by (auto simp: in_file_def)
      then have xz: "xr_xz r = rd tail EOF" by simp
      show ?thesis
      proof (cases "rc_SingleStream (xr_config r)")
        case True
        then have t: "tail = []" "D = []" using less.prems(1) f file_of_empty by (auto simp: in_file_def)
        have "xz_Read_from sha k acc r = Some (acc, Some (XzIo EOF), r\<lparr>xr_xz := rd [] EOF\<rparr>)"
          using k None True xz t by (subst xz_Read_from.simps) (simp add: xz_ReadFull_def)
        moreover have "in_file sha limit [] [] (r\<lparr>xr_xz := rd [] EOF\<rparr>)"
          using less.prems(1) None t f by (simp add: in_file_def)
        ultimately show ?thesis using j t unfolding j_def [symmetric] by auto
      next
        case multi: False
        from f(2) show ?thesis
        proof cases
          case (file_end i)
          have "xz_Read_from sha k acc r = Some (acc, Some (XzIo EOF), r\<lparr>xr_xz := rd [] EOF\<rparr>)"
            using k None multi xz next_stream_end [OF lim, of sha i] file_end by (subst xz_Read_from.simps) simp
          moreover have "in_file sha limit [] [] (r\<lparr>xr_xz := rd [] EOF\<rparr>)"
            using less.prems(1) None file_of.file_end [of sha limit 0] by (simp add: in_file_def)
          ultimately show ?thesis using j file_end unfolding j_def [symmetric] by auto
        next
          case (file_next b D1 rest E i)
          obtain sr src cap m recs bl where n: "newStreamReader sha (xr_config r) (rd (b @ rest) EOF) = (Inr sr, src)" "m \<le> limit"
            "in_stream cap m recs rest D1 bl sr src" "src_err src = EOF" "length rest < length (b @ rest)"
            by (rule newStreamReader_ok [OF sha lim file_next(3), of rest EOF]) (rule that)
          define r1 where "r1 = r\<lparr>xr_sr := Some sr, xr_xz := src\<rparr>"
          have step: "xz_Read_from sha k acc r = xz_Read_from sha k acc r1"
            using k None multi xz next_stream_next [OF lim n(1), of i] file_next(1) by (subst xz_Read_from.simps) (simp add: r1_def)
          have inf: "in_file sha limit rest D r1" unfolding file_next(2)
            by (rule in_fileI [OF n(2) _ file_next(4)]) (use less.prems(1) n(3,4) multi in \<open>simp_all add: in_file_def r1_def\<close>)
          have ms: "2 * length rest + (if xr_sr r1 = None then 0 else 1) < 2 * length tail + (if xr_sr r = None then 0 else 1)"
            using n(5) None by (cases b) (simp_all add: r1_def file_next(1))
          show ?thesis unfolding step by (rule less.hyps [OF ms inf less.prems(2)])
        qed
      qed
    qed
  qed
qed

fun xz_reads :: "(byte list \<Rightarrow> byte list) \<Rightarrow> nat list \<Rightarrow> xz_Reader \<Rightarrow> (byte list \<times> xz_Reader) option" where
  "xz_reads sha [] r = Some ([], r)"
| "xz_reads sha (k # ks) r =
     (case xz_Read sha k r of
        None \<Rightarrow> None
      | Some (p, _, r) \<Rightarrow> (case xz_reads sha ks r of None \<Rightarrow> None | Some (q, r) \<Rightarrow> Some (p @ q, r)))"

lemma xz_Read_ok:
  assumes sha: "\<And>d. length (sha d) = 32" and "in_file sha limit tail D r"
  shows "\<exists>r' tail'. xz_Read sha k r = Some (take k D, if length D < k then Some (XzIo EOF) else None, r') \<and>
    in_file sha limit tail' (drop k D) r'"
proof (cases "k = 0")
  case False
  then show ?thesis using xz_Read_from_ok [OF assms, of "[]" k] assms(2) by (simp add: xz_Read_def in_file_def)
qed (use assms(2) in \<open>auto simp: xz_Read_def\<close>)

lemma xz_reads_ok:
  assumes sha: "\<And>d. length (sha d) = 32" and "in_file sha limit tail D r"
  shows "\<exists>r' tail'. xz_reads sha ks r = Some (take (sum_list ks) D, r') \<and> in_file sha limit tail' (drop (sum_list ks) D) r'"
  using assms(2)
proof (induction ks arbitrary: tail D r)
  case (Cons k ks)
  from xz_Read_ok [OF sha Cons.prems, of k] obtain r1 tail1 where
    r: "xz_Read sha k r = Some (take k D, if length D < k then Some (XzIo EOF) else None, r1)" "in_file sha limit tail1 (drop k D) r1" by blast
  from Cons.IH [OF r(2)] r(1) show ?case by (auto simp: take_add add.commute)
qed auto

lemma xz_NewReader_ok:
  assumes sha: "\<And>d. length (sha d) = 32" and lim: "Reader2Config_Verify (rc_DictCap c) = Inr limit"
    and "stream_of sha limit b D" "file_of sha limit rest E" "rc_SingleStream c \<longrightarrow> rest = []"
  shows "\<exists>r. xz_NewReader sha c (rd (b @ rest) EOF) = Inr r \<and> in_file sha limit rest (D @ E) r"
proof -
  obtain sr src cap m recs bl where n: "newStreamReader sha c (rd (b @ rest) EOF) = (Inr sr, src)" "m \<le> limit"
    "in_stream cap m recs rest D bl sr src" "src_err src = EOF"
    by (rule newStreamReader_ok [OF sha lim assms(3), of rest EOF]) (rule that)
  have "xz_ReaderConfig_Verify c = None" using lim by (simp add: xz_ReaderConfig_Verify_def)
  moreover have "in_file sha limit rest (D @ E) \<lparr>xr_config = c, xr_xz = src, xr_sr = Some sr, xr_closed = False\<rparr>"
    by (rule in_fileI [OF n(2) _ assms(4)]) (use n(3,4) assms(2,5) in simp_all)
  ultimately show ?thesis using n(1) by (simp add: xz_NewReader_def)
qed

text \<open>A file that is cut behind its blocks.\<close>

lemma xz_NewReader_cut:
  assumes sha: "\<And>d. length (sha d) = 32" and lim: "Reader2Config_Verify (rc_DictCap c) = Inr limit"
    and d: "m \<le> limit" "newHashFunc sha flags = Inr hash" "header_MarshalBinary flags = Inr hdr" "list_all (block_of cap m hash) bl"
  shows "\<exists>r. xz_NewReader sha c (rd (hdr @ bl_bytes bl) EOF) = Inr r \<and> in_file sha limit [] (bl_data bl) r"
proof -
  have "closing flags (bl_recs bl) [] [] EOF" by (simp add: closing_def)
  from newStreamReader_closing [OF sha lim d this refl refl] obtain sr src where
    n: "newStreamReader sha c (rd ((hdr @ bl_bytes bl @ []) @ []) EOF) = (Inr sr, src)" "in_stream cap m (bl_recs bl) [] (bl_data bl) bl sr src"
      "src_err src = EOF" by blast
  have "xz_ReaderConfig_Verify c = None" using lim by (simp add: xz_ReaderConfig_Verify_def)
  moreover have "in_file sha limit [] (bl_data bl @ []) \<lparr>xr_config = c, xr_xz = src, xr_sr = Some sr, xr_closed = False\<rparr>"
    by (rule in_fileI [OF d(1)]) (use n(2,3) lim file_of.file_end [of sha limit 0] in simp_all)
  ultimately show ?thesis using n(1) by (simp add: xz_NewReader_def)
qed

end
