(* ===== verification/XzWriteProofs.thy ===== *)
theory XzWriteProofs
  imports XzWriter XzReadProofs
begin

text \<open>
  What the writer of xz files writes: the invariant of the open block and of the writer, and that a file without errors
  is a stream of the reader, provided the \<open>Writer2\<close> of each block has written its end marker.
\<close>

section \<open>The block\<close>

definition open_block :: "nat \<Rightarrow> byte list \<Rightarrow> byte list \<Rightarrow> blockWriter \<Rightarrow> byte_writer \<Rightarrow> bool" where
  "open_block cap pre X b xz \<longleftrightarrow> \<not> bw_closed b \<and> bw_n b = int (length X) \<and> bw_n b \<le> bw_blockSize b \<and>
     bw_cxz b = int (length (written xz)) - int (length pre) \<and>
     bw_hashed b = (if cs_Size (bw_hash b) \<noteq> 0 then X else []) \<and>
     (\<exists>n s0 R0. newState (st_Properties s0) = Inr s0 \<and> w2.w2_inv cap n s0 pre R0 X ((bw_w b)\<lparr>w2_w := xz\<rparr>))"

lemma w2_Write_ok:
  assumes "w2.w2_inv cap n s0 pre R0 X w"
  shows "\<exists>k err w'. Writer2_Write any_ops p w = Some (k, err, w') \<and>
    (err = None \<longrightarrow> k = length p \<and> (\<exists>R1. w2.w2_inv cap n s0 pre R1 (X @ p) w'))"
proof -
  have W: "Writer2_Write any_ops p w = Writer2_Write_from any_ops p 0 w" using w2.w2_not_stop [OF assms] by (simp add: Writer2_Write_def)
  obtain k err w' where y: "Writer2_Write_from any_ops p 0 w = Some (k, err, w')"
    using w2.Write_from_returns [OF assms] by (metis prod_cases3)
  show ?thesis unfolding W using w2.Write_from_w2 [OF y _ assms] y by auto
qed

lemma xz_of_no_XzError: "xz_of err \<noteq> XzError s"
  by (cases err) (simp_all add: xz_of_def)

lemma w2_dest [simp]: "w\<lparr>w2_w := w2_w w\<rparr> = w" for w :: "'m Writer2"
  by simp

lemma mw_Write_ok:
  assumes o: "open_block cap pre X b xz" and p: "int (length p) \<le> bw_blockSize b - bw_n b"
  shows "\<exists>k err b' xz'. block_mw_Write p (b, xz) = Some (k, err, b', xz') \<and> err \<noteq> Some errNoSpace \<and>
    (err = None \<longrightarrow> k = length p \<and> open_block cap pre (X @ p) (b'\<lparr>bw_n := bw_n b' + int k\<rparr>) xz' \<and>
      bw_headerLen b' = bw_headerLen b \<and> bw_hash b' = bw_hash b \<and> bw_blockSize b' = bw_blockSize b \<and> bw_n b' = bw_n b)"
proof -
  obtain n s0 R0 where i: "newState (st_Properties s0) = Inr s0" "w2.w2_inv cap n s0 pre R0 X ((bw_w b)\<lparr>w2_w := xz\<rparr>)"
    using o by (auto simp: open_block_def)
  obtain k err w' where w: "Writer2_Write any_ops p ((bw_w b)\<lparr>w2_w := xz\<rparr>) = Some (k, err, w')"
    "err = None \<Longrightarrow> k = length p \<and> (\<exists>R1. w2.w2_inv cap n s0 pre R1 (X @ p) w')" using w2_Write_ok [OF i(2), of p] by blast
  define b1 where "b1 = b\<lparr>bw_w := w', bw_cxz := bw_cxz b + (int (length (written (w2_w w'))) - int (length (written xz)))\<rparr>"
  have on: "on_writer2 (block_w_Write p) (b, xz) =
      Some ((k, err), b1, w2_w w')" by (simp add: on_writer2_def block_w_Write_def w(1) b1_def)
  have ne: "map_option xz_of err \<noteq> Some errNoSpace" using xz_of_no_XzError by (auto simp: errNoSpace_def)
  show ?thesis
  proof (cases err)
    case (Some e)
    then show ?thesis using ne unfolding block_mw_Write_def on by (simp add: b1_def)
  next
    case None
    then obtain R1 where k: "k = length p" "w2.w2_inv cap n s0 pre R1 (X @ p) w'" using w(2) by blast
    define b2 where "b2 = (if cs_Size (bw_hash b) = 0 then b1 else b1\<lparr>bw_hashed := bw_hashed b1 @ p\<rparr>)"
    have "block_mw_Write p (b, xz) = Some (k, None, b2, w2_w w')"
      unfolding block_mw_Write_def on using None k(1) by (simp add: b2_def) (simp add: b1_def)
    moreover have "open_block cap pre (X @ p) (b2\<lparr>bw_n := bw_n b2 + int k\<rparr>) (w2_w w')"
      unfolding open_block_def using o p i(1) k
      by (intro conjI exI [of _ n] exI [of _ s0] exI [of _ R1]) (auto simp: b2_def b1_def open_block_def)
    ultimately show ?thesis using k(1) by (simp add: b2_def b1_def errNoSpace_def)
  qed
qed

lemma block_Write_ok:
  assumes o: "open_block cap pre X b xz"
  shows "\<exists>k err b' xz'. block_Write p (b, xz) = Some (k, err, b', xz') \<and>
    (err = None \<or> err = Some errNoSpace \<longrightarrow> k = min (length p) (nat (bw_blockSize b - bw_n b)) \<and> open_block cap pre (X @ take k p) b' xz' \<and>
      bw_headerLen b' = bw_headerLen b \<and> bw_hash b' = bw_hash b \<and> bw_blockSize b' = bw_blockSize b) \<and>
    (err = None \<longrightarrow> k = length p) \<and> (err = Some errNoSpace \<longrightarrow> k < length p \<and> bw_n b' = bw_blockSize b)"
proof -
  define t where "t = bw_blockSize b - bw_n b"
  have t: "0 \<le> t" "\<not> bw_closed b" using o by (auto simp: open_block_def t_def)
  define q where "q = (if int (length p) > t then take (nat t) p else p)"
  have q: "int (length q) \<le> bw_blockSize b - bw_n b" "q = take (length q) p" "length q = min (length p) (nat t)"
    "int (length p) > t \<Longrightarrow> int (length q) = t \<and> length q < length p" using t(1) by (auto simp: q_def t_def)
  obtain k err b' xz' where w: "block_mw_Write q (b, xz) = Some (k, err, b', xz')" "err \<noteq> Some errNoSpace"
    "err = None \<Longrightarrow> k = length q \<and> open_block cap pre (X @ q) (b'\<lparr>bw_n := bw_n b' + int k\<rparr>) xz' \<and>
      bw_headerLen b' = bw_headerLen b \<and> bw_hash b' = bw_hash b \<and> bw_blockSize b' = bw_blockSize b \<and> bw_n b' = bw_n b"
    using mw_Write_ok [OF o q(1)] by blast
  have eq: "block_Write p (b, xz) =
      Some (k, if err \<noteq> None then err else if int (length p) > t then Some errNoSpace else None, b'\<lparr>bw_n := bw_n b' + int k\<rparr>, xz')"
    using t w(1) unfolding block_Write_def prod.case Let_def t_def [symmetric] q_def [symmetric] by simp
  show ?thesis
  proof (cases err)
    case (Some e)
    then show ?thesis using eq w(2) by auto
  next
    case None
    note w = w(3) [OF None]
    show ?thesis
    proof (cases "int (length p) > t")
      case True
      then have kq: "bw_n b' + int k = bw_blockSize b" "take k p = q" "k = min (length p) (nat t)" "k < length p"
        using w q(2-4) by (simp_all add: t_def)
      then show ?thesis using eq w None True unfolding t_def [symmetric] kq(1) by simp
    next
      case False
      then have "q = p" "length p \<le> nat t" by (simp_all add: q_def)
      then show ?thesis using eq w None False unfolding t_def [symmetric] by auto
    qed
  qed
qed

lemma bw_Write_length: "bw_Write p w = (err, w') \<Longrightarrow> \<exists>q. written w' = written w @ q"
  by (auto simp: bw_Write_def split: option.splits)

lemma xz_write_all_None: "xz_write_all data w = (None, w') \<Longrightarrow> written w' = written w @ data"
  by (auto simp: xz_write_all_def dest: w2.bw_Write_None split: prod.splits)

lemma block_Close_returns:
  assumes "open_block cap pre X b xz"
  shows "\<exists>err b' xz'. block_Close (b, xz) = Some (err, b', xz')"
proof -
  obtain n s0 R0 where i: "w2.w2_inv cap n s0 pre R0 X ((bw_w b)\<lparr>w2_w := xz\<rparr>)" and nc: "\<not> bw_closed b"
    using assms by (auto simp: open_block_def)
  obtain err w1 where f: "Writer2_flush_loop any_ops ((bw_w b)\<lparr>w2_w := xz\<rparr>) = Some (err, w1)"
    using w2.flush_loop_returns [OF i] by (metis surj_pair)
  have "\<exists>y. Writer2_Close any_ops ((bw_w b)\<lparr>w2_w := xz\<rparr>) = Some y"
    using f w2.w2_not_stop [OF i] by (auto simp: Writer2_Close_def Writer2_Flush_def split: option.split prod.split)
  then obtain e w' where "Writer2_Close any_ops ((bw_w b)\<lparr>w2_w := xz\<rparr>) = Some (e, w')" by (metis surj_pair)
  then show ?thesis using nc by (cases e) (auto simp: block_Close_def on_writer2_def Let_def split: prod.split)
qed

lemma block_Close_ok:
  assumes o: "open_block cap pre X b xz" and c: "block_Close (b, xz) = Some (None, b', xz')" "w2_cstate (bw_w b') = Stop_T"
  obtains n s0 C where "newState (st_Properties s0) = Inr s0" "chunked cap n s0 Start_S s0 [] C X"
    "written xz' = pre @ C @ block_tail (bw_hash b) C X" "bw_cxz b' = int (length C)" "bw_n b' = int (length X)"
    "bw_headerLen b' = bw_headerLen b" "bw_hash b' = bw_hash b"
proof -
  obtain n s0 R0 where i: "newState (st_Properties s0) = Inr s0" "w2.w2_inv cap n s0 pre R0 X ((bw_w b)\<lparr>w2_w := xz\<rparr>)"
    using o by (auto simp: open_block_def)
  obtain w1 where w: "Writer2_Close any_ops ((bw_w b)\<lparr>w2_w := xz\<rparr>) = Some (None, w1)" "bw_w b' = w1"
    "bw_cxz b' = bw_cxz b + (int (length (written (w2_w w1))) - int (length (written xz)))"
    "bw_n b' = bw_n b" "bw_headerLen b' = bw_headerLen b" "bw_hash b' = bw_hash b"
    "xz_write_all (replicate (padLen (bw_cxz b')) 0 @ cs_Sum (bw_hash b) (bw_hashed b)) (w2_w w1) = (None, xz')"
    using c(1) o by (auto simp: block_Close_def on_writer2_def open_block_def Let_def split: option.splits prod.splits)
  obtain C where C: "written (w2_w w1) = pre @ C" "chunked cap n s0 Start_S s0 [] C X"
    using w2.Close2_chunked [OF i(2) w(1)] c(2) w(2) by auto
  have "bw_cxz b' = int (length C)" using w(3) C(1) o by (simp add: open_block_def)
  moreover have "written xz' = pre @ C @ block_tail (bw_hash b) C X"
    using xz_write_all_None [OF w(7)] C(1) o calculation by (simp add: block_tail_def open_block_def)
  ultimately show thesis using i(1) C(2) w(4-6) o by (intro that) (simp_all add: open_block_def)
qed

section \<open>The writer\<close>

lemma rebase:
  assumes "w2.w2_inv cap n s0 pre R0 X w" "written (w2_w w) = pre" "written xz = pre'"
  shows "w2.w2_inv cap n s0 pre' R0 X (w\<lparr>w2_w := xz\<rparr>)"
  using assms unfolding w2.w2_inv_def w2.emitted_def w2.w2_frame_def by simp

text \<open>What the configuration of a writer must be; \<open>m\<close> is the capacity in the block headers.\<close>

definition config_ok :: "xz_WriterConfig \<Rightarrow> int \<Rightarrow> bool" where
  "config_ok c m \<longleftrightarrow> (\<exists>d. Writer2Config_Verify (lzma2_config c) = Inr d \<and> c2_DictCap d = wc_DictCap c) \<and> wc_Matcher c = HashTable4 \<and>
     1 \<le> wc_DictCap c \<and> 0 < wc_BlockSize c \<and> wc_DictCap c \<le> m \<and> DecodeDictCap (EncodeDictCap (wc_DictCap c)) = Inr m"

lemma Verify_config:
  assumes "xz_WriterConfig_Verify c = Inr c'" "wc_Matcher c = HashTable4" "DecodeDictCap (EncodeDictCap (wc_DictCap c')) = Inr m"
  shows "config_ok c' m"
proof -
  define f where "f = xz_WriterConfig_fill c"
  have f: "wc_DictCap f \<noteq> 0" "wc_Matcher f = wc_Matcher c" by (auto simp: f_def xz_WriterConfig_fill_def Let_def)
  from assms(1) obtain d where d: "Writer2Config_Verify (lzma2_config f) = Inr d" "c' = f" "0 < wc_BlockSize f"
    unfolding xz_WriterConfig_Verify_def f_def [symmetric] Let_def by (auto split: sum.splits if_splits option.splits)
  have dc: "c2_DictCap d = wc_DictCap f" using d(1) f(1)
    by (auto simp: Writer2Config_Verify_def Writer2Config_fill_def lzma2_config_def Let_def split: option.splits if_splits)
  moreover have "1 \<le> wc_DictCap f" using Verify2_ok(1) [OF d(1)] dc by (simp add: MinDictCap_def)
  moreover have "wc_DictCap f \<le> 2 ^ 32 - 1"
    using d(1) dc by (auto simp: Writer2Config_Verify_def MaxDictCap_def Let_def split: option.splits if_splits)
  then have "wc_DictCap f \<le> m" using EncodeDictCap_least_code assms(3) d(2) by fastforce
  ultimately show ?thesis using d f(2) assms(2,3) by (auto simp: config_ok_def)
qed

definition writer_at :: "(byte list \<Rightarrow> byte list) \<Rightarrow> byte list \<Rightarrow> int \<Rightarrow> block list \<Rightarrow> byte list \<Rightarrow> xz_Writer \<Rightarrow> bool" where
  "writer_at sha base m bl X w \<longleftrightarrow> \<not> xw_closed w \<and> config_ok (xw_config w) m \<and> newHashFunc sha (xw_h w) = Inr (xw_newHash w) \<and>
     list_all (block_of (nat (wc_DictCap (xw_config w))) m (xw_newHash w)) bl \<and> bl_recs bl = xw_index w \<and>
     (\<exists>hdr hb b. header_MarshalBinary (xw_h w) = Inr hdr \<and> xw_bw w = Some b \<and> bw_hash b = xw_newHash w \<and> bw_headerLen b = length hb \<and>
       bw_blockSize b = wc_BlockSize (xw_config w) \<and>
       (\<forall>rest e. readBlockHeader (rd (hb @ rest) e) = (Inr (no_sizes \<lparr>lf_dictCap = m\<rparr>), length hb, rd rest e)) \<and>
       open_block (nat (wc_DictCap (xw_config w))) (base @ hdr @ bl_bytes bl @ hb) X b (xw_xz w))"

text \<open>Between two blocks.\<close>

definition between_blocks :: "(byte list \<Rightarrow> byte list) \<Rightarrow> byte list \<Rightarrow> int \<Rightarrow> block list \<Rightarrow> xz_Writer \<Rightarrow> bool" where
  "between_blocks sha base m bl w \<longleftrightarrow> config_ok (xw_config w) m \<and> newHashFunc sha (xw_h w) = Inr (xw_newHash w) \<and>
     list_all (block_of (nat (wc_DictCap (xw_config w))) m (xw_newHash w)) bl \<and> bl_recs bl = xw_index w \<and>
     (\<exists>hdr. header_MarshalBinary (xw_h w) = Inr hdr \<and> written (xw_xz w) = base @ hdr @ bl_bytes bl)"

lemma newBlockWriter_open:
  assumes c: "config_ok (xw_config w) m" and n: "newBlockWriter w = (None, w')"
  obtains b hb xz where "w' = w\<lparr>xw_bw := Some b, xw_xz := xz\<rparr>" "bw_hash b = xw_newHash w" "bw_headerLen b = length hb"
    "bw_blockSize b = wc_BlockSize (xw_config w)" "bw_n b = 0"
    "\<And>rest e. readBlockHeader (rd (hb @ rest) e) = (Inr (no_sizes \<lparr>lf_dictCap = m\<rparr>), length hb, rd rest e)"
    "open_block (nat (wc_DictCap (xw_config w))) (written (xw_xz w) @ hb) [] b xz"
proof -
  define c where "c = xw_config w"
  define cap where "cap = nat (wc_DictCap c)"
  obtain d where d: "Writer2Config_Verify (lzma2_config c) = Inr d" "c2_DictCap d = wc_DictCap c" "wc_Matcher c = HashTable4"
    "1 \<le> wc_DictCap c" "0 < wc_BlockSize c" "DecodeDictCap (EncodeDictCap (wc_DictCap c)) = Inr m"
    using c by (auto simp: config_ok_def c_def)
  have "lzma2_config c\<lparr>c2_DictCap := wc_DictCap c\<rparr> = lzma2_config c" by (simp add: lzma2_config_def)
  then obtain b w2 where nb: "NewWriter2 (lzma2_config c) (xw_xz w) = Inr w2"
    "b = \<lparr>bw_cxz = 0, bw_w = w2, bw_n = 0, bw_blockSize = wc_BlockSize c, bw_closed = False, bw_headerLen = 0,
            bw_filters = xz_filters c, bw_hash = xw_newHash w, bw_hashed = []\<rparr>"
    "xz_newBlockWriter c (xw_xz w) (xw_newHash w) = Inr b"
    using n d(4) by (auto simp: newBlockWriter_def xz_newBlockWriter_def newFilterWriteCloser_def verifyFilters_def xz_filters_def
        filter_last_def filter_writeCloser_def c_def [symmetric] lzma2_config_def Let_def sbind_def split: sum.splits if_splits)
  obtain hb where hb: "block_MarshalBinary (no_sizes \<lparr>lf_dictCap = wc_DictCap c\<rparr>) = Inr hb"
    "\<And>rest e. readBlockHeader (rd (hb @ rest) e) = (Inr (no_sizes \<lparr>lf_dictCap = m\<rparr>), length hb, rd rest e)"
    by (rule block_roundtrip [OF refl, of "-1" "-1" "wc_DictCap c" m]) (auto simp: d(6) no_sizes_def intro: that)
  obtain xz where w': "xz_write_all hb (xw_xz w) = (None, xz)" "w' = w\<lparr>xw_bw := Some (b\<lparr>bw_headerLen := length hb\<rparr>), xw_xz := xz\<rparr>"
    using n nb(2,3) hb(1) by (auto simp: newBlockWriter_def c_def [symmetric] block_writeHeader_def no_sizes_def xz_filters_def Let_def
        split: prod.splits option.splits)
  obtain c' n s0 where e: "Writer2Config_Verify (lzma2_config c) = Inr c'" "newState (st_Properties s0) = Inr s0"
    "w2.w2_inv (nat (c2_DictCap c')) n s0 (written (xw_xz w)) 0 [] w2"
    by (rule NewWriter2_ok [OF nb(1)]) (simp_all add: lzma2_config_def d(3))
  have ww: "written (w2_w w2) = written (xw_xz w)"
    using nb(1) by (auto simp: NewWriter2_def sbind_Inr_iff split: option.splits)
  have wx: "written xz = written (xw_xz w) @ hb" using xz_write_all_None [OF w'(1)] .
  have "open_block cap (written (xw_xz w) @ hb) [] (b\<lparr>bw_headerLen := length hb\<rparr>) xz"
    using rebase [OF e(3) ww wx] e(1,2) d(1,2,5) wx by (auto simp: open_block_def nb(2) cap_def)
  then show thesis unfolding cap_def c_def by (rule that [OF w'(2) _ _ _ _ hb(2), rotated -1]) (simp_all add: nb(2) c_def)
qed

lemma newBlockWriter_ok:
  assumes i: "between_blocks sha base m bl w" "\<not> xw_closed w" and n: "newBlockWriter w = (None, w')"
  shows "writer_at sha base m bl [] w'"
proof -
  have c: "config_ok (xw_config w) m" using i(1) by (simp add: between_blocks_def)
  obtain hdr where hdr: "header_MarshalBinary (xw_h w) = Inr hdr" "written (xw_xz w) = base @ hdr @ bl_bytes bl"
    using i(1) by (auto simp: between_blocks_def)
  obtain b hb xz where b: "w' = w\<lparr>xw_bw := Some b, xw_xz := xz\<rparr>" "bw_hash b = xw_newHash w" "bw_headerLen b = length hb"
    "bw_blockSize b = wc_BlockSize (xw_config w)"
    "\<And>rest e. readBlockHeader (rd (hb @ rest) e) = (Inr (no_sizes \<lparr>lf_dictCap = m\<rparr>), length hb, rd rest e)"
    "open_block (nat (wc_DictCap (xw_config w))) (base @ hdr @ bl_bytes bl @ hb) [] b xz"
    by (rule newBlockWriter_open [OF c n]) (rule that, simp_all add: hdr(2))
  show ?thesis
    using i hdr(1) b(2-6) c unfolding writer_at_def between_blocks_def b(1)
    by (intro conjI exI [of _ hdr] exI [of _ hb] exI [of _ b]) auto
qed

lemma closeBlockWriter_ok:
  assumes i: "writer_at sha base m bl X w" and c: "closeBlockWriter (w\<lparr>xw_closed := x\<rparr>) = Some (None, w')"
    and s: "w2_cstate (bw_w (the (xw_bw w'))) = Stop_T"
  obtains rec bytes where "between_blocks sha base m (bl @ [(rec, bytes, X)]) w'" "xw_closed w' = x" "xw_h w' = xw_h w"
proof -
  define cap where "cap = nat (wc_DictCap (xw_config w))"
  obtain hdr hb b where a: "header_MarshalBinary (xw_h w) = Inr hdr" "xw_bw w = Some b" "bw_hash b = xw_newHash w" "bw_headerLen b = length hb"
    "\<And>rest e. readBlockHeader (rd (hb @ rest) e) = (Inr (no_sizes \<lparr>lf_dictCap = m\<rparr>), length hb, rd rest e)"
    "open_block cap (base @ hdr @ bl_bytes bl @ hb) X b (xw_xz w)" using i unfolding writer_at_def cap_def by blast
  obtain b' xz' rec where d: "block_Close (b, xw_xz w) = Some (None, b', xz')" "bw_record b' = Inr rec"
    "w' = w\<lparr>xw_closed := x, xw_bw := Some b', xw_xz := xz', xw_index := xw_index w @ [rec]\<rparr>"
    using c a(2) by (auto simp: closeBlockWriter_def Let_def split: option.splits prod.splits sum.splits)
  have st: "w2_cstate (bw_w b') = Stop_T" using s d(3) by simp
  obtain n s0 C where k: "newState (st_Properties s0) = Inr s0" "chunked cap n s0 Start_S s0 [] C X"
    "written xz' = (base @ hdr @ bl_bytes bl @ hb) @ C @ block_tail (bw_hash b) C X" "bw_cxz b' = int (length C)" "bw_n b' = int (length X)"
    "bw_headerLen b' = bw_headerLen b" "bw_hash b' = bw_hash b" by (rule block_Close_ok [OF a(6) d(1) st]) (rule that)
  define bytes where "bytes = hb @ C @ block_tail (bw_hash b) C X"
  have rec: "rec = \<lparr>unpaddedSize = int (length hb) + int (length C) + int (cs_Size (bw_hash b)), uncompressedSize = int (length X)\<rparr>"
    using d(2) k(4-7) a(4) by (auto simp: bw_record_def bw_unpaddedSize_def split: if_splits)
  have ck: "int cap \<le> m" "1 \<le> m" using i by (auto simp: writer_at_def config_ok_def cap_def)
  have "block_of cap m (xw_newHash w) (rec, bytes, X)"
    unfolding block_of_def prod.case
    by (rule exI [of _ n], rule exI [of _ s0], rule exI [of _ hb], rule exI [of _ C])
      (use k(1,2) ck a(3,5) in \<open>simp add: bytes_def rec\<close>)
  then have "between_blocks sha base m (bl @ [(rec, bytes, X)]) w'"
    using i a(1) k(3) unfolding between_blocks_def writer_at_def d(3) cap_def by (auto simp: bytes_def)
  then show thesis by (rule that) (simp_all add: d(3))
qed

lemma block_full:
  assumes "writer_at sha base m bl X w" "xw_bw w = Some b" "block_Write p (b, xw_xz w) = Some (k, err, b', xz')"
    and "err = None \<or> err = Some errNoSpace"
  shows "writer_at sha base m bl (X @ take k p) (w\<lparr>xw_bw := Some b', xw_xz := xz'\<rparr>)" "err = None \<Longrightarrow> k = length p" "k \<le> length p"
proof -
  obtain hdr hb where a: "open_block (nat (wc_DictCap (xw_config w))) (base @ hdr @ bl_bytes bl @ hb) X b (xw_xz w)"
    "header_MarshalBinary (xw_h w) = Inr hdr" "bw_hash b = xw_newHash w" "bw_headerLen b = length hb"
    "bw_blockSize b = wc_BlockSize (xw_config w)"
    "\<And>rest e. readBlockHeader (rd (hb @ rest) e) = (Inr (no_sizes \<lparr>lf_dictCap = m\<rparr>), length hb, rd rest e)"
    using assms(1,2) unfolding writer_at_def by auto
  have k: "open_block (nat (wc_DictCap (xw_config w))) (base @ hdr @ bl_bytes bl @ hb) (X @ take k p) b' xz'"
    "bw_headerLen b' = bw_headerLen b" "bw_hash b' = bw_hash b" "bw_blockSize b' = bw_blockSize b" "err = None \<longrightarrow> k = length p" "k \<le> length p"
    using block_Write_ok [OF a(1), of p] assms(3,4) by auto
  show "writer_at sha base m bl (X @ take k p) (w\<lparr>xw_bw := Some b', xw_xz := xz'\<rparr>)"
    using assms(1) a(2-6) k(1-4) unfolding writer_at_def by (intro conjI exI [of _ hdr] exI [of _ hb] exI [of _ b']) auto
  show "err = None \<Longrightarrow> k = length p" "k \<le> length p" using k(5,6) by auto
qed

abbreviation all_ended :: "blockWriter list \<Rightarrow> bool" where
  "all_ended bs \<equiv> list_all (\<lambda>b. w2_cstate (bw_w b) = Stop_T) bs"

lemma not_closed_update: "\<not> xw_closed w \<Longrightarrow> w\<lparr>xw_closed := False\<rparr> = w"
  by (cases w) simp

lemma xz_Write_from_ok:
  assumes "xz_Write_from p n bs w = Some (n', None, bs', w')" "writer_at sha base m bl X w" "n \<le> length p" "all_ended bs'"
  shows "\<exists>bl' X'. writer_at sha base m bl' X' w' \<and> bl_data bl' @ X' = bl_data bl @ X @ drop n p"
proof -
  define Q where "Q p n bs w y \<longleftrightarrow> (\<forall>bl X n' bs' w'. y = (n', None, bs', w') \<longrightarrow> writer_at sha base m bl X w \<longrightarrow> n \<le> length p \<longrightarrow>
      all_ended bs' \<longrightarrow> (\<exists>bl' X'. writer_at sha base m bl' X' w' \<and> bl_data bl' @ X' = bl_data bl @ X @ drop n p))"
    for p n and bs :: "blockWriter list" and w and y :: "nat \<times> xz_error option \<times> blockWriter list \<times> xz_Writer"
  have "(\<exists>cs. fst (snd (snd y)) = bs @ cs) \<and> Q p n bs w y" if "xz_Write_from p n bs w = Some y" for p n bs w y
  proof (rule xz_Write_from.raw_induct [where P = "\<lambda>p n bs w y. (\<exists>cs. fst (snd (snd y)) = bs @ cs) \<and> Q p n bs w y", OF _ that],
      intro conjI, goal_cases)
    case (1 f p n bs w y)
    have "(\<exists>n e w'. y = (n, e, bs, w')) \<or> (\<exists>n b w' e w''. y = (n, e, bs @ [b], w')) \<or> (\<exists>n b w'. f p n (bs @ [b]) w' = Some y)"
      using 1(2) by (auto simp: Let_def split: option.splits prod.splits if_splits)
    then show ?case using 1(1) by (elim disjE exE) (fastforce dest: spec)+
  next
    case (2 f p n bs w y)
    show ?case unfolding Q_def
    proof (intro allI impI)
      fix bl X n' bs' w'
      assume y: "y = (n', None, bs', w')" and at: "writer_at sha base m bl X w" and n: "n \<le> length p" and en: "all_ended bs'"
      obtain b where b: "xw_bw w = Some b" using at by (auto simp: writer_at_def)
      obtain k err b1 xz1 where wr: "block_Write (drop n p) (b, xw_xz w) = Some (k, err, b1, xz1)"
        using 2(2) b by (auto split: option.splits)
      define w1 where "w1 = w\<lparr>xw_bw := Some b1, xw_xz := xz1\<rparr>"
      show "\<exists>bl' X'. writer_at sha base m bl' X' w' \<and> bl_data bl' @ X' = bl_data bl @ X @ drop n p"
      proof (cases "err = Some errNoSpace")
        case False
        then have e: "err = None" "w' = w1" using 2(2) y b wr by (auto simp: w1_def Let_def)
        then have "writer_at sha base m bl (X @ drop n p) w1"
          using block_full [OF at b wr] by (simp add: w1_def)
        then show ?thesis using e by auto
      next
        case True
        note bf = block_full [OF at b wr disjI2 [OF True], folded w1_def]
        obtain w2 w3 where c: "closeBlockWriter w1 = Some (None, w2)" "newBlockWriter w2 = (None, w3)"
          "f p (n + k) (bs @ [the (xw_bw w2)]) w3 = Some y"
          using 2(2) y b wr True unfolding w1_def by (auto simp: Let_def split: option.splits prod.splits)
        note ih = 2(1) [OF c(3)]
        have st: "w2_cstate (bw_w (the (xw_bw w2))) = Stop_T" using ih en y by auto
        have nc: "\<not> xw_closed w1" using bf(1) by (simp add: writer_at_def)
        obtain rec bytes where cl: "between_blocks sha base m (bl @ [(rec, bytes, X @ take k (drop n p))]) w2" "xw_closed w2 = False"
          by (rule closeBlockWriter_ok [OF bf(1), of False w2]) (use c(1) st nc in \<open>simp_all add: not_closed_update\<close>)
        have "writer_at sha base m (bl @ [(rec, bytes, X @ take k (drop n p))]) [] w3"
          by (rule newBlockWriter_ok [OF cl(1) _ c(2)]) (simp add: cl(2))
        moreover have "n + k \<le> length p" using bf(3) n by simp
        ultimately obtain bl' X' where "writer_at sha base m bl' X' w'"
          "bl_data bl' @ X' = bl_data (bl @ [(rec, bytes, X @ take k (drop n p))]) @ [] @ drop (n + k) p"
          using ih y en unfolding Q_def by blast
        moreover have "take k (drop n p) @ drop (n + k) p = drop n p" by (metis add.commute append_take_drop_id drop_drop)
        ultimately show ?thesis by auto
      qed
    qed
  qed
  from this [OF assms(1)] show ?thesis using assms(2-4) unfolding Q_def by blast
qed

end
