(* ===== verification/XzCloseProofs.thy ===== *)
theory XzCloseProofs
  imports XzWriteProofs
begin

text \<open>Opening and closing the writer of xz files, and that every call of it returns.\<close>

section \<open>Every call returns\<close>

definition opened :: "xz_Writer \<Rightarrow> blockWriter \<Rightarrow> bool" where
  "opened w b \<longleftrightarrow> xw_bw w = Some b \<and> bw_blockSize b = wc_BlockSize (xw_config w) \<and> (\<exists>m. config_ok (xw_config w) m) \<and>
     (\<exists>pre X. open_block (nat (wc_DictCap (xw_config w))) pre X b (xw_xz w))"

lemma writer_at_opened: "writer_at sha base m bl X w \<Longrightarrow> \<exists>b. opened w b"
  unfolding writer_at_def opened_def by blast

lemma closeBlockWriter_returns:
  assumes "opened w b"
  shows "\<exists>err w'. closeBlockWriter w = Some (err, w') \<and> xw_config w' = xw_config w \<and> xw_closed w' = xw_closed w"
proof -
  obtain pre X where "open_block (nat (wc_DictCap (xw_config w))) pre X b (xw_xz w)" using assms by (auto simp: opened_def)
  from block_Close_returns [OF this] assms show ?thesis
    by (auto simp: closeBlockWriter_def opened_def Let_def split: option.split sum.split)
qed

lemma newBlockWriter_opened:
  assumes "config_ok (xw_config w) m" "newBlockWriter w = (None, w')"
  shows "\<exists>b. opened w' b \<and> bw_n b < bw_blockSize b \<and> xw_closed w' = xw_closed w"
proof -
  have "0 < wc_BlockSize (xw_config w)" using assms(1) by (simp add: config_ok_def)
  then show ?thesis
    by (rule_tac newBlockWriter_open [OF assms]) (use assms(1) in \<open>fastforce simp: opened_def\<close>)
qed

lemma xz_Write_from_returns:
  assumes "opened w b" "n \<le> length p"
  shows "\<exists>n' err bs' w'. xz_Write_from p n bs w = Some (n', err, bs', w') \<and> (err = None \<longrightarrow> (\<exists>b'. opened w' b' \<and> xw_closed w' = xw_closed w))"
  using assms
proof (induction "2 * (length p - n) + (if bw_n b < bw_blockSize b then 0 else 1)" arbitrary: n bs w b rule: less_induct)
  case less
  obtain pre X where o: "xw_bw w = Some b" "open_block (nat (wc_DictCap (xw_config w))) pre X b (xw_xz w)"
    "bw_blockSize b = wc_BlockSize (xw_config w)" using less.prems(1) by (auto simp: opened_def)
  obtain k err b1 xz1 where wr: "block_Write (drop n p) (b, xw_xz w) = Some (k, err, b1, xz1)"
    "err = None \<or> err = Some errNoSpace \<Longrightarrow> k = min (length (drop n p)) (nat (bw_blockSize b - bw_n b)) \<and>
       open_block (nat (wc_DictCap (xw_config w))) pre (X @ take k (drop n p)) b1 xz1 \<and> bw_blockSize b1 = bw_blockSize b"
    "err = Some errNoSpace \<Longrightarrow> k < length (drop n p)"
    using block_Write_ok [OF o(2), of "drop n p"] by auto
  define w1 where "w1 = w\<lparr>xw_bw := Some b1, xw_xz := xz1\<rparr>"
  have o1: "opened w1 b1" if "err = None \<or> err = Some errNoSpace"
    using wr(2) [OF that] less.prems(1) o(3) by (auto simp: w1_def opened_def)
  show ?case
  proof (cases "err = Some errNoSpace")
    case True
    then have k: "k = nat (bw_blockSize b - bw_n b)" "n + k < length p" "opened w1 b1" using wr(2,3) o1 by auto
    obtain e w2 where c: "closeBlockWriter w1 = Some (e, w2)" "xw_config w2 = xw_config w1" "xw_closed w2 = xw_closed w1"
      using closeBlockWriter_returns [OF k(3)] by blast
    obtain m where m: "config_ok (xw_config w2) m" using k(3) c(2) by (auto simp: opened_def)
    obtain e3 w3 where nb: "newBlockWriter w2 = (e3, w3)" by (metis surj_pair)
    have step: "xz_Write_from p n bs w = (if e \<noteq> None then Some (n + k, e, bs, w2) else if e3 \<noteq> None then Some (n + k, e3, bs @ [the (xw_bw w2)], w3)
        else xz_Write_from p (n + k) (bs @ [the (xw_bw w2)]) w3)"
      using o(1) wr(1) True c(1) nb by (subst xz_Write_from.simps) (cases e; cases e3; simp add: w1_def [symmetric] Let_def)
    show ?thesis
    proof (cases "e = None \<and> e3 = None")
      case both: True
      obtain b3 where b3: "opened w3 b3" "bw_n b3 < bw_blockSize b3" "xw_closed w3 = xw_closed w2" using newBlockWriter_opened [OF m] nb both by blast
      have "2 * (length p - (n + k)) + (if bw_n b3 < bw_blockSize b3 then 0 else 1) < 2 * (length p - n) + (if bw_n b < bw_blockSize b then 0 else 1)"
        using b3(2) k(1,2) by auto
      from less.hyps [OF this b3(1)] k(2) show ?thesis unfolding step using both b3(3) c(3) by (simp add: w1_def)
    qed (use step in auto)
  next
    case False
    then have "xz_Write_from p n bs w = Some (n + k, err, bs, w1)"
      using o(1) wr(1) by (subst xz_Write_from.simps) (simp add: Let_def w1_def)
    then show ?thesis using o1 by (auto simp: w1_def)
  qed
qed

section \<open>Opening\<close>

lemma xz_NewWriter_ok:
  assumes "xz_NewWriter sha c dest = Inr w" "xz_WriterConfig_Verify c = Inr c'" "wc_Matcher c = HashTable4"
    and "DecodeDictCap (EncodeDictCap (wc_DictCap c')) = Inr m"
  shows "writer_at sha (written dest) m [] [] w"
proof -
  obtain hash where h: "newHashFunc sha (wc_CheckSum c') = Inr hash" using assms(1,2) by (auto simp: xz_NewWriter_def sbind_Inr_iff)
  obtain data where d: "header_MarshalBinary (wc_CheckSum c') = Inr data" using assms(1,2) h by (auto simp: xz_NewWriter_def sbind_Inr_iff)
  obtain e xz where x: "xz_write_all data dest = (e, xz)" by (metis surj_pair)
  obtain e1 w1 where nb: "newBlockWriter \<lparr>xw_config = c', xw_xz = xz, xw_bw = None, xw_newHash = hash, xw_h = wc_CheckSum c', xw_index = [],
      xw_closed = False\<rparr> = (e1, w1)" by (metis surj_pair)
  have e: "e = None" "e1 = None" "w1 = w"
    using assms(1) by (cases e; cases e1; simp add: xz_NewWriter_def assms(2) h d x nb)+
  note n = h d x [unfolded e] nb [unfolded e]
  have "config_ok c' m" by (rule Verify_config [OF assms(2-4)])
  then have "between_blocks sha (written dest) m []
      \<lparr>xw_config = c', xw_xz = xz, xw_bw = None, xw_newHash = hash, xw_h = wc_CheckSum c', xw_index = [], xw_closed = False\<rparr>"
    using n(1,2) xz_write_all_None [OF n(3)] by (simp add: between_blocks_def)
  from newBlockWriter_ok [OF this _ n(4)] show ?thesis by simp
qed

section \<open>Closing\<close>

lemma dest_write_None: "dest_write p w = (k, None, w') \<Longrightarrow> k = length p \<and> written w' = written w @ p"
  by (auto simp: dest_write_def dest: w2.bw_Write_None split: prod.splits)

lemma mw_Write_sim: "mw_Write dest_write p (w, h) = (k, None, w', h') \<Longrightarrow> mw_Write append_write p (written w, h) = (k, None, written w', h')"
  by (auto simp: mw_Write_def append_write_def dest: dest_write_None split: prod.splits if_splits)

lemma write_parts_sim:
  "write_parts dest_write ps n (w, h) = (k, None, w', h') \<Longrightarrow> write_parts append_write ps n (written w, h) = (k, None, written w', h')"
proof (induction ps arbitrary: n w h)
  case (Cons p ps)
  obtain j e w1 h1 where m: "mw_Write dest_write p (w, h) = (j, e, w1, h1)" by (metis prod_cases4)
  with Cons.prems have "e = None" "write_parts dest_write ps (n + j) (w1, h1) = (k, None, w', h')" by (auto split: if_splits)
  with Cons.IH mw_Write_sim [of p w h j w1 h1] m show ?case by (simp del: mw_append)
qed simp

lemma writeIndex_sim:
  assumes "writeIndex dest_write rs w = (k, None, w')"
  shows "writeIndex append_write rs (written w) = (k, None, written w')"
proof -
  obtain n w1 h1 j w2 h2 l where p: "write_parts dest_write ([0] # putUvarint (of_nat (length rs)) # map record_MarshalBinary rs) 0 (w, []) = (n, None, w1, h1)"
    "mw_Write dest_write (replicate (padLen (int n)) 0) (w1, h1) = (j, None, w2, h2)"
    "dest_write (xz_putUint32LE (crc32 h2)) w2 = (l, None, w')" "k = n + j + l"
    using assms unfolding writeIndex_def by (auto split: prod.splits option.splits)
  show ?thesis
    using write_parts_sim [OF p(1)] mw_Write_sim [OF p(2)] dest_write_None [OF p(3)] p(4)
    unfolding writeIndex_def by (simp add: append_write_def [of "xz_putUint32LE (crc32 h2)"] del: mw_append write_parts_append write_parts.simps)
qed

lemma block_of_record:
  assumes "block_of cap m hash (rec, bytes, X)" "sum_ok hash"
  shows "bytes \<noteq> []" "0 \<le> unpaddedSize rec" "unpaddedSize rec \<le> int (length bytes)" "uncompressedSize rec = int (length X)"
proof -
  obtain hb C where b: "\<And>rest e. readBlockHeader (rd (hb @ rest) e) = (Inr (no_sizes \<lparr>lf_dictCap = m\<rparr>), length hb, rd rest e)"
    "bytes = hb @ C @ block_tail hash C X"
    "rec = \<lparr>unpaddedSize = int (length hb) + int (length C) + int (cs_Size hash), uncompressedSize = int (length X)\<rparr>"
    using assms(1) by (auto simp: block_of_def)
  have "hb \<noteq> []" using b(1) [of "[]"] by (auto simp: readBlockHeader_def CopyN_def Let_def split: if_splits)
  then show "bytes \<noteq> []" "0 \<le> unpaddedSize rec" "unpaddedSize rec \<le> int (length bytes)" "uncompressedSize rec = int (length X)"
    using b(2,3) assms(2) by (simp_all add: block_tail_def sum_ok_def)
qed

lemma blocks_valid:
  assumes "list_all (block_of cap m hash) bl" "sum_ok hash" "length (bl_bytes bl) < 2 ^ 63" "length (bl_data bl) < 2 ^ 63"
  shows "list_all valid_record (bl_recs bl) \<and> length (bl_recs bl) \<le> length (bl_bytes bl)"
  using assms
proof (induction bl)
  case (Cons t bl)
  obtain rec bytes X where t: "t = (rec, bytes, X)" by (metis prod_cases3)
  have b: "block_of cap m hash (rec, bytes, X)" using Cons.prems(1) t by simp
  note r = block_of_record [OF b assms(2)]
  obtain b bs where "bytes = b # bs" using r(1) by (cases bytes) auto
  then show ?case using Cons r by (auto simp: t valid_record_def simp del: length_concat)
qed simp

lemma index_starts: "writeIndex append_write rs w = (k, None, w') \<Longrightarrow> \<exists>q. w' = w @ q"
  using writeIndex_append [OF refl refl, of rs w] by auto

text \<open>The index of the records \<open>recs\<close> and the footer, as \<open>Close\<close> writes them behind the last block.\<close>

definition index_and_footer :: "byte \<Rightarrow> xz_record list \<Rightarrow> byte list \<Rightarrow> byte list \<Rightarrow> bool" where
  "index_and_footer flags recs idx ftr \<longleftrightarrow> writeIndex append_write recs [] = (length idx, None, idx) \<and>
     footer_MarshalBinary \<lparr>indexSize = int (length idx), ft_flags = flags\<rparr> = Inr ftr"

lemma writeIndex_Nil:
  "writeIndex append_write rs w = (k, None, w @ idx) \<Longrightarrow> writeIndex append_write rs [] = (length idx, None, idx) \<and> k = length idx"
  using writeIndex_append [OF refl refl, of rs w] writeIndex_append [OF refl refl, of rs "[]"] by auto

lemma xz_Close_ok:
  assumes at: "writer_at sha base m bl X w" and c: "xz_Close w = Some (None, w')" and st: "w2_cstate (bw_w (the (xw_bw w'))) = Stop_T"
    and small: "length (written (xw_xz w')) < 2 ^ 63" "length (bl_data bl @ X) < 2 ^ 63"
    and sha: "\<And>d. length (sha d) = 32"
  obtains cap flags hash hdr bl1 fin where "written (xw_xz w') = base @ hdr @ bl_bytes bl1 @ fin" "newHashFunc sha flags = Inr hash"
    "header_MarshalBinary flags = Inr hdr" "list_all (block_of cap m hash) bl1" "ending_of flags (bl_recs bl1) fin" "bl_data bl1 = bl_data bl @ X"
    "\<exists>idx ftr. fin = idx @ ftr \<and> index_and_footer flags (bl_recs bl1) idx ftr"
proof -
  obtain w1 n xz data xz' where d: "closeBlockWriter (w\<lparr>xw_closed := True\<rparr>) = Some (None, w1)"
    "writeIndex dest_write (xw_index w1) (xw_xz w1) = (n, None, xz)" "footer_MarshalBinary \<lparr>indexSize = int n, ft_flags = xw_h w1\<rparr> = Inr data"
    "xz_write_all data xz = (None, xz')" "w' = w1\<lparr>xw_xz := xz'\<rparr>"
    using c at by (auto simp: xz_Close_def writer_at_def split: option.splits prod.splits sum.splits)
  have "w2_cstate (bw_w (the (xw_bw w1))) = Stop_T" using st d(5) by simp
  from closeBlockWriter_ok [OF at d(1) this] obtain rec bytes where
    b: "between_blocks sha base m (bl @ [(rec, bytes, X)]) w1" "xw_h w1 = xw_h w" by metis
  define bl1 where "bl1 = bl @ [(rec, bytes, X)]"
  obtain hdr where e: "config_ok (xw_config w1) m" "newHashFunc sha (xw_h w1) = Inr (xw_newHash w1)"
    "list_all (block_of (nat (wc_DictCap (xw_config w1))) m (xw_newHash w1)) bl1" "bl_recs bl1 = xw_index w1"
    "header_MarshalBinary (xw_h w1) = Inr hdr" "written (xw_xz w1) = base @ hdr @ bl_bytes bl1"
    using b(1) by (auto simp: between_blocks_def bl1_def)
  have ok: "sum_ok (xw_newHash w1)" by (rule newHashFunc_ok [OF e(2) sha])
  have wi: "writeIndex append_write (xw_index w1) (written (xw_xz w1)) = (n, None, written xz)" by (rule writeIndex_sim [OF d(2)])
  have w': "written (xw_xz w') = written xz @ data" using xz_write_all_None [OF d(4)] d(5) by simp
  have "length (bl_bytes bl1) < 2 ^ 63" using small(1) w' index_starts [OF wi] e(6) by (auto simp del: length_concat)
  moreover have D: "bl_data bl1 = bl_data bl @ X" by (simp add: bl1_def)
  ultimately have v: "list_all valid_record (bl_recs bl1)" "length (bl_recs bl1) < 2 ^ 63"
    using blocks_valid [OF e(3) ok] small(2) by auto
  from index_written [OF v, of "written (xw_xz w1)"] obtain idx where
    i: "n = length idx + 1" "written xz = written (xw_xz w1) @ 0 # idx"
      "\<And>rest e. readIndexBody (rd (idx @ rest) e) (length (bl_recs bl1)) = (Inr (bl_recs bl1), length idx, rd rest e)"
    using wi unfolding e(4) by auto
  have f: "length data = footerLen" "footer_UnmarshalBinary data = Inr \<lparr>indexSize = int (length idx) + 1, ft_flags = xw_h w1\<rparr>"
    using footer_roundtrip [OF d(3)] i(1) by simp_all
  have en: "ending_of (xw_h w1) (bl_recs bl1) (0 # idx @ data)" unfolding ending_of_def using i(3) f by blast
  have "index_and_footer (xw_h w1) (bl_recs bl1) (0 # idx) data"
    using writeIndex_Nil [of "xw_index w1" "written (xw_xz w1)" n "0 # idx"] wi i(2) d(3) by (auto simp: index_and_footer_def e(4))
  then have x: "\<exists>i ftr. 0 # idx @ data = i @ ftr \<and> index_and_footer (xw_h w1) (bl_recs bl1) i ftr" by (metis append_Cons)
  have "written (xw_xz w') = base @ hdr @ bl_bytes bl1 @ 0 # idx @ data" using w' i(2) e(6) by simp
  then show thesis by (rule that [OF _ e(2,5,3) en D x])
qed

lemma xz_Close_returns:
  assumes "opened w b"
  shows "\<exists>y. xz_Close w = Some y"
proof -
  have "opened (w\<lparr>xw_closed := True\<rparr>) b" using assms by (simp add: opened_def)
  from closeBlockWriter_returns [OF this] show ?thesis
    by (auto simp: xz_Close_def split: option.splits prod.splits sum.splits)
qed

end
