(* ===== verification/XzProps.thy ===== *)
theory XzProps
  imports XzCloseProofs
begin

text \<open>xz files as their users see them: what the writer writes is read back by the reader, and every call of the writer returns.\<close>

lemma Verify_capacity:
  assumes "xz_WriterConfig_Verify c = Inr c'"
  shows "\<exists>m. DecodeDictCap (EncodeDictCap (wc_DictCap c')) = Inr m"
proof -
  define f where "f = xz_WriterConfig_fill c"
  from assms obtain d where d: "Writer2Config_Verify (lzma2_config f) = Inr d" "c' = f"
    unfolding xz_WriterConfig_Verify_def f_def [symmetric] Let_def by (auto split: sum.splits if_splits option.splits)
  have "wc_DictCap f \<noteq> 0" by (auto simp: f_def xz_WriterConfig_fill_def Let_def)
  then have "wc_DictCap f \<le> 2 ^ 32 - 1" using d(1)
    by (auto simp: Writer2Config_Verify_def Writer2Config_fill_def lzma2_config_def MaxDictCap_def Let_def split: option.splits if_splits)
  then show ?thesis using EncodeDictCap_least_code d(2) by blast
qed

section \<open>A file of several streams\<close>

text \<open>The calls of \<open>Write\<close> with the pieces of the data, up to the first error, and the writers of the blocks they close.\<close>

fun xz_writes :: "byte list list \<Rightarrow> xz_Writer \<Rightarrow> (xz_error option \<times> blockWriter list \<times> xz_Writer) option" where
  "xz_writes [] w = Some (None, [], w)"
| "xz_writes (p # ps) w =
     (case xz_Write p w of
        None \<Rightarrow> None
      | Some (_, Some err, bs, w) \<Rightarrow> Some (Some err, bs, w)
      | Some (_, None, bs, w) \<Rightarrow>
          (case xz_writes ps w of None \<Rightarrow> None | Some (err, cs, w) \<Rightarrow> Some (err, bs @ cs, w)))"

record xz_run =
  run_config :: xz_WriterConfig
  run_pieces :: "byte list list"
  run_padding :: nat

text \<open>A stream written without errors.\<close>

definition xz_stream :: "(byte list \<Rightarrow> byte list) \<Rightarrow> xz_WriterConfig \<Rightarrow> byte list list \<Rightarrow> byte_writer \<Rightarrow> (blockWriter list \<times> byte_writer) option" where
  "xz_stream sha c ps dest =
     (case xz_NewWriter sha c dest of
        Inl _ \<Rightarrow> None
      | Inr w \<Rightarrow>
          (case xz_writes ps w of
             Some (None, bs, w) \<Rightarrow>
               (case xz_Close w of Some (None, w) \<Rightarrow> Some (bs @ [the (xw_bw w)], xw_xz w) | _ \<Rightarrow> None)
           | _ \<Rightarrow> None))"

text \<open>The streams of a file one after the other, each with its padding of four bytes \<open>run_padding\<close> times.\<close>

fun xz_file :: "(byte list \<Rightarrow> byte list) \<Rightarrow> xz_run list \<Rightarrow> byte_writer \<Rightarrow> (blockWriter list \<times> byte_writer) option" where
  "xz_file sha [] dest = Some ([], dest)"
| "xz_file sha (r # rs) dest =
     (case xz_stream sha (run_config r) (run_pieces r) dest of
        None \<Rightarrow> None
      | Some (bs, dest) \<Rightarrow>
          (case xz_write_all (replicate (4 * run_padding r) 0) dest of
             (Some _, _) \<Rightarrow> None
           | (None, dest) \<Rightarrow> (case xz_file sha rs dest of None \<Rightarrow> None | Some (cs, dest) \<Rightarrow> Some (bs @ cs, dest))))"

text \<open>The capacity that stands in the headers of the blocks is allowed by the reader.\<close>

definition config_fits :: "int \<Rightarrow> xz_WriterConfig \<Rightarrow> bool" where
  "config_fits limit c \<longleftrightarrow> wc_Matcher c = HashTable4 \<and>
     (case xz_WriterConfig_Verify c of
        Inl _ \<Rightarrow> False
      | Inr c \<Rightarrow> (case DecodeDictCap (EncodeDictCap (wc_DictCap c)) of Inl _ \<Rightarrow> False | Inr m \<Rightarrow> m \<le> limit))"

abbreviation run_data :: "xz_run \<Rightarrow> byte list" where "run_data r \<equiv> concat (run_pieces r)"

lemma xz_writes_ok:
  assumes "xz_writes ps w = Some (None, bs, w')" "writer_at sha base m bl X w" "all_ended bs"
  shows "\<exists>bl' X'. writer_at sha base m bl' X' w' \<and> bl_data bl' @ X' = bl_data bl @ X @ concat ps"
  using assms
proof (induction ps arbitrary: w bs bl X)
  case (Cons p ps)
  obtain n b1 w1 b2 where s: "xz_Write p w = Some (n, None, b1, w1)" "xz_writes ps w1 = Some (None, b2, w')" "bs = b1 @ b2"
    using Cons.prems(1) by (auto split: option.splits prod.splits)
  have "xz_Write_from p 0 [] w = Some (n, None, b1, w1)" using s(1) by (auto simp: xz_Write_def split: if_splits)
  moreover have e: "all_ended b1" "all_ended b2" using s(3) Cons.prems(3) by simp_all
  ultimately obtain bl1 X1 where w: "writer_at sha base m bl1 X1 w1" "bl_data bl1 @ X1 = bl_data bl @ X @ p"
    using xz_Write_from_ok [OF _ Cons.prems(2), of p 0 "[]" n b1 w1] by auto
  obtain bl' X' where "writer_at sha base m bl' X' w'" "bl_data bl' @ X' = bl_data bl1 @ X1 @ concat ps"
    using Cons.IH [OF s(2) w(1) e(2)] by blast
  moreover have "bl_data bl1 @ X1 @ concat ps = bl_data bl @ X @ concat (p # ps)" using w(2) by (metis append.assoc concat.simps(2))
  ultimately show ?case by metis
qed auto

lemma xz_stream_parts:
  assumes r: "xz_stream sha c ps dest = Some (bs, dest')" and c: "config_fits limit c" and e: "all_ended bs"
    and small: "length (written dest') < 2 ^ 63" "length (concat ps) < 2 ^ 63" and sha: "\<And>d. length (sha d) = 32"
  obtains cap m flags hash hdr bl fin where "m \<le> limit" "written dest' = written dest @ hdr @ bl_bytes bl @ fin" "newHashFunc sha flags = Inr hash"
    "header_MarshalBinary flags = Inr hdr" "list_all (block_of cap m hash) bl" "ending_of flags (bl_recs bl) fin" "bl_data bl = concat ps"
    "\<exists>idx ftr. fin = idx @ ftr \<and> index_and_footer flags (bl_recs bl) idx ftr"
proof -
  obtain w0 bs1 w1 w2 where s: "xz_NewWriter sha c dest = Inr w0" "xz_writes ps w0 = Some (None, bs1, w1)" "xz_Close w1 = Some (None, w2)"
    "bs = bs1 @ [the (xw_bw w2)]" "dest' = xw_xz w2"
    using r by (auto simp: xz_stream_def split: sum.splits option.splits prod.splits)
  obtain c' m where m: "xz_WriterConfig_Verify c = Inr c'" "wc_Matcher c = HashTable4"
    "DecodeDictCap (EncodeDictCap (wc_DictCap c')) = Inr m" "m \<le> limit"
    using c by (auto simp: config_fits_def split: sum.splits)
  from xz_writes_ok [OF s(2) xz_NewWriter_ok [OF s(1) m(1-3)]] e s(4) obtain bl X where
    w: "writer_at sha (written dest) m bl X w1" "bl_data bl @ X = concat ps" by auto
  show thesis
    by (rule xz_Close_ok [OF w(1) s(3) _ _ _ sha]) (use e small m(4) s(4,5) w(2) that in auto)
qed

lemma xz_stream_ok:
  assumes "xz_stream sha c ps dest = Some (bs, dest')" "config_fits limit c" "all_ended bs"
    and "length (written dest') < 2 ^ 63" "length (concat ps) < 2 ^ 63" and sha: "\<And>d. length (sha d) = 32"
  shows "\<exists>bytes. written dest' = written dest @ bytes \<and> stream_of sha limit bytes (concat ps)"
proof -
  obtain cap m flags hash hdr bl fin where p: "m \<le> limit" "written dest' = written dest @ hdr @ bl_bytes bl @ fin"
    "newHashFunc sha flags = Inr hash" "header_MarshalBinary flags = Inr hdr" "list_all (block_of cap m hash) bl"
    "ending_of flags (bl_recs bl) fin" "bl_data bl = concat ps" by (rule xz_stream_parts [OF assms])
  then have "stream_of sha limit (hdr @ bl_bytes bl @ fin) (concat ps)" unfolding stream_of_def by metis
  then show ?thesis using p(2) by blast
qed

lemma file_of_pad: "file_of sha limit b D \<Longrightarrow> file_of sha limit (replicate (4 * j) 0 @ b) D"
proof (erule file_of.cases)
  fix i assume b: "b = replicate (4 * i) 0" and D: "D = []"
  have "replicate (4 * j) 0 @ b = replicate (4 * (j + i)) (0 :: byte)" by (simp add: b replicate_add distrib_left)
  then show "file_of sha limit (replicate (4 * j) 0 @ b) D" using file_of.file_end D by metis
next
  fix s D1 rest E i assume b: "b = replicate (4 * i) 0 @ s @ rest" and D: "D = D1 @ E" "stream_of sha limit s D1" "file_of sha limit rest E"
  have "replicate (4 * j) 0 @ b = replicate (4 * (j + i)) (0 :: byte) @ s @ rest" by (simp add: b replicate_add distrib_left)
  then show "file_of sha limit (replicate (4 * j) 0 @ b) D" using file_of.file_next [OF D(2,3)] D(1) by metis
qed

lemma xz_file_ok:
  assumes "xz_file sha rs dest = Some (bs, dest')" "\<forall>r \<in> set rs. config_fits limit (run_config r)" "all_ended bs"
    and "length (written dest') < 2 ^ 63" "length (concat (map run_data rs)) < 2 ^ 63" and sha: "\<And>d. length (sha d) = 32"
  shows "\<exists>bytes. written dest' = written dest @ bytes \<and> file_of sha limit bytes (concat (map run_data rs)) \<and>
    (rs \<noteq> [] \<longrightarrow> (\<exists>b rest. bytes = b @ rest \<and> stream_of sha limit b (run_data (hd rs)) \<and>
       file_of sha limit rest (concat (map run_data (tl rs))) \<and> (tl rs = [] \<and> run_padding (hd rs) = 0 \<longrightarrow> rest = [])))"
  using assms(1-5)
proof (induction rs arbitrary: dest bs)
  case Nil
  then show ?case using file_of.file_end [of sha limit 0] by simp
next
  case (Cons r rs)
  obtain b1 d1 d2 b2 where s: "xz_stream sha (run_config r) (run_pieces r) dest = Some (b1, d1)"
    "xz_write_all (replicate (4 * run_padding r) 0) d1 = (None, d2)" "xz_file sha rs d2 = Some (b2, dest')" "bs = b1 @ b2"
    using Cons.prems(1) by (auto split: option.splits prod.splits)
  have "length (concat (map run_data rs)) < 2 ^ 63" using Cons.prems(5) by simp
  moreover have "all_ended b2" "all_ended b1" using Cons.prems(3) s(4) by simp_all
  moreover have c: "\<forall>r \<in> set rs. config_fits limit (run_config r)" "config_fits limit (run_config r)" using Cons.prems(2) by simp_all
  ultimately obtain b3 where
    b3: "written dest' = written d2 @ b3" "file_of sha limit b3 (concat (map run_data rs))"
    using Cons.IH [OF s(3) _ _ Cons.prems(4)] by blast
  note pd = xz_write_all_None [OF s(2)]
  have "length (written d1) < 2 ^ 63" "length (run_data r) < 2 ^ 63" using Cons.prems(4,5) b3(1) pd by simp_all
  from xz_stream_ok [OF s(1) c(2) \<open>all_ended b1\<close> this sha] obtain b4 where
    b4: "written d1 = written dest @ b4" "stream_of sha limit b4 (run_data r)" by blast
  define rest where "rest = replicate (4 * run_padding r) 0 @ b3"
  have rest: "file_of sha limit rest (concat (map run_data rs))" unfolding rest_def by (rule file_of_pad [OF b3(2)])
  have "rest = []" if "rs = []" "run_padding r = 0"
    using that s(3) b3(1) by (simp add: rest_def)
  then have "\<exists>b r'. b4 @ rest = b @ r' \<and> stream_of sha limit b (run_data r) \<and> file_of sha limit r' (concat (map run_data rs)) \<and>
      (rs = [] \<and> run_padding r = 0 \<longrightarrow> r' = [])" using b4(2) rest by (intro exI [of _ b4] exI [of _ rest]) simp
  moreover have "written dest' = written dest @ b4 @ rest" using b3(1) pd b4(1) by (simp add: rest_def)
  moreover have "file_of sha limit (b4 @ rest) (concat (map run_data (r # rs)))" using file_of.file_next [OF b4(2) rest, of 0] by simp
  ultimately show ?case unfolding list.sel by blast
qed

text \<open>
  C4. The xz round trip. A file is written as one or more streams: for each a \<open>Writer\<close> is opened with its own
  configuration, dictionary, block size, check (none, CRC32, CRC64 or SHA-256) and the hash table, is given the data in any pieces, which it
  splits into blocks, and is closed, and padding of a multiple of four bytes may follow. No call reports an
  error and each block has its end marker. A \<open>Reader\<close> whose limit for the dictionary covers those of
  the streams, in single-stream mode for a file of one stream without padding, opens
  the file; reads of any sizes deliver the data of all streams in order, every block checksum, index and footer having been found
  right, and the read past the end returns the rest with \<open>io.EOF\<close>.
\<close>

theorem xz_roundtrip:
  assumes sha: "\<And>d. length (sha d) = 32"
    and "xz_file sha (r # rs) \<lparr>written = [], quota = None\<rparr> = Some (bs, dest)" "all_ended bs"
    and "\<forall>r \<in> set (r # rs). config_fits limit (run_config r)" "Reader2Config_Verify (rc_DictCap rc) = Inr limit"
    and "rc_SingleStream rc \<longrightarrow> rs = [] \<and> run_padding r = 0"
    and "length (written dest) < 2 ^ 63" "data = concat (map run_data (r # rs))" "length data < 2 ^ 63"
  shows "\<exists>rd0 rd1 rd2. xz_NewReader sha rc (rd (written dest) EOF) = Inr rd0 \<and>
    xz_reads sha ks rd0 = Some (take (sum_list ks) data, rd1) \<and>
    xz_Read sha k rd1 = Some (take k (drop (sum_list ks) data), if length data - sum_list ks < k then Some (XzIo EOF) else None, rd2)"
proof -
  have "length (concat (map run_data (r # rs))) < 2 ^ 63" using assms(8,9) by simp
  from xz_file_ok [OF assms(2,4,3,7) this sha] obtain b rest where
    f: "written dest = b @ rest" "stream_of sha limit b (run_data r)" "file_of sha limit rest (concat (map run_data rs))"
      "rs = [] \<and> run_padding r = 0 \<longrightarrow> rest = []" by auto
  have "rc_SingleStream rc \<longrightarrow> rest = []" using assms(6) f(4) by blast
  from xz_NewReader_ok [OF sha assms(5) f(2,3) this] obtain rd0 where
    rd0: "xz_NewReader sha rc (rd (written dest) EOF) = Inr rd0" "in_file sha limit rest data rd0" by (auto simp: f(1) assms(8))
  from xz_reads_ok [OF sha rd0(2), of ks] obtain rd1 tail1 where
    rd1: "xz_reads sha ks rd0 = Some (take (sum_list ks) data, rd1)" "in_file sha limit tail1 (drop (sum_list ks) data) rd1" by blast
  from xz_Read_ok [OF sha rd1(2), of k] rd0(1) rd1(1) show ?thesis by (auto simp: less_diff_conv)
qed

lemma records_data:
  "list_all (block_of cap m hash) bl \<Longrightarrow> sum_list (map uncompressedSize (bl_recs bl)) = int (length (bl_data bl))"
  by (induction bl) (auto simp: block_of_def)

text \<open>
  C36. A file cut behind its last block is taken for complete. The file of a stream is the header, the blocks \<open>body\<close>, the index
  \<open>idx\<close> of the blocks' records, whose uncompressed sizes add up to the length of the data, and the footer \<open>ftr\<close> with the
  size of that index, as \<open>writeIndex\<close> and \<open>footer.MarshalBinary\<close> produce them. Without the index and the footer,
  that is of \<open>hdr @ body\<close> alone, a \<open>Reader\<close> opens the file, delivers all the data, and the read past the end
  returns the rest with \<open>io.EOF\<close>, as for the whole file: \<open>readBlockHeader\<close> returns the plain \<open>io.EOF\<close> of
  \<open>io.CopyN\<close>, and \<open>streamReader.Read\<close> hands it on.
\<close>

theorem xz_cut_file_accepted:
  assumes sha: "\<And>d. length (sha d) = 32"
    and "xz_stream sha c ps \<lparr>written = [], quota = None\<rparr> = Some (bs, dest)" "all_ended bs" "config_fits limit c"
    and "Reader2Config_Verify (rc_DictCap rc) = Inr limit"
    and "length (written dest) < 2 ^ 63" "data = concat ps" "length data < 2 ^ 63"
  shows "\<exists>flags hdr body recs idx ftr. written dest = hdr @ body @ idx @ ftr \<and> header_MarshalBinary flags = Inr hdr \<and>
    writeIndex append_write recs [] = (length idx, None, idx) \<and> sum_list (map uncompressedSize recs) = int (length data) \<and>
    footer_MarshalBinary \<lparr>indexSize = int (length idx), ft_flags = flags\<rparr> = Inr ftr \<and>
    (\<exists>rd0 rd1 rd2. xz_NewReader sha rc (rd (hdr @ body) EOF) = Inr rd0 \<and>
      xz_reads sha ks rd0 = Some (take (sum_list ks) data, rd1) \<and>
      xz_Read sha k rd1 = Some (take k (drop (sum_list ks) data), if length data - sum_list ks < k then Some (XzIo EOF) else None, rd2))"
proof -
  have "length (concat ps) < 2 ^ 63" using assms(7,8) by simp
  then obtain cap m flags hash hdr bl fin where
    f: "m \<le> limit" "written dest = written \<lparr>written = [], quota = None\<rparr> @ hdr @ bl_bytes bl @ fin" "newHashFunc sha flags = Inr hash"
      "header_MarshalBinary flags = Inr hdr" "list_all (block_of cap m hash) bl" "ending_of flags (bl_recs bl) fin" "bl_data bl = concat ps"
      "\<exists>idx ftr. fin = idx @ ftr \<and> index_and_footer flags (bl_recs bl) idx ftr"
    by (rule xz_stream_parts [OF assms(2,4,3,6) _ sha])
  from f(8) obtain idx ftr where i: "fin = idx @ ftr" "index_and_footer flags (bl_recs bl) idx ftr" by blast
  have "written dest = hdr @ bl_bytes bl @ idx @ ftr" using f(2) by (simp add: i(1))
  moreover have "sum_list (map uncompressedSize (bl_recs bl)) = int (length data)"
    by (simp only: records_data [OF f(5)] f(7) assms(7))
  moreover from xz_NewReader_cut [OF sha assms(5) f(1,3,4,5)] obtain rd0 where
    rd0: "xz_NewReader sha rc (rd (hdr @ bl_bytes bl) EOF) = Inr rd0" "in_file sha limit [] data rd0" by (auto simp: f(7) assms(7))
  moreover from xz_reads_ok [OF sha rd0(2), of ks] obtain rd1 tail1 where
    rd1: "xz_reads sha ks rd0 = Some (take (sum_list ks) data, rd1)" "in_file sha limit tail1 (drop (sum_list ks) data) rd1" by blast
  moreover from xz_Read_ok [OF sha rd1(2), of k] obtain rd2 where
    "xz_Read sha k rd1 = Some (take k (drop (sum_list ks) data), if length data - sum_list ks < k then Some (XzIo EOF) else None, rd2)" by auto
  ultimately show ?thesis using f(4) i(2) unfolding index_and_footer_def by blast
qed

text \<open>
  C28. Every call of the writer of xz files returns: of a \<open>Writer\<close> with the hash table that has been opened, each \<open>Write\<close> in a
  sequence, which closes a full block and opens the next as often as the block size calls for, and the \<open>Close\<close> that follows
  when none of them has reported an error.
\<close>

theorem xz_writer_returns:
  assumes "xz_NewWriter sha c dest = Inr w" "wc_Matcher c = HashTable4"
  shows "\<exists>err bs w'. xz_writes ps w = Some (err, bs, w') \<and> (err = None \<longrightarrow> (\<exists>r. xz_Close w' = Some r))"
proof -
  obtain c' where c: "xz_WriterConfig_Verify c = Inr c'" using assms(1) by (auto simp: xz_NewWriter_def sbind_Inr_iff)
  then obtain m where m: "DecodeDictCap (EncodeDictCap (wc_DictCap c')) = Inr m" using Verify_capacity by blast
  obtain b where b: "opened w b" using writer_at_opened [OF xz_NewWriter_ok [OF assms(1) c assms(2) m]] by blast
  have "\<exists>err bs w'. xz_writes ps w = Some (err, bs, w') \<and> (err = None \<longrightarrow> (\<exists>b'. opened w' b'))" using b
  proof (induction ps arbitrary: w b)
    case (Cons p ps)
    have "\<exists>n err bs w'. xz_Write p w = Some (n, err, bs, w') \<and> (err = None \<longrightarrow> (\<exists>b'. opened w' b'))"
      using xz_Write_from_returns [OF Cons.prems, of 0 p "[]"] Cons.prems by (auto simp: xz_Write_def)
    then obtain n err bs w1 where w: "xz_Write p w = Some (n, err, bs, w1)" "err = None \<Longrightarrow> \<exists>b'. opened w1 b'" by blast
    then show ?case using Cons.IH by (cases err) fastforce+
  qed auto
  then show ?thesis using xz_Close_returns by blast
qed

section \<open>A run\<close>

lemma crc32_eval [code]: "crc32 bs = foldl crc_byte 0xFFFFFFFF bs XOR 0xFFFFFFFF"
proof -
  have n: "NOT 0 = (0xFFFFFFFF :: u32)" by simp
  have "NOT c = c XOR 0xFFFFFFFF" for c :: u32 unfolding n [symmetric] by simp
  then show ?thesis unfolding crc32_def crc_update_def n .
qed

lemma crc_byte_eval [code]:
  "crc_byte c b = crc_shift (crc_shift (crc_shift (crc_shift (crc_shift (crc_shift (crc_shift (crc_shift (c XOR ucast b))))))))"
  by (simp add: crc_byte_def eval_nat_numeral)

text \<open>Two streams with checksums of 32 bytes, of which the first has padding; the data is empty.\<close>

definition sample_sha :: "byte list \<Rightarrow> byte list" where
  "sample_sha d = replicate 32 (of_nat (length d))"

definition sample_xz_config :: xz_WriterConfig where
  "sample_xz_config = \<lparr>wc_Properties = Some \<lparr>LC = 0, LP = 0, PB = 0\<rparr>, wc_DictCap = 4096, wc_BufSize = 273, wc_BlockSize = 1000,
     wc_CheckSum = xz_SHA256, wc_NoCheckSum = False, wc_Matcher = HashTable4\<rparr>"

abbreviation no_file :: byte_writer where "no_file \<equiv> \<lparr>written = [], quota = None\<rparr>"

lemma NewWriter2_dest: "NewWriter2 c dest = map_sum id (\<lambda>w. w\<lparr>w2_w := dest\<rparr>) (NewWriter2 c dest')"
  by (simp add: NewWriter2_def sbind_def split: sum.split option.split)

lemma sample_lzma2: "lzma2_config sample_xz_config = sample2_config" "lzma2_config sample_xz_config\<lparr>c2_DictCap := 4096\<rparr> = sample2_config"
  by (simp_all add: lzma2_config_def sample_xz_config_def sample2_config_def)

lemma sample_fresh: "NewWriter2 sample2_config dest = Inr (sample2_open\<lparr>w2_w := dest\<rparr>)"
  using NewWriter2_dest [of sample2_config dest "\<lparr>written = [1], quota = None\<rparr>"] by (simp add: sample2_new)

lemma sample_untouched: "w2_written sample2_open = 0 \<and> w2_cstate sample2_open = Start_S"
  by code_simp

lemma empty_Write2: "w2_cstate w \<noteq> Stop_T \<Longrightarrow> Writer2_Write mt [] w = Some (0, None, w)"
  by (simp add: Writer2_Write_def) (subst Writer2_Write_from.simps, simp)

lemma empty_Close2:
  assumes "w2_cstate w \<noteq> Stop_T" "w2_written w = 0" "w2_w w = \<lparr>written = p, quota = None\<rparr>"
  shows "Writer2_Close mt w = Some (None, w\<lparr>w2_w := \<lparr>written = p @ [0], quota = None\<rparr>, w2_cstate := Stop_T\<rparr>)"
proof -
  have "Writer2_flush_loop mt w = Some (None, w)" using assms(2) by (subst Writer2_flush_loop.simps) simp
  then show ?thesis using assms by (simp add: Writer2_Close_def Writer2_Flush_def bw_Write_def)
qed

definition sample_runs :: "xz_run list" where
  "sample_runs = [\<lparr>run_config = sample_xz_config, run_pieces = [[]], run_padding = 1\<rparr>,
     \<lparr>run_config = sample_xz_config, run_pieces = [[]], run_padding = 0\<rparr>]"

definition sample_hash :: checksum where "sample_hash = \<lparr>cs_Size = 32, cs_Sum = sample_sha\<rparr>"

lemma sample_hash: "newHashFunc sample_sha xz_SHA256 = Inr sample_hash"
  by (simp add: newHashFunc_def sample_hash_def xz_SHA256_def xz_None_def xz_CRC32_def xz_CRC64_def)

lemma sample_verify: "xz_WriterConfig_Verify sample_xz_config = Inr sample_xz_config"
  by code_simp

lemma sample_header: "\<exists>hdr. header_MarshalBinary xz_SHA256 = Inr hdr \<and> length hdr = 12"
  using header_roundtrip_flags [of xz_SHA256]
  by (cases "header_MarshalBinary xz_SHA256")
    (auto simp: xz_HeaderLen_def header_MarshalBinary_def verifyFlags_def xz_SHA256_def xz_None_def xz_CRC32_def xz_CRC64_def)

lemma sample_block_header:
  "case block_MarshalBinary \<lparr>bh_compressedSize = -1, bh_uncompressedSize = -1, bh_filters = [\<lparr>lf_dictCap = 4096\<rparr>]\<rparr> of
     Inl _ \<Rightarrow> False | Inr hb \<Rightarrow> length hb = 12"
  by code_simp

definition sample_block :: "byte_writer \<Rightarrow> blockWriter" where
  "sample_block dest = \<lparr>bw_cxz = 0, bw_w = sample2_open\<lparr>w2_w := dest\<rparr>, bw_n = 0, bw_blockSize = 1000, bw_closed = False, bw_headerLen = 12,
     bw_filters = [\<lparr>lf_dictCap = 4096\<rparr>], bw_hash = sample_hash, bw_hashed = []\<rparr>"

lemma sample_new_block:
  assumes "xw_config w = sample_xz_config" "xw_newHash w = sample_hash" "xw_xz w = \<lparr>written = p, quota = None\<rparr>"
    and "block_MarshalBinary \<lparr>bh_compressedSize = -1, bh_uncompressedSize = -1, bh_filters = [\<lparr>lf_dictCap = 4096\<rparr>]\<rparr> = Inr hb" "length hb = 12"
  shows "newBlockWriter w = (None, w\<lparr>xw_bw := Some (sample_block (xw_xz w)), xw_xz := \<lparr>written = p @ hb, quota = None\<rparr>\<rparr>)"
proof -
  have c: "wc_DictCap sample_xz_config = 4096" "wc_BlockSize sample_xz_config = 1000" by (simp_all add: sample_xz_config_def)
  have "c2_DictCap sample2_config = 4096" by (simp add: sample2_config_def)
  then have "xz_newBlockWriter sample_xz_config (xw_xz w) sample_hash = Inr (sample_block (xw_xz w)\<lparr>bw_headerLen := 0\<rparr>)"
    by (simp add: xz_newBlockWriter_def newFilterWriteCloser_def verifyFilters_def xz_filters_def filter_last_def filter_writeCloser_def
        sample_lzma2 sample_fresh c sample_block_def)
  then show ?thesis using assms
    by (simp add: newBlockWriter_def block_writeHeader_def sample_block_def xz_write_all_def bw_Write_def)
qed

lemma sample_write:
  assumes "xw_bw w = Some (sample_block d)" "xw_xz w = \<lparr>written = p, quota = None\<rparr>" "\<not> xw_closed w"
  shows "xz_Write [] w = Some (0, None, [], w\<lparr>xw_bw := Some (sample_block (xw_xz w)), xw_xz := xw_xz w\<rparr>)"
proof -
  define xz where "xz = \<lparr>written = p, quota = None\<rparr>"
  have "Writer2_Write any_ops [] (sample2_open\<lparr>w2_w := xz\<rparr>) = Some (0, None, sample2_open\<lparr>w2_w := xz\<rparr>)"
    by (rule empty_Write2) (simp add: sample_untouched)
  then have "block_Write [] (sample_block d, xz) = Some (0, None, sample_block xz, xz)"
    by (simp add: block_Write_def block_mw_Write_def on_writer2_def block_w_Write_def sample_block_def sample_hash_def)
  then show ?thesis using assms
    by (simp add: xz_Write_def xz_def [symmetric]) (subst xz_Write_from.simps, simp add: errNoSpace_def)
qed

definition sample_index :: "xz_record list" where
  "sample_index = [\<lparr>unpaddedSize = 45, uncompressedSize = 0\<rparr>]"

lemma dest_write_free: "dest_write q \<lparr>written = p, quota = None\<rparr> = (length q, None, \<lparr>written = p @ q, quota = None\<rparr>)"
  by (simp add: dest_write_def bw_Write_def)

lemma mw_free: "mw_Write dest_write q (\<lparr>written = p, quota = None\<rparr>, h) = (length q, None, \<lparr>written = p @ q, quota = None\<rparr>, h @ q)"
  by (simp add: mw_Write_def dest_write_free)

lemma sample_index_parts: "putUvarint (of_nat (length sample_index)) = [1]" "map record_MarshalBinary sample_index = [[45, 0]]"
  by code_simp+

lemma sample_index_written:
  "\<exists>q. writeIndex dest_write sample_index \<lparr>written = p, quota = None\<rparr> = (8, None, \<lparr>written = p @ q, quota = None\<rparr>) \<and> length q = 8"
  by (simp add: writeIndex_def sample_index_parts mw_free dest_write_free padLen_def)

lemma sample_footer: "\<exists>ftr. footer_MarshalBinary \<lparr>indexSize = int 8, ft_flags = xz_SHA256\<rparr> = Inr ftr \<and> length ftr = 12"
  using footer_roundtrip [of "\<lparr>indexSize = int 8, ft_flags = xz_SHA256\<rparr>"]
  by (cases "footer_MarshalBinary \<lparr>indexSize = int 8, ft_flags = xz_SHA256\<rparr>")
    (auto simp: footerLen_def footer_MarshalBinary_def minIndexSize_def maxIndexSize_def verifyFlags_def xz_SHA256_def xz_None_def
      xz_CRC32_def xz_CRC64_def Let_def)

lemma sample_xz_close:
  assumes "xw_bw w = Some (sample_block d)" "xw_xz w = \<lparr>written = p, quota = None\<rparr>" "\<not> xw_closed w" "xw_index w = []" "xw_h w = xz_SHA256"
  shows "\<exists>w' q. xz_Close w = Some (None, w') \<and> xw_xz w' = \<lparr>written = p @ q, quota = None\<rparr> \<and> length q \<le> 100 \<and>
    w2_cstate (bw_w (the (xw_bw w'))) = Stop_T"
proof -
  define xz where "xz = \<lparr>written = p, quota = None\<rparr>"
  define w2 where "w2 = sample2_open\<lparr>w2_w := \<lparr>written = p @ [0], quota = None\<rparr>, w2_cstate := Stop_T\<rparr>"
  define b where "b = (sample_block d)\<lparr>bw_closed := True, bw_w := w2, bw_cxz := 1\<rparr>"
  define p2 where "p2 = p @ [0] @ replicate 3 0 @ sample_sha []"
  have "Writer2_Close any_ops (sample2_open\<lparr>w2_w := xz\<rparr>) = Some (None, w2)"
    using empty_Close2 [of "sample2_open\<lparr>w2_w := xz\<rparr>" p any_ops] sample_untouched
    by (simp add: w2_def xz_def w2_written_def)
  then have "block_Close (sample_block d, xz) = Some (None, b, \<lparr>written = p2, quota = None\<rparr>)"
    by (simp add: block_Close_def on_writer2_def sample_block_def sample_hash_def Let_def xz_write_all_def bw_Write_def padLen_def
        b_def w2_def p2_def xz_def)
  moreover have "bw_record b = Inr \<lparr>unpaddedSize = 45, uncompressedSize = 0\<rparr>"
    by (simp add: bw_record_def bw_unpaddedSize_def b_def sample_block_def sample_hash_def)
  ultimately have c: "closeBlockWriter (w\<lparr>xw_closed := True\<rparr>) =
      Some (None, w\<lparr>xw_closed := True, xw_bw := Some b, xw_xz := \<lparr>written = p2, quota = None\<rparr>, xw_index := sample_index\<rparr>)"
    using assms by (simp add: closeBlockWriter_def Let_def xz_def sample_index_def)
  obtain q where q: "writeIndex dest_write sample_index \<lparr>written = p2, quota = None\<rparr> = (8, None, \<lparr>written = p2 @ q, quota = None\<rparr>)" "length q = 8"
    using sample_index_written by blast
  obtain ftr where f: "footer_MarshalBinary \<lparr>indexSize = int 8, ft_flags = xz_SHA256\<rparr> = Inr ftr" "length ftr = 12" using sample_footer by blast
  show ?thesis using assms c q f
    by (simp add: xz_Close_def xz_write_all_def bw_Write_def b_def w2_def p2_def sample_sha_def)
qed

lemma sample_stream:
  "\<exists>b q. xz_stream sample_sha sample_xz_config [[]] \<lparr>written = p, quota = None\<rparr> = Some ([b], \<lparr>written = p @ q, quota = None\<rparr>) \<and>
     w2_cstate (bw_w b) = Stop_T \<and> length q \<le> 200"
proof -
  obtain hdr where hdr: "header_MarshalBinary xz_SHA256 = Inr hdr" "length hdr = 12" using sample_header by blast
  obtain hb where hb: "block_MarshalBinary \<lparr>bh_compressedSize = -1, bh_uncompressedSize = -1, bh_filters = [\<lparr>lf_dictCap = 4096\<rparr>]\<rparr> = Inr hb"
    "length hb = 12" using sample_block_header by (auto split: sum.splits)
  define w0 where "w0 = \<lparr>xw_config = sample_xz_config, xw_xz = \<lparr>written = p @ hdr, quota = None\<rparr>, xw_bw = None, xw_newHash = sample_hash,
    xw_h = xz_SHA256, xw_index = [], xw_closed = False\<rparr>"
  define w1 where "w1 = w0\<lparr>xw_bw := Some (sample_block (xw_xz w0)), xw_xz := \<lparr>written = (p @ hdr) @ hb, quota = None\<rparr>\<rparr>"
  have "newBlockWriter w0 = (None, w1)" unfolding w1_def by (rule sample_new_block [OF _ _ _ hb]) (simp_all add: w0_def)
  moreover have "wc_CheckSum sample_xz_config = xz_SHA256" by (simp add: sample_xz_config_def)
  ultimately have n: "xz_NewWriter sample_sha sample_xz_config \<lparr>written = p, quota = None\<rparr> = Inr w1"
    using hdr by (simp add: xz_NewWriter_def sample_verify sample_hash xz_write_all_def bw_Write_def w0_def)
  define w2 where "w2 = w1\<lparr>xw_bw := Some (sample_block (xw_xz w1)), xw_xz := xw_xz w1\<rparr>"
  have "xz_Write [] w1 = Some (0, None, [], w2)" unfolding w2_def by (rule sample_write) (simp_all add: w1_def w0_def)
  moreover obtain w3 q where "xz_Close w2 = Some (None, w3)" "xw_xz w3 = \<lparr>written = ((p @ hdr) @ hb) @ q, quota = None\<rparr>" "length q \<le> 100"
    "w2_cstate (bw_w (the (xw_bw w3))) = Stop_T"
    using sample_xz_close [of w2 "xw_xz w1" "(p @ hdr) @ hb"] by (auto simp: w2_def w1_def w0_def)
  ultimately show ?thesis using n hdr(2) hb(2) by (simp add: xz_stream_def)
qed

lemma sample_file:
  "\<exists>bs q. xz_file sample_sha sample_runs no_file = Some (bs, \<lparr>written = q, quota = None\<rparr>) \<and> all_ended bs \<and> length q < 1000"
proof -
  obtain b1 q1 where 1: "xz_stream sample_sha sample_xz_config [[]] no_file = Some ([b1], \<lparr>written = q1, quota = None\<rparr>)"
    "w2_cstate (bw_w b1) = Stop_T" "length q1 \<le> 200" using sample_stream [of "[]"] by auto
  obtain b2 q2 where 2: "xz_stream sample_sha sample_xz_config [[]] \<lparr>written = q1 @ replicate 4 0, quota = None\<rparr> =
      Some ([b2], \<lparr>written = (q1 @ replicate 4 0) @ q2, quota = None\<rparr>)"
    "w2_cstate (bw_w b2) = Stop_T" "length q2 \<le> 200" using sample_stream by blast
  show ?thesis using 1 2 by (simp add: sample_runs_def xz_write_all_def bw_Write_def)
qed

lemma sample_fits: "config_fits (8388608) sample_xz_config"
  by code_simp

lemma sample_sha_length: "length (sample_sha d) = 32"
  by (simp add: sample_sha_def)

lemma sample_limit: "Reader2Config_Verify 0 = Inr (8388608)"
  by (simp add: Reader2Config_Verify_def Reader2Config_fill_def MinDictCap_def MaxDictCap_def)

theorem xz_roundtrip_witness:
  "\<exists>bs dest rd0 rd1 rd2. xz_file sample_sha sample_runs no_file = Some (bs, dest) \<and>
    xz_NewReader sample_sha \<lparr>rc_DictCap = 0, rc_SingleStream = False\<rparr> (rd (written dest) EOF) = Inr rd0 \<and>
    xz_reads sample_sha [1, 0] rd0 = Some ([], rd1) \<and> xz_Read sample_sha 5 rd1 = Some ([], Some (XzIo EOF), rd2)"
proof -
  obtain bs q where f: "xz_file sample_sha (hd sample_runs # tl sample_runs) no_file = Some (bs, \<lparr>written = q, quota = None\<rparr>)" "all_ended bs" "length q < 1000"
    using sample_file by (auto simp: sample_runs_def)
  from xz_roundtrip [OF sample_sha_length f(1,2), of "8388608" "\<lparr>rc_DictCap = 0, rc_SingleStream = False\<rparr>" "[]" "[1, 0]" 5] f(1,3)
  show ?thesis by (simp add: sample_fits sample_limit sample_runs_def del: xz_reads.simps xz_file.simps)
qed

theorem xz_cut_file_accepted_witness:
  "\<exists>bs dest flags hdr body recs idx ftr rd0 rd1 rd2. xz_stream sample_sha sample_xz_config [[]] no_file = Some (bs, dest) \<and>
    written dest = hdr @ body @ idx @ ftr \<and> header_MarshalBinary flags = Inr hdr \<and>
    writeIndex append_write recs [] = (length idx, None, idx) \<and>
    footer_MarshalBinary \<lparr>indexSize = int (length idx), ft_flags = flags\<rparr> = Inr ftr \<and>
    xz_NewReader sample_sha \<lparr>rc_DictCap = 0, rc_SingleStream = True\<rparr> (rd (hdr @ body) EOF) = Inr rd0 \<and>
    xz_reads sample_sha [3] rd0 = Some ([], rd1) \<and> xz_Read sample_sha 5 rd1 = Some ([], Some (XzIo EOF), rd2)"
proof -
  obtain b q where f: "xz_stream sample_sha sample_xz_config [[]] no_file = Some ([b], \<lparr>written = q, quota = None\<rparr>)"
    "all_ended [b]" "length q \<le> 200" using sample_stream [of "[]"] by auto
  have l: "Reader2Config_Verify (rc_DictCap \<lparr>rc_DictCap = 0, rc_SingleStream = True\<rparr>) = Inr 8388608"
    "length (written \<lparr>written = q, quota = None\<rparr>) < 2 ^ 63" "[] = concat [[] :: byte list]" "length ([] :: byte list) < 2 ^ 63"
    using f(3) by (simp_all add: sample_limit)
  from xz_cut_file_accepted [OF sample_sha_length f(1,2) sample_fits l, of "[3]" 5] f(1)
  show ?thesis by (simp del: xz_reads.simps) blast
qed

theorem xz_writer_returns_witness:
  "\<exists>w. xz_NewWriter sample_sha sample_xz_config no_file = Inr w \<and>
    (\<exists>err bs w'. xz_writes [[1, 2], [], [3]] w = Some (err, bs, w') \<and> (err = None \<longrightarrow> (\<exists>r. xz_Close w' = Some r)))"
proof -
  obtain w where w: "xz_NewWriter sample_sha sample_xz_config no_file = Inr w"
    using sample_stream [of "[]"] by (auto simp: xz_stream_def split: sum.splits)
  from xz_writer_returns [OF this, of "[[1, 2], [], [3]]"] w show ?thesis by (simp add: sample_xz_config_def)
qed

end
