(* ===== verification/Spec2Isabelle.thy ===== *)
theory Spec2Isabelle
  imports FilesRoundtrip BraProps LzmaProps LzmaStreamProps LzmaFileProps LzmaDictSpec LzmaSafeProps XpressProps Delta Crc XzFormatProps ArchiveNamesProps FilterPlan AesProps Lzma2Props Lzma2Safe XzProps
begin

text \<open>
  A verification library for the Go port of 7-Zip in this repository: the parts of it that carry the
  formats and the codecs, as definitions that follow the Go code, and the theorems that make them
  correct. Everything is executable; loops that may not end are \<open>partial_function (option)\<close>, so that
  not returning is the value \<open>None\<close>, and a claim that they return is proved as such.

  \<^bold>\<open>The program and its parts.\<close> An archive is opened by \<open>internal/sevenzip\<close>: its header is parsed by
  \<open>types.go\<close>, the tables of \<open>struct.go\<close> say which coders a folder chains, and the coders (LZMA, LZMA2,
  branch filters, delta, AES) are readers around readers. An archive is written by
  \<open>internal/archive7z/writer.go\<close>: inputs are planned into groups by \<open>filter_plan.go\<close>, compressed
  by \<open>internal/xz/lzma\<close> through the filters, and the header is written at the end. \<open>internal/xz\<close> is the
  xz container around LZMA2, \<open>internal/wim/xpress\<close> one of the decoders of WIM images, and
  \<open>internal/security\<close> the budgets every command spends.

  \<^bold>\<open>Conventions\<close> (\<open>Prelude\<close>). Bytes and machine integers are words of their width, with wrap-around;
  Go's \<open>int\<close> and \<open>int64\<close> are \<open>64 word\<close> or \<open>int\<close> where the source's bounds keep them small, which the
  component's text says. A slice is a list, a method that changes its receiver returns the changed
  record, an error is a value of the component's error type next to the number of bytes delivered, and
  a panic of the Go runtime (an index out of range, a call of \<open>panic\<close>) is a value of its own or \<open>None\<close>,
  so that its absence is a theorem. In the parser, the graph of decoders, the XPRESS decoder and the filter plan the
  index and slice expressions that a test keeps in range are such checked accesses (\<open>idx\<close>, \<open>set_range\<close>, \<open>xp_byte_at\<close>, \<open>header_slice\<close> and the like),
  independent of the guards in front of it; the circular buffer of LZMA is read by a total function, with the range
  of its indexes in the invariant \<open>dd_rep\<close>. Code outside \<open>src/\<close> (block ciphers, hashes of the standard library
  other than CRC-32, registries of decompressors) is an argument of the definitions that use it.

  \<^bold>\<open>The 7z header.\<close> \<open>Limits\<close> is \<open>internal/security/limits.go\<close>. \<open>Reader\<close> models the
  \<open>bufio.Reader\<close> the parser reads from, fill by fill, and the budgets of its nested readers;
  \<open>Streams\<close> is \<open>struct.go\<close> (folders, bind pairs, the graph of decoders) and \<open>HeaderRead\<close> every read
  function of \<open>types.go\<close>. \<open>HeaderSafe\<close> shows what is guaranteed for any input, \<open>HeaderTotal\<close> that the
  parser returns and never panics. \<open>HeaderWrite\<close> is the writing half in \<open>archive7z/writer.go\<close>;
  \<open>HeaderCodec\<close> states the interface of a written and a read function as the locale \<open>serializer\<close> and
  interprets it on the numbers, vectors and tables of the code, and \<open>HeaderRoundtrip\<close> and
  \<open>FilesRoundtrip\<close> compose it to the round trip of whole headers. \<open>Fills\<close> shows that the result of every read function
  of the file table depends on the bytes to come and not on the fills of the buffer they come in; \<open>readCoder\<close> does not
  have this property (it takes a short read for an error), so the round trips ask that the streams table lies in one fill
  and leave the file table free. \<open>Utf\<close> relates UTF-8, the units of UTF-16 and their bytes: the decoder of names is
  outside the repository and is only assumed to convert well-formed UTF-16. The inputs of the parser are bounded by
  1 TiB where a sum of sizes could wrap; the bound is a hypothesis of the theorems.

  \<^bold>\<open>LZMA\<close> (\<open>internal/xz/lzma\<close>), bottom up. \<open>LzmaRange\<close> is \<open>rangecodec.go\<close> and \<open>prob.go\<close>;
  \<open>RangeEncode\<close> gives the number the encoder's output denotes, \<open>RangeSync\<close> that the decoder follows it
  bit by bit, \<open>RangeRun\<close> whole streams. \<open>LzmaCodecs\<close> holds the tree, direct, length, distance and
  literal codecs; \<open>LzmaCodecProofs\<close>, \<open>LzmaDistProofs\<close> and \<open>LzmaLiteralProofs\<close> show that each undoes
  itself, as instances of the locale \<open>codec\<close>. \<open>LzmaState\<close> is the probability model, \<open>LzmaDict\<close> the
  circular buffer and the two dictionaries (\<open>LzmaDictProofs\<close>, \<open>LzmaViews\<close> and \<open>LzmaDictSpec\<close>: they refine
  the list of the bytes seen), \<open>LzmaOps\<close> the reading and writing of one operation (\<open>LzmaOpProofs\<close>),
  \<open>LzmaStream\<close> the encoder and the decoder (\<open>LzmaRunProofs\<close>, \<open>LzmaReadProofs\<close>, \<open>LzmaWriteProofs\<close>). The
  matcher of the encoder is the locale \<open>match_finder\<close>, interpreted in \<open>LzmaHashProofs\<close> on
  the hash table of \<open>LzmaHash\<close>; \<open>LzmaBinTree\<close> is the binary tree, which breaks the contract (see the property on it).
  \<open>LzmaSafe\<close> and \<open>LzmaSafeProps\<close> treat the decoder on arbitrary bytes. \<open>LzmaHeader\<close> and
  \<open>LzmaHeaderProps\<close> are the headers of files and chunks, \<open>LzmaFile\<close> and \<open>LzmaFileProps\<close> the \<open>.lzma\<close> format.
  \<open>Lzma2\<close> is \<open>reader2.go\<close> and \<open>writer2.go\<close>, the format that cuts a stream into stored and coded chunks.
  \<open>LzmaFrame\<close> shows which parts of the encoder an operation leaves alone and that a chunk can be
  closed in the room its margin keeps, \<open>Lzma2ReadProofs\<close> what the reader delivers of a sequence of chunks (the inductive predicate
  \<open>chunked\<close>), \<open>Lzma2WriteProofs\<close> what the writer writes, in the locale \<open>chunk_writer\<close> over any matcher that keeps
  its contract, and \<open>Lzma2Props\<close> interprets it on the hash table and puts both together. \<open>Lzma2Safe\<close> treats the reader on arbitrary
  bytes.

  \<^bold>\<open>Filters and other codecs.\<close> \<open>Bra\<close> is \<open>internal/sevenzip/internal/bra\<close>; \<open>BraStream\<close> states
  the streaming contract of a converter as a locale, \<open>BraConvert\<close> interprets it for every
  architecture and \<open>BraProps\<close> draws the consequences for the reader and the writer. \<open>Delta\<close>, \<open>Aes\<close> and
  \<open>AesProps\<close>, \<open>Xpress\<close> and \<open>XpressProps\<close>, and \<open>Crc\<close> (with \<open>crc32Combine\<close>) are the remaining coders.

  \<^bold>\<open>Containers and names.\<close> \<open>XzFormat\<close> and \<open>XzFormatProps\<close> are the structures of an xz stream
  (\<open>internal/xz/format.go\<close>, \<open>bits.go\<close>, \<open>lzmafilter.go\<close>). \<open>XzStream\<close> is \<open>reader.go\<close> with the checksums of \<open>crc.go\<close> and
  \<open>none-check.go\<close>, \<open>XzWriter\<close> is \<open>writer.go\<close>, both over the Go implementation of LZMA2 (the build without the
  native decoder) and with SHA-256 as a parameter. \<open>XzReadProofs\<close> says which bytes are a block, a stream and a file
  and what the readers deliver of them; \<open>XzWriteProofs\<close> and \<open>XzCloseProofs\<close> follow the writer from block to block, and
  \<open>XzProps\<close> composes them. The model of \<open>Write\<close> returns the writers of the blocks it has closed, which the
  code drops, so that a theorem can ask whether each has its end marker (\<open>Writer2.Close\<close> hides that); sizes of files and data are below
  \<open>2\<^sup>6\<^sup>3\<close>. \<open>ArchiveNames\<close> and \<open>ArchiveNamesProps\<close> are the
  cleaning of names, the target of an extraction and the wildcards of \<open>path.go\<close> and \<open>archive.go\<close>;
  \<open>FilterPlan\<close> is \<open>filter_plan.go\<close>.

  \<^bold>\<open>Fuel and bounds.\<close> No theorem is conditional on fuel: where a definition takes a bound (the parser's loop
  over properties, the matcher's search) the bound is the one in the code, or a lemma shows that
  the length of the input is enough. Dictionary capacities are those the configurations verify.

  \<^bold>\<open>Not modelled.\<close> What the Go code does through the operating system (volumes, temporary files,
  extraction, publication), goroutines and pools, the bindings of the C code of the LZMA SDK, the wrappers
  around packages that are not in the repository, the drivers of tar, zip, iso and disk images, the
  command line, and the tables of English text used by tests.
\<close>

end
